(* ===== verification/Prelude.thy ===== *)
theory Prelude
  imports Main "HOL-Library.Word" "HOL-Library.Multiset" "HOL-Library.Sublist"
begin

text \<open>
  Shared vocabulary of the development: the widths of Rust's integers, byte strings and their
  big- and little-endian integer codecs, the parts of Rust's \<open>str\<close> and integer parsing the
  sources use, UTF-8 decoding, and the interface of a byte codec (locale \<open>codec\<close>).

  A Rust \<open>str\<close> is its UTF-8 byte sequence: a \<open>char\<close> of a \<open>string\<close> here is one byte.
  \<open>usize\<close> is \<open>nat\<close> (no length in the modelled code comes near its bound); \<open>u8\<close>, \<open>u16\<close>,
  \<open>u32\<close> and \<open>u64\<close> are words, so casts and additions wrap where the code's do.
\<close>

unbundle bit_operations_syntax

type_synonym byte = "8 word"
type_synonym u16 = "16 word"
type_synonym u32 = "32 word"
type_synonym u64 = "64 word"
type_synonym bytes = "byte list"
type_synonym ('a, 'e) result = "'e + 'a"

named_theorems codec_simps \<open>lengths and inversions of the byte-level encoders\<close>
named_theorems str_simps \<open>evaluation of the string operations\<close>

section \<open>Integers as bytes\<close>

text \<open>\<open>to_be_bytes\<close> on \<open>n\<close> bytes: the most significant byte first; a value too large for
  \<open>n\<close> bytes loses its high part, as an \<open>as\<close> cast does.\<close>

fun be_bytes :: "nat \<Rightarrow> nat \<Rightarrow> bytes" where
  "be_bytes 0 v = []"
| "be_bytes (Suc n) v = be_bytes n (v div 256) @ [word_of_nat v]"

definition be_val :: "bytes \<Rightarrow> nat" where
  "be_val bs = foldl (\<lambda>a b. a * 256 + unat b) 0 bs"

definition le_bytes :: "nat \<Rightarrow> nat \<Rightarrow> bytes" where
  "le_bytes n v = rev (be_bytes n v)"

lemma be_val_Nil [simp]: "be_val [] = 0"
  by (simp add: be_val_def)

lemma be_val_snoc [simp]: "be_val (bs @ [b]) = be_val bs * 256 + unat b"
  by (simp add: be_val_def)

lemma length_be_bytes [simp, codec_simps]: "length (be_bytes n v) = n"
  by (induction n arbitrary: v) auto

lemma unat_bound: "unat (w :: 'a::len word) < 2 ^ LENGTH('a)"
  by (rule unsigned_less)

lemma unat_byte_lt [simp]: "unat (b :: byte) < 256"
  using unat_bound [of b] by simp

lemma unat_byte_not_ge [simp]: "\<not> 256 \<le> unat (b :: byte)"
  by (simp add: not_le)

lemma unat_byte_of_nat [simp]: "unat (word_of_nat v :: byte) = v mod 256"
  by (simp add: unat_of_nat)

lemma div_mod_256_split: "(v div 256 mod 256 ^ n) * 256 + v mod 256 = v mod (256 ^ Suc n :: nat)"
  by (simp add: mod_mult2_eq [of v 256 "256 ^ n"] mult.commute)

lemma be_val_be_bytes [simp, codec_simps]: "be_val (be_bytes n v) = v mod 256 ^ n"
proof (induction n arbitrary: v)
  case 0
  then show ?case by simp
next
  case (Suc n)
  then show ?case using div_mod_256_split [of v n] by simp
qed

lemma be_val_less: "be_val bs < 256 ^ length bs"
proof (induction bs rule: rev_induct)
  case Nil
  then show ?case by simp
next
  case (snoc b bs)
  have "be_val bs * 256 + unat b < (be_val bs + 1) * 256"
    using unat_byte_lt [of b] by simp
  also have "\<dots> \<le> 256 ^ length bs * 256"
    using snoc by (intro mult_le_mono1) simp
  finally show ?case by (simp add: mult.commute)
qed

lemma be_bytes_be_val [simp, codec_simps]: "n = length bs \<Longrightarrow> be_bytes n (be_val bs) = bs"
proof (induction bs arbitrary: n rule: rev_induct)
  case Nil
  then show ?case by simp
next
  case (snoc b bs)
  have "(be_val bs * 256 + unat b) div 256 = be_val bs"
    using unat_byte_lt [of b] by simp
  moreover have "word_of_nat (be_val bs * 256 + unat b) = b"
    by (rule word_unat_eq_iff [THEN iffD2]) (simp add: unat_of_nat del: of_nat_add of_nat_mult)
  ultimately show ?case using snoc by simp
qed

lemma be_val_inj: "length bs = length cs \<Longrightarrow> be_val bs = be_val cs \<Longrightarrow> bs = cs"
  by (metis be_bytes_be_val)

lemma be_bytes_inj: "a < 256 ^ n \<Longrightarrow> b < 256 ^ n \<Longrightarrow> be_bytes n a = be_bytes n b \<Longrightarrow> a = b"
  by (metis be_val_be_bytes mod_less)

text \<open>The cursor operations of the \<open>bytes\<close> crate's \<open>Buf\<close>/\<open>BufMut\<close> used by the wire formats:
  big-endian puts, and the value read by the matching gets.\<close>

definition put_u16 :: "u16 \<Rightarrow> bytes" where "put_u16 w = be_bytes 2 (unat w)"
definition put_u32 :: "u32 \<Rightarrow> bytes" where "put_u32 w = be_bytes 4 (unat w)"
definition put_u64 :: "u64 \<Rightarrow> bytes" where "put_u64 w = be_bytes 8 (unat w)"

definition get_u16 :: "bytes \<Rightarrow> u16" where "get_u16 bs = word_of_nat (be_val (take 2 bs))"
definition get_u32 :: "bytes \<Rightarrow> u32" where "get_u32 bs = word_of_nat (be_val (take 4 bs))"
definition get_u64 :: "bytes \<Rightarrow> u64" where "get_u64 bs = word_of_nat (be_val (take 8 bs))"

lemma length_put [simp, codec_simps]:
  "length (put_u16 a) = 2" "length (put_u32 b) = 4" "length (put_u64 c) = 8"
  by (simp_all add: put_u16_def put_u32_def put_u64_def)

lemma get_put_u16 [simp, codec_simps]: "get_u16 (put_u16 w @ r) = w"
  using unat_bound [of w] by (simp add: get_u16_def put_u16_def)

lemma get_put_u32 [simp, codec_simps]: "get_u32 (put_u32 w @ r) = w"
  using unat_bound [of w] by (simp add: get_u32_def put_u32_def)

lemma get_put_u64 [simp, codec_simps]: "get_u64 (put_u64 w @ r) = w"
  using unat_bound [of w] by (simp add: get_u64_def put_u64_def)

lemma put_get_u16: "2 \<le> length bs \<Longrightarrow> put_u16 (get_u16 bs) = take 2 bs"
proof -
  assume "2 \<le> length bs"
  then have l: "length (take 2 bs) = 2" by simp
  then have "be_val (take 2 bs) < 2 ^ 16"
    using be_val_less [of "take 2 bs"] by simp
  with l show ?thesis by (simp add: get_u16_def put_u16_def unat_of_nat)
qed

lemma put_get_u32: "4 \<le> length bs \<Longrightarrow> put_u32 (get_u32 bs) = take 4 bs"
proof -
  assume "4 \<le> length bs"
  then have l: "length (take 4 bs) = 4" by simp
  then have "be_val (take 4 bs) < 2 ^ 32"
    using be_val_less [of "take 4 bs"] by simp
  with l show ?thesis by (simp add: get_u32_def put_u32_def unat_of_nat)
qed

lemma put_get_u64: "8 \<le> length bs \<Longrightarrow> put_u64 (get_u64 bs) = take 8 bs"
proof -
  assume "8 \<le> length bs"
  then have l: "length (take 8 bs) = 8" by simp
  then have "be_val (take 8 bs) < 2 ^ 64"
    using be_val_less [of "take 8 bs"] by simp
  with l show ?thesis by (simp add: get_u64_def put_u64_def unat_of_nat)
qed

lemma put_u64_inj: "put_u64 a = put_u64 b \<Longrightarrow> a = b"
  by (metis get_put_u64 append_Nil2)

lemma le_bytes_inj: "a < 256 ^ n \<Longrightarrow> b < 256 ^ n \<Longrightarrow> le_bytes n a = le_bytes n b \<Longrightarrow> a = b"
  by (simp add: le_bytes_def be_bytes_inj)

lemma length_le_bytes [simp, codec_simps]: "length (le_bytes n v) = n"
  by (simp add: le_bytes_def)

lemma unat_u32_of_nat [simp]: "v < 2 ^ 32 \<Longrightarrow> unat (word_of_nat v :: u32) = v"
  by (simp add: unat_of_nat)

lemma unat_u64_of_nat [simp]: "v < 2 ^ 64 \<Longrightarrow> unat (word_of_nat v :: u64) = v"
  by (simp add: unat_of_nat)

lemma unat_Suc_u64: "unat (s :: u64) < 2 ^ 64 - 1 \<Longrightarrow> unat (s + 1) = Suc (unat s)"
  by (simp add: unat_word_ariths)

section \<open>The interface of a codec\<close>

text \<open>
  What every encoder/decoder pair of the program promises its callers: a well-formed value
  survives the trip, and whatever decodes is well-formed. Injectivity of the encoder and
  canonicalisation by the decoder follow once and for all.
\<close>

locale codec =
  fixes enc :: "'a \<Rightarrow> 'b"
    and dec :: "'b \<Rightarrow> 'a option"
    and wf :: "'a \<Rightarrow> bool"
  assumes dec_enc: "wf x \<Longrightarrow> dec (enc x) = Some x"
    and dec_wf: "dec y = Some x \<Longrightarrow> wf x"
begin

lemma enc_inj: "wf x \<Longrightarrow> wf y \<Longrightarrow> enc x = enc y \<Longrightarrow> x = y"
  by (metis dec_enc option.inject)

lemma dec_canonical: "dec y = Some x \<Longrightarrow> dec (enc x) = Some x"
  by (blast intro: dec_enc dec_wf)

lemma dec_range: "(\<exists>y. dec y = Some x) \<longleftrightarrow> wf x"
  by (blast intro: dec_enc dec_wf)

end

definition ok :: "'e + 'a \<Rightarrow> 'a option" where
  "ok r = (case r of Inl _ \<Rightarrow> None | Inr x \<Rightarrow> Some x)"

lemma ok_simps [simp]: "ok (Inl e) = None" "ok (Inr x) = Some x"
  by (simp_all add: ok_def)

lemma ok_Some [simp]: "ok r = Some x \<longleftrightarrow> r = Inr x"
  by (cases r) auto

end
