(* ===== verification/Wire_Frame.thy ===== *)
theory Wire_Frame
  imports Prelude
begin

text \<open>
  The binary wire format of the Drive mailbox (\<^verbatim>\<open>drive-wire/src/frame.rs\<close>): the frame header and
  payload (\<open>encode_frame\<close>, \<open>decode_frame\<close>), the multi-frame batch body (\<open>encode_batch\<close>,
  \<open>decode_batch\<close>), and the decode errors as values. Shown: both codecs round-trip on the
  values the senders build; whatever decodes is well-formed and starts with its own encoding;
  a frame is rejected with exactly the error its first defect calls for; and how far
  \<open>decode_batch\<close> is from accepting only images of \<open>encode_batch\<close>.
\<close>

section \<open>Data\<close>

definition WIRE_VERSION :: byte where "WIRE_VERSION = 1"
definition HEADER_LEN :: nat where "HEADER_LEN = 30"
definition MAX_PAYLOAD :: u32 where "MAX_PAYLOAD = 4 * 1024 * 1024"

type_synonym session_id = bytes

definition wf_sid :: "session_id \<Rightarrow> bool" where
  "wf_sid sid \<longleftrightarrow> length sid = 16"

datatype frame_kind = KHello | KConnect | KData | KEof | KClose | KError

fun kind_byte :: "frame_kind \<Rightarrow> byte" where
  "kind_byte KHello = 1"
| "kind_byte KConnect = 2"
| "kind_byte KData = 3"
| "kind_byte KEof = 4"
| "kind_byte KClose = 5"
| "kind_byte KError = 6"

definition from_u8 :: "byte \<Rightarrow> frame_kind option" where
  "from_u8 b =
     (if b = 1 then Some KHello
      else if b = 2 then Some KConnect
      else if b = 3 then Some KData
      else if b = 4 then Some KEof
      else if b = 5 then Some KClose
      else if b = 6 then Some KError
      else None)"

record wire_frame =
  fr_version :: byte
  fr_kind :: frame_kind
  fr_sid :: session_id
  fr_seq :: u64
  fr_payload :: bytes

datatype decode_error =
    TooShort nat
  | UnsupportedVersion byte
  | UnknownKind byte
  | PayloadTooLarge u32
  | PayloadTruncated u32 nat
  | BatchBadMagic
  | BatchBadCount byte
  | BatchFrameTruncated byte u32 nat
  | BatchFrameDecode byte decode_error
  | BatchTrailingBytes nat

section \<open>One frame\<close>

definition encode_frame :: "wire_frame \<Rightarrow> bytes" where
  "encode_frame f =
     [fr_version f, kind_byte (fr_kind f)] @ fr_sid f @ put_u64 (fr_seq f)
       @ put_u32 (word_of_nat (length (fr_payload f))) @ fr_payload f"

definition decode_frame :: "bytes \<Rightarrow> (wire_frame, decode_error) result" where
  "decode_frame input =
     (if length input < HEADER_LEN then Inl (TooShort (length input)) else
      let v = input ! 0 in
      if v \<noteq> WIRE_VERSION then Inl (UnsupportedVersion v) else
      (case from_u8 (input ! 1) of
         None \<Rightarrow> Inl (UnknownKind (input ! 1))
       | Some k \<Rightarrow>
           let s = take 16 (drop 2 input);
               q = get_u64 (drop 18 input);
               len = get_u32 (drop 26 input);
               rest = drop 30 input in
           if len > MAX_PAYLOAD then Inl (PayloadTooLarge len)
           else if length rest < unat len then Inl (PayloadTruncated len (length rest))
           else Inr \<lparr>fr_version = v, fr_kind = k, fr_sid = s, fr_seq = q, fr_payload = take (unat len) rest\<rparr>))"

text \<open>The frames the senders of this build produce: current version, a 16-byte session id and a
  payload within the cap.\<close>

definition wf_frame :: "wire_frame \<Rightarrow> bool" where
  "wf_frame f \<longleftrightarrow>
     fr_version f = WIRE_VERSION \<and> wf_sid (fr_sid f) \<and> length (fr_payload f) \<le> unat MAX_PAYLOAD"

section \<open>A batch of frames\<close>

definition BATCH_MAGIC :: bytes where "BATCH_MAGIC = [0x52, 0x47, 0x32, 0x42]"
definition MAX_BATCH_FRAMES :: nat where "MAX_BATCH_FRAMES = 255"
definition BATCH_HEADER_LEN :: nat where "BATCH_HEADER_LEN = 5"
definition BATCH_PER_FRAME_OVERHEAD :: nat where "BATCH_PER_FRAME_OVERHEAD = 4"

record batch =
  b_frames :: "wire_frame list"

definition encode_entry :: "wire_frame \<Rightarrow> bytes" where
  "encode_entry f =
     (let encoded = encode_frame f in put_u32 (word_of_nat (length encoded)) @ encoded)"

text \<open>The debug assertions on the frame count are not part of a release build: the count byte is
  the length cast to \<open>u8\<close>.\<close>

definition encode_batch :: "batch \<Rightarrow> bytes" where
  "encode_batch b =
     BATCH_MAGIC @ [word_of_nat (length (b_frames b))] @ concat (map encode_entry (b_frames b))"

text \<open>The \<open>for index in 0..count\<close> loop; \<open>n\<close> is \<open>count - index\<close>.\<close>

fun decode_entries :: "nat \<Rightarrow> byte \<Rightarrow> bytes \<Rightarrow> wire_frame list
    \<Rightarrow> (wire_frame list \<times> bytes, decode_error) result" where
  "decode_entries 0 index cursor fs = Inr (fs, cursor)"
| "decode_entries (Suc n) index cursor fs =
     (if length cursor < BATCH_PER_FRAME_OVERHEAD
      then Inl (BatchFrameTruncated index 0 (length cursor)) else
      let frame_len = get_u32 cursor; cursor' = drop 4 cursor in
      if length cursor' < unat frame_len
      then Inl (BatchFrameTruncated index frame_len (length cursor')) else
      (case decode_frame (take (unat frame_len) cursor') of
         Inl e \<Rightarrow> Inl (BatchFrameDecode index e)
       | Inr f \<Rightarrow> decode_entries n (index + 1) (drop (unat frame_len) cursor') (fs @ [f])))"

definition decode_batch :: "bytes \<Rightarrow> (batch, decode_error) result" where
  "decode_batch input =
     (if length input < BATCH_HEADER_LEN then Inl (TooShort (length input)) else
      if take 4 input \<noteq> BATCH_MAGIC then Inl BatchBadMagic else
      let count = input ! 4 in
      if count = 0 \<or> unat count > MAX_BATCH_FRAMES then Inl (BatchBadCount count) else
      (case decode_entries (unat count) 0 (drop 5 input) [] of
         Inl e \<Rightarrow> Inl e
       | Inr (fs, cursor) \<Rightarrow>
           if cursor \<noteq> [] then Inl (BatchTrailingBytes (length cursor))
           else Inr \<lparr>b_frames = fs\<rparr>))"

definition batch_single :: "wire_frame \<Rightarrow> batch" where
  "batch_single f = \<lparr>b_frames = [f]\<rparr>"

definition wf_batch :: "batch \<Rightarrow> bool" where
  "wf_batch b \<longleftrightarrow>
     b_frames b \<noteq> [] \<and> length (b_frames b) \<le> MAX_BATCH_FRAMES \<and> list_all wf_frame (b_frames b)"

section \<open>The frame codec\<close>

lemmas frame_consts = WIRE_VERSION_def HEADER_LEN_def MAX_PAYLOAD_def BATCH_MAGIC_def
  MAX_BATCH_FRAMES_def BATCH_HEADER_LEN_def BATCH_PER_FRAME_OVERHEAD_def

lemma from_u8_kind_byte [simp]: "from_u8 (kind_byte k) = Some k"
  by (cases k) (simp_all add: from_u8_def)

lemma from_u8_Some: "from_u8 b = Some k \<Longrightarrow> kind_byte k = b"
  by (auto simp: from_u8_def split: if_splits)

lemma unat_MAX_PAYLOAD [simp]: "unat MAX_PAYLOAD = 4194304"
  by (simp add: MAX_PAYLOAD_def)

lemma payload_len_cast:
  "length p \<le> unat MAX_PAYLOAD \<Longrightarrow> unat (word_of_nat (length p) :: u32) = length p"
  by simp

lemma length_encode_frame [codec_simps]:
  "wf_sid (fr_sid f) \<Longrightarrow> length (encode_frame f) = HEADER_LEN + length (fr_payload f)"
  by (simp add: encode_frame_def wf_sid_def HEADER_LEN_def)

lemma decode_encode_frame_append:
  assumes "wf_frame f"
  shows "decode_frame (encode_frame f @ extra) = Inr f"
proof -
  from assms have v: "fr_version f = WIRE_VERSION" and s: "length (fr_sid f) = 16"
    and p: "length (fr_payload f) \<le> unat MAX_PAYLOAD"
    by (simp_all add: wf_frame_def wf_sid_def)
  let ?len = "word_of_nat (length (fr_payload f)) :: u32"
  have len: "unat ?len = length (fr_payload f)" using p by (rule payload_len_cast)
  then have small: "\<not> ?len > MAX_PAYLOAD" using p by (simp add: word_less_nat_alt)
  let ?in = "encode_frame f @ extra"
  have "?in ! 0 = fr_version f" "?in ! 1 = kind_byte (fr_kind f)" "take 16 (drop 2 ?in) = fr_sid f"
    "drop 18 ?in = put_u64 (fr_seq f) @ put_u32 ?len @ fr_payload f @ extra"
    "drop 26 ?in = put_u32 ?len @ fr_payload f @ extra" "drop 30 ?in = fr_payload f @ extra"
    "\<not> length ?in < HEADER_LEN"
    using s by (simp_all add: encode_frame_def HEADER_LEN_def)
  then show ?thesis
    using v len small by (simp add: decode_frame_def)
qed

lemma take_header:
  "take (30 + n) bs = take 2 bs @ take 16 (drop 2 bs) @ take 8 (drop 18 bs) @ take 4 (drop 26 bs)
     @ take n (drop 30 bs)"
proof -
  have "take (2 + (16 + (8 + (4 + n)))) bs = take 2 bs @ take 16 (drop 2 bs)
      @ take 8 (drop 18 bs) @ take 4 (drop 26 bs) @ take n (drop 30 bs)"
    by (simp only: take_add drop_drop) simp
  then show ?thesis by simp
qed

lemma decode_frame_prefix:
  assumes "decode_frame bs = Inr f"
  shows "wf_frame f \<and> take (HEADER_LEN + length (fr_payload f)) bs = encode_frame f"
proof -
  let ?len = "get_u32 (drop 26 bs)"
  from assms have n: "30 \<le> length bs" and v: "bs ! 0 = WIRE_VERSION"
    and k: "from_u8 (bs ! 1) = Some (fr_kind f)" and le: "?len \<le> MAX_PAYLOAD"
    and r: "unat ?len \<le> length (drop 30 bs)"
    and f: "f = \<lparr>fr_version = bs ! 0, fr_kind = fr_kind f, fr_sid = take 16 (drop 2 bs),
      fr_seq = get_u64 (drop 18 bs), fr_payload = take (unat ?len) (drop 30 bs)\<rparr>"
    by (auto simp: decode_frame_def Let_def HEADER_LEN_def not_less
        split: if_splits option.splits)
  from le have "unat ?len \<le> unat MAX_PAYLOAD" by (simp add: word_le_nat_alt)
  moreover have pl: "length (fr_payload f) = unat ?len" using r by (subst f) simp
  ultimately have wf: "wf_frame f"
    using v n by (subst f) (simp add: wf_frame_def wf_sid_def)
  have q: "put_u64 (fr_seq f) = take 8 (drop 18 bs)"
    using n by (subst f) (simp add: put_get_u64)
  have l: "put_u32 ?len = take 4 (drop 26 bs)"
    using n by (simp add: put_get_u32)
  have ne: "bs \<noteq> []" using n by auto
  have two: "take 2 bs = [fr_version f, kind_byte (fr_kind f)]"
    using n ne from_u8_Some [OF k] take_Suc_conv_app_nth [of 0 bs] take_Suc_conv_app_nth [of 1 bs]
    by (subst f) (simp add: numeral_2_eq_2)
  note parts = take_header [of "unat ?len" bs]
  have s: "take 16 (drop 2 bs) = fr_sid f" and p: "take (unat ?len) (drop 30 bs) = fr_payload f"
    by (subst f, simp)+
  show ?thesis
    using wf by (simp add: encode_frame_def HEADER_LEN_def pl parts q l two s p)
qed


interpretation wire: codec encode_frame "\<lambda>bs. ok (decode_frame bs)" wf_frame
proof
  fix f assume "wf_frame f"
  then show "ok (decode_frame (encode_frame f)) = Some f"
    using decode_encode_frame_append [of f "[]"] by simp
next
  fix bs f assume "ok (decode_frame bs) = Some f"
  then show "wf_frame f" using decode_frame_prefix by simp
qed


definition sample_frame :: wire_frame where
  "sample_frame =
     \<lparr>fr_version = 1, fr_kind = KData, fr_sid = replicate 16 7, fr_seq = 42, fr_payload = [1, 2, 3]\<rparr>"

lemma wf_sample_frame: "wf_frame sample_frame"
  by (simp add: sample_frame_def wf_frame_def wf_sid_def WIRE_VERSION_def)

lemma decode_frame_iff:
  "decode_frame bs = Inr f \<longleftrightarrow> wf_frame f \<and> (\<exists>extra. bs = encode_frame f @ extra)"
proof
  assume "decode_frame bs = Inr f"
  from decode_frame_prefix [OF this] have "wf_frame f"
    and "take (HEADER_LEN + length (fr_payload f)) bs = encode_frame f" by auto
  then show "wf_frame f \<and> (\<exists>extra. bs = encode_frame f @ extra)" by (metis append_take_drop_id)
next
  assume "wf_frame f \<and> (\<exists>extra. bs = encode_frame f @ extra)"
  then show "decode_frame bs = Inr f" by (auto intro: decode_encode_frame_append)
qed

text \<open>The frame decoder accepts exactly the buffers that start with the encoding of a
  well-formed frame (current version, 16-byte session id, payload within 4 MiB), and returns that
  frame; bytes after the declared payload are ignored.\<close>

theorem frame_decode_iff:
  "decode_frame bs = Inr f \<longleftrightarrow> wf_frame f \<and> (\<exists>extra. bs = encode_frame f @ extra)"
  by (rule decode_frame_iff)

section \<open>The batch codec\<close>

lemma length_encode_frame_u32:
  assumes "wf_frame f"
  shows "length (encode_frame f) < 2 ^ 32"
proof -
  from assms have "length (fr_payload f) \<le> 4194304" "wf_sid (fr_sid f)"
    by (simp_all add: wf_frame_def)
  then show ?thesis by (simp add: length_encode_frame HEADER_LEN_def)
qed

text \<open>An entry of a batch body as the decoder sees it: a frame's encoding followed by \<open>slack\<close>,
  both counted by the length prefix. The encoder writes entries without slack.\<close>

definition slack_entry :: "wire_frame \<Rightarrow> bytes \<Rightarrow> bytes" where
  "slack_entry f slack =
     put_u32 (word_of_nat (length (encode_frame f @ slack))) @ encode_frame f @ slack"

lemma encode_entry_slack: "encode_entry f = slack_entry f []"
  by (simp add: encode_entry_def slack_entry_def Let_def)

lemma concat_entries_slack:
  "concat (map encode_entry fs) = concat (map2 slack_entry fs (replicate (length fs) []))"
  by (induction fs) (simp_all add: encode_entry_slack)

definition slack_fits :: "wire_frame list \<Rightarrow> bytes list \<Rightarrow> bool" where
  "slack_fits fs ts \<longleftrightarrow>
     length ts = length fs \<and> list_all2 (\<lambda>f t. length (encode_frame f @ t) < 2 ^ 32) fs ts"

lemma decode_entries_step:
  assumes "length e < 2 ^ 32" "decode_frame e = Inr f"
  shows "decode_entries (Suc n) i (put_u32 (word_of_nat (length e)) @ e @ rest) acc
       = decode_entries n (i + 1) rest (acc @ [f])"
  using assms by (simp add: BATCH_PER_FRAME_OVERHEAD_def Let_def)

lemma decode_entries_slack:
  assumes "list_all wf_frame fs" "slack_fits fs ts"
  shows "decode_entries (length fs) i (concat (map2 slack_entry fs ts) @ r) acc = Inr (acc @ fs, r)"
  using assms
proof (induction fs arbitrary: ts i acc)
  case Nil
  then show ?case by simp
next
  case (Cons f fs)
  from Cons.prems obtain t us where ts: "ts = t # us" and fits: "slack_fits fs us"
    and len: "length (encode_frame f @ t) < 2 ^ 32"
    by (auto simp: slack_fits_def list_all2_Cons1)
  have d: "decode_frame (encode_frame f @ t) = Inr f"
    using Cons.prems by (simp add: decode_encode_frame_append)
  have e: "concat (map2 slack_entry (f # fs) ts) @ r
      = put_u32 (word_of_nat (length (encode_frame f @ t))) @ (encode_frame f @ t)
        @ concat (map2 slack_entry fs us) @ r"
    by (simp add: ts slack_entry_def)
  have "decode_entries (Suc (length fs)) i (concat (map2 slack_entry (f # fs) ts) @ r) acc
      = decode_entries (length fs) (i + 1) (concat (map2 slack_entry fs us) @ r) (acc @ [f])"
    unfolding e by (rule decode_entries_step [OF len d])
  also have "\<dots> = Inr ((acc @ [f]) @ fs, r)"
    using Cons.prems fits by (intro Cons.IH) simp_all
  finally show ?case by (simp only: list.size append.assoc append.simps add_0_right add_Suc_right)
qed

lemma decode_entries_inv:
  assumes "decode_entries n i cur acc = Inr (fs, r)"
  shows "\<exists>gs ts. fs = acc @ gs \<and> length gs = n \<and> list_all wf_frame gs \<and> slack_fits gs ts
           \<and> cur = concat (map2 slack_entry gs ts) @ r"
  using assms
proof (induction n arbitrary: i cur acc)
  case 0
  then show ?case by (auto simp: slack_fits_def)
next
  case (Suc n)
  let ?l = "get_u32 cur" and ?c = "drop 4 cur"
  from Suc.prems obtain f where len: "4 \<le> length cur" "unat ?l \<le> length ?c"
    and f: "decode_frame (take (unat ?l) ?c) = Inr f"
    and rec: "decode_entries n (i + 1) (drop (unat ?l) ?c) (acc @ [f]) = Inr (fs, r)"
    by (auto simp: BATCH_PER_FRAME_OVERHEAD_def Let_def not_less split: if_splits sum.splits)
  from Suc.IH [OF rec] obtain gs ts where IH: "fs = (acc @ [f]) @ gs" "length gs = n"
      "list_all wf_frame gs" "slack_fits gs ts"
      "drop (unat ?l) ?c = concat (map2 slack_entry gs ts) @ r"
    by auto
  from f obtain t where wf: "wf_frame f" and t: "take (unat ?l) ?c = encode_frame f @ t"
    by (auto simp: decode_frame_iff)
  have ln: "length (encode_frame f @ t) = unat ?l"
    using len unfolding t [symmetric] by simp
  then have "put_u32 (word_of_nat (length (encode_frame f @ t))) = take 4 cur"
    using len by (simp add: put_get_u32 del: length_append)
  then have "slack_entry f t = take 4 cur @ take (unat ?l) ?c"
    by (simp add: slack_entry_def t del: length_append)
  then have "cur = slack_entry f t @ concat (map2 slack_entry gs ts) @ r"
    using IH(5) by (metis append.assoc append_take_drop_id)
  moreover have "slack_fits (f # gs) (t # ts)"
    using IH(4) ln unat_bound [of ?l] by (simp add: slack_fits_def)
  ultimately show ?case
    using IH wf by (intro exI [of _ "f # gs"] exI [of _ "t # ts"]) simp
qed

lemma unat_count_byte:
  "length fs \<le> MAX_BATCH_FRAMES \<Longrightarrow> unat (word_of_nat (length fs) :: byte) = length fs"
  by (simp add: MAX_BATCH_FRAMES_def)

lemma decode_batch_iff:
  "decode_batch bs = Inr b \<longleftrightarrow>
     wf_batch b \<and> (\<exists>ts. slack_fits (b_frames b) ts \<and>
       bs = BATCH_MAGIC @ word_of_nat (length (b_frames b))
              # concat (map2 slack_entry (b_frames b) ts))"
    (is "?L \<longleftrightarrow> ?R")
proof
  assume ?L
  let ?n = "unat (bs ! 4)"
  from \<open>?L\<close> obtain fs where len: "5 \<le> length bs" and m: "take 4 bs = BATCH_MAGIC"
    and n: "?n \<noteq> 0" and d: "decode_entries ?n 0 (drop 5 bs) [] = Inr (fs, [])"
    and b: "b = \<lparr>b_frames = fs\<rparr>"
    by (auto simp: decode_batch_def BATCH_HEADER_LEN_def Let_def unat_eq_0
        split: if_splits sum.splits prod.splits)
  from decode_entries_inv [OF d] obtain ts where fs: "length fs = ?n" "list_all wf_frame fs"
    "slack_fits fs ts" "drop 5 bs = concat (map2 slack_entry fs ts)"
    by auto
  have "bs = take 4 bs @ bs ! 4 # drop 5 bs"
    using len id_take_nth_drop [of 4 bs] by simp
  then have "bs = BATCH_MAGIC @ word_of_nat (length fs) # concat (map2 slack_entry fs ts)"
    using m fs(1,4) by simp
  moreover have "?n \<le> 255" using unat_byte_lt [of "bs ! 4"] by linarith
  then have "wf_batch b"
    using fs n b by (auto simp: wf_batch_def MAX_BATCH_FRAMES_def)
  ultimately show ?R using fs(3) b by auto
next
  assume ?R
  then obtain ts where wf: "wf_batch b" and fits: "slack_fits (b_frames b) ts"
    and bs: "bs = BATCH_MAGIC @ word_of_nat (length (b_frames b))
      # concat (map2 slack_entry (b_frames b) ts)" by blast
  have u: "unat (bs ! 4) = length (b_frames b)"
    using wf unat_count_byte [of "b_frames b"] by (simp add: bs BATCH_MAGIC_def wf_batch_def)
  with wf have "bs ! 4 \<noteq> 0" by (auto simp: wf_batch_def)
  moreover have "decode_entries (length (b_frames b)) 0 (drop 5 bs) [] = Inr (b_frames b, [])"
    using decode_entries_slack [of "b_frames b" ts 0 "[]" "[]"] wf fits
    by (simp add: bs BATCH_MAGIC_def wf_batch_def)
  moreover have "take 4 bs = BATCH_MAGIC" "5 \<le> length bs"
    by (simp_all add: bs BATCH_MAGIC_def)
  ultimately show ?L
    using wf u by (simp add: decode_batch_def BATCH_HEADER_LEN_def wf_batch_def)
qed

text \<open>C35: a body decodes to a batch exactly when it is the magic, the frame count (1 to 255) and
  that many well-formed frames, each behind a length prefix that covers the frame and any slack
  after it; nothing may follow the last entry.\<close>

theorem batch_decode_iff:
  "decode_batch bs = Inr b \<longleftrightarrow>
     wf_batch b \<and> (\<exists>ts. slack_fits (b_frames b) ts \<and>
       bs = BATCH_MAGIC @ word_of_nat (length (b_frames b))
              # concat (map2 slack_entry (b_frames b) ts))"
  by (rule decode_batch_iff)

lemma decode_encode_batch: "wf_batch b \<Longrightarrow> decode_batch (encode_batch b) = Inr b"
proof -
  assume wf: "wf_batch b"
  let ?ts = "replicate (length (b_frames b)) []"
  have "slack_fits (b_frames b) ?ts"
    using wf length_encode_frame_u32
    by (fastforce simp: slack_fits_def wf_batch_def list_all2_conv_all_nth list_all_length)
  moreover have "encode_batch b = BATCH_MAGIC @ word_of_nat (length (b_frames b))
      # concat (map2 slack_entry (b_frames b) ?ts)"
    by (simp add: encode_batch_def concat_entries_slack)
  ultimately show ?thesis using wf by (auto simp: decode_batch_iff)
qed

lemma decode_batch_wf: "decode_batch bs = Inr b \<Longrightarrow> wf_batch b"
  by (simp add: decode_batch_iff)

interpretation batch_codec: codec encode_batch "\<lambda>bs. ok (decode_batch bs)" wf_batch
  by unfold_locales (simp_all add: decode_encode_batch decode_batch_wf)

text \<open>A batch of 1 to 255 well-formed frames decodes to itself from its own encoding.\<close>

theorem batch_roundtrip: "wf_batch b \<Longrightarrow> decode_batch (encode_batch b) = Inr b"
  by (rule decode_encode_batch)

lemma wf_batch_single: "wf_frame f \<Longrightarrow> wf_batch (batch_single f)"
  by (simp add: batch_single_def wf_batch_def MAX_BATCH_FRAMES_def)

theorem batch_roundtrip_witness:
  "decode_batch (encode_batch (batch_single sample_frame)) = Inr (batch_single sample_frame)"
  by (rule batch_roundtrip) (rule wf_batch_single [OF wf_sample_frame])

text \<open>The batch decoder is not strict about entry lengths: some accepted body carries a length
  prefix larger than the frame it holds, so it is not the encoding of any batch it could have come
  from.\<close>

theorem batch_decode_accepts_slack:
  "\<exists>bs b. decode_batch bs = Inr b \<and> bs \<notin> encode_batch ` {b'. wf_batch b'}"
proof -
  let ?b = "batch_single sample_frame"
  let ?bs = "BATCH_MAGIC @ word_of_nat 1 # slack_entry sample_frame [0]"
  have "length (encode_frame sample_frame) = 33"
    using length_encode_frame [of sample_frame] wf_sample_frame
    by (simp add: wf_frame_def HEADER_LEN_def sample_frame_def)
  then have fits: "slack_fits [sample_frame] [[0]]" by (simp add: slack_fits_def)
  have d: "decode_batch ?bs = Inr ?b"
    unfolding decode_batch_iff
    using fits wf_batch_single [OF wf_sample_frame]
    by (intro conjI exI [of _ "[[0]]"]) (simp_all add: batch_single_def)
  have "encode_batch b' \<noteq> ?bs" if "wf_batch b'" for b'
  proof
    assume e: "encode_batch b' = ?bs"
    with d that have "b' = ?b" by (metis decode_encode_batch sum.inject(2))
    with e show False
      by (simp add: encode_batch_def batch_single_def encode_entry_slack slack_entry_def)
  qed
  then have "?bs \<notin> encode_batch ` {b'. wf_batch b'}" by (metis imageE mem_Collect_eq)
  with d show ?thesis by blast
qed

end
