(* ===== verification/Rust_Str.thy ===== *)
theory Rust_Str
  imports Prelude
begin

text \<open>
  The operations of Rust's \<open>str\<close> and of its integer parsing the sources call, on UTF-8 byte
  strings: prefix stripping, splitting, trimming, ASCII case folding, decimal printing and
  \<open>parse::<uN>\<close>, and UTF-8 validation with the lossy decoding of \<open>String::from_utf8_lossy\<close>.
  Proved here: printing and parsing decimals are inverse within the type's range, splitting at a
  separator that occurs only once is exact, and lossy decoding leaves valid UTF-8 alone.
\<close>

section \<open>Bytes and characters\<close>

definition byte_of_char :: "char \<Rightarrow> byte" where "byte_of_char c = word_of_nat (of_char c)"
definition char_of_byte :: "byte \<Rightarrow> char" where "char_of_byte b = char_of (unat b)"

definition as_bytes :: "string \<Rightarrow> bytes" where "as_bytes s = map byte_of_char s"
definition str_of_bytes :: "bytes \<Rightarrow> string" where "str_of_bytes bs = map char_of_byte bs"

lemma char_of_byte_of_char [simp]: "char_of_byte (byte_of_char c) = c"
  by (simp add: char_of_byte_def byte_of_char_def)

lemma byte_of_char_of_byte [simp]: "byte_of_char (char_of_byte b) = b"
  by (simp add: char_of_byte_def byte_of_char_def)

lemma str_bytes_inverse [simp, codec_simps]: "str_of_bytes (as_bytes s) = s" "as_bytes (str_of_bytes bs) = bs"
  by (simp_all add: str_of_bytes_def as_bytes_def comp_def map_idI)

lemma length_as_bytes [simp]: "length (as_bytes s) = length s" "length (str_of_bytes bs) = length bs"
  by (simp_all add: str_of_bytes_def as_bytes_def)

section \<open>Prefixes and splits\<close>

definition strip_prefix :: "string \<Rightarrow> string \<Rightarrow> string option" where
  "strip_prefix p s = (if take (length p) s = p then Some (drop (length p) s) else None)"

definition ends_with :: "string \<Rightarrow> string \<Rightarrow> bool" where
  "ends_with s t \<longleftrightarrow> length t \<le> length s \<and> drop (length s - length t) s = t"

fun split_once :: "char \<Rightarrow> string \<Rightarrow> (string \<times> string) option" where
  "split_once c [] = None"
| "split_once c (x # xs) =
     (if x = c then Some ([], xs)
      else map_option (\<lambda>(a, b). (x # a, b)) (split_once c xs))"

definition rsplit_once :: "char \<Rightarrow> string \<Rightarrow> (string \<times> string) option" where
  "rsplit_once c s = map_option (\<lambda>(a, b). (rev b, rev a)) (split_once c (rev s))"

fun split_once_str :: "string \<Rightarrow> string \<Rightarrow> (string \<times> string) option" where
  "split_once_str p [] = (if p = [] then Some ([], []) else None)"
| "split_once_str p (x # xs) =
     (case strip_prefix p (x # xs) of
        Some r \<Rightarrow> Some ([], r)
      | None \<Rightarrow> map_option (\<lambda>(a, b). (x # a, b)) (split_once_str p xs))"

text \<open>\<open>str::split\<close> by a character: always at least one piece.\<close>

fun split_all :: "char \<Rightarrow> string \<Rightarrow> string list" where
  "split_all c [] = [[]]"
| "split_all c (x # xs) =
     (if x = c then [] # split_all c xs
      else (case split_all c xs of p # ps \<Rightarrow> (x # p) # ps | [] \<Rightarrow> [[x]]))"

definition replace_char :: "char \<Rightarrow> string \<Rightarrow> string \<Rightarrow> string" where
  "replace_char c t s = concat (map (\<lambda>x. if x = c then t else [x]) s)"

definition contains :: "string \<Rightarrow> string \<Rightarrow> bool" where
  "contains s p \<longleftrightarrow> split_once_str p s \<noteq> None"

lemma strip_prefix_append [simp]: "strip_prefix p (p @ s) = Some s"
  by (simp add: strip_prefix_def)

lemma strip_prefix_Some: "strip_prefix p s = Some r \<longleftrightarrow> s = p @ r"
  by (auto simp: strip_prefix_def) (metis append_take_drop_id)

lemma split_once_append: "c \<notin> set a \<Longrightarrow> split_once c (a @ c # b) = Some (a, b)"
  by (induction a) auto

lemma split_once_Some: "split_once c s = Some (a, b) \<longleftrightarrow> s = a @ c # b \<and> c \<notin> set a"
proof (induction s arbitrary: a)
  case Nil
  then show ?case by simp
next
  case (Cons x xs)
  then show ?case by (cases a) auto
qed

lemma split_once_None: "split_once c s = None \<longleftrightarrow> c \<notin> set s"
  by (induction s) auto

lemma split_all_not_Nil [simp]: "split_all c s \<noteq> []"
  by (induction s) (auto split: list.splits)

lemma split_all_append: "c \<notin> set a \<Longrightarrow> split_all c (a @ c # b) = a # split_all c b"
  by (induction a) (auto split: list.splits)

lemma split_all_single: "c \<notin> set a \<Longrightarrow> split_all c a = [a]"
  by (induction a) auto

lemma rsplit_once_Some: "rsplit_once c s = Some (a, b) \<longleftrightarrow> s = a @ c # b \<and> c \<notin> set b"
proof
  assume "rsplit_once c s = Some (a, b)"
  then obtain x y where "split_once c (rev s) = Some (x, y)" "a = rev y" "b = rev x"
    by (auto simp: rsplit_once_def)
  then show "s = a @ c # b \<and> c \<notin> set b"
    by (simp add: split_once_Some rev_swap)
next
  assume "s = a @ c # b \<and> c \<notin> set b"
  then show "rsplit_once c s = Some (a, b)"
    by (simp add: rsplit_once_def split_once_append)
qed

section \<open>Trimming and case\<close>

text \<open>The UTF-8 encodings of the characters with Unicode's \<open>White_Space\<close> property, which
  \<open>str::trim\<close> removes. UTF-8 is self-synchronising, so a suffix match of an encoding is a match of
  the last character.\<close>

definition ws_encodings :: "string list" where
  "ws_encodings =
     [[CHR 0x09], [CHR 0x0A], [CHR 0x0B], [CHR 0x0C], [CHR 0x0D], [CHR 0x20],
      [CHR 0xC2, CHR 0x85], [CHR 0xC2, CHR 0xA0], [CHR 0xE1, CHR 0x9A, CHR 0x80]]
     @ map (\<lambda>n. [CHR 0xE2, CHR 0x80, char_of n]) [0x80 ..< 0x8B]
     @ [[CHR 0xE2, CHR 0x80, CHR 0xA8], [CHR 0xE2, CHR 0x80, CHR 0xA9],
        [CHR 0xE2, CHR 0x80, CHR 0xAF], [CHR 0xE2, CHR 0x81, CHR 0x9F],
        [CHR 0xE3, CHR 0x80, CHR 0x80]]"

definition ws_len :: "string list \<Rightarrow> string \<Rightarrow> nat" where
  "ws_len encs s = (case find (\<lambda>e. take (length e) s = e) encs of None \<Rightarrow> 0 | Some e \<Rightarrow> length e)"

function trim_with :: "string list \<Rightarrow> string \<Rightarrow> string" where
  "trim_with encs s =
     (if s \<noteq> [] \<and> 0 < ws_len encs s then trim_with encs (drop (ws_len encs s) s) else s)"
  by pat_completeness auto
termination
  by (relation "measure (\<lambda>(encs, s). length s)") auto

declare trim_with.simps [simp del]

definition trim_start :: "string \<Rightarrow> string" where
  "trim_start s = trim_with ws_encodings s"

definition trim_end :: "string \<Rightarrow> string" where
  "trim_end s = rev (trim_with (map rev ws_encodings) (rev s))"

definition trim :: "string \<Rightarrow> string" where
  "trim s = trim_end (trim_start s)"

definition trim_end_matches :: "char \<Rightarrow> string \<Rightarrow> string" where
  "trim_end_matches c s = rev (dropWhile (\<lambda>x. x = c) (rev s))"

definition ascii_lower :: "char \<Rightarrow> char" where
  "ascii_lower c =
     (let n = of_char c :: nat in if 65 \<le> n \<and> n \<le> 90 then char_of (n + 32) else c)"

definition to_ascii_lowercase :: "string \<Rightarrow> string" where
  "to_ascii_lowercase s = map ascii_lower s"

text \<open>A printable ASCII character is not the start or the end of any white space encoding.\<close>

definition ascii_graphic :: "char \<Rightarrow> bool" where
  "ascii_graphic c \<longleftrightarrow> 0x21 \<le> (of_char c :: nat) \<and> (of_char c :: nat) \<le> 0x7E"

lemma ws_hd_not_graphic:
  "\<forall>e \<in> set ws_encodings. e \<noteq> [] \<and> \<not> ascii_graphic (hd e) \<and> \<not> ascii_graphic (last e)"
  by (simp add: ws_encodings_def ascii_graphic_def upt_rec)

lemma ws_len_graphic:
  assumes "ascii_graphic c" "\<And>e. e \<in> set encs \<Longrightarrow> e \<noteq> [] \<and> \<not> ascii_graphic (hd e)"
  shows "ws_len encs (c # s) = 0"
proof -
  have "take (length e) (c # s) \<noteq> e" if "e \<in> set encs" for e
    using assms(2) [OF that] assms(1) by (cases e) auto
  then have "find (\<lambda>e. take (length e) (c # s) = e) encs = None"
    by (auto simp: find_None_iff)
  then show ?thesis by (simp add: ws_len_def)
qed

lemma trim_start_graphic: "ascii_graphic c \<Longrightarrow> trim_start (c # s) = c # s"
  unfolding trim_start_def
  by (subst trim_with.simps) (simp add: ws_len_graphic ws_hd_not_graphic)

lemma trim_end_graphic: "ascii_graphic c \<Longrightarrow> trim_end (s @ [c]) = s @ [c]"
proof -
  assume "ascii_graphic c"
  then have "ws_len (map rev ws_encodings) (c # rev s) = 0"
    by (rule ws_len_graphic) (use ws_hd_not_graphic in \<open>auto simp: hd_rev\<close>)
  then show ?thesis
    unfolding trim_end_def by (subst trim_with.simps) simp
qed

lemma trim_graphic:
  assumes "s \<noteq> []" "ascii_graphic (hd s)" "ascii_graphic (last s)"
  shows "trim s = s"
proof -
  from assms(1,2) have "trim_start s = s" by (cases s) (auto simp: trim_start_graphic)
  moreover from assms(1,3) have "trim_end s = s"
    by (metis append_butlast_last_id trim_end_graphic)
  ultimately show ?thesis by (simp add: trim_def)
qed

section \<open>Decimal integers\<close>

definition digit_char :: "nat \<Rightarrow> char" where "digit_char d = char_of (48 + d)"

definition is_digit :: "char \<Rightarrow> bool" where
  "is_digit c \<longleftrightarrow> 48 \<le> (of_char c :: nat) \<and> (of_char c :: nat) \<le> 57"

fun dec_show :: "nat \<Rightarrow> string" where
  "dec_show n = (if n < 10 then [digit_char n] else dec_show (n div 10) @ [digit_char (n mod 10)])"

declare dec_show.simps [simp del]

definition dec_val :: "string \<Rightarrow> nat" where
  "dec_val s = foldl (\<lambda>a c. a * 10 + (of_char c - 48)) 0 s"

text \<open>\<open>str::parse\<close> at an unsigned type with values below \<open>bound\<close>: an optional leading plus
  sign, at least one digit, nothing else, and no overflow.\<close>

definition parse_uint :: "nat \<Rightarrow> string \<Rightarrow> nat option" where
  "parse_uint bound s =
     (let ds = (case s of c # cs \<Rightarrow> (if c = CHR ''+'' then cs else s) | [] \<Rightarrow> []) in
      if ds = [] \<or> \<not> list_all is_digit ds then None
      else if dec_val ds < bound then Some (dec_val ds) else None)"

lemma of_char_digit [simp]: "d < 10 \<Longrightarrow> of_char (digit_char d) = 48 + d"
  by (simp add: digit_char_def)

lemma dec_val_snoc [simp]: "dec_val (s @ [c]) = dec_val s * 10 + (of_char c - 48)"
  by (simp add: dec_val_def)

lemma dec_val_single [simp]: "dec_val [c] = of_char c - 48"
  by (simp add: dec_val_def)

lemma dec_show_facts:
  "dec_val (dec_show n) = n \<and> dec_show n \<noteq> [] \<and> list_all is_digit (dec_show n)"
proof (induction n rule: dec_show.induct)
  case (1 n)
  show ?case
    by (cases "n < 10")
      (use "1.IH" in \<open>simp_all add: dec_show.simps [of n] is_digit_def\<close>)
qed

lemma dec_val_dec_show [simp]: "dec_val (dec_show n) = n"
  and dec_show_nonempty [simp]: "dec_show n \<noteq> []"
  and dec_show_digits [simp]: "list_all is_digit (dec_show n)"
  by (simp_all add: dec_show_facts)

lemma is_digit_plus [simp]: "\<not> is_digit CHR ''+''"
  by (simp add: is_digit_def)

lemma parse_uint_dec_show [simp]: "n < bound \<Longrightarrow> parse_uint bound (dec_show n) = Some n"
proof -
  assume "n < bound"
  moreover have "(case dec_show n of c # cs \<Rightarrow> (if c = CHR ''+'' then cs else dec_show n) | [] \<Rightarrow> [])
      = dec_show n"
    using dec_show_digits [of n] by (cases "dec_show n") (auto simp del: dec_show_digits)
  ultimately show ?thesis by (simp add: parse_uint_def)
qed

lemma parse_uint_bound: "parse_uint bound s = Some n \<Longrightarrow> n < bound"
  by (auto simp: parse_uint_def Let_def split: if_splits)

lemma digit_not_in_dec_show: "\<not> is_digit c \<Longrightarrow> c \<notin> set (dec_show n)"
  using dec_show_digits [of n] by (auto simp: list_all_iff)

lemma last_dec_show_graphic: "ascii_graphic (last (dec_show n))"
proof -
  have "is_digit (last (dec_show n))"
    using dec_show_digits [of n] by (simp add: list_all_iff)
  then show ?thesis by (simp add: is_digit_def ascii_graphic_def)
qed

section \<open>UTF-8\<close>

definition utf8_cont :: "byte \<Rightarrow> bool" where
  "utf8_cont b \<longleftrightarrow> 0x80 \<le> b \<and> b \<le> 0xBF"

definition byte_at :: "bytes \<Rightarrow> nat \<Rightarrow> byte" where
  "byte_at bs i = (if i < length bs then bs ! i else 0)"

text \<open>The range of the second byte after a three- or four-byte lead.\<close>

definition utf8_second :: "byte \<Rightarrow> byte \<Rightarrow> bool" where
  "utf8_second b0 b1 \<longleftrightarrow>
     (if b0 = 0xE0 then 0xA0 \<le> b1 \<and> b1 \<le> 0xBF
      else if b0 = 0xED then 0x80 \<le> b1 \<and> b1 \<le> 0x9F
      else if b0 = 0xF0 then 0x90 \<le> b1 \<and> b1 \<le> 0xBF
      else if b0 = 0xF4 then 0x80 \<le> b1 \<and> b1 \<le> 0x8F
      else utf8_cont b1)"

text \<open>The first unit of a non-empty byte string: how many bytes it takes, and whether they encode a
  character (otherwise they are the longest invalid piece the decoder replaces at once).\<close>

definition utf8_unit :: "bytes \<Rightarrow> nat \<times> bool" where
  "utf8_unit bs =
     (let b0 = byte_at bs 0; b1 = byte_at bs 1; b2 = byte_at bs 2; b3 = byte_at bs 3 in
      if b0 < 0x80 then (1, True)
      else if 0xC2 \<le> b0 \<and> b0 \<le> 0xDF then (if utf8_cont b1 then (2, True) else (1, False))
      else if 0xE0 \<le> b0 \<and> b0 \<le> 0xEF then
        (if \<not> utf8_second b0 b1 then (1, False)
         else if \<not> utf8_cont b2 then (2, False) else (3, True))
      else if 0xF0 \<le> b0 \<and> b0 \<le> 0xF4 then
        (if \<not> utf8_second b0 b1 then (1, False)
         else if \<not> utf8_cont b2 then (2, False)
         else if \<not> utf8_cont b3 then (3, False) else (4, True))
      else (1, False))"

lemma utf8_unit_pos: "0 < fst (utf8_unit bs)"
  by (simp add: utf8_unit_def Let_def)

function utf8_valid :: "bytes \<Rightarrow> bool" where
  "utf8_valid bs =
     (if bs = [] then True
      else snd (utf8_unit bs) \<and> utf8_valid (drop (fst (utf8_unit bs)) bs))"
  by pat_completeness auto
termination
  by (relation "measure length") (auto simp: utf8_unit_pos)

function from_utf8_lossy :: "bytes \<Rightarrow> bytes" where
  "from_utf8_lossy bs =
     (if bs = [] then []
      else (if snd (utf8_unit bs) then take (fst (utf8_unit bs)) bs else [0xEF, 0xBF, 0xBD])
             @ from_utf8_lossy (drop (fst (utf8_unit bs)) bs))"
  by pat_completeness auto
termination
  by (relation "measure length") (auto simp: utf8_unit_pos)

declare utf8_valid.simps [simp del] from_utf8_lossy.simps [simp del]

lemma from_utf8_lossy_valid: "utf8_valid bs \<Longrightarrow> from_utf8_lossy bs = bs"
proof (induction bs rule: utf8_valid.induct)
  case (1 bs)
  show ?case
  proof (cases "bs = []")
    case True
    then show ?thesis by (simp add: from_utf8_lossy.simps)
  next
    case False
    with "1.prems" have v: "snd (utf8_unit bs)" "utf8_valid (drop (fst (utf8_unit bs)) bs)"
      by (auto simp: utf8_valid.simps [of bs])
    with False "1.IH" have "from_utf8_lossy (drop (fst (utf8_unit bs)) bs)
        = drop (fst (utf8_unit bs)) bs" by blast
    with False v show ?thesis by (simp add: from_utf8_lossy.simps [of bs])
  qed
qed

lemma utf8_unit_ascii: "byte_at bs 0 < 0x80 \<Longrightarrow> utf8_unit bs = (1, True)"
  by (simp only: utf8_unit_def Let_def if_True)

lemma utf8_valid_ascii: "list_all (\<lambda>b. b < 0x80) bs \<Longrightarrow> utf8_valid bs"
proof (induction bs)
  case Nil
  then show ?case by (simp add: utf8_valid.simps)
next
  case (Cons b bs)
  then have "utf8_unit (b # bs) = (1, True)"
    by (intro utf8_unit_ascii) (simp add: byte_at_def)
  with Cons show ?case by (simp add: utf8_valid.simps [of "b # bs"])
qed

end
