(* ===== verification/Drive_Crypto.thy ===== *)
theory Drive_Crypto
  imports Wire_Frame Rust_Str
begin

text \<open>
  The session cryptography of Drive mode (\<^verbatim>\<open>src/drive_crypto.rs\<close>): the relay's public key text,
  the Hello body, the derivation of the two directional keys on both sides, the AEAD seal and open
  with their nonce and associated data, and the replay window. X25519, HKDF, ChaCha20-Poly1305 and
  bech32m are libraries: they are the fields of \<open>crypto\<close>, and what the code relies on is stated
  as named hypotheses (\<open>dh_agrees\<close>, \<open>aead_correct\<close>, \<open>bech32_correct\<close>). Shown: client and
  relay derive the same keys from one Hello and a relay refuses a Hello moved to another session;
  nonces and associated data separate frames; sealing round-trips; the replay window accepts
  exactly the sequence 0, 1, 2, \<dots>.
\<close>

section \<open>The libraries the code calls\<close>

record crypto =
  c_public :: "bytes \<Rightarrow> bytes"                   \<comment> \<open>X25519 public key of a secret\<close>
  c_dh :: "bytes \<Rightarrow> bytes \<Rightarrow> bytes"            \<comment> \<open>X25519 of a secret and a public key\<close>
  c_contributory :: "bytes \<Rightarrow> bool"              \<comment> \<open>\<open>SharedSecret::was_contributory\<close>\<close>
  c_hkdf :: "bytes \<Rightarrow> bytes \<Rightarrow> bytes \<Rightarrow> bytes"  \<comment> \<open>salt, key material, info; 32 bytes out\<close>
  c_encrypt :: "bytes \<Rightarrow> bytes \<Rightarrow> bytes \<Rightarrow> bytes \<Rightarrow> bytes" \<comment> \<open>key, nonce, aad, message\<close>
  c_decrypt :: "bytes \<Rightarrow> bytes \<Rightarrow> bytes \<Rightarrow> bytes \<Rightarrow> bytes option"
  c_bech32m_encode :: "string \<Rightarrow> bytes \<Rightarrow> string" \<comment> \<open>human-readable part, payload\<close>
  c_bech32m_decode :: "string \<Rightarrow> (string \<times> bytes) option"

definition dh_agrees :: "crypto \<Rightarrow> bool" where
  "dh_agrees C \<longleftrightarrow> (\<forall>a b. c_dh C a (c_public C b) = c_dh C b (c_public C a))"

definition aead_correct :: "crypto \<Rightarrow> bool" where
  "aead_correct C \<longleftrightarrow> (\<forall>k n a m. c_decrypt C k n a (c_encrypt C k n a m) = Some m)"

text \<open>ChaCha20-Poly1305 appends a 16-byte tag.\<close>

definition aead_tag16 :: "crypto \<Rightarrow> bool" where
  "aead_tag16 C \<longleftrightarrow> (\<forall>k n a m. length (c_encrypt C k n a m) = length m + 16)"

section \<open>The relay's key pair\<close>

definition RELAY_PUBKEY_HRP :: string where "RELAY_PUBKEY_HRP = ''rgdr''"

text \<open>Bech32m text is printable ASCII, and decoding inverts encoding (for the relay prefix and
  32-byte payloads, the only ones encoded here).\<close>

definition bech32_correct :: "crypto \<Rightarrow> bool" where
  "bech32_correct C \<longleftrightarrow>
     (\<forall>p. length p = 32 \<longrightarrow>
        c_bech32m_decode C (c_bech32m_encode C RELAY_PUBKEY_HRP p) = Some (RELAY_PUBKEY_HRP, p) \<and>
        c_bech32m_encode C RELAY_PUBKEY_HRP p \<noteq> [] \<and>
        list_all ascii_graphic (c_bech32m_encode C RELAY_PUBKEY_HRP p))"

definition public_key :: "crypto \<Rightarrow> bytes \<Rightarrow> bytes" where
  "public_key C secret = c_public C secret"

datatype pubkey_parse_error =
    PkEmpty
  | PkBadEncoding
  | PkWrongHrp string string
  | PkWrongLength nat nat
  | PkLowOrder

definition CONTRIBUTORY_PROBE_SCALAR :: bytes where
  "CONTRIBUTORY_PROBE_SCALAR = replicate 32 0x42"

definition x25519_public_key_is_contributory :: "crypto \<Rightarrow> bytes \<Rightarrow> bool" where
  "x25519_public_key_is_contributory C pk \<longleftrightarrow>
     c_contributory C (c_dh C CONTRIBUTORY_PROBE_SCALAR pk)"

definition to_bech32m :: "crypto \<Rightarrow> bytes \<Rightarrow> string" where
  "to_bech32m C pk = c_bech32m_encode C RELAY_PUBKEY_HRP pk"

definition from_bech32m :: "crypto \<Rightarrow> string \<Rightarrow> (bytes, pubkey_parse_error) result" where
  "from_bech32m C str =
     (let s = trim str in
      if s = [] then Inl PkEmpty else
      (case c_bech32m_decode C s of
         None \<Rightarrow> Inl PkBadEncoding
       | Some (hrp, data) \<Rightarrow>
           if hrp \<noteq> RELAY_PUBKEY_HRP then Inl (PkWrongHrp hrp RELAY_PUBKEY_HRP)
           else if length data \<noteq> 32 then Inl (PkWrongLength (length data) 32)
           else if \<not> x25519_public_key_is_contributory C data then Inl PkLowOrder
           else Inr data))"

section \<open>The Hello body\<close>

definition HELLO_BODY_LEN :: nat where "HELLO_BODY_LEN = 64"

record hello_body =
  h_epk :: bytes
  h_cookie :: bytes
  h_sid :: session_id

datatype hello_decode_error =
    HelloWrongLength nat nat
  | HelloSidMismatch session_id session_id

definition encode_hello :: "hello_body \<Rightarrow> bytes" where
  "encode_hello h = h_epk h @ h_cookie h @ h_sid h"

definition decode_hello :: "bytes \<Rightarrow> (hello_body, hello_decode_error) result" where
  "decode_hello bs =
     (if length bs \<noteq> HELLO_BODY_LEN then Inl (HelloWrongLength (length bs) HELLO_BODY_LEN)
      else Inr \<lparr>h_epk = take 32 bs, h_cookie = take 16 (drop 32 bs), h_sid = take 16 (drop 48 bs)\<rparr>)"

definition wf_hello :: "hello_body \<Rightarrow> bool" where
  "wf_hello h \<longleftrightarrow> length (h_epk h) = 32 \<and> length (h_cookie h) = 16 \<and> wf_sid (h_sid h)"

section \<open>Session keys\<close>

record session_keys =
  k_sid :: session_id
  k_c2r :: bytes
  k_r2c :: bytes

datatype key_agreement_error = NonContributorySharedSecret

datatype relay_accept_error =
    RaSidMismatch session_id session_id
  | RaKeyAgreement key_agreement_error

definition ensure_contributory :: "crypto \<Rightarrow> bytes \<Rightarrow> (unit, key_agreement_error) result" where
  "ensure_contributory C shared =
     (if c_contributory C shared then Inr () else Inl NonContributorySharedSecret)"

definition derive_directional_keys ::
    "crypto \<Rightarrow> bytes \<Rightarrow> bytes \<Rightarrow> session_id \<Rightarrow> bytes \<times> bytes" where
  "derive_directional_keys C shared cookie s =
     (c_hkdf C cookie shared (as_bytes ''c2r|'' @ s), c_hkdf C cookie shared (as_bytes ''r2c|'' @ s))"

text \<open>The random draws (the ephemeral secret, then the cookie) are arguments.\<close>

definition client_initiate :: "crypto \<Rightarrow> bytes \<Rightarrow> session_id \<Rightarrow> bytes \<Rightarrow> bytes
    \<Rightarrow> (session_keys \<times> hello_body, key_agreement_error) result" where
  "client_initiate C relay_pubkey s esk cookie =
     (let shared = c_dh C esk relay_pubkey in
      case ensure_contributory C shared of
        Inl e \<Rightarrow> Inl e
      | Inr _ \<Rightarrow>
          let (c2r, r2c) = derive_directional_keys C shared cookie s in
          Inr (\<lparr>k_sid = s, k_c2r = c2r, k_r2c = r2c\<rparr>,
               \<lparr>h_epk = c_public C esk, h_cookie = cookie, h_sid = s\<rparr>))"

definition relay_accept :: "crypto \<Rightarrow> bytes \<Rightarrow> session_id \<Rightarrow> hello_body
    \<Rightarrow> (session_keys, relay_accept_error) result" where
  "relay_accept C secret s hello =
     (if h_sid hello \<noteq> s then Inl (RaSidMismatch s (h_sid hello)) else
      let shared = c_dh C secret (h_epk hello) in
      case ensure_contributory C shared of
        Inl e \<Rightarrow> Inl (RaKeyAgreement e)
      | Inr _ \<Rightarrow>
          let (c2r, r2c) = derive_directional_keys C shared (h_cookie hello) s in
          Inr \<lparr>k_sid = s, k_c2r = c2r, k_r2c = r2c\<rparr>)"

section \<open>Sealing\<close>

datatype aead_error = TagMismatch

definition build_nonce :: "u64 \<Rightarrow> bytes" where
  "build_nonce q = le_bytes 8 (unat q) @ replicate 4 0"

definition build_aad :: "session_id \<Rightarrow> u64 \<Rightarrow> bytes" where
  "build_aad s q = s @ put_u64 q"

definition seal :: "crypto \<Rightarrow> bytes \<Rightarrow> session_id \<Rightarrow> u64 \<Rightarrow> bytes \<Rightarrow> bytes" where
  "seal C key s q plaintext = c_encrypt C key (build_nonce q) (build_aad s q) plaintext"

definition open_sealed ::
    "crypto \<Rightarrow> bytes \<Rightarrow> session_id \<Rightarrow> u64 \<Rightarrow> bytes \<Rightarrow> (bytes, aead_error) result" where
  "open_sealed C key s q ciphertext =
     (case c_decrypt C key (build_nonce q) (build_aad s q) ciphertext of
        None \<Rightarrow> Inl TagMismatch
      | Some m \<Rightarrow> Inr m)"

section \<open>The replay window\<close>

record replay_window =
  last_seen :: "u64 option"

record replay_error =
  re_seq :: u64
  re_last_accepted :: u64

datatype strict_seq_error = Replay replay_error | Future u64 u64

definition new_window :: replay_window where
  "new_window = \<lparr>last_seen = None\<rparr>"

definition check :: "replay_window \<Rightarrow> u64 \<Rightarrow> (unit, replay_error) result" where
  "check w q =
     (case last_seen w of
        Some prev \<Rightarrow>
          if q \<le> prev then Inl \<lparr>re_seq = q, re_last_accepted = prev\<rparr> else Inr ()
      | None \<Rightarrow> Inr ())"

definition checked_add1 :: "u64 \<Rightarrow> u64 option" where
  "checked_add1 q = (if q = - 1 then None else Some (q + 1))"

definition check_next :: "replay_window \<Rightarrow> u64 \<Rightarrow> (unit, strict_seq_error) result" where
  "check_next w q =
     (let verdict = (\<lambda>expected.
        if q = expected then Inr ()
        else if q < expected
        then Inl (Replay \<lparr>re_seq = q, re_last_accepted = expected - 1\<rparr>)
        else Inl (Future q expected)) in
      case last_seen w of
        None \<Rightarrow> verdict 0
      | Some prev \<Rightarrow>
          (case checked_add1 prev of
             Some nxt \<Rightarrow> verdict nxt
           | None \<Rightarrow> Inl (Replay \<lparr>re_seq = q, re_last_accepted = prev\<rparr>)))"

definition commit :: "replay_window \<Rightarrow> u64 \<Rightarrow> replay_window" where
  "commit w q =
     \<lparr>last_seen = Some (case last_seen w of Some prev \<Rightarrow> max prev q | None \<Rightarrow> q)\<rparr>"

definition check_and_advance ::
    "replay_window \<Rightarrow> u64 \<Rightarrow> (replay_window, replay_error) result" where
  "check_and_advance w q = (case check w q of Inl e \<Rightarrow> Inl e | Inr _ \<Rightarrow> Inr (commit w q))"

text \<open>The sequence number the delivery paths compare file names with, \<open>None\<close> once the counter is
  exhausted.\<close>

definition next_expected :: "replay_window \<Rightarrow> u64 option" where
  "next_expected w = (case last_seen w of None \<Rightarrow> Some 0 | Some prev \<Rightarrow> checked_add1 prev)"

section \<open>Hello and key agreement\<close>

lemma decode_encode_hello: "wf_hello h \<Longrightarrow> decode_hello (encode_hello h) = Inr h"
  by (simp add: decode_hello_def encode_hello_def wf_hello_def wf_sid_def HELLO_BODY_LEN_def)

lemma decode_hello_wf: "decode_hello bs = Inr h \<Longrightarrow> wf_hello h \<and> encode_hello h = bs"
proof -
  assume "decode_hello bs = Inr h"
  then have n: "length bs = 64" and h: "h = \<lparr>h_epk = take 32 bs, h_cookie = take 16 (drop 32 bs),
      h_sid = take 16 (drop 48 bs)\<rparr>"
    by (auto simp: decode_hello_def HELLO_BODY_LEN_def split: if_splits)
  have "bs = take (32 + (16 + 16)) bs" using n by simp
  also have "\<dots> = take 32 bs @ take 16 (drop 32 bs) @ take 16 (drop 48 bs)"
    by (simp only: take_add drop_drop) simp
  finally show ?thesis
    using n by (simp add: h encode_hello_def wf_hello_def wf_sid_def)
qed

interpretation hello: codec encode_hello "\<lambda>bs. ok (decode_hello bs)" wf_hello
  by unfold_locales (simp_all add: decode_encode_hello decode_hello_wf)

lemma length_encode_hello [codec_simps]: "wf_hello h \<Longrightarrow> length (encode_hello h) = HELLO_BODY_LEN"
  by (simp add: encode_hello_def wf_hello_def wf_sid_def HELLO_BODY_LEN_def)

lemma relay_accept_agrees:
  assumes "dh_agrees C" "client_initiate C (public_key C rs) s esk cookie = Inr (keys, hello)"
  shows "relay_accept C rs s' hello = (if s' = s then Inr keys else Inl (RaSidMismatch s' s))"
proof -
  have "c_dh C rs (c_public C esk) = c_dh C esk (c_public C rs)"
    using assms(1) by (simp add: dh_agrees_def)
  then show ?thesis
    using assms(2)
    by (auto simp: client_initiate_def relay_accept_def public_key_def ensure_contributory_def
        Let_def split: if_splits prod.splits)
qed

text \<open>C33: the relay that receives a Hello under the session id it was made for derives exactly the
  client's two directional keys; under any other session id it refuses. The Hello travels encoded.\<close>

theorem key_agreement:
  assumes "dh_agrees C"
    and "client_initiate C (public_key C rs) s esk cookie = Inr (keys, hello)" "wf_hello hello"
  shows "\<exists>h. decode_hello (encode_hello hello) = Inr h \<and>
     relay_accept C rs s' h = (if s' = s then Inr keys else Inl (RaSidMismatch s' s))"
  using assms by (simp add: decode_encode_hello relay_accept_agrees)

lemma client_initiate_Inr:
  "client_initiate C pk s esk cookie = Inr (keys, hello) \<longleftrightarrow>
     c_contributory C (c_dh C esk pk) \<and>
     hello = \<lparr>h_epk = c_public C esk, h_cookie = cookie, h_sid = s\<rparr> \<and>
     (let (a, b) = derive_directional_keys C (c_dh C esk pk) cookie s
      in keys = \<lparr>k_sid = s, k_c2r = a, k_r2c = b\<rparr>)"
  by (auto simp: client_initiate_def ensure_contributory_def Let_def split: prod.splits)

text \<open>A stand-in for the libraries in which every hypothesis on them holds: keys are padded to 32
  bytes and added, the cipher appends a 16-byte tag and does not hide the message.\<close>

definition pad_to :: "nat \<Rightarrow> bytes \<Rightarrow> bytes" where
  "pad_to n bs = take n (bs @ replicate n 0)"

definition toy_tag :: "bytes \<Rightarrow> bytes \<Rightarrow> bytes \<Rightarrow> bytes" where
  "toy_tag k n a = pad_to 8 n @ pad_to 8 k"

definition toy_nibbles :: "bytes \<Rightarrow> string" where
  "toy_nibbles p = concat (map (\<lambda>b. [char_of (97 + unat b div 16), char_of (97 + unat b mod 16)]) p)"

fun toy_bytes :: "string \<Rightarrow> bytes" where
  "toy_bytes (a # b # s) = word_of_nat ((of_char a - 97) * 16 + (of_char b - 97)) # toy_bytes s"
| "toy_bytes _ = []"

definition toy_crypto :: crypto where
  "toy_crypto =
     \<lparr>c_public = pad_to 32,
      c_dh = (\<lambda>a b. map2 (+) (pad_to 32 a) (pad_to 32 b)),
      c_contributory = (\<lambda>x. x \<noteq> replicate 32 0),
      c_hkdf = (\<lambda>salt ikm info. pad_to 32 (info @ salt @ ikm)),
      c_encrypt = (\<lambda>k n a m. m @ toy_tag k n a),
      c_decrypt = (\<lambda>k n a c. if 16 \<le> length c \<and> drop (length c - 16) c = toy_tag k n a
                              then Some (take (length c - 16) c) else None),
      c_bech32m_encode = (\<lambda>h p. h @ ''1'' @ toy_nibbles p),
      c_bech32m_decode = (\<lambda>s. map_option (\<lambda>(h, p). (h, toy_bytes p)) (split_once CHR ''1'' s))\<rparr>"

lemma toy_crypto_sel [simp]:
  "c_public toy_crypto = pad_to 32"
  "c_dh toy_crypto a b = map2 (+) (pad_to 32 a) (pad_to 32 b)"
  "c_contributory toy_crypto x \<longleftrightarrow> x \<noteq> replicate 32 0"
  "c_hkdf toy_crypto salt ikm info = pad_to 32 (info @ salt @ ikm)"
  "c_encrypt toy_crypto k n d m = m @ toy_tag k n d"
  "c_decrypt toy_crypto k n d c = (if 16 \<le> length c \<and> drop (length c - 16) c = toy_tag k n d
     then Some (take (length c - 16) c) else None)"
  "c_bech32m_encode toy_crypto h p = h @ ''1'' @ toy_nibbles p"
  "c_bech32m_decode toy_crypto s
     = map_option (\<lambda>(h, p). (h, toy_bytes p)) (split_once CHR ''1'' s)"
  by (simp_all add: toy_crypto_def)

lemma length_pad_to [simp]: "length (pad_to n bs) = n"
  by (simp add: pad_to_def)

lemma pad_to_idem [simp]: "pad_to n (pad_to n bs) = pad_to n bs"
  using length_pad_to [of n bs] by (simp add: pad_to_def [of n "pad_to n bs"])

lemma length_toy_tag [simp]: "length (toy_tag k n a) = 16"
  by (simp add: toy_tag_def)

lemma map2_add_commute: "map2 (+) xs ys = map2 (+) ys (xs :: byte list)"
  by (induction xs ys rule: list_induct2') (simp_all add: add.commute)

lemma toy_bytes_nibbles: "toy_bytes (toy_nibbles p) = p"
proof (induction p)
  case Nil
  then show ?case by (simp add: toy_nibbles_def)
next
  case (Cons b p)
  have "unat b div 16 < 16" using unat_byte_lt [of b] by linarith
  then have "(97 + unat b div 16) mod 256 - 97 = unat b div 16"
    "(97 + unat b mod 16) mod 256 - 97 = unat b mod 16" by simp_all
  with Cons show ?case
    by (simp add: toy_nibbles_def del: of_nat_add of_nat_mult of_nat_diff)
qed

lemma toy_nibbles_graphic: "list_all ascii_graphic (toy_nibbles p)"
proof -
  have "unat b div 16 < 16" for b :: byte using unat_byte_lt [of b] by linarith
  moreover have "ascii_graphic (char_of (97 + n))" if "n < 16" for n :: nat
    using that by (simp add: ascii_graphic_def)
  ultimately show ?thesis by (auto simp: toy_nibbles_def list_all_iff)
qed

lemma toy_crypto_ok: "dh_agrees toy_crypto" "aead_correct toy_crypto" "aead_tag16 toy_crypto"
  "bech32_correct toy_crypto"
proof -
  show "dh_agrees toy_crypto" by (simp add: dh_agrees_def map2_add_commute)
  show "aead_correct toy_crypto" by (simp add: aead_correct_def)
  show "aead_tag16 toy_crypto" by (simp add: aead_tag16_def)
  show "bech32_correct toy_crypto"
    using split_once_append [of "CHR ''1''" RELAY_PUBKEY_HRP] toy_nibbles_graphic
    by (simp add: bech32_correct_def toy_bytes_nibbles RELAY_PUBKEY_HRP_def ascii_graphic_def)
qed

definition toy_secret :: bytes where "toy_secret = replicate 32 9"

definition toy_hello :: hello_body where
  "toy_hello = \<lparr>h_epk = replicate 32 5, h_cookie = replicate 16 3, h_sid = replicate 16 7\<rparr>"

definition toy_keys :: session_keys where
  "toy_keys =
     (let (a, b) = derive_directional_keys toy_crypto (replicate 32 14) (replicate 16 3) (replicate 16 7)
      in \<lparr>k_sid = replicate 16 7, k_c2r = a, k_r2c = b\<rparr>)"

lemma toy_initiate:
  "client_initiate toy_crypto (public_key toy_crypto toy_secret) (replicate 16 7) (replicate 32 5)
     (replicate 16 3) = Inr (toy_keys, toy_hello)"
proof -
  have "map2 (+) (replicate 32 5) (replicate 32 (9 :: byte)) = replicate 32 14"
    by (simp add: map2_map_map zip_replicate)
  then show ?thesis
    by (simp add: client_initiate_Inr public_key_def toy_secret_def pad_to_def toy_keys_def
        toy_hello_def Let_def split: prod.split)
qed

lemma toy_hello_wf: "wf_hello toy_hello"
  by (simp add: toy_hello_def wf_hello_def wf_sid_def)

theorem key_agreement_witness:
  "\<exists>h. decode_hello (encode_hello toy_hello) = Inr h \<and>
     relay_accept toy_crypto toy_secret (replicate 16 8) h =
       (if replicate 16 8 = replicate 16 (7 :: byte) then Inr toy_keys
        else Inl (RaSidMismatch (replicate 16 8) (replicate 16 7)))"
  by (rule key_agreement [OF toy_crypto_ok(1) toy_initiate toy_hello_wf])

text \<open>The text the relay prints for a 32-byte public key parses back to that key, unless the
  key agreement does not contribute on it, which the parser reports.\<close>

theorem bech32m_roundtrip:
  assumes "bech32_correct C" "length pk = 32"
  shows "from_bech32m C (to_bech32m C pk) =
     (if x25519_public_key_is_contributory C pk then Inr pk else Inl PkLowOrder)"
proof -
  let ?t = "c_bech32m_encode C RELAY_PUBKEY_HRP pk"
  have t: "?t \<noteq> []" "list_all ascii_graphic ?t"
    "c_bech32m_decode C ?t = Some (RELAY_PUBKEY_HRP, pk)"
    using assms by (auto simp: bech32_correct_def)
  then have "trim ?t = ?t"
    by (intro trim_graphic) (auto simp: list_all_iff)
  with t assms(2) show ?thesis
    by (simp add: from_bech32m_def to_bech32m_def Let_def)
qed

theorem bech32m_roundtrip_witness:
  "from_bech32m toy_crypto (to_bech32m toy_crypto (replicate 32 9)) =
     (if x25519_public_key_is_contributory toy_crypto (replicate 32 9)
      then Inr (replicate 32 9) else Inl PkLowOrder)"
  by (rule bech32m_roundtrip [OF toy_crypto_ok(4)]) simp

section \<open>Sealing\<close>

lemma build_nonce_inj: "build_nonce q = build_nonce q' \<longleftrightarrow> q = q'"
proof -
  have "unat x < 256 ^ 8" for x :: u64 using unat_bound [of x] by simp
  then show ?thesis
    using le_bytes_inj [of "unat q" 8 "unat q'"]
    by (auto simp: build_nonce_def word_unat_eq_iff)
qed

lemma build_aad_inj:
  "wf_sid s \<Longrightarrow> wf_sid s' \<Longrightarrow> build_aad s q = build_aad s' q' \<longleftrightarrow> s = s' \<and> q = q'"
  by (auto simp: build_aad_def wf_sid_def append_eq_append_conv dest: put_u64_inj)

lemma open_seal: "aead_correct C \<Longrightarrow> open_sealed C k s q (seal C k s q m) = Inr m"
  by (simp add: open_sealed_def seal_def aead_correct_def)

text \<open>A nonce is 12 bytes and determines the sequence number; the associated data is 24 bytes
  and determines both the session and the sequence number: within a key no two frames share a
  nonce, and a body cannot be moved to another file name unnoticed by the tag.\<close>

theorem seal_inputs_separate:
  assumes "wf_sid s" "wf_sid s'"
  shows "length (build_nonce q) = 12 \<and> length (build_aad s q) = 24 \<and>
    (build_nonce q = build_nonce q' \<longleftrightarrow> q = q') \<and>
    (build_aad s q = build_aad s' q' \<longleftrightarrow> s = s' \<and> q = q')"
  using assms build_nonce_inj build_aad_inj
  by (auto simp: build_nonce_def build_aad_def wf_sid_def)

theorem seal_inputs_separate_witness:
  "length (build_nonce 4) = 12 \<and> length (build_aad (replicate 16 1) 4) = 24 \<and>
    (build_nonce 4 = build_nonce 5 \<longleftrightarrow> (4 :: u64) = 5) \<and>
    (build_aad (replicate 16 1) 4 = build_aad (replicate 16 2) 5
       \<longleftrightarrow> replicate 16 (1 :: byte) = replicate 16 2 \<and> (4 :: u64) = 5)"
  by (rule seal_inputs_separate) (simp_all add: wf_sid_def)

section \<open>The replay window\<close>

text \<open>
  The abstract window is the number of frames accepted so far, which is also the sequence number of
  the next one. The interface every delivery path relies on: a frame is accepted exactly when it
  carries that number, and accepting it advances the window by one.
\<close>

fun accepted :: "('w \<Rightarrow> u64 \<Rightarrow> bool) \<Rightarrow> ('w \<Rightarrow> u64 \<Rightarrow> 'w) \<Rightarrow> 'w \<Rightarrow> u64 list \<Rightarrow> u64 list" where
  "accepted acc adv w [] = []"
| "accepted acc adv w (q # qs) =
     (if acc w q then q # accepted acc adv (adv w q) qs else accepted acc adv w qs)"

locale seq_window =
  fixes nxt :: "'w \<Rightarrow> nat"
    and accepts :: "'w \<Rightarrow> u64 \<Rightarrow> bool"
    and advance :: "'w \<Rightarrow> u64 \<Rightarrow> 'w"
  assumes accepts_iff: "accepts w q \<longleftrightarrow> unat q = nxt w"
    and nxt_advance: "accepts w q \<Longrightarrow> nxt (advance w q) = Suc (nxt w)"
begin

lemma accepted_contiguous:
  "map unat (accepted accepts advance w qs) = [nxt w ..< nxt w + length (accepted accepts advance w qs)]"
proof (induction qs arbitrary: w)
  case Nil
  then show ?case by simp
next
  case (Cons q qs)
  show ?case
  proof (cases "accepts w q")
    case True
    then have "unat q = nxt w" "nxt (advance w q) = Suc (nxt w)"
      by (simp_all add: accepts_iff nxt_advance)
    with True Cons.IH [of "advance w q"] show ?thesis
      by (simp add: upt_conv_Cons del: upt_Suc)
  next
    case False
    with Cons.IH show ?thesis by simp
  qed
qed

end

definition window_next :: "replay_window \<Rightarrow> nat" where
  "window_next w = (case last_seen w of None \<Rightarrow> 0 | Some prev \<Rightarrow> Suc (unat prev))"

lemma unat_max_u64 [simp]: "unat (- 1 :: u64) = 18446744073709551615"
  by (simp add: unsigned_minus_1_eq_mask mask_eq_exp_minus_1)

lemma unat_neq_max: "q \<noteq> (- 1 :: u64) \<Longrightarrow> unat q < 2 ^ 64 - 1"
proof -
  assume "q \<noteq> - 1"
  then have "unat q \<noteq> unat (- 1 :: u64)" by (metis word_unat_eq_iff)
  then show ?thesis using unat_bound [of q] by simp
qed

lemma checked_add1_Some: "checked_add1 q = Some r \<Longrightarrow> unat r = Suc (unat q)"
  by (auto simp: checked_add1_def unat_Suc_u64 dest: unat_neq_max split: if_splits)

lemma checked_add1_None: "checked_add1 q = None \<Longrightarrow> unat q = 2 ^ 64 - 1"
  by (auto simp: checked_add1_def split: if_splits)

lemma next_expected_eq: "next_expected w =
    (if window_next w < 2 ^ 64 then Some (word_of_nat (window_next w)) else None)"
proof (cases "last_seen w")
  case None
  then show ?thesis by (simp add: next_expected_def window_next_def)
next
  case (Some p)
  show ?thesis
  proof (cases "p = - 1")
    case True
    with Some show ?thesis by (simp add: next_expected_def window_next_def checked_add1_def)
  next
    case False
    then have "unat p < 2 ^ 64 - 1" by (rule unat_neq_max)
    with Some False show ?thesis
      by (simp add: next_expected_def window_next_def checked_add1_def add.commute)
  qed
qed

lemma check_next_eq:
  "check_next w q =
     (if unat q = window_next w then Inr ()
      else if unat q < window_next w
      then Inl (Replay \<lparr>re_seq = q, re_last_accepted = word_of_nat (window_next w - 1)\<rparr>)
      else Inl (Future q (word_of_nat (window_next w))))"
proof (cases "last_seen w")
  case None
  then show ?thesis
    by (simp add: check_next_def window_next_def unat_eq_0 Let_def)
next
  case (Some p)
  show ?thesis
  proof (cases "p = - 1")
    case True
    have "unat q < Suc (2 ^ 64 - 1)" using unat_bound [of q] by simp
    with Some True show ?thesis
      by (simp add: check_next_def window_next_def checked_add1_def)
  next
    case False
    then have "unat (p + 1) = Suc (unat p)" by (intro unat_Suc_u64 unat_neq_max)
    moreover have "word_of_nat (Suc (unat p)) = p + 1" by simp
    ultimately show ?thesis
      using Some False
      by (simp add: check_next_def window_next_def checked_add1_def word_unat_eq_iff [of q]
          word_less_nat_alt Let_def del: of_nat_Suc)
  qed
qed

lemma commit_next: "unat q = window_next w \<Longrightarrow> window_next (commit w q) = Suc (window_next w)"
  by (auto simp: commit_def window_next_def max_def word_le_nat_alt split: option.splits)

interpretation replay: seq_window window_next "\<lambda>w q. check_next w q = Inr ()" commit
  by unfold_locales (auto simp: check_next_eq commit_next split: if_splits)

text \<open>The replay window's verdict on a sequence number is decided by the number of frames
  accepted so far: equal is accepted, smaller is a replay of an accepted frame, larger is a future
  frame; at the last 64-bit number every frame is a replay.\<close>

theorem check_next_verdict:
  "check_next w q =
     (if unat q = window_next w then Inr ()
      else if unat q < window_next w
      then Inl (Replay \<lparr>re_seq = q, re_last_accepted = word_of_nat (window_next w - 1)\<rparr>)
      else Inl (Future q (word_of_nat (window_next w))))"
  by (rule check_next_eq)

text \<open>Whatever sequence numbers are offered, in any order and with any repetition, the ones the
  window of a fresh session accepts (checked, then committed) are 0, 1, 2, \<dots> in that order,
  without gap or duplicate.\<close>

theorem replay_accepts_in_order:
  "map unat (accepted (\<lambda>w q. check_next w q = Inr ()) commit new_window qs)
     = [0 ..< length (accepted (\<lambda>w q. check_next w q = Inr ()) commit new_window qs)]"
  using replay.accepted_contiguous [of new_window qs] by (simp add: new_window_def window_next_def)

end
