(* ===== verification/Rust_Net.thy ===== *)
theory Rust_Net
  imports Rust_Str
begin

text \<open>
  The standard library's IP literal parser (\<open>str::parse::<IpAddr>\<close>), modelled as its
  recursive-descent reader, with the fact that dotted-decimal text parses to its four octets.
\<close>

section \<open>IP address literals\<close>

datatype ip_addr = V4 byte byte byte byte | V6 "u16 list"

type_synonym 'a reader = "string \<Rightarrow> ('a \<times> string) option"

definition to_digit :: "nat \<Rightarrow> char \<Rightarrow> nat option" where
  "to_digit radix c =
     (let n = of_char c :: nat;
          d = (if 48 \<le> n \<and> n \<le> 57 then n - 48
               else if 97 \<le> n \<and> n \<le> 122 then n - 87
               else if 65 \<le> n \<and> n \<le> 90 then n - 55 else 99)
      in if d < radix then Some d else None)"

text \<open>\<open>read_number\<close>: digits up to a maximal count, no value from \<open>bound\<close> on, and optionally no
  leading zero.\<close>

fun read_digits :: "nat \<Rightarrow> string \<Rightarrow> nat list \<times> string" where
  "read_digits radix [] = ([], [])"
| "read_digits radix (c # cs) =
     (case to_digit radix c of
        None \<Rightarrow> ([], c # cs)
      | Some d \<Rightarrow> (let (ds, r) = read_digits radix cs in (d # ds, r)))"

definition digits_val :: "nat \<Rightarrow> nat list \<Rightarrow> nat" where
  "digits_val radix ds = foldl (\<lambda>a d. a * radix + d) 0 ds"

definition read_number :: "nat \<Rightarrow> nat \<Rightarrow> nat \<Rightarrow> bool \<Rightarrow> nat reader" where
  "read_number radix max_digits bound allow_zero s =
     (let (ds, r) = read_digits radix s in
      if ds = [] \<or> max_digits < length ds \<or> bound \<le> digits_val radix ds
         \<or> (\<not> allow_zero \<and> hd ds = 0 \<and> 1 < length ds)
      then None else Some (digits_val radix ds, r))"

definition read_char :: "char \<Rightarrow> unit reader" where
  "read_char c s = (case s of x # r \<Rightarrow> (if x = c then Some ((), r) else None) | [] \<Rightarrow> None)"

definition read_octet :: "byte reader" where
  "read_octet s = map_option (\<lambda>(n, r). (word_of_nat n, r)) (read_number 10 3 256 False s)"

definition read_dot_octet :: "byte reader" where
  "read_dot_octet s = Option.bind (read_char CHR ''.'' s) (\<lambda>(_, r). read_octet r)"

definition read_ipv4 :: "ip_addr reader" where
  "read_ipv4 s =
     Option.bind (read_octet s) (\<lambda>(a, r1).
     Option.bind (read_dot_octet r1) (\<lambda>(b, r2).
     Option.bind (read_dot_octet r2) (\<lambda>(c, r3).
     Option.bind (read_dot_octet r3) (\<lambda>(d, r4). Some (V4 a b c d, r4)))))"

definition read_sep :: "nat \<Rightarrow> string \<Rightarrow> string option" where
  "read_sep i s = (if i = 0 then Some s else map_option snd (read_char CHR '':'' s))"

definition v4_segments :: "ip_addr \<Rightarrow> u16 list" where
  "v4_segments ip =
     (case ip of V4 a b c d \<Rightarrow> [push_bit 8 (ucast a) OR ucast b, push_bit 8 (ucast c) OR ucast d]
      | V6 gs \<Rightarrow> gs)"

text \<open>\<open>read_groups\<close>: up to \<open>limit\<close> groups separated by colons, an embedded IPv4 address
  standing for the last two. Returns the groups, whether an IPv4 address ended them, and the
  rest; \<open>i\<close> counts the groups already read.\<close>

function read_groups :: "nat \<Rightarrow> nat \<Rightarrow> string \<Rightarrow> u16 list \<times> bool \<times> string" where
  "read_groups limit i s =
     (if limit \<le> i then ([], False, s) else
      case (if i < limit - 1 then Option.bind (read_sep i s) read_ipv4 else None) of
        Some (ip, r) \<Rightarrow> (v4_segments ip, True, r)
      | None \<Rightarrow>
          (case Option.bind (read_sep i s) (read_number 16 4 65536 True) of
             None \<Rightarrow> ([], False, s)
           | Some (g, r) \<Rightarrow>
               (let (gs, v4, r') = read_groups limit (i + 1) r in (word_of_nat g # gs, v4, r'))))"
  by pat_completeness auto
termination
  by (relation "measure (\<lambda>(limit, i, s). limit - i)") auto

declare read_groups.simps [simp del]

definition read_ipv6 :: "ip_addr reader" where
  "read_ipv6 s =
     (let (head, head_v4, r) = read_groups 8 0 s in
      if length head = 8 then Some (V6 head, r)
      else if head_v4 then None
      else Option.bind (read_char CHR '':'' r) (\<lambda>(_, r1).
           Option.bind (read_char CHR '':'' r1) (\<lambda>(_, r2).
             let (tail, _, r3) = read_groups (8 - (length head + 1)) 0 r2
             in Some (V6 (head @ replicate (8 - length head - length tail) 0 @ tail), r3))))"

definition parse_ip_addr :: "string \<Rightarrow> ip_addr option" where
  "parse_ip_addr s =
     (case (case read_ipv4 s of Some x \<Rightarrow> Some x | None \<Rightarrow> read_ipv6 s) of
        Some (ip, []) \<Rightarrow> Some ip
      | _ \<Rightarrow> None)"

section \<open>Dotted-decimal literals\<close>

definition show_ipv4 :: "byte \<Rightarrow> byte \<Rightarrow> byte \<Rightarrow> byte \<Rightarrow> string" where
  "show_ipv4 a b c d = dec_show (unat a) @ ''.'' @ dec_show (unat b) @ ''.''
     @ dec_show (unat c) @ ''.'' @ dec_show (unat d)"

definition no_digit_first :: "string \<Rightarrow> bool" where
  "no_digit_first r \<longleftrightarrow> r = [] \<or> to_digit 10 (hd r) = None"

lemma read_digits_append:
  "list_all is_digit s \<Longrightarrow> no_digit_first r \<Longrightarrow>
     read_digits 10 (s @ r) = (map (\<lambda>c. of_char c - 48) s, r)"
proof (induction s)
  case Nil
  then show ?case by (cases r) (auto simp: no_digit_first_def)
next
  case (Cons c s)
  then have "to_digit 10 c = Some (of_char c - 48)"
    by (auto simp: to_digit_def is_digit_def Let_def)
  with Cons show ?case by simp
qed

lemma digits_val_dec_val: "digits_val 10 (map (\<lambda>c. of_char c - 48) s) = dec_val s"
  by (simp add: digits_val_def dec_val_def foldl_map)

lemma dec_show_length3: "n < 256 \<Longrightarrow> length (dec_show n) \<le> 3"
  by (simp add: dec_show.simps [of n] dec_show.simps [of "n div 10"] dec_show.simps [of "n div 100"]
      flip: div_mult2_eq)

lemma dec_show_hd: "0 < n \<Longrightarrow> of_char (hd (dec_show n)) \<noteq> (48 :: nat)"
proof (induction n rule: dec_show.induct)
  case (1 n)
  show ?case
  proof (cases "n < 10")
    case True
    with "1.prems" show ?thesis by (simp add: dec_show.simps [of n])
  next
    case False
    with "1.IH" have "of_char (hd (dec_show (n div 10))) \<noteq> (48 :: nat)" by simp
    with False show ?thesis by (simp add: dec_show.simps [of n])
  qed
qed

lemma read_octet_dec_show:
  assumes "no_digit_first r"
  shows "read_octet (dec_show (unat a) @ r) = Some (a, r)"
proof -
  let ?s = "dec_show (unat a)"
  have rd: "read_digits 10 (?s @ r) = (map (\<lambda>c. of_char c - 48) ?s, r)"
    using assms by (intro read_digits_append) simp
  have zero: "\<not> (hd (map (\<lambda>c. of_char c - 48 :: nat) ?s) = 0 \<and> 1 < length ?s)"
  proof (cases "unat a = 0")
    case True
    then show ?thesis by (simp add: dec_show.simps)
  next
    case False
    have "is_digit (hd ?s)" using dec_show_digits [of "unat a"] by (simp add: list_all_iff)
    with False dec_show_hd [of "unat a"] show ?thesis by (simp add: hd_map is_digit_def)
  qed
  show ?thesis
    using zero dec_show_length3 [OF unat_byte_lt [of a]]
    by (auto simp: read_octet_def read_number_def rd digits_val_dec_val)
qed

lemma dot_no_digit [simp]: "no_digit_first (CHR ''.'' # r)" "no_digit_first []"
  by (simp_all add: no_digit_first_def to_digit_def)

lemma read_dot_octet_dec_show:
  "no_digit_first r \<Longrightarrow> read_dot_octet (CHR ''.'' # dec_show (unat a) @ r) = Some (a, r)"
  by (simp add: read_dot_octet_def read_char_def read_octet_dec_show)

lemma parse_show_ipv4: "parse_ip_addr (show_ipv4 a b c d) = Some (V4 a b c d)"
proof -
  have "read_dot_octet (CHR ''.'' # dec_show (unat d)) = Some (d, [])"
    using read_dot_octet_dec_show [of "[]" d] by simp
  then have "read_ipv4 (show_ipv4 a b c d) = Some (V4 a b c d, [])"
    by (simp add: read_ipv4_def show_ipv4_def read_octet_dec_show read_dot_octet_dec_show)
  then show ?thesis by (simp add: parse_ip_addr_def)
qed

end
