(* ===== verification/Drive_Api.thy ===== *)
theory Drive_Api
  imports Drive_Crypto Rust_Net
begin

text \<open>
  The Drive REST client (\<^verbatim>\<open>src/drive_api.rs\<close>): query and multipart construction, the paged
  listing, the bounded download, upload, delete and folder creation. The HTTP stack
  (\<open>reqwest\<close>) is a state-passing function from requests to responses; \<open>serde_json\<close> and the
  RFC 3339 parser are the fields of \<open>json_lib\<close>. Shown: a listing returns the rows of every page in
  order, and stops at the page limit; a download returns the whole body or an error and never
  holds more than the caller's limit; a query literal cannot be closed by its content.
\<close>

section \<open>HTTP and JSON, as the client uses them\<close>

datatype http_method = GET | POST | DELETE

record http_request =
  rq_method :: http_method
  rq_url :: string
  rq_token :: string
  rq_query :: "(string \<times> string) list"
  rq_content_type :: "string option"
  rq_body :: bytes

text \<open>A response: \<open>rs_text\<close> is \<open>Response::text\<close> (\<open>None\<close> a transport error), \<open>rs_stream\<close> the
  chunks of \<open>bytes_stream\<close> up to and including a transport error.\<close>

record http_response =
  rs_status :: u16
  rs_content_length :: "u64 option"
  rs_text :: "string option"
  rs_stream :: "bytes option list"

text \<open>\<open>send\<close>: the outside world's state, the request, and the new state with the response
  (\<open>None\<close> a transport error).\<close>

type_synonym 's http = "'s \<Rightarrow> http_request \<Rightarrow> 's \<times> http_response option"

definition is_success :: "u16 \<Rightarrow> bool" where
  "is_success status \<longleftrightarrow> 200 \<le> unat status \<and> unat status < 300"

datatype json = JStr string | JArr "json list" | JObj "(string \<times> json) list"

record file_entry_json =
  fe_id :: string
  fe_name :: string
  fe_modified_time :: "string option"
  fe_size :: "string option"

record list_response_json =
  lr_files :: "file_entry_json list"
  lr_next_page_token :: "string option"

record error_inner_json =
  ej_code :: u16
  ej_message :: string
  ej_reasons :: "string list"

record json_lib =
  j_list :: "string \<Rightarrow> (list_response_json, string) result"
  j_create :: "string \<Rightarrow> (string, string) result"
  j_error :: "string \<Rightarrow> error_inner_json option"
  j_time :: "string \<Rightarrow> int option"     \<comment> \<open>RFC 3339, in nanoseconds since the epoch\<close>
  j_print :: "json \<Rightarrow> string"

section \<open>Constants and types\<close>

definition DEFAULT_DRIVE_API_BASE :: string where
  "DEFAULT_DRIVE_API_BASE = ''https://www.googleapis.com''"

definition DRIVE_FOLDER_MIME :: string where
  "DRIVE_FOLDER_MIME = ''application/vnd.google-apps.folder''"

definition FRAME_BODY_MIME :: string where
  "FRAME_BODY_MIME = ''application/octet-stream''"

definition DEFAULT_LIST_PAGE_SIZE :: nat where "DEFAULT_LIST_PAGE_SIZE = 100"
definition AEAD_TAG_LEN :: nat where "AEAD_TAG_LEN = 16"
definition MAX_PAGES :: nat where "MAX_PAGES = 1000"

definition MAX_SEALED_FRAME_BODY_BYTES :: nat where
  "MAX_SEALED_FRAME_BODY_BYTES = HEADER_LEN + unat MAX_PAYLOAD + AEAD_TAG_LEN"

record drive_file =
  df_id :: string
  df_name :: string
  df_modified_time :: "int option"
  df_size :: "u64 option"

datatype drive_api_error =
    Transport
  | Endpoint u16 "string option" string
  | BadResponse string
  | ResponseTooLarge string u64 u64
  | MissingField string

text \<open>The host pins of \<open>build_drive_http_client\<close>: the three Google names at port 443 of
  \<open>google_ip\<close>, none when it is absent or not an address.\<close>

definition drive_host_pins :: "string option \<Rightarrow> (string \<times> ip_addr \<times> u16) list" where
  "drive_host_pins google_ip =
     (case google_ip of
        None \<Rightarrow> []
      | Some ip_str \<Rightarrow>
          (case parse_ip_addr ip_str of
             None \<Rightarrow> []
           | Some ip \<Rightarrow>
               map (\<lambda>host. (host, ip, 443))
                 [''www.googleapis.com'', ''oauth2.googleapis.com'', ''accounts.google.com'']))"

record drive_api_client =
  ac_base_url :: string

definition new_api_client :: "string \<Rightarrow> drive_api_client" where
  "new_api_client base_url = \<lparr>ac_base_url = trim_end_matches CHR ''/'' base_url\<rparr>"

definition with_default_base_url :: "string option \<Rightarrow> drive_api_client" where
  "with_default_base_url env_base =
     new_api_client (case env_base of Some b \<Rightarrow> b | None \<Rightarrow> DEFAULT_DRIVE_API_BASE)"

section \<open>Queries\<close>

abbreviation backslash :: char where "backslash \<equiv> CHR 0x5C"
abbreviation quote :: char where "quote \<equiv> CHR 0x27"

definition escape_query_literal :: "string \<Rightarrow> string" where
  "escape_query_literal s =
     replace_char quote [backslash, quote] (replace_char backslash [backslash, backslash] s)"

definition build_list_query_since :: "string \<Rightarrow> string \<Rightarrow> string option \<Rightarrow> string" where
  "build_list_query_since folder_id name_prefix since =
     (let folder = escape_query_literal folder_id;
          q = (if name_prefix = [] \<or> since \<noteq> None
               then [quote] @ folder @ [quote] @ '' in parents and trashed = false''
               else [quote] @ folder @ [quote] @ '' in parents and name contains '' @ [quote]
                    @ escape_query_literal name_prefix @ [quote] @ '' and trashed = false'')
      in case since of
           None \<Rightarrow> q
         | Some s \<Rightarrow> q @ '' and modifiedTime >= '' @ [quote] @ escape_query_literal s @ [quote])"

definition build_list_query :: "string \<Rightarrow> string \<Rightarrow> string" where
  "build_list_query folder_id name_prefix = build_list_query_since folder_id name_prefix None"

definition ensure_body_within_limit :: "string \<Rightarrow> u64 \<Rightarrow> u64 \<Rightarrow> (unit, drive_api_error) result" where
  "ensure_body_within_limit file_id actual limit =
     (if actual > limit then Inl (ResponseTooLarge file_id actual limit) else Inr ())"

section \<open>Bodies and responses\<close>

definition hex_digit :: "nat \<Rightarrow> char" where
  "hex_digit n = char_of (if n < 10 then 48 + n else 87 + n)"

text \<open>The 16 random bytes are the argument.\<close>

definition generate_boundary :: "bytes \<Rightarrow> string" where
  "generate_boundary rnd =
     concat (map (\<lambda>b. [hex_digit (unat b div 16), hex_digit (unat b mod 16)]) rnd)"

definition build_upload_metadata_json :: "json_lib \<Rightarrow> string \<Rightarrow> string \<Rightarrow> string option \<Rightarrow> string" where
  "build_upload_metadata_json J folder_id name mime_type =
     j_print J (JObj ([(''name'', JStr name), (''parents'', JArr [JStr folder_id])]
       @ (case mime_type of Some mt \<Rightarrow> [(''mimeType'', JStr mt)] | None \<Rightarrow> [])))"

definition build_folder_create_body :: "json_lib \<Rightarrow> string \<Rightarrow> string" where
  "build_folder_create_body J name =
     j_print J (JObj [(''name'', JStr name), (''mimeType'', JStr DRIVE_FOLDER_MIME)])"

abbreviation crlf :: string where "crlf \<equiv> [CHR 0x0D, CHR 0x0A]"

definition build_multipart_related_body :: "bytes \<Rightarrow> string \<Rightarrow> bytes \<Rightarrow> string \<Rightarrow> bytes" where
  "build_multipart_related_body metadata_json body_mime body boundary =
     as_bytes ''--'' @ as_bytes boundary
     @ as_bytes (crlf @ ''Content-Type: application/json; charset=UTF-8'' @ crlf @ crlf)
     @ metadata_json @ as_bytes crlf
     @ as_bytes ''--'' @ as_bytes boundary
     @ as_bytes (crlf @ ''Content-Type: '') @ as_bytes body_mime @ as_bytes (crlf @ crlf)
     @ body @ as_bytes crlf
     @ as_bytes ''--'' @ as_bytes boundary @ as_bytes (''--'' @ crlf)"

definition list_response_rows :: "json_lib \<Rightarrow> list_response_json \<Rightarrow> drive_file list" where
  "list_response_rows J parsed =
     List.map_filter (\<lambda>e.
       if fe_id e = [] \<or> fe_name e = [] then None
       else Some \<lparr>df_id = fe_id e, df_name = fe_name e,
                  df_modified_time = Option.bind (fe_modified_time e) (j_time J),
                  df_size = map_option word_of_nat
                    (Option.bind (fe_size e) (parse_uint (2 ^ 64)))\<rparr>)
       (lr_files parsed)"

definition parse_list_response_paged ::
    "json_lib \<Rightarrow> string \<Rightarrow> (drive_file list \<times> string option, drive_api_error) result" where
  "parse_list_response_paged J body =
     (case j_list J body of
        Inl e \<Rightarrow> Inl (BadResponse (''files.list: '' @ e))
      | Inr parsed \<Rightarrow> Inr (list_response_rows J parsed, lr_next_page_token parsed))"

definition parse_file_create_response :: "json_lib \<Rightarrow> string \<Rightarrow> (string, drive_api_error) result" where
  "parse_file_create_response J body =
     (case j_create J body of
        Inl e \<Rightarrow> Inl (BadResponse (''files.create: '' @ e))
      | Inr i \<Rightarrow> if i = [] then Inl (MissingField ''id'') else Inr i)"

definition parse_error_response :: "json_lib \<Rightarrow> u16 \<Rightarrow> string \<Rightarrow> drive_api_error" where
  "parse_error_response J status body =
     (case j_error J body of
        Some e \<Rightarrow>
          Endpoint status (find (\<lambda>r. r \<noteq> []) (ej_reasons e))
            (if ej_message e = [] then ''HTTP '' @ dec_show (unat status) else ej_message e)
      | None \<Rightarrow> Endpoint status None body)"

section \<open>The endpoints\<close>

definition list_request :: "drive_api_client \<Rightarrow> string \<Rightarrow> string \<Rightarrow> string option \<Rightarrow> http_request" where
  "list_request c token q page_token =
     \<lparr>rq_method = GET, rq_url = ac_base_url c @ ''/drive/v3/files'', rq_token = token,
      rq_query =
        [(''q'', q), (''fields'', ''nextPageToken,files(id,name,modifiedTime,size)''),
         (''pageSize'', dec_show DEFAULT_LIST_PAGE_SIZE), (''orderBy'', ''modifiedTime desc''),
         (''spaces'', ''drive'')]
        @ (case page_token of Some t \<Rightarrow> [(''pageToken'', t)] | None \<Rightarrow> []),
      rq_content_type = None, rq_body = []\<rparr>"

text \<open>The body of a response already checked for its status: what every endpoint does with
  \<open>status\<close> and \<open>text()\<close>.\<close>

definition text_if_success :: "json_lib \<Rightarrow> http_response \<Rightarrow> (string, drive_api_error) result" where
  "text_if_success J resp =
     (case rs_text resp of
        None \<Rightarrow> Inl Transport
      | Some body \<Rightarrow>
          if \<not> is_success (rs_status resp) then Inl (parse_error_response J (rs_status resp) body)
          else Inr body)"

fun list_pages :: "nat \<Rightarrow> json_lib \<Rightarrow> 's http \<Rightarrow> drive_api_client \<Rightarrow> string \<Rightarrow> string
    \<Rightarrow> string option \<Rightarrow> drive_file list \<Rightarrow> 's \<Rightarrow> 's \<times> (drive_file list, drive_api_error) result" where
  "list_pages 0 J send c token q page_token files s =
     (s, Inl (BadResponse (''files.list: aborted after '' @ dec_show MAX_PAGES @ '' pages ''
        @ [CHR 0xE2, CHR 0x80, CHR 0x94] @ '' Drive appears to be returning a ''
        @ ''non-terminating nextPageToken chain'')))"
| "list_pages (Suc n) J send c token q page_token files s =
     (case send s (list_request c token q page_token) of
        (s', None) \<Rightarrow> (s', Inl Transport)
      | (s', Some resp) \<Rightarrow>
          (case text_if_success J resp of
             Inl e \<Rightarrow> (s', Inl e)
           | Inr body \<Rightarrow>
               (case parse_list_response_paged J body of
                  Inl e \<Rightarrow> (s', Inl e)
                | Inr (page, nxt) \<Rightarrow>
                    (case nxt of
                       Some t \<Rightarrow>
                         if t \<noteq> [] then list_pages n J send c token q (Some t) (files @ page) s'
                         else (s', Inr (files @ page))
                     | None \<Rightarrow> (s', Inr (files @ page))))))"

definition list_files_in_folder_since :: "json_lib \<Rightarrow> 's http \<Rightarrow> drive_api_client \<Rightarrow> string \<Rightarrow> string
    \<Rightarrow> string \<Rightarrow> string option \<Rightarrow> 's \<Rightarrow> 's \<times> (drive_file list, drive_api_error) result" where
  "list_files_in_folder_since J send c token folder_id name_prefix since s =
     list_pages MAX_PAGES J send c token (build_list_query_since folder_id name_prefix since) None [] s"

definition list_files_in_folder :: "json_lib \<Rightarrow> 's http \<Rightarrow> drive_api_client \<Rightarrow> string \<Rightarrow> string
    \<Rightarrow> string \<Rightarrow> 's \<Rightarrow> 's \<times> (drive_file list, drive_api_error) result" where
  "list_files_in_folder J send c token folder_id name_prefix s =
     list_files_in_folder_since J send c token folder_id name_prefix None s"

definition saturating_add :: "u64 \<Rightarrow> nat \<Rightarrow> u64" where
  "saturating_add a n = (if unat a + n < 2 ^ 64 then a + word_of_nat n else - 1)"

text \<open>The streaming loop of the download: \<open>tot\<close> counts, \<open>body\<close> collects.\<close>

fun read_stream :: "string \<Rightarrow> u64 \<Rightarrow> u64 \<Rightarrow> bytes \<Rightarrow> bytes option list
    \<Rightarrow> (bytes, drive_api_error) result" where
  "read_stream file_id max_bytes tot body [] = Inr body"
| "read_stream file_id max_bytes tot body (None # _) = Inl Transport"
| "read_stream file_id max_bytes tot body (Some chunk # rest) =
     (let tot' = saturating_add tot (length chunk) in
      case ensure_body_within_limit file_id tot' max_bytes of
        Inl e \<Rightarrow> Inl e
      | Inr _ \<Rightarrow> read_stream file_id max_bytes tot' (body @ chunk) rest)"

definition file_url :: "drive_api_client \<Rightarrow> string \<Rightarrow> string" where
  "file_url c file_id = ac_base_url c @ ''/drive/v3/files/'' @ file_id"

definition download_response ::
    "json_lib \<Rightarrow> string \<Rightarrow> u64 \<Rightarrow> http_response \<Rightarrow> (bytes, drive_api_error) result" where
  "download_response J file_id max_bytes resp =
     (if \<not> is_success (rs_status resp) then
        (case rs_text resp of
           None \<Rightarrow> Inl Transport
         | Some body \<Rightarrow> Inl (parse_error_response J (rs_status resp) body))
      else
        (case (case rs_content_length resp of
                 Some len \<Rightarrow> ensure_body_within_limit file_id len max_bytes
               | None \<Rightarrow> Inr ()) of
           Inl e \<Rightarrow> Inl e
         | Inr _ \<Rightarrow> read_stream file_id max_bytes 0 [] (rs_stream resp)))"

definition download_file :: "json_lib \<Rightarrow> 's http \<Rightarrow> drive_api_client \<Rightarrow> string \<Rightarrow> string \<Rightarrow> u64
    \<Rightarrow> 's \<Rightarrow> 's \<times> (bytes, drive_api_error) result" where
  "download_file J send c token file_id max_bytes s =
     (case send s \<lparr>rq_method = GET, rq_url = file_url c file_id, rq_token = token,
                   rq_query = [(''alt'', ''media'')], rq_content_type = None, rq_body = []\<rparr> of
        (s', None) \<Rightarrow> (s', Inl Transport)
      | (s', Some resp) \<Rightarrow> (s', download_response J file_id max_bytes resp))"

definition created_id :: "json_lib \<Rightarrow> http_response \<Rightarrow> (string, drive_api_error) result" where
  "created_id J resp =
     (case text_if_success J resp of Inl e \<Rightarrow> Inl e | Inr body \<Rightarrow> parse_file_create_response J body)"

definition upload_file :: "json_lib \<Rightarrow> 's http \<Rightarrow> drive_api_client \<Rightarrow> bytes \<Rightarrow> string \<Rightarrow> string
    \<Rightarrow> string \<Rightarrow> bytes \<Rightarrow> 's \<Rightarrow> 's \<times> (string, drive_api_error) result" where
  "upload_file J send c rnd token folder_id name body s =
     (let boundary = generate_boundary rnd;
          metadata = build_upload_metadata_json J folder_id name None in
      case send s \<lparr>rq_method = POST, rq_url = ac_base_url c @ ''/upload/drive/v3/files'',
                   rq_token = token, rq_query = [(''uploadType'', ''multipart''), (''fields'', ''id'')],
                   rq_content_type = Some (''multipart/related; boundary='' @ boundary),
                   rq_body = build_multipart_related_body (as_bytes metadata) FRAME_BODY_MIME body
                     boundary\<rparr> of
        (s', None) \<Rightarrow> (s', Inl Transport)
      | (s', Some resp) \<Rightarrow> (s', created_id J resp))"

definition delete_file :: "json_lib \<Rightarrow> 's http \<Rightarrow> drive_api_client \<Rightarrow> string \<Rightarrow> string
    \<Rightarrow> 's \<Rightarrow> 's \<times> (unit, drive_api_error) result" where
  "delete_file J send c token file_id s =
     (case send s \<lparr>rq_method = DELETE, rq_url = file_url c file_id, rq_token = token,
                   rq_query = [], rq_content_type = None, rq_body = []\<rparr> of
        (s', None) \<Rightarrow> (s', Inl Transport)
      | (s', Some resp) \<Rightarrow>
          (s', if is_success (rs_status resp) \<or> rs_status resp = 404 then Inr ()
               else (case rs_text resp of
                       None \<Rightarrow> Inl Transport
                     | Some body \<Rightarrow> Inl (parse_error_response J (rs_status resp) body))))"

definition create_folder :: "json_lib \<Rightarrow> 's http \<Rightarrow> drive_api_client \<Rightarrow> string \<Rightarrow> string
    \<Rightarrow> 's \<Rightarrow> 's \<times> (string, drive_api_error) result" where
  "create_folder J send c token name s =
     (case send s \<lparr>rq_method = POST, rq_url = ac_base_url c @ ''/drive/v3/files'', rq_token = token,
                   rq_query = [(''fields'', ''id'')],
                   rq_content_type = Some ''application/json; charset=UTF-8'',
                   rq_body = as_bytes (build_folder_create_body J name)\<rparr> of
        (s', None) \<Rightarrow> (s', Inl Transport)
      | (s', Some resp) \<Rightarrow> (s', created_id J resp))"

section \<open>Query literals\<close>

text \<open>How Drive reads a single-quoted literal whose opening quote has been consumed: a backslash
  takes the next character as it is, a quote closes.\<close>

fun read_literal :: "string \<Rightarrow> (string \<times> string) option" where
  "read_literal [] = None"
| "read_literal (c # cs) =
     (if c = quote then Some ([], cs)
      else if c = backslash then
        (case cs of [] \<Rightarrow> None | d # ds \<Rightarrow> map_option (\<lambda>(v, r). (d # v, r)) (read_literal ds))
      else map_option (\<lambda>(v, r). (c # v, r)) (read_literal cs))"

lemma escape_query_literal_simps [simp]:
  "escape_query_literal [] = []"
  "escape_query_literal (c # s) =
     (if c = backslash \<or> c = quote then [backslash, c] else [c]) @ escape_query_literal s"
  by (simp_all add: escape_query_literal_def replace_char_def)

lemma read_escaped: "read_literal (escape_query_literal s @ quote # rest) = Some (s, rest)"
  by (induction s) auto

text \<open>A value escaped into a quoted query literal is read back by Drive's literal syntax as
  that value, ending at the closing quote the builder wrote: no folder id, prefix or cursor can
  close its literal early or change the rest of the query.\<close>

theorem query_literal_roundtrip:
  "read_literal (escape_query_literal s @ quote # rest) = Some (s, rest)"
  by (rule read_escaped)

section \<open>The paged listing\<close>

text \<open>\<open>serves J send c token q s t pages s'\<close>: from state \<open>s\<close>, asked from page token \<open>t\<close> on, the
  server answers with these pages of rows, the last one without a continuation, and is then in
  state \<open>s'\<close>.\<close>

inductive serves :: "json_lib \<Rightarrow> 's http \<Rightarrow> drive_api_client \<Rightarrow> string \<Rightarrow> string
    \<Rightarrow> 's \<Rightarrow> string option \<Rightarrow> drive_file list list \<Rightarrow> 's \<Rightarrow> bool"
  for J send c token q where
  last_page: "send s (list_request c token q t) = (s', Some resp) \<Longrightarrow>
     text_if_success J resp = Inr body \<Longrightarrow>
     parse_list_response_paged J body = Inr (page, nxt) \<Longrightarrow> nxt = None \<or> nxt = Some [] \<Longrightarrow>
     serves J send c token q s t [page] s'"
| more_pages: "send s (list_request c token q t) = (s', Some resp) \<Longrightarrow>
     text_if_success J resp = Inr body \<Longrightarrow>
     parse_list_response_paged J body = Inr (page, Some t') \<Longrightarrow> t' \<noteq> [] \<Longrightarrow>
     serves J send c token q s' (Some t') pages s'' \<Longrightarrow>
     serves J send c token q s t (page # pages) s''"

lemma list_pages_serves:
  "serves J send c token q s t pages s' \<Longrightarrow> length pages \<le> n \<Longrightarrow>
     list_pages n J send c token q t files s = (s', Inr (files @ concat pages))"
proof (induction arbitrary: n files rule: serves.induct)
  case (last_page s t s' resp body page nxt)
  then show ?case by (cases n) auto
next
  case (more_pages s t s' resp body page t' pages s'')
  then show ?case by (cases n) auto
qed

lemma list_pages_exhausted:
  "serves J send c token q s t pages s' \<Longrightarrow> n < length pages \<Longrightarrow>
     \<exists>m. snd (list_pages n J send c token q t files s) = Inl (BadResponse m)"
proof (induction arbitrary: n files rule: serves.induct)
  case (last_page s t s' resp body page nxt)
  then show ?case by simp
next
  case (more_pages s t s' resp body page t' pages s'')
  then show ?case by (cases n) auto
qed

text \<open>When the server answers with a chain of pages, the listing is the rows of all of them in
  order, up to 1000 pages; a longer chain is an error, never a truncated listing.\<close>

theorem listing_complete:
  assumes "serves J send c token (build_list_query_since folder pfx since) s None pages s'"
  shows "if length pages \<le> 1000
     then list_files_in_folder_since J send c token folder pfx since s = (s', Inr (concat pages))
     else \<exists>m. snd (list_files_in_folder_since J send c token folder pfx since s)
            = Inl (BadResponse m)"
  using list_pages_serves [OF assms, of MAX_PAGES "[]"]
    list_pages_exhausted [OF assms, of MAX_PAGES "[]"]
  unfolding list_files_in_folder_since_def MAX_PAGES_def by (simp del: list_pages.simps)

text \<open>A two-page server for the witness: the state is the bodies still to be served, the body
  names its one file, and the body \<open>a\<close> announces a further page.\<close>

definition page_json :: json_lib where
  "page_json =
     \<lparr>j_list = (\<lambda>b. Inr \<lparr>lr_files = [\<lparr>fe_id = b, fe_name = b, fe_modified_time = None, fe_size = None\<rparr>],
                          lr_next_page_token = (if b = ''a'' then Some ''t'' else None)\<rparr>),
      j_create = Inr, j_error = (\<lambda>_. None), j_time = (\<lambda>_. None), j_print = (\<lambda>_. [])\<rparr>"

definition page_server :: "string list http" where
  "page_server s rq =
     (case s of [] \<Rightarrow> ([], None)
      | b # r \<Rightarrow> (r, Some \<lparr>rs_status = 200, rs_content_length = None, rs_text = Some b, rs_stream = []\<rparr>))"

definition row :: "string \<Rightarrow> drive_file" where
  "row b = \<lparr>df_id = b, df_name = b, df_modified_time = None, df_size = None\<rparr>"

lemma page_server_serves:
  "serves page_json page_server c token q [''a'', ''b''] None [[row ''a''], [row ''b'']] []"
  by (rule more_pages, simp add: page_server_def,
      simp add: text_if_success_def is_success_def,
      simp add: parse_list_response_paged_def page_json_def list_response_rows_def row_def map_filter_def,
      simp, rule last_page, simp add: page_server_def,
      simp add: text_if_success_def is_success_def,
      simp add: parse_list_response_paged_def page_json_def list_response_rows_def row_def map_filter_def)
    simp

theorem listing_complete_witness:
  "list_files_in_folder_since page_json page_server \<lparr>ac_base_url = []\<rparr> ''k'' ''f'' [] None [''a'', ''b'']
     = ([], Inr [row ''a'', row ''b''])"
  using listing_complete [OF page_server_serves [of "\<lparr>ac_base_url = []\<rparr>" "''k''"
      "build_list_query_since ''f'' [] None"]]
  by simp

section \<open>The bounded download\<close>

lemma ensure_ok: "ensure_body_within_limit i n m = Inr u \<longleftrightarrow> n \<le> m"
  by (auto simp: ensure_body_within_limit_def)

lemma unat_saturating_add: "unat (saturating_add a n) = min (unat a + n) (2 ^ 64 - 1)"
  by (auto simp: saturating_add_def unat_word_ariths unat_of_nat)

lemma read_stream_iff:
  assumes "m \<noteq> - 1" "unat a = length b" "length b \<le> unat m"
  shows "read_stream i m a b cs = Inr body \<longleftrightarrow>
    None \<notin> set cs \<and> body = b @ concat (map the cs) \<and> length body \<le> unat m"
  using assms
proof (induction cs arbitrary: a b)
  case Nil
  then show ?case by auto
next
  case (Cons c cs)
  show ?case
  proof (cases c)
    case None
    then show ?thesis by simp
  next
    case (Some chunk)
    let ?t = "saturating_add a (length chunk)"
    have le: "?t \<le> m \<longleftrightarrow> length (b @ chunk) \<le> unat m"
      using Cons.prems(2) unat_neq_max [OF Cons.prems(1)]
      by (auto simp: word_le_nat_alt unat_saturating_add)
    show ?thesis
    proof (cases "?t \<le> m")
      case True
      have "length (b @ chunk) < 2 ^ 64 - 1"
        using True le unat_neq_max [OF Cons.prems(1)] by simp
      with Cons.prems(2) have "unat ?t = length (b @ chunk)"
        by (simp add: unat_saturating_add)
      moreover have "\<not> m < ?t" using True by (rule leD)
      ultimately show ?thesis
        using Cons.IH [of ?t "b @ chunk"] Cons.prems(1) le True Some
        by (simp add: ensure_body_within_limit_def)
    next
      case False
      with le Some show ?thesis by (auto simp: ensure_body_within_limit_def not_le Let_def)
    qed
  qed
qed

text \<open>A download returns a body exactly when the status is a success, the declared length (when
  there is one) and the received length are within the limit, and no chunk failed; the body is then
  every chunk in order. (For every limit below the largest 64-bit number, where the byte counter
  saturates.)\<close>

theorem download_exact:
  assumes "max_bytes \<noteq> - 1"
  shows "download_response J file_id max_bytes resp = Inr body \<longleftrightarrow>
    is_success (rs_status resp) \<and>
    (\<forall>len. rs_content_length resp = Some len \<longrightarrow> len \<le> max_bytes) \<and>
    None \<notin> set (rs_stream resp) \<and> body = concat (map the (rs_stream resp)) \<and>
    length body \<le> unat max_bytes"
  using read_stream_iff [OF assms, of 0 "[]" file_id "rs_stream resp" body]
  by (auto simp: download_response_def ensure_body_within_limit_def
      split: option.splits if_splits)

theorem download_exact_witness:
  "download_response page_json ''i'' 4 \<lparr>rs_status = 200, rs_content_length = None, rs_text = None,
      rs_stream = [Some [1, 2], Some [3]]\<rparr> = Inr [1, 2, 3]"
  using download_exact [of 4 page_json "''i''" "\<lparr>rs_status = 200, rs_content_length = None, rs_text = None,
      rs_stream = [Some [1, 2], Some [3]]\<rparr>" "[1, 2, 3]"]
  by (simp add: is_success_def)

end
