(* ===== verification/Wire_Filename.thy ===== *)
theory Wire_Filename
  imports Wire_Frame Rust_Str
begin

text \<open>
  The Drive filename grammar (\<^verbatim>\<open>drive-wire/src/filename.rs\<close>): \<open>format_filename\<close> renders a
  direction, session id and sequence number, \<open>parse_filename\<close> reads them back. The base32 loops
  keep the code's 64-bit shift buffer; their correctness is proved by an arithmetic invariant
  (digits so far, scaled, plus the pending low bits, equal the bytes so far). Shown: the
  session-id codec and the filename codec round-trip, names determine their contents, and a name
  that parses is equivalent to the canonical one.
\<close>

section \<open>Data\<close>

definition PREFIX_HELLO :: string where "PREFIX_HELLO = ''h_''"
definition PREFIX_C2R :: string where "PREFIX_C2R = ''c2r_''"
definition PREFIX_R2C :: string where "PREFIX_R2C = ''r2c_''"

datatype direction = ClientToRelay | RelayToClient

datatype filename_kind = FnHello | FnFrame direction

record drive_filename =
  fn_kind :: filename_kind
  fn_sid :: session_id
  fn_seq :: u64

section \<open>Base32\<close>

definition ALPHABET :: string where
  "ALPHABET = ''abcdefghijklmnopqrstuvwxyz234567''"

text \<open>The inner \<open>while bits_in_buffer >= 5\<close> loop of the encoder.\<close>

fun drain5 :: "u64 \<Rightarrow> nat \<Rightarrow> string \<Rightarrow> nat \<times> string" where
  "drain5 buffer bits out =
     (if 5 \<le> bits then
        let bits' = bits - 5; idx = unat (drop_bit bits' buffer AND 0x1f)
        in drain5 buffer bits' (out @ [ALPHABET ! idx])
      else (bits, out))"

declare drain5.simps [simp del]

fun encode_sid_loop :: "bytes \<Rightarrow> u64 \<Rightarrow> nat \<Rightarrow> string \<Rightarrow> u64 \<times> nat \<times> string" where
  "encode_sid_loop [] buffer bits out = (buffer, bits, out)"
| "encode_sid_loop (b # bs) buffer bits out =
     (let buffer' = push_bit 8 buffer OR ucast b; (bits', out') = drain5 buffer' (bits + 8) out
      in encode_sid_loop bs buffer' bits' out')"

definition encode_sid_b32 :: "session_id \<Rightarrow> string" where
  "encode_sid_b32 s =
     (let (buffer, bits, out) = encode_sid_loop s 0 0 []
      in if 0 < bits then out @ [ALPHABET ! unat (push_bit (5 - bits) buffer AND 0x1f)] else out)"

definition decode_b32_char :: "char \<Rightarrow> byte option" where
  "decode_b32_char c =
     (let n = of_char c :: nat in
      if 97 \<le> n \<and> n \<le> 122 then Some (word_of_nat (n - 97))
      else if 65 \<le> n \<and> n \<le> 90 then Some (word_of_nat (n - 65))
      else if 50 \<le> n \<and> n \<le> 55 then Some (word_of_nat (n - 50 + 26))
      else None)"

text \<open>The loop over the characters; \<open>out\<close> is \<open>out[..out_idx]\<close>, the bytes written so far.\<close>

fun decode_sid_loop :: "string \<Rightarrow> u64 \<Rightarrow> nat \<Rightarrow> bytes \<Rightarrow> bytes option" where
  "decode_sid_loop [] buffer bits out = (if length out \<noteq> 16 then None else Some out)"
| "decode_sid_loop (c # cs) buffer bits out =
     (case decode_b32_char c of
        None \<Rightarrow> None
      | Some v \<Rightarrow>
          let buffer' = push_bit 5 buffer OR ucast v; bits' = bits + 5 in
          if 8 \<le> bits' then
            (let bits'' = bits' - 8 in
             if 16 \<le> length out then None
             else decode_sid_loop cs buffer' bits''
                    (out @ [ucast (drop_bit bits'' buffer' AND 0xff)]))
          else decode_sid_loop cs buffer' bits' out)"

definition decode_sid_b32 :: "string \<Rightarrow> session_id option" where
  "decode_sid_b32 s = (if length s \<noteq> 26 then None else decode_sid_loop s 0 0 [])"

section \<open>The grammar\<close>

definition format_filename :: "drive_filename \<Rightarrow> string" where
  "format_filename f =
     (case fn_kind f of
        FnHello \<Rightarrow> PREFIX_HELLO
      | FnFrame ClientToRelay \<Rightarrow> PREFIX_C2R
      | FnFrame RelayToClient \<Rightarrow> PREFIX_R2C)
     @ encode_sid_b32 (fn_sid f) @ ''_'' @ dec_show (unat (fn_seq f))"

definition parse_kind :: "string \<Rightarrow> (filename_kind \<times> string) option" where
  "parse_kind name =
     (case strip_prefix PREFIX_C2R name of
        Some r \<Rightarrow> Some (FnFrame ClientToRelay, r)
      | None \<Rightarrow>
          (case strip_prefix PREFIX_R2C name of
             Some r \<Rightarrow> Some (FnFrame RelayToClient, r)
           | None \<Rightarrow>
               (case strip_prefix PREFIX_HELLO name of
                  Some r \<Rightarrow> Some (FnHello, r)
                | None \<Rightarrow> None)))"

definition parse_filename :: "string \<Rightarrow> drive_filename option" where
  "parse_filename name =
     (case parse_kind name of
        None \<Rightarrow> None
      | Some (k, rest) \<Rightarrow>
          (case rsplit_once CHR ''_'' rest of
             None \<Rightarrow> None
           | Some (sid_b32, seq_str) \<Rightarrow>
               (case decode_sid_b32 sid_b32 of
                  None \<Rightarrow> None
                | Some s \<Rightarrow>
                    (case parse_uint (2 ^ 64) seq_str of
                       None \<Rightarrow> None
                     | Some q \<Rightarrow>
                         if k = FnHello \<and> (word_of_nat q :: u64) \<noteq> 0 then None
                         else Some \<lparr>fn_kind = k, fn_sid = s, fn_seq = word_of_nat q\<rparr>))))"

definition wf_filename :: "drive_filename \<Rightarrow> bool" where
  "wf_filename f \<longleftrightarrow> wf_sid (fn_sid f) \<and> (fn_kind f = FnHello \<longrightarrow> fn_seq f = 0)"

section \<open>Correctness of the base32 loops\<close>

text \<open>Only the low bits of the buffer are ever read: its value modulo a power of two below 2^64.\<close>

lemma take_bit_push_or_nat:
  assumes "k + m \<le> n" "b < 2 ^ m"
  shows "take_bit (k + m) (take_bit n (push_bit m a) OR b) = push_bit m (take_bit k a) + (b :: nat)"
proof -
  have b: "take_bit m b = b" using assms(2) by (simp add: take_bit_nat_eq_self)
  have hi: "\<not> bit b i" if "m \<le> i" for i
    using that by (subst b [symmetric]) (simp add: bit_take_bit_iff)
  have "push_bit m (take_bit k a) AND b = 0"
    using hi by (auto simp: bit_eq_iff bit_simps not_le)
  then have "push_bit m (take_bit k a) + b = push_bit m (take_bit k a) OR b"
    by (rule disjunctive_add_eq_or)
  also have "\<dots> = take_bit (k + m) (take_bit n (push_bit m a) OR b)"
    using hi assms(1) by (auto simp: bit_eq_iff bit_simps not_le not_less)
  finally show ?thesis by simp
qed

lemma unat_mod_push_or:
  assumes "k + m \<le> 64" "unat v < 2 ^ m"
  shows "unat (push_bit m (w :: u64) OR v) mod 2 ^ (k + m) = (unat w mod 2 ^ k) * 2 ^ m + unat v"
proof -
  have "unat (push_bit m w OR v) = take_bit 64 (push_bit m (unat w)) OR unat v"
    by (simp add: unsigned_or_eq unsigned_push_bit_eq)
  then show ?thesis
    using take_bit_push_or_nat [of k m 64 "unat v" "unat w"] assms
    by (simp add: take_bit_eq_mod push_bit_eq_mult)
qed

lemma mod_pow_split: "(x :: nat) mod 2 ^ (b + n) = (x div 2 ^ b mod 2 ^ n) * 2 ^ b + x mod 2 ^ b"
  by (simp add: power_add mod_mult2_eq [of x "2 ^ b" "2 ^ n"] mult.commute)

lemma take_bit_unat_u64 [simp]: "take_bit 64 (unat (w :: u64)) = unat w"
  using unat_bound [of w] by (simp add: take_bit_nat_eq_self)

lemma unat_digit5: "unat (drop_bit b (w :: u64) AND 0x1f) = unat w div 2 ^ b mod 32"
proof -
  have "drop_bit b w AND 0x1f = take_bit 5 (drop_bit b w)"
    by (simp add: take_bit_eq_mask mask_eq_exp_minus_1)
  also have "unat \<dots> = take_bit 5 (drop_bit b (unat w))"
    by (simp add: unsigned_take_bit_eq unsigned_drop_bit_eq)
  finally show ?thesis by (simp add: take_bit_eq_mod drop_bit_eq_div)
qed

lemma unat_digit8:
  "unat (ucast (drop_bit b (w :: u64) AND 0xff) :: byte) = unat w div 2 ^ b mod 256"
proof -
  have "drop_bit b w AND 0xff = take_bit 8 (drop_bit b w)"
    by (simp add: take_bit_eq_mask mask_eq_exp_minus_1)
  then have "unat (ucast (drop_bit b w AND 0xff) :: byte) = take_bit 8 (drop_bit b (unat w))"
    by (simp add: unsigned_ucast_eq unsigned_take_bit_eq unsigned_drop_bit_eq)
  then show ?thesis by (simp add: take_bit_eq_mod drop_bit_eq_div)
qed

lemma unat_pad_digit:
  assumes "0 < b" "b < 5"
  shows "unat (push_bit (5 - b) (w :: u64) AND 0x1f) = (unat w mod 2 ^ b) * 2 ^ (5 - b)"
proof -
  have "push_bit (5 - b) w AND 0x1f = take_bit 5 (push_bit (5 - b) w)"
    by (simp add: take_bit_eq_mask mask_eq_exp_minus_1)
  also have "unat \<dots> = take_bit 5 (push_bit (5 - b) (unat w))"
    using assms by (simp add: unsigned_take_bit_eq unsigned_push_bit_eq)
  also have "\<dots> = push_bit (5 - b) (take_bit b (unat w))"
    using assms by (auto simp: bit_eq_iff bit_simps)
  finally show ?thesis by (simp add: take_bit_eq_mod push_bit_eq_mult)
qed

lemma be_val_Cons: "be_val (b # bs) = unat b * 256 ^ length bs + be_val bs"
proof (induction bs rule: rev_induct)
  case Nil
  then show ?case by (simp add: be_val_def)
next
  case (snoc c bs)
  then show ?case using be_val_snoc [of "b # bs" c] by (simp add: algebra_simps)
qed

text \<open>The number a string of base32 characters denotes.\<close>

definition b32_val :: "string \<Rightarrow> nat" where
  "b32_val s = foldl (\<lambda>a c. a * 32 + unat (the (decode_b32_char c))) 0 s"

definition b32_str :: "string \<Rightarrow> bool" where
  "b32_str s \<longleftrightarrow> list_all (\<lambda>c. decode_b32_char c \<noteq> None) s"

lemma b32_val_Nil [simp]: "b32_val [] = 0"
  and b32_str_Nil [simp]: "b32_str []"
  by (simp_all add: b32_val_def b32_str_def)

lemma b32_val_snoc [simp]: "b32_val (s @ [c]) = b32_val s * 32 + unat (the (decode_b32_char c))"
  by (simp add: b32_val_def)

lemma b32_str_append [simp]: "b32_str (s @ t) \<longleftrightarrow> b32_str s \<and> b32_str t"
  by (simp add: b32_str_def)

lemma b32_val_Cons: "b32_val (c # s) = unat (the (decode_b32_char c)) * 32 ^ length s + b32_val s"
proof (induction s rule: rev_induct)
  case Nil
  then show ?case by (simp add: b32_val_def)
next
  case (snoc d s)
  then show ?case using b32_val_snoc [of "c # s" d] by (simp add: algebra_simps)
qed

lemma decode_alphabet: "\<forall>d < 32. decode_b32_char (ALPHABET ! d) = Some (word_of_nat d)"
  by (simp add: ALPHABET_def decode_b32_char_def All_less_Suc numeral_eq_Suc)

lemma alphabet_digit [simp]:
  "d < 32 \<Longrightarrow> unat (the (decode_b32_char (ALPHABET ! d))) = d"
  "d < 32 \<Longrightarrow> b32_str [ALPHABET ! d]"
  using decode_alphabet by (simp_all add: b32_str_def)

lemma decode_b32_char_less: "decode_b32_char c = Some v \<Longrightarrow> unat v < 32"
  by (auto simp: decode_b32_char_def Let_def simp del: of_nat_diff of_nat_add split: if_splits)

lemma drain5_value:
  assumes "drain5 w bits out = (bits', out')" "b32_str out"
  shows "bits' < 5 \<and> bits + 5 * length out = bits' + 5 * length out' \<and> b32_str out' \<and>
     b32_val out' * 2 ^ bits' + unat w mod 2 ^ bits' = b32_val out * 2 ^ bits + unat w mod 2 ^ bits"
  using assms
proof (induction w bits out rule: drain5.induct)
  case (1 w bits out)
  show ?case
  proof (cases "5 \<le> bits")
    case True
    let ?d = "unat w div 2 ^ (bits - 5) mod 32"
    have d: "unat (drop_bit (bits - 5) w AND 0x1f) = ?d" by (rule unat_digit5)
    have step: "drain5 w (bits - 5) (out @ [ALPHABET ! ?d]) = (bits', out')"
      using "1.prems" True by (simp add: drain5.simps [of w bits] d Let_def)
    have "b32_str (out @ [ALPHABET ! ?d])" using "1.prems" by simp
    note IH = "1.IH" [OF True refl refl, unfolded d, OF step this]
    have "unat w mod 2 ^ bits = ?d * 2 ^ (bits - 5) + unat w mod 2 ^ (bits - 5)"
      using mod_pow_split [of "unat w" "bits - 5" 5] True by simp
    moreover have "(2::nat) ^ bits = 32 * 2 ^ (bits - 5)"
      using True power_add [of "2::nat" "bits - 5" 5] by simp
    ultimately show ?thesis using IH True by (simp add: algebra_simps)
  next
    case False
    with "1.prems" show ?thesis by (simp add: drain5.simps [of w bits])
  qed
qed

lemma unat_ucast_byte: "unat (ucast (b :: byte) :: u64) = unat b"
  by (simp add: unsigned_ucast_eq take_bit_nat_eq_self_iff less_trans [OF unat_byte_lt])

lemma encode_loop_value:
  assumes "encode_sid_loop bs w bits out = (w', bits', out')" "bits < 5" "b32_str out"
  shows "bits' < 5 \<and> 8 * length bs + bits + 5 * length out = bits' + 5 * length out' \<and>
     b32_str out' \<and>
     b32_val out' * 2 ^ bits' + unat w' mod 2 ^ bits'
       = (b32_val out * 2 ^ bits + unat w mod 2 ^ bits) * 256 ^ length bs + be_val bs"
  using assms
proof (induction bs arbitrary: w bits out)
  case Nil
  then show ?case by simp
next
  case (Cons b bs)
  let ?w = "push_bit 8 w OR ucast b"
  obtain bits1 out1 where dr: "drain5 ?w (bits + 8) out = (bits1, out1)" by fastforce
  have "b32_str out" using Cons.prems by simp
  note D = drain5_value [OF dr this]
  have rec: "encode_sid_loop bs ?w bits1 out1 = (w', bits', out')"
    using Cons.prems(1) dr by simp
  note IH = Cons.IH [OF rec]
  have "unat ?w mod 2 ^ (bits + 8) = (unat w mod 2 ^ bits) * 2 ^ 8 + unat (ucast b :: u64)"
    using Cons.prems by (intro unat_mod_push_or) (simp_all add: unat_ucast_byte)
  then have "b32_val out1 * 2 ^ bits1 + unat ?w mod 2 ^ bits1
      = (b32_val out * 2 ^ bits + unat w mod 2 ^ bits) * 256 + unat b"
    using D by (simp add: unat_ucast_byte power_add algebra_simps)
  then show ?case
    using IH D by (simp add: be_val_Cons algebra_simps)
qed

lemma encode_sid_value:
  assumes "wf_sid s"
  shows "length (encode_sid_b32 s) = 26 \<and> b32_str (encode_sid_b32 s) \<and>
     b32_val (encode_sid_b32 s) = be_val s * 4"
proof -
  obtain w bits out where l: "encode_sid_loop s 0 0 [] = (w, bits, out)"
    by (cases "encode_sid_loop s 0 0 []") auto
  from encode_loop_value [OF l] assms
  have v: "bits < 5" "128 = bits + 5 * length out" "b32_str out"
    "b32_val out * 2 ^ bits + unat w mod 2 ^ bits = be_val s"
    by (simp_all add: wf_sid_def)
  then have b: "bits = 3" "length out = 25" by presburger+
  let ?d = "unat (push_bit 2 w AND 0x1f)"
  have d: "?d = (unat w mod 8) * 4" using unat_pad_digit [of 3 w] by simp
  then have "?d < 32" by simp
  moreover have "encode_sid_b32 s = out @ [ALPHABET ! ?d]"
    using l b by (simp add: encode_sid_b32_def)
  ultimately show ?thesis using v b d by simp
qed

lemma decode_loop_value:
  assumes "b32_str cs" "bits < 8" "8 * length out + bits + 5 * length cs = 130"
  shows "\<exists>res r. decode_sid_loop cs w bits out = Some res \<and> length res = 16 \<and> r < 4 \<and>
     be_val res * 4 + r
       = (be_val out * 2 ^ bits + unat w mod 2 ^ bits) * 32 ^ length cs + b32_val cs"
  using assms
proof (induction cs arbitrary: w bits out)
  case Nil
  then have "length out = 16" "bits = 2" by simp_all presburger+
  then show ?case by (intro exI [of _ out] exI [of _ "unat w mod 4"]) simp
next
  case (Cons c cs)
  from Cons.prems(1) obtain v where v: "decode_b32_char c = Some v" and cs: "b32_str cs"
    by (auto simp: b32_str_def)
  define w1 where "w1 = push_bit 5 w OR ucast v"
  have val: "unat w1 mod 2 ^ (bits + 5) = (unat w mod 2 ^ bits) * 32 + unat v"
    using unat_mod_push_or [of bits 5 "ucast v" w] Cons.prems(2) decode_b32_char_less [OF v]
    by (simp add: unat_ucast_byte w1_def)
  have split: "b32_val (c # cs) = unat v * 32 ^ length cs + b32_val cs"
    by (simp add: b32_val_Cons v)
  show ?case
  proof (cases "8 \<le> bits + 5")
    case True
    define b1 where "b1 = bits + 5 - 8"
    define out1 where "out1 = out @ [ucast (drop_bit b1 w1 AND 0xff)]"
    have room: "length out < 16" using Cons.prems(3) True by simp
    have "b1 < 8" "8 * length out1 + b1 + 5 * length cs = 130"
      using Cons.prems(2,3) True by (simp_all add: b1_def out1_def)
    from Cons.IH [OF cs this] obtain res r where IH: "decode_sid_loop cs w1 b1 out1 = Some res"
      "length res = 16" "r < 4"
      "be_val res * 4 + r = (be_val out1 * 2 ^ b1 + unat w1 mod 2 ^ b1) * 32 ^ length cs + b32_val cs"
      by blast
    have "be_val out1 * 2 ^ b1 + unat w1 mod 2 ^ b1
        = be_val out * 2 ^ (b1 + 8) + unat w1 mod 2 ^ (b1 + 8)"
      using mod_pow_split [of "unat w1" b1 8]
      by (simp add: out1_def unat_digit8 power_add algebra_simps)
    also have "\<dots> = (be_val out * 2 ^ bits + unat w mod 2 ^ bits) * 32 + unat v"
      using val True by (simp add: b1_def power_add algebra_simps)
    finally have "be_val res * 4 + r
        = (be_val out * 2 ^ bits + unat w mod 2 ^ bits) * 32 ^ length (c # cs) + b32_val (c # cs)"
      using IH(4) split by (simp add: algebra_simps)
    moreover have "decode_sid_loop (c # cs) w bits out = Some res"
      using IH(1) v True room by (simp add: w1_def b1_def out1_def)
    ultimately show ?thesis using IH(2,3) by blast
  next
    case False
    from Cons.IH [OF cs, of "bits + 5" out w1] Cons.prems(2,3) False
    obtain res r where IH: "decode_sid_loop cs w1 (bits + 5) out = Some res" "length res = 16"
      "r < 4" "be_val res * 4 + r
         = (be_val out * 2 ^ (bits + 5) + unat w1 mod 2 ^ (bits + 5)) * 32 ^ length cs + b32_val cs"
      by auto
    have "be_val res * 4 + r
        = (be_val out * 2 ^ bits + unat w mod 2 ^ bits) * 32 ^ length (c # cs) + b32_val (c # cs)"
      using IH(4) split val by (simp add: power_add algebra_simps)
    moreover have "decode_sid_loop (c # cs) w bits out = Some res"
      using IH(1) v False by (simp add: w1_def)
    ultimately show ?thesis using IH(2,3) by blast
  qed
qed

lemma decode_sid_value:
  assumes "length s = 26" "b32_str s"
  shows "\<exists>res. decode_sid_b32 s = Some res \<and> length res = 16 \<and> be_val res = b32_val s div 4"
proof -
  from decode_loop_value [of s 0 "[]" 0] assms obtain res r where
    "decode_sid_loop s 0 0 [] = Some res" "length res = 16" "r < 4" "be_val res * 4 + r = b32_val s"
    by auto
  then show ?thesis using assms by (auto simp: decode_sid_b32_def)
qed

lemma decode_loop_Some: "decode_sid_loop cs w bits out = Some res \<Longrightarrow> b32_str cs \<and> length res = 16"
  by (induction cs w bits out rule: decode_sid_loop.induct)
    (auto simp: b32_str_def Let_def split: option.splits if_splits)

lemma decode_sid_Some:
  "decode_sid_b32 s = Some res \<longleftrightarrow>
     length s = 26 \<and> b32_str s \<and> length res = 16 \<and> be_val res = b32_val s div 4"
proof
  assume r: "decode_sid_b32 s = Some res"
  then have "length s = 26" "b32_str s"
    by (auto simp: decode_sid_b32_def dest: decode_loop_Some split: if_splits)
  with decode_sid_value [OF this] r
  show "length s = 26 \<and> b32_str s \<and> length res = 16 \<and> be_val res = b32_val s div 4" by auto
next
  assume a: "length s = 26 \<and> b32_str s \<and> length res = 16 \<and> be_val res = b32_val s div 4"
  with decode_sid_value [of s] obtain res' where
    "decode_sid_b32 s = Some res'" "length res' = 16" "be_val res' = b32_val s div 4" by auto
  with a show "decode_sid_b32 s = Some res" by (metis be_val_inj)
qed

interpretation sid_b32: codec encode_sid_b32 decode_sid_b32 wf_sid
  by unfold_locales (simp_all add: decode_sid_Some encode_sid_value wf_sid_def)

text \<open>The base32 text of a 16-byte session id has 26 characters and decodes back to it.\<close>

theorem sid_b32_roundtrip:
  "wf_sid s \<Longrightarrow> length (encode_sid_b32 s) = 26 \<and> decode_sid_b32 (encode_sid_b32 s) = Some s"
  using encode_sid_value sid_b32.dec_enc by blast

theorem sid_b32_roundtrip_witness:
  "length (encode_sid_b32 (replicate 16 0xa5)) = 26 \<and>
   decode_sid_b32 (encode_sid_b32 (replicate 16 0xa5)) = Some (replicate 16 0xa5)"
  by (rule sid_b32_roundtrip) (simp add: wf_sid_def)

section \<open>Correctness of the grammar\<close>

lemmas prefix_defs = PREFIX_HELLO_def PREFIX_C2R_def PREFIX_R2C_def

lemma underscore_not_b32: "b32_str s \<Longrightarrow> CHR ''_'' \<notin> set s"
  by (auto simp: b32_str_def list_all_iff decode_b32_char_def)

lemma underscore_not_digit: "\<not> is_digit CHR ''_''"
  by (simp add: is_digit_def)

lemma parse_kind_prefix [simp]:
  "parse_kind (PREFIX_C2R @ r) = Some (FnFrame ClientToRelay, r)"
  "parse_kind (PREFIX_R2C @ r) = Some (FnFrame RelayToClient, r)"
  "parse_kind (PREFIX_HELLO @ r) = Some (FnHello, r)"
  by (simp_all add: parse_kind_def prefix_defs strip_prefix_def)

lemma parse_format_filename:
  assumes "wf_filename f"
  shows "parse_filename (format_filename f) = Some f"
proof -
  let ?rest = "encode_sid_b32 (fn_sid f) @ CHR ''_'' # dec_show (unat (fn_seq f))"
  have k: "parse_kind (format_filename f) = Some (fn_kind f, ?rest)"
    by (simp add: format_filename_def split: filename_kind.split direction.split)
  have r: "rsplit_once CHR ''_'' ?rest = Some (encode_sid_b32 (fn_sid f), dec_show (unat (fn_seq f)))"
    by (simp add: rsplit_once_Some digit_not_in_dec_show [OF underscore_not_digit])
  have s: "decode_sid_b32 (encode_sid_b32 (fn_sid f)) = Some (fn_sid f)"
    using assms by (simp add: sid_b32.dec_enc wf_filename_def)
  have "unat (fn_seq f) < 2 ^ 64" using unat_bound [of "fn_seq f"] by simp
  then have q: "parse_uint (2 ^ 64) (dec_show (unat (fn_seq f))) = Some (unat (fn_seq f))"
    by (rule parse_uint_dec_show)
  show ?thesis
    using assms unfolding parse_filename_def k option.case prod.case r s q
    by (simp add: wf_filename_def)
qed

lemma parse_filename_wf: "parse_filename name = Some f \<Longrightarrow> wf_filename f"
  by (auto simp: parse_filename_def wf_filename_def wf_sid_def decode_sid_Some
      split: option.splits if_splits prod.splits)

interpretation filename: codec format_filename parse_filename wf_filename
  by unfold_locales (auto intro: parse_format_filename parse_filename_wf)

text \<open>C36: a rendered name parses back to the same direction, session id and sequence number (a
  session opener with sequence number 0), so distinct frames never share a name.\<close>

theorem filename_roundtrip:
  "wf_filename f \<Longrightarrow> wf_filename g \<Longrightarrow>
     parse_filename (format_filename f) = Some f \<and>
     (format_filename f = format_filename g \<longleftrightarrow> f = g)"
  using filename.dec_enc filename.enc_inj by blast

definition sample_filename :: drive_filename where
  "sample_filename =
     \<lparr>fn_kind = FnFrame ClientToRelay, fn_sid = replicate 16 0x11, fn_seq = 3\<rparr>"

lemma wf_sample_filename: "wf_filename sample_filename" "wf_filename (sample_filename\<lparr>fn_seq := 4\<rparr>)"
  by (simp_all add: wf_filename_def wf_sid_def sample_filename_def)

theorem filename_roundtrip_witness:
  "parse_filename (format_filename sample_filename) = Some sample_filename \<and>
   (format_filename sample_filename = format_filename (sample_filename\<lparr>fn_seq := 4\<rparr>)
      \<longleftrightarrow> sample_filename = sample_filename\<lparr>fn_seq := 4\<rparr>)"
  by (rule filename_roundtrip) (rule wf_sample_filename)+

text \<open>Whatever name parses (upper-case session ids, a leading plus sign and non-zero pad bits
  included) denotes a 16-byte session id, an opener only with sequence number 0, and the same value
  as its canonical rendering.\<close>

theorem filename_parse_canonical:
  "parse_filename name = Some f \<Longrightarrow>
     wf_filename f \<and> parse_filename (format_filename f) = Some f"
  using filename.dec_wf filename.dec_canonical by blast

theorem filename_parse_canonical_witness:
  "wf_filename sample_filename \<and> parse_filename (format_filename sample_filename) = Some sample_filename"
  by (rule filename_parse_canonical [of "format_filename sample_filename"])
    (rule parse_format_filename [OF wf_sample_filename(1)])

end
