(* ===== verification/Relay_State.thy ===== *)
theory Relay_State
  imports Drive_Crypto Wire_Filename Rust_Net
begin

text \<open>
  The relay's shared state helpers (\<^verbatim>\<open>drive-relay/src/state.rs\<close>): the Connect address parser, the
  internal-network test, and the translation of an opened frame into the event the session driver
  executes. Shown: the address the client writes is the address the relay dials, and an accepted
  address always has a host and a non-zero port.
\<close>

section \<open>Connect addresses\<close>

datatype inbound_frame =
    InConnect string u16
  | InData bytes
  | InEof
  | InClose

datatype connect_addr_error =
    CaEmpty
  | CaMalformed string
  | CaBadPort string

definition split_addr :: "string \<Rightarrow> (string \<times> string) option" where
  "split_addr s =
     (case strip_prefix ''['' s of
        Some rest \<Rightarrow> split_once_str '']:'' rest
      | None \<Rightarrow> rsplit_once CHR '':'' s)"

definition parse_connect_addr :: "string \<Rightarrow> (string \<times> u16, connect_addr_error) result" where
  "parse_connect_addr str =
     (let s = trim str in
      if s = [] then Inl CaEmpty else
      (case split_addr s of
         None \<Rightarrow> Inl (CaMalformed s)
       | Some (host, port_str) \<Rightarrow>
           if host = [] then Inl CaEmpty else
           (case parse_uint 65536 port_str of
              None \<Rightarrow> Inl (CaBadPort port_str)
            | Some port \<Rightarrow>
                if port = 0 then Inl (CaBadPort port_str)
                else Inr (host, word_of_nat port))))"

section \<open>The internal-network test\<close>

definition is_internal_v4 :: "byte \<Rightarrow> byte \<Rightarrow> byte \<Rightarrow> byte \<Rightarrow> bool" where
  "is_internal_v4 a b c d \<longleftrightarrow>
     a = 127
     \<or> (a = 10 \<or> (a = 172 \<and> b AND 0xF0 = 16) \<or> (a = 192 \<and> b = 168))
     \<or> (a = 169 \<and> b = 254)
     \<or> (a = 0 \<and> b = 0 \<and> c = 0 \<and> d = 0)
     \<or> (a = 255 \<and> b = 255 \<and> c = 255 \<and> d = 255)
     \<or> (a = 100 \<and> b AND 0xc0 = 64)"

definition to_ipv4_mapped :: "u16 list \<Rightarrow> (byte \<times> byte \<times> byte \<times> byte) option" where
  "to_ipv4_mapped gs =
     (if take 6 gs = [0, 0, 0, 0, 0, 0xffff]
      then Some (ucast (drop_bit 8 (gs ! 6)), ucast (gs ! 6),
                 ucast (drop_bit 8 (gs ! 7)), ucast (gs ! 7))
      else None)"

fun is_internal_ip :: "ip_addr \<Rightarrow> bool" where
  "is_internal_ip (V4 a b c d) = is_internal_v4 a b c d"
| "is_internal_ip (V6 gs) =
     (gs = [0, 0, 0, 0, 0, 0, 0, 1]
      \<or> gs = [0, 0, 0, 0, 0, 0, 0, 0]
      \<or> (gs ! 0) AND 0xffc0 = 0xfe80
      \<or> (gs ! 0) AND 0xfe00 = 0xfc00
      \<or> (case to_ipv4_mapped gs of Some (a, b, c, d) \<Rightarrow> is_internal_v4 a b c d | None \<Rightarrow> False))"

section \<open>From wire frames to driver events\<close>

datatype frame_dispatch_error =
    ConnectPayloadNotUtf8
  | ConnectAddr connect_addr_error
  | HelloOnFrameChannel

definition frame_to_inbound :: "wire_frame \<Rightarrow> (inbound_frame, frame_dispatch_error) result" where
  "frame_to_inbound f =
     (case fr_kind f of
        KConnect \<Rightarrow>
          if \<not> utf8_valid (fr_payload f) then Inl ConnectPayloadNotUtf8 else
          (case parse_connect_addr (str_of_bytes (fr_payload f)) of
             Inl e \<Rightarrow> Inl (ConnectAddr e)
           | Inr (host, port) \<Rightarrow> Inr (InConnect host port))
      | KData \<Rightarrow> Inr (InData (fr_payload f))
      | KEof \<Rightarrow> Inr InEof
      | KClose \<Rightarrow> Inr InClose
      | KError \<Rightarrow> Inr InClose
      | KHello \<Rightarrow> Inl HelloOnFrameChannel)"

section \<open>Correctness of the address parser\<close>


lemma parse_connect_addr_sound:
  "parse_connect_addr s = Inr (host, port) \<Longrightarrow> host \<noteq> [] \<and> port \<noteq> 0"
proof -
  assume "parse_connect_addr s = Inr (host, port)"
  then obtain n ps where "host \<noteq> []" "parse_uint 65536 ps = Some n" "n \<noteq> 0" "port = word_of_nat n"
    by (auto simp: parse_connect_addr_def Let_def split: if_splits option.splits)
  moreover from this have "n < 65536" by (auto dest: parse_uint_bound)
  ultimately show ?thesis
    by (auto simp: word_unat_eq_iff [of _ "0 :: u16"] unat_of_nat)
qed

definition show_addr :: "string \<Rightarrow> u16 \<Rightarrow> string" where
  "show_addr host port = host @ '':'' @ dec_show (unat port)"

lemma parse_show_addr:
  assumes "host \<noteq> []" "ascii_graphic (hd host)" "hd host \<noteq> CHR ''[''" "port \<noteq> 0"
  shows "parse_connect_addr (show_addr host port) = Inr (host, port)"
proof -
  let ?s = "show_addr host port"
  have t: "trim ?s = ?s"
    using assms(1,2) last_dec_show_graphic [of "unat port"]
    by (intro trim_graphic) (simp_all add: show_addr_def)
  have "strip_prefix ''['' ?s = None"
    using assms(1,3) by (cases host) (simp_all add: strip_prefix_def show_addr_def)
  moreover have "CHR '':'' \<notin> set (dec_show (unat port))"
    by (rule digit_not_in_dec_show) (simp add: is_digit_def)
  then have "rsplit_once CHR '':'' ?s = Some (host, dec_show (unat port))"
    by (simp add: rsplit_once_Some show_addr_def)
  ultimately have sp: "split_addr ?s = Some (host, dec_show (unat port))"
    by (simp add: split_addr_def)
  have "parse_uint 65536 (dec_show (unat port)) = Some (unat port)"
    using unat_bound [of port] by simp
  moreover have "?s \<noteq> []" using assms(1) by (simp add: show_addr_def)
  ultimately show ?thesis
    using assms by (simp add: parse_connect_addr_def t sp unat_eq_0)
qed


text \<open>The address text a client builds from any host (that starts with a printable character and no bracket) and
  non-zero port is read back as exactly that host and port, so that unbracketed IPv6 hosts work.\<close>

theorem connect_addr_roundtrip:
  assumes "host \<noteq> []" "ascii_graphic (hd host)" "hd host \<noteq> CHR ''[''" "port \<noteq> 0"
  shows "parse_connect_addr (show_addr host port) = Inr (host, port)"
  using assms by (rule parse_show_addr)

theorem connect_addr_roundtrip_witness:
  "parse_connect_addr (show_addr ''2001:db8::1'' 443) = Inr (''2001:db8::1'', 443)"
  by (rule connect_addr_roundtrip) (simp_all add: ascii_graphic_def)

text \<open>Every address the relay accepts, bracketed or not, has a non-empty host and a non-zero
  port.\<close>

theorem connect_addr_sound:
  "parse_connect_addr s = Inr (host, port) \<Longrightarrow> host \<noteq> [] \<and> port \<noteq> 0"
  by (rule parse_connect_addr_sound)

theorem connect_addr_sound_witness: "''a'' \<noteq> [] \<and> (80 :: u16) \<noteq> 0"
  by (rule connect_addr_sound [of "show_addr ''a'' 80"], rule parse_show_addr)
    (simp_all add: ascii_graphic_def)

section \<open>Internal networks as address blocks\<close>

text \<open>The reference reading of the test: the address as a 32-bit number, and the blocks in CIDR form:
  loopback, the three private ranges, link-local, unspecified, broadcast, carrier-grade NAT.\<close>

definition ipv4_num :: "byte \<Rightarrow> byte \<Rightarrow> byte \<Rightarrow> byte \<Rightarrow> nat" where
  "ipv4_num a b c d = ((unat a * 256 + unat b) * 256 + unat c) * 256 + unat d"
definition in_cidr :: "nat \<Rightarrow> nat \<times> nat \<Rightarrow> bool" where
  "in_cidr n = (\<lambda>(base, len). n div 2 ^ (32 - len) = base div 2 ^ (32 - len))"
definition own_networks :: "(nat \<times> nat) list" where
  "own_networks = [(ipv4_num 127 0 0 0, 8), (ipv4_num 10 0 0 0, 8), (ipv4_num 172 16 0 0, 12),
     (ipv4_num 192 168 0 0, 16), (ipv4_num 169 254 0 0, 16), (ipv4_num 0 0 0 0, 32),
     (ipv4_num 255 255 255 255, 32), (ipv4_num 100 64 0 0, 10)]"

lemma byte_lt: "unat (b :: 8 word) < 256" using unsigned_less [of b, where 'a = nat] by simp

lemma byte_masks:
  "(b :: 8 word) AND 0xF0 = 16 \<longleftrightarrow> unat b div 16 = 1"
  "b AND 0xC0 = 64 \<longleftrightarrow> unat b div 64 = 1"
proof -
  have *: "\<forall>n\<in>set [0..<256]. ((of_nat n :: 8 word) AND 0xF0 = 16 \<longleftrightarrow> n div 16 = 1)
     \<and> ((of_nat n :: 8 word) AND 0xC0 = 64 \<longleftrightarrow> n div 64 = 1)" by code_simp
  have "unat b \<in> set [0..<256]" using byte_lt [of b] by simp
  from bspec [OF * this] show "b AND 0xF0 = 16 \<longleftrightarrow> unat b div 16 = 1" "b AND 0xC0 = 64 \<longleftrightarrow> unat b div 64 = 1"
    by simp_all
qed
lemma base256_div:
  fixes a b c d :: nat
  assumes "b < 256" "c < 256" "d < 256"
  shows "(((a * 256 + b) * 256 + c) * 256 + d) div 16777216 = a"
    "(((a * 256 + b) * 256 + c) * 256 + d) div 4194304 = a * 4 + b div 64"
    "(((a * 256 + b) * 256 + c) * 256 + d) div 1048576 = a * 16 + b div 16"
    "(((a * 256 + b) * 256 + c) * 256 + d) div 65536 = a * 256 + b"
  using assms by simp_all

lemma ipv4_num_div:
  "ipv4_num a b c d div 16777216 = unat a"
  "ipv4_num a b c d div 4194304 = unat a * 4 + unat b div 64"
  "ipv4_num a b c d div 1048576 = unat a * 16 + unat b div 16"
  "ipv4_num a b c d div 65536 = unat a * 256 + unat b"
  unfolding ipv4_num_def by (rule base256_div [OF byte_lt byte_lt byte_lt])+

lemma digits_eq:
  fixes x y x' y' k :: nat
  assumes "y < k" "y' < k"
  shows "x * k + y = x' * k + y' \<longleftrightarrow> x = x' \<and> y = y'"
  using assms by (metis div_mult_self3 mod_mult_self3 div_less mod_less add_0_right less_nat_zero_code)

lemma cidr_block:
  "in_cidr (ipv4_num a b c d) (ipv4_num x 0 0 0, 8) \<longleftrightarrow> a = x"
  "in_cidr (ipv4_num a b c d) (ipv4_num x y 0 0, 10) \<longleftrightarrow> a = x \<and> unat b div 64 = unat y div 64"
  "in_cidr (ipv4_num a b c d) (ipv4_num x y 0 0, 12) \<longleftrightarrow> a = x \<and> unat b div 16 = unat y div 16"
  "in_cidr (ipv4_num a b c d) (ipv4_num x y 0 0, 16) \<longleftrightarrow> a = x \<and> b = y"
  "in_cidr (ipv4_num a b c d) (ipv4_num x y z w, 32) \<longleftrightarrow> a = x \<and> b = y \<and> c = z \<and> d = w"
proof -
  note defs = in_cidr_def ipv4_num_div word_unat_eq_iff
  have q: "unat v div 64 < 4" "unat v div 16 < 16" for v :: byte using byte_lt [of v] by linarith+
  show "in_cidr (ipv4_num a b c d) (ipv4_num x 0 0 0, 8) \<longleftrightarrow> a = x" by (simp add: defs)
  show "in_cidr (ipv4_num a b c d) (ipv4_num x y 0 0, 10) \<longleftrightarrow> a = x \<and> unat b div 64 = unat y div 64"
    by (simp add: defs digits_eq [OF q(1) q(1)])
  show "in_cidr (ipv4_num a b c d) (ipv4_num x y 0 0, 12) \<longleftrightarrow> a = x \<and> unat b div 16 = unat y div 16"
    by (simp add: defs digits_eq [OF q(2) q(2)])
  show "in_cidr (ipv4_num a b c d) (ipv4_num x y 0 0, 16) \<longleftrightarrow> a = x \<and> b = y"
    by (simp add: defs digits_eq [OF byte_lt byte_lt])
  show "in_cidr (ipv4_num a b c d) (ipv4_num x y z w, 32) \<longleftrightarrow> a = x \<and> b = y \<and> c = z \<and> d = w"
    unfolding in_cidr_def ipv4_num_def word_unat_eq_iff by (simp add: digits_eq [OF byte_lt byte_lt] del: add_mult_distrib distrib_right_numeral)
qed

lemma in_own_networks:
  "list_ex (in_cidr (ipv4_num a b c d)) own_networks \<longleftrightarrow> is_internal_v4 a b c d"
  by (auto simp: own_networks_def is_internal_v4_def cidr_block byte_masks)

end
