(* ===== verification/Mailbox.thy ===== *)
theory Mailbox
  imports Drive_Api Wire_Filename Relay_State
    "HOL-Library.List_Lexorder" "HOL-Library.Product_Lexorder"
begin

text \<open>
  What the two ends of a Drive session share. The relay (\<^verbatim>\<open>drive-relay/src/poll.rs\<close>) and the
  client (\<^verbatim>\<open>src/drive_client.rs\<close>) each poll the folder and deliver the frames of the files they find
  with the same algorithm: order the files of a session by sequence number, skip what was delivered,
  stop at a gap, fetch the rest, and hand the frames of each batch to the session through the replay
  window. It is modelled once, with the conversion to the receiver's events as parameter, and used by
  both. Shown, once for both directions: whatever files are offered, in whatever order, the events
  handed over are the sender's frames in order, without gap, duplicate or insertion; and when the
  files from the next expected one on are all there, everything is handed over.

  The other shared shape is the sender's batching: locale \<open>frame_batcher\<close>.
\<close>

section \<open>Delivering the frames of one batch\<close>

datatype delivery_outcome = Consumed | Duplicate | Blocked

text \<open>
  The loop over the frames of a batch. \<open>alive n\<close> tells whether sending the \<open>n\<close>-th event of the
  session finds its driver still receiving; \<open>box\<close> is the history of the session's channel,
  \<open>touched\<close> whether the activity time was refreshed, \<open>committed\<close> the last sequence number
  committed from this batch. The last component is an early return.
\<close>

fun deliver_frames :: "(wire_frame \<Rightarrow> 'i option) \<Rightarrow> session_id \<Rightarrow> (nat \<Rightarrow> bool) \<Rightarrow> wire_frame list
    \<Rightarrow> replay_window \<Rightarrow> 'i list \<Rightarrow> bool \<Rightarrow> u64 option
    \<Rightarrow> replay_window \<times> 'i list \<times> bool \<times> u64 option \<times> delivery_outcome option" where
  "deliver_frames conv sid alive [] w box touched committed = (w, box, touched, committed, None)"
| "deliver_frames conv sid alive (wire # rest) w box touched committed =
     (if fr_sid wire \<noteq> sid then (w, box, touched, committed, None) else
      (case check_next w (fr_seq wire) of
         Inl (Replay _) \<Rightarrow>
           (w, box, touched, committed, if committed = None then Some Duplicate else None)
       | Inl (Future _ _) \<Rightarrow>
           (w, box, touched, committed, if committed = None then Some Blocked else None)
       | Inr _ \<Rightarrow>
           (case conv wire of
              None \<Rightarrow> (w, box, touched, committed, None)
            | Some inbound \<Rightarrow>
                if \<not> alive (length box) then (w, box, True, committed, None)
                else deliver_frames conv sid alive rest (commit w (fr_seq wire)) (box @ [inbound])
                       True (Some (fr_seq wire)))))"

text \<open>The whole delivery of a prepared batch: the new window and channel history, whether the
  activity time was refreshed, the outcome, and the file ids deleted.\<close>

record prepared_batch =
  pb_file :: drive_file
  pb_parsed :: drive_filename
  pb_batch :: batch

definition deliver_batch :: "(wire_frame \<Rightarrow> 'i option) \<Rightarrow> (nat \<Rightarrow> bool) \<Rightarrow> prepared_batch
    \<Rightarrow> replay_window \<Rightarrow> 'i list
    \<Rightarrow> replay_window \<times> 'i list \<times> bool \<times> delivery_outcome \<times> string list" where
  "deliver_batch conv alive p w box =
     (case deliver_frames conv (fn_sid (pb_parsed p)) alive (b_frames (pb_batch p)) w box False None of
        (w', box', touched, committed, stop) \<Rightarrow>
          (case stop of
             Some Duplicate \<Rightarrow> (w', box', touched, Duplicate, [df_id (pb_file p)])
           | Some out \<Rightarrow> (w', box', touched, out, [])
           | None \<Rightarrow>
               (case committed of
                  None \<Rightarrow> (w', box', touched, Blocked, [])
                | Some _ \<Rightarrow> (w', box', touched, Consumed, [df_id (pb_file p)]))))"

text \<open>The delivery of the prepared batches of a group: until one is blocked.\<close>

fun deliver_all :: "(wire_frame \<Rightarrow> 'i option) \<Rightarrow> (nat \<Rightarrow> bool) \<Rightarrow> prepared_batch list
    \<Rightarrow> replay_window \<Rightarrow> 'i list \<Rightarrow> replay_window \<times> 'i list \<times> bool \<times> string list" where
  "deliver_all conv alive [] w box = (w, box, False, [])"
| "deliver_all conv alive (p # ps) w box =
     (case deliver_batch conv alive p w box of
        (w', box', touched, out, dels) \<Rightarrow>
          if out = Blocked then (w', box', touched, dels)
          else (case deliver_all conv alive ps w' box' of
                  (w'', box'', touched', dels') \<Rightarrow>
                    (w'', box'', touched \<or> touched', dels @ dels')))"

section \<open>Choosing the files of a group to fetch\<close>

type_synonym listed = "drive_file \<times> drive_filename"

text \<open>The dispatch loop: the files to fetch and the ids deleted, given the next expected sequence
  number and whether it has been seen.\<close>

fun select_downloads :: "direction \<Rightarrow> u64 \<Rightarrow> bool \<Rightarrow> listed list \<Rightarrow> listed list \<times> string list" where
  "select_downloads dir expected saw [] = ([], [])"
| "select_downloads dir expected saw ((file, parsed) # rest) =
     (if fn_kind parsed \<noteq> FnFrame dir then select_downloads dir expected saw rest
      else if fn_seq parsed < expected then
        (let (ds, dels) = select_downloads dir expected saw rest in (ds, df_id file # dels))
      else if fn_seq parsed = expected \<or> saw then
        (let (ds, dels) = select_downloads dir expected
               (saw \<or> fn_seq parsed = expected) rest
         in ((file, parsed) # ds, dels))
      else ([], []))"

text \<open>Both pollers keep the files of their direction and order them by session and number; the
  groups are then the files of one session, in that order.\<close>

definition parsed_listing :: "drive_file list \<Rightarrow> listed list" where
  "parsed_listing files =
     List.map_filter (\<lambda>f. map_option (\<lambda>p. (f, p)) (parse_filename (df_name f))) files"

definition listing_key :: "listed \<Rightarrow> session_id \<times> u64" where
  "listing_key e = (fn_sid (snd e), fn_seq (snd e))"

definition group_of :: "session_id \<Rightarrow> listed list \<Rightarrow> listed list" where
  "group_of sid entries = filter (\<lambda>e. fn_sid (snd e) = sid) entries"

text \<open>What a poll cycle sees of Drive: the bodies, by file id and size limit; and the order in
  which the concurrent fetches of a group complete.\<close>

record drive_env =
  env_download :: "string \<Rightarrow> u64 \<Rightarrow> (bytes, drive_api_error) result"
  env_join :: "prepared_batch list \<Rightarrow> prepared_batch list"
  env_alive :: "nat \<Rightarrow> bool"

text \<open>A completion order only permutes what was fetched.\<close>

definition join_permutes :: "drive_env \<Rightarrow> bool" where
  "join_permutes env \<longleftrightarrow> (\<forall>ps. mset (env_join env ps) = mset ps)"

definition sorted_prepared :: "drive_env \<Rightarrow> prepared_batch list \<Rightarrow> prepared_batch list" where
  "sorted_prepared env ps = sort_key (\<lambda>p. fn_seq (pb_parsed p)) (env_join env ps)"

section \<open>Opening a fetched body\<close>

text \<open>The common end of both prepare functions: open, decode, and compare the first frame's number
  with the file name's.\<close>

definition open_batch :: "crypto \<Rightarrow> bytes \<Rightarrow> drive_filename \<Rightarrow> bytes \<Rightarrow> batch option" where
  "open_batch C key parsed sealed =
     (case open_sealed C key (fn_sid parsed) (fn_seq parsed) sealed of
        Inl _ \<Rightarrow> None
      | Inr plaintext \<Rightarrow>
          (case decode_batch plaintext of
             Inl _ \<Rightarrow> None
           | Inr b \<Rightarrow>
               if b_frames b = [] then None
               else if fr_seq (hd (b_frames b)) \<noteq> fn_seq parsed then None
               else Some b))"

section \<open>Delivery follows the sender's stream\<close>

text \<open>The sender's stream of a session: its frames carry the session id and the numbers 0, 1, \<dots>.
  A frame is genuine when it is the stream's frame of its number. The receiver's state agrees with
  the stream when the events handed over are the images of the frames below its window.\<close>

definition wf_stream :: "session_id \<Rightarrow> wire_frame list \<Rightarrow> bool" where
  "wf_stream sid fs \<longleftrightarrow>
     length fs \<le> 2 ^ 64 \<and> (\<forall>i < length fs. fr_sid (fs ! i) = sid \<and> unat (fr_seq (fs ! i)) = i)"

definition genuine :: "wire_frame list \<Rightarrow> wire_frame \<Rightarrow> bool" where
  "genuine fs f \<longleftrightarrow> unat (fr_seq f) < length fs \<and> fs ! unat (fr_seq f) = f"

definition delivered :: "(wire_frame \<Rightarrow> 'i option) \<Rightarrow> wire_frame list \<Rightarrow> replay_window \<Rightarrow> 'i list \<Rightarrow> bool" where
  "delivered conv fs w box \<longleftrightarrow>
     window_next w \<le> length fs \<and> map Some box = map conv (take (window_next w) fs)"

lemma delivered_new: "delivered conv fs new_window []"
  by (simp add: delivered_def new_window_def window_next_def)

lemma delivered_length: "delivered conv fs w box \<Longrightarrow> length box = window_next w"
  by (metis delivered_def length_map length_take min.absorb2)

lemma wf_stream_genuine: "wf_stream sid fs \<Longrightarrow> f \<in> set fs \<Longrightarrow> genuine fs f"
  by (auto simp: wf_stream_def genuine_def in_set_conv_nth)

lemma check_next_ok: "check_next w q = Inr u \<longleftrightarrow> unat q = window_next w"
  by (simp add: check_next_eq)

lemma check_next_cases:
  obtains "check_next w q = Inr ()" "unat q = window_next w"
  | e where "check_next w q = Inl (Replay e)" "unat q < window_next w"
  | a b where "check_next w q = Inl (Future a b)" "window_next w < unat q"
  by (cases "unat q" "window_next w" rule: linorder_cases) (simp_all add: check_next_eq)

lemma delivered_step:
  assumes "delivered conv fs w box" "genuine fs f" "check_next w (fr_seq f) = Inr u" "conv f = Some i"
  shows "delivered conv fs (commit w (fr_seq f)) (box @ [i])"
proof -
  have q: "unat (fr_seq f) = window_next w" using assms(3) by (simp add: check_next_ok)
  with assms(2) have "window_next w < length fs" "fs ! window_next w = f"
    by (auto simp: genuine_def)
  with assms(1,4) q show ?thesis
    by (simp add: delivered_def commit_next take_Suc_conv_app_nth)
qed

lemma deliver_frames_delivered:
  assumes "list_all (genuine fs) bs" "delivered conv fs w box"
    "deliver_frames conv sid alive bs w box t c = (w', box', t', c', out)"
  shows "delivered conv fs w' box' \<and> prefix box box'"
  using assms
proof (induction bs arbitrary: w box t c)
  case Nil
  then show ?case by simp
next
  case (Cons f bs)
  show ?case
  proof (cases "fr_sid f = sid \<and> check_next w (fr_seq f) = Inr () \<and> conv f \<noteq> None \<and> alive (length box)")
    case True
    then obtain i where i: "conv f = Some i" by blast
    have "delivered conv fs (commit w (fr_seq f)) (box @ [i])"
      using Cons.prems True i by (intro delivered_step) auto
    moreover have "deliver_frames conv sid alive bs (commit w (fr_seq f)) (box @ [i]) True
        (Some (fr_seq f)) = (w', box', t', c', out)"
      using Cons.prems(3) True i by simp
    ultimately have "delivered conv fs w' box' \<and> prefix (box @ [i]) box'"
      using Cons.IH Cons.prems(1) by simp
    then show ?thesis using append_prefixD by blast
  next
    case False
    then have "w' = w" "box' = box"
      using Cons.prems(3)
      by (auto split: if_splits sum.splits strict_seq_error.splits option.splits)
    with Cons.prems(2) show ?thesis by simp
  qed
qed

lemma deliver_batch_delivered:
  assumes "list_all (genuine fs) (b_frames (pb_batch p))" "delivered conv fs w box"
    "deliver_batch conv alive p w box = (w', box', t, out, dels)"
  shows "delivered conv fs w' box' \<and> prefix box box'"
proof -
  obtain w1 box1 t1 c1 o1 where d: "deliver_frames conv (fn_sid (pb_parsed p)) alive
      (b_frames (pb_batch p)) w box False None = (w1, box1, t1, c1, o1)"
    by (metis prod_cases5)
  then have "w' = w1" "box' = box1"
    using assms(3)
    by (auto simp: deliver_batch_def split: option.splits delivery_outcome.splits)
  with deliver_frames_delivered [OF assms(1,2) d] show ?thesis by simp
qed

lemma deliver_all_delivered:
  assumes "\<And>p. p \<in> set ps \<Longrightarrow> list_all (genuine fs) (b_frames (pb_batch p))"
    "delivered conv fs w box" "deliver_all conv alive ps w box = (w', box', t, dels)"
  shows "delivered conv fs w' box' \<and> prefix box box'"
  using assms
proof (induction ps arbitrary: w box w' box' t dels)
  case Nil
  then show ?case by simp
next
  case (Cons p ps)
  obtain w1 box1 t1 o1 d1 where b: "deliver_batch conv alive p w box = (w1, box1, t1, o1, d1)"
    by (metis prod_cases5)
  have one: "delivered conv fs w1 box1 \<and> prefix box box1"
    using Cons.prems(1,2) b by (intro deliver_batch_delivered) auto
  obtain w2 box2 t2 d2 where r: "deliver_all conv alive ps w1 box1 = (w2, box2, t2, d2)"
    by (metis prod_cases4)
  have "delivered conv fs w2 box2 \<and> prefix box1 box2"
    using Cons.IH [OF _ _ r] Cons.prems(1) one by auto
  with one b r Cons.prems(3) show ?case
    by (auto split: if_splits intro: prefix_order.trans)
qed

section \<open>Delivery is complete when nothing is missing\<close>

definition aligned :: "wire_frame list \<Rightarrow> nat \<Rightarrow> wire_frame list \<Rightarrow> bool" where
  "aligned fs k bs \<longleftrightarrow> k + length bs \<le> length fs \<and> take (length bs) (drop k fs) = bs"

lemma aligned_Nil [simp]: "aligned fs k [] \<longleftrightarrow> k \<le> length fs"
  by (simp add: aligned_def)

lemma aligned_Cons: "aligned fs k (f # bs) \<longleftrightarrow> k < length fs \<and> fs ! k = f \<and> aligned fs (Suc k) bs"
proof (cases "k < length fs")
  case True
  then have "drop k fs = fs ! k # drop (Suc k) fs" by (rule Cons_nth_drop_Suc [symmetric])
  with True show ?thesis by (auto simp: aligned_def)
qed (auto simp: aligned_def)

lemma aligned_append: "aligned fs k (bs @ cs) \<longleftrightarrow> aligned fs k bs \<and> aligned fs (k + length bs) cs"
  by (induction bs arbitrary: k) (auto simp: aligned_Cons, auto simp: aligned_def)

lemma deliver_frames_complete:
  assumes "wf_stream sid fs" "aligned fs (window_next w) bs"
    "\<And>f. f \<in> set bs \<Longrightarrow> conv f \<noteq> None" "\<And>k. alive k"
  shows "\<exists>w'. deliver_frames conv sid alive bs w box t c =
      (w', box @ map (the \<circ> conv) bs, t \<or> bs \<noteq> [], if bs = [] then c else Some (fr_seq (last bs)), None)
    \<and> window_next w' = window_next w + length bs"
  using assms(2,3)
proof (induction bs arbitrary: w box t c)
  case Nil
  then show ?case by simp
next
  case (Cons f bs)
  have f: "window_next w < length fs" "fs ! window_next w = f" "aligned fs (Suc (window_next w)) bs"
    using Cons.prems(1) by (simp_all add: aligned_Cons)
  with assms(1) have q: "fr_sid f = sid" "unat (fr_seq f) = window_next w"
    by (auto simp: wf_stream_def)
  obtain i where i: "conv f = Some i" using Cons.prems(2) [of f] by auto
  have n: "window_next (commit w (fr_seq f)) = Suc (window_next w)" using q by (simp add: commit_next)
  have "aligned fs (window_next (commit w (fr_seq f))) bs" using f n by simp
  from Cons.IH [OF this, of "box @ [i]" True "Some (fr_seq f)"] Cons.prems(2)
  obtain w' where "deliver_frames conv sid alive bs (commit w (fr_seq f)) (box @ [i]) True (Some (fr_seq f))
      = (w', (box @ [i]) @ map (the \<circ> conv) bs, True,
         if bs = [] then Some (fr_seq f) else Some (fr_seq (last bs)), None)"
    "window_next w' = Suc (window_next w) + length bs"
    using n by auto
  moreover have "alive (length box)" by (rule assms(4))
  ultimately show ?case
    using q i by (intro exI [of _ w']) (simp add: check_next_eq)
qed

lemma deliver_batch_complete:
  assumes "wf_stream sid fs" "aligned fs (window_next w) (b_frames (pb_batch p))"
    "b_frames (pb_batch p) \<noteq> []" "fn_sid (pb_parsed p) = sid"
    "\<And>f. f \<in> set (b_frames (pb_batch p)) \<Longrightarrow> conv f \<noteq> None" "\<And>k. alive k"
  shows "\<exists>w'. deliver_batch conv alive p w box =
      (w', box @ map (the \<circ> conv) (b_frames (pb_batch p)), True, Consumed, [df_id (pb_file p)])
    \<and> window_next w' = window_next w + length (b_frames (pb_batch p))"
  using deliver_frames_complete [where t = False and c = None and box = box and conv = conv and
      alive = alive, OF assms(1,2,5,6)] assms(3,4)
  by (auto simp: deliver_batch_def)

abbreviation batch_frames :: "prepared_batch list \<Rightarrow> wire_frame list" where
  "batch_frames ps \<equiv> concat (map (\<lambda>p. b_frames (pb_batch p)) ps)"

lemma deliver_all_complete:
  assumes "wf_stream sid fs" "aligned fs (window_next w) (batch_frames ps)"
    "\<And>p. p \<in> set ps \<Longrightarrow> b_frames (pb_batch p) \<noteq> [] \<and> fn_sid (pb_parsed p) = sid"
    "\<And>f. f \<in> set fs \<Longrightarrow> conv f \<noteq> None" "\<And>k. alive k"
  shows "\<exists>w'. deliver_all conv alive ps w box =
      (w', box @ map (the \<circ> conv) (batch_frames ps), ps \<noteq> [], map (\<lambda>p. df_id (pb_file p)) ps)
    \<and> window_next w' = window_next w + length (batch_frames ps)"
  using assms(2,3)
proof (induction ps arbitrary: w box)
  case Nil
  then show ?case by simp
next
  case (Cons p ps)
  let ?b = "b_frames (pb_batch p)"
  have al: "aligned fs (window_next w) ?b" "aligned fs (window_next w + length ?b) (batch_frames ps)"
    using Cons.prems(1) by (simp_all add: aligned_append)
  have "set ?b \<subseteq> set fs"
    using al(1) unfolding aligned_def by (metis set_drop_subset set_take_subset subset_trans)
  then have "\<exists>w'. deliver_batch conv alive p w box =
      (w', box @ map (the \<circ> conv) ?b, True, Consumed, [df_id (pb_file p)])
    \<and> window_next w' = window_next w + length ?b"
    using Cons.prems(2) assms al(1) by (intro deliver_batch_complete) auto
  then obtain w1 where w1: "deliver_batch conv alive p w box =
      (w1, box @ map (the \<circ> conv) ?b, True, Consumed, [df_id (pb_file p)])"
    "window_next w1 = window_next w + length ?b" by blast
  with Cons.IH [of w1 "box @ map (the \<circ> conv) ?b"] Cons.prems(2) al(2) show ?case by auto
qed

section \<open>Selection and ordering\<close>

lemma select_downloads_subset: "set (fst (select_downloads dir e saw g)) \<subseteq> set g"
proof (induction g arbitrary: saw)
  case Nil
  then show ?case by simp
next
  case (Cons x g)
  obtain f q where x: "x = (f, q)" by (cases x)
  have "set (fst (select_downloads dir e b g)) \<subseteq> insert (f, q) (set g)" for b
    using Cons.IH [of b] by blast
  with x show ?case by (auto simp: split_beta)
qed

lemma select_downloads_all:
  assumes "\<And>x. x \<in> set g \<Longrightarrow> fn_kind (snd x) = FnFrame dir \<and> \<not> fn_seq (snd x) < e"
    "saw \<or> g = [] \<or> fn_seq (snd (hd g)) = e"
  shows "select_downloads dir e saw g = (g, [])"
  using assms
proof (induction g arbitrary: saw)
  case Nil
  then show ?case by simp
next
  case (Cons x g)
  obtain f q where x: "x = (f, q)" by (cases x)
  have "select_downloads dir e (saw \<or> fn_seq q = e) g = (g, [])"
    using Cons.prems x by (intro Cons.IH) auto
  moreover have "fn_kind q = FnFrame dir" "\<not> fn_seq q < e"
    using Cons.prems(1) [of x] x by auto
  moreover have "saw \<or> fn_seq q = e" using Cons.prems(2) x by auto
  ultimately show ?case using x by auto
qed

text \<open>Files below the next expected number are deleted; from it on, everything is fetched.\<close>

lemma select_downloads_split:
  assumes "\<And>x. x \<in> set olds \<Longrightarrow> fn_kind (snd x) = FnFrame dir \<and> fn_seq (snd x) < e"
    "\<And>x. x \<in> set news \<Longrightarrow> fn_kind (snd x) = FnFrame dir \<and> \<not> fn_seq (snd x) < e"
    "news = [] \<or> fn_seq (snd (hd news)) = e"
  shows "select_downloads dir e False (olds @ news) = (news, map (\<lambda>x. df_id (fst x)) olds)"
  using assms
proof (induction olds)
  case Nil
  then show ?case using select_downloads_all [of news dir e False] by simp
next
  case (Cons x olds)
  obtain f q where x: "x = (f, q)" by (cases x)
  have "fn_kind q = FnFrame dir" "fn_seq q < e" using Cons.prems(1) [of x] x by auto
  moreover have "select_downloads dir e False (olds @ news) = (news, map (\<lambda>x. df_id (fst x)) olds)"
    using Cons.prems by (intro Cons.IH) auto
  ultimately show ?case using x by simp
qed

lemma set_sorted_prepared: "join_permutes env \<Longrightarrow> set (sorted_prepared env ps) = set ps"
  by (metis join_permutes_def set_mset_mset set_sort sorted_prepared_def)

text \<open>Whatever the completion order, distinct file numbers come out in increasing order.\<close>

lemma sorted_prepared_eq:
  assumes "join_permutes env" "sorted (map (\<lambda>p. fn_seq (pb_parsed p)) ps)"
    "inj_on (\<lambda>p. fn_seq (pb_parsed p)) (set ps)"
  shows "sorted_prepared env ps = ps"
proof -
  have m: "mset (env_join env ps) = mset ps" using assms(1) by (simp add: join_permutes_def)
  then have "set (env_join env ps) = set ps" by (rule mset_eq_setD)
  with m assms(2,3) show ?thesis
    unfolding sorted_prepared_def by (intro sort_key_inj_key_eq) auto
qed

section \<open>Interface: a batching sender\<close>

text \<open>
  Both ends collect frames and flush them as batches. What the rest of the program relies on: the
  frames flushed and pending are, in order, exactly the frames pushed; pushing with \<open>flush_now\<close>
  leaves nothing pending; and a flushed batch is never empty, never longer than the wire format's
  count byte allows, and always fits the size a receiver accepts. \<open>frame_of\<close> is the frame a push
  adds, \<open>urgent\<close> its \<open>flush_now\<close>.
\<close>

text \<open>The arguments of a push that both sides have: the clock, the frame, \<open>flush_now\<close>.\<close>

record push_args =
  pa_now :: nat
  pa_frame :: wire_frame
  pa_flush_now :: bool

definition sealed_size :: "batch \<Rightarrow> nat" where
  "sealed_size b = length (encode_batch b) + AEAD_TAG_LEN"

locale frame_batcher =
  fixes push :: "'arg \<Rightarrow> 'b \<Rightarrow> 'b"
    and flush :: "'b \<Rightarrow> 'b"
    and flushed :: "'b \<Rightarrow> batch list"
    and pending :: "'b \<Rightarrow> wire_frame list"
    and frame_of :: "'arg \<Rightarrow> wire_frame"
    and urgent :: "'arg \<Rightarrow> bool"
    and inv :: "'b \<Rightarrow> bool"
  assumes push_stream: "concat (map b_frames (flushed (push a b))) @ pending (push a b)
      = concat (map b_frames (flushed b)) @ pending b @ [frame_of a]"
    and flush_stream: "concat (map b_frames (flushed (flush b))) @ pending (flush b)
      = concat (map b_frames (flushed b)) @ pending b"
    and push_urgent: "urgent a \<Longrightarrow> pending (push a b) = []"
    and flush_pending: "pending (flush b) = []"
    and push_inv: "inv b \<Longrightarrow> length (fr_payload (frame_of a)) \<le> 16384 \<Longrightarrow>
      wf_frame (frame_of a) \<Longrightarrow> inv (push a b)"
    and flush_inv: "inv b \<Longrightarrow> inv (flush b)"
    and inv_batches: "inv b \<Longrightarrow> x \<in> set (flushed b) \<Longrightarrow>
      wf_batch x \<and> sealed_size x \<le> MAX_SEALED_FRAME_BODY_BYTES"
begin

text \<open>The stream of a batcher, and its behaviour over a whole sequence of pushes and timer
  flushes (\<open>None\<close> a flush).\<close>

lemma run_stream:
  "concat (map b_frames (flushed (fold (\<lambda>e b. case e of Some a \<Rightarrow> push a b | None \<Rightarrow> flush b) es b)))
      @ pending (fold (\<lambda>e b. case e of Some a \<Rightarrow> push a b | None \<Rightarrow> flush b) es b)
    = concat (map b_frames (flushed b)) @ pending b @ map frame_of (List.map_filter id es)"
proof (induction es arbitrary: b)
  case Nil
  then show ?case by (simp add: map_filter_simps)
next
  case (Cons e es)
  show ?case
  proof (cases e)
    case None
    with Cons.IH [of "flush b"] flush_stream [of b] show ?thesis
      by (simp add: map_filter_simps)
  next
    case (Some a)
    with Cons.IH [of "push a b"] push_stream [of a b] show ?thesis
      by (simp add: map_filter_simps)
  qed
qed

lemma run_inv:
  "inv b \<Longrightarrow> (\<And>a. Some a \<in> set es \<Longrightarrow> length (fr_payload (frame_of a)) \<le> 16384 \<and> wf_frame (frame_of a))
     \<Longrightarrow> inv (fold (\<lambda>e b. case e of Some a \<Rightarrow> push a b | None \<Rightarrow> flush b) es b)"
  by (induction es arbitrary: b) (auto split: option.splits intro: push_inv flush_inv)

end

section \<open>Numbered frames\<close>

text \<open>Frames of one session numbered consecutively from \<open>q\<close>, as a sender's counter numbers
  them (the counter is a 64-bit word).\<close>

fun frames_from :: "session_id \<Rightarrow> u64 \<Rightarrow> wire_frame list \<Rightarrow> bool" where
  "frames_from sid q [] \<longleftrightarrow> True"
| "frames_from sid q (f # fs) \<longleftrightarrow> fr_sid f = sid \<and> fr_seq f = q \<and> frames_from sid (q + 1) fs"

lemma frames_from_append [simp]:
  "frames_from sid q (fs @ gs) \<longleftrightarrow> frames_from sid q fs \<and> frames_from sid (q + word_of_nat (length fs)) gs"
  by (induction fs arbitrary: q) (simp_all add: ac_simps)

lemma frames_from_nth:
  "frames_from sid q fs \<Longrightarrow> i < length fs \<Longrightarrow> fr_sid (fs ! i) = sid \<and> fr_seq (fs ! i) = q + word_of_nat i"
proof (induction fs arbitrary: q i)
  case Nil
  then show ?case by simp
next
  case (Cons f fs)
  then show ?case by (cases i) (auto simp: ac_simps)
qed

lemma wf_stream_frames_from:
  assumes "frames_from sid 0 fs" "length fs \<le> 2 ^ 64"
  shows "wf_stream sid fs"
  using frames_from_nth [OF assms(1)] assms(2) by (auto simp: wf_stream_def unat_of_nat)

definition data_of :: "wire_frame list \<Rightarrow> bytes" where
  "data_of fs = concat (map fr_payload (filter (\<lambda>f. fr_kind f = KData) fs))"

lemma data_of_simps [simp]:
  "data_of [] = []" "data_of (fs @ gs) = data_of fs @ data_of gs"
  "data_of (f # fs) = (if fr_kind f = KData then fr_payload f else []) @ data_of fs"
  by (simp_all add: data_of_def)

section \<open>Sizes of batches\<close>

lemma length_encode_batch:
  "length (encode_batch b) = 5 + (\<Sum>f\<leftarrow>b_frames b. 34 + length (fr_payload f))"
  if "list_all wf_frame (b_frames b)"
proof -
  have "length (encode_entry f) = 34 + length (fr_payload f)" if "f \<in> set (b_frames b)" for f
    using that \<open>list_all wf_frame (b_frames b)\<close>
    by (simp add: encode_entry_def Let_def list_all_iff length_encode_frame HEADER_LEN_def wf_frame_def)
  then have "length (concat (map encode_entry (b_frames b)))
      = (\<Sum>f\<leftarrow>b_frames b. 34 + length (fr_payload f))"
    by (simp add: length_concat comp_def cong: map_cong)
  then show ?thesis by (simp add: encode_batch_def BATCH_MAGIC_def)
qed

text \<open>The budget both batchers keep: fewer than 200 frames and less than 1 MiB of payload pending,
  so that one more frame of at most 16 KiB still makes an acceptable batch.\<close>

definition batch_ok :: "batch \<Rightarrow> bool" where
  "batch_ok b \<longleftrightarrow> wf_batch b \<and> sealed_size b \<le> MAX_SEALED_FRAME_BODY_BYTES"

lemma batch_ok_intro:
  assumes "fs \<noteq> []" "length fs \<le> 200" "list_all wf_frame fs"
    "(\<Sum>f\<leftarrow>fs. length (fr_payload f)) \<le> 1064960"
  shows "batch_ok \<lparr>b_frames = fs\<rparr>"
proof -
  have "(\<Sum>f\<leftarrow>fs. 34 + length (fr_payload f)) = 34 * length fs + (\<Sum>f\<leftarrow>fs. length (fr_payload f))"
    by (simp add: sum_list_addf sum_list_triv)
  then have "sealed_size \<lparr>b_frames = fs\<rparr> \<le> MAX_SEALED_FRAME_BODY_BYTES"
    using assms
    by (simp add: sealed_size_def length_encode_batch AEAD_TAG_LEN_def MAX_SEALED_FRAME_BODY_BYTES_def
        HEADER_LEN_def)
  with assms show ?thesis by (simp add: batch_ok_def wf_batch_def MAX_BATCH_FRAMES_def)
qed

section \<open>Numbers of consecutive batches\<close>

abbreviation first_seq :: "batch \<Rightarrow> u64" where
  "first_seq b \<equiv> fr_seq (hd (b_frames b))"

lemma first_seqs:
  assumes "wf_stream sid fs" "aligned fs k (concat (map b_frames bs))"
    "\<And>b. b \<in> set bs \<Longrightarrow> b_frames b \<noteq> []"
  shows "sorted_wrt (<) (map first_seq bs) \<and> (\<forall>b \<in> set bs. k \<le> unat (first_seq b)) \<and>
    (bs \<noteq> [] \<longrightarrow> unat (first_seq (hd bs)) = k)"
  using assms(2,3)
proof (induction bs arbitrary: k)
  case Nil
  then show ?case by simp
next
  case (Cons b bs)
  obtain f r where b: "b_frames b = f # r" using Cons.prems(2) [of b] by (cases "b_frames b") auto
  have k: "k < length fs" "fs ! k = f"
    using Cons.prems(1) by (simp_all add: b aligned_Cons)
  then have q: "unat (fr_seq f) = k" using assms(1) by (auto simp: wf_stream_def)
  have "aligned fs (k + length (b_frames b)) (concat (map b_frames bs))"
    using Cons.prems(1) by (simp add: aligned_append)
  from Cons.IH [OF this] Cons.prems(2)
  have IH: "sorted_wrt (<) (map first_seq bs)" "\<forall>c \<in> set bs. k + length (b_frames b) \<le> unat (first_seq c)"
    by auto
  have "first_seq b < first_seq c" if "c \<in> set bs" for c
    using IH(2) that q by (auto simp: b word_less_nat_alt)
  with IH q show ?case by (auto simp: b)
qed

section \<open>A group of consecutive files\<close>

text \<open>A listed file named for a batch of a session; the prepared batch it becomes.\<close>

definition names_batch :: "direction \<Rightarrow> session_id \<Rightarrow> listed \<Rightarrow> batch \<Rightarrow> bool" where
  "names_batch dir sid e b \<longleftrightarrow>
     fn_kind (snd e) = FnFrame dir \<and> fn_sid (snd e) = sid \<and> fn_seq (snd e) = first_seq b"

definition prepared :: "listed \<Rightarrow> batch \<Rightarrow> prepared_batch" where
  "prepared e b = \<lparr>pb_file = fst e, pb_parsed = snd e, pb_batch = b\<rparr>"

lemma prepared_sel [simp]:
  "pb_file (prepared e b) = fst e" "pb_parsed (prepared e b) = snd e" "pb_batch (prepared e b) = b"
  by (simp_all add: prepared_def)

lemma map2_prepared:
  assumes "list_all2 (names_batch dir sid) es bs"
  shows "map (\<lambda>p. fn_seq (pb_parsed p)) (map2 prepared es bs) = map first_seq bs"
    and "batch_frames (map2 prepared es bs) = concat (map b_frames bs)"
    and "map (\<lambda>p. df_id (pb_file p)) (map2 prepared es bs) = map (\<lambda>e. df_id (fst e)) es"
    and "map (\<lambda>e. fn_seq (snd e)) es = map first_seq bs"
  using assms by (induction rule: list_all2_induct) (simp_all add: names_batch_def)

lemma names_entry:
  "list_all2 (names_batch dir sid) es bs \<Longrightarrow> e \<in> set es \<Longrightarrow>
     fn_kind (snd e) = FnFrame dir \<and> fn_sid (snd e) = sid \<and> (\<exists>b \<in> set bs. fn_seq (snd e) = first_seq b)"
  by (induction rule: list_all2_induct) (auto simp: names_batch_def)

lemma group_select:
  assumes "wf_stream sid fs" "aligned fs k (concat (map b_frames bs))" "bs \<noteq> []"
    "\<And>b. b \<in> set bs \<Longrightarrow> b_frames b \<noteq> []" "list_all2 (names_batch dir sid) news bs"
    "\<And>e. e \<in> set olds \<Longrightarrow> fn_kind (snd e) = FnFrame dir \<and> unat (fn_seq (snd e)) < k"
  shows "k < 2 ^ 64 \<and> select_downloads dir (word_of_nat k) False (olds @ news) =
    (news, map (\<lambda>x. df_id (fst x)) olds)"
proof -
  note seqs = first_seqs [OF assms(1,2,4)]
  from seqs assms(3) have hd_seq: "unat (first_seq (hd bs)) = k" by simp
  then have k: "k < 2 ^ 64" using unat_bound [of "first_seq (hd bs)"] by simp
  let ?e = "word_of_nat k :: u64"
  have ue: "unat ?e = k" using k by simp
  have news: "fn_kind (snd x) = FnFrame dir \<and> \<not> fn_seq (snd x) < ?e" if "x \<in> set news" for x
  proof -
    from names_entry [OF assms(5) that] obtain b where "b \<in> set bs" "fn_seq (snd x) = first_seq b"
      "fn_kind (snd x) = FnFrame dir" by auto
    with seqs ue show ?thesis by (simp add: word_less_nat_alt not_less)
  qed
  have "fn_seq (snd (hd news)) = first_seq (hd bs)"
    using assms(3,5) by (cases news; cases bs) (simp_all add: names_batch_def)
  with hd_seq ue have hd_news: "fn_seq (snd (hd news)) = ?e" by (simp add: word_unat_eq_iff)
  have "select_downloads dir ?e False (olds @ news) = (news, map (\<lambda>x. df_id (fst x)) olds)"
    by (rule select_downloads_split) (use assms(6) news hd_news ue in \<open>auto simp: word_less_nat_alt\<close>)
  with k show ?thesis by simp
qed

lemma group_deliver:
  assumes stream: "wf_stream sid fs" "list_all (\<lambda>f. conv f \<noteq> None) fs"
    and bs: "bs \<noteq> []" "\<And>b. b \<in> set bs \<Longrightarrow> b_frames b \<noteq> []"
      "aligned fs (window_next w) (concat (map b_frames bs))"
    and env: "join_permutes env" "\<forall>k. env_alive env k" "list_all2 (names_batch dir sid) news bs"
  shows "\<exists>w'. deliver_all conv (env_alive env) (sorted_prepared env (map2 prepared news bs)) w box =
      (w', box @ map (the \<circ> conv) (concat (map b_frames bs)), True, map (\<lambda>e. df_id (fst e)) news) \<and>
    window_next w' = window_next w + length (concat (map b_frames bs))"
proof -
  let ?ps = "map2 prepared news bs"
  note names = map2_prepared [OF env(3)]
  have "sorted_wrt (<) (map (\<lambda>p. fn_seq (pb_parsed p)) ?ps)"
    unfolding names(1) using first_seqs [OF stream(1) bs(3,2)] by simp
  then have sorted: "sorted_prepared env ?ps = ?ps"
    by (intro sorted_prepared_eq [OF env(1)])
      (simp_all add: strict_sorted_iff distinct_map del: map_map)
  have fields: "b_frames (pb_batch p) \<noteq> [] \<and> fn_sid (pb_parsed p) = sid" if p: "p \<in> set ?ps" for p
    using p bs(2) names_entry [OF env(3)] by (auto dest: set_zip_leftD set_zip_rightD)
  have "aligned fs (window_next w) (batch_frames ?ps)" unfolding names(2) by (rule bs(3))
  then have "\<exists>w'. deliver_all conv (env_alive env) ?ps w box =
      (w', box @ map (the \<circ> conv) (batch_frames ?ps), ?ps \<noteq> [], map (\<lambda>p. df_id (pb_file p)) ?ps) \<and>
      window_next w' = window_next w + length (batch_frames ?ps)"
    by (rule deliver_all_complete [OF stream(1)])
      (use fields stream(2) env(2) in \<open>auto simp: list_all_iff\<close>)
  moreover have "?ps \<noteq> []" using bs(1) env(3) by (cases news; cases bs) simp_all
  ultimately show ?thesis unfolding names(2,3) sorted by simp
qed

end
