(* ===== verification/Client_Session.thy ===== *)
theory Client_Session
  imports Mailbox
begin

text \<open>
  The client's side of a session (\<^verbatim>\<open>src/drive_client.rs\<close>): opening a session with the combined first
  file, cutting local bytes into frames, batching, and the pump between the local socket and the
  session as a state machine over the events of its \<open>select!\<close> loop. Shown: the frames of a session,
  the opening ones included, are numbered 0, 1, 2, \<dots> and carry exactly the local bytes in order; every
  exit of the pump leaves nothing pending; what reaches the local socket is exactly the data received
  before the relay's end of stream; every batch after the first is one the relay accepts.
\<close>

section \<open>Constants\<close>

definition LOCAL_SOCKET_READ_BUFFER :: nat where "LOCAL_SOCKET_READ_BUFFER = 16 * 1024"
definition COALESCE_INTERACTIVE_BYTES :: nat where "COALESCE_INTERACTIVE_BYTES = 8 * 1024"
definition COALESCE_INTERACTIVE_DELAY :: nat where "COALESCE_INTERACTIVE_DELAY = 5"
definition COALESCE_MEDIUM_BYTES :: nat where "COALESCE_MEDIUM_BYTES = 64 * 1024"
definition COALESCE_MEDIUM_DELAY :: nat where "COALESCE_MEDIUM_DELAY = 50"
definition COALESCE_BULK_DELAY :: nat where "COALESCE_BULK_DELAY = 100"
definition BATCH_FLUSH_BYTES :: nat where "BATCH_FLUSH_BYTES = 1024 * 1024"
definition BATCH_MAX_FRAMES :: nat where "BATCH_MAX_FRAMES = 200"

section \<open>Frames\<close>

definition build_wire_frame :: "frame_kind \<Rightarrow> session_id \<Rightarrow> u64 \<Rightarrow> bytes \<Rightarrow> wire_frame" where
  "build_wire_frame k sid q payload =
     \<lparr>fr_version = WIRE_VERSION, fr_kind = k, fr_sid = sid, fr_seq = q, fr_payload = payload\<rparr>"

text \<open>\<open>slice::chunks\<close>, for a positive size.\<close>

function chunks :: "nat \<Rightarrow> bytes \<Rightarrow> bytes list" where
  "chunks n bs = (if bs = [] \<or> n = 0 then [] else take n bs # chunks n (drop n bs))"
  by pat_completeness auto
termination
  by (relation "measure (\<lambda>(n, bs). length bs)") auto

declare chunks.simps [simp del]

fun number_frames :: "session_id \<Rightarrow> u64 \<Rightarrow> bytes list \<Rightarrow> wire_frame list \<times> u64" where
  "number_frames sid q [] = ([], q)"
| "number_frames sid q (c # cs) =
     (let (fs, q') = number_frames sid (q + 1) cs in (build_wire_frame KData sid q c # fs, q'))"

text \<open>Returns the frames and the advanced counter.\<close>

definition data_frames_from_bytes :: "session_id \<Rightarrow> u64 \<Rightarrow> bytes \<Rightarrow> wire_frame list \<times> u64" where
  "data_frames_from_bytes sid next_seq bs =
     number_frames sid next_seq (chunks LOCAL_SOCKET_READ_BUFFER bs)"

text \<open>The wait for the first local bytes: the read's result, or the timeout.\<close>

datatype preface = PrefaceTimeout | PrefaceRead "(bytes, string) result"

definition read_open_preface_frames ::
    "session_id \<Rightarrow> u64 \<Rightarrow> preface \<Rightarrow> (wire_frame list \<times> u64, string) result" where
  "read_open_preface_frames sid next_seq p =
     (case p of
        PrefaceTimeout \<Rightarrow> Inr ([], next_seq)
      | PrefaceRead (Inl e) \<Rightarrow> Inl e
      | PrefaceRead (Inr bs) \<Rightarrow>
          if bs = [] then Inr ([], next_seq)
          else Inr ([build_wire_frame KData sid next_seq bs], next_seq + 1))"

definition build_session_open_batch ::
    "session_id \<Rightarrow> string \<Rightarrow> u16 \<Rightarrow> wire_frame list \<Rightarrow> batch" where
  "build_session_open_batch sid host port initial_data_frames =
     \<lparr>b_frames = build_wire_frame KConnect sid 0 (as_bytes (host @ '':'' @ dec_show (unat port)))
        # initial_data_frames\<rparr>"

definition seal_batch :: "crypto \<Rightarrow> bytes \<Rightarrow> session_id \<Rightarrow> batch \<Rightarrow> bytes" where
  "seal_batch C key sid b = seal C key sid (fr_seq (hd (b_frames b))) (encode_batch b)"

definition frame_filename :: "direction \<Rightarrow> session_id \<Rightarrow> u64 \<Rightarrow> string" where
  "frame_filename dir sid q = format_filename \<lparr>fn_kind = FnFrame dir, fn_sid = sid, fn_seq = q\<rparr>"

section \<open>Outbound batches\<close>

record c2r_batcher =
  cb_pending :: "wire_frame list"
  cb_pending_bytes :: nat
  cb_deadline :: "nat option"
  cb_spawned :: "batch list"

definition new_c2r_batcher :: c2r_batcher where
  "new_c2r_batcher = \<lparr>cb_pending = [], cb_pending_bytes = 0, cb_deadline = None, cb_spawned = []\<rparr>"

definition pick_coalesce_delay :: "nat \<Rightarrow> nat" where
  "pick_coalesce_delay pending_bytes =
     (if pending_bytes < COALESCE_INTERACTIVE_BYTES then COALESCE_INTERACTIVE_DELAY
      else if pending_bytes < COALESCE_MEDIUM_BYTES then COALESCE_MEDIUM_DELAY
      else COALESCE_BULK_DELAY)"

definition flush_c2r_batch :: "c2r_batcher \<Rightarrow> c2r_batcher" where
  "flush_c2r_batch b =
     (if cb_pending b = [] then b
      else b\<lparr>cb_pending := [], cb_pending_bytes := 0, cb_deadline := None,
             cb_spawned := cb_spawned b @ [\<lparr>b_frames = cb_pending b\<rparr>]\<rparr>)"

definition push_c2r_frame :: "push_args \<Rightarrow> c2r_batcher \<Rightarrow> c2r_batcher" where
  "push_c2r_frame a b =
     (let b1 = b\<lparr>cb_pending_bytes := cb_pending_bytes b + length (fr_payload (pa_frame a)),
                 cb_pending := cb_pending b @ [pa_frame a]\<rparr> in
      if pa_flush_now a \<or> 2 \<le> length (cb_pending b1)
         \<or> BATCH_MAX_FRAMES \<le> length (cb_pending b1)
         \<or> BATCH_FLUSH_BYTES \<le> cb_pending_bytes b1
      then flush_c2r_batch b1
      else (let deadline = pa_now a + pick_coalesce_delay (cb_pending_bytes b1) in
            case cb_deadline b1 of
              Some existing \<Rightarrow> if existing \<le> deadline then b1 else b1\<lparr>cb_deadline := Some deadline\<rparr>
            | None \<Rightarrow> b1\<lparr>cb_deadline := Some deadline\<rparr>))"

section \<open>Uploads\<close>

datatype 'e client_error =
    ClOauth 'e
  | ClApi drive_api_error
  | UploadSemaphoreClosed
  | WorkerSemaphoreClosed

definition upload_c2r_frame :: "json_lib \<Rightarrow> 's http \<Rightarrow> drive_api_client \<Rightarrow> bytes
    \<Rightarrow> (string, 'e) result \<Rightarrow> bool \<Rightarrow> string \<Rightarrow> session_id \<Rightarrow> u64 \<Rightarrow> bytes \<Rightarrow> 's
    \<Rightarrow> 's \<times> (unit, 'e client_error) result" where
  "upload_c2r_frame J send c rnd token permit folder_id sid q sealed s =
     (let name = frame_filename ClientToRelay sid q in
      case token of
        Inl e \<Rightarrow> (s, Inl (ClOauth e))
      | Inr t \<Rightarrow>
          if \<not> permit then (s, Inl UploadSemaphoreClosed)
          else (case upload_file J send c rnd t folder_id name sealed s of
                  (s', Inl e) \<Rightarrow> (s', Inl (ClApi e))
                | (s', Inr _) \<Rightarrow> (s', Inr ())))"

text \<open>The body of the session-opening file.\<close>

definition session_open_body :: "crypto \<Rightarrow> bytes \<Rightarrow> session_id \<Rightarrow> hello_body \<Rightarrow> batch \<Rightarrow> bytes" where
  "session_open_body C key sid hello b = encode_hello hello @ seal_batch C key sid b"

definition upload_session_open_frame :: "crypto \<Rightarrow> json_lib \<Rightarrow> 's http \<Rightarrow> drive_api_client \<Rightarrow> bytes
    \<Rightarrow> (string, 'e) result \<Rightarrow> bool \<Rightarrow> string \<Rightarrow> session_id \<Rightarrow> bytes \<Rightarrow> hello_body \<Rightarrow> string \<Rightarrow> u16
    \<Rightarrow> wire_frame list \<Rightarrow> 's \<Rightarrow> 's \<times> (unit, 'e client_error) result" where
  "upload_session_open_frame C J send c rnd token permit folder_id sid key hello host port frames s =
     (let b = build_session_open_batch sid host port frames in
      upload_c2r_frame J send c rnd token permit folder_id sid 0
        (session_open_body C key sid hello b) s)"

section \<open>The pump\<close>

datatype client_inbound = CInData bytes | CInEof | CInClose

record pump =
  pu_sid :: session_id
  pu_next_seq :: u64
  pu_batcher :: c2r_batcher
  pu_local_writable :: bool
  pu_read_closed :: bool
  pu_written :: bytes
  pu_shutdown :: bool

definition new_pump :: "session_id \<Rightarrow> u64 \<Rightarrow> pump" where
  "new_pump sid next_seq =
     \<lparr>pu_sid = sid, pu_next_seq = next_seq, pu_batcher = new_c2r_batcher, pu_local_writable = True,
      pu_read_closed = False, pu_written = [], pu_shutdown = False\<rparr>"

text \<open>The events of the \<open>select!\<close> loop; an inbound event carries the result a local write would
  have.\<close>

datatype pump_event =
    PeInbound "client_inbound option" "(unit, string) result"
  | PeTimer
  | PeRead "(bytes, string) result"

definition send_frame :: "nat \<Rightarrow> frame_kind \<Rightarrow> bytes \<Rightarrow> bool \<Rightarrow> pump \<Rightarrow> pump" where
  "send_frame now k payload flush_now p =
     p\<lparr>pu_next_seq := pu_next_seq p + 1,
       pu_batcher := push_c2r_frame
         \<lparr>pa_now = now, pa_frame = build_wire_frame k (pu_sid p) (pu_next_seq p) payload,
          pa_flush_now = flush_now\<rparr> (pu_batcher p)\<rparr>"

definition flush_pump :: "pump \<Rightarrow> pump" where
  "flush_pump p = p\<lparr>pu_batcher := flush_c2r_batch (pu_batcher p)\<rparr>"

text \<open>One iteration of the loop; the second component is the value the pump returned, if it did.\<close>

fun pump_step :: "nat \<Rightarrow> pump_event \<Rightarrow> pump \<Rightarrow> pump \<times> (unit, string) result option" where
  "pump_step now (PeInbound (Some (CInData bs)) write) p =
     (if \<not> pu_local_writable p then (p, None)
      else (case write of
              Inl e \<Rightarrow> (send_frame now KClose [] True p, Some (Inl e))
            | Inr _ \<Rightarrow> (p\<lparr>pu_written := pu_written p @ bs\<rparr>, None)))"
| "pump_step now (PeInbound (Some CInEof) _) p =
     (let p = p\<lparr>pu_shutdown := True, pu_local_writable := False\<rparr> in
      if pu_read_closed p then (send_frame now KClose [] True p, Some (Inr ())) else (p, None))"
| "pump_step now (PeInbound (Some CInClose) _) p = (flush_pump p, Some (Inr ()))"
| "pump_step now (PeInbound None _) p = (flush_pump p, Some (Inr ()))"
| "pump_step now PeTimer p = (flush_pump p, None)"
| "pump_step now (PeRead (Inr bs)) p =
     (if bs = [] then
        (let p = (send_frame now KEof [] True p)\<lparr>pu_read_closed := True\<rparr> in
         if \<not> pu_local_writable p then (send_frame now KClose [] True p, Some (Inr ())) else (p, None))
      else (send_frame now KData bs False p, None))"
| "pump_step now (PeRead (Inl e)) p = (send_frame now KClose [] True p, Some (Inl e))"

definition pump_enabled :: "nat \<Rightarrow> pump_event \<Rightarrow> pump \<Rightarrow> bool" where
  "pump_enabled now e p \<longleftrightarrow>
     (case e of
        PeInbound _ _ \<Rightarrow> True
      | PeTimer \<Rightarrow> (case cb_deadline (pu_batcher p) of Some t \<Rightarrow> t \<le> now | None \<Rightarrow> False)
      | PeRead r \<Rightarrow> \<not> pu_read_closed p \<and>
          (case r of Inl _ \<Rightarrow> True | Inr bs \<Rightarrow> length bs \<le> LOCAL_SOCKET_READ_BUFFER))"

inductive pump_exec :: "pump \<Rightarrow> (nat \<times> pump_event) list \<Rightarrow> pump \<Rightarrow> (unit, string) result option \<Rightarrow> bool"
  for p0 where
  pump_start: "pump_exec p0 [] p0 None"
| pump_next: "pump_exec p0 es p None \<Longrightarrow> pump_enabled now e p \<Longrightarrow>
     pump_step now e p = (p', ret) \<Longrightarrow> pump_exec p0 (es @ [(now, e)]) p' ret"

section \<open>A tunnelled connection\<close>

text \<open>Opening a session for one CONNECT. The random session id, ephemeral secret and cookie are
  arguments, as is the outcome of the wait for first bytes. The result: the keys to register in the
  session table, the opening batch with its file body, and the pump that runs next.\<close>

record opened_session =
  os_keys :: session_keys
  os_hello :: hello_body
  os_open :: batch
  os_body :: bytes
  os_pump :: pump

datatype tunnel_error = TeKeyAgreement key_agreement_error | TeIo string

definition tunnel_connection_with_preface :: "crypto \<Rightarrow> bytes \<Rightarrow> session_id \<Rightarrow> bytes \<Rightarrow> bytes \<Rightarrow> string
    \<Rightarrow> u16 \<Rightarrow> bytes \<Rightarrow> preface \<Rightarrow> (opened_session, tunnel_error) result" where
  "tunnel_connection_with_preface C relay_pubkey sid esk cookie host port initial_client_bytes p =
     (case client_initiate C relay_pubkey sid esk cookie of
        Inl e \<Rightarrow> Inl (TeKeyAgreement e)
      | Inr (keys, hello) \<Rightarrow>
          (case (if initial_client_bytes = [] then read_open_preface_frames sid 1 p
                 else Inr (data_frames_from_bytes sid 1 initial_client_bytes)) of
             Inl e \<Rightarrow> Inl (TeIo e)
           | Inr (open_data_frames, next_c2r_seq) \<Rightarrow>
               (let b = build_session_open_batch sid host port open_data_frames in
                Inr \<lparr>os_keys = keys, os_hello = hello, os_open = b,
                     os_body = session_open_body C (k_c2r keys) sid hello b,
                     os_pump = new_pump sid next_c2r_seq\<rparr>)))"

definition tunnel_connection :: "crypto \<Rightarrow> bytes \<Rightarrow> session_id \<Rightarrow> bytes \<Rightarrow> bytes \<Rightarrow> string
    \<Rightarrow> u16 \<Rightarrow> preface \<Rightarrow> (opened_session, tunnel_error) result" where
  "tunnel_connection C relay_pubkey sid esk cookie host port p =
     tunnel_connection_with_preface C relay_pubkey sid esk cookie host port [] p"

section \<open>The batcher keeps the interface\<close>

text \<open>With the eager flush on the second frame, at most one frame is ever pending.\<close>

definition cb_inv :: "c2r_batcher \<Rightarrow> bool" where
  "cb_inv b \<longleftrightarrow>
     length (cb_pending b) \<le> 1 \<and> list_all wf_frame (cb_pending b) \<and>
     (\<forall>f \<in> set (cb_pending b). length (fr_payload f) \<le> 16384) \<and> list_all batch_ok (cb_spawned b)"

lemma flush_c2r_sel [simp]:
  "cb_pending (flush_c2r_batch b) = []"
  "cb_spawned (flush_c2r_batch b) =
     cb_spawned b @ (if cb_pending b = [] then [] else [\<lparr>b_frames = cb_pending b\<rparr>])"
  by (simp_all add: flush_c2r_batch_def)

lemma push_c2r_sel:
  "cb_pending (push_c2r_frame a b) = [] \<and>
     cb_spawned (push_c2r_frame a b) = cb_spawned b @ [\<lparr>b_frames = cb_pending b @ [pa_frame a]\<rparr>] \<or>
   \<not> pa_flush_now a \<and> cb_pending b = [] \<and> cb_pending (push_c2r_frame a b) = [pa_frame a] \<and>
     cb_spawned (push_c2r_frame a b) = cb_spawned b"
proof (cases "pa_flush_now a \<or> cb_pending b \<noteq> []
    \<or> BATCH_FLUSH_BYTES \<le> cb_pending_bytes b + length (fr_payload (pa_frame a))")
  case True
  then have "pa_flush_now a \<or> 2 \<le> length (cb_pending b @ [pa_frame a])
      \<or> BATCH_FLUSH_BYTES \<le> cb_pending_bytes b + length (fr_payload (pa_frame a))"
    by (cases "cb_pending b") auto
  then show ?thesis by (auto simp: push_c2r_frame_def Let_def)
next
  case False
  then show ?thesis
    by (auto simp: push_c2r_frame_def Let_def BATCH_MAX_FRAMES_def split: option.splits)
qed

lemma small_batch_ok:
  assumes "fs \<noteq> []" "length fs \<le> 2" "list_all wf_frame fs" "\<forall>f \<in> set fs. length (fr_payload f) \<le> 16384"
  shows "batch_ok \<lparr>b_frames = fs\<rparr>"
proof -
  have "(\<Sum>f\<leftarrow>fs. length (fr_payload f)) \<le> (\<Sum>f\<leftarrow>fs. 16384)"
    using assms(4) by (intro sum_list_mono) auto
  also have "\<dots> \<le> 1064960" using assms(2) by (simp add: sum_list_triv)
  finally show ?thesis using assms by (intro batch_ok_intro) auto
qed

interpretation cb: frame_batcher push_c2r_frame flush_c2r_batch cb_spawned cb_pending pa_frame
  pa_flush_now cb_inv
proof
  fix a b
  show "concat (map b_frames (cb_spawned (push_c2r_frame a b))) @ cb_pending (push_c2r_frame a b)
      = concat (map b_frames (cb_spawned b)) @ cb_pending b @ [pa_frame a]"
    using push_c2r_sel [of a b] by auto
  show "concat (map b_frames (cb_spawned (flush_c2r_batch b))) @ cb_pending (flush_c2r_batch b)
      = concat (map b_frames (cb_spawned b)) @ cb_pending b"
    by simp
  show "pa_flush_now a \<Longrightarrow> cb_pending (push_c2r_frame a b) = []"
    using push_c2r_sel [of a b] by auto
  show "cb_pending (flush_c2r_batch b) = []" by simp
  show "cb_inv b \<Longrightarrow> length (fr_payload (pa_frame a)) \<le> 16384 \<Longrightarrow> wf_frame (pa_frame a)
      \<Longrightarrow> cb_inv (push_c2r_frame a b)"
    using push_c2r_sel [of a b] small_batch_ok [of "cb_pending b @ [pa_frame a]"]
    by (auto simp: cb_inv_def)
  show "cb_inv b \<Longrightarrow> cb_inv (flush_c2r_batch b)"
    using small_batch_ok [of "cb_pending b"] by (auto simp: cb_inv_def)
  show "cb_inv b \<Longrightarrow> x \<in> set (cb_spawned b) \<Longrightarrow>
      wf_batch x \<and> sealed_size x \<le> MAX_SEALED_FRAME_BODY_BYTES" for x
    by (simp add: cb_inv_def list_all_iff batch_ok_def)
qed

section \<open>The pump's stream\<close>

definition pump_stream :: "pump \<Rightarrow> wire_frame list" where
  "pump_stream p = concat (map b_frames (cb_spawned (pu_batcher p))) @ cb_pending (pu_batcher p)"

lemma pump_stream_ops [simp]:
  "pump_stream (send_frame now k b fl p) = pump_stream p @ [build_wire_frame k (pu_sid p) (pu_next_seq p) b]"
  "pump_stream (flush_pump p) = pump_stream p"
  using cb.push_stream cb.flush_stream by (simp_all add: pump_stream_def send_frame_def flush_pump_def)

lemma pump_stream_fields [simp]:
  "pump_stream (p\<lparr>pu_local_writable := x\<rparr>) = pump_stream p"
  "pump_stream (p\<lparr>pu_read_closed := x\<rparr>) = pump_stream p"
  "pump_stream (p\<lparr>pu_written := bs\<rparr>) = pump_stream p"
  "pump_stream (p\<lparr>pu_shutdown := x\<rparr>) = pump_stream p"
  by (simp_all add: pump_stream_def)

lemma pump_sel [simp]:
  "pu_sid (send_frame now k b fl p) = pu_sid p" "pu_sid (flush_pump p) = pu_sid p"
  "pu_next_seq (send_frame now k b fl p) = pu_next_seq p + 1"
  "pu_next_seq (flush_pump p) = pu_next_seq p"
  "pu_written (send_frame now k b fl p) = pu_written p" "pu_written (flush_pump p) = pu_written p"
  "pu_local_writable (send_frame now k b fl p) = pu_local_writable p"
  "pu_local_writable (flush_pump p) = pu_local_writable p"
  "cb_pending (pu_batcher (send_frame now k b True p)) = []"
  "cb_pending (pu_batcher (flush_pump p)) = []"
  using cb.push_urgent by (simp_all add: send_frame_def flush_pump_def)

definition pump_inv :: "u64 \<Rightarrow> pump \<Rightarrow> bool" where
  "pump_inv q p \<longleftrightarrow>
     wf_sid (pu_sid p) \<and> frames_from (pu_sid p) q (pump_stream p) \<and>
     pu_next_seq p = q + word_of_nat (length (pump_stream p)) \<and> cb_inv (pu_batcher p)"

lemma pump_inv_ops:
  "pump_inv q p \<Longrightarrow> length b \<le> 16384 \<Longrightarrow> pump_inv q (send_frame now k b fl p)"
  "pump_inv q p \<Longrightarrow> pump_inv q (flush_pump p)"
proof -
  have "cb_inv (pu_batcher (send_frame now k b fl p))"
    if "cb_inv (pu_batcher p)" "wf_sid (pu_sid p)" "length b \<le> 16384"
    using that cb.push_inv [of "pu_batcher p"] by (simp add: send_frame_def build_wire_frame_def wf_frame_def)
  then show "pump_inv q p \<Longrightarrow> length b \<le> 16384 \<Longrightarrow> pump_inv q (send_frame now k b fl p)"
    by (simp add: pump_inv_def build_wire_frame_def)
  show "pump_inv q p \<Longrightarrow> pump_inv q (flush_pump p)"
    using cb.flush_inv [of "pu_batcher p"] pump_stream_ops(2) [of p]
    by (simp add: pump_inv_def flush_pump_def)
qed

lemma pump_inv_fields [simp]:
  "pump_inv q (p\<lparr>pu_local_writable := x\<rparr>) = pump_inv q p"
  "pump_inv q (p\<lparr>pu_read_closed := x\<rparr>) = pump_inv q p"
  "pump_inv q (p\<lparr>pu_written := bs\<rparr>) = pump_inv q p"
  "pump_inv q (p\<lparr>pu_shutdown := x\<rparr>) = pump_inv q p"
  by (simp_all add: pump_inv_def)

lemma pump_step_inv:
  "pump_inv q p \<Longrightarrow> pump_enabled now e p \<Longrightarrow> pump_step now e p = (p', ret) \<Longrightarrow> pump_inv q p'"
  by (induction now e p rule: pump_step.induct)
    (auto simp: Let_def pump_enabled_def LOCAL_SOCKET_READ_BUFFER_def intro!: pump_inv_ops
      split: if_splits sum.splits)

fun local_bytes :: "pump_event \<Rightarrow> bytes" where
  "local_bytes (PeRead (Inr bs)) = bs"
| "local_bytes _ = []"

fun relay_data :: "pump_event \<Rightarrow> bytes" where
  "relay_data (PeInbound (Some (CInData bs)) write) = (case write of Inr _ \<Rightarrow> bs | Inl _ \<Rightarrow> [])"
| "relay_data _ = []"

fun is_relay_eof :: "pump_event \<Rightarrow> bool" where
  "is_relay_eof (PeInbound (Some CInEof) _) = True"
| "is_relay_eof _ = False"

lemma pump_step_effect:
  "pump_step now e p = (p', ret) \<Longrightarrow>
     pu_sid p' = pu_sid p \<and> data_of (pump_stream p') = data_of (pump_stream p) @ local_bytes e \<and>
     pu_written p' = pu_written p @ (if pu_local_writable p then relay_data e else []) \<and>
     pu_local_writable p' = (pu_local_writable p \<and> \<not> is_relay_eof e) \<and>
     (ret \<noteq> None \<longrightarrow> cb_pending (pu_batcher p') = [])"
  by (induction now e p rule: pump_step.induct)
    (auto simp: Let_def build_wire_frame_def split: if_splits sum.splits)

text \<open>What the local socket should have received: the data before the relay's Eof.\<close>

fun relay_stream :: "bool \<Rightarrow> pump_event list \<Rightarrow> bytes" where
  "relay_stream closed [] = []"
| "relay_stream closed (e # es) =
     (if closed then [] else relay_data e) @ relay_stream (closed \<or> is_relay_eof e) es"

lemma relay_stream_snoc:
  "relay_stream c (es @ [e]) =
     relay_stream c es @ (if c \<or> list_ex is_relay_eof es then [] else relay_data e)"
  by (induction es arbitrary: c) auto

lemma pump_exec_inv: "pump_exec p0 es p ret \<Longrightarrow> pump_inv q p0 \<Longrightarrow> pump_inv q p"
  by (induction rule: pump_exec.induct) (auto dest: pump_step_inv)

lemma pump_exec_effect:
  "pump_exec p0 es p ret \<Longrightarrow> pump_stream p0 = [] \<Longrightarrow> pu_written p0 = [] \<Longrightarrow> pu_local_writable p0 \<Longrightarrow>
     pu_sid p = pu_sid p0 \<and> data_of (pump_stream p) = concat (map (local_bytes \<circ> snd) es) \<and>
     pu_written p = relay_stream False (map snd es) \<and>
     pu_local_writable p = (\<not> list_ex is_relay_eof (map snd es)) \<and>
     (ret \<noteq> None \<longrightarrow> cb_pending (pu_batcher p) = [])"
proof (induction rule: pump_exec.induct)
  case pump_start
  then show ?case by simp
next
  case (pump_next es p now e p' ret)
  with pump_step_effect [OF pump_next.hyps(3)] show ?case
    by (simp add: relay_stream_snoc)
qed

section \<open>Opening frames\<close>

lemma number_frames_props:
  "frames_from sid q (fst (number_frames sid q cs)) \<and>
   snd (number_frames sid q cs) = q + word_of_nat (length (fst (number_frames sid q cs))) \<and>
   data_of (fst (number_frames sid q cs)) = concat cs \<and>
   map fr_payload (fst (number_frames sid q cs)) = cs"
proof (induction cs arbitrary: q)
  case Nil
  then show ?case by simp
next
  case (Cons c cs)
  then show ?case using Cons.IH [of "q + 1"]
    by (simp add: split_beta Let_def build_wire_frame_def ac_simps)
qed

lemma chunks_props: "0 < n \<Longrightarrow> concat (chunks n bs) = bs \<and> (\<forall>c \<in> set (chunks n bs). c \<noteq> [] \<and> length c \<le> n)"
proof (induction n bs rule: chunks.induct)
  case (1 n bs)
  show ?case
  proof (cases "bs = []")
    case True
    then show ?thesis by (simp add: chunks.simps)
  next
    case False
    with 1 show ?thesis by (simp add: chunks.simps [of n bs])
  qed
qed

lemma data_frames_props:
  "case data_frames_from_bytes sid q bs of (fs, q') \<Rightarrow>
     frames_from sid q fs \<and> q' = q + word_of_nat (length fs) \<and> data_of fs = bs \<and>
     list_all (\<lambda>f. fr_payload f \<noteq> [] \<and> length (fr_payload f) \<le> 16384) fs"
proof -
  let ?cs = "chunks LOCAL_SOCKET_READ_BUFFER bs"
  have c: "concat ?cs = bs" "\<forall>c \<in> set ?cs. c \<noteq> [] \<and> length c \<le> 16384"
    using chunks_props [of LOCAL_SOCKET_READ_BUFFER bs] by (simp_all add: LOCAL_SOCKET_READ_BUFFER_def)
  note n = number_frames_props [of sid q ?cs]
  have "list_all (\<lambda>f. fr_payload f \<noteq> [] \<and> length (fr_payload f) \<le> 16384) fs" if "map fr_payload fs = ?cs" for fs
    using c(2) unfolding that [symmetric] by (simp add: list_all_iff)
  from this [of "fst (number_frames sid q ?cs)"] n c(1) show ?thesis
    by (simp add: data_frames_from_bytes_def split_beta)
qed

text \<open>The bytes handed over before the pump starts are cut into non-empty frames of at most
  16 KiB, numbered consecutively, whose payloads in order are exactly those bytes; the counter
  advances by the number of frames.\<close>

theorem data_frames_exact:
  "case data_frames_from_bytes sid q bs of (fs, q') \<Rightarrow>
     frames_from sid q fs \<and> q' = q + word_of_nat (length fs) \<and> data_of fs = bs \<and>
     list_all (\<lambda>f. fr_payload f \<noteq> [] \<and> length (fr_payload f) \<le> 16384) fs"
  by (rule data_frames_props)

definition preface_bytes :: "bytes \<Rightarrow> preface \<Rightarrow> bytes" where
  "preface_bytes initial p =
     (if initial \<noteq> [] then initial
      else (case p of PrefaceRead (Inr bs) \<Rightarrow> bs | _ \<Rightarrow> []))"

lemma number_frames_kinds: "list_all (\<lambda>f. fr_kind f = KData) (fst (number_frames sid q cs))"
  by (induction cs arbitrary: q) (simp_all add: split_beta build_wire_frame_def)

lemma tunnel_opened:
  assumes "tunnel_connection_with_preface C pk sid esk cookie host port initial pre = Inr os"
  obtains fs where "b_frames (os_open os) =
      build_wire_frame KConnect sid 0 (as_bytes (host @ '':'' @ dec_show (unat port))) # fs"
    "frames_from sid 1 fs" "data_of fs = preface_bytes initial pre"
    "list_all (\<lambda>f. fr_kind f = KData) fs"
    "os_pump os = new_pump sid (1 + word_of_nat (length fs))"
    "client_initiate C pk sid esk cookie = Inr (os_keys os, os_hello os)"
    "os_body os = session_open_body C (k_c2r (os_keys os)) sid (os_hello os) (os_open os)"
proof -
  from assms obtain fs q' where o:
    "client_initiate C pk sid esk cookie = Inr (os_keys os, os_hello os)"
    "(if initial = [] then read_open_preface_frames sid 1 pre
      else Inr (data_frames_from_bytes sid 1 initial)) = Inr (fs, q')"
    "os_open os = build_session_open_batch sid host port fs" "os_pump os = new_pump sid q'"
    "os_body os = session_open_body C (k_c2r (os_keys os)) sid (os_hello os) (os_open os)"
    by (auto simp: tunnel_connection_with_preface_def Let_def split: sum.splits prod.splits)
  have "frames_from sid 1 fs \<and> q' = 1 + word_of_nat (length fs) \<and> data_of fs = preface_bytes initial pre \<and>
      list_all (\<lambda>f. fr_kind f = KData) fs"
  proof (cases "initial = []")
    case True
    with o(2) show ?thesis
      by (auto simp: read_open_preface_frames_def preface_bytes_def build_wire_frame_def
          split: preface.splits sum.splits if_splits)
  next
    case False
    with o(2) have "data_frames_from_bytes sid 1 initial = (fs, q')" by simp
    moreover from this have "list_all (\<lambda>f. fr_kind f = KData) fs"
      using number_frames_kinds [of sid 1 "chunks LOCAL_SOCKET_READ_BUFFER initial"]
      by (simp add: data_frames_from_bytes_def)
    ultimately show ?thesis
      using data_frames_props [of sid 1 initial] False by (simp add: preface_bytes_def)
  qed
  with o that [of fs] show thesis by (simp add: build_session_open_batch_def)
qed

lemma new_pump_fresh:
  assumes "wf_sid sid"
  shows "pump_inv q (new_pump sid q) \<and> pump_stream (new_pump sid q) = [] \<and> pu_written (new_pump sid q) = [] \<and>
    pu_local_writable (new_pump sid q) \<and> pu_sid (new_pump sid q) = sid"
  using assms by (simp add: pump_inv_def pump_stream_def new_pump_def new_c2r_batcher_def cb_inv_def)

text \<open>All frames of a session, and the batches uploaded for it: the opening one and the pump's.\<close>

definition session_stream :: "opened_session \<Rightarrow> pump \<Rightarrow> wire_frame list" where
  "session_stream os p = b_frames (os_open os) @ pump_stream p"

definition session_batches :: "opened_session \<Rightarrow> pump \<Rightarrow> batch list" where
  "session_batches os p = os_open os # cb_spawned (pu_batcher p)"

lemma session_faithful:
  assumes "tunnel_connection_with_preface C pk sid esk cookie host port initial pre = Inr os"
    "wf_sid sid" "pump_exec (os_pump os) es p ret"
  shows "frames_from sid 0 (session_stream os p)"
    and "data_of (session_stream os p) = preface_bytes initial pre @ concat (map (local_bytes \<circ> snd) es)"
    and "pu_written p = relay_stream False (map snd es)"
    and "ret \<noteq> None \<longrightarrow> concat (map b_frames (session_batches os p)) = session_stream os p"
    and "list_all batch_ok (cb_spawned (pu_batcher p))"
proof -
  obtain fs where fs: "b_frames (os_open os) =
      build_wire_frame KConnect sid 0 (as_bytes (host @ '':'' @ dec_show (unat port))) # fs"
    "frames_from sid 1 fs" "data_of fs = preface_bytes initial pre"
    "os_pump os = new_pump sid (1 + word_of_nat (length fs))"
    using tunnel_opened [OF assms(1)] by metis
  let ?q = "1 + word_of_nat (length fs) :: u64"
  note fresh = new_pump_fresh [OF assms(2), of ?q]
  have inv: "pump_inv ?q p" using pump_exec_inv [OF assms(3)] fresh fs(4) by simp
  note eff = pump_exec_effect [OF assms(3), unfolded fs(4)] fresh
  show "frames_from sid 0 (session_stream os p)"
    using inv eff fs by (simp add: session_stream_def build_wire_frame_def pump_inv_def ac_simps)
  show "data_of (session_stream os p) = preface_bytes initial pre @ concat (map (local_bytes \<circ> snd) es)"
    using eff fs by (simp add: session_stream_def build_wire_frame_def)
  show "pu_written p = relay_stream False (map snd es)" using eff by simp
  show "ret \<noteq> None \<longrightarrow> concat (map b_frames (session_batches os p)) = session_stream os p"
    using eff by (simp add: session_batches_def session_stream_def pump_stream_def)
  show "list_all batch_ok (cb_spawned (pu_batcher p))" using inv by (simp add: pump_inv_def cb_inv_def)
qed

text \<open>C5: over the whole life of a tunnelled connection, the opening file included, the client's
  frames carry the numbers 0, 1, 2, \<dots>, their data is exactly the first bytes and then the bytes read
  from the local socket in order, the local socket has received exactly the data that came before the
  relay's Eof, and when the pump has returned every frame is in an uploaded batch.\<close>

theorem client_faithful:
  assumes "tunnel_connection_with_preface C pk sid esk cookie host port initial pre = Inr os"
    "wf_sid sid" "pump_exec (os_pump os) es p ret"
  shows "frames_from sid 0 (session_stream os p) \<and>
    data_of (session_stream os p) = preface_bytes initial pre @ concat (map (local_bytes \<circ> snd) es) \<and>
    pu_written p = relay_stream False (map snd es) \<and>
    (ret \<noteq> None \<longrightarrow> concat (map b_frames (session_batches os p)) = session_stream os p)"
  using session_faithful [OF assms] by simp

text \<open>A sample connection, to port 443 of \<open>h\<close>, whose first byte arrives with the CONNECT and whose
  second one later.\<close>

definition sample_open :: opened_session where
  "sample_open =
     (let b = build_session_open_batch (replicate 16 7) ''h'' 443
                [build_wire_frame KData (replicate 16 7) 1 [5]] in
      \<lparr>os_keys = toy_keys, os_hello = toy_hello, os_open = b,
       os_body = session_open_body toy_crypto (k_c2r toy_keys) (replicate 16 7) toy_hello b,
       os_pump = new_pump (replicate 16 7) 2\<rparr>)"

lemma sample_tunnel: "tunnel_connection_with_preface toy_crypto (public_key toy_crypto toy_secret)
    (replicate 16 7) (replicate 32 5) (replicate 16 3) ''h'' 443 [] (PrefaceRead (Inr [5])) = Inr sample_open"
  by (simp add: tunnel_connection_with_preface_def toy_initiate read_open_preface_frames_def sample_open_def Let_def)

definition sample_pump_events :: "(nat \<times> pump_event) list" where
  "sample_pump_events = [(1, PeRead (Inr [6])), (2, PeInbound (Some CInClose) (Inr ()))]"

definition sample_pump :: pump where
  "sample_pump = flush_pump (send_frame 1 KData [6] False (os_pump sample_open))"

lemma sample_pump_exec: "pump_exec (os_pump sample_open) sample_pump_events sample_pump (Some (Inr ()))"
proof -
  have "pump_exec (os_pump sample_open) ([] @ [(1, PeRead (Inr [6]))])
      (send_frame 1 KData [6] False (os_pump sample_open)) None"
    by (rule pump_next [OF pump_start])
      (simp_all add: pump_enabled_def sample_open_def new_pump_def LOCAL_SOCKET_READ_BUFFER_def Let_def)
  then have "pump_exec (os_pump sample_open) ([(1, PeRead (Inr [6]))] @ [(2, PeInbound (Some CInClose) (Inr ()))])
      sample_pump (Some (Inr ()))"
    by (intro pump_next) (simp_all add: pump_enabled_def sample_pump_def)
  then show ?thesis by (simp add: sample_pump_events_def)
qed

theorem client_faithful_witness:
  "frames_from (replicate 16 7) 0 (session_stream sample_open sample_pump) \<and>
    data_of (session_stream sample_open sample_pump) = [5, 6] \<and> pu_written sample_pump = [] \<and>
    concat (map b_frames (session_batches sample_open sample_pump)) = session_stream sample_open sample_pump"
  using client_faithful [OF sample_tunnel _ sample_pump_exec]
  by (simp add: wf_sid_def preface_bytes_def sample_pump_events_def)

section \<open>Frame kinds\<close>

lemma pump_step_kinds:
  "pump_step now e p = (p', ret) \<Longrightarrow> list_all (\<lambda>f. fr_kind f \<in> {KData, KEof, KClose}) (pump_stream p) \<Longrightarrow>
     list_all (\<lambda>f. fr_kind f \<in> {KData, KEof, KClose}) (pump_stream p')"
  by (induction now e p rule: pump_step.induct)
    (auto simp: Let_def build_wire_frame_def split: if_splits sum.splits)

lemma pump_exec_kinds:
  "pump_exec p0 es p ret \<Longrightarrow> pump_stream p0 = [] \<Longrightarrow>
     list_all (\<lambda>f. fr_kind f \<in> {KData, KEof, KClose}) (pump_stream p)"
  by (induction rule: pump_exec.induct) (auto dest: pump_step_kinds)

end
