(* ===== verification/Relay_Session.thy ===== *)
theory Relay_Session
  imports Mailbox
begin

text \<open>
  The relay's per-session driver (\<^verbatim>\<open>drive-relay/src/session.rs\<close>): the destination guard, the batching
  of outbound frames, the upload of a batch, and the driver as a state machine over the events its
  \<open>select!\<close> loop chooses between. Shown: an empty allow list never lets a dotted-decimal internal
  address through; the frames a driver emits are numbered 0, 1, 2, \<dots> and carry exactly the bytes read
  from the destination, in order; every exit leaves nothing pending; what reaches the destination is
  exactly the data received before the end of the client's stream; every uploaded batch is one the
  client accepts.
\<close>

section \<open>Constants\<close>

definition TCP_READ_BUFFER :: nat where "TCP_READ_BUFFER = 16 * 1024"
definition R2C_COALESCE_INTERACTIVE_BYTES :: nat where "R2C_COALESCE_INTERACTIVE_BYTES = 8 * 1024"
definition R2C_COALESCE_INTERACTIVE_DELAY :: nat where "R2C_COALESCE_INTERACTIVE_DELAY = 5"
definition R2C_COALESCE_MEDIUM_BYTES :: nat where "R2C_COALESCE_MEDIUM_BYTES = 64 * 1024"
definition R2C_COALESCE_MEDIUM_DELAY :: nat where "R2C_COALESCE_MEDIUM_DELAY = 50"
definition R2C_COALESCE_BULK_DELAY :: nat where "R2C_COALESCE_BULK_DELAY = 100"
definition R2C_BATCH_FLUSH_BYTES :: nat where "R2C_BATCH_FLUSH_BYTES = 1024 * 1024"
definition R2C_BATCH_MAX_FRAMES :: nat where "R2C_BATCH_MAX_FRAMES = 200"

section \<open>The destination guard\<close>

definition entry_matches :: "string \<Rightarrow> string \<Rightarrow> bool" where
  "entry_matches h entry =
     (let e = to_ascii_lowercase (trim_end_matches CHR ''.'' (trim entry)) in
      if e = [] then False else
      (case strip_prefix ''.'' e of
         Some sfx \<Rightarrow> h = sfx \<or> ends_with h (''.'' @ sfx)
       | None \<Rightarrow> h = e))"

definition destination_allowed :: "string list \<Rightarrow> string \<Rightarrow> bool" where
  "destination_allowed allow_destinations host =
     (let h = trim_end_matches CHR ''.'' (to_ascii_lowercase host) in
      if allow_destinations \<noteq> [] then list_ex (entry_matches h) allow_destinations
      else (case parse_ip_addr h of
              Some ip \<Rightarrow> \<not> is_internal_ip ip
            | None \<Rightarrow> True))"

section \<open>Outbound batches\<close>

text \<open>The pending batch with its bookkeeping, and the batches whose upload has been spawned, in
  order. Instants are milliseconds.\<close>

record r2c_batcher =
  rb_pending :: "wire_frame list"
  rb_pending_bytes :: nat
  rb_deadline :: "nat option"
  rb_eager :: bool
  rb_spawned :: "batch list"

definition new_r2c_batcher :: r2c_batcher where
  "new_r2c_batcher =
     \<lparr>rb_pending = [], rb_pending_bytes = 0, rb_deadline = None, rb_eager = True, rb_spawned = []\<rparr>"

definition pick_r2c_coalesce_delay :: "nat \<Rightarrow> nat" where
  "pick_r2c_coalesce_delay pending_bytes =
     (if pending_bytes < R2C_COALESCE_INTERACTIVE_BYTES then R2C_COALESCE_INTERACTIVE_DELAY
      else if pending_bytes < R2C_COALESCE_MEDIUM_BYTES then R2C_COALESCE_MEDIUM_DELAY
      else R2C_COALESCE_BULK_DELAY)"

definition flush_r2c_batch :: "r2c_batcher \<Rightarrow> r2c_batcher" where
  "flush_r2c_batch b =
     (if rb_pending b = [] then b
      else b\<lparr>rb_pending := [], rb_pending_bytes := 0, rb_deadline := None, rb_eager := False,
             rb_spawned := rb_spawned b @ [\<lparr>b_frames = rb_pending b\<rparr>]\<rparr>)"

definition r2c_frame :: "session_id \<Rightarrow> frame_kind \<Rightarrow> u64 \<Rightarrow> bytes \<Rightarrow> wire_frame" where
  "r2c_frame sid k q payload =
     \<lparr>fr_version = WIRE_VERSION, fr_kind = k, fr_sid = sid, fr_seq = q, fr_payload = payload\<rparr>"

text \<open>\<open>push_r2c_frame\<close>, after it has built its frame (\<open>r2c_frame\<close>).\<close>

definition push_r2c_frame :: "push_args \<Rightarrow> r2c_batcher \<Rightarrow> r2c_batcher" where
  "push_r2c_frame a b =
     (let b1 = b\<lparr>rb_pending_bytes := rb_pending_bytes b + length (fr_payload (pa_frame a)),
                 rb_pending := rb_pending b @ [pa_frame a]\<rparr>;
          eager_second_frame = (2 \<le> length (rb_pending b1) \<and> rb_eager b1) in
      if pa_flush_now a \<or> eager_second_frame
         \<or> R2C_BATCH_MAX_FRAMES \<le> length (rb_pending b1)
         \<or> R2C_BATCH_FLUSH_BYTES \<le> rb_pending_bytes b1
      then flush_r2c_batch b1
      else (let deadline = pa_now a + pick_r2c_coalesce_delay (rb_pending_bytes b1) in
            case rb_deadline b1 of
              Some existing \<Rightarrow> if existing \<le> deadline then b1 else b1\<lparr>rb_deadline := Some deadline\<rparr>
            | None \<Rightarrow> b1\<lparr>rb_deadline := Some deadline\<rparr>))"

section \<open>Uploads\<close>

text \<open>The file of a batch: named by the first frame's number, sealed under it.\<close>

definition r2c_file :: "crypto \<Rightarrow> bytes \<Rightarrow> session_id \<Rightarrow> batch \<Rightarrow> string \<times> bytes" where
  "r2c_file C key sid b =
     (let first_seq = fr_seq (hd (b_frames b)) in
      (format_filename \<lparr>fn_kind = FnFrame RelayToClient, fn_sid = sid, fn_seq = first_seq\<rparr>,
       seal C key sid first_seq (encode_batch b)))"

datatype 'e upload_error = UpOauth 'e | UpApi drive_api_error

definition upload_batch :: "crypto \<Rightarrow> json_lib \<Rightarrow> 's http \<Rightarrow> drive_api_client \<Rightarrow> bytes
    \<Rightarrow> (string, 'e) result \<Rightarrow> string \<Rightarrow> bytes \<Rightarrow> session_id \<Rightarrow> batch \<Rightarrow> 's
    \<Rightarrow> 's \<times> (unit, 'e upload_error) result" where
  "upload_batch C J send c rnd token folder_id key sid b s =
     (let (name, sealed) = r2c_file C key sid b in
      case token of
        Inl e \<Rightarrow> (s, Inl (UpOauth e))
      | Inr access_token \<Rightarrow>
          (case upload_file J send c rnd access_token folder_id name sealed s of
             (s', Inl e) \<Rightarrow> (s', Inl (UpApi e))
           | (s', Inr _) \<Rightarrow> (s', Inr ())))"

definition error_batch :: "session_id \<Rightarrow> u64 \<Rightarrow> string \<Rightarrow> batch" where
  "error_batch sid q reason = batch_single (r2c_frame sid KError q (as_bytes reason))"

section \<open>The driver\<close>

record driver =
  dr_sid :: session_id
  dr_next_seq :: u64
  dr_batcher :: r2c_batcher
  dr_peer_writable :: bool
  dr_read_closed :: bool
  dr_written :: bytes
  dr_shutdown :: bool
  dr_last_seen :: nat

text \<open>Phase 1: the first inbound event, the guard, the dial. \<open>dial\<close> is the outcome of the dial
  permit (\<open>None\<close> when the semaphore is closed) and of the connection attempt. The result is the
  error batch uploaded, if any, and the driver that enters phase 2, if any.\<close>

definition driver_start :: "string list \<Rightarrow> session_id \<Rightarrow> nat \<Rightarrow> inbound_frame option
    \<Rightarrow> (string \<Rightarrow> u16 \<Rightarrow> (unit, string) result option) \<Rightarrow> batch option \<times> driver option" where
  "driver_start allow sid now first dial =
     (case first of
        Some (InConnect host port) \<Rightarrow>
          if \<not> destination_allowed allow host
          then (Some (error_batch sid 0 ''destination not on allow list''), None)
          else (case dial host port of
                  None \<Rightarrow> (Some (error_batch sid 0 ''relay shutting down''), None)
                | Some (Inl e) \<Rightarrow> (Some (error_batch sid 0 (''dial failed: '' @ e)), None)
                | Some (Inr _) \<Rightarrow>
                    (None, Some \<lparr>dr_sid = sid, dr_next_seq = 0, dr_batcher = new_r2c_batcher,
                       dr_peer_writable = True, dr_read_closed = False, dr_written = [],
                       dr_shutdown = False, dr_last_seen = now\<rparr>))
      | _ \<Rightarrow> (None, None))"

text \<open>Phase 2: the events of the \<open>select!\<close> loop. An inbound event carries whether a write to the
  destination would succeed; a read carries its result.\<close>

datatype driver_event =
    EvInbound "inbound_frame option" bool
  | EvTimer
  | EvRead "(bytes, string) result"

definition emit :: "nat \<Rightarrow> frame_kind \<Rightarrow> bytes \<Rightarrow> bool \<Rightarrow> driver \<Rightarrow> driver" where
  "emit now k payload flush_now d =
     d\<lparr>dr_next_seq := dr_next_seq d + 1,
       dr_batcher := push_r2c_frame
         \<lparr>pa_now = now, pa_frame = r2c_frame (dr_sid d) k (dr_next_seq d) payload,
          pa_flush_now = flush_now\<rparr> (dr_batcher d)\<rparr>"

definition flush_driver :: "driver \<Rightarrow> driver" where
  "flush_driver d = d\<lparr>dr_batcher := flush_r2c_batch (dr_batcher d)\<rparr>"

definition set_eager :: "driver \<Rightarrow> driver" where
  "set_eager d = d\<lparr>dr_batcher := (dr_batcher d)\<lparr>rb_eager := True\<rparr>\<rparr>"

text \<open>One iteration of the loop; the second component tells that the driver returned.\<close>

fun driver_step :: "nat \<Rightarrow> driver_event \<Rightarrow> driver \<Rightarrow> driver \<times> bool" where
  "driver_step now (EvInbound (Some (InConnect _ _)) _) d = (d, False)"
| "driver_step now (EvInbound (Some (InData bs)) write_ok) d =
     (let d = d\<lparr>dr_last_seen := now\<rparr> in
      if \<not> dr_peer_writable d then (d, False)
      else if \<not> write_ok then (flush_driver d, True)
      else (set_eager (flush_driver (d\<lparr>dr_written := dr_written d @ bs\<rparr>)), False))"
| "driver_step now (EvInbound (Some InEof) _) d =
     (let d = d\<lparr>dr_last_seen := now, dr_shutdown := True, dr_peer_writable := False\<rparr> in
      if dr_read_closed d then (emit now KClose [] True d, True) else (d, False))"
| "driver_step now (EvInbound (Some InClose) _) d = (flush_driver d, True)"
| "driver_step now (EvInbound None _) d = (flush_driver d, True)"
| "driver_step now EvTimer d = (flush_driver d, False)"
| "driver_step now (EvRead (Inl e)) d = (flush_driver d, True)"
| "driver_step now (EvRead (Inr bs)) d =
     (if bs = [] then
        (let d = (emit now KEof [] True d)\<lparr>dr_read_closed := True\<rparr> in
         if \<not> dr_peer_writable d then (emit now KClose [] True d, True) else (d, False))
      else (emit now KData bs False (d\<lparr>dr_last_seen := now\<rparr>), False))"

text \<open>Which events the loop can take: the timer only at an armed deadline, a read only while the
  destination has not closed, and at most a buffer's worth.\<close>

definition driver_enabled :: "nat \<Rightarrow> driver_event \<Rightarrow> driver \<Rightarrow> bool" where
  "driver_enabled now e d \<longleftrightarrow>
     (case e of
        EvInbound _ _ \<Rightarrow> True
      | EvTimer \<Rightarrow> (case rb_deadline (dr_batcher d) of Some t \<Rightarrow> t \<le> now | None \<Rightarrow> False)
      | EvRead r \<Rightarrow> \<not> dr_read_closed d \<and>
          (case r of Inl _ \<Rightarrow> True | Inr bs \<Rightarrow> length bs \<le> TCP_READ_BUFFER))"

inductive driver_exec :: "driver \<Rightarrow> (nat \<times> driver_event) list \<Rightarrow> driver \<Rightarrow> bool \<Rightarrow> bool"
  for d0 where
  exec_start: "driver_exec d0 [] d0 False"
| exec_step: "driver_exec d0 es d False \<Longrightarrow> driver_enabled now e d \<Longrightarrow>
     driver_step now e d = (d', fin) \<Longrightarrow> driver_exec d0 (es @ [(now, e)]) d' fin"

section \<open>The batcher keeps the interface\<close>

definition rb_inv :: "r2c_batcher \<Rightarrow> bool" where
  "rb_inv b \<longleftrightarrow>
     length (rb_pending b) < R2C_BATCH_MAX_FRAMES \<and>
     rb_pending_bytes b = (\<Sum>f\<leftarrow>rb_pending b. length (fr_payload f)) \<and>
     rb_pending_bytes b < R2C_BATCH_FLUSH_BYTES \<and>
     list_all wf_frame (rb_pending b) \<and> list_all batch_ok (rb_spawned b)"

lemmas r2c_consts = R2C_BATCH_MAX_FRAMES_def R2C_BATCH_FLUSH_BYTES_def

lemma flush_r2c_sel [simp]:
  "rb_pending (flush_r2c_batch b) = []"
  "rb_spawned (flush_r2c_batch b) =
     rb_spawned b @ (if rb_pending b = [] then [] else [\<lparr>b_frames = rb_pending b\<rparr>])"
  by (simp_all add: flush_r2c_batch_def)

lemma flush_r2c_bytes: "rb_pending b = [] \<longrightarrow> rb_pending_bytes b = 0 \<Longrightarrow>
    rb_pending_bytes (flush_r2c_batch b) = 0"
  by (simp add: flush_r2c_batch_def)

definition r2c_appended :: "push_args \<Rightarrow> r2c_batcher \<Rightarrow> r2c_batcher" where
  "r2c_appended a b =
     b\<lparr>rb_pending_bytes := rb_pending_bytes b + length (fr_payload (pa_frame a)),
       rb_pending := rb_pending b @ [pa_frame a]\<rparr>"

lemma push_r2c_cases:
  obtains "push_r2c_frame a b = flush_r2c_batch (r2c_appended a b)"
  | t where "push_r2c_frame a b = (r2c_appended a b)\<lparr>rb_deadline := t\<rparr>" "\<not> pa_flush_now a"
      "length (rb_pending b) + 1 < R2C_BATCH_MAX_FRAMES"
      "rb_pending_bytes b + length (fr_payload (pa_frame a)) < R2C_BATCH_FLUSH_BYTES"
proof -
  let ?d = "pa_now a + pick_r2c_coalesce_delay (rb_pending_bytes b + length (fr_payload (pa_frame a)))"
  let ?go = "pa_flush_now a \<or> 2 \<le> length (rb_pending b) + 1 \<and> rb_eager b
      \<or> R2C_BATCH_MAX_FRAMES \<le> length (rb_pending b) + 1
      \<or> R2C_BATCH_FLUSH_BYTES \<le> rb_pending_bytes b + length (fr_payload (pa_frame a))"
  have p: "push_r2c_frame a b =
      (if ?go then flush_r2c_batch (r2c_appended a b)
       else (r2c_appended a b)\<lparr>rb_deadline :=
         (case rb_deadline b of Some t \<Rightarrow> if t \<le> ?d then Some t else Some ?d | None \<Rightarrow> Some ?d)\<rparr>)"
    by (cases "rb_deadline b") (auto simp: push_r2c_frame_def r2c_appended_def Let_def)
  show thesis
  proof (cases ?go)
    case True
    then show thesis by (intro that(1)) (simp only: p if_True)
  next
    case False
    then show thesis using p by (intro that(2)) (simp only: if_False, auto)
  qed
qed

lemma r2c_appended_sel [simp]:
  "rb_pending (r2c_appended a b) = rb_pending b @ [pa_frame a]"
  "rb_spawned (r2c_appended a b) = rb_spawned b"
  "rb_pending_bytes (r2c_appended a b) = rb_pending_bytes b + length (fr_payload (pa_frame a))"
  by (simp_all add: r2c_appended_def)

lemma flush_r2c_inv:
  assumes "rb_pending_bytes b = (\<Sum>f\<leftarrow>rb_pending b. length (fr_payload f))"
    "length (rb_pending b) \<le> 200" "rb_pending_bytes b \<le> 1064960"
    "list_all wf_frame (rb_pending b)" "list_all batch_ok (rb_spawned b)"
  shows "rb_inv (flush_r2c_batch b)"
proof -
  have "rb_pending_bytes (flush_r2c_batch b) = 0" using assms(1) by (intro flush_r2c_bytes) auto
  then show ?thesis
    using assms batch_ok_intro [of "rb_pending b"] by (simp add: rb_inv_def r2c_consts)
qed

interpretation rb: frame_batcher push_r2c_frame flush_r2c_batch rb_spawned rb_pending pa_frame
  pa_flush_now rb_inv
proof
  fix a b
  show "concat (map b_frames (rb_spawned (push_r2c_frame a b))) @ rb_pending (push_r2c_frame a b)
      = concat (map b_frames (rb_spawned b)) @ rb_pending b @ [pa_frame a]"
    by (rule push_r2c_cases [of a b]) simp_all
  show "concat (map b_frames (rb_spawned (flush_r2c_batch b))) @ rb_pending (flush_r2c_batch b)
      = concat (map b_frames (rb_spawned b)) @ rb_pending b"
    by simp
  show "pa_flush_now a \<Longrightarrow> rb_pending (push_r2c_frame a b) = []"
    by (rule push_r2c_cases [of a b]) simp_all
  show "rb_pending (flush_r2c_batch b) = []" by simp
  show "rb_inv b \<Longrightarrow> length (fr_payload (pa_frame a)) \<le> 16384 \<Longrightarrow> wf_frame (pa_frame a)
      \<Longrightarrow> rb_inv (push_r2c_frame a b)"
  proof (rule push_r2c_cases [of a b])
    assume "rb_inv b" "length (fr_payload (pa_frame a)) \<le> 16384" "wf_frame (pa_frame a)"
      "push_r2c_frame a b = flush_r2c_batch (r2c_appended a b)"
    then show ?thesis
      using flush_r2c_inv [of "r2c_appended a b"] by (simp add: rb_inv_def r2c_consts)
  next
    fix t
    assume "rb_inv b" "wf_frame (pa_frame a)"
      "push_r2c_frame a b = (r2c_appended a b)\<lparr>rb_deadline := t\<rparr>"
      "length (rb_pending b) + 1 < R2C_BATCH_MAX_FRAMES"
      "rb_pending_bytes b + length (fr_payload (pa_frame a)) < R2C_BATCH_FLUSH_BYTES"
    then show ?thesis by (simp add: rb_inv_def)
  qed
  show "rb_inv b \<Longrightarrow> rb_inv (flush_r2c_batch b)"
    using flush_r2c_inv [of b] by (simp add: rb_inv_def r2c_consts)
  show "rb_inv b \<Longrightarrow> x \<in> set (rb_spawned b) \<Longrightarrow>
      wf_batch x \<and> sealed_size x \<le> MAX_SEALED_FRAME_BODY_BYTES" for x
    by (simp add: rb_inv_def list_all_iff batch_ok_def)
qed

section \<open>The destination guard\<close>

lemma lower_ipv4: "to_ascii_lowercase (show_ipv4 a b c d @ replicate n CHR ''.'')
    = show_ipv4 a b c d @ replicate n CHR ''.''"
proof -
  have "ascii_lower x = x" if "is_digit x" for x
    using that by (simp add: ascii_lower_def is_digit_def)
  then have "map ascii_lower (dec_show k) = dec_show k" for k
    using dec_show_digits [of k] by (simp add: list_all_iff map_idI)
  then show ?thesis
    by (simp add: to_ascii_lowercase_def show_ipv4_def ascii_lower_def)
qed

lemma trim_end_matches_replicate:
  assumes "s \<noteq> []" "last s \<noteq> c"
  shows "trim_end_matches c (s @ replicate n c) = s"
proof -
  have "dropWhile (\<lambda>x. x = c) (replicate n c @ rev s) = dropWhile (\<lambda>x. x = c) (rev s)"
    by (rule dropWhile_append2) simp
  also have "\<dots> = rev s" using assms by (simp add: dropWhile_eq_self_iff hd_rev)
  finally show ?thesis by (simp add: trim_end_matches_def)
qed

lemma trim_ipv4: "trim_end_matches CHR ''.'' (show_ipv4 a b c d @ replicate n CHR ''.'') = show_ipv4 a b c d"
proof -
  have "last (dec_show (unat d)) \<noteq> CHR ''.''"
  proof
    assume "last (dec_show (unat d)) = CHR ''.''"
    then have "CHR ''.'' \<in> set (dec_show (unat d))" using last_in_set [of "dec_show (unat d)"] by simp
    then show False using digit_not_in_dec_show [of "CHR ''.''"] by (simp add: is_digit_def)
  qed
  then show ?thesis
    by (intro trim_end_matches_replicate) (simp_all add: show_ipv4_def)
qed

text \<open>C34: with no allow list, a dotted-decimal destination, also when written with trailing dots, is
  allowed exactly when the address is in none of the blocks 127.0.0.0/8 (loopback), 10.0.0.0/8,
  172.16.0.0/12, 192.168.0.0/16 (private), 169.254.0.0/16 (link-local, the cloud metadata service),
  100.64.0.0/10 (carrier-grade NAT), and is neither 0.0.0.0 nor 255.255.255.255.\<close>

theorem ssrf_guard_ipv4:
  "destination_allowed [] (show_ipv4 a b c d @ replicate n CHR ''.'') \<longleftrightarrow>
     \<not> list_ex (in_cidr (ipv4_num a b c d)) own_networks"
  by (simp add: destination_allowed_def lower_ipv4 trim_ipv4 parse_show_ipv4 Let_def in_own_networks)

section \<open>The driver's stream\<close>

definition driver_stream :: "driver \<Rightarrow> wire_frame list" where
  "driver_stream d = concat (map b_frames (rb_spawned (dr_batcher d))) @ rb_pending (dr_batcher d)"

lemma driver_stream_ops [simp]:
  "driver_stream (emit now k p fl d) = driver_stream d @ [r2c_frame (dr_sid d) k (dr_next_seq d) p]"
  "driver_stream (flush_driver d) = driver_stream d"
  "driver_stream (set_eager d) = driver_stream d"
  using rb.push_stream rb.flush_stream
  by (simp_all add: driver_stream_def emit_def flush_driver_def set_eager_def)

lemma driver_stream_fields [simp]:
  "driver_stream (d\<lparr>dr_next_seq := q\<rparr>) = driver_stream d"
  "driver_stream (d\<lparr>dr_peer_writable := x\<rparr>) = driver_stream d"
  "driver_stream (d\<lparr>dr_read_closed := x\<rparr>) = driver_stream d"
  "driver_stream (d\<lparr>dr_written := bs\<rparr>) = driver_stream d"
  "driver_stream (d\<lparr>dr_shutdown := x\<rparr>) = driver_stream d"
  "driver_stream (d\<lparr>dr_last_seen := t\<rparr>) = driver_stream d"
  by (simp_all add: driver_stream_def)

lemma driver_sel [simp]:
  "dr_sid (emit now k p fl d) = dr_sid d" "dr_sid (flush_driver d) = dr_sid d"
  "dr_sid (set_eager d) = dr_sid d"
  "dr_next_seq (emit now k p fl d) = dr_next_seq d + 1"
  "dr_next_seq (flush_driver d) = dr_next_seq d" "dr_next_seq (set_eager d) = dr_next_seq d"
  "dr_written (emit now k p fl d) = dr_written d" "dr_written (flush_driver d) = dr_written d"
  "dr_written (set_eager d) = dr_written d"
  "dr_peer_writable (emit now k p fl d) = dr_peer_writable d"
  "dr_peer_writable (flush_driver d) = dr_peer_writable d"
  "dr_peer_writable (set_eager d) = dr_peer_writable d"
  by (simp_all add: emit_def flush_driver_def set_eager_def)

lemma driver_pending_nil [simp]:
  "rb_pending (dr_batcher (emit now k p True d)) = []"
  "rb_pending (dr_batcher (flush_driver d)) = []"
  using rb.push_urgent by (simp_all add: emit_def flush_driver_def)

definition driver_inv :: "driver \<Rightarrow> bool" where
  "driver_inv d \<longleftrightarrow>
     wf_sid (dr_sid d) \<and> frames_from (dr_sid d) 0 (driver_stream d) \<and>
     dr_next_seq d = word_of_nat (length (driver_stream d)) \<and> rb_inv (dr_batcher d)"

lemma rb_inv_emit:
  assumes "rb_inv (dr_batcher d)" "wf_sid (dr_sid d)" "length p \<le> 16384"
  shows "rb_inv (dr_batcher (emit now k p fl d))"
  using assms rb.push_inv [of "dr_batcher d"]
  by (simp add: emit_def r2c_frame_def wf_frame_def)

lemma driver_inv_ops:
  "driver_inv d \<Longrightarrow> length p \<le> 16384 \<Longrightarrow> driver_inv (emit now k p fl d)"
  "driver_inv d \<Longrightarrow> driver_inv (flush_driver d)"
  "driver_inv d \<Longrightarrow> driver_inv (set_eager d)"
proof -
  show "driver_inv d \<Longrightarrow> length p \<le> 16384 \<Longrightarrow> driver_inv (emit now k p fl d)"
    using rb_inv_emit [of d p now k fl] by (simp add: driver_inv_def r2c_frame_def)
  show "driver_inv d \<Longrightarrow> driver_inv (flush_driver d)"
    using rb.flush_inv [of "dr_batcher d"] driver_stream_ops(2) [of d]
    by (simp add: driver_inv_def flush_driver_def)
  show "driver_inv d \<Longrightarrow> driver_inv (set_eager d)"
    using driver_stream_ops(3) [of d] by (simp add: driver_inv_def set_eager_def rb_inv_def)
qed

lemma driver_inv_fields [simp]:
  "driver_inv (d\<lparr>dr_peer_writable := x\<rparr>) = driver_inv d"
  "driver_inv (d\<lparr>dr_read_closed := x\<rparr>) = driver_inv d"
  "driver_inv (d\<lparr>dr_written := bs\<rparr>) = driver_inv d"
  "driver_inv (d\<lparr>dr_shutdown := x\<rparr>) = driver_inv d"
  "driver_inv (d\<lparr>dr_last_seen := t\<rparr>) = driver_inv d"
  by (simp_all add: driver_inv_def)

lemma driver_step_inv:
  "driver_inv d \<Longrightarrow> driver_enabled now e d \<Longrightarrow> driver_step now e d = (d', fin) \<Longrightarrow> driver_inv d'"
  by (induction now e d rule: driver_step.induct)
    (auto simp: Let_def driver_enabled_def TCP_READ_BUFFER_def intro!: driver_inv_ops split: if_splits)

text \<open>What an event contributes: bytes read from the destination, bytes accepted from the client.\<close>

fun read_bytes :: "driver_event \<Rightarrow> bytes" where
  "read_bytes (EvRead (Inr bs)) = bs"
| "read_bytes _ = []"

fun inbound_data :: "driver_event \<Rightarrow> bytes" where
  "inbound_data (EvInbound (Some (InData bs)) write_ok) = (if write_ok then bs else [])"
| "inbound_data _ = []"

fun is_eof :: "driver_event \<Rightarrow> bool" where
  "is_eof (EvInbound (Some InEof) _) = True"
| "is_eof _ = False"

lemma driver_step_effect:
  "driver_step now e d = (d', fin) \<Longrightarrow>
     dr_sid d' = dr_sid d \<and> data_of (driver_stream d') = data_of (driver_stream d) @ read_bytes e \<and>
     dr_written d' = dr_written d @ (if dr_peer_writable d then inbound_data e else []) \<and>
     dr_peer_writable d' = (dr_peer_writable d \<and> \<not> is_eof e) \<and>
     (fin \<longrightarrow> rb_pending (dr_batcher d') = [])"
  by (induction now e d rule: driver_step.induct)
    (auto simp: Let_def r2c_frame_def split: if_splits)

definition client_data :: "(nat \<times> driver_event) list \<Rightarrow> bytes" where
  "client_data es = concat (map (inbound_data \<circ> snd) (takeWhile (\<lambda>e. \<not> is_eof (snd e)) es))"

lemma client_data_snoc:
  "client_data (es @ [e]) =
     client_data es @ (if list_ex (is_eof \<circ> snd) es then [] else inbound_data (snd e))"
proof (cases "list_ex (is_eof \<circ> snd) es")
  case True
  then obtain x where "x \<in> set es" "is_eof (snd x)" by (auto simp: list_ex_iff)
  then have "takeWhile (\<lambda>e. \<not> is_eof (snd e)) (es @ [e]) = takeWhile (\<lambda>e. \<not> is_eof (snd e)) es"
    by (intro takeWhile_append1) auto
  with True show ?thesis by (simp add: client_data_def)
next
  case False
  then have "takeWhile (\<lambda>e. \<not> is_eof (snd e)) (es @ xs) = es @ takeWhile (\<lambda>e. \<not> is_eof (snd e)) xs"
    for xs by (intro takeWhile_append2) (auto simp: list_ex_iff)
  from this [of "[e]"] this [of "[]"] have
    "takeWhile (\<lambda>e. \<not> is_eof (snd e)) (es @ [e]) = es @ (if is_eof (snd e) then [] else [e])"
    "takeWhile (\<lambda>e. \<not> is_eof (snd e)) es = es"
    by (simp_all only: takeWhile.simps append_Nil2 if_distrib not_not if_not_P) auto
  moreover have "inbound_data x = []" if "is_eof x" for x using that by (cases x rule: is_eof.cases) auto
  ultimately show ?thesis
    using False unfolding client_data_def by (simp only: if_False) auto
qed

lemma driver_exec_inv:
  "driver_exec d0 es d fin \<Longrightarrow> driver_inv d0 \<Longrightarrow> driver_inv d"
  by (induction rule: driver_exec.induct) (auto dest: driver_step_inv)

lemma driver_exec_effect:
  "driver_exec d0 es d fin \<Longrightarrow> driver_stream d0 = [] \<Longrightarrow> dr_written d0 = [] \<Longrightarrow> dr_peer_writable d0 \<Longrightarrow>
     dr_sid d = dr_sid d0 \<and> data_of (driver_stream d) = concat (map (read_bytes \<circ> snd) es) \<and>
     dr_written d = client_data es \<and>
     dr_peer_writable d = (\<not> list_ex (is_eof \<circ> snd) es) \<and>
     (fin \<longrightarrow> rb_pending (dr_batcher d) = [])"
proof (induction rule: driver_exec.induct)
  case exec_start
  then show ?case by (simp add: client_data_def)
next
  case (exec_step es d now e d' fin)
  with driver_step_effect [OF exec_step.hyps(3)] show ?case
    by (simp add: client_data_snoc comp_def)
qed

lemma driver_start_fresh:
  assumes "driver_start allow sid now first dial = (u, Some d)" "wf_sid sid"
  shows "driver_inv d \<and> driver_stream d = [] \<and> dr_written d = [] \<and> dr_peer_writable d \<and> dr_sid d = sid"
  using assms
  by (auto simp: driver_start_def driver_inv_def driver_stream_def new_r2c_batcher_def rb_inv_def
      r2c_consts split: option.splits inbound_frame.splits if_splits sum.splits)

text \<open>C4: from the moment a session is dialled, after any run of its driver, the frames it has
  emitted carry the numbers 0, 1, 2, \<dots> of the session, their data is exactly the bytes read from
  the destination in order, the destination has received exactly the data the client sent before its
  Eof, and a driver that has returned has nothing left pending.\<close>

theorem driver_faithful:
  assumes "driver_start allow sid now first dial = (u, Some d0)" "wf_sid sid" "driver_exec d0 es d fin"
  shows "frames_from sid 0 (driver_stream d) \<and>
    data_of (driver_stream d) = concat (map (read_bytes \<circ> snd) es) \<and>
    dr_written d = client_data es \<and>
    (fin \<longrightarrow> concat (map b_frames (rb_spawned (dr_batcher d))) = driver_stream d)"
  using driver_start_fresh [OF assms(1,2)] driver_exec_inv [OF assms(3)] driver_exec_effect [OF assms(3)]
  by (auto simp: driver_inv_def driver_stream_def)

definition sample_driver :: driver where
  "sample_driver =
     \<lparr>dr_sid = replicate 16 7, dr_next_seq = 0, dr_batcher = new_r2c_batcher, dr_peer_writable = True,
      dr_read_closed = False, dr_written = [], dr_shutdown = False, dr_last_seen = 1\<rparr>"

definition sample_events :: "(nat \<times> driver_event) list" where
  "sample_events = [(2, EvInbound (Some (InData [7])) True), (3, EvRead (Inr [1, 2])),
     (4, EvInbound (Some InClose) True)]"

definition sample_final :: driver where
  "sample_final = fst (driver_step 4 (EvInbound (Some InClose) True)
     (fst (driver_step 3 (EvRead (Inr [1, 2]))
       (fst (driver_step 2 (EvInbound (Some (InData [7])) True) sample_driver)))))"

lemma sample_start: "driver_start [] (replicate 16 7) 1 (Some (InConnect ''a.b'' 80)) (\<lambda>_ _. Some (Inr ()))
    = (None, Some sample_driver)"
  by (simp add: driver_start_def sample_driver_def destination_allowed_def to_ascii_lowercase_def
      ascii_lower_def trim_end_matches_def parse_ip_addr_def read_ipv4_def read_octet_def read_number_def
      to_digit_def read_ipv6_def read_groups.simps read_sep_def read_char_def Let_def)

lemma sample_exec: "driver_exec sample_driver sample_events sample_final True"
proof -
  let ?e1 = "EvInbound (Some (InData [7])) True" and ?e2 = "EvRead (Inr [1, 2])"
  let ?d1 = "fst (driver_step 2 ?e1 sample_driver)"
  let ?d2 = "fst (driver_step 3 ?e2 ?d1)"
  have "driver_exec sample_driver ([] @ [(2, ?e1)]) ?d1 False"
    by (rule exec_step [OF exec_start]) (simp_all add: driver_enabled_def sample_driver_def)
  then have "driver_exec sample_driver ([(2, ?e1)] @ [(3, ?e2)]) ?d2 False"
    by (intro exec_step [of sample_driver "[(2, ?e1)]" ?d1])
      (simp_all add: driver_enabled_def sample_driver_def TCP_READ_BUFFER_def set_eager_def flush_driver_def)
  then have "driver_exec sample_driver ([(2, ?e1), (3, ?e2)] @ [(4, EvInbound (Some InClose) True)])
      sample_final True"
    by (intro exec_step [of sample_driver "[(2, ?e1), (3, ?e2)]" ?d2])
      (simp_all add: driver_enabled_def sample_final_def)
  then show ?thesis by (simp add: sample_events_def)
qed

theorem driver_faithful_witness:
  "frames_from (replicate 16 7) 0 (driver_stream sample_final) \<and>
    data_of (driver_stream sample_final) = [1, 2] \<and> dr_written sample_final = [7] \<and>
    concat (map b_frames (rb_spawned (dr_batcher sample_final))) = driver_stream sample_final"
  using driver_faithful [OF sample_start _ sample_exec]
  by (simp add: wf_sid_def sample_events_def client_data_def)

text \<open>Every batch a session's driver uploads is one the client's decoder accepts: not empty, at
  most 255 frames, every frame well-formed, and sealed within the size the client downloads.\<close>

theorem r2c_batches_acceptable:
  assumes "driver_start allow sid now first dial = (u, Some d0)" "wf_sid sid" "driver_exec d0 es d fin"
    "b \<in> set (rb_spawned (dr_batcher d))"
  shows "decode_batch (encode_batch b) = Inr b \<and>
    length (encode_batch b) + AEAD_TAG_LEN \<le> MAX_SEALED_FRAME_BODY_BYTES"
proof -
  have "driver_inv d" using driver_start_fresh [OF assms(1,2)] driver_exec_inv [OF assms(3)] by simp
  then have "wf_batch b \<and> sealed_size b \<le> MAX_SEALED_FRAME_BODY_BYTES"
    using rb.inv_batches [OF _ assms(4)] by (simp add: driver_inv_def)
  then show ?thesis by (simp add: decode_encode_batch sealed_size_def)
qed

lemma sample_spawned: "rb_spawned (dr_batcher sample_final)
    = [\<lparr>b_frames = [r2c_frame (replicate 16 7) KData 0 [1, 2]]\<rparr>]"
  by (simp add: sample_final_def sample_driver_def flush_driver_def set_eager_def emit_def
      new_r2c_batcher_def push_r2c_frame_def flush_r2c_batch_def r2c_consts Let_def)

theorem r2c_batches_acceptable_witness:
  "decode_batch (encode_batch \<lparr>b_frames = [r2c_frame (replicate 16 7) KData 0 [1, 2]]\<rparr>)
      = Inr \<lparr>b_frames = [r2c_frame (replicate 16 7) KData 0 [1, 2]]\<rparr> \<and>
    length (encode_batch \<lparr>b_frames = [r2c_frame (replicate 16 7) KData 0 [1, 2]]\<rparr>) + AEAD_TAG_LEN
      \<le> MAX_SEALED_FRAME_BODY_BYTES"
  by (rule r2c_batches_acceptable [OF sample_start _ sample_exec])
    (simp_all add: wf_sid_def sample_spawned)

end
