(* ===== verification/Relay_Poll.thy ===== *)
theory Relay_Poll
  imports Relay_Session
begin

text \<open>
  The relay's poller (\<^verbatim>\<open>drive-relay/src/poll.rs\<close>): the adaptive interval, the sliding
  \<open>modifiedTime\<close> cursor, the bootstrap of a session from its first file, the processing of one
  session's files, and a whole poll cycle. The table of sessions maps a session id to its keys, replay
  window, activity time and the history of its event channel. Shown: whatever a folder shows, in any
  order and over any number of cycles, what a session's driver receives is a prefix of what its client
  sent; when every file of a session is visible, one cycle hands over all of it; and the places where
  the cursor can pass a file that has not been delivered.
\<close>

section \<open>The adaptive interval\<close>

definition PIPELINE_INTERVAL_MS :: u64 where "PIPELINE_INTERVAL_MS = 25"
definition IDLE_BACKOFF_STEP_MS :: u64 where "IDLE_BACKOFF_STEP_MS = 100"
definition MAX_IDLE_INTERVAL_MS :: u64 where "MAX_IDLE_INTERVAL_MS = 500"
definition MODIFIED_CURSOR_LOOKBACK_SECS :: int where "MODIFIED_CURSOR_LOOKBACK_SECS = 8"

definition saturating_mul :: "u64 \<Rightarrow> u64 \<Rightarrow> u64" where
  "saturating_mul a b = (if unat a * unat b < 2 ^ 64 then a * b else - 1)"

definition adapt_interval :: "u64 \<Rightarrow> bool \<Rightarrow> u64 \<Rightarrow> bool \<Rightarrow> u64 \<times> u64" where
  "adapt_interval baseline_ms found_work empty_streak sessions_present =
     (if found_work then (PIPELINE_INTERVAL_MS, 0)
      else if sessions_present then (baseline_ms, 0)
      else (let streak = saturating_add empty_streak 1 in
            (min (saturating_add baseline_ms (unat (saturating_mul IDLE_BACKOFF_STEP_MS streak)))
                 MAX_IDLE_INTERVAL_MS, streak)))"

section \<open>The cursor\<close>

text \<open>RFC 3339 parsing and printing of the \<open>time\<close> crate; instants are nanoseconds.\<close>

record time_lib =
  t_parse :: "string \<Rightarrow> int option"
  t_format :: "int \<Rightarrow> string option"

definition file_max_time :: "drive_file list \<Rightarrow> int option" where
  "file_max_time files =
     (case List.map_filter df_modified_time files of
        [] \<Rightarrow> None
      | t # ts \<Rightarrow> Some (fold max ts t))"

definition advance_modified_cursor ::
    "time_lib \<Rightarrow> drive_file list \<Rightarrow> string option \<Rightarrow> int \<Rightarrow> string option" where
  "advance_modified_cursor T files cursor now =
     (let basis = (case file_max_time files of
                     Some m \<Rightarrow> if m > now then m else now
                   | None \<Rightarrow> now);
          proposed = basis - MODIFIED_CURSOR_LOOKBACK_SECS * 10 ^ 9;
          current = Option.bind cursor (t_parse T) in
      if (case current of Some c \<Rightarrow> c \<ge> proposed | None \<Rightarrow> False) then cursor
      else (case t_format T proposed of Some formatted \<Rightarrow> Some formatted | None \<Rightarrow> cursor))"

section \<open>Sessions\<close>

text \<open>\<open>sh_box\<close> is the history of the session's channel: what its driver has been or will be
  given.\<close>

record session_handle =
  sh_keys :: session_keys
  sh_replay :: replay_window
  sh_box :: "inbound_frame list"
  sh_last_seen :: nat

type_synonym session_table = "session_id \<Rightarrow> session_handle option"

definition spawn_session :: "nat \<Rightarrow> session_keys \<Rightarrow> session_table \<Rightarrow> session_table \<times> bool" where
  "spawn_session now keys sessions =
     (let sid = k_sid keys in
      if sessions sid \<noteq> None then (sessions, False)
      else (sessions(sid \<mapsto> \<lparr>sh_keys = keys, sh_replay = new_window, sh_box = [], sh_last_seen = now\<rparr>),
            True))"

datatype bootstrap_outcome = Registered bytes | Discarded

definition max_first_body :: u64 where
  "max_first_body =
     saturating_add (word_of_nat MAX_SEALED_FRAME_BODY_BYTES) HELLO_BODY_LEN"

text \<open>Bootstrap from \<open>c2r_<sid>_0\<close>: the outcome or error, the table, the ids deleted.\<close>

definition try_bootstrap_session_from_c2r_0 :: "crypto \<Rightarrow> drive_env \<Rightarrow> bytes \<Rightarrow> nat \<Rightarrow> drive_file
    \<Rightarrow> drive_filename \<Rightarrow> session_table
    \<Rightarrow> (bootstrap_outcome, drive_api_error) result \<times> session_table \<times> string list" where
  "try_bootstrap_session_from_c2r_0 C env secret now file parsed sessions =
     (let discard = (Inr Discarded, sessions, [df_id file]) in
      if (case df_size file of
            Some sz \<Rightarrow> sz < word_of_nat HELLO_BODY_LEN \<or> sz > max_first_body
          | None \<Rightarrow> False) then discard
      else (case env_download env (df_id file) max_first_body of
              Inl (ResponseTooLarge _ _ _) \<Rightarrow> discard
            | Inl e \<Rightarrow> (Inl e, sessions, [])
            | Inr body \<Rightarrow>
                if length body < HELLO_BODY_LEN then discard
                else (case decode_hello (take HELLO_BODY_LEN body) of
                        Inl _ \<Rightarrow> discard
                      | Inr hello \<Rightarrow>
                          (case relay_accept C secret (fn_sid parsed) hello of
                             Inl _ \<Rightarrow> discard
                           | Inr keys \<Rightarrow>
                               (Inr (Registered body), fst (spawn_session now keys sessions), [])))))"

section \<open>The files of one session\<close>

definition prepare_frame_batch :: "crypto \<Rightarrow> drive_env \<Rightarrow> session_keys \<Rightarrow> listed \<Rightarrow> bytes option
    \<Rightarrow> (prepared_batch option, drive_api_error) result \<times> string list" where
  "prepare_frame_batch C env keys e cached_body =
     (let (file, parsed) = e;
          unsealed_prefix_len = (if fn_seq parsed = 0 then HELLO_BODY_LEN else 0);
          max_total = saturating_add (word_of_nat MAX_SEALED_FRAME_BODY_BYTES) unsealed_prefix_len in
      if (case df_size file of Some sz \<Rightarrow> sz > max_total | None \<Rightarrow> False)
      then (Inr None, [df_id file])
      else (case (case cached_body of
                    Some body \<Rightarrow> Inr body
                  | None \<Rightarrow> env_download env (df_id file) max_total) of
              Inl (ResponseTooLarge _ _ _) \<Rightarrow> (Inr None, [df_id file])
            | Inl err \<Rightarrow> (Inl err, [])
            | Inr body \<Rightarrow>
                if length body < unsealed_prefix_len then (Inr None, [])
                else (case open_batch C (k_c2r keys) parsed (drop unsealed_prefix_len body) of
                        None \<Rightarrow> (Inr None, [])
                      | Some b \<Rightarrow>
                          (Inr (Some \<lparr>pb_file = file, pb_parsed = parsed, pb_batch = b\<rparr>), []))))"

text \<open>The body fetched by the bootstrap is used for the first file numbered 0.\<close>

fun with_cached :: "bytes option \<Rightarrow> listed list \<Rightarrow> (listed \<times> bytes option) list" where
  "with_cached cached [] = []"
| "with_cached cached (e # es) =
     (if fn_seq (snd e) = 0 then (e, cached) # with_cached None es
      else (e, None) # with_cached cached es)"

definition prefetch :: "crypto \<Rightarrow> drive_env \<Rightarrow> session_keys \<Rightarrow> bytes option \<Rightarrow> listed list
    \<Rightarrow> prepared_batch list \<times> string list" where
  "prefetch C env keys cached es =
     (let rs = map (\<lambda>(e, c). prepare_frame_batch C env keys e c) (with_cached cached es) in
      (List.map_filter (\<lambda>(r, _). case r of Inr (Some p) \<Rightarrow> Some p | _ \<Rightarrow> None) rs, concat (map snd rs)))"

definition relay_inbound :: "wire_frame \<Rightarrow> inbound_frame option" where
  "relay_inbound f = ok (frame_to_inbound f)"

definition deliver_prepared_frame_batch :: "(nat \<Rightarrow> bool) \<Rightarrow> prepared_batch
    \<Rightarrow> replay_window \<Rightarrow> inbound_frame list
    \<Rightarrow> replay_window \<times> inbound_frame list \<times> bool \<times> delivery_outcome \<times> string list" where
  "deliver_prepared_frame_batch alive p w box = deliver_batch relay_inbound alive p w box"

text \<open>The group once the session is in the table.\<close>

definition process_known_group :: "crypto \<Rightarrow> drive_env \<Rightarrow> nat \<Rightarrow> bytes option \<Rightarrow> listed list
    \<Rightarrow> session_handle \<Rightarrow> session_handle \<times> string list" where
  "process_known_group C env now cached grp h =
     (case next_expected (sh_replay h) of
        None \<Rightarrow> (h, map (\<lambda>e. df_id (fst e)) grp)
      | Some expected \<Rightarrow>
          (let (es, dels) = select_downloads ClientToRelay expected False grp;
               (ps, dels') = prefetch C env (sh_keys h) cached es;
               (w, box, touched, dels'') =
                 deliver_all relay_inbound (env_alive env) (sorted_prepared env ps)
                   (sh_replay h) (sh_box h)
           in (h\<lparr>sh_replay := w, sh_box := box,
                 sh_last_seen := (if touched then now else sh_last_seen h)\<rparr>,
               dels @ dels' @ dels'')))"

definition process_frame_group :: "crypto \<Rightarrow> drive_env \<Rightarrow> bytes \<Rightarrow> nat \<Rightarrow> listed list \<Rightarrow> session_table
    \<Rightarrow> (unit, drive_api_error) result \<times> session_table \<times> string list" where
  "process_frame_group C env secret now grp sessions =
     (case grp of
        [] \<Rightarrow> (Inr (), sessions, [])
      | (file, parsed) # _ \<Rightarrow>
          (let sid = fn_sid parsed;
               known = (\<lambda>cached sessions dels.
                 (case sessions sid of
                    None \<Rightarrow> (Inr (), sessions, dels)
                  | Some h \<Rightarrow>
                      (let (h', dels') = process_known_group C env now cached grp h
                       in (Inr (), sessions(sid \<mapsto> h'), dels @ dels')))) in
           if sessions sid = None then
             (if fn_seq parsed \<noteq> 0 then (Inr (), sessions, [])
              else (case try_bootstrap_session_from_c2r_0 C env secret now file parsed sessions of
                      (Inl e, sessions', dels) \<Rightarrow> (Inl e, sessions', dels)
                    | (Inr Discarded, sessions', dels) \<Rightarrow> (Inr (), sessions', dels)
                    | (Inr (Registered body), sessions', dels) \<Rightarrow> known (Some body) sessions' dels))
           else known None sessions []))"

section \<open>A poll cycle\<close>

definition c2r_listing :: "drive_file list \<Rightarrow> listed list" where
  "c2r_listing raw =
     sort_key listing_key
       (filter (\<lambda>e. fn_kind (snd e) = FnFrame ClientToRelay) (parsed_listing raw))"

fun process_groups :: "crypto \<Rightarrow> drive_env \<Rightarrow> bytes \<Rightarrow> nat \<Rightarrow> listed list \<Rightarrow> session_id list
    \<Rightarrow> session_table \<Rightarrow> session_table \<times> string list" where
  "process_groups C env secret now entries [] sessions = (sessions, [])"
| "process_groups C env secret now entries (sid # sids) sessions =
     (case process_frame_group C env secret now (group_of sid entries) sessions of
        (_, sessions', dels) \<Rightarrow>
          (case process_groups C env secret now entries sids sessions' of
             (sessions'', dels') \<Rightarrow> (sessions'', dels @ dels')))"

text \<open>\<open>token\<close> is the outcome of the token cache, \<open>listing\<close> what the list call answers for a
  cursor, \<open>call_start\<close> the wall clock before it, \<open>now\<close> the monotonic clock. The result: whether
  work was found, the table, the cursor, the ids deleted. The groups are independent; they are
  processed here in the order of the sorted listing.\<close>

definition run_one_cycle :: "crypto \<Rightarrow> time_lib \<Rightarrow> drive_env \<Rightarrow> bytes \<Rightarrow> nat \<Rightarrow> int
    \<Rightarrow> (string, 'e) result \<Rightarrow> (string option \<Rightarrow> (drive_file list, drive_api_error) result)
    \<Rightarrow> session_table \<Rightarrow> string option
    \<Rightarrow> bool \<times> session_table \<times> string option \<times> string list" where
  "run_one_cycle C T env secret now call_start token listing sessions cursor =
     (case token of
        Inl _ \<Rightarrow> (False, sessions, cursor, [])
      | Inr _ \<Rightarrow>
          (let raw = (case listing cursor of Inr files \<Rightarrow> files | Inl _ \<Rightarrow> []);
               cursor' = advance_modified_cursor T raw cursor call_start;
               entries = c2r_listing raw in
           if entries = [] then (False, sessions, cursor', [])
           else (let (sessions', dels) = process_groups C env secret now entries
                       (remdups (map (\<lambda>e. fn_sid (snd e)) entries)) sessions
                 in (True, sessions', cursor', dels))))"

section \<open>Only genuine frames are delivered\<close>

text \<open>
  What authenticated encryption promises about a folder: a body it serves opens under the session's
  key, at a session and number, only if it is the one the client sealed there (\<open>batches\<close>, the
  client's uploads). Everything else about the folder is unconstrained: files may be missing, repeated,
  renamed, reordered or made up.
\<close>

definition unforged :: "crypto \<Rightarrow> bytes \<Rightarrow> session_id \<Rightarrow> batch list \<Rightarrow> drive_env \<Rightarrow> bool" where
  "unforged C k sid batches env \<longleftrightarrow>
     (\<forall>i limit body q m. env_download env i limit = Inr body \<longrightarrow>
        open_sealed C k sid q (drop (if q = 0 then HELLO_BODY_LEN else 0) body) = Inr m \<longrightarrow>
        (\<exists>b \<in> set batches. q = first_seq b \<and> m = encode_batch b))"

text \<open>A body kept from the bootstrap was served by the same folder.\<close>

definition served :: "drive_env \<Rightarrow> bytes option \<Rightarrow> bool" where
  "served env cached \<longleftrightarrow>
     (\<forall>body. cached = Some body \<longrightarrow> (\<exists>i limit. env_download env i limit = Inr body))"

lemma served_None [simp]: "served env None"
  by (simp add: served_def)

definition batches_of :: "wire_frame list \<Rightarrow> batch list \<Rightarrow> bool" where
  "batches_of fs batches \<longleftrightarrow> concat (map b_frames batches) = fs \<and> list_all wf_batch batches"

lemma batches_of_genuine:
  assumes "batches_of fs batches" "wf_stream sid fs" "b \<in> set batches"
  shows "list_all (genuine fs) (b_frames b)"
proof -
  have "set (b_frames b) \<subseteq> set fs" using assms(1,3) by (auto simp: batches_of_def)
  then show ?thesis using wf_stream_genuine [OF assms(2)] by (auto simp: list_all_iff)
qed

definition opens_served :: "crypto \<Rightarrow> drive_env \<Rightarrow> bytes \<Rightarrow> drive_filename \<Rightarrow> batch \<Rightarrow> bool" where
  "opens_served C env k parsed b \<longleftrightarrow>
     (\<exists>i limit body. env_download env i limit = Inr body \<and>
        open_batch C k parsed (drop (if fn_seq parsed = 0 then HELLO_BODY_LEN else 0) body) = Some b)"

lemma open_batch_genuine:
  assumes "unforged C k sid batches env" "batches_of fs batches" "wf_stream sid fs"
    "fn_sid parsed = sid" "opens_served C env k parsed b"
  shows "list_all (genuine fs) (b_frames b)"
proof -
  from assms(5) obtain i limit body where body: "env_download env i limit = Inr body"
    "open_batch C k parsed (drop (if fn_seq parsed = 0 then HELLO_BODY_LEN else 0) body) = Some b"
    by (auto simp: opens_served_def)
  then obtain m where m: "open_sealed C k sid (fn_seq parsed)
      (drop (if fn_seq parsed = 0 then HELLO_BODY_LEN else 0) body) = Inr m" "decode_batch m = Inr b"
    using assms(4) by (auto simp: open_batch_def split: sum.splits if_splits)
  with assms(1) body(1) obtain b' where b': "b' \<in> set batches" "m = encode_batch b'"
    unfolding unforged_def by blast
  with assms(2) have "decode_batch m = Inr b'"
    by (auto simp: batches_of_def list_all_iff decode_encode_batch)
  with m b' batches_of_genuine [OF assms(2,3)] show ?thesis by simp
qed

lemma prepare_frame_batch_Some:
  assumes "prepare_frame_batch C env keys e c = (Inr (Some p), dels)" "served env c"
  shows "pb_file p = fst e \<and> pb_parsed p = snd e \<and> opens_served C env (k_c2r keys) (snd e) (pb_batch p)"
proof -
  obtain fl parsed where e: "e = (fl, parsed)" by (cases e)
  let ?n = "if fn_seq parsed = 0 then HELLO_BODY_LEN else 0"
  let ?m = "saturating_add (word_of_nat MAX_SEALED_FRAME_BODY_BYTES) ?n"
  from assms(1) obtain body where body:
    "(case c of Some body \<Rightarrow> Inr body | None \<Rightarrow> env_download env (df_id fl) ?m) = Inr body"
    "open_batch C (k_c2r keys) parsed (drop ?n body) = Some (pb_batch p)"
    "pb_file p = fl" "pb_parsed p = parsed"
    by (auto simp: prepare_frame_batch_def e Let_def simp del: if_split
        split: if_split_asm option.splits sum.splits drive_api_error.splits)
  have "\<exists>i limit. env_download env i limit = Inr body"
    using body(1) assms(2) by (cases c) (auto simp: served_def)
  with body(2) have "opens_served C env (k_c2r keys) parsed (pb_batch p)"
    unfolding opens_served_def by blast
  with body(3,4) e show ?thesis by simp
qed

lemma with_cached_served:
  "(e, c) \<in> set (with_cached cached es) \<Longrightarrow> served env cached \<Longrightarrow> e \<in> set es \<and> served env c"
proof (induction es arbitrary: cached)
  case Nil
  then show ?case by simp
next
  case (Cons x es)
  have "e \<in> set es \<and> served env c" if "(e, c) \<in> set (with_cached d es)" "served env d" for d
    using Cons.IH that by blast
  from this [of None] this [of cached] Cons.prems show ?case
    by (cases "fn_seq (snd x) = 0") auto
qed

lemma prefetch_opened:
  assumes "p \<in> set (fst (prefetch C env keys cached es))" "served env cached"
  shows "(pb_file p, pb_parsed p) \<in> set es \<and> opens_served C env (k_c2r keys) (pb_parsed p) (pb_batch p)"
proof -
  from assms(1) obtain e c where ec: "(e, c) \<in> set (with_cached cached es)"
    "(case fst (prepare_frame_batch C env keys e c) of Inr (Some p) \<Rightarrow> Some p | _ \<Rightarrow> None) = Some p"
    by (auto simp: prefetch_def map_filter_def Let_def split_beta)
  then obtain dels where p: "prepare_frame_batch C env keys e c = (Inr (Some p), dels)"
    by (cases "prepare_frame_batch C env keys e c") (auto split: sum.splits option.splits)
  from with_cached_served [OF ec(1) assms(2)] prepare_frame_batch_Some [OF p] show ?thesis
    by (cases e) auto
qed

lemma process_known_group_delivered:
  assumes "unforged C (k_c2r (sh_keys h)) sid batches env" "batches_of fs batches" "wf_stream sid fs"
    "join_permutes env" "served env cached" "\<And>e. e \<in> set grp \<Longrightarrow> fn_sid (snd e) = sid"
    "delivered relay_inbound fs (sh_replay h) (sh_box h)"
    "process_known_group C env now cached grp h = (h', dels)"
  shows "delivered relay_inbound fs (sh_replay h') (sh_box h') \<and> sh_keys h' = sh_keys h"
proof (cases "next_expected (sh_replay h)")
  case None
  with assms show ?thesis by (auto simp: process_known_group_def)
next
  case (Some expected)
  obtain es d1 where sel: "select_downloads ClientToRelay expected False grp = (es, d1)" by fastforce
  obtain ps d2 where pre: "prefetch C env (sh_keys h) cached es = (ps, d2)" by fastforce
  obtain w box t d3 where del: "deliver_all relay_inbound (env_alive env) (sorted_prepared env ps)
      (sh_replay h) (sh_box h) = (w, box, t, d3)" by (metis prod_cases4)
  have es: "set es \<subseteq> set grp"
    using select_downloads_subset [of ClientToRelay expected False grp] sel by simp
  have "list_all (genuine fs) (b_frames (pb_batch p))" if "p \<in> set (sorted_prepared env ps)" for p
  proof -
    have "p \<in> set ps" using that set_sorted_prepared [OF assms(4)] by simp
    then have "(pb_file p, pb_parsed p) \<in> set es"
      "opens_served C env (k_c2r (sh_keys h)) (pb_parsed p) (pb_batch p)"
      using prefetch_opened [of p C env "sh_keys h" cached es] pre assms(5) by simp_all
    with es assms(6) open_batch_genuine [OF assms(1,2,3)] show ?thesis by fastforce
  qed
  from deliver_all_delivered [OF this assms(7) del]
  have "delivered relay_inbound fs w box" by simp
  moreover have "sh_replay h' = w \<and> sh_box h' = box \<and> sh_keys h' = sh_keys h"
    using assms(8) Some sel pre del by (auto simp: process_known_group_def)
  ultimately show ?thesis by simp
qed

text \<open>The invariant of the table for one session and key.\<close>

definition session_ok :: "bytes \<Rightarrow> session_id \<Rightarrow> wire_frame list \<Rightarrow> session_table \<Rightarrow> bool" where
  "session_ok k sid fs sessions \<longleftrightarrow>
     (\<forall>h. sessions sid = Some h \<longrightarrow> k_c2r (sh_keys h) = k \<longrightarrow>
        delivered relay_inbound fs (sh_replay h) (sh_box h))"

lemma relay_accept_sid: "relay_accept C secret sid hello = Inr keys \<Longrightarrow> k_sid keys = sid"
  by (auto simp: relay_accept_def Let_def split: if_splits sum.splits prod.splits)

lemma bootstrap_table:
  assumes "try_bootstrap_session_from_c2r_0 C env secret now file parsed sessions = (r, sessions', dels)"
  shows "(sessions' = sessions \<or>
    (\<exists>h. sessions' = sessions(fn_sid parsed \<mapsto> h) \<and> sh_replay h = new_window \<and> sh_box h = [])) \<and>
    (\<forall>body. r = Inr (Registered body) \<longrightarrow> served env (Some body))"
  using assms
  by (auto simp: try_bootstrap_session_from_c2r_0_def spawn_session_def Let_def served_def
      dest!: relay_accept_sid split: if_splits option.splits sum.splits drive_api_error.splits)

lemma bootstrap_session_ok:
  assumes "try_bootstrap_session_from_c2r_0 C env secret now file parsed sessions = (r, sessions', dels)"
    "session_ok k sid fs sessions"
  shows "session_ok k sid fs sessions'"
  using bootstrap_table [OF assms(1)] assms(2)
  by (auto simp: session_ok_def delivered_new split: if_splits)

lemma process_frame_group_ok:
  assumes "unforged C k sid batches env" "batches_of fs batches" "wf_stream sid fs"
    "join_permutes env" "\<And>e. e \<in> set grp \<Longrightarrow> fn_sid (snd e) = sid'" "session_ok k sid fs sessions"
    "process_frame_group C env secret now grp sessions = (r, sessions', dels)"
  shows "session_ok k sid fs sessions'"
proof (cases grp)
  case Nil
  with assms(6,7) show ?thesis by (simp add: process_frame_group_def)
next
  case (Cons e0 es)
  obtain fl parsed where e0: "e0 = (fl, parsed)" by (cases e0)
  have sid': "fn_sid parsed = sid'" using assms(5) [of e0] Cons e0 by simp
  have known: "session_ok k sid fs (T(sid' \<mapsto> h'))"
    if ok: "session_ok k sid fs T" and h: "T sid' = Some h"
      and p: "process_known_group C env now c (e0 # es) h = (h', d)" and c: "served env c" for T c h h' d
  proof -
    note p = p [folded Cons]
    have "sh_keys h' = sh_keys h"
      using p by (auto simp: process_known_group_def Let_def split: option.splits prod.splits)
    moreover have "delivered relay_inbound fs (sh_replay h') (sh_box h')"
      if "sid' = sid" "k_c2r (sh_keys h) = k"
      using process_known_group_delivered [OF _ assms(2,3,4) c _ _ p] assms(1,5) that ok h
      by (auto simp: session_ok_def)
    ultimately show ?thesis using ok p by (auto simp: session_ok_def split: if_splits)
  qed
  show ?thesis
  proof (cases "sessions sid' = None \<and> fn_seq parsed = 0")
    case True
    obtain r1 T d where b:
      "try_bootstrap_session_from_c2r_0 C env secret now fl parsed sessions = (r1, T, d)"
      by (metis prod_cases3)
    have "session_ok k sid fs T" using bootstrap_session_ok [OF b assms(6)] .
    moreover have "served env (Some body)" if "r1 = Inr (Registered body)" for body
      using bootstrap_table [OF b] that by blast
    ultimately show ?thesis
      using True b assms(7)
      by (auto intro: known [unfolded e0] simp: process_frame_group_def Cons e0 sid' Let_def
          split: sum.splits bootstrap_outcome.splits option.splits prod.splits)
  next
    case False
    with assms(6,7) show ?thesis
      by (auto intro: known [unfolded e0] simp: process_frame_group_def Cons e0 sid' Let_def split: if_splits option.splits prod.splits)
  qed
qed

lemma process_groups_ok:
  assumes "unforged C k sid batches env" "batches_of fs batches" "wf_stream sid fs" "join_permutes env"
    "session_ok k sid fs sessions" "process_groups C env secret now entries sids sessions = (sessions', dels)"
  shows "session_ok k sid fs sessions'"
  using assms(5,6)
proof (induction sids arbitrary: sessions dels)
  case Nil
  then show ?case by simp
next
  case (Cons s sids)
  obtain r T d where g: "process_frame_group C env secret now (group_of s entries) sessions = (r, T, d)"
    by (metis prod_cases3)
  have "session_ok k sid fs T"
    by (rule process_frame_group_ok [OF assms(1-4) _ Cons.prems(1) g]) (simp add: group_of_def)
  with Cons g show ?case by (auto split: prod.splits)
qed

text \<open>The relay's life: poll cycles against folders of which \<open>P\<close> holds, and evictions by the
  reaper.\<close>

inductive relay_exec :: "(drive_env \<Rightarrow> bool) \<Rightarrow> crypto \<Rightarrow> time_lib \<Rightarrow> bytes \<Rightarrow> session_table
    \<Rightarrow> string option \<Rightarrow> bool"
  for P C T secret where
  relay_init: "relay_exec P C T secret (\<lambda>_. None) None"
| relay_cycle: "relay_exec P C T secret sessions cursor \<Longrightarrow> P env \<Longrightarrow> join_permutes env \<Longrightarrow>
     run_one_cycle C T env secret now call_start (token :: (string, string) result) listing
       sessions cursor = (found, sessions', cursor', dels) \<Longrightarrow>
     relay_exec P C T secret sessions' cursor'"
| relay_evict: "relay_exec P C T secret sessions cursor \<Longrightarrow> sessions' \<subseteq>\<^sub>m sessions \<Longrightarrow>
     relay_exec P C T secret sessions' cursor"

lemma run_one_cycle_ok:
  assumes "unforged C k sid batches env" "batches_of fs batches" "wf_stream sid fs" "join_permutes env"
    "session_ok k sid fs sessions"
    "run_one_cycle C T env secret now call_start token listing sessions cursor
       = (found, sessions', cursor', dels)"
  shows "session_ok k sid fs sessions'"
  using assms(5,6) process_groups_ok [OF assms(1-5)]
  by (auto simp: run_one_cycle_def Let_def split: sum.splits if_splits prod.splits)

lemma relay_exec_ok:
  assumes "relay_exec (unforged C k sid batches) C T secret sessions cursor" "batches_of fs batches"
    "wf_stream sid fs"
  shows "session_ok k sid fs sessions"
  using assms(1)
proof (induction rule: relay_exec.induct)
  case relay_init
  then show ?case by (simp add: session_ok_def)
next
  case (relay_cycle sessions cursor env now call_start token listing found sessions' cursor' dels)
  then show ?case using run_one_cycle_ok [OF _ assms(2,3)] by blast
next
  case (relay_evict sessions cursor sessions')
  then show ?case by (force simp: session_ok_def map_le_def dom_def)
qed

section \<open>Everything visible is delivered\<close>

text \<open>The body of the file a client uploads for a batch: the first one carries the Hello unsealed.\<close>

definition c2r_body :: "crypto \<Rightarrow> session_keys \<Rightarrow> hello_body \<Rightarrow> batch \<Rightarrow> bytes" where
  "c2r_body C keys hello b =
     (if first_seq b = 0 then encode_hello hello else [])
       @ seal C (k_c2r keys) (k_sid keys) (first_seq b) (encode_batch b)"

text \<open>A listed file that is the upload of a batch, and is served completely.\<close>

definition holds_batch :: "crypto \<Rightarrow> drive_env \<Rightarrow> session_keys \<Rightarrow> hello_body \<Rightarrow> listed \<Rightarrow> batch \<Rightarrow> bool" where
  "holds_batch C env keys hello e b \<longleftrightarrow>
     snd e = \<lparr>fn_kind = FnFrame ClientToRelay, fn_sid = k_sid keys, fn_seq = first_seq b\<rparr> \<and>
     (case df_size (fst e) of
        Some n \<Rightarrow> unat n = length (c2r_body C keys hello b)
      | None \<Rightarrow> True) \<and>
     (\<forall>limit. length (c2r_body C keys hello b) \<le> unat limit \<longrightarrow>
        env_download env (df_id (fst e)) limit = Inr (c2r_body C keys hello b))"

lemma unat_limits [simp]:
  "unat (saturating_add (word_of_nat MAX_SEALED_FRAME_BODY_BYTES) 64) = MAX_SEALED_FRAME_BODY_BYTES + 64"
  "unat (saturating_add (word_of_nat MAX_SEALED_FRAME_BODY_BYTES) 0) = MAX_SEALED_FRAME_BODY_BYTES"
  "unat max_first_body = MAX_SEALED_FRAME_BODY_BYTES + 64"
  by (simp_all add: max_first_body_def unat_saturating_add MAX_SEALED_FRAME_BODY_BYTES_def
      HEADER_LEN_def AEAD_TAG_LEN_def HELLO_BODY_LEN_def)

lemma length_c2r_body:
  assumes "aead_tag16 C" "wf_hello hello"
  shows "length (c2r_body C keys hello b) = (if first_seq b = 0 then 64 else 0) + sealed_size b"
  using assms length_encode_hello [of hello]
  by (simp add: c2r_body_def aead_tag16_def seal_def sealed_size_def AEAD_TAG_LEN_def HELLO_BODY_LEN_def)

lemma open_batch_sealed:
  assumes "aead_correct C" "wf_batch b" "fn_seq parsed = first_seq b"
  shows "open_batch C k parsed (seal C k (fn_sid parsed) (first_seq b) (encode_batch b)) = Some b"
  using assms by (simp add: open_batch_def open_seal decode_encode_batch wf_batch_def)

lemma prepare_holds:
  assumes "aead_correct C" "aead_tag16 C" "wf_hello hello" "batch_ok b"
    "holds_batch C env keys hello e b" "cached = None \<or> cached = Some (c2r_body C keys hello b)"
  shows "prepare_frame_batch C env keys e cached =
    (Inr (Some (prepared e b)), [])"
proof -
  obtain fl parsed where e: "e = (fl, parsed)" by (cases e)
  let ?n = "if first_seq b = 0 then 64 else 0 :: nat"
  let ?body = "c2r_body C keys hello b"
  let ?m = "saturating_add (word_of_nat MAX_SEALED_FRAME_BODY_BYTES) ?n"
  have len: "length ?body = ?n + sealed_size b" by (rule length_c2r_body [OF assms(2,3)])
  have le: "length ?body \<le> unat ?m"
    using assms(4) by (simp add: len batch_ok_def)
  have parsed: "fn_seq parsed = first_seq b" "fn_sid parsed = k_sid keys"
    using assms(5) e by (simp_all add: holds_batch_def)
  have get: "(case cached of Some body \<Rightarrow> Inr body | None \<Rightarrow> env_download env (df_id fl) ?m) = Inr ?body"
    using assms(5,6) e le by (auto simp: holds_batch_def)
  have small: "\<not> (case df_size fl of Some sz \<Rightarrow> ?m < sz | None \<Rightarrow> False)"
    using assms(5) e le by (auto simp: holds_batch_def word_less_nat_alt split: option.splits)
  have "drop ?n ?body = seal C (k_c2r keys) (k_sid keys) (first_seq b) (encode_batch b)"
    using length_encode_hello [OF assms(3)] by (simp add: c2r_body_def HELLO_BODY_LEN_def)
  moreover have "wf_batch b" using assms(4) by (simp add: batch_ok_def)
  ultimately have opened: "open_batch C (k_c2r keys) parsed (drop ?n ?body) = Some b"
    using open_batch_sealed [OF assms(1), of b parsed "k_c2r keys"] parsed by simp
  have "(if fn_seq parsed = 0 then HELLO_BODY_LEN else 0) = ?n"
    using parsed by (simp add: HELLO_BODY_LEN_def)
  with get small opened len show ?thesis
    by (simp only: prepare_frame_batch_def e Let_def prod.case fst_conv snd_conv if_False sum.case) simp
qed

lemma prefetch_holds:
  assumes "aead_correct C" "aead_tag16 C" "wf_hello hello" "list_all batch_ok bs"
    "list_all2 (holds_batch C env keys hello) es bs"
    "cached = None \<or> bs \<noteq> [] \<and> first_seq (hd bs) = 0 \<and> cached = Some (c2r_body C keys hello (hd bs))"
  shows "prefetch C env keys cached es =
    (map2 prepared es bs, [])"
  using assms(5,4,6)
proof (induction es bs arbitrary: cached rule: list_all2_induct)
  case Nil
  then show ?case by (simp add: prefetch_def map_filter_simps)
next
  case (Cons e es b bs)
    have q: "fn_seq (snd e) = first_seq b" using Cons.hyps(1) by (simp add: holds_batch_def)
  let ?c = "if first_seq b = 0 then cached else None"
  let ?r = "if first_seq b = 0 then None else cached"
  have p: "prepare_frame_batch C env keys e ?c = (Inr (Some (prepared e b)), [])"
    using Cons.prems by (intro prepare_holds [OF assms(1-3) _ Cons.hyps(1)]) auto
  have "?r = None" using Cons.prems(2) by auto
  then have r: "prefetch C env keys ?r es = (map2 prepared es bs, [])"
    using Cons.prems(1) by (intro Cons.IH) auto
  have "with_cached cached (e # es) = (e, ?c) # with_cached ?r es" using q by simp
  then show ?case using p r by (simp add: prefetch_def Let_def map_filter_simps split_beta)
qed

lemma holds_names:
  assumes "list_all2 (holds_batch C env keys hello) es bs"
  shows "list_all2 (names_batch ClientToRelay (k_sid keys)) es bs"
  using assms by (rule list_all2_mono) (auto simp: holds_batch_def names_batch_def)

lemma known_group_complete:
  assumes crypto: "aead_correct C" "aead_tag16 C" "wf_hello hello"
    and stream: "wf_stream (k_sid (sh_keys h)) fs" "list_all (\<lambda>f. relay_inbound f \<noteq> None) fs"
    and bs: "bs \<noteq> []" "list_all batch_ok bs"
      "aligned fs (window_next (sh_replay h)) (concat (map b_frames bs))"
    and env: "join_permutes env" "\<forall>k. env_alive env k"
      "list_all2 (holds_batch C env (sh_keys h) hello) news bs"
    and olds: "\<And>e. e \<in> set olds \<Longrightarrow> fn_kind (snd e) = FnFrame ClientToRelay \<and>
        unat (fn_seq (snd e)) < window_next (sh_replay h)"
    and cached: "cached = None \<or> first_seq (hd bs) = 0 \<and> cached = Some (c2r_body C (sh_keys h) hello (hd bs))"
  shows "\<exists>h'. process_known_group C env now cached (olds @ news) h =
      (h', map (\<lambda>e. df_id (fst e)) (olds @ news)) \<and>
    sh_box h' = sh_box h @ map (the \<circ> relay_inbound) (concat (map b_frames bs)) \<and>
    window_next (sh_replay h') = window_next (sh_replay h) + length (concat (map b_frames bs)) \<and>
    sh_keys h' = sh_keys h"
proof -
  have nonempty: "b_frames b \<noteq> []" if "b \<in> set bs" for b
    using bs(2) that by (auto simp: list_all_iff batch_ok_def wf_batch_def)
  note names = holds_names [OF env(3)]
  note sel = group_select [OF stream(1) bs(3,1) nonempty names olds]
  have expected: "next_expected (sh_replay h) = Some (word_of_nat (window_next (sh_replay h)))"
    using sel by (simp add: next_expected_eq)
  have pre: "prefetch C env (sh_keys h) cached news = (map2 prepared news bs, [])"
    by (rule prefetch_holds [OF crypto bs(2) env(3)]) (use cached bs(1) in auto)
  obtain w' where "deliver_all relay_inbound (env_alive env)
      (sorted_prepared env (map2 prepared news bs)) (sh_replay h) (sh_box h) =
      (w', sh_box h @ map (the \<circ> relay_inbound) (concat (map b_frames bs)), True,
        map (\<lambda>e. df_id (fst e)) news)"
    "window_next w' = window_next (sh_replay h) + length (concat (map b_frames bs))"
    using group_deliver [OF stream bs(1) nonempty bs(3) env(1,2) names, of "sh_box h"] by auto
  with expected sel [of olds] pre show ?thesis by (simp add: process_known_group_def)
qed

lemma bootstrap_registers:
  assumes "aead_tag16 C" "wf_hello hello" "batch_ok b" "first_seq b = 0"
    "holds_batch C env keys hello e b" "relay_accept C secret (k_sid keys) hello = Inr keys"
    "sessions (k_sid keys) = None"
  shows "try_bootstrap_session_from_c2r_0 C env secret now (fst e) (snd e) sessions =
    (Inr (Registered (c2r_body C keys hello b)),
     sessions(k_sid keys \<mapsto> \<lparr>sh_keys = keys, sh_replay = new_window, sh_box = [], sh_last_seen = now\<rparr>), [])"
proof -
  let ?body = "c2r_body C keys hello b"
  have len: "length ?body = 64 + sealed_size b" using length_c2r_body [OF assms(1,2)] assms(4) by simp
  then have le: "64 \<le> length ?body" "length ?body \<le> unat max_first_body"
    using assms(3) by (simp_all add: batch_ok_def)
  have get: "env_download env (df_id (fst e)) max_first_body = Inr ?body"
    using assms(5) le by (simp add: holds_batch_def)
  have sz: "\<not> (case df_size (fst e) of
      Some sz \<Rightarrow> sz < word_of_nat HELLO_BODY_LEN \<or> sz > max_first_body | None \<Rightarrow> False)"
    using assms(5) le
    by (auto simp: holds_batch_def word_less_nat_alt HELLO_BODY_LEN_def split: option.splits)
  have "take HELLO_BODY_LEN ?body = encode_hello hello"
    using length_encode_hello [OF assms(2)] assms(4) by (simp add: c2r_body_def)
  then have hello: "decode_hello (take HELLO_BODY_LEN ?body) = Inr hello"
    by (simp add: decode_encode_hello assms(2))
  have "fn_sid (snd e) = k_sid keys" using assms(5) by (simp add: holds_batch_def)
  with get sz hello le assms(6,7) show ?thesis
    by (simp add: try_bootstrap_session_from_c2r_0_def spawn_session_def HELLO_BODY_LEN_def Let_def)
qed

lemma batches_aligned: "batches_of fs batches \<Longrightarrow> aligned fs 0 (concat (map b_frames batches))"
  by (simp add: batches_of_def aligned_def)

lemma fresh_group_complete:
  assumes crypto: "aead_correct C" "aead_tag16 C" "wf_hello hello"
      "relay_accept C secret (k_sid keys) hello = Inr keys"
    and stream: "wf_stream (k_sid keys) fs" "list_all (\<lambda>f. relay_inbound f \<noteq> None) fs"
    and bs: "batches \<noteq> []" "list_all batch_ok batches" "batches_of fs batches"
    and env: "join_permutes env" "\<forall>k. env_alive env k" "list_all2 (holds_batch C env keys hello) es batches"
    and absent: "sessions (k_sid keys) = None"
  shows "\<exists>h. process_frame_group C env secret now es sessions =
      (Inr (), sessions(k_sid keys \<mapsto> h), map (\<lambda>e. df_id (fst e)) es) \<and>
    sh_box h = map (the \<circ> relay_inbound) fs \<and> sh_keys h = keys"
proof -
  obtain b bs' where b: "batches = b # bs'" using bs(1) by (cases batches) auto
  obtain e es' where e: "es = e # es'" "holds_batch C env keys hello e b"
    using env(3) b by (auto simp: list_all2_Cons2)
  have nonempty: "b_frames x \<noteq> []" if "x \<in> set batches" for x
    using bs(2) that by (auto simp: list_all_iff batch_ok_def wf_batch_def)
  have zero: "first_seq b = 0"
    using first_seqs [OF stream(1) batches_aligned [OF bs(3)] nonempty] b by (simp add: unat_eq_0)
  have sid: "fn_sid (snd e) = k_sid keys" "fn_seq (snd e) = 0"
    using e(2) zero by (simp_all add: holds_batch_def)
  let ?h = "\<lparr>sh_keys = keys, sh_replay = new_window, sh_box = [], sh_last_seen = now\<rparr>"
  have boot: "try_bootstrap_session_from_c2r_0 C env secret now (fst e) (snd e) sessions =
      (Inr (Registered (c2r_body C keys hello b)), sessions(k_sid keys \<mapsto> ?h), [])"
    by (rule bootstrap_registers) (use crypto bs(2) b zero e(2) absent in simp_all)
  have next0: "window_next new_window = 0" by (simp add: new_window_def window_next_def)
  have "\<exists>h'. process_known_group C env now (Some (c2r_body C keys hello b)) ([] @ es) ?h =
      (h', map (\<lambda>e. df_id (fst e)) ([] @ es)) \<and>
    sh_box h' = sh_box ?h @ map (the \<circ> relay_inbound) (concat (map b_frames batches)) \<and>
    window_next (sh_replay h') = window_next (sh_replay ?h) + length (concat (map b_frames batches)) \<and>
    sh_keys h' = sh_keys ?h"
    by (rule known_group_complete [where fs = fs])
      (use crypto stream bs env zero b next0 batches_aligned [OF bs(3)] in simp_all)
  then show ?thesis
    using boot sid absent bs(3)
    by (cases e) (auto simp: process_frame_group_def e(1) Let_def batches_of_def)
qed

section \<open>Groups are independent\<close>

lemma process_frame_group_other:
  assumes "\<And>e. e \<in> set grp \<Longrightarrow> fn_sid (snd e) = s" "sid \<noteq> s"
  shows "fst (snd (process_frame_group C env secret now grp T)) sid = T sid"
proof (cases grp)
  case Nil
  then show ?thesis by (simp add: process_frame_group_def)
next
  case (Cons e0 es)
  obtain fl parsed where e0: "e0 = (fl, parsed)" by (cases e0)
  have s: "fn_sid parsed = s" using assms(1) [of e0] Cons e0 by simp
  obtain r1 T1 d where b: "try_bootstrap_session_from_c2r_0 C env secret now fl parsed T = (r1, T1, d)"
    by (metis prod_cases3)
  have "T1 sid = T sid" using bootstrap_table [OF b] assms(2) s by auto
  with b assms(2) show ?thesis
    by (auto simp: process_frame_group_def Cons e0 s Let_def
        split: sum.splits bootstrap_outcome.splits option.splits prod.splits)
qed

lemma process_group_of_other [simp]:
  "sid \<noteq> s \<Longrightarrow> fst (snd (process_frame_group C env secret now (group_of s entries) T)) sid = T sid"
  by (rule process_frame_group_other [of _ s]) (simp_all add: group_of_def)

lemma process_groups_entry:
  assumes "distinct sids" "sid \<in> set sids"
  shows "\<exists>T'. T' sid = T sid \<and> fst (process_groups C env secret now entries sids T) sid =
    fst (snd (process_frame_group C env secret now (group_of sid entries) T')) sid"
  using assms
proof (induction sids arbitrary: T)
  case Nil
  then show ?case by simp
next
  case (Cons s sids)
  let ?g = "process_frame_group C env secret now (group_of s entries) T"
  have unfold: "fst (process_groups C env secret now entries (s # sids) T) =
      fst (process_groups C env secret now entries sids (fst (snd ?g)))"
    by (simp add: split_beta)
  show ?case
  proof (cases "s = sid")
    case True
    have "fst (process_groups C env secret now entries ss T') sid = T' sid" if "sid \<notin> set ss" for ss T'
      using that by (induction ss arbitrary: T') (auto simp: split_beta)
    with True Cons.prems(1) unfold show ?thesis by auto
  next
    case False
    then have "fst (snd ?g) sid = T sid" by simp
    with Cons.IH [of "fst (snd ?g)"] Cons.prems False unfold show ?thesis by auto
  qed
qed

lemma group_of_c2r_listing:
  assumes "mset (filter (\<lambda>e. fn_sid (snd e) = sid \<and> fn_kind (snd e) = FnFrame ClientToRelay)
      (parsed_listing raw)) = mset es"
    "sorted_wrt (<) (map (\<lambda>e. fn_seq (snd e)) es)" "\<And>e. e \<in> set es \<Longrightarrow> fn_sid (snd e) = sid"
  shows "group_of sid (c2r_listing raw) = es"
proof -
  have inj: "inj_on (\<lambda>e. fn_seq (snd e)) (set es)" and srt: "sorted (map (\<lambda>e. fn_seq (snd e)) es)"
    using assms(2) by (simp_all add: strict_sorted_iff distinct_map)
  have inj_key: "inj_on listing_key (set es)"
    using inj by (auto simp: inj_on_def listing_key_def)
  have "map listing_key es = map (Pair sid) (map (\<lambda>e. fn_seq (snd e)) es)"
    using assms(3) by (simp add: listing_key_def)
  moreover have "sorted (map (Pair sid) qs)" if "sorted qs" for qs :: "u64 list"
    using that by (induction qs) (auto simp: less_eq_prod_def)
  ultimately have "sorted (map listing_key es)" using srt by (simp only:)
  moreover have "group_of sid (c2r_listing raw) = sort_key listing_key
      (filter (\<lambda>e. fn_sid (snd e) = sid \<and> fn_kind (snd e) = FnFrame ClientToRelay) (parsed_listing raw))"
    by (simp add: group_of_def c2r_listing_def filter_sort conj_commute)
  moreover have "set (filter (\<lambda>e. fn_sid (snd e) = sid \<and> fn_kind (snd e) = FnFrame ClientToRelay)
      (parsed_listing raw)) = set es" by (rule mset_eq_setD [OF assms(1)])
  ultimately show ?thesis
    using assms(1) inj_key by (simp only:) (rule sort_key_inj_key_eq, simp_all)
qed

lemma cycle_complete:
  assumes crypto: "aead_correct C" "aead_tag16 C" "wf_hello hello"
      "relay_accept C secret (k_sid keys) hello = Inr keys"
    and stream: "wf_stream (k_sid keys) fs" "list_all (\<lambda>f. relay_inbound f \<noteq> None) fs"
    and bs: "batches \<noteq> []" "list_all batch_ok batches" "batches_of fs batches"
    and env: "join_permutes env" "\<forall>k. env_alive env k" "list_all2 (holds_batch C env keys hello) es batches"
    and listing: "listing cursor = Inr raw"
      "mset (filter (\<lambda>e. fn_sid (snd e) = k_sid keys \<and> fn_kind (snd e) = FnFrame ClientToRelay)
        (parsed_listing raw)) = mset es"
    and absent: "sessions (k_sid keys) = None"
  shows "\<exists>sessions' cursor' dels h.
    run_one_cycle C T env secret now call_start (Inr token :: (string, string) result) listing sessions cursor
      = (True, sessions', cursor', dels) \<and>
    sessions' (k_sid keys) = Some h \<and> sh_box h = map (the \<circ> relay_inbound) fs \<and> sh_keys h = keys"
proof -
  let ?sid = "k_sid keys" and ?entries = "c2r_listing raw"
  have nonempty: "b_frames x \<noteq> []" if "x \<in> set batches" for x
    using bs(2) that by (auto simp: list_all_iff batch_ok_def wf_batch_def)
  note names = holds_names [OF env(3)]
  from map2_prepared(4) [OF names] have grp: "group_of ?sid ?entries = es"
    using first_seqs [OF stream(1) batches_aligned [OF bs(3)] nonempty] names_entry [OF names]
    by (intro group_of_c2r_listing [OF listing(2)]) simp_all
  have "es \<noteq> []" using env(3) bs(1) by auto
  then have "hd es \<in> set (group_of ?sid ?entries)" using grp by simp
  then have mem: "?sid \<in> (\<lambda>e. fn_sid (snd e)) ` set ?entries"
    by (auto simp: group_of_def intro!: image_eqI [of _ _ "hd es"])
  then have ne: "?entries \<noteq> []" by auto
  let ?sids = "remdups (map (\<lambda>e. fn_sid (snd e)) ?entries)"
  obtain T' where T': "T' ?sid = None"
    "fst (process_groups C env secret now ?entries ?sids sessions) ?sid =
      fst (snd (process_frame_group C env secret now es T')) ?sid"
    using process_groups_entry [of ?sids ?sid sessions C env secret now ?entries] mem grp absent by auto
  obtain h where "fst (snd (process_frame_group C env secret now es T')) ?sid = Some h"
    "sh_box h = map (the \<circ> relay_inbound) fs" "sh_keys h = keys"
    using fresh_group_complete [where sessions = T' and now = now, OF crypto stream bs env T'(1)] by auto
  with T'(2) show ?thesis
    by (auto simp: run_one_cycle_def listing(1) Let_def ne split_beta)
qed

text \<open>Whatever the folder shows over any number of poll cycles, with evictions in between, the
  events a session's driver is given are, in order, the images of a prefix of the frames its client
  sent: nothing forged, skipped, repeated or reordered, as long as the folder cannot make bodies that
  open under the session's key.\<close>

theorem relay_delivers_prefix:
  assumes "relay_exec (unforged C (k_c2r (sh_keys h)) sid batches) C T secret sessions cursor"
    "sessions sid = Some h" "batches_of fs batches" "wf_stream sid fs"
  shows "length (sh_box h) \<le> length fs \<and>
    map Some (sh_box h) = map relay_inbound (take (length (sh_box h)) fs)"
proof -
  have d: "delivered relay_inbound fs (sh_replay h) (sh_box h)"
    using relay_exec_ok [OF assms(1,3,4)] assms(2) by (simp add: session_ok_def)
  from d delivered_length [OF d] show ?thesis by (simp add: delivered_def)
qed

text \<open>When the listing of one cycle shows all files of a session the relay does not know yet (in
  any order, among any other files) and serves them, that cycle registers the session and gives its
  driver every frame the client sent, in order.\<close>

theorem relay_delivers_all:
  assumes "aead_correct C" "aead_tag16 C" "wf_hello hello"
      "relay_accept C secret (k_sid keys) hello = Inr keys"
    and "wf_stream (k_sid keys) fs" "list_all (\<lambda>f. relay_inbound f \<noteq> None) fs"
    and "batches \<noteq> []" "list_all batch_ok batches" "batches_of fs batches"
    and "join_permutes env" "\<forall>k. env_alive env k" "list_all2 (holds_batch C env keys hello) es batches"
    and "listing cursor = Inr raw"
      "mset (filter (\<lambda>e. fn_sid (snd e) = k_sid keys \<and> fn_kind (snd e) = FnFrame ClientToRelay)
        (parsed_listing raw)) = mset es"
    and "sessions (k_sid keys) = None"
  shows "\<exists>sessions' cursor' dels h.
    run_one_cycle C T env secret now call_start (Inr token :: (string, string) result) listing sessions cursor
      = (True, sessions', cursor', dels) \<and>
    sessions' (k_sid keys) = Some h \<and> sh_box h = map (the \<circ> relay_inbound) fs \<and> sh_keys h = keys"
  using assms by (rule cycle_complete)

section \<open>A session in miniature\<close>

text \<open>A client that connects to port 80 of \<open>a\<close> and sends one byte, in two files listed newest
  first.\<close>

abbreviation mini_sid :: session_id where "mini_sid \<equiv> replicate 16 7"

definition mini_connect :: wire_frame where
  "mini_connect = r2c_frame mini_sid KConnect 0 (as_bytes (show_addr ''a'' 80))"

definition mini_data :: wire_frame where "mini_data = r2c_frame mini_sid KData 1 [9]"

definition mini_batches :: "batch list" where
  "mini_batches = [batch_single mini_connect, batch_single mini_data]"

definition mini_file :: "u64 \<Rightarrow> string \<Rightarrow> drive_file" where
  "mini_file q i =
     \<lparr>df_id = i, df_name = format_filename \<lparr>fn_kind = FnFrame ClientToRelay, fn_sid = mini_sid, fn_seq = q\<rparr>,
      df_modified_time = None, df_size = None\<rparr>"

text \<open>A folder with the files of two batches of the session, under the ids \<open>x\<close> and \<open>y\<close>.\<close>

definition two_env :: "batch \<Rightarrow> batch \<Rightarrow> drive_env" where
  "two_env b0 b1 =
     \<lparr>env_download = (\<lambda>i _. Inr (c2r_body toy_crypto toy_keys toy_hello (if i = ''x'' then b0 else b1))),
      env_join = rev, env_alive = (\<lambda>_. True)\<rparr>"

abbreviation mini_env :: drive_env where
  "mini_env \<equiv> two_env (batch_single mini_connect) (batch_single mini_data)"

definition mini_entry :: "u64 \<Rightarrow> string \<Rightarrow> listed" where
  "mini_entry q i = (mini_file q i, \<lparr>fn_kind = FnFrame ClientToRelay, fn_sid = mini_sid, fn_seq = q\<rparr>)"

lemma mini_keys: "k_sid toy_keys = mini_sid"
  by (simp add: toy_keys_def split: prod.split)

lemma mini_accept: "relay_accept toy_crypto toy_secret (k_sid toy_keys) toy_hello = Inr toy_keys"
  using relay_accept_agrees [OF toy_crypto_ok(1) toy_initiate] by (simp add: mini_keys)

lemma mini_addr_ascii: "list_all (\<lambda>b. b < 0x80) (as_bytes (show_addr ''a'' 80))"
  by (simp add: show_addr_def as_bytes_def byte_of_char_def dec_show.simps digit_char_def)

lemma mini_inbound:
  "relay_inbound mini_connect = Some (InConnect ''a'' 80)" "relay_inbound mini_data = Some (InData [9])"
  using utf8_valid_ascii [OF mini_addr_ascii] parse_show_addr [of "''a''" 80]
  by (simp_all add: relay_inbound_def frame_to_inbound_def mini_connect_def mini_data_def r2c_frame_def
      ascii_graphic_def)

lemma mini_stream: "wf_stream mini_sid [mini_connect, mini_data]"
  by (rule wf_stream_frames_from) (simp_all add: mini_connect_def mini_data_def r2c_frame_def)

lemma mini_ok: "list_all batch_ok mini_batches"
proof -
  have "length (show_addr ''a'' 80) = 4"
    by (simp add: show_addr_def dec_show.simps)
  then have "batch_ok (batch_single f)" if "f = mini_connect \<or> f = mini_data" for f
    unfolding batch_single_def using that
    by (intro batch_ok_intro)
      (auto simp: mini_connect_def mini_data_def r2c_frame_def wf_frame_def wf_sid_def)
  then show ?thesis by (simp add: mini_batches_def)
qed

lemma mini_batches_of: "batches_of [mini_connect, mini_data] mini_batches"
  using mini_ok by (simp add: batches_of_def mini_batches_def batch_single_def batch_ok_def)

lemma two_env_holds:
  assumes "first_seq b0 = 0"
  shows "list_all2 (holds_batch toy_crypto (two_env b0 b1) toy_keys toy_hello)
    [mini_entry 0 ''x'', mini_entry (first_seq b1) ''y''] [b0, b1]"
  using assms by (simp add: holds_batch_def mini_entry_def mini_file_def two_env_def mini_keys)

lemma mini_seqs [simp]:
  "first_seq (batch_single mini_connect) = 0" "first_seq (batch_single mini_data) = 1"
  by (simp_all add: batch_single_def mini_connect_def mini_data_def r2c_frame_def)

lemma mini_holds: "list_all2 (holds_batch toy_crypto mini_env toy_keys toy_hello)
    [mini_entry 0 ''x'', mini_entry 1 ''y''] mini_batches"
  using two_env_holds [of "batch_single mini_connect" "batch_single mini_data"]
  unfolding mini_seqs mini_batches_def by simp

lemma two_env_fair: "join_permutes (two_env b0 b1)" "\<forall>k. env_alive (two_env b0 b1) k"
  by (simp_all add: join_permutes_def two_env_def)

lemma mini_listing: "mset (filter (\<lambda>e. fn_sid (snd e) = k_sid toy_keys \<and>
      fn_kind (snd e) = FnFrame ClientToRelay) (parsed_listing [mini_file q ''y'', mini_file 0 ''x'']))
    = mset [mini_entry 0 ''x'', mini_entry q ''y'']"
  by (simp add: parsed_listing_def map_filter_simps mini_file_def mini_entry_def parse_format_filename
      wf_filename_def wf_sid_def mini_keys)

definition no_time :: time_lib where
  "no_time = \<lparr>t_parse = (\<lambda>_. None), t_format = (\<lambda>_. None)\<rparr>"

abbreviation mini_run :: "bool \<times> session_table \<times> string option \<times> string list" where
  "mini_run \<equiv> run_one_cycle toy_crypto no_time mini_env toy_secret 0 0 (Inr [] :: (string, string) result)
     (\<lambda>_. Inr [mini_file 1 ''y'', mini_file 0 ''x'']) (\<lambda>_. None) None"

lemma mini_conv: "list_all (\<lambda>f. relay_inbound f \<noteq> None) [mini_connect, mini_data]"
  by (simp add: mini_inbound)

theorem relay_delivers_all_witness:
  "\<exists>sessions' cursor' dels h. mini_run = (True, sessions', cursor', dels) \<and>
    sessions' mini_sid = Some h \<and> sh_box h = [InConnect ''a'' 80, InData [9]] \<and> sh_keys h = toy_keys"
  using relay_delivers_all [where sessions = "\<lambda>_. None" and cursor = None and T = no_time and now = 0
      and call_start = 0 and token = "[] :: string" and listing = "\<lambda>_. Inr [mini_file 1 ''y'', mini_file 0 ''x'']",
      OF toy_crypto_ok(2,3) toy_hello_wf mini_accept mini_stream [folded mini_keys] mini_conv _ mini_ok
      mini_batches_of two_env_fair mini_holds refl mini_listing refl]
  by (simp add: mini_inbound mini_keys mini_batches_def)

lemma toy_open:
  assumes "open_sealed toy_crypto k s q ct = Inr m"
  shows "16 \<le> length ct \<and> take (length ct - 16) ct = m \<and>
    take 8 (drop (length ct - 16) ct) = le_bytes 8 (unat q)"
  using assms
  by (auto simp: open_sealed_def toy_tag_def build_nonce_def pad_to_def split: if_splits)

lemma le_bytes8_eq: "le_bytes 8 (unat q) = le_bytes 8 (unat r) \<longleftrightarrow> q = (r :: u64)"
proof -
  have "unat x < 256 ^ 8" for x :: u64 using unat_bound [of x] by simp
  then show ?thesis using le_bytes_inj [of "unat q" 8 "unat r"] by (auto simp: word_unat_eq_iff)
qed

lemma toy_seal_tail:
  "length (seal toy_crypto k s r m) = length m + 16"
  "take (length m) (seal toy_crypto k s r m) = m"
  "take 8 (drop (length m) (seal toy_crypto k s r m)) = le_bytes 8 (unat r)"
  by (simp_all add: seal_def toy_tag_def build_nonce_def pad_to_def)

lemma toy_open_seal:
  assumes "open_sealed toy_crypto k s q (p @ seal toy_crypto k' s' r m) = Inr m'"
  shows "q = r \<and> m' = p @ m"
proof -
  let ?c = "p @ seal toy_crypto k' s' r m"
  have l: "length ?c - 16 = length p + length m" by (simp add: toy_seal_tail)
  from toy_open [OF assms] have "take (length p + length m) ?c = m'"
    "take 8 (drop (length p + length m) ?c) = le_bytes 8 (unat q)"
    unfolding l by simp_all
  then show ?thesis by (simp add: toy_seal_tail le_bytes8_eq)
qed

lemma two_env_unforged:
  assumes "first_seq b0 = 0" "first_seq b1 \<noteq> 0" "length (encode_batch b1) < 64"
  shows "unforged toy_crypto k mini_sid [b0, b1] (two_env b0 b1)"
  unfolding unforged_def
proof (intro allI impI)
  fix i limit body and q :: u64 and m
  let ?n = "if q = 0 then HELLO_BODY_LEN else 0"
  let ?seal = "\<lambda>b. seal toy_crypto (k_c2r toy_keys) mini_sid (first_seq b) (encode_batch b)"
  assume get: "env_download (two_env b0 b1) i limit = Inr body"
    and op: "open_sealed toy_crypto k mini_sid q (drop ?n body) = Inr m"
  show "\<exists>b\<in>set [b0, b1]. q = first_seq b \<and> m = encode_batch b"
  proof (cases "i = ''x''")
    case True
    then have "body = encode_hello toy_hello @ ?seal b0"
      using get assms(1) by (simp add: two_env_def c2r_body_def mini_keys)
    then have "drop ?n body = (if q = 0 then [] else encode_hello toy_hello) @ ?seal b0"
      using length_encode_hello [OF toy_hello_wf] by simp
    with op have "open_sealed toy_crypto k mini_sid q
        ((if q = 0 then [] else encode_hello toy_hello) @ ?seal b0) = Inr m" by (simp only:)
    from toy_open_seal [OF this] assms(1) show ?thesis by auto
  next
    case False
    then have body: "body = ?seal b1" using get assms(2) by (simp add: two_env_def c2r_body_def mini_keys)
    then have "length body < 80" using assms(3) by (simp add: toy_seal_tail)
    with toy_open [OF op] have "q \<noteq> 0" by (auto simp: HELLO_BODY_LEN_def)
    with op body have "open_sealed toy_crypto k mini_sid q ([] @ ?seal b1) = Inr m" by simp
    from toy_open_seal [OF this] show ?thesis by auto
  qed
qed

lemma mini_unforged: "unforged toy_crypto k mini_sid mini_batches mini_env"
proof -
  have "length (encode_batch (batch_single mini_data)) = 40"
    using mini_ok by (simp add: length_encode_batch mini_batches_def batch_ok_def wf_batch_def)
      (simp add: batch_single_def mini_data_def r2c_frame_def)
  then show ?thesis unfolding mini_batches_def by (intro two_env_unforged) simp_all
qed

theorem relay_delivers_prefix_witness:
  "\<exists>(sessions :: session_table) h. sessions mini_sid = Some h \<and> sh_box h = [InConnect ''a'' 80, InData [9]] \<and>
    length (sh_box h) \<le> length [mini_connect, mini_data] \<and>
    map Some (sh_box h) = map relay_inbound (take (length (sh_box h)) [mini_connect, mini_data])"
proof -
  obtain sessions cursor dels h where run: "mini_run = (True, sessions, cursor, dels)"
    and h: "sessions mini_sid = Some h" "sh_box h = map (the \<circ> relay_inbound) [mini_connect, mini_data]"
    using cycle_complete [where sessions = "\<lambda>_. None" and cursor = None and T = no_time and now = 0
      and call_start = 0 and token = "[] :: string" and listing = "\<lambda>_. Inr [mini_file 1 ''y'', mini_file 0 ''x'']",
      OF toy_crypto_ok(2,3) toy_hello_wf mini_accept mini_stream [folded mini_keys] mini_conv _ mini_ok
      mini_batches_of two_env_fair mini_holds refl mini_listing refl]
    by (auto simp: mini_batches_def mini_keys)
  have "relay_exec (unforged toy_crypto (k_c2r (sh_keys h)) mini_sid mini_batches) toy_crypto no_time
      toy_secret sessions cursor"
    using relay_init mini_unforged two_env_fair(1) run by (rule relay_cycle)
  from relay_delivers_prefix [OF this h(1) mini_batches_of mini_stream]
  have r: "length (sh_box h) \<le> length [mini_connect, mini_data] \<and>
    map Some (sh_box h) = map relay_inbound (take (length (sh_box h)) [mini_connect, mini_data])" .
  have b: "sh_box h = [InConnect ''a'' 80, InData [9]]" using h(2) by (simp add: mini_inbound)
  show ?thesis by (rule exI [of _ sessions], rule exI [of _ h], rule conjI [OF h(1) conjI [OF b r]])
qed

section \<open>The cursor and the interval\<close>

text \<open>What the code needs of the \<open>time\<close> crate: an instant that prints is read back.\<close>

definition time_ok :: "time_lib \<Rightarrow> bool" where
  "time_ok T \<longleftrightarrow> (\<forall>t. \<exists>s. t_format T t = Some s \<and> t_parse T s = Some t)"

definition cursor_time :: "time_lib \<Rightarrow> string option \<Rightarrow> int option" where
  "cursor_time T cursor = Option.bind cursor (t_parse T)"

definition cursor_target :: "drive_file list \<Rightarrow> int \<Rightarrow> int" where
  "cursor_target files now =
     (case file_max_time files of Some m \<Rightarrow> max m now | None \<Rightarrow> now) - 8 * 10 ^ 9"

lemma advance_cursor_time:
  assumes "time_ok T"
  shows "cursor_time T (advance_modified_cursor T files cursor now) =
    Some (case cursor_time T cursor of Some c \<Rightarrow> max c (cursor_target files now)
          | None \<Rightarrow> cursor_target files now)"
proof -
  let ?p = "cursor_target files now"
  have p: "(case file_max_time files of Some m \<Rightarrow> if m > now then m else now | None \<Rightarrow> now)
      - MODIFIED_CURSOR_LOOKBACK_SECS * 10 ^ 9 = ?p"
    by (auto simp: cursor_target_def MODIFIED_CURSOR_LOOKBACK_SECS_def split: option.splits)
  obtain s where s: "t_format T ?p = Some s" "t_parse T s = Some ?p"
    using assms by (auto simp: time_ok_def)
  have "advance_modified_cursor T files cursor now =
      (if (case cursor_time T cursor of Some c \<Rightarrow> ?p \<le> c | None \<Rightarrow> False) then cursor else Some s)"
    unfolding advance_modified_cursor_def Let_def p cursor_time_def [symmetric] by (simp add: s)
  then show ?thesis
    using s by (cases "cursor_time T cursor") (auto simp: cursor_time_def max_def)
qed

text \<open>A cycle's cursor is the later of the old one and 8 seconds before the newest of the clock
  and the listed files: it never moves back, and it always leaves at least the last 8 seconds in the
  next listing's window.\<close>

theorem cursor_advances:
  assumes "time_ok T"
  shows "cursor_time T (advance_modified_cursor T files cursor now) =
    Some (case cursor_time T cursor of Some c \<Rightarrow> max c (cursor_target files now)
          | None \<Rightarrow> cursor_target files now)"
  using assms by (rule advance_cursor_time)

text \<open>Instants in unary, to show that such a library exists.\<close>

definition unary_time :: time_lib where
  "unary_time =
     \<lparr>t_parse = (\<lambda>s. case s of [] \<Rightarrow> Some 0
        | c # _ \<Rightarrow> Some (if c = CHR ''p'' then int (length s) else - int (length s))),
      t_format = (\<lambda>t. Some (if 0 \<le> t then replicate (nat t) CHR ''p'' else replicate (nat (- t)) CHR ''m''))\<rparr>"

lemma unary_time_ok: "time_ok unary_time"
proof -
  have p: "t_parse unary_time (replicate n CHR ''p'') = Some (int n)" for n
    by (cases n) (simp_all add: unary_time_def)
  have m: "t_parse unary_time (replicate n CHR ''m'') = Some (- int n)" for n
    by (cases n) (simp_all add: unary_time_def)
  show ?thesis
    unfolding time_ok_def
  proof
    fix t :: int
    show "\<exists>s. t_format unary_time t = Some s \<and> t_parse unary_time s = Some t"
      using p [of "nat t"] m [of "nat (- t)"] by (cases "0 \<le> t") (simp_all add: unary_time_def)
  qed
qed

theorem cursor_advances_witness:
  "cursor_time unary_time (advance_modified_cursor unary_time [] None 0) = Some (- 8 * 10 ^ 9)"
  using cursor_advances [OF unary_time_ok, of "[]" None 0]
  by (simp add: cursor_time_def cursor_target_def file_max_time_def map_filter_simps)

text \<open>A cycle whose list call failed still moves the relay's cursor to 8 seconds before the clock:
  files that became visible during an outage longer than that are not listed again.\<close>

theorem list_failure_moves_cursor:
  assumes "time_ok T" "listing cursor = Inl e"
    "run_one_cycle C T env secret now call_start (Inr token :: (string, string) result) listing sessions cursor
       = (found, sessions', cursor', dels)"
  shows "\<not> found \<and> sessions' = sessions \<and> cursor_time T cursor' =
    Some (case cursor_time T cursor of Some c \<Rightarrow> max c (call_start - 8 * 10 ^ 9)
          | None \<Rightarrow> call_start - 8 * 10 ^ 9)"
proof -
  have "c2r_listing [] = []" by (simp add: c2r_listing_def parsed_listing_def map_filter_simps)
  then have "\<not> found" "sessions' = sessions" "cursor' = advance_modified_cursor T [] cursor call_start"
    using assms(2,3) by (auto simp: run_one_cycle_def)
  moreover have "cursor_target [] call_start = call_start - 8 * 10 ^ 9"
    by (simp add: cursor_target_def file_max_time_def map_filter_simps)
  ultimately show ?thesis using advance_cursor_time [OF assms(1), of "[]" cursor call_start] by (simp only:) simp
qed

theorem list_failure_moves_cursor_witness:
  "\<exists>cursor'. cursor_time unary_time cursor' = Some (10 ^ 10 - 8 * 10 ^ 9) \<and>
    run_one_cycle toy_crypto unary_time mini_env toy_secret 0 (10 ^ 10) (Inr [] :: (string, string) result)
      (\<lambda>_. Inl Transport) (\<lambda>_. None) None = (False, \<lambda>_. None, cursor', [])"
proof -
  let ?r = "run_one_cycle toy_crypto unary_time mini_env toy_secret 0 (10 ^ 10)
    (Inr [] :: (string, string) result) (\<lambda>_. Inl Transport) (\<lambda>_. None) None"
  obtain found sessions' cursor' dels where r: "?r = (found, sessions', cursor', dels)"
    by (metis prod_cases4)
  from list_failure_moves_cursor [OF unary_time_ok _ r]
  have "\<not> found \<and> sessions' = (\<lambda>_. None) \<and> cursor_time unary_time cursor' = Some (10 ^ 10 - 8 * 10 ^ 9)"
    by (simp add: cursor_time_def)
  moreover have "dels = []"
    using r by (auto simp: run_one_cycle_def c2r_listing_def parsed_listing_def map_filter_simps)
  ultimately show ?thesis using r by auto
qed

lemma adapt_interval_idle:
  "adapt_interval b False n False =
     (word_of_nat (min 500 (unat b + 100 * min (unat n + 1) (2 ^ 64 - 1))),
      word_of_nat (min (unat n + 1) (2 ^ 64 - 1)))"
proof -
  let ?s = "saturating_add n 1"
  have s: "unat ?s = min (unat n + 1) (2 ^ 64 - 1)" by (simp add: unat_saturating_add)
  have m: "unat (saturating_mul 100 ?s) = min (100 * unat ?s) (2 ^ 64 - 1)"
    using unat_bound [of ?s] by (auto simp: saturating_mul_def unat_word_ariths)
  let ?x = "saturating_add b (unat (saturating_mul 100 ?s))"
  have "unat ?x = min (unat b + 100 * unat ?s) (2 ^ 64 - 1)"
    unfolding unat_saturating_add m by simp
  then have "unat (min ?x 500) = min 500 (unat b + 100 * unat ?s)"
    by (auto simp: min_def word_le_nat_alt)
  then have "min ?x 500 = word_of_nat (min 500 (unat b + 100 * unat ?s))"
    by (rule subst) simp
  moreover have "?s = word_of_nat (min (unat n + 1) (2 ^ 64 - 1))"
    using s by (rule subst) simp
  ultimately show ?thesis
    unfolding s by (simp add: adapt_interval_def IDLE_BACKOFF_STEP_MS_def MAX_IDLE_INTERVAL_MS_def Let_def)
qed

text \<open>The poll interval is 25 ms after a cycle that found work, the baseline while a session is
  open, and otherwise grows by 100 ms per empty cycle up to 500 ms; the saturating arithmetic never
  wraps, for every baseline and every streak.\<close>

theorem adapt_interval_spec:
  "adapt_interval b found n present =
     (if found then (25, 0) else if present then (b, 0)
      else (word_of_nat (min 500 (unat b + 100 * min (unat n + 1) (2 ^ 64 - 1))),
            word_of_nat (min (unat n + 1) (2 ^ 64 - 1))))"
  using adapt_interval_idle [of b n] by (simp add: adapt_interval_def PIPELINE_INTERVAL_MS_def)

end
