(* ===== verification/Client_Poll.thy ===== *)
theory Client_Poll
  imports Client_Session Relay_Poll
begin

text \<open>
  The client's poller (\<^verbatim>\<open>src/drive_client.rs\<close>): the session table, the adaptive interval and the
  cursor, the processing of one session's files, and a whole poll cycle. It mirrors the relay's, without
  the bootstrap. Shown: whatever the folder shows, what a session's pump receives is a prefix of what
  the relay's driver sent; when the files from the next expected one on are visible, they are all handed
  over; the client's copies of the interval and cursor computations agree with the relay's.
\<close>

section \<open>Interval and cursor\<close>

definition CLIENT_PIPELINE_INTERVAL_MS :: u64 where "CLIENT_PIPELINE_INTERVAL_MS = 25"
definition CLIENT_IDLE_BACKOFF_STEP_MS :: u64 where "CLIENT_IDLE_BACKOFF_STEP_MS = 100"
definition CLIENT_MAX_IDLE_INTERVAL_MS :: u64 where "CLIENT_MAX_IDLE_INTERVAL_MS = 500"
definition CLIENT_MODIFIED_CURSOR_LOOKBACK_SECS :: int where "CLIENT_MODIFIED_CURSOR_LOOKBACK_SECS = 8"

definition client_adapt_interval :: "u64 \<Rightarrow> bool \<Rightarrow> u64 \<Rightarrow> bool \<Rightarrow> u64 \<times> u64" where
  "client_adapt_interval baseline_ms found_work empty_streak sessions_present =
     (if found_work then (CLIENT_PIPELINE_INTERVAL_MS, 0)
      else if sessions_present then (baseline_ms, 0)
      else (let streak = saturating_add empty_streak 1 in
            (min (saturating_add baseline_ms (unat (saturating_mul CLIENT_IDLE_BACKOFF_STEP_MS streak)))
                 CLIENT_MAX_IDLE_INTERVAL_MS, streak)))"

definition client_advance_modified_cursor ::
    "time_lib \<Rightarrow> drive_file list \<Rightarrow> string option \<Rightarrow> int \<Rightarrow> string option" where
  "client_advance_modified_cursor T files cursor now =
     (let basis = (case file_max_time files of
                     Some m \<Rightarrow> if m > now then m else now
                   | None \<Rightarrow> now);
          proposed = basis - CLIENT_MODIFIED_CURSOR_LOOKBACK_SECS * 10 ^ 9;
          current = Option.bind cursor (t_parse T) in
      if (case current of Some c \<Rightarrow> c \<ge> proposed | None \<Rightarrow> False) then cursor
      else (case t_format T proposed of Some formatted \<Rightarrow> Some formatted | None \<Rightarrow> cursor))"

section \<open>The session table\<close>

record client_session =
  cs_keys :: session_keys
  cs_replay :: replay_window
  cs_box :: "client_inbound list"

type_synonym client_table = "session_id \<Rightarrow> client_session option"

text \<open>Registration by the tunnelled connection, and removal when its guard is dropped.\<close>

definition register_session :: "session_id \<Rightarrow> session_keys \<Rightarrow> client_table \<Rightarrow> client_table" where
  "register_session sid keys sessions =
     sessions(sid \<mapsto> \<lparr>cs_keys = keys, cs_replay = new_window, cs_box = []\<rparr>)"

definition drop_session :: "session_id \<Rightarrow> client_table \<Rightarrow> client_table" where
  "drop_session sid sessions = sessions(sid := None)"

section \<open>The files of one session\<close>

definition wire_to_inbound :: "wire_frame \<Rightarrow> client_inbound option" where
  "wire_to_inbound f =
     (case fr_kind f of
        KData \<Rightarrow> Some (CInData (fr_payload f))
      | KEof \<Rightarrow> Some CInEof
      | KClose \<Rightarrow> Some CInClose
      | KError \<Rightarrow> Some CInClose
      | KHello \<Rightarrow> None
      | KConnect \<Rightarrow> None)"

definition prepare_r2c_batch :: "crypto \<Rightarrow> drive_env \<Rightarrow> session_keys \<Rightarrow> listed
    \<Rightarrow> (prepared_batch option, drive_api_error) result \<times> string list" where
  "prepare_r2c_batch C env keys e =
     (let (file, parsed) = e; max_bytes = word_of_nat MAX_SEALED_FRAME_BODY_BYTES in
      if (case df_size file of Some sz \<Rightarrow> sz > max_bytes | None \<Rightarrow> False)
      then (Inr None, [df_id file])
      else (case env_download env (df_id file) max_bytes of
              Inl (ResponseTooLarge _ _ _) \<Rightarrow> (Inr None, [df_id file])
            | Inl err \<Rightarrow> (Inl err, [])
            | Inr sealed \<Rightarrow>
                (case open_batch C (k_r2c keys) parsed sealed of
                   None \<Rightarrow> (Inr None, [])
                 | Some b \<Rightarrow> (Inr (Some \<lparr>pb_file = file, pb_parsed = parsed, pb_batch = b\<rparr>), []))))"

definition prefetch_r2c :: "crypto \<Rightarrow> drive_env \<Rightarrow> session_keys \<Rightarrow> listed list
    \<Rightarrow> prepared_batch list \<times> string list" where
  "prefetch_r2c C env keys es =
     (let rs = map (prepare_r2c_batch C env keys) es in
      (List.map_filter (\<lambda>(r, _). case r of Inr (Some p) \<Rightarrow> Some p | _ \<Rightarrow> None) rs, concat (map snd rs)))"

definition deliver_prepared_r2c_batch :: "(nat \<Rightarrow> bool) \<Rightarrow> prepared_batch
    \<Rightarrow> replay_window \<Rightarrow> client_inbound list
    \<Rightarrow> replay_window \<times> client_inbound list \<times> bool \<times> delivery_outcome \<times> string list" where
  "deliver_prepared_r2c_batch alive p w box = deliver_batch wire_to_inbound alive p w box"

text \<open>The group of a session that is in the table.\<close>

definition process_r2c_known :: "crypto \<Rightarrow> drive_env \<Rightarrow> listed list \<Rightarrow> client_session
    \<Rightarrow> client_session \<times> string list" where
  "process_r2c_known C env grp h =
     (case next_expected (cs_replay h) of
        None \<Rightarrow> (h, map (\<lambda>e. df_id (fst e)) grp)
      | Some expected \<Rightarrow>
          (let (es, dels) = select_downloads RelayToClient expected False grp;
               (ps, dels') = prefetch_r2c C env (cs_keys h) es;
               (w, box, _, dels'') =
                 deliver_all wire_to_inbound (env_alive env) (sorted_prepared env ps)
                   (cs_replay h) (cs_box h)
           in (h\<lparr>cs_replay := w, cs_box := box\<rparr>, dels @ dels' @ dels'')))"

definition process_r2c_group :: "crypto \<Rightarrow> drive_env \<Rightarrow> listed list \<Rightarrow> client_table
    \<Rightarrow> client_table \<times> string list" where
  "process_r2c_group C env grp sessions =
     (case grp of
        [] \<Rightarrow> (sessions, [])
      | (_, parsed0) # _ \<Rightarrow>
          (let sid = fn_sid parsed0 in
           case sessions sid of
             None \<Rightarrow> (sessions, map (\<lambda>e. df_id (fst e)) grp)
           | Some h \<Rightarrow>
               (let (h', dels) = process_r2c_known C env grp h in (sessions(sid \<mapsto> h'), dels))))"

section \<open>A poll cycle\<close>

definition r2c_listing :: "client_table \<Rightarrow> drive_file list \<Rightarrow> listed list" where
  "r2c_listing sessions raw =
     sort_key listing_key
       (filter (\<lambda>e. sessions (fn_sid (snd e)) \<noteq> None)
         (filter (\<lambda>e. fn_kind (snd e) = FnFrame RelayToClient) (parsed_listing raw)))"

fun process_r2c_groups :: "crypto \<Rightarrow> drive_env \<Rightarrow> listed list \<Rightarrow> session_id list
    \<Rightarrow> client_table \<Rightarrow> client_table \<times> string list" where
  "process_r2c_groups C env entries [] sessions = (sessions, [])"
| "process_r2c_groups C env entries (sid # sids) sessions =
     (case process_r2c_group C env (group_of sid entries) sessions of
        (sessions', dels) \<Rightarrow>
          (case process_r2c_groups C env entries sids sessions' of
             (sessions'', dels') \<Rightarrow> (sessions'', dels @ dels')))"

definition client_run_one_cycle :: "crypto \<Rightarrow> time_lib \<Rightarrow> drive_env \<Rightarrow> int
    \<Rightarrow> (string, 'e) result \<Rightarrow> (string option \<Rightarrow> (drive_file list, drive_api_error) result)
    \<Rightarrow> client_table \<Rightarrow> string option
    \<Rightarrow> bool \<times> client_table \<times> string option \<times> string list" where
  "client_run_one_cycle C T env call_start token listing sessions cursor =
     (case token of
        Inl _ \<Rightarrow> (False, sessions, cursor, [])
      | Inr _ \<Rightarrow>
          (case listing cursor of
             Inl _ \<Rightarrow> (False, sessions, cursor, [])
           | Inr raw \<Rightarrow>
               (let cursor' = client_advance_modified_cursor T raw cursor call_start;
                    entries = r2c_listing sessions raw in
                if entries = [] then (False, sessions, cursor', [])
                else (let (sessions', dels) = process_r2c_groups C env entries
                            (remdups (map (\<lambda>e. fn_sid (snd e)) entries)) sessions
                      in (True, sessions', cursor', dels)))))"

section \<open>The two sides agree\<close>

text \<open>The client's copies of the interval and cursor computations are the relay's.\<close>

theorem client_mirrors_relay:
  "client_adapt_interval = adapt_interval \<and> client_advance_modified_cursor = advance_modified_cursor"
  by (intro conjI ext)
    (simp_all add: client_adapt_interval_def adapt_interval_def client_advance_modified_cursor_def
      advance_modified_cursor_def CLIENT_PIPELINE_INTERVAL_MS_def CLIENT_IDLE_BACKOFF_STEP_MS_def
      CLIENT_MAX_IDLE_INTERVAL_MS_def CLIENT_MODIFIED_CURSOR_LOOKBACK_SECS_def
      PIPELINE_INTERVAL_MS_def IDLE_BACKOFF_STEP_MS_def MAX_IDLE_INTERVAL_MS_def
      MODIFIED_CURSOR_LOOKBACK_SECS_def)

section \<open>Only genuine frames are delivered\<close>

definition r2c_unforged :: "crypto \<Rightarrow> bytes \<Rightarrow> session_id \<Rightarrow> batch list \<Rightarrow> drive_env \<Rightarrow> bool" where
  "r2c_unforged C k sid batches env \<longleftrightarrow>
     (\<forall>i limit body q m. env_download env i limit = Inr body \<longrightarrow>
        open_sealed C k sid q body = Inr m \<longrightarrow>
        (\<exists>b \<in> set batches. q = first_seq b \<and> m = encode_batch b))"

lemma prepare_r2c_Some:
  assumes "prepare_r2c_batch C env keys e = (Inr (Some p), dels)"
  shows "pb_file p = fst e \<and> pb_parsed p = snd e \<and>
    (\<exists>body. env_download env (df_id (fst e)) (word_of_nat MAX_SEALED_FRAME_BODY_BYTES) = Inr body \<and>
       open_batch C (k_r2c keys) (snd e) body = Some (pb_batch p))"
  using assms
  by (cases e)
    (auto simp: prepare_r2c_batch_def Let_def
      split: if_splits option.splits sum.splits drive_api_error.splits)

lemma prefetch_r2c_genuine:
  assumes "r2c_unforged C (k_r2c keys) sid batches env" "batches_of fs batches" "wf_stream sid fs"
    "\<And>e. e \<in> set es \<Longrightarrow> fn_sid (snd e) = sid" "p \<in> set (fst (prefetch_r2c C env keys es))"
  shows "list_all (genuine fs) (b_frames (pb_batch p))"
proof -
  from assms(5) obtain e where e: "e \<in> set es"
    "(case fst (prepare_r2c_batch C env keys e) of Inr (Some p) \<Rightarrow> Some p | _ \<Rightarrow> None) = Some p"
    by (auto simp: prefetch_r2c_def map_filter_def Let_def split_beta)
  then obtain dels where "prepare_r2c_batch C env keys e = (Inr (Some p), dels)"
    by (cases "prepare_r2c_batch C env keys e") (auto split: sum.splits option.splits)
  from prepare_r2c_Some [OF this] obtain body where
    get: "env_download env (df_id (fst e)) (word_of_nat MAX_SEALED_FRAME_BODY_BYTES) = Inr body"
    "open_batch C (k_r2c keys) (snd e) body = Some (pb_batch p)" by blast
  then obtain m where m: "open_sealed C (k_r2c keys) sid (fn_seq (snd e)) body = Inr m"
    "decode_batch m = Inr (pb_batch p)"
    using assms(4) [OF e(1)] by (auto simp: open_batch_def split: sum.splits if_splits)
  with assms(1) get(1) obtain b where b: "b \<in> set batches" "m = encode_batch b"
    unfolding r2c_unforged_def by blast
  with m assms(2) have "pb_batch p = b"
    by (auto simp: batches_of_def list_all_iff decode_encode_batch)
  with b batches_of_genuine [OF assms(2,3)] show ?thesis by simp
qed

definition client_session_ok :: "bytes \<Rightarrow> session_id \<Rightarrow> wire_frame list \<Rightarrow> client_table \<Rightarrow> bool" where
  "client_session_ok k sid fs sessions \<longleftrightarrow>
     (\<forall>h. sessions sid = Some h \<longrightarrow> k_r2c (cs_keys h) = k \<longrightarrow>
        delivered wire_to_inbound fs (cs_replay h) (cs_box h))"

lemma process_r2c_known_delivered:
  assumes "r2c_unforged C (k_r2c (cs_keys h)) sid batches env" "batches_of fs batches" "wf_stream sid fs"
    "join_permutes env" "\<And>e. e \<in> set grp \<Longrightarrow> fn_sid (snd e) = sid"
    "delivered wire_to_inbound fs (cs_replay h) (cs_box h)" "process_r2c_known C env grp h = (h', dels)"
  shows "delivered wire_to_inbound fs (cs_replay h') (cs_box h')"
proof (cases "next_expected (cs_replay h)")
  case None
  with assms show ?thesis by (auto simp: process_r2c_known_def)
next
  case (Some expected)
  obtain es d1 where sel: "select_downloads RelayToClient expected False grp = (es, d1)" by fastforce
  obtain ps d2 where pre: "prefetch_r2c C env (cs_keys h) es = (ps, d2)" by fastforce
  obtain w box t d3 where del: "deliver_all wire_to_inbound (env_alive env) (sorted_prepared env ps)
      (cs_replay h) (cs_box h) = (w, box, t, d3)" by (metis prod_cases4)
  have es: "fn_sid (snd e) = sid" if "e \<in> set es" for e
    using select_downloads_subset [of RelayToClient expected False grp] sel
    by (intro assms(5)) (use that in auto)
  have "list_all (genuine fs) (b_frames (pb_batch p))" if "p \<in> set (sorted_prepared env ps)" for p
  proof -
    have "p \<in> set (fst (prefetch_r2c C env (cs_keys h) es))"
      using that pre set_sorted_prepared [OF assms(4)] by simp
    with es show ?thesis by (rule prefetch_r2c_genuine [OF assms(1-3)])
  qed
  from deliver_all_delivered [OF this assms(6) del] have "delivered wire_to_inbound fs w box" by simp
  moreover have "cs_replay h' = w \<and> cs_box h' = box"
    using assms(7) Some sel pre del by (auto simp: process_r2c_known_def)
  ultimately show ?thesis by simp
qed

lemma process_r2c_group_ok:
  assumes "r2c_unforged C k sid batches env" "batches_of fs batches" "wf_stream sid fs"
    "join_permutes env" "\<And>e. e \<in> set grp \<Longrightarrow> fn_sid (snd e) = sid'"
    "client_session_ok k sid fs sessions" "process_r2c_group C env grp sessions = (sessions', dels)"
  shows "client_session_ok k sid fs sessions'"
proof (cases "grp = [] \<or> sessions sid' = None")
  case True
  have "fn_sid (snd (hd grp)) = sid'" if "grp \<noteq> []" using assms(5) [of "hd grp"] that by simp
  with True assms(6,7) show ?thesis
    by (cases grp) (auto simp: process_r2c_group_def)
next
  case False
  then obtain h where h: "sessions sid' = Some h" by auto
  obtain h' d where p: "process_r2c_known C env grp h = (h', d)" by fastforce
  have keys: "cs_keys h' = cs_keys h"
    using p by (auto simp: process_r2c_known_def Let_def split: option.splits prod.splits)
  have "delivered wire_to_inbound fs (cs_replay h') (cs_box h')"
    if "sid' = sid" "k_r2c (cs_keys h) = k"
    using process_r2c_known_delivered [OF _ assms(2-4) _ _ p] assms(1,5,6) h that
    by (auto simp: client_session_ok_def)
  moreover obtain e0 es where "grp = e0 # es" using False by (cases grp) auto
  moreover from this have "fn_sid (snd e0) = sid'" using assms(5) by simp
  ultimately show ?thesis
    using assms(6,7) keys h p
    by (cases e0) (auto simp: process_r2c_group_def client_session_ok_def split: if_splits)
qed

lemma process_r2c_groups_ok:
  assumes "r2c_unforged C k sid batches env" "batches_of fs batches" "wf_stream sid fs" "join_permutes env"
    "client_session_ok k sid fs sessions" "process_r2c_groups C env entries sids sessions = (sessions', dels)"
  shows "client_session_ok k sid fs sessions'"
  using assms(5,6)
proof (induction sids arbitrary: sessions dels)
  case Nil
  then show ?case by simp
next
  case (Cons s sids)
  obtain T d where g: "process_r2c_group C env (group_of s entries) sessions = (T, d)" by fastforce
  have "client_session_ok k sid fs T"
    by (rule process_r2c_group_ok [OF assms(1-4) _ Cons.prems(1) g]) (simp add: group_of_def)
  with Cons g show ?case by (auto split: prod.splits)
qed

text \<open>The client's life: connections registered and dropped, poll cycles against folders of which
  \<open>P\<close> holds.\<close>

inductive client_exec :: "(drive_env \<Rightarrow> bool) \<Rightarrow> crypto \<Rightarrow> time_lib \<Rightarrow> client_table \<Rightarrow> string option \<Rightarrow> bool"
  for P C T where
  client_init: "client_exec P C T (\<lambda>_. None) None"
| client_open: "client_exec P C T sessions cursor \<Longrightarrow>
     client_exec P C T (register_session sid keys sessions) cursor"
| client_cycle: "client_exec P C T sessions cursor \<Longrightarrow> P env \<Longrightarrow> join_permutes env \<Longrightarrow>
     client_run_one_cycle C T env call_start (token :: (string, string) result) listing sessions cursor
       = (found, sessions', cursor', dels) \<Longrightarrow>
     client_exec P C T sessions' cursor'"
| client_drop: "client_exec P C T sessions cursor \<Longrightarrow> client_exec P C T (drop_session sid sessions) cursor"

lemma client_exec_ok:
  assumes "client_exec (r2c_unforged C k sid batches) C T sessions cursor" "batches_of fs batches"
    "wf_stream sid fs"
  shows "client_session_ok k sid fs sessions"
  using assms(1)
proof (induction rule: client_exec.induct)
  case client_init
  then show ?case by (simp add: client_session_ok_def)
next
  case (client_open sessions cursor sid' keys)
  then show ?case by (auto simp: client_session_ok_def register_session_def delivered_new)
next
  case (client_cycle sessions cursor env call_start token listing found sessions' cursor' dels)
  then show ?case using process_r2c_groups_ok [OF client_cycle.hyps(2) assms(2,3) client_cycle.hyps(3)]
    by (auto simp: client_run_one_cycle_def Let_def split: sum.splits if_splits prod.splits)
next
  case (client_drop sessions cursor sid')
  then show ?case by (auto simp: client_session_ok_def drop_session_def)
qed

text \<open>Whatever the folder shows over any number of poll cycles, with connections coming and going,
  the events a connection's pump is given are, in order, the images of a prefix of the frames the
  relay's driver emitted for the session, as long as the folder cannot make bodies that open under the
  session's key.\<close>

theorem client_delivers_prefix:
  assumes "client_exec (r2c_unforged C (k_r2c (cs_keys h)) sid batches) C T sessions cursor"
    "sessions sid = Some h" "batches_of fs batches" "wf_stream sid fs"
  shows "length (cs_box h) \<le> length fs \<and>
    map Some (cs_box h) = map wire_to_inbound (take (length (cs_box h)) fs)"
proof -
  have d: "delivered wire_to_inbound fs (cs_replay h) (cs_box h)"
    using client_exec_ok [OF assms(1,3,4)] assms(2) by (simp add: client_session_ok_def)
  from d delivered_length [OF d] show ?thesis by (simp add: delivered_def)
qed

section \<open>Everything visible is delivered\<close>

definition holds_r2c :: "crypto \<Rightarrow> drive_env \<Rightarrow> session_keys \<Rightarrow> listed \<Rightarrow> batch \<Rightarrow> bool" where
  "holds_r2c C env keys e b \<longleftrightarrow>
     names_batch RelayToClient (k_sid keys) e b \<and>
     (case df_size (fst e) of
        Some n \<Rightarrow> unat n = length (snd (r2c_file C (k_r2c keys) (k_sid keys) b))
      | None \<Rightarrow> True) \<and>
     (\<forall>limit. length (snd (r2c_file C (k_r2c keys) (k_sid keys) b)) \<le> unat limit \<longrightarrow>
        env_download env (df_id (fst e)) limit = Inr (snd (r2c_file C (k_r2c keys) (k_sid keys) b)))"

lemma prepare_r2c_holds:
  assumes "aead_correct C" "aead_tag16 C" "batch_ok b" "holds_r2c C env keys e b"
  shows "prepare_r2c_batch C env keys e = (Inr (Some (prepared e b)), [])"
proof -
  obtain fl parsed where e: "e = (fl, parsed)" by (cases e)
  let ?body = "snd (r2c_file C (k_r2c keys) (k_sid keys) b)"
  let ?m = "word_of_nat MAX_SEALED_FRAME_BODY_BYTES :: u64"
  have m: "unat ?m = MAX_SEALED_FRAME_BODY_BYTES"
    by (simp add: MAX_SEALED_FRAME_BODY_BYTES_def HEADER_LEN_def AEAD_TAG_LEN_def)
  have "length ?body = sealed_size b"
    using assms(2) by (simp add: r2c_file_def seal_def aead_tag16_def sealed_size_def AEAD_TAG_LEN_def Let_def)
  then have le: "length ?body \<le> unat ?m" using assms(3) unfolding m by (simp add: batch_ok_def)
  have parsed: "fn_seq parsed = first_seq b" "fn_sid parsed = k_sid keys"
    using assms(4) e by (simp_all add: holds_r2c_def names_batch_def)
  have get: "env_download env (df_id fl) ?m = Inr ?body" using assms(4) e le by (simp add: holds_r2c_def)
  have small: "\<not> (case df_size fl of Some sz \<Rightarrow> ?m < sz | None \<Rightarrow> False)"
    using assms(4) e le by (auto simp: holds_r2c_def word_less_nat_alt split: option.splits)
  have "open_batch C (k_r2c keys) parsed ?body = Some b"
    using open_batch_sealed [OF assms(1), of b parsed "k_r2c keys"] parsed assms(3)
    by (simp add: r2c_file_def Let_def batch_ok_def)
  with get small show ?thesis
    by (simp add: prepare_r2c_batch_def e prepared_def)
qed

lemma prefetch_r2c_holds:
  assumes "aead_correct C" "aead_tag16 C" "list_all batch_ok bs" "list_all2 (holds_r2c C env keys) es bs"
  shows "prefetch_r2c C env keys es = (map2 prepared es bs, [])"
  using assms(4,3)
proof (induction rule: list_all2_induct)
  case Nil
  then show ?case by (simp add: prefetch_r2c_def map_filter_simps)
next
  case (Cons e es b bs)
  then show ?case using prepare_r2c_holds [OF assms(1,2) _ Cons.hyps(1)]
    by (simp add: prefetch_r2c_def map_filter_simps Let_def)
qed

lemma r2c_known_complete:
  assumes crypto: "aead_correct C" "aead_tag16 C"
    and stream: "wf_stream (k_sid (cs_keys h)) fs" "list_all (\<lambda>f. wire_to_inbound f \<noteq> None) fs"
    and bs: "bs \<noteq> []" "list_all batch_ok bs"
      "aligned fs (window_next (cs_replay h)) (concat (map b_frames bs))"
    and env: "join_permutes env" "\<forall>k. env_alive env k" "list_all2 (holds_r2c C env (cs_keys h)) news bs"
    and olds: "\<And>e. e \<in> set olds \<Longrightarrow> fn_kind (snd e) = FnFrame RelayToClient \<and>
        unat (fn_seq (snd e)) < window_next (cs_replay h)"
  shows "\<exists>h'. process_r2c_known C env (olds @ news) h = (h', map (\<lambda>e. df_id (fst e)) (olds @ news)) \<and>
    cs_box h' = cs_box h @ map (the \<circ> wire_to_inbound) (concat (map b_frames bs))"
proof -
  have nonempty: "b_frames b \<noteq> []" if "b \<in> set bs" for b
    using bs(2) that by (auto simp: list_all_iff batch_ok_def wf_batch_def)
  have names: "list_all2 (names_batch RelayToClient (k_sid (cs_keys h))) news bs"
    using env(3) by (rule list_all2_mono) (simp add: holds_r2c_def)
  note sel = group_select [OF stream(1) bs(3,1) nonempty names olds]
  have expected: "next_expected (cs_replay h) = Some (word_of_nat (window_next (cs_replay h)))"
    using sel by (simp add: next_expected_eq)
  obtain w' where "deliver_all wire_to_inbound (env_alive env)
      (sorted_prepared env (map2 prepared news bs)) (cs_replay h) (cs_box h) =
      (w', cs_box h @ map (the \<circ> wire_to_inbound) (concat (map b_frames bs)), True,
        map (\<lambda>e. df_id (fst e)) news)"
    using group_deliver [OF stream bs(1) nonempty bs(3) env(1,2) names, of "cs_box h"] by auto
  with expected sel [of olds] prefetch_r2c_holds [OF crypto bs(2) env(3)] show ?thesis
    by (simp add: process_r2c_known_def)
qed

lemma process_r2c_group_other [simp]:
  "sid \<noteq> s \<Longrightarrow> fst (process_r2c_group C env (group_of s entries) T) sid = T sid"
proof (cases "group_of s entries")
  case Nil
  then show ?thesis by (simp add: process_r2c_group_def)
next
  case (Cons e es)
  assume "sid \<noteq> s"
  moreover have "e \<in> set (group_of s entries)" using Cons by simp
  then have "fn_sid (snd e) = s" by (simp add: group_of_def)
  ultimately show ?thesis
    using Cons by (cases e) (auto simp: process_r2c_group_def Let_def split_beta split: option.splits)
qed

lemma process_r2c_groups_entry:
  assumes "distinct sids" "sid \<in> set sids"
  shows "\<exists>T'. T' sid = T sid \<and> fst (process_r2c_groups C env entries sids T) sid =
    fst (process_r2c_group C env (group_of sid entries) T') sid"
  using assms
proof (induction sids arbitrary: T)
  case Nil
  then show ?case by simp
next
  case (Cons s sids)
  let ?g = "process_r2c_group C env (group_of s entries) T"
  have unfold: "fst (process_r2c_groups C env entries (s # sids) T) =
      fst (process_r2c_groups C env entries sids (fst ?g))"
    by (simp add: split_beta)
  show ?case
  proof (cases "s = sid")
    case True
    have "fst (process_r2c_groups C env entries ss T') sid = T' sid" if "sid \<notin> set ss" for ss T'
      using that by (induction ss arbitrary: T') (auto simp: split_beta)
    with True Cons.prems(1) unfold show ?thesis by auto
  next
    case False
    then have "fst ?g sid = T sid" by simp
    with Cons.IH [of "fst ?g"] Cons.prems False unfold show ?thesis by auto
  qed
qed

lemma client_cycle_complete:
  assumes "aead_correct C" "aead_tag16 C" "sessions sid = Some h" "k_sid (cs_keys h) = sid"
    and "wf_stream sid fs" "list_all (\<lambda>f. wire_to_inbound f \<noteq> None) fs"
    and "bs \<noteq> []" "list_all batch_ok bs"
      "aligned fs (window_next (cs_replay h)) (concat (map b_frames bs))"
    and "join_permutes env" "\<forall>k. env_alive env k" "list_all2 (holds_r2c C env (cs_keys h)) news bs"
    and "list_all (\<lambda>e. fn_kind (snd e) = FnFrame RelayToClient \<and>
        unat (fn_seq (snd e)) < window_next (cs_replay h)) olds"
    and "listing cursor = Inr raw" "group_of sid (r2c_listing sessions raw) = olds @ news"
  shows "\<exists>sessions' cursor' dels h'.
    client_run_one_cycle C T env call_start (Inr token :: (string, string) result) listing sessions cursor
      = (True, sessions', cursor', dels) \<and> sessions' sid = Some h' \<and>
    cs_box h' = cs_box h @ map (the \<circ> wire_to_inbound) (concat (map b_frames bs))"
proof -
  let ?entries = "r2c_listing sessions raw"
  let ?sids = "remdups (map (\<lambda>e. fn_sid (snd e)) ?entries)"
  have "news \<noteq> []" using assms(7,12) by auto
  then have "last (olds @ news) \<in> set (group_of sid ?entries)" unfolding assms(15) by simp
  then have mem: "sid \<in> (\<lambda>e. fn_sid (snd e)) ` set ?entries"
    by (auto simp: group_of_def intro!: image_eqI [of _ _ "last (olds @ news)"])
  then have ne: "?entries \<noteq> []" by auto
  obtain T' where T': "T' sid = Some h"
    "fst (process_r2c_groups C env ?entries ?sids sessions) sid =
      fst (process_r2c_group C env (olds @ news) T') sid"
    using process_r2c_groups_entry [of ?sids sid sessions C env ?entries] mem assms(3,15) by auto
  obtain h' where h': "process_r2c_known C env (olds @ news) h = (h', map (\<lambda>e. df_id (fst e)) (olds @ news))"
    "cs_box h' = cs_box h @ map (the \<circ> wire_to_inbound) (concat (map b_frames bs))"
    using r2c_known_complete [of C h fs bs env news olds] assms by (auto simp: list_all_iff)
  have "hd (olds @ news) \<in> set (group_of sid ?entries)" unfolding assms(15)
    by (rule hd_in_set) (use \<open>news \<noteq> []\<close> in simp)
  then have "fn_sid (snd (hd (olds @ news))) = sid" by (simp add: group_of_def)
  then have "fst (process_r2c_group C env (olds @ news) T') sid = Some h'"
    using T'(1) h'(1) \<open>news \<noteq> []\<close>
    by (cases "olds @ news") (auto simp: process_r2c_group_def)
  with T'(2) h'(2) ne assms(14) show ?thesis
    by (auto simp: client_run_one_cycle_def Let_def split_beta)
qed

text \<open>When a cycle's listing shows, for a connected session, files already delivered and then all
  files from the next expected number on, and serves them, that cycle gives the pump all their frames in
  order after what it already had.\<close>

theorem client_delivers_rest:
  assumes "aead_correct C" "aead_tag16 C" "sessions sid = Some h" "k_sid (cs_keys h) = sid"
    and "wf_stream sid fs" "list_all (\<lambda>f. wire_to_inbound f \<noteq> None) fs"
    and "bs \<noteq> []" "list_all batch_ok bs"
      "aligned fs (window_next (cs_replay h)) (concat (map b_frames bs))"
    and "join_permutes env" "\<forall>k. env_alive env k" "list_all2 (holds_r2c C env (cs_keys h)) news bs"
    and "list_all (\<lambda>e. fn_kind (snd e) = FnFrame RelayToClient \<and>
        unat (fn_seq (snd e)) < window_next (cs_replay h)) olds"
    and "listing cursor = Inr raw" "group_of sid (r2c_listing sessions raw) = olds @ news"
  shows "\<exists>sessions' cursor' dels h'.
    client_run_one_cycle C T env call_start (Inr token :: (string, string) result) listing sessions cursor
      = (True, sessions', cursor', dels) \<and> sessions' sid = Some h' \<and>
    cs_box h' = cs_box h @ map (the \<circ> wire_to_inbound) (concat (map b_frames bs))"
  using assms by (rule client_cycle_complete)

section \<open>A reply in miniature\<close>

definition mini_reply :: wire_frame where "mini_reply = r2c_frame mini_sid KData 0 [1, 2]"

definition mini_reply_env :: drive_env where
  "mini_reply_env =
     \<lparr>env_download = (\<lambda>_ _. Inr (snd (r2c_file toy_crypto (k_r2c toy_keys) mini_sid (batch_single mini_reply)))),
      env_join = rev, env_alive = (\<lambda>_. True)\<rparr>"

definition mini_reply_name :: drive_filename where
  "mini_reply_name = \<lparr>fn_kind = FnFrame RelayToClient, fn_sid = mini_sid, fn_seq = 0\<rparr>"

definition mini_reply_file :: drive_file where
  "mini_reply_file = \<lparr>df_id = ''r'', df_name = format_filename mini_reply_name, df_modified_time = None, df_size = None\<rparr>"

abbreviation mini_table :: client_table where
  "mini_table \<equiv> register_session mini_sid toy_keys (\<lambda>_. None)"

abbreviation mini_client_run :: "bool \<times> client_table \<times> string option \<times> string list" where
  "mini_client_run \<equiv> client_run_one_cycle toy_crypto no_time mini_reply_env 0
     (Inr [] :: (string, string) result) (\<lambda>_. Inr [mini_reply_file]) mini_table None"

lemma mini_reply_stream: "wf_stream mini_sid [mini_reply]"
  by (rule wf_stream_frames_from) (simp_all add: mini_reply_def r2c_frame_def)

lemma mini_reply_ok: "list_all batch_ok [batch_single mini_reply]"
  unfolding batch_single_def
  using batch_ok_intro [of "[mini_reply]"] by (simp add: mini_reply_def r2c_frame_def wf_frame_def wf_sid_def)

lemma mini_reply_batches: "batches_of [mini_reply] [batch_single mini_reply]"
  using mini_reply_ok by (simp add: batches_of_def batch_ok_def) (simp add: batch_single_def)

lemma mini_reply_holds: "list_all2 (holds_r2c toy_crypto mini_reply_env toy_keys)
    [(mini_reply_file, mini_reply_name)] [batch_single mini_reply]"
  by (simp add: holds_r2c_def mini_reply_env_def mini_keys names_batch_def mini_reply_file_def
      mini_reply_name_def) (simp add: batch_single_def mini_reply_def r2c_frame_def)

lemma mini_reply_listing: "r2c_listing mini_table [mini_reply_file] = [(mini_reply_file, mini_reply_name)]"
proof -
  have "parse_filename (format_filename mini_reply_name) = Some mini_reply_name"
    by (rule parse_format_filename) (simp add: mini_reply_name_def wf_filename_def wf_sid_def)
  then show ?thesis
    by (simp add: r2c_listing_def parsed_listing_def map_filter_simps mini_reply_file_def
        register_session_def) (simp add: mini_reply_name_def)
qed

lemma mini_reply_next: "aligned [mini_reply] (window_next (cs_replay \<lparr>cs_keys = toy_keys,
    cs_replay = new_window, cs_box = []\<rparr>)) (concat (map b_frames [batch_single mini_reply]))"
  by (simp add: aligned_def new_window_def window_next_def batch_single_def)

lemma mini_reply_inbound: "wire_to_inbound mini_reply = Some (CInData [1, 2])"
  by (simp add: wire_to_inbound_def mini_reply_def r2c_frame_def)

lemmas mini_reply_premises = toy_crypto_ok(2,3) mini_reply_stream mini_reply_ok mini_reply_next
  mini_reply_holds mini_reply_listing mini_reply_inbound mini_keys

theorem client_delivers_rest_witness:
  "\<exists>sessions' cursor' dels h'. mini_client_run = (True, sessions', cursor', dels) \<and>
    sessions' mini_sid = Some h' \<and> cs_box h' = [CInData [1, 2]]"
proof -
  have "\<exists>sessions' cursor' dels h'. mini_client_run = (True, sessions', cursor', dels) \<and>
    sessions' mini_sid = Some h' \<and> cs_box h' = cs_box \<lparr>cs_keys = toy_keys,
      cs_replay = new_window, cs_box = []\<rparr>
      @ map (the \<circ> wire_to_inbound) (concat (map b_frames [batch_single mini_reply]))"
    by (rule client_delivers_rest [where fs = "[mini_reply]" and olds = "[]" and
          news = "[(mini_reply_file, mini_reply_name)]" and raw = "[mini_reply_file]"])
      (use mini_reply_premises in \<open>simp_all add: register_session_def group_of_def mini_reply_name_def
        join_permutes_def mini_reply_env_def\<close>)
  then show ?thesis by (simp add: batch_single_def mini_reply_inbound)
qed

lemma mini_reply_unforged: "r2c_unforged toy_crypto k mini_sid [batch_single mini_reply] mini_reply_env"
  unfolding r2c_unforged_def
proof (intro allI impI)
  fix i limit body and q :: u64 and m
  assume "env_download mini_reply_env i limit = Inr body" "open_sealed toy_crypto k mini_sid q body = Inr m"
  then have "open_sealed toy_crypto k mini_sid q ([] @ seal toy_crypto (k_r2c toy_keys) mini_sid
      (first_seq (batch_single mini_reply)) (encode_batch (batch_single mini_reply))) = Inr m"
    by (simp add: mini_reply_env_def r2c_file_def Let_def)
  from toy_open_seal [OF this]
  show "\<exists>b\<in>set [batch_single mini_reply]. q = first_seq b \<and> m = encode_batch b" by simp
qed

lemma mini_client_state:
  obtains sessions cursor h where "client_exec (r2c_unforged toy_crypto (k_r2c (cs_keys h)) mini_sid
      [batch_single mini_reply]) toy_crypto no_time sessions cursor"
    "sessions mini_sid = Some h" "cs_box h = [CInData [1, 2]]"
proof -
  have "\<exists>sessions' cursor' dels h'. mini_client_run = (True, sessions', cursor', dels) \<and>
    sessions' mini_sid = Some h' \<and> cs_box h' = cs_box \<lparr>cs_keys = toy_keys,
      cs_replay = new_window, cs_box = []\<rparr>
      @ map (the \<circ> wire_to_inbound) (concat (map b_frames [batch_single mini_reply]))"
    by (rule client_cycle_complete [where fs = "[mini_reply]" and olds = "[]" and
          news = "[(mini_reply_file, mini_reply_name)]" and raw = "[mini_reply_file]"])
      (use mini_reply_premises in \<open>simp_all add: register_session_def group_of_def mini_reply_name_def
        join_permutes_def mini_reply_env_def\<close>)
  then obtain sessions cursor dels h where run: "mini_client_run = (True, sessions, cursor, dels)"
    and h: "sessions mini_sid = Some h" "cs_box h = [CInData [1, 2]]"
    by (auto simp: batch_single_def mini_reply_inbound)
  have join: "join_permutes mini_reply_env" by (simp add: join_permutes_def mini_reply_env_def)
  have "client_exec (r2c_unforged toy_crypto (k_r2c (cs_keys h)) mini_sid [batch_single mini_reply])
      toy_crypto no_time sessions cursor"
    using client_open [OF client_init] mini_reply_unforged join run by (rule client_cycle)
  with h that show thesis by blast
qed

theorem client_delivers_prefix_witness:
  "\<exists>(sessions :: client_table) h. sessions mini_sid = Some h \<and> cs_box h = [CInData [1, 2]] \<and>
    length (cs_box h) \<le> length [mini_reply] \<and>
    map Some (cs_box h) = map wire_to_inbound (take (length (cs_box h)) [mini_reply])"
proof -
  obtain sessions cursor h where x: "client_exec (r2c_unforged toy_crypto (k_r2c (cs_keys h)) mini_sid
      [batch_single mini_reply]) toy_crypto no_time sessions cursor"
    and h: "sessions mini_sid = Some h" and b: "cs_box h = [CInData [1, 2]]"
    by (rule mini_client_state)
  from client_delivers_prefix [OF x h mini_reply_batches mini_reply_stream]
  have r: "length (cs_box h) \<le> length [mini_reply] \<and>
    map Some (cs_box h) = map wire_to_inbound (take (length (cs_box h)) [mini_reply])" .
  show ?thesis by (rule exI [of _ sessions], rule exI [of _ h], rule conjI [OF h conjI [OF b r]])
qed

end
