(* ===== verification/End_To_End.thy ===== *)
theory End_To_End
  imports Client_Poll
begin

text \<open>
  The two ends put together: a client session (\<open>Client_Session\<close>), the folder, the relay's poller
  (\<open>Relay_Poll\<close>) and its driver (\<open>Relay_Session\<close>), and back through the client's poller
  (\<open>Client_Poll\<close>). The channels between a poller and its session are first-in first-out: the events
  a session has taken are a prefix of the poller's channel history.
\<close>

section \<open>From the channel to the socket\<close>

fun in_data :: "inbound_frame list \<Rightarrow> bytes" where
  "in_data [] = []"
| "in_data (InData bs # is) = bs @ in_data is"
| "in_data (_ # is) = in_data is"

lemma in_data_append [simp]: "in_data (is @ js) = in_data is @ in_data js"
  by (induction "is" rule: in_data.induct) simp_all

fun inbound_of :: "driver_event \<Rightarrow> inbound_frame list" where
  "inbound_of (EvInbound (Some i) _) = [i]"
| "inbound_of _ = []"

definition taken :: "(nat \<times> driver_event) list \<Rightarrow> inbound_frame list" where
  "taken es = concat (map (inbound_of \<circ> snd) es)"

lemma taken_simps [simp]: "taken [] = []" "taken (es @ [(t, e)]) = taken es @ inbound_of e"
  by (simp_all add: taken_def)

lemma driver_step_written:
  assumes "driver_step now e d = (d', fin)" "prefix (dr_written d) x"
    "dr_peer_writable d \<Longrightarrow> dr_written d = x"
  shows "prefix (dr_written d') (x @ in_data (inbound_of e)) \<and>
    (\<not> fin \<longrightarrow> dr_peer_writable d' \<longrightarrow> dr_written d' = x @ in_data (inbound_of e))"
  using assms
  by (induction now e d rule: driver_step.induct)
    (auto simp: Let_def split: if_splits intro: prefix_order.trans)

lemma driver_exec_written:
  "driver_exec d0 es d fin \<Longrightarrow> dr_written d0 = [] \<Longrightarrow>
     prefix (dr_written d) (in_data (taken es)) \<and>
     (\<not> fin \<longrightarrow> dr_peer_writable d \<longrightarrow> dr_written d = in_data (taken es))"
proof (induction rule: driver_exec.induct)
  case exec_start
  then show ?case by simp
next
  case (exec_step es d now e d' fin)
  then show ?case using driver_step_written [OF exec_step.hyps(3), of "in_data (taken es)"] by simp
qed

lemma relay_inbound_data:
  "map Some box = map relay_inbound fs \<Longrightarrow> in_data box = data_of fs"
proof (induction fs arbitrary: box)
  case Nil
  then show ?case by simp
next
  case (Cons f fs)
  then obtain i box' where b: "box = i # box'" "relay_inbound f = Some i" "map Some box' = map relay_inbound fs"
    by (cases box) auto
  with Cons.IH show ?case
    by (cases i)
      (auto simp: relay_inbound_def frame_to_inbound_def
        split: frame_kind.splits if_splits sum.splits)
qed

section \<open>From the channel to the local socket\<close>

fun cin_data :: "client_inbound list \<Rightarrow> bytes" where
  "cin_data [] = []"
| "cin_data (CInData bs # is) = bs @ cin_data is"
| "cin_data (_ # is) = cin_data is"

lemma cin_data_append [simp]: "cin_data (is @ js) = cin_data is @ cin_data js"
  by (induction "is" rule: cin_data.induct) simp_all

fun client_inbound_of :: "pump_event \<Rightarrow> client_inbound list" where
  "client_inbound_of (PeInbound (Some i) _) = [i]"
| "client_inbound_of _ = []"

definition client_taken :: "(nat \<times> pump_event) list \<Rightarrow> client_inbound list" where
  "client_taken es = concat (map (client_inbound_of \<circ> snd) es)"

lemma client_taken_simps [simp]:
  "client_taken [] = []" "client_taken (es @ [(t, e)]) = client_taken es @ client_inbound_of e"
  by (simp_all add: client_taken_def)

lemma pump_step_written:
  assumes "pump_step now e p = (p', ret)" "prefix (pu_written p) x"
    "pu_local_writable p \<Longrightarrow> pu_written p = x"
  shows "prefix (pu_written p') (x @ cin_data (client_inbound_of e)) \<and>
    (ret = None \<longrightarrow> pu_local_writable p' \<longrightarrow> pu_written p' = x @ cin_data (client_inbound_of e))"
  using assms
  by (induction now e p rule: pump_step.induct)
    (auto simp: Let_def split: if_splits sum.splits intro: prefix_order.trans)

lemma pump_exec_written:
  "pump_exec p0 es p ret \<Longrightarrow> pu_written p0 = [] \<Longrightarrow>
     prefix (pu_written p) (cin_data (client_taken es)) \<and>
     (ret = None \<longrightarrow> pu_local_writable p \<longrightarrow> pu_written p = cin_data (client_taken es))"
proof (induction rule: pump_exec.induct)
  case pump_start
  then show ?case by simp
next
  case (pump_next es p now e p' ret)
  then show ?case using pump_step_written [OF pump_next.hyps(3), of "cin_data (client_taken es)"] by simp
qed

lemma wire_to_inbound_data:
  "map Some box = map wire_to_inbound fs \<Longrightarrow> cin_data box = data_of fs"
proof (induction fs arbitrary: box)
  case Nil
  then show ?case by simp
next
  case (Cons f fs)
  then obtain i box' where b: "box = i # box'" "wire_to_inbound f = Some i" "map Some box' = map wire_to_inbound fs"
    by (cases box) auto
  with Cons.IH show ?case
    by (cases i) (auto simp: wire_to_inbound_def split: frame_kind.splits)
qed

lemma data_of_prefix: "prefix xs ys \<Longrightarrow> prefix (data_of xs) (data_of ys)"
  by (auto simp: prefix_def)

lemma in_data_prefix: "prefix xs ys \<Longrightarrow> prefix (in_data xs) (in_data ys)"
  by (auto simp: prefix_def)

lemma cin_data_prefix: "prefix xs ys \<Longrightarrow> prefix (cin_data xs) (cin_data ys)"
  by (auto simp: prefix_def)

section \<open>Upstream\<close>

lemma session_stream_batches:
  "session_stream os p = concat (map b_frames (session_batches os p)) @ cb_pending (pu_batcher p)"
  by (simp add: session_stream_def session_batches_def pump_stream_def)

lemma session_batches_stream:
  assumes "tunnel_connection_with_preface C pk sid esk cookie host port initial pre = Inr os"
    "wf_sid sid" "pump_exec (os_pump os) es p ret" "batch_ok (os_open os)"
    "length (session_stream os p) \<le> 2 ^ 64"
  shows "wf_stream sid (concat (map b_frames (session_batches os p)))"
    and "batches_of (concat (map b_frames (session_batches os p))) (session_batches os p)"
    and "list_all batch_ok (session_batches os p)"
proof -
  note f = session_faithful [OF assms(1-3)]
  show "wf_stream sid (concat (map b_frames (session_batches os p)))"
    using f(1) assms(5) unfolding session_stream_batches
    by (intro wf_stream_frames_from) simp_all
  show ok: "list_all batch_ok (session_batches os p)"
    using f(5) assms(4) by (simp add: session_batches_def)
  then show "batches_of (concat (map b_frames (session_batches os p))) (session_batches os p)"
    by (auto simp: batches_of_def list_all_iff batch_ok_def)
qed

text \<open>C2: bytes reach a destination only as the client's application wrote them: whatever the folder
  does short of forging ciphertexts, and however the pump, the poller and the driver interleave, what a
  relay's driver has written to the destination is a prefix of the bytes the client's local socket
  delivered (the first bytes included).\<close>

theorem upstream_prefix:
  assumes client: "tunnel_connection_with_preface C pk sid esk cookie host port initial pre = Inr os"
      "wf_sid sid" "pump_exec (os_pump os) es p ret" "batch_ok (os_open os)"
      "length (session_stream os p) \<le> 2 ^ 64"
    and relay: "relay_exec (unforged C (k_c2r (sh_keys h)) sid (session_batches os p)) C T secret
        sessions cursor" "sessions sid = Some h"
    and driver: "driver_start allow sid now (Some i) dial = (u, Some d0)" "driver_exec d0 es' d fin"
      "prefix (i # taken es') (sh_box h)"
  shows "prefix (dr_written d) (preface_bytes initial pre @ concat (map (local_bytes \<circ> snd) es))"
proof -
  let ?fs = "concat (map b_frames (session_batches os p))"
  note stream = session_batches_stream [OF client]
  have d: "delivered relay_inbound ?fs (sh_replay h) (sh_box h)"
    using relay_exec_ok [OF relay(1) stream(2,1)] relay(2) by (simp add: session_ok_def)
  then have "in_data (sh_box h) = data_of (take (window_next (sh_replay h)) ?fs)"
    by (intro relay_inbound_data) (simp add: delivered_def)
  then have box: "prefix (in_data (sh_box h)) (data_of ?fs)"
    by (simp add: data_of_prefix take_is_prefix)
  have "in_data (i # taken es') = in_data (taken es')"
    using driver(1) by (auto simp: driver_start_def split: inbound_frame.splits)
  then have "prefix (in_data (taken es')) (in_data (sh_box h))"
    using in_data_prefix [OF driver(3)] by simp
  moreover have "prefix (dr_written d) (in_data (taken es'))"
    using driver_exec_written [OF driver(2)] driver_start_fresh [OF driver(1) client(2)] by simp
  moreover have "prefix (data_of ?fs) (data_of (session_stream os p))"
    unfolding session_stream_batches by simp
  ultimately show ?thesis
    using box session_faithful(2) [OF client(1-3)] by (auto intro: prefix_order.trans)
qed

section \<open>Downstream\<close>

text \<open>C3: and back: what a client's pump has written to its local socket is a prefix of the bytes the
  relay's driver read from the destination.\<close>

theorem downstream_prefix:
  assumes relay: "driver_start allow sid now first dial = (u, Some d0)" "wf_sid sid"
      "driver_exec d0 es d fin" "length (driver_stream d) \<le> 2 ^ 64"
    and client: "client_exec (r2c_unforged C (k_r2c (cs_keys h)) sid (rb_spawned (dr_batcher d))) C T
        sessions cursor" "sessions sid = Some h"
    and pump: "pump_exec (new_pump sid q) es' p ret" "prefix (client_taken es') (cs_box h)"
  shows "prefix (pu_written p) (concat (map (read_bytes \<circ> snd) es))"
proof -
  let ?bs = "rb_spawned (dr_batcher d)" and ?fs = "concat (map b_frames (rb_spawned (dr_batcher d)))"
  note fresh = driver_start_fresh [OF relay(1,2)]
  have inv: "driver_inv d" using driver_exec_inv [OF relay(3)] fresh by simp
  have eff: "dr_sid d = sid" "data_of (driver_stream d) = concat (map (read_bytes \<circ> snd) es)"
    using driver_exec_effect [OF relay(3)] fresh by simp_all
  have split: "driver_stream d = ?fs @ rb_pending (dr_batcher d)" by (simp add: driver_stream_def)
  have wf: "wf_stream sid ?fs"
    using inv eff(1) relay(4) unfolding driver_inv_def split
    by (intro wf_stream_frames_from) simp_all
  have "batches_of ?fs ?bs"
    using inv by (auto simp: batches_of_def driver_inv_def rb_inv_def list_all_iff batch_ok_def)
  then have dl: "delivered wire_to_inbound ?fs (cs_replay h) (cs_box h)"
    using client_exec_ok [OF client(1) _ wf] client(2) by (simp add: client_session_ok_def)
  then have "cin_data (cs_box h) = data_of (take (window_next (cs_replay h)) ?fs)"
    by (intro wire_to_inbound_data) (simp add: delivered_def)
  then have "prefix (cin_data (cs_box h)) (data_of ?fs)"
    by (simp add: data_of_prefix take_is_prefix)
  moreover have "prefix (data_of ?fs) (data_of (driver_stream d))" unfolding split by simp
  moreover have "prefix (pu_written p) (cin_data (client_taken es'))"
    using pump_exec_written [OF pump(1)] by (simp add: new_pump_def)
  ultimately show ?thesis
    using cin_data_prefix [OF pump(2)] eff(2) by (metis prefix_order.trans)
qed

section \<open>Nothing is lost\<close>

lemma graphic_ascii: "list_all ascii_graphic s \<Longrightarrow> list_all (\<lambda>b. b < 0x80) (as_bytes s)"
proof -
  have "byte_of_char c < 0x80" if "ascii_graphic c" for c
    using that by (simp add: ascii_graphic_def byte_of_char_def word_less_nat_alt unat_of_nat)
  then show "list_all ascii_graphic s \<Longrightarrow> ?thesis" by (simp add: list_all_iff as_bytes_def)
qed

lemma show_addr_graphic: "list_all ascii_graphic host \<Longrightarrow> list_all ascii_graphic (show_addr host port)"
  using dec_show_digits [of "unat port"]
  by (auto simp: show_addr_def list_all_iff ascii_graphic_def is_digit_def)

lemma connect_inbound:
  assumes "host \<noteq> []" "list_all ascii_graphic host" "hd host \<noteq> CHR ''[''" "port \<noteq> 0"
  shows "relay_inbound (build_wire_frame KConnect sid q (as_bytes (host @ '':'' @ dec_show (unat port))))
    = Some (InConnect host port)"
proof -
  have "utf8_valid (as_bytes (show_addr host port))"
    using utf8_valid_ascii [OF graphic_ascii [OF show_addr_graphic [OF assms(2)]]] .
  moreover have "parse_connect_addr (show_addr host port) = Inr (host, port)"
    using assms by (intro parse_show_addr) (auto simp: list_all_iff)
  ultimately show ?thesis
    by (simp add: relay_inbound_def frame_to_inbound_def build_wire_frame_def show_addr_def)
qed

lemma other_inbound: "fr_kind f \<in> {KData, KEof, KClose} \<Longrightarrow> relay_inbound f \<noteq> None"
  by (auto simp: relay_inbound_def frame_to_inbound_def)

lemma session_convertible:
  assumes "tunnel_connection_with_preface C pk sid esk cookie host port initial pre = Inr os"
    "wf_sid sid" "pump_exec (os_pump os) es p ret"
    and host: "host \<noteq> []" "list_all ascii_graphic host" "hd host \<noteq> CHR ''[''" "port \<noteq> 0"
  obtains rest where "map relay_inbound (session_stream os p) = map Some (InConnect host port # rest)"
proof -
  obtain fs where fs: "b_frames (os_open os) =
      build_wire_frame KConnect sid 0 (as_bytes (host @ '':'' @ dec_show (unat port))) # fs"
    "list_all (\<lambda>f. fr_kind f = KData) fs" "os_pump os = new_pump sid (1 + word_of_nat (length fs))"
    using tunnel_opened [OF assms(1)] by metis
  have "fr_kind f \<in> {KData, KEof, KClose}" if "f \<in> set (fs @ pump_stream p)" for f
    using that fs(2) pump_exec_kinds [OF assms(3)] fs(3) new_pump_fresh [OF assms(2)]
    by (auto simp: list_all_iff)
  then have "map relay_inbound (fs @ pump_stream p) = map Some (map (the \<circ> relay_inbound) (fs @ pump_stream p))"
    using other_inbound by fastforce
  then show thesis
    using connect_inbound [OF host, of sid 0] fs(1)
    by (intro that [of "map (the \<circ> relay_inbound) (fs @ pump_stream p)"]) (simp add: session_stream_def)
qed

text \<open>C1: a whole connection gets through: once the client's pump has returned and one listing of the
  relay shows all its files, the relay derives the client's keys, is asked to dial exactly the host and
  port of the CONNECT, and its driver is given every byte the client's local socket delivered, in
  order.\<close>

theorem upstream_complete:
  assumes crypto: "dh_agrees C" "aead_correct C" "aead_tag16 C"
    and client: "tunnel_connection_with_preface C (public_key C rs) sid esk cookie host port initial pre
        = Inr os" "wf_sid sid" "wf_hello (os_hello os)" "pump_exec (os_pump os) es p ret" "ret \<noteq> None"
      "batch_ok (os_open os)" "length (session_stream os p) \<le> 2 ^ 64"
    and host: "host \<noteq> []" "list_all ascii_graphic host" "hd host \<noteq> CHR ''[''" "port \<noteq> 0"
    and env: "join_permutes env" "\<forall>k. env_alive env k"
      "list_all2 (holds_batch C env (os_keys os) (os_hello os)) files (session_batches os p)"
    and listing: "listing cursor = Inr raw"
      "mset (filter (\<lambda>e. fn_sid (snd e) = sid \<and> fn_kind (snd e) = FnFrame ClientToRelay)
        (parsed_listing raw)) = mset files" "sessions sid = None"
  shows "\<exists>sessions' cursor' dels h rest.
    run_one_cycle C T env rs now call_start (Inr token :: (string, string) result) listing sessions cursor
      = (True, sessions', cursor', dels) \<and>
    sessions' sid = Some h \<and> sh_keys h = os_keys os \<and> sh_box h = InConnect host port # rest \<and>
    in_data (sh_box h) = preface_bytes initial pre @ concat (map (local_bytes \<circ> snd) es)"
proof -
  have init: "client_initiate C (public_key C rs) sid esk cookie = Inr (os_keys os, os_hello os)"
    using tunnel_opened [OF client(1)] by metis
  then have sid: "k_sid (os_keys os) = sid" by (auto simp: client_initiate_Inr split: prod.splits)
  have acc: "relay_accept C rs (k_sid (os_keys os)) (os_hello os) = Inr (os_keys os)"
    using relay_accept_agrees [OF crypto(1) init, of sid] sid by simp
  have all: "concat (map b_frames (session_batches os p)) = session_stream os p"
    using session_faithful(4) [OF client(1,2,4)] client(5) by simp
  note stream = session_batches_stream [OF client(1,2,4,6,7), unfolded all]
  obtain rest where rest: "map relay_inbound (session_stream os p) = map Some (InConnect host port # rest)"
    using session_convertible [OF client(1,2,4) host] .
  have some: "relay_inbound f \<noteq> None" if "f \<in> set (session_stream os p)" for f
  proof -
    have "relay_inbound f \<in> set (map relay_inbound (session_stream os p))" using that by simp
    then show ?thesis unfolding rest by auto
  qed
  then have conv: "list_all (\<lambda>f. relay_inbound f \<noteq> None) (session_stream os p)"
    by (simp add: list_all_iff)
  obtain sessions' cursor' dels h where run:
    "run_one_cycle C T env rs now call_start (Inr token :: (string, string) result) listing sessions cursor
      = (True, sessions', cursor', dels)"
    "sessions' sid = Some h" "sh_box h = map (the \<circ> relay_inbound) (session_stream os p)"
    "sh_keys h = os_keys os"
    using cycle_complete [where sessions = sessions and T = T and now = now and call_start = call_start
        and token = token and listing = listing and cursor = cursor, OF crypto(2,3) client(3) acc
        stream(1) [folded sid] conv _ stream(3,2) env listing(1) listing(2) [folded sid]
        listing(3) [folded sid]] sid
    by (auto simp: session_batches_def)
  have box: "sh_box h = InConnect host port # rest"
    using arg_cong [OF rest, of "map the"] by (simp add: run(3) comp_def)
  then have "map Some (sh_box h) = map relay_inbound (session_stream os p)" using rest by simp
  from relay_inbound_data [OF this] session_faithful(2) [OF client(1,2,4)]
  have "in_data (sh_box h) = preface_bytes initial pre @ concat (map (local_bytes \<circ> snd) es)" by simp
  then show ?thesis
    by (intro exI [of _ sessions'] exI [of _ cursor'] exI [of _ dels] exI [of _ h] exI [of _ rest]
        conjI run(1,2,4) box)
qed

section \<open>The sample connection\<close>

text \<open>The connection of \<open>sample_open\<close> and \<open>sample_pump\<close>, through the folder to a relay that dials and
  writes.\<close>

definition sample_rest :: batch where
  "sample_rest = \<lparr>b_frames = [build_wire_frame KData mini_sid 2 [6]]\<rparr>"

lemma sample_batches: "session_batches sample_open sample_pump = [os_open sample_open, sample_rest]"
  by (simp add: session_batches_def sample_pump_def flush_pump_def send_frame_def sample_open_def
      new_pump_def new_c2r_batcher_def push_c2r_frame_def flush_c2r_batch_def BATCH_MAX_FRAMES_def
      BATCH_FLUSH_BYTES_def sample_rest_def Let_def)

lemma sample_seqs: "first_seq (os_open sample_open) = 0" "first_seq sample_rest = 2"
  by (simp_all add: sample_open_def build_session_open_batch_def build_wire_frame_def sample_rest_def Let_def)

lemma sample_open_ok: "batch_ok (os_open sample_open)"
proof -
  have "length (dec_show 443) = 3" by (simp add: dec_show.simps)
  then show ?thesis
    by (simp add: sample_open_def build_session_open_batch_def Let_def)
      (rule batch_ok_intro, auto simp: build_wire_frame_def wf_frame_def wf_sid_def)
qed

lemma sample_length: "length (session_stream sample_open sample_pump) \<le> 2 ^ 64"
proof -
  have "session_stream sample_open sample_pump =
      concat (map b_frames (session_batches sample_open sample_pump))"
    using session_faithful(4) [OF sample_tunnel _ sample_pump_exec] by (simp add: wf_sid_def)
  then show ?thesis
    by (simp add: sample_batches) (simp add: sample_open_def build_session_open_batch_def sample_rest_def Let_def)
qed

lemma sample_sid: "wf_sid mini_sid" by (simp add: wf_sid_def)

abbreviation sample_env :: drive_env where "sample_env \<equiv> two_env (os_open sample_open) sample_rest"

lemma sample_holds: "list_all2 (holds_batch toy_crypto sample_env (os_keys sample_open) (os_hello sample_open))
    [mini_entry 0 ''x'', mini_entry 2 ''y''] (session_batches sample_open sample_pump)"
  using two_env_holds [OF sample_seqs(1), of sample_rest]
  by (simp add: sample_batches sample_seqs) (simp add: sample_open_def Let_def)

abbreviation sample_run :: "bool \<times> session_table \<times> string option \<times> string list" where
  "sample_run \<equiv> run_one_cycle toy_crypto no_time sample_env toy_secret 0 0 (Inr [] :: (string, string) result)
     (\<lambda>_. Inr [mini_file 2 ''y'', mini_file 0 ''x'']) (\<lambda>_. None) None"

lemma sample_hello: "os_hello sample_open = toy_hello" "os_keys sample_open = toy_keys"
  by (simp_all add: sample_open_def Let_def)

theorem upstream_complete_witness:
  "\<exists>sessions' cursor' dels h rest. sample_run = (True, sessions', cursor', dels) \<and>
    sessions' mini_sid = Some h \<and> sh_keys h = os_keys sample_open \<and> sh_box h = InConnect ''h'' 443 # rest \<and>
    in_data (sh_box h) = preface_bytes [] (PrefaceRead (Inr [5])) @ concat (map (local_bytes \<circ> snd) sample_pump_events)"
  by (rule upstream_complete [where sessions = "\<lambda>_. None" and cursor = None and
        listing = "\<lambda>_. Inr [mini_file 2 ''y'', mini_file 0 ''x'']", OF toy_crypto_ok(1,2,3)
        sample_tunnel sample_sid _ sample_pump_exec _ sample_open_ok sample_length _ _ _ _ two_env_fair
        sample_holds refl mini_listing [unfolded mini_keys] refl])
    (simp_all add: sample_hello toy_hello_wf ascii_graphic_def)

lemma sample_stream: "session_stream sample_open sample_pump =
    [build_wire_frame KConnect mini_sid 0 (as_bytes (''h'' @ '':'' @ dec_show (unat (443 :: u16)))),
     build_wire_frame KData mini_sid 1 [5], build_wire_frame KData mini_sid 2 [6]]"
  using session_faithful(4) [OF sample_tunnel sample_sid sample_pump_exec]
  by (simp add: sample_batches) (simp add: sample_open_def build_session_open_batch_def sample_rest_def Let_def)

lemma sample_inbound: "map (the \<circ> relay_inbound) (session_stream sample_open sample_pump)
    = [InConnect ''h'' 443, InData [5], InData [6]]"
proof -
  have "relay_inbound (build_wire_frame KConnect mini_sid 0
      (as_bytes (''h'' @ '':'' @ dec_show (unat (443 :: u16))))) = Some (InConnect ''h'' 443)"
    by (rule connect_inbound) (simp_all add: ascii_graphic_def)
  then show ?thesis
    unfolding sample_stream by (simp add: relay_inbound_def frame_to_inbound_def build_wire_frame_def)
qed

lemma sample_rest_length: "length (encode_batch sample_rest) < 64"
proof -
  have "list_all wf_frame (b_frames sample_rest)"
    by (simp add: sample_rest_def build_wire_frame_def wf_frame_def wf_sid_def)
  then show ?thesis by (simp add: length_encode_batch) (simp add: sample_rest_def build_wire_frame_def)
qed

lemma sample_relay_state:
  obtains sessions cursor h where "relay_exec (unforged toy_crypto (k_c2r (sh_keys h)) mini_sid
      (session_batches sample_open sample_pump)) toy_crypto no_time toy_secret sessions cursor"
    "sessions mini_sid = Some h" "sh_box h = [InConnect ''h'' 443, InData [5], InData [6]]"
proof -
  have all: "concat (map b_frames (session_batches sample_open sample_pump)) = session_stream sample_open sample_pump"
    using session_faithful(4) [OF sample_tunnel sample_sid sample_pump_exec] by simp
  note stream = session_batches_stream [OF sample_tunnel sample_sid sample_pump_exec sample_open_ok
      sample_length, unfolded all]
  obtain rest where rest: "map relay_inbound (session_stream sample_open sample_pump)
      = map Some (InConnect ''h'' 443 # rest)"
    by (rule session_convertible [OF sample_tunnel sample_sid sample_pump_exec])
      (simp_all add: ascii_graphic_def)
  have conv: "list_all (\<lambda>f. relay_inbound f \<noteq> None) (session_stream sample_open sample_pump)"
    unfolding list_all_iff using arg_cong [OF rest, of set] by (metis image_set imageI imageE option.distinct(1))
  obtain sessions cursor dels h where run: "sample_run = (True, sessions, cursor, dels)"
    and h: "sessions mini_sid = Some h" "sh_box h = map (the \<circ> relay_inbound) (session_stream sample_open sample_pump)"
    using cycle_complete [where sessions = "\<lambda>_. None" and cursor = None and T = no_time and now = 0
      and call_start = 0 and token = "[]" and listing = "\<lambda>_. Inr [mini_file 2 ''y'', mini_file 0 ''x'']",
      OF toy_crypto_ok(2,3) toy_hello_wf mini_accept stream(1) [folded mini_keys] conv _ stream(3,2)
      two_env_fair sample_holds [unfolded sample_hello] refl mini_listing refl]
    by (auto simp: sample_batches mini_keys)
  have unf: "unforged toy_crypto k mini_sid (session_batches sample_open sample_pump) sample_env" for k
    unfolding sample_batches by (rule two_env_unforged) (simp_all add: sample_seqs sample_rest_length)
  have "relay_exec (unforged toy_crypto (k_c2r (sh_keys h)) mini_sid (session_batches sample_open sample_pump))
      toy_crypto no_time toy_secret sessions cursor"
    using relay_init unf two_env_fair(1) run by (rule relay_cycle)
  with h sample_inbound that show thesis by simp
qed

definition sample_writer :: driver where
  "sample_writer = fst (driver_step 2 (EvInbound (Some (InData [5])) True) sample_driver)"

lemma sample_dial: "driver_start [] mini_sid 1 (Some (InConnect ''h'' 443)) (\<lambda>_ _. Some (Inr ()))
    = (None, Some sample_driver)"
  by (simp add: driver_start_def sample_driver_def destination_allowed_def to_ascii_lowercase_def
      ascii_lower_def trim_end_matches_def parse_ip_addr_def read_ipv4_def read_octet_def read_number_def
      to_digit_def read_ipv6_def read_groups.simps read_sep_def read_char_def Let_def)

lemma sample_write: "driver_exec sample_driver ([] @ [(2, EvInbound (Some (InData [5])) True)]) sample_writer False"
  by (rule exec_step [OF exec_start])
    (simp_all add: driver_enabled_def sample_writer_def sample_driver_def)

theorem upstream_prefix_witness:
  "prefix (dr_written sample_writer)
     (preface_bytes [] (PrefaceRead (Inr [5])) @ concat (map (local_bytes \<circ> snd) sample_pump_events))"
proof -
  obtain sessions cursor h where x: "relay_exec (unforged toy_crypto (k_c2r (sh_keys h)) mini_sid
      (session_batches sample_open sample_pump)) toy_crypto no_time toy_secret sessions cursor"
    and h: "sessions mini_sid = Some h" "sh_box h = [InConnect ''h'' 443, InData [5], InData [6]]"
    by (rule sample_relay_state)
  have "prefix (InConnect ''h'' 443 # taken ([] @ [(2, EvInbound (Some (InData [5])) True)])) (sh_box h)"
    unfolding h(2) by (simp add: taken_def)
  from upstream_prefix [OF sample_tunnel sample_sid sample_pump_exec sample_open_ok sample_length x h(1)
      sample_dial sample_write this]
  show ?thesis .
qed

definition sample_reader :: pump where
  "sample_reader = (new_pump mini_sid 1)\<lparr>pu_written := [1, 2]\<rparr>"

lemma sample_read: "pump_exec (new_pump mini_sid 1) ([] @ [(5, PeInbound (Some (CInData [1, 2])) (Inr ()))])
    sample_reader None"
  by (rule pump_next [OF pump_start])
    (simp_all add: pump_enabled_def sample_reader_def new_pump_def)

theorem downstream_prefix_witness:
  "prefix (pu_written sample_reader) (concat (map (read_bytes \<circ> snd) sample_events))"
proof -
  obtain sessions cursor h where x: "client_exec (r2c_unforged toy_crypto (k_r2c (cs_keys h)) mini_sid
      [batch_single mini_reply]) toy_crypto no_time sessions cursor"
    and h: "sessions mini_sid = Some h" "cs_box h = [CInData [1, 2]]"
    by (rule mini_client_state)
  have spawned: "rb_spawned (dr_batcher sample_final) = [batch_single mini_reply]"
    by (simp add: sample_spawned mini_reply_def batch_single_def)
  have "driver_stream sample_final = [mini_reply]"
    using spawned driver_exec_effect [OF sample_exec] driver_start_fresh [OF sample_start sample_sid]
    by (simp add: driver_stream_def batch_single_def)
  then have len: "length (driver_stream sample_final) \<le> 2 ^ 64" by simp
  have "prefix (client_taken ([] @ [(5, PeInbound (Some (CInData [1, 2])) (Inr ()))])) (cs_box h)"
    unfolding h(2) by (simp add: client_taken_def)
  from downstream_prefix [OF sample_start sample_sid sample_exec len x [folded spawned] h(1) sample_read this]
  show ?thesis .
qed

end
