(* ===== verification/Relay_Config.thy ===== *)
theory Relay_Config
  imports Rust_Str
begin

text \<open>
  The relay's configuration (\<^verbatim>\<open>drive-relay/src/config.rs\<close>): its fields and defaults, the placeholder
  written before the operator has filled it in, and the validation the \<^verbatim>\<open>run\<close> command does first. The
  message of an invalid configuration is represented by the check that failed; reading, writing and
  JSON are outside.
\<close>

record relay_config =
  rc_oauth_client_id :: string
  rc_oauth_client_secret :: string
  rc_oauth_refresh_token :: string
  rc_folder_id :: string
  rc_x25519_secret_key_path :: string
  rc_poll_interval_ms :: u32
  rc_max_concurrent_dials :: byte
  rc_idle_timeout_secs :: u32
  rc_allow_destinations :: "string list"
  rc_metrics_bind :: "string option"

definition DEFAULT_KEY_PATH :: string where
  "DEFAULT_KEY_PATH = ''/etc/rahgozar-drive-relay/relay.key''"

definition default_poll_interval_ms :: u32 where "default_poll_interval_ms = 300"
definition default_max_concurrent_dials :: byte where "default_max_concurrent_dials = 8"
definition default_idle_timeout_secs :: u32 where "default_idle_timeout_secs = 120"

definition relay_placeholder :: relay_config where
  "relay_placeholder =
     \<lparr>rc_oauth_client_id = [], rc_oauth_client_secret = [], rc_oauth_refresh_token = [],
      rc_folder_id = [], rc_x25519_secret_key_path = DEFAULT_KEY_PATH,
      rc_poll_interval_ms = default_poll_interval_ms,
      rc_max_concurrent_dials = default_max_concurrent_dials,
      rc_idle_timeout_secs = default_idle_timeout_secs, rc_allow_destinations = [],
      rc_metrics_bind = None\<rparr>"

datatype relay_config_problem =
    EmptyClientId | EmptyClientSecret | EmptyRefreshToken | EmptyFolderId | MissingKeyFile string
  | ZeroPollInterval | ZeroConcurrentDials | ZeroIdleTimeout

text \<open>\<open>exists_path\<close> tells whether a path exists.\<close>

definition relay_validate :: "(string \<Rightarrow> bool) \<Rightarrow> relay_config \<Rightarrow> (unit, relay_config_problem) result" where
  "relay_validate exists_path cfg =
     (if trim (rc_oauth_client_id cfg) = [] then Inl EmptyClientId
      else if trim (rc_oauth_client_secret cfg) = [] then Inl EmptyClientSecret
      else if trim (rc_oauth_refresh_token cfg) = [] then Inl EmptyRefreshToken
      else if trim (rc_folder_id cfg) = [] then Inl EmptyFolderId
      else if \<not> exists_path (rc_x25519_secret_key_path cfg)
      then Inl (MissingKeyFile (rc_x25519_secret_key_path cfg))
      else if rc_poll_interval_ms cfg = 0 then Inl ZeroPollInterval
      else if rc_max_concurrent_dials cfg = 0 then Inl ZeroConcurrentDials
      else if rc_idle_timeout_secs cfg = 0 then Inl ZeroIdleTimeout
      else Inr ())"

end
