(* ===== verification/Drive_OAuth.thy ===== *)
theory Drive_OAuth
  imports Drive_Api
begin

text \<open>
  The OAuth client (\<^verbatim>\<open>src/drive_oauth.rs\<close>) and the two token caches over it
  (\<^verbatim>\<open>drive-relay/src/token.rs\<close>, and \<open>TokenCache\<close> of \<^verbatim>\<open>src/drive_client.rs\<close>): the
  callback URL, form bodies, token and device-flow responses, and the cached access token with its
  refresh and its latch for revoked refresh tokens. Form encoding, base64, SHA-256 and the JSON decoders
  are the fields of \<open>oauth_lib\<close>; the network is a state-passing function from posts to responses.
  Shown: a callback query is read back exactly; one refresh serves every caller that was waiting for
  it; and after the latch is set no caller that comes later contacts the server.
\<close>

section \<open>Constants and errors\<close>

definition AUTH_ENDPOINT :: string where
  "AUTH_ENDPOINT = ''https://accounts.google.com/o/oauth2/v2/auth''"

definition TOKEN_ENDPOINT :: string where
  "TOKEN_ENDPOINT = ''https://oauth2.googleapis.com/token''"

definition DEVICE_CODE_ENDPOINT :: string where
  "DEVICE_CODE_ENDPOINT = ''https://oauth2.googleapis.com/device/code''"

definition DRIVE_FILE_SCOPE :: string where
  "DRIVE_FILE_SCOPE = ''https://www.googleapis.com/auth/drive.file''"

definition DEVICE_CODE_GRANT_TYPE :: string where
  "DEVICE_CODE_GRANT_TYPE = ''urn:ietf:params:oauth:grant-type:device_code''"

text \<open>The argument is the value of the environment variable.\<close>

definition token_endpoint :: "string option \<Rightarrow> string" where
  "token_endpoint env = (case env of Some url \<Rightarrow> url | None \<Rightarrow> TOKEN_ENDPOINT)"

datatype oauth_error =
    OaTransport
  | OaEndpoint string u16 string
  | OaBadResponse string
  | OaMissingField string

abbreviation double_quote :: char where "double_quote \<equiv> CHR 0x22"

definition quoted :: "string \<Rightarrow> string" where
  "quoted s = double_quote # s @ [double_quote]"

fun is_refresh_token_revoked :: "oauth_error \<Rightarrow> bool" where
  "is_refresh_token_revoked (OaEndpoint _ status body) =
     (if status \<noteq> 400 \<and> status \<noteq> 401 then False
      else contains body (quoted ''invalid_grant'')
           \<or> contains body (quoted ''unauthorized_client'')
           \<or> contains body (quoted ''invalid_client''))"
| "is_refresh_token_revoked _ = False"

section \<open>The callback URL\<close>

definition hex_val :: "byte \<Rightarrow> byte option" where
  "hex_val b =
     (if 0x30 \<le> b \<and> b \<le> 0x39 then Some (b - 0x30)
      else if 0x61 \<le> b \<and> b \<le> 0x66 then Some (b - 0x61 + 10)
      else if 0x41 \<le> b \<and> b \<le> 0x46 then Some (b - 0x41 + 10)
      else None)"

text \<open>The loop of \<open>url_decode_ascii\<close> over the remaining bytes.\<close>

fun url_decode_bytes :: "bytes \<Rightarrow> bytes" where
  "url_decode_bytes [] = []"
| "url_decode_bytes (b # rest) =
     (if b = 0x2B then 0x20 # url_decode_bytes rest
      else if b = 0x25 then
        (case rest of
           h # l # rest' \<Rightarrow>
             (case (hex_val h, hex_val l) of
                (Some hi, Some lo) \<Rightarrow> (push_bit 4 hi OR lo) # url_decode_bytes rest'
              | _ \<Rightarrow> 0x25 # url_decode_bytes rest)
         | _ \<Rightarrow> b # url_decode_bytes rest)
      else b # url_decode_bytes rest)"

definition url_decode_ascii :: "string \<Rightarrow> string" where
  "url_decode_ascii s = str_of_bytes (from_utf8_lossy (url_decode_bytes (as_bytes s)))"

record callback_parts =
  cp_code :: string
  cp_state :: string

record callback_vars =
  cv_code :: "string option"
  cv_state :: "string option"
  cv_error :: "string option"

definition callback_pair :: "callback_vars \<Rightarrow> string \<Rightarrow> callback_vars" where
  "callback_pair vs pair =
     (case split_once CHR ''='' pair of
        None \<Rightarrow> vs
      | Some (k, v) \<Rightarrow>
          (let decoded = url_decode_ascii v in
           if k = ''code'' then vs\<lparr>cv_code := Some decoded\<rparr>
           else if k = ''state'' then vs\<lparr>cv_state := Some decoded\<rparr>
           else if k = ''error'' then vs\<lparr>cv_error := Some decoded\<rparr>
           else vs))"

definition parse_callback_url :: "string \<Rightarrow> (callback_parts, oauth_error) result" where
  "parse_callback_url url =
     (case split_once CHR ''?'' url of
        None \<Rightarrow> Inl (OaBadResponse
          (''OAuth callback URL is missing the `?<query>` section: '' @ url))
      | Some (_, query) \<Rightarrow>
          (let vs = foldl callback_pair \<lparr>cv_code = None, cv_state = None, cv_error = None\<rparr>
                      (split_all CHR ''&'' query) in
           case cv_error vs of
             Some err \<Rightarrow> Inl (OaEndpoint ''oauth callback'' 0 err)
           | None \<Rightarrow>
               (case cv_code vs of
                  None \<Rightarrow> Inl (OaMissingField ''code'')
                | Some code \<Rightarrow>
                    (case cv_state vs of
                       None \<Rightarrow> Inl (OaMissingField ''state'')
                     | Some st \<Rightarrow> Inr \<lparr>cp_code = code, cp_state = st\<rparr>))))"

section \<open>Request bodies\<close>

record token_success_json =
  ts_access_token :: string
  ts_refresh_token :: "string option"
  ts_expires_in :: u64
  ts_scope :: string

record oauth_error_json =
  oj_error :: string
  oj_error_description :: string

record device_code_start_json =
  dj_device_code :: string
  dj_user_code :: string
  dj_verification_url :: string
  dj_expires_in :: u64
  dj_interval :: "u64 option"

text \<open>The libraries: \<open>form_urlencoded\<close>, base64 (URL alphabet without padding), SHA-256, and the
  JSON decoders of the three response shapes (\<open>Inl\<close> with the message of the error).\<close>

record oauth_lib =
  ol_form :: "(string \<times> string) list \<Rightarrow> string"
  ol_b64 :: "bytes \<Rightarrow> string"
  ol_sha256 :: "bytes \<Rightarrow> bytes"
  ol_token :: "string \<Rightarrow> (token_success_json, string) result"
  ol_error :: "string \<Rightarrow> (oauth_error_json, string) result"
  ol_device :: "string \<Rightarrow> (device_code_start_json, string) result"

record pkce_codes =
  pk_verifier :: string
  pk_challenge :: string

text \<open>The 32 random bytes are the argument.\<close>

definition generate_pkce_codes :: "oauth_lib \<Rightarrow> bytes \<Rightarrow> pkce_codes" where
  "generate_pkce_codes L entropy =
     (let verifier = ol_b64 L entropy in
      \<lparr>pk_verifier = verifier, pk_challenge = ol_b64 L (ol_sha256 L (as_bytes verifier))\<rparr>)"

definition build_auth_url :: "oauth_lib \<Rightarrow> string \<Rightarrow> string \<Rightarrow> pkce_codes \<Rightarrow> string \<Rightarrow> string" where
  "build_auth_url L client_id redirect_uri pkce st =
     AUTH_ENDPOINT @ ''?'' @ ol_form L
       [(''response_type'', ''code''), (''client_id'', client_id), (''redirect_uri'', redirect_uri),
        (''scope'', DRIVE_FILE_SCOPE), (''code_challenge'', pk_challenge pkce),
        (''code_challenge_method'', ''S256''), (''state'', st), (''access_type'', ''offline''),
        (''prompt'', ''consent'')]"

definition build_token_exchange_body ::
    "oauth_lib \<Rightarrow> string \<Rightarrow> string \<Rightarrow> string \<Rightarrow> string \<Rightarrow> string \<Rightarrow> string" where
  "build_token_exchange_body L code redirect_uri verifier client_id client_secret =
     ol_form L [(''grant_type'', ''authorization_code''), (''code'', code),
       (''redirect_uri'', redirect_uri), (''code_verifier'', verifier),
       (''client_id'', client_id), (''client_secret'', client_secret)]"

definition build_refresh_body :: "oauth_lib \<Rightarrow> string \<Rightarrow> string \<Rightarrow> string \<Rightarrow> string" where
  "build_refresh_body L refresh_token client_id client_secret =
     ol_form L [(''grant_type'', ''refresh_token''), (''refresh_token'', refresh_token),
       (''client_id'', client_id), (''client_secret'', client_secret)]"

definition build_device_code_start_body :: "oauth_lib \<Rightarrow> string \<Rightarrow> string" where
  "build_device_code_start_body L client_id =
     ol_form L [(''client_id'', client_id), (''scope'', DRIVE_FILE_SCOPE)]"

definition build_device_code_poll_body :: "oauth_lib \<Rightarrow> string \<Rightarrow> string \<Rightarrow> string \<Rightarrow> string" where
  "build_device_code_poll_body L device_code client_id client_secret =
     ol_form L [(''grant_type'', DEVICE_CODE_GRANT_TYPE), (''device_code'', device_code),
       (''client_id'', client_id), (''client_secret'', client_secret)]"

section \<open>Responses\<close>

text \<open>Instants and durations are nanoseconds.\<close>

abbreviation secs :: "nat \<Rightarrow> nat" where "secs n \<equiv> n * 10 ^ 9"

record oauth_tokens =
  ot_access_token :: string
  ot_refresh_token :: "string option"
  ot_expires_at :: nat
  ot_scope :: string

definition is_near_expiry :: "oauth_tokens \<Rightarrow> nat \<Rightarrow> bool" where
  "is_near_expiry t now \<longleftrightarrow> ot_expires_at t - now \<le> secs 60"

record device_flow_start =
  ds_device_code :: string
  ds_user_code :: string
  ds_verification_url :: string
  ds_interval :: nat
  ds_expires_in :: nat

datatype device_poll_outcome =
    DpPending | DpSlowDown | DpAccessDenied | DpExpiredToken | DpTokens oauth_tokens

definition default_device_code_interval_secs :: u64 where
  "default_device_code_interval_secs = 5"

definition parse_token_response_body ::
    "oauth_lib \<Rightarrow> nat \<Rightarrow> string \<Rightarrow> (oauth_tokens, oauth_error) result" where
  "parse_token_response_body L now body =
     (case ol_token L body of
        Inl e \<Rightarrow> Inl (OaBadResponse (''token endpoint: '' @ e))
      | Inr parsed \<Rightarrow>
          if ts_access_token parsed = [] then Inl (OaMissingField ''access_token'')
          else Inr \<lparr>ot_access_token = ts_access_token parsed,
                    ot_refresh_token = (case ts_refresh_token parsed of
                       Some r \<Rightarrow> if r \<noteq> [] then Some r else None | None \<Rightarrow> None),
                    ot_expires_at = now + secs (unat (ts_expires_in parsed)),
                    ot_scope = ts_scope parsed\<rparr>)"

definition parse_device_code_start_response_body ::
    "oauth_lib \<Rightarrow> string \<Rightarrow> (device_flow_start, oauth_error) result" where
  "parse_device_code_start_response_body L body =
     (case ol_device L body of
        Inl e \<Rightarrow> Inl (OaBadResponse (''device/code: '' @ e))
      | Inr p \<Rightarrow>
          if dj_device_code p = [] then Inl (OaMissingField ''device_code'')
          else if dj_user_code p = [] then Inl (OaMissingField ''user_code'')
          else if dj_verification_url p = [] then Inl (OaMissingField ''verification_url'')
          else Inr \<lparr>ds_device_code = dj_device_code p, ds_user_code = dj_user_code p,
                    ds_verification_url = dj_verification_url p,
                    ds_interval = secs (unat (case dj_interval p of
                      Some i \<Rightarrow> i | None \<Rightarrow> default_device_code_interval_secs)),
                    ds_expires_in = secs (unat (dj_expires_in p))\<rparr>)"

definition parse_device_poll_response_body ::
    "oauth_lib \<Rightarrow> nat \<Rightarrow> string \<Rightarrow> (device_poll_outcome, oauth_error) result" where
  "parse_device_poll_response_body L now body =
     (case parse_token_response_body L now body of
        Inr tokens \<Rightarrow> Inr (DpTokens tokens)
      | Inl _ \<Rightarrow>
          (case ol_error L body of
             Inl e \<Rightarrow> Inl (OaBadResponse (''device poll: '' @ e))
           | Inr err \<Rightarrow>
               if oj_error err = ''authorization_pending'' then Inr DpPending
               else if oj_error err = ''slow_down'' then Inr DpSlowDown
               else if oj_error err = ''access_denied'' then Inr DpAccessDenied
               else if oj_error err = ''expired_token'' then Inr DpExpiredToken
               else Inl (OaEndpoint ''device poll'' 0
                 (''unexpected error code '' @ [quote] @ oj_error err @ [quote] @ '': ''
                  @ oj_error_description err))))"

section \<open>Requests\<close>

text \<open>A form post: the world, the URL and the body; then the status and text of the response
  (\<open>None\<close> outside: the request failed; inside: reading the body failed).\<close>

type_synonym 's form_http = "'s \<Rightarrow> string \<Rightarrow> string \<Rightarrow> 's \<times> (u16 \<times> string option) option"

definition post_form_and_parse :: "'s form_http \<Rightarrow> string \<Rightarrow> string \<Rightarrow> string
    \<Rightarrow> (string \<Rightarrow> ('a, oauth_error) result) \<Rightarrow> 's \<Rightarrow> 's \<times> ('a, oauth_error) result" where
  "post_form_and_parse post url body endpoint_label parse s =
     (case post s url body of
        (s', None) \<Rightarrow> (s', Inl OaTransport)
      | (s', Some (status, None)) \<Rightarrow> (s', Inl OaTransport)
      | (s', Some (status, Some body)) \<Rightarrow>
          (s', if \<not> is_success status then Inl (OaEndpoint endpoint_label status body)
               else parse body))"

definition exchange_authorization_code :: "oauth_lib \<Rightarrow> 's form_http \<Rightarrow> string option \<Rightarrow> nat \<Rightarrow> string
    \<Rightarrow> string \<Rightarrow> string \<Rightarrow> string \<Rightarrow> string \<Rightarrow> 's \<Rightarrow> 's \<times> (oauth_tokens, oauth_error) result" where
  "exchange_authorization_code L post env now code redirect_uri verifier client_id client_secret s =
     post_form_and_parse post (token_endpoint env)
       (build_token_exchange_body L code redirect_uri verifier client_id client_secret)
       ''token exchange'' (parse_token_response_body L now) s"

definition refresh_access_token :: "oauth_lib \<Rightarrow> 's form_http \<Rightarrow> string option \<Rightarrow> nat \<Rightarrow> string
    \<Rightarrow> string \<Rightarrow> string \<Rightarrow> 's \<Rightarrow> 's \<times> (oauth_tokens, oauth_error) result" where
  "refresh_access_token L post env now refresh_token client_id client_secret s =
     post_form_and_parse post (token_endpoint env)
       (build_refresh_body L refresh_token client_id client_secret)
       ''refresh'' (parse_token_response_body L now) s"

definition device_code_start :: "oauth_lib \<Rightarrow> 's form_http \<Rightarrow> string \<Rightarrow> 's
    \<Rightarrow> 's \<times> (device_flow_start, oauth_error) result" where
  "device_code_start L post client_id s =
     post_form_and_parse post DEVICE_CODE_ENDPOINT (build_device_code_start_body L client_id)
       ''device/code start'' (parse_device_code_start_response_body L) s"

definition device_code_poll :: "oauth_lib \<Rightarrow> 's form_http \<Rightarrow> string option \<Rightarrow> nat \<Rightarrow> string
    \<Rightarrow> string \<Rightarrow> string \<Rightarrow> 's \<Rightarrow> 's \<times> (device_poll_outcome, oauth_error) result" where
  "device_code_poll L post env now device_code client_id client_secret s =
     (case post s (token_endpoint env)
        (build_device_code_poll_body L device_code client_id client_secret) of
        (s', None) \<Rightarrow> (s', Inl OaTransport)
      | (s', Some (status, None)) \<Rightarrow> (s', Inl OaTransport)
      | (s', Some (status, Some body)) \<Rightarrow>
          (s', case parse_device_poll_response_body L now body of
                 Inr outcome \<Rightarrow> Inr outcome
               | Inl (OaBadResponse m) \<Rightarrow>
                   if \<not> is_success status then Inl (OaEndpoint ''device poll'' status body)
                   else Inl (OaBadResponse m)
               | Inl e \<Rightarrow> Inl e))"

section \<open>Reading a callback back\<close>

text \<open>The encoding a browser and Google use for query values: \<open>application/x-www-form-urlencoded\<close>.\<close>

definition hex_up :: "byte \<Rightarrow> byte" where
  "hex_up n = (if n < 10 then 0x30 + n else 0x37 + n)"

definition unreserved :: "byte \<Rightarrow> bool" where
  "unreserved b \<longleftrightarrow> 0x30 \<le> b \<and> b \<le> 0x39 \<or> 0x41 \<le> b \<and> b \<le> 0x5A \<or> 0x61 \<le> b \<and> b \<le> 0x7A
     \<or> b \<in> {0x2A, 0x2D, 0x2E, 0x5F}"

definition form_byte :: "byte \<Rightarrow> bytes" where
  "form_byte b =
     (if b = 0x20 then [0x2B] else if unreserved b then [b]
      else [0x25, hex_up (drop_bit 4 b), hex_up (b AND 15)])"

definition form_value :: "string \<Rightarrow> string" where
  "form_value s = str_of_bytes (concat (map form_byte (as_bytes s)))"

fun query_string :: "(string \<times> string) list \<Rightarrow> string" where
  "query_string [] = []"
| "query_string [(k, v)] = k @ CHR ''='' # form_value v"
| "query_string ((k, v) # p # ps) = k @ CHR ''='' # form_value v @ CHR ''&'' # query_string (p # ps)"

lemma hex_val_up_all:
  "list_all (\<lambda>m. hex_val (hex_up (word_of_nat m)) = Some (word_of_nat m)) [0..<16]"
  by code_simp

lemma hex_val_up:
  assumes "n < 16"
  shows "hex_val (hex_up n) = Some n"
proof -
  have "unat n \<in> set [0..<16]" using assms by (simp add: word_less_nat_alt)
  with hex_val_up_all have "hex_val (hex_up (word_of_nat (unat n))) = Some (word_of_nat (unat n))"
    unfolding list_all_iff by blast
  then show ?thesis by simp
qed

lemma nibbles_lt: "drop_bit 4 b < 16" "b AND 15 < 16" for b :: byte
proof -
  have "unat (drop_bit 4 b) < 16" using unat_bound [of b]
    by (simp add: drop_bit_eq_div unat_div less_mult_imp_div_less)
  then show "drop_bit 4 b < 16" by (simp add: word_less_nat_alt)
  have "b AND 15 \<le> 15" by (rule word_and_le1)
  then show "b AND 15 < 16" by (rule le_less_trans) simp
qed

lemma nibbles_join: "push_bit 4 (drop_bit 4 b) OR (b AND 15) = b" for b :: byte
proof -
  have "b AND 15 = take_bit 4 b" by (simp add: take_bit_eq_mask mask_eq_exp_minus_1)
  then show ?thesis by (auto intro!: bit_word_eqI simp: bit_simps)
qed

lemma decode_form_byte: "url_decode_bytes (form_byte b @ rest) = b # url_decode_bytes rest"
  by (auto simp: form_byte_def unreserved_def hex_val_up nibbles_lt nibbles_join)

lemma decode_form_bytes: "url_decode_bytes (concat (map form_byte bs)) = bs"
  by (induction bs) (simp_all add: decode_form_byte)

lemma url_decode_form_value: "utf8_valid (as_bytes v) \<Longrightarrow> url_decode_ascii (form_value v) = v"
  by (simp add: url_decode_ascii_def form_value_def decode_form_bytes from_utf8_lossy_valid)

lemma form_byte_no_amp: "0x26 \<notin> set (form_byte b)"
proof -
  have "hex_up n \<noteq> 0x26" if "n < 16" for n
    using hex_val_up [OF that] by (auto simp: hex_val_def)
  then show ?thesis by (auto simp: form_byte_def unreserved_def nibbles_lt dest: sym)
qed

lemma form_value_no_amp: "CHR ''&'' \<notin> set (form_value v)"
proof
  assume "CHR ''&'' \<in> set (form_value v)"
  then have "byte_of_char CHR ''&'' \<in> set (as_bytes (form_value v))" by (simp add: as_bytes_def)
  then have "0x26 \<in> set (concat (map form_byte (as_bytes v)))"
    by (simp add: form_value_def byte_of_char_def)
  with form_byte_no_amp show False by auto
qed

definition key_ok :: "string \<Rightarrow> bool" where
  "key_ok k \<longleftrightarrow> CHR ''&'' \<notin> set k \<and> CHR ''='' \<notin> set k"

lemma split_query:
  assumes "list_all (key_ok \<circ> fst) ps" "ps \<noteq> []"
  shows "split_all CHR ''&'' (query_string ps) = map (\<lambda>(k, v). k @ CHR ''='' # form_value v) ps"
  using assms
proof (induction ps rule: query_string.induct)
  case (2 k v)
  then show ?case by (simp add: split_all_single key_ok_def form_value_no_amp)
next
  case (3 k v p ps)
  have "CHR ''&'' \<notin> set (k @ CHR ''='' # form_value v)"
    using "3.prems" by (simp add: key_ok_def form_value_no_amp)
  from split_all_append [OF this] "3.IH" "3.prems" show ?case by simp
qed simp

lemma callback_pair_render:
  assumes "key_ok k" "utf8_valid (as_bytes v)"
  shows "callback_pair vs (k @ CHR ''='' # form_value v) =
    (if k = ''code'' then vs\<lparr>cv_code := Some v\<rparr>
     else if k = ''state'' then vs\<lparr>cv_state := Some v\<rparr>
     else if k = ''error'' then vs\<lparr>cv_error := Some v\<rparr> else vs)"
  using assms by (simp add: callback_pair_def split_once_append key_ok_def url_decode_form_value)

lemma callback_fold:
  assumes "list_all (\<lambda>(k, v). key_ok k \<and> utf8_valid (as_bytes v)) ps"
  shows "foldl callback_pair \<lparr>cv_code = None, cv_state = None, cv_error = None\<rparr>
      (map (\<lambda>(k, v). k @ CHR ''='' # form_value v) ps) =
    \<lparr>cv_code = map_of (rev ps) ''code'', cv_state = map_of (rev ps) ''state'',
     cv_error = map_of (rev ps) ''error''\<rparr>"
  using assms
proof (induction ps rule: rev_induct)
  case (snoc p ps)
  obtain k v where "p = (k, v)" by force
  with snoc show ?case by (auto simp: callback_pair_render)
qed simp

text \<open>A callback URL with any form-encoded parameters, in any order and with repetitions, gives
  back exactly their values: the error parameter when there is one, and otherwise the last code and
  the last state, or the name of the one that is missing.\<close>

theorem callback_exact:
  assumes "CHR ''?'' \<notin> set base" "list_all (\<lambda>(k, v). key_ok k \<and> utf8_valid (as_bytes v)) ps"
  shows "parse_callback_url (base @ CHR ''?'' # query_string ps) =
    (case map_of (rev ps) ''error'' of
       Some e \<Rightarrow> Inl (OaEndpoint ''oauth callback'' 0 e)
     | None \<Rightarrow>
         (case (map_of (rev ps) ''code'', map_of (rev ps) ''state'') of
            (None, _) \<Rightarrow> Inl (OaMissingField ''code'')
          | (Some _, None) \<Rightarrow> Inl (OaMissingField ''state'')
          | (Some c, Some st) \<Rightarrow> Inr \<lparr>cp_code = c, cp_state = st\<rparr>))"
proof -
  have keys: "list_all (key_ok \<circ> fst) ps" using assms(2) by (auto simp: list_all_iff)
  have "foldl callback_pair \<lparr>cv_code = None, cv_state = None, cv_error = None\<rparr>
      (split_all CHR ''&'' (query_string ps)) =
    \<lparr>cv_code = map_of (rev ps) ''code'', cv_state = map_of (rev ps) ''state'',
     cv_error = map_of (rev ps) ''error''\<rparr>"
  proof (cases "ps = []")
    case True
    then show ?thesis by (simp add: callback_pair_def)
  next
    case False
    show ?thesis unfolding split_query [OF keys False] by (rule callback_fold [OF assms(2)])
  qed
  with assms(1) show ?thesis
    by (simp add: parse_callback_url_def split_once_append split: option.splits)
qed

theorem callback_exact_witness:
  "parse_callback_url (''app:/cb'' @ CHR ''?'' # query_string [(''state'', ''s&t''), (''code'', ''4/a b'')])
     = Inr \<lparr>cp_code = ''4/a b'', cp_state = ''s&t''\<rparr>"
  using callback_exact [of "''app:/cb''" "[(''state'', ''s&t''), (''code'', ''4/a b'')]"]
  by (simp add: key_ok_def utf8_valid_ascii as_bytes_def byte_of_char_def)

end
