(* ===== verification/Token_Cache.thy ===== *)
theory Token_Cache
  imports Drive_OAuth
begin

text \<open>
  The two access-token caches: the relay's (\<^verbatim>\<open>drive-relay/src/token.rs\<close>), with its latch for
  revoked refresh tokens, and the client's (\<open>TokenCache\<close> of \<^verbatim>\<open>src/drive_client.rs\<close>), without.
  Both hold a mutex across the refresh, so that concurrent calls are a sequence of critical sections;
  the relay reads its latch before it asks for the mutex. The locale \<open>single_flight\<close> is the
  contract of the critical section; both caches interpret it.
\<close>

section \<open>The relay's cache\<close>

record token_cache =
  tc_refresh_token :: string
  tc_client_id :: string
  tc_client_secret :: string
  tc_cached :: "oauth_tokens option"
  tc_revoked :: bool

definition new_token_cache :: "string \<Rightarrow> string \<Rightarrow> string \<Rightarrow> token_cache" where
  "new_token_cache refresh_token client_id client_secret =
     \<lparr>tc_refresh_token = refresh_token, tc_client_id = client_id, tc_client_secret = client_secret,
      tc_cached = None, tc_revoked = False\<rparr>"

definition revoked_token_error :: oauth_error where
  "revoked_token_error = OaEndpoint ''token refresh (latched revoked)'' 400
     (''{'' @ quoted ''error'' @ '':'' @ quoted ''invalid_grant'' @ '','' @ quoted ''error_description'' @ '':''
      @ quoted (''refresh token revoked; daemon stopped retrying. ''
          @ ''Run `rahgozar-drive-relay oauth device-code` to re-auth.'') @ ''}'')"

text \<open>The part of \<open>get\<close> under the mutex. \<open>now\<close> is the instant of the expiry test, \<open>now'\<close> the one
  \<open>refresh_access_token\<close> takes.\<close>

definition relay_get_locked :: "oauth_lib \<Rightarrow> 's form_http \<Rightarrow> string option \<Rightarrow> nat \<Rightarrow> nat
    \<Rightarrow> token_cache \<Rightarrow> 's \<Rightarrow> token_cache \<times> 's \<times> (string, oauth_error) result" where
  "relay_get_locked L post env now now' tc s =
     (let refresh =
        (case refresh_access_token L post env now' (tc_refresh_token tc) (tc_client_id tc)
                (tc_client_secret tc) s of
           (s', Inr fresh) \<Rightarrow> (tc\<lparr>tc_cached := Some fresh\<rparr>, s', Inr (ot_access_token fresh))
         | (s', Inl e) \<Rightarrow>
             if is_refresh_token_revoked e then (tc\<lparr>tc_revoked := True\<rparr>, s', Inl e)
             else (tc, s', Inl e)) in
      case tc_cached tc of
        Some tokens \<Rightarrow>
          if \<not> is_near_expiry tokens now then (tc, s, Inr (ot_access_token tokens)) else refresh
      | None \<Rightarrow> refresh)"

definition relay_get :: "oauth_lib \<Rightarrow> 's form_http \<Rightarrow> string option \<Rightarrow> nat \<Rightarrow> nat
    \<Rightarrow> token_cache \<Rightarrow> 's \<Rightarrow> token_cache \<times> 's \<times> (string, oauth_error) result" where
  "relay_get L post env now now' tc s =
     (if tc_revoked tc then (tc, s, Inl revoked_token_error)
      else relay_get_locked L post env now now' tc s)"

definition is_warm :: "nat \<Rightarrow> token_cache \<Rightarrow> bool" where
  "is_warm now tc = (case tc_cached tc of Some t \<Rightarrow> \<not> is_near_expiry t now | None \<Rightarrow> False)"

section \<open>The client's cache\<close>

record client_token_cache =
  ct_refresh_token :: string
  ct_client_id :: string
  ct_client_secret :: string
  ct_cached :: "oauth_tokens option"

definition new_client_token_cache :: "string \<Rightarrow> string \<Rightarrow> string \<Rightarrow> client_token_cache" where
  "new_client_token_cache refresh_token client_id client_secret =
     \<lparr>ct_refresh_token = refresh_token, ct_client_id = client_id, ct_client_secret = client_secret,
      ct_cached = None\<rparr>"

definition client_get :: "oauth_lib \<Rightarrow> 's form_http \<Rightarrow> string option \<Rightarrow> nat \<Rightarrow> nat
    \<Rightarrow> client_token_cache \<Rightarrow> 's \<Rightarrow> client_token_cache \<times> 's \<times> (string, oauth_error) result" where
  "client_get L post env now now' ct s =
     (let refresh =
        (case refresh_access_token L post env now' (ct_refresh_token ct) (ct_client_id ct)
                (ct_client_secret ct) s of
           (s', Inr fresh) \<Rightarrow> (ct\<lparr>ct_cached := Some fresh\<rparr>, s', Inr (ot_access_token fresh))
         | (s', Inl e) \<Rightarrow> (ct, s', Inl e)) in
      case ct_cached ct of
        Some tokens \<Rightarrow>
          if \<not> is_near_expiry tokens now then (ct, s, Inr (ot_access_token tokens)) else refresh
      | None \<Rightarrow> refresh)"

section \<open>One refresh serves every waiting caller\<close>

text \<open>A sequence of critical sections, each with its two instants.\<close>

fun serve :: "(nat \<Rightarrow> nat \<Rightarrow> 'c \<Rightarrow> 's \<Rightarrow> 'c \<times> 's \<times> 'r) \<Rightarrow> (nat \<times> nat) list \<Rightarrow> 'c \<Rightarrow> 's
    \<Rightarrow> 'c \<times> 's \<times> 'r list" where
  "serve get [] c s = (c, s, [])"
| "serve get ((now, now') # calls) c s =
     (case get now now' c s of
        (c', s', r) \<Rightarrow> (case serve get calls c' s' of (c'', s'', rs) \<Rightarrow> (c'', s'', r # rs)))"

locale single_flight =
  fixes cached :: "'c \<Rightarrow> oauth_tokens option"
    and refresh :: "nat \<Rightarrow> 'c \<Rightarrow> 's \<Rightarrow> 's \<times> (oauth_tokens, oauth_error) result"
    and get :: "nat \<Rightarrow> nat \<Rightarrow> 'c \<Rightarrow> 's \<Rightarrow> 'c \<times> 's \<times> (string, oauth_error) result"
  assumes hit: "cached c = Some t \<Longrightarrow> \<not> is_near_expiry t now \<Longrightarrow>
      get now now' c s = (c, s, Inr (ot_access_token t))"
    and miss: "(\<And>t. cached c = Some t \<Longrightarrow> is_near_expiry t now) \<Longrightarrow> refresh now' c s = (s', Inr t) \<Longrightarrow>
      \<exists>c'. get now now' c s = (c', s', Inr (ot_access_token t)) \<and> cached c' = Some t"
    and failed: "(\<And>t. cached c = Some t \<Longrightarrow> is_near_expiry t now) \<Longrightarrow> refresh now' c s = (s', Inl e) \<Longrightarrow>
      \<exists>c'. get now now' c s = (c', s', Inl e) \<and> cached c' = cached c"
begin

lemma serve_hits:
  assumes "cached c = Some t" "list_all (\<lambda>(now, _). \<not> is_near_expiry t now) calls"
  shows "serve get calls c s = (c, s, replicate (length calls) (Inr (ot_access_token t)))"
  using assms(2)
proof (induction calls)
  case (Cons call calls)
  then show ?case by (cases call) (simp add: hit [OF assms(1)])
qed simp

lemma one_refresh:
  assumes "\<And>u. cached c = Some u \<Longrightarrow> is_near_expiry u now" "refresh now' c s = (s', Inr t)"
    "list_all (\<lambda>(now, _). \<not> is_near_expiry t now) calls"
  shows "\<exists>c'. serve get ((now, now') # calls) c s =
    (c', s', replicate (Suc (length calls)) (Inr (ot_access_token t)))"
proof -
  obtain c' where "get now now' c s = (c', s', Inr (ot_access_token t))" "cached c' = Some t"
    using miss [OF assms(1,2)] by blast
  with serve_hits [OF _ assms(3)] show ?thesis by simp
qed

end

interpretation relay_cache: single_flight tc_cached
  "\<lambda>now' tc. refresh_access_token L post env now' (tc_refresh_token tc) (tc_client_id tc) (tc_client_secret tc)"
  "relay_get_locked L post env" for L post env
  by unfold_locales
     (auto simp: relay_get_locked_def Let_def split: option.splits)

interpretation client_cache: single_flight ct_cached
  "\<lambda>now' ct. refresh_access_token L post env now' (ct_refresh_token ct) (ct_client_id ct) (ct_client_secret ct)"
  "client_get L post env" for L post env
  by unfold_locales
     (auto simp: client_get_def Let_def split: option.splits)

text \<open>C37: one refresh serves everyone who waits for the mutex: when the first caller finds the
  cached token missing or within 60 seconds of its expiry and the refresh succeeds, that caller and
  every later one, as long as the new token has more than 60 seconds left, gets the new token, and the
  server is contacted once.\<close>

theorem token_single_flight:
  assumes "\<not> is_warm now tc"
    "refresh_access_token L post env now' (tc_refresh_token tc) (tc_client_id tc) (tc_client_secret tc) s
       = (s', Inr t)"
    "list_all (\<lambda>(now, _). \<not> is_near_expiry t now) calls"
  shows "\<exists>tc'. serve (relay_get_locked L post env) ((now, now') # calls) tc s =
    (tc', s', replicate (Suc (length calls)) (Inr (ot_access_token t)))"
  using assms by (intro relay_cache.one_refresh) (auto simp: is_warm_def)

text \<open>The same of the client's cache.\<close>

lemma client_token_single_flight:
  assumes "\<And>u. ct_cached ct = Some u \<Longrightarrow> is_near_expiry u now"
    "refresh_access_token L post env now' (ct_refresh_token ct) (ct_client_id ct) (ct_client_secret ct) s
       = (s', Inr t)"
    "list_all (\<lambda>(now, _). \<not> is_near_expiry t now) calls"
  shows "\<exists>ct'. serve (client_get L post env) ((now, now') # calls) ct s =
    (ct', s', replicate (Suc (length calls)) (Inr (ot_access_token t)))"
  using assms by (rule client_cache.one_refresh)

text \<open>A server for the examples: it counts the posts and grants tokens for an hour.\<close>

definition toy_oauth :: oauth_lib where
  "toy_oauth = \<lparr>ol_form = (\<lambda>_. []), ol_b64 = (\<lambda>_. []), ol_sha256 = (\<lambda>_. []),
     ol_token = (\<lambda>_. Inr \<lparr>ts_access_token = ''t'', ts_refresh_token = None, ts_expires_in = 3600, ts_scope = []\<rparr>),
     ol_error = (\<lambda>_. Inl []), ol_device = (\<lambda>_. Inl [])\<rparr>"

definition toy_post :: "u16 \<Rightarrow> string \<Rightarrow> nat form_http" where
  "toy_post status body n url form = (Suc n, Some (status, Some body))"

definition toy_tokens :: oauth_tokens where
  "toy_tokens = \<lparr>ot_access_token = ''t'', ot_refresh_token = None, ot_expires_at = 3600 * 10 ^ 9,
     ot_scope = []\<rparr>"

theorem token_single_flight_witness:
  "\<exists>tc'. serve (relay_get_locked toy_oauth (toy_post 200 []) None) [(0, 0), (10, 10), (20, 20)]
      (new_token_cache [] [] []) 0 = (tc', 1, [Inr ''t'', Inr ''t'', Inr ''t''])"
proof -
  have "\<exists>tc'. serve (relay_get_locked toy_oauth (toy_post 200 []) None) ((0, 0) # [(10, 10), (20, 20)])
      (new_token_cache [] [] []) 0 =
    (tc', 1, replicate (Suc (length [(10 :: nat, 10 :: nat), (20, 20)])) (Inr (ot_access_token toy_tokens)))"
  proof (rule token_single_flight)
    show "\<not> is_warm 0 (new_token_cache [] [] [])" by (simp add: is_warm_def new_token_cache_def)
    show "refresh_access_token toy_oauth (toy_post 200 []) None 0 (tc_refresh_token (new_token_cache [] [] []))
        (tc_client_id (new_token_cache [] [] [])) (tc_client_secret (new_token_cache [] [] [])) 0
      = (1, Inr toy_tokens)"
      by (simp add: refresh_access_token_def post_form_and_parse_def toy_post_def is_success_def
          parse_token_response_body_def toy_oauth_def toy_tokens_def)
    show "list_all (\<lambda>(now, _). \<not> is_near_expiry toy_tokens now) [(10, 10), (20, 20)]"
      by (simp add: is_near_expiry_def toy_tokens_def)
  qed
  then show ?thesis by (simp add: toy_tokens_def)
qed

section \<open>The latch\<close>

text \<open>
  Concurrent callers of the relay's \<open>get\<close>: a caller first reads the latch, and either returns the
  latched error or joins those waiting for the mutex; waiting callers run the critical section one at a
  time. The state is the cache, the number of callers past the check, and the world.
\<close>

datatype call_event = Enter | Locked nat nat

inductive get_exec :: "oauth_lib \<Rightarrow> 's form_http \<Rightarrow> string option \<Rightarrow> token_cache \<times> nat \<times> 's
    \<Rightarrow> call_event list \<Rightarrow> (string, oauth_error) result list \<Rightarrow> token_cache \<times> nat \<times> 's \<Rightarrow> bool"
  for L post env where
  get_start: "get_exec L post env st [] [] st"
| get_refused: "get_exec L post env st evs rs (tc, w, s) \<Longrightarrow> tc_revoked tc \<Longrightarrow>
     get_exec L post env st (evs @ [Enter]) (rs @ [Inl revoked_token_error]) (tc, w, s)"
| get_waits: "get_exec L post env st evs rs (tc, w, s) \<Longrightarrow> \<not> tc_revoked tc \<Longrightarrow>
     get_exec L post env st (evs @ [Enter]) rs (tc, Suc w, s)"
| get_locks: "get_exec L post env st evs rs (tc, Suc w, s) \<Longrightarrow>
     relay_get_locked L post env now now' tc s = (tc', s', r) \<Longrightarrow>
     get_exec L post env st (evs @ [Locked now now']) (rs @ [r]) (tc', w, s')"

text \<open>A network that counts its posts.\<close>

definition counted :: "'s form_http \<Rightarrow> (nat \<times> 's) form_http" where
  "counted post ns url body =
     (case post (snd ns) url body of (s', r) \<Rightarrow> ((Suc (fst ns), s'), r))"

lemma locked_effects:
  assumes "relay_get_locked L (counted post) env now now' tc (n, s) = (tc', (n', s'), r)"
  shows "n' \<le> Suc n" "tc_revoked tc \<Longrightarrow> tc_revoked tc'"
    "tc_refresh_token tc' = tc_refresh_token tc"
  using assms
  by (auto simp: relay_get_locked_def Let_def refresh_access_token_def post_form_and_parse_def
      counted_def split: option.splits if_splits prod.splits sum.splits)

text \<open>Once the latch is set, it stays set, a caller that comes later never contacts the server,
  and gets an error that is itself classified as a revoked refresh token; the number of further posts
  is bounded by the number of callers that had passed the check before.\<close>

theorem latch_stops_posts:
  assumes "get_exec L (counted post) env (tc, w, n, s) evs rs (tc', w', n', s')" "tc_revoked tc"
  shows "tc_revoked tc' \<and> n' + w' \<le> n + w \<and>
    length (filter (\<lambda>r. r = Inl revoked_token_error) rs) \<ge> length (filter (\<lambda>e. e = Enter) evs) \<and>
    is_refresh_token_revoked revoked_token_error"
proof -
  have err: "is_refresh_token_revoked revoked_token_error"
    by code_simp
  have "fst st' = tc' \<and> fst (snd st') = w' \<and> fst (snd (snd st')) = n' \<Longrightarrow> tc_revoked tc' \<and> n' + w' \<le> n + w \<and>
    length (filter (\<lambda>r. r = Inl revoked_token_error) rs) \<ge> length (filter (\<lambda>e. e = Enter) evs)"
    if "get_exec L (counted post) env (tc, w, n, s) evs rs st'" for st' tc' w' n' evs rs
    using that
  proof (induction "(tc, w, n, s)" evs rs st' arbitrary: tc' w' n' rule: get_exec.induct)
    case get_start
    then show ?case using assms(2) by auto
  next
    case (get_locks evs rs tc1 w1 s1 now now' tc2 s2 r)
    obtain m1 t1 m2 t2 where "s1 = (m1, t1)" "s2 = (m2, t2)" by fastforce
    with get_locks locked_effects(1,2) [of L post env now now' tc1 m1 t1 tc2 m2 t2 r]
    show ?case by fastforce
  qed fastforce+
  from this [OF assms(1)] err show ?thesis by simp
qed

lemma callers_wait:
  "\<not> tc_revoked tc \<Longrightarrow> get_exec L post env (tc, 0, s) (replicate k Enter) [] (tc, k, s)"
proof (induction k)
  case (Suc k)
  then have "get_exec L post env (tc, 0, s) (replicate k Enter @ [Enter]) [] (tc, Suc k, s)"
    by (intro get_waits) auto
  then show ?case by (simp add: replicate_append_same)
qed (simp add: get_start)

lemma locked_revoked:
  assumes "snd (post s (token_endpoint env)
      (build_refresh_body L (tc_refresh_token tc) (tc_client_id tc) (tc_client_secret tc))) = Some (status, Some body)"
    "is_refresh_token_revoked (OaEndpoint ''refresh'' status body)" "tc_cached tc = None"
  shows "\<exists>s'. relay_get_locked L (counted post) env now now' tc (n, s) =
    (tc\<lparr>tc_revoked := True\<rparr>, (Suc n, s'), Inl (OaEndpoint ''refresh'' status body))"
proof -
  have "\<not> is_success status" using assms(2) by (auto simp: is_success_def split: if_splits)
  with assms show ?thesis
    by (cases "post s (token_endpoint env)
      (build_refresh_body L (tc_refresh_token tc) (tc_client_id tc) (tc_client_secret tc))")
       (auto simp: relay_get_locked_def refresh_access_token_def post_form_and_parse_def counted_def
        split: if_splits)
qed

text \<open>Callers already past the check when the latch is set do contact the server again: if
  \<open>k\<close> callers pass it before the first answer, a server that answers every refresh with a revoked
  token is asked \<open>k\<close> times.\<close>

theorem revoked_queue_reposts:
  assumes "\<And>s url form. snd (post s url form) = Some (status, Some body)"
    "is_refresh_token_revoked (OaEndpoint ''refresh'' status body)" "tc_cached tc = None" "\<not> tc_revoked tc"
  shows "\<exists>tc' s'. get_exec L (counted post) env (tc, 0, 0, s)
    (replicate k Enter @ replicate k (Locked now now'))
    (replicate k (Inl (OaEndpoint ''refresh'' status body))) (tc', 0, k, s')"
proof -
  have "\<exists>tc' s'. tc_cached tc' = None \<and> get_exec L (counted post) env (tc, 0, 0, s)
    (replicate k Enter @ replicate j (Locked now now'))
    (replicate j (Inl (OaEndpoint ''refresh'' status body))) (tc', k - j, j, s')" if "j \<le> k" for j
    using that
  proof (induction j)
    case 0
    show ?case using callers_wait [OF assms(4), of L "counted post" env "(0, s)" k] assms(3) by auto
  next
    case (Suc j)
    then obtain tc1 s1 where c: "tc_cached tc1 = None" and x: "get_exec L (counted post) env (tc, 0, 0, s)
        (replicate k Enter @ replicate j (Locked now now'))
        (replicate j (Inl (OaEndpoint ''refresh'' status body))) (tc1, Suc (k - Suc j), j, s1)"
      by (auto simp: Suc_diff_Suc)
    obtain s2 where "relay_get_locked L (counted post) env now now' tc1 (j, s1) =
        (tc1\<lparr>tc_revoked := True\<rparr>, (Suc j, s2), Inl (OaEndpoint ''refresh'' status body))"
      using locked_revoked [of post s1 env L tc1 status body now now' j, OF assms(1,2) c] by blast
    from get_locks [OF x this] c show ?case
      by (intro exI [of _ "tc1\<lparr>tc_revoked := True\<rparr>"] exI [of _ s2])
         (simp add: replicate_append_same [symmetric])
  qed
  from this [of k] show ?thesis by auto
qed

definition toy_revoked :: string where
  "toy_revoked = ''{'' @ quoted ''error'' @ '':'' @ quoted ''invalid_grant'' @ ''}''"

lemma toy_revoked: "is_refresh_token_revoked (OaEndpoint ''refresh'' 400 toy_revoked)"
  by code_simp

theorem revoked_queue_reposts_witness:
  "\<exists>tc' s'. get_exec toy_oauth (counted (toy_post 400 toy_revoked)) None (new_token_cache [] [] [], 0, 0, 0)
    ([Enter, Enter] @ [Locked 0 0, Locked 0 0])
    [Inl (OaEndpoint ''refresh'' 400 toy_revoked), Inl (OaEndpoint ''refresh'' 400 toy_revoked)] (tc', 0, 2, s')"
  using revoked_queue_reposts [of "toy_post 400 toy_revoked" 400 toy_revoked "new_token_cache [] [] []"
      toy_oauth None 0 2 0 0]
  by (simp add: toy_post_def toy_revoked new_token_cache_def numeral_2_eq_2
      del: is_refresh_token_revoked.simps)

theorem latch_stops_posts_witness:
  "tc_revoked ((new_token_cache [] [] [])\<lparr>tc_revoked := True\<rparr>) \<and>
   \<not> (\<exists>w' n' s'. 0 < n' \<and> get_exec toy_oauth (counted (toy_post 400 toy_revoked)) None
        ((new_token_cache [] [] [])\<lparr>tc_revoked := True\<rparr>, 0, 0, 0) [Enter] [Inl revoked_token_error]
        ((new_token_cache [] [] [])\<lparr>tc_revoked := True\<rparr>, w', n', s')) \<and>
   get_exec toy_oauth (counted (toy_post 400 toy_revoked)) None
        ((new_token_cache [] [] [])\<lparr>tc_revoked := True\<rparr>, 0, 0, 0) [Enter] [Inl revoked_token_error]
        ((new_token_cache [] [] [])\<lparr>tc_revoked := True\<rparr>, 0, 0, 0)"
proof -
  let ?tc = "(new_token_cache [] [] [])\<lparr>tc_revoked := True\<rparr>"
  have "get_exec toy_oauth (counted (toy_post 400 toy_revoked)) None (?tc, 0, 0, 0) ([] @ [Enter])
      ([] @ [Inl revoked_token_error]) (?tc, 0, 0, 0)"
    by (rule get_refused [OF get_start]) simp
  moreover have "n' = 0" if "get_exec toy_oauth (counted (toy_post 400 toy_revoked)) None (?tc, 0, 0, 0) [Enter]
      [Inl revoked_token_error] (?tc, w', n', s')" for w' n' s'
    using latch_stops_posts [OF that] by simp
  ultimately show ?thesis by auto
qed

end
