(* ===== verification/Orphan_GC.thy ===== *)
theory Orphan_GC
  imports Relay_Poll Relay_Config Token_Cache
begin

text \<open>
  The orphan reaper (\<^verbatim>\<open>drive-relay/src/orphan_gc.rs\<close>): a sweep lists the three kinds of mailbox
  files, deletes those that are protocol files and old, and removes the sessions whose driver has
  finished or that have been idle. Shown: it deletes nothing but old protocol files it was shown, it
  keeps exactly the live sessions, and its removals are steps of the relay's runs. Instants and
  durations are nanoseconds.
\<close>

section \<open>A sweep\<close>

definition REAPER_INTERVAL :: nat where "REAPER_INTERVAL = secs 120"

definition STALE_FILE_MULTIPLIER :: u32 where "STALE_FILE_MULTIPLIER = 5"

text \<open>The product is a \<open>u32\<close>, which wraps in the release build.\<close>

definition stale_threshold :: "u32 \<Rightarrow> nat" where
  "stale_threshold idle_timeout_secs = secs (unat (STALE_FILE_MULTIPLIER * idle_timeout_secs))"

definition is_protocol_file_for_prefix :: "string \<Rightarrow> string \<Rightarrow> bool" where
  "is_protocol_file_for_prefix name pre =
     (case parse_filename name of
        None \<Rightarrow> False
      | Some parsed \<Rightarrow>
          (pre, fn_kind parsed) \<in> {(PREFIX_HELLO, FnHello), (PREFIX_C2R, FnFrame ClientToRelay),
             (PREFIX_R2C, FnFrame RelayToClient)})"

definition is_stale :: "drive_file \<Rightarrow> int \<Rightarrow> nat \<Rightarrow> bool" where
  "is_stale f now threshold =
     (case df_modified_time f of
        None \<Rightarrow> False
      | Some mtime \<Rightarrow> (if now - mtime < 0 then False else now - mtime > int threshold))"

fun sweep_files :: "json_lib \<Rightarrow> 's http \<Rightarrow> drive_api_client \<Rightarrow> string \<Rightarrow> int \<Rightarrow> nat \<Rightarrow> string
    \<Rightarrow> drive_file list \<Rightarrow> nat \<Rightarrow> 's \<Rightarrow> 's \<times> nat" where
  "sweep_files J send c token now threshold pre [] n s = (s, n)"
| "sweep_files J send c token now threshold pre (f # fs) n s =
     (if \<not> is_protocol_file_for_prefix (df_name f) pre
      then sweep_files J send c token now threshold pre fs n s
      else if is_stale f now threshold then
        (case delete_file J send c token (df_id f) s of
           (s', Inr _) \<Rightarrow> sweep_files J send c token now threshold pre fs (Suc n) s'
         | (s', Inl _) \<Rightarrow> sweep_files J send c token now threshold pre fs n s')
      else sweep_files J send c token now threshold pre fs n s)"

fun sweep_prefixes :: "json_lib \<Rightarrow> 's http \<Rightarrow> drive_api_client \<Rightarrow> string \<Rightarrow> string \<Rightarrow> int \<Rightarrow> nat
    \<Rightarrow> string list \<Rightarrow> nat \<Rightarrow> 's \<Rightarrow> 's \<times> nat" where
  "sweep_prefixes J send c token folder now threshold [] n s = (s, n)"
| "sweep_prefixes J send c token folder now threshold (pre # pres) n s =
     (case list_files_in_folder J send c token folder pre s of
        (s', Inl _) \<Rightarrow> sweep_prefixes J send c token folder now threshold pres n s'
      | (s', Inr files) \<Rightarrow>
          (case sweep_files J send c token now threshold pre files n s' of
             (s'', n') \<Rightarrow> sweep_prefixes J send c token folder now threshold pres n' s''))"

text \<open>\<open>finished sid\<close>: whether the driver task of the session has ended.\<close>

definition evicted :: "(session_id \<Rightarrow> bool) \<Rightarrow> nat \<Rightarrow> u32 \<Rightarrow> session_id \<Rightarrow> session_handle \<Rightarrow> bool" where
  "evicted finished now_i idle_timeout_secs sid h \<longleftrightarrow>
     finished sid \<or> now_i - sh_last_seen h > secs (unat idle_timeout_secs)"

definition sweep_sessions :: "(session_id \<Rightarrow> bool) \<Rightarrow> nat \<Rightarrow> u32 \<Rightarrow> session_table \<Rightarrow> session_table" where
  "sweep_sessions finished now_i idle_timeout_secs sessions =
     (\<lambda>sid. case sessions sid of
        None \<Rightarrow> None
      | Some h \<Rightarrow> if evicted finished now_i idle_timeout_secs sid h then None else Some h)"

text \<open>\<open>token\<close> is the outcome of the token cache; the result is the world, the number of files
  deleted, and the session table, or the error the sweep ends with.\<close>

definition run_one_sweep :: "json_lib \<Rightarrow> 's http \<Rightarrow> drive_api_client \<Rightarrow> relay_config
    \<Rightarrow> (string, oauth_error) result \<Rightarrow> int \<Rightarrow> nat \<Rightarrow> (session_id \<Rightarrow> bool) \<Rightarrow> session_table \<Rightarrow> 's
    \<Rightarrow> 's \<times> (nat, oauth_error) result \<times> session_table" where
  "run_one_sweep J send c cfg token now now_i finished sessions s =
     (case token of
        Inl e \<Rightarrow> (s, Inl e, sessions)
      | Inr access_token \<Rightarrow>
          (case sweep_prefixes J send c access_token (rc_folder_id cfg) now
                  (stale_threshold (rc_idle_timeout_secs cfg)) [''h_'', ''c2r_'', ''r2c_''] 0 s of
             (s', n) \<Rightarrow>
               (s', Inr n, sweep_sessions finished now_i (rc_idle_timeout_secs cfg) sessions)))"

section \<open>What a sweep deletes\<close>

text \<open>A network that records its requests and their answers, for statements about what was sent.\<close>

type_synonym http_log = "(http_request \<times> http_response option) list"

definition logged :: "'s http \<Rightarrow> (http_log \<times> 's) http" where
  "logged send ls rq = (case send (snd ls) rq of (s', r) \<Rightarrow> ((fst ls @ [(rq, r)], s'), r))"

text \<open>Every request since is one that the log up to it allows.\<close>

definition sent_between :: "(http_log \<Rightarrow> http_request \<Rightarrow> bool) \<Rightarrow> http_log \<times> 's \<Rightarrow> http_log \<times> 's \<Rightarrow> bool" where
  "sent_between P ls ls' \<longleftrightarrow>
     (\<exists>ex. fst ls' = fst ls @ ex \<and> (\<forall>i < length ex. P (fst ls @ take i ex) (fst (ex ! i))))"

lemma sent_refl: "sent_between P ls ls"
  by (simp add: sent_between_def)

lemma sent_trans:
  assumes "sent_between P a b" "sent_between P b c" shows "sent_between P a c"
proof -
  obtain x y where x: "fst b = fst a @ x" "\<And>i. i < length x \<Longrightarrow> P (fst a @ take i x) (fst (x ! i))"
    and y: "fst c = fst b @ y" "\<And>i. i < length y \<Longrightarrow> P (fst b @ take i y) (fst (y ! i))"
    using assms unfolding sent_between_def by blast
  have "P (fst a @ take i (x @ y)) (fst ((x @ y) ! i))" if "i < length (x @ y)" for i
  proof (cases "i < length x")
    case False
    then have "P (fst b @ take (i - length x) y) (fst (y ! (i - length x)))" using that by (intro y(2)) simp
    then show ?thesis using False x(1) by (simp add: nth_append)
  qed (simp add: x(2) nth_append)
  moreover have "fst c = fst a @ (x @ y)" using x(1) y(1) by simp
  ultimately show ?thesis unfolding sent_between_def by blast
qed

lemma logged_sends: "logged send ls rq = (ls', r) \<Longrightarrow> P (fst ls) rq \<Longrightarrow> sent_between P ls ls'"
  by (auto simp: logged_def sent_between_def split: prod.splits)

lemma sent_extends: "sent_between P a b \<Longrightarrow> set (fst a) \<subseteq> set (fst b)"
  by (auto simp: sent_between_def)

text \<open>A row of an answer to a listing in the log, and the file that the client makes of such a row.\<close>

definition row_listed :: "json_lib \<Rightarrow> http_log \<Rightarrow> file_entry_json \<Rightarrow> bool" where
  "row_listed J log ent \<longleftrightarrow>
     (\<exists>rq resp body answer. (rq, Some resp) \<in> set log \<and> rq_method rq = GET \<and> rs_text resp = Some body \<and>
        j_list J body = Inr answer \<and> ent \<in> set (lr_files answer))"

definition file_of_row :: "json_lib \<Rightarrow> http_log \<Rightarrow> drive_file \<Rightarrow> bool" where
  "file_of_row J log f \<longleftrightarrow>
     (\<exists>ent. row_listed J log ent \<and> df_id f = fe_id ent \<and> df_name f = fe_name ent \<and>
        df_modified_time f = Option.bind (fe_modified_time ent) (j_time J))"

lemma file_of_row_mono: "file_of_row J log f \<Longrightarrow> set log \<subseteq> set log' \<Longrightarrow> file_of_row J log' f"
  unfolding file_of_row_def row_listed_def by blast

lemma page_listed:
  assumes "logged send ls (list_request c token q pt) = (ls', Some resp)" and "text_if_success J resp = Inr body"
    and "parse_list_response_paged J body = Inr (page, nxt)" and "f \<in> set page"
  shows "file_of_row J (fst ls') f"
proof -
  obtain answer where a: "j_list J body = Inr answer" "page = list_response_rows J answer"
    using assms(3) by (auto simp: parse_list_response_paged_def split: sum.splits)
  then obtain ent where "ent \<in> set (lr_files answer)" "df_id f = fe_id ent" "df_name f = fe_name ent"
    "df_modified_time f = Option.bind (fe_modified_time ent) (j_time J)"
    using assms(4) by (auto simp: list_response_rows_def map_filter_def split: if_splits)
  moreover have "rs_text resp = Some body" using assms(2) by (auto simp: text_if_success_def split: option.splits if_splits)
  moreover have "(list_request c token q pt, Some resp) \<in> set (fst ls')"
    using assms(1) by (auto simp: logged_def split: prod.splits)
  moreover have "rq_method (list_request c token q pt) = GET" by (simp add: list_request_def)
  ultimately show ?thesis using a(1) unfolding file_of_row_def row_listed_def by blast
qed

lemma list_pages_listing:
  assumes get: "\<And>log rq. rq_method rq = GET \<Longrightarrow> P log rq"
    and "list_pages k J (logged send) c token q pt files ls = (ls', r)"
    and "\<forall>f\<in>set files. file_of_row J (fst ls) f"
  shows "sent_between P ls ls' \<and> (\<forall>out. r = Inr out \<longrightarrow> (\<forall>f\<in>set out. file_of_row J (fst ls') f))"
  using assms(2,3)
proof (induction k arbitrary: pt files ls)
  case 0
  then show ?case by (auto simp: sent_refl)
next
  case (Suc k)
  obtain ls1 resp where l: "logged send ls (list_request c token q pt) = (ls1, resp)" by (metis surj_pair)
  have g: "sent_between P ls ls1"
    by (rule logged_sends [OF l]) (simp add: list_request_def get)
  have old: "\<forall>f\<in>set files. file_of_row J (fst ls1) f"
    using Suc.prems(2) file_of_row_mono sent_extends [OF g] by blast
  consider (stop) e where "ls' = ls1" "r = Inl e"
    | (page) rsp body page nxt where "resp = Some rsp" "text_if_success J rsp = Inr body"
        "parse_list_response_paged J body = Inr (page, nxt)"
        "(ls', r) = (ls1, Inr (files @ page)) \<or>
         (\<exists>t. list_pages k J (logged send) c token q (Some t) (files @ page) ls1 = (ls', r))"
    using Suc.prems(1) l by (auto split: option.splits sum.splits if_splits prod.splits) blast
  then show ?case
  proof cases
    case stop
    then show ?thesis using g by simp
  next
    case page
    have new: "\<forall>f\<in>set (files @ page). file_of_row J (fst ls1) f"
      using old page_listed [OF l [unfolded page(1)] page(2,3)] by auto
    show ?thesis using page(4) Suc.IH [OF _ new] g new sent_trans by (metis Pair_inject sum.inject(2))
  qed
qed

text \<open>The requests a sweep may send: listings, and deletions of old protocol files it was shown.\<close>

definition sweep_request :: "json_lib \<Rightarrow> drive_api_client \<Rightarrow> int \<Rightarrow> nat \<Rightarrow> http_log \<Rightarrow> http_request \<Rightarrow> bool" where
  "sweep_request J c now threshold log rq \<longleftrightarrow>
     rq_method rq = GET \<or>
     rq_method rq = DELETE \<and> (\<exists>f pre. file_of_row J log f \<and> rq_url rq = file_url c (df_id f) \<and>
       is_protocol_file_for_prefix (df_name f) pre \<and> is_stale f now threshold)"

lemma delete_sends:
  assumes "delete_file J (logged send) c token i ls = (ls', r)"
    and "\<And>rq. rq_method rq = DELETE \<Longrightarrow> rq_url rq = file_url c i \<Longrightarrow> P (fst ls) rq"
  shows "sent_between P ls ls'"
  using assms(1) unfolding delete_file_def
  by (auto split: prod.splits option.splits intro!: logged_sends assms(2))

lemma sweep_files_sends:
  assumes "sweep_files J (logged send) c token now threshold pre fs n ls = (ls', n')"
    and "\<forall>f\<in>set fs. file_of_row J (fst ls) f"
  shows "sent_between (sweep_request J c now threshold) ls ls'"
  using assms
proof (induction fs arbitrary: n ls)
  case Nil
  then show ?case by (simp add: sent_refl)
next
  case (Cons f fs)
  show ?case
  proof (cases "is_protocol_file_for_prefix (df_name f) pre \<and> is_stale f now threshold")
    case False
    with Cons show ?thesis by (auto split: if_splits)
  next
    case True
    obtain ls1 r where d: "delete_file J (logged send) c token (df_id f) ls = (ls1, r)"
      by (metis surj_pair)
    have g: "sent_between (sweep_request J c now threshold) ls ls1"
      using True Cons.prems(2) by (intro delete_sends [OF d]) (auto simp: sweep_request_def)
    then have rest: "\<forall>f\<in>set fs. file_of_row J (fst ls1) f"
      using Cons.prems(2) file_of_row_mono sent_extends by (metis list.set_intros(2))
    obtain m where "sweep_files J (logged send) c token now threshold pre fs m ls1 = (ls', n')"
      using Cons.prems(1) True d by (auto split: sum.splits)
    from sent_trans [OF g Cons.IH [OF this rest]] show ?thesis .
  qed
qed

lemma sweep_prefixes_sends:
  assumes "sweep_prefixes J (logged send) c token folder now threshold pres n ls = (ls', n')"
  shows "sent_between (sweep_request J c now threshold) ls ls'"
  using assms
proof (induction pres arbitrary: n ls)
  case Nil
  then show ?case by (simp add: sent_refl)
next
  case (Cons pre pres)
  obtain ls1 r where l: "list_files_in_folder J (logged send) c token folder pre ls = (ls1, r)"
    by (metis surj_pair)
  have g: "sent_between (sweep_request J c now threshold) ls ls1 \<and> (\<forall>out. r = Inr out \<longrightarrow> (\<forall>f\<in>set out. file_of_row J (fst ls1) f))"
    by (rule list_pages_listing [OF _ l [unfolded list_files_in_folder_def
          list_files_in_folder_since_def]]) (simp_all add: sweep_request_def)
  show ?case
  proof (cases r)
    case (Inl e)
    with Cons l g show ?thesis by (cases ls1) (auto intro: sent_trans)
  next
    case (Inr files)
    obtain ls2 n2 where w: "sweep_files J (logged send) c token now threshold pre files n ls1 = (ls2, n2)"
      by (metis surj_pair)
    have "sent_between (sweep_request J c now threshold) ls ls2"
      using sent_trans [of _ ls ls1 ls2] sweep_files_sends [OF w] g Inr by blast
    moreover have "sweep_prefixes J (logged send) c token folder now threshold pres n2 ls2 = (ls', n')"
      using Cons.prems l Inr w by simp
    ultimately show ?thesis using Cons.IH sent_trans by blast
  qed
qed

lemma stale_threshold_exact:
  "5 * unat idle < 2 ^ 32 \<Longrightarrow> stale_threshold idle = secs (5 * unat idle)"
  using unat_mult_lem [of "5 :: u32" idle]
  by (simp add: stale_threshold_def STALE_FILE_MULTIPLIER_def)

lemma stale_fileD:
  assumes "5 * unat idle < 2 ^ 32" "is_stale f now (stale_threshold idle)"
    "is_protocol_file_for_prefix (df_name f) pre"
  shows "\<exists>parsed mtime. parse_filename (df_name f) = Some parsed \<and> df_modified_time f = Some mtime \<and>
    now - mtime > 5 * int (unat idle) * 10 ^ 9"
  using assms(2,3)
  by (auto simp: is_stale_def stale_threshold_exact [OF assms(1)] is_protocol_file_for_prefix_def
      split: option.splits if_splits)

text \<open>C38: a sweep sends nothing but listings and deletions, and every file it deletes was shown to it before, in an
  answer to a listing of the same sweep, with a name of the mailbox grammar and a time of modification more than five idle timeouts ago,
  as long as five times the timeout fits in 32 bits.\<close>

theorem sweep_deletes_only_stale:
  assumes "run_one_sweep J (logged send) c cfg token now now_i finished sessions ([], s)
      = ((log, s'), r, sessions')"
    and "5 * unat (rc_idle_timeout_secs cfg) < 2 ^ 32" and "i < length log"
  shows "rq_method (fst (log ! i)) = GET \<or>
    rq_method (fst (log ! i)) = DELETE \<and>
      (\<exists>j<i. \<exists>resp body answer ent t parsed mtime.
         rq_method (fst (log ! j)) = GET \<and> snd (log ! j) = Some resp \<and> rs_text resp = Some body \<and>
         j_list J body = Inr answer \<and> ent \<in> set (lr_files answer) \<and>
         rq_url (fst (log ! i)) = file_url c (fe_id ent) \<and> parse_filename (fe_name ent) = Some parsed \<and>
         fe_modified_time ent = Some t \<and> j_time J t = Some mtime \<and>
         now - mtime > 5 * int (unat (rc_idle_timeout_secs cfg)) * 10 ^ 9)"
proof -
  let ?t = "stale_threshold (rc_idle_timeout_secs cfg)"
  have "sent_between (sweep_request J c now ?t) ([], s) (log, s')"
    using assms(1) by (auto simp: run_one_sweep_def sent_refl simp del: sweep_prefixes.simps
        split: sum.splits prod.splits dest!: sweep_prefixes_sends)
  then have req: "sweep_request J c now ?t (take i log) (fst (log ! i))"
    using assms(3) by (auto simp: sent_between_def)
  show ?thesis
  proof (cases "rq_method (fst (log ! i)) = GET")
    case False
    then obtain f pre where del: "rq_method (fst (log ! i)) = DELETE" and f: "file_of_row J (take i log) f"
      "rq_url (fst (log ! i)) = file_url c (df_id f)" "is_protocol_file_for_prefix (df_name f) pre" "is_stale f now ?t"
      using req unfolding sweep_request_def by blast
    obtain ent where ent: "row_listed J (take i log) ent" "df_id f = fe_id ent" "df_name f = fe_name ent"
      "df_modified_time f = Option.bind (fe_modified_time ent) (j_time J)"
      using f(1) unfolding file_of_row_def by blast
    obtain rq resp body answer where l: "(rq, Some resp) \<in> set (take i log)" "rq_method rq = GET" "rs_text resp = Some body"
      "j_list J body = Inr answer" "ent \<in> set (lr_files answer)"
      using ent(1) unfolding row_listed_def by blast
    obtain j where j: "j < i" "log ! j = (rq, Some resp)" using l(1) by (auto simp: in_set_conv_nth)
    obtain parsed mtime where m: "parse_filename (fe_name ent) = Some parsed" "df_modified_time f = Some mtime"
      "now - mtime > 5 * int (unat (rc_idle_timeout_secs cfg)) * 10 ^ 9"
      using stale_fileD [OF assms(2) f(4,3)] ent(3) by auto
    obtain t where t: "fe_modified_time ent = Some t" "j_time J t = Some mtime"
      using m(2) ent(4) by (cases "fe_modified_time ent") auto
    have "rq_method (fst (log ! j)) = GET \<and> snd (log ! j) = Some resp \<and> rs_text resp = Some body \<and>
        j_list J body = Inr answer \<and> ent \<in> set (lr_files answer) \<and>
        rq_url (fst (log ! i)) = file_url c (fe_id ent) \<and> parse_filename (fe_name ent) = Some parsed \<and>
        fe_modified_time ent = Some t \<and> j_time J t = Some mtime \<and>
        now - mtime > 5 * int (unat (rc_idle_timeout_secs cfg)) * 10 ^ 9"
      using j l f(2) ent(2) m t by simp
    then show ?thesis using del j(1) by blast
  qed simp
qed

text \<open>A folder with one session opener, an hour old, for every listing.\<close>

definition old_name :: drive_filename where
  "old_name = \<lparr>fn_kind = FnHello, fn_sid = replicate 16 7, fn_seq = 0\<rparr>"

definition old_file :: drive_file where
  "old_file = \<lparr>df_id = ''i'', df_name = format_filename old_name, df_modified_time = Some 0, df_size = None\<rparr>"

definition old_json :: json_lib where
  "old_json = \<lparr>j_list = (\<lambda>_. Inr \<lparr>lr_files = [\<lparr>fe_id = ''i'', fe_name = format_filename old_name,
       fe_modified_time = Some [], fe_size = None\<rparr>], lr_next_page_token = None\<rparr>),
     j_create = (\<lambda>_. Inl []), j_error = (\<lambda>_. None), j_time = (\<lambda>_. Some 0), j_print = (\<lambda>_. [])\<rparr>"

definition old_answer :: http_response where
  "old_answer = \<lparr>rs_status = 200, rs_content_length = None, rs_text = Some [], rs_stream = []\<rparr>"

definition old_server :: "unit http" where
  "old_server s rq = ((), Some old_answer)"

abbreviation old_sweep :: "(http_log \<times> unit) \<times> (nat, oauth_error) result \<times> session_table" where
  "old_sweep \<equiv> run_one_sweep old_json (logged old_server) \<lparr>ac_base_url = []\<rparr> relay_placeholder (Inr [])
     (3600 * 10 ^ 9) 0 (\<lambda>_. False) (\<lambda>_. None) ([], ())"

lemma old_name_parses: "parse_filename (format_filename old_name) = Some old_name"
  by (rule filename.dec_enc) (simp add: wf_filename_def wf_sid_def old_name_def)

lemma old_name_not_Nil: "format_filename old_name \<noteq> []"
  by (simp add: format_filename_def old_name_def PREFIX_HELLO_def)

lemma old_listing:
  "list_files_in_folder old_json (logged old_server) c token folder pre (l, ()) =
    ((l @ [(list_request c token (build_list_query_since folder pre None) None, Some old_answer)], ()), Inr [old_file])"
proof -
  obtain k where k: "MAX_PAGES = Suc k" by (simp add: MAX_PAGES_def eval_nat_numeral)
  have "list_pages (Suc k) old_json (logged old_server) c token (build_list_query_since folder pre None)
      None [] (l, ()) =
    ((l @ [(list_request c token (build_list_query_since folder pre None) None, Some old_answer)], ()), Inr [old_file])"
    by (simp add: logged_def old_server_def old_answer_def text_if_success_def is_success_def
        parse_list_response_paged_def list_response_rows_def old_json_def old_file_def map_filter_def
        old_name_not_Nil)
  then show ?thesis by (simp only: list_files_in_folder_def list_files_in_folder_since_def k)
qed

lemma old_sweep_methods: "map (rq_method \<circ> fst) (fst (fst old_sweep)) = [GET, DELETE, GET, GET]"
proof -
  have p: "is_protocol_file_for_prefix (df_name old_file) pre \<longleftrightarrow> pre = ''h_''" for pre
    by (simp add: is_protocol_file_for_prefix_def old_file_def old_name_parses)
       (simp add: old_name_def PREFIX_HELLO_def)
  have "is_stale old_file (3600 * 10 ^ 9) (stale_threshold (rc_idle_timeout_secs relay_placeholder))"
    by (simp add: is_stale_def old_file_def stale_threshold_def STALE_FILE_MULTIPLIER_def
        relay_placeholder_def default_idle_timeout_secs_def)
  then show ?thesis
    by (simp add: run_one_sweep_def old_listing p delete_file_def logged_def old_server_def old_answer_def
        is_success_def list_request_def)
qed

theorem sweep_deletes_only_stale_witness:
  "case fst (fst old_sweep) of log \<Rightarrow> map (rq_method \<circ> fst) log = [GET, DELETE, GET, GET] \<and>
     (\<exists>(ent :: file_entry_json) parsed. rq_url (fst (log ! 1)) = file_url \<lparr>ac_base_url = []\<rparr> (fe_id ent) \<and> parse_filename (fe_name ent) = Some parsed)"
proof -
  obtain log u r ss where sw: "old_sweep = ((log, u), r, ss)" by (metis prod.collapse)
  then have m: "map (rq_method \<circ> fst) log = [GET, DELETE, GET, GET]" using old_sweep_methods by simp
  then have l: "1 < length log" "rq_method (fst (log ! 1)) = DELETE" by (auto dest: arg_cong [of _ _ length])
  have b: "5 * unat (rc_idle_timeout_secs relay_placeholder) < 2 ^ 32"
    by (simp add: relay_placeholder_def default_idle_timeout_secs_def)
  have "rq_method (fst (log ! 1)) \<noteq> GET" using l(2) by simp
  then obtain ent :: file_entry_json and parsed where "rq_url (fst (log ! 1)) = file_url \<lparr>ac_base_url = []\<rparr> (fe_id ent)" "parse_filename (fe_name ent) = Some parsed"
    using sweep_deletes_only_stale [OF sw b l(1)] by blast
  with m show ?thesis unfolding sw by auto
qed

section \<open>What a sweep keeps\<close>

text \<open>A sweep that got a token keeps exactly the sessions whose driver still runs and that have
  been active within the idle timeout, unchanged, and the result is again a state of the relay's runs,
  so everything shown of those holds after it; without a token it changes nothing.\<close>

theorem sweep_keeps_live_sessions:
  assumes "relay_exec P C T secret sessions cursor"
    "run_one_sweep J send c cfg token now now_i finished sessions s = (s', r, sessions')"
  shows "relay_exec P C T secret sessions' cursor \<and>
    (case token of
       Inl e \<Rightarrow> s' = s \<and> r = Inl e \<and> sessions' = sessions
     | Inr _ \<Rightarrow> \<forall>sid h. sessions' sid = Some h \<longleftrightarrow>
         sessions sid = Some h \<and> \<not> finished sid \<and>
         now_i - sh_last_seen h \<le> unat (rc_idle_timeout_secs cfg) * 10 ^ 9)"
proof -
  have eq: "\<forall>sid h. sweep_sessions finished now_i t sessions sid = Some h \<longleftrightarrow>
      sessions sid = Some h \<and> \<not> finished sid \<and> now_i - sh_last_seen h \<le> unat t * 10 ^ 9" for t
    by (auto simp: sweep_sessions_def evicted_def split: option.splits)
  then have "sweep_sessions finished now_i t sessions \<subseteq>\<^sub>m sessions" for t
    by (auto simp: map_le_def)
  with assms eq show ?thesis
    by (auto simp: run_one_sweep_def split: sum.splits prod.splits intro: relay_evict)
qed

theorem sweep_keeps_live_sessions_witness:
  "relay_exec (\<lambda>_. True) toy_crypto no_time toy_secret (\<lambda>_. None) None \<and>
   snd (snd old_sweep) = (\<lambda>_. None)"
proof -
  obtain w r ss where r: "old_sweep = (w, r, ss)" by (metis prod.collapse)
  from sweep_keeps_live_sessions [OF relay_init [of "\<lambda>_. True" toy_crypto no_time toy_secret] r]
  have "relay_exec (\<lambda>_. True) toy_crypto no_time toy_secret ss None" "ss sid \<noteq> Some h" for sid h
    by auto
  then have "ss = (\<lambda>_. None)" by (auto simp: fun_eq_iff) (metis not_None_eq)
  with r show ?thesis by (simp add: relay_init)
qed

section \<open>The threshold can wrap\<close>

text \<open>The product of the multiplier and the timeout is not checked: a timeout the validation accepts
  makes the reaper delete files that are older than four seconds.\<close>

lemma stale_threshold_wraps:
  "\<exists>cfg. relay_validate (\<lambda>_. True) cfg = Inr () \<and> rc_idle_timeout_secs cfg = 858993460 \<and>
    stale_threshold (rc_idle_timeout_secs cfg) = secs 4"
proof (intro exI conjI)
  let ?cfg = "relay_placeholder\<lparr>rc_oauth_client_id := ''i'', rc_oauth_client_secret := ''s'',
    rc_oauth_refresh_token := ''r'', rc_folder_id := ''f'', rc_idle_timeout_secs := 858993460\<rparr>"
  show "relay_validate (\<lambda>_. True) ?cfg = Inr ()" by code_simp
  show "rc_idle_timeout_secs ?cfg = 858993460" by simp
  show "stale_threshold (rc_idle_timeout_secs ?cfg) = secs 4"
    by (simp add: stale_threshold_def STALE_FILE_MULTIPLIER_def)
qed

end
