(* ===== verification/Response_Cache.thy ===== *)
theory Response_Cache
  imports Rust_Str
begin

text \<open>
  The response cache of the Apps Script relay (\<^verbatim>\<open>src/cache.rs\<close>): a byte-bounded store with first-in
  first-out eviction and expiry, and the decision whether and how long a response may be kept. The
  store keeps a hash map, a queue of keys and a byte count; it is shown to implement a plain list of
  entries in the order of insertion. Instants and durations are nanoseconds.
\<close>

section \<open>The store\<close>

definition DEFAULT_MAX_BYTES :: nat where "DEFAULT_MAX_BYTES = 50 * 1024 * 1024"
definition MAX_ENTRY_FRACTION :: nat where "MAX_ENTRY_FRACTION = 4"

record cached_response =
  cr_bytes :: bytes
  cr_expires :: nat

record response_cache =
  ca_entries :: "string \<Rightarrow> cached_response option"
  ca_order :: "string list"
  ca_size :: nat
  ca_max_bytes :: nat
  ca_hits :: u64
  ca_misses :: u64

definition new_response_cache :: "nat \<Rightarrow> response_cache" where
  "new_response_cache max_bytes =
     \<lparr>ca_entries = (\<lambda>_. None), ca_order = [], ca_size = 0, ca_max_bytes = max_bytes,
      ca_hits = 0, ca_misses = 0\<rparr>"

definition cache_with_default :: response_cache where
  "cache_with_default = new_response_cache DEFAULT_MAX_BYTES"

definition cache_get :: "nat \<Rightarrow> string \<Rightarrow> response_cache \<Rightarrow> response_cache \<times> bytes option" where
  "cache_get now key c =
     (case ca_entries c key of
        Some entry \<Rightarrow>
          if cr_expires entry > now then (c\<lparr>ca_hits := ca_hits c + 1\<rparr>, Some (cr_bytes entry))
          else (c\<lparr>ca_entries := (ca_entries c)(key := None),
                  ca_order := filter (\<lambda>k. k \<noteq> key) (ca_order c),
                  ca_size := ca_size c - length (cr_bytes entry),
                  ca_misses := ca_misses c + 1\<rparr>, None)
      | None \<Rightarrow> (c\<lparr>ca_misses := ca_misses c + 1\<rparr>, None))"

text \<open>The eviction loop: pops the oldest key until the new entry fits or nothing is left.\<close>

fun evict_loop :: "nat \<Rightarrow> nat \<Rightarrow> (string \<Rightarrow> cached_response option) \<Rightarrow> string list \<Rightarrow> nat
    \<Rightarrow> (string \<Rightarrow> cached_response option) \<times> string list \<times> nat" where
  "evict_loop max_bytes sz entries [] used = (entries, [], used)"
| "evict_loop max_bytes sz entries (oldest # order) used =
     (if used + sz > max_bytes then
        (case entries oldest of
           Some removed \<Rightarrow>
             evict_loop max_bytes sz (entries(oldest := None)) order (used - length (cr_bytes removed))
         | None \<Rightarrow> evict_loop max_bytes sz entries order used)
      else (entries, oldest # order, used))"

definition cache_put :: "nat \<Rightarrow> string \<Rightarrow> bytes \<Rightarrow> nat \<Rightarrow> response_cache \<Rightarrow> response_cache" where
  "cache_put now key bs ttl c =
     (let sz = length bs in
      if sz = 0 \<or> sz > ca_max_bytes c div MAX_ENTRY_FRACTION then c
      else
        (let expires = now + ttl;
             (entries, order, used) =
               (case ca_entries c key of
                  Some old \<Rightarrow> ((ca_entries c)(key := None), filter (\<lambda>k. k \<noteq> key) (ca_order c),
                               ca_size c - length (cr_bytes old))
                | None \<Rightarrow> (ca_entries c, ca_order c, ca_size c));
             (entries, order, used) = evict_loop (ca_max_bytes c) sz entries order used in
         c\<lparr>ca_entries := entries(key \<mapsto> \<lparr>cr_bytes = bs, cr_expires = expires\<rparr>),
           ca_order := order @ [key], ca_size := used + sz\<rparr>))"

section \<open>The specification: a list of entries\<close>

type_synonym entry_list = "(string \<times> cached_response) list"

definition used_bytes :: "entry_list \<Rightarrow> nat" where
  "used_bytes xs = (\<Sum>(k, e)\<leftarrow>xs. length (cr_bytes e))"

fun fit :: "nat \<Rightarrow> entry_list \<Rightarrow> entry_list" where
  "fit budget [] = []"
| "fit budget (x # xs) = (if used_bytes (x # xs) > budget then fit budget xs else x # xs)"

definition spec_put :: "nat \<Rightarrow> nat \<Rightarrow> string \<Rightarrow> bytes \<Rightarrow> nat \<Rightarrow> entry_list \<Rightarrow> entry_list" where
  "spec_put max_bytes now key bs ttl xs =
     (if bs = [] \<or> length bs > max_bytes div 4 then xs
      else fit (max_bytes - length bs) (filter (\<lambda>x. fst x \<noteq> key) xs)
             @ [(key, \<lparr>cr_bytes = bs, cr_expires = now + ttl\<rparr>)])"

definition spec_get :: "nat \<Rightarrow> string \<Rightarrow> entry_list \<Rightarrow> entry_list \<times> bytes option" where
  "spec_get now key xs =
     (case map_of xs key of
        Some e \<Rightarrow> if cr_expires e > now then (xs, Some (cr_bytes e))
                  else (filter (\<lambda>x. fst x \<noteq> key) xs, None)
      | None \<Rightarrow> (xs, None))"

text \<open>The list a map and a queue of keys stand for.\<close>

definition entry_queue :: "(string \<Rightarrow> cached_response option) \<Rightarrow> string list \<Rightarrow> entry_list" where
  "entry_queue m ks = map (\<lambda>k. (k, the (m k))) ks"

definition cache_abs :: "response_cache \<Rightarrow> entry_list" where
  "cache_abs c = entry_queue (ca_entries c) (ca_order c)"

definition cache_inv :: "response_cache \<Rightarrow> bool" where
  "cache_inv c \<longleftrightarrow> distinct (ca_order c) \<and> dom (ca_entries c) = set (ca_order c) \<and>
     ca_size c = used_bytes (cache_abs c) \<and> ca_size c \<le> ca_max_bytes c"

section \<open>Refinement\<close>

lemma used_bytes_simps [simp]:
  "used_bytes [] = 0" "used_bytes ((k, e) # xs) = length (cr_bytes e) + used_bytes xs"
  "used_bytes (xs @ ys) = used_bytes xs + used_bytes ys"
  by (simp_all add: used_bytes_def)

lemma used_fit: "used_bytes (fit budget xs) \<le> budget"
  by (induction xs) auto

lemma fit_sublist: "set (fit budget xs) \<subseteq> set xs" "distinct (map fst xs) \<Longrightarrow> distinct (map fst (fit budget xs))"
  by (induction xs) auto

definition queue_ok :: "(string \<Rightarrow> cached_response option) \<Rightarrow> string list \<Rightarrow> nat \<Rightarrow> bool" where
  "queue_ok m ks n \<longleftrightarrow> distinct ks \<and> dom m = set ks \<and> n = used_bytes (entry_queue m ks)"

lemma entry_queue_simps [simp]:
  "entry_queue m [] = []" "entry_queue m (k # ks) = (k, the (m k)) # entry_queue m ks"
  "entry_queue m (ks @ ls) = entry_queue m ks @ entry_queue m ls"
  by (simp_all add: entry_queue_def)

lemma entry_queue_upd: "k \<notin> set ks \<Longrightarrow> entry_queue (m(k := v)) ks = entry_queue m ks"
  by (induction ks) auto

lemma entry_queue_filter:
  "filter (\<lambda>x. fst x \<noteq> k) (entry_queue m ks) = entry_queue m (filter (\<lambda>x. x \<noteq> k) ks)"
  by (induction ks) auto

lemma map_of_entry_queue: "dom m = set ks \<Longrightarrow> map_of (entry_queue m ks) k = m k"
proof -
  assume d: "dom m = set ks"
  have "map_of (entry_queue m ks) k = (if k \<in> set ks then Some (the (m k)) else None)"
    by (induction ks) auto
  with d show ?thesis by (metis domIff option.collapse)
qed

lemma filter_absent: "k \<notin> set ks \<Longrightarrow> filter (\<lambda>x. x \<noteq> k) ks = ks"
  by (induction ks) auto

lemma used_remove:
  assumes "distinct ks" "k \<in> set ks"
  shows "used_bytes (entry_queue m ks) =
    length (cr_bytes (the (m k))) + used_bytes (entry_queue m (filter (\<lambda>x. x \<noteq> k) ks))"
  using assms
proof (induction ks)
  case (Cons a ks)
  then show ?case by (cases "a = k") (auto simp: filter_absent)
qed simp

lemma queue_remove:
  assumes "queue_ok m ks n" "m k = Some e"
  shows "queue_ok (m(k := None)) (filter (\<lambda>x. x \<noteq> k) ks) (n - length (cr_bytes e))"
    "entry_queue (m(k := None)) (filter (\<lambda>x. x \<noteq> k) ks) = filter (\<lambda>x. fst x \<noteq> k) (entry_queue m ks)"
proof -
  have k: "k \<in> set ks" "distinct ks" using assms by (auto simp: queue_ok_def)
  have q: "entry_queue (m(k := None)) (filter (\<lambda>x. x \<noteq> k) ks) = entry_queue m (filter (\<lambda>x. x \<noteq> k) ks)"
    by (rule entry_queue_upd) simp
  then show "entry_queue (m(k := None)) (filter (\<lambda>x. x \<noteq> k) ks) = filter (\<lambda>x. fst x \<noteq> k) (entry_queue m ks)"
    by (simp only: entry_queue_filter)
  from used_remove [OF k(2,1), of m] assms
  have "n - length (cr_bytes e) = used_bytes (entry_queue m (filter (\<lambda>x. x \<noteq> k) ks))"
    by (simp add: queue_ok_def)
  with k q assms show "queue_ok (m(k := None)) (filter (\<lambda>x. x \<noteq> k) ks) (n - length (cr_bytes e))"
    by (auto simp: queue_ok_def)
qed

lemma evict_refines:
  assumes "queue_ok m ks n" "sz \<le> max_bytes" "evict_loop max_bytes sz m ks n = (m', ks', n')"
  shows "queue_ok m' ks' n' \<and> entry_queue m' ks' = fit (max_bytes - sz) (entry_queue m ks)"
  using assms
proof (induction ks arbitrary: m n)
  case Nil
  then show ?case by simp
next
  case (Cons k ks)
  have d: "k \<notin> set ks" using Cons.prems(1) by (simp add: queue_ok_def)
  have "k \<in> dom m" using Cons.prems(1) by (simp add: queue_ok_def)
  then obtain e where e: "m k = Some e" by auto
  have r: "queue_ok (m(k := None)) ks (n - length (cr_bytes e))"
    using queue_remove(1) [OF Cons.prems(1) e] d by (simp add: filter_absent)
  have q: "entry_queue (m(k := None)) ks = entry_queue m ks" by (rule entry_queue_upd [OF d])
  have n: "n = used_bytes (entry_queue m (k # ks))" using Cons.prems(1) by (simp add: queue_ok_def)
  show ?case
  proof (cases "n + sz > max_bytes")
    case True
    then have "evict_loop max_bytes sz (m(k := None)) ks (n - length (cr_bytes e)) = (m', ks', n')"
      using Cons.prems(3) e by simp
    from Cons.IH [OF r Cons.prems(2) this] True n Cons.prems(2) show ?thesis
      by (simp only: q) (auto simp: e)
  next
    case False
    with Cons.prems n show ?thesis by auto
  qed
qed

lemma cache_inv_queue: "cache_inv c \<longleftrightarrow> queue_ok (ca_entries c) (ca_order c) (ca_size c) \<and> ca_size c \<le> ca_max_bytes c"
  by (auto simp: cache_inv_def queue_ok_def cache_abs_def)

lemma map_of_abs: "cache_inv c \<Longrightarrow> map_of (cache_abs c) key = ca_entries c key"
  by (simp add: cache_abs_def cache_inv_def map_of_entry_queue)

lemma get_refines:
  assumes "cache_inv c" "cache_get now key c = (c', r)"
  shows "cache_inv c' \<and> ca_max_bytes c' = ca_max_bytes c \<and> spec_get now key (cache_abs c) = (cache_abs c', r)"
proof (cases "ca_entries c key")
  case None
  with assms have "c' = c\<lparr>ca_misses := ca_misses c + 1\<rparr>" "r = None" by (auto simp: cache_get_def)
  with None assms(1) show ?thesis by (simp add: spec_get_def map_of_abs cache_inv_queue) (simp add: cache_abs_def)
next
  case (Some e)
  from assms(1) have q: "queue_ok (ca_entries c) (ca_order c) (ca_size c)" by (simp add: cache_inv_queue)
  show ?thesis
  proof (cases "cr_expires e > now")
    case True
    with Some assms have "c' = c\<lparr>ca_hits := ca_hits c + 1\<rparr>" "r = Some (cr_bytes e)" by (auto simp: cache_get_def)
    with Some True assms(1) show ?thesis by (simp add: spec_get_def map_of_abs cache_inv_queue) (simp add: cache_abs_def)
  next
    case False
    with Some assms have c': "c' = c\<lparr>ca_entries := (ca_entries c)(key := None),
        ca_order := filter (\<lambda>k. k \<noteq> key) (ca_order c), ca_size := ca_size c - length (cr_bytes e),
        ca_misses := ca_misses c + 1\<rparr>" "r = None" by (auto simp: cache_get_def)
    have "cache_abs c' = filter (\<lambda>x. fst x \<noteq> key) (cache_abs c)"
      using queue_remove(2) [OF q Some] by (simp add: c'(1) cache_abs_def)
    moreover have "cache_inv c'"
      using queue_remove(1) [OF q Some] assms(1) by (auto simp: cache_inv_queue c'(1))
    ultimately show ?thesis using Some False c' by (simp add: spec_get_def map_of_abs [OF assms(1)])
  qed
qed

lemma put_refines:
  assumes "cache_inv c"
  shows "cache_inv (cache_put now key bs ttl c) \<and>
    ca_max_bytes (cache_put now key bs ttl c) = ca_max_bytes c \<and>
    cache_abs (cache_put now key bs ttl c) = spec_put (ca_max_bytes c) now key bs ttl (cache_abs c)"
proof (cases "bs = [] \<or> length bs > ca_max_bytes c div 4")
  case True
  then show ?thesis using assms by (auto simp: cache_put_def spec_put_def MAX_ENTRY_FRACTION_def)
next
  case False
  then have fits: "length bs \<le> ca_max_bytes c" by (auto dest: order_trans [OF _ div_le_dividend] simp: not_less)
  have q: "queue_ok (ca_entries c) (ca_order c) (ca_size c)" using assms by (simp add: cache_inv_queue)
  define m1 ks1 n1 where "m1 = (ca_entries c)(key := None)" and "ks1 = filter (\<lambda>k. k \<noteq> key) (ca_order c)"
    and "n1 = (case ca_entries c key of Some old \<Rightarrow> ca_size c - length (cr_bytes old) | None \<Rightarrow> ca_size c)"
  note defs = m1_def ks1_def n1_def
  have removed: "(case ca_entries c key of
                  Some old \<Rightarrow> ((ca_entries c)(key := None), filter (\<lambda>k. k \<noteq> key) (ca_order c),
                               ca_size c - length (cr_bytes old))
                | None \<Rightarrow> (ca_entries c, ca_order c, ca_size c)) = (m1, ks1, n1)"
  proof (cases "ca_entries c key")
    case None
    with q have "key \<notin> set (ca_order c)" by (metis domIff queue_ok_def)
    with None show ?thesis by (simp add: defs filter_absent fun_upd_idem)
  qed (simp add: defs)
  have r: "queue_ok m1 ks1 n1 \<and> entry_queue m1 ks1 = filter (\<lambda>x. fst x \<noteq> key) (cache_abs c)"
  proof (cases "ca_entries c key")
    case None
    then have k: "key \<notin> set (ca_order c)" using q by (metis domIff queue_ok_def)
    with None have "m1 = ca_entries c" "ks1 = ca_order c" "n1 = ca_size c"
      by (simp_all add: defs filter_absent fun_upd_idem)
    with q k show ?thesis by (simp add: cache_abs_def entry_queue_filter filter_absent)
  next
    case (Some e)
    with queue_remove [OF q Some] show ?thesis by (simp add: defs cache_abs_def)
  qed
  obtain m2 ks2 n2 where ev: "evict_loop (ca_max_bytes c) (length bs) m1 ks1 n1 = (m2, ks2, n2)"
    by (metis prod_cases3)
  with evict_refines [OF _ fits ev] r have e: "queue_ok m2 ks2 n2"
    "entry_queue m2 ks2 = fit (ca_max_bytes c - length bs) (filter (\<lambda>x. fst x \<noteq> key) (cache_abs c))" by auto
  have "n2 = used_bytes (entry_queue m2 ks2)" using e(1) by (simp add: queue_ok_def)
  then have small: "n2 + length bs \<le> ca_max_bytes c"
    using used_fit [of "ca_max_bytes c - length bs"] e(2) fits by (metis Nat.le_diff_conv2)
  have nk: "key \<notin> set ks2"
  proof
    assume "key \<in> set ks2"
    then have "key \<in> fst ` set (entry_queue m2 ks2)" by (force simp: entry_queue_def)
    then show False using e(2) fit_sublist(1) [of "ca_max_bytes c - length bs"] by fastforce
  qed
  have put: "cache_put now key bs ttl c = c\<lparr>ca_entries := m2(key \<mapsto> \<lparr>cr_bytes = bs, cr_expires = now + ttl\<rparr>),
      ca_order := ks2 @ [key], ca_size := n2 + length bs\<rparr>"
    using False by (simp add: cache_put_def removed ev MAX_ENTRY_FRACTION_def)
  have "queue_ok (m2(key \<mapsto> \<lparr>cr_bytes = bs, cr_expires = now + ttl\<rparr>)) (ks2 @ [key]) (n2 + length bs)"
    using e(1) nk by (auto simp: queue_ok_def entry_queue_upd)
  with small have "cache_inv (cache_put now key bs ttl c)" by (simp add: put cache_inv_queue)
  moreover have "cache_abs (cache_put now key bs ttl c) = spec_put (ca_max_bytes c) now key bs ttl (cache_abs c)"
    using False e(2) nk by (simp add: put cache_abs_def spec_put_def entry_queue_upd)
  ultimately show ?thesis by (simp add: put)
qed

text \<open>Sequences of operations: each is atomic under the mutex.\<close>

datatype cache_op = Get nat string | Put nat string bytes nat

fun cache_run :: "cache_op list \<Rightarrow> response_cache \<Rightarrow> response_cache \<times> bytes option list" where
  "cache_run [] c = (c, [])"
| "cache_run (Get now key # ops) c =
     (case cache_get now key c of (c', r) \<Rightarrow>
        (case cache_run ops c' of (c'', rs) \<Rightarrow> (c'', r # rs)))"
| "cache_run (Put now key bs ttl # ops) c = cache_run ops (cache_put now key bs ttl c)"

fun spec_run :: "nat \<Rightarrow> cache_op list \<Rightarrow> entry_list \<Rightarrow> entry_list \<times> bytes option list" where
  "spec_run max_bytes [] xs = (xs, [])"
| "spec_run max_bytes (Get now key # ops) xs =
     (case spec_get now key xs of (xs', r) \<Rightarrow>
        (case spec_run max_bytes ops xs' of (xs'', rs) \<Rightarrow> (xs'', r # rs)))"
| "spec_run max_bytes (Put now key bs ttl # ops) xs =
     spec_run max_bytes ops (spec_put max_bytes now key bs ttl xs)"

lemma run_refines:
  assumes "cache_inv c" "cache_run ops c = (c', rs)"
  shows "cache_inv c' \<and> ca_max_bytes c' = ca_max_bytes c \<and>
    spec_run (ca_max_bytes c) ops (cache_abs c) = (cache_abs c', rs)"
  using assms
proof (induction ops c arbitrary: rs rule: cache_run.induct)
  case (2 now key ops c)
  obtain c1 r where g: "cache_get now key c = (c1, r)" by fastforce
  with 2 get_refines [OF "2.prems"(1) g] show ?case by (auto split: prod.splits)
next
  case (3 now key bs ttl ops c)
  with put_refines [OF "3.prems"(1), of now key bs ttl] show ?case by simp
qed simp

text \<open>C40: over any sequence of lookups and insertions at any instants, the cache answers exactly as
  a plain list of entries does, from which an insertion drops the fewest oldest entries that make room
  and a lookup drops an expired one; its byte count is the bytes held and never exceeds the limit.\<close>

theorem cache_implements_fifo:
  "case cache_run ops (new_response_cache max_bytes) of (c, rs) \<Rightarrow>
     spec_run max_bytes ops [] = (cache_abs c, rs) \<and>
     ca_size c = used_bytes (cache_abs c) \<and> ca_size c \<le> max_bytes \<and> distinct (map fst (cache_abs c))"
proof -
  obtain c rs where r: "cache_run ops (new_response_cache max_bytes) = (c, rs)" by fastforce
  have "cache_inv (new_response_cache max_bytes)" "cache_abs (new_response_cache max_bytes) = []"
    by (auto simp: cache_inv_def new_response_cache_def cache_abs_def)
  from run_refines [OF this(1) r] this(2) r show ?thesis
    by (auto simp: cache_inv_def new_response_cache_def cache_abs_def entry_queue_def comp_def)
qed

section \<open>How long a response may be kept\<close>

definition crlf2 :: string where "crlf2 = [CHR 0x0D, CHR 0x0A, CHR 0x0D, CHR 0x0A]"

text \<open>\<open>str::lines\<close>, its first element: none for the empty string; a carriage return before the line
  feed belongs to the line end.\<close>

definition first_line :: "string \<Rightarrow> string option" where
  "first_line s =
     (if s = [] then None
      else (case split_once CHR 0x0A s of
              None \<Rightarrow> Some s
            | Some (l, _) \<Rightarrow> Some (if l \<noteq> [] \<and> last l = CHR 0x0D then butlast l else l)))"

lemma split_once_str_sound: "split_once_str p s = Some (a, b) \<Longrightarrow> s = a @ p @ b"
proof (induction s arbitrary: a)
  case (Cons x xs)
  then show ?case by (auto simp: strip_prefix_Some split: option.splits)
qed (simp split: if_splits)

definition starts_with :: "string \<Rightarrow> string \<Rightarrow> bool" where
  "starts_with s p \<longleftrightarrow> strip_prefix p s \<noteq> None"

definition STATIC_EXTS :: "string list" where
  "STATIC_EXTS =
     [''.css'', ''.js'', ''.mjs'', ''.woff'', ''.woff2'', ''.ttf'', ''.otf'', ''.eot'', ''.png'', ''.jpg'', ''.jpeg'',
      ''.gif'', ''.webp'', ''.svg'', ''.ico'', ''.avif'', ''.mp3'', ''.mp4'', ''.wasm'', ''.webm'', ''.ogg'']"

text \<open>What the header says about the age; \<open>None\<close> when it says nothing that parses.\<close>

definition max_age :: "string \<Rightarrow> nat option" where
  "max_age hdr_lower =
     (case split_once_str ''max-age='' hdr_lower of
        None \<Rightarrow> None
      | Some (_, rest) \<Rightarrow> parse_uint (2 ^ 64) (takeWhile is_digit rest))"

definition content_type_ttl :: "string \<Rightarrow> nat option" where
  "content_type_ttl hdr_lower =
     (case split_once_str ''content-type:'' hdr_lower of
        None \<Rightarrow> None
      | Some (_, rest) \<Rightarrow>
          (let ct = (case split_once CHR 0x0D rest of Some (l, _) \<Rightarrow> l | None \<Rightarrow> rest) in
           if contains ct ''image/'' \<or> contains ct ''font/'' then Some 3600
           else if contains ct ''text/css'' \<or> contains ct ''javascript'' \<or> contains ct ''application/wasm''
           then Some 1800 else None))"

text \<open>In seconds.\<close>

definition parse_ttl :: "bytes \<Rightarrow> string \<Rightarrow> nat option" where
  "parse_ttl raw_response url =
     (case split_once_str crlf2 (str_of_bytes raw_response) of
        None \<Rightarrow> None
      | Some (hdr, _) \<Rightarrow>
          if \<not> utf8_valid (as_bytes hdr) then None
          else (let hdr_lower = to_ascii_lowercase hdr in
            case first_line hdr_lower of
              None \<Rightarrow> None
            | Some line \<Rightarrow>
                if \<not> starts_with line ''http/1.1 200'' \<and> \<not> starts_with line ''http/1.0 200'' then None
                else if contains hdr_lower ''no-store'' \<or> contains hdr_lower ''no-cache''
                     \<or> contains hdr_lower ''private'' then None
                else if contains hdr_lower ''set-cookie:'' then None
                else (case max_age hdr_lower of
                  Some age \<Rightarrow> if age = 0 then None else Some (min age 86400)
                | None \<Rightarrow>
                    (let path_no_query = to_ascii_lowercase (hd (split_all CHR ''?'' url)) in
                     if list_ex (ends_with path_no_query) STATIC_EXTS then Some 3600
                     else content_type_ttl hdr_lower))))"

definition to_ascii_uppercase :: "string \<Rightarrow> string" where
  "to_ascii_uppercase s =
     map (\<lambda>c. if 97 \<le> (of_char c :: nat) \<and> (of_char c :: nat) \<le> 122 then char_of (of_char c - 32 :: nat) else c) s"

definition is_cacheable_method :: "string \<Rightarrow> bool" where
  "is_cacheable_method method \<longleftrightarrow> to_ascii_uppercase method \<in> {''GET'', ''HEAD''}"

definition cache_key :: "string \<Rightarrow> string \<Rightarrow> string" where
  "cache_key method url = to_ascii_uppercase method @ '':'' @ url"

text \<open>A response is given a lifetime only if its status line is a 200 of HTTP/1.0 or 1.1 and its
  header section names none of no-store, no-cache, private and set-cookie, in any case; the lifetime is
  between a second and a day.\<close>

theorem ttl_sound:
  assumes "parse_ttl raw url = Some ttl"
  shows "1 \<le> ttl \<and> ttl \<le> 86400 \<and>
    (\<exists>hdr body line. str_of_bytes raw = hdr @ crlf2 @ body \<and>
      first_line (to_ascii_lowercase hdr) = Some line \<and>
      (starts_with line ''http/1.1 200'' \<or> starts_with line ''http/1.0 200'') \<and>
      \<not> contains (to_ascii_lowercase hdr) ''no-store'' \<and> \<not> contains (to_ascii_lowercase hdr) ''no-cache'' \<and>
      \<not> contains (to_ascii_lowercase hdr) ''private'' \<and> \<not> contains (to_ascii_lowercase hdr) ''set-cookie:'')"
proof -
  from assms obtain hdr body where h: "split_once_str crlf2 (str_of_bytes raw) = Some (hdr, body)"
    by (auto simp: parse_ttl_def split: option.splits)
  let ?h = "to_ascii_lowercase hdr"
  from assms h obtain line where l: "first_line ?h = Some line"
    "starts_with line ''http/1.1 200'' \<or> starts_with line ''http/1.0 200''"
    "\<not> contains ?h ''no-store''" "\<not> contains ?h ''no-cache''" "\<not> contains ?h ''private''"
    "\<not> contains ?h ''set-cookie:''"
    by (auto simp: parse_ttl_def Let_def split: if_splits option.splits)
  with assms h have "1 \<le> ttl \<and> ttl \<le> 86400"
    by (auto simp: parse_ttl_def content_type_ttl_def Let_def split: if_splits option.splits)
  moreover have "str_of_bytes raw = hdr @ crlf2 @ body" using split_once_str_sound [OF h] .
  ultimately show ?thesis using l by blast
qed

definition ttl_sample :: string where
  "ttl_sample = ''HTTP/1.1 200 OK'' @ [CHR 0x0D, CHR 0x0A] @ ''Age: 1'' @ crlf2 @ ''b''"

theorem ttl_sound_witness:
  "parse_ttl (as_bytes ttl_sample) ''/a.css?v=1'' = Some 3600 \<and> (1 :: nat) \<le> 3600 \<and> (3600 :: nat) \<le> 86400 \<and>
   (\<exists>hdr body line. str_of_bytes (as_bytes ttl_sample) = hdr @ crlf2 @ body \<and>
      first_line (to_ascii_lowercase hdr) = Some line)"
proof -
  have r: "parse_ttl (as_bytes ttl_sample) ''/a.css?v=1'' = Some 3600" by code_simp
  from ttl_sound [OF r] r show ?thesis by blast
qed

end
