(* ===== verification/Reorder.thy ===== *)
theory Reorder
  imports Prelude
begin

text \<open>
  Reordering of numbered items, which the full-tunnel mode does twice: the tunnel node orders the
  uploads of a session by \<open>wseq\<close>, the tunnel client orders the replies by \<open>seq\<close>. Both keep a
  counter and a \<^verbatim>\<open>BTreeMap\<close> of early items. This theory has the ordered map, and the contract
  \<open>reorder_buffer\<close> of such a component: whatever the order of arrival, and with repetitions, what has
  been emitted is a prefix of the sender's list, and it is all of the list once every number has
  arrived.
\<close>

section \<open>Ordered maps\<close>

text \<open>A \<^verbatim>\<open>BTreeMap\<close> as its entries in key order; \<open>first_entry\<close> is the head.\<close>

type_synonym ('k, 'v) btree = "('k \<times> 'v) list"

fun bt_insert :: "'k::linorder \<Rightarrow> 'v \<Rightarrow> ('k, 'v) btree \<Rightarrow> ('k, 'v) btree" where
  "bt_insert k v [] = [(k, v)]"
| "bt_insert k v ((k', v') # r) =
     (if k < k' then (k, v) # (k', v') # r
      else if k = k' then (k, v) # r
      else (k', v') # bt_insert k v r)"

definition bt_ok :: "('k::linorder, 'v) btree \<Rightarrow> bool" where
  "bt_ok m \<longleftrightarrow> sorted_wrt (<) (map fst m)"

lemma bt_ok_simps [simp]:
  "bt_ok []" "bt_ok ((k, v) # r) \<longleftrightarrow> (\<forall>k'\<in>fst ` set r. k < k') \<and> bt_ok r"
  by (auto simp: bt_ok_def)

lemma keys_bt_insert: "fst ` set (bt_insert k v m) = insert k (fst ` set m)"
  by (induction k v m rule: bt_insert.induct) (simp_all add: insert_commute)

lemma bt_ok_insert [simp]: "bt_ok m \<Longrightarrow> bt_ok (bt_insert k v m)"
  by (induction k v m rule: bt_insert.induct) (use less_trans in \<open>auto simp: keys_bt_insert\<close>)

lemma map_of_above: "\<forall>k'\<in>fst ` set m. k < k' \<Longrightarrow> map_of m (k :: 'k::linorder) = None"
  by (meson less_irrefl map_of_eq_None_iff)

lemma map_of_bt_insert [simp]: "bt_ok m \<Longrightarrow> map_of (bt_insert k v m) = (map_of m)(k \<mapsto> v)"
  by (induction k v m rule: bt_insert.induct) (auto simp: fun_eq_iff)

lemma distinct_bt: "bt_ok m \<Longrightarrow> distinct (map fst m)"
  by (induction m) fastforce+

text \<open>The loop \<open>while let Some(entry) = first_entry()\<close> that removes consecutive entries.\<close>

fun take_run :: "u64 \<Rightarrow> (u64, 'v) btree \<Rightarrow> 'v list \<times> u64 \<times> (u64, 'v) btree" where
  "take_run expected [] = ([], expected, [])"
| "take_run expected ((k, v) # r) =
     (if k \<noteq> expected then ([], expected, (k, v) # r)
      else (case take_run (expected + 1) r of (vs, e, r') \<Rightarrow> (v # vs, e, r')))"

lemma length_bt_insert: "length (bt_insert k v m) \<le> Suc (length m)"
  by (induction k v m rule: bt_insert.induct) auto

lemma length_take_run: "take_run e m = (vs, e', m') \<Longrightarrow> length m' \<le> length m"
  by (induction e m arbitrary: vs e' m' rule: take_run.induct) (auto split: if_splits prod.splits intro: le_SucI)

section \<open>Runs of a fallible operation\<close>

fun run_opt :: "('e \<Rightarrow> 's \<Rightarrow> 's option) \<Rightarrow> 'e list \<Rightarrow> 's \<Rightarrow> 's option" where
  "run_opt f [] s = Some s"
| "run_opt f (e # es) s = (case f e s of None \<Rightarrow> None | Some s' \<Rightarrow> run_opt f es s')"

lemma run_opt_append:
  "run_opt f (es @ es') s = (case run_opt f es s of None \<Rightarrow> None | Some s' \<Rightarrow> run_opt f es' s')"
  by (induction es arbitrary: s) (auto split: option.splits)

lemma run_opt_invariant:
  assumes "run_opt f es s = Some s'" "P s"
    and "\<And>e s s'. e \<in> set es \<Longrightarrow> P s \<Longrightarrow> f e s = Some s' \<Longrightarrow> P s'"
  shows "P s'"
  using assms
proof (induction es arbitrary: s)
  case (Cons e es)
  then obtain t where "f e s = Some t" "run_opt f es t = Some s'" by (auto split: option.splits)
  with Cons.prems Cons.IH [of t] show ?case by (meson list.set_intros)
qed simp

section \<open>The contract\<close>

locale reorder_buffer =
  fixes recv :: "nat \<Rightarrow> 'a \<Rightarrow> 's \<Rightarrow> 's option"
    and emitted :: "'s \<Rightarrow> 'a list"
    and held :: "'s \<Rightarrow> nat \<Rightarrow> 'a option"
    and good :: "'s \<Rightarrow> bool"
    and lim :: nat
  assumes good_recv: "good s \<Longrightarrow> q < lim \<Longrightarrow> length (emitted s) < lim \<Longrightarrow> recv q x s = Some s' \<Longrightarrow> good s'"
    and held_above: "good s \<Longrightarrow> held s q = Some x \<Longrightarrow> length (emitted s) < q"
    and recv_stale: "good s \<Longrightarrow> q < lim \<Longrightarrow> q < length (emitted s) \<Longrightarrow> recv q x s = Some s' \<Longrightarrow>
      emitted s' = emitted s \<and> held s' = held s"
    and recv_early: "good s \<Longrightarrow> q < lim \<Longrightarrow> length (emitted s) < q \<Longrightarrow> recv q x s = Some s' \<Longrightarrow>
      emitted s' = emitted s \<and> held s' = (held s)(q \<mapsto> x)"
    and recv_next: "good s \<Longrightarrow> q < lim \<Longrightarrow> q = length (emitted s) \<Longrightarrow> recv q x s = Some s' \<Longrightarrow>
      \<exists>run. emitted s' = emitted s @ x # run \<and>
        (\<forall>i<length run. held s (Suc q + i) = Some (run ! i)) \<and>
        held s' = held s |` {length (emitted s')..}"
begin

text \<open>The invariant relative to the sender's list \<open>xs\<close> and the set of numbers that have arrived.\<close>

lemma step_invariant:
  assumes g: "good s" and e: "prefix (emitted s) xs" "length xs \<le> lim"
    and h: "\<And>q x. held s q = Some x \<Longrightarrow> q < length xs \<and> xs ! q = x"
    and seen: "\<And>q. q \<in> S \<Longrightarrow> q < length (emitted s) \<or> held s q \<noteq> None"
    and q: "q < length xs" "xs ! q = x" and r: "recv q x s = Some s'"
  shows "prefix (emitted s') xs" "\<And>q x. held s' q = Some x \<Longrightarrow> q < length xs \<and> xs ! q = x"
    "\<And>p. p \<in> insert q S \<Longrightarrow> p < length (emitted s') \<or> held s' p \<noteq> None"
proof -
  from q e have ql: "q < lim" by simp
  have "prefix (emitted s') xs \<and> (\<forall>q x. held s' q = Some x \<longrightarrow> q < length xs \<and> xs ! q = x)
    \<and> (\<forall>p\<in>insert q S. p < length (emitted s') \<or> held s' p \<noteq> None)"
  proof (cases q "length (emitted s)" rule: linorder_cases)
    case less
    from recv_stale [OF g ql less r] less e h seen show ?thesis by auto
  next
    case greater
    from recv_early [OF g ql greater r] greater e h seen q show ?thesis by auto
  next
    case equal
    from recv_next [OF g ql equal r] obtain run where run: "emitted s' = emitted s @ x # run"
      "\<And>i. i < length run \<Longrightarrow> held s (Suc q + i) = Some (run ! i)"
      "held s' = held s |` {length (emitted s')..}" by blast
    have nth: "i < length run \<Longrightarrow> Suc q + i < length xs \<and> xs ! (Suc q + i) = run ! i" for i
      using run(2) h by blast
    have len: "length (emitted s') \<le> length xs"
      using nth [of "length run - 1"] q equal run(1) by (cases run) auto
    have "emitted s' = take (length (emitted s')) xs"
    proof (rule nth_equalityI)
      show "length (emitted s') = length (take (length (emitted s')) xs)" using len by simp
      fix i assume i: "i < length (emitted s')"
      consider "i < q" | "i = q" | j where "i = Suc q + j" "j < length run"
      proof (cases i q rule: linorder_cases)
        case greater
        then have "i = Suc q + (i - Suc q)" by simp
        with greater i equal run(1) show ?thesis using that(3) [of "i - Suc q"] by auto
      qed (use that in auto)
      then show "emitted s' ! i = take (length (emitted s')) xs ! i"
      proof cases
        case 1
        with e(1) equal i run(1) len show ?thesis by (auto simp: nth_append prefix_def)
      next
        case 2
        with q equal i run(1) show ?thesis by (simp add: nth_append)
      next
        case 3
        with nth [of j] equal i run(1) show ?thesis by (simp add: nth_append)
      qed
    qed
    then have p: "prefix (emitted s') xs" by (metis take_is_prefix)
    have "p < length (emitted s') \<or> held s' p \<noteq> None" if "p \<in> insert q S" for p
      using that seen [of p] run(1,3) equal by (auto simp: restrict_map_def)
    with p h run(3) show ?thesis by (auto simp: restrict_map_def split: if_splits)
  qed
  then show "prefix (emitted s') xs" "\<And>q x. held s' q = Some x \<Longrightarrow> q < length xs \<and> xs ! q = x"
    "\<And>p. p \<in> insert q S \<Longrightarrow> p < length (emitted s') \<or> held s' p \<noteq> None" by blast+
qed

lemma run_invariant:
  assumes "good s" "prefix (emitted s) xs" "length xs < lim"
    and "\<And>q x. held s q = Some x \<Longrightarrow> q < length xs \<and> xs ! q = x"
    and "\<And>q. q \<in> S \<Longrightarrow> q < length (emitted s) \<or> held s q \<noteq> None"
    and "\<And>q x. (q, x) \<in> set evs \<Longrightarrow> q < length xs \<and> xs ! q = x"
    and "run_opt (\<lambda>(q, x). recv q x) evs s = Some s'"
  shows "good s' \<and> prefix (emitted s') xs \<and>
    (\<forall>q\<in>S \<union> fst ` set evs. q < length (emitted s') \<or> held s' q \<noteq> None)"
  using assms
proof (induction evs arbitrary: s S)
  case Nil
  then show ?case by simp
next
  case (Cons ev evs)
  obtain q x where ev: "ev = (q, x)" by force
  with Cons.prems(7) obtain t where r: "recv q x s = Some t" and rest: "run_opt (\<lambda>(q, x). recv q x) evs t = Some s'"
    by (auto split: option.splits)
  from Cons.prems(6) [of q x] ev have qx: "q < length xs" "xs ! q = x" by auto
  have "length (emitted s) < lim" using Cons.prems(2,3) prefix_length_le by fastforce
  with Cons.prems(3) qx have "good t" by (intro good_recv [OF Cons.prems(1) _ _ r]) simp_all
  note g = this
  note inv = step_invariant [where S = S, OF Cons.prems(1,2) less_imp_le [OF Cons.prems(3)] Cons.prems(4,5) qx r]
  have evs: "\<And>q x. (q, x) \<in> set evs \<Longrightarrow> q < length xs \<and> xs ! q = x"
    by (rule Cons.prems(6)) simp
  have "insert q S \<union> fst ` set evs = S \<union> fst ` set (ev # evs)" using ev by auto
  with Cons.IH [of t "insert q S", OF g inv(1) Cons.prems(3) inv(2) inv(3) evs rest] show ?case
    by metis
qed

lemma held_received:
  assumes "good s" "prefix (emitted s) xs" "length xs < lim"
    and "\<And>q x. held s q = Some x \<Longrightarrow> q < length xs \<and> xs ! q = x"
    and "\<And>q x. (q, x) \<in> set evs \<Longrightarrow> q < length xs \<and> xs ! q = x"
    and "run_opt (\<lambda>(q, x). recv q x) evs s = Some s'"
    and "held s' p = Some y"
  shows "held s p = Some y \<or> (p, y) \<in> set evs"
  using assms
proof (induction evs arbitrary: s)
  case Nil
  then show ?case by simp
next
  case (Cons ev evs)
  obtain q x where ev: "ev = (q, x)" by force
  with Cons.prems(6) obtain t where r: "recv q x s = Some t" and rest: "run_opt (\<lambda>(q, x). recv q x) evs t = Some s'"
    by (auto split: option.splits)
  from Cons.prems(5) [of q x] ev have qx: "q < length xs" "xs ! q = x" by auto
  then have ql: "q < lim" using Cons.prems(3) by simp
  have el: "length (emitted s) < lim" using Cons.prems(2,3) prefix_length_le by fastforce
  note inv = step_invariant [where S = "{}", OF Cons.prems(1,2) less_imp_le [OF Cons.prems(3)] Cons.prems(4) _ qx r]
  have evs: "\<And>q x. (q, x) \<in> set evs \<Longrightarrow> q < length xs \<and> xs ! q = x"
    by (rule Cons.prems(5)) simp
  from Cons.IH [OF good_recv [OF Cons.prems(1) ql el r] _ Cons.prems(3) _ evs rest Cons.prems(7)] inv
  have "held t p = Some y \<or> (p, y) \<in> set evs" by simp
  moreover have "held s p = Some y \<or> (p, y) = ev" if "held t p = Some y"
    using that recv_stale [OF Cons.prems(1) ql _ r] recv_early [OF Cons.prems(1) ql _ r]
      recv_next [OF Cons.prems(1) ql _ r] ev
    by (cases q "length (emitted s)" rule: linorder_cases) (auto simp: restrict_map_def split: if_splits)
  ultimately show ?case by auto
qed

lemma seen_emitted:
  assumes "good s" "\<And>q. q < m \<Longrightarrow> q < length (emitted s) \<or> held s q \<noteq> None"
  shows "m \<le> length (emitted s)"
proof (rule ccontr)
  assume "\<not> m \<le> length (emitted s)"
  with assms(2) [of "length (emitted s)"] obtain x where "held s (length (emitted s)) = Some x" by auto
  from held_above [OF assms(1) this] show False by simp
qed

theorem emits_prefix:
  assumes "good s" "emitted s = []" "held s = Map.empty" "length xs < lim"
    and "\<And>q x. (q, x) \<in> set evs \<Longrightarrow> q < length xs \<and> xs ! q = x"
    and "run_opt (\<lambda>(q, x). recv q x) evs s = Some s'"
  shows "prefix (emitted s') xs"
  using run_invariant [of s xs "{}" evs s'] assms by simp

theorem emits_all:
  assumes "good s" "emitted s = []" "held s = Map.empty" "length xs < lim"
    and "\<And>q x. (q, x) \<in> set evs \<Longrightarrow> q < length xs \<and> xs ! q = x"
    and "{..<length xs} \<subseteq> fst ` set evs"
    and "run_opt (\<lambda>(q, x). recv q x) evs s = Some s'"
  shows "emitted s' = xs"
proof -
  from run_invariant [of s xs "{}" evs s'] assms
  have inv: "good s'" "prefix (emitted s') xs"
    "\<And>q. q \<in> fst ` set evs \<Longrightarrow> q < length (emitted s') \<or> held s' q \<noteq> None" by auto
  have "\<not> length (emitted s') < length xs"
  proof
    assume "length (emitted s') < length xs"
    then have "length (emitted s') \<in> fst ` set evs" using assms(6) by auto
    from inv(3) [OF this] obtain x where "held s' (length (emitted s')) = Some x" by auto
    from held_above [OF inv(1) this] show False by simp
  qed
  then have "length (emitted s') = length xs" using prefix_length_le [OF inv(2)] by simp
  with inv(2) show ?thesis by (auto simp: prefix_def)
qed

end

section \<open>The loop over consecutive entries\<close>

lemma take_run_spec:
  assumes "bt_ok m" "\<forall>k\<in>fst ` set m. e \<le> k" "unat e + length m < 2 ^ 64"
    and "take_run e m = (vs, e', m')"
  shows "bt_ok m' \<and> unat e' = unat e + length vs \<and> (\<forall>k\<in>fst ` set m'. e' < k) \<and>
    (\<forall>i<length vs. map_of m (e + of_nat i) = Some (vs ! i)) \<and> map_of m' = map_of m |` {k. e' \<le> k}"
  using assms
proof (induction m arbitrary: e vs e' m')
  case Nil
  then show ?case by (auto simp: fun_eq_iff restrict_map_def)
next
  case (Cons kv m)
  obtain k v where kv: "kv = (k, v)" by force
  show ?case
  proof (cases "k = e")
    case False
    with Cons.prems kv have "vs = []" "e' = e" "m' = (k, v) # m" "e < k" by auto
    moreover have "map_of ((k, v) # m) x = None" if "\<not> e \<le> x" for x
      using Cons.prems(2) kv that by (auto simp: map_of_eq_None_iff)
    ultimately show ?thesis using Cons.prems(1) kv by (auto simp: fun_eq_iff restrict_map_def)
  next
    case True
    with Cons.prems(4) kv obtain ws where r: "take_run (e + 1) m = (ws, e', m')" "vs = v # ws"
      by (auto split: prod.splits)
    have e1: "unat (e + 1) = Suc (unat e)" using Cons.prems(3) by (simp add: unat_Suc_u64)
    have above: "\<forall>k\<in>fst ` set m. e + 1 \<le> k"
    proof
      fix k' assume "k' \<in> fst ` set m"
      then have "e < k'" using Cons.prems(1) kv True by auto
      then show "e + 1 \<le> k'" by (simp add: inc_le)
    qed
    have ok: "bt_ok m" and len: "unat (e + 1) + length m < 2 ^ 64"
      using Cons.prems(1,3) kv e1 by auto
    note IH = Cons.IH [OF ok above len r(1)]
    have "map_of m' = map_of (kv # m) |` {k. e' \<le> k}"
    proof -
      have "\<not> e' \<le> e" using IH e1 by (simp add: word_le_nat_alt)
      then show ?thesis using IH kv True by (auto simp: fun_eq_iff restrict_map_def)
    qed
    moreover have "map_of (kv # m) (e + of_nat i) = Some (vs ! i)" if i: "i < length vs" for i
    proof (cases i)
      case 0
      then show ?thesis using kv True r by simp
    next
      case (Suc j)
      have neq: "e + of_nat i \<noteq> e"
      proof
        assume "e + of_nat i = e"
        then have "(of_nat i :: u64) = 0" by simp
        moreover have "i < 2 ^ 64" using i r(2) IH unat_bound [of e'] by simp
        ultimately show False using Suc by (metis unat_u64_of_nat unsigned_0 nat.distinct(1))
      qed
      have "map_of m (e + 1 + of_nat j) = Some (ws ! j)" using IH i r(2) Suc by simp
      then have "map_of m (e + of_nat i) = Some (ws ! j)" using Suc by (simp add: ac_simps)
      moreover from neq True have "e + of_nat i \<noteq> k" by simp
      moreover have "vs ! i = ws ! j" using r(2) Suc by simp
      ultimately show ?thesis by (simp only: kv map_of.simps fst_conv snd_conv fun_upd_apply if_False)
    qed
    moreover have "unat e' = unat e + length vs" using conjunct1 [OF conjunct2 [OF IH]] r(2) e1 by simp
    ultimately show ?thesis using IH by blast
  qed
qed

end
