(* ===== verification/Tunnel_Session.thy ===== *)
theory Tunnel_Session
  imports Reorder
begin

text \<open>
  The sessions of the tunnel node (\<^verbatim>\<open>tunnel-node/src/main.rs\<close>): what a TCP session keeps, its reader
  task, the ordered upload path, the drains of the single and of the batch mode, and the UDP session
  with its bounded queue. The mutexes of the code make each of these operations atomic on its session,
  so a run of a session is a list of them in any order. Shown: uploads reach the socket in the order of
  their \<open>wseq\<close> and each once; drains hand out exactly the bytes read, in order, and report the end
  only after the last byte; the drains of a batch end and stay within the response budget; the UDP
  queue keeps the newest datagrams.
\<close>

section \<open>Limits\<close>

definition UDP_QUEUE_LIMIT :: nat where "UDP_QUEUE_LIMIT = 256"
definition UDP_RECV_BUF_BYTES :: nat where "UDP_RECV_BUF_BYTES = 65536"
definition TCP_DRAIN_MAX_BYTES :: nat where "TCP_DRAIN_MAX_BYTES = 16 * 1024 * 1024"
definition READ_BUF_CAP :: nat where "READ_BUF_CAP = 16 * 1024 * 1024"
definition BATCH_RESPONSE_BUDGET :: nat where "BATCH_RESPONSE_BUDGET = 32 * 1024 * 1024"
definition MAX_PENDING_WRITES_PER_SESSION :: nat where "MAX_PENDING_WRITES_PER_SESSION = 32"
definition MAX_PENDING_WRITE_BYTES_PER_SESSION :: nat where
  "MAX_PENDING_WRITE_BYTES_PER_SESSION = 16 * 1024 * 1024"

section \<open>A TCP session\<close>

text \<open>\<open>SessionInner\<close>, and the tasks its \<open>ManagedSession\<close> holds handles of. The socket's writing
  half is the list of its \<open>write_all\<close> calls; instants are milliseconds. \<open>ts_udpgw\<close> is \<open>None\<close>
  for a real connection and says whether the gateway task runs for a virtual one. \<open>ts_arrived\<close> is a
  ghost that no operation looks at: all the bytes the reader has read from the socket so far.\<close>

record tcp_session =
  ts_writes :: "bytes list"
  ts_read_buf :: bytes
  ts_eof :: bool
  ts_last_active :: nat
  ts_buf_len :: nat
  ts_next_write_seq :: "u64 option"
  ts_pending_writes :: "(u64, bytes) btree"
  ts_reader :: bool
  ts_udpgw :: "bool option"
  ts_arrived :: bytes

definition new_session :: "nat \<Rightarrow> bool \<Rightarrow> tcp_session" where
  "new_session now udpgw =
     \<lparr>ts_writes = [], ts_read_buf = [], ts_eof = False, ts_last_active = now, ts_buf_len = 0,
      ts_next_write_seq = None, ts_pending_writes = [], ts_reader = True,
      ts_udpgw = (if udpgw then Some True else None), ts_arrived = []\<rparr>"

definition abort_reader :: "tcp_session \<Rightarrow> tcp_session" where
  "abort_reader s = s\<lparr>ts_reader := False\<rparr>"

definition abort_all :: "tcp_session \<Rightarrow> tcp_session" where
  "abort_all s = (abort_reader s)\<lparr>ts_udpgw := map_option (\<lambda>_. False) (ts_udpgw s)\<rparr>"

text \<open>One turn of \<open>reader_task\<close>: it waits while the buffer is full; then a read of \<open>Some\<close> bytes
  appends them, the end of the stream or an error (\<open>None\<close>) sets the flag and ends the task.\<close>

definition reader_ready :: "tcp_session \<Rightarrow> bool" where
  "reader_ready s \<longleftrightarrow> ts_reader s \<and> length (ts_read_buf s) < READ_BUF_CAP"

definition reader_task :: "bytes option \<Rightarrow> tcp_session \<Rightarrow> tcp_session" where
  "reader_task r s =
     (if \<not> reader_ready s then s else
      case r of
        None \<Rightarrow> s\<lparr>ts_eof := True, ts_reader := False\<rparr>
      | Some chunk \<Rightarrow>
          s\<lparr>ts_read_buf := ts_read_buf s @ chunk, ts_buf_len := length (ts_read_buf s @ chunk),
            ts_arrived := ts_arrived s @ chunk\<rparr>)"

definition drain_now :: "nat \<Rightarrow> tcp_session \<Rightarrow> tcp_session \<times> bytes \<times> bool" where
  "drain_now max_bytes s =
     (let raw_eof = ts_eof s;
          cap = min max_bytes TCP_DRAIN_MAX_BYTES;
          buf = ts_read_buf s in
      if length buf \<le> cap
      then (s\<lparr>ts_read_buf := [], ts_buf_len := 0\<rparr>, buf, raw_eof)
      else (s\<lparr>ts_read_buf := drop cap buf, ts_buf_len := length (drop cap buf)\<rparr>, take cap buf, False))"

definition is_drainable :: "tcp_session \<Rightarrow> bool" where
  "is_drainable s \<longleftrightarrow> ts_eof s \<or> ts_read_buf s \<noteq> []"

text \<open>\<open>wait_and_drain\<close> of the single-op mode looks every 10 ms (a sleep may take longer: \<open>lag\<close>) for
  growth, the end, or the deadline; \<open>ev k\<close> is what the reader does during the \<open>k\<close>-th sleep.\<close>

function wait_loop :: "(nat \<Rightarrow> bytes option list) \<Rightarrow> (nat \<Rightarrow> nat) \<Rightarrow> nat \<Rightarrow> nat \<Rightarrow> nat \<Rightarrow> nat \<Rightarrow> nat \<Rightarrow> bool
    \<Rightarrow> tcp_session \<Rightarrow> tcp_session" where
  "wait_loop ev lag k now deadline prev_len last_growth had_data s =
     (let cur_len = length (ts_read_buf s);
          grew = cur_len > prev_len;
          last_growth' = (if grew then now else last_growth);
          prev_len' = (if grew then cur_len else prev_len);
          had_data' = (had_data \<or> grew) in
      if ts_eof s then s
      else if deadline \<le> now then s
      else if had_data' \<and> now - last_growth' > 100 then s
      else wait_loop ev lag (Suc k) (now + 10 + lag k) deadline prev_len' last_growth' had_data'
             (fold reader_task (ev k) s))"
  by pat_completeness auto
termination
  by (relation "measure (\<lambda>(ev, lag, k, now, deadline, _). deadline - now)") auto

declare wait_loop.simps [simp del]

definition take_all :: "tcp_session \<Rightarrow> tcp_session \<times> bytes \<times> bool" where
  "take_all s = (s\<lparr>ts_read_buf := [], ts_buf_len := 0\<rparr>, ts_read_buf s, ts_eof s)"

definition wait_and_drain :: "(nat \<Rightarrow> bytes option list) \<Rightarrow> (nat \<Rightarrow> nat) \<Rightarrow> nat \<Rightarrow> nat \<Rightarrow> tcp_session
    \<Rightarrow> tcp_session \<times> bytes \<times> bool" where
  "wait_and_drain ev lag now max_wait s = take_all (wait_loop ev lag 0 now (now + max_wait) 0 now False s)"

section \<open>Ordered uploads\<close>

definition write_bytes :: "bytes \<Rightarrow> tcp_session \<Rightarrow> tcp_session" where
  "write_bytes bs s = s\<lparr>ts_writes := ts_writes s @ [bs]\<rparr>"

text \<open>The \<open>Some(wseq)\<close> arm of a \<open>data\<close> op with bytes; \<open>None\<close> when the buffer is full, on which
  the handler closes the session.\<close>

definition wseq_write :: "u64 \<Rightarrow> bytes \<Rightarrow> tcp_session \<Rightarrow> tcp_session option" where
  "wseq_write wseq bs s =
     (let expected = (case ts_next_write_seq s of Some e \<Rightarrow> e | None \<Rightarrow> 0) in
      if wseq < expected then Some (s\<lparr>ts_next_write_seq := Some expected\<rparr>)
      else if wseq = expected then
        (case take_run (expected + 1) (ts_pending_writes s) of
           (run, expected', rest) \<Rightarrow>
             Some (s\<lparr>ts_writes := ts_writes s @ bs # run, ts_next_write_seq := Some expected',
                     ts_pending_writes := rest\<rparr>))
      else (let pending_bytes = sum_list (map (length \<circ> snd) (ts_pending_writes s)) in
            if MAX_PENDING_WRITES_PER_SESSION \<le> length (ts_pending_writes s)
               \<or> MAX_PENDING_WRITE_BYTES_PER_SESSION < pending_bytes + length bs
            then None
            else Some (s\<lparr>ts_next_write_seq := Some expected,
                         ts_pending_writes := bt_insert wseq bs (ts_pending_writes s)\<rparr>)))"

section \<open>Draining for a batch\<close>

text \<open>The loop over one session in phase 2 of a batch: it goes on while bytes come, the budget lasts and
  the batch-wide deadline has not passed (\<open>late k\<close>); \<open>ev k\<close> is what the reader does during the
  \<open>k\<close>-th yield.\<close>

function drain_loop :: "(nat \<Rightarrow> bytes option list) \<Rightarrow> (nat \<Rightarrow> bool) \<Rightarrow> nat \<Rightarrow> nat \<Rightarrow> bytes \<Rightarrow> bool
    \<Rightarrow> tcp_session \<Rightarrow> tcp_session \<times> bytes \<times> bool" where
  "drain_loop ev late k budget all_data final_eof s =
     (case drain_now (budget - length all_data) s of
        (s1, data, eof) \<Rightarrow>
          let final_eof' = (final_eof \<or> eof) in
          if data = [] then (s1, all_data, final_eof')
          else let all_data' = all_data @ data in
            if final_eof' \<or> TCP_DRAIN_MAX_BYTES \<le> length data \<or> budget \<le> length all_data'
            then (s1, all_data', final_eof')
            else if late k then (s1, all_data', final_eof')
            else drain_loop ev late (Suc k) budget all_data' final_eof' (fold reader_task (ev k) s1))"
  by pat_completeness auto
termination
  by (relation "measure (\<lambda>(ev, late, k, budget, all_data, _). budget - length all_data)")
    (auto intro!: diff_less_mono2)

declare drain_loop.simps [simp del]

section \<open>A UDP session\<close>

record udp_session =
  us_sent :: "bytes list"
  us_packets :: "bytes list"
  us_last_active :: nat
  us_eof :: bool
  us_pkt_count :: nat
  us_queue_drops :: u64
  us_reader :: bool

definition new_udp_session :: "nat \<Rightarrow> udp_session" where
  "new_udp_session now =
     \<lparr>us_sent = [], us_packets = [], us_last_active = now, us_eof = False, us_pkt_count = 0,
      us_queue_drops = 0, us_reader = True\<rparr>"

definition udp_reader_task :: "nat \<Rightarrow> bytes option \<Rightarrow> udp_session \<Rightarrow> udp_session" where
  "udp_reader_task now r s =
     (if \<not> us_reader s then s else
      case r of
        Some [] \<Rightarrow> s
      | Some pkt \<Rightarrow>
          (let full = UDP_QUEUE_LIMIT \<le> length (us_packets s);
               packets = (if full then tl (us_packets s) else us_packets s) @ [pkt] in
           s\<lparr>us_packets := packets, us_pkt_count := length packets,
             us_queue_drops := us_queue_drops s + (if full then 1 else 0),
             us_last_active := now\<rparr>)
      | None \<Rightarrow> s\<lparr>us_eof := True, us_reader := False\<rparr>)"

definition drain_udp_now :: "udp_session \<Rightarrow> udp_session \<times> bytes list \<times> bool" where
  "drain_udp_now s = (s\<lparr>us_packets := [], us_pkt_count := 0\<rparr>, us_packets s, us_eof s)"

definition is_udp_drainable :: "udp_session \<Rightarrow> bool" where
  "is_udp_drainable s \<longleftrightarrow> us_eof s \<or> us_packets s \<noteq> []"

definition udp_send :: "bytes \<Rightarrow> udp_session \<Rightarrow> udp_session" where
  "udp_send bs s = s\<lparr>us_sent := us_sent s @ [bs]\<rparr>"

section \<open>Uploads arrive in order\<close>

text \<open>The writes numbered by \<open>wseq\<close> are those after the first \<open>b\<close> (a \<open>connect_data\<close> op has
  written the client's first bytes without a number).\<close>

definition expected_wseq :: "tcp_session \<Rightarrow> u64" where
  "expected_wseq s = (case ts_next_write_seq s of Some e \<Rightarrow> e | None \<Rightarrow> 0)"

definition up_emitted :: "nat \<Rightarrow> tcp_session \<Rightarrow> bytes list" where
  "up_emitted b s = drop b (ts_writes s)"

definition up_held :: "tcp_session \<Rightarrow> nat \<Rightarrow> bytes option" where
  "up_held s q = (if q < 2 ^ 64 then map_of (ts_pending_writes s) (word_of_nat q) else None)"

definition up_good :: "nat \<Rightarrow> tcp_session \<Rightarrow> bool" where
  "up_good b s \<longleftrightarrow> b \<le> length (ts_writes s) \<and>
     unat (expected_wseq s) = length (up_emitted b s) \<and>
     bt_ok (ts_pending_writes s) \<and> length (ts_pending_writes s) \<le> MAX_PENDING_WRITES_PER_SESSION \<and>
     (\<forall>k\<in>fst ` set (ts_pending_writes s). expected_wseq s < k)"

lemma wseq_write_cases:
  assumes "wseq_write w x s = Some s'"
  obtains (stale) "w < expected_wseq s" "s' = s\<lparr>ts_next_write_seq := Some (expected_wseq s)\<rparr>"
  | (inorder) run e' rest where "w = expected_wseq s"
      "take_run (expected_wseq s + 1) (ts_pending_writes s) = (run, e', rest)"
      "s' = s\<lparr>ts_writes := ts_writes s @ x # run, ts_next_write_seq := Some e', ts_pending_writes := rest\<rparr>"
  | (early) "expected_wseq s < w" "length (ts_pending_writes s) < MAX_PENDING_WRITES_PER_SESSION"
      "sum_list (map (length \<circ> snd) (ts_pending_writes s)) + length x \<le> MAX_PENDING_WRITE_BYTES_PER_SESSION"
      "s' = s\<lparr>ts_next_write_seq := Some (expected_wseq s),
              ts_pending_writes := bt_insert w x (ts_pending_writes s)\<rparr>"
  using assms that
  by (cases w "expected_wseq s" rule: linorder_cases)
     (auto simp: wseq_write_def Let_def expected_wseq_def not_le not_less
       split: if_splits prod.splits)

lemma up_held_above: "up_good b s \<Longrightarrow> up_held s q = Some x \<Longrightarrow> length (up_emitted b s) < q"
  by (auto simp: up_good_def up_held_def word_less_nat_alt split: if_splits
      dest!: map_of_SomeD bspec [where x = "word_of_nat q"] intro: rev_image_eqI)

lemma up_next_run:
  assumes g: "up_good b s" and l: "length (up_emitted b s) < 2 ^ 64 - 64"
    and t: "take_run (expected_wseq s + 1) (ts_pending_writes s) = (run, e', rest)"
  shows "bt_ok rest" "unat e' = Suc (length (up_emitted b s) + length run)" "\<forall>k\<in>fst ` set rest. e' < k"
    "\<forall>i<length run. up_held s (Suc (length (up_emitted b s)) + i) = Some (run ! i)"
    "map_of rest = map_of (ts_pending_writes s) |` {k. e' \<le> k}"
proof -
  let ?e = "expected_wseq s"
  from g have u: "unat ?e = length (up_emitted b s)" by (simp add: up_good_def)
  then have u1: "unat (?e + 1) = Suc (length (up_emitted b s))" using l by (simp add: unat_Suc_u64)
  have ge: "\<forall>k\<in>fst ` set (ts_pending_writes s). ?e + 1 \<le> k"
    using g by (auto simp: up_good_def intro!: inc_le)
  have len: "unat (?e + 1) + length (ts_pending_writes s) < 2 ^ 64"
    using g l u1 by (simp add: up_good_def MAX_PENDING_WRITES_PER_SESSION_def)
  have "bt_ok (ts_pending_writes s)" using g by (simp add: up_good_def)
  note r = take_run_spec [OF this ge len t]
  then show "bt_ok rest" "\<forall>k\<in>fst ` set rest. e' < k"
    "map_of rest = map_of (ts_pending_writes s) |` {k. e' \<le> k}" by blast+
  show e': "unat e' = Suc (length (up_emitted b s) + length run)" using r u1 by simp
  show "\<forall>i<length run. up_held s (Suc (length (up_emitted b s)) + i) = Some (run ! i)"
  proof (intro allI impI)
    fix i assume i: "i < length run"
    then have lt: "Suc (length (up_emitted b s)) + i < 2 ^ 64" using e' unat_bound [of e'] by simp
    have "(word_of_nat (Suc (length (up_emitted b s)) + i) :: u64) = ?e + 1 + of_nat i"
      by (simp add: u [symmetric])
    moreover have "map_of (ts_pending_writes s) (?e + 1 + of_nat i) = Some (run ! i)" using r i by blast
    ultimately show "up_held s (Suc (length (up_emitted b s)) + i) = Some (run ! i)"
      using lt unfolding up_held_def by (simp only: if_True)
  qed
qed

lemma up_good_recv:
  assumes g: "up_good b s" and q: "q < 2 ^ 64 - 64" and l: "length (up_emitted b s) < 2 ^ 64 - 64"
    and w: "wseq_write (word_of_nat q) x s = Some s'"
  shows "up_good b s'"
  using w
proof (cases rule: wseq_write_cases)
  case stale
  then show ?thesis using g by (simp add: up_good_def expected_wseq_def up_emitted_def)
next
  case (inorder run e' rest)
  note r = up_next_run [OF g l inorder(2)]
  have "length (up_emitted b s') = Suc (length (up_emitted b s) + length run)" "b \<le> length (ts_writes s')"
    using g inorder(3) by (auto simp: up_emitted_def up_good_def)
  moreover have "expected_wseq s' = e'" "ts_pending_writes s' = rest" using inorder(3) by (simp_all add: expected_wseq_def)
  ultimately show ?thesis using r g length_take_run [OF inorder(2)] by (simp add: up_good_def)
next
  case early
  have "length (ts_pending_writes s') \<le> MAX_PENDING_WRITES_PER_SESSION"
    using early(2,4) length_bt_insert [of "word_of_nat q" x "ts_pending_writes s"] by simp
  with early g show ?thesis
    by (auto simp: up_good_def expected_wseq_def up_emitted_def keys_bt_insert)
qed

interpretation uplink: reorder_buffer "\<lambda>q. wseq_write (word_of_nat q)" "up_emitted b" up_held "up_good b" "2 ^ 64 - 64"
  for b
proof unfold_locales
  fix s q x s'
  assume g: "up_good b s" and q: "q < 2 ^ 64 - 64" and w: "wseq_write (word_of_nat q) x s = Some s'"
  have e: "unat (expected_wseq s) = length (up_emitted b s)" using g by (simp add: up_good_def)
  have qu: "unat (word_of_nat q :: u64) = q" using q by simp
  show "length (up_emitted b s) < 2 ^ 64 - 64 \<Longrightarrow> up_good b s'"
    using up_good_recv [OF g q _ w] .
  show "up_emitted b s' = up_emitted b s \<and> up_held s' = up_held s" if "q < length (up_emitted b s)"
    using w
  proof (cases rule: wseq_write_cases)
    case stale
    then show ?thesis by (simp add: up_emitted_def up_held_def fun_eq_iff)
  qed (use that e qu in \<open>simp_all add: word_less_nat_alt\<close>)
  show "up_emitted b s' = up_emitted b s \<and> up_held s' = (up_held s)(q \<mapsto> x)" if "length (up_emitted b s) < q"
    using w
  proof (cases rule: wseq_write_cases)
    case early
    have "(word_of_nat q' :: u64) = word_of_nat q \<longleftrightarrow> q' = q" if "q' < 2 ^ 64" for q'
      using qu that by (metis unat_u64_of_nat)
    with early g q show ?thesis by (auto simp: up_emitted_def up_held_def up_good_def fun_eq_iff)
  qed (use that e qu in \<open>simp_all add: word_less_nat_alt\<close>)
  show "\<exists>run. up_emitted b s' = up_emitted b s @ x # run \<and>
      (\<forall>i<length run. up_held s (Suc q + i) = Some (run ! i)) \<and>
      up_held s' = up_held s |` {length (up_emitted b s')..}" if ql: "q = length (up_emitted b s)"
    using w
  proof (cases rule: wseq_write_cases)
    case (inorder run e' rest)
    have l: "length (up_emitted b s) < 2 ^ 64 - 64" using q ql by simp
    note r = up_next_run [OF g l inorder(2)]
    have em: "up_emitted b s' = up_emitted b s @ x # run" using g inorder(3) by (simp add: up_emitted_def up_good_def)
    have "up_held s' p = (up_held s |` {length (up_emitted b s')..}) p" for p
    proof (cases "p < 2 ^ 64")
      case True
      have "e' \<le> word_of_nat p \<longleftrightarrow> length (up_emitted b s') \<le> p"
        using r(2) em True by (simp add: word_le_nat_alt)
      with True inorder(3) r(5) show ?thesis by (simp add: up_held_def restrict_map_def)
    qed (simp add: up_held_def restrict_map_def)
    with em r(4) ql show ?thesis by auto
  qed (use ql e qu in \<open>simp_all add: word_less_nat_alt\<close>)
qed (rule up_held_above)

text \<open>Enough room: an upload that is at most 31 numbers ahead of what has arrived, with chunks of at most
  512 KiB, always fits the buffer.\<close>

definition windowed :: "nat \<Rightarrow> nat list \<Rightarrow> bool" where
  "windowed n qs \<longleftrightarrow> (\<forall>i<length qs. \<forall>j\<le>qs ! i. j + n \<le> qs ! i \<longrightarrow> j \<in> set (take i qs))"

lemma windowed_snoc:
  "windowed n (qs @ [q]) \<longleftrightarrow> windowed n qs \<and> (\<forall>j\<le>q. j + n \<le> q \<longrightarrow> j \<in> set qs)"
  by (auto simp: windowed_def nth_append less_Suc_eq)

lemma pending_window:
  assumes "bt_ok m" "\<forall>k\<in>fst ` set m. e < unat k \<and> unat k < e + 32"
  shows "length m \<le> 31"
proof -
  have "inj_on unat (fst ` set m)" by (simp add: inj_on_def word_unat_eq_iff)
  then have "card (unat ` fst ` set m) = card (set (map fst m))" by (simp add: card_image)
  then have "length m = card (unat ` fst ` set m)"
    using distinct_card [OF distinct_bt [OF assms(1)]] by simp
  also have "\<dots> \<le> card {e<..<e + 32}" using assms(2) by (intro card_mono) auto
  finally show ?thesis by simp
qed

lemma sum_list_bound: "\<forall>x\<in>set xs. x \<le> (c::nat) \<Longrightarrow> sum_list xs \<le> length xs * c"
  by (induction xs) auto

lemma uploads_fit:
  assumes "up_good b s" "up_emitted b s = []" "ts_pending_writes s = []" "length xs < 2 ^ 64 - 64"
    and "\<And>q x. (q, x) \<in> set evs \<Longrightarrow> q < length xs \<and> xs ! q = x"
    and "windowed 32 (map fst evs)" "\<forall>x\<in>set xs. length x \<le> 524288"
  shows "\<exists>s'. run_opt (\<lambda>(q, x). wseq_write (word_of_nat q) x) evs s = Some s'"
  using assms(5,6)
proof (induction evs rule: rev_induct)
  case Nil
  then show ?case by simp
next
  case (snoc ev evs)
  obtain q x where ev: "ev = (q, x)" by force
  have evs: "\<And>q x. (q, x) \<in> set evs \<Longrightarrow> q < length xs \<and> xs ! q = x" by (rule snoc.prems(1)) simp
  with snoc obtain t where t: "run_opt (\<lambda>(q, x). wseq_write (word_of_nat q) x) evs s = Some t"
    by (auto simp: windowed_snoc)
  have h0: "up_held s = Map.empty" using assms(3) by (simp add: up_held_def fun_eq_iff)
  have pre: "prefix (up_emitted b s) xs" using assms(2) by simp
  note inv = uplink.run_invariant [where S = "{}", OF assms(1) pre assms(4) _ _ evs t]
  have good: "up_good b t" and seen: "\<And>q. q \<in> fst ` set evs \<Longrightarrow> q < length (up_emitted b t) \<or> up_held t q \<noteq> None"
    using inv h0 by auto
  have ahead: "p < length (up_emitted b t) + 32" if "\<forall>j\<le>p. j + 32 \<le> p \<longrightarrow> j \<in> fst ` set evs" for p
  proof (cases "p < 32")
    case False
    have "Suc (p - 32) \<le> length (up_emitted b t)"
      by (rule uplink.seen_emitted [OF good]) (use that False seen in auto)
    then show ?thesis by simp
  qed simp
  have held: "q < length (up_emitted b t) + 32 \<and> length x \<le> 524288" if h: "up_held t q = Some x" for q x
  proof -
    from uplink.held_received [OF assms(1) pre assms(4) _ evs t h] h0 have m: "(q, x) \<in> set evs" by simp
    then obtain i where i: "i < length evs" "map fst evs ! i = q" by (metis in_set_conv_nth fst_conv length_map nth_map)
    have "windowed 32 (map fst evs)" using snoc.prems(2) by (simp add: windowed_snoc)
    then have "\<forall>j\<le>q. j + 32 \<le> q \<longrightarrow> j \<in> set (map fst evs)"
      using i unfolding windowed_def by (metis in_set_takeD length_map)
    then have "\<forall>j\<le>q. j + 32 \<le> q \<longrightarrow> j \<in> fst ` set evs" by simp
    with ahead have "q < length (up_emitted b t) + 32" by blast
    with m evs assms(7) show ?thesis by (metis nth_mem)
  qed
  have key: "length (up_emitted b t) < unat k \<and> unat k < length (up_emitted b t) + 32 \<and> length v \<le> 524288"
    if "(k, v) \<in> set (ts_pending_writes t)" for k v
  proof -
    have "map_of (ts_pending_writes t) k = Some v" using good that by (auto simp: up_good_def dest: distinct_bt)
    then have "up_held t (unat k) = Some v" using unat_bound [of k] by (simp add: up_held_def)
    with held up_held_above [OF good] show ?thesis by blast
  qed
  have pl: "length (ts_pending_writes t) \<le> 31"
    by (rule pending_window [where e = "length (up_emitted b t)"]) (use good key in \<open>auto simp: up_good_def\<close>)
  have "sum_list (map (length \<circ> snd) (ts_pending_writes t)) \<le> length (map (length \<circ> snd) (ts_pending_writes t)) * 524288"
    by (rule sum_list_bound) (use key in auto)
  moreover have "length x \<le> 524288" using snoc.prems(1) [of q x] ev assms(7) by auto
  ultimately have pb: "sum_list (map (length \<circ> snd) (ts_pending_writes t)) + length x \<le> MAX_PENDING_WRITE_BYTES_PER_SESSION"
    using pl by (simp add: MAX_PENDING_WRITE_BYTES_PER_SESSION_def)
  have "wseq_write (word_of_nat q) x t \<noteq> None"
    using pl pb by (auto simp: wseq_write_def Let_def MAX_PENDING_WRITES_PER_SESSION_def split: prod.splits)
  with t ev show ?case by (auto simp: run_opt_append)
qed

section \<open>Runs of a session\<close>

text \<open>The operations of a session in the order in which they get its locks. Beside the session a run
  collects what the reader has read so far and the drains with their results.\<close>

datatype session_ev =
    SeRead "bytes option"
  | SeDrain nat
  | SeTakeAll
  | SeWrite u64 bytes

definition read_in :: "bytes option \<Rightarrow> tcp_session \<Rightarrow> bytes" where
  "read_in r s = (if reader_ready s then (case r of Some chunk \<Rightarrow> chunk | None \<Rightarrow> []) else [])"

type_synonym session_run = "tcp_session \<times> bytes \<times> (bytes \<times> bool) list"

fun session_step :: "session_ev \<Rightarrow> session_run \<Rightarrow> session_run option" where
  "session_step (SeRead r) (s, arrived, drained) = Some (reader_task r s, arrived @ read_in r s, drained)"
| "session_step (SeDrain m) (s, arrived, drained) =
     (case drain_now m s of (s', d, e) \<Rightarrow> Some (s', arrived, drained @ [(d, e)]))"
| "session_step SeTakeAll (s, arrived, drained) =
     (case take_all s of (s', d, e) \<Rightarrow> Some (s', arrived, drained @ [(d, e)]))"
| "session_step (SeWrite w bs) (s, arrived, drained) =
     map_option (\<lambda>s'. (s', arrived, drained)) (wseq_write w bs s)"

definition down_inv :: "session_run \<Rightarrow> bool" where
  "down_inv = (\<lambda>(s, arrived, drained).
     concat (map fst drained) @ ts_read_buf s = arrived \<and>
     ts_buf_len s = length (ts_read_buf s) \<and> (ts_eof s \<longrightarrow> \<not> ts_reader s) \<and>
     (\<forall>i<length drained. snd (drained ! i) \<longrightarrow>
        ts_eof s \<and> concat (map fst (take (Suc i) drained)) = arrived))"

lemma wseq_write_down:
  assumes "wseq_write w x s = Some s'"
  shows "ts_read_buf s' = ts_read_buf s" "ts_buf_len s' = ts_buf_len s" "ts_eof s' = ts_eof s" "ts_reader s' = ts_reader s"
  using assms by (auto elim!: wseq_write_cases)

lemma reader_task_simps:
  "ts_read_buf (reader_task r s) = ts_read_buf s @ read_in r s"
  "ts_arrived (reader_task r s) = ts_arrived s @ read_in r s"
  "ts_eof (reader_task r s) \<longleftrightarrow> ts_eof s \<or> (reader_ready s \<and> r = None)"
  "ts_reader (reader_task r s) \<longleftrightarrow> ts_reader s \<and> \<not> (reader_ready s \<and> r = None)"
  "ts_buf_len s = length (ts_read_buf s) \<Longrightarrow> ts_buf_len (reader_task r s) = length (ts_read_buf (reader_task r s))"
  by (auto simp: reader_task_def read_in_def split: option.splits)

lemma drain_now_facts:
  assumes "drain_now m s = (s', d, e)"
  shows "ts_read_buf s = d @ ts_read_buf s'" "ts_buf_len s' = length (ts_read_buf s')" "ts_eof s' = ts_eof s"
    "ts_reader s' = ts_reader s" "e \<longleftrightarrow> ts_eof s \<and> ts_read_buf s' = []"
    "length d \<le> min m TCP_DRAIN_MAX_BYTES" "ts_arrived s' = ts_arrived s"
  using assms unfolding drain_now_def Let_def by (auto split: if_splits)

lemma down_inv_drained:
  assumes "down_inv (s, arrived, drained)" "ts_read_buf s = d @ ts_read_buf s'"
    "ts_buf_len s' = length (ts_read_buf s')" "ts_eof s' = ts_eof s" "ts_reader s' = ts_reader s"
    "e \<longrightarrow> ts_eof s \<and> ts_read_buf s' = []"
  shows "down_inv (s', arrived, drained @ [(d, e)])"
  using assms by (auto simp: down_inv_def nth_append less_Suc_eq)

lemma down_inv_step:
  assumes "down_inv st" "session_step ev st = Some st'"
  shows "down_inv st'"
proof (cases ev)
  case (SeRead r)
  obtain s arrived drained where st: "st = (s, arrived, drained)" by (cases st)
  have "read_in r s = []" if "i < length drained" "snd (drained ! i)" for i
    using assms(1) st that by (auto simp: down_inv_def read_in_def reader_ready_def)
  with SeRead st assms show ?thesis by (auto simp: down_inv_def reader_task_simps)
next
  case (SeDrain m)
  then show ?thesis using assms
    by (cases st) (auto split: prod.splits intro!: down_inv_drained dest: drain_now_facts)
next
  case SeTakeAll
  then show ?thesis using assms
    by (cases st) (auto simp: take_all_def intro!: down_inv_drained)
next
  case (SeWrite w bs)
  then show ?thesis using assms by (cases st) (auto simp: down_inv_def wseq_write_down)
qed

lemma down_inv_new: "down_inv (new_session now u, [], [])"
  by (simp add: down_inv_def new_session_def)

text \<open>C27: every interleaving of the operations of a session hands the client exactly what was read from
  the upstream: the drained pieces, in the order of the drains, with what is still buffered, are the
  bytes that arrived; and a drain that reports the end of the stream has delivered the last byte.\<close>

theorem drains_conserve_stream:
  assumes "run_opt session_step evs (new_session now u, [], []) = Some (s, arrived, drained)"
  shows "concat (map fst drained) @ ts_read_buf s = arrived \<and>
     (\<forall>i<length drained. snd (drained ! i) \<longrightarrow> concat (map fst (take (Suc i) drained)) = arrived)"
proof -
  have "down_inv (s, arrived, drained)"
    using run_opt_invariant [where P = down_inv, OF assms(1) down_inv_new] down_inv_step by blast
  then show ?thesis by (simp add: down_inv_def)
qed

theorem drains_conserve_stream_witness:
  "run_opt session_step [SeRead (Some [1, 2, 3]), SeDrain 2, SeRead (Some [4]), SeRead None, SeDrain 9]
     (new_session 0 False, [], []) =
     Some ((new_session 0 False)\<lparr>ts_eof := True, ts_reader := False, ts_arrived := [1, 2, 3, 4]\<rparr>, [1, 2, 3, 4], [([1, 2], False), ([3, 4], True)])
   \<and> concat (map fst [([1, 2::byte], False), ([3, 4], True)]) = [1, 2, 3, 4]"
proof -
  let ?evs = "[SeRead (Some [1, 2, 3]), SeDrain 2, SeRead (Some [4]), SeRead None, SeDrain 9]"
  have r: "run_opt session_step ?evs (new_session 0 False, [], []) =
     Some ((new_session 0 False)\<lparr>ts_eof := True, ts_reader := False, ts_arrived := [1, 2, 3, 4]\<rparr>, [1, 2, 3, 4], [([1, 2], False), ([3, 4], True)])"
    by (simp add: new_session_def drain_now_def reader_task_def read_in_def reader_ready_def Let_def
        READ_BUF_CAP_def TCP_DRAIN_MAX_BYTES_def)
  from drains_conserve_stream [OF r] r show ?thesis by simp
qed

section \<open>Uploads within a run\<close>

definition uploads :: "session_ev list \<Rightarrow> (nat \<times> bytes) list" where
  "uploads evs = concat (map (\<lambda>ev. case ev of SeWrite w bs \<Rightarrow> [(unat w, bs)] | _ \<Rightarrow> []) evs)"

lemma uploads_simps [simp]: "uploads [] = []"
  "uploads (ev # evs) = (case ev of SeWrite w bs \<Rightarrow> [(unat w, bs)] | _ \<Rightarrow> []) @ uploads evs"
  by (simp_all add: uploads_def)

definition same_up :: "tcp_session \<Rightarrow> tcp_session \<Rightarrow> bool" where
  "same_up s t \<longleftrightarrow> ts_writes s = ts_writes t \<and> ts_next_write_seq s = ts_next_write_seq t \<and>
     ts_pending_writes s = ts_pending_writes t"

lemma same_up_wseq:
  "same_up s t \<Longrightarrow> rel_option same_up (wseq_write w x s) (wseq_write w x t)"
  by (auto simp: wseq_write_def Let_def same_up_def split: prod.splits)

lemma same_up_step:
  assumes "case ev of SeWrite w bs \<Rightarrow> False | _ \<Rightarrow> True" "same_up (fst st) t"
  shows "\<exists>st'. session_step ev st = Some st' \<and> same_up (fst st') t"
  using assms
  by (cases st; cases ev)
     (auto simp: same_up_def drain_now_def take_all_def reader_task_def Let_def split: option.splits)

lemma run_uploads:
  assumes "same_up (fst st) t"
  shows "rel_option (\<lambda>st' t'. same_up (fst st') t') (run_opt session_step evs st)
    (run_opt (\<lambda>(q, x). wseq_write (word_of_nat q) x) (uploads evs) t)"
  using assms
proof (induction evs arbitrary: st t)
  case (Cons ev evs)
  show ?case
  proof (cases "\<exists>w bs. ev = SeWrite w bs")
    case True
    then obtain w bs where ev: "ev = SeWrite w bs" by blast
    obtain s a d where st: "st = (s, a, d)" by (cases st)
    from same_up_wseq [of s t w bs] Cons.prems st consider
      "wseq_write w bs s = None" "wseq_write w bs t = None"
    | s' t' where "wseq_write w bs s = Some s'" "wseq_write w bs t = Some t'" "same_up s' t'"
      by (auto simp: option_rel_Some1 elim: option.rel_cases)
    then show ?thesis using Cons.IH [of "(_, a, d)"] ev st by cases auto
  next
    case False
    then have nw: "case ev of SeWrite w bs \<Rightarrow> False | _ \<Rightarrow> True" by (cases ev) auto
    from same_up_step [OF nw Cons.prems] obtain st' where "session_step ev st = Some st'" "same_up (fst st') t" by blast
    moreover have "uploads (ev # evs) = uploads evs" using nw by (cases ev) auto
    ultimately show ?thesis using Cons.IH by simp
  qed
qed simp

definition started :: "nat \<Rightarrow> bool \<Rightarrow> bytes list \<Rightarrow> tcp_session" where
  "started now u first = fold write_bytes first (new_session now u)"

lemma fold_write_bytes: "fold write_bytes first s = s\<lparr>ts_writes := ts_writes s @ first\<rparr>"
  by (induction first arbitrary: s) (simp_all add: write_bytes_def)

lemma started_up: "up_good (length first) (started now u first)"
  "up_emitted (length first) (started now u first) = []" "up_held (started now u first) = Map.empty"
  "ts_pending_writes (started now u first) = []"
  by (simp_all add: started_def fold_write_bytes up_good_def up_emitted_def up_held_def
      new_session_def expected_wseq_def fun_eq_iff)

text \<open>Whatever the order in which the numbered uploads of a session arrive, with other operations in
  between and with repetitions, the node has written a prefix of the client's list of uploads to the
  socket, each chunk once and in order; and all of it once every number has arrived.\<close>

lemma run_in_order:
  assumes "run_opt session_step evs (started now u first, [], []) = Some (s, arrived, drained)"
    and "\<forall>(q, x)\<in>set (uploads evs). q < length xs \<and> xs ! q = x"
    and "length xs < 2 ^ 64 - 64"
  shows "prefix (drop (length first) (ts_writes s)) xs \<and>
    ({..<length xs} \<subseteq> fst ` set (uploads evs) \<longrightarrow> drop (length first) (ts_writes s) = xs)"
proof -
  have "same_up (fst (started now u first, [], [])) (started now u first)" by (simp add: same_up_def)
  from run_uploads [OF this, of evs] assms(1) obtain t where
    t: "run_opt (\<lambda>(q, x). wseq_write (word_of_nat q) x) (uploads evs) (started now u first) = Some t"
    and same: "same_up s t" by (auto simp: option_rel_Some1)
  have em: "up_emitted b s = up_emitted b t" for b using same by (simp add: up_emitted_def same_up_def)
  have up: "\<And>q x. (q, x) \<in> set (uploads evs) \<Longrightarrow> q < length xs \<and> xs ! q = x"
    using bspec [OF assms(2)] by fastforce
  have "drop (length first) (ts_writes s) = xs" if "{..<length xs} \<subseteq> fst ` set (uploads evs)"
    using uplink.emits_all [OF started_up(1-3) assms(3) up that t] by (metis em up_emitted_def)
  moreover have "prefix (drop (length first) (ts_writes s)) xs"
    using uplink.emits_prefix [OF started_up(1-3) assms(3) up t] by (metis em up_emitted_def)
  ultimately show ?thesis by blast
qed

lemma run_in_order_example:
  "run_opt session_step [SeWrite 1 [7], SeRead (Some [1]), SeWrite 0 [6], SeWrite 0 [6], SeWrite 2 [8]]
     (started 0 False [[5]], [], []) =
     Some ((started 0 False [[5]])\<lparr>ts_writes := [[5], [6], [7], [8]], ts_read_buf := [1], ts_buf_len := 1,
       ts_next_write_seq := Some 3, ts_arrived := [1]\<rparr>, [1], [])
   \<and> drop 1 [[5], [6], [7], [8::byte]] = [[6], [7], [8]]"
proof -
  let ?evs = "[SeWrite 1 [7], SeRead (Some [1]), SeWrite 0 [6], SeWrite 0 [6], SeWrite 2 [8]]"
  have r: "run_opt session_step ?evs (started 0 False [[5]], [], []) =
     Some ((started 0 False [[5]])\<lparr>ts_writes := [[5], [6], [7], [8]], ts_read_buf := [1], ts_buf_len := 1,
       ts_next_write_seq := Some 3, ts_arrived := [1]\<rparr>, [1], [])"
    by (simp add: started_def write_bytes_def new_session_def wseq_write_def reader_task_def read_in_def
        reader_ready_def Let_def READ_BUF_CAP_def MAX_PENDING_WRITES_PER_SESSION_def
        MAX_PENDING_WRITE_BYTES_PER_SESSION_def)
  have "{..<length [[6], [7], [8::byte]]} \<subseteq> fst ` set (uploads ?evs)"
    by (auto simp: less_Suc_eq numeral_3_eq_3)
  with run_in_order [OF r, of "[[6], [7], [8]]"] r show ?thesis by simp
qed

text \<open>C26: a client that keeps its uploads within a window of 32 numbers, in chunks of at most 512 KiB,
  never fills the node's buffer: whatever the order of arrival the session survives, and once every
  number has arrived exactly its uploads have been written.\<close>

theorem uploads_complete:
  assumes "windowed 32 (map fst (uploads evs))" "\<forall>x\<in>set xs. length x \<le> 524288"
    and "\<forall>(q, x)\<in>set (uploads evs). q < length xs \<and> xs ! q = x"
    and "{..<length xs} \<subseteq> fst ` set (uploads evs)" "length xs < 2 ^ 64 - 64"
  shows "\<exists>s arrived drained. run_opt session_step evs (started now u first, [], []) = Some (s, arrived, drained) \<and>
    ts_writes s = first @ xs"
proof -
  have up: "\<And>q x. (q, x) \<in> set (uploads evs) \<Longrightarrow> q < length xs \<and> xs ! q = x"
    using bspec [OF assms(3)] by fastforce
  obtain t where t: "run_opt (\<lambda>(q, x). wseq_write (word_of_nat q) x) (uploads evs) (started now u first) = Some t"
    using uploads_fit [OF started_up(1,2,4) assms(5) up assms(1,2)] by blast
  have "same_up (fst (started now u first, [], [])) (started now u first)" by (simp add: same_up_def)
  from run_uploads [OF this, of evs] t obtain s arrived drained where
    r: "run_opt session_step evs (started now u first, [], []) = Some (s, arrived, drained)" and "same_up s t"
    by (auto simp: option_rel_Some2)
  then have w: "ts_writes s = ts_writes t" by (simp add: same_up_def)
  have "up_emitted (length first) t = xs" by (rule uplink.emits_all [OF started_up(1-3) assms(5) up assms(4) t])
  moreover have "take (length first) (ts_writes t) = first"
  proof (rule run_opt_invariant [OF t, where P = "\<lambda>s. take (length first) (ts_writes s) = first"])
    show "take (length first) (ts_writes (started now u first)) = first"
      by (simp add: started_def fold_write_bytes new_session_def)
    fix e s s'
    assume e: "take (length first) (ts_writes s) = first" "(case e of (q, x) \<Rightarrow> wseq_write (word_of_nat q) x) s = Some s'"
    then have "prefix (ts_writes s) (ts_writes s')" by (cases e) (auto elim!: wseq_write_cases)
    with e(1) show "take (length first) (ts_writes s') = first"
      by (metis append_eq_conv_conj append_take_drop_id prefix_def append_assoc)
  qed
  ultimately have "ts_writes t = first @ xs" by (metis append_take_drop_id up_emitted_def)
  with r w show ?thesis by auto
qed

theorem uploads_complete_witness:
  "\<exists>s arrived drained. run_opt session_step [SeWrite 1 [7], SeDrain 5, SeWrite 0 [6]] (started 0 False [], [], [])
      = Some (s, arrived, drained) \<and> ts_writes s = [[6], [7]]"
proof -
  let ?evs = "[SeWrite 1 [7], SeDrain 5, SeWrite 0 [6]]" and ?xs = "[[6], [7::byte]]"
  have "windowed 32 (map fst (uploads ?evs))" by (auto simp: windowed_def less_Suc_eq numeral_2_eq_2)
  moreover have "{..<length ?xs} \<subseteq> fst ` set (uploads ?evs)" by (auto simp: less_Suc_eq)
  ultimately show ?thesis using uploads_complete [of ?evs ?xs 0 False "[]"] by simp
qed

section \<open>The drain of a batch\<close>

text \<open>The loop is a run of the session's own operations, so what holds for every run holds for it.\<close>

lemma drain_loop_is_run:
  assumes "drain_loop ev late k budget all_data fe s = (s', data, eof)"
  shows "\<exists>evs pieces arrived'. run_opt session_step evs (s, arrived, drained) = Some (s', arrived', drained @ pieces) \<and>
    data = all_data @ concat (map fst pieces) \<and> (eof \<longleftrightarrow> fe \<or> (\<exists>p\<in>set pieces. snd p)) \<and> uploads evs = []"
  using assms
proof (induction ev late k budget all_data fe s arbitrary: arrived drained rule: drain_loop.induct)
  case (1 ev late k budget all_data fe s)
  obtain s1 d e where dn: "drain_now (budget - length all_data) s = (s1, d, e)" by (cases "drain_now (budget - length all_data) s")
  have one: "run_opt session_step [SeDrain (budget - length all_data)] (s, arrived, drained) = Some (s1, arrived, drained @ [(d, e)])"
    using dn by simp
  have reads: "\<exists>a'. run_opt session_step (map SeRead rs) (t, a, dr) = Some (fold reader_task rs t, a', dr) \<and>
    uploads (map SeRead rs) = []" for rs t a dr
    by (induction rs arbitrary: t a) auto
  show ?case
  proof (cases "d = [] \<or> fe \<or> e \<or> TCP_DRAIN_MAX_BYTES \<le> length d \<or> budget \<le> length (all_data @ d) \<or> late k")
    case True
    with "1.prems" dn have "s' = s1" "data = all_data @ d" "eof \<longleftrightarrow> fe \<or> e"
      by (auto simp: drain_loop.simps [of ev late k] Let_def split: if_splits)
    with one show ?thesis
      by (intro exI [of _ "[SeDrain (budget - length all_data)]"] exI [of _ "[(d, e)]"] exI [of _ arrived]) auto
  next
    case False
    with "1.prems" dn have rec: "drain_loop ev late (Suc k) budget (all_data @ d) (fe \<or> e) (fold reader_task (ev k) s1) = (s', data, eof)"
      by (auto simp: drain_loop.simps [of ev late k] Let_def)
    obtain a' where a': "run_opt session_step (map SeRead (ev k)) (s1, arrived, drained @ [(d, e)]) =
      Some (fold reader_task (ev k) s1, a', drained @ [(d, e)])" "uploads (map SeRead (ev k)) = []" using reads by blast
    from "1.IH" [OF dn [symmetric] refl refl _ refl _ _ rec, where arrived = a' and drained = "drained @ [(d, e)]"] False
    obtain evs pieces arrived' where IH: "run_opt session_step evs (fold reader_task (ev k) s1, a', drained @ [(d, e)]) =
        Some (s', arrived', (drained @ [(d, e)]) @ pieces)" "data = (all_data @ d) @ concat (map fst pieces)"
        "eof \<longleftrightarrow> (\<exists>p\<in>set pieces. snd p)" "uploads evs = []" by auto
    have "run_opt session_step (SeDrain (budget - length all_data) # map SeRead (ev k) @ evs) (s, arrived, drained) =
        Some (s', arrived', drained @ (d, e) # pieces)"
      using IH(1) a' dn by (simp add: run_opt_append)
    moreover have "uploads (SeDrain (budget - length all_data) # map SeRead (ev k) @ evs) = []"
      using IH(4) a'(2) by (simp add: uploads_def)
    ultimately show ?thesis using IH False
      by (intro exI [of _ "SeDrain (budget - length all_data) # map SeRead (ev k) @ evs"] exI [of _ "(d, e) # pieces"] exI [of _ arrived']) auto
  qed
qed

lemma drain_loop_budget:
  assumes "drain_loop ev late k budget all_data fe s = (s', data, eof)" "length all_data \<le> budget"
  shows "length data \<le> budget"
  using assms
proof (induction ev late k budget all_data fe s rule: drain_loop.induct)
  case (1 ev late k budget all_data fe s)
  obtain s1 d e where dn: "drain_now (budget - length all_data) s = (s1, d, e)" by (cases "drain_now (budget - length all_data) s")
  then have "length (all_data @ d) \<le> budget" using drain_now_facts(6) [OF dn] "1.prems"(2) by (simp, linarith)
  with "1.prems" dn "1.IH" [OF dn [symmetric] refl refl _ refl] show ?case
    by (auto simp: drain_loop.simps [of ev late k] Let_def split: if_splits)
qed

text \<open>Between \<open>s\<close> and \<open>s'\<close> exactly \<open>taken\<close> was taken from the buffer: with what is left it
  is what was buffered followed by what the reader has read since, nothing lost, added or reordered.\<close>

definition conserves :: "bytes \<Rightarrow> tcp_session \<Rightarrow> tcp_session \<Rightarrow> bool" where
  "conserves taken s s' \<longleftrightarrow>
     (\<exists>arr. ts_arrived s' = ts_arrived s @ arr \<and> taken @ ts_read_buf s' = ts_read_buf s @ arr)"

lemma conserves_refl [simp]: "conserves [] s s"
  by (simp add: conserves_def)

lemma conserves_trans: "conserves x s t \<Longrightarrow> conserves y t u \<Longrightarrow> conserves (x @ y) s u"
  unfolding conserves_def by (metis append.assoc)

lemma conserves_drain: "drain_now m s = (s', d, e) \<Longrightarrow> conserves d s s'"
  using drain_now_facts(1,7) [of m s s' d e] by (simp add: conserves_def)

lemma conserves_reads: "conserves [] s (fold reader_task rs s)"
proof (induction rs arbitrary: s)
  case (Cons r rs)
  have "conserves [] s (reader_task r s)" by (simp add: conserves_def reader_task_simps)
  from conserves_trans [OF this Cons] show ?case by simp
qed simp

lemma drain_loop_conserves:
  "drain_loop ev late k budget all_data fe s = (s', data, eof) \<Longrightarrow>
     \<exists>taken. data = all_data @ taken \<and> conserves taken s s'"
proof (induction ev late k budget all_data fe s rule: drain_loop.induct)
  case (1 ev late k budget all_data fe s)
  obtain s1 d e where dn: "drain_now (budget - length all_data) s = (s1, d, e)" by (cases "drain_now (budget - length all_data) s")
  note d = conserves_drain [OF dn]
  show ?case
  proof (cases "d = [] \<or> fe \<or> e \<or> TCP_DRAIN_MAX_BYTES \<le> length d \<or> budget \<le> length (all_data @ d) \<or> late k")
    case True
    with "1.prems" dn have "s' = s1" "data = all_data @ d"
      by (auto simp: drain_loop.simps [of ev late k] Let_def split: if_splits)
    with d show ?thesis by simp
  next
    case False
    with "1.prems" dn have rec: "drain_loop ev late (Suc k) budget (all_data @ d) (fe \<or> e) (fold reader_task (ev k) s1) = (s', data, eof)"
      by (auto simp: drain_loop.simps [of ev late k] Let_def)
    from "1.IH" [OF dn [symmetric] refl refl _ refl _ _ rec] False
    obtain taken where t: "data = (all_data @ d) @ taken" "conserves taken (fold reader_task (ev k) s1) s'" by auto
    have "conserves (d @ taken) s s'"
      using conserves_trans [OF conserves_trans [OF d conserves_reads] t(2)] by simp
    with t(1) show ?thesis by simp
  qed
qed

text \<open>A reader that has ended stays ended, and it ends only at the end of the stream.\<close>

lemma reads_reader:
  "(ts_reader (fold reader_task rs t) \<longrightarrow> ts_reader t) \<and>
   (ts_reader t \<or> ts_eof t \<longrightarrow> ts_reader (fold reader_task rs t) \<or> ts_eof (fold reader_task rs t))"
proof (induction rs arbitrary: t)
  case (Cons r rs)
  have "(ts_reader (reader_task r t) \<longrightarrow> ts_reader t) \<and>
    (ts_reader t \<or> ts_eof t \<longrightarrow> ts_reader (reader_task r t) \<or> ts_eof (reader_task r t))"
    unfolding reader_task_simps(3,4) by blast
  with Cons [of "reader_task r t"] show ?case by simp blast
qed simp

lemma drain_loop_reader:
  "drain_loop ev late k budget all_data fe s = (s', data, eof) \<Longrightarrow>
     (ts_reader s' \<longrightarrow> ts_reader s) \<and> (ts_reader s \<or> ts_eof s \<longrightarrow> ts_reader s' \<or> ts_eof s')"
proof (induction ev late k budget all_data fe s rule: drain_loop.induct)
  case (1 ev late k budget all_data fe s)
  obtain s1 d e where dn: "drain_now (budget - length all_data) s = (s1, d, e)" by (cases "drain_now (budget - length all_data) s")
  have f: "ts_eof s1 = ts_eof s" "ts_reader s1 = ts_reader s" by (rule drain_now_facts [OF dn])+
  show ?case
  proof (cases "d = [] \<or> fe \<or> e \<or> TCP_DRAIN_MAX_BYTES \<le> length d \<or> budget \<le> length (all_data @ d) \<or> late k")
    case True
    with "1.prems" dn have "s' = s1" by (auto simp: drain_loop.simps [of ev late k] Let_def split: if_splits)
    with f show ?thesis by simp
  next
    case False
    with "1.prems" dn have rec: "drain_loop ev late (Suc k) budget (all_data @ d) (fe \<or> e) (fold reader_task (ev k) s1) = (s', data, eof)"
      by (auto simp: drain_loop.simps [of ev late k] Let_def)
    let ?t = "fold reader_task (ev k) s1"
    have "(ts_reader s' \<longrightarrow> ts_reader ?t) \<and> (ts_reader ?t \<or> ts_eof ?t \<longrightarrow> ts_reader s' \<or> ts_eof s')"
      using "1.IH" [OF dn [symmetric] refl refl _ refl _ _ rec] False by simp
    with reads_reader [of "ev k" s1] show ?thesis unfolding f by blast
  qed
qed

section \<open>The UDP queue\<close>

text \<open>Between two drains the queue holds the newest datagrams, in order, at most 256 of them, and the
  drop counter has counted the others.\<close>

theorem udp_queue_newest:
  assumes "us_reader s" "length (us_packets s) \<le> UDP_QUEUE_LIMIT"
    and "queued = us_packets s @ filter (\<lambda>p. p \<noteq> []) (map snd rs)"
  shows "us_packets (fold (\<lambda>(now, p). udp_reader_task now (Some p)) rs s) = drop (length queued - UDP_QUEUE_LIMIT) queued \<and>
    us_queue_drops (fold (\<lambda>(now, p). udp_reader_task now (Some p)) rs s) =
      us_queue_drops s + word_of_nat (length queued - UDP_QUEUE_LIMIT)"
  using assms
proof (induction rs arbitrary: s queued)
  case Nil
  then show ?case by simp
next
  case (Cons r rs)
  obtain now p where r: "r = (now, p)" by force
  show ?case
  proof (cases "p = []")
    case True
    with Cons r show ?thesis by (simp add: udp_reader_task_def)
  next
    case False
    let ?s = "udp_reader_task now (Some p) s"
    let ?full = "UDP_QUEUE_LIMIT \<le> length (us_packets s)"
    have s': "us_reader ?s" "us_packets ?s = (if ?full then tl (us_packets s) else us_packets s) @ [p]"
      "us_queue_drops ?s = us_queue_drops s + (if ?full then 1 else 0)"
      using False Cons.prems(1) by (auto simp: udp_reader_task_def Let_def split: list.splits)
    have len: "length (us_packets ?s) \<le> UDP_QUEUE_LIMIT"
      using Cons.prems(2) s'(2) by (auto simp: UDP_QUEUE_LIMIT_def)
    let ?rest = "filter (\<lambda>p. p \<noteq> []) (map snd rs)"
    have IH: "us_packets (fold (\<lambda>(now, p). udp_reader_task now (Some p)) rs ?s) =
        drop (length (us_packets ?s @ ?rest) - UDP_QUEUE_LIMIT) (us_packets ?s @ ?rest) \<and>
      us_queue_drops (fold (\<lambda>(now, p). udp_reader_task now (Some p)) rs ?s) =
        us_queue_drops ?s + word_of_nat (length (us_packets ?s @ ?rest) - UDP_QUEUE_LIMIT)"
      by (rule Cons.IH [OF s'(1) len refl])
    have q: "queued = us_packets s @ p # ?rest" using Cons.prems(3) r False by simp
    show ?thesis
    proof (cases ?full)
      case True
      then obtain x xs where xs: "us_packets s = x # xs" "length xs = 255"
        using Cons.prems(2) by (cases "us_packets s") (auto simp: UDP_QUEUE_LIMIT_def)
      then have "us_packets ?s @ ?rest = tl queued" "length queued - UDP_QUEUE_LIMIT = Suc (length (tl queued) - UDP_QUEUE_LIMIT)"
        using s'(2) q True by (simp_all add: UDP_QUEUE_LIMIT_def)
      with IH s'(3) r True q xs show ?thesis by (simp add: drop_Suc)
    next
      case False
      then have "us_packets ?s @ ?rest = queued" using s'(2) q by simp
      with IH s'(3) r False show ?thesis by simp
    qed
  qed
qed

theorem udp_queue_newest_witness:
  "us_packets (fold (\<lambda>(now, p). udp_reader_task now (Some p)) [(1, [7]), (2, []), (3, [8])] (new_udp_session 0)) = [[7], [8]]"
  using udp_queue_newest [of "new_udp_session 0" "[[7], [8]]" "[(1, [7]), (2, []), (3, [8])]"]
  by (simp add: new_udp_session_def UDP_QUEUE_LIMIT_def)

end
