(* ===== verification/Assoc.thy ===== *)
theory Assoc
  imports Prelude "HOL-Library.AList"
begin

text \<open>
  Association lists as the model of the \<^verbatim>\<open>HashMap\<close>s that are iterated over or counted: sums over the
  values, and how insertion and removal change them. Insertion is \<open>AList.update\<close>, removal
  \<open>AList.delete\<close>; keys are distinct.
\<close>

definition asum :: "('v \<Rightarrow> nat) \<Rightarrow> ('k \<times> 'v) list \<Rightarrow> nat" where
  "asum f al = sum_list (map (f \<circ> snd) al)"

definition at :: "('v \<Rightarrow> nat) \<Rightarrow> 'v option \<Rightarrow> nat" where
  "at f v = (case v of None \<Rightarrow> 0 | Some x \<Rightarrow> f x)"

lemma at_simps [simp]: "at f None = 0" "at f (Some x) = f x"
  by (simp_all add: at_def)

lemma asum_simps [simp]: "asum f [] = 0" "asum f ((k, v) # al) = f v + asum f al"
  by (simp_all add: asum_def)

lemma asum_notin: "k \<notin> fst ` set al \<Longrightarrow> map_of al k = None"
  by (simp add: map_of_eq_None_iff)

lemma asum_ge: "at f (map_of al k) \<le> asum f al"
  by (induction al) auto

lemma asum_delete:
  "distinct (map fst al) \<Longrightarrow> asum f (AList.delete k al) = asum f al - at f (map_of al k)"
proof (induction al)
  case (Cons a al)
  then show ?case using asum_ge [of f al k] by (cases a) (auto simp: asum_notin)
qed simp

lemma asum_update:
  "distinct (map fst al) \<Longrightarrow> asum f (AList.update k v al) = asum f al - at f (map_of al k) + f v"
proof (induction al)
  case (Cons a al)
  then show ?case using asum_ge [of f al k] by (cases a) (auto simp: asum_notin)
qed simp

lemma distinct_alist [simp]:
  "distinct (map fst al) \<Longrightarrow> distinct (map fst (AList.update k v al))"
  "distinct (map fst al) \<Longrightarrow> distinct (map fst (AList.delete k al))"
  by (simp_all add: distinct_update distinct_delete)

lemma delete_shorter: "k \<in> fst ` set m \<Longrightarrow> length (AList.delete k m) < length m"
  by (induction m) (auto simp: AList.delete_eq intro: le_imp_less_Suc order.trans [OF length_filter_le])

lemma length_update: "length (AList.update k v m) = (if k \<in> fst ` set m then length m else Suc (length m))"
  by (induction m) auto

lemma asum_size: "(\<And>k v. (k, v) \<in> set al \<Longrightarrow> 0 < f v) \<Longrightarrow> length al \<le> asum f al"
proof (induction al)
  case (Cons a al)
  obtain k v where a: "a = (k, v)" by (cases a)
  have "0 < f v" using Cons.prems [of k v] by (simp add: a)
  moreover have "length al \<le> asum f al" using Cons.IH Cons.prems by (meson list.set_intros(2))
  ultimately show ?case by (simp add: a)
qed simp

lemma asum_add: "asum (\<lambda>v. f v + g v) al = asum f al + asum g al"
  by (induction al) auto

end
