(* ===== verification/Task_Table.thy ===== *)
theory Task_Table
  imports Assoc
begin

text \<open>
  A table of sessions and the store it points into, when every session has a task that reads from its
  socket. \<open>runs\<close> says of a session that its task runs, \<open>ended\<close> that it has seen the end of its
  stream. The tables of the tunnel node (\<open>sessions\<close> and \<open>udp_sessions\<close> in
  \<^verbatim>\<open>tunnel-node/src/main.rs\<close>) are two instances. Shown: what keeps tables and tasks in agreement.
\<close>

text \<open>Agreement: no two ids share a session; a session in the table has a task that runs, or has ended;
  and a task that runs belongs to a session in the table.\<close>

definition tasks_ok :: "('s \<Rightarrow> bool) \<Rightarrow> ('s \<Rightarrow> bool) \<Rightarrow> (string \<times> nat) list \<Rightarrow> 's list \<Rightarrow> bool" where
  "tasks_ok runs ended table store \<longleftrightarrow>
     (\<forall>j k a. map_of table j = Some a \<longrightarrow> map_of table k = Some a \<longrightarrow> j = k) \<and>
     (\<forall>k a. map_of table k = Some a \<longrightarrow> a < length store \<and> (runs (store ! a) \<or> ended (store ! a))) \<and>
     (\<forall>a<length store. runs (store ! a) \<longrightarrow> (\<exists>k. map_of table k = Some a))"

lemma tasks_empty [simp]: "tasks_ok runs ended [] []"
  by (simp add: tasks_ok_def)

text \<open>A session may change as long as its task does not start again, and ends only with the stream.\<close>

lemma tasks_upd:
  assumes "tasks_ok runs ended table store" "runs x \<longrightarrow> runs (store ! a)"
    and "runs (store ! a) \<or> ended (store ! a) \<longrightarrow> runs x \<or> ended x"
  shows "tasks_ok runs ended table (store[a := x])"
proof (cases "a < length store")
  case True
  then show ?thesis using assms unfolding tasks_ok_def by (auto simp: nth_list_update)
qed (use assms(1) in \<open>simp add: list_update_beyond\<close>)

lemma tasks_insert:
  assumes "tasks_ok runs ended table store" "map_of table k = None" "runs x"
  shows "tasks_ok runs ended (AList.update k (length store) table) (store @ [x])"
proof -
  have lt: "a < length store" if "map_of table j = Some a" for j a
    using assms(1) that by (auto simp: tasks_ok_def)
  have "j = i" if "((map_of table)(k \<mapsto> length store)) j = Some a" "((map_of table)(k \<mapsto> length store)) i = Some a" for i j a
    using that assms(1) lt by (auto simp: tasks_ok_def split: if_splits)
  moreover have "a < length (store @ [x]) \<and> (runs ((store @ [x]) ! a) \<or> ended ((store @ [x]) ! a))"
    if "((map_of table)(k \<mapsto> length store)) j = Some a" for j a
    using that assms(1,3) lt by (auto simp: tasks_ok_def nth_append split: if_splits)
  moreover have "\<exists>j. ((map_of table)(k \<mapsto> length store)) j = Some a"
    if a: "a < length (store @ [x])" "runs ((store @ [x]) ! a)" for a
  proof (cases "a = length store")
    case False
    with a have "a < length store" "runs (store ! a)" by (auto simp: nth_append)
    with assms(1) obtain j where "map_of table j = Some a" by (auto simp: tasks_ok_def)
    with assms(2) show ?thesis by (intro exI [of _ j]) auto
  qed auto
  ultimately show ?thesis unfolding tasks_ok_def update_conv' by blast
qed

lemma tasks_remove:
  assumes "tasks_ok runs ended table store" "map_of table k = Some a" "\<not> runs x"
  shows "tasks_ok runs ended (AList.delete k table) (store[a := x])"
proof -
  have other: "b \<noteq> a" if "map_of table j = Some b" "j \<noteq> k" for j b
    using assms(1,2) that by (auto simp: tasks_ok_def)
  have "i = j" if "((map_of table)(k := None)) j = Some b" "((map_of table)(k := None)) i = Some b" for i j b
    using that assms(1) by (auto simp: tasks_ok_def split: if_splits)
  moreover have "b < length (store[a := x]) \<and> (runs (store[a := x] ! b) \<or> ended (store[a := x] ! b))"
    if "((map_of table)(k := None)) j = Some b" for j b
  proof -
    have j: "map_of table j = Some b" "j \<noteq> k" using that by (auto split: if_splits)
    then have "b \<noteq> a" by (rule other)
    with j assms(1) show ?thesis by (auto simp: tasks_ok_def)
  qed
  moreover have "\<exists>j. ((map_of table)(k := None)) j = Some b"
    if b: "b < length (store[a := x])" "runs (store[a := x] ! b)" for b
  proof -
    have "b \<noteq> a" using b assms(3) by auto
    with b have "b < length store" "runs (store ! b)" by auto
    with assms(1) obtain j where j: "map_of table j = Some b" by (auto simp: tasks_ok_def)
    with assms(2) \<open>b \<noteq> a\<close> have "j \<noteq> k" by auto
    with j show ?thesis by (intro exI [of _ j]) auto
  qed
  ultimately show ?thesis unfolding tasks_ok_def delete_conv' by blast
qed

lemma tasks_owned:
  assumes "tasks_ok runs ended table store"
  shows "\<forall>a<length store. runs (store ! a) \<longrightarrow> (\<exists>!k. map_of table k = Some a)"
    and "\<forall>k a. map_of table k = Some a \<longrightarrow> a < length store \<and> (runs (store ! a) \<or> ended (store ! a))"
  using assms unfolding tasks_ok_def by blast+

end
