(* ===== verification/Replay_Registry.thy ===== *)
theory Replay_Registry
  imports Assoc
begin

text \<open>
  The replay registry of the tunnel node (\<open>ReplayRegistry\<close> in \<^verbatim>\<open>tunnel-node/src/main.rs\<close>): a batch the
  client may send twice is run by the first request that claims its fingerprint; a request that comes
  while it runs waits on a channel, one that comes later gets the stored body. Entries leave by age
  (60 s) and by size, oldest claim first. Shown: a batch has one owner at a time for 60 s, waiters and
  later claims get the owner's body, the limits hold; and the case in which an entry is never removed.
  A channel is a number, its value what \<open>complete\<close> reports as sent. Instants are milliseconds.
\<close>

definition REPLAY_TTL :: nat where "REPLAY_TTL = 60000"
definition REPLAY_MAX_ENTRIES :: nat where "REPLAY_MAX_ENTRIES = 4096"
definition REPLAY_MAX_BYTES :: nat where "REPLAY_MAX_BYTES = 64 * 1024 * 1024"

datatype replay_entry =
    RePending nat nat
  | ReReady bytes nat

datatype replay_claim =
    ClOwner nat
  | ClWait nat
  | ClHit bytes

type_synonym fingerprint = bytes

record replay_registry =
  rr_entries :: "(fingerprint \<times> replay_entry) list"
  rr_order :: "fingerprint list"
  rr_ready_bytes :: nat
  rr_hits :: u64
  rr_coalesced :: u64
  rr_evictions :: u64
  rr_next_chan :: nat

definition new_registry :: replay_registry where
  "new_registry = \<lparr>rr_entries = [], rr_order = [], rr_ready_bytes = 0, rr_hits = 0, rr_coalesced = 0,
     rr_evictions = 0, rr_next_chan = 0\<rparr>"

fun is_pending :: "replay_entry option \<Rightarrow> bool" where
  "is_pending (Some (RePending _ _)) = True"
| "is_pending _ = False"

fun expired :: "nat \<Rightarrow> replay_entry option \<Rightarrow> bool" where
  "expired now (Some (ReReady _ completed)) \<longleftrightarrow> REPLAY_TTL \<le> now - completed"
| "expired now (Some (RePending _ created)) \<longleftrightarrow> REPLAY_TTL \<le> now - created"
| "expired now None \<longleftrightarrow> True"

definition forget :: "fingerprint \<Rightarrow> replay_registry \<Rightarrow> replay_registry" where
  "forget key r =
     r\<lparr>rr_entries := AList.delete key (rr_entries r),
       rr_ready_bytes := (case map_of (rr_entries r) key of
          Some (ReReady body _) \<Rightarrow> rr_ready_bytes r - length body
        | _ \<Rightarrow> rr_ready_bytes r)\<rparr>"

lemma forget_order [simp]: "rr_order (forget key r) = rr_order r"
  by (simp add: forget_def)

function expire :: "nat \<Rightarrow> replay_registry \<Rightarrow> replay_registry" where
  "expire now r =
     (case rr_order r of
        [] \<Rightarrow> r
      | key # rest \<Rightarrow>
          if expired now (map_of (rr_entries r) key) then expire now (forget key (r\<lparr>rr_order := rest\<rparr>))
          else r)"
  by pat_completeness auto
termination
  by (relation "measure (\<lambda>(now, r). length (rr_order r))") auto

declare expire.simps [simp del]

definition over_limit :: "replay_registry \<Rightarrow> bool" where
  "over_limit r \<longleftrightarrow> REPLAY_MAX_ENTRIES < length (rr_entries r) \<or> REPLAY_MAX_BYTES < rr_ready_bytes r"

text \<open>Eviction skips pending entries by moving them to the back, and stops when all are pending.\<close>

definition pend :: "replay_registry \<Rightarrow> fingerprint \<Rightarrow> bool" where
  "pend r k = is_pending (map_of (rr_entries r) k)"

function evict :: "replay_registry \<Rightarrow> replay_registry" where
  "evict r =
     (if \<not> over_limit r then r else
      case rr_order r of
        [] \<Rightarrow> r
      | key # rest \<Rightarrow>
          (case map_of (rr_entries r) key of
             Some (ReReady body completed) \<Rightarrow>
               evict (forget key (r\<lparr>rr_order := rest, rr_evictions := rr_evictions r + 1\<rparr>))
           | Some (RePending c created) \<Rightarrow>
               if list_all (pend r) (rest @ [key]) then r\<lparr>rr_order := rest @ [key]\<rparr>
               else evict (r\<lparr>rr_order := rest @ [key]\<rparr>)
           | None \<Rightarrow> evict (r\<lparr>rr_order := rest\<rparr>)))"
  by pat_completeness auto
termination
proof (relation "measures [\<lambda>r. length (rr_order r), \<lambda>r. length (takeWhile (pend r) (rr_order r))]", goal_cases)
  case (3 r key rest e c created)
  then have p: "pend r key" by (simp add: pend_def)
  have "pend (r\<lparr>rr_order := rest @ [key]\<rparr>) = pend r" by (simp add: pend_def fun_eq_iff)
  moreover have "\<not> list_all (pend r) rest" using 3 p by simp
  then have "takeWhile (pend r) (rest @ [key]) = takeWhile (pend r) rest"
    by (metis takeWhile_append1 list_all_iff)
  ultimately show ?case using 3 p by simp
qed auto

declare evict.simps [simp del]

definition claim :: "nat \<Rightarrow> fingerprint \<Rightarrow> replay_registry \<Rightarrow> replay_registry \<times> replay_claim" where
  "claim now key r0 =
     (let r = expire now r0 in
      case map_of (rr_entries r) key of
        Some (ReReady body _) \<Rightarrow> (r\<lparr>rr_hits := rr_hits r + 1\<rparr>, ClHit body)
      | Some (RePending c _) \<Rightarrow> (r\<lparr>rr_coalesced := rr_coalesced r + 1\<rparr>, ClWait c)
      | None \<Rightarrow>
          (r\<lparr>rr_entries := AList.update key (RePending (rr_next_chan r) now) (rr_entries r),
             rr_order := rr_order r @ [key], rr_next_chan := Suc (rr_next_chan r)\<rparr>,
           ClOwner (rr_next_chan r)))"

text \<open>The second component is the message sent to the waiters, if there is a channel to send it on.\<close>

definition complete :: "nat \<Rightarrow> fingerprint \<Rightarrow> bytes \<Rightarrow> replay_registry \<Rightarrow> replay_registry \<times> (nat \<times> bytes) option" where
  "complete now key body r =
     (let sender = (case map_of (rr_entries r) key of Some (RePending c _) \<Rightarrow> Some (c, body) | _ \<Rightarrow> None);
          r1 = forget key r;
          r2 = r1\<lparr>rr_ready_bytes := rr_ready_bytes r1 + length body,
                  rr_entries := AList.update key (ReReady body now) (rr_entries r1)\<rparr> in
      (evict r2, sender))"

section \<open>Runs of the registry\<close>

datatype reg_op =
    OpClaim fingerprint
  | OpComplete fingerprint bytes

fun reg_step :: "nat \<times> reg_op \<Rightarrow> replay_registry \<Rightarrow> replay_registry" where
  "reg_step (now, OpClaim key) r = fst (claim now key r)"
| "reg_step (now, OpComplete key body) r = fst (complete now key body r)"

lemma map_of_forget: "map_of (rr_entries (forget key r)) = (map_of (rr_entries r))(key := None)"
  by (simp add: forget_def delete_conv')

text \<open>Both loops preserve whatever each of their turns preserves.\<close>

lemma expire_invariant:
  assumes "P r"
    and "\<And>r key rest. P r \<Longrightarrow> rr_order r = key # rest \<Longrightarrow> expired now (map_of (rr_entries r) key) \<Longrightarrow>
      P (forget key (r\<lparr>rr_order := rest\<rparr>))"
  shows "P (expire now r)"
  using assms(1)
proof (induction now\<equiv>now r rule: expire.induct)
  case (1 r)
  then show ?case
    using assms(2) by (cases "rr_order r") (auto simp: expire.simps [of now r])
qed

lemma evict_invariant:
  assumes "P r"
    and ready: "\<And>r key rest b t. P r \<Longrightarrow> rr_order r = key # rest \<Longrightarrow> map_of (rr_entries r) key = Some (ReReady b t) \<Longrightarrow>
      P (forget key (r\<lparr>rr_order := rest, rr_evictions := rr_evictions r + 1\<rparr>))"
    and pending: "\<And>r key rest. P r \<Longrightarrow> rr_order r = key # rest \<Longrightarrow> pend r key \<Longrightarrow> P (r\<lparr>rr_order := rest @ [key]\<rparr>)"
    and gone: "\<And>r key rest. P r \<Longrightarrow> rr_order r = key # rest \<Longrightarrow> map_of (rr_entries r) key = None \<Longrightarrow> P (r\<lparr>rr_order := rest\<rparr>)"
  shows "P (evict r)"
  using assms(1)
proof (induction r rule: evict.induct)
  case (1 r)
  show ?case
  proof (cases "over_limit r \<and> rr_order r \<noteq> []")
    case True
    then obtain key rest where o: "over_limit r" "rr_order r = key # rest" by (cases "rr_order r") auto
    show ?thesis
    proof (cases "map_of (rr_entries r) key")
      case None
      with 1 o gone [OF "1.prems" o(2) None] show ?thesis by (simp add: evict.simps [of r])
    next
      case (Some e)
      then show ?thesis
        using 1 o ready [OF "1.prems" o(2)] pending [OF "1.prems" o(2)]
        by (cases e) (auto simp: evict.simps [of r] pend_def)
    qed
  qed (use 1 in \<open>auto simp: evict.simps [of r] split: list.splits\<close>)
qed

text \<open>Age and size remove an entry only through the queue: what is young stays, what is not queued
  stays, and eviction never removes a pending entry.\<close>

lemma expire_keeps:
  assumes "\<not> expired now (map_of (rr_entries r) k) \<or> k \<notin> set (rr_order r)"
  shows "map_of (rr_entries (expire now r)) k = map_of (rr_entries r) k"
  by (rule expire_invariant [where P = "\<lambda>r'. map_of (rr_entries r') k = map_of (rr_entries r) k \<and>
        set (rr_order r') \<subseteq> set (rr_order r)", THEN conjunct1])
     (use assms in \<open>auto simp: map_of_forget\<close>)

lemma expire_order: "set (rr_order (expire now r)) \<subseteq> set (rr_order r)"
  by (rule expire_invariant [where P = "\<lambda>r'. set (rr_order r') \<subseteq> set (rr_order r)"]) auto

lemma evict_keeps:
  assumes "is_pending (map_of (rr_entries r) k) \<or> k \<notin> set (rr_order r)"
  shows "map_of (rr_entries (evict r)) k = map_of (rr_entries r) k"
  by (rule evict_invariant [where P = "\<lambda>r'. map_of (rr_entries r') k = map_of (rr_entries r) k \<and>
        set (rr_order r') \<subseteq> set (rr_order r)", THEN conjunct1])
     (use assms in \<open>auto simp: map_of_forget\<close>)

lemma evict_order: "set (rr_order (evict r)) \<subseteq> set (rr_order r)"
  by (rule evict_invariant [where P = "\<lambda>r'. set (rr_order r') \<subseteq> set (rr_order r)"]) auto

section \<open>One owner at a time\<close>

lemma claim_other:
  assumes "k \<noteq> key" "\<not> expired now (map_of (rr_entries r) k) \<or> k \<notin> set (rr_order r)"
  shows "map_of (rr_entries (fst (claim now key r))) k = map_of (rr_entries r) k"
  using assms expire_keeps [OF assms(2)]
  by (auto simp: claim_def Let_def update_conv' split: option.splits replay_entry.splits)

lemma complete_other:
  assumes "k \<noteq> key" "is_pending (map_of (rr_entries r) k) \<or> k \<notin> set (rr_order r)"
  shows "map_of (rr_entries (fst (complete now key body r))) k = map_of (rr_entries r) k"
  using assms by (simp add: complete_def Let_def update_conv' map_of_forget evict_keeps)

lemma claim_pending:
  assumes "map_of (rr_entries r) key = Some (RePending c t0)" "now < t0 + REPLAY_TTL"
  shows "snd (claim now key r) = ClWait c" "map_of (rr_entries (fst (claim now key r))) key = Some (RePending c t0)"
proof -
  have "\<not> expired now (map_of (rr_entries r) key)" using assms by (simp add: REPLAY_TTL_def)
  then have "map_of (rr_entries (expire now r)) key = Some (RePending c t0)" using expire_keeps [of now r key] assms(1) by simp
  then show "snd (claim now key r) = ClWait c" "map_of (rr_entries (fst (claim now key r))) key = Some (RePending c t0)"
    by (simp_all add: claim_def Let_def)
qed

lemma claim_owner:
  assumes "claim t0 key r = (r0, ClOwner c)"
  shows "map_of (rr_entries r0) key = Some (RePending c t0)"
  using assms by (auto simp: claim_def Let_def update_conv' split: option.splits replay_entry.splits)

lemma pending_run:
  assumes "map_of (rr_entries r) key = Some (RePending c t0)"
    and "\<forall>(t, op)\<in>set ops. t < t0 + REPLAY_TTL \<and> (\<forall>body. op \<noteq> OpComplete key body)"
  shows "map_of (rr_entries (fold reg_step ops r)) key = Some (RePending c t0)"
  using assms
proof (induction ops arbitrary: r)
  case (Cons top ops)
  obtain t op where top: "top = (t, op)" by force
  have "map_of (rr_entries (reg_step (t, op) r)) key = Some (RePending c t0)"
  proof (cases op)
    case (OpClaim k)
    have "\<not> expired t (map_of (rr_entries r) key)" using Cons.prems top by (auto simp: REPLAY_TTL_def)
    with OpClaim Cons.prems top show ?thesis
      by (cases "k = key") (auto simp: claim_pending claim_other)
  next
    case (OpComplete k body)
    with Cons.prems top show ?thesis using complete_other [of key k r] by auto
  qed
  with Cons top show ?case by auto
qed simp

text \<open>While the owner of a batch runs and for 60 s from its claim, whatever else the registry is used
  for, a request with the same fingerprint becomes a waiter on the owner's channel, never a second
  owner; and the owner's completion sends the body on that channel.\<close>

theorem replay_single_owner:
  assumes "claim t0 key r = (r0, ClOwner c)"
    and "\<forall>(t, op)\<in>set ops. t < t0 + REPLAY_TTL \<and> (\<forall>body. op \<noteq> OpComplete key body)"
    and "now < t0 + REPLAY_TTL"
  shows "snd (claim now key (fold reg_step ops r0)) = ClWait c \<and>
    snd (complete now key body (fold reg_step ops r0)) = Some (c, body)"
proof -
  from pending_run [OF claim_owner [OF assms(1)] assms(2)]
  have p: "map_of (rr_entries (fold reg_step ops r0)) key = Some (RePending c t0)" .
  then have "snd (complete now key body (fold reg_step ops r0)) = Some (c, body)" by (simp add: complete_def Let_def)
  with claim_pending(1) [OF p assms(3)] show ?thesis by blast
qed

theorem replay_single_owner_witness:
  "snd (claim 9 [1] (fold reg_step [(5, OpClaim [2]), (6, OpComplete [2] [7])] (fst (claim 3 [1] new_registry)))) = ClWait 0 \<and>
   snd (complete 9 [1] [8] (fold reg_step [(5, OpClaim [2]), (6, OpComplete [2] [7])] (fst (claim 3 [1] new_registry)))) = Some (0, [8])"
proof -
  have "claim 3 [1] new_registry = (fst (claim 3 [1] new_registry), ClOwner 0)"
    by (simp add: claim_def new_registry_def expire.simps Let_def)
  from replay_single_owner [OF this, of "[(5, OpClaim [2]), (6, OpComplete [2] [7])]" 9 "[8]"] show ?thesis
    by (simp add: REPLAY_TTL_def)
qed

section \<open>An entry that is never removed\<close>

lemma orphan_run:
  assumes "map_of (rr_entries r) key = Some (ReReady body t)" "key \<notin> set (rr_order r)"
    and "\<forall>(t, op)\<in>set ops. \<forall>body. op \<noteq> OpComplete key body"
  shows "map_of (rr_entries (fold reg_step ops r)) key = Some (ReReady body t) \<and> key \<notin> set (rr_order (fold reg_step ops r))"
  using assms
proof (induction ops arbitrary: r)
  case (Cons top ops)
  obtain now op where top: "top = (now, op)" by force
  let ?r = "reg_step (now, op) r"
  have "map_of (rr_entries ?r) key = Some (ReReady body t) \<and> key \<notin> set (rr_order ?r)"
  proof (cases op)
    case (OpClaim k)
    have "map_of (rr_entries (expire now r)) key = Some (ReReady body t)" "key \<notin> set (rr_order (expire now r))"
      using expire_keeps [of now r key] expire_order [of now r] Cons.prems by auto
    with OpClaim show ?thesis
      by (auto simp: claim_def Let_def update_conv' split: option.splits replay_entry.splits)
  next
    case (OpComplete k b)
    then have "k \<noteq> key" using Cons.prems(3) top by auto
    moreover have "key \<notin> set (rr_order ?r)"
      using OpComplete Cons.prems(2) evict_order by (fastforce simp: complete_def Let_def)
    ultimately show ?thesis using OpComplete Cons.prems complete_other [of key k r] by simp
  qed
  with Cons top show ?case by auto
qed simp

text \<open>A completion that comes after its entry was dropped for its age (a batch that ran longer than
  60 s) stores the body outside the queue: no later claim or completion of other batches removes it, so
  every later claim of the fingerprint, however late, is answered with it.\<close>

theorem late_completion_stays:
  assumes "map_of (rr_entries r) key = None" "key \<notin> set (rr_order r)"
    and "\<forall>(t, op)\<in>set ops. \<forall>body. op \<noteq> OpComplete key body"
  shows "snd (claim now key (fold reg_step ops (fst (complete t1 key body r)))) = ClHit body"
proof -
  let ?r2 = "(forget key r)\<lparr>rr_ready_bytes := rr_ready_bytes (forget key r) + length body,
    rr_entries := AList.update key (ReReady body t1) (rr_entries (forget key r))\<rparr>"
  have r1: "fst (complete t1 key body r) = evict ?r2" by (simp add: complete_def Let_def)
  have "map_of (rr_entries (evict ?r2)) key = Some (ReReady body t1)"
    using assms(2) by (subst evict_keeps) (simp_all add: update_conv')
  moreover have "key \<notin> set (rr_order (evict ?r2))" using assms(2) evict_order [of ?r2] by auto
  ultimately have o: "map_of (rr_entries (fold reg_step ops (evict ?r2))) key = Some (ReReady body t1)"
    "key \<notin> set (rr_order (fold reg_step ops (evict ?r2)))" using orphan_run assms(3) by blast+
  then have "map_of (rr_entries (expire now (fold reg_step ops (evict ?r2)))) key = Some (ReReady body t1)"
    using expire_keeps by metis
  then show ?thesis by (simp add: r1 claim_def Let_def)
qed

text \<open>The situation arises: the batch is claimed at 0, another claim at 60 s drops its entry, its
  completion comes at 61 s; three hours later the entry still answers.\<close>

theorem late_completion_stays_witness:
  "snd (claim 10800000 [1] (fold reg_step [(200000, OpClaim [3])] (fst (complete 61000 [1] [9]
     (fold reg_step [(0, OpClaim [1]), (60000, OpClaim [2])] new_registry))))) = ClHit [9]"
proof -
  let ?r = "fold reg_step [(0, OpClaim [1]), (60000, OpClaim [2])] new_registry"
  have "map_of (rr_entries ?r) [1] = None \<and> [1] \<notin> set (rr_order ?r)"
    by (simp add: claim_def new_registry_def expire.simps forget_def REPLAY_TTL_def Let_def)
  then show ?thesis using late_completion_stays [of ?r "[1]" "[(200000, OpClaim [3])]"] by simp
qed

section \<open>Accounting and limits\<close>

fun ready_len :: "replay_entry \<Rightarrow> nat" where
  "ready_len (ReReady body _) = length body"
| "ready_len (RePending _ _) = 0"

definition reg_inv :: "replay_registry \<Rightarrow> bool" where
  "reg_inv r \<longleftrightarrow> distinct (map fst (rr_entries r)) \<and> rr_ready_bytes r = asum ready_len (rr_entries r)"

lemma ready_bytes_forget:
  "rr_ready_bytes (forget key r) = rr_ready_bytes r - at ready_len (map_of (rr_entries r) key)"
  by (simp add: forget_def split: option.splits replay_entry.splits)

lemma reg_inv_forget [intro]: "reg_inv r \<Longrightarrow> reg_inv (forget key r)"
  by (simp add: reg_inv_def ready_bytes_forget asum_delete) (simp add: forget_def asum_delete)

lemma reg_inv_fields [simp]:
  "reg_inv (r\<lparr>rr_order := x\<rparr>) = reg_inv r" "reg_inv (r\<lparr>rr_evictions := e\<rparr>) = reg_inv r"
  "reg_inv (r\<lparr>rr_hits := e\<rparr>) = reg_inv r" "reg_inv (r\<lparr>rr_coalesced := e\<rparr>) = reg_inv r"
  "reg_inv (r\<lparr>rr_next_chan := n\<rparr>) = reg_inv r"
  by (simp_all add: reg_inv_def)

lemma reg_inv_expire: "reg_inv r \<Longrightarrow> reg_inv (expire now r)"
  by (rule expire_invariant) auto

lemma reg_inv_evict: "reg_inv r \<Longrightarrow> reg_inv (evict r)"
  by (rule evict_invariant) auto

lemma reg_inv_step: "reg_inv r \<Longrightarrow> reg_inv (reg_step ev r)"
proof (cases ev)
  case (Pair now op)
  assume r: "reg_inv r"
  show ?thesis
  proof (cases op)
    case (OpClaim key)
    have "reg_inv (expire now r)" using r by (rule reg_inv_expire)
    with Pair OpClaim show ?thesis
      by (auto simp: claim_def Let_def reg_inv_def asum_update split: option.splits replay_entry.splits)
  next
    case (OpComplete key body)
    let ?f = "forget key r"
    have f: "reg_inv ?f" using r by blast
    have "map_of (rr_entries ?f) key = None" by (simp add: map_of_forget)
    then have "reg_inv (?f\<lparr>rr_ready_bytes := rr_ready_bytes ?f + length body,
        rr_entries := AList.update key (ReReady body now) (rr_entries ?f)\<rparr>)"
      using f by (simp add: reg_inv_def asum_update)
    with Pair OpComplete show ?thesis by (simp add: complete_def Let_def reg_inv_evict)
  qed
qed

lemma evict_limits: "over_limit (evict r) \<Longrightarrow> list_all (pend (evict r)) (rr_order (evict r))"
proof (induction r rule: evict.induct)
  case (1 r)
  show ?case
  proof (cases "over_limit r \<and> rr_order r \<noteq> []")
    case False
    then show ?thesis using 1 by (auto simp: evict.simps [of r] split: list.splits)
  next
    case True
    then obtain key rest where o: "over_limit r" "rr_order r = key # rest" by (cases "rr_order r") auto
    have same: "pend (r\<lparr>rr_order := x\<rparr>) = pend r" for x by (simp add: pend_def fun_eq_iff)
    show ?thesis
    proof (cases "map_of (rr_entries r) key")
      case None
      with 1 o show ?thesis by (simp add: evict.simps [of r])
    next
      case (Some e)
      with 1 o same show ?thesis
        by (cases e) (auto simp: evict.simps [of r] list_all_append)
    qed
  qed
qed

text \<open>In every run of the registry the byte counter is exact and no fingerprint has two entries; and
  after a completion the registry is within 4096 entries and 64 MiB, unless every queued entry belongs
  to a batch that is still running.\<close>

theorem registry_limits:
  "let r = fold reg_step ops new_registry; r' = reg_step (now, OpComplete key body) r in
   rr_ready_bytes r = asum ready_len (rr_entries r) \<and> distinct (map fst (rr_entries r)) \<and>
   (length (rr_entries r') \<le> REPLAY_MAX_ENTRIES \<and> asum ready_len (rr_entries r') \<le> REPLAY_MAX_BYTES
    \<or> list_all (pend r') (rr_order r'))"
proof -
  define r where "r = fold reg_step ops new_registry"
  define r' where "r' = reg_step (now, OpComplete key body) r"
  have "reg_inv r0 \<Longrightarrow> reg_inv (fold reg_step ops r0)" for r0
    by (induction ops arbitrary: r0) (auto intro: reg_inv_step)
  then have inv: "reg_inv r" by (simp add: r_def new_registry_def reg_inv_def)
  then have inv': "reg_inv r'" unfolding r'_def by (rule reg_inv_step)
  have "\<exists>q. r' = evict q" by (auto simp: r'_def complete_def Let_def)
  then have "over_limit r' \<longrightarrow> list_all (pend r') (rr_order r')" using evict_limits by auto
  with inv inv' have "rr_ready_bytes r = asum ready_len (rr_entries r) \<and> distinct (map fst (rr_entries r)) \<and>
     (length (rr_entries r') \<le> REPLAY_MAX_ENTRIES \<and> asum ready_len (rr_entries r') \<le> REPLAY_MAX_BYTES
      \<or> list_all (pend r') (rr_order r'))"
    by (auto simp: reg_inv_def over_limit_def not_less)
  then show ?thesis by (simp add: r_def r'_def Let_def)
qed

end
