(* ===== verification/Udpgw.thy ===== *)
theory Udpgw
  imports Rust_Str
begin

text \<open>
  The UDP gateway of the tunnel node (\<^verbatim>\<open>tunnel-node/src/udpgw.rs\<close>): its length-prefixed frames with
  SOCKS-style addresses, the server that reassembles frames from a byte stream, and what it does with
  each: keep-alives, refusals, sockets per connection and destination, datagrams and replies. Name
  resolution and sockets are a state-passing interface. Shown: a frame survives the wire, and however the
  stream is cut into reads the server handles exactly the frames that were sent, in order.
\<close>

section \<open>Frames\<close>

definition UDPGW_MAGIC_HOST :: string where "UDPGW_MAGIC_HOST = ''192.0.2.1''"
definition UDPGW_MAGIC_PORT :: u16 where "UDPGW_MAGIC_PORT = 7300"
definition LEGACY_UDPGW_MAGIC_HOST :: string where "LEGACY_UDPGW_MAGIC_HOST = ''198.18.0.1''"
definition FLAG_KEEPALIVE :: byte where "FLAG_KEEPALIVE = 0x01"
definition FLAG_DATA :: byte where "FLAG_DATA = 0x02"
definition FLAG_ERR :: byte where "FLAG_ERR = 0x20"
definition ATYP_IPV4 :: byte where "ATYP_IPV4 = 0x01"
definition ATYP_DOMAIN :: byte where "ATYP_DOMAIN = 0x03"
definition ATYP_IPV6 :: byte where "ATYP_IPV6 = 0x04"
definition UDP_MTU :: nat where "UDP_MTU = 10240"
definition UDPGW_BUF_MAX :: nat where "UDPGW_BUF_MAX = 65536 * 4"

text \<open>Addresses carry their octets.\<close>

datatype dst_addr = DstV4 bytes u16 | DstV6 bytes u16 | DstDomain string u16

fun dst_write :: "dst_addr \<Rightarrow> bytes" where
  "dst_write (DstV4 ip port) = ATYP_IPV4 # ip @ put_u16 port"
| "dst_write (DstV6 ip port) = ATYP_IPV6 # ip @ put_u16 port"
| "dst_write (DstDomain name port) =
     ATYP_DOMAIN # word_of_nat (length name) # as_bytes name @ put_u16 port"

fun dst_serialised_len :: "dst_addr \<Rightarrow> nat" where
  "dst_serialised_len (DstV4 _ _) = 1 + 4 + 2"
| "dst_serialised_len (DstV6 _ _) = 1 + 16 + 2"
| "dst_serialised_len (DstDomain n _) = 1 + 1 + length n + 2"

record udp_frame =
  uf_flags :: byte
  uf_conn_id :: u16
  uf_addr :: "dst_addr option"
  uf_payload :: bytes

datatype udp_frame_error =
    FrameTooShort | MissingAtyp | ShortIPv4 | ShortIPv6 | ShortDomain | UnknownAtyp byte

text \<open>The address at the front of the rest of a body, and how many bytes it takes.\<close>

definition parse_dst :: "bytes \<Rightarrow> (dst_addr \<times> nat, udp_frame_error) result" where
  "parse_dst rest =
     (if rest = [] then Inl MissingAtyp
      else let atyp = hd rest in
      if atyp = ATYP_IPV4 then
        (if length rest < 1 + 4 + 2 then Inl ShortIPv4
         else Inr (DstV4 (take 4 (drop 1 rest)) (get_u16 (drop 5 rest)), 7))
      else if atyp = ATYP_IPV6 then
        (if length rest < 1 + 16 + 2 then Inl ShortIPv6
         else Inr (DstV6 (take 16 (drop 1 rest)) (get_u16 (drop 17 rest)), 19))
      else if atyp = ATYP_DOMAIN then
        (if length rest < 2 then Inl ShortDomain
         else let dlen = unat (rest ! 1) in
           if length rest < 2 + dlen + 2 then Inl ShortDomain
           else Inr (DstDomain (str_of_bytes (from_utf8_lossy (take dlen (drop 2 rest))))
                       (get_u16 (drop (2 + dlen) rest)), 2 + dlen + 2))
      else Inl (UnknownAtyp atyp))"

definition try_parse_frame :: "bytes \<Rightarrow> ((udp_frame \<times> nat) option, udp_frame_error) result" where
  "try_parse_frame buf =
     (if length buf < 2 then Inr None
      else let body_len = unat (get_u16 buf); tot = 2 + body_len in
      if length buf < tot then Inr None
      else let body = take body_len (drop 2 buf) in
      if length body < 3 then Inl FrameTooShort
      else let flags = hd body; conn_id = get_u16 (drop 1 body); rest = drop 3 body in
      if flags AND FLAG_DATA \<noteq> 0 then
        (case parse_dst rest of
           Inl e \<Rightarrow> Inl e
         | Inr (addr, payload_start) \<Rightarrow>
             Inr (Some (\<lparr>uf_flags = flags, uf_conn_id = conn_id, uf_addr = Some addr,
                         uf_payload = drop payload_start rest\<rparr>, tot)))
      else Inr (Some (\<lparr>uf_flags = flags, uf_conn_id = conn_id, uf_addr = None,
                       uf_payload = rest\<rparr>, tot)))"

definition serialise_frame :: "udp_frame \<Rightarrow> bytes" where
  "serialise_frame f =
     (let addr_len = (case uf_addr f of None \<Rightarrow> 0 | Some a \<Rightarrow> dst_serialised_len a);
          body_len = 1 + 2 + addr_len + length (uf_payload f) in
      put_u16 (word_of_nat body_len) @ uf_flags f # put_u16 (uf_conn_id f)
        @ (case uf_addr f of None \<Rightarrow> [] | Some a \<Rightarrow> dst_write a) @ uf_payload f)"

definition is_udpgw_dest :: "string \<Rightarrow> u16 \<Rightarrow> bool" where
  "is_udpgw_dest host port \<longleftrightarrow>
     port = UDPGW_MAGIC_PORT \<and> (host = UDPGW_MAGIC_HOST \<or> host = LEGACY_UDPGW_MAGIC_HOST)"

definition serialise_err :: "u16 \<Rightarrow> bytes" where
  "serialise_err conn_id =
     serialise_frame \<lparr>uf_flags = FLAG_ERR, uf_conn_id = conn_id, uf_addr = None, uf_payload = []\<rparr>"

section \<open>The server\<close>

datatype sock_addr = SockV4 bytes u16 | SockV6 bytes u16

text \<open>The operating system: name lookup (the first result, if any), binding and connecting a socket
  to a destination (the flag is whether it is an IPv6 socket), and sending on it.\<close>

record 's udp_net =
  un_resolve :: "'s \<Rightarrow> string \<Rightarrow> u16 \<Rightarrow> 's \<times> sock_addr option"
  un_open :: "'s \<Rightarrow> bool \<Rightarrow> sock_addr \<Rightarrow> 's \<times> bool"
  un_send :: "'s \<Rightarrow> u16 \<times> sock_addr \<Rightarrow> bytes \<Rightarrow> 's \<times> bool"

text \<open>A server's state: the bytes not yet parsed, the sockets with the address their reader answers
  from, the responses queued for the client, and the world.\<close>

record 's udpgw =
  ug_buf :: bytes
  ug_sockets :: "u16 \<times> sock_addr \<Rightarrow> dst_addr option"
  ug_out :: "bytes list"
  ug_world :: 's

definition new_udpgw :: "'s \<Rightarrow> 's udpgw" where
  "new_udpgw s = \<lparr>ug_buf = [], ug_sockets = (\<lambda>_. None), ug_out = [], ug_world = s\<rparr>"

definition queue_out :: "bytes \<Rightarrow> 's udpgw \<Rightarrow> 's udpgw" where
  "queue_out resp st = st\<lparr>ug_out := ug_out st @ [resp]\<rparr>"

fun to_socket_addr :: "'s udp_net \<Rightarrow> dst_addr \<Rightarrow> 's udpgw \<Rightarrow> 's udpgw \<times> sock_addr option" where
  "to_socket_addr net (DstV4 ip port) st = (st, Some (SockV4 ip port))"
| "to_socket_addr net (DstV6 ip port) st = (st, Some (SockV6 ip port))"
| "to_socket_addr net (DstDomain name port) st =
     (case un_resolve net (ug_world st) name port of (s', r) \<Rightarrow> (st\<lparr>ug_world := s'\<rparr>, r))"

definition is_ipv6 :: "sock_addr \<Rightarrow> bool" where
  "is_ipv6 a = (case a of SockV6 _ _ \<Rightarrow> True | SockV4 _ _ \<Rightarrow> False)"

definition get_or_create_socket :: "'s udp_net \<Rightarrow> u16 \<Rightarrow> sock_addr \<Rightarrow> dst_addr \<Rightarrow> 's udpgw
    \<Rightarrow> 's udpgw \<times> bool" where
  "get_or_create_socket net conn_id dst addr st =
     (if ug_sockets st (conn_id, dst) \<noteq> None then (st, True)
      else (case un_open net (ug_world st) (is_ipv6 dst) dst of
              (s', True) \<Rightarrow>
                (st\<lparr>ug_world := s', ug_sockets := (ug_sockets st)((conn_id, dst) \<mapsto> addr)\<rparr>, True)
            | (s', False) \<Rightarrow> (st\<lparr>ug_world := s'\<rparr>, False)))"

fun dst_port :: "dst_addr \<Rightarrow> u16" where
  "dst_port (DstV4 _ p) = p" | "dst_port (DstV6 _ p) = p" | "dst_port (DstDomain _ p) = p"

definition handle_frame :: "'s udp_net \<Rightarrow> udp_frame \<Rightarrow> 's udpgw \<Rightarrow> 's udpgw" where
  "handle_frame net f st =
     (if uf_flags f AND FLAG_KEEPALIVE \<noteq> 0 then
        queue_out (serialise_frame \<lparr>uf_flags = FLAG_KEEPALIVE, uf_conn_id = uf_conn_id f,
                     uf_addr = None, uf_payload = []\<rparr>) st
      else if uf_flags f AND FLAG_DATA = 0 then st
      else case uf_addr f of
        None \<Rightarrow> queue_out (serialise_err (uf_conn_id f)) st
      | Some dst \<Rightarrow>
          if dst_port dst = 443 \<or> dst_port dst = 53
          then queue_out (serialise_err (uf_conn_id f)) st
          else (case to_socket_addr net dst st of
                  (st1, None) \<Rightarrow> queue_out (serialise_err (uf_conn_id f)) st1
                | (st1, Some a) \<Rightarrow>
                    (case get_or_create_socket net (uf_conn_id f) a dst st1 of
                       (st2, False) \<Rightarrow> queue_out (serialise_err (uf_conn_id f)) st2
                     | (st2, True) \<Rightarrow>
                         (case un_send net (ug_world st2) (uf_conn_id f, a) (uf_payload f) of
                            (s', sent) \<Rightarrow>
                              (let st3 = st2\<lparr>ug_world := s'\<rparr> in
                               if sent then st3
                               else queue_out (serialise_err (uf_conn_id f)) st3)))))"

text \<open>A socket's reader: a received datagram, cut to the receive buffer, becomes a response.\<close>

definition udp_received :: "u16 \<times> sock_addr \<Rightarrow> bytes \<Rightarrow> 's udpgw \<Rightarrow> 's udpgw" where
  "udp_received key datagram st =
     (case ug_sockets st key of
        None \<Rightarrow> st
      | Some addr \<Rightarrow>
          queue_out (serialise_frame \<lparr>uf_flags = FLAG_DATA, uf_conn_id = fst key,
                       uf_addr = Some addr, uf_payload = take UDP_MTU datagram\<rparr>) st)"

lemma parse_consumes:
  "try_parse_frame buf = Inr (Some (f, consumed)) \<Longrightarrow> 2 \<le> consumed \<and> consumed \<le> length buf"
  by (auto simp: try_parse_frame_def Let_def split: if_splits sum.splits)

text \<open>Handling a frame does not look at the buffer.\<close>

lemma to_socket_addr_buf: "to_socket_addr net d (st\<lparr>ug_buf := b\<rparr>) =
    (case to_socket_addr net d st of (st', r) \<Rightarrow> (st'\<lparr>ug_buf := b\<rparr>, r))"
  by (cases d) (auto split: prod.splits)

lemma get_or_create_socket_buf: "get_or_create_socket net i a d (st\<lparr>ug_buf := b\<rparr>) =
    (case get_or_create_socket net i a d st of (st', r) \<Rightarrow> (st'\<lparr>ug_buf := b\<rparr>, r))"
  by (auto simp: get_or_create_socket_def split: prod.splits bool.splits)

lemma handle_frame_buf: "handle_frame net f (st\<lparr>ug_buf := b\<rparr>) = (handle_frame net f st)\<lparr>ug_buf := b\<rparr>"
  by (auto simp: handle_frame_def queue_out_def Let_def to_socket_addr_buf get_or_create_socket_buf
      split: option.splits prod.splits bool.splits)

lemma ug_buf_handle_frame [simp]: "ug_buf (handle_frame net f st) = ug_buf st"
proof -
  have "handle_frame net f st = (handle_frame net f st)\<lparr>ug_buf := ug_buf st\<rparr>"
    using handle_frame_buf [of net f "ug_buf st" st] by simp
  from arg_cong [OF this, of ug_buf] show ?thesis by simp
qed

text \<open>The inner loop of the server, after a read has extended the buffer.\<close>

function process_buf :: "'s udp_net \<Rightarrow> 's udpgw \<Rightarrow> 's udpgw" where
  "process_buf net st =
     (case try_parse_frame (ug_buf st) of
        Inr (Some (f, consumed)) \<Rightarrow>
          process_buf net (handle_frame net f (st\<lparr>ug_buf := drop consumed (ug_buf st)\<rparr>))
      | Inr None \<Rightarrow>
          if UDPGW_BUF_MAX \<le> length (ug_buf st) then st\<lparr>ug_buf := []\<rparr> else st
      | Inl _ \<Rightarrow>
          if 2 \<le> length (ug_buf st)
          then st\<lparr>ug_buf := drop (2 + unat (get_u16 (ug_buf st))) (ug_buf st)\<rparr>
          else st\<lparr>ug_buf := []\<rparr>)"
  by pat_completeness auto
termination
  by (relation "measure (\<lambda>(net, st). length (ug_buf st))") (auto dest!: parse_consumes)

declare process_buf.simps [simp del]

text \<open>One read of at most 65536 bytes; an empty read or an error ends the server.\<close>

definition udpgw_read :: "'s udp_net \<Rightarrow> 's udpgw \<Rightarrow> bytes \<Rightarrow> 's udpgw" where
  "udpgw_read net st chunk = process_buf net (st\<lparr>ug_buf := ug_buf st @ chunk\<rparr>)"

section \<open>Frames survive the wire\<close>

text \<open>What a frame must satisfy to be sent as it is: an address exactly when the data flag is set,
  octets of the right number, a name of at most 255 bytes of UTF-8, and a body that fits the 16-bit
  length.\<close>

fun wf_dst :: "dst_addr \<Rightarrow> bool" where
  "wf_dst (DstV4 ip _) \<longleftrightarrow> length ip = 4"
| "wf_dst (DstV6 ip _) \<longleftrightarrow> length ip = 16"
| "wf_dst (DstDomain name _) \<longleftrightarrow> length name < 256 \<and> utf8_valid (as_bytes name)"

definition wf_udp_frame :: "udp_frame \<Rightarrow> bool" where
  "wf_udp_frame f \<longleftrightarrow>
     (uf_addr f \<noteq> None \<longleftrightarrow> uf_flags f AND FLAG_DATA \<noteq> 0) \<and>
     (case uf_addr f of None \<Rightarrow> True | Some a \<Rightarrow> wf_dst a) \<and> length (serialise_frame f) < 2 + 2 ^ 16"

lemma length_dst_write: "wf_dst a \<Longrightarrow> length (dst_write a) = dst_serialised_len a"
  by (cases a) auto

lemma parse_dst_write:
  assumes "wf_dst a"
  shows "parse_dst (dst_write a @ rest) = Inr (a, dst_serialised_len a)"
proof (cases a)
  case (DstDomain name port)
  with assms have n: "length name < 256" "utf8_valid (as_bytes name)" by auto
  then have "unat (word_of_nat (length name) :: byte) = length name" by (simp add: unat_of_nat)
  with DstDomain n show ?thesis
    by (simp add: parse_dst_def ATYP_IPV4_def ATYP_IPV6_def ATYP_DOMAIN_def from_utf8_lossy_valid)
qed (use assms in \<open>auto simp: parse_dst_def ATYP_IPV4_def ATYP_IPV6_def\<close>)

lemma serialise_shape:
  assumes "wf_udp_frame f"
  obtains body where "serialise_frame f = put_u16 (word_of_nat (length body)) @ body"
    "length body < 2 ^ 16" "body = uf_flags f # put_u16 (uf_conn_id f)
       @ (case uf_addr f of None \<Rightarrow> [] | Some a \<Rightarrow> dst_write a) @ uf_payload f"
proof -
  let ?body = "uf_flags f # put_u16 (uf_conn_id f)
       @ (case uf_addr f of None \<Rightarrow> [] | Some a \<Rightarrow> dst_write a) @ uf_payload f"
  have "length ?body = 1 + 2 + (case uf_addr f of None \<Rightarrow> 0 | Some a \<Rightarrow> dst_serialised_len a) + length (uf_payload f)"
    using assms by (auto simp: wf_udp_frame_def length_dst_write split: option.splits)
  then have "serialise_frame f = put_u16 (word_of_nat (length ?body)) @ ?body"
    by (simp add: serialise_frame_def Let_def del: length_Cons)
  with assms that [of ?body] show thesis by (auto simp: wf_udp_frame_def)
qed

lemma parse_serialise:
  assumes "wf_udp_frame f"
  shows "try_parse_frame (serialise_frame f @ rest) = Inr (Some (f, length (serialise_frame f)))"
proof -
  obtain body where b: "serialise_frame f = put_u16 (word_of_nat (length body)) @ body"
    "length body < 2 ^ 16" "body = uf_flags f # put_u16 (uf_conn_id f)
       @ (case uf_addr f of None \<Rightarrow> [] | Some a \<Rightarrow> dst_write a) @ uf_payload f"
    using serialise_shape [OF assms] .
  have l: "unat (word_of_nat (length body) :: u16) = length body" using b(2) by (simp add: unat_of_nat)
  have "3 \<le> length body" by (simp add: b(3))
  then have p: "try_parse_frame (serialise_frame f @ rest) =
    (if hd body AND FLAG_DATA \<noteq> 0 then
        (case parse_dst (drop 3 body) of
           Inl e \<Rightarrow> Inl e
         | Inr (addr, payload_start) \<Rightarrow>
             Inr (Some (\<lparr>uf_flags = hd body, uf_conn_id = get_u16 (drop 1 body), uf_addr = Some addr,
                         uf_payload = drop payload_start (drop 3 body)\<rparr>, 2 + length body)))
      else Inr (Some (\<lparr>uf_flags = hd body, uf_conn_id = get_u16 (drop 1 body), uf_addr = None,
                       uf_payload = drop 3 body\<rparr>, 2 + length body)))"
    by (auto simp: try_parse_frame_def b(1) l Let_def split: sum.splits)
  have "drop 3 body = (case uf_addr f of None \<Rightarrow> [] | Some a \<Rightarrow> dst_write a) @ uf_payload f"
    "hd body = uf_flags f" "get_u16 (drop 1 body) = uf_conn_id f"
    using b(3) by (simp_all add: numeral_3_eq_3 drop_Cons')
  moreover have "length (serialise_frame f) = 2 + length body" by (simp add: b(1))
  ultimately show ?thesis using p assms
    by (cases f) (auto simp: wf_udp_frame_def parse_dst_write length_dst_write split: option.splits)
qed

section \<open>Reassembly\<close>

text \<open>When a buffer is incomplete: fewer than two bytes, or fewer than the length they announce.\<close>

lemma parse_None_iff:
  "try_parse_frame buf = Inr None \<longleftrightarrow> length buf < 2 \<or> length buf < 2 + unat (get_u16 buf)"
  by (auto simp: try_parse_frame_def Let_def split: sum.splits)

lemma incomplete_empty: "try_parse_frame [] = Inr None"
  by (simp add: parse_None_iff)

lemma incomplete_short: "try_parse_frame buf = Inr None \<Longrightarrow> length buf < 2 + 2 ^ 16"
  using unat_bound [of "get_u16 buf"] by (auto simp: parse_None_iff)

lemma get_u16_prefix: "2 \<le> length b \<Longrightarrow> get_u16 (b @ x) = get_u16 b"
  by (simp add: get_u16_def)

lemma incomplete_prefix: "try_parse_frame (b @ x) = Inr None \<Longrightarrow> try_parse_frame b = Inr None"
  using get_u16_prefix [of b x] by (cases "length b < 2") (auto simp: parse_None_iff)

lemma strict_prefix_incomplete:
  assumes "wf_udp_frame f" "serialise_frame f = b @ x" "x \<noteq> []"
  shows "try_parse_frame b = Inr None"
proof -
  obtain body where "serialise_frame f = put_u16 (word_of_nat (length body)) @ body" "length body < 2 ^ 16"
    using serialise_shape [OF assms(1)] by metis
  then have "unat (get_u16 (b @ x)) = length body" "length (b @ x) = 2 + length body"
    by (simp_all add: assms(2) [symmetric] unat_of_nat)
  moreover have "0 < length x" using assms(3) by simp
  ultimately show ?thesis using get_u16_prefix [of b x]
    by (cases "length b < 2") (auto simp: parse_None_iff simp del: length_greater_0_conv)
qed

abbreviation handle_all :: "'s udp_net \<Rightarrow> udp_frame list \<Rightarrow> 's udpgw \<Rightarrow> 's udpgw" where
  "handle_all net fs st \<equiv> fold (handle_frame net) fs st"

lemma handle_all_buf: "handle_all net fs (st\<lparr>ug_buf := b\<rparr>) = (handle_all net fs st)\<lparr>ug_buf := b\<rparr>"
  by (induction fs arbitrary: st) (simp_all add: handle_frame_buf)

lemma process_incomplete:
  "try_parse_frame (ug_buf st) = Inr None \<Longrightarrow> process_buf net st = st"
  by (subst process_buf.simps) (auto simp: UDPGW_BUF_MAX_def dest!: incomplete_short)

lemma process_one:
  assumes "wf_udp_frame f" "ug_buf st = serialise_frame f @ b"
  shows "process_buf net st = process_buf net ((handle_frame net f st)\<lparr>ug_buf := b\<rparr>)"
  by (subst process_buf.simps) (simp add: assms parse_serialise handle_frame_buf)

lemma process_stream:
  assumes "list_all wf_udp_frame fs" "try_parse_frame part = Inr None"
    "b @ later = concat (map serialise_frame fs) @ part"
  shows "\<exists>fs1 fs2 b'. fs = fs1 @ fs2 \<and> process_buf net (st\<lparr>ug_buf := b\<rparr>) = (handle_all net fs1 st)\<lparr>ug_buf := b'\<rparr>
    \<and> b' @ later = concat (map serialise_frame fs2) @ part \<and> try_parse_frame b' = Inr None"
  using assms
proof (induction fs arbitrary: b st)
  case Nil
  then have "try_parse_frame b = Inr None" using incomplete_prefix [of b later] by simp
  with Nil show ?case by (intro exI [of _ "[]"] exI [of _ b]) (simp add: process_incomplete)
next
  case (Cons f fs)
  have wf: "wf_udp_frame f" using Cons.prems(1) by simp
  show ?case
  proof (cases "length (serialise_frame f) \<le> length b")
    case True
    then obtain b1 where b: "b = serialise_frame f @ b1"
      using Cons.prems(3) by (metis append_assoc append_eq_append_conv_if append_take_drop_id concat.simps(2) list.simps(9))
    then have "b1 @ later = concat (map serialise_frame fs) @ part" using Cons.prems(3) by simp
    then obtain fs1 fs2 b' where fs: "fs = fs1 @ fs2"
      "process_buf net ((handle_frame net f st)\<lparr>ug_buf := b1\<rparr>) = (handle_all net fs1 (handle_frame net f st))\<lparr>ug_buf := b'\<rparr>"
      "b' @ later = concat (map serialise_frame fs2) @ part" "try_parse_frame b' = Inr None"
      using Cons.IH [of b1 "handle_frame net f st"] Cons.prems(1,2) by auto
    have "process_buf net (st\<lparr>ug_buf := b\<rparr>) = process_buf net ((handle_frame net f st)\<lparr>ug_buf := b1\<rparr>)"
      by (subst process_one [OF wf]) (simp_all add: b handle_frame_buf)
    with fs show ?thesis by (intro exI [of _ "f # fs1"] exI [of _ fs2] exI [of _ b']) simp
  next
    case False
    then obtain x where x: "serialise_frame f = b @ x"
      using Cons.prems(3) by (auto simp: append_eq_append_conv2) metis
    with False have "x \<noteq> []" by auto
    with x have "try_parse_frame b = Inr None" by (rule strict_prefix_incomplete [OF wf])
    with Cons.prems(3) show ?thesis
      by (intro exI [of _ "[]"] exI [of _ "f # fs"] exI [of _ b]) (simp add: process_incomplete)
  qed
qed

text \<open>C39: however the client's byte stream is cut into reads, the server handles exactly the frames
  the client serialised, each once and in order, and keeps what follows the last complete one.\<close>

theorem udpgw_reassembles:
  assumes "list_all wf_udp_frame fs" "try_parse_frame part = Inr None"
    "concat chunks = concat (map serialise_frame fs) @ part" "ug_buf st = []"
  shows "foldl (udpgw_read net) st chunks = (handle_all net fs st)\<lparr>ug_buf := part\<rparr>"
proof -
  have "foldl (udpgw_read net) (st'\<lparr>ug_buf := b\<rparr>) chunks = (handle_all net fs st')\<lparr>ug_buf := part\<rparr>"
    if "list_all wf_udp_frame fs" "b @ concat chunks = concat (map serialise_frame fs) @ part"
      "try_parse_frame b = Inr None" for st' b fs
    using that
  proof (induction chunks arbitrary: st' b fs)
    case Nil
    have "fs = []"
    proof (cases fs)
      case (Cons f fs')
      then have "try_parse_frame b = Inr (Some (f, length (serialise_frame f)))"
        using Nil parse_serialise [of f "concat (map serialise_frame fs') @ part"] by simp
      with Nil show ?thesis by simp
    qed
    with Nil show ?case by simp
  next
    case (Cons c cs)
    obtain fs1 fs2 b' where fs: "fs = fs1 @ fs2"
      "process_buf net (st'\<lparr>ug_buf := b @ c\<rparr>) = (handle_all net fs1 st')\<lparr>ug_buf := b'\<rparr>"
      "b' @ concat cs = concat (map serialise_frame fs2) @ part" "try_parse_frame b' = Inr None"
      using process_stream [OF Cons.prems(1) assms(2), of "b @ c" "concat cs" net st'] Cons.prems(2) by auto
    then have "foldl (udpgw_read net) ((handle_all net fs1 st')\<lparr>ug_buf := b'\<rparr>) cs =
        (handle_all net fs2 (handle_all net fs1 st'))\<lparr>ug_buf := part\<rparr>"
      using Cons.IH Cons.prems(1) by simp
    moreover have "udpgw_read net (st'\<lparr>ug_buf := b\<rparr>) c = (handle_all net fs1 st')\<lparr>ug_buf := b'\<rparr>"
      using fs(2) by (simp add: udpgw_read_def)
    ultimately show ?case by (simp add: fs(1))
  qed
  moreover have "st\<lparr>ug_buf := []\<rparr> = st" using assms(4) by (cases st) simp
  ultimately show ?thesis using assms(1,3) by (metis append_Nil incomplete_empty)
qed

definition quiet_net :: "unit udp_net" where
  "quiet_net = \<lparr>un_resolve = (\<lambda>s _ _. (s, None)), un_open = (\<lambda>s _ _. (s, True)), un_send = (\<lambda>s _ _. (s, True))\<rparr>"

definition keepalive_frame :: udp_frame where
  "keepalive_frame = \<lparr>uf_flags = FLAG_KEEPALIVE, uf_conn_id = 5, uf_addr = None, uf_payload = []\<rparr>"

definition call_frame :: udp_frame where
  "call_frame = \<lparr>uf_flags = FLAG_DATA, uf_conn_id = 6, uf_addr = Some (DstV4 [8, 8, 4, 4] 3478), uf_payload = [1, 2]\<rparr>"

lemma call_stream: "map serialise_frame [keepalive_frame, call_frame] =
    [[0, 3, 1, 0, 5], [0, 12, 2, 0, 6, 1, 8, 8, 4, 4, 13, 150, 1, 2]]"
  by code_simp

theorem udpgw_reassembles_witness:
  "ug_out (foldl (udpgw_read quiet_net) (new_udpgw ()) [[0], [3, 1, 0, 5, 0, 12, 2, 0, 6, 1, 8, 8, 4], [4, 13, 150, 1, 2, 7]])
     = [[0, 3, 1, 0, 5]] \<and>
   ug_sockets (foldl (udpgw_read quiet_net) (new_udpgw ()) [[0], [3, 1, 0, 5, 0, 12, 2, 0, 6, 1, 8, 8, 4], [4, 13, 150, 1, 2, 7]])
     (6, SockV4 [8, 8, 4, 4] 3478) = Some (DstV4 [8, 8, 4, 4] 3478)"
proof -
  have wf: "list_all wf_udp_frame [keepalive_frame, call_frame]"
    using call_stream
    by (simp add: wf_udp_frame_def keepalive_frame_def call_frame_def FLAG_KEEPALIVE_def FLAG_DATA_def)
  have "foldl (udpgw_read quiet_net) (new_udpgw ()) [[0], [3, 1, 0, 5, 0, 12, 2, 0, 6, 1, 8, 8, 4], [4, 13, 150, 1, 2, 7]]
     = (handle_all quiet_net [keepalive_frame, call_frame] (new_udpgw ()))\<lparr>ug_buf := [7]\<rparr>"
    by (rule udpgw_reassembles [OF wf]) (simp_all add: parse_None_iff call_stream [simplified] new_udpgw_def)
  moreover have "serialise_frame \<lparr>uf_flags = FLAG_KEEPALIVE, uf_conn_id = 5, uf_addr = None, uf_payload = []\<rparr>
     = [0, 3, 1, 0, 5]" by code_simp
  ultimately show ?thesis
    by (simp add: handle_frame_def keepalive_frame_def call_frame_def FLAG_KEEPALIVE_def FLAG_DATA_def
        new_udpgw_def queue_out_def get_or_create_socket_def quiet_net_def)
qed

end
