(* ===== verification/Tunnel_Node.thy ===== *)
theory Tunnel_Node
  imports Tunnel_Session Task_Table Replay_Registry Udpgw
begin

text \<open>
  The request handlers of the tunnel node (\<^verbatim>\<open>tunnel-node/src/main.rs\<close>): the session tables, the
  single-op and the batch endpoint with their two phases, and the reaper of idle sessions. Sessions are
  shared between the tables and the requests that work on them, so they live in a store and the tables
  hold addresses. Base64, JSON, gzip, zstd and BLAKE3 are fields of \<open>node_lib\<close>; what the network,
  the clock and the scheduler do during a request is a \<open>node_env\<close>. \<open>handle_batch\<close> runs one batch
  without other requests in between; \<open>node_step\<close> takes it apart into the steps that interleave in the
  source, of which \<open>handle_batch\<close> is one run. Shown: a batch has exactly one result per op, at the
  op's place; its downloads stay within the response budget and lose nothing; reader tasks and tables
  agree in every reachable state; which sessions the reaper takes; a batch sent twice is run once; and
  two ways in which a task outlives its session.
\<close>

section \<open>Requests and responses\<close>

definition CODE_UNSUPPORTED_OP :: string where "CODE_UNSUPPORTED_OP = ''UNSUPPORTED_OP''"
definition ACTIVE_DRAIN_DEADLINE :: nat where "ACTIVE_DRAIN_DEADLINE = 350"
definition LONGPOLL_DEADLINE :: nat where "LONGPOLL_DEADLINE = 4000"
definition CAP_ZSTD :: byte where "CAP_ZSTD = 1"
definition CAP_SAFE_BATCH_REPLAY :: byte where "CAP_SAFE_BATCH_REPLAY = 2"
definition SERVER_CAPABILITIES :: byte where "SERVER_CAPABILITIES = CAP_ZSTD OR CAP_SAFE_BATCH_REPLAY"

definition DECOY_404_BODY :: string where
  "DECOY_404_BODY =
     ''<html>'' @ [CHR 0x0D, CHR 0x0A] @ ''<head><title>404 Not Found</title></head>'' @ [CHR 0x0D, CHR 0x0A]
     @ ''<body>'' @ [CHR 0x0D, CHR 0x0A] @ ''<center><h1>404 Not Found</h1></center>'' @ [CHR 0x0D, CHR 0x0A]
     @ ''<hr><center>nginx</center>'' @ [CHR 0x0D, CHR 0x0A] @ ''</body>'' @ [CHR 0x0D, CHR 0x0A]
     @ ''</html>'' @ [CHR 0x0D, CHR 0x0A]"

record tunnel_request =
  rq_k :: string
  rq_op :: string
  rq_host :: "string option"
  rq_port :: "u16 option"
  rq_sid :: "string option"
  rq_data :: "string option"

record tunnel_response =
  tr_sid :: "string option"
  tr_d :: "string option"
  tr_pkts :: "string list option"
  tr_eof :: "bool option"
  tr_e :: "string option"
  tr_code :: "string option"
  tr_seq :: "u64 option"

definition error_response :: "string \<Rightarrow> tunnel_response" where
  "error_response msg = \<lparr>tr_sid = None, tr_d = None, tr_pkts = None, tr_eof = None, tr_e = Some msg,
     tr_code = None, tr_seq = None\<rparr>"

definition unsupported_op :: "string \<Rightarrow> tunnel_response" where
  "unsupported_op op = \<lparr>tr_sid = None, tr_d = None, tr_pkts = None, tr_eof = None,
     tr_e = Some (''unknown op: '' @ op), tr_code = Some CODE_UNSUPPORTED_OP, tr_seq = None\<rparr>"

definition eof_response :: "string \<Rightarrow> u64 option \<Rightarrow> tunnel_response" where
  "eof_response sid sq = \<lparr>tr_sid = Some sid, tr_d = None, tr_pkts = None, tr_eof = Some True, tr_e = None,
     tr_code = None, tr_seq = sq\<rparr>"

record batch_op =
  bo_op :: string
  bo_sid :: "string option"
  bo_host :: "string option"
  bo_port :: "u16 option"
  bo_d :: "string option"
  bo_seq :: "u64 option"
  bo_wseq :: "u64 option"

record batch_request =
  br_k :: string
  br_ops :: "batch_op list"
  br_zops :: "string option"
  br_zc :: "byte option"

text \<open>The JSON bodies a batch is answered with.\<close>

datatype batch_json =
    JResults "tunnel_response list"
  | JZr string byte
  | JResultsCaps "tunnel_response list" byte

record node_lib =
  nl_b64_decode :: "string \<Rightarrow> (bytes, string) result"
  nl_b64_encode :: "bytes \<Rightarrow> string"
  nl_gunzip :: "bytes \<Rightarrow> (bytes, string) result"
  nl_parse_batch :: "bytes \<Rightarrow> (batch_request, string) result"
  nl_parse_ops :: "bytes \<Rightarrow> (batch_op list, string) result"
  nl_zstd_decode :: "bytes \<Rightarrow> (bytes, string) result"
  nl_zstd_encode :: "bytes \<Rightarrow> bytes option"
  nl_ops_json :: "batch_op list \<Rightarrow> bytes option"
  nl_results_json :: "tunnel_response list \<Rightarrow> bytes"
  nl_json :: "batch_json \<Rightarrow> bytes"
  nl_response_json :: "tunnel_response \<Rightarrow> bytes"
  nl_blake3 :: "bytes \<Rightarrow> bytes"

definition tcp_drain_response :: "node_lib \<Rightarrow> string \<Rightarrow> bytes \<Rightarrow> bool \<Rightarrow> u64 option \<Rightarrow> tunnel_response" where
  "tcp_drain_response L sid data eof sq =
     \<lparr>tr_sid = Some sid, tr_d = (if data = [] then None else Some (nl_b64_encode L data)),
      tr_pkts = None, tr_eof = Some eof, tr_e = None, tr_code = None, tr_seq = sq\<rparr>"

definition udp_drain_response :: "node_lib \<Rightarrow> string \<Rightarrow> bytes list \<Rightarrow> bool \<Rightarrow> u64 option \<Rightarrow> tunnel_response" where
  "udp_drain_response L sid packets eof sq =
     \<lparr>tr_sid = Some sid, tr_d = None,
      tr_pkts = (if packets = [] then None else Some (map (nl_b64_encode L) packets)),
      tr_eof = Some eof, tr_e = None, tr_code = None, tr_seq = sq\<rparr>"

definition replay_fingerprint :: "node_lib \<Rightarrow> batch_op list \<Rightarrow> bool \<Rightarrow> fingerprint option" where
  "replay_fingerprint L ops compressed =
     (if ops = [] \<or> list_ex (\<lambda>op. bo_op op \<noteq> ''data''
            \<or> (case bo_sid op of None \<Rightarrow> True | Some s \<Rightarrow> s = [])
            \<or> bo_seq op = None
            \<or> ((case bo_d op of None \<Rightarrow> False | Some d \<Rightarrow> d \<noteq> []) \<and> bo_wseq op = None)) ops
      then None
      else case nl_ops_json L ops of
             None \<Rightarrow> None
           | Some canonical \<Rightarrow> Some (nl_blake3 L ((if compressed then 1 else 0) # canonical)))"

section \<open>The node and its surroundings\<close>

record node =
  nd_sessions :: "(string \<times> nat) list"
  nd_tcp :: "tcp_session list"
  nd_udp_sessions :: "(string \<times> nat) list"
  nd_udp :: "udp_session list"
  nd_auth_key :: string
  nd_diagnostic :: bool
  nd_replay :: replay_registry

text \<open>\<open>ne_uuid i\<close> is the session id drawn for op \<open>i\<close>; the two \<open>ne_open\<close> functions answer a dial (an
  error text or nothing), \<open>ne_write i\<close> the first write of op \<open>i\<close>; \<open>ne_join\<close> orders the
  finished connection jobs; the other fields say what the readers do while the batch waits and drains.\<close>

record node_env =
  ne_now :: nat
  ne_done :: nat
  ne_uuid :: "nat \<Rightarrow> string"
  ne_open_tcp :: "string \<Rightarrow> u16 \<Rightarrow> string option"
  ne_open_udp :: "string \<Rightarrow> u16 \<Rightarrow> string option"
  ne_write :: "nat \<Rightarrow> string option"
  ne_panics :: "nat \<Rightarrow> bool"
  ne_join :: "nat \<Rightarrow> nat"
  ne_wait_tcp :: "(nat \<times> bytes option) list"
  ne_wait_udp :: "(nat \<times> nat \<times> bytes option) list"
  ne_yield :: "nat \<Rightarrow> nat \<Rightarrow> bytes option list"
  ne_late :: "nat \<Rightarrow> nat \<Rightarrow> bool"
  ne_lag :: "nat \<Rightarrow> nat"

definition upd_tcp :: "nat \<Rightarrow> (tcp_session \<Rightarrow> tcp_session) \<Rightarrow> node \<Rightarrow> node" where
  "upd_tcp a f st = st\<lparr>nd_tcp := (nd_tcp st)[a := f (nd_tcp st ! a)]\<rparr>"

definition upd_udp :: "nat \<Rightarrow> (udp_session \<Rightarrow> udp_session) \<Rightarrow> node \<Rightarrow> node" where
  "upd_udp a f st = st\<lparr>nd_udp := (nd_udp st)[a := f (nd_udp st ! a)]\<rparr>"

definition insert_session :: "string \<Rightarrow> tcp_session \<Rightarrow> node \<Rightarrow> node" where
  "insert_session sid s st =
     st\<lparr>nd_sessions := AList.update sid (length (nd_tcp st)) (nd_sessions st), nd_tcp := nd_tcp st @ [s]\<rparr>"

definition insert_udp_session :: "string \<Rightarrow> udp_session \<Rightarrow> node \<Rightarrow> node" where
  "insert_udp_session sid s st =
     st\<lparr>nd_udp_sessions := AList.update sid (length (nd_udp st)) (nd_udp_sessions st), nd_udp := nd_udp st @ [s]\<rparr>"

text \<open>Removal from a table with what the caller does to the removed session.\<close>

definition remove_session :: "(tcp_session \<Rightarrow> tcp_session) \<Rightarrow> string \<Rightarrow> node \<Rightarrow> node" where
  "remove_session f sid st =
     (case map_of (nd_sessions st) sid of
        None \<Rightarrow> st
      | Some a \<Rightarrow> upd_tcp a f (st\<lparr>nd_sessions := AList.delete sid (nd_sessions st)\<rparr>))"

definition abort_udp_reader :: "udp_session \<Rightarrow> udp_session" where
  "abort_udp_reader s = s\<lparr>us_reader := False\<rparr>"

definition remove_udp_session :: "string \<Rightarrow> node \<Rightarrow> node" where
  "remove_udp_session sid st =
     (case map_of (nd_udp_sessions st) sid of
        None \<Rightarrow> st
      | Some a \<Rightarrow> upd_udp a abort_udp_reader (st\<lparr>nd_udp_sessions := AList.delete sid (nd_udp_sessions st)\<rparr>))"

section \<open>The operations\<close>

definition validate_host_port :: "string option \<Rightarrow> u16 option \<Rightarrow> (string \<times> u16, tunnel_response) result" where
  "validate_host_port host port =
     (case host of
        Some (c # h) \<Rightarrow>
          (case port of
             Some p \<Rightarrow> if p > 0 then Inr (c # h, p) else Inl (error_response ''missing or invalid port'')
           | None \<Rightarrow> Inl (error_response ''missing or invalid port''))
      | _ \<Rightarrow> Inl (error_response ''missing host''))"

text \<open>\<open>create_udpgw_session\<close> or \<open>create_session\<close>: a session, or the dial's error.\<close>

definition create_any_session :: "node_env \<Rightarrow> string \<Rightarrow> u16 \<Rightarrow> (tcp_session, string) result" where
  "create_any_session env host port =
     (if is_udpgw_dest host port then Inr (new_session (ne_now env) True)
      else case ne_open_tcp env host port of
             Some e \<Rightarrow> Inl e
           | None \<Rightarrow> Inr (new_session (ne_now env) False))"

definition handle_connect :: "node_env \<Rightarrow> nat \<Rightarrow> string option \<Rightarrow> u16 option \<Rightarrow> node \<Rightarrow> node \<times> tunnel_response" where
  "handle_connect env i host port st =
     (case validate_host_port host port of
        Inl r \<Rightarrow> (st, r)
      | Inr (h, p) \<Rightarrow>
          (case create_any_session env h p of
             Inl e \<Rightarrow> (st, error_response (''connect failed: '' @ e))
           | Inr s \<Rightarrow>
               (insert_session (ne_uuid env i) s st,
                \<lparr>tr_sid = Some (ne_uuid env i), tr_d = None, tr_pkts = None, tr_eof = Some False,
                 tr_e = None, tr_code = None, tr_seq = None\<rparr>)))"

text \<open>A session whose opening failed after the dial is aborted and never stored.\<close>

definition handle_connect_data_phase1 :: "node_lib \<Rightarrow> node_env \<Rightarrow> nat \<Rightarrow> string option \<Rightarrow> u16 option
    \<Rightarrow> string option \<Rightarrow> node \<Rightarrow> node \<times> (string \<times> nat, tunnel_response) result" where
  "handle_connect_data_phase1 L env i host port data st =
     (case validate_host_port host port of
        Inl r \<Rightarrow> (st, Inl r)
      | Inr (h, p) \<Rightarrow>
          (case create_any_session env h p of
             Inl e \<Rightarrow> (st, Inl (error_response (''connect failed: '' @ e)))
           | Inr s \<Rightarrow>
               let done = (\<lambda>s. (insert_session (ne_uuid env i) s st, Inr (ne_uuid env i, length (nd_tcp st)))) in
               (case data of
                  None \<Rightarrow> done s
                | Some d \<Rightarrow>
                    if d = [] then done s else
                    (case nl_b64_decode L d of
                       Inl e \<Rightarrow> (st, Inl (error_response (''bad base64: '' @ e)))
                     | Inr bs \<Rightarrow>
                         if bs = [] then done s else
                         (case ne_write env i of
                            Some e \<Rightarrow> (st, Inl (error_response (''write failed: '' @ e)))
                          | None \<Rightarrow> done (write_bytes bs s))))))"

definition handle_udp_open_phase1 :: "node_lib \<Rightarrow> node_env \<Rightarrow> nat \<Rightarrow> string option \<Rightarrow> u16 option
    \<Rightarrow> string option \<Rightarrow> node \<Rightarrow> node \<times> (string \<times> nat, tunnel_response) result" where
  "handle_udp_open_phase1 L env i host port data st =
     (case validate_host_port host port of
        Inl r \<Rightarrow> (st, Inl r)
      | Inr (h, p) \<Rightarrow>
          (case ne_open_udp env h p of
             Some e \<Rightarrow> (st, Inl (error_response (''udp connect failed: '' @ e)))
           | None \<Rightarrow>
               let s = new_udp_session (ne_now env);
                   done = (\<lambda>s. (insert_udp_session (ne_uuid env i) s st, Inr (ne_uuid env i, length (nd_udp st)))) in
               (case data of
                  None \<Rightarrow> done s
                | Some d \<Rightarrow>
                    if d = [] then done s else
                    (case nl_b64_decode L d of
                       Inl e \<Rightarrow> (st, Inl (error_response (''bad base64: '' @ e)))
                     | Inr bs \<Rightarrow>
                         if bs = [] then done s else
                         (case ne_write env i of
                            Some e \<Rightarrow> (st, Inl (error_response (''udp write failed: '' @ e)))
                          | None \<Rightarrow> done (udp_send bs s))))))"

definition handle_close :: "string option \<Rightarrow> node \<Rightarrow> node \<times> tunnel_response" where
  "handle_close sid st =
     (case sid of
        Some (c # s) \<Rightarrow>
          (remove_udp_session (c # s) (remove_session abort_all (c # s) st), eof_response (c # s) None)
      | _ \<Rightarrow> (st, error_response ''missing sid''))"

text \<open>The tail of both single-op handlers: wait for the answer, and forget a session that has ended.\<close>

definition drain_single :: "node_lib \<Rightarrow> node_env \<Rightarrow> string \<Rightarrow> nat \<Rightarrow> node \<Rightarrow> node \<times> tunnel_response" where
  "drain_single L env sid a st =
     (case wait_and_drain (ne_yield env 0) (ne_lag env) (ne_now env) 5000 (nd_tcp st ! a) of
        (s, data, eof) \<Rightarrow>
          let st1 = upd_tcp a (\<lambda>_. s) st in
          (if eof then remove_session abort_reader sid st1 else st1, tcp_drain_response L sid data eof None))"

definition handle_connect_data_single :: "node_lib \<Rightarrow> node_env \<Rightarrow> string option \<Rightarrow> u16 option \<Rightarrow> string option
    \<Rightarrow> node \<Rightarrow> node \<times> tunnel_response" where
  "handle_connect_data_single L env host port data st =
     (case handle_connect_data_phase1 L env 0 host port data st of
        (st1, Inl r) \<Rightarrow> (st1, r)
      | (st1, Inr (sid, a)) \<Rightarrow> drain_single L env sid a st1)"

definition handle_data_single :: "node_lib \<Rightarrow> node_env \<Rightarrow> string option \<Rightarrow> string option
    \<Rightarrow> node \<Rightarrow> node \<times> tunnel_response" where
  "handle_data_single L env sid data st =
     (case sid of
        Some (c # s) \<Rightarrow>
          (case map_of (nd_sessions st) (c # s) of
             None \<Rightarrow> (st, error_response ''unknown session'')
           | Some a \<Rightarrow>
               let st1 = upd_tcp a (\<lambda>x. x\<lparr>ts_last_active := ne_now env\<rparr>) st;
                   bs = (case data of None \<Rightarrow> [] | Some d \<Rightarrow> if d = [] then [] else
                           (case nl_b64_decode L d of Inl _ \<Rightarrow> [] | Inr bs \<Rightarrow> bs)) in
               if bs = [] then drain_single L env (c # s) a st1 else
               (case ne_write env 0 of
                  Some e \<Rightarrow> (remove_session id (c # s) (upd_tcp a (write_bytes bs) st1),
                              error_response (''write failed: '' @ e))
                | None \<Rightarrow> drain_single L env (c # s) a (upd_tcp a (write_bytes bs) st1)))
      | _ \<Rightarrow> (st, error_response ''missing sid''))"

record node_reply =
  rp_status :: nat
  rp_type :: string
  rp_body :: bytes

definition json_reply :: "bytes \<Rightarrow> node_reply" where
  "json_reply body = \<lparr>rp_status = 200, rp_type = ''application/json'', rp_body = body\<rparr>"

definition decoy_reply :: node_reply where
  "decoy_reply = \<lparr>rp_status = 404, rp_type = ''text/html'', rp_body = map (of_nat \<circ> of_char) DECOY_404_BODY\<rparr>"

definition decoy_or_unauthorized :: "node_lib \<Rightarrow> bool \<Rightarrow> node_reply" where
  "decoy_or_unauthorized L diagnostic =
     (if diagnostic then json_reply (nl_response_json L (error_response ''unauthorized'')) else decoy_reply)"

definition handle_tunnel :: "node_lib \<Rightarrow> node_env \<Rightarrow> tunnel_request \<Rightarrow> node \<Rightarrow> node \<times> node_reply" where
  "handle_tunnel L env rq st =
     (if rq_k rq \<noteq> nd_auth_key st then (st, decoy_or_unauthorized L (nd_diagnostic st))
      else
        (case (if rq_op rq = ''connect'' then handle_connect env 0 (rq_host rq) (rq_port rq) st
               else if rq_op rq = ''connect_data''
               then handle_connect_data_single L env (rq_host rq) (rq_port rq) (rq_data rq) st
               else if rq_op rq = ''data'' then handle_data_single L env (rq_sid rq) (rq_data rq) st
               else if rq_op rq = ''close'' then handle_close (rq_sid rq) st
               else (st, unsupported_op (rq_op rq))) of
           (st', r) \<Rightarrow> (st', json_reply (nl_response_json L r))))"

section \<open>Phase 1 of a batch\<close>

datatype conn_job =
    JobConnect "string option" "u16 option"
  | JobConnectData "string option" "u16 option" "string option"
  | JobUdpOpen "string option" "u16 option" "string option"

type_synonym drain_entry = "nat \<times> string \<times> nat \<times> u64 option"

record batch_acc =
  ba_results :: "(nat \<times> tunnel_response) list"
  ba_tcp :: "drain_entry list"
  ba_udp :: "drain_entry list"
  ba_active :: bool
  ba_jobs :: "(nat \<times> conn_job) list"

definition new_acc :: batch_acc where
  "new_acc = \<lparr>ba_results = [], ba_tcp = [], ba_udp = [], ba_active = False, ba_jobs = []\<rparr>"

definition push_result :: "nat \<Rightarrow> tunnel_response \<Rightarrow> batch_acc \<Rightarrow> batch_acc" where
  "push_result i r acc = acc\<lparr>ba_results := ba_results acc @ [(i, r)]\<rparr>"

definition push_tcp :: "drain_entry \<Rightarrow> batch_acc \<Rightarrow> batch_acc" where
  "push_tcp e acc = acc\<lparr>ba_tcp := ba_tcp acc @ [e]\<rparr>"

definition push_udp :: "drain_entry \<Rightarrow> batch_acc \<Rightarrow> batch_acc" where
  "push_udp e acc = acc\<lparr>ba_udp := ba_udp acc @ [e]\<rparr>"

definition spawn_job :: "nat \<Rightarrow> conn_job \<Rightarrow> bool \<Rightarrow> batch_acc \<Rightarrow> batch_acc" where
  "spawn_job i j active acc = acc\<lparr>ba_jobs := ba_jobs acc @ [(i, j)], ba_active := ba_active acc \<or> active\<rparr>"

text \<open>The \<open>data\<close> op on a known session.\<close>

definition batch_data :: "node_lib \<Rightarrow> node_env \<Rightarrow> nat \<Rightarrow> batch_op \<Rightarrow> string \<Rightarrow> nat \<Rightarrow> node \<times> batch_acc \<Rightarrow> node \<times> batch_acc" where
  "batch_data L env i op sid a = (\<lambda>(st, acc).
     let st1 = upd_tcp a (\<lambda>s. s\<lparr>ts_last_active := ne_now env\<rparr>) st;
         entry = (i, sid, a, bo_seq op) in
     case (case bo_d op of None \<Rightarrow> Inr [] | Some d \<Rightarrow> if d = [] then Inr [] else nl_b64_decode L d) of
       Inl e \<Rightarrow> (st1, push_result i (error_response (''bad base64: '' @ e)) acc)
     | Inr bs \<Rightarrow>
         if bs = [] then (st1, push_tcp entry acc)
         else let acc1 = acc\<lparr>ba_active := True\<rparr> in
           (case bo_wseq op of
              None \<Rightarrow> (upd_tcp a (write_bytes bs) st1, push_tcp entry acc1)
            | Some w \<Rightarrow>
                (case wseq_write w bs (nd_tcp st1 ! a) of
                   Some s' \<Rightarrow> (upd_tcp a (\<lambda>_. s') st1, push_tcp entry acc1)
                 | None \<Rightarrow>
                     (remove_session abort_reader sid st1,
                      push_result i (error_response ''wseq buffer cap exceeded'') acc1))))"

definition batch_udp_data :: "node_lib \<Rightarrow> node_env \<Rightarrow> nat \<Rightarrow> batch_op \<Rightarrow> string \<Rightarrow> nat \<Rightarrow> node \<times> batch_acc \<Rightarrow> node \<times> batch_acc" where
  "batch_udp_data L env i op sid a = (\<lambda>(st, acc).
     let touch = upd_udp a (\<lambda>s. s\<lparr>us_last_active := ne_now env\<rparr>);
         entry = (i, sid, a, bo_seq op) in
     case (case bo_d op of None \<Rightarrow> Inr [] | Some d \<Rightarrow> if d = [] then Inr [] else nl_b64_decode L d) of
       Inl e \<Rightarrow> (st, push_result i (error_response (''bad base64: '' @ e)) acc)
     | Inr bs \<Rightarrow>
         if bs = [] then (touch st, push_udp entry acc)
         else (touch (upd_udp a (udp_send bs) st), push_udp entry (acc\<lparr>ba_active := True\<rparr>)))"

definition phase1_op :: "node_lib \<Rightarrow> node_env \<Rightarrow> nat \<times> batch_op \<Rightarrow> node \<times> batch_acc \<Rightarrow> node \<times> batch_acc" where
  "phase1_op L env = (\<lambda>(i, op) (st, acc).
     if bo_op op = ''connect'' then (st, spawn_job i (JobConnect (bo_host op) (bo_port op)) True acc)
     else if bo_op op = ''connect_data''
     then (st, spawn_job i (JobConnectData (bo_host op) (bo_port op) (bo_d op)) True acc)
     else if bo_op op = ''udp_open''
     then (st, spawn_job i (JobUdpOpen (bo_host op) (bo_port op) (bo_d op))
                 (case bo_d op of None \<Rightarrow> False | Some d \<Rightarrow> d \<noteq> []) acc)
     else if bo_op op = ''data'' then
       (case bo_sid op of
          Some (c # s) \<Rightarrow>
            (case map_of (nd_sessions st) (c # s) of
               Some a \<Rightarrow> batch_data L env i op (c # s) a (st, acc)
             | None \<Rightarrow> (st, push_result i (eof_response (c # s) (bo_seq op)) acc))
        | _ \<Rightarrow> (st, push_result i (error_response ''missing sid'') acc))
     else if bo_op op = ''udp_data'' then
       (case bo_sid op of
          Some (c # s) \<Rightarrow>
            (case map_of (nd_udp_sessions st) (c # s) of
               Some a \<Rightarrow> batch_udp_data L env i op (c # s) a (st, acc)
             | None \<Rightarrow> (st, push_result i (eof_response (c # s) (bo_seq op)) acc))
        | _ \<Rightarrow> (st, push_result i (error_response ''missing sid'') acc))
     else if bo_op op = ''close'' then
       (case handle_close (bo_sid op) st of (st', r) \<Rightarrow> (st', push_result i r acc))
     else (st, push_result i (unsupported_op (bo_op op)) acc))"

text \<open>A connection job that has finished; a panicked one leaves no trace.\<close>

definition join_job :: "node_lib \<Rightarrow> node_env \<Rightarrow> nat \<times> conn_job \<Rightarrow> node \<times> batch_acc \<Rightarrow> node \<times> batch_acc" where
  "join_job L env = (\<lambda>(i, j) (st, acc).
     if ne_panics env i then (st, acc) else
     case j of
       JobConnect host port \<Rightarrow>
         (case handle_connect env i host port st of (st', r) \<Rightarrow> (st', push_result i r acc))
     | JobConnectData host port d \<Rightarrow>
         (case handle_connect_data_phase1 L env i host port d st of
            (st', Inr (sid, a)) \<Rightarrow> (st', push_tcp (i, sid, a, None) acc)
          | (st', Inl r) \<Rightarrow> (st', push_result i r acc))
     | JobUdpOpen host port d \<Rightarrow>
         (case handle_udp_open_phase1 L env i host port d st of
            (st', Inr (sid, a)) \<Rightarrow> (st', push_udp (i, sid, a, None) acc)
          | (st', Inl r) \<Rightarrow> (st', push_result i r acc)))"

definition phase1 :: "node_lib \<Rightarrow> node_env \<Rightarrow> batch_op list \<Rightarrow> node \<Rightarrow> node \<times> batch_acc" where
  "phase1 L env ops st =
     (case fold (phase1_op L env) (zip [0..<length ops] ops) (st, new_acc) of
        (st1, acc) \<Rightarrow> fold (join_job L env) (sort_key (ne_join env \<circ> fst) (ba_jobs acc)) (st1, acc))"

section \<open>Phase 2 of a batch\<close>

definition drain_deadline :: "bool \<Rightarrow> nat" where
  "drain_deadline active = (if active then ACTIVE_DRAIN_DEADLINE else LONGPOLL_DEADLINE)"

text \<open>What the readers do while the batch waits for its deadline or the first bytes.\<close>

definition wait_phase :: "node_env \<Rightarrow> node \<Rightarrow> node" where
  "wait_phase env st =
     fold (\<lambda>(a, now, r). upd_udp a (udp_reader_task now r)) (ne_wait_udp env)
       (fold (\<lambda>(a, r). upd_tcp a (reader_task r)) (ne_wait_tcp env) st)"

type_synonym drained = "nat \<times> string \<times> bytes \<times> bool \<times> u64 option"

fun tcp_drain_pass :: "node_env \<Rightarrow> nat \<Rightarrow> drain_entry list \<Rightarrow> node \<Rightarrow> node \<times> drained list" where
  "tcp_drain_pass env budget [] st = (st, [])"
| "tcp_drain_pass env budget ((i, sid, a, sq) # drains) st =
     (if budget = 0 then
        (case tcp_drain_pass env budget drains st of (st', out) \<Rightarrow> (st', (i, sid, [], False, sq) # out))
      else
        (case drain_loop (ne_yield env i) (ne_late env i) 0 budget [] False (nd_tcp st ! a) of
           (s, data, eof) \<Rightarrow>
             (case tcp_drain_pass env (budget - length data) drains (upd_tcp a (\<lambda>_. s) st) of
                (st', out) \<Rightarrow> (st', (i, sid, data, eof, sq) # out))))"

fun udp_drain_pass :: "drain_entry list \<Rightarrow> node \<Rightarrow> node \<times> (nat \<times> string \<times> bytes list \<times> bool \<times> u64 option) list" where
  "udp_drain_pass [] st = (st, [])"
| "udp_drain_pass ((i, sid, a, sq) # drains) st =
     (case drain_udp_now (nd_udp st ! a) of
        (s, packets, eof) \<Rightarrow>
          (case udp_drain_pass drains (upd_udp a (\<lambda>_. s) st) of
             (st', out) \<Rightarrow> (st', (i, sid, packets, eof, sq) # out)))"

definition phase2 :: "node_lib \<Rightarrow> node_env \<Rightarrow> node \<times> batch_acc \<Rightarrow> node \<times> (nat \<times> tunnel_response) list" where
  "phase2 L env = (\<lambda>(st, acc).
     if ba_tcp acc = [] \<and> ba_udp acc = [] then (st, ba_results acc)
     else
       (case tcp_drain_pass env BATCH_RESPONSE_BUDGET (ba_tcp acc) (wait_phase env st) of
          (st1, tcp) \<Rightarrow>
            let st2 = fold (remove_session abort_reader) (map (fst \<circ> snd) (filter (\<lambda>(_, _, _, eof, _). eof) tcp)) st1 in
            (case udp_drain_pass (ba_udp acc) st2 of
               (st3, udp) \<Rightarrow>
                 (fold remove_udp_session (map (fst \<circ> snd) (filter (\<lambda>(_, _, _, eof, _). eof) udp)) st3,
                  ba_results acc
                  @ map (\<lambda>(i, sid, data, eof, sq). (i, tcp_drain_response L sid data eof sq)) tcp
                  @ map (\<lambda>(i, sid, packets, eof, sq). (i, udp_drain_response L sid packets eof sq)) udp))))"

definition batch_execute :: "node_lib \<Rightarrow> node_env \<Rightarrow> batch_op list \<Rightarrow> node \<Rightarrow> node \<times> tunnel_response list" where
  "batch_execute L env ops st =
     (case phase2 L env (phase1 L env ops st) of (st', results) \<Rightarrow> (st', map snd (sort_key fst results)))"

section \<open>The batch endpoint\<close>

definition batch_error :: "node_lib \<Rightarrow> string \<Rightarrow> node_reply" where
  "batch_error L msg = json_reply (nl_json L (JResults [error_response msg]))"

text \<open>Everything before the replay registry is asked: unpacking, parsing, the key, the compressed ops.\<close>

definition batch_prepare :: "node_lib \<Rightarrow> node \<Rightarrow> bytes \<Rightarrow> (batch_op list \<times> bool, node_reply) result" where
  "batch_prepare L st body =
     (case (if take 2 body = [0x1f, 0x8b] then nl_gunzip L body else Inr body) of
        Inl e \<Rightarrow> Inl (batch_error L (''gzip decode: '' @ e))
      | Inr json_bytes \<Rightarrow>
          (case nl_parse_batch L json_bytes of
             Inl e \<Rightarrow> Inl (batch_error L (''bad json: '' @ e))
           | Inr rq \<Rightarrow>
               if br_k rq \<noteq> nd_auth_key st then
                 Inl (if nd_diagnostic st then batch_error L ''unauthorized'' else decoy_reply)
               else
                 let client_zstd = (br_zops rq \<noteq> None \<or>
                       (case br_zc rq of None \<Rightarrow> False | Some caps \<Rightarrow> caps AND CAP_ZSTD \<noteq> 0)) in
                 (case br_zops rq of
                    None \<Rightarrow> Inr (br_ops rq, client_zstd)
                  | Some z \<Rightarrow>
                      (case nl_b64_decode L z of
                         Inl e \<Rightarrow> Inl (batch_error L (''zops b64: '' @ e))
                       | Inr compressed \<Rightarrow>
                           (case nl_zstd_decode L compressed of
                              Inl e \<Rightarrow> Inl (batch_error L (''zstd decode: '' @ e))
                            | Inr plain \<Rightarrow>
                                (case nl_parse_ops L plain of
                                   Inl e \<Rightarrow> Inl (batch_error L (''zops json: '' @ e))
                                 | Inr ops \<Rightarrow> Inr (ops, client_zstd)))))))"

definition batch_body :: "node_lib \<Rightarrow> bool \<Rightarrow> tunnel_response list \<Rightarrow> bytes" where
  "batch_body L client_zstd rs =
     (if client_zstd then
        (case nl_zstd_encode L (nl_results_json L rs) of
           Some compressed \<Rightarrow> nl_json L (JZr (nl_b64_encode L compressed) SERVER_CAPABILITIES)
         | None \<Rightarrow> nl_json L (JResultsCaps rs SERVER_CAPABILITIES))
      else nl_json L (JResultsCaps rs SERVER_CAPABILITIES))"

text \<open>The handler answers, or waits on the channel of a batch that is running; \<open>replay_wait\<close> is what it
  answers when that channel brings a body, or nothing within the time.\<close>

datatype batch_outcome =
    Replied node_reply
  | Waits nat

definition replay_wait :: "node_lib \<Rightarrow> bytes option \<Rightarrow> node_reply" where
  "replay_wait L sent =
     (case sent of Some body \<Rightarrow> json_reply body | None \<Rightarrow> batch_error L ''replay owner cancelled'')"

text \<open>The handler in three parts. It begins with the request and the registry, under the registry's
  lock: the batch is answered, or waits, or is to be run. Then it runs, and then it is completed in the
  registry. Other requests, the readers and the reaper work between these parts and between the ops and
  drains of the run.\<close>

datatype batch_start =
    Answered node_reply
  | Waiting nat
  | Running "batch_op list" bool "fingerprint option"

definition batch_begin :: "node_lib \<Rightarrow> nat \<Rightarrow> bytes \<Rightarrow> node \<Rightarrow> node \<times> batch_start" where
  "batch_begin L now body st =
     (case batch_prepare L st body of
        Inl reply \<Rightarrow> (st, Answered reply)
      | Inr (ops, client_zstd) \<Rightarrow>
          (case replay_fingerprint L ops client_zstd of
             None \<Rightarrow> (st, Running ops client_zstd None)
           | Some key \<Rightarrow>
               (case claim now key (nd_replay st) of
                  (reg, ClHit stored) \<Rightarrow> (st\<lparr>nd_replay := reg\<rparr>, Answered (json_reply stored))
                | (reg, ClWait c) \<Rightarrow> (st\<lparr>nd_replay := reg\<rparr>, Waiting c)
                | (reg, ClOwner c) \<Rightarrow> (st\<lparr>nd_replay := reg\<rparr>, Running ops client_zstd (Some key)))))"

definition batch_finish :: "node_lib \<Rightarrow> nat \<Rightarrow> bool \<Rightarrow> fingerprint option \<Rightarrow> tunnel_response list
    \<Rightarrow> node \<Rightarrow> node \<times> node_reply" where
  "batch_finish L now client_zstd replay_key rs st =
     (let json = batch_body L client_zstd rs in
      (case replay_key of
         None \<Rightarrow> st
       | Some key \<Rightarrow> st\<lparr>nd_replay := fst (complete now key json (nd_replay st))\<rparr>,
       json_reply json))"

definition handle_batch :: "node_lib \<Rightarrow> node_env \<Rightarrow> bytes \<Rightarrow> node \<Rightarrow> node \<times> batch_outcome" where
  "handle_batch L env body st =
     (case batch_begin L (ne_now env) body st of
        (st1, Answered reply) \<Rightarrow> (st1, Replied reply)
      | (st1, Waiting c) \<Rightarrow> (st1, Waits c)
      | (st1, Running ops client_zstd replay_key) \<Rightarrow>
          (case batch_execute L env ops st1 of
             (st2, rs) \<Rightarrow>
               (case batch_finish L (ne_done env) client_zstd replay_key rs st2 of
                  (st3, reply) \<Rightarrow> (st3, Replied reply))))"

section \<open>The reaper\<close>

definition stale_sids :: "nat \<Rightarrow> nat \<Rightarrow> (nat \<Rightarrow> nat) \<Rightarrow> (string \<times> nat) list \<Rightarrow> string list" where
  "stale_sids now limit seen table = map fst (filter (\<lambda>(_, a). now - seen a > limit) table)"

definition cleanup :: "nat \<Rightarrow> node \<Rightarrow> node" where
  "cleanup now st =
     (let st1 = fold (remove_session abort_all)
                  (stale_sids now 300000 (\<lambda>a. ts_last_active (nd_tcp st ! a)) (nd_sessions st)) st in
      fold remove_udp_session
        (stale_sids now 120000 (\<lambda>a. us_last_active (nd_udp st1 ! a)) (nd_udp_sessions st1)) st1)"

section \<open>One result per op\<close>

text \<open>What a result must say to belong to op \<open>i\<close>: an error, the session opened for it, or the session
  it names with its own sequence number.\<close>

definition answers :: "node_env \<Rightarrow> nat \<Rightarrow> batch_op \<Rightarrow> tunnel_response \<Rightarrow> bool" where
  "answers env i op r \<longleftrightarrow> tr_e r \<noteq> None \<or>
     (if bo_op op \<in> {''connect'', ''connect_data'', ''udp_open''} then tr_sid r = Some (ne_uuid env i)
      else tr_sid r = bo_sid op \<and> (bo_op op = ''close'' \<or> tr_seq r = bo_seq op))"

definition acc_indices :: "batch_acc \<Rightarrow> nat list" where
  "acc_indices acc = map fst (ba_results acc) @ map fst (ba_tcp acc) @ map fst (ba_udp acc)"

definition acc_ok :: "node_env \<Rightarrow> batch_op list \<Rightarrow> batch_acc \<Rightarrow> bool" where
  "acc_ok env ops acc \<longleftrightarrow>
     (\<forall>(i, r)\<in>set (ba_results acc). answers env i (ops ! i) r) \<and>
     (\<forall>(i, sid, a, sq)\<in>set (ba_tcp acc) \<union> set (ba_udp acc). answers env i (ops ! i) (eof_response sid sq)) \<and>
     (\<forall>(i, j)\<in>set (ba_jobs acc). bo_op (ops ! i) \<in> {''connect'', ''connect_data'', ''udp_open''})"

lemmas acc_defs = push_result_def push_tcp_def push_udp_def spawn_job_def acc_indices_def acc_ok_def

lemma answers_error [simp]: "answers env i op (error_response m)" "answers env i op (unsupported_op m)"
  by (simp_all add: answers_def error_response_def unsupported_op_def)

lemma answers_drain:
  "answers env i op (tcp_drain_response L sid data eof sq) \<longleftrightarrow> answers env i op (eof_response sid sq)"
  "answers env i op (udp_drain_response L sid packets eof sq) \<longleftrightarrow> answers env i op (eof_response sid sq)"
  by (simp_all add: answers_def tcp_drain_response_def udp_drain_response_def eof_response_def)

lemma answers_close: "handle_close sid st = (st', r) \<Longrightarrow> bo_sid op = sid \<Longrightarrow> bo_op op = ''close'' \<Longrightarrow> answers env i op r"
  by (auto simp: handle_close_def answers_def eof_response_def error_response_def split: option.splits list.splits)

lemma acc_push [simp]:
  "acc_ok env ops acc \<Longrightarrow> answers env i (ops ! i) r \<Longrightarrow> acc_ok env ops (push_result i r acc)"
  "acc_ok env ops acc \<Longrightarrow> answers env i (ops ! i) (eof_response sid sq) \<Longrightarrow> acc_ok env ops (push_tcp (i, sid, a, sq) acc)"
  "acc_ok env ops acc \<Longrightarrow> answers env i (ops ! i) (eof_response sid sq) \<Longrightarrow> acc_ok env ops (push_udp (i, sid, a, sq) acc)"
  "acc_ok env ops (acc\<lparr>ba_active := b\<rparr>) = acc_ok env ops acc"
  by (auto simp: acc_defs)

lemma indices_push [simp]:
  "mset (acc_indices (push_result i r acc)) = add_mset i (mset (acc_indices acc))"
  "mset (acc_indices (push_tcp (i, e) acc)) = add_mset i (mset (acc_indices acc))"
  "mset (acc_indices (push_udp (i, e) acc)) = add_mset i (mset (acc_indices acc))"
  "acc_indices (acc\<lparr>ba_active := b\<rparr>) = acc_indices acc" "acc_indices (spawn_job i j b acc) = acc_indices acc"
  by (auto simp: acc_defs)

lemma jobs_push [simp]:
  "ba_jobs (push_result i r acc) = ba_jobs acc" "ba_jobs (push_tcp e acc) = ba_jobs acc"
  "ba_jobs (push_udp e acc) = ba_jobs acc" "ba_jobs (spawn_job i j b acc) = ba_jobs acc @ [(i, j)]"
  by (simp_all add: acc_defs)

lemma batch_data_acc:
  assumes "batch_data L env i op sid a (st, acc) = (st', acc')" "acc_ok env ops acc" "op = ops ! i"
    "bo_op op = ''data''" "bo_sid op = Some sid"
  shows "acc_ok env ops acc' \<and> mset (acc_indices acc') = add_mset i (mset (acc_indices acc)) \<and> ba_jobs acc' = ba_jobs acc"
proof -
  have "answers env i (ops ! i) (eof_response sid (bo_seq op))" using assms(3-5) by (auto simp: answers_def eof_response_def)
  with assms show ?thesis
    by (auto simp: batch_data_def Let_def split: sum.splits if_splits option.splits)
qed

lemma batch_udp_data_acc:
  assumes "batch_udp_data L env i op sid a (st, acc) = (st', acc')" "acc_ok env ops acc" "op = ops ! i"
    "bo_op op = ''udp_data''" "bo_sid op = Some sid"
  shows "acc_ok env ops acc' \<and> mset (acc_indices acc') = add_mset i (mset (acc_indices acc)) \<and> ba_jobs acc' = ba_jobs acc"
proof -
  have "answers env i (ops ! i) (eof_response sid (bo_seq op))" using assms(3-5) by (auto simp: answers_def eof_response_def)
  with assms show ?thesis
    by (auto simp: batch_udp_data_def Let_def split: sum.splits if_splits option.splits)
qed

lemma spawn_acc: "acc_ok env ops acc \<Longrightarrow> bo_op (ops ! i) \<in> {''connect'', ''connect_data'', ''udp_open''} \<Longrightarrow>
    acc_ok env ops (spawn_job i j b acc)"
  by (auto simp: acc_defs)

lemma answers_eof: "bo_sid op = Some sid \<Longrightarrow> bo_op op \<in> {''data'', ''udp_data''} \<Longrightarrow>
    answers env i op (eof_response sid (bo_seq op))"
  by (auto simp: answers_def eof_response_def)

lemma phase1_op_acc:
  assumes "phase1_op L env (i, ops ! i) (st, acc) = (st', acc')" "acc_ok env ops acc"
  shows "acc_ok env ops acc' \<and>
    mset (acc_indices acc') + mset (map fst (ba_jobs acc')) =
      add_mset i (mset (acc_indices acc) + mset (map fst (ba_jobs acc)))"
proof -
  let ?op = "ops ! i"
  consider "bo_op ?op \<in> {''connect'', ''connect_data'', ''udp_open''}" | "bo_op ?op = ''data''"
    | "bo_op ?op = ''udp_data''" | "bo_op ?op = ''close''"
    | "bo_op ?op \<notin> {''connect'', ''connect_data'', ''udp_open'', ''data'', ''udp_data'', ''close''}" by blast
  then show ?thesis
  proof cases
    case 1
    then obtain j b where "acc' = spawn_job i j b acc" using assms(1) by (auto simp: phase1_op_def)
    with 1 assms(2) show ?thesis by (simp add: spawn_acc)
  next
    case 2
    with assms show ?thesis
      by (auto simp: phase1_op_def answers_eof split: option.splits list.splits dest!: batch_data_acc)
  next
    case 3
    with assms show ?thesis
      by (auto simp: phase1_op_def answers_eof split: option.splits list.splits dest!: batch_udp_data_acc)
  next
    case 4
    with assms show ?thesis by (auto simp: phase1_op_def answers_close split: prod.splits)
  next
    case 5
    with assms show ?thesis by (auto simp: phase1_op_def)
  qed
qed

lemma phase1_ops_acc:
  assumes "fold (phase1_op L env) (map (\<lambda>i. (i, ops ! i)) ks) (st, acc) = (st', acc')" "acc_ok env ops acc"
  shows "acc_ok env ops acc' \<and>
    mset (acc_indices acc') + mset (map fst (ba_jobs acc')) =
      mset ks + (mset (acc_indices acc) + mset (map fst (ba_jobs acc)))"
  using assms
proof (induction ks arbitrary: st acc)
  case (Cons k ks)
  obtain st1 acc1 where one: "phase1_op L env (k, ops ! k) (st, acc) = (st1, acc1)" by force
  from phase1_op_acc [OF one Cons.prems(2)] Cons.IH [of st1 acc1] Cons.prems(1) one show ?case by simp
qed simp

lemma join_job_acc:
  assumes "join_job L env (i, j) (st, acc) = (st', acc')" "acc_ok env ops acc" "\<not> ne_panics env i"
    "bo_op (ops ! i) \<in> {''connect'', ''connect_data'', ''udp_open''}"
  shows "acc_ok env ops acc' \<and> mset (acc_indices acc') = add_mset i (mset (acc_indices acc))"
proof (cases j)
  case (JobConnect host port)
  have "answers env i (ops ! i) r" if "handle_connect env i host port st = (st1, r)" for st1 r
    using that assms(4)
    by (auto simp: handle_connect_def answers_def error_response_def validate_host_port_def
        split: sum.splits option.splits list.splits if_splits)
  with JobConnect assms show ?thesis by (auto simp: join_job_def split: prod.splits)
next
  case (JobConnectData host port d)
  have r: "case x of Inl r \<Rightarrow> answers env i (ops ! i) r | Inr (sid, a) \<Rightarrow> answers env i (ops ! i) (eof_response sid None)"
    if "handle_connect_data_phase1 L env i host port d st = (st1, x)" for st1 x
    using that assms(4)
    by (auto simp: handle_connect_data_phase1_def answers_def eof_response_def error_response_def validate_host_port_def Let_def
        split: sum.splits option.splits list.splits if_splits)
  from r JobConnectData assms show ?thesis by (auto simp: join_job_def split: prod.splits sum.splits)
next
  case (JobUdpOpen host port d)
  have r: "case x of Inl r \<Rightarrow> answers env i (ops ! i) r | Inr (sid, a) \<Rightarrow> answers env i (ops ! i) (eof_response sid None)"
    if "handle_udp_open_phase1 L env i host port d st = (st1, x)" for st1 x
    using that assms(4)
    by (auto simp: handle_udp_open_phase1_def answers_def eof_response_def error_response_def validate_host_port_def Let_def
        split: sum.splits option.splits list.splits if_splits)
  from r JobUdpOpen assms show ?thesis by (auto simp: join_job_def split: prod.splits sum.splits)
qed

lemma join_jobs_acc:
  assumes "fold (join_job L env) jobs (st, acc) = (st', acc')" "acc_ok env ops acc" "\<forall>i. \<not> ne_panics env i"
    "\<forall>(i, j)\<in>set jobs. bo_op (ops ! i) \<in> {''connect'', ''connect_data'', ''udp_open''}"
  shows "acc_ok env ops acc' \<and> mset (acc_indices acc') = mset (map fst jobs) + mset (acc_indices acc)"
  using assms
proof (induction jobs arbitrary: st acc)
  case (Cons ij jobs)
  obtain i j where ij: "ij = (i, j)" by force
  obtain st1 acc1 where one: "join_job L env (i, j) (st, acc) = (st1, acc1)" by force
  have "bo_op (ops ! i) \<in> {''connect'', ''connect_data'', ''udp_open''}" using Cons.prems(4) ij by auto
  from join_job_acc [OF one Cons.prems(2) _ this] Cons.prems Cons.IH [of st1 acc1] ij one show ?case by auto
qed simp

lemma tcp_pass_entries:
  "tcp_drain_pass env budget drains st = (st', out) \<Longrightarrow>
     map (\<lambda>(i, sid, data, eof, sq). (i, sid, sq)) out = map (\<lambda>(i, sid, a, sq). (i, sid, sq)) drains"
  by (induction env budget drains st arbitrary: st' out rule: tcp_drain_pass.induct)
     (auto split: if_splits prod.splits)

lemma udp_pass_entries:
  "udp_drain_pass drains st = (st', out) \<Longrightarrow>
     map (\<lambda>(i, sid, packets, eof, sq). (i, sid, sq)) out = map (\<lambda>(i, sid, a, sq). (i, sid, sq)) drains"
  by (induction drains st arbitrary: st' out rule: udp_drain_pass.induct) (auto split: prod.splits)

lemma map_eq_transfer:
  assumes "map f xs = map g ys" "\<forall>y\<in>set ys. P (g y)"
  shows "\<forall>x\<in>set xs. P (f x)"
  using assms by (metis (no_types, lifting) image_iff list.set_map)

lemma phase2_results:
  assumes "phase2 L env (st, acc) = (st', results)" "acc_ok env ops acc"
  shows "(\<forall>(i, r)\<in>set results. answers env i (ops ! i) r) \<and> mset (map fst results) = mset (acc_indices acc)"
proof (cases "ba_tcp acc = [] \<and> ba_udp acc = []")
  case True
  with assms show ?thesis by (simp add: phase2_def acc_indices_def acc_ok_def)
next
  case False
  obtain st1 tcp where t: "tcp_drain_pass env BATCH_RESPONSE_BUDGET (ba_tcp acc) (wait_phase env st) = (st1, tcp)" by force
  let ?st2 = "fold (remove_session abort_reader) (map (fst \<circ> snd) (filter (\<lambda>(_, _, _, eof, _). eof) tcp)) st1"
  obtain st3 udp where u: "udp_drain_pass (ba_udp acc) ?st2 = (st3, udp)" by force
  have res: "results = ba_results acc
      @ map (\<lambda>(i, sid, data, eof, sq). (i, tcp_drain_response L sid data eof sq)) tcp
      @ map (\<lambda>(i, sid, packets, eof, sq). (i, udp_drain_response L sid packets eof sq)) udp"
    using assms(1) False t u by (auto simp: phase2_def Let_def)
  have "\<forall>y\<in>set (ba_tcp acc). (\<lambda>(i, sid, sq). answers env i (ops ! i) (eof_response sid sq)) ((\<lambda>(i, sid, a, sq). (i, sid, sq)) y)"
    "\<forall>y\<in>set (ba_udp acc). (\<lambda>(i, sid, sq). answers env i (ops ! i) (eof_response sid sq)) ((\<lambda>(i, sid, a, sq). (i, sid, sq)) y)"
    using assms(2) unfolding acc_ok_def by fastforce+
  from map_eq_transfer [OF tcp_pass_entries [OF t] this(1)] map_eq_transfer [OF udp_pass_entries [OF u] this(2)]
  have "\<forall>(i, r)\<in>set results. answers env i (ops ! i) r"
    using assms(2) by (auto simp: res acc_ok_def answers_drain)
  moreover have "map fst results = acc_indices acc"
    using arg_cong [OF tcp_pass_entries [OF t], of "map fst"] arg_cong [OF udp_pass_entries [OF u], of "map fst"]
    by (simp add: res acc_indices_def case_prod_beta' comp_def)
  ultimately show ?thesis by simp
qed

lemma sorted_mset_upt:
  assumes "mset (map fst xs) = mset [0..<n]"
  shows "map fst (sort_key fst xs) = [0..<n]"
proof -
  have "sorted (map fst (sort_key fst xs))" by simp
  moreover have "mset (map fst (sort_key fst xs)) = mset [0..<n]" using assms by simp
  ultimately show ?thesis by (metis sort_upt sorted_sort_id properties_for_sort)
qed

text \<open>Unless a connection job panics, a batch is answered with exactly one result per op, and the
  result at place \<open>i\<close> belongs to the \<open>i\<close>-th op, whatever the ops are and in whatever order the
  connection jobs finish: the client pairs results with its ops by position.\<close>

theorem batch_answers_in_place:
  assumes "\<forall>i. \<not> ne_panics env i" "batch_execute L env ops st = (st', rs)"
  shows "length rs = length ops \<and> (\<forall>i<length ops. answers env i (ops ! i) (rs ! i))"
proof -
  obtain st1 acc1 where f: "fold (phase1_op L env) (map (\<lambda>i. (i, ops ! i)) [0..<length ops]) (st, new_acc) = (st1, acc1)" by force
  have zip: "zip [0..<length ops] ops = map (\<lambda>i. (i, ops ! i)) [0..<length ops]"
    by (rule nth_equalityI) simp_all
  let ?jobs = "sort_key (ne_join env \<circ> fst) (ba_jobs acc1)"
  obtain st2 acc2 where j: "fold (join_job L env) ?jobs (st1, acc1) = (st2, acc2)" by force
  obtain results where p2: "phase2 L env (st2, acc2) = (st', results)" and rs: "rs = map snd (sort_key fst results)"
    using assms(2) f j zip by (auto simp: batch_execute_def phase1_def split: prod.splits)
  have "acc_ok env ops new_acc" by (simp add: acc_ok_def new_acc_def)
  note a1 = phase1_ops_acc [OF f this]
  have ok1: "acc_ok env ops acc1" and "\<forall>(i, j)\<in>set ?jobs. bo_op (ops ! i) \<in> {''connect'', ''connect_data'', ''udp_open''}"
    using a1 by (auto simp: acc_ok_def)
  note a2 = join_jobs_acc [OF j ok1 assms(1) this(2)]
  have "mset (acc_indices acc2) = mset [0..<length ops]"
    using a1 a2 by (simp add: new_acc_def acc_indices_def add.commute)
  with phase2_results [OF p2, of ops] a2 have ans: "\<forall>(i, r)\<in>set results. answers env i (ops ! i) r"
    and idx: "map fst (sort_key fst results) = [0..<length ops]" by (simp_all add: sorted_mset_upt)
  have len: "length rs = length ops" using arg_cong [OF idx, of length] rs by simp
  moreover have "answers env i (ops ! i) (rs ! i)" if i: "i < length ops" for i
  proof -
    have "sort_key fst results ! i \<in> set results" using i len rs by (metis length_map nth_mem set_sort)
    from bspec [OF ans this] have "answers env (fst (sort_key fst results ! i)) (ops ! fst (sort_key fst results ! i))
        (snd (sort_key fst results ! i))" by (simp add: case_prod_beta)
    moreover have "fst (sort_key fst results ! i) = i" using arg_cong [OF idx, of "\<lambda>l. l ! i"] i len rs by simp
    ultimately show ?thesis using i len rs by simp
  qed
  ultimately show ?thesis by blast
qed

text \<open>A stand-in for the libraries, in which base64 is the identity and JSON keeps nothing, and a calm
  environment.\<close>

definition plain_lib :: node_lib where
  "plain_lib = \<lparr>nl_b64_decode = (\<lambda>s. Inr (map (of_nat \<circ> of_char) s)), nl_b64_encode = map (char_of \<circ> unat),
     nl_gunzip = Inr, nl_parse_batch = (\<lambda>_. Inl ''x''), nl_parse_ops = (\<lambda>_. Inl ''x''), nl_zstd_decode = Inr,
     nl_zstd_encode = Some, nl_ops_json = (\<lambda>ops. Some (concat (map (map (of_nat \<circ> of_char) \<circ> bo_op) ops))),
     nl_results_json = (\<lambda>_. []), nl_json = (\<lambda>_. []), nl_response_json = (\<lambda>_. []), nl_blake3 = id\<rparr>"

definition calm_env :: node_env where
  "calm_env = \<lparr>ne_now = 0, ne_done = 0, ne_uuid = (\<lambda>i. replicate (Suc i) CHR ''u''), ne_open_tcp = (\<lambda>_ _. None),
     ne_open_udp = (\<lambda>_ _. None), ne_write = (\<lambda>_. None), ne_panics = (\<lambda>_. False), ne_join = id, ne_wait_tcp = [],
     ne_wait_udp = [], ne_yield = (\<lambda>_ _. []), ne_late = (\<lambda>_ _. False), ne_lag = (\<lambda>_. 0)\<rparr>"

definition new_node :: node where
  "new_node = \<lparr>nd_sessions = [], nd_tcp = [], nd_udp_sessions = [], nd_udp = [], nd_auth_key = ''k'',
     nd_diagnostic = False, nd_replay = new_registry\<rparr>"

definition two_ops :: "batch_op list" where
  "two_ops = [\<lparr>bo_op = ''connect'', bo_sid = None, bo_host = Some ''h'', bo_port = Some 80, bo_d = None, bo_seq = None, bo_wseq = None\<rparr>,
     \<lparr>bo_op = ''data'', bo_sid = Some ''zz'', bo_host = None, bo_port = None, bo_d = None, bo_seq = Some 7, bo_wseq = None\<rparr>]"

theorem batch_answers_in_place_witness:
  "length (snd (batch_execute plain_lib calm_env two_ops new_node)) = 2 \<and>
   answers calm_env 1 (two_ops ! 1) (snd (batch_execute plain_lib calm_env two_ops new_node) ! 1)"
proof -
  have "\<forall>i. \<not> ne_panics calm_env i" by (simp add: calm_env_def)
  moreover obtain st rs where r: "batch_execute plain_lib calm_env two_ops new_node = (st, rs)" by force
  ultimately have "length rs = length two_ops \<and> (\<forall>i<length two_ops. answers calm_env i (two_ops ! i) (rs ! i))"
    by (rule batch_answers_in_place)
  moreover have "length two_ops = 2" by (simp add: two_ops_def)
  ultimately show ?thesis using r by simp
qed

section \<open>Well-formed nodes\<close>

text \<open>Every address in a table is an address of the store, and a session id has one entry.\<close>

definition addrs_ok :: "nat \<Rightarrow> (string \<times> nat) list \<Rightarrow> bool" where
  "addrs_ok n table \<longleftrightarrow> distinct (map fst table) \<and> list_all (\<lambda>(k, a). a < n) table"

definition node_ok :: "node \<Rightarrow> bool" where
  "node_ok st \<longleftrightarrow> addrs_ok (length (nd_tcp st)) (nd_sessions st) \<and> addrs_ok (length (nd_udp st)) (nd_udp_sessions st)"

lemma list_all_alist:
  "list_all P al \<Longrightarrow> P (k, v) \<Longrightarrow> list_all P (AList.update k v al)"
  "list_all P al \<Longrightarrow> list_all P (AList.delete k al)"
  by (induction al) auto

lemma addrs_ok_ops [simp]:
  "addrs_ok n table \<Longrightarrow> addrs_ok n (AList.delete k table)"
  "addrs_ok n table \<Longrightarrow> addrs_ok (Suc n) (AList.update k n table)"
proof -
  assume a: "addrs_ok n table"
  then show "addrs_ok n (AList.delete k table)" by (simp add: addrs_ok_def list_all_alist)
  have "list_all (\<lambda>(k, a). a < Suc n) table" using a by (auto simp: addrs_ok_def list_all_iff less_Suc_eq)
  with a show "addrs_ok (Suc n) (AList.update k n table)" by (simp add: addrs_ok_def list_all_alist)
qed

lemma lengths [simp]:
  "length (nd_tcp (upd_tcp a f st)) = length (nd_tcp st)" "length (nd_udp (upd_tcp a f st)) = length (nd_udp st)"
  "length (nd_udp (upd_udp a g st)) = length (nd_udp st)" "length (nd_tcp (upd_udp a g st)) = length (nd_tcp st)"
  "length (nd_tcp (remove_session f sid st)) = length (nd_tcp st)" "length (nd_udp (remove_session f sid st)) = length (nd_udp st)"
  "length (nd_tcp (remove_udp_session sid st)) = length (nd_tcp st)" "length (nd_udp (remove_udp_session sid st)) = length (nd_udp st)"
  by (simp_all add: upd_tcp_def upd_udp_def remove_session_def remove_udp_session_def split: option.splits)

lemma node_ok_upd [simp]: "node_ok (upd_tcp a f st) = node_ok st" "node_ok (upd_udp a g st) = node_ok st"
  "node_ok (st\<lparr>nd_replay := r\<rparr>) = node_ok st"
  by (simp_all add: node_ok_def upd_tcp_def upd_udp_def)

lemma node_ok_remove [simp]:
  "node_ok st \<Longrightarrow> node_ok (remove_session f sid st)" "node_ok st \<Longrightarrow> node_ok (remove_udp_session sid st)"
  by (simp_all add: remove_session_def remove_udp_session_def node_ok_def upd_tcp_def upd_udp_def split: option.splits)

lemma node_ok_insert [simp]:
  "node_ok st \<Longrightarrow> node_ok (insert_session sid s st)" "node_ok st \<Longrightarrow> node_ok (insert_udp_session sid u st)"
  by (simp_all add: insert_session_def insert_udp_session_def node_ok_def)

lemma node_ok_folds [simp]:
  "node_ok st \<Longrightarrow> node_ok (fold (remove_session f) sids st)" "node_ok st \<Longrightarrow> node_ok (fold remove_udp_session sids st)"
  by (induction sids arbitrary: st) auto

lemma node_ok_lookup:
  "node_ok st \<Longrightarrow> map_of (nd_sessions st) sid = Some a \<Longrightarrow> a < length (nd_tcp st)"
  "node_ok st \<Longrightarrow> map_of (nd_udp_sessions st) sid = Some a \<Longrightarrow> a < length (nd_udp st)"
  by (auto simp: node_ok_def addrs_ok_def list_all_iff dest!: map_of_SomeD)


text \<open>The state of a batch between its phases: drains point into the store.\<close>

definition drains_ok :: "node \<Rightarrow> batch_acc \<Rightarrow> bool" where
  "drains_ok st acc \<longleftrightarrow> (\<forall>(i, sid, a, sq)\<in>set (ba_tcp acc). a < length (nd_tcp st)) \<and>
     (\<forall>(i, sid, a, sq)\<in>set (ba_udp acc). a < length (nd_udp st))"

lemma drains_ok_push [simp]:
  "drains_ok st (push_result i r acc) = drains_ok st acc" "drains_ok st (spawn_job i j b acc) = drains_ok st acc"
  "drains_ok st (acc\<lparr>ba_active := b\<rparr>) = drains_ok st acc"
  "drains_ok st (push_tcp (i, sid, a, sq) acc) \<longleftrightarrow> a < length (nd_tcp st) \<and> drains_ok st acc"
  "drains_ok st (push_udp (i, sid, a, sq) acc) \<longleftrightarrow> a < length (nd_udp st) \<and> drains_ok st acc"
  by (auto simp: drains_ok_def push_result_def spawn_job_def push_tcp_def push_udp_def)







lemma fold_pair_invariant:
  assumes "P st acc" "\<And>x st acc st' acc'. P st acc \<Longrightarrow> f x (st, acc) = (st', acc') \<Longrightarrow> P st' acc'"
    and "fold f xs (st, acc) = (st', acc')"
  shows "P st' acc'"
  using assms(1,3)
proof (induction xs arbitrary: st acc)
  case (Cons x xs)
  obtain st1 acc1 where one: "f x (st, acc) = (st1, acc1)" by force
  have "P st1 acc1" by (rule assms(2) [OF Cons.prems(1) one])
  with Cons.IH Cons.prems(2) one show ?case by simp
qed simp


lemma wait_phase_keeps [simp]:
  "node_ok (wait_phase env st) = node_ok st" "length (nd_tcp (wait_phase env st)) = length (nd_tcp st)"
  "length (nd_udp (wait_phase env st)) = length (nd_udp st)"
proof -
  have t: "node_ok (fold (\<lambda>(a, r). upd_tcp a (reader_task r)) evs st) = node_ok st \<and>
    length (nd_tcp (fold (\<lambda>(a, r). upd_tcp a (reader_task r)) evs st)) = length (nd_tcp st) \<and>
    length (nd_udp (fold (\<lambda>(a, r). upd_tcp a (reader_task r)) evs st)) = length (nd_udp st)" for evs st
    by (induction evs arbitrary: st) (simp_all add: case_prod_beta)
  have u: "node_ok (fold (\<lambda>(a, now, r). upd_udp a (udp_reader_task now r)) evs st) = node_ok st \<and>
    length (nd_tcp (fold (\<lambda>(a, now, r). upd_udp a (udp_reader_task now r)) evs st)) = length (nd_tcp st) \<and>
    length (nd_udp (fold (\<lambda>(a, now, r). upd_udp a (udp_reader_task now r)) evs st)) = length (nd_udp st)" for evs st
    by (induction evs arbitrary: st) (simp_all add: case_prod_beta)
  show "node_ok (wait_phase env st) = node_ok st" "length (nd_tcp (wait_phase env st)) = length (nd_tcp st)"
    "length (nd_udp (wait_phase env st)) = length (nd_udp st)"
    using t u by (simp_all add: wait_phase_def)
qed

section \<open>The response budget\<close>

definition raw_bytes :: "drained list \<Rightarrow> nat" where
  "raw_bytes out = sum_list (map (\<lambda>(i, sid, data, eof, sq). length data) out)"

text \<open>What the pass took from the session at address \<open>a\<close>, in order.\<close>

definition taken_from :: "nat \<Rightarrow> drain_entry list \<Rightarrow> drained list \<Rightarrow> bytes" where
  "taken_from a drains out =
     concat (map (\<lambda>((_, _, a', _), (_, _, data, _, _)). if a' = a then data else []) (zip drains out))"

lemma pass_simps [simp]:
  "raw_bytes [] = 0" "raw_bytes ((i, sid, data, eof, sq) # out) = length data + raw_bytes out"
  "taken_from a [] out = []"
  "taken_from a ((j, sid', a', sq') # drains) ((i, sid, data, eof, sq) # out) =
     (if a' = a then data else []) @ taken_from a drains out"
  by (simp_all add: raw_bytes_def taken_from_def)







section \<open>What the reaper takes\<close>

lemma sessions_fields [simp]:
  "nd_sessions (upd_tcp a f st) = nd_sessions st" "nd_udp_sessions (upd_tcp a f st) = nd_udp_sessions st"
  "nd_udp (upd_tcp a f st) = nd_udp st" "nd_sessions (upd_udp a g st) = nd_sessions st"
  "nd_udp_sessions (upd_udp a g st) = nd_udp_sessions st" "nd_tcp (upd_udp a g st) = nd_tcp st"
  "nd_sessions (remove_udp_session sid st) = nd_sessions st" "nd_udp_sessions (remove_session f sid st) = nd_udp_sessions st"
  "nd_udp (remove_session f sid st) = nd_udp st"
  by (simp_all add: upd_tcp_def upd_udp_def remove_session_def remove_udp_session_def split: option.splits)

lemma map_of_remove:
  "map_of (nd_sessions (remove_session f sid st)) = (map_of (nd_sessions st))(sid := None)"
  "map_of (nd_udp_sessions (remove_udp_session sid st)) = (map_of (nd_udp_sessions st))(sid := None)"
  by (auto simp: remove_session_def remove_udp_session_def delete_conv' split: option.splits)

lemma fold_remove:
  "map_of (nd_sessions (fold (remove_session f) sids st)) k = (if k \<in> set sids then None else map_of (nd_sessions st) k)"
  "map_of (nd_udp_sessions (fold remove_udp_session sids st)) k = (if k \<in> set sids then None else map_of (nd_udp_sessions st) k)"
  "nd_udp_sessions (fold (remove_session f) sids st) = nd_udp_sessions st" "nd_udp (fold (remove_session f) sids st) = nd_udp st"
  "nd_sessions (fold remove_udp_session sids st) = nd_sessions st"
  by (induction sids arbitrary: st) (auto simp: map_of_remove)

lemma stale_iff:
  assumes "distinct (map fst table)"
  shows "k \<in> set (stale_sids now limit seen table) \<longleftrightarrow>
     (case map_of table k of None \<Rightarrow> False | Some a \<Rightarrow> now - seen a > limit)"
proof -
  have "k \<in> set (stale_sids now limit seen table) \<longleftrightarrow> (\<exists>a. (k, a) \<in> set table \<and> now - seen a > limit)"
    by (force simp: stale_sids_def)
  also have "\<dots> \<longleftrightarrow> (\<exists>a. map_of table k = Some a \<and> now - seen a > limit)"
    using map_of_eq_Some_iff [OF assms] by simp
  finally show ?thesis by (auto split: option.splits)
qed

text \<open>A sweep of the reaper removes exactly the TCP sessions no request has touched for more than five
  minutes and the UDP sessions with no traffic and no poll for more than two; every other session stays.\<close>

theorem reaper_exact:
  assumes "node_ok st"
  shows "map_of (nd_sessions (cleanup now st)) sid =
      (case map_of (nd_sessions st) sid of
         None \<Rightarrow> None
       | Some a \<Rightarrow> if now - ts_last_active (nd_tcp st ! a) > 5 * 60 * 1000 then None else Some a) \<and>
    map_of (nd_udp_sessions (cleanup now st)) sid =
      (case map_of (nd_udp_sessions st) sid of
         None \<Rightarrow> None
       | Some a \<Rightarrow> if now - us_last_active (nd_udp st ! a) > 2 * 60 * 1000 then None else Some a)"
  using assms
  by (auto simp: cleanup_def Let_def fold_remove stale_iff node_ok_def addrs_ok_def split: option.splits)

theorem reaper_exact_witness:
  "map_of (nd_sessions (cleanup 300001 (insert_session ''a'' (new_session 0 False) (insert_session ''b'' (new_session 1 False) new_node)))) ''a'' = None \<and>
   map_of (nd_sessions (cleanup 300001 (insert_session ''a'' (new_session 0 False) (insert_session ''b'' (new_session 1 False) new_node)))) ''b'' = Some 0"
proof -
  let ?st = "insert_session ''a'' (new_session 0 False) (insert_session ''b'' (new_session 1 False) new_node)"
  have "node_ok ?st" by (simp add: node_ok_def addrs_ok_def new_node_def insert_session_def)
  from reaper_exact [OF this, of 300001 "''a''"] reaper_exact [OF this, of 300001 "''b''"] show ?thesis
    by (simp add: insert_session_def new_node_def new_session_def)
qed

section \<open>A closed session whose gateway runs on\<close>

lemma wseq_write_touch: "wseq_write w bs (s\<lparr>ts_last_active := t\<rparr>) = None \<longleftrightarrow> wseq_write w bs s = None"
proof -
  have "same_up (s\<lparr>ts_last_active := t\<rparr>) s" by (simp add: same_up_def)
  from same_up_wseq [OF this, of w bs] show ?thesis by (auto elim: option.rel_cases)
qed

text \<open>An upload that overflows the buffer of a UDP gateway session takes the session out of the table
  but stops only its reader: the gateway task stays alive, and nothing refers to it any more.\<close>

theorem cap_close_leaks_gateway:
  assumes "node_ok st" "map_of (nd_sessions st) (c # s) = Some a" "ts_udpgw (nd_tcp st ! a) = Some True"
    and "bo_op op = ''data''" "bo_sid op = Some (c # s)" "bo_d op = Some (x # d)" "bo_wseq op = Some w"
    and "nl_b64_decode L (x # d) = Inr (b # bs)" "wseq_write w (b # bs) (nd_tcp st ! a) = None"
    and "phase1_op L env (i, op) (st, acc) = (st', acc')"
  shows "map_of (nd_sessions st') (c # s) = None \<and> ts_udpgw (nd_tcp st' ! a) = Some True \<and> \<not> ts_reader (nd_tcp st' ! a)"
proof -
  have a: "a < length (nd_tcp st)" by (rule node_ok_lookup(1) [OF assms(1,2)])
  have "wseq_write w (b # bs) ((nd_tcp st ! a)\<lparr>ts_last_active := ne_now env\<rparr>) = None"
    using assms(9) by (simp add: wseq_write_touch)
  then have "st' = remove_session abort_reader (c # s) (upd_tcp a (\<lambda>s. s\<lparr>ts_last_active := ne_now env\<rparr>) st)"
    using assms(2-8,10) a by (auto simp: phase1_op_def batch_data_def upd_tcp_def Let_def)
  with a assms(2,3) show ?thesis
    by (simp add: map_of_remove) (simp add: remove_session_def upd_tcp_def abort_reader_def)
qed

definition full_gateway :: node where
  "full_gateway = insert_session ''g''
     ((new_session 0 True)\<lparr>ts_pending_writes := map (\<lambda>k. (word_of_nat k, [0])) [1..<33]\<rparr>) new_node"

definition overflow_op :: batch_op where
  "overflow_op = \<lparr>bo_op = ''data'', bo_sid = Some ''g'', bo_host = None, bo_port = None, bo_d = Some ''x'',
     bo_seq = Some 0, bo_wseq = Some 40\<rparr>"

theorem cap_close_leaks_gateway_witness:
  "map_of (nd_sessions (fst (phase1_op plain_lib calm_env (0, overflow_op) (full_gateway, new_acc)))) ''g'' = None \<and>
   ts_udpgw (nd_tcp (fst (phase1_op plain_lib calm_env (0, overflow_op) (full_gateway, new_acc))) ! 0) = Some True"
proof -
  obtain st' acc' where p: "phase1_op plain_lib calm_env (0, overflow_op) (full_gateway, new_acc) = (st', acc')" by force
  have ok: "node_ok full_gateway" by (simp add: node_ok_def addrs_ok_def new_node_def insert_session_def full_gateway_def)
  have tab: "map_of (nd_sessions full_gateway) ''g'' = Some 0" "ts_udpgw (nd_tcp full_gateway ! 0) = Some True"
    by (simp_all add: full_gateway_def new_node_def insert_session_def new_session_def)
  have full: "wseq_write 40 [120] (nd_tcp full_gateway ! 0) = None"
    by (simp add: full_gateway_def new_node_def insert_session_def wseq_write_def new_session_def
        MAX_PENDING_WRITES_PER_SESSION_def Let_def)
  have op: "bo_op overflow_op = ''data''" "bo_sid overflow_op = Some ''g''" "bo_d overflow_op = Some ''x''" "bo_wseq overflow_op = Some 40"
    by (simp_all add: overflow_op_def)
  have dec: "nl_b64_decode plain_lib ''x'' = Inr [120]" by (simp add: plain_lib_def)
  from cap_close_leaks_gateway [OF ok tab op dec full p] p show ?thesis by simp
qed

section \<open>Tables and tasks\<close>

definition node_tasks_ok :: "node \<Rightarrow> bool" where
  "node_tasks_ok st \<longleftrightarrow> tasks_ok ts_reader ts_eof (nd_sessions st) (nd_tcp st) \<and>
     tasks_ok us_reader us_eof (nd_udp_sessions st) (nd_udp st)"

text \<open>What a session may become without losing its task.\<close>

definition keeps_reader :: "tcp_session \<Rightarrow> tcp_session \<Rightarrow> bool" where
  "keeps_reader s s' \<longleftrightarrow> (ts_reader s' \<longrightarrow> ts_reader s) \<and> (ts_reader s \<or> ts_eof s \<longrightarrow> ts_reader s' \<or> ts_eof s')"

definition keeps_udp_reader :: "udp_session \<Rightarrow> udp_session \<Rightarrow> bool" where
  "keeps_udp_reader s s' \<longleftrightarrow> (us_reader s' \<longrightarrow> us_reader s) \<and> (us_reader s \<or> us_eof s \<longrightarrow> us_reader s' \<or> us_eof s')"

lemma keeps_reader_ops [simp]:
  "keeps_reader s s" "keeps_reader s (s\<lparr>ts_last_active := t\<rparr>)" "keeps_reader s (write_bytes bs s)"
  "keeps_udp_reader u u" "keeps_udp_reader u (u\<lparr>us_last_active := t\<rparr>)" "keeps_udp_reader u (udp_send bs u)"
  by (simp_all add: keeps_reader_def keeps_udp_reader_def write_bytes_def udp_send_def)







text \<open>The primitive changes of a node, each of which keeps tables and tasks in agreement.\<close>

lemma node_tasks_upd [simp]:
  "node_tasks_ok st \<Longrightarrow> keeps_reader (nd_tcp st ! a) (f (nd_tcp st ! a)) \<Longrightarrow> node_tasks_ok (upd_tcp a f st)"
  "node_tasks_ok st \<Longrightarrow> keeps_udp_reader (nd_udp st ! a) (g (nd_udp st ! a)) \<Longrightarrow> node_tasks_ok (upd_udp a g st)"
  "node_tasks_ok (st\<lparr>nd_replay := r\<rparr>) = node_tasks_ok st"
  by (simp_all add: node_tasks_ok_def upd_tcp_def upd_udp_def keeps_reader_def keeps_udp_reader_def tasks_upd)

definition fresh_id :: "string \<Rightarrow> node \<Rightarrow> bool" where
  "fresh_id sid st \<longleftrightarrow> map_of (nd_sessions st) sid = None \<and> map_of (nd_udp_sessions st) sid = None"



lemma aborted [simp]: "\<not> ts_reader (abort_reader s)" "\<not> ts_reader (abort_all s)"
  by (simp_all add: abort_all_def abort_reader_def)



lemma new_reader [simp]: "ts_reader (new_session now g)" "ts_reader (write_bytes bs (new_session now g))"
  "us_reader (new_udp_session now)" "us_reader (udp_send bs (new_udp_session now))"
  by (simp_all add: new_session_def write_bytes_def new_udp_session_def udp_send_def)








text \<open>The steps of a node. Single-op requests and sweeps are steps of their own; a batch is its beginning,
  its ops, its connection jobs, its drains, the removals after a remote end and its completion, and
  between any two of these anything else may happen. A new session's id is fresh, as random UUIDs are;
  and the single-op \<open>data\<close> request is taken with a write that succeeds (see
  \<open>write_failure_leaks_reader\<close>).\<close>

inductive node_step :: "node_lib \<Rightarrow> node \<Rightarrow> node \<Rightarrow> bool" for L where
  reads: "node_step L st (upd_tcp a (reader_task r) st)"
| reads_udp: "node_step L st (upd_udp a (udp_reader_task now r) st)"
| sweeps: "node_step L st (cleanup now st)"
| single: "fresh_id (ne_uuid env 0) st \<Longrightarrow> rq_op rq = ''data'' \<longrightarrow> ne_write env 0 = None \<Longrightarrow>
    handle_tunnel L env rq st = (st', reply) \<Longrightarrow> node_step L st st'"
| begins: "batch_begin L now body st = (st', start) \<Longrightarrow> node_step L st st'"
| op: "phase1_op L env (i, op) (st, acc) = (st', acc') \<Longrightarrow> node_step L st st'"
| job: "fresh_id (ne_uuid env i) st \<Longrightarrow> join_job L env (i, j) (st, acc) = (st', acc') \<Longrightarrow> node_step L st st'"
| drains: "drain_loop ev late 0 budget [] False (nd_tcp st ! a) = (s, data, eof) \<Longrightarrow>
    node_step L st (upd_tcp a (\<lambda>_. s) st)"
| drains_udp: "drain_udp_now (nd_udp st ! a) = (u, packets, eof) \<Longrightarrow> node_step L st (upd_udp a (\<lambda>_. u) st)"
| ended: "node_step L st (remove_session abort_reader sid st)"
| ended_udp: "node_step L st (remove_udp_session sid st)"
| finishes: "batch_finish L now z key rs st = (st', reply) \<Longrightarrow> node_step L st st'"

lemma begin_only_registry: "batch_begin L now body st = (st', start) \<Longrightarrow> \<exists>reg. st' = st\<lparr>nd_replay := reg\<rparr>"
  by (auto simp: batch_begin_def split: sum.splits prod.splits option.splits replay_claim.splits
      intro: exI [of _ "nd_replay st"])



text \<open>A batch handled without interruption is a run of these steps.\<close>

lemma steps_ops:
  "fold (phase1_op L env) iops (st, acc) = (st', acc') \<Longrightarrow> (node_step L)\<^sup>*\<^sup>* st st'"
proof (induction iops arbitrary: st acc)
  case (Cons iop iops)
  obtain st1 acc1 where one: "phase1_op L env iop (st, acc) = (st1, acc1)" by force
  then have "node_step L st st1" by (cases iop) (auto intro: node_step.op)
  with Cons one show ?case by (auto intro: converse_rtranclp_into_rtranclp)
qed simp

lemma ids_op:
  "phase1_op L env iop (st, acc) = (st', acc') \<Longrightarrow> fresh_id k st \<Longrightarrow> fresh_id k st'"
  by (cases iop)
     (auto simp: phase1_op_def batch_data_def batch_udp_data_def handle_close_def fresh_id_def Let_def map_of_remove
       split: if_splits option.splits list.splits prod.splits sum.splits)

lemma ids_job:
  "join_job L env (i, j) (st, acc) = (st', acc') \<Longrightarrow> fresh_id k st \<Longrightarrow> k \<noteq> ne_uuid env i \<Longrightarrow> fresh_id k st'"
  by (auto simp: join_job_def handle_connect_def handle_connect_data_phase1_def handle_udp_open_phase1_def Let_def
      fresh_id_def insert_session_def insert_udp_session_def update_conv'
      split: if_splits option.splits prod.splits sum.splits conn_job.splits)

lemma steps_jobs:
  assumes "fold (join_job L env) jobs (st, acc) = (st', acc')" "distinct (map fst jobs)" "inj (ne_uuid env)"
    and "\<forall>(i, j)\<in>set jobs. fresh_id (ne_uuid env i) st"
  shows "(node_step L)\<^sup>*\<^sup>* st st'"
  using assms
proof (induction jobs arbitrary: st acc)
  case (Cons ij jobs)
  obtain i j where ij: "ij = (i, j)" by force
  obtain st1 acc1 where one: "join_job L env (i, j) (st, acc) = (st1, acc1)" by force
  have "node_step L st st1" using Cons.prems(4) ij one by (auto intro: node_step.job)
  moreover have "fresh_id (ne_uuid env i') st1" if "(i', j') \<in> set jobs" for i' j'
  proof (rule ids_job [OF one])
    show "fresh_id (ne_uuid env i') st" using Cons.prems(4) that by auto
    have "i' \<noteq> i" using Cons.prems(2) ij that by force
    then show "ne_uuid env i' \<noteq> ne_uuid env i" using Cons.prems(3) by (simp add: inj_eq)
  qed
  then have "(node_step L)\<^sup>*\<^sup>* st1 st'" using Cons.IH [of st1 acc1] Cons.prems ij one by auto
  ultimately show ?case by (rule converse_rtranclp_into_rtranclp)
qed simp

lemma steps_fold:
  "(\<And>x st. node_step L st (f x st)) \<Longrightarrow> (node_step L)\<^sup>*\<^sup>* st (fold f xs st)"
  by (induction xs arbitrary: st) (auto intro: converse_rtranclp_into_rtranclp)

lemma steps_wait: "(node_step L)\<^sup>*\<^sup>* st (wait_phase env st)"
  unfolding wait_phase_def
  by (rule rtranclp_trans; rule steps_fold) (auto intro: node_step.intros)

lemma steps_tcp: "tcp_drain_pass env budget drains st = (st', out) \<Longrightarrow> (node_step L)\<^sup>*\<^sup>* st st'"
proof (induction env budget drains st arbitrary: st' out rule: tcp_drain_pass.induct)
  case (2 env budget i sid a sq drains st)
  show ?case
  proof (cases "budget = 0")
    case True
    with 2 show ?thesis by (auto split: prod.splits)
  next
    case False
    obtain s data eof where d: "drain_loop (ne_yield env i) (ne_late env i) 0 budget [] False (nd_tcp st ! a) = (s, data, eof)"
      by (cases "drain_loop (ne_yield env i) (ne_late env i) 0 budget [] False (nd_tcp st ! a)")
    obtain out' where "tcp_drain_pass env (budget - length data) drains (upd_tcp a (\<lambda>_. s) st) = (st', out')"
      using 2(3) False d by (auto split: prod.splits)
    from 2(2) [OF False d [symmetric] refl this] node_step.drains [OF d, of L] show ?thesis
      by (rule converse_rtranclp_into_rtranclp [rotated])
  qed
qed simp

lemma steps_udp: "udp_drain_pass drains st = (st', out) \<Longrightarrow> (node_step L)\<^sup>*\<^sup>* st st'"
proof (induction drains st arbitrary: st' out rule: udp_drain_pass.induct)
  case (2 i sid a sq drains st)
  obtain u packets eof where d: "drain_udp_now (nd_udp st ! a) = (u, packets, eof)" by (cases "drain_udp_now (nd_udp st ! a)")
  obtain out' where "udp_drain_pass drains (upd_udp a (\<lambda>_. u) st) = (st', out')" using 2(2) d by (auto split: prod.splits)
  from 2(1) [OF d [symmetric] refl this] node_step.drains_udp [OF d, of L] show ?case
    by (rule converse_rtranclp_into_rtranclp [rotated])
qed simp

lemma steps_phase2: "phase2 L env (st, acc) = (st', results) \<Longrightarrow> (node_step L)\<^sup>*\<^sup>* st st'"
proof -
  assume p: "phase2 L env (st, acc) = (st', results)"
  obtain st1 tcp where t: "tcp_drain_pass env BATCH_RESPONSE_BUDGET (ba_tcp acc) (wait_phase env st) = (st1, tcp)" by force
  let ?st2 = "fold (remove_session abort_reader) (map (fst \<circ> snd) (filter (\<lambda>(_, _, _, eof, _). eof) tcp)) st1"
  obtain st3 udp where u: "udp_drain_pass (ba_udp acc) ?st2 = (st3, udp)" by force
  let ?st4 = "fold remove_udp_session (map (fst \<circ> snd) (filter (\<lambda>(_, _, _, eof, _). eof) udp)) st3"
  have "(node_step L)\<^sup>*\<^sup>* st1 ?st2" "(node_step L)\<^sup>*\<^sup>* st3 ?st4" by (rule steps_fold, rule node_step.intros)+
  with steps_wait [of L st env] steps_tcp [OF t, of L] steps_udp [OF u, of L] have "(node_step L)\<^sup>*\<^sup>* st ?st4"
    by (blast intro: rtranclp_trans)
  moreover have "st' = st \<or> st' = ?st4" using p t u by (auto simp: phase2_def Let_def split: if_splits)
  ultimately show ?thesis by auto
qed

lemma job_indices:
  assumes "fold (phase1_op L env) iops (st, acc) = (st', acc')"
  shows "\<exists>js. ba_jobs acc' = ba_jobs acc @ js \<and> subseq (map fst js) (map fst iops)"
  using assms
proof (induction iops arbitrary: st acc)
  case (Cons iop iops)
  obtain i op where iop: "iop = (i, op)" by force
  obtain st1 acc1 where one: "phase1_op L env iop (st, acc) = (st1, acc1)" by force
  then have "ba_jobs acc1 = ba_jobs acc \<or> (\<exists>j. ba_jobs acc1 = ba_jobs acc @ [(i, j)])"
    unfolding iop phase1_op_def batch_data_def batch_udp_data_def
    by (auto simp: Let_def split: if_splits option.splits list.splits prod.splits sum.splits)
  moreover obtain js where "ba_jobs acc' = ba_jobs acc1 @ js" "subseq (map fst js) (map fst iops)"
    using Cons.IH [of st1 acc1] Cons.prems one by auto
  ultimately show ?case using iop by auto
qed simp

lemma steps_execute:
  assumes "batch_execute L env ops st = (st', rs)" "\<forall>i. fresh_id (ne_uuid env i) st" "inj (ne_uuid env)"
  shows "(node_step L)\<^sup>*\<^sup>* st st'"
proof -
  obtain st1 acc1 where f: "fold (phase1_op L env) (zip [0..<length ops] ops) (st, new_acc) = (st1, acc1)" by force
  let ?jobs = "sort_key (ne_join env \<circ> fst) (ba_jobs acc1)"
  obtain st2 acc2 where j: "fold (join_job L env) ?jobs (st1, acc1) = (st2, acc2)" by force
  obtain results where p: "phase2 L env (st2, acc2) = (st', results)"
    using assms(1) f j by (auto simp: batch_execute_def phase1_def split: prod.splits)
  have "\<forall>i. fresh_id (ne_uuid env i) st1"
    by (rule fold_pair_invariant [where P = "\<lambda>s acc. \<forall>i. fresh_id (ne_uuid env i) s", OF assms(2) _ f]) (blast intro: ids_op)
  moreover have "distinct (map fst (ba_jobs acc1))"
    using job_indices [OF f] by (auto simp: new_acc_def subseq_conv_nths)
  then have "distinct (map fst ?jobs)" by (metis distinct_map mset_map mset_eq_imp_distinct_iff mset_sort)
  ultimately have "(node_step L)\<^sup>*\<^sup>* st1 st2" by (intro steps_jobs [OF j _ assms(3)]) auto
  with steps_ops [OF f] steps_phase2 [OF p] show ?thesis by (blast intro: rtranclp_trans)
qed

lemma batch_is_steps:
  assumes "handle_batch L env body st = (st', outcome)" "\<forall>i. fresh_id (ne_uuid env i) st" "inj (ne_uuid env)"
  shows "(node_step L)\<^sup>*\<^sup>* st st'"
proof -
  obtain st1 start where b: "batch_begin L (ne_now env) body st = (st1, start)" by force
  note one = node_step.begins [OF b]
  have fresh: "\<forall>i. fresh_id (ne_uuid env i) st1"
    using begin_only_registry [OF b] assms(2) by (auto simp: fresh_id_def)
  show ?thesis
  proof (cases start)
    case (Running ops z key)
    obtain st2 rs where e: "batch_execute L env ops st1 = (st2, rs)" by force
    obtain st3 reply where f: "batch_finish L (ne_done env) z key rs st2 = (st3, reply)" by force
    have "st' = st3" using assms(1) b e f Running by (simp add: handle_batch_def)
    with one steps_execute [OF e fresh assms(3)] node_step.finishes [OF f] show ?thesis
      by (blast intro: rtranclp_trans converse_rtranclp_into_rtranclp rtranclp.rtrancl_into_rtrancl)
  qed (use assms(1) b one in \<open>auto simp: handle_batch_def\<close>)
qed



text \<open>The case left out: when the write of a single-op \<open>data\<close> request fails, the session leaves the
  table but its reader is not aborted, and goes on filling a buffer that nobody drains.\<close>

theorem write_failure_leaks_reader:
  assumes "node_tasks_ok st" "map_of (nd_sessions st) (c # s) = Some a" "ts_reader (nd_tcp st ! a)"
    and "nl_b64_decode L (x # d) = Inr (b # bs)" "ne_write env 0 = Some e"
    and "handle_data_single L env (Some (c # s)) (Some (x # d)) st = (st', r)"
  shows "ts_reader (nd_tcp st' ! a) \<and> (\<forall>sid. map_of (nd_sessions st') sid \<noteq> Some a)"
proof -
  have a: "a < length (nd_tcp st)" using assms(1,2) by (auto simp: node_tasks_ok_def tasks_ok_def)
  have inj: "sid = c # s" if "map_of (nd_sessions st) sid = Some a" for sid
    using assms(1,2) that unfolding node_tasks_ok_def tasks_ok_def by blast
  have "st' = remove_session id (c # s) (upd_tcp a (write_bytes (b # bs)) (upd_tcp a (\<lambda>x. x\<lparr>ts_last_active := ne_now env\<rparr>) st))"
    using assms by (simp add: handle_data_single_def Let_def)
  then have "map_of (nd_sessions st') = (map_of (nd_sessions st))(c # s := None)" "ts_reader (nd_tcp st' ! a)"
    using assms(2,3) a by (auto simp: remove_session_def delete_conv' upd_tcp_def write_bytes_def)
  then show ?thesis using inj by auto
qed

section \<open>A repeated batch\<close>

definition same_setup :: "node \<Rightarrow> node \<Rightarrow> bool" where
  "same_setup st st' \<longleftrightarrow> nd_auth_key st' = nd_auth_key st \<and> nd_diagnostic st' = nd_diagnostic st \<and> nd_replay st' = nd_replay st"

lemma same_setup_ops [simp]:
  "same_setup st (upd_tcp a f st') = same_setup st st'" "same_setup st (upd_udp a g st') = same_setup st st'"
  "same_setup st (insert_session sid s st') = same_setup st st'" "same_setup st (insert_udp_session sid u st') = same_setup st st'"
  "same_setup st (remove_session f sid st') = same_setup st st'" "same_setup st (remove_udp_session sid st') = same_setup st st'"
  by (simp_all add: same_setup_def upd_tcp_def upd_udp_def insert_session_def insert_udp_session_def
      remove_session_def remove_udp_session_def split: option.splits)

lemma same_setup_folds [simp]:
  "same_setup st (fold (remove_session f) sids st') = same_setup st st'"
  "same_setup st (fold remove_udp_session sids st') = same_setup st st'"
  by (induction sids arbitrary: st') simp_all

lemma same_setup_phase1_op: "same_setup st st1 \<Longrightarrow> phase1_op L env iop (st1, acc) = (st2, acc2) \<Longrightarrow> same_setup st st2"
  by (cases iop)
     (auto simp: phase1_op_def batch_data_def batch_udp_data_def handle_close_def Let_def
       split: if_splits option.splits list.splits prod.splits sum.splits)

lemma same_setup_join: "same_setup st st1 \<Longrightarrow> join_job L env ij (st1, acc) = (st2, acc2) \<Longrightarrow> same_setup st st2"
  by (cases ij)
     (auto simp: join_job_def handle_connect_def handle_connect_data_phase1_def handle_udp_open_phase1_def Let_def
       split: if_splits option.splits prod.splits sum.splits conn_job.splits)

lemma complete_entry:
  "map_of (rr_entries (fst (complete t key body r))) key \<in> {Some (ReReady body t), None}"
proof -
  let ?r = "(forget key r)\<lparr>rr_ready_bytes := rr_ready_bytes (forget key r) + length body,
    rr_entries := AList.update key (ReReady body t) (rr_entries (forget key r))\<rparr>"
  have "map_of (rr_entries (evict ?r)) key \<in> {Some (ReReady body t), None}"
    by (rule evict_invariant [where P = "\<lambda>r'. map_of (rr_entries r') key \<in> {Some (ReReady body t), None}"])
       (auto simp: update_conv' map_of_forget)
  then show ?thesis by (simp add: complete_def Let_def)
qed

text \<open>Everything that happens beside the completions of one batch: sessions, tables, sockets and time change
  in any way, batches are claimed, this one too, and other batches are completed.\<close>

inductive beside :: "fingerprint \<Rightarrow> node \<Rightarrow> node \<Rightarrow> bool" for key where
  sessions: "same_setup st st' \<Longrightarrow> beside key st st'"
| claims: "beside key st (st\<lparr>nd_replay := fst (claim now k (nd_replay st))\<rparr>)"
| completes: "k \<noteq> key \<Longrightarrow> beside key st (st\<lparr>nd_replay := fst (complete now k body (nd_replay st))\<rparr>)"

lemma same_setup_refl [simp]: "same_setup st st"
  by (simp add: same_setup_def)

lemma same_setup_connect:
  "same_setup st (fst (handle_connect env i host port st))"
  "same_setup st (fst (handle_connect_data_phase1 L env i host port d st))"
  by (auto simp: handle_connect_def handle_connect_data_phase1_def Let_def split: sum.splits option.splits)

lemma same_setup_drain: "same_setup st (fst (drain_single L env sid a st1)) = same_setup st st1"
  by (simp add: drain_single_def Let_def split: prod.splits)

lemma same_setup_close: "same_setup st (fst (handle_close sid st))"
  by (auto simp: handle_close_def split: option.splits list.splits)

lemma same_setup_data: "same_setup st (fst (handle_data_single L env sid d st))"
  by (auto simp: handle_data_single_def Let_def same_setup_drain split: option.splits list.splits)

lemma same_setup_tunnel:
  assumes "handle_tunnel L env rq st = (st', reply)"
  shows "same_setup st st'"
proof -
  have cd: "same_setup st (fst (handle_connect_data_single L env host port d st))" for host port d
  proof -
    obtain st1 r where h: "handle_connect_data_phase1 L env 0 host port d st = (st1, r)" by force
    with same_setup_connect(2) [of st L env 0 host port d] have "same_setup st st1" by simp
    with h show ?thesis by (auto simp: handle_connect_data_single_def same_setup_drain split: sum.splits)
  qed
  let ?run = "if rq_op rq = ''connect'' then handle_connect env 0 (rq_host rq) (rq_port rq) st
               else if rq_op rq = ''connect_data''
               then handle_connect_data_single L env (rq_host rq) (rq_port rq) (rq_data rq) st
               else if rq_op rq = ''data'' then handle_data_single L env (rq_sid rq) (rq_data rq) st
               else if rq_op rq = ''close'' then handle_close (rq_sid rq) st
               else (st, unsupported_op (rq_op rq))"
  have "same_setup st (fst ?run)" using cd by (simp add: same_setup_connect same_setup_data same_setup_close)
  with assms show ?thesis by (auto simp: handle_tunnel_def case_prod_beta split: if_splits)
qed

lemma begin_beside:
  assumes "batch_begin L now body st = (st', start)"
  shows "beside key st st'"
proof -
  have "st' = st \<or> (\<exists>k. st' = st\<lparr>nd_replay := fst (claim now k (nd_replay st))\<rparr>)"
  proof (cases "batch_prepare L st body")
    case (Inr p)
    then show ?thesis using assms
      by (cases "replay_fingerprint L (fst p) (snd p)")
         (auto simp: batch_begin_def case_prod_beta split: replay_claim.splits)
  qed (use assms in \<open>simp add: batch_begin_def\<close>)
  then show ?thesis by (auto intro: beside.intros)
qed

text \<open>Every step of a node is one of these, unless it completes the batch.\<close>

lemma node_step_beside:
  assumes "node_step L st st'"
  shows "beside key st st' \<or> (\<exists>now z rs reply. batch_finish L now z (Some key) rs st = (st', reply))"
  using assms
proof cases
  case (finishes now z k rs reply)
  show ?thesis
  proof (cases "k = Some key")
    case True
    with finishes show ?thesis by blast
  next
    case False
    with finishes have "beside key st st'"
      by (auto simp: batch_finish_def Let_def split: option.splits intro: beside.intros)
    then show ?thesis ..
  qed
next
  case (begins now body start)
  then show ?thesis using begin_beside by blast
next
  case (sweeps now)
  then show ?thesis by (simp add: cleanup_def Let_def beside.sessions)
next
  case (single env rq reply)
  then show ?thesis using same_setup_tunnel beside.sessions by blast
next
  case (op env i op acc acc')
  then show ?thesis using same_setup_phase1_op [OF same_setup_refl op] beside.sessions by blast
next
  case (job env i j acc acc')
  then show ?thesis using same_setup_join [OF same_setup_refl job(2)] beside.sessions by blast
qed (simp_all add: beside.sessions)

lemma beside_setup: "(beside key)\<^sup>*\<^sup>* st st' \<Longrightarrow> nd_auth_key st' = nd_auth_key st \<and> nd_diagnostic st' = nd_diagnostic st"
  by (induction rule: rtranclp_induct) (auto simp: same_setup_def elim!: beside.cases)

text \<open>Beside the completions of a batch, no other finished entry appears for it.\<close>

definition only_entry :: "fingerprint \<Rightarrow> replay_entry \<Rightarrow> replay_registry \<Rightarrow> bool" where
  "only_entry key e r \<longleftrightarrow> (\<forall>body t. map_of (rr_entries r) key = Some (ReReady body t) \<longrightarrow> e = ReReady body t)"

lemma only_entry_forget [simp]: "only_entry key e r \<Longrightarrow> only_entry key e (forget k r)"
  by (auto simp: only_entry_def map_of_forget)

lemma only_entry_fields [simp]:
  "only_entry key e (r\<lparr>rr_order := x\<rparr>) = only_entry key e r" "only_entry key e (r\<lparr>rr_evictions := n\<rparr>) = only_entry key e r"
  "only_entry key e (r\<lparr>rr_hits := n\<rparr>) = only_entry key e r" "only_entry key e (r\<lparr>rr_coalesced := n\<rparr>) = only_entry key e r"
  by (simp_all add: only_entry_def)

lemma only_entry_claim: "only_entry key e r \<Longrightarrow> only_entry key e (fst (claim now k r))"
proof -
  assume "only_entry key e r"
  then have "only_entry key e (expire now r)" by (rule expire_invariant) auto
  then show ?thesis
    by (auto simp: claim_def Let_def only_entry_def update_conv' split: option.splits replay_entry.splits if_splits)
qed

lemma only_entry_complete: "k \<noteq> key \<Longrightarrow> only_entry key e r \<Longrightarrow> only_entry key e (fst (complete now k body r))"
proof -
  let ?r = "(forget k r)\<lparr>rr_ready_bytes := rr_ready_bytes (forget k r) + length body,
    rr_entries := AList.update k (ReReady body now) (rr_entries (forget k r))\<rparr>"
  assume "k \<noteq> key" "only_entry key e r"
  then have "only_entry key e ?r" by (auto simp: only_entry_def update_conv' map_of_forget)
  then have "only_entry key e (evict ?r)" by (rule evict_invariant) auto
  then show ?thesis by (simp add: complete_def Let_def)
qed

lemma only_entry_beside: "(beside key)\<^sup>*\<^sup>* st st' \<Longrightarrow> only_entry key e (nd_replay st) \<Longrightarrow> only_entry key e (nd_replay st')"
  by (induction rule: rtranclp_induct)
     (auto simp: same_setup_def elim!: beside.cases intro: only_entry_claim only_entry_complete)

text \<open>C32: a batch that can be replayed and is sent again within 60 s of its completion is not run again.
  Let a request own the batch, and let it be completed, with whatever happening on the node meanwhile;
  then, after whatever else happens on the node (readers, sweeps, other requests, other batches and
  their completions), the same body arrives again, with a finished entry for it still in the registry
  that no other run of the batch has put there. The repetition gets the answer of the first, byte for
  byte, and touches no session: a retry neither uploads nor downloads twice.\<close>

theorem replayed_batch_not_rerun:
  assumes "batch_begin L t0 body st = (sta, Running ops z (Some key))"
    and "(beside key)\<^sup>*\<^sup>* sta stb" "batch_finish L t1 z (Some key) rs stb = (st1, reply)"
    and "(beside key)\<^sup>*\<^sup>* st1 st2" "map_of (rr_entries (nd_replay st2)) key = Some (ReReady stored t)"
    and "ne_now env < t1 + REPLAY_TTL"
  shows "\<exists>reg. handle_batch L env body st2 = (st2\<lparr>nd_replay := reg\<rparr>, Replied reply)"
proof -
  let ?json = "batch_body L z rs"
  have prep0: "batch_prepare L st body = Inr (ops, z)" and fp: "replay_fingerprint L ops z = Some key"
    using assms(1) by (auto simp: batch_begin_def split: sum.splits prod.splits option.splits replay_claim.splits)
  have st1: "st1 = stb\<lparr>nd_replay := fst (complete t1 key ?json (nd_replay stb))\<rparr>" and reply: "reply = json_reply ?json"
    using assms(3) by (auto simp: batch_finish_def Let_def)
  have "only_entry key (ReReady ?json t1) (nd_replay st1)"
    using complete_entry [of t1 key ?json "nd_replay stb"] st1 by (auto simp: only_entry_def)
  from only_entry_beside [OF assms(4) this] assms(5) have e: "ReReady stored t = ReReady ?json t1"
    by (simp add: only_entry_def)
  have "nd_auth_key st2 = nd_auth_key st" "nd_diagnostic st2 = nd_diagnostic st"
    using beside_setup [OF assms(2)] beside_setup [OF assms(4)] begin_only_registry [OF assms(1)] st1 by auto
  then have prep: "batch_prepare L st2 body = Inr (ops, z)" using prep0 by (simp only: batch_prepare_def)
  have "\<not> expired (ne_now env) (map_of (rr_entries (nd_replay st2)) key)"
    using assms(5,6) e by (simp add: REPLAY_TTL_def)
  then have "map_of (rr_entries (expire (ne_now env) (nd_replay st2))) key = Some (ReReady ?json t1)"
    using expire_keeps [of "ne_now env" "nd_replay st2" key] assms(5) e by simp
  then obtain reg where "claim (ne_now env) key (nd_replay st2) = (reg, ClHit ?json)"
    by (auto simp: claim_def Let_def)
  with prep fp reply show ?thesis by (auto simp: handle_batch_def batch_begin_def)
qed

definition poll_lib :: node_lib where
  "poll_lib = plain_lib\<lparr>nl_parse_batch := (\<lambda>_. Inr \<lparr>br_k = ''k'', br_ops = [two_ops ! 1], br_zops = None, br_zc = None\<rparr>)\<rparr>"

lemma first_claim:
  "snd (claim 0 key new_registry) = ClOwner 0"
  "map_of (rr_entries (fst (complete 0 key [] (fst (claim 0 key new_registry))))) key = Some (ReReady [] 0)"
  by (simp_all add: claim_def new_registry_def expire.simps Let_def complete_def forget_def evict.simps
      over_limit_def REPLAY_MAX_ENTRIES_def REPLAY_MAX_BYTES_def)

text \<open>A poll is run and completed; a session is opened by another request, and the reaper sweeps; then the
  poll comes again.\<close>

theorem replayed_batch_not_rerun_witness:
  "\<exists>key st1 reply reg.
     batch_finish poll_lib 0 False (Some key) [eof_response ''zz'' (Some 7)] (fst (batch_begin poll_lib 0 [1] new_node)) = (st1, reply) \<and>
     (let st2 = cleanup 40 (fst (handle_connect calm_env 0 (Some ''h'') (Some 80) st1)) in
      handle_batch poll_lib calm_env [1] st2 = (st2\<lparr>nd_replay := reg\<rparr>, Replied reply))"
proof -
  let ?op = "two_ops ! 1" and ?key = "0 # concat [map (of_nat \<circ> of_char) (bo_op (two_ops ! 1))]"
  let ?rs = "[eof_response ''zz'' (Some 7)]"
  have prep: "batch_prepare poll_lib new_node [1] = Inr ([?op], False)"
    by (simp add: batch_prepare_def poll_lib_def new_node_def)
  have fp: "replay_fingerprint poll_lib [?op] False = Some ?key"
    by (simp add: replay_fingerprint_def poll_lib_def plain_lib_def two_ops_def)
  obtain reg where cl: "claim 0 ?key new_registry = (reg, ClOwner 0)" using first_claim(1) by (metis prod.collapse)
  let ?sta = "new_node\<lparr>nd_replay := reg\<rparr>"
  have begins: "batch_begin poll_lib 0 [1] new_node = (?sta, Running [?op] False (Some ?key))"
    using prep fp cl by (simp add: batch_begin_def) (simp add: new_node_def)
  let ?st1 = "?sta\<lparr>nd_replay := fst (complete 0 ?key [] reg)\<rparr>"
  have fin: "batch_finish poll_lib 0 False (Some ?key) ?rs ?sta = (?st1, json_reply [])"
    by (simp add: batch_finish_def batch_body_def poll_lib_def plain_lib_def)
  let ?st2 = "cleanup 40 (fst (handle_connect calm_env 0 (Some ''h'') (Some 80) ?st1))"
  have same: "same_setup ?st1 ?st2"
    using same_setup_connect(1) [of ?st1 calm_env 0 "Some ''h''" "Some 80"] by (simp only: cleanup_def Let_def same_setup_folds)
  have "map_of (rr_entries (nd_replay ?st2)) ?key = Some (ReReady [] 0)"
    using first_claim(2) [of ?key] cl same by (simp add: same_setup_def)
  moreover have "(beside ?key)\<^sup>*\<^sup>* ?st1 ?st2" using beside.sessions [OF same] by blast
  moreover have "ne_now calm_env < 0 + REPLAY_TTL" by (simp add: calm_env_def REPLAY_TTL_def)
  ultimately have "\<exists>reg. handle_batch poll_lib calm_env [1] ?st2 = (?st2\<lparr>nd_replay := reg\<rparr>, Replied (json_reply []))"
    by (intro replayed_batch_not_rerun [OF begins rtranclp.rtrancl_refl fin])
  with fin begins show ?thesis by (auto simp only: fst_conv Let_def)
qed

end
