(* ===== verification/Tunnel_Loop.thy ===== *)
theory Tunnel_Loop
  imports Tunnel_Node
begin

text \<open>
  A session of the tunnel client (\<open>tunnel_loop\<close> in \<^verbatim>\<open>src/src/tunnel_client.rs\<close>): the pipelined polls and
  uploads, the ordering of replies by \<open>seq\<close>, the adaptive depth with the shared budget of elevated
  sessions, the pacing of refills and the detection of deployments without long polls. The loop is a
  step function on the events of its \<^verbatim>\<open>select!\<close>; which event comes next is open. The response record is
  the wire format shared with the node. Shown: replies are written to the local socket in the order of
  the requests they answer; uploads carry the client's bytes in order, numbered from 0; at most ten
  operations are in flight and the upload buffer is never used; and a failed write to the local socket
  never gives the elevation back.
\<close>

section \<open>Constants and pacing\<close>

definition INFLIGHT_IDLE :: nat where "INFLIGHT_IDLE = 1"
definition INFLIGHT_OPTIMIST :: nat where "INFLIGHT_OPTIMIST = 3"
definition INFLIGHT_ACTIVE :: nat where "INFLIGHT_ACTIVE = 6"
definition MAX_ELEVATED_PER_DEPLOYMENT :: nat where "MAX_ELEVATED_PER_DEPLOYMENT = 30"
definition ACTIVE_REFILL_DELAY_MS :: nat where "ACTIVE_REFILL_DELAY_MS = 1000"
definition IDLE_REFILL_DELAY_START_EMPTY :: nat where "IDLE_REFILL_DELAY_START_EMPTY = 4"
definition IDLE_REFILL_DELAY_STEP_MS :: nat where "IDLE_REFILL_DELAY_STEP_MS = 1000"
definition IDLE_REFILL_DELAY_MAX_MS :: nat where "IDLE_REFILL_DELAY_MAX_MS = 7000"
definition LEGACY_DETECT_THRESHOLD :: nat where "LEGACY_DETECT_THRESHOLD = 1500"
definition LEGACY_RECOVER_AFTER :: nat where "LEGACY_RECOVER_AFTER = 60000"

definition is_idle_depth :: "nat \<Rightarrow> bool" where
  "is_idle_depth max_inflight \<longleftrightarrow> max_inflight = INFLIGHT_IDLE"

definition should_suppress_empty_refill :: "bool \<Rightarrow> bool \<Rightarrow> nat \<Rightarrow> nat \<Rightarrow> bool \<Rightarrow> bool" where
  "should_suppress_empty_refill has_buffered closed max_inflight empties all_legacy \<longleftrightarrow>
     \<not> has_buffered \<and> \<not> closed \<and> is_idle_depth max_inflight
     \<and> IDLE_REFILL_DELAY_START_EMPTY \<le> empties \<and> all_legacy"

definition refill_delay :: "nat \<Rightarrow> nat \<Rightarrow> nat" where
  "refill_delay max_inflight empties =
     (if \<not> is_idle_depth max_inflight then ACTIVE_REFILL_DELAY_MS
      else if empties < IDLE_REFILL_DELAY_START_EMPTY then 0
      else min (((empties - IDLE_REFILL_DELAY_START_EMPTY) div 4 + 1) * IDLE_REFILL_DELAY_STEP_MS)
             IDLE_REFILL_DELAY_MAX_MS)"

section \<open>What sessions share\<close>

text \<open>The part of \<open>TunnelMux\<close> a session works on: the count of elevated sessions with its limit, and the
  deployments seen without long polls, by the time they were marked.\<close>

record mux =
  mx_elevated :: nat
  mx_max_elevated :: nat
  mx_legacy :: "(string \<times> nat) list"
  mx_all_legacy :: bool
  mx_num_scripts :: nat

definition recent_legacy :: "nat \<Rightarrow> (string \<times> nat) list \<Rightarrow> (string \<times> nat) list" where
  "recent_legacy now deps = filter (\<lambda>(_, marked_at). now - marked_at < LEGACY_RECOVER_AFTER) deps"

definition all_servers_legacy :: "nat \<Rightarrow> mux \<Rightarrow> mux \<times> bool" where
  "all_servers_legacy now m =
     (if \<not> mx_all_legacy m then (m, False)
      else let deps = recent_legacy now (mx_legacy m);
               still_all = (length deps = mx_num_scripts m) in
           (m\<lparr>mx_legacy := deps, mx_all_legacy := still_all\<rparr>, still_all))"

definition mark_server_no_longpoll :: "nat \<Rightarrow> string \<Rightarrow> mux \<Rightarrow> mux" where
  "mark_server_no_longpoll now script m =
     (let deps = AList.update script now (recent_legacy now (mx_legacy m)) in
      m\<lparr>mx_legacy := deps, mx_all_legacy := (length deps = mx_num_scripts m)\<rparr>)"

section \<open>The state of a session\<close>

record data_msg =
  dm_data :: bytes
  dm_seq :: u64
  dm_wseq :: "u64 option"

record inflight_meta =
  im_seq :: u64
  im_was_empty_poll :: bool
  im_send_at :: nat

datatype reply_outcome =
    RoOk tunnel_response string
  | RoBatchErr string
  | RoTimeout
  | RoDropped

datatype tunnel_end =
    RemoteEof u64
  | NeedsClose

text \<open>How the function returns: a \<open>TunnelEnd\<close>, or the error of a write to the local socket.\<close>

datatype loop_end =
    EndOk tunnel_end
  | EndIo

record tunnel_loop =
  tl_max_inflight :: nat
  tl_consecutive_empty :: nat
  tl_consecutive_data :: nat
  tl_is_elevated :: bool
  tl_total_download :: u64
  tl_next_send_seq :: u64
  tl_next_write_seq :: u64
  tl_next_data_write_seq :: u64
  tl_eof_seen :: bool
  tl_client_closed :: bool
  tl_pending_writes :: "(u64, tunnel_response \<times> string) btree"
  tl_supports_seq :: bool
  tl_buffered_upload :: "bytes option"
  tl_inflight :: "inflight_meta list"
  tl_inflight_uploads :: nat
  tl_refill_at :: "nat option"
  tl_sent :: "data_msg list"
  tl_written :: "bytes list"
  tl_end :: "loop_end option"

definition sat_inc :: "nat \<Rightarrow> nat" where "sat_inc n = min (2 ^ 32 - 1) (n + 1)"

text \<open>The two helpers that hand an op to the multiplexer, with the push onto the in-flight set that
  follows each of their calls.\<close>

definition send_empty_poll :: "nat \<Rightarrow> tunnel_loop \<Rightarrow> tunnel_loop" where
  "send_empty_poll now st =
     st\<lparr>tl_next_send_seq := tl_next_send_seq st + 1,
        tl_sent := tl_sent st @ [\<lparr>dm_data = [], dm_seq = tl_next_send_seq st, dm_wseq = None\<rparr>],
        tl_inflight := tl_inflight st @
          [\<lparr>im_seq = tl_next_send_seq st, im_was_empty_poll = True, im_send_at = now\<rparr>]\<rparr>"

definition send_data_op :: "nat \<Rightarrow> bytes \<Rightarrow> tunnel_loop \<Rightarrow> tunnel_loop" where
  "send_data_op now data st =
     st\<lparr>tl_next_send_seq := tl_next_send_seq st + 1,
        tl_next_data_write_seq := tl_next_data_write_seq st + 1,
        tl_sent := tl_sent st @
          [\<lparr>dm_data = data, dm_seq = tl_next_send_seq st, dm_wseq = Some (tl_next_data_write_seq st)\<rparr>],
        tl_inflight_uploads := tl_inflight_uploads st + 1,
        tl_inflight := tl_inflight st @
          [\<lparr>im_seq = tl_next_send_seq st, im_was_empty_poll = False, im_send_at = now\<rparr>]\<rparr>"

definition fresh_loop :: tunnel_loop where
  "fresh_loop =
     \<lparr>tl_max_inflight = min INFLIGHT_OPTIMIST INFLIGHT_ACTIVE, tl_consecutive_empty = 0,
      tl_consecutive_data = 0, tl_is_elevated = False, tl_total_download = 0, tl_next_send_seq = 0,
      tl_next_write_seq = 0, tl_next_data_write_seq = 0, tl_eof_seen = False, tl_client_closed = False,
      tl_pending_writes = [], tl_supports_seq = False, tl_buffered_upload = None, tl_inflight = [],
      tl_inflight_uploads = 0, tl_refill_at = None, tl_sent = [], tl_written = [], tl_end = None\<rparr>"

text \<open>Up to the main loop: the pending client data, one poll, the refill timer.\<close>

definition tunnel_loop_start :: "nat \<Rightarrow> bytes option \<Rightarrow> tunnel_loop" where
  "tunnel_loop_start now pending_client_data =
     (let st1 = (case pending_client_data of
                   Some data \<Rightarrow> if data = [] then fresh_loop else send_data_op now data fresh_loop
                 | None \<Rightarrow> fresh_loop);
          st2 = (if length (tl_inflight st1) < tl_max_inflight st1 then send_empty_poll now st1 else st1) in
      if length (tl_inflight st2) < tl_max_inflight st2
      then st2\<lparr>tl_refill_at := Some (now + ACTIVE_REFILL_DELAY_MS)\<rparr> else st2)"

text \<open>Leaving the loop by \<open>break\<close> gives an elevation back.\<close>

definition finish :: "mux \<times> tunnel_loop \<Rightarrow> mux \<times> tunnel_loop" where
  "finish = (\<lambda>(m, st).
     (if tl_is_elevated st then m\<lparr>mx_elevated := mx_elevated m - 1\<rparr> else m,
      st\<lparr>tl_end := Some (EndOk (if tl_eof_seen st then RemoteEof (tl_total_download st) else NeedsClose))\<rparr>))"

section \<open>Writing replies\<close>

datatype write_outcome = Wrote | NoData | BadBase64

type_synonym b64 = "string \<Rightarrow> (bytes, string) result"

text \<open>The bytes to write and the outcome when the write succeeds.\<close>

definition write_tunnel_response :: "b64 \<Rightarrow> tunnel_response \<Rightarrow> bytes \<times> write_outcome" where
  "write_tunnel_response dec resp =
     (case tr_d resp of
        None \<Rightarrow> ([], NoData)
      | Some d \<Rightarrow>
          if d = [] then ([], NoData) else
          (case dec d of
             Inr bs \<Rightarrow> if bs = [] then ([], NoData) else (bs, Wrote)
           | Inl _ \<Rightarrow> ([], BadBase64)))"

text \<open>One reply written in its turn, with the bookkeeping around it. \<open>wok\<close> writes to the local socket
  succeed before one fails; the results distinguish going on, a bad reply and a failed write.\<close>

datatype write_step = WsOk nat tunnel_loop | WsBad tunnel_loop | WsIo tunnel_loop

definition reply_bytes :: "tunnel_response \<Rightarrow> u64" where
  "reply_bytes resp = (case tr_d resp of None \<Rightarrow> 0 | Some d \<Rightarrow> word_of_nat (length d) * 3 div 4)"

definition write_in_turn :: "b64 \<Rightarrow> nat \<Rightarrow> tunnel_response \<Rightarrow> tunnel_loop \<Rightarrow> write_step" where
  "write_in_turn dec wok resp st =
     (let next = (\<lambda>st. st\<lparr>tl_next_write_seq := tl_next_write_seq st + 1,
                          tl_eof_seen := (tl_eof_seen st \<or> tr_eof resp = Some True)\<rparr>) in
      case write_tunnel_response dec resp of
        (_, BadBase64) \<Rightarrow> WsBad st
      | (_, NoData) \<Rightarrow> WsOk wok (next (st\<lparr>tl_consecutive_empty := sat_inc (tl_consecutive_empty st)\<rparr>))
      | (bs, Wrote) \<Rightarrow>
          if wok = 0 then WsIo st
          else WsOk (wok - 1)
                 (next (st\<lparr>tl_written := tl_written st @ [bs], tl_consecutive_empty := 0,
                           tl_consecutive_data := sat_inc (tl_consecutive_data st),
                           tl_total_download := tl_total_download st + reply_bytes resp\<rparr>)))"

fun flush_replies :: "b64 \<Rightarrow> nat \<Rightarrow> (u64, tunnel_response \<times> string) btree \<Rightarrow> tunnel_loop \<Rightarrow> write_step" where
  "flush_replies dec wok [] st = WsOk wok (st\<lparr>tl_pending_writes := []\<rparr>)"
| "flush_replies dec wok ((k, resp, script) # rest) st =
     (if k \<noteq> tl_next_write_seq st then WsOk wok (st\<lparr>tl_pending_writes := (k, resp, script) # rest\<rparr>)
      else case write_in_turn dec wok resp (st\<lparr>tl_pending_writes := rest\<rparr>) of
             WsOk wok' st' \<Rightarrow> flush_replies dec wok' rest st'
           | r \<Rightarrow> r)"

definition deliver_reply :: "b64 \<Rightarrow> nat \<Rightarrow> u64 \<Rightarrow> tunnel_response \<Rightarrow> string \<Rightarrow> tunnel_loop \<Rightarrow> write_step" where
  "deliver_reply dec wok q resp script st =
     (if q = tl_next_write_seq st then
        (case write_in_turn dec wok resp st of
           WsOk wok' st' \<Rightarrow> flush_replies dec wok' (tl_pending_writes st') st'
         | r \<Rightarrow> r)
      else WsOk wok (st\<lparr>tl_pending_writes := bt_insert q (resp, script) (tl_pending_writes st)\<rparr>))"

text \<open>During the grace period after the end of the stream write errors and bad replies are ignored, and
  the counters stand still.\<close>

definition grace_write :: "b64 \<Rightarrow> nat \<Rightarrow> tunnel_response \<Rightarrow> tunnel_loop \<Rightarrow> nat \<times> tunnel_loop" where
  "grace_write dec wok resp st =
     (case write_tunnel_response dec resp of
        (bs, Wrote) \<Rightarrow>
          (wok - 1, st\<lparr>tl_written := (if wok = 0 then tl_written st else tl_written st @ [bs]),
                       tl_next_write_seq := tl_next_write_seq st + 1\<rparr>)
      | _ \<Rightarrow> (wok, st\<lparr>tl_next_write_seq := tl_next_write_seq st + 1\<rparr>))"

fun grace_flush :: "b64 \<Rightarrow> nat \<Rightarrow> (u64, tunnel_response \<times> string) btree \<Rightarrow> tunnel_loop \<Rightarrow> tunnel_loop" where
  "grace_flush dec wok [] st = st\<lparr>tl_pending_writes := []\<rparr>"
| "grace_flush dec wok ((k, resp, script) # rest) st =
     (if k \<noteq> tl_next_write_seq st then st\<lparr>tl_pending_writes := (k, resp, script) # rest\<rparr>
      else case grace_write dec wok resp st of (wok', st') \<Rightarrow> grace_flush dec wok' rest st')"

definition grace_reply :: "b64 \<Rightarrow> nat \<Rightarrow> u64 \<Rightarrow> tunnel_response \<Rightarrow> string \<Rightarrow> tunnel_loop \<Rightarrow> tunnel_loop" where
  "grace_reply dec wok q resp script st =
     (if q = tl_next_write_seq st then
        (case grace_write dec wok resp st of (wok', st') \<Rightarrow> grace_flush dec wok' (tl_pending_writes st') st')
      else st\<lparr>tl_pending_writes := bt_insert q (resp, script) (tl_pending_writes st)\<rparr>)"

section \<open>The depth of the pipeline\<close>

definition adapt_depth :: "mux \<times> tunnel_loop \<Rightarrow> mux \<times> tunnel_loop" where
  "adapt_depth = (\<lambda>(m, st).
     let d = tl_max_inflight st in
     if 2 \<le> tl_consecutive_empty st \<and> \<not> is_idle_depth d then
       (if tl_is_elevated st then m\<lparr>mx_elevated := mx_elevated m - 1\<rparr> else m,
        st\<lparr>tl_max_inflight := min INFLIGHT_IDLE INFLIGHT_ACTIVE, tl_is_elevated := False\<rparr>)
     else if 1 \<le> tl_consecutive_data st \<and> d < INFLIGHT_OPTIMIST then
       (m, st\<lparr>tl_max_inflight := min INFLIGHT_OPTIMIST INFLIGHT_ACTIVE\<rparr>)
     else if 2 \<le> tl_consecutive_data st \<and> INFLIGHT_OPTIMIST \<le> d \<and> d < INFLIGHT_ACTIVE
             \<and> 32 * 1024 \<le> tl_total_download st then
       (if \<not> tl_is_elevated st then
          (if mx_max_elevated m \<le> mx_elevated m then (m, st)
           else (m\<lparr>mx_elevated := mx_elevated m + 1\<rparr>,
                 st\<lparr>tl_is_elevated := True, tl_max_inflight := min (d + 1) INFLIGHT_ACTIVE\<rparr>))
        else (m, st\<lparr>tl_max_inflight := min (d + 1) INFLIGHT_ACTIVE\<rparr>))
     else (m, st))"

section \<open>The loop\<close>

text \<open>The events of a turn: the refill timer, the reply of an operation in flight (with the number of
  writes to the local socket that will succeed), a read from the local socket (\<open>None\<close> for an error,
  nothing for its end), and the end of the grace period.\<close>

datatype loop_ev =
    LRefill
  | LReply inflight_meta reply_outcome nat
  | LRead "bytes option"
  | LGrace

text \<open>What the loop does at its top, before it waits.\<close>

definition loop_top :: "nat \<Rightarrow> mux \<times> tunnel_loop \<Rightarrow> mux \<times> tunnel_loop" where
  "loop_top now = (\<lambda>(m, st).
     if tl_end st \<noteq> None then (m, st)
     else if tl_inflight st = [] \<and> (tl_eof_seen st \<or> tl_client_closed st) then finish (m, st)
     else if tl_inflight st = [] \<and> tl_refill_at st = None then
       (case all_servers_legacy now m of
          (m', all_legacy) \<Rightarrow>
            if all_legacy \<and> IDLE_REFILL_DELAY_START_EMPTY \<le> tl_consecutive_empty st then (m', st)
            else (m', send_empty_poll now st))
     else (m, st))"

definition can_read :: "tunnel_loop \<Rightarrow> bool" where
  "can_read st \<longleftrightarrow> \<not> tl_client_closed st \<and> \<not> tl_eof_seen st \<and>
     length (tl_inflight st) < tl_max_inflight st + (if tl_supports_seq st then 4 else 0)"

definition refill_fired :: "nat \<Rightarrow> mux \<times> tunnel_loop \<Rightarrow> mux \<times> tunnel_loop" where
  "refill_fired now = (\<lambda>(m, st0).
     let st = st0\<lparr>tl_refill_at := None\<rparr> in
     if tl_eof_seen st \<or> tl_max_inflight st \<le> length (tl_inflight st) then (m, st)
     else
       (case all_servers_legacy now m of
          (m', all_legacy) \<Rightarrow>
            if should_suppress_empty_refill (tl_buffered_upload st \<noteq> None) (tl_client_closed st)
                 (tl_max_inflight st) (tl_consecutive_empty st) all_legacy
            then (m', st)
            else let st1 = (case tl_buffered_upload st of
                              Some data \<Rightarrow> send_data_op now data (st\<lparr>tl_buffered_upload := None\<rparr>)
                            | None \<Rightarrow> if 0 < tl_inflight_uploads st then st else send_empty_poll now st) in
              (m', if length (tl_inflight st1) < tl_max_inflight st1 \<and> \<not> is_idle_depth (tl_max_inflight st1)
                   then st1\<lparr>tl_refill_at := Some (now + refill_delay (tl_max_inflight st1) (tl_consecutive_empty st1))\<rparr>
                   else st1)))"

text \<open>An operation leaves the in-flight set.\<close>

definition landed :: "inflight_meta \<Rightarrow> tunnel_loop \<Rightarrow> tunnel_loop" where
  "landed meta st =
     st\<lparr>tl_inflight := remove1 meta (tl_inflight st),
        tl_inflight_uploads := (if im_was_empty_poll meta then tl_inflight_uploads st else tl_inflight_uploads st - 1)\<rparr>"

definition send_buffered :: "nat \<Rightarrow> tunnel_loop \<Rightarrow> tunnel_loop" where
  "send_buffered now st =
     (case tl_buffered_upload st of
        Some data \<Rightarrow>
          if length (tl_inflight st) < tl_max_inflight st
          then (send_data_op now data (st\<lparr>tl_buffered_upload := None\<rparr>))\<lparr>tl_consecutive_empty := 0, tl_refill_at := None\<rparr>
          else st
      | None \<Rightarrow> st)"

definition schedule_refill :: "nat \<Rightarrow> mux \<times> tunnel_loop \<Rightarrow> mux \<times> tunnel_loop" where
  "schedule_refill now = (\<lambda>(m, st).
     if \<not> tl_eof_seen st \<and> length (tl_inflight st) < tl_max_inflight st \<and> tl_inflight_uploads st = 0
        \<and> tl_refill_at st = None
     then (case all_servers_legacy now m of
             (m', all_legacy) \<Rightarrow>
               (m', if should_suppress_empty_refill (tl_buffered_upload st \<noteq> None) (tl_client_closed st)
                         (tl_max_inflight st) (tl_consecutive_empty st) all_legacy
                    then st
                    else st\<lparr>tl_refill_at := Some (now + refill_delay (tl_max_inflight st) (tl_consecutive_empty st))\<rparr>))
     else (m, st))"

definition reply_has_data :: "tunnel_response \<Rightarrow> bool" where
  "reply_has_data resp \<longleftrightarrow> (case tr_d resp of None \<Rightarrow> False | Some d \<Rightarrow> d \<noteq> [])"

text \<open>What a reply says of its deployment: whether the node echoes sequence numbers and holds polls.\<close>

definition note_reply :: "nat \<Rightarrow> inflight_meta \<Rightarrow> tunnel_response \<Rightarrow> string \<Rightarrow> mux \<times> tunnel_loop \<Rightarrow> mux \<times> tunnel_loop" where
  "note_reply now meta resp script = (\<lambda>(m, st).
     let fast_empty_poll = (im_was_empty_poll meta \<and> \<not> reply_has_data resp
                            \<and> now - im_send_at meta < LEGACY_DETECT_THRESHOLD) in
     (if tr_seq resp = None \<or> fast_empty_poll then mark_server_no_longpoll now script m else m,
      st\<lparr>tl_supports_seq := (tl_supports_seq st \<or> tr_seq resp \<noteq> None),
         tl_max_inflight := (if tr_seq resp = None then 1 else tl_max_inflight st)\<rparr>))"

definition handle_reply :: "b64 \<Rightarrow> nat \<Rightarrow> inflight_meta \<Rightarrow> reply_outcome \<Rightarrow> nat \<Rightarrow> mux \<times> tunnel_loop \<Rightarrow> mux \<times> tunnel_loop" where
  "handle_reply dec now meta out wok = (\<lambda>(m, st0).
     case out of
       RoOk resp script \<Rightarrow>
         (case note_reply now meta resp script (m, landed meta st0) of
            (m1, st1) \<Rightarrow>
              if tr_e resp \<noteq> None then finish (m1, st1)
              else (case deliver_reply dec wok (im_seq meta) resp script st1 of
                      WsBad st2 \<Rightarrow> finish (m1, st2)
                    | WsIo st2 \<Rightarrow> (m1, st2\<lparr>tl_end := Some EndIo\<rparr>)
                    | WsOk _ st2 \<Rightarrow>
                        let st3 = send_buffered now st2 in
                        schedule_refill now (if tr_seq resp = None then (m1, st3) else adapt_depth (m1, st3))))
     | _ \<Rightarrow> finish (m, landed meta st0))"

definition handle_read :: "nat \<Rightarrow> bytes option \<Rightarrow> tunnel_loop \<Rightarrow> tunnel_loop" where
  "handle_read now r st =
     (case r of
        None \<Rightarrow> st\<lparr>tl_client_closed := True\<rparr>
      | Some [] \<Rightarrow> st\<lparr>tl_client_closed := True\<rparr>
      | Some data \<Rightarrow>
          if length (tl_inflight st) < tl_max_inflight st + 4
          then (send_data_op now data st)\<lparr>tl_consecutive_empty := 0, tl_refill_at := None\<rparr>
          else st\<lparr>tl_buffered_upload := Some (case tl_buffered_upload st of None \<Rightarrow> data | Some old \<Rightarrow> old @ data)\<rparr>)"

text \<open>One turn: the event the session waits for, then the top of the loop. A session is over, in the
  grace period after the remote end, waiting for a read with nothing in flight (deployments without
  long polls), or in the select; an event it does not wait for does not happen.\<close>

definition tunnel_step :: "b64 \<Rightarrow> nat \<times> loop_ev \<Rightarrow> mux \<times> tunnel_loop \<Rightarrow> mux \<times> tunnel_loop" where
  "tunnel_step dec = (\<lambda>(now, ev) (m, st).
     if tl_end st \<noteq> None then (m, st)
     else if tl_eof_seen st then
       (case ev of
          LReply meta (RoOk resp script) wok \<Rightarrow>
            if meta \<in> set (tl_inflight st)
            then loop_top now (m, grace_reply dec wok (im_seq meta) resp script (landed meta st)) else (m, st)
        | LReply meta _ _ \<Rightarrow> if meta \<in> set (tl_inflight st) then finish (m, landed meta st) else (m, st)
        | LGrace \<Rightarrow> finish (m, st)
        | _ \<Rightarrow> (m, st))
     else if tl_inflight st = [] \<and> tl_refill_at st = None then
       (case ev of
          LRead (Some (b # bs)) \<Rightarrow>
            loop_top now (m, send_data_op now (b # bs) (st\<lparr>tl_consecutive_empty := 0\<rparr>))
        | LRead _ \<Rightarrow> finish (m, st)
        | _ \<Rightarrow> (m, st))
     else
       (case ev of
          LRefill \<Rightarrow>
            (case tl_refill_at st of
               None \<Rightarrow> (m, st)
             | Some t \<Rightarrow> if t \<le> now then loop_top now (refill_fired now (m, st)) else (m, st))
        | LReply meta out wok \<Rightarrow>
            if meta \<in> set (tl_inflight st) then loop_top now (handle_reply dec now meta out wok (m, st)) else (m, st)
        | LRead r \<Rightarrow> if can_read st then loop_top now (m, handle_read now r st) else (m, st)
        | LGrace \<Rightarrow> (m, st)))"

text \<open>A session among others: before each of its events the shared part is whatever the others left.\<close>

definition tunnel_run :: "b64 \<Rightarrow> (mux \<times> nat \<times> loop_ev) list \<Rightarrow> tunnel_loop \<Rightarrow> tunnel_loop" where
  "tunnel_run dec evs st = fold (\<lambda>(m, e) st. snd (tunnel_step dec e (m, st))) evs st"

section \<open>Replies are written in the order of their requests\<close>

text \<open>\<open>rep q\<close> is the reply to the operation with sequence number \<open>q\<close>; \<open>reply_stream rep dec n\<close> are
  the pieces of data in the first \<open>n\<close> replies, in order.\<close>

definition reply_stream :: "(u64 \<Rightarrow> tunnel_response) \<Rightarrow> b64 \<Rightarrow> nat \<Rightarrow> bytes list" where
  "reply_stream rep dec n =
     filter (\<lambda>b. b \<noteq> []) (map (\<lambda>i. fst (write_tunnel_response dec (rep (word_of_nat i)))) [0..<n])"

definition pend_ok :: "(u64 \<Rightarrow> tunnel_response) \<Rightarrow> u64 \<Rightarrow> (u64, tunnel_response \<times> string) btree \<Rightarrow> bool" where
  "pend_ok rep b m \<longleftrightarrow> (\<forall>e\<in>set m. fst (snd e) = rep (fst e) \<and> fst e < b)"

definition seq_ok :: "(u64 \<Rightarrow> tunnel_response) \<Rightarrow> b64 \<Rightarrow> tunnel_loop \<Rightarrow> bool" where
  "seq_ok rep dec st \<longleftrightarrow>
     (\<forall>meta\<in>set (tl_inflight st). im_seq meta < tl_next_send_seq st) \<and>
     pend_ok rep (tl_next_send_seq st) (tl_pending_writes st) \<and>
     tl_next_write_seq st \<le> tl_next_send_seq st \<and>
     subseq (tl_written st) (reply_stream rep dec (unat (tl_next_write_seq st))) \<and>
     (\<not> tl_eof_seen st \<longrightarrow> tl_written st = reply_stream rep dec (unat (tl_next_write_seq st)))"

lemma write_cases:
  "fst (write_tunnel_response dec r) \<noteq> [] \<longleftrightarrow> snd (write_tunnel_response dec r) = Wrote"
  by (auto simp: write_tunnel_response_def split: option.splits sum.splits)

lemma reply_stream_Suc:
  assumes "q < (b :: u64)"
  shows "unat (q + 1) = Suc (unat q)" "q + 1 \<le> b"
    "reply_stream rep dec (Suc (unat q)) = reply_stream rep dec (unat q) @
       (if snd (write_tunnel_response dec (rep q)) = Wrote then [fst (write_tunnel_response dec (rep q))] else [])"
proof -
  have "unat q < unat b" using assms by (simp add: word_less_nat_alt)
  then have "unat q < 2 ^ 64 - 1" using unat_bound [of b] by simp
  then show "unat (q + 1) = Suc (unat q)" by (rule unat_Suc_u64)
  show "q + 1 \<le> b" using assms by (rule inc_le)
  show "reply_stream rep dec (Suc (unat q)) = reply_stream rep dec (unat q) @
       (if snd (write_tunnel_response dec (rep q)) = Wrote then [fst (write_tunnel_response dec (rep q))] else [])"
    using write_cases [of dec "rep q"] by (simp add: reply_stream_def)
qed

lemma seq_ok_fields [simp]:
  "seq_ok rep dec (st\<lparr>tl_consecutive_empty := a\<rparr>) = seq_ok rep dec st"
  "seq_ok rep dec (st\<lparr>tl_refill_at := b\<rparr>) = seq_ok rep dec st"
  "seq_ok rep dec (st\<lparr>tl_client_closed := c\<rparr>) = seq_ok rep dec st"
  "seq_ok rep dec (st\<lparr>tl_end := e\<rparr>) = seq_ok rep dec st"
  "seq_ok rep dec (st\<lparr>tl_buffered_upload := u\<rparr>) = seq_ok rep dec st"
  "seq_ok rep dec (st\<lparr>tl_max_inflight := n\<rparr>) = seq_ok rep dec st"
  "seq_ok rep dec (st\<lparr>tl_is_elevated := c\<rparr>) = seq_ok rep dec st"
  "seq_ok rep dec (st\<lparr>tl_supports_seq := c\<rparr>) = seq_ok rep dec st"
  by (simp_all add: seq_ok_def)

lemma set_bt_insert: "set (bt_insert k v m) \<subseteq> insert (k, v) (set m)"
  by (induction k v m rule: bt_insert.induct) auto

lemma pend_ok_simps [simp]:
  "pend_ok rep b []" "pend_ok rep b ((k, r, s) # m) \<longleftrightarrow> r = rep k \<and> k < b \<and> pend_ok rep b m"
  "pend_ok rep b m \<Longrightarrow> r = rep k \<Longrightarrow> k < b \<Longrightarrow> pend_ok rep b (bt_insert k (r, s) m)"
  "pend_ok rep b m \<Longrightarrow> b \<le> b' \<Longrightarrow> pend_ok rep b' m"
  using set_bt_insert [of k "(r, s)" m] by (auto simp: pend_ok_def)

text \<open>One reply written in its turn: the next piece of the stream, or nothing changes.\<close>

definition write_step_ok :: "(u64 \<Rightarrow> tunnel_response) \<Rightarrow> b64 \<Rightarrow> write_step \<Rightarrow> bool" where
  "write_step_ok rep dec ws = (case ws of WsOk _ st \<Rightarrow> seq_ok rep dec st | WsBad st \<Rightarrow> seq_ok rep dec st | WsIo st \<Rightarrow> seq_ok rep dec st)"

lemma seq_ok_next:
  assumes "seq_ok rep dec st" "tl_next_write_seq st < tl_next_send_seq st"
    and "out = write_tunnel_response dec (rep (tl_next_write_seq st))"
    and "w = tl_written st @ (if snd out = Wrote then [fst out] else [])"
  shows "seq_ok rep dec (st\<lparr>tl_written := w, tl_next_write_seq := tl_next_write_seq st + 1,
           tl_eof_seen := tl_eof_seen st \<or> e\<rparr>)"
    "snd out = Wrote \<Longrightarrow> tl_eof_seen st \<Longrightarrow> seq_ok rep dec (st\<lparr>tl_next_write_seq := tl_next_write_seq st + 1\<rparr>)"
  using assms(1) reply_stream_Suc(1,2) [OF assms(2)] reply_stream_Suc(3) [OF assms(2), of rep dec] assms(3,4)
  by (auto simp: seq_ok_def)

lemma write_in_turn_ok:
  assumes "seq_ok rep dec st" "tl_next_write_seq st < tl_next_send_seq st" "resp = rep (tl_next_write_seq st)"
  shows "write_step_ok rep dec (write_in_turn dec wok resp st)"
    "write_in_turn dec wok resp st = WsOk wok' st' \<Longrightarrow> tl_pending_writes st' = tl_pending_writes st \<and>
       tl_next_send_seq st' = tl_next_send_seq st"
proof -
  obtain bs out where o: "write_tunnel_response dec resp = (bs, out)" by force
  show "write_step_ok rep dec (write_in_turn dec wok resp st)"
    using seq_ok_next(1) [OF assms(1,2) refl refl, where e = "tr_eof resp = Some True"] assms o
    by (cases out) (auto simp: write_step_ok_def write_in_turn_def Let_def seq_ok_def)
  show "write_in_turn dec wok resp st = WsOk wok' st' \<Longrightarrow> tl_pending_writes st' = tl_pending_writes st \<and>
       tl_next_send_seq st' = tl_next_send_seq st"
    using o by (cases out) (auto simp: write_in_turn_def Let_def split: if_splits)
qed

lemma flush_replies_ok:
  "seq_ok rep dec st \<Longrightarrow> pend_ok rep (tl_next_send_seq st) p \<Longrightarrow> write_step_ok rep dec (flush_replies dec wok p st)"
proof (induction dec wok p st rule: flush_replies.induct)
  case (1 dec wok st)
  then show ?case by (simp add: write_step_ok_def seq_ok_def)
next
  case (2 dec wok k resp script rest st)
  let ?st = "st\<lparr>tl_pending_writes := rest\<rparr>"
  have ok: "seq_ok rep dec ?st" using 2(2,3) by (simp add: seq_ok_def)
  show ?case
  proof (cases "k = tl_next_write_seq st")
    case True
    then have l: "tl_next_write_seq ?st < tl_next_send_seq ?st" "resp = rep (tl_next_write_seq ?st)"
      using 2(3) by auto
    show ?thesis
      using write_in_turn_ok [OF ok l, of wok] 2(1,3) True
      by (cases "write_in_turn dec wok resp ?st") (auto simp: write_step_ok_def)
  qed (use 2(2,3) in \<open>simp add: write_step_ok_def seq_ok_def\<close>)
qed

lemma deliver_reply_ok:
  assumes "seq_ok rep dec st" "q < tl_next_send_seq st" "resp = rep q"
  shows "write_step_ok rep dec (deliver_reply dec wok q resp script st)"
proof (cases "q = tl_next_write_seq st")
  case True
  show ?thesis
    using write_in_turn_ok [OF assms(1), of resp wok] assms True flush_replies_ok
    by (cases "write_in_turn dec wok resp st") (auto simp: deliver_reply_def write_step_ok_def seq_ok_def)
qed (use assms in \<open>auto simp: deliver_reply_def write_step_ok_def seq_ok_def\<close>)

lemma grace_write_ok:
  assumes "seq_ok rep dec st" "tl_next_write_seq st < tl_next_send_seq st"
    "resp = rep (tl_next_write_seq st)" "tl_eof_seen st" "grace_write dec wok resp st = (wok', st')"
  shows "seq_ok rep dec st'" "tl_eof_seen st'" "tl_next_send_seq st' = tl_next_send_seq st"
    "tl_pending_writes st' = tl_pending_writes st"
proof -
  obtain bs out where o: "write_tunnel_response dec resp = (bs, out)" by force
  show "seq_ok rep dec st'" "tl_eof_seen st'" "tl_next_send_seq st' = tl_next_send_seq st"
    "tl_pending_writes st' = tl_pending_writes st"
    using seq_ok_next(1) [OF assms(1,2) refl refl, where e = False] seq_ok_next(2) [OF assms(1,2) refl refl] assms(3-5) o
    by (cases out; auto simp: grace_write_def seq_ok_def)+
qed

lemma grace_flush_ok:
  "seq_ok rep dec st \<Longrightarrow> pend_ok rep (tl_next_send_seq st) p \<Longrightarrow> tl_eof_seen st \<Longrightarrow>
     seq_ok rep dec (grace_flush dec wok p st)"
proof (induction dec wok p st rule: grace_flush.induct)
  case (2 dec wok k resp script rest st)
  obtain wok' st' where g: "grace_write dec wok resp st = (wok', st')" by force
  show ?case
    using 2 grace_write_ok [OF 2(2) _ _ 2(4) g] g by (auto simp: seq_ok_def)
qed (simp add: seq_ok_def)

lemma grace_reply_ok:
  assumes "seq_ok rep dec st" "q < tl_next_send_seq st" "resp = rep q" "tl_eof_seen st"
  shows "seq_ok rep dec (grace_reply dec wok q resp script st)"
proof -
  have p: "pend_ok rep (tl_next_send_seq st) (tl_pending_writes st)" using assms(1) by (simp add: seq_ok_def)
  obtain wok' st' where g: "grace_write dec wok resp st = (wok', st')" by force
  show ?thesis
  proof (cases "q = tl_next_write_seq st")
    case True
    note w = grace_write_ok [OF assms(1) _ _ assms(4) g]
    have "seq_ok rep dec (grace_flush dec wok' (tl_pending_writes st') st')"
      by (rule grace_flush_ok) (use w assms True p in auto)
    then show ?thesis using assms(3) g True by (simp add: grace_reply_def)
  qed (use assms in \<open>simp add: grace_reply_def seq_ok_def\<close>)
qed

text \<open>The sequence numbers do not wrap while fewer than \<^term>\<open>2 ^ 64\<close> operations have been sent.\<close>

definition replies_ok :: "(u64 \<Rightarrow> tunnel_response) \<Rightarrow> b64 \<Rightarrow> tunnel_loop \<Rightarrow> bool" where
  "replies_ok rep dec st \<longleftrightarrow> tl_next_send_seq st = word_of_nat (length (tl_sent st)) \<and>
     (length (tl_sent st) < 2 ^ 64 \<longrightarrow> seq_ok rep dec st)"

lemma send_seq:
  assumes "replies_ok rep dec st" "length (tl_sent st) + 1 < 2 ^ 64"
  shows "tl_next_send_seq st < tl_next_send_seq st + 1"
proof -
  have "unat (tl_next_send_seq st) = length (tl_sent st)"
    using assms by (simp add: replies_ok_def unat_of_nat take_bit_nat_eq_self)
  then show ?thesis using assms(2) unat_Suc_u64 [of "tl_next_send_seq st"] by (simp add: word_less_nat_alt)
qed

lemma replies_ok_send:
  assumes "replies_ok rep dec st"
  shows "replies_ok rep dec (send_empty_poll now st)" "replies_ok rep dec (send_data_op now d st)"
proof -
  have "seq_ok rep dec (send_empty_poll now st)" "seq_ok rep dec (send_data_op now d st)"
    if l: "length (tl_sent st) + 1 < 2 ^ 64"
  proof -
    have "seq_ok rep dec st" using assms l by (simp add: replies_ok_def)
    then show "seq_ok rep dec (send_empty_poll now st)" "seq_ok rep dec (send_data_op now d st)"
      using send_seq [OF assms l]
      by (auto simp: seq_ok_def send_empty_poll_def send_data_op_def intro: order.strict_trans dest: less_imp_le)
  qed
  then show "replies_ok rep dec (send_empty_poll now st)" "replies_ok rep dec (send_data_op now d st)"
    using assms by (auto simp: replies_ok_def send_empty_poll_def send_data_op_def)
qed

text \<open>What writing replies leaves alone.\<close>

definition frame :: "tunnel_loop \<Rightarrow> data_msg list \<times> u64 \<times> u64 \<times> inflight_meta list \<times> nat \<times> nat \<times> bool \<times> bytes option \<times> loop_end option" where
  "frame st = (tl_sent st, tl_next_send_seq st, tl_next_data_write_seq st, tl_inflight st, tl_inflight_uploads st,
     tl_max_inflight st, tl_is_elevated st, tl_buffered_upload st, tl_end st)"

fun ws_state :: "write_step \<Rightarrow> tunnel_loop" where
  "ws_state (WsOk _ st) = st"
| "ws_state (WsBad st) = st"
| "ws_state (WsIo st) = st"

lemma frame_fields [simp]:
  "frame (st\<lparr>tl_pending_writes := p\<rparr>) = frame st" "frame (st\<lparr>tl_next_write_seq := q\<rparr>) = frame st"
  "frame (st\<lparr>tl_eof_seen := e\<rparr>) = frame st" "frame (st\<lparr>tl_written := w\<rparr>) = frame st"
  "frame (st\<lparr>tl_consecutive_empty := n\<rparr>) = frame st" "frame (st\<lparr>tl_consecutive_data := n\<rparr>) = frame st"
  "frame (st\<lparr>tl_total_download := q\<rparr>) = frame st" "frame (st\<lparr>tl_supports_seq := e\<rparr>) = frame st"
  "frame (st\<lparr>tl_refill_at := r\<rparr>) = frame st" "frame (st\<lparr>tl_client_closed := e\<rparr>) = frame st"
  by (simp_all add: frame_def)

lemma write_in_turn_frame: "frame (ws_state (write_in_turn dec wok resp st)) = frame st"
  by (auto simp: write_in_turn_def Let_def frame_def split: write_outcome.splits prod.splits)

lemma flush_replies_frame: "frame (ws_state (flush_replies dec wok p st)) = frame st"
proof (induction dec wok p st rule: flush_replies.induct)
  case (2 dec wok k resp script rest st)
  show ?case
    using 2 write_in_turn_frame [of dec wok resp "st\<lparr>tl_pending_writes := rest\<rparr>"]
    by (cases "write_in_turn dec wok resp (st\<lparr>tl_pending_writes := rest\<rparr>)") auto
qed simp

lemma deliver_reply_frame: "frame (ws_state (deliver_reply dec wok q resp script st)) = frame st"
  using write_in_turn_frame [of dec wok resp st]
  by (cases "write_in_turn dec wok resp st") (auto simp: deliver_reply_def flush_replies_frame)

lemma grace_write_frame: "frame (snd (grace_write dec wok resp st)) = frame st"
  by (auto simp: grace_write_def frame_def split: write_outcome.splits prod.splits)

lemma grace_flush_frame: "frame (grace_flush dec wok p st) = frame st"
proof (induction dec wok p st rule: grace_flush.induct)
  case (2 dec wok k resp script rest st)
  then show ?case using grace_write_frame [of dec wok resp st] by (auto split: prod.splits)
qed simp

lemma grace_reply_frame: "frame (grace_reply dec wok q resp script st) = frame st"
  using grace_write_frame [of dec wok resp st] by (auto simp: grace_reply_def grace_flush_frame split: prod.splits)

lemma replies_ok_frame:
  assumes "replies_ok rep dec st" "frame st' = frame st"
    "length (tl_sent st) < 2 ^ 64 \<Longrightarrow> seq_ok rep dec st \<Longrightarrow> seq_ok rep dec st'"
  shows "replies_ok rep dec st'"
  using assms by (auto simp: replies_ok_def frame_def)

lemma replies_ok_fields [simp]:
  "replies_ok rep dec (st\<lparr>tl_consecutive_empty := a\<rparr>) = replies_ok rep dec st"
  "replies_ok rep dec (st\<lparr>tl_refill_at := b\<rparr>) = replies_ok rep dec st"
  "replies_ok rep dec (st\<lparr>tl_client_closed := c\<rparr>) = replies_ok rep dec st"
  "replies_ok rep dec (st\<lparr>tl_end := e\<rparr>) = replies_ok rep dec st"
  "replies_ok rep dec (st\<lparr>tl_buffered_upload := u\<rparr>) = replies_ok rep dec st"
  "replies_ok rep dec (st\<lparr>tl_max_inflight := n\<rparr>) = replies_ok rep dec st"
  "replies_ok rep dec (st\<lparr>tl_is_elevated := c\<rparr>) = replies_ok rep dec st"
  "replies_ok rep dec (st\<lparr>tl_supports_seq := c\<rparr>) = replies_ok rep dec st"
  by (simp_all add: replies_ok_def)

lemma replies_ok_loop:
  assumes "replies_ok rep dec (snd mst)"
  shows "replies_ok rep dec (snd (finish mst))" "replies_ok rep dec (snd (loop_top now mst))"
    "replies_ok rep dec (snd (refill_fired now mst))" "replies_ok rep dec (snd (adapt_depth mst))"
    "replies_ok rep dec (snd (schedule_refill now mst))"
  using assms replies_ok_send
  by (auto simp: finish_def loop_top_def refill_fired_def adapt_depth_def schedule_refill_def Let_def
      split: prod.splits option.splits)

lemma replies_ok_landed: "replies_ok rep dec st \<Longrightarrow> replies_ok rep dec (landed meta st)"
  by (auto simp: replies_ok_def landed_def seq_ok_def dest: notin_set_remove1)

lemma replies_ok_buffered: "replies_ok rep dec st \<Longrightarrow> replies_ok rep dec (send_buffered now st)"
  using replies_ok_send by (auto simp: send_buffered_def split: option.splits)

lemma replies_ok_reply:
  assumes "replies_ok rep dec (snd mst)" "meta \<in> set (tl_inflight (snd mst))"
    and "\<And>resp script. out = RoOk resp script \<Longrightarrow> resp = rep (im_seq meta)"
  shows "replies_ok rep dec (snd (handle_reply dec now meta out wok mst))"
proof (cases out)
  case (RoOk resp script)
  obtain m st0 where mst: "mst = (m, st0)" by force
  obtain m1 st1 where n: "note_reply now meta resp script (m, landed meta st0) = (m1, st1)" by force
  have ok: "replies_ok rep dec st1"
    using assms(1) replies_ok_landed n mst by (auto simp: note_reply_def Let_def)
  have q: "length (tl_sent st1) < 2 ^ 64 \<Longrightarrow> im_seq meta < tl_next_send_seq st1"
    using assms(1,2) n mst by (auto simp: replies_ok_def seq_ok_def note_reply_def landed_def Let_def)
  have ws: "write_step_ok rep dec (deliver_reply dec wok (im_seq meta) resp script st1)" if "length (tl_sent st1) < 2 ^ 64"
    using deliver_reply_ok q ok that assms(3) [OF RoOk] by (simp add: replies_ok_def)
  have "replies_ok rep dec (ws_state (deliver_reply dec wok (im_seq meta) resp script st1))"
    using ok ws deliver_reply_frame [of dec wok "im_seq meta" resp script st1]
    by (cases "deliver_reply dec wok (im_seq meta) resp script st1") (auto simp: replies_ok_def frame_def write_step_ok_def)
  then show ?thesis
    using ok
    by (cases "deliver_reply dec wok (im_seq meta) resp script st1")
      (simp_all add: handle_reply_def mst RoOk n replies_ok_loop replies_ok_buffered Let_def)
qed (use assms(1) in \<open>auto simp: handle_reply_def Let_def replies_ok_loop replies_ok_landed split: prod.splits\<close>)

lemma replies_ok_read: "replies_ok rep dec st \<Longrightarrow> replies_ok rep dec (handle_read now r st)"
  using replies_ok_send by (auto simp: handle_read_def split: option.splits list.splits)

text \<open>The replies the multiplexer hands back are those to the operations they belong to.\<close>

definition replies_for :: "(u64 \<Rightarrow> tunnel_response) \<Rightarrow> loop_ev \<Rightarrow> bool" where
  "replies_for rep ev = (case ev of LReply meta (RoOk resp _) _ \<Rightarrow> resp = rep (im_seq meta) | _ \<Rightarrow> True)"

lemma replies_ok_grace:
  assumes "replies_ok rep dec st" "meta \<in> set (tl_inflight st)" "tl_eof_seen st" "resp = rep (im_seq meta)"
  shows "replies_ok rep dec (grace_reply dec wok (im_seq meta) resp script (landed meta st))"
proof (rule replies_ok_frame)
  show "replies_ok rep dec (landed meta st)" using assms(1) by (rule replies_ok_landed)
  show "frame (grace_reply dec wok (im_seq meta) resp script (landed meta st)) = frame (landed meta st)"
    by (rule grace_reply_frame)
  show "seq_ok rep dec (grace_reply dec wok (im_seq meta) resp script (landed meta st))"
    if "length (tl_sent (landed meta st)) < 2 ^ 64" and "seq_ok rep dec (landed meta st)"
    using that(2)
  proof (rule grace_reply_ok)
    show "im_seq meta < tl_next_send_seq (landed meta st)"
      using that(1) assms(1,2) by (auto simp: replies_ok_def seq_ok_def landed_def)
  qed (use assms in \<open>simp_all add: landed_def\<close>)
qed

lemma replies_ok_start: "replies_ok rep dec (tunnel_loop_start now pending)"
proof -
  have "replies_ok rep dec fresh_loop"
    by (simp add: replies_ok_def seq_ok_def fresh_loop_def reply_stream_def)
  then show ?thesis
    using replies_ok_send by (auto simp: tunnel_loop_start_def Let_def split: option.splits)
qed

section \<open>Invariants of a session\<close>

text \<open>What has to be kept by the parts of a turn for every run to keep it. \<open>ok\<close> restricts the events.\<close>

locale session_invariant =
  fixes dec :: b64 and P :: "tunnel_loop \<Rightarrow> bool" and ok :: "loop_ev \<Rightarrow> bool"
  assumes finish: "P st \<Longrightarrow> P (snd (finish (m, st)))"
    and top: "P st \<Longrightarrow> P (snd (loop_top now (m, st)))"
    and refill: "P st \<Longrightarrow> P (snd (refill_fired now (m, st)))"
    and landed: "P st \<Longrightarrow> meta \<in> set (tl_inflight st) \<Longrightarrow> P (landed meta st)"
    and grace: "P st \<Longrightarrow> meta \<in> set (tl_inflight st) \<Longrightarrow> tl_eof_seen st \<Longrightarrow> ok (LReply meta (RoOk resp script) wok) \<Longrightarrow>
        P (grace_reply dec wok (im_seq meta) resp script (landed meta st))"
    and reply: "P st \<Longrightarrow> meta \<in> set (tl_inflight st) \<Longrightarrow> ok (LReply meta out wok) \<Longrightarrow>
        P (snd (handle_reply dec now meta out wok (m, st)))"
    and read: "P st \<Longrightarrow> can_read st \<Longrightarrow> P (handle_read now r st)"
    and idle_read: "P st \<Longrightarrow> tl_inflight st = [] \<Longrightarrow> P (send_data_op now (b # bs) (st\<lparr>tl_consecutive_empty := 0\<rparr>))"
begin

lemma top': "P (snd mst) \<Longrightarrow> P (snd (loop_top now mst))"
  using top by (cases mst) simp

lemma step: "P st \<Longrightarrow> ok ev \<Longrightarrow> P (snd (tunnel_step dec (now, ev) (m, st)))"
  by (cases ev)
    (auto simp: tunnel_step_def finish top' refill landed grace reply read idle_read
      split: reply_outcome.splits option.splits list.splits)

lemma run: "P st \<Longrightarrow> \<forall>e\<in>set evs. ok (snd (snd e)) \<Longrightarrow> P (tunnel_run dec evs st)"
  unfolding tunnel_run_def
proof (induction evs arbitrary: st)
  case (Cons e evs)
  obtain m now ev where "e = (m, now, ev)" using prod_cases3 by blast
  then show ?case using Cons step [of st ev now m] by simp
qed simp

end

interpretation replies: session_invariant dec "replies_ok rep dec" "replies_for rep" for rep dec
  by unfold_locales
    (auto simp: replies_ok_loop replies_ok_landed replies_ok_send replies_ok_read replies_for_def
      intro: replies_ok_grace intro!: replies_ok_reply)

text \<open>C7: Replies reach the local socket in the order of the requests they answer, whatever the order
  in which they come back and whatever the other sessions do to the shared state: what is written is
  the data of the first replies in sequence order, with none missing until the stream has ended, and
  at most with failed writes left out after that.\<close>

theorem replies_in_order:
  assumes "\<forall>e\<in>set evs. replies_for rep (snd (snd e))"
    and "st = tunnel_run dec evs (tunnel_loop_start now pending)"
    and "length (tl_sent st) < 2 ^ 64"
  shows "subseq (tl_written st) (reply_stream rep dec (unat (tl_next_write_seq st))) \<and>
    (\<not> tl_eof_seen st \<longrightarrow> tl_written st = reply_stream rep dec (unat (tl_next_write_seq st))) \<and>
    tl_next_write_seq st \<le> tl_next_send_seq st"
proof -
  have "replies_ok rep dec st" unfolding assms(2) by (rule replies.run [OF replies_ok_start assms(1)])
  then have "seq_ok rep dec st" using assms(3) by (simp add: replies_ok_def)
  then show ?thesis by (simp add: seq_ok_def)
qed

section \<open>Uploads\<close>

definition data_ops :: "tunnel_loop \<Rightarrow> data_msg list" where
  "data_ops st = filter (\<lambda>m. dm_wseq m \<noteq> None) (tl_sent st)"

definition uploads_ok :: "tunnel_loop \<Rightarrow> bool" where
  "uploads_ok st \<longleftrightarrow>
     map dm_seq (tl_sent st) = map word_of_nat [0..<length (tl_sent st)] \<and>
     tl_next_send_seq st = word_of_nat (length (tl_sent st)) \<and>
     map dm_wseq (data_ops st) = map (Some \<circ> word_of_nat) [0..<length (data_ops st)] \<and>
     tl_next_data_write_seq st = word_of_nat (length (data_ops st)) \<and>
     (\<forall>msg\<in>set (tl_sent st). (dm_wseq msg = None) = (dm_data msg = [])) \<and>
     tl_buffered_upload st = None"

lemma uploads_ok_frame: "frame st' = frame st \<Longrightarrow> uploads_ok st' = uploads_ok st"
  by (simp add: uploads_ok_def frame_def data_ops_def)

lemma uploads_ok_fields [simp]:
  "uploads_ok (st\<lparr>tl_refill_at := b\<rparr>) = uploads_ok st"
  "uploads_ok (st\<lparr>tl_client_closed := c\<rparr>) = uploads_ok st"
  "uploads_ok (st\<lparr>tl_consecutive_empty := a\<rparr>) = uploads_ok st"
  "uploads_ok (st\<lparr>tl_end := e\<rparr>) = uploads_ok st"
  "uploads_ok (st\<lparr>tl_max_inflight := n\<rparr>) = uploads_ok st"
  "uploads_ok (st\<lparr>tl_is_elevated := c\<rparr>) = uploads_ok st"
  "uploads_ok (st\<lparr>tl_supports_seq := c\<rparr>) = uploads_ok st"
  "uploads_ok (st\<lparr>tl_inflight := i\<rparr>) = uploads_ok st"
  "uploads_ok (st\<lparr>tl_inflight_uploads := k\<rparr>) = uploads_ok st"
  by (simp_all add: uploads_ok_def data_ops_def)

lemma uploads_ok_send:
  assumes "uploads_ok st"
  shows "uploads_ok (send_empty_poll now st)" "d \<noteq> [] \<Longrightarrow> uploads_ok (send_data_op now d st)"
  using assms by (auto simp: uploads_ok_def data_ops_def send_empty_poll_def send_data_op_def)

lemma uploads_buffer: "uploads_ok st \<Longrightarrow> tl_buffered_upload st = None"
  by (simp add: uploads_ok_def)

lemma uploads_ok_loop:
  assumes "uploads_ok (snd mst)"
  shows "uploads_ok (snd (finish mst))" "uploads_ok (snd (loop_top now mst))"
    "uploads_ok (snd (refill_fired now mst))" "uploads_ok (snd (adapt_depth mst))"
    "uploads_ok (snd (schedule_refill now mst))"
proof -
  obtain m st where mst: "mst = (m, st)" by force
  have ok: "uploads_ok st" using assms mst by simp
  note send = uploads_ok_send(1) and buf = uploads_buffer [OF ok]
  show "uploads_ok (snd (finish mst))" using ok by (simp add: mst finish_def)
  show "uploads_ok (snd (loop_top now mst))"
    using ok send by (auto simp: mst loop_top_def finish_def split: prod.splits)
  show "uploads_ok (snd (refill_fired now mst))"
    using ok send buf by (auto simp: mst refill_fired_def Let_def split: prod.splits)
  show "uploads_ok (snd (adapt_depth mst))" using ok by (simp add: mst adapt_depth_def Let_def)
  show "uploads_ok (snd (schedule_refill now mst))"
    using ok by (auto simp: mst schedule_refill_def split: prod.splits)
qed

lemma uploads_ok_reply:
  assumes "uploads_ok (snd mst)"
  shows "uploads_ok (snd (handle_reply dec now meta out wok mst))"
proof (cases out)
  case (RoOk resp script)
  obtain m st0 where mst: "mst = (m, st0)" by force
  obtain m1 st1 where n: "note_reply now meta resp script (m, landed meta st0) = (m1, st1)" by force
  have ok: "uploads_ok st1" using assms n mst by (auto simp: note_reply_def landed_def Let_def)
  then have "uploads_ok (ws_state (deliver_reply dec wok (im_seq meta) resp script st1))"
    using uploads_ok_frame [OF deliver_reply_frame] by blast
  then show ?thesis
    using ok
    by (cases "deliver_reply dec wok (im_seq meta) resp script st1")
      (auto simp: handle_reply_def mst RoOk n uploads_ok_loop send_buffered_def uploads_buffer Let_def)
qed (use assms in \<open>auto simp: handle_reply_def landed_def uploads_ok_loop split: prod.splits\<close>)

lemma uploads_ok_read: "uploads_ok st \<Longrightarrow> can_read st \<Longrightarrow> uploads_ok (handle_read now r st)"
  by (auto simp: handle_read_def can_read_def uploads_ok_send split: option.splits list.splits if_splits)

lemma uploads_ok_landed: "uploads_ok st \<Longrightarrow> uploads_ok (landed meta st)"
  by (simp add: landed_def)

lemma uploads_ok_grace:
  "uploads_ok st \<Longrightarrow> uploads_ok (grace_reply dec wok q resp script (landed meta st))"
  using uploads_ok_frame [OF grace_reply_frame] by (auto simp: landed_def)

interpretation upload_run: session_invariant dec uploads_ok "\<lambda>_. True" for dec
  by unfold_locales
    (auto simp: uploads_ok_loop uploads_ok_reply uploads_ok_read uploads_ok_grace uploads_ok_send uploads_ok_landed)

lemma uploads_ok_start: "uploads_ok (tunnel_loop_start now pending)"
proof -
  have "uploads_ok fresh_loop" by (simp add: uploads_ok_def data_ops_def fresh_loop_def)
  then show ?thesis using uploads_ok_send by (auto simp: tunnel_loop_start_def Let_def split: option.splits)
qed

text \<open>What the loop reads from the local socket in a turn and in a run.\<close>

definition reads :: "tunnel_loop \<Rightarrow> loop_ev \<Rightarrow> bytes" where
  "reads st ev =
     (case ev of
        LRead (Some d) \<Rightarrow>
          if tl_end st = None \<and> \<not> tl_eof_seen st \<and> (tl_inflight st = [] \<and> tl_refill_at st = None \<or> can_read st)
          then d else []
      | _ \<Rightarrow> [])"

fun reads_of :: "b64 \<Rightarrow> (mux \<times> nat \<times> loop_ev) list \<Rightarrow> tunnel_loop \<Rightarrow> bytes" where
  "reads_of dec [] st = []"
| "reads_of dec ((m, now, ev) # evs) st =
     reads st ev @ reads_of dec evs (snd (tunnel_step dec (now, ev) (m, st)))"

definition sent_bytes :: "tunnel_loop \<Rightarrow> bytes" where
  "sent_bytes st = concat (map dm_data (tl_sent st))"

lemma sent_bytes_frame: "frame st' = frame st \<Longrightarrow> sent_bytes st' = sent_bytes st"
  by (simp add: sent_bytes_def frame_def)

lemma sent_bytes_fields [simp]:
  "sent_bytes (st\<lparr>tl_refill_at := b\<rparr>) = sent_bytes st"
  "sent_bytes (st\<lparr>tl_client_closed := c\<rparr>) = sent_bytes st"
  "sent_bytes (st\<lparr>tl_consecutive_empty := a\<rparr>) = sent_bytes st"
  "sent_bytes (st\<lparr>tl_end := e\<rparr>) = sent_bytes st"
  "sent_bytes (st\<lparr>tl_max_inflight := n\<rparr>) = sent_bytes st"
  "sent_bytes (st\<lparr>tl_is_elevated := c\<rparr>) = sent_bytes st"
  "sent_bytes (st\<lparr>tl_supports_seq := c\<rparr>) = sent_bytes st"
  "sent_bytes (st\<lparr>tl_buffered_upload := u\<rparr>) = sent_bytes st"
  "sent_bytes (landed meta st) = sent_bytes st"
  "sent_bytes (send_empty_poll now st) = sent_bytes st"
  "sent_bytes (send_data_op now d st) = sent_bytes st @ d"
  by (simp_all add: sent_bytes_def landed_def send_empty_poll_def send_data_op_def)

lemma sent_bytes_loop [simp]:
  "sent_bytes (snd (finish mst)) = sent_bytes (snd mst)"
  "sent_bytes (snd (loop_top now mst)) = sent_bytes (snd mst)"
  "sent_bytes (snd (adapt_depth mst)) = sent_bytes (snd mst)"
  "sent_bytes (snd (schedule_refill now mst)) = sent_bytes (snd mst)"
  "sent_bytes (grace_reply dec wok q resp script st) = sent_bytes st"
  using sent_bytes_frame [OF grace_reply_frame]
  by (auto simp: finish_def loop_top_def adapt_depth_def schedule_refill_def Let_def split: prod.splits)

lemma sent_bytes_refill:
  "tl_buffered_upload (snd mst) = None \<Longrightarrow> sent_bytes (snd (refill_fired now mst)) = sent_bytes (snd mst)"
  by (auto simp: refill_fired_def Let_def split: prod.splits)

lemma sent_bytes_reply:
  assumes "tl_buffered_upload st0 = None"
  shows "sent_bytes (snd (handle_reply dec now meta out wok (m, st0))) = sent_bytes st0"
proof (cases out)
  case (RoOk resp script)
  obtain m1 st1 where n: "note_reply now meta resp script (m, landed meta st0) = (m1, st1)" by force
  have b: "sent_bytes st1 = sent_bytes st0" "tl_buffered_upload st1 = None"
    using n assms by (auto simp: note_reply_def landed_def sent_bytes_def Let_def)
  have f: "frame (ws_state (deliver_reply dec wok (im_seq meta) resp script st1)) = frame st1"
    by (rule deliver_reply_frame)
  have "tl_buffered_upload (ws_state (deliver_reply dec wok (im_seq meta) resp script st1)) = None"
    using f b by (simp add: frame_def)
  then show ?thesis
    using b sent_bytes_frame [OF f]
    by (cases "deliver_reply dec wok (im_seq meta) resp script st1")
      (simp_all add: handle_reply_def RoOk n send_buffered_def Let_def)
qed (simp_all add: handle_reply_def)

lemma sent_bytes_read:
  "can_read st \<Longrightarrow> sent_bytes (handle_read now r st) = sent_bytes st @ (case r of None \<Rightarrow> [] | Some d \<Rightarrow> d)"
  by (auto simp: handle_read_def can_read_def split: option.splits list.splits if_splits)

lemma sent_bytes_step:
  assumes "uploads_ok st"
  shows "sent_bytes (snd (tunnel_step dec (now, ev) (m, st))) = sent_bytes st @ reads st ev"
  using uploads_buffer [OF assms]
  by (cases ev)
    (auto simp: tunnel_step_def reads_def sent_bytes_refill sent_bytes_reply sent_bytes_read
      split: reply_outcome.splits option.splits list.splits)

lemma sent_bytes_run: "uploads_ok st \<Longrightarrow> sent_bytes (tunnel_run dec evs st) = sent_bytes st @ reads_of dec evs st"
proof (induction evs arbitrary: st)
  case (Cons e evs)
  obtain m now ev where e: "e = (m, now, ev)" using prod_cases3 by blast
  show ?case
    using Cons.IH [OF upload_run.step [OF Cons.prems TrueI]] sent_bytes_step [OF Cons.prems]
    by (simp add: e tunnel_run_def)
qed (simp add: tunnel_run_def)

lemma sent_bytes_data_ops:
  assumes "uploads_ok st"
  shows "concat (map dm_data (data_ops st)) = sent_bytes st"
proof -
  have "\<forall>msg\<in>set ms. (dm_wseq msg = None) = (dm_data msg = []) \<Longrightarrow>
      concat (map dm_data (filter (\<lambda>m. dm_wseq m \<noteq> None) ms)) = concat (map dm_data ms)" for ms
    by (induction ms) auto
  then show "concat (map dm_data (data_ops st)) = sent_bytes st"
    using assms unfolding uploads_ok_def data_ops_def sent_bytes_def by blast
qed

text \<open>The upload operations of a session carry exactly the pending bytes and what the loop has read
  from the local socket, in order, with nothing lost or sent twice; none is empty, they are numbered
  0, 1, 2, ... by \<open>wseq\<close>, and all operations, polls included, by \<open>seq\<close>.\<close>

lemma client_run_uploads:
  "let st0 = tunnel_loop_start now pending; st = tunnel_run dec evs st0 in
   concat (map dm_data (data_ops st)) = (case pending of None \<Rightarrow> [] | Some d \<Rightarrow> d) @ reads_of dec evs st0 \<and>
   map dm_wseq (data_ops st) = map (Some \<circ> word_of_nat) [0..<length (data_ops st)] \<and>
   map dm_seq (tl_sent st) = map word_of_nat [0..<length (tl_sent st)] \<and>
   [] \<notin> set (map dm_data (data_ops st))"
proof -
  let ?start = "tunnel_loop_start now pending" and ?fin = "tunnel_run dec evs (tunnel_loop_start now pending)"
  have ok: "uploads_ok ?fin" using uploads_ok_start by (rule upload_run.run) simp
  have "sent_bytes ?start = (case pending of None \<Rightarrow> [] | Some d \<Rightarrow> d)"
    by (auto simp: tunnel_loop_start_def Let_def sent_bytes_def fresh_loop_def send_data_op_def send_empty_poll_def
        split: option.splits)
  then have "concat (map dm_data (data_ops ?fin)) = (case pending of None \<Rightarrow> [] | Some d \<Rightarrow> d) @ reads_of dec evs ?start"
    using sent_bytes_run [OF uploads_ok_start] sent_bytes_data_ops [OF ok] by simp
  then show ?thesis using ok by (auto simp: Let_def uploads_ok_def data_ops_def)
qed

section \<open>The depth of the pipeline\<close>

definition depth_ok :: "tunnel_loop \<Rightarrow> bool" where
  "depth_ok st \<longleftrightarrow> INFLIGHT_IDLE \<le> tl_max_inflight st \<and> tl_max_inflight st \<le> INFLIGHT_ACTIVE \<and>
     length (tl_inflight st) \<le> INFLIGHT_ACTIVE + 4 \<and>
     tl_inflight_uploads st = length (filter (\<lambda>meta. \<not> im_was_empty_poll meta) (tl_inflight st)) \<and>
     (INFLIGHT_OPTIMIST < tl_max_inflight st \<longrightarrow> tl_is_elevated st) \<and>
     tl_buffered_upload st = None"

lemmas depth_consts = INFLIGHT_IDLE_def INFLIGHT_OPTIMIST_def INFLIGHT_ACTIVE_def

lemma depth_ok_frame: "frame st' = frame st \<Longrightarrow> depth_ok st' = depth_ok st"
  by (simp add: depth_ok_def frame_def)

lemma depth_ok_fields [simp]:
  "depth_ok (st\<lparr>tl_refill_at := b\<rparr>) = depth_ok st"
  "depth_ok (st\<lparr>tl_client_closed := c\<rparr>) = depth_ok st"
  "depth_ok (st\<lparr>tl_consecutive_empty := a\<rparr>) = depth_ok st"
  "depth_ok (st\<lparr>tl_end := e\<rparr>) = depth_ok st"
  "depth_ok (st\<lparr>tl_supports_seq := c\<rparr>) = depth_ok st"
  by (simp_all add: depth_ok_def)

lemma depth_ok_send:
  assumes "depth_ok st" "length (tl_inflight st) < tl_max_inflight st + 4"
  shows "depth_ok (send_empty_poll now st)" "depth_ok (send_data_op now d st)"
  using assms by (auto simp: depth_ok_def send_empty_poll_def send_data_op_def)

lemma depth_buffer: "depth_ok st \<Longrightarrow> tl_buffered_upload st = None"
  by (simp add: depth_ok_def)

lemma length_filter_remove1:
  "x \<in> set xs \<Longrightarrow> length (filter P (remove1 x xs)) = length (filter P xs) - (if P x then 1 else 0)"
  by (simp add: filter_remove1 length_remove1)

lemma depth_ok_landed: "depth_ok st \<Longrightarrow> meta \<in> set (tl_inflight st) \<Longrightarrow> depth_ok (landed meta st)"
  by (auto simp: depth_ok_def landed_def length_filter_remove1 length_remove1)

lemma depth_ok_loop:
  assumes "depth_ok (snd mst)"
  shows "depth_ok (snd (finish mst))" "depth_ok (snd (loop_top now mst))"
    "depth_ok (snd (refill_fired now mst))" "depth_ok (snd (adapt_depth mst))"
    "depth_ok (snd (schedule_refill now mst))"
proof -
  obtain m st where mst: "mst = (m, st)" by force
  have ok: "depth_ok st" using assms mst by simp
  note send = depth_ok_send(1) [of st] and buf = depth_buffer [OF ok]
  show "depth_ok (snd (finish mst))" using ok by (simp add: mst finish_def)
  show "depth_ok (snd (loop_top now mst))"
    using ok send by (auto simp: mst loop_top_def finish_def split: prod.splits)
  have refill: "depth_ok (send_empty_poll now (st\<lparr>tl_refill_at := None\<rparr>))" if "length (tl_inflight st) < tl_max_inflight st"
    using that ok depth_ok_send(1) [of "st\<lparr>tl_refill_at := None\<rparr>"] by simp
  show "depth_ok (snd (refill_fired now mst))"
    using ok refill buf by (auto simp: mst refill_fired_def Let_def split: prod.splits)
  show "depth_ok (snd (adapt_depth mst))"
    using ok by (auto simp: mst adapt_depth_def Let_def depth_ok_def depth_consts)
  show "depth_ok (snd (schedule_refill now mst))"
    using ok by (auto simp: mst schedule_refill_def split: prod.splits)
qed

lemma depth_ok_reply:
  assumes "depth_ok st0" "meta \<in> set (tl_inflight st0)"
  shows "depth_ok (snd (handle_reply dec now meta out wok (m, st0)))"
proof (cases out)
  case (RoOk resp script)
  obtain m1 st1 where n: "note_reply now meta resp script (m, landed meta st0) = (m1, st1)" by force
  have ok: "depth_ok st1"
    using depth_ok_landed [OF assms] n
    by (auto simp: note_reply_def Let_def depth_ok_def depth_consts split: if_splits)
  have "depth_ok (ws_state (deliver_reply dec wok (im_seq meta) resp script st1))"
    using ok depth_ok_frame [OF deliver_reply_frame] by blast
  then show ?thesis
    using ok
    by (cases "deliver_reply dec wok (im_seq meta) resp script st1")
      (auto simp: handle_reply_def RoOk n depth_ok_loop send_buffered_def depth_buffer Let_def)
qed (use depth_ok_landed [OF assms] in \<open>simp_all add: handle_reply_def depth_ok_loop\<close>)

lemma depth_ok_read: "depth_ok st \<Longrightarrow> can_read st \<Longrightarrow> depth_ok (handle_read now r st)"
  using depth_ok_send(2) [of st] by (auto simp: handle_read_def can_read_def split: option.splits list.splits if_splits)

lemma depth_ok_grace:
  "depth_ok st \<Longrightarrow> meta \<in> set (tl_inflight st) \<Longrightarrow> depth_ok (grace_reply dec wok q resp script (landed meta st))"
  using depth_ok_frame [OF grace_reply_frame] depth_ok_landed by blast

interpretation depth_run: session_invariant dec depth_ok "\<lambda>_. True" for dec
  by unfold_locales
    (auto simp: depth_ok_loop depth_ok_reply depth_ok_read depth_ok_grace depth_ok_send depth_ok_landed)

lemma depth_ok_start: "depth_ok (tunnel_loop_start now pending)"
  by (auto simp: tunnel_loop_start_def Let_def depth_ok_def fresh_loop_def send_data_op_def send_empty_poll_def
      depth_consts split: option.splits)

text \<open>C8: A session never has more than ten operations in flight, its depth stays between one and six
  and exceeds three only while it holds an elevation, the count of uploads in flight is exact, and the
  buffer for uploads that find the pipeline full is never used.\<close>

theorem pipeline_bounded:
  "let st = tunnel_run dec evs (tunnel_loop_start now pending) in
   length (tl_inflight st) \<le> 10 \<and> 1 \<le> tl_max_inflight st \<and>
   tl_max_inflight st \<le> (if tl_is_elevated st then 6 else 3) \<and>
   tl_inflight_uploads st = length (filter (\<lambda>meta. \<not> im_was_empty_poll meta) (tl_inflight st)) \<and>
   tl_buffered_upload st = None"
proof -
  have "depth_ok (tunnel_run dec evs (tunnel_loop_start now pending))"
    using depth_ok_start by (rule depth_run.run) simp
  then show ?thesis by (auto simp: Let_def depth_ok_def depth_consts)
qed

section \<open>Elevated sessions\<close>

text \<open>A session counts as elevated until the loop is left by a \<^verbatim>\<open>break\<close>; one that returned with a write
  error still counts.\<close>

definition elev :: "tunnel_loop \<Rightarrow> nat" where
  "elev st = (if tl_is_elevated st \<and> (tl_end st = None \<or> tl_end st = Some EndIo) then 1 else 0)"

text \<open>What a part of a turn may do to the count: move it together with the session's own flag, within
  the limit.\<close>

definition elev_step :: "mux \<times> tunnel_loop \<Rightarrow> mux \<times> tunnel_loop \<Rightarrow> bool" where
  "elev_step a b \<longleftrightarrow>
     mx_max_elevated (fst b) = mx_max_elevated (fst a) \<and>
     (elev (snd a) \<le> mx_elevated (fst a) \<longrightarrow>
        mx_elevated (fst b) + elev (snd a) = mx_elevated (fst a) + elev (snd b) \<and>
        (mx_elevated (fst a) \<le> mx_max_elevated (fst a) \<longrightarrow> mx_elevated (fst b) \<le> mx_max_elevated (fst b)))"

lemma elev_step_refl [simp]: "elev_step a a"
  by (simp add: elev_step_def)

lemma elev_step_trans [trans]: "elev_step a b \<Longrightarrow> elev_step b c \<Longrightarrow> elev_step a c"
  by (auto simp: elev_step_def)

lemma elev_step_same:
  "mx_elevated m' = mx_elevated m \<Longrightarrow> mx_max_elevated m' = mx_max_elevated m \<Longrightarrow> elev st' = elev st \<Longrightarrow>
     elev_step (m, st) (m', st')"
  by (simp add: elev_step_def)

lemma legacy_keeps_count:
  "mx_elevated (fst (all_servers_legacy now m)) = mx_elevated m"
  "mx_max_elevated (fst (all_servers_legacy now m)) = mx_max_elevated m"
  "mx_elevated (mark_server_no_longpoll now script m) = mx_elevated m"
  "mx_max_elevated (mark_server_no_longpoll now script m) = mx_max_elevated m"
  by (simp_all add: all_servers_legacy_def mark_server_no_longpoll_def Let_def)

lemma elev_frame: "frame st' = frame st \<Longrightarrow> elev st' = elev st"
  by (simp add: elev_def frame_def)

lemma elev_fields [simp]:
  "elev (st\<lparr>tl_refill_at := b\<rparr>) = elev st" "elev (st\<lparr>tl_client_closed := c\<rparr>) = elev st"
  "elev (st\<lparr>tl_consecutive_empty := a\<rparr>) = elev st" "elev (st\<lparr>tl_supports_seq := c\<rparr>) = elev st"
  "elev (st\<lparr>tl_max_inflight := n\<rparr>) = elev st" "elev (st\<lparr>tl_buffered_upload := u\<rparr>) = elev st"
  "elev (landed meta st) = elev st" "elev (send_empty_poll now st) = elev st"
  "elev (send_data_op now d st) = elev st" "elev (send_buffered now st) = elev st"
  "elev (handle_read now r st) = elev st"
  by (simp_all add: elev_def landed_def send_empty_poll_def send_data_op_def send_buffered_def handle_read_def
      split: option.splits list.splits)

lemma elev_finish: "tl_end st = None \<Longrightarrow> elev_step (m, st) (finish (m, st))"
  by (auto simp: elev_step_def finish_def elev_def)

lemma elev_finish_landed: "tl_end st = None \<Longrightarrow> elev_step (m, st) (finish (m, landed meta st))"
  by (auto simp: elev_step_def finish_def elev_def landed_def)

lemma elev_top: "elev_step (m, st) (loop_top now (m, st))"
proof (cases "tl_end st = None")
  case True
  then show ?thesis
    using elev_finish [OF True, of m] legacy_keeps_count(1,2) [of now m]
    by (auto simp: loop_top_def intro!: elev_step_same split: prod.splits)
qed (simp add: loop_top_def)

lemma elev_refill: "elev_step (m, st) (refill_fired now (m, st))"
  using legacy_keeps_count(1,2) [of now m]
  by (auto simp: refill_fired_def Let_def intro!: elev_step_same split: prod.splits option.splits)

lemma elev_adapt: "tl_end st = None \<Longrightarrow> elev_step (m, st) (adapt_depth (m, st))"
  by (auto simp: adapt_depth_def Let_def elev_step_def elev_def)

lemma elev_schedule: "elev_step mst (schedule_refill now mst)"
  using legacy_keeps_count(1,2) [of now "fst mst"]
  by (cases mst) (auto simp: schedule_refill_def intro!: elev_step_same split: prod.splits)

lemma elev_reply:
  assumes "tl_end st0 = None"
  shows "elev_step (m, st0) (handle_reply dec now meta out wok (m, st0))"
proof (cases out)
  case (RoOk resp script)
  obtain m1 st1 where n: "note_reply now meta resp script (m, landed meta st0) = (m1, st1)" by force
  have s1: "elev_step (m, st0) (m1, st1)"
    using n by (auto simp: note_reply_def Let_def legacy_keeps_count intro!: elev_step_same)
  have e1: "tl_end st1 = None" using n assms by (auto simp: note_reply_def landed_def Let_def)
  have f: "frame (ws_state (deliver_reply dec wok (im_seq meta) resp script st1)) = frame st1"
    by (rule deliver_reply_frame)
  show ?thesis
  proof (cases "tr_e resp = None")
    case False
    then show ?thesis using elev_step_trans [OF s1 elev_finish [OF e1]] by (simp add: handle_reply_def RoOk n)
  next
    case True
    show ?thesis
    proof (cases "deliver_reply dec wok (im_seq meta) resp script st1")
      case (WsOk w st2)
      have e3: "tl_end (send_buffered now st2) = None"
        using f e1 WsOk by (auto simp: frame_def send_buffered_def send_data_op_def split: option.splits)
      have "elev_step (m1, st1) (m1, send_buffered now st2)"
        using elev_frame [OF f] WsOk by (simp add: elev_step_same)
      also have "elev_step (m1, send_buffered now st2)
          (if tr_seq resp = None then (m1, send_buffered now st2) else adapt_depth (m1, send_buffered now st2))"
        using elev_adapt [OF e3, of m1] by simp
      also note elev_schedule
      finally show ?thesis
        using elev_step_trans [OF s1] True WsOk by (simp add: handle_reply_def RoOk n Let_def)
    next
      case (WsBad st2)
      have e2: "tl_end st2 = None" using WsBad f e1 by (simp add: frame_def)
      have "elev_step (m1, st1) (m1, st2)" using elev_frame [OF f] WsBad by (simp add: elev_step_same)
      also note elev_finish [OF e2]
      finally show ?thesis using elev_step_trans [OF s1] True WsBad by (simp add: handle_reply_def RoOk n)
    next
      case (WsIo st2)
      have "elev (st2\<lparr>tl_end := Some EndIo\<rparr>) = elev st1"
        using f e1 WsIo by (simp add: frame_def elev_def)
      then show ?thesis
        using elev_step_trans [OF s1 elev_step_same [OF refl refl]] True WsIo by (simp add: handle_reply_def RoOk n)
    qed
  qed
qed (use assms in \<open>simp_all add: handle_reply_def elev_finish_landed\<close>)

lemma elev_then_top: "elev_step a mst \<Longrightarrow> elev_step a (loop_top now mst)"
  using elev_top elev_step_trans by (cases mst) blast

lemma elev_turn: "elev_step (m, st) (tunnel_step dec (now, ev) (m, st))"
proof (cases "tl_end st = None")
  case True
  have g: "elev (grace_reply dec wok q resp script (landed meta st)) = elev st" for wok q resp script meta
    using elev_frame [OF grace_reply_frame, of dec wok q resp script "landed meta st"] by simp
  show ?thesis
    using True
    by (cases ev)
      (auto simp: tunnel_step_def elev_finish elev_finish_landed g
        intro!: elev_then_top elev_refill elev_reply elev_step_same
        split: reply_outcome.splits option.splits list.splits)
qed (simp add: tunnel_step_def)

text \<open>The sessions of a client and what they share; a turn of one of them.\<close>

definition client_turn :: "b64 \<Rightarrow> nat \<times> nat \<times> loop_ev \<Rightarrow> mux \<times> tunnel_loop list \<Rightarrow> mux \<times> tunnel_loop list" where
  "client_turn dec = (\<lambda>(i, e) (m, ss).
     if i < length ss then (case tunnel_step dec e (m, ss ! i) of (m', st') \<Rightarrow> (m', ss[i := st'])) else (m, ss))"

lemma elev_sum_update:
  "i < length ss \<Longrightarrow> sum_list (map elev (ss[i := st])) + elev (ss ! i) = sum_list (map elev ss) + elev st"
proof (induction ss arbitrary: i)
  case (Cons s ss)
  then show ?case by (cases i) auto
qed simp

lemma elev_client_turn:
  assumes "mx_elevated m = sum_list (map elev ss)" "mx_elevated m \<le> mx_max_elevated m"
    and "client_turn dec e (m, ss) = (m', ss')"
  shows "mx_elevated m' = sum_list (map elev ss')" "mx_elevated m' \<le> mx_max_elevated m'"
proof -
  obtain i now ev where e: "e = (i, now, ev)" using prod_cases3 by blast
  obtain m1 st1 where t: "tunnel_step dec (now, ev) (m, ss ! i) = (m1, st1)" by force
  have le: "elev (ss ! i) \<le> sum_list (map elev ss)" if "i < length ss"
    using that member_le_sum_list [of "elev (ss ! i)" "map elev ss"] by simp
  show "mx_elevated m' = sum_list (map elev ss')" "mx_elevated m' \<le> mx_max_elevated m'"
    using assms elev_turn [of m "ss ! i" dec now ev] t le elev_sum_update [of i ss st1]
    by (auto simp: client_turn_def e elev_step_def split: if_splits)
qed

text \<open>Among any number of sessions with any interleaving of their turns, the shared count is the
  number of elevated sessions that are running or have returned with a failed write to the local
  socket, and it never exceeds the limit. A session that ends in a failed write thus keeps its place
  for ever.\<close>

theorem elevation_accounting:
  assumes "mx_elevated m0 = 0" "ss0 = map (\<lambda>(now, pending). tunnel_loop_start now pending) starts"
    and "fold (client_turn dec) evs (m0, ss0) = (m, ss)"
  shows "mx_elevated m = length (filter (\<lambda>st. tl_is_elevated st \<and> (tl_end st = None \<or> tl_end st = Some EndIo)) ss) \<and>
    mx_elevated m \<le> mx_max_elevated m"
proof -
  have start: "elev (tunnel_loop_start now pending) = 0" for now pending
    by (auto simp: tunnel_loop_start_def Let_def elev_def fresh_loop_def send_data_op_def send_empty_poll_def
        split: option.splits)
  then have "sum_list (map elev ss0) = 0" unfolding assms(2) by (induction starts) auto
  then have inv: "mx_elevated m0 = sum_list (map elev ss0)" "mx_elevated m0 \<le> mx_max_elevated m0"
    using assms(1) by auto
  have "mx_elevated m = sum_list (map elev ss) \<and> mx_elevated m \<le> mx_max_elevated m"
    using inv assms(3)
  proof (induction evs arbitrary: m0 ss0)
    case (Cons e evs)
    obtain m1 ss1 where t: "client_turn dec e (m0, ss0) = (m1, ss1)" by force
    show ?case using Cons.IH [OF elev_client_turn [OF Cons.prems(1,2) t]] Cons.prems(3) t by simp
  qed simp
  moreover have "sum_list (map elev ss) =
      length (filter (\<lambda>st. tl_is_elevated st \<and> (tl_end st = None \<or> tl_end st = Some EndIo)) ss)"
    by (induction ss) (auto simp: elev_def)
  ultimately show ?thesis by simp
qed

section \<open>Concrete runs\<close>

definition text_dec :: b64 where
  "text_dec s = Inr (map (of_nat \<circ> of_char) s)"

definition text_reply :: "u64 \<Rightarrow> tunnel_response" where
  "text_reply q = \<lparr>tr_sid = None, tr_d = Some (if q = 0 then ''A'' else ''B''), tr_pkts = None, tr_eof = Some False,
     tr_e = None, tr_code = None, tr_seq = Some q\<rparr>"

definition idle_mux :: mux where
  "idle_mux = \<lparr>mx_elevated = 0, mx_max_elevated = 1, mx_legacy = [], mx_all_legacy = False, mx_num_scripts = 1\<rparr>"

definition swapped_replies :: "(mux \<times> nat \<times> loop_ev) list" where
  "swapped_replies =
     [(idle_mux, 1000, LRefill),
      (idle_mux, 2500, LReply \<lparr>im_seq = 1, im_was_empty_poll = True, im_send_at = 1000\<rparr> (RoOk (text_reply 1) ''s'') 9),
      (idle_mux, 2600, LReply \<lparr>im_seq = 0, im_was_empty_poll = True, im_send_at = 0\<rparr> (RoOk (text_reply 0) ''s'') 9)]"

lemmas run_simps = tunnel_run_def tunnel_step_def loop_top_def finish_def refill_fired_def landed_def
  handle_reply_def note_reply_def deliver_reply_def write_in_turn_def write_tunnel_response_def
  grace_reply_def grace_write_def adapt_depth_def schedule_refill_def send_buffered_def handle_read_def
  send_empty_poll_def send_data_op_def tunnel_loop_start_def fresh_loop_def can_read_def
  all_servers_legacy_def mark_server_no_longpoll_def recent_legacy_def should_suppress_empty_refill_def
  refill_delay_def is_idle_depth_def reply_has_data_def reply_bytes_def sat_inc_def depth_consts
  ACTIVE_REFILL_DELAY_MS_def IDLE_REFILL_DELAY_START_EMPTY_def IDLE_REFILL_DELAY_STEP_MS_def
  IDLE_REFILL_DELAY_MAX_MS_def LEGACY_DETECT_THRESHOLD_def LEGACY_RECOVER_AFTER_def

theorem replies_in_order_witness:
  "tl_written (tunnel_run text_dec swapped_replies (tunnel_loop_start 0 None)) = [[65], [66]] \<and>
   reply_stream text_reply text_dec 2 = [[65], [66]]"
proof -
  let ?st = "tunnel_run text_dec swapped_replies (tunnel_loop_start 0 None)"
  have ok: "\<forall>e\<in>set swapped_replies. replies_for text_reply (snd (snd e))"
    by (simp add: swapped_replies_def replies_for_def)
  have run: "length (tl_sent ?st) = 2 \<and> tl_next_write_seq ?st = 2 \<and> \<not> tl_eof_seen ?st"
    by (simp add: run_simps swapped_replies_def idle_mux_def text_reply_def text_dec_def Let_def)
  have "reply_stream text_reply text_dec 2 = [[65], [66]]"
    by (simp add: reply_stream_def write_tunnel_response_def text_reply_def text_dec_def upt_rec)
  then show ?thesis
    using replies_in_order [OF ok refl, where dec = text_dec and now = 0 and pending = None] run by simp
qed

text \<open>A session that downloads enough to be elevated and then fails to write to its local socket.\<close>

definition big_text :: string where "big_text = replicate 43692 (CHR ''A'')"

lemma big_text_simps [simp]: "length big_text = 43692" "big_text \<noteq> []"
  by (simp_all add: big_text_def)

definition big_reply :: "u64 \<Rightarrow> tunnel_response" where
  "big_reply q = \<lparr>tr_sid = None, tr_d = Some big_text, tr_pkts = None, tr_eof = Some False, tr_e = None,
     tr_code = None, tr_seq = Some q\<rparr>"

definition failing_download :: "(nat \<times> nat \<times> loop_ev) list" where
  "failing_download =
     [(0, 1000, LRefill),
      (0, 2500, LReply \<lparr>im_seq = 0, im_was_empty_poll = True, im_send_at = 0\<rparr> (RoOk (big_reply 0) ''s'') 1),
      (0, 2600, LReply \<lparr>im_seq = 1, im_was_empty_poll = True, im_send_at = 1000\<rparr> (RoOk (big_reply 1) ''s'') 1),
      (0, 3600, LRefill),
      (0, 3700, LReply \<lparr>im_seq = 2, im_was_empty_poll = True, im_send_at = 3600\<rparr> (RoOk (big_reply 2) ''s'') 0)]"

theorem elevation_accounting_witness:
  "case fold (client_turn (\<lambda>_. Inr [7])) failing_download (idle_mux, [tunnel_loop_start 0 None]) of
     (m, ss) \<Rightarrow> map tl_end ss = [Some EndIo] \<and> mx_elevated m = 1 \<and> mx_elevated m \<le> mx_max_elevated m"
proof -
  let ?r = "fold (client_turn (\<lambda>_. Inr [7])) failing_download (idle_mux, [tunnel_loop_start 0 None])"
  have run: "map tl_end (snd ?r) = [Some EndIo] \<and> map tl_is_elevated (snd ?r) = [True]"
    by (simp add: run_simps client_turn_def failing_download_def idle_mux_def big_reply_def Let_def)
  obtain m ss where r: "?r = (m, ss)" by force
  have "mx_elevated idle_mux = 0" by (simp add: idle_mux_def)
  note acc = elevation_accounting [OF this _ r, of "[(0, None)]"]
  obtain st where "ss = [st]" "tl_end st = Some EndIo" "tl_is_elevated st" using run r by auto
  then show ?thesis using acc r by simp
qed

end
