(* ===== verification/Full_Tunnel.thy ===== *)
theory Full_Tunnel
  imports Tunnel_Loop
begin

text \<open>
  The full-tunnel mode end to end: a session of the tunnel client (\<^verbatim>\<open>src/src/tunnel_client.rs\<close>) and its
  session on the tunnel node (\<^verbatim>\<open>src/tunnel-node/src/main.rs\<close>), with Apps Script in between free to
  delay, reorder, repeat and lose the batches that carry their operations. Shown: towards the remote end
  what is written is a prefix of what the client read, and all of it once every upload has arrived.
  Towards the client the order is not kept: the node hands out the remote end's bytes in the order in
  which it happens to drain the polls, while the client writes them in the order in which it sent them.
\<close>

section \<open>From the client to the remote end\<close>

text \<open>The uploads that reach the node are those the client sent, in any order and multiplicity.\<close>

definition carried_by :: "tunnel_loop \<Rightarrow> session_ev \<Rightarrow> bool" where
  "carried_by st ev =
     (case ev of
        SeWrite w bs \<Rightarrow> \<exists>msg\<in>set (data_ops st). dm_wseq msg = Some w \<and> dm_data msg = bs
      | _ \<Rightarrow> True)"

lemma carried_upload:
  assumes "\<forall>ev\<in>set nevs. carried_by st ev" "(q, x) \<in> set (uploads nevs)"
    and "map dm_wseq (data_ops st) = map (Some \<circ> word_of_nat) [0..<length (data_ops st)]"
    and "length (data_ops st) < 2 ^ 64"
  shows "q < length (data_ops st) \<and> map dm_data (data_ops st) ! q = x"
proof -
  obtain w where w: "SeWrite w x \<in> set nevs" "q = unat w"
    using assms(2) by (auto simp: uploads_def split: session_ev.splits)
  then obtain msg where "msg \<in> set (data_ops st)" and msg: "dm_wseq msg = Some w" "dm_data msg = x"
    using assms(1) by (fastforce simp: carried_by_def)
  then obtain i where i: "i < length (data_ops st)" "data_ops st ! i = msg" by (metis in_set_conv_nth)
  have "map dm_wseq (data_ops st) ! i = Some (word_of_nat i)" using assms(3) i(1) by simp
  then have "w = word_of_nat i" using i msg by simp
  moreover have "unat (word_of_nat i :: u64) = i"
    using i(1) assms(4) by (simp add: unat_of_nat take_bit_nat_eq_self)
  ultimately show ?thesis using i msg(2) w(2) by simp
qed

text \<open>C6: Upstream, end to end: whatever order, repetition or loss the batches suffer on the way, the bytes
  the node has written to the remote end after the session's opening are a prefix of the pending bytes
  and what the client has read from its local socket, and all of them once every upload has arrived.\<close>

theorem tunnel_upstream:
  assumes "st = tunnel_run dec evs (tunnel_loop_start now pending)" "length (data_ops st) < 2 ^ 64 - 64"
    and "run_opt session_step nevs (started t u first, [], []) = Some (s, arrived, drained)"
    and "\<forall>ev\<in>set nevs. carried_by st ev"
  shows "prefix (concat (drop (length first) (ts_writes s)))
      ((case pending of None \<Rightarrow> [] | Some d \<Rightarrow> d) @ reads_of dec evs (tunnel_loop_start now pending)) \<and>
    ({..<length (data_ops st)} \<subseteq> fst ` set (uploads nevs) \<longrightarrow>
      concat (drop (length first) (ts_writes s)) =
      (case pending of None \<Rightarrow> [] | Some d \<Rightarrow> d) @ reads_of dec evs (tunnel_loop_start now pending))"
proof -
  let ?xs = "map dm_data (data_ops st)"
  have up: "concat ?xs = (case pending of None \<Rightarrow> [] | Some d \<Rightarrow> d) @ reads_of dec evs (tunnel_loop_start now pending)"
    and num: "map dm_wseq (data_ops st) = map (Some \<circ> word_of_nat) [0..<length (data_ops st)]"
    using client_run_uploads [of now pending dec evs] assms(1) by (simp_all add: Let_def)
  have "\<forall>(q, x)\<in>set (uploads nevs). q < length ?xs \<and> ?xs ! q = x"
    using carried_upload [OF assms(4) _ num] assms(2) by fastforce
  from run_in_order [OF assms(3) this] assms(2)
  have w: "prefix (drop (length first) (ts_writes s)) ?xs"
    "{..<length ?xs} \<subseteq> fst ` set (uploads nevs) \<longrightarrow> drop (length first) (ts_writes s) = ?xs" by simp_all
  from w(1) obtain r where "?xs = drop (length first) (ts_writes s) @ r" by (auto simp: prefix_def)
  then have "concat ?xs = concat (drop (length first) (ts_writes s)) @ concat r" by (metis concat_append)
  then have "prefix (concat (drop (length first) (ts_writes s)))
      ((case pending of None \<Rightarrow> [] | Some d \<Rightarrow> d) @ reads_of dec evs (tunnel_loop_start now pending))"
    using up by (metis prefixI)
  then show ?thesis using w(2) up by simp
qed

definition two_uploads :: "(mux \<times> nat \<times> loop_ev) list" where
  "two_uploads = [(idle_mux, 10, LRead (Some [8, 9]))]"

theorem tunnel_upstream_witness:
  "let st = tunnel_run text_dec two_uploads (tunnel_loop_start 0 (Some [7])) in
   length (data_ops st) = 2 \<and>
   (\<exists>s. run_opt session_step [SeWrite 1 [8, 9], SeWrite 0 [7]] (started 0 False [[5]], [], []) = Some (s, [], []) \<and>
      concat (drop 1 (ts_writes s)) = [7] @ reads_of text_dec two_uploads (tunnel_loop_start 0 (Some [7])))"
proof -
  let ?st = "tunnel_run text_dec two_uploads (tunnel_loop_start 0 (Some [7]))"
  let ?s = "(started 0 False [[5]])\<lparr>ts_writes := [[5], [7], [8, 9]], ts_next_write_seq := Some 2\<rparr>"
  let ?nevs = "[SeWrite 1 [8, 9], SeWrite 0 [7]]"
  have ops: "data_ops ?st = [\<lparr>dm_data = [7], dm_seq = 0, dm_wseq = Some 0\<rparr>, \<lparr>dm_data = [8, 9], dm_seq = 2, dm_wseq = Some 1\<rparr>]"
    by (simp add: run_simps two_uploads_def idle_mux_def data_ops_def)
  have run: "run_opt session_step ?nevs (started 0 False [[5]], [], []) = Some (?s, [], [])"
    by (simp add: started_def write_bytes_def new_session_def wseq_write_def Let_def
        MAX_PENDING_WRITES_PER_SESSION_def MAX_PENDING_WRITE_BYTES_PER_SESSION_def)
  have "\<forall>ev\<in>set ?nevs. carried_by ?st ev" by (simp add: carried_by_def ops)
  note e = tunnel_upstream [OF refl _ run this]
  have "{..<length (data_ops ?st)} \<subseteq> fst ` set (uploads ?nevs)" by (auto simp: ops less_Suc_eq)
  then show ?thesis using e run by (simp add: ops Let_def)
qed

section \<open>From the remote end to the client\<close>

text \<open>Two polls of one session are under way. The node handles the batch with the later one first: it
  takes the first byte of the remote end; the batch with the earlier poll takes the second.\<close>

definition poll_op :: "u64 \<Rightarrow> batch_op" where
  "poll_op q = \<lparr>bo_op = ''data'', bo_sid = Some ''u'', bo_host = None, bo_port = None, bo_d = None,
     bo_seq = Some q, bo_wseq = None\<rparr>"

definition receiving :: "bytes \<Rightarrow> node_env" where
  "receiving bs = calm_env\<lparr>ne_wait_tcp := [(0, Some bs)]\<rparr>"

definition open_node :: node where
  "open_node = insert_session ''u'' (new_session 0 False) new_node"

definition poll_events :: "tunnel_response \<Rightarrow> tunnel_response \<Rightarrow> (mux \<times> nat \<times> loop_ev) list" where
  "poll_events later earlier =
     [(idle_mux, 1000, LRefill),
      (idle_mux, 2500, LReply \<lparr>im_seq = 1, im_was_empty_poll = True, im_send_at = 1000\<rparr> (RoOk later ''s'') 9),
      (idle_mux, 2600, LReply \<lparr>im_seq = 0, im_was_empty_poll = True, im_send_at = 0\<rparr> (RoOk earlier ''s'') 9)]"

lemma poll_drains:
  assumes "nd_sessions st = [(''u'', 0)]" "nd_tcp st = [(new_session 0 False)\<lparr>ts_arrived := got\<rparr>]" "bs \<noteq> []" "length bs \<le> 1000"
  shows "batch_execute plain_lib (receiving bs) [poll_op q] st =
     (st\<lparr>nd_tcp := [(new_session 0 False)\<lparr>ts_arrived := got @ bs\<rparr>]\<rparr>, [tcp_drain_response plain_lib ''u'' bs False (Some q)])"
proof -
  have "drain_loop (\<lambda>_. []) (\<lambda>_. False) 0 BATCH_RESPONSE_BUDGET [] False
        ((new_session 0 False)\<lparr>ts_read_buf := bs, ts_buf_len := length bs, ts_arrived := got @ bs\<rparr>)
      = ((new_session 0 False)\<lparr>ts_arrived := got @ bs\<rparr>, bs, False)"
    using assms(3,4)
    by (simp add: drain_loop.simps drain_now_def new_session_def BATCH_RESPONSE_BUDGET_def TCP_DRAIN_MAX_BYTES_def Let_def)
  then show ?thesis
    using assms
    by (simp add: batch_execute_def phase1_def phase1_op_def poll_op_def batch_data_def push_tcp_def new_acc_def
        phase2_def wait_phase_def receiving_def calm_env_def upd_tcp_def reader_task_def reader_ready_def
        new_session_def READ_BUF_CAP_def BATCH_RESPONSE_BUDGET_def Let_def)
qed

text \<open>C9: Downstream order is lost when polls overtake each other: there are two batches, handled by the
  node one after the other while the remote end sends first one piece and then another, whose replies
  the client takes in and then writes the second piece before the first.\<close>

theorem downlink_can_reorder:
  "\<exists>st1 st2 later earlier.
     batch_execute plain_lib (receiving [65]) [poll_op 1] open_node = (st1, [later]) \<and>
     batch_execute plain_lib (receiving [66]) [poll_op 0] st1 = (st2, [earlier]) \<and>
     map dm_seq (tl_sent (tunnel_run text_dec [(idle_mux, 1000, LRefill)] (tunnel_loop_start 0 None))) = [0, 1] \<and>
     tl_written (tunnel_run text_dec (poll_events later earlier) (tunnel_loop_start 0 None)) = [[66], [65]]"
proof -
  let ?r = "\<lambda>bs q. tcp_drain_response plain_lib ''u'' bs False (Some q)"
  let ?st = "\<lambda>bs. open_node\<lparr>nd_tcp := [(new_session 0 False)\<lparr>ts_arrived := bs\<rparr>]\<rparr>"
  have n: "nd_sessions (?st bs) = [(''u'', 0)]" "nd_tcp (?st bs) = [(new_session 0 False)\<lparr>ts_arrived := bs\<rparr>]" for bs
    by (simp_all add: open_node_def insert_session_def new_node_def)
  have "open_node = ?st []" by (simp add: open_node_def insert_session_def new_node_def new_session_def)
  then have "batch_execute plain_lib (receiving [65]) [poll_op 1] open_node = (?st [65], [?r [65] 1])"
    using poll_drains [OF n [of "[]"], of "[65]" 1] by simp
  moreover have "batch_execute plain_lib (receiving [66]) [poll_op 0] (?st [65]) = (?st [65, 66], [?r [66] 0])"
    using poll_drains [OF n [of "[65]"], of "[66]" 0] by simp
  moreover have "map dm_seq (tl_sent (tunnel_run text_dec [(idle_mux, 1000, LRefill)] (tunnel_loop_start 0 None))) = [0, 1]"
    by (simp add: run_simps idle_mux_def)
  moreover have "tl_written (tunnel_run text_dec (poll_events (?r [65] 1) (?r [66] 0)) (tunnel_loop_start 0 None)) = [[66], [65]]"
    by (simp add: run_simps poll_events_def idle_mux_def text_dec_def tcp_drain_response_def plain_lib_def Let_def)
  ultimately show ?thesis
    by (intro exI [of _ "?st [65]"] exI [of _ "?st [65, 66]"] exI [of _ "?r [65] 1"] exI [of _ "?r [66] 0"]) simp
qed

end
