(* ===== verification/Fronter_Http.thy ===== *)
theory Fronter_Http
  imports Rust_Net
begin

text \<open>
  HTTP/1.1 responses as the domain fronter (\<^verbatim>\<open>src/src/domain_fronter.rs\<close>) reads and builds them: its
  errors, the splitting of a response into status, headers and body, the headers of a rebuilt response,
  error pages, and the reader of a response from a stream with its three framings. A stream is the
  list of what its reads give; a read of at most \<open>want\<close> bytes leaves the rest. Shown: splitting inverts
  building; a chunked body and a body with a length are read exactly, however the bytes are cut into
  reads; text in an error page cannot open a tag.
\<close>

section \<open>Errors\<close>

datatype fronter_error =
    FeIo string
  | FeTls string
  | FeDns string
  | FeBadResponse string
  | FeRelay string
  | FeTimeout
  | FeJson string
  | FeNonRetryable fronter_error

fun fronter_error_text :: "fronter_error \<Rightarrow> string" where
  "fronter_error_text (FeIo e) = ''io: '' @ e"
| "fronter_error_text (FeTls e) = ''tls: '' @ e"
| "fronter_error_text (FeDns e) = ''invalid dns name: '' @ e"
| "fronter_error_text (FeBadResponse e) = ''bad response: '' @ e"
| "fronter_error_text (FeRelay e) = ''relay error: '' @ e"
| "fronter_error_text FeTimeout = ''timeout''"
| "fronter_error_text (FeJson e) = ''json: '' @ e"
| "fronter_error_text (FeNonRetryable e) = fronter_error_text e"

fun is_retryable :: "fronter_error \<Rightarrow> bool" where
  "is_retryable (FeNonRetryable e) = False"
| "is_retryable e = True"

fun into_inner :: "fronter_error \<Rightarrow> fronter_error" where
  "into_inner (FeNonRetryable e) = e"
| "into_inner e = e"

section \<open>Splitting a response\<close>

type_synonym header = "string \<times> string"

definition CRLF :: bytes where "CRLF = [13, 10]"
definition CRLF2 :: bytes where "CRLF2 = [13, 10, 13, 10]"

text \<open>\<^verbatim>\<open>windows(n).position\<close>: where a pattern first occurs.\<close>

fun find_window :: "'a list \<Rightarrow> 'a list \<Rightarrow> nat option" where
  "find_window pat [] = (if pat = [] then Some 0 else None)"
| "find_window pat (x # xs) =
     (if take (length pat) (x # xs) = pat then Some 0 else map_option Suc (find_window pat xs))"

definition find_double_crlf :: "bytes \<Rightarrow> nat option" where
  "find_double_crlf buf = find_window CRLF2 buf"

definition eq_ignore_ascii_case :: "string \<Rightarrow> string \<Rightarrow> bool" where
  "eq_ignore_ascii_case a b \<longleftrightarrow> to_ascii_lowercase a = to_ascii_lowercase b"

definition header_get :: "header list \<Rightarrow> string \<Rightarrow> string option" where
  "header_get headers name = map_option snd (find (\<lambda>(k, v). eq_ignore_ascii_case k name) headers)"

text \<open>The header lines of \<^verbatim>\<open>split_response\<close>: a line that is not UTF-8 gives up the whole response, an
  empty line or one without a colon is passed over.\<close>

fun split_headers :: "string list \<Rightarrow> header list option" where
  "split_headers [] = Some []"
| "split_headers (l # ls) =
     (if \<not> utf8_valid (as_bytes l) then None
      else
        (let line = trim_end_matches (CHR 0x0D) l in
         if line = [] then split_headers ls
         else (case split_once (CHR '':'') line of
                 None \<Rightarrow> split_headers ls
               | Some (k, v) \<Rightarrow> map_option (Cons (trim k, trim v)) (split_headers ls))))"

definition split_status :: "string \<Rightarrow> nat option" where
  "split_status l =
     (if \<not> utf8_valid (as_bytes l) then None
      else (case split_once (CHR '' '') (trim_end_matches (CHR 0x0D) l) of
              None \<Rightarrow> None
            | Some (_, rest) \<Rightarrow>
                parse_uint (2 ^ 16) (case split_once (CHR '' '') rest of None \<Rightarrow> rest | Some (code, _) \<Rightarrow> code)))"

definition split_response :: "bytes \<Rightarrow> (nat \<times> header list \<times> bytes) option" where
  "split_response raw =
     (case find_window CRLF2 raw of
        None \<Rightarrow> None
      | Some pos \<Rightarrow>
          (let lines = split_all (CHR 0x0A) (str_of_bytes (take pos raw));
               body = drop (pos + 4) raw
           in case split_status (hd lines) of
                None \<Rightarrow> None
              | Some code \<Rightarrow> map_option (\<lambda>hs. (code, hs, body)) (split_headers (tl lines))))"

section \<open>Building a response\<close>

definition skipped_header :: "string \<Rightarrow> bool" where
  "skipped_header k \<longleftrightarrow>
     to_ascii_lowercase k \<in> {''content-length'', ''content-range'', ''content-encoding'', ''transfer-encoding'',
       ''connection'', ''keep-alive''}"

definition crlf_str :: string where "crlf_str = [CHR 0x0D, CHR 0x0A]"

definition header_line :: "header \<Rightarrow> string" where
  "header_line = (\<lambda>(k, v). k @ '': '' @ v @ crlf_str)"

definition assemble_200_head :: "header list \<Rightarrow> nat \<Rightarrow> bytes" where
  "assemble_200_head src_headers declared_length =
     as_bytes (''HTTP/1.1 200 OK'' @ crlf_str
       @ concat (map header_line (filter (\<lambda>(k, v). \<not> skipped_header k) src_headers))
       @ ''Content-Length: '' @ dec_show declared_length @ crlf_str @ crlf_str)"

definition assemble_full_200 :: "header list \<Rightarrow> bytes \<Rightarrow> bytes" where
  "assemble_full_200 src_headers body = assemble_200_head src_headers (length body) @ body"

definition rewrite_206_to_200 :: "bytes \<Rightarrow> bytes" where
  "rewrite_206_to_200 raw =
     (case split_response raw of None \<Rightarrow> raw | Some (_, headers, body) \<Rightarrow> assemble_full_200 headers body)"

definition status_text :: "nat \<Rightarrow> string" where
  "status_text code =
     (case map_of
        [(200, ''OK''), (201, ''Created''), (204, ''No Content''), (206, ''Partial Content''),
         (301, ''Moved Permanently''), (302, ''Found''), (303, ''See Other''), (304, ''Not Modified''),
         (307, ''Temporary Redirect''), (308, ''Permanent Redirect''), (400, ''Bad Request''), (401, ''Unauthorized''),
         (403, ''Forbidden''), (404, ''Not Found''), (500, ''Internal Server Error''), (502, ''Bad Gateway''),
         (504, ''Gateway Timeout'')] code of
        Some t \<Rightarrow> t
      | None \<Rightarrow> ''OK'')"

definition html_escape :: "string \<Rightarrow> string" where
  "html_escape s =
     replace_char (CHR ''>'') ''&gt;'' (replace_char (CHR ''<'') ''&lt;'' (replace_char (CHR ''&'') ''&amp;'' s))"

definition error_page :: "nat \<Rightarrow> string \<Rightarrow> bytes" where
  "error_page status message =
     (let body = ''<html><body><h1>'' @ dec_show status @ ''</h1><p>'' @ html_escape message @ ''</p></body></html>'' in
      as_bytes (''HTTP/1.1 '' @ dec_show status @ '' '' @ status_text status @ crlf_str @ ''Content-Type: text/html'' @ crlf_str
        @ ''Content-Length: '' @ dec_show (length body) @ crlf_str @ crlf_str @ body))"

section \<open>Reading a response from a stream\<close>

text \<open>What one read gives. \<open>RdBytes []\<close> is the end of the stream, \<open>RdUnexpectedEof\<close> its end without
  the TLS closure alert.\<close>

datatype read_ev = RdBytes bytes | RdUnexpectedEof | RdError string | RdTimeout

definition next_read :: "nat \<Rightarrow> read_ev list \<Rightarrow> read_ev \<times> read_ev list" where
  "next_read want evs =
     (case evs of
        [] \<Rightarrow> (RdBytes [], [])
      | RdBytes b # r \<Rightarrow> if length b \<le> want then (RdBytes b, r) else (RdBytes (take want b), RdBytes (drop want b) # r)
      | e # r \<Rightarrow> (e, r))"

definition pending_reads :: "read_ev list \<Rightarrow> nat" where
  "pending_reads evs = sum_list (map (\<lambda>e. case e of RdBytes b \<Rightarrow> length b | _ \<Rightarrow> 0) evs)"

lemma pending_reads_simps [simp]:
  "pending_reads [] = 0" "pending_reads (RdBytes b # r) = length b + pending_reads r"
  "pending_reads (RdUnexpectedEof # r) = pending_reads r" "pending_reads (RdError e # r) = pending_reads r"
  "pending_reads (RdTimeout # r) = pending_reads r"
  by (simp_all add: pending_reads_def)

lemma next_read_shrinks: "next_read want evs = (RdBytes b, r) \<Longrightarrow> b \<noteq> [] \<Longrightarrow> pending_reads r < pending_reads evs"
  by (auto simp: next_read_def split: list.splits read_ev.splits if_splits)

lemma find_window_Some: "find_window pat xs = Some i \<Longrightarrow> take (length pat) (drop i xs) = pat"
  by (induction xs arbitrary: i) (auto split: if_splits)

text \<open>The loop over the header block.\<close>

function read_head :: "bytes \<Rightarrow> read_ev list \<Rightarrow> (bytes \<times> nat \<times> read_ev list, fronter_error) result" where
  "read_head buf evs =
     (case next_read 8192 evs of
        (RdTimeout, _) \<Rightarrow> Inl FeTimeout
      | (RdError e, _) \<Rightarrow> Inl (FeIo e)
      | (RdUnexpectedEof, _) \<Rightarrow> Inl (FeIo ''unexpected eof'')
      | (RdBytes b, evs') \<Rightarrow>
          if b = [] then Inl (FeBadResponse ''connection closed before headers'')
          else (case find_double_crlf (buf @ b) of
                  Some pos \<Rightarrow> Inr (buf @ b, pos, evs')
                | None \<Rightarrow>
                    if 1024 * 1024 < length (buf @ b) then Inl (FeBadResponse ''headers too large'')
                    else read_head (buf @ b) evs'))"
  by pat_completeness auto
termination
  by (relation "measure (\<lambda>(buf, evs). pending_reads evs)") (auto dest: next_read_shrinks [OF sym])

declare read_head.simps [simp del]

function read_crlf_line :: "bytes \<Rightarrow> read_ev list \<Rightarrow> (bytes \<times> bytes \<times> read_ev list, fronter_error) result" where
  "read_crlf_line buf evs =
     (case find_window CRLF buf of
        Some idx \<Rightarrow> Inr (take idx buf, drop (idx + 2) buf, evs)
      | None \<Rightarrow>
          (case next_read 16384 evs of
             (RdTimeout, _) \<Rightarrow> Inl FeTimeout
           | (RdError e, _) \<Rightarrow> Inl (FeIo e)
           | (RdUnexpectedEof, _) \<Rightarrow> Inl (FeIo ''unexpected eof'')
           | (RdBytes b, evs') \<Rightarrow>
               if b = [] then Inl (FeBadResponse ''connection closed mid-chunked response'')
               else read_crlf_line (buf @ b) evs'))"
  by pat_completeness auto
termination
  by (relation "measure (\<lambda>(buf, evs). pending_reads evs)") (auto dest: next_read_shrinks [OF sym])

declare read_crlf_line.simps [simp del]

text \<open>The loop that waits for \<open>need\<close> bytes, with reads of at most \<open>cap\<close> and, for a body with a length, of
  no more than is missing; an end without the closure alert counts as an end.\<close>

function fill_to :: "bool \<Rightarrow> nat \<Rightarrow> string \<Rightarrow> nat \<Rightarrow> bytes \<Rightarrow> read_ev list \<Rightarrow> (bytes \<times> read_ev list, fronter_error) result" where
  "fill_to exact cap msg need buf evs =
     (if need \<le> length buf then Inr (buf, evs)
      else (case next_read (if exact then min (need - length buf) cap else cap) evs of
              (RdTimeout, _) \<Rightarrow> Inl FeTimeout
            | (RdError e, _) \<Rightarrow> Inl (FeIo e)
            | (RdUnexpectedEof, _) \<Rightarrow> Inl (FeBadResponse msg)
            | (RdBytes b, evs') \<Rightarrow> if b = [] then Inl (FeBadResponse msg) else fill_to exact cap msg need (buf @ b) evs'))"
  by pat_completeness auto
termination
  by (relation "measure (\<lambda>(_, _, _, _, buf, evs). pending_reads evs)") (auto dest: next_read_shrinks [OF sym])

declare fill_to.simps [simp del]

lemma read_crlf_line_shrinks:
  "read_crlf_line buf evs = Inr (line, buf', evs') \<Longrightarrow> length buf' + pending_reads evs' < length buf + pending_reads evs"
proof (induction buf evs rule: read_crlf_line.induct)
  case (1 buf evs)
  show ?case
  proof (cases "find_window CRLF buf")
    case (Some idx)
    then have "CRLF = take 2 (drop idx buf)" using find_window_Some [of CRLF buf idx] by (simp add: CRLF_def numeral_2_eq_2)
    then have "length (take 2 (drop idx buf)) = 2" by (metis CRLF_def length_Cons list.size(3) numeral_2_eq_2)
    then have "idx + 2 \<le> length buf" by simp
    with Some "1.prems" show ?thesis by (auto simp: read_crlf_line.simps [of buf])
  next
    case None
    obtain e r where er: "next_read 16384 evs = (e, r)" by (cases "next_read 16384 evs")
    with None "1.prems" obtain b where b: "e = RdBytes b" "b \<noteq> []" "read_crlf_line (buf @ b) r = Inr (line, buf', evs')"
      by (auto simp: read_crlf_line.simps [of buf] split: read_ev.splits if_splits)
    have "length buf' + pending_reads evs' < length (buf @ b) + pending_reads r"
      using "1.IH" [OF None er [symmetric] b] .
    moreover have "length b + pending_reads r = pending_reads evs"
      using er b(1) by (auto simp: next_read_def split: list.splits read_ev.splits if_splits)
    ultimately show ?thesis by simp
  qed
qed

lemma next_read_sum: "next_read want evs = (RdBytes b, r) \<Longrightarrow> length b + pending_reads r = pending_reads evs"
  by (auto simp: next_read_def split: list.splits read_ev.splits if_splits)

lemma fill_to_sum:
  "fill_to exact cap msg need buf evs = Inr (buf', evs') \<Longrightarrow>
     length buf' + pending_reads evs' = length buf + pending_reads evs \<and> need \<le> length buf'"
proof (induction exact cap msg need buf evs rule: fill_to.induct)
  case (1 exact cap msg need buf evs)
  show ?case
  proof (cases "need \<le> length buf")
    case False
    obtain e r where er: "next_read (if exact then min (need - length buf) cap else cap) evs = (e, r)"
      by (cases "next_read (if exact then min (need - length buf) cap else cap) evs")
    with False "1.prems" obtain b where b: "e = RdBytes b" "b \<noteq> []" "fill_to exact cap msg need (buf @ b) r = Inr (buf', evs')"
      by (auto simp: fill_to.simps [of exact cap msg need buf] simp del: if_split split: read_ev.splits if_split_asm)
    with "1.IH" [OF False er [symmetric]] next_read_sum [OF er [unfolded b(1)]] show ?thesis by simp
  qed (use "1.prems" in \<open>simp add: fill_to.simps [of exact cap msg need buf]\<close>)
qed

text \<open>The trailer lines after the last chunk, up to the empty one.\<close>

function read_trailers :: "bytes \<Rightarrow> read_ev list \<Rightarrow> (read_ev list, fronter_error) result" where
  "read_trailers buf evs =
     (case read_crlf_line buf evs of
        Inl e \<Rightarrow> Inl e
      | Inr (line, buf', evs') \<Rightarrow> if line = [] then Inr evs' else read_trailers buf' evs')"
  by pat_completeness auto
termination
  by (relation "measure (\<lambda>(buf, evs). length buf + pending_reads evs)") (auto dest: read_crlf_line_shrinks)

declare read_trailers.simps [simp del]

definition parse_hex :: "string \<Rightarrow> nat option" where
  "parse_hex s =
     (let ds = (case s of c # cs \<Rightarrow> (if c = CHR ''+'' then cs else s) | [] \<Rightarrow> []);
          vs = map (to_digit 16) ds
      in if ds = [] \<or> None \<in> set vs then None
         else (let n = digits_val 16 (map the vs) in if n < 2 ^ 64 then Some n else None))"

text \<open>A chunked body. No value is a panic: the size of a chunk is added to 2 in a \<^verbatim>\<open>usize\<close>.\<close>

function read_chunked :: "bytes \<Rightarrow> bytes \<Rightarrow> read_ev list \<Rightarrow> (bytes, fronter_error) result option" where
  "read_chunked out buf evs =
     (case read_crlf_line buf evs of
        Inl e \<Rightarrow> Some (Inl e)
      | Inr (line, buf1, evs1) \<Rightarrow>
          if \<not> utf8_valid line then Some (Inl (FeBadResponse ''bad chunk size''))
          else
            (let s = trim (str_of_bytes line) in
             if s = [] then read_chunked out buf1 evs1
             else (case parse_hex (hd (split_all (CHR '';'') s)) of
                     None \<Rightarrow> Some (Inl (FeBadResponse (''bad chunk size '' @ [CHR 0x27] @ s @ [CHR 0x27])))
                   | Some sz \<Rightarrow>
                       if sz = 0 then Some (map_sum id (\<lambda>_. out) (read_trailers buf1 evs1))
                       else if 2 ^ 64 \<le> sz + 2 then None
                       else (case fill_to False 16384 ''connection closed mid-chunked response'' (sz + 2) buf1 evs1 of
                               Inl e \<Rightarrow> Some (Inl e)
                             | Inr (buf2, evs2) \<Rightarrow>
                                 if take 2 (drop sz buf2) \<noteq> CRLF
                                 then Some (Inl (FeBadResponse ''chunk missing trailing CRLF''))
                                 else read_chunked (out @ take sz buf2) (drop (sz + 2) buf2) evs2))))"
  by pat_completeness auto
termination
  by (relation "measure (\<lambda>(out, buf, evs). length buf + pending_reads evs)")
    (auto dest!: read_crlf_line_shrinks fill_to_sum)

declare read_chunked.simps [simp del]

text \<open>A body without framing: up to the end, an end without alert, or a pause.\<close>

function read_to_close :: "bytes \<Rightarrow> read_ev list \<Rightarrow> (bytes, fronter_error) result" where
  "read_to_close body evs =
     (case next_read 8192 evs of
        (RdTimeout, _) \<Rightarrow> Inr body
      | (RdUnexpectedEof, _) \<Rightarrow> Inr body
      | (RdError e, _) \<Rightarrow> Inl (FeIo e)
      | (RdBytes b, evs') \<Rightarrow> if b = [] then Inr body else read_to_close (body @ b) evs')"
  by pat_completeness auto
termination
  by (relation "measure (\<lambda>(body, evs). pending_reads evs)") (auto dest: next_read_shrinks [OF sym])

declare read_to_close.simps [simp del]

text \<open>The first word of a text, by Unicode white space, and the status line.\<close>

fun split_word :: "string \<Rightarrow> string \<times> string" where
  "split_word [] = ([], [])"
| "split_word (c # cs) =
     (if 0 < ws_len ws_encodings (c # cs) then ([], c # cs) else (case split_word cs of (w, r) \<Rightarrow> (c # w, r)))"

definition parse_status_line :: "string \<Rightarrow> (nat, fronter_error) result" where
  "parse_status_line line =
     (let (_, r) = split_word (trim_start line);
          (code, _) = split_word (trim_start r)
      in if code = [] then Inl (FeBadResponse (''bad status line: '' @ line))
         else (case parse_uint (2 ^ 16) code of
                 None \<Rightarrow> Inl (FeBadResponse (''bad status code: '' @ code))
               | Some n \<Rightarrow> Inr n))"

fun split_crlf :: "string \<Rightarrow> string list" where
  "split_crlf [] = [[]]"
| "split_crlf (x # xs) =
     (if x = CHR 0x0D \<and> xs \<noteq> [] \<and> hd xs = CHR 0x0A then [] # split_crlf (tl xs)
      else (case split_crlf xs of p # ps \<Rightarrow> (x # p) # ps | [] \<Rightarrow> [[x]]))"

definition header_lines :: "string list \<Rightarrow> header list" where
  "header_lines ls = List.map_filter (\<lambda>l. map_option (\<lambda>(k, v). (trim k, trim v)) (split_once (CHR '':'') l)) ls"

definition read_body :: "header list \<Rightarrow> bytes \<Rightarrow> read_ev list \<Rightarrow> (bytes, fronter_error) result option" where
  "read_body headers body evs =
     (let te = (case header_get headers ''transfer-encoding'' of None \<Rightarrow> [] | Some v \<Rightarrow> v) in
      if contains (to_ascii_lowercase te) ''chunked'' then read_chunked [] body evs
      else (case Option.bind (header_get headers ''content-length'') (parse_uint (2 ^ 64)) of
              Some cl \<Rightarrow> Some (map_sum id fst (fill_to True 8192 ''connection closed before full response body'' cl body evs))
            | None \<Rightarrow> Some (read_to_close body evs)))"

definition gunzip :: "(bytes \<Rightarrow> bytes option) \<Rightarrow> header list \<Rightarrow> bytes \<Rightarrow> bytes" where
  "gunzip decode_gzip headers body =
     (case header_get headers ''content-encoding'' of
        Some enc \<Rightarrow>
          if eq_ignore_ascii_case enc ''gzip''
          then (case decode_gzip body of Some d \<Rightarrow> d | None \<Rightarrow> body) else body
      | None \<Rightarrow> body)"

definition read_http_response :: "(bytes \<Rightarrow> bytes option) \<Rightarrow> read_ev list \<Rightarrow> (nat \<times> header list \<times> bytes, fronter_error) result option" where
  "read_http_response decode_gzip evs =
     (case read_head [] evs of
        Inl e \<Rightarrow> Some (Inl e)
      | Inr (buf, pos, evs') \<Rightarrow>
          if \<not> utf8_valid (take pos buf) then Some (Inl (FeBadResponse ''non-utf8 headers''))
          else
            (let lines = split_crlf (str_of_bytes (take pos buf)); headers = header_lines (tl lines) in
             case parse_status_line (hd lines) of
               Inl e \<Rightarrow> Some (Inl e)
             | Inr status \<Rightarrow>
                 map_option (map_sum id (\<lambda>body. (status, headers, gunzip decode_gzip headers body)))
                   (read_body headers (drop (pos + 4) buf) evs')))"

section \<open>Reading does not depend on how the bytes arrive\<close>

text \<open>A stream that delivers bytes, cut in any way, and then ends.\<close>

definition delivers :: "read_ev list \<Rightarrow> bytes \<Rightarrow> bool" where
  "delivers evs bs \<longleftrightarrow> (\<exists>bss. evs = map RdBytes bss \<and> [] \<notin> set bss \<and> concat bss = bs)"

lemma delivers_Nil: "delivers evs [] \<longleftrightarrow> evs = []"
proof
  assume "delivers evs []"
  then obtain bss where "evs = map RdBytes bss" "[] \<notin> set bss" "concat bss = []" by (auto simp: delivers_def)
  then show "evs = []" by (cases bss) auto
qed (simp add: delivers_def)

lemma delivers_next:
  assumes "delivers evs bs" "bs \<noteq> []" "0 < want"
  shows "\<exists>b r. next_read want evs = (RdBytes b, r) \<and> b \<noteq> [] \<and> (\<exists>bs'. bs = b @ bs' \<and> delivers r bs')"
proof -
  obtain bss where bss: "evs = map RdBytes bss" "[] \<notin> set bss" "concat bss = bs"
    using assms(1) by (auto simp: delivers_def)
  with assms(2) obtain b bss' where c: "bss = b # bss'" by (cases bss) auto
  show ?thesis
  proof (cases "length b \<le> want")
    case True
    with bss c show ?thesis by (auto simp: next_read_def delivers_def)
  next
    case False
    have "delivers (RdBytes (drop want b) # map RdBytes bss') (drop want b @ concat bss')"
      unfolding delivers_def using bss(2) c False by (intro exI [of _ "drop want b # bss'"]) auto
    with False bss c assms(3) show ?thesis
      by (auto simp: next_read_def intro!: exI [of _ "drop want b @ concat bss'"])
  qed
qed

text \<open>No occurrence of the pattern before the end of a text that ends with it.\<close>

definition first_at :: "'a list \<Rightarrow> 'a list \<Rightarrow> 'a list \<Rightarrow> bool" where
  "first_at pat line rest \<longleftrightarrow> find_window pat (line @ pat @ rest) = Some (length line)"

lemma take_eq_length: "take (length pat) xs = pat \<Longrightarrow> length pat \<le> length xs"
  by (metis length_take min.cobounded1)

lemma find_window_append: "find_window pat xs = Some i \<Longrightarrow> find_window pat (xs @ ys) = Some i"
proof (induction xs arbitrary: i)
  case Nil
  then show ?case by (cases ys) (auto split: if_splits)
next
  case (Cons x xs)
  show ?case
  proof (cases "take (length pat) (x # xs) = pat")
    case True
    have "take (length pat) ((x # xs) @ ys) = pat"
      by (subst take_append) (use True take_eq_length [OF True] in simp)
    with True Cons.prems show ?thesis by simp
  next
    case False
    with Cons.prems obtain j where j: "find_window pat xs = Some j" "i = Suc j" by auto
    have "length pat \<le> length (drop j xs)" by (rule take_eq_length [OF find_window_Some [OF j(1)]])
    then have "take (length pat) ((x # xs) @ ys) = take (length pat) (x # xs)" by (subst take_append) simp
    then have "take (length pat) (x # xs @ ys) \<noteq> pat" using False by simp
    with j Cons.IH [OF j(1)] show ?thesis by simp
  qed
qed

lemma read_crlf_line_exact:
  assumes "delivers evs bs" "buf @ bs = line @ CRLF @ rest" "find_window CRLF (line @ CRLF) = Some (length line)"
  shows "\<exists>buf' evs' bs'. read_crlf_line buf evs = Inr (line, buf', evs') \<and> delivers evs' bs' \<and> buf' @ bs' = rest"
  using assms(1,2)
proof (induction "length bs" arbitrary: buf bs evs rule: less_induct)
  case less
  have fw: "find_window CRLF (buf @ bs) = Some (length line)"
    using find_window_append [OF assms(3), of rest] less.prems(2) by simp
  show ?case
  proof (cases "find_window CRLF buf")
    case (Some i)
    then have "i = length line" using find_window_append [OF Some, of bs] fw by simp
    moreover have "length line + 2 \<le> length buf"
    proof -
      have "take 2 (drop i buf) = CRLF" using find_window_Some [OF Some] by (simp add: CRLF_def numeral_2_eq_2)
      then have "length (take 2 (drop i buf)) = 2" by (simp add: CRLF_def)
      with \<open>i = length line\<close> show ?thesis by simp
    qed
    then have "take (length line) buf = line \<and> drop (length line + 2) buf @ bs = rest"
      using arg_cong [OF less.prems(2), of "take (length line)"] arg_cong [OF less.prems(2), of "drop (length line + 2)"]
      by (simp add: CRLF_def)
    ultimately show ?thesis using Some less.prems(1) by (auto simp: read_crlf_line.simps [of buf])
  next
    case None
    have ne: "bs \<noteq> []" using None fw by auto
    obtain b r bs' where b: "next_read 16384 evs = (RdBytes b, r)" "b \<noteq> []" "bs = b @ bs'" "delivers r bs'"
      using delivers_next [OF less.prems(1) ne, of 16384] by auto
    then have "\<exists>buf' evs' bs''. read_crlf_line (buf @ b) r = Inr (line, buf', evs') \<and> delivers evs' bs'' \<and> buf' @ bs'' = rest"
      using less.prems(2) by (intro less.hyps) auto
    with None b show ?thesis by (simp add: read_crlf_line.simps [of buf])
  qed
qed

lemma fill_to_exact:
  assumes "delivers evs bs" "need \<le> length (buf @ bs)" "0 < cap"
  shows "\<exists>buf' evs' bs'. fill_to exact cap msg need buf evs = Inr (buf', evs') \<and> delivers evs' bs'
     \<and> buf' @ bs' = buf @ bs \<and> need \<le> length buf' \<and> (exact \<longrightarrow> length buf' \<le> max need (length buf))"
  using assms(1,2)
proof (induction "length bs" arbitrary: buf bs evs rule: less_induct)
  case less
  show ?case
  proof (cases "need \<le> length buf")
    case True
    with less.prems show ?thesis by (auto simp: fill_to.simps [of exact cap msg need buf])
  next
    case False
    let ?want = "if exact then min (need - length buf) cap else cap"
    have ne: "bs \<noteq> []" and pos: "0 < ?want" using False less.prems(2) assms(3) by auto
    obtain b r bs' where b: "next_read ?want evs = (RdBytes b, r)" "b \<noteq> []" "bs = b @ bs'" "delivers r bs'"
      using delivers_next [OF less.prems(1) ne pos] by auto
    have short: "length b \<le> ?want" using b(1) by (auto simp: next_read_def split: list.splits read_ev.splits if_splits)
    obtain buf' evs' bs'' where ih: "fill_to exact cap msg need (buf @ b) r = Inr (buf', evs')" "delivers evs' bs''"
      "buf' @ bs'' = buf @ b @ bs'" "need \<le> length buf'" "exact \<longrightarrow> length buf' \<le> max need (length (buf @ b))"
      using less.hyps [of bs' r "buf @ b"] b less.prems(2) by auto
    have "fill_to exact cap msg need buf evs = Inr (buf', evs')"
      using False b ih(1) by (simp add: fill_to.simps [of exact cap msg need buf])
    moreover have "exact \<longrightarrow> length buf' \<le> max need (length buf)" using ih(5) short False by auto
    ultimately show ?thesis using ih b(3) by auto
  qed
qed

section \<open>Chunked bodies\<close>

text \<open>The sender's side: a hexadecimal length, and the encoding of a list of chunks.\<close>

definition chunk_digit :: "nat \<Rightarrow> char" where "chunk_digit d = (if d < 10 then char_of (48 + d) else char_of (87 + d))"

fun hex_digits :: "nat \<Rightarrow> nat list" where
  "hex_digits n = (if n < 16 then [n] else hex_digits (n div 16) @ [n mod 16])"

declare hex_digits.simps [simp del]

definition hex_show :: "nat \<Rightarrow> string" where "hex_show n = map chunk_digit (hex_digits n)"

definition encode_chunk :: "bytes \<Rightarrow> bytes" where
  "encode_chunk c = as_bytes (hex_show (length c)) @ CRLF @ c @ CRLF"

definition encode_chunked :: "bytes list \<Rightarrow> bytes" where
  "encode_chunked cs = concat (map encode_chunk cs) @ as_bytes ''0'' @ CRLF @ CRLF"

lemma hex_digits_props: "hex_digits n \<noteq> [] \<and> list_all (\<lambda>d. d < 16) (hex_digits n) \<and> digits_val 16 (hex_digits n) = n"
  by (induction n rule: hex_digits.induct) (subst (1 2 3) hex_digits.simps, auto simp: digits_val_def)

lemma to_digit_hex: "d < 16 \<Longrightarrow> to_digit 16 (chunk_digit d) = Some d"
  by (auto simp: to_digit_def chunk_digit_def Let_def)

lemma of_char_hex: "d < 16 \<Longrightarrow> (of_char (chunk_digit d) :: nat) = (if d < 10 then 48 + d else 87 + d)"
  by (simp add: chunk_digit_def)

definition plain_char :: "char \<Rightarrow> bool" where
  "plain_char c \<longleftrightarrow> (let n = of_char c :: nat in 48 \<le> n \<and> n \<le> 57 \<or> 97 \<le> n \<and> n \<le> 102)"

lemma plain_char_props:
  assumes "plain_char c"
  shows "ascii_graphic c" "c \<noteq> CHR ''+''" "c \<noteq> CHR '';''" "byte_of_char c < 0x80" "byte_of_char c \<noteq> 13"
proof -
  have n: "48 \<le> (of_char c :: nat)" "(of_char c :: nat) \<le> 102" "(of_char c :: nat) \<noteq> 59"
    using assms by (auto simp: plain_char_def Let_def)
  then show "ascii_graphic c" by (simp add: ascii_graphic_def)
  have u: "unat (byte_of_char c) = of_char c" using n by (simp add: byte_of_char_def)
  from n show "c \<noteq> CHR ''+''" "c \<noteq> CHR '';''" by auto
  from u n show "byte_of_char c < 0x80" "byte_of_char c \<noteq> 13" by (auto simp: word_less_nat_alt)
qed

lemma plain_hex: "d < 16 \<Longrightarrow> plain_char (chunk_digit d)"
  by (auto simp: plain_char_def of_char_hex Let_def)

lemma hex_show_chars: "c \<in> set (hex_show n) \<Longrightarrow> plain_char c"
  using hex_digits_props [of n] by (auto simp: hex_show_def list_all_iff plain_hex)

lemma hex_show_props:
  shows "hex_show n \<noteq> []" "list_all ascii_graphic (hex_show n)" "CHR ''+'' \<notin> set (hex_show n)" "CHR '';'' \<notin> set (hex_show n)"
    "list_all (\<lambda>b. b < 0x80) (as_bytes (hex_show n))" "13 \<notin> set (as_bytes (hex_show n))"
proof -
  show "hex_show n \<noteq> []" using hex_digits_props [of n] by (simp add: hex_show_def)
  show "list_all ascii_graphic (hex_show n)" "list_all (\<lambda>b. b < 0x80) (as_bytes (hex_show n))"
    by (auto simp: list_all_iff as_bytes_def plain_char_props [OF hex_show_chars])
  show "CHR ''+'' \<notin> set (hex_show n)" "CHR '';'' \<notin> set (hex_show n)" "13 \<notin> set (as_bytes (hex_show n))"
    using plain_char_props(2,3,5) [OF hex_show_chars] by (auto simp: as_bytes_def)
qed

lemma parse_hex_show: "n < 2 ^ 64 \<Longrightarrow> parse_hex (hex_show n) = Some n"
proof -
  assume n: "n < 2 ^ 64"
  have m: "map (to_digit 16) (hex_show n) = map Some (hex_digits n)"
    using hex_digits_props [of n] by (auto simp: hex_show_def list_all_iff to_digit_hex)
  have s: "(case hex_show n of c # cs \<Rightarrow> (if c = CHR ''+'' then cs else hex_show n) | [] \<Rightarrow> []) = hex_show n"
    using hex_show_props(1,3) [of n] by (cases "hex_show n") auto
  show ?thesis using n hex_digits_props [of n] hex_show_props(1) [of n]
    unfolding parse_hex_def Let_def s m by (auto simp: comp_def)
qed

lemma find_crlf_line: "13 \<notin> set line \<Longrightarrow> find_window CRLF (line @ CRLF) = Some (length line)"
  by (induction line) (auto simp: CRLF_def)

lemma trim_all_graphic: "s \<noteq> [] \<Longrightarrow> list_all ascii_graphic s \<Longrightarrow> trim s = s"
  by (rule trim_graphic) (auto simp: list_all_iff)

text \<open>The size line of a chunk, however it arrives.\<close>

lemma read_size_line:
  assumes "delivers evs bs" "buf @ bs = as_bytes (hex_show n) @ CRLF @ rest" "n < 2 ^ 64"
  shows "\<exists>buf' evs' bs'. read_crlf_line buf evs = Inr (as_bytes (hex_show n), buf', evs') \<and> delivers evs' bs' \<and> buf' @ bs' = rest
     \<and> utf8_valid (as_bytes (hex_show n)) \<and> trim (hex_show n) = hex_show n
     \<and> parse_hex (hd (split_all (CHR '';'') (hex_show n))) = Some n"
  using read_crlf_line_exact [OF assms(1,2) find_crlf_line] hex_show_props [of n] assms(3)
  by (simp add: utf8_valid_ascii trim_all_graphic split_all_single parse_hex_show)

lemma hex_show_0: "as_bytes (hex_show 0) = as_bytes ''0''"
  by code_simp

lemma read_chunked_exact:
  assumes "delivers evs bs" "buf @ bs = encode_chunked cs" "list_all (\<lambda>c. c \<noteq> [] \<and> length c + 2 < 2 ^ 64) cs"
  shows "read_chunked out buf evs = Some (Inr (out @ concat cs))"
  using assms
proof (induction cs arbitrary: out buf evs bs)
  case Nil
  have eq: "buf @ bs = as_bytes (hex_show 0) @ CRLF @ CRLF" using Nil.prems(2) by (simp add: encode_chunked_def hex_show_0)
  obtain buf' evs' bs' where l: "read_crlf_line buf evs = Inr (as_bytes (hex_show 0), buf', evs')" "delivers evs' bs'"
    "buf' @ bs' = CRLF" "utf8_valid (as_bytes (hex_show 0))" "trim (hex_show 0) = hex_show 0"
    "parse_hex (hd (split_all (CHR '';'') (hex_show 0))) = Some 0"
    using read_size_line [OF Nil.prems(1) eq] by auto
  obtain buf2 evs2 where "read_crlf_line buf' evs' = Inr ([], buf2, evs2)"
    using read_crlf_line_exact [OF l(2), of buf' "[]" "[]"] l(3) find_crlf_line [of "[]"] by auto
  then have "read_trailers buf' evs' = Inr evs2" by (simp add: read_trailers.simps [of buf'])
  with l hex_show_props(1) [of 0] show ?case by (simp add: read_chunked.simps [of out buf])
next
  case (Cons c cs)
  let ?n = "length c"
  have n: "0 < ?n" "?n + 2 < 2 ^ 64" using Cons.prems(3) by auto
  have eq: "buf @ bs = as_bytes (hex_show ?n) @ CRLF @ c @ CRLF @ encode_chunked cs"
    using Cons.prems(2) by (simp add: encode_chunked_def encode_chunk_def)
  obtain buf' evs' bs' where l: "read_crlf_line buf evs = Inr (as_bytes (hex_show ?n), buf', evs')" "delivers evs' bs'"
    "buf' @ bs' = c @ CRLF @ encode_chunked cs" "utf8_valid (as_bytes (hex_show ?n))" "trim (hex_show ?n) = hex_show ?n"
    "parse_hex (hd (split_all (CHR '';'') (hex_show ?n))) = Some ?n"
    using read_size_line [OF Cons.prems(1) eq] n by auto
  have "?n + 2 \<le> length (buf' @ bs')" by (simp add: l(3) CRLF_def)
  from fill_to_exact [OF l(2) this, of 16384 False "''connection closed mid-chunked response''"]
  obtain buf2 evs2 bs2 where f: "fill_to False 16384 ''connection closed mid-chunked response'' (?n + 2) buf' evs' = Inr (buf2, evs2)"
    "delivers evs2 bs2" "buf2 @ bs2 = c @ CRLF @ encode_chunked cs" "?n + 2 \<le> length buf2"
    by (auto simp: l(3))
  have d: "take ?n buf2 = c" "take 2 (drop ?n buf2) = CRLF" "drop (?n + 2) buf2 @ bs2 = encode_chunked cs"
    using arg_cong [OF f(3), of "take ?n"] arg_cong [OF f(3), of "\<lambda>x. take 2 (drop ?n x)"]
      arg_cong [OF f(3), of "drop (?n + 2)"] f(4) by (simp_all add: CRLF_def)
  have "read_chunked out buf evs = read_chunked (out @ c) (drop (?n + 2) buf2) evs2"
    using l f(1) d(1,2) n hex_show_props(1) [of ?n] by (simp add: read_chunked.simps [of out buf])
  then show ?case using Cons.IH [OF f(2) d(3), of "out @ c"] Cons.prems(3) by simp
qed

section \<open>Splitting inverts building\<close>

definition plain_text :: "string \<Rightarrow> bool" where
  "plain_text s \<longleftrightarrow> list_all (\<lambda>c. (of_char c :: nat) < 128 \<and> c \<noteq> CHR 0x0D \<and> c \<noteq> CHR 0x0A) s"

definition clean_header :: "header \<Rightarrow> bool" where
  "clean_header = (\<lambda>(k, v). k \<noteq> [] \<and> CHR '':'' \<notin> set k \<and> trim k = k \<and> trim v = v \<and> plain_text k \<and> plain_text v)"

fun join_crlf :: "string list \<Rightarrow> string" where
  "join_crlf [] = []"
| "join_crlf [l] = l"
| "join_crlf (l # ls) = l @ crlf_str @ join_crlf ls"

lemma join_crlf_Cons: "ls \<noteq> [] \<Longrightarrow> join_crlf (l # ls) = l @ crlf_str @ join_crlf ls"
  by (cases ls) auto

lemma concat_crlf: "ls \<noteq> [] \<Longrightarrow> concat (map (\<lambda>l. l @ crlf_str) ls) = join_crlf ls @ crlf_str"
  by (induction ls rule: join_crlf.induct) auto

lemma find_window_map: "inj f \<Longrightarrow> find_window (map f pat) (map f xs) = find_window pat xs"
proof (induction xs)
  case (Cons x xs)
  have "take (length (map f pat)) (map f (x # xs)) = map f pat \<longleftrightarrow> take (length pat) (x # xs) = pat"
    using Cons.prems by (metis inj_map_eq_map length_map take_map)
  with Cons show ?case by simp
qed simp

lemma inj_byte_of_char: "inj byte_of_char"
  by (rule inj_on_inverseI [of _ char_of_byte]) simp

lemma CRLF2_str: "CRLF2 = as_bytes (crlf_str @ crlf_str)"
  by code_simp

lemma find_window_str: "find_window CRLF2 (as_bytes s) = find_window (crlf_str @ crlf_str) s"
  unfolding CRLF2_str unfolding as_bytes_def by (rule find_window_map [OF inj_byte_of_char])

lemma find_last_line: "CHR 0x0D \<notin> set l \<Longrightarrow> find_window (crlf_str @ crlf_str) (l @ crlf_str @ crlf_str @ r) = Some (length l)"
  by (induction l) (auto simp: crlf_str_def)

lemma find_next_line: "CHR 0x0D \<notin> set l \<Longrightarrow> r \<noteq> [] \<Longrightarrow> hd r \<noteq> CHR 0x0D \<Longrightarrow>
    find_window (crlf_str @ crlf_str) (l @ crlf_str @ r) = map_option (\<lambda>i. length l + 2 + i) (find_window (crlf_str @ crlf_str) r)"
  by (induction l) (auto simp: crlf_str_def neq_Nil_conv option.map_comp comp_def)

definition head_line :: "string \<Rightarrow> bool" where
  "head_line l \<longleftrightarrow> l \<noteq> [] \<and> plain_text l"

lemma plain_no_cr: "plain_text l \<Longrightarrow> CHR 0x0D \<notin> set l \<and> CHR 0x0A \<notin> set l"
  by (auto simp: plain_text_def list_all_iff)

lemma find_lines:
  "ls \<noteq> [] \<Longrightarrow> list_all head_line ls \<Longrightarrow>
     find_window (crlf_str @ crlf_str) (join_crlf ls @ crlf_str @ crlf_str @ r) = Some (length (join_crlf ls))"
proof (induction ls rule: join_crlf.induct)
  case (3 l l' ls)
  have "hd (join_crlf (l' # ls) @ crlf_str @ crlf_str @ r) \<noteq> CHR 0x0D"
    using "3.prems" plain_no_cr [of l'] by (cases l'; cases ls) (auto simp: head_line_def)
  then have "find_window (crlf_str @ crlf_str) (l @ crlf_str @ (join_crlf (l' # ls) @ crlf_str @ crlf_str @ r))
      = Some (length l + 2 + length (join_crlf (l' # ls)))"
    using "3.IH" "3.prems" plain_no_cr [of l]
    by (subst find_next_line) (auto simp: head_line_def crlf_str_def)
  then show ?case by (simp add: crlf_str_def)
qed (auto simp: head_line_def plain_no_cr find_last_line)

lemma split_lines:
  "ls \<noteq> [] \<Longrightarrow> list_all head_line ls \<Longrightarrow>
     split_all (CHR 0x0A) (join_crlf ls) = map (\<lambda>l. l @ [CHR 0x0D]) (butlast ls) @ [last ls]"
proof (induction ls rule: join_crlf.induct)
  case (3 l l' ls)
  have "split_all (CHR 0x0A) ((l @ [CHR 0x0D]) @ CHR 0x0A # join_crlf (l' # ls))
      = (l @ [CHR 0x0D]) # split_all (CHR 0x0A) (join_crlf (l' # ls))"
    using "3.prems" plain_no_cr [of l] by (intro split_all_append) (auto simp: head_line_def)
  with 3 show ?case by (simp add: crlf_str_def)
qed (auto simp: head_line_def plain_no_cr split_all_single)

lemma plain_valid: "plain_text l \<Longrightarrow> utf8_valid (as_bytes l) \<and> utf8_valid (as_bytes (l @ [CHR 0x0D]))"
proof -
  assume "plain_text l"
  moreover have "byte_of_char c < 0x80" if "(of_char c :: nat) < 128" for c
    using that by (simp add: byte_of_char_def word_less_nat_alt)
  ultimately have l: "list_all (\<lambda>b. b < 0x80) (as_bytes l)"
    by (simp add: plain_text_def list_all_iff as_bytes_def)
  moreover have "list_all (\<lambda>b. b < 0x80) (as_bytes [CHR 0x0D])" by (simp add: as_bytes_def byte_of_char_def)
  ultimately have "list_all (\<lambda>b. b < 0x80) (as_bytes (l @ [CHR 0x0D]))" by (simp add: as_bytes_def)
  with l show ?thesis by (blast intro: utf8_valid_ascii)
qed

lemma trim_cr: "plain_text l \<Longrightarrow> trim_end_matches (CHR 0x0D) l = l \<and> trim_end_matches (CHR 0x0D) (l @ [CHR 0x0D]) = l"
proof -
  assume "plain_text l"
  then have "dropWhile (\<lambda>x. x = CHR 0x0D) (rev l) = rev l"
    using plain_no_cr [of l] by (cases "rev l") (auto simp: rev_eq_Cons_iff)
  then show ?thesis by (simp add: trim_end_matches_def)
qed

lemma ws_len_space: "ws_len ws_encodings (CHR '' '' # s) = 1"
  by (simp add: ws_len_def ws_encodings_def)

lemma trim_space: "trim (CHR '' '' # s) = trim s"
  by (simp add: trim_def trim_start_def trim_with.simps [of _ "CHR '' '' # s"] ws_len_space)

text \<open>A header line gives back its header, wherever it stands in the block.\<close>

definition line_of :: "header \<Rightarrow> string" where "line_of = (\<lambda>(k, v). k @ '': '' @ v)"

lemma split_header_line:
  assumes "clean_header h" "l = line_of h \<or> l = line_of h @ [CHR 0x0D]"
  shows "split_headers (l # ls) = map_option (Cons h) (split_headers ls)"
proof -
  obtain k v where h: "h = (k, v)" by (cases h)
  have p: "plain_text (line_of h)" using assms(1) by (simp add: h clean_header_def line_of_def plain_text_def)
  have "split_once (CHR '':'') (line_of h) = Some (k, CHR '' '' # v)"
    using assms(1) by (simp add: h clean_header_def line_of_def split_once_append)
  with assms show ?thesis using plain_valid [OF p] trim_cr [OF p]
    by (auto simp: h clean_header_def line_of_def trim_space)
qed

lemma split_clean_headers:
  "list_all clean_header hs \<Longrightarrow> list_all2 (\<lambda>h l. l = line_of h \<or> l = line_of h @ [CHR 0x0D]) hs ls \<Longrightarrow> split_headers ls = Some hs"
  by (induction hs arbitrary: ls) (auto simp: list_all2_Cons1 split_header_line simp del: split_headers.simps(2))

lemma plain_dec_show: "plain_text (dec_show n)"
  using dec_show_digits [of n] by (auto simp: plain_text_def list_all_iff is_digit_def)

lemma trim_dec_show: "trim (dec_show n) = dec_show n"
proof -
  have "is_digit c \<Longrightarrow> ascii_graphic c" for c by (auto simp: is_digit_def ascii_graphic_def)
  then show ?thesis by (intro trim_all_graphic dec_show_nonempty) (use dec_show_digits [of n] in \<open>auto simp: list_all_iff\<close>)
qed

definition length_header :: "nat \<Rightarrow> header" where "length_header n = (''Content-Length'', dec_show n)"

lemma clean_length_header: "clean_header (length_header n)"
proof -
  have "trim ''Content-Length'' = ''Content-Length''" by (rule trim_all_graphic) (simp_all add: ascii_graphic_def)
  moreover have "plain_text ''Content-Length''" by (simp add: plain_text_def)
  ultimately show ?thesis by (simp add: length_header_def clean_header_def trim_dec_show plain_dec_show)
qed

lemma clean_head_line: "clean_header h \<Longrightarrow> head_line (line_of h)"
  by (cases h) (auto simp: clean_header_def head_line_def line_of_def plain_text_def)

lemma header_line_line: "header_line = (\<lambda>h. line_of h @ crlf_str)"
  by (auto simp: header_line_def line_of_def)

lemma assemble_head_lines:
  "assemble_200_head hs n =
     as_bytes (join_crlf (''HTTP/1.1 200 OK'' # map line_of (filter (\<lambda>(k, v). \<not> skipped_header k) hs @ [length_header n]))
       @ crlf_str @ crlf_str)"
proof -
  let ?ls = "''HTTP/1.1 200 OK'' # map line_of (filter (\<lambda>(k, v). \<not> skipped_header k) hs @ [length_header n])"
  have "join_crlf ?ls @ crlf_str @ crlf_str = concat (map (\<lambda>l. l @ crlf_str) ?ls) @ crlf_str"
    using concat_crlf [of ?ls] by simp
  then show ?thesis
    unfolding assemble_200_head_def header_line_line by (simp add: comp_def length_header_def line_of_def)
qed

text \<open>A response made of a status line, clean header lines and a body.\<close>

definition response_of :: "string \<Rightarrow> header list \<Rightarrow> bytes \<Rightarrow> bytes" where
  "response_of status_line hs body = as_bytes (join_crlf (status_line # map line_of hs) @ crlf_str @ crlf_str) @ body"

lemma split_response_of:
  assumes "head_line st" "split_status (st @ [CHR 0x0D]) = Some code" "list_all clean_header hs" "hs \<noteq> []"
  shows "split_response (response_of st hs body) = Some (code, hs, body)"
proof -
  let ?ls = "st # map line_of hs"
  have lines: "list_all head_line ?ls" using assms(1,3) clean_head_line by (auto simp: list_all_iff)
  have raw: "response_of st hs body = as_bytes (join_crlf ?ls @ crlf_str @ crlf_str @ str_of_bytes body)"
    by (simp add: response_of_def as_bytes_def str_of_bytes_def comp_def map_idI)
  have pos: "find_window CRLF2 (response_of st hs body) = Some (length (join_crlf ?ls))"
    unfolding raw find_window_str using lines by (intro find_lines) auto
  have head: "str_of_bytes (take (length (join_crlf ?ls)) (response_of st hs body)) = join_crlf ?ls"
    unfolding raw by (simp add: as_bytes_def str_of_bytes_def take_map comp_def)
  have tail: "drop (length (join_crlf ?ls) + 4) (response_of st hs body) = body"
    unfolding raw by (simp add: as_bytes_def str_of_bytes_def comp_def crlf_str_def map_idI)
  have sp: "split_all (CHR 0x0A) (join_crlf ?ls)
      = (st @ [CHR 0x0D]) # map (\<lambda>l. l @ [CHR 0x0D]) (butlast (map line_of hs)) @ [last (map line_of hs)]"
    using split_lines [OF _ lines] assms(4) by simp
  have "list_all2 (\<lambda>h l. l = line_of h \<or> l = line_of h @ [CHR 0x0D]) (butlast hs @ [last hs])
      (map (\<lambda>l. l @ [CHR 0x0D]) (butlast (map line_of hs)) @ [last (map line_of hs)])"
    using assms(4) by (intro list_all2_appendI) (simp_all add: map_butlast [symmetric] list_all2_map2 list_all2_same last_map)
  then have "split_headers (map (\<lambda>l. l @ [CHR 0x0D]) (butlast (map line_of hs)) @ [last (map line_of hs)]) = Some hs"
    using split_clean_headers [OF assms(3)] assms(4) by simp
  with assms(2) show ?thesis
    unfolding split_response_def pos option.case Let_def head tail sp list.sel by simp
qed

lemma status_line_200: "head_line ''HTTP/1.1 200 OK''" "split_status (''HTTP/1.1 200 OK'' @ [CHR 0x0D]) = Some 200"
proof -
  have st: "plain_text ''HTTP/1.1 200 OK''" by (simp add: plain_text_def)
  then show "head_line ''HTTP/1.1 200 OK''" by (simp add: head_line_def)
  show "split_status (''HTTP/1.1 200 OK'' @ [CHR 0x0D]) = Some 200"
    using plain_valid [OF st] trim_cr [OF st]
    by (simp add: split_status_def parse_uint_def is_digit_def dec_val_def Let_def)
qed

text \<open>Splitting a response that was built from a head and a body gives exactly the headers that are
  forwarded, the length, and the body, byte for byte, also when the body contains line ends.\<close>

theorem built_response_splits:
  assumes "list_all clean_header (filter (\<lambda>(k, v). \<not> skipped_header k) hs)"
  shows "split_response (assemble_full_200 hs body)
     = Some (200, filter (\<lambda>(k, v). \<not> skipped_header k) hs @ [(''Content-Length'', dec_show (length body))], body)"
proof -
  let ?kept = "filter (\<lambda>(k, v). \<not> skipped_header k) hs @ [length_header (length body)]"
  have "assemble_full_200 hs body = response_of ''HTTP/1.1 200 OK'' ?kept body"
    by (simp add: assemble_full_200_def assemble_head_lines response_of_def)
  moreover have "list_all clean_header ?kept" using assms clean_length_header by simp
  ultimately show ?thesis using split_response_of [OF status_line_200] by (simp add: length_header_def)
qed

theorem built_response_splits_witness:
  "split_response (assemble_full_200 [(''ETag'', ''x''), (''Content-Range'', ''bytes 0-1/2'')] [13, 10, 13, 10])
     = Some (200, [(''ETag'', ''x''), (''Content-Length'', ''4'')], [13, 10, 13, 10])"
proof -
  have "trim ''ETag'' = ''ETag''" "trim ''x'' = ''x''" by (rule trim_all_graphic; simp add: ascii_graphic_def)+
  moreover have sk: "skipped_header ''Content-Range''" "\<not> skipped_header ''ETag''" by code_simp+
  ultimately have "list_all clean_header (filter (\<lambda>(k, v). \<not> skipped_header k) [(''ETag'', ''x''), (''Content-Range'', ''bytes 0-1/2'')])"
    by (simp add: clean_header_def plain_text_def)
  moreover have "dec_show (Suc (Suc (Suc (Suc 0)))) = ''4''" by code_simp
  ultimately show ?thesis using built_response_splits [of "[(''ETag'', ''x''), (''Content-Range'', ''bytes 0-1/2'')]" "[13, 10, 13, 10]"] sk
    by simp
qed

text \<open>A chunked body is read exactly, whatever the sizes of its chunks and however its bytes are
  cut into reads.\<close>

theorem chunked_body_exact:
  assumes "delivers evs (encode_chunked cs)" "list_all (\<lambda>c. c \<noteq> [] \<and> length c + 2 < 2 ^ 64) cs"
  shows "read_chunked [] [] evs = Some (Inr (concat cs))"
  using read_chunked_exact [OF assms(1) _ assms(2), of "[]" "[]"] by simp

theorem chunked_body_exact_witness:
  "read_chunked [] [] [RdBytes [50, 13], RdBytes [10, 1, 2, 13, 10, 48, 13], RdBytes [10, 13, 10]] = Some (Inr [1, 2])"
proof -
  have "delivers [RdBytes [50, 13], RdBytes [10, 1, 2, 13, 10, 48, 13], RdBytes [10, 13, 10]] (encode_chunked [[1, 2]])"
    unfolding delivers_def
    by (rule exI [of _ "[[50, 13], [10, 1, 2, 13, 10, 48, 13], [10, 13, 10]]"])
      (simp add: encode_chunked_def encode_chunk_def CRLF_def hex_show_def hex_digits.simps chunk_digit_def as_bytes_def byte_of_char_def)
  from chunked_body_exact [OF this] show ?thesis by simp
qed

text \<open>A body with a length, read from a stream that has it: exact if nothing of the next message came
  with the head; what came with the head beyond the length is kept in the body.\<close>

lemma length_body_exact:
  assumes "delivers evs bs" "cl \<le> length (body @ bs)" "length body \<le> cl"
  shows "map_sum id fst (fill_to True 8192 msg cl body evs) = Inr (take cl (body @ bs))"
proof -
  obtain buf' evs' bs' where "fill_to True 8192 msg cl body evs = Inr (buf', evs')" "buf' @ bs' = body @ bs"
    "cl \<le> length buf'" "length buf' \<le> max cl (length body)"
    using fill_to_exact [OF assms(1,2), of 8192 True msg] by auto
  moreover from this assms(3) have "buf' = take cl (body @ bs)"
    by (metis append_eq_conv_conj le_antisym max.absorb1)
  ultimately show ?thesis by simp
qed

lemma length_body_surplus: "cl < length body \<Longrightarrow> map_sum id fst (fill_to True 8192 msg cl body evs) = Inr body"
  by (simp add: fill_to.simps)

text \<open>A chunk size of \<open>2 ^ 64 - 1\<close> or one less ends the task with an overflow.\<close>

lemma huge_chunk_panics:
  assumes "2 ^ 64 \<le> n + 2" "n < 2 ^ 64"
  shows "read_chunked [] (as_bytes (hex_show n) @ CRLF) [] = None"
proof -
  obtain buf' evs' where "read_crlf_line (as_bytes (hex_show n) @ CRLF) [] = Inr (as_bytes (hex_show n), buf', evs')"
    "utf8_valid (as_bytes (hex_show n))" "trim (hex_show n) = hex_show n" "parse_hex (hd (split_all (CHR '';'') (hex_show n))) = Some n"
    using read_size_line [of "[]" "[]" "as_bytes (hex_show n) @ CRLF" n "[]"] assms(2) by (auto simp: delivers_Nil)
  with hex_show_props(1) [of n] assms show ?thesis by (simp add: read_chunked.simps)
qed

text \<open>Text in an error page cannot open or close a tag.\<close>

lemma html_escape_no_tags: "CHR ''<'' \<notin> set (html_escape s) \<and> CHR ''>'' \<notin> set (html_escape s)"
  by (auto simp: html_escape_def replace_char_def split: if_splits)

end
