(* ===== verification/Tunnel_Mux.thy ===== *)
theory Tunnel_Mux
  imports Tunnel_Loop Fronter_Http
begin

text \<open>
  The multiplexer of the tunnel client (\<^verbatim>\<open>src/src/tunnel_client.rs\<close>): coalescing of the sessions' messages
  into batches, the limits of a batch, its encoding, the permits of a deployment, the repetition of a
  batch whose fate is unknown, the distribution of the answers, and the negative cache of destinations
  the node cannot reach. Batches are posted by the domain fronter, here a function. Shown: batches carry
  the messages in order within their limits and every message gets exactly the answer to its own
  operation, also through the node's batch handler; the client's notion of a batch that may be repeated
  is the node's; waiting for more messages ends in time; active batches always find permits that idle
  ones cannot hold; the negative cache is bounded and answers exactly.
\<close>

section \<open>Constants\<close>

definition CONCURRENCY_PER_DEPLOYMENT :: nat where "CONCURRENCY_PER_DEPLOYMENT = 30"
definition RESERVED_ACTIVE_PER_DEPLOYMENT :: nat where "RESERVED_ACTIVE_PER_DEPLOYMENT = 6"
definition IDLE_CONCURRENCY_PER_DEPLOYMENT :: nat where
  "IDLE_CONCURRENCY_PER_DEPLOYMENT = CONCURRENCY_PER_DEPLOYMENT - RESERVED_ACTIVE_PER_DEPLOYMENT"
definition MAX_BATCH_PAYLOAD_BYTES :: nat where "MAX_BATCH_PAYLOAD_BYTES = 4 * 1024 * 1024"
definition MAX_BATCH_OPS :: nat where "MAX_BATCH_OPS = 50"
definition DEFAULT_COALESCE_STEP_MS :: nat where "DEFAULT_COALESCE_STEP_MS = 200"
definition DEFAULT_COALESCE_MAX_MS :: nat where "DEFAULT_COALESCE_MAX_MS = 1000"
definition HANDSHAKE_COALESCE_MAX_MS :: nat where "HANDSHAKE_COALESCE_MAX_MS = 50"
definition UNREACHABLE_CACHE_TTL :: nat where "UNREACHABLE_CACHE_TTL = 30000"
definition UNREACHABLE_CACHE_MAX :: nat where "UNREACHABLE_CACHE_MAX = 256"

section \<open>Messages and operations\<close>

text \<open>A reply channel is the number of the waiting caller.\<close>

datatype mux_msg =
    MConnect string u16 nat
  | MConnectData string u16 bytes nat
  | MData string bytes "u64 option" "u64 option" nat
  | MUdpOpen string u16 bytes nat
  | MUdpData string bytes nat
  | MClose string

record pending_op =
  po_op :: string
  po_sid :: "string option"
  po_host :: "string option"
  po_port :: "u16 option"
  po_data :: "bytes option"
  po_encode_empty :: bool
  po_seq :: "u64 option"
  po_wseq :: "u64 option"

definition encoded_len :: "nat \<Rightarrow> nat" where
  "encoded_len n = (n + 2) div 3 * 4"

definition encode_pending :: "(bytes \<Rightarrow> string) \<Rightarrow> pending_op \<Rightarrow> batch_op" where
  "encode_pending enc p =
     \<lparr>bo_op = po_op p, bo_sid = po_sid p, bo_host = po_host p, bo_port = po_port p,
      bo_d = (case po_data p of
                Some b \<Rightarrow> if b \<noteq> [] then Some (enc b) else if po_encode_empty p then Some [] else None
              | None \<Rightarrow> None),
      bo_seq = po_seq p, bo_wseq = po_wseq p\<rparr>"

definition non_empty :: "bytes \<Rightarrow> bytes option" where
  "non_empty d = (if d = [] then None else Some d)"

text \<open>The operation of a message with its encoded size and its caller; \<open>close\<close> has neither.\<close>

fun msg_op :: "mux_msg \<Rightarrow> (pending_op \<times> nat \<times> nat) option" where
  "msg_op (MConnect host port reply) =
     Some (\<lparr>po_op = ''connect'', po_sid = None, po_host = Some host, po_port = Some port, po_data = None,
            po_encode_empty = False, po_seq = None, po_wseq = None\<rparr>, 0, reply)"
| "msg_op (MConnectData host port data reply) =
     Some (\<lparr>po_op = ''connect_data'', po_sid = None, po_host = Some host, po_port = Some port, po_data = Some data,
            po_encode_empty = True, po_seq = None, po_wseq = None\<rparr>, encoded_len (length data), reply)"
| "msg_op (MData sid data sq wsq reply) =
     Some (\<lparr>po_op = ''data'', po_sid = Some sid, po_host = None, po_port = None, po_data = non_empty data,
            po_encode_empty = False, po_seq = sq, po_wseq = wsq\<rparr>, encoded_len (length data), reply)"
| "msg_op (MUdpOpen host port data reply) =
     Some (\<lparr>po_op = ''udp_open'', po_sid = None, po_host = Some host, po_port = Some port, po_data = non_empty data,
            po_encode_empty = False, po_seq = None, po_wseq = None\<rparr>, encoded_len (length data), reply)"
| "msg_op (MUdpData sid data reply) =
     Some (\<lparr>po_op = ''udp_data'', po_sid = Some sid, po_host = None, po_port = None, po_data = non_empty data,
            po_encode_empty = False, po_seq = None, po_wseq = None\<rparr>, encoded_len (length data), reply)"
| "msg_op (MClose sid) = None"

definition close_op :: "string \<Rightarrow> pending_op" where
  "close_op sid = \<lparr>po_op = ''close'', po_sid = Some sid, po_host = None, po_port = None, po_data = None,
     po_encode_empty = False, po_seq = None, po_wseq = None\<rparr>"

fun close_sid :: "mux_msg \<Rightarrow> string list" where
  "close_sid (MClose sid) = [sid]"
| "close_sid _ = []"

section \<open>Batches\<close>

definition should_fire :: "nat \<Rightarrow> nat \<Rightarrow> nat \<Rightarrow> bool" where
  "should_fire pending_len payload_bytes op_bytes \<longleftrightarrow>
     0 < pending_len \<and>
     (MAX_BATCH_OPS \<le> pending_len \<or> MAX_BATCH_PAYLOAD_BYTES < min (2 ^ 64 - 1) (payload_bytes + op_bytes))"

text \<open>A batch handed to \<open>fire_batch\<close>: its operations, and the callers with the index of theirs.\<close>

type_synonym fired = "pending_op list \<times> (nat \<times> nat) list"

record batch_accum =
  bm_pending_ops :: "pending_op list"
  bm_data_replies :: "(nat \<times> nat) list"
  bm_payload_bytes :: nat
  bm_fired :: "fired list"

definition new_accum :: batch_accum where
  "new_accum = \<lparr>bm_pending_ops = [], bm_data_replies = [], bm_payload_bytes = 0, bm_fired = []\<rparr>"

definition push_or_fire :: "pending_op \<Rightarrow> nat \<Rightarrow> nat \<Rightarrow> batch_accum \<Rightarrow> batch_accum" where
  "push_or_fire op op_bytes reply a0 =
     (let a = (if should_fire (length (bm_pending_ops a0)) (bm_payload_bytes a0) op_bytes
               then a0\<lparr>bm_fired := bm_fired a0 @ [(bm_pending_ops a0, bm_data_replies a0)],
                       bm_pending_ops := [], bm_data_replies := [], bm_payload_bytes := 0\<rparr>
               else a0);
          idx = length (bm_pending_ops a) in
      a\<lparr>bm_pending_ops := bm_pending_ops a @ [op], bm_data_replies := bm_data_replies a @ [(idx, reply)],
        bm_payload_bytes := bm_payload_bytes a + op_bytes\<rparr>)"

text \<open>What one round of \<open>mux_loop\<close> fires for the messages it has collected.\<close>

definition push_msg :: "mux_msg \<Rightarrow> batch_accum \<Rightarrow> batch_accum" where
  "push_msg msg a = (case msg_op msg of None \<Rightarrow> a | Some (op, n, reply) \<Rightarrow> push_or_fire op n reply a)"

definition mux_round :: "mux_msg list \<Rightarrow> fired list" where
  "mux_round msgs =
     (let a = fold push_msg msgs new_accum;
          ops = bm_pending_ops a @ map close_op (concat (map close_sid msgs)) in
      if ops = [] then bm_fired a else bm_fired a @ [(ops, bm_data_replies a)])"

section \<open>Waiting for more messages\<close>

definition is_tls_record_handshake :: "bytes \<Rightarrow> bool" where
  "is_tls_record_handshake data \<longleftrightarrow> take 2 data = [0x16, 0x03]"

fun is_handshake_priority :: "mux_msg \<Rightarrow> bool" where
  "is_handshake_priority (MConnect _ _ _) = True"
| "is_handshake_priority (MConnectData _ _ _ _) = True"
| "is_handshake_priority (MData _ data _ _ _) = is_tls_record_handshake data"
| "is_handshake_priority _ = False"

definition upgrade_handshake_deadline :: "bool \<Rightarrow> bool \<Rightarrow> nat \<Rightarrow> nat \<Rightarrow> nat \<Rightarrow> bool \<times> nat" where
  "upgrade_handshake_deadline priority new_is_priority hard_deadline batch_start coalesce_max_handshake =
     (if \<not> priority \<and> new_is_priority
      then (True, min hard_deadline (batch_start + coalesce_max_handshake))
      else (priority, hard_deadline))"

text \<open>The messages still to come with the times they are sent at, in order. A message already there is
  taken without a look at the clock; otherwise the loop waits until the earlier of the two deadlines.
  The result is what the round has collected, what is left, and when the waiting ends.\<close>

fun coalesce :: "nat \<Rightarrow> nat \<Rightarrow> nat \<Rightarrow> nat \<Rightarrow> nat \<Rightarrow> nat \<Rightarrow> bool \<Rightarrow> (nat \<times> mux_msg) list
    \<Rightarrow> mux_msg list \<times> (nat \<times> mux_msg) list \<times> nat" where
  "coalesce step hs start now soft hard priority [] = ([], [], max now (min soft hard))"
| "coalesce step hs start now soft hard priority ((t, msg) # rest) =
     (let take_at = (\<lambda>now'.
            case upgrade_handshake_deadline priority (is_handshake_priority msg) hard start hs of
              (priority', hard') \<Rightarrow>
                (case coalesce step hs start now' (now' + step) hard' priority' rest of
                   (taken, left, fin) \<Rightarrow> (msg # taken, left, fin))) in
      if t \<le> now then take_at now
      else if min soft hard \<le> now then ([], (t, msg) # rest, now)
      else if t \<le> min soft hard then take_at t
      else ([], (t, msg) # rest, min soft hard))"

definition mux_collect :: "nat \<Rightarrow> nat \<Rightarrow> nat \<Rightarrow> mux_msg \<Rightarrow> (nat \<times> mux_msg) list
    \<Rightarrow> mux_msg list \<times> (nat \<times> mux_msg) list \<times> nat" where
  "mux_collect step_ms max_ms start first arrivals =
     (let hs = min HANDSHAKE_COALESCE_MAX_MS max_ms;
          priority = is_handshake_priority first in
      case coalesce step_ms hs start start (start + step_ms) (start + (if priority then hs else max_ms)) priority arrivals of
        (taken, left, fin) \<Rightarrow> (first # taken, left, fin))"

definition coalesce_settings :: "nat \<Rightarrow> nat \<Rightarrow> nat \<times> nat" where
  "coalesce_settings step_ms max_ms =
     (if 0 < step_ms then step_ms else DEFAULT_COALESCE_STEP_MS, if 0 < max_ms then max_ms else DEFAULT_COALESCE_MAX_MS)"

section \<open>Posting a batch\<close>

definition is_idle_poll_batch :: "pending_op list \<Rightarrow> bool" where
  "is_idle_poll_batch ops \<longleftrightarrow>
     ops \<noteq> [] \<and> list_all (\<lambda>op. (po_op op = ''data'' \<or> po_op op = ''udp_data'') \<and> po_data op = None) ops"

definition batch_is_replay_safe :: "batch_op list \<Rightarrow> bool" where
  "batch_is_replay_safe ops \<longleftrightarrow>
     ops \<noteq> [] \<and>
     list_all (\<lambda>op. bo_op op = ''data'' \<and> (case bo_sid op of None \<Rightarrow> False | Some sid \<Rightarrow> sid \<noteq> [])
       \<and> bo_seq op \<noteq> None \<and> ((case bo_d op of None \<Rightarrow> True | Some d \<Rightarrow> d = []) \<or> bo_wseq op \<noteq> None)) ops"

datatype batch_post =
    BpOk "tunnel_response list"
  | BpErr fronter_error
  | BpElapsed

fun ambiguous_batch_failure :: "batch_post \<Rightarrow> bool" where
  "ambiguous_batch_failure BpElapsed = True"
| "ambiguous_batch_failure (BpErr FeTimeout) = True"
| "ambiguous_batch_failure (BpErr (FeIo _)) = True"
| "ambiguous_batch_failure (BpErr (FeBadResponse _)) = True"
| "ambiguous_batch_failure (BpErr (FeJson _)) = True"
| "ambiguous_batch_failure _ = False"

text \<open>The deployment's answers to the first and, if there is one, the second posting of the batch; the
  list has one entry for each posting that takes place.\<close>

definition post_batch :: "bool \<Rightarrow> batch_op list \<Rightarrow> batch_post \<Rightarrow> batch_post \<Rightarrow> batch_post \<times> batch_op list list" where
  "post_batch supports_replay ops first second =
     (if batch_is_replay_safe ops \<and> supports_replay \<and> ambiguous_batch_failure first
      then (second, [ops, ops]) else (first, [ops]))"

type_synonym batched_reply = "(tunnel_response \<times> string, string) result"

definition distribute :: "string \<Rightarrow> (nat \<times> nat) list \<Rightarrow> batch_post \<Rightarrow> (nat \<times> batched_reply) list" where
  "distribute script data_replies result =
     map (\<lambda>(idx, reply). (reply,
       case result of
         BpOk rs \<Rightarrow> if idx < length rs then Inr (rs ! idx, script)
                    else Inl (''missing response in batch from script '' @ take 8 script)
       | BpErr e \<Rightarrow> Inl (fronter_error_text e)
       | BpElapsed \<Rightarrow> Inl ''batch timed out'')) data_replies"

text \<open>What the batch tells the fronter about the deployment: a success with the payload that came back, a strike, or nothing.\<close>

datatype batch_note = NoteSuccess string u64 | NoteStrike string | NoteNothing

definition response_bytes :: "tunnel_response list \<Rightarrow> u64" where
  "response_bytes rs =
     sum_list (map (\<lambda>r. of_nat ((case tr_d r of Some d \<Rightarrow> length d | None \<Rightarrow> 0) + (case tr_pkts r of Some ps \<Rightarrow> sum_list (map length ps) | None \<Rightarrow> 0))) rs)"

fun note_of :: "string \<Rightarrow> batch_post \<Rightarrow> batch_note" where
  "note_of script (BpOk rs) = NoteSuccess script (response_bytes rs)"
| "note_of script (BpErr e) = (if e = FeTimeout then NoteStrike script else NoteNothing)"
| "note_of script BpElapsed = NoteStrike script"

text \<open>The task of a batch once it has its permits.\<close>

definition fire_batch :: "(bytes \<Rightarrow> string) \<Rightarrow> string \<Rightarrow> bool \<Rightarrow> (batch_op list \<Rightarrow> batch_post) \<Rightarrow> (batch_op list \<Rightarrow> batch_post)
    \<Rightarrow> fired \<Rightarrow> (nat \<times> batched_reply) list \<times> batch_op list list \<times> batch_note" where
  "fire_batch enc script supports_replay post1 post2 = (\<lambda>(pending_ops, data_replies).
     let ops = map (encode_pending enc) pending_ops in
     case post_batch supports_replay ops (post1 ops) (post2 ops) of
       (result, posts) \<Rightarrow> (distribute script data_replies result, posts, note_of script result))"

section \<open>Permits\<close>

text \<open>The semaphores of a deployment, with the batches that hold permits: an idle batch takes an idle
  permit first, then tries for a total permit without queueing.\<close>

record deployment_sems =
  dp_total :: nat
  dp_idle :: nat

definition new_sems :: deployment_sems where
  "new_sems = \<lparr>dp_total = CONCURRENCY_PER_DEPLOYMENT, dp_idle = IDLE_CONCURRENCY_PER_DEPLOYMENT\<rparr>"

definition acquire_idle :: "deployment_sems \<Rightarrow> deployment_sems option" where
  "acquire_idle s = (if 0 < dp_idle s then Some (s\<lparr>dp_idle := dp_idle s - 1\<rparr>) else None)"

definition acquire_total :: "deployment_sems \<Rightarrow> deployment_sems option" where
  "acquire_total s = (if 0 < dp_total s then Some (s\<lparr>dp_total := dp_total s - 1\<rparr>) else None)"

definition release_permits :: "bool \<Rightarrow> deployment_sems \<Rightarrow> deployment_sems" where
  "release_permits idle s = s\<lparr>dp_total := dp_total s + 1, dp_idle := dp_idle s + (if idle then 1 else 0)\<rparr>"

section \<open>Unreachable destinations\<close>

definition is_unreachable_error_str :: "string \<Rightarrow> bool" where
  "is_unreachable_error_str s =
     (let lc = to_ascii_lowercase s in
      contains lc ''network is unreachable'' \<or> contains lc ''no route to host''
      \<or> contains lc ''os error 101'' \<or> contains lc ''os error 113'')"

definition normalize_cache_host :: "string \<Rightarrow> string" where
  "normalize_cache_host host =
     to_ascii_lowercase (if host \<noteq> [] \<and> last host = CHR ''.'' then butlast host else host)"

type_synonym unreachable_cache = "((string \<times> u16) \<times> nat) list"

definition is_unreachable :: "nat \<Rightarrow> string \<Rightarrow> u16 \<Rightarrow> unreachable_cache \<Rightarrow> unreachable_cache \<times> bool" where
  "is_unreachable now host port cache =
     (let key = (normalize_cache_host host, port) in
      case map_of cache key of
        Some expiry \<Rightarrow> if now < expiry then (cache, True) else (AList.delete key cache, False)
      | None \<Rightarrow> (cache, False))"

text \<open>The loop that evicts the entry to expire first; the list is in the order of iteration.\<close>

fun soonest :: "unreachable_cache \<Rightarrow> (string \<times> u16) \<times> nat" where
  "soonest [e] = e"
| "soonest (e # es) = (let f = soonest es in if snd f < snd e then f else e)"
| "soonest [] = (([], 0), 0)"

lemma soonest_in: "cache \<noteq> [] \<Longrightarrow> soonest cache \<in> set cache"
  by (induction cache rule: soonest.induct) (auto simp: Let_def)

function evict_soonest :: "unreachable_cache \<Rightarrow> unreachable_cache" where
  "evict_soonest cache =
     (if length cache < UNREACHABLE_CACHE_MAX \<or> cache = [] then cache
      else evict_soonest (AList.delete (fst (soonest cache)) cache))"
  by pat_completeness auto
termination
  by (relation "measure length") (auto simp: delete_shorter soonest_in)

declare evict_soonest.simps [simp del]

definition make_room :: "nat \<Rightarrow> unreachable_cache \<Rightarrow> unreachable_cache" where
  "make_room now cache =
     (if UNREACHABLE_CACHE_MAX \<le> length cache then evict_soonest (filter (\<lambda>(_, expiry). now < expiry) cache) else cache)"

definition record_unreachable_if_match :: "nat \<Rightarrow> string \<Rightarrow> u16 \<Rightarrow> string \<Rightarrow> unreachable_cache \<Rightarrow> unreachable_cache" where
  "record_unreachable_if_match now host port err cache =
     (if \<not> is_unreachable_error_str err then cache
      else AList.update (normalize_cache_host host, port) (now + UNREACHABLE_CACHE_TTL) (make_room now cache))"

section \<open>What a round fires\<close>

text \<open>The requests among the messages, the size of an operation, and the operation of each caller.\<close>

definition requests :: "mux_msg list \<Rightarrow> (pending_op \<times> nat) list" where
  "requests msgs = map (\<lambda>(op, n, reply). (op, reply)) (List.map_filter msg_op msgs)"

definition op_size :: "pending_op \<Rightarrow> nat" where
  "op_size p = (case po_data p of None \<Rightarrow> 0 | Some d \<Rightarrow> encoded_len (length d))"

definition owners :: "fired \<Rightarrow> (pending_op \<times> nat) list" where
  "owners = (\<lambda>(ops, replies). map (\<lambda>(i, reply). (ops ! i, reply)) replies)"

text \<open>The callers are those of the first operations, in order; their number and size are limited.\<close>

definition fired_ok :: "fired \<Rightarrow> bool" where
  "fired_ok = (\<lambda>(ops, replies).
     ops \<noteq> [] \<and> map fst replies = [0..<length replies] \<and> length replies \<le> length ops \<and>
     length replies \<le> MAX_BATCH_OPS \<and>
     (length replies \<le> 1 \<or> sum_list (map op_size (take (length replies) ops)) \<le> MAX_BATCH_PAYLOAD_BYTES))"

lemma msg_op_size: "msg_op msg = Some (op, n, reply) \<Longrightarrow> n = op_size op"
  by (cases msg) (auto simp: op_size_def non_empty_def encoded_len_def)

definition accum_ok :: "batch_accum \<Rightarrow> bool" where
  "accum_ok a \<longleftrightarrow> (\<forall>b\<in>set (bm_fired a). fired_ok b \<and> length (fst b) = length (snd b)) \<and>
     length (bm_data_replies a) = length (bm_pending_ops a) \<and>
     (bm_pending_ops a \<noteq> [] \<longrightarrow> fired_ok (bm_pending_ops a, bm_data_replies a)) \<and>
     bm_payload_bytes a = sum_list (map op_size (bm_pending_ops a))"

definition accum_owners :: "batch_accum \<Rightarrow> (pending_op \<times> nat) list" where
  "accum_owners a = concat (map owners (bm_fired a)) @ owners (bm_pending_ops a, bm_data_replies a)"

lemma owners_snoc:
  assumes "map fst replies = [0..<length replies]" "length replies = length ops"
  shows "owners (ops @ [op], replies @ [(length ops, reply)]) = owners (ops, replies) @ [(op, reply)]"
proof -
  have "\<forall>(i, r)\<in>set replies. i < length ops"
    using assms by (metis (mono_tags, lifting) atLeastLessThan_iff case_prodI2 fst_conv image_eqI list.set_map set_upt)
  then show ?thesis by (auto simp: owners_def nth_append)
qed

lemma push_or_fire_ok:
  assumes "accum_ok a"
  shows "accum_ok (push_or_fire op (op_size op) reply a)"
    "accum_owners (push_or_fire op (op_size op) reply a) = accum_owners a @ [(op, reply)]"
proof -
  let ?fire = "should_fire (length (bm_pending_ops a)) (bm_payload_bytes a) (op_size op)"
  have num: "map fst (bm_data_replies a) = [0..<length (bm_data_replies a)]"
    "length (bm_data_replies a) = length (bm_pending_ops a)"
    using assms by (cases "bm_pending_ops a = []"; auto simp: accum_ok_def fired_ok_def)+
  show "accum_ok (push_or_fire op (op_size op) reply a)"
    using assms num
    by (cases ?fire) (auto simp: accum_ok_def push_or_fire_def fired_ok_def should_fire_def Let_def
        MAX_BATCH_OPS_def MAX_BATCH_PAYLOAD_BYTES_def)
  show "accum_owners (push_or_fire op (op_size op) reply a) = accum_owners a @ [(op, reply)]"
    using owners_snoc [OF num]
    by (cases ?fire) (simp_all add: accum_owners_def push_or_fire_def Let_def, simp_all add: owners_def)
qed

lemma push_msgs_ok:
  "accum_ok a \<Longrightarrow> accum_ok (fold push_msg msgs a) \<and>
     accum_owners (fold push_msg msgs a) = accum_owners a @ requests msgs"
proof (induction msgs arbitrary: a)
  case (Cons msg msgs)
  show ?case
  proof (cases "msg_op msg")
    case None
    then show ?thesis using Cons by (simp add: push_msg_def requests_def map_filter_def)
  next
    case (Some r)
    obtain op n reply where r: "r = (op, n, reply)" using prod_cases3 by blast
    have n: "n = op_size op" using msg_op_size Some r by blast
    show ?thesis
      using Cons.IH [OF push_or_fire_ok(1) [OF Cons.prems]] push_or_fire_ok(2) [OF Cons.prems] Some r n
      by (simp add: push_msg_def requests_def map_filter_def)
  qed
qed (simp add: requests_def map_filter_def)

lemma new_accum_ok: "accum_ok new_accum" "accum_owners new_accum = []"
  by (simp_all add: accum_ok_def new_accum_def accum_owners_def owners_def)

text \<open>What a round fires: every batch well-formed, every request in exactly one, in order; and the
  closes at the end of the last.\<close>

lemma round_batches:
  "(\<forall>b\<in>set (mux_round msgs). fired_ok b) \<and> concat (map owners (mux_round msgs)) = requests msgs"
proof -
  let ?a = "fold push_msg msgs new_accum" and ?closes = "map close_op (concat (map close_sid msgs))"
  have ok: "accum_ok ?a" and own: "accum_owners ?a = requests msgs"
    using push_msgs_ok [OF new_accum_ok(1)] new_accum_ok(2) by simp_all
  have fired: "\<forall>b\<in>set (bm_fired ?a). fired_ok b" using ok by (simp add: accum_ok_def)
  have last_ok: "fired_ok (bm_pending_ops ?a @ ?closes, bm_data_replies ?a)" if "bm_pending_ops ?a @ ?closes \<noteq> []"
    using ok that by (cases "bm_pending_ops ?a = []") (auto simp: accum_ok_def fired_ok_def)
  have num: "length (bm_data_replies ?a) = length (bm_pending_ops ?a)" "\<forall>(i, r)\<in>set (bm_data_replies ?a). i < length (bm_pending_ops ?a)"
  proof -
    show l: "length (bm_data_replies ?a) = length (bm_pending_ops ?a)" using ok by (simp add: accum_ok_def)
    have "map fst (bm_data_replies ?a) = [0..<length (bm_pending_ops ?a)]"
      using ok l by (cases "bm_pending_ops ?a = []") (auto simp: accum_ok_def fired_ok_def)
    then show "\<forall>(i, r)\<in>set (bm_data_replies ?a). i < length (bm_pending_ops ?a)"
      by (metis (mono_tags, lifting) atLeastLessThan_iff case_prodI2 fst_conv image_eqI list.set_map set_upt)
  qed
  have own_last: "owners (bm_pending_ops ?a @ ?closes, bm_data_replies ?a) = owners (bm_pending_ops ?a, bm_data_replies ?a)"
    using num(2) by (auto simp: owners_def nth_append)
  show ?thesis
  proof (cases "bm_pending_ops ?a @ ?closes = []")
    case True
    then have "bm_data_replies ?a = []" using num(1) by simp
    then have "owners (bm_pending_ops ?a, bm_data_replies ?a) = []" by (simp add: owners_def)
    then show ?thesis using fired own True by (simp add: mux_round_def accum_owners_def)
  next
    case False
    have "mux_round msgs = bm_fired ?a @ [(bm_pending_ops ?a @ ?closes, bm_data_replies ?a)]"
      unfolding mux_round_def Let_def using False by (rule if_not_P)
    then show ?thesis using fired own last_ok [OF False] own_last by (simp add: accum_owners_def)
  qed
qed

text \<open>A message with a caller is a request.\<close>

definition msg_caller :: "mux_msg \<Rightarrow> nat option" where
  "msg_caller msg = map_option (\<lambda>(op, n, reply). reply) (msg_op msg)"

lemma owners_callers: "map snd (owners b) = map snd (snd b)"
  by (cases b) (auto simp: owners_def)

lemma request_callers: "map snd (requests msgs) = List.map_filter msg_caller msgs"
  by (induction msgs) (auto simp: requests_def map_filter_def msg_caller_def split: option.splits)

section \<open>Answers\<close>

lemma distribute_callers: "map fst (distribute script replies result) = map snd replies"
  by (auto simp: distribute_def)

lemma map_fst_fire: "map fst (fst (fire_batch enc script can post1 post2 b)) = map snd (snd b)"
  by (cases b) (simp add: fire_batch_def Let_def distribute_callers split: prod.splits)

lemma fire_batch_ok:
  assumes "post1 (map (encode_pending enc) ops) = BpOk rs"
  shows "fire_batch enc script can post1 post2 (ops, replies) =
     (distribute script replies (BpOk rs), [map (encode_pending enc) ops], NoteSuccess script (response_bytes rs))"
  using assms by (simp add: fire_batch_def post_batch_def Let_def)

lemma distribute_nth:
  assumes "map fst replies = [0..<length replies]" "k < length replies" "k < length rs"
  shows "distribute script replies (BpOk rs) ! k = (snd (replies ! k), Inr (rs ! k, script))"
proof -
  have "fst (replies ! k) = k" using assms(1,2) by (metis add.left_neutral nth_map nth_upt)
  then show ?thesis using assms(2,3) by (cases "replies ! k") (simp add: distribute_def)
qed

lemma batch_through_node:
  assumes "\<forall>i. \<not> ne_panics env i" "fired_ok (ops, replies)"
    and "rs = snd (batch_execute L env (map (encode_pending enc) ops) st)" "k < length replies"
  shows "\<exists>resp. distribute script replies (BpOk rs) ! k = (snd (replies ! k), Inr (resp, script)) \<and>
    answers env k (encode_pending enc (ops ! k)) resp"
proof -
  obtain st' where e: "batch_execute L env (map (encode_pending enc) ops) st = (st', rs)"
    using assms(3) by (metis prod.collapse)
  have "length rs = length ops" "\<forall>i<length ops. answers env i (encode_pending enc (ops ! i)) (rs ! i)"
    using batch_answers_in_place [OF assms(1) e] by simp_all
  moreover have "map fst replies = [0..<length replies]" "k < length ops" using assms(2,4) by (auto simp: fired_ok_def)
  ultimately show ?thesis using distribute_nth [OF _ assms(4), of rs script] by auto
qed

text \<open>A round of the multiplexer puts every request of its messages into exactly one batch, in order,
  next to the index under which its caller waits; no batch is empty, carries more than 50 requests, or
  more than 4 MiB of encoded payload unless it is a single request.\<close>

theorem mux_batches_exact:
  "list_all (\<lambda>(ops, replies). ops \<noteq> [] \<and> map fst replies = [0..<length replies] \<and> length replies \<le> 50 \<and>
      (length replies \<le> 1 \<or> sum_list (map op_size (take (length replies) ops)) \<le> 4194304)) (mux_round msgs) \<and>
   concat (map (\<lambda>(ops, replies). map (\<lambda>(i, reply). (ops ! i, reply)) replies) (mux_round msgs)) = requests msgs"
proof -
  have "list_all (\<lambda>(ops, replies). ops \<noteq> [] \<and> map fst replies = [0..<length replies] \<and> length replies \<le> 50 \<and>
      (length replies \<le> 1 \<or> sum_list (map op_size (take (length replies) ops)) \<le> 4194304)) (mux_round msgs)"
    using round_batches [of msgs]
    by (auto simp: list_all_iff fired_ok_def MAX_BATCH_OPS_def MAX_BATCH_PAYLOAD_BYTES_def)
  then show ?thesis using round_batches [of msgs] by (simp add: owners_def)
qed

text \<open>C10: Client and node together: when the node executes a batch of the multiplexer and no connection job of
  the batch panics, every caller gets exactly one answer, and it belongs to the caller's own operation: an error, the session opened for it,
  or the session it named with its sequence number.\<close>

theorem mux_answers_own_op:
  assumes "\<forall>i. \<not> ne_panics env i" "(ops, replies) \<in> set (mux_round msgs)"
    and "fire_batch enc script can (\<lambda>bops. BpOk (snd (batch_execute L env bops st))) post2 (ops, replies) = (results, posts, note)"
  shows "posts = [map (encode_pending enc) ops] \<and> map fst results = map snd replies \<and>
    (\<forall>k<length replies. \<exists>resp. results ! k = (snd (replies ! k), Inr (resp, script)) \<and>
      answers env k (encode_pending enc (ops ! k)) resp)"
proof -
  let ?rs = "snd (batch_execute L env (map (encode_pending enc) ops) st)"
  have ok: "fired_ok (ops, replies)" using round_batches assms(2) by blast
  have r: "results = distribute script replies (BpOk ?rs)" "posts = [map (encode_pending enc) ops]"
    using assms(3) fire_batch_ok [of _ enc ops ?rs script can post2 replies] by simp_all
  show ?thesis using batch_through_node [OF assms(1) ok refl] r distribute_callers by auto
qed

section \<open>Repeated batches\<close>

lemma replay_safe_iff:
  assumes "nl_ops_json L ops \<noteq> None"
  shows "batch_is_replay_safe ops \<longleftrightarrow> replay_fingerprint L ops z \<noteq> None"
proof -
  have op: "(bo_op op = ''data'' \<and> (case bo_sid op of None \<Rightarrow> False | Some sid \<Rightarrow> sid \<noteq> []) \<and> bo_seq op \<noteq> None \<and>
        ((case bo_d op of None \<Rightarrow> True | Some d \<Rightarrow> d = []) \<or> bo_wseq op \<noteq> None)) \<longleftrightarrow>
      \<not> (bo_op op \<noteq> ''data'' \<or> (case bo_sid op of None \<Rightarrow> True | Some s \<Rightarrow> s = []) \<or> bo_seq op = None \<or>
        ((case bo_d op of None \<Rightarrow> False | Some d \<Rightarrow> d \<noteq> []) \<and> bo_wseq op = None))" for op :: batch_op
    by (cases "bo_sid op"; cases "bo_d op") auto
  obtain c where c: "nl_ops_json L ops = Some c" using assms by blast
  show ?thesis unfolding batch_is_replay_safe_def replay_fingerprint_def op by (simp add: c list_all_iff list_ex_iff)
qed

text \<open>C11: The client repeats a batch whose fate is unknown at most once, unchanged, and only when the node
  recognises it as a repetition: the client's test for a batch that may be repeated is the one by which
  the node decides to keep the answer under a fingerprint of the batch.\<close>

theorem replay_agreement:
  assumes "\<forall>ops. nl_ops_json L ops \<noteq> None"
    and "fire_batch enc script can post1 post2 (pending, replies) = (results, posts, note)"
  shows "(\<forall>ops. batch_is_replay_safe ops = (replay_fingerprint L ops z \<noteq> None)) \<and>
    (posts = [map (encode_pending enc) pending] \<or>
     posts = [map (encode_pending enc) pending, map (encode_pending enc) pending] \<and>
     replay_fingerprint L (map (encode_pending enc) pending) z \<noteq> None \<and>
     ambiguous_batch_failure (post1 (map (encode_pending enc) pending)))"
  using assms replay_safe_iff [of L _ z]
  by (auto simp: fire_batch_def post_batch_def Let_def split: if_splits)

section \<open>The wait for more messages\<close>

lemma upgrade_deadline:
  assumes "upgrade_handshake_deadline priority new hard start hs = (priority', hard')"
  shows "hard' \<le> hard" "(priority \<longrightarrow> hard \<le> start + hs) \<Longrightarrow> (priority' \<longrightarrow> hard' \<le> start + hs)"
    "new \<Longrightarrow> priority'"
  using assms by (auto simp: upgrade_handshake_deadline_def split: if_splits)

lemma coalesce_result:
  assumes "coalesce step hs start now soft hard priority arrivals = (taken, left, fin)"
    and "sorted (map fst arrivals)" "priority \<longrightarrow> hard \<le> start + hs"
  shows "map snd arrivals = taken @ map snd left \<and> fin \<le> max now hard \<and>
    (\<forall>(t, msg)\<in>set (take (length taken) arrivals). is_handshake_priority msg \<longrightarrow> fin \<le> max (max now t) (start + hs))"
  using assms
proof (induction arrivals arbitrary: now soft hard priority taken left fin)
  case (Cons arrival rest)
  obtain t msg where arrival: "arrival = (t, msg)" by force
  note 2 = Cons.prems [unfolded arrival]
  obtain priority' hard' where u:
    "upgrade_handshake_deadline priority (is_handshake_priority msg) hard start hs = (priority', hard')" by force
  note up = upgrade_deadline [OF u]
  have later: "\<forall>(t', m)\<in>set (take n rest). t \<le> t'" for n
    using 2(2) set_take_subset [of n rest] by force
  have next_ok: "map snd ((t, msg) # rest) = taken @ map snd left \<and> fin \<le> max now hard \<and>
      (\<forall>(t', m)\<in>set (take (length taken) ((t, msg) # rest)). is_handshake_priority m \<longrightarrow> fin \<le> max (max now t') (start + hs))"
    if c: "coalesce step hs start now' (now' + step) hard' priority' rest = (taken', left, fin)" "taken = msg # taken'"
      and ih: "map snd rest = taken' @ map snd left \<and> fin \<le> max now' hard' \<and>
        (\<forall>(t', m)\<in>set (take (length taken') rest). is_handshake_priority m \<longrightarrow> fin \<le> max (max now' t') (start + hs))"
      and n: "now' = now \<or> now' = t \<and> t \<le> hard"
    for now' taken'
    using ih n up 2(3) later [of "length taken'"] unfolding c(2) by fastforce
  have prem: "sorted (map fst rest)" "priority' \<longrightarrow> hard' \<le> start + hs" using 2(2,3) up(2) by auto
  consider "t \<le> now" | "\<not> t \<le> now" "min soft hard \<le> now" | "\<not> t \<le> now" "\<not> min soft hard \<le> now" "t \<le> min soft hard"
    | "\<not> t \<le> now" "\<not> min soft hard \<le> now" "\<not> t \<le> min soft hard" by blast
  then show ?case
  proof cases
    case 1
    obtain taken' where c: "coalesce step hs start now (now + step) hard' priority' rest = (taken', left, fin)" "taken = msg # taken'"
      using 2(1) 1 u by (auto simp: Let_def split: prod.splits)
    show ?thesis unfolding arrival using next_ok [OF c] Cons.IH [OF c(1) prem] by simp
  next
    case 3
    obtain taken' where c: "coalesce step hs start t (t + step) hard' priority' rest = (taken', left, fin)" "taken = msg # taken'"
      using 2(1) 3 u by (auto simp: Let_def split: prod.splits)
    show ?thesis unfolding arrival using next_ok [OF c] Cons.IH [OF c(1) prem] 3 by simp
  next
    case 4
    have "([], (t, msg) # rest, min soft hard) = (taken, left, fin)"
      using 2(1) unfolding coalesce.simps Let_def if_not_P [OF 4(1)] if_not_P [OF 4(2)] if_not_P [OF 4(3)] .
    then show ?thesis using arrival by auto
  qed (use 2(1) arrival in auto)
qed auto

text \<open>A round waits at most the configured time after its first message, and at most the handshake
  time (50 ms, or the configured time if less) after the first message or the arrival of a handshake
  message it takes, whichever is later; it takes the messages in the order of their arrival.\<close>

theorem mux_wait_bounded:
  assumes "mux_collect step_ms max_ms start first arrivals = (taken, left, fin)" "sorted (map fst arrivals)"
  shows "first # map snd arrivals = taken @ map snd left \<and>
    fin \<le> start + (if is_handshake_priority first then min 50 max_ms else max_ms) \<and>
    (\<forall>(t, msg)\<in>set (take (length taken - 1) arrivals).
       is_handshake_priority msg \<longrightarrow> fin \<le> max t (start + min 50 max_ms))"
proof -
  let ?p = "is_handshake_priority first" and ?hs = "min HANDSHAKE_COALESCE_MAX_MS max_ms"
  obtain taken' where c: "coalesce step_ms ?hs start start (start + step_ms) (start + (if ?p then ?hs else max_ms)) ?p arrivals
      = (taken', left, fin)" "taken = first # taken'"
    using assms(1) by (auto simp: mux_collect_def Let_def split: prod.splits)
  from coalesce_result [OF c(1) assms(2)] show ?thesis
    by (auto simp: c(2) HANDSHAKE_COALESCE_MAX_MS_def max_def split: if_splits)
qed

section \<open>Reserved permits\<close>

text \<open>The batches of a deployment: those that hold an idle permit and still try for a total one, and those
  that run, by whether they are idle.\<close>

record batch_tasks =
  bk_sems :: deployment_sems
  bk_trying :: nat
  bk_running :: "bool list"

inductive permit_step :: "batch_tasks \<Rightarrow> batch_tasks \<Rightarrow> bool" where
  active: "acquire_total (bk_sems s) = Some p \<Longrightarrow>
     permit_step s (s\<lparr>bk_sems := p, bk_running := False # bk_running s\<rparr>)"
| idle_slot: "acquire_idle (bk_sems s) = Some p \<Longrightarrow>
     permit_step s (s\<lparr>bk_sems := p, bk_trying := bk_trying s + 1\<rparr>)"
| idle_run: "0 < bk_trying s \<Longrightarrow> acquire_total (bk_sems s) = Some p \<Longrightarrow>
     permit_step s (s\<lparr>bk_sems := p, bk_trying := bk_trying s - 1, bk_running := True # bk_running s\<rparr>)"
| ended: "idle \<in> set (bk_running s) \<Longrightarrow>
     permit_step s (s\<lparr>bk_sems := release_permits idle (bk_sems s), bk_running := remove1 idle (bk_running s)\<rparr>)"

definition no_batches :: batch_tasks where
  "no_batches = \<lparr>bk_sems = new_sems, bk_trying = 0, bk_running = []\<rparr>"

definition permits_ok :: "batch_tasks \<Rightarrow> bool" where
  "permits_ok s \<longleftrightarrow>
     dp_total (bk_sems s) + length (bk_running s) = CONCURRENCY_PER_DEPLOYMENT \<and>
     dp_idle (bk_sems s) + length (filter id (bk_running s)) + bk_trying s = IDLE_CONCURRENCY_PER_DEPLOYMENT"

lemma remove1_flag:
  "idle \<in> set xs \<Longrightarrow> Suc (length (remove1 idle xs)) = length xs"
  "idle \<in> set xs \<Longrightarrow> length (filter id (remove1 idle xs)) + (if idle then 1 else 0) = length (filter id xs)"
  by (induction xs) auto

lemma permits_ok_step: "permit_step s t \<Longrightarrow> permits_ok s \<Longrightarrow> permits_ok t"
proof (induction rule: permit_step.induct)
  case (ended idle s)
  then show ?case
    using remove1_flag [OF ended(1)] by (simp add: permits_ok_def release_permits_def split: if_splits)
qed (auto simp: permits_ok_def acquire_total_def acquire_idle_def split: if_splits)

lemma permits_ok_start: "permits_ok no_batches"
  by (simp add: permits_ok_def no_batches_def new_sems_def)

text \<open>Whatever batches start and end, at most 30 run on a deployment at a time and at most 24 of them
  are idle polls: when no permit is left for an active batch, at least 6 active batches are running.\<close>

theorem active_permits_reserved:
  assumes "permit_step\<^sup>*\<^sup>* no_batches s"
  shows "length (bk_running s) \<le> 30 \<and> length (filter id (bk_running s)) \<le> 24 \<and>
    (acquire_total (bk_sems s) = None \<longrightarrow> 6 \<le> length (filter (\<lambda>idle. \<not> idle) (bk_running s)))"
proof -
  have "permits_ok s"
    using assms by (induction rule: rtranclp_induct) (rule permits_ok_start, rule permits_ok_step)
  moreover have "length (filter id (bk_running s)) + length (filter (\<lambda>idle. \<not> idle) (bk_running s)) = length (bk_running s)"
    using sum_length_filter_compl [of id "bk_running s"] by simp
  ultimately show ?thesis
    by (auto simp: permits_ok_def acquire_total_def CONCURRENCY_PER_DEPLOYMENT_def
        IDLE_CONCURRENCY_PER_DEPLOYMENT_def RESERVED_ACTIVE_PER_DEPLOYMENT_def split: if_splits)
qed


section \<open>The negative cache\<close>

lemma evict_soonest_props:
  "length (evict_soonest cache) < UNREACHABLE_CACHE_MAX \<and> set (evict_soonest cache) \<subseteq> set cache"
proof (induction cache rule: evict_soonest.induct)
  case (1 cache)
  show ?case
  proof (cases "length cache < UNREACHABLE_CACHE_MAX \<or> cache = []")
    case True
    then show ?thesis by (auto simp: evict_soonest.simps [of cache] UNREACHABLE_CACHE_MAX_def)
  next
    case False
    then have "evict_soonest cache = evict_soonest (AList.delete (fst (soonest cache)) cache)"
      by (simp add: evict_soonest.simps [of cache])
    then show ?thesis using 1 [OF False] by (auto simp: AList.delete_eq)
  qed
qed

lemma length_update_le: "length (AList.update k v m) \<le> Suc (length m)"
  by (induction m) auto

lemma set_update_subset: "set (AList.update k v m) \<subseteq> insert (k, v) (set m)"
  by (induction m) auto

lemma make_room_props: "length (make_room now cache) < UNREACHABLE_CACHE_MAX" "set (make_room now cache) \<subseteq> set cache"
proof -
  have "set (filter (\<lambda>(_, expiry). now < expiry) cache) \<subseteq> set cache" by auto
  then show "length (make_room now cache) < UNREACHABLE_CACHE_MAX" "set (make_room now cache) \<subseteq> set cache"
    using evict_soonest_props [of "filter (\<lambda>(_, expiry). now < expiry) cache"] by (auto simp: make_room_def)
qed

lemma record_length:
  "length cache \<le> UNREACHABLE_CACHE_MAX \<Longrightarrow> length (record_unreachable_if_match now host port err cache) \<le> UNREACHABLE_CACHE_MAX"
  using length_update_le [of "(normalize_cache_host host, port)" "now + UNREACHABLE_CACHE_TTL" "make_room now cache"]
    make_room_props(1) [of now cache]
  by (simp add: record_unreachable_if_match_def)

lemma record_entries:
  assumes "(k, x) \<in> set (record_unreachable_if_match now host port err cache)"
  shows "(k, x) \<in> set cache \<or>
    is_unreachable_error_str err \<and> k = (normalize_cache_host host, port) \<and> x = now + UNREACHABLE_CACHE_TTL"
  using assms set_update_subset make_room_props(2)
  by (fastforce simp: record_unreachable_if_match_def split: if_splits)

text \<open>Uses of the cache in sequence, with the answers given.\<close>

datatype neg_op =
    NegRecord nat string u16 string
  | NegQuery nat string u16

definition neg_step :: "neg_op \<Rightarrow> unreachable_cache \<times> (nat \<times> string \<times> u16 \<times> bool) list \<Rightarrow> unreachable_cache \<times> (nat \<times> string \<times> u16 \<times> bool) list" where
  "neg_step op = (\<lambda>(cache, out).
     case op of
       NegRecord now host port err \<Rightarrow> (record_unreachable_if_match now host port err cache, out)
     | NegQuery now host port \<Rightarrow>
         (case is_unreachable now host port cache of (cache', r) \<Rightarrow> (cache', out @ [(now, host, port, r)])))"

definition recorded :: "neg_op list \<Rightarrow> string \<Rightarrow> u16 \<Rightarrow> nat \<Rightarrow> bool" where
  "recorded ops host port x \<longleftrightarrow>
     (\<exists>t h err. NegRecord t h port err \<in> set ops \<and> normalize_cache_host h = host \<and> is_unreachable_error_str err \<and>
        x = t + UNREACHABLE_CACHE_TTL)"

definition neg_inv :: "neg_op list \<Rightarrow> unreachable_cache \<times> (nat \<times> string \<times> u16 \<times> bool) list \<Rightarrow> bool" where
  "neg_inv ops = (\<lambda>(cache, out).
     length cache \<le> UNREACHABLE_CACHE_MAX \<and>
     (\<forall>((h, p), x)\<in>set cache. recorded ops h p x) \<and>
     (\<forall>(now, h, p, r)\<in>set out. r \<longrightarrow> (\<exists>x. recorded ops (normalize_cache_host h) p x \<and> now < x)))"

lemma recorded_more: "recorded ops h p x \<Longrightarrow> recorded (ops @ [op]) h p x"
  by (auto simp: recorded_def)

lemma neg_inv_step:
  assumes "neg_inv ops s"
  shows "neg_inv (ops @ [op]) (neg_step op s)"
proof -
  obtain cache out where s: "s = (cache, out)" by force
  have len: "length cache \<le> UNREACHABLE_CACHE_MAX"
    and ent: "\<And>h p x. ((h, p), x) \<in> set cache \<Longrightarrow> recorded (ops @ [op]) h p x"
    and ans: "\<And>now h p. (now, h, p, True) \<in> set out \<Longrightarrow> \<exists>x. recorded (ops @ [op]) (normalize_cache_host h) p x \<and> now < x"
    using assms recorded_more unfolding neg_inv_def s by fastforce+
  show ?thesis
  proof (cases op)
    case (NegRecord now host port err)
    have "recorded (ops @ [op]) h p x" if "((h, p), x) \<in> set (record_unreachable_if_match now host port err cache)" for h p x
      using record_entries [OF that] ent by (auto simp: NegRecord recorded_def)
    then show ?thesis using record_length [OF len] ans by (auto simp: neg_inv_def neg_step_def s NegRecord)
  next
    case (NegQuery now host port)
    have hit: "\<exists>x. recorded (ops @ [op]) (normalize_cache_host host) port x \<and> now < x"
      if "map_of cache (normalize_cache_host host, port) = Some x" "now < x" for x
      using that ent by (meson map_of_SomeD)
    have "length (AList.delete k cache) \<le> length cache" "set (AList.delete k cache) \<subseteq> set cache" for k
      by (auto simp: AList.delete_eq)
    then show ?thesis
      using len ent ans hit
      by (fastforce simp: neg_inv_def neg_step_def s NegQuery is_unreachable_def Let_def
          split: option.splits intro: order.trans)
  qed
qed

lemma neg_run_inv: "neg_inv ops0 s \<Longrightarrow> neg_inv (ops0 @ ops) (fold neg_step ops s)"
proof (induction ops arbitrary: ops0 s)
  case (Cons op ops)
  show ?case using Cons.IH [OF neg_inv_step [OF Cons.prems]] by simp
qed simp

text \<open>The negative cache never holds more than 256 destinations, and it reports a destination only if
  the node has called it unreachable within the last 30 seconds, for any spelling of its name; a
  destination just recorded is reported for exactly that time.\<close>

theorem negative_cache_exact:
  assumes "fold neg_step ops ([], []) = (cache, out)"
  shows "length cache \<le> 256 \<and>
    (\<forall>(now, h, p, r)\<in>set out. r \<longrightarrow> (\<exists>t h' err. NegRecord t h' p err \<in> set ops \<and>
        normalize_cache_host h' = normalize_cache_host h \<and> is_unreachable_error_str err \<and> now < t + 30000)) \<and>
    (is_unreachable_error_str err \<and> normalize_cache_host h2 = normalize_cache_host h1 \<longrightarrow>
      snd (is_unreachable t2 h2 p (record_unreachable_if_match t1 h1 p err cache)) = (t2 < t1 + 30000))"
proof -
  have "neg_inv ops (cache, out)"
    using neg_run_inv [of "[]" "([], [])" ops] assms by (simp add: neg_inv_def)
  then have "length cache \<le> 256" "\<forall>(now, h, p, r)\<in>set out. r \<longrightarrow> (\<exists>t h' err. NegRecord t h' p err \<in> set ops \<and>
        normalize_cache_host h' = normalize_cache_host h \<and> is_unreachable_error_str err \<and> now < t + 30000)"
    by (fastforce simp: neg_inv_def recorded_def UNREACHABLE_CACHE_MAX_def UNREACHABLE_CACHE_TTL_def)+
  moreover have "snd (is_unreachable t2 h2 p (record_unreachable_if_match t1 h1 p err cache)) = (t2 < t1 + 30000)"
    if "is_unreachable_error_str err" "normalize_cache_host h2 = normalize_cache_host h1"
    using that by (simp add: is_unreachable_def record_unreachable_if_match_def update_conv' UNREACHABLE_CACHE_TTL_def Let_def)
  ultimately show ?thesis by blast
qed

section \<open>Concrete runs\<close>

definition poll_msgs :: "mux_msg list" where
  "poll_msgs = [MConnect ''h'' 80 4, MClose ''x'', MData ''zz'' [] (Some 7) None 5]"

lemma poll_round:
  "mux_round poll_msgs =
     [([\<lparr>po_op = ''connect'', po_sid = None, po_host = Some ''h'', po_port = Some 80, po_data = None,
         po_encode_empty = False, po_seq = None, po_wseq = None\<rparr>,
        \<lparr>po_op = ''data'', po_sid = Some ''zz'', po_host = None, po_port = None, po_data = None,
         po_encode_empty = False, po_seq = Some 7, po_wseq = None\<rparr>,
        close_op ''x''], [(0, 4), (1, 5)])]"
  by (simp add: mux_round_def poll_msgs_def push_msg_def push_or_fire_def new_accum_def should_fire_def
      non_empty_def encoded_len_def MAX_BATCH_OPS_def MAX_BATCH_PAYLOAD_BYTES_def Let_def)

theorem mux_answers_own_op_witness:
  "\<exists>results posts note resp.
     fire_batch (nl_b64_encode plain_lib) ''s'' True (\<lambda>bops. BpOk (snd (batch_execute plain_lib calm_env bops new_node)))
       (\<lambda>_. BpElapsed) (hd (mux_round poll_msgs)) = (results, posts, note) \<and>
     map fst results = [4, 5] \<and> results ! 1 = (5, Inr (resp, ''s'')) \<and>
     (tr_e resp \<noteq> None \<or> tr_sid resp = Some ''zz'' \<and> tr_seq resp = Some 7)"
proof -
  obtain ops replies where b: "hd (mux_round poll_msgs) = (ops, replies)" by force
  then have r: "replies = [(0, 4), (1, 5)]" "ops ! 1 = \<lparr>po_op = ''data'', po_sid = Some ''zz'', po_host = None, po_port = None,
      po_data = None, po_encode_empty = False, po_seq = Some 7, po_wseq = None\<rparr>"
    by (auto simp: poll_round)
  have mem: "(ops, replies) \<in> set (mux_round poll_msgs)" using b by (metis list.set_sel(1) list.simps(3) poll_round)
  obtain results posts nt where f: "fire_batch (nl_b64_encode plain_lib) ''s'' True
      (\<lambda>bops. BpOk (snd (batch_execute plain_lib calm_env bops new_node))) (\<lambda>_. BpElapsed) (ops, replies) = (results, posts, nt)"
    by (metis prod.exhaust)
  have "\<forall>i. \<not> ne_panics calm_env i" by (simp add: calm_env_def)
  from mux_answers_own_op [OF this mem f] r obtain resp where "map fst results = [4, 5]"
    "results ! 1 = (5, Inr (resp, ''s''))" "answers calm_env 1 (encode_pending (nl_b64_encode plain_lib) (ops ! 1)) resp"
    by auto
  moreover from this r(2) have "tr_e resp \<noteq> None \<or> tr_sid resp = Some ''zz'' \<and> tr_seq resp = Some 7"
    by (simp add: answers_def encode_pending_def)
  ultimately show ?thesis using f b by auto
qed

theorem replay_agreement_witness:
  "let p = \<lparr>po_op = ''data'', po_sid = Some ''zz'', po_host = None, po_port = None, po_data = None,
             po_encode_empty = False, po_seq = Some 7, po_wseq = None\<rparr> in
   length (fst (snd (fire_batch (nl_b64_encode plain_lib) ''s'' True (\<lambda>_. BpElapsed) (\<lambda>_. BpOk []) ([p], [(0, 5)])))) = 2 \<and>
   replay_fingerprint plain_lib [encode_pending (nl_b64_encode plain_lib) p] False \<noteq> None"
proof -
  let ?p = "\<lparr>po_op = ''data'', po_sid = Some ''zz'', po_host = None, po_port = None, po_data = None,
             po_encode_empty = False, po_seq = Some 7, po_wseq = None\<rparr>"
  have f: "fire_batch (nl_b64_encode plain_lib) ''s'' True (\<lambda>_. BpElapsed) (\<lambda>_. BpOk []) ([?p], [(0, 5)]) =
     ([(5, Inl (''missing response in batch from script '' @ ''s''))],
      [[encode_pending (nl_b64_encode plain_lib) ?p], [encode_pending (nl_b64_encode plain_lib) ?p]], NoteSuccess ''s'' 0)"
    by (simp add: fire_batch_def response_bytes_def post_batch_def batch_is_replay_safe_def encode_pending_def distribute_def Let_def)
  have "\<forall>ops. nl_ops_json plain_lib ops \<noteq> None" by (simp add: plain_lib_def)
  from replay_agreement [OF this f, of False] f show ?thesis by (simp add: Let_def)
qed

theorem mux_wait_bounded_witness:
  "case mux_collect 200 1000 0 (MClose ''x'') [(120, MConnect ''h'' 80 4), (130, MClose ''y'')] of
     (taken, left, fin) \<Rightarrow> length taken = 2 \<and> fin \<le> max 120 (0 + min 50 1000)"
proof -
  have c: "mux_collect 200 1000 0 (MClose ''x'') [(120, MConnect ''h'' 80 4), (130, MClose ''y'')] =
    ([MClose ''x'', MConnect ''h'' 80 4], [(130, MClose ''y'')], 120)"
    by (simp add: mux_collect_def upgrade_handshake_deadline_def HANDSHAKE_COALESCE_MAX_MS_def)
  from mux_wait_bounded [OF c] c show ?thesis by simp
qed

theorem active_permits_reserved_witness:
  "\<exists>s. permit_step\<^sup>*\<^sup>* no_batches s \<and> length (bk_running s) = 1 \<and> length (filter id (bk_running s)) \<le> 24"
proof -
  let ?s = "no_batches\<lparr>bk_sems := \<lparr>dp_total = 29, dp_idle = 24\<rparr>, bk_running := [False]\<rparr>"
  have "permit_step no_batches (no_batches\<lparr>bk_sems := \<lparr>dp_total = 29, dp_idle = 24\<rparr>, bk_running := False # bk_running no_batches\<rparr>)"
    by (rule permit_step.active) (simp add: no_batches_def new_sems_def acquire_total_def CONCURRENCY_PER_DEPLOYMENT_def
        IDLE_CONCURRENCY_PER_DEPLOYMENT_def RESERVED_ACTIVE_PER_DEPLOYMENT_def)
  then have s: "permit_step\<^sup>*\<^sup>* no_batches ?s" by (simp add: no_batches_def r_into_rtranclp)
  then show ?thesis using active_permits_reserved [OF s] by (intro exI [of _ ?s]) simp
qed

definition neg_sample :: "neg_op list" where
  "neg_sample = [NegRecord 0 ''Ab.'' 1 ''os error 101'', NegQuery 9 ''aB'' 1, NegQuery 30000 ''ab'' 1]"

theorem negative_cache_exact_witness:
  "\<exists>cache. fold neg_step neg_sample ([], []) = (cache, [(9, ''aB'', 1, True), (30000, ''ab'', 1, False)]) \<and>
     (\<exists>t h' err. NegRecord t h' 1 err \<in> set neg_sample \<and> normalize_cache_host h' = normalize_cache_host ''aB'' \<and>
        is_unreachable_error_str err \<and> 9 < t + 30000)"
proof -
  have err: "is_unreachable_error_str ''os error 101''" by code_simp
  have host: "normalize_cache_host ''Ab.'' = ''ab''" "normalize_cache_host ''aB'' = ''ab''" "normalize_cache_host ''ab'' = ''ab''"
    by code_simp+
  have f: "fold neg_step neg_sample ([], []) = ([], [(9, ''aB'', 1, True), (30000, ''ab'', 1, False)])"
    by (simp add: neg_sample_def neg_step_def record_unreachable_if_match_def is_unreachable_def make_room_def err host
        UNREACHABLE_CACHE_MAX_def UNREACHABLE_CACHE_TTL_def Let_def)
  from negative_cache_exact [OF f] f show ?thesis by fastforce
qed

end
