(* ===== verification/Tunnel_Connect.thy ===== *)
theory Tunnel_Connect
  imports Tunnel_Mux
begin

text \<open>
  A connection through the tunnel (\<open>tunnel_connection\<close> in \<^verbatim>\<open>src/src/tunnel_client.rs\<close>): the wait for the
  client's first bytes, the two ways to open a session on the node with the fallback between them, the
  first response, the loop of the session, the transparent retry after an early end, and the closing
  message. Shown: every session a connection opens is closed by a message or was ended by the remote side, and none is
  closed more often than it was opened; and the retry replays only the first bytes, so what the loop had read since is lost.
\<close>

section \<open>Decisions\<close>

definition CONNECT_DATA_TRANSPORT_RETRIES :: nat where "CONNECT_DATA_TRANSPORT_RETRIES = 1"

definition is_server_speaks_first :: "u16 \<Rightarrow> bool" where
  "is_server_speaks_first port \<longleftrightarrow> port \<in> {21, 22, 25, 110, 143, 587}"

definition is_connect_data_unsupported_error_str :: "string \<Rightarrow> bool" where
  "is_connect_data_unsupported_error_str e0 =
     (let e = to_ascii_lowercase e0 in
      (contains e ''unknown op'' \<or> contains e ''unknown tunnel op'') \<and> contains e ''connect_data'')"

definition is_connect_data_unsupported_response :: "tunnel_response \<Rightarrow> bool" where
  "is_connect_data_unsupported_response resp \<longleftrightarrow>
     tr_code resp = Some CODE_UNSUPPORTED_OP \<or>
     (case tr_e resp of None \<Rightarrow> False | Some e \<Rightarrow> is_connect_data_unsupported_error_str e)"

definition is_retryable_connect_data_transport_error :: "string \<Rightarrow> bool" where
  "is_retryable_connect_data_transport_error e0 =
     (let e = to_ascii_lowercase e0 in
      contains e ''peer closed connection without sending tls close_notify'' \<or> contains e ''unexpected eof''
      \<or> contains e ''early eof'' \<or> contains e ''connection reset'' \<or> contains e ''broken pipe'')"

definition can_retry_remote_eof :: "bool \<Rightarrow> u64 \<Rightarrow> bytes option \<Rightarrow> bool" where
  "can_retry_remote_eof first_resp_wrote_data bytes_to_browser retry_ready_data \<longleftrightarrow>
     bytes_to_browser = 0 \<and> \<not> first_resp_wrote_data \<and>
     (case retry_ready_data of None \<Rightarrow> False | Some d \<Rightarrow> is_tls_record_handshake d)"

section \<open>What connections share\<close>

record preread_stats =
  pr_win :: u64
  pr_loss :: u64
  pr_skip_port :: u64
  pr_skip_unsupported :: u64
  pr_win_total_us :: u64
  pr_total_events :: u64

record client_shared =
  cs_connect_data_unsupported :: bool
  cs_unreachable :: unreachable_cache
  cs_preread :: preread_stats

definition maybe_log_preread_summary :: "preread_stats \<Rightarrow> preread_stats" where
  "maybe_log_preread_summary s = s\<lparr>pr_total_events := pr_total_events s + 1\<rparr>"

definition record_preread_win :: "u64 \<Rightarrow> preread_stats \<Rightarrow> preread_stats" where
  "record_preread_win elapsed_us s =
     maybe_log_preread_summary (s\<lparr>pr_win := pr_win s + 1, pr_win_total_us := pr_win_total_us s + elapsed_us\<rparr>)"

definition record_preread_loss :: "preread_stats \<Rightarrow> preread_stats" where
  "record_preread_loss s = maybe_log_preread_summary (s\<lparr>pr_loss := pr_loss s + 1\<rparr>)"

definition record_preread_skip_port :: "preread_stats \<Rightarrow> preread_stats" where
  "record_preread_skip_port s = maybe_log_preread_summary (s\<lparr>pr_skip_port := pr_skip_port s + 1\<rparr>)"

definition record_preread_skip_unsupported :: "preread_stats \<Rightarrow> preread_stats" where
  "record_preread_skip_unsupported s = maybe_log_preread_summary (s\<lparr>pr_skip_unsupported := pr_skip_unsupported s + 1\<rparr>)"

section \<open>Opening a session\<close>

text \<open>What comes back on a reply channel. Requests are numbered; the number is also their channel.\<close>

datatype mux_reply =
    MrOk tunnel_response
  | MrErr string
  | MrClosed

datatype connect_data_outcome =
    Opened string tunnel_response
  | Unsupported

text \<open>A connection's surroundings: the first read from the local socket, the replies to its requests,
  whether the first response can be written, and the events of its session loops.\<close>

datatype preread =
    PreEof
  | PreData bytes u64
  | PreError string
  | PreTimeout

record conn_env =
  ce_now :: nat
  ce_preread :: preread
  ce_replies :: "nat \<Rightarrow> mux_reply"
  ce_first_write :: bool
  ce_events :: "nat \<Rightarrow> (mux \<times> nat \<times> loop_ev) list"

record conn_state =
  cn_shared :: client_shared
  cn_msgs :: "mux_msg list"
  cn_requests :: nat
  cn_opened :: "string list"
  cn_ended :: "string list"
  cn_written :: "bytes list"
  cn_loops :: "(string \<times> bytes option \<times> tunnel_loop) list"

definition send_msg :: "mux_msg \<Rightarrow> conn_state \<Rightarrow> conn_state" where
  "send_msg msg c = c\<lparr>cn_msgs := cn_msgs c @ [msg]\<rparr>"

definition note_error :: "conn_env \<Rightarrow> string \<Rightarrow> u16 \<Rightarrow> string \<Rightarrow> conn_state \<Rightarrow> conn_state" where
  "note_error env host port e c =
     c\<lparr>cn_shared := (cn_shared c)\<lparr>cs_unreachable :=
        record_unreachable_if_match (ce_now env) host port e (cs_unreachable (cn_shared c))\<rparr>\<rparr>"

definition connect_plain :: "conn_env \<Rightarrow> string \<Rightarrow> u16 \<Rightarrow> conn_state \<Rightarrow> conn_state \<times> (string, string) result" where
  "connect_plain env host port c =
     (let k = cn_requests c;
          c1 = (send_msg (MConnect host port k) c)\<lparr>cn_requests := k + 1\<rparr> in
      case ce_replies env k of
        MrOk resp \<Rightarrow>
          (case tr_e resp of
             Some e \<Rightarrow> (note_error env host port e c1, Inl e)
           | None \<Rightarrow>
               (case tr_sid resp of
                  Some sid \<Rightarrow> (c1\<lparr>cn_opened := cn_opened c1 @ [sid]\<rparr>, Inr sid)
                | None \<Rightarrow> (c1, Inl ''tunnel connect: no session id'')))
      | MrErr e \<Rightarrow> (c1, Inl e)
      | MrClosed \<Rightarrow> (c1, Inl ''mux channel closed''))"

fun connect_attempts :: "conn_env \<Rightarrow> string \<Rightarrow> u16 \<Rightarrow> bytes \<Rightarrow> nat \<Rightarrow> conn_state
    \<Rightarrow> conn_state \<times> (connect_data_outcome, string) result" where
  "connect_attempts env host port data 0 c = (c, Inl ''unreachable'')"
| "connect_attempts env host port data (Suc left) c =
     (let k = cn_requests c;
          c1 = (send_msg (MConnectData host port data k) c)\<lparr>cn_requests := k + 1\<rparr> in
      case ce_replies env k of
        MrErr e \<Rightarrow>
          if is_connect_data_unsupported_error_str e then (c1, Inr Unsupported)
          else if 0 < left \<and> is_retryable_connect_data_transport_error e
          then connect_attempts env host port data left c1
          else (c1, Inl e)
      | MrClosed \<Rightarrow> (c1, Inl ''mux channel closed'')
      | MrOk resp \<Rightarrow>
          if is_connect_data_unsupported_response resp then (c1, Inr Unsupported)
          else
            (case tr_e resp of
               Some e \<Rightarrow> (note_error env host port e c1, Inl e)
             | None \<Rightarrow>
                 (case tr_sid resp of
                    Some sid \<Rightarrow> (c1\<lparr>cn_opened := cn_opened c1 @ [sid]\<rparr>, Inr (Opened sid resp))
                  | None \<Rightarrow> (c1, Inl ''tunnel connect_data: no session id''))))"

definition connect_with_initial_data :: "conn_env \<Rightarrow> string \<Rightarrow> u16 \<Rightarrow> bytes \<Rightarrow> conn_state
    \<Rightarrow> conn_state \<times> (connect_data_outcome, string) result" where
  "connect_with_initial_data env host port data c =
     connect_attempts env host port data
       (if is_tls_record_handshake data then CONNECT_DATA_TRANSPORT_RETRIES + 1 else 1) c"

definition set_preread :: "(preread_stats \<Rightarrow> preread_stats) \<Rightarrow> conn_state \<Rightarrow> conn_state" where
  "set_preread f c = c\<lparr>cn_shared := (cn_shared c)\<lparr>cs_preread := f (cs_preread (cn_shared c))\<rparr>\<rparr>"

text \<open>The first bytes: an early return, or the bytes if there are any.\<close>

definition read_initial :: "conn_env \<Rightarrow> u16 \<Rightarrow> conn_state \<Rightarrow> conn_state \<times> (bytes option, (unit, string) result) result" where
  "read_initial env port c =
     (if cs_connect_data_unsupported (cn_shared c) then (set_preread record_preread_skip_unsupported c, Inr None)
      else if is_server_speaks_first port then (set_preread record_preread_skip_port c, Inr None)
      else
        (case ce_preread env of
           PreEof \<Rightarrow> (c, Inl (Inr ()))
         | PreData d us \<Rightarrow> (set_preread (record_preread_win us) c, Inr (Some d))
         | PreError e \<Rightarrow> (c, Inl (Inl e))
         | PreTimeout \<Rightarrow> (set_preread record_preread_loss c, Inr None)))"

text \<open>The session, the response to the first bytes, and the bytes still to be sent.\<close>

definition open_session :: "conn_env \<Rightarrow> string \<Rightarrow> u16 \<Rightarrow> bytes option \<Rightarrow> conn_state
    \<Rightarrow> conn_state \<times> (string \<times> tunnel_response option \<times> bytes option, string) result" where
  "open_session env host port initial c =
     (case initial of
        None \<Rightarrow>
          (case connect_plain env host port c of
             (c1, Inl e) \<Rightarrow> (c1, Inl e)
           | (c1, Inr sid) \<Rightarrow> (c1, Inr (sid, None, None)))
      | Some data \<Rightarrow>
          (case connect_with_initial_data env host port data c of
             (c1, Inl e) \<Rightarrow> (c1, Inl e)
           | (c1, Inr (Opened sid resp)) \<Rightarrow> (c1, Inr (sid, Some resp, None))
           | (c1, Inr Unsupported) \<Rightarrow>
               (case connect_plain env host port
                       (c1\<lparr>cn_shared := (cn_shared c1)\<lparr>cs_connect_data_unsupported := True\<rparr>\<rparr>) of
                  (c2, Inl e) \<Rightarrow> (c2, Inl e)
                | (c2, Inr sid) \<Rightarrow> (c2, Inr (sid, None, Some data)))))"

section \<open>Running it\<close>

text \<open>How a run of the loop or of a whole attempt comes out; \<open>None\<close> while it has not returned.\<close>

type_synonym attempt = "((tunnel_end \<times> bool), string) result"

definition run_loop :: "b64 \<Rightarrow> conn_env \<Rightarrow> string \<Rightarrow> bytes option \<Rightarrow> conn_state \<Rightarrow> conn_state \<times> (tunnel_end, string) result option" where
  "run_loop dec env sid pending c =
     (let st = tunnel_run dec (ce_events env (length (cn_loops c))) (tunnel_loop_start (ce_now env) pending);
          c1 = c\<lparr>cn_loops := cn_loops c @ [(sid, pending, st)]\<rparr> in
      case tl_end st of
        None \<Rightarrow> (c1, None)
      | Some EndIo \<Rightarrow> (c1, Some (Inl ''io''))
      | Some (EndOk (RemoteEof n)) \<Rightarrow> (c1\<lparr>cn_ended := cn_ended c1 @ [sid]\<rparr>, Some (Inr (RemoteEof n)))
      | Some (EndOk NeedsClose) \<Rightarrow> (c1, Some (Inr NeedsClose)))"

definition first_attempt :: "b64 \<Rightarrow> conn_env \<Rightarrow> string \<Rightarrow> tunnel_response option \<Rightarrow> bytes option \<Rightarrow> conn_state
    \<Rightarrow> conn_state \<times> attempt option" where
  "first_attempt dec env sid first_resp pending c =
     (let go = (\<lambda>c wrote.
            case run_loop dec env sid pending c of
              (c1, r) \<Rightarrow> (c1, map_option (map_sum id (\<lambda>end. (end, wrote))) r));
          after = (\<lambda>resp wrote c.
            if tr_eof resp = Some True then (c\<lparr>cn_ended := cn_ended c @ [sid]\<rparr>, Some (Inr (RemoteEof 0, wrote)))
            else go c wrote) in
      case first_resp of
        None \<Rightarrow> go c False
      | Some resp \<Rightarrow>
          (case write_tunnel_response dec resp of
             (_, BadBase64) \<Rightarrow> (c, Some (Inr (NeedsClose, False)))
           | (_, NoData) \<Rightarrow> after resp False c
           | (bs, Wrote) \<Rightarrow>
               if ce_first_write env then after resp True (c\<lparr>cn_written := cn_written c @ [bs]\<rparr>)
               else (c, Some (Inl ''io''))))"

definition retry_attempt :: "b64 \<Rightarrow> conn_env \<Rightarrow> string \<Rightarrow> u16 \<Rightarrow> bytes option \<Rightarrow> conn_state
    \<Rightarrow> conn_state \<times> (unit, string) result option" where
  "retry_attempt dec env host port retry_data c =
     (case connect_plain env host port c of
        (c1, Inl e) \<Rightarrow> (c1, Some (Inl e))
      | (c1, Inr sid) \<Rightarrow>
          (case run_loop dec env sid retry_data c1 of
             (c2, None) \<Rightarrow> (c2, None)
           | (c2, Some (Inr (RemoteEof n))) \<Rightarrow> (c2, Some (Inr ()))
           | (c2, Some r) \<Rightarrow> (send_msg (MClose sid) c2, Some (map_sum id (\<lambda>_. ()) r))))"

definition full_tunnel_connection :: "b64 \<Rightarrow> conn_env \<Rightarrow> string \<Rightarrow> u16 \<Rightarrow> conn_state \<Rightarrow> conn_state \<times> (unit, string) result option" where
  "full_tunnel_connection dec env host port c0 =
     (case read_initial env port c0 of
        (c, Inl r) \<Rightarrow> (c, Some r)
      | (c, Inr initial) \<Rightarrow>
          (case open_session env host port initial c of
             (c1, Inl e) \<Rightarrow> (c1, Some (Inl e))
           | (c1, Inr (sid, first_resp, pending)) \<Rightarrow>
               (case first_attempt dec env sid first_resp pending c1 of
                  (c2, None) \<Rightarrow> (c2, None)
                | (c2, Some (Inr (RemoteEof n, wrote))) \<Rightarrow>
                    if can_retry_remote_eof wrote n initial
                    then retry_attempt dec env host port initial (send_msg (MClose sid) c2)
                    else (c2, Some (Inr ()))
                | (c2, Some (Inr (NeedsClose, wrote))) \<Rightarrow> (send_msg (MClose sid) c2, Some (Inr ()))
                | (c2, Some (Inl e)) \<Rightarrow> (send_msg (MClose sid) c2, Some (Inl e)))))"

section \<open>Every session is closed\<close>

definition closed_sids :: "conn_state \<Rightarrow> string list" where
  "closed_sids c = concat (map close_sid (cn_msgs c))"

text \<open>The sessions opened, closed and ended so far.\<close>

definition ledger :: "conn_state \<Rightarrow> string list \<times> string list \<times> string list" where
  "ledger c = (cn_opened c, closed_sids c, cn_ended c)"

lemma ledger_simps [simp]:
  "ledger (set_preread f c) = ledger c" "ledger (note_error env host port e c) = ledger c"
  "ledger (c\<lparr>cn_shared := sh\<rparr>) = ledger c" "ledger (c\<lparr>cn_requests := n\<rparr>) = ledger c"
  "ledger (c\<lparr>cn_written := w\<rparr>) = ledger c" "ledger (c\<lparr>cn_loops := l\<rparr>) = ledger c"
  "ledger (send_msg (MClose sid) c) = (cn_opened c, closed_sids c @ [sid], cn_ended c)"
  "ledger (send_msg (MConnect h p k) c) = ledger c" "ledger (send_msg (MConnectData h p d k) c) = ledger c"
  "ledger (c\<lparr>cn_opened := cn_opened c @ [sid]\<rparr>) = (cn_opened c @ [sid], closed_sids c, cn_ended c)"
  "ledger (c\<lparr>cn_ended := cn_ended c @ [sid]\<rparr>) = (cn_opened c, closed_sids c, cn_ended c @ [sid])"
  by (simp_all add: ledger_def closed_sids_def set_preread_def note_error_def send_msg_def)

lemma ledger_eq: "ledger c = (a, b, e) \<longleftrightarrow> cn_opened c = a \<and> closed_sids c = b \<and> cn_ended c = e"
  by (auto simp: ledger_def)

lemma ledger_same: "ledger c' = ledger c \<longleftrightarrow> cn_opened c' = cn_opened c \<and> closed_sids c' = closed_sids c \<and> cn_ended c' = cn_ended c"
  by (auto simp: ledger_def)

lemma ledger_fields [simp]:
  "closed_sids (c\<lparr>cn_requests := n\<rparr>) = closed_sids c" "closed_sids (send_msg (MConnect h p k) c) = closed_sids c"
  "closed_sids (send_msg (MConnectData h p d k) c) = closed_sids c"
  "closed_sids (send_msg (MClose sid) c) = closed_sids c @ [sid]"
  "cn_opened (send_msg msg c) = cn_opened c" "cn_ended (send_msg msg c) = cn_ended c"
  by (simp_all add: closed_sids_def send_msg_def)

lemma connect_plain_ledger:
  assumes "connect_plain env host port c = (c1, r)"
  shows "ledger c1 = (cn_opened c @ (case r of Inr sid \<Rightarrow> [sid] | Inl e \<Rightarrow> []), closed_sids c, cn_ended c)"
  using assms
  by (auto simp: connect_plain_def Let_def ledger_def closed_sids_def send_msg_def note_error_def
      split: mux_reply.splits option.splits)

lemma connect_attempts_ledger:
  "connect_attempts env host port data n c = (c1, r) \<Longrightarrow>
     ledger c1 = (cn_opened c @ (case r of Inr (Opened sid resp) \<Rightarrow> [sid] | _ \<Rightarrow> []), closed_sids c, cn_ended c)"
proof (induction n arbitrary: c)
  case 0
  then show ?case by (auto simp: ledger_def)
next
  case (Suc n)
  let ?k = "cn_requests c"
  let ?c = "(send_msg (MConnectData host port data ?k) c)\<lparr>cn_requests := ?k + 1\<rparr>"
  have base: "cn_opened ?c = cn_opened c" "closed_sids ?c = closed_sids c" "cn_ended ?c = cn_ended c" by simp_all
  show ?case
  proof (cases "ce_replies env ?k")
    case (MrErr e)
    show ?thesis
    proof (cases "\<not> is_connect_data_unsupported_error_str e \<and> 0 < n \<and> is_retryable_connect_data_transport_error e")
      case True
      then have "connect_attempts env host port data n ?c = (c1, r)" using Suc.prems MrErr by (simp add: Let_def)
      from Suc.IH [OF this] base show ?thesis by simp
    next
      case False
      then show ?thesis using Suc.prems MrErr by (auto simp: Let_def ledger_def split: if_splits)
    qed
  next
    case (MrOk resp)
    then show ?thesis
      using Suc.prems
      by (auto simp: Let_def ledger_def closed_sids_def send_msg_def note_error_def split: if_splits option.splits)
  qed (use Suc.prems in \<open>auto simp: Let_def ledger_def\<close>)
qed

lemma open_session_ledger:
  assumes "open_session env host port initial c = (c1, r)"
  shows "ledger c1 = (cn_opened c @ (case r of Inr (sid, _) \<Rightarrow> [sid] | Inl e \<Rightarrow> []), closed_sids c, cn_ended c)"
proof (cases initial)
  case None
  obtain c' r' where p: "connect_plain env host port c = (c', r')" by force
  show ?thesis
    using assms connect_plain_ledger [OF p] None p by (cases r') (auto simp: open_session_def)
next
  case (Some data)
  obtain c' r' where a: "connect_with_initial_data env host port data c = (c', r')" by force
  note l = connect_attempts_ledger [OF a [unfolded connect_with_initial_data_def]]
  show ?thesis
  proof (cases "r' = Inr Unsupported")
    case True
    let ?c = "c'\<lparr>cn_shared := (cn_shared c')\<lparr>cs_connect_data_unsupported := True\<rparr>\<rparr>"
    have "cn_opened ?c = cn_opened c" "closed_sids ?c = closed_sids c" "cn_ended ?c = cn_ended c"
      using l True by (simp_all add: ledger_def closed_sids_def)
    moreover obtain c2 r2 where p: "connect_plain env host port ?c = (c2, r2)" by force
    ultimately show ?thesis
      using connect_plain_ledger [OF p] assms Some a True p
      by (cases r2) (auto simp: open_session_def)
  next
    case False
    then show ?thesis
      using l assms Some a by (cases r') (auto simp: open_session_def split: connect_data_outcome.splits)
  qed
qed

lemma run_loop_ledger:
  assumes "run_loop dec env sid pending c = (c1, r)"
  shows "ledger c1 = (cn_opened c, closed_sids c, cn_ended c @ (case r of Some (Inr (RemoteEof n)) \<Rightarrow> [sid] | _ \<Rightarrow> []))"
  using assms
  by (auto simp: run_loop_def Let_def ledger_def closed_sids_def split: option.splits loop_end.splits tunnel_end.splits)

lemma first_attempt_ledger:
  assumes "first_attempt dec env sid first_resp pending c = (c1, r)"
  shows "ledger c1 = (cn_opened c, closed_sids c, cn_ended c @ (case r of Some (Inr (RemoteEof n, w)) \<Rightarrow> [sid] | _ \<Rightarrow> []))"
proof -
  have go: "ledger c1 = (cn_opened c', closed_sids c', cn_ended c' @ (case r of Some (Inr (RemoteEof n, w)) \<Rightarrow> [sid] | _ \<Rightarrow> []))"
    if "(case run_loop dec env sid pending c' of (c1, r) \<Rightarrow> (c1, map_option (map_sum id (\<lambda>end. (end, wrote))) r)) = (c1, r)"
    for c' wrote
  proof -
    obtain c2 r2 where l: "run_loop dec env sid pending c' = (c2, r2)" by force
    have "c1 = c2" "r = map_option (map_sum id (\<lambda>end. (end, wrote))) r2" using that l by simp_all
    then show ?thesis
      using run_loop_ledger [OF l] by (auto split: option.splits sum.splits tunnel_end.splits)
  qed
  show ?thesis
  proof (cases first_resp)
    case None
    then show ?thesis using assms go by (simp add: first_attempt_def Let_def)
  next
    case (Some resp)
    obtain bs out where w: "write_tunnel_response dec resp = (bs, out)" by force
    show ?thesis
      using assms go [where c' = c and wrote = False]
        go [where c' = "c\<lparr>cn_written := cn_written c @ [bs]\<rparr>" and wrote = True] w Some
      by (cases out) (auto simp: first_attempt_def Let_def ledger_def closed_sids_def split: if_splits)
  qed
qed

lemma retry_ledger:
  assumes "retry_attempt dec env host port retry_data c = (c1, Some r)"
  shows "\<exists>new cl en. cn_opened c1 = cn_opened c @ new \<and> closed_sids c1 = closed_sids c @ cl \<and> cn_ended c1 = cn_ended c @ en \<and>
    mset new = mset cl + mset en"
proof -
  obtain c' r' where p: "connect_plain env host port c = (c', r')" by force
  note l = connect_plain_ledger [OF p]
  show ?thesis
  proof (cases r')
    case (Inl e)
    then show ?thesis using assms l p by (auto simp: retry_attempt_def ledger_def)
  next
    case (Inr sid)
    obtain c2 r2 where q: "run_loop dec env sid retry_data c' = (c2, r2)" by force
    note l2 = run_loop_ledger [OF q]
    have "ledger c1 = (cn_opened c @ [sid], closed_sids c, cn_ended c @ [sid]) \<or>
        ledger c1 = (cn_opened c @ [sid], closed_sids c @ [sid], cn_ended c)"
      using assms l l2 p q Inr
      by (auto simp: retry_attempt_def ledger_eq split: option.splits sum.splits tunnel_end.splits)
    then show ?thesis by (auto simp: ledger_eq)
  qed
qed

text \<open>C12: When a connection through the tunnel returns, every session it has opened on the node was closed
  by a message or ended by the remote side, no session is closed that was not opened, and none is closed more often than it was opened, so
  that with distinct session ids no two messages close the same session.\<close>

theorem connection_closes_sessions:
  assumes "full_tunnel_connection dec env host port c0 = (c, Some r)"
    and "cn_opened c0 = []" "cn_msgs c0 = []" "cn_ended c0 = []"
  shows "mset (cn_opened c) \<subseteq># mset (closed_sids c) + mset (cn_ended c) \<and> mset (closed_sids c) \<subseteq># mset (cn_opened c)"
proof -
  obtain c1 i where ri: "read_initial env port c0 = (c1, i)" by force
  have l1: "ledger c1 = ([], [], [])"
    using ri assms(2-4)
    by (auto simp: read_initial_def ledger_def closed_sids_def set_preread_def split: if_splits preread.splits)
  show ?thesis
  proof (cases i)
    case (Inl x)
    then show ?thesis using assms(1) ri l1 by (simp add: full_tunnel_connection_def ledger_eq)
  next
    case (Inr initial)
    obtain c2 o2 where os: "open_session env host port initial c1 = (c2, o2)" by force
    note l2 = open_session_ledger [OF os]
    show ?thesis
    proof (cases o2)
      case (Inl e)
      then show ?thesis using assms(1) ri Inr os l1 l2 by (simp add: full_tunnel_connection_def ledger_eq)
    next
      case (Inr q)
      obtain sid first_resp pending where q: "q = (sid, first_resp, pending)" using prod_cases3 by blast
      obtain c3 a where fa: "first_attempt dec env sid first_resp pending c2 = (c3, a)" by force
      note l3 = first_attempt_ledger [OF fa]
      have top: "full_tunnel_connection dec env host port c0 =
         (case (c3, a) of
            (c2, None) \<Rightarrow> (c2, None)
          | (c2, Some (Inr (RemoteEof n, wrote))) \<Rightarrow>
              if can_retry_remote_eof wrote n initial
              then retry_attempt dec env host port initial (send_msg (MClose sid) c2) else (c2, Some (Inr ()))
          | (c2, Some (Inr (NeedsClose, wrote))) \<Rightarrow> (send_msg (MClose sid) c2, Some (Inr ()))
          | (c2, Some (Inl e)) \<Rightarrow> (send_msg (MClose sid) c2, Some (Inl e)))"
        using ri \<open>i = Inr initial\<close> os Inr q fa by (simp add: full_tunnel_connection_def)
      have b: "cn_opened c3 = [sid]" "closed_sids c3 = []"
        using l1 l2 l3 Inr q by (auto simp: ledger_eq)
      have ended: "\<And>n w. a = Some (Inr (RemoteEof n, w)) \<Longrightarrow> cn_ended c3 = [sid]"
        using l1 l2 l3 Inr q by (auto simp: ledger_eq)
      have close: "closed_sids (send_msg (MClose sid) c3) = [sid]" using b by (simp add: closed_sids_def send_msg_def)
      consider n w where "a = Some (Inr (RemoteEof n, w))" "can_retry_remote_eof w n initial"
        | n w where "a = Some (Inr (RemoteEof n, w))" "\<not> can_retry_remote_eof w n initial" "c = c3"
        | "c = send_msg (MClose sid) c3"
        using assms(1) top by (cases a) (auto split: sum.splits tunnel_end.splits prod.splits if_splits)
      then show ?thesis
      proof cases
        case 1
        then have "retry_attempt dec env host port initial (send_msg (MClose sid) c3) = (c, Some r)" using top assms(1) by simp
        from retry_ledger [OF this] b close show ?thesis by (auto simp: ended [OF 1(1)])
      qed (use b ended close in auto)
    qed
  qed
qed

section \<open>Concrete connections\<close>

definition fresh_conn :: conn_state where
  "fresh_conn = \<lparr>cn_shared = \<lparr>cs_connect_data_unsupported = False, cs_unreachable = [],
       cs_preread = \<lparr>pr_win = 0, pr_loss = 0, pr_skip_port = 0, pr_skip_unsupported = 0, pr_win_total_us = 0, pr_total_events = 0\<rparr>\<rparr>,
     cn_msgs = [], cn_requests = 0, cn_opened = [], cn_ended = [], cn_written = [], cn_loops = []\<rparr>"

definition session_reply :: "string \<Rightarrow> tunnel_response" where
  "session_reply sid = \<lparr>tr_sid = Some sid, tr_d = None, tr_pkts = None, tr_eof = Some False, tr_e = None, tr_code = None, tr_seq = None\<rparr>"

definition eof_reply :: "u64 \<Rightarrow> tunnel_response" where
  "eof_reply q = \<lparr>tr_sid = Some ''a'', tr_d = None, tr_pkts = None, tr_eof = Some True, tr_e = None, tr_code = None, tr_seq = Some q\<rparr>"

text \<open>The client sends the start of a handshake, then more of it; the remote side ends without a byte; in
  the second session the client sends the rest.\<close>

definition lost_read_env :: conn_env where
  "lost_read_env = \<lparr>ce_now = 0, ce_preread = PreData [0x16, 0x03, 1] 5,
     ce_replies = (\<lambda>k. MrOk (session_reply (if k = 0 then ''a'' else ''b''))), ce_first_write = True,
     ce_events = (\<lambda>i. if i = 0
       then [(idle_mux, 10, LRead (Some [9])),
             (idle_mux, 20, LReply \<lparr>im_seq = 0, im_was_empty_poll = True, im_send_at = 0\<rparr> (RoOk (eof_reply 0) ''s'') 9),
             (idle_mux, 30, LReply \<lparr>im_seq = 1, im_was_empty_poll = False, im_send_at = 10\<rparr> (RoOk (eof_reply 1) ''s'') 9)]
       else [(idle_mux, 40, LRead (Some [10])),
             (idle_mux, 50, LReply \<lparr>im_seq = 1, im_was_empty_poll = True, im_send_at = 0\<rparr> RoTimeout 9)])\<rparr>"

lemma lost_read_run:
  "\<exists>c st1 st2. full_tunnel_connection text_dec lost_read_env ''h'' 443 fresh_conn = (c, Some (Inr ())) \<and>
     cn_loops c = [(''a'', None, st1), (''b'', Some [0x16, 0x03, 1], st2)] \<and>
     sent_bytes st1 = [9] \<and> sent_bytes st2 = [0x16, 0x03, 1, 10] \<and> cn_opened c = [''a'', ''b'']"
proof -
  define st1 where "st1 = tunnel_run text_dec (ce_events lost_read_env 0) (tunnel_loop_start 0 None)"
  define st2 where "st2 = tunnel_run text_dec (ce_events lost_read_env 1) (tunnel_loop_start 0 (Some [0x16, 0x03, 1]))"
  have e1: "tl_end st1 = Some (EndOk (RemoteEof 0))" "sent_bytes st1 = [9]"
    by (simp_all add: st1_def run_simps lost_read_env_def idle_mux_def eof_reply_def sent_bytes_def Let_def)
  have e2: "tl_end st2 = Some (EndOk NeedsClose)" "sent_bytes st2 = [0x16, 0x03, 1, 10]"
    by (simp_all add: st2_def run_simps lost_read_env_def idle_mux_def sent_bytes_def Let_def)
  have env: "ce_now lost_read_env = 0" "ce_preread lost_read_env = PreData [0x16, 0x03, 1] 5" "ce_first_write lost_read_env"
    "\<And>k. ce_replies lost_read_env k = MrOk (session_reply (if k = 0 then ''a'' else ''b''))"
    by (simp_all add: lost_read_env_def)
  have l1: "run_loop text_dec lost_read_env ''a'' None c =
      (c\<lparr>cn_loops := [(''a'', None, st1)], cn_ended := cn_ended c @ [''a'']\<rparr>, Some (Inr (RemoteEof 0)))" if "cn_loops c = []" for c
    using that e1(1) by (simp add: run_loop_def env(1) st1_def [symmetric] Let_def)
  have l2: "run_loop text_dec lost_read_env ''b'' (Some [0x16, 0x03, 1]) c =
      (c\<lparr>cn_loops := cn_loops c @ [(''b'', Some [0x16, 0x03, 1], st2)]\<rparr>, Some (Inr NeedsClose))" if "length (cn_loops c) = 1" for c
    using that e2(1) by (simp add: run_loop_def env(1) st2_def [symmetric, simplified] Let_def)
  show ?thesis
    using e1(2) e2(2)
    by (simp add: full_tunnel_connection_def read_initial_def fresh_conn_def is_server_speaks_first_def env set_preread_def
        open_session_def connect_with_initial_data_def is_tls_record_handshake_def CONNECT_DATA_TRANSPORT_RETRIES_def
        session_reply_def send_msg_def is_connect_data_unsupported_response_def first_attempt_def write_tunnel_response_def
        l1 l2 can_retry_remote_eof_def retry_attempt_def connect_plain_def Let_def)
qed

text \<open>The transparent retry loses data: in a run where the client has sent the start of a handshake,
  the loop has read and sent another byte, and the remote side has then ended without an answer, the
  second session is opened with the first bytes only, and the next bytes read follow them directly.\<close>

theorem retry_drops_reads:
  "\<exists>c st1 st2. full_tunnel_connection text_dec lost_read_env ''h'' 443 fresh_conn = (c, Some (Inr ())) \<and>
     cn_loops c = [(''a'', None, st1), (''b'', Some [0x16, 0x03, 1], st2)] \<and>
     sent_bytes st1 = [9] \<and> sent_bytes st2 = [0x16, 0x03, 1] @ [10]"
  using lost_read_run by auto

theorem connection_closes_sessions_witness:
  "\<exists>c. full_tunnel_connection text_dec lost_read_env ''h'' 443 fresh_conn = (c, Some (Inr ())) \<and>
     {#''a'', ''b''#} \<subseteq># mset (closed_sids c) + mset (cn_ended c) \<and> mset (closed_sids c) \<subseteq># {#''a'', ''b''#}"
proof -
  obtain c where c: "full_tunnel_connection text_dec lost_read_env ''h'' 443 fresh_conn = (c, Some (Inr ()))" "cn_opened c = [''a'', ''b'']"
    using lost_read_run by blast
  from connection_closes_sessions [OF c(1)] c(2) have "mset (cn_opened c) \<subseteq># mset (closed_sids c) + mset (cn_ended c)"
    "mset (closed_sids c) \<subseteq># mset (cn_opened c)" by (simp_all add: fresh_conn_def)
  with c show ?thesis by (intro exI [of _ c]) simp
qed

end
