(* ===== verification/Tunnel_Pool.thy ===== *)
theory Tunnel_Pool
  imports Assoc Rust_Net
begin

text \<open>
  The connect accelerator of the tunnel node (\<^verbatim>\<open>tunnel-node/src/main.rs\<close>): the DNS cache, the pool of
  idle connections with its reservations, the tracker of hot hosts, and \<^verbatim>\<open>PrewarmState\<close>, which
  opens connections from them. Maps are association lists; the entry a \<^verbatim>\<open>HashMap\<close> gives first when
  one is evicted is chosen by an index of the environment. Instants are naturals (milliseconds), a
  connected socket is a number. Shown: the counters of the pool agree with its queues and its running
  prewarms, and both caps hold, in every interleaving of openers and prewarms; a connection is handed
  out once, only for the destination it was opened for and only while fresh; the opening loop ends; the
  caches stay within their sizes, and a failed connection forgets its cached addresses.
\<close>

section \<open>Constants and data\<close>

definition DNS_CACHE_TTL :: nat where "DNS_CACHE_TTL = 60 * 1000"
definition DNS_CACHE_MAX_ENTRIES :: nat where "DNS_CACHE_MAX_ENTRIES = 1024"
definition TCP_POOL_TTL :: nat where "TCP_POOL_TTL = 30 * 1000"
definition TCP_POOL_PER_HOST_MAX :: nat where "TCP_POOL_PER_HOST_MAX = 2"
definition TCP_POOL_TOTAL_MAX :: nat where "TCP_POOL_TOTAL_MAX = 64"
definition HOT_HOST_WINDOW :: nat where "HOT_HOST_WINDOW = 300 * 1000"
definition HOT_HOST_MIN_COUNT :: nat where "HOT_HOST_MIN_COUNT = 2"
definition HOT_HOSTS_MAX_KEYS :: nat where "HOT_HOSTS_MAX_KEYS = 256"

type_synonym endpoint = "string \<times> u16"
type_synonym sock_addr = "ip_addr \<times> u16"

datatype dial_error = AddrNotAvailable | DialTimedOut | DialOther string

record dns_entry =
  de_addrs :: "sock_addr list"
  de_expires_at :: nat

type_synonym dns_cache = "(endpoint \<times> dns_entry) list"

record pooled_conn =
  pc_stream :: nat
  pc_opened_at :: nat

record host_state =
  hs_queue :: "pooled_conn list"
  hs_pending :: nat

record tcp_pool =
  tp_hosts :: "(endpoint \<times> host_state) list"
  tp_total_actual :: nat
  tp_total_pending :: nat

type_synonym hot_hosts = "(endpoint \<times> nat list) list"

record prewarm_state =
  pw_dns :: dns_cache
  pw_pool :: tcp_pool
  pw_hot :: hot_hosts
  pw_enabled :: bool

text \<open>The entry dropped when a map is full: the one the map's iteration gives first, by an index.\<close>

definition drop_one :: "nat \<Rightarrow> ('k \<times> 'v) list \<Rightarrow> ('k \<times> 'v) list" where
  "drop_one i m = (if m = [] then m else AList.delete (fst (m ! (i mod length m))) m)"

section \<open>DNS cache\<close>

definition dns_resolve :: "nat \<Rightarrow> nat \<Rightarrow> (dial_error + sock_addr list) \<Rightarrow> endpoint \<Rightarrow> dns_cache
    \<Rightarrow> dns_cache \<times> (dial_error + sock_addr list)" where
  "dns_resolve now i looked_up key cache =
     (case Option.bind (map_of cache key) (\<lambda>e. if now < de_expires_at e then Some (de_addrs e) else None) of
        Some addrs \<Rightarrow> (cache, Inr addrs)
      | None \<Rightarrow>
          (case looked_up of
             Inl e \<Rightarrow> (cache, Inl e)
           | Inr addrs \<Rightarrow>
               if addrs = [] then (cache, Inl AddrNotAvailable)
               else (AList.update key \<lparr>de_addrs = addrs, de_expires_at = now + DNS_CACHE_TTL\<rparr>
                       (if DNS_CACHE_MAX_ENTRIES \<le> length cache then drop_one i cache else cache),
                     Inr addrs)))"

definition dns_evict :: "endpoint \<Rightarrow> dns_cache \<Rightarrow> dns_cache" where
  "dns_evict key cache = AList.delete key cache"

section \<open>Pool of idle connections\<close>

definition conn_fresh :: "nat \<Rightarrow> pooled_conn \<Rightarrow> bool" where
  "conn_fresh now c \<longleftrightarrow> now - pc_opened_at c < TCP_POOL_TTL"

definition hs_is_empty :: "host_state \<Rightarrow> bool" where
  "hs_is_empty s \<longleftrightarrow> hs_queue s = [] \<and> hs_pending s = 0"

definition default_host :: host_state where
  "default_host = \<lparr>hs_queue = [], hs_pending = 0\<rparr>"

definition new_pool :: tcp_pool where
  "new_pool = \<lparr>tp_hosts = [], tp_total_actual = 0, tp_total_pending = 0\<rparr>"

definition prune_host :: "nat \<Rightarrow> host_state \<Rightarrow> host_state" where
  "prune_host now s = s\<lparr>hs_queue := filter (conn_fresh now) (hs_queue s)\<rparr>"

definition prune_stale :: "nat \<Rightarrow> tcp_pool \<Rightarrow> tcp_pool" where
  "prune_stale now p =
     (let dropped = asum (\<lambda>s. length (hs_queue s) - length (hs_queue (prune_host now s))) (tp_hosts p) in
      p\<lparr>tp_hosts := filter (\<lambda>(_, s). \<not> hs_is_empty s) (map (\<lambda>(k, s). (k, prune_host now s)) (tp_hosts p)),
        tp_total_actual := tp_total_actual p - dropped\<rparr>)"

text \<open>The loop of \<^verbatim>\<open>try_take\<close>: the connection taken, the rest of the queue, and how many were dropped.\<close>

fun pop_fresh :: "nat \<Rightarrow> pooled_conn list \<Rightarrow> pooled_conn option \<times> pooled_conn list \<times> nat" where
  "pop_fresh now [] = (None, [], 0)"
| "pop_fresh now (c # q) =
     (if conn_fresh now c then (Some c, q, 0)
      else (case pop_fresh now q of (t, r, d) \<Rightarrow> (t, r, Suc d)))"

definition remove_if_empty :: "endpoint \<Rightarrow> tcp_pool \<Rightarrow> tcp_pool" where
  "remove_if_empty key p =
     (case map_of (tp_hosts p) key of
        Some s \<Rightarrow> if hs_is_empty s then p\<lparr>tp_hosts := AList.delete key (tp_hosts p)\<rparr> else p
      | None \<Rightarrow> p)"

definition try_take :: "nat \<Rightarrow> endpoint \<Rightarrow> tcp_pool \<Rightarrow> tcp_pool \<times> pooled_conn option" where
  "try_take now key p =
     (case map_of (tp_hosts p) key of
        None \<Rightarrow> (p, None)
      | Some s \<Rightarrow>
          (case pop_fresh now (hs_queue s) of (taken, rest, dropped) \<Rightarrow>
             (remove_if_empty key
                (p\<lparr>tp_hosts := AList.update key (s\<lparr>hs_queue := rest\<rparr>) (tp_hosts p),
                   tp_total_actual := tp_total_actual p - (dropped + (if taken \<noteq> None then 1 else 0))\<rparr>),
              taken)))"

definition entry_or_default :: "endpoint \<Rightarrow> tcp_pool \<Rightarrow> host_state" where
  "entry_or_default key p = (case map_of (tp_hosts p) key of Some s \<Rightarrow> s | None \<Rightarrow> default_host)"

definition pool_full :: "tcp_pool \<Rightarrow> bool" where
  "pool_full p \<longleftrightarrow> TCP_POOL_TOTAL_MAX \<le> tp_total_actual p + tp_total_pending p"

definition try_reserve :: "nat \<Rightarrow> endpoint \<Rightarrow> tcp_pool \<Rightarrow> tcp_pool \<times> bool" where
  "try_reserve now key p0 =
     (let p = (if pool_full p0 then prune_stale now p0 else p0) in
      if pool_full p then (p, False)
      else
        (let s = entry_or_default key p in
         if TCP_POOL_PER_HOST_MAX \<le> length (hs_queue s) + hs_pending s
         then (p\<lparr>tp_hosts := AList.update key s (tp_hosts p)\<rparr>, False)
         else (p\<lparr>tp_hosts := AList.update key (s\<lparr>hs_pending := hs_pending s + 1\<rparr>) (tp_hosts p),
                 tp_total_pending := tp_total_pending p + 1\<rparr>, True)))"

definition commit_reserve :: "nat \<Rightarrow> endpoint \<Rightarrow> nat \<Rightarrow> tcp_pool \<Rightarrow> tcp_pool" where
  "commit_reserve now key stream p =
     (let s = entry_or_default key p in
      p\<lparr>tp_hosts := AList.update key
           \<lparr>hs_queue = hs_queue s @ [\<lparr>pc_stream = stream, pc_opened_at = now\<rparr>], hs_pending = hs_pending s - 1\<rparr> (tp_hosts p),
        tp_total_actual := tp_total_actual p + 1,
        tp_total_pending := tp_total_pending p - 1\<rparr>)"

definition cancel_reserve :: "endpoint \<Rightarrow> tcp_pool \<Rightarrow> tcp_pool" where
  "cancel_reserve key p =
     remove_if_empty key
       (p\<lparr>tp_hosts := (case map_of (tp_hosts p) key of
                         Some s \<Rightarrow> AList.update key (s\<lparr>hs_pending := hs_pending s - 1\<rparr>) (tp_hosts p)
                       | None \<Rightarrow> tp_hosts p),
          tp_total_pending := tp_total_pending p - 1\<rparr>)"

section \<open>Hot hosts\<close>

definition hot_prune :: "nat \<Rightarrow> hot_hosts \<Rightarrow> hot_hosts" where
  "hot_prune cutoff seen =
     filter (\<lambda>(_, q). q \<noteq> []) (map (\<lambda>(k, q). (k, dropWhile (\<lambda>t. t < cutoff) q)) seen)"

fun trim_front :: "nat \<Rightarrow> 'a list \<Rightarrow> 'a list" where
  "trim_front n [] = []"
| "trim_front n (x # xs) = (if n \<le> length (x # xs) then trim_front n xs else x # xs)"

definition record_and_check :: "nat \<Rightarrow> nat \<Rightarrow> endpoint \<Rightarrow> hot_hosts \<Rightarrow> hot_hosts \<times> bool" where
  "record_and_check now i key seen0 =
     (let cutoff = (if HOT_HOST_WINDOW \<le> now then now - HOT_HOST_WINDOW else now);
          full = (\<lambda>m. map_of m key = None \<and> HOT_HOSTS_MAX_KEYS \<le> length m);
          seen = (if full seen0 then (let m = hot_prune cutoff seen0 in if full m then drop_one i m else m) else seen0);
          q0 = (case map_of seen key of Some q \<Rightarrow> q | None \<Rightarrow> []);
          q = trim_front HOT_HOST_MIN_COUNT (dropWhile (\<lambda>t. t < cutoff) q0) @ [now]
      in (AList.update key q seen, HOT_HOST_MIN_COUNT \<le> length q))"

section \<open>Opening connections\<close>

text \<open>What the network does during one \<^verbatim>\<open>connect_fresh\<close>: the answer of the resolver, of each address,
  and where the time budget runs out, if it does.\<close>

datatype budget = Enough | OutAtDns | OutAtConnect

record dial_env =
  dl_now :: nat
  dl_victim :: nat
  dl_lookup :: "dial_error + sock_addr list"
  dl_connect :: "sock_addr \<Rightarrow> dial_error + nat"
  dl_budget :: budget

fun connect_each :: "(sock_addr \<Rightarrow> dial_error + nat) \<Rightarrow> dial_error option \<Rightarrow> sock_addr list \<Rightarrow> dial_error + nat" where
  "connect_each f last_err [] = Inl (case last_err of Some e \<Rightarrow> e | None \<Rightarrow> AddrNotAvailable)"
| "connect_each f last_err (a # as) = (case f a of Inr s \<Rightarrow> Inr s | Inl e \<Rightarrow> connect_each f (Some e) as)"

definition connect_attempt :: "dial_env \<Rightarrow> endpoint \<Rightarrow> dns_cache \<Rightarrow> dns_cache \<times> (dial_error + nat)" where
  "connect_attempt env key cache =
     (if dl_budget env = OutAtDns then (cache, Inl DialTimedOut)
      else (case dns_resolve (dl_now env) (dl_victim env) (dl_lookup env) key cache of
              (cache', Inl e) \<Rightarrow> (cache', Inl e)
            | (cache', Inr addrs) \<Rightarrow>
                (cache', if dl_budget env = OutAtConnect then Inl DialTimedOut
                         else connect_each (dl_connect env) None addrs)))"

definition connect_fresh :: "dial_env \<Rightarrow> endpoint \<Rightarrow> dns_cache \<Rightarrow> dns_cache \<times> (dial_error + nat)" where
  "connect_fresh env key cache =
     (case connect_attempt env key cache of
        (cache', Inl e) \<Rightarrow> (dns_evict key cache', Inl e)
      | (cache', Inr s) \<Rightarrow> (cache', Inr s))"

text \<open>The loop of \<^verbatim>\<open>open_tcp\<close>; \<open>clock\<close> gives the time of each turn, \<open>alive\<close> is \<^verbatim>\<open>is_likely_alive\<close>.\<close>

datatype try_read = ReadBytes nat | WouldBlock | ReadError

definition is_likely_alive :: "try_read \<Rightarrow> bool" where
  "is_likely_alive r = (case r of ReadBytes n \<Rightarrow> False | WouldBlock \<Rightarrow> True | ReadError \<Rightarrow> False)"

partial_function (option) take_alive :: "(nat \<Rightarrow> nat) \<Rightarrow> (nat \<Rightarrow> try_read) \<Rightarrow> nat \<Rightarrow> endpoint \<Rightarrow> tcp_pool
    \<Rightarrow> (tcp_pool \<times> nat option) option" where
  "take_alive clock probe n key p =
     (case try_take (clock n) key p of
        (p', None) \<Rightarrow> Some (p', None)
      | (p', Some c) \<Rightarrow>
          if is_likely_alive (probe (pc_stream c)) then Some (p', Some (pc_stream c))
          else take_alive clock probe (Suc n) key p')"

definition open_tcp :: "(nat \<Rightarrow> nat) \<Rightarrow> (nat \<Rightarrow> try_read) \<Rightarrow> dial_env \<Rightarrow> endpoint \<Rightarrow> prewarm_state
    \<Rightarrow> (prewarm_state \<times> (dial_error + nat)) option" where
  "open_tcp clock probe env key st =
     map_option (\<lambda>(p, taken).
       case taken of
         Some s \<Rightarrow> (st\<lparr>pw_pool := p\<rparr>, Inr s)
       | None \<Rightarrow> (case connect_fresh env key (pw_dns st) of
                    (dns, r) \<Rightarrow> (st\<lparr>pw_pool := p, pw_dns := dns\<rparr>, r)))
     (take_alive clock probe 0 key (pw_pool st))"

text \<open>The task of \<^verbatim>\<open>maybe_prewarm\<close> up to its reservation, and from the outcome of its connection on.\<close>

definition prewarm_begin :: "nat \<Rightarrow> nat \<Rightarrow> endpoint \<Rightarrow> prewarm_state \<Rightarrow> prewarm_state \<times> bool" where
  "prewarm_begin now i key st =
     (if \<not> pw_enabled st then (st, False)
      else (case record_and_check now i key (pw_hot st) of
              (hot, False) \<Rightarrow> (st\<lparr>pw_hot := hot\<rparr>, False)
            | (hot, True) \<Rightarrow>
                (case try_reserve now key (pw_pool st) of
                   (p, reserved) \<Rightarrow> (st\<lparr>pw_hot := hot, pw_pool := p\<rparr>, reserved))))"

definition prewarm_finish :: "nat \<Rightarrow> dial_env \<Rightarrow> endpoint \<Rightarrow> prewarm_state \<Rightarrow> prewarm_state" where
  "prewarm_finish now env key st =
     (case connect_fresh env key (pw_dns st) of
        (dns, Inr s) \<Rightarrow> st\<lparr>pw_dns := dns, pw_pool := commit_reserve now key s (pw_pool st)\<rparr>
      | (dns, Inl e) \<Rightarrow> st\<lparr>pw_dns := dns, pw_pool := cancel_reserve key (pw_pool st)\<rparr>)"

definition with_prewarm_enabled :: "bool \<Rightarrow> prewarm_state" where
  "with_prewarm_enabled enabled = \<lparr>pw_dns = [], pw_pool = new_pool, pw_hot = [], pw_enabled = enabled\<rparr>"

definition prewarm_enabled_from_env :: "string option \<Rightarrow> bool" where
  "prewarm_enabled_from_env v \<longleftrightarrow>
     v \<notin> Some ` {''1'', ''true'', ''TRUE'', ''yes'', ''YES''}"

section \<open>Openers and prewarms interleaved\<close>

text \<open>The node at run time: the shared state, the prewarms between reservation and outcome, and two
  logs, of the connections put into the pool and of those taken out with the time of the taking.\<close>

record pool_run =
  pr_state :: prewarm_state
  pr_inflight :: "endpoint list"
  pr_committed :: "(endpoint \<times> pooled_conn) list"
  pr_taken :: "(nat \<times> endpoint \<times> pooled_conn) list"

inductive pool_step :: "pool_run \<Rightarrow> pool_run \<Rightarrow> bool" where
  take_one: "try_take now key (pw_pool (pr_state r)) = (p, t) \<Longrightarrow>
    pool_step r (r\<lparr>pr_state := (pr_state r)\<lparr>pw_pool := p\<rparr>,
      pr_taken := (case t of None \<Rightarrow> [] | Some c \<Rightarrow> [(now, key, c)]) @ pr_taken r\<rparr>)"
| fresh: "pool_step r (r\<lparr>pr_state := (pr_state r)\<lparr>pw_dns := fst (connect_fresh env key (pw_dns (pr_state r)))\<rparr>\<rparr>)"
| warm: "prewarm_begin now i key (pr_state r) = (st, reserved) \<Longrightarrow>
    pool_step r (r\<lparr>pr_state := st, pr_inflight := (if reserved then [key] else []) @ pr_inflight r\<rparr>)"
| finish: "key \<in> set (pr_inflight r) \<Longrightarrow>
    pool_step r (r\<lparr>pr_state := prewarm_finish now env key (pr_state r), pr_inflight := remove1 key (pr_inflight r),
      pr_committed := (case snd (connect_fresh env key (pw_dns (pr_state r))) of
                         Inl e \<Rightarrow> [] | Inr s \<Rightarrow> [(key, \<lparr>pc_stream = s, pc_opened_at = now\<rparr>)]) @ pr_committed r\<rparr>)"

definition pool_start :: "bool \<Rightarrow> pool_run" where
  "pool_start enabled = \<lparr>pr_state = with_prewarm_enabled enabled, pr_inflight = [], pr_committed = [], pr_taken = []\<rparr>"

section \<open>Accounting\<close>

definition qlen :: "host_state \<Rightarrow> nat" where "qlen s = length (hs_queue s)"

text \<open>The counters are the sums over the hosts, no host is empty, and both caps hold.\<close>

definition pool_ok :: "tcp_pool \<Rightarrow> bool" where
  "pool_ok p \<longleftrightarrow>
     distinct (map fst (tp_hosts p)) \<and>
     tp_total_actual p = asum qlen (tp_hosts p) \<and>
     tp_total_pending p = asum hs_pending (tp_hosts p) \<and>
     list_all (\<lambda>(k, s). \<not> hs_is_empty s \<and> qlen s + hs_pending s \<le> TCP_POOL_PER_HOST_MAX) (tp_hosts p) \<and>
     tp_total_actual p + tp_total_pending p \<le> TCP_POOL_TOTAL_MAX"

text \<open>The reservations of a destination are its running prewarms.\<close>

definition pending_of :: "endpoint \<Rightarrow> tcp_pool \<Rightarrow> nat" where
  "pending_of key p = at hs_pending (map_of (tp_hosts p) key)"

text \<open>The pooled connections with their destinations.\<close>

definition tagged :: "endpoint \<Rightarrow> pooled_conn list \<Rightarrow> (endpoint \<times> pooled_conn) multiset" where
  "tagged k q = mset (map (Pair k) q)"

definition pooled :: "(endpoint \<times> host_state) list \<Rightarrow> (endpoint \<times> pooled_conn) multiset" where
  "pooled hosts = (\<Sum>(k, s)\<leftarrow>hosts. tagged k (hs_queue s))"

definition queue_of :: "endpoint \<Rightarrow> (endpoint \<times> host_state) list \<Rightarrow> pooled_conn list" where
  "queue_of key hosts = (case map_of hosts key of None \<Rightarrow> [] | Some s \<Rightarrow> hs_queue s)"

lemma pop_fresh_split:
  "pop_fresh now q = (t, r, d) \<Longrightarrow>
     (\<exists>pre. q = pre @ (case t of None \<Rightarrow> [] | Some c \<Rightarrow> [c]) @ r \<and> length pre = d \<and> (\<forall>c\<in>set pre. \<not> conn_fresh now c))
     \<and> (case t of None \<Rightarrow> r = [] | Some c \<Rightarrow> conn_fresh now c)"
proof (induction q arbitrary: t r d)
  case (Cons c q)
  show ?case
  proof (cases "conn_fresh now c")
    case True
    then show ?thesis using Cons.prems by auto
  next
    case False
    obtain t' r' d' where q: "pop_fresh now q = (t', r', d')" by (cases "pop_fresh now q")
    from Cons.IH [OF q] obtain pre where
      "q = pre @ (case t' of None \<Rightarrow> [] | Some c \<Rightarrow> [c]) @ r'" "length pre = d'" "\<forall>c\<in>set pre. \<not> conn_fresh now c"
      "case t' of None \<Rightarrow> r' = [] | Some c \<Rightarrow> conn_fresh now c" by blast
    with False q Cons.prems show ?thesis by (auto intro!: exI [of _ "c # pre"])
  qed
qed simp

lemma asum_filter_zero: "(\<And>k v. \<not> P (k, v) \<Longrightarrow> f v = 0) \<Longrightarrow> asum f (filter P al) = asum f al"
  by (induction al) auto

lemma asum_map: "asum f (map (\<lambda>(k, s). (k, g s)) al) = asum (f \<circ> g) al"
  by (induction al) auto

lemma asum_diff: "(\<And>v. g v \<le> f v) \<Longrightarrow> asum f al = asum g al + asum (\<lambda>v. f v - g v) al"
proof (induction al)
  case (Cons a al)
  from Cons.prems [of "snd a"] Cons.IH [OF Cons.prems] show ?case by (cases a) simp
qed simp

lemma distinct_filter_map: "distinct (map fst al) \<Longrightarrow>
    distinct (map fst (filter P (map (\<lambda>(k, s). (k, g s)) al)))"
  by (rule distinct_map_filter) (simp add: comp_def case_prod_unfold)

lemma list_all_map_of: "list_all P al \<Longrightarrow> map_of al k = Some v \<Longrightarrow> P (k, v)"
  by (auto simp: list_all_iff dest: map_of_SomeD)

lemma list_all_update: "list_all P al \<Longrightarrow> P (k, v) \<Longrightarrow> list_all P (AList.update k v al)"
  by (induction al) auto

lemma list_all_delete: "list_all P al \<Longrightarrow> list_all P (AList.delete k al)"
  by (induction al) auto

text \<open>Replacing the entry of a host, with the counters moved along, keeps the accounting.\<close>

lemma set_host_ok:
  assumes "pool_ok p" "\<not> hs_is_empty s'" "qlen s' + hs_pending s' \<le> TCP_POOL_PER_HOST_MAX"
    "a + at qlen (map_of (tp_hosts p) key) = tp_total_actual p + qlen s'"
    "b + at hs_pending (map_of (tp_hosts p) key) = tp_total_pending p + hs_pending s'"
    "a + b \<le> TCP_POOL_TOTAL_MAX"
  shows "pool_ok (p\<lparr>tp_hosts := AList.update key s' (tp_hosts p), tp_total_actual := a, tp_total_pending := b\<rparr>)"
  using assms asum_ge [of qlen "tp_hosts p" key] asum_ge [of hs_pending "tp_hosts p" key]
  by (auto simp: pool_ok_def asum_update list_all_update)

lemma drop_host_ok:
  assumes "pool_ok p"
    "a + at qlen (map_of (tp_hosts p) key) = tp_total_actual p" "b + at hs_pending (map_of (tp_hosts p) key) = tp_total_pending p"
  shows "pool_ok (p\<lparr>tp_hosts := AList.delete key (tp_hosts p), tp_total_actual := a, tp_total_pending := b\<rparr>)"
  using assms by (auto simp: pool_ok_def asum_delete list_all_delete)

lemma prune_stale_ok:
  assumes "pool_ok p"
  shows "pool_ok (prune_stale now p)"
proof -
  let ?g = "prune_host now"
  have "asum qlen (tp_hosts p) = asum (qlen \<circ> ?g) (tp_hosts p) + asum (\<lambda>s. qlen s - qlen (?g s)) (tp_hosts p)"
    using asum_diff [of "qlen \<circ> ?g" qlen "tp_hosts p"] by (simp add: qlen_def prune_host_def)
  moreover have "hs_pending \<circ> ?g = hs_pending" by (auto simp: prune_host_def)
  moreover have "list_all (\<lambda>(k, s). \<not> hs_is_empty s \<and> qlen s + hs_pending s \<le> TCP_POOL_PER_HOST_MAX)
      (filter (\<lambda>(_, s). \<not> hs_is_empty s) (map (\<lambda>(k, s). (k, ?g s)) (tp_hosts p)))"
    using assms by (fastforce simp: pool_ok_def list_all_iff qlen_def prune_host_def intro: order.trans [OF add_right_mono [OF length_filter_le]])
  moreover have "asum f (filter (\<lambda>(_, s). \<not> hs_is_empty s) (map (\<lambda>(k, s). (k, ?g s)) (tp_hosts p))) = asum (f \<circ> ?g) (tp_hosts p)"
    if "f = qlen \<or> f = hs_pending" for f
    using that by (subst asum_filter_zero) (auto simp: hs_is_empty_def qlen_def asum_map)
  ultimately show ?thesis using assms
    by (simp add: pool_ok_def prune_stale_def Let_def qlen_def [symmetric] distinct_filter_map)
qed

lemma try_take_ok:
  assumes "pool_ok p" "try_take now key p = (p', t)"
  shows "pool_ok p'"
proof (cases "map_of (tp_hosts p) key")
  case (Some s)
  obtain t0 r d where pf: "pop_fresh now (hs_queue s) = (t0, r, d)" by (cases "pop_fresh now (hs_queue s)")
  have len: "qlen s = d + (if t0 \<noteq> None then 1 else 0) + length r"
    using pop_fresh_split [OF pf] by (auto simp: qlen_def split: option.splits)
  have ge: "qlen s \<le> tp_total_actual p" and pd: "hs_pending s \<le> tp_total_pending p"
    using assms(1) asum_ge [of qlen "tp_hosts p" key] asum_ge [of hs_pending "tp_hosts p" key] Some by (auto simp: pool_ok_def)
  have host: "qlen s + hs_pending s \<le> TCP_POOL_PER_HOST_MAX"
    using assms(1) Some list_all_map_of by (fastforce simp: pool_ok_def)
  let ?s = "s\<lparr>hs_queue := r\<rparr>" and ?a = "tp_total_actual p - (d + (if t0 \<noteq> None then 1 else 0))"
  show ?thesis
  proof (cases "hs_is_empty ?s")
    case True
    then have "p' = p\<lparr>tp_hosts := AList.delete key (tp_hosts p), tp_total_actual := ?a, tp_total_pending := tp_total_pending p\<rparr>"
      using assms(2) Some pf by (auto simp: try_take_def remove_if_empty_def update_conv' delete_update_same)
    moreover have "?a + qlen s = tp_total_actual p" "hs_pending s = 0"
      using True len ge by (auto simp: hs_is_empty_def)
    ultimately show ?thesis using drop_host_ok [OF assms(1), of ?a key "tp_total_pending p"] Some by simp
  next
    case False
    then have "p' = p\<lparr>tp_hosts := AList.update key ?s (tp_hosts p), tp_total_actual := ?a, tp_total_pending := tp_total_pending p\<rparr>"
      using assms(2) Some pf by (auto simp: try_take_def remove_if_empty_def update_conv')
    moreover have "?a + qlen s = tp_total_actual p + qlen ?s" using len ge by (auto simp: qlen_def)
    moreover have "?a + tp_total_pending p \<le> TCP_POOL_TOTAL_MAX" using assms(1) by (auto simp: pool_ok_def)
    ultimately show ?thesis
      using set_host_ok [OF assms(1) False, of ?a key "tp_total_pending p"] Some host len by (simp add: qlen_def)
  qed
qed (use assms in \<open>auto simp: try_take_def\<close>)

lemma reserve_ok:
  assumes "pool_ok p" "try_reserve now key p = (p', b)"
  shows "pool_ok p'"
proof -
  define q where "q = (if pool_full p then prune_stale now p else p)"
  let ?s = "entry_or_default key q"
  have ok: "pool_ok q" using assms(1) prune_stale_ok by (auto simp: q_def)
  have at: "at f (map_of (tp_hosts q) key) = f ?s" if "f default_host = 0" for f
    using that by (auto simp: entry_or_default_def split: option.splits)
  have at2: "at qlen (map_of (tp_hosts q) key) = qlen ?s" "at hs_pending (map_of (tp_hosts q) key) = hs_pending ?s"
    by (rule at, simp add: default_host_def qlen_def)+
  consider "p' = q" | "\<not> pool_full q" "TCP_POOL_PER_HOST_MAX \<le> qlen ?s + hs_pending ?s"
      "p' = q\<lparr>tp_hosts := AList.update key ?s (tp_hosts q)\<rparr>"
    | "\<not> pool_full q" "qlen ?s + hs_pending ?s < TCP_POOL_PER_HOST_MAX"
      "p' = q\<lparr>tp_hosts := AList.update key (?s\<lparr>hs_pending := hs_pending ?s + 1\<rparr>) (tp_hosts q),
        tp_total_pending := tp_total_pending q + 1\<rparr>"
    using assms(2) by (auto simp: try_reserve_def Let_def qlen_def not_le q_def split: if_splits)
  then show ?thesis
  proof cases
    case 2
    have full: "\<not> hs_is_empty ?s" using 2(2) by (auto simp: hs_is_empty_def TCP_POOL_PER_HOST_MAX_def qlen_def)
    then have "map_of (tp_hosts q) key = Some ?s"
      by (auto simp: entry_or_default_def default_host_def hs_is_empty_def split: option.splits)
    then have "qlen ?s + hs_pending ?s \<le> TCP_POOL_PER_HOST_MAX"
      using ok list_all_map_of by (fastforce simp: pool_ok_def)
    moreover have "tp_total_actual q + tp_total_pending q \<le> TCP_POOL_TOTAL_MAX" using ok by (simp add: pool_ok_def)
    ultimately show ?thesis
      using set_host_ok [OF ok full, where key = key and a = "tp_total_actual q" and b = "tp_total_pending q"] at2 2(3) by simp
  next
    case 3
    show ?thesis
      using set_host_ok [OF ok, where key = key and a = "tp_total_actual q" and b = "tp_total_pending q + 1"
          and s' = "?s\<lparr>hs_pending := hs_pending ?s + 1\<rparr>"] at2 3
      by (simp add: hs_is_empty_def pool_full_def qlen_def)
  qed (use ok in simp)
qed

lemma pending_entry: "0 < pending_of key p \<Longrightarrow> \<exists>s. map_of (tp_hosts p) key = Some s \<and> hs_pending s = pending_of key p"
  by (auto simp: pending_of_def at_def split: option.splits)

lemma pending_totals: "pool_ok p \<Longrightarrow> pending_of key p \<le> tp_total_pending p"
  using asum_ge [of hs_pending "tp_hosts p" key] by (auto simp: pool_ok_def pending_of_def)

lemma commit_ok:
  assumes "pool_ok p" "0 < pending_of key p"
  shows "pool_ok (commit_reserve now key stream p)"
proof -
  obtain s where s: "map_of (tp_hosts p) key = Some s" "hs_pending s = pending_of key p"
    using pending_entry [OF assms(2)] by blast
  have host: "qlen s + hs_pending s \<le> TCP_POOL_PER_HOST_MAX"
    using assms(1) s(1) list_all_map_of by (fastforce simp: pool_ok_def)
  have cap: "tp_total_actual p + tp_total_pending p \<le> TCP_POOL_TOTAL_MAX" using assms(1) by (simp add: pool_ok_def)
  show ?thesis
    using set_host_ok [OF assms(1), where key = key and a = "tp_total_actual p + 1" and b = "tp_total_pending p - 1"
        and s' = "\<lparr>hs_queue = hs_queue s @ [\<lparr>pc_stream = stream, pc_opened_at = now\<rparr>], hs_pending = hs_pending s - 1\<rparr>"]
      s host cap assms(2) pending_totals [OF assms(1), of key]
    by (simp add: commit_reserve_def entry_or_default_def hs_is_empty_def qlen_def Let_def)
qed

lemma cancel_ok:
  assumes "pool_ok p" "0 < pending_of key p"
  shows "pool_ok (cancel_reserve key p)"
proof -
  obtain s where s: "map_of (tp_hosts p) key = Some s" "hs_pending s = pending_of key p"
    using pending_entry [OF assms(2)] by blast
  have host: "qlen s + hs_pending s \<le> TCP_POOL_PER_HOST_MAX"
    using assms(1) s(1) list_all_map_of by (fastforce simp: pool_ok_def)
  have cap: "tp_total_actual p + tp_total_pending p \<le> TCP_POOL_TOTAL_MAX" using assms(1) by (simp add: pool_ok_def)
  let ?s = "s\<lparr>hs_pending := hs_pending s - 1\<rparr>"
  show ?thesis
  proof (cases "hs_is_empty ?s")
    case True
    then have "qlen s = 0" "hs_pending s = 1" using assms(2) s(2) by (auto simp: hs_is_empty_def qlen_def)
    with True show ?thesis
      using drop_host_ok [OF assms(1), where key = key and a = "tp_total_actual p" and b = "tp_total_pending p - 1"]
        s assms(2) pending_totals [OF assms(1), of key]
      by (auto simp: cancel_reserve_def remove_if_empty_def update_conv' delete_update_same pool_ok_def)
  next
    case False
    with s host cap assms(2) show ?thesis
      using set_host_ok [OF assms(1) False, where key = key and a = "tp_total_actual p" and b = "tp_total_pending p - 1"]
        pending_totals [OF assms(1), of key]
      by (simp add: cancel_reserve_def remove_if_empty_def update_conv' qlen_def)
  qed
qed

section \<open>What each operation does to the reservations and the pooled connections\<close>

lemma pooled_simps [simp]: "pooled [] = {#}" "pooled ((k, s) # al) = tagged k (hs_queue s) + pooled al"
  by (simp_all add: pooled_def)

lemma queue_of_notin: "k \<notin> fst ` set al \<Longrightarrow> queue_of k al = []"
  by (simp add: queue_of_def asum_notin)

lemma tagged_simps [simp]: "tagged k [] = {#}" "tagged k (c # q) = add_mset (k, c) (tagged k q)"
  "tagged k (q @ q') = tagged k q + tagged k q'"
  by (simp_all add: tagged_def)

lemma pooled_update:
  "distinct (map fst al) \<Longrightarrow> pooled (AList.update k s al) + tagged k (queue_of k al) = pooled al + tagged k (hs_queue s)"
proof (induction al)
  case (Cons a al)
  then show ?case by (cases a) (auto simp: queue_of_notin queue_of_def split: if_splits)
qed (simp add: queue_of_def)

lemma pooled_delete:
  "distinct (map fst al) \<Longrightarrow> pooled (AList.delete k al) + tagged k (queue_of k al) = pooled al"
proof (induction al)
  case (Cons a al)
  then show ?case by (cases a) (auto simp: queue_of_notin queue_of_def split: if_splits)
qed (simp add: queue_of_def)

lemma pooled_remove_if_empty:
  "distinct (map fst (tp_hosts p)) \<Longrightarrow> pooled (tp_hosts (remove_if_empty key p)) = pooled (tp_hosts p)"
  using pooled_delete [of "tp_hosts p" key]
  by (cases "map_of (tp_hosts p) key") (auto simp: remove_if_empty_def queue_of_def hs_is_empty_def)

lemma pending_remove_if_empty [simp]: "pending_of k (remove_if_empty key p) = pending_of k p"
  by (auto simp: remove_if_empty_def pending_of_def hs_is_empty_def delete_conv' split: option.splits)

lemma at_remove_if_empty [simp]:
  "at hs_pending (map_of (tp_hosts (remove_if_empty key p)) k) = at hs_pending (map_of (tp_hosts p) k)"
  using pending_remove_if_empty [of k key p] by (simp only: pending_of_def)

lemma pending_update [simp]:
  "pending_of k (p\<lparr>tp_hosts := AList.update key s al\<rparr>) = (if k = key then hs_pending s else at hs_pending (map_of al k))"
  by (simp add: pending_of_def update_conv')

lemma pooled_update_le:
  "distinct (map fst al) \<Longrightarrow> tagged k (hs_queue s) + x \<subseteq># tagged k (queue_of k al) \<Longrightarrow>
     pooled (AList.update k s al) + x \<subseteq># pooled al"
proof -
  assume d: "distinct (map fst al)" and le: "tagged k (hs_queue s) + x \<subseteq># tagged k (queue_of k al)"
  obtain y where y: "tagged k (queue_of k al) = tagged k (hs_queue s) + x + y"
    using le by (auto simp: mset_subset_eq_exists_conv)
  have "pooled (AList.update k s al) + x + y = pooled al"
    using pooled_update [OF d, of k s] by (simp add: y ac_simps)
  then show ?thesis by (metis mset_subset_eq_add_left)
qed

lemma pooled_prune: "pooled (filter P (map (\<lambda>(k, s). (k, prune_host now s)) al)) \<subseteq># pooled al"
proof (induction al)
  case (Cons a al)
  obtain k s where a: "a = (k, s)" by (cases a)
  have "tagged k (hs_queue (prune_host now s)) \<subseteq># tagged k (hs_queue s)"
    by (simp add: tagged_def prune_host_def image_mset_subseteq_mono multiset_filter_subset)
  with Cons.IH show ?case
    by (auto simp: a intro: subset_mset.add_mono subset_mset.order_trans [OF _ mset_subset_eq_add_right])
qed simp

lemma pending_prune: "pool_ok p \<Longrightarrow> pending_of k (prune_stale now p) = pending_of k p"
proof -
  have *: "distinct (map fst al) \<Longrightarrow>
      at hs_pending (map_of (filter (\<lambda>(_, s). \<not> hs_is_empty s) (map (\<lambda>(k, s). (k, prune_host now s)) al)) k)
      = at hs_pending (map_of al k)" for al
  proof (induction al)
    case (Cons a al)
    obtain k' s where a: "a = (k', s)" by (cases a)
    show ?case
    proof (cases "k = k'")
      case True
      then have "map_of (filter P (map (\<lambda>(k, s). (k, prune_host now s)) al)) k = None" for P
        using Cons.prems by (force simp: a map_of_eq_None_iff)
      then show ?thesis using True by (auto simp: a hs_is_empty_def prune_host_def)
    qed (use Cons in \<open>simp add: a\<close>)
  qed simp
  show "pool_ok p \<Longrightarrow> ?thesis" by (simp add: pending_of_def prune_stale_def Let_def * pool_ok_def)
qed

text \<open>The effects of the operations, for a pool whose accounting is right.\<close>

lemma try_take_effect:
  assumes "pool_ok p" "try_take now key p = (p', t)"
  shows "pending_of k p' = pending_of k p"
    and "pooled (tp_hosts p') + (case t of None \<Rightarrow> {#} | Some c \<Rightarrow> {#(key, c)#}) \<subseteq># pooled (tp_hosts p)"
    and "t = Some c \<Longrightarrow> conn_fresh now c"
proof -
  have "pending_of k p' = pending_of k p \<and>
      pooled (tp_hosts p') + (case t of None \<Rightarrow> {#} | Some c \<Rightarrow> {#(key, c)#}) \<subseteq># pooled (tp_hosts p) \<and>
      (t = Some c \<longrightarrow> conn_fresh now c)"
  proof (cases "map_of (tp_hosts p) key")
    case (Some s)
    obtain t0 r d where pf: "pop_fresh now (hs_queue s) = (t0, r, d)" by (cases "pop_fresh now (hs_queue s)")
    from pop_fresh_split [OF pf] obtain pre where q: "hs_queue s = pre @ (case t0 of None \<Rightarrow> [] | Some c \<Rightarrow> [c]) @ r"
      and fr: "case t0 of None \<Rightarrow> r = [] | Some c \<Rightarrow> conn_fresh now c" by blast
    have d: "distinct (map fst (tp_hosts p))" using assms(1) by (simp add: pool_ok_def)
    have "tagged key (hs_queue (s\<lparr>hs_queue := r\<rparr>)) + (case t0 of None \<Rightarrow> {#} | Some c \<Rightarrow> {#(key, c)#})
        \<subseteq># tagged key (queue_of key (tp_hosts p))"
      by (cases t0) (auto simp: queue_of_def Some q)
    from pooled_update_le [OF d this] show ?thesis
      using assms(2) Some pf fr d
      by (auto simp: try_take_def pooled_remove_if_empty pending_of_def update_conv' split: if_splits)
  qed (use assms in \<open>auto simp: try_take_def\<close>)
  then show "pending_of k p' = pending_of k p"
    "pooled (tp_hosts p') + (case t of None \<Rightarrow> {#} | Some c \<Rightarrow> {#(key, c)#}) \<subseteq># pooled (tp_hosts p)"
    "t = Some c \<Longrightarrow> conn_fresh now c" by blast+
qed

lemma reserve_effect:
  assumes "pool_ok p" "try_reserve now key p = (p', b)"
  shows "pending_of k p' = pending_of k p + (if b \<and> k = key then 1 else 0)"
    and "pooled (tp_hosts p') \<subseteq># pooled (tp_hosts p)"
proof -
  define q where "q = (if pool_full p then prune_stale now p else p)"
  let ?s = "entry_or_default key q"
  have ok: "pool_ok q" and pend: "pending_of k q = pending_of k p" for k
    using assms(1) prune_stale_ok pending_prune by (auto simp: q_def)
  have le: "pooled (tp_hosts q) \<subseteq># pooled (tp_hosts p)"
    using pooled_prune by (auto simp: q_def prune_stale_def Let_def)
  have hs: "hs_pending ?s = pending_of key q" "hs_queue ?s = queue_of key (tp_hosts q)"
    by (auto simp: entry_or_default_def default_host_def pending_of_def queue_of_def split: option.splits)
  have d: "distinct (map fst (tp_hosts q))" using ok by (simp add: pool_ok_def)
  have same: "pooled (AList.update key s (tp_hosts q)) = pooled (tp_hosts q)" if "hs_queue s = hs_queue ?s" for s
    using pooled_update [OF d, of key s] that hs(2) by simp
  show "pending_of k p' = pending_of k p + (if b \<and> k = key then 1 else 0)"
    using assms(2) hs pend [of k] pend [of key]
    by (auto simp: try_reserve_def q_def [symmetric] Let_def pending_of_def update_conv' split: if_splits)
  show "pooled (tp_hosts p') \<subseteq># pooled (tp_hosts p)"
    using assms(2) le by (auto simp: try_reserve_def q_def [symmetric] Let_def same split: if_splits)
qed

lemma commit_effect:
  assumes "pool_ok p" "0 < pending_of key p"
  shows "pending_of k (commit_reserve now key stream p) = pending_of k p - (if k = key then 1 else 0)"
    and "pooled (tp_hosts (commit_reserve now key stream p))
      = add_mset (key, \<lparr>pc_stream = stream, pc_opened_at = now\<rparr>) (pooled (tp_hosts p))"
proof -
  obtain s where s: "map_of (tp_hosts p) key = Some s" "hs_pending s = pending_of key p"
    using pending_entry [OF assms(2)] by blast
  show "pending_of k (commit_reserve now key stream p) = pending_of k p - (if k = key then 1 else 0)"
    using s by (auto simp: commit_reserve_def entry_or_default_def Let_def pending_of_def update_conv')
  show "pooled (tp_hosts (commit_reserve now key stream p))
      = add_mset (key, \<lparr>pc_stream = stream, pc_opened_at = now\<rparr>) (pooled (tp_hosts p))"
    using pooled_update [of "tp_hosts p" key
        "\<lparr>hs_queue = hs_queue s @ [\<lparr>pc_stream = stream, pc_opened_at = now\<rparr>], hs_pending = hs_pending s - 1\<rparr>"] s assms(1)
    by (auto simp: commit_reserve_def entry_or_default_def Let_def queue_of_def pool_ok_def)
qed

lemma cancel_effect:
  assumes "pool_ok p" "0 < pending_of key p"
  shows "pending_of k (cancel_reserve key p) = pending_of k p - (if k = key then 1 else 0)"
    and "pooled (tp_hosts (cancel_reserve key p)) = pooled (tp_hosts p)"
proof -
  obtain s where s: "map_of (tp_hosts p) key = Some s" "hs_pending s = pending_of key p"
    using pending_entry [OF assms(2)] by blast
  show "pending_of k (cancel_reserve key p) = pending_of k p - (if k = key then 1 else 0)"
    using s by (auto simp: cancel_reserve_def pending_of_def update_conv')
  show "pooled (tp_hosts (cancel_reserve key p)) = pooled (tp_hosts p)"
    using pooled_update [of "tp_hosts p" key "s\<lparr>hs_pending := hs_pending s - 1\<rparr>"] s assms(1)
    by (auto simp: cancel_reserve_def queue_of_def pool_ok_def pooled_remove_if_empty)
qed

section \<open>The invariant of the running node\<close>

definition run_ok :: "pool_run \<Rightarrow> bool" where
  "run_ok r \<longleftrightarrow>
     pool_ok (pw_pool (pr_state r)) \<and>
     (\<forall>k. count_list (pr_inflight r) k = pending_of k (pw_pool (pr_state r))) \<and>
     pooled (tp_hosts (pw_pool (pr_state r))) + mset (map snd (pr_taken r)) \<subseteq># mset (pr_committed r) \<and>
     list_all (\<lambda>(now, key, c). conn_fresh now c) (pr_taken r)"

lemma count_remove1: "count_list (remove1 x xs) k = count_list xs k - (if k = x then 1 else 0)"
  by (induction xs) (auto simp: count_list_0_iff)

lemma run_ok_start: "run_ok (pool_start enabled)"
  by (simp add: run_ok_def pool_start_def with_prewarm_enabled_def new_pool_def pool_ok_def pending_of_def)

lemma run_ok_step: "pool_step r r' \<Longrightarrow> run_ok r \<Longrightarrow> run_ok r'"
proof (induction rule: pool_step.induct)
  case (take_one now key r p t)
  let ?p = "pw_pool (pr_state r)"
  have ok: "pool_ok ?p" using take_one.prems by (simp add: run_ok_def)
  have "pooled (tp_hosts p) + (case t of None \<Rightarrow> {#} | Some c \<Rightarrow> {#(key, c)#}) + mset (map snd (pr_taken r)) \<subseteq># mset (pr_committed r)"
    using try_take_effect(2) [OF ok take_one.hyps] take_one.prems
    by (meson run_ok_def subset_mset.add_right_mono subset_mset.order_trans)
  then show ?case using take_one.prems try_take_ok [OF ok take_one.hyps] try_take_effect [OF ok take_one.hyps]
    by (auto simp: run_ok_def split: option.splits)
next
  case (fresh r env key)
  then show ?case by (simp add: run_ok_def)
next
  case (warm now i key r st reserved)
  let ?p = "pw_pool (pr_state r)"
  have ok: "pool_ok ?p" using warm.prems by (simp add: run_ok_def)
  consider "pw_pool st = ?p" "\<not> reserved" | "try_reserve now key ?p = (pw_pool st, reserved)"
    using warm.hyps by (auto simp: prewarm_begin_def split: if_splits prod.splits bool.splits)
  then show ?case
  proof cases
    case 2
    have "pooled (tp_hosts (pw_pool st)) + mset (map snd (pr_taken r)) \<subseteq># mset (pr_committed r)"
      using reserve_effect(2) [OF ok 2] warm.prems
      by (meson run_ok_def subset_mset.add_right_mono subset_mset.order_trans)
    with 2 show ?thesis using warm.prems reserve_ok [OF ok 2] reserve_effect(1) [OF ok 2]
      by (auto simp: run_ok_def)
  qed (use warm.prems in \<open>simp add: run_ok_def\<close>)
next
  case (finish key r env now)
  let ?p = "pw_pool (pr_state r)"
  have ok: "pool_ok ?p" and cnt: "count_list (pr_inflight r) k = pending_of k ?p" for k
    using finish.prems unfolding run_ok_def by blast+
  have pos: "0 < pending_of key ?p" using finish.hyps cnt [of key] by (metis count_list_0_iff gr0I)
  have rem: "count_list (remove1 key (pr_inflight r)) k = count_list (pr_inflight r) k - (if k = key then 1 else 0)" for k
    by (rule count_remove1)
  show ?case
    using finish.prems commit_ok [OF ok pos] commit_effect [OF ok pos] cancel_ok [OF ok pos] cancel_effect [OF ok pos] rem cnt
    by (cases "connect_fresh env key (pw_dns (pr_state r))"; cases "snd (connect_fresh env key (pw_dns (pr_state r)))")
      (auto simp: run_ok_def prewarm_finish_def)
qed

section \<open>The caches stay small\<close>

lemma drop_one_room: "0 < n \<Longrightarrow> length m \<le> n \<Longrightarrow> length (drop_one i m) < n"
  by (cases "m = []") (auto simp: drop_one_def intro: less_le_trans [OF delete_shorter])

lemma cap_pos: "0 < DNS_CACHE_MAX_ENTRIES" "0 < HOT_HOSTS_MAX_KEYS"
  by (simp_all add: DNS_CACHE_MAX_ENTRIES_def HOT_HOSTS_MAX_KEYS_def)

lemma dns_resolve_size:
  assumes "length cache \<le> DNS_CACHE_MAX_ENTRIES"
  shows "length (fst (dns_resolve now i l key cache)) \<le> DNS_CACHE_MAX_ENTRIES"
proof -
  let ?c = "if DNS_CACHE_MAX_ENTRIES \<le> length cache then drop_one i cache else cache"
  have "length ?c < DNS_CACHE_MAX_ENTRIES"
    using assms drop_one_room [OF cap_pos(1) assms, of i] by auto
  then have "length (AList.update key e ?c) \<le> DNS_CACHE_MAX_ENTRIES" for e by (simp add: length_update)
  with assms show ?thesis by (auto simp: dns_resolve_def split: sum.splits option.splits)
qed

lemma connect_fresh_size:
  assumes "length cache \<le> DNS_CACHE_MAX_ENTRIES"
  shows "length (fst (connect_fresh env key cache)) \<le> DNS_CACHE_MAX_ENTRIES"
proof -
  have del: "length (AList.delete key m) \<le> length m" for m :: dns_cache
    by (simp add: AList.delete_eq)
  have "length (fst (connect_attempt env key cache)) \<le> DNS_CACHE_MAX_ENTRIES"
    using assms dns_resolve_size [OF assms, of "dl_now env" "dl_victim env" "dl_lookup env" key]
    by (auto simp: connect_attempt_def split: prod.splits sum.splits)
  then show ?thesis
    by (auto simp: connect_fresh_def dns_evict_def split: prod.splits sum.splits intro: le_trans [OF del])
qed

lemma trim_front_length: "length (trim_front n xs) \<le> n - 1"
  by (induction xs) auto

definition hot_ok :: "hot_hosts \<Rightarrow> bool" where
  "hot_ok m \<longleftrightarrow> length m \<le> HOT_HOSTS_MAX_KEYS \<and> list_all (\<lambda>(k, q). length q \<le> HOT_HOST_MIN_COUNT) m"

lemma list_all_drop_one: "list_all P m \<Longrightarrow> list_all P (drop_one i m)"
  by (auto simp: drop_one_def list_all_delete)

lemma record_and_check_ok:
  assumes "hot_ok m"
  shows "hot_ok (fst (record_and_check now i key m))"
proof -
  define cutoff where "cutoff = (if HOT_HOST_WINDOW \<le> now then now - HOT_HOST_WINDOW else now)"
  let ?full = "\<lambda>m. map_of m key = None \<and> HOT_HOSTS_MAX_KEYS \<le> length m"
  define m1 where "m1 = (if ?full m then (let m' = hot_prune cutoff m in if ?full m' then drop_one i m' else m') else m)"
  have prune: "hot_ok (hot_prune cutoff m)"
    using assms by (auto simp: hot_ok_def hot_prune_def list_all_iff intro: le_trans [OF length_filter_le] le_trans [OF length_dropWhile_le])
  then have m1: "length m1 \<le> HOT_HOSTS_MAX_KEYS" "list_all (\<lambda>(k, q). length q \<le> HOT_HOST_MIN_COUNT) m1"
    using assms drop_one_room [OF cap_pos(2), of "hot_prune cutoff m" i]
    by (auto simp: m1_def hot_ok_def Let_def list_all_drop_one)
  have room: "length m1 < HOT_HOSTS_MAX_KEYS" if "map_of m1 key = None"
    using that prune drop_one_room [OF cap_pos(2), of "hot_prune cutoff m" i] assms
    by (auto simp: m1_def hot_ok_def Let_def split: if_splits)
  let ?q = "trim_front HOT_HOST_MIN_COUNT (dropWhile (\<lambda>t. t < cutoff) (case map_of m1 key of Some q \<Rightarrow> q | None \<Rightarrow> [])) @ [now]"
  have "fst (record_and_check now i key m) = AList.update key ?q m1"
    by (simp add: record_and_check_def Let_def m1_def cutoff_def)
  moreover have "length ?q \<le> HOT_HOST_MIN_COUNT"
    using trim_front_length [of HOT_HOST_MIN_COUNT] by (fastforce simp: HOT_HOST_MIN_COUNT_def)
  ultimately show ?thesis using m1 room
    by (auto simp: hot_ok_def length_update list_all_update map_of_eq_None_iff)
qed

definition caches_ok :: "prewarm_state \<Rightarrow> bool" where
  "caches_ok st \<longleftrightarrow> length (pw_dns st) \<le> DNS_CACHE_MAX_ENTRIES \<and> hot_ok (pw_hot st)"

lemma caches_step: "pool_step r r' \<Longrightarrow> caches_ok (pr_state r) \<Longrightarrow> caches_ok (pr_state r')"
proof (induction rule: pool_step.induct)
  case (warm now i key r st reserved)
  have "hot_ok (pw_hot (pr_state r))" using warm.prems by (simp add: caches_ok_def)
  from record_and_check_ok [OF this, of now i key] show ?case using warm
    by (auto simp: caches_ok_def prewarm_begin_def split: if_splits prod.splits bool.splits)
next
  case (finish key r env now)
  then show ?case using connect_fresh_size [of "pw_dns (pr_state r)" env key]
    by (auto simp: caches_ok_def prewarm_finish_def split: prod.splits sum.splits)
qed (simp_all add: caches_ok_def connect_fresh_size)

lemma caches_start: "caches_ok (pr_state (pool_start enabled))"
  by (simp add: caches_ok_def pool_start_def with_prewarm_enabled_def hot_ok_def)

section \<open>What the accelerator guarantees\<close>

lemma run_ok_reach: "pool_step\<^sup>*\<^sup>* (pool_start enabled) r \<Longrightarrow> run_ok r \<and> caches_ok (pr_state r)"
  by (induction rule: rtranclp_induct) (auto simp: run_ok_start caches_start intro: run_ok_step caches_step)

text \<open>C28: in every interleaving of openers and prewarms the counters of the pool are the sums over its
  hosts, the reservations of each destination are its running prewarms, no destination has more than
  two connections and reservations and all together not more than 64, no host without either is kept,
  and the DNS cache and the table of hot hosts stay within their limits.\<close>

theorem prewarm_pool_bounded:
  assumes "pool_step\<^sup>*\<^sup>* (pool_start enabled) r"
  shows "(case pw_pool (pr_state r) of p \<Rightarrow>
       tp_total_actual p = asum (\<lambda>s. length (hs_queue s)) (tp_hosts p) \<and>
       tp_total_pending p = asum hs_pending (tp_hosts p) \<and>
       (\<forall>k. count_list (pr_inflight r) k = pending_of k p) \<and>
       list_all (\<lambda>(k, s). length (hs_queue s) + hs_pending s \<le> TCP_POOL_PER_HOST_MAX) (tp_hosts p) \<and>
       list_all (\<lambda>(k, s). hs_queue s \<noteq> [] \<or> 0 < hs_pending s) (tp_hosts p) \<and>
       tp_total_actual p + tp_total_pending p \<le> TCP_POOL_TOTAL_MAX \<and>
       length (tp_hosts p) \<le> TCP_POOL_TOTAL_MAX)
     \<and> length (pw_dns (pr_state r)) \<le> DNS_CACHE_MAX_ENTRIES
     \<and> length (pw_hot (pr_state r)) \<le> HOT_HOSTS_MAX_KEYS"
proof -
  let ?p = "pw_pool (pr_state r)"
  have ok: "pool_ok ?p" and cnt: "\<forall>k. count_list (pr_inflight r) k = pending_of k ?p" and c: "caches_ok (pr_state r)"
    using run_ok_reach [OF assms] by (auto simp: run_ok_def)
  have "length (tp_hosts ?p) \<le> asum (\<lambda>s. qlen s + hs_pending s) (tp_hosts ?p)"
    using ok by (intro asum_size) (auto simp: pool_ok_def list_all_iff hs_is_empty_def qlen_def)
  then show ?thesis using ok cnt c
    by (auto simp: pool_ok_def caches_ok_def hot_ok_def asum_add qlen_def [abs_def] list_all_iff hs_is_empty_def)
qed

text \<open>A pooled connection is handed out at most once, only to an opener of the destination it was
  opened for, and only within the lifetime of a pool entry.\<close>

theorem pooled_handed_once:
  assumes "pool_step\<^sup>*\<^sup>* (pool_start enabled) r"
  shows "mset (map snd (pr_taken r)) \<subseteq># mset (pr_committed r)
     \<and> list_all (\<lambda>(now, key, c). now - pc_opened_at c < TCP_POOL_TTL) (pr_taken r)"
  using run_ok_reach [OF assms] by (auto simp: run_ok_def conn_fresh_def [abs_def] dest: subset_mset.order_trans [OF mset_subset_eq_add_right])

text \<open>A run in which a destination becomes hot at its second connection, is prewarmed and then taken.\<close>

definition demo_key :: endpoint where "demo_key = (''h'', 443)"

definition demo_dial :: dial_env where
  "demo_dial = \<lparr>dl_now = 400005, dl_victim = 0, dl_lookup = Inr [(V4 1 1 1 1, 443)], dl_connect = (\<lambda>_. Inr 7), dl_budget = Enough\<rparr>"

definition demo_conn :: pooled_conn where "demo_conn = \<lparr>pc_stream = 7, pc_opened_at = 400006\<rparr>"

definition demo_final :: pool_run where
  "demo_final =
     \<lparr>pr_state = \<lparr>pw_dns = [(demo_key, \<lparr>de_addrs = [(V4 1 1 1 1, 443)], de_expires_at = 460005\<rparr>)], pw_pool = new_pool,
        pw_hot = [(demo_key, [400003, 400004])], pw_enabled = True\<rparr>,
      pr_inflight = [], pr_committed = [(demo_key, demo_conn)], pr_taken = [(400009, demo_key, demo_conn)]\<rparr>"

lemma demo_run: "pool_step\<^sup>*\<^sup>* (pool_start True) demo_final"
proof -
  let ?s0 = "pr_state (pool_start True)"
  let ?s1 = "fst (prewarm_begin 400003 0 demo_key ?s0)"
  let ?s2 = "fst (prewarm_begin 400004 0 demo_key ?s1)"
  let ?s3 = "prewarm_finish 400006 demo_dial demo_key ?s2"
  let ?r2 = "\<lparr>pr_state = ?s2, pr_inflight = [demo_key], pr_committed = [], pr_taken = []\<rparr>"
  let ?r3 = "\<lparr>pr_state = ?s3, pr_inflight = [], pr_committed = [(demo_key, demo_conn)], pr_taken = []\<rparr>"
  note d = prewarm_begin_def prewarm_finish_def record_and_check_def try_reserve_def Let_def pool_full_def new_pool_def
    with_prewarm_enabled_def pool_start_def HOT_HOST_WINDOW_def HOT_HOSTS_MAX_KEYS_def HOT_HOST_MIN_COUNT_def
    TCP_POOL_TOTAL_MAX_def TCP_POOL_PER_HOST_MAX_def entry_or_default_def default_host_def
  note e = connect_fresh_def connect_attempt_def dns_resolve_def DNS_CACHE_MAX_ENTRIES_def DNS_CACHE_TTL_def demo_dial_def
    commit_reserve_def demo_conn_def
  have 1: "pool_step (pool_start True) \<lparr>pr_state = ?s1, pr_inflight = [], pr_committed = [], pr_taken = []\<rparr>"
    using pool_step.warm [of 400003 0 demo_key "pool_start True" ?s1 False] by (simp add: d)
  have 2: "pool_step \<lparr>pr_state = ?s1, pr_inflight = [], pr_committed = [], pr_taken = []\<rparr> ?r2"
    using pool_step.warm [of 400004 0 demo_key "\<lparr>pr_state = ?s1, pr_inflight = [], pr_committed = [], pr_taken = []\<rparr>" ?s2 True]
    by (simp add: d)
  have 3: "pool_step ?r2 ?r3"
    using pool_step.finish [of demo_key ?r2 400006 demo_dial] by (simp add: d e)
  have 4: "pool_step ?r3 demo_final"
    using pool_step.take_one [of 400009 demo_key ?r3 new_pool "Some demo_conn"]
    by (simp add: d e demo_final_def try_take_def conn_fresh_def TCP_POOL_TTL_def remove_if_empty_def hs_is_empty_def)
  show ?thesis
    by (rule converse_rtranclp_into_rtranclp [of pool_step, OF 1], rule converse_rtranclp_into_rtranclp [of pool_step, OF 2],
        rule converse_rtranclp_into_rtranclp [of pool_step, OF 3], rule r_into_rtranclp [of pool_step, OF 4])
qed

theorem prewarm_pool_bounded_witness:
  "(case pw_pool (pr_state demo_final) of p \<Rightarrow>
      tp_total_actual p = asum (\<lambda>s. length (hs_queue s)) (tp_hosts p) \<and>
      tp_total_pending p = asum hs_pending (tp_hosts p) \<and>
      (\<forall>k. count_list (pr_inflight demo_final) k = pending_of k p) \<and>
      list_all (\<lambda>(k, s). length (hs_queue s) + hs_pending s \<le> TCP_POOL_PER_HOST_MAX) (tp_hosts p) \<and>
      list_all (\<lambda>(k, s). hs_queue s \<noteq> [] \<or> 0 < hs_pending s) (tp_hosts p) \<and>
      tp_total_actual p + tp_total_pending p \<le> TCP_POOL_TOTAL_MAX \<and>
      length (tp_hosts p) \<le> TCP_POOL_TOTAL_MAX)
    \<and> length (pw_dns (pr_state demo_final)) \<le> DNS_CACHE_MAX_ENTRIES
    \<and> length (pw_hot (pr_state demo_final)) \<le> HOT_HOSTS_MAX_KEYS"
  by (rule prewarm_pool_bounded [OF demo_run])

theorem pooled_handed_once_witness:
  "map snd (pr_taken demo_final) = [(demo_key, demo_conn)]
   \<and> mset (map snd (pr_taken demo_final)) \<subseteq># mset (pr_committed demo_final)
   \<and> list_all (\<lambda>(now, key, c). now - pc_opened_at c < TCP_POOL_TTL) (pr_taken demo_final)"
  using pooled_handed_once [OF demo_run] by (simp add: demo_final_def)

section \<open>Opening ends\<close>

lemma queue_of_remove_if_empty [simp]: "queue_of key (tp_hosts (remove_if_empty key p)) = queue_of key (tp_hosts p)"
  by (auto simp: remove_if_empty_def queue_of_def hs_is_empty_def delete_conv' split: option.splits)

lemma try_take_queue:
  "try_take now key p = (p', t) \<Longrightarrow>
     (\<exists>pre. queue_of key (tp_hosts p) = pre @ (case t of None \<Rightarrow> [] | Some c \<Rightarrow> [c]) @ queue_of key (tp_hosts p'))
     \<and> (case t of None \<Rightarrow> queue_of key (tp_hosts p') = [] | Some c \<Rightarrow> conn_fresh now c)"
proof (cases "map_of (tp_hosts p) key")
  case (Some s)
  assume "try_take now key p = (p', t)"
  then show ?thesis
    using Some pop_fresh_split [of now "hs_queue s"]
    by (fastforce simp: try_take_def queue_of_def [of _ "tp_hosts p"] queue_of_def [of _ "AList.update key _ _"] update_conv' split: prod.splits)
qed (auto simp: try_take_def queue_of_def)

lemma take_alive_returns:
  "\<exists>p' t. take_alive clock probe n key p = Some (p', t) \<and>
     (case t of
        None \<Rightarrow> queue_of key (tp_hosts p') = []
      | Some s \<Rightarrow> is_likely_alive (probe s) \<and>
          (\<exists>c k. c \<in> set (queue_of key (tp_hosts p)) \<and> pc_stream c = s \<and> conn_fresh (clock k) c))"
proof (induction "length (queue_of key (tp_hosts p))" arbitrary: n p rule: less_induct)
  case less
  obtain p1 t1 where t: "try_take (clock n) key p = (p1, t1)" by (cases "try_take (clock n) key p")
  note q = try_take_queue [OF t]
  show ?case
  proof (cases t1)
    case None
    then show ?thesis using t q by (subst take_alive.simps) auto
  next
    case (Some c)
    then have shorter: "length (queue_of key (tp_hosts p1)) < length (queue_of key (tp_hosts p))"
      and c: "c \<in> set (queue_of key (tp_hosts p))" "conn_fresh (clock n) c"
      and sub: "set (queue_of key (tp_hosts p1)) \<subseteq> set (queue_of key (tp_hosts p))"
      using q by auto
    show ?thesis
    proof (cases "is_likely_alive (probe (pc_stream c))")
      case True
      with Some t c show ?thesis by (subst take_alive.simps) auto
    next
      case False
      with Some t have "take_alive clock probe n key p = take_alive clock probe (Suc n) key p1"
        by (subst take_alive.simps) simp
      moreover obtain p' t where "take_alive clock probe (Suc n) key p1 = Some (p', t)"
        "case t of None \<Rightarrow> queue_of key (tp_hosts p') = []
          | Some s \<Rightarrow> is_likely_alive (probe s) \<and>
              (\<exists>c k. c \<in> set (queue_of key (tp_hosts p1)) \<and> pc_stream c = s \<and> conn_fresh (clock k) c)"
        using less.hyps [OF shorter, of "Suc n"] by blast
      ultimately show ?thesis using sub by (intro exI [of _ p'] exI [of _ t]) (auto split: option.splits)
    qed
  qed
qed

text \<open>C29: the loop that opens a connection ends for every pool, clock and answer of the probes: with a
  pooled connection of the destination that was fresh when taken and looks alive, or, once no pooled
  connection of the destination is left, with the outcome of a fresh connection.\<close>

theorem open_tcp_returns:
  "\<exists>st' r. open_tcp clock probe env key st = Some (st', r) \<and>
     ((\<exists>c k. c \<in> set (queue_of key (tp_hosts (pw_pool st))) \<and> r = Inr (pc_stream c)
         \<and> clock k - pc_opened_at c < TCP_POOL_TTL \<and> probe (pc_stream c) = WouldBlock)
      \<or> (queue_of key (tp_hosts (pw_pool st')) = [] \<and> r = snd (connect_fresh env key (pw_dns st))))"
proof -
  have alive: "is_likely_alive x \<longleftrightarrow> x = WouldBlock" for x by (cases x) (auto simp: is_likely_alive_def)
  obtain p' t where t: "take_alive clock probe 0 key (pw_pool st) = Some (p', t)"
    and post: "case t of None \<Rightarrow> queue_of key (tp_hosts p') = []
      | Some s \<Rightarrow> is_likely_alive (probe s) \<and>
          (\<exists>c k. c \<in> set (queue_of key (tp_hosts (pw_pool st))) \<and> pc_stream c = s \<and> conn_fresh (clock k) c)"
    using take_alive_returns [of clock probe 0 key "pw_pool st"] by blast
  show ?thesis
  proof (cases t)
    case None
    with t post show ?thesis
      by (auto simp: open_tcp_def split: prod.splits)
  next
    case (Some s)
    with t post show ?thesis by (auto simp: open_tcp_def alive conn_fresh_def)
  qed
qed

text \<open>A failed connection forgets the cached addresses of its destination, a successful one has
  reached one of the addresses looked up or cached.\<close>

lemma connect_fresh_evicts: "connect_fresh env key cache = (cache', Inl e) \<Longrightarrow> map_of cache' key = None"
  by (auto simp: connect_fresh_def dns_evict_def delete_conv' split: prod.splits sum.splits)

lemma connect_each_cases:
  "connect_each f e as = Inr s \<Longrightarrow> \<exists>a\<in>set as. f a = Inr s"
  "connect_each f e as = Inl x \<Longrightarrow> a \<in> set as \<Longrightarrow> \<exists>x. f a = Inl x"
  by (induction as arbitrary: e) (auto split: sum.splits)

end
