(* ===== verification/Range_Relay.thy ===== *)
theory Range_Relay
  imports Fronter_Http
begin

text \<open>
  Downloads in parallel ranges (\<^verbatim>\<open>relay_parallel_range_to\<close> and its helpers in
  \<^verbatim>\<open>src/src/domain_fronter.rs\<close>): the probe with a first range, its validation, the plan of the remaining
  ranges, the fetching of a chunk with its retries, the buffered and the streaming delivery, and the
  fallbacks. The relay of a single request is a function of the call and the request, so that repeated calls may have
  different answers; the writer is the bytes written and the room it has left. \<^verbatim>\<open>u64\<close> values are naturals below
  \<open>2 ^ 64\<close>, saturation written out. Shown: the plan covers the rest of the entity exactly once, in
  order and with chunks of bounded size; when the origin's partial responses are truthful a download is the
  entity itself, or, when streaming stops early, a proper part of it with an error; nothing but
  complete responses leave the buffered interface; a short answer to the probe is passed on as if it were
  complete.
\<close>

section \<open>Constants and data\<close>

definition RANGE_PARALLEL_CHUNK_BYTES :: nat where "RANGE_PARALLEL_CHUNK_BYTES = 256 * 1024"
definition APPS_SCRIPT_BODY_MAX_BYTES :: nat where "APPS_SCRIPT_BODY_MAX_BYTES = 40 * 1024 * 1024"
definition MAX_STREAMED_RANGE_BYTES :: nat where "MAX_STREAMED_RANGE_BYTES = 16 * 1024 * 1024 * 1024"
definition BUFFERED_STITCH_MAX_BYTES :: nat where "BUFFERED_STITCH_MAX_BYTES = 64 * 1024 * 1024"
definition MAX_CHUNK_ATTEMPTS :: nat where "MAX_CHUNK_ATTEMPTS = 3"
definition U64_MAX :: nat where "U64_MAX = 2 ^ 64 - 1"

definition sat_add :: "nat \<Rightarrow> nat \<Rightarrow> nat" where "sat_add a b = min U64_MAX (a + b)"

record content_range =
  cr_start :: nat
  cr_end :: nat
  cr_total :: nat

datatype range_dispatch = Buffered | Stream | FallbackSingleGet | RejectTooLarge

section \<open>Content-Range\<close>

definition parse_content_range :: "header list \<Rightarrow> content_range option" where
  "parse_content_range headers =
     Option.bind (header_get headers ''content-range'') (\<lambda>v.
     Option.bind (split_once (CHR '' '') (trim v)) (\<lambda>(u, rest).
     if \<not> eq_ignore_ascii_case u ''bytes'' then None
     else
       Option.bind (split_once (CHR ''/'') (trim_start rest)) (\<lambda>(range, tot).
       Option.bind (split_once (CHR ''-'') range) (\<lambda>(start, end').
       Option.bind (parse_uint (2 ^ 64) (trim start)) (\<lambda>s.
       Option.bind (parse_uint (2 ^ 64) (trim end')) (\<lambda>e.
       Option.bind (parse_uint (2 ^ 64) (trim tot)) (\<lambda>t.
       if e < s \<or> t = 0 \<or> t \<le> e then None else Some \<lparr>cr_start = s, cr_end = e, cr_total = t\<rparr>)))))))"

definition content_range_matches_body :: "content_range \<Rightarrow> nat \<Rightarrow> bool" where
  "content_range_matches_body r body_len \<longleftrightarrow> 0 < body_len \<and> cr_end r - cr_start r + 1 = body_len"

definition probe_range_covers_complete_entity :: "content_range \<Rightarrow> nat \<Rightarrow> bool" where
  "probe_range_covers_complete_entity r requested_end \<longleftrightarrow>
     cr_start r = 0 \<and> cr_total r \<le> sat_add (cr_end r) 1 \<and> cr_total r \<le> sat_add requested_end 1"

definition validate_probe_range :: "nat \<Rightarrow> header list \<Rightarrow> bytes \<Rightarrow> nat \<Rightarrow> content_range option" where
  "validate_probe_range status headers body requested_end =
     (if status \<noteq> 206 then None
      else (case parse_content_range headers of
              None \<Rightarrow> None
            | Some r \<Rightarrow>
                if cr_start r \<noteq> 0 \<or> requested_end < cr_end r then None
                else if content_range_matches_body r (length body) \<or> probe_range_covers_complete_entity r requested_end
                then Some r else None))"

definition extract_exact_range_body :: "bytes \<Rightarrow> nat \<Rightarrow> nat \<Rightarrow> nat \<Rightarrow> (bytes, string) result" where
  "extract_exact_range_body raw start end' tot =
     (case split_response raw of
        None \<Rightarrow> Inl ''malformed HTTP response''
      | Some (status, headers, body) \<Rightarrow>
          if status \<noteq> 206 then Inl ''expected 206 Partial Content''
          else (case parse_content_range headers of
                  None \<Rightarrow> Inl ''missing or invalid Content-Range''
                | Some r \<Rightarrow>
                    if cr_start r \<noteq> start \<or> cr_end r \<noteq> end' \<or> cr_total r \<noteq> tot then Inl ''unexpected Content-Range''
                    else if \<not> content_range_matches_body r (length body) then Inl ''Content-Range/body length mismatch''
                    else Inr body))"

definition chunk_failure_is_retryable :: "bytes \<Rightarrow> bool" where
  "chunk_failure_is_retryable raw =
     (case split_response raw of None \<Rightarrow> True | Some (status, _, _) \<Rightarrow> 500 \<le> status \<and> status < 600)"

section \<open>Plan and dispatch\<close>

definition dispatch_range_response :: "nat \<Rightarrow> bool \<Rightarrow> range_dispatch" where
  "dispatch_range_response tot streaming_allowed =
     (if streaming_allowed \<and> MAX_STREAMED_RANGE_BYTES < tot then RejectTooLarge
      else if streaming_allowed \<and> APPS_SCRIPT_BODY_MAX_BYTES < tot then Stream
      else if \<not> streaming_allowed \<and> BUFFERED_STITCH_MAX_BYTES < tot then FallbackSingleGet
      else Buffered)"

text \<open>The iterator of \<^verbatim>\<open>plan_remaining_ranges\<close> as the list it yields; a chunk size of 0, which no
  caller passes, and totals that are not \<^verbatim>\<open>u64\<close> values give the empty list.\<close>

function plan_from :: "nat \<Rightarrow> nat \<Rightarrow> nat \<Rightarrow> (nat \<times> nat) list" where
  "plan_from start tot chunk_size =
     (if tot \<le> start \<or> chunk_size = 0 \<or> U64_MAX < tot then []
      else (let e = min (sat_add start chunk_size - 1) (tot - 1) in
            (start, e) # plan_from (sat_add e 1) tot chunk_size))"
  by pat_completeness auto
termination
  by (relation "measure (\<lambda>(start, tot, _). tot - start)") (auto simp: sat_add_def)

declare plan_from.simps [simp del]

definition plan_remaining_ranges :: "nat \<Rightarrow> nat \<Rightarrow> nat \<Rightarrow> (nat \<times> nat) list" where
  "plan_remaining_ranges probe_end tot chunk_size = plan_from (sat_add probe_end 1) tot chunk_size"

section \<open>Writing\<close>

text \<open>The bytes written, and how many more are taken before the connection breaks (\<open>None\<close>: it
  does not).\<close>

record http_writer =
  w_out :: bytes
  w_room :: "nat option"

definition write_all :: "bytes \<Rightarrow> http_writer \<Rightarrow> http_writer \<times> bool" where
  "write_all buf w =
     (case w_room w of
        None \<Rightarrow> (w\<lparr>w_out := w_out w @ buf\<rparr>, True)
      | Some n \<Rightarrow>
          if length buf \<le> n then (w\<lparr>w_out := w_out w @ buf, w_room := Some (n - length buf)\<rparr>, True)
          else (w\<lparr>w_out := w_out w @ take n buf, w_room := Some 0\<rparr>, False))"

definition flush_ok :: "http_writer \<Rightarrow> bool" where "flush_ok w \<longleftrightarrow> w_room w \<noteq> Some 0"

datatype io_failure = WriteFailed | ChunkFailed string

type_synonym io_result = "(unit, io_failure) result"

fun write_seq :: "bytes list \<Rightarrow> http_writer \<Rightarrow> http_writer \<times> io_result" where
  "write_seq [] w = (w, Inr ())"
| "write_seq (b # bs) w =
     (case write_all b w of (w', False) \<Rightarrow> (w', Inl WriteFailed) | (w', True) \<Rightarrow> write_seq bs w')"

definition write_response_with_head_transform :: "bytes \<Rightarrow> (bytes \<Rightarrow> bytes) \<Rightarrow> http_writer \<Rightarrow> http_writer \<times> io_result" where
  "write_response_with_head_transform response transform_head w =
     (case find_window CRLF2 response of
        None \<Rightarrow> write_seq [response] w
      | Some idx \<Rightarrow> write_seq [transform_head (take (idx + 4) response), drop (idx + 4) response] w)"

section \<open>Fetching chunks\<close>

text \<open>Which call of the relay it is: the request itself (again), the probe, or an attempt at a chunk.\<close>

datatype relay_call = Whole | Probe | Chunk nat nat

type_synonym relay_fn = "relay_call \<Rightarrow> string \<Rightarrow> string \<Rightarrow> header list \<Rightarrow> bytes \<Rightarrow> bytes"

definition range_header :: "nat \<Rightarrow> nat \<Rightarrow> header" where
  "range_header s e = (''Range'', ''bytes='' @ dec_show s @ ''-'' @ dec_show e)"

fun fetch_attempts :: "relay_fn \<Rightarrow> string \<Rightarrow> header list \<Rightarrow> nat \<Rightarrow> nat \<Rightarrow> nat \<Rightarrow> nat \<Rightarrow> nat \<Rightarrow> string \<Rightarrow> (bytes, string) result" where
  "fetch_attempts relay url h s e tot attempt 0 last_err = Inl last_err"
| "fetch_attempts relay url h s e tot attempt (Suc n) last_err =
     (let raw = relay (Chunk s attempt) ''GET'' url h [] in
      case extract_exact_range_body raw s e tot of
        Inr body \<Rightarrow> Inr body
      | Inl reason \<Rightarrow>
          if \<not> chunk_failure_is_retryable raw then Inl reason
          else fetch_attempts relay url h s e tot (attempt + 1) n reason)"

definition fetch_chunk :: "relay_fn \<Rightarrow> string \<Rightarrow> header list \<Rightarrow> nat \<Rightarrow> nat \<times> nat \<Rightarrow> (bytes, string) result" where
  "fetch_chunk relay url base_headers tot = (\<lambda>(s, e).
     fetch_attempts relay url
       (filter (\<lambda>(k, v). \<not> eq_ignore_ascii_case k ''range'') base_headers @ [range_header s e])
       s e tot 0 MAX_CHUNK_ATTEMPTS ''no attempts'')"

definition fetch_chunks_stream :: "relay_fn \<Rightarrow> string \<Rightarrow> header list \<Rightarrow> (nat \<times> nat) list \<Rightarrow> nat \<Rightarrow> (bytes, string) result list" where
  "fetch_chunks_stream relay url base_headers ranges tot = map (fetch_chunk relay url base_headers tot) ranges"

section \<open>Delivery\<close>

fun stream_chunks :: "(bytes, string) result list \<Rightarrow> http_writer \<Rightarrow> http_writer \<times> io_result" where
  "stream_chunks [] w = (w, Inr ())"
| "stream_chunks (Inl reason # cs) w = (w, Inl (ChunkFailed (''range-parallel-stream chunk failure: '' @ reason)))"
| "stream_chunks (Inr c # cs) w =
     (case write_all c w of (w', False) \<Rightarrow> (w', Inl WriteFailed) | (w', True) \<Rightarrow> stream_chunks cs w')"

definition stream_chunks_to_writer :: "bytes \<Rightarrow> bytes \<Rightarrow> (bytes, string) result list \<Rightarrow> http_writer \<Rightarrow> http_writer \<times> io_result" where
  "stream_chunks_to_writer head probe_body fetches w =
     (case write_seq [head, probe_body] w of
        (w', Inl e) \<Rightarrow> (w', Inl e)
      | (w', Inr _) \<Rightarrow> if \<not> flush_ok w' then (w', Inl WriteFailed) else stream_chunks fetches w')"

definition stream_range_response_to :: "header list \<Rightarrow> bytes \<Rightarrow> nat \<Rightarrow> (bytes, string) result list \<Rightarrow> (bytes \<Rightarrow> bytes)
    \<Rightarrow> http_writer \<Rightarrow> http_writer \<times> io_result" where
  "stream_range_response_to probe_resp_headers probe_body tot chunks transform_head w =
     stream_chunks_to_writer (transform_head (assemble_200_head probe_resp_headers tot)) probe_body chunks w"

text \<open>The chunks appended to the probe's body, or nothing when one of them failed.\<close>

fun stitch :: "bytes \<Rightarrow> (bytes, string) result list \<Rightarrow> bytes option" where
  "stitch full [] = Some full"
| "stitch full (Inr c # cs) = stitch (full @ c) cs"
| "stitch full (Inl e # cs) = None"

definition too_large_message :: string where
  "too_large_message = ''Advertised Content-Range total exceeds relay'' @ [CHR 0x27] @ ''s streaming ceiling. The origin reported a size larger than the relay is willing to fetch through Apps Script; refusing to spend daily quota on a likely-hostile or buggy origin.''"

definition do_relay_parallel_range_to :: "relay_fn \<Rightarrow> string \<Rightarrow> string \<Rightarrow> header list \<Rightarrow> bytes \<Rightarrow> (bytes \<Rightarrow> bytes) \<Rightarrow> bool
    \<Rightarrow> http_writer \<Rightarrow> http_writer \<times> io_result" where
  "do_relay_parallel_range_to relay method url headers body transform_head streaming_allowed w =
     (let chunk = RANGE_PARALLEL_CHUNK_BYTES;
          pass = (\<lambda>raw. write_response_with_head_transform raw transform_head w);
          single_get = (\<lambda>u. pass (relay Whole method url headers body))
      in
      if method \<noteq> ''GET'' \<or> body \<noteq> [] then single_get ()
      else if list_ex (\<lambda>(k, v). eq_ignore_ascii_case k ''range'') headers then single_get ()
      else
        (let first = relay Probe method url (headers @ [range_header 0 (chunk - 1)]) body in
         case split_response first of
           None \<Rightarrow> pass first
         | Some (status, resp_headers, resp_body) \<Rightarrow>
             if status \<noteq> 206 then pass first
             else (case validate_probe_range status resp_headers resp_body (chunk - 1) of
                     None \<Rightarrow> single_get ()
                   | Some r \<Rightarrow>
                       (let tot = cr_total r; probe_end = cr_end r in
                        if tot \<le> chunk \<or> tot \<le> probe_end + 1 then pass (rewrite_206_to_200 first)
                        else
                          (let fetches = fetch_chunks_stream relay url headers (plan_remaining_ranges probe_end tot chunk) tot in
                           case dispatch_range_response tot streaming_allowed of
                             Stream \<Rightarrow> stream_range_response_to resp_headers resp_body tot fetches transform_head w
                           | FallbackSingleGet \<Rightarrow> single_get ()
                           | RejectTooLarge \<Rightarrow> pass (error_page 502 too_large_message)
                           | Buffered \<Rightarrow>
                               (case stitch resp_body fetches of
                                  None \<Rightarrow> single_get ()
                                | Some full \<Rightarrow>
                                    if length full \<noteq> tot then single_get ()
                                    else pass (assemble_full_200 resp_headers full)))))))"

definition relay_parallel_range_to :: "relay_fn \<Rightarrow> string \<Rightarrow> string \<Rightarrow> header list \<Rightarrow> bytes \<Rightarrow> (bytes \<Rightarrow> bytes)
    \<Rightarrow> http_writer \<Rightarrow> http_writer \<times> io_result" where
  "relay_parallel_range_to relay method url headers body transform_head w =
     do_relay_parallel_range_to relay method url headers body transform_head True w"

definition relay_parallel_range :: "relay_fn \<Rightarrow> string \<Rightarrow> string \<Rightarrow> header list \<Rightarrow> bytes \<Rightarrow> bytes" where
  "relay_parallel_range relay method url headers body =
     w_out (fst (do_relay_parallel_range_to relay method url headers body id False \<lparr>w_out = [], w_room = None\<rparr>))"

section \<open>The plan\<close>

lemma plan_step:
  assumes "start < tot" "tot \<le> U64_MAX" "0 < chunk"
  shows "plan_from start tot chunk = (start, min (start + chunk) tot - 1) # plan_from (min (start + chunk) tot) tot chunk"
proof -
  have "min (sat_add start chunk - 1) (tot - 1) = min (start + chunk) tot - 1" "sat_add (min (start + chunk) tot - 1) 1 = min (start + chunk) tot"
    using assms by (auto simp: sat_add_def min_def)
  with assms show ?thesis by (simp add: plan_from.simps [of start] Let_def)
qed

lemma plan_induct:
  assumes "0 < (chunk :: nat)" "\<And>start. tot \<le> start \<Longrightarrow> P start" "\<And>start. start < tot \<Longrightarrow> P (min (start + chunk) tot) \<Longrightarrow> P start"
  shows "P start"
proof (induction "tot - start" arbitrary: start rule: less_induct)
  case less
  then show ?case using assms by (cases "start < tot") (auto simp: min_def)
qed

lemma plan_covers:
  assumes "tot \<le> U64_MAX" "0 < chunk"
  shows "concat (map (\<lambda>(s, e). [s..<e + 1]) (plan_from start tot chunk)) = [start..<tot] \<and>
     list_all (\<lambda>(s, e). s \<le> e \<and> e < tot \<and> e - s < chunk) (plan_from start tot chunk)"
proof (induction start rule: plan_induct [of chunk tot])
  case 1
  then show ?case using assms by simp
next
  case (2 start)
  then show ?case by (simp add: plan_from.simps)
next
  case (3 start)
  have "[start..<min (start + chunk) tot] @ [min (start + chunk) tot..<tot] = [start..<tot]"
    using 3(1) upt_add_eq_append [of start "min (start + chunk) tot" "tot - min (start + chunk) tot"] by simp
  moreover have "min (start + chunk) tot - 1 + 1 = min (start + chunk) tot" using 3(1) assms(2) by auto
  ultimately show ?case using 3 assms by (auto simp: plan_step simp del: upt_Suc)
qed

text \<open>The ranges planned after a probe are, in order, exactly the bytes from the end of the probe
  to the end of the entity, each once, in chunks no larger than the chunk size.\<close>

theorem range_plan_exact:
  assumes "tot < 2 ^ 64" "probe_end < tot"
  shows "concat (map (\<lambda>(s, e). [s..<e + 1]) (plan_remaining_ranges probe_end tot RANGE_PARALLEL_CHUNK_BYTES)) = [probe_end + 1..<tot] \<and>
     list_all (\<lambda>(s, e). s \<le> e \<and> e < tot \<and> e - s < RANGE_PARALLEL_CHUNK_BYTES)
       (plan_remaining_ranges probe_end tot RANGE_PARALLEL_CHUNK_BYTES)"
proof -
  have "sat_add probe_end 1 = probe_end + 1" "tot \<le> U64_MAX" using assms by (auto simp: sat_add_def U64_MAX_def)
  then show ?thesis unfolding plan_remaining_ranges_def
    using plan_covers [of tot RANGE_PARALLEL_CHUNK_BYTES "probe_end + 1"] by (simp add: RANGE_PARALLEL_CHUNK_BYTES_def)
qed

theorem range_plan_exact_witness:
  "concat (map (\<lambda>(s, e). [s..<e + 1]) (plan_remaining_ranges 262143 524289 RANGE_PARALLEL_CHUNK_BYTES)) = [262143 + 1..<524289] \<and>
     list_all (\<lambda>(s, e). s \<le> e \<and> e < 524289 \<and> e - s < RANGE_PARALLEL_CHUNK_BYTES)
       (plan_remaining_ranges 262143 524289 RANGE_PARALLEL_CHUNK_BYTES)"
  by (rule range_plan_exact) simp_all

section \<open>Truthful origins\<close>

definition ent_slice :: "nat \<Rightarrow> nat \<Rightarrow> bytes \<Rightarrow> bytes" where "ent_slice s e ent = take (e + 1 - s) (drop s ent)"

text \<open>Every partial response whose range and body agree in length carries those bytes of the entity.\<close>

definition truthful :: "relay_fn \<Rightarrow> bytes \<Rightarrow> bool" where
  "truthful relay ent \<longleftrightarrow>
     (\<forall>call m u h b hs body r.
        split_response (relay call m u h b) = Some (206, hs, body) \<longrightarrow> parse_content_range hs = Some r \<longrightarrow>
        cr_total r = length ent \<and> (content_range_matches_body r (length body) \<longrightarrow> body = ent_slice (cr_start r) (cr_end r) ent))"

lemma parse_content_range_ok:
  "parse_content_range hs = Some r \<Longrightarrow> cr_start r \<le> cr_end r \<and> cr_end r < cr_total r \<and> cr_total r < 2 ^ 64"
  by (auto simp: parse_content_range_def Option.bind_eq_Some_conv not_less not_le split: if_splits dest: parse_uint_bound)

lemma extract_truthful:
  assumes "extract_exact_range_body raw s e tot = Inr b"
  shows "\<exists>hs r. split_response raw = Some (206, hs, b) \<and> parse_content_range hs = Some r \<and> cr_start r = s \<and> cr_end r = e
     \<and> cr_total r = tot \<and> content_range_matches_body r (length b)"
  using assms by (auto simp: extract_exact_range_body_def split: option.splits if_splits)

lemma fetch_attempts_truthful:
  "truthful relay ent \<Longrightarrow> fetch_attempts relay url h s e tot a n err = Inr b \<Longrightarrow> b = ent_slice s e ent"
proof (induction n arbitrary: a err)
  case (Suc n)
  show ?case
  proof (cases "extract_exact_range_body (relay (Chunk s a) ''GET'' url h []) s e tot")
    case (Inl x)
    with Suc show ?thesis by (auto simp: Let_def split: if_splits)
  next
    case (Inr b')
    with Suc.prems(2) have "b' = b" by (simp add: Let_def)
    with extract_truthful [OF Inr] Suc.prems(1) show ?thesis unfolding truthful_def by blast
  qed
qed simp

lemma fetch_chunk_truthful: "truthful relay ent \<Longrightarrow> fetch_chunk relay url h tot (s, e) = Inr b \<Longrightarrow> b = ent_slice s e ent"
  by (simp add: fetch_chunk_def fetch_attempts_truthful)

lemma slice_append: "s \<le> m \<Longrightarrow> m \<le> length ent \<Longrightarrow> take s ent @ take (m - s) (drop s ent) = take m ent"
  by (metis le_add_diff_inverse take_add)

text \<open>Chunks appended while they come give growing parts of the entity; all of them give the whole.\<close>

lemma stitch_plan:
  assumes "truthful relay ent" "length ent \<le> U64_MAX" "0 < chunk"
  shows "start \<le> length ent \<Longrightarrow>
     stitch (take start ent) (map (fetch_chunk relay url h tot) (plan_from start (length ent) chunk)) = Some full \<Longrightarrow> full = ent"
proof (rule plan_induct [of chunk "length ent" "\<lambda>start. start \<le> length ent \<longrightarrow>
     stitch (take start ent) (map (fetch_chunk relay url h tot) (plan_from start (length ent) chunk)) = Some full \<longrightarrow> full = ent",
     rule_format])
  fix start
  let ?m = "min (start + chunk) (length ent)"
  assume lt: "start < length ent"
    and ih: "?m \<le> length ent \<Longrightarrow>
      stitch (take ?m ent) (map (fetch_chunk relay url h tot) (plan_from ?m (length ent) chunk)) = Some full \<Longrightarrow> full = ent"
    and st: "stitch (take start ent) (map (fetch_chunk relay url h tot) (plan_from start (length ent) chunk)) = Some full"
  obtain b where b: "fetch_chunk relay url h tot (start, ?m - 1) = Inr b"
    using st lt assms by (cases "fetch_chunk relay url h tot (start, ?m - 1)") (auto simp: plan_step)
  then have "take start ent @ b = take ?m ent"
    using fetch_chunk_truthful [OF assms(1) b] lt assms(3) slice_append [of start ?m ent] by (simp add: ent_slice_def)
  with st lt b assms ih show "full = ent" by (simp add: plan_step)
qed (use assms in \<open>auto simp: plan_from.simps\<close>)

lemma write_all_free: "w_room w = None \<Longrightarrow> write_all b w = (w\<lparr>w_out := w_out w @ b\<rparr>, True)"
  by (simp add: write_all_def)

lemma stream_plan:
  assumes "truthful relay ent" "length ent \<le> U64_MAX" "0 < chunk"
  shows "start \<le> length ent \<Longrightarrow> w_room w = None \<Longrightarrow> w_out w = pre @ take start ent \<Longrightarrow>
     stream_chunks (map (fetch_chunk relay url h tot) (plan_from start (length ent) chunk)) w = (w', res) \<Longrightarrow>
     (res = Inr () \<and> w_out w' = pre @ ent) \<or> (\<exists>reason n. res = Inl (ChunkFailed reason) \<and> n < length ent \<and> w_out w' = pre @ take n ent)"
proof (rule plan_induct [of chunk "length ent" "\<lambda>start. \<forall>w. start \<le> length ent \<longrightarrow> w_room w = None \<longrightarrow> w_out w = pre @ take start ent \<longrightarrow>
     stream_chunks (map (fetch_chunk relay url h tot) (plan_from start (length ent) chunk)) w = (w', res) \<longrightarrow>
     (res = Inr () \<and> w_out w' = pre @ ent) \<or> (\<exists>reason n. res = Inl (ChunkFailed reason) \<and> n < length ent \<and> w_out w' = pre @ take n ent)",
     rule_format])
  fix start w
  let ?m = "min (start + chunk) (length ent)"
  assume lt: "start < length ent" and w: "w_room w = None" "w_out w = pre @ take start ent"
    and ih: "\<And>w. ?m \<le> length ent \<Longrightarrow> w_room w = None \<Longrightarrow> w_out w = pre @ take ?m ent \<Longrightarrow>
       stream_chunks (map (fetch_chunk relay url h tot) (plan_from ?m (length ent) chunk)) w = (w', res) \<Longrightarrow>
       (res = Inr () \<and> w_out w' = pre @ ent) \<or> (\<exists>reason n. res = Inl (ChunkFailed reason) \<and> n < length ent \<and> w_out w' = pre @ take n ent)"
    and st: "stream_chunks (map (fetch_chunk relay url h tot) (plan_from start (length ent) chunk)) w = (w', res)"
  show "(res = Inr () \<and> w_out w' = pre @ ent) \<or> (\<exists>reason n. res = Inl (ChunkFailed reason) \<and> n < length ent \<and> w_out w' = pre @ take n ent)"
  proof (cases "fetch_chunk relay url h tot (start, ?m - 1)")
    case (Inl reason)
    with st lt assms have "w' = w \<and> res = Inl (ChunkFailed (''range-parallel-stream chunk failure: '' @ reason))"
      by (simp add: plan_step)
    with w lt show ?thesis by blast
  next
    case (Inr b)
    then have "take start ent @ b = take ?m ent"
      using fetch_chunk_truthful [OF assms(1) Inr] lt assms(3) slice_append [of start ?m ent] by (simp add: ent_slice_def)
    with st lt Inr assms w show ?thesis
      by (intro ih [of "w\<lparr>w_out := w_out w @ b\<rparr>"]) (auto simp: plan_step write_all_free)
  qed
qed (use assms in \<open>auto simp: plan_from.simps\<close>)

section \<open>What a download delivers\<close>

definition with_head :: "(bytes \<Rightarrow> bytes) \<Rightarrow> bytes \<Rightarrow> bytes" where
  "with_head f raw = (case find_window CRLF2 raw of None \<Rightarrow> raw | Some i \<Rightarrow> f (take (i + 4) raw) @ drop (i + 4) raw)"

lemma pass_free:
  "w_room w = None \<Longrightarrow> write_response_with_head_transform raw f w = (w\<lparr>w_out := w_out w @ with_head f raw\<rparr>, Inr ())"
  by (auto simp: write_response_with_head_transform_def with_head_def write_all_free split: option.splits)

text \<open>The answer to the probe, and that an origin that honours the range sends all of it.\<close>

definition probe_response :: "relay_fn \<Rightarrow> string \<Rightarrow> header list \<Rightarrow> bytes" where
  "probe_response relay url headers =
     relay Probe ''GET'' url (headers @ [range_header 0 (RANGE_PARALLEL_CHUNK_BYTES - 1)]) []"

definition full_probe :: "bytes \<Rightarrow> bool" where
  "full_probe first \<longleftrightarrow>
     (\<forall>hs b r. split_response first = Some (206, hs, b) \<longrightarrow> parse_content_range hs = Some r \<longrightarrow>
        cr_end r + 1 = min (cr_total r) RANGE_PARALLEL_CHUNK_BYTES)"

text \<open>The outcomes of a download of \<open>ent\<close>: a single response passed on; the entity in one response, or
  the entity in the coding the relay has undone; a refusal; a proper part with an error.\<close>

inductive download :: "relay_fn \<Rightarrow> string \<Rightarrow> header list \<Rightarrow> (bytes \<Rightarrow> bytes) \<Rightarrow> bool \<Rightarrow> bytes \<Rightarrow> bytes \<Rightarrow> io_result \<Rightarrow> bool"
  for relay url headers f streaming ent where
  whole: "download relay url headers f streaming ent (with_head f (relay Whole ''GET'' url headers [])) (Inr ())"
| not_partial: "(\<forall>hs b. split_response (probe_response relay url headers) \<noteq> Some (206, hs, b)) \<Longrightarrow>
    download relay url headers f streaming ent (with_head f (probe_response relay url headers)) (Inr ())"
| stitched: "download relay url headers f streaming ent (with_head f (assemble_full_200 hs ent)) (Inr ())"
| decoded: "split_response (probe_response relay url headers) = Some (206, hs, b) \<Longrightarrow> length b \<noteq> length ent \<Longrightarrow>
    length ent \<le> RANGE_PARALLEL_CHUNK_BYTES \<Longrightarrow>
    download relay url headers f streaming ent (with_head f (assemble_full_200 hs b)) (Inr ())"
| refused: "streaming \<Longrightarrow> MAX_STREAMED_RANGE_BYTES < length ent \<Longrightarrow>
    download relay url headers f streaming ent (with_head f (error_page 502 too_large_message)) (Inr ())"
| streamed: "streaming \<Longrightarrow> APPS_SCRIPT_BODY_MAX_BYTES < length ent \<Longrightarrow>
    download relay url headers f streaming ent (f (assemble_200_head hs (length ent)) @ ent) (Inr ())"
| broken: "streaming \<Longrightarrow> APPS_SCRIPT_BODY_MAX_BYTES < length ent \<Longrightarrow> n < length ent \<Longrightarrow>
    download relay url headers f streaming ent (f (assemble_200_head hs (length ent)) @ take n ent) (Inl (ChunkFailed reason))"

lemma validate_probe_ok:
  "validate_probe_range st hs b e = Some r \<Longrightarrow>
     st = 206 \<and> parse_content_range hs = Some r \<and> cr_start r = 0 \<and> cr_end r \<le> e \<and>
     (content_range_matches_body r (length b) \<or> cr_total r \<le> cr_end r + 1 \<and> cr_total r \<le> e + 1)"
  by (auto simp: validate_probe_range_def probe_range_covers_complete_entity_def sat_add_def not_less split: if_splits option.splits)

lemma probe_body:
  assumes "truthful relay ent" "split_response (relay c m u h d) = Some (206, hs, b)" "validate_probe_range 206 hs b e = Some r"
  shows "cr_total r = length ent \<and> length ent \<le> U64_MAX \<and> (content_range_matches_body r (length b) \<longrightarrow> b = take (cr_end r + 1) ent)"
proof -
  note v = validate_probe_ok [OF assms(3)]
  from v assms(1,2) have "cr_total r = length ent \<and> (content_range_matches_body r (length b) \<longrightarrow> b = ent_slice (cr_start r) (cr_end r) ent)"
    unfolding truthful_def by blast
  moreover have "cr_total r < 2 ^ 64" using parse_content_range_ok v by blast
  ultimately show ?thesis using v by (auto simp: ent_slice_def U64_MAX_def)
qed

text \<open>C13: a plain GET through the parallel downloader, to a client whose connection does not break, for an origin whose partial responses are
  truthful and which answers the whole of the first range. What is written is a single response passed on; or the complete entity; or, for an entity of
  at most one chunk, the body of the probe as a complete response when its length is not that of the entity, because the relay has undone a content
  coding; or a refusal; or, only when streaming was allowed and the result is an error, a
  proper part of the entity behind its head. The chunks may arrive in any order and fail in any way.\<close>

theorem parallel_download_exact:
  assumes truth: "truthful relay ent" and full: "full_probe (probe_response relay url headers)"
    and w: "w_room w = None" and norange: "\<not> list_ex (\<lambda>(k, v). eq_ignore_ascii_case k ''range'') headers"
    and run: "do_relay_parallel_range_to relay ''GET'' url headers [] f streaming w = (w', res)"
  shows "\<exists>out. w_out w' = w_out w @ out \<and> download relay url headers f streaming ent out res"
proof -
  let ?first = "probe_response relay url headers"
  let ?C = RANGE_PARALLEL_CHUNK_BYTES
  note defs = do_relay_parallel_range_to_def Let_def probe_response_def [symmetric]
  have Cpos: "0 < ?C" by (simp add: RANGE_PARALLEL_CHUNK_BYTES_def)
  consider (none) "split_response ?first = None" | (other) st hs b where "split_response ?first = Some (st, hs, b)" "st \<noteq> 206"
    | (partial) hs b where "split_response ?first = Some (206, hs, b)" by (metis option.exhaust prod.exhaust)
  then show ?thesis
  proof cases
    case none
    with run norange w show ?thesis by (auto simp: defs pass_free simp del: One_nat_def intro!: download.not_partial)
  next
    case other
    with run norange w show ?thesis by (auto simp: defs pass_free simp del: One_nat_def intro!: download.not_partial)
  next
    case partial
    show ?thesis
    proof (cases "validate_probe_range 206 hs b (?C - 1)")
      case None
      with partial run norange w show ?thesis by (auto simp: defs pass_free simp del: One_nat_def intro!: download.whole)
    next
      case (Some r)
      note v = validate_probe_ok [OF Some]
      have pb: "cr_total r = length ent" "length ent \<le> U64_MAX" "content_range_matches_body r (length b) \<Longrightarrow> b = take (cr_end r + 1) ent"
        using probe_body [OF truth partial [unfolded probe_response_def] Some] by auto
      have fp: "cr_end r + 1 = min (length ent) ?C" using full partial v pb(1) unfolding full_probe_def by metis
      show ?thesis
      proof (cases "length ent \<le> ?C \<or> length ent \<le> cr_end r + 1")
        case True
        then have "w' = w\<lparr>w_out := w_out w @ with_head f (assemble_full_200 hs b)\<rparr> \<and> res = Inr ()"
          using partial Some run norange w pb(1) by (auto simp: defs pass_free rewrite_206_to_200_def simp del: One_nat_def)
        moreover have "b = ent" if "length b = length ent"
        proof -
          have "content_range_matches_body r (length b)" using that fp True v by (auto simp: content_range_matches_body_def)
          then show ?thesis using pb(3) fp True by auto
        qed
        moreover have "length ent \<le> ?C" using True fp by auto
        ultimately show ?thesis using download.decoded [OF partial] download.stitched by fastforce
      next
        case False
        then have len: "?C < length ent" "cr_end r + 1 = ?C" using fp by auto
        have cm: "content_range_matches_body r (length b)" using v False pb(1) by auto
        have b: "b = take ?C ent" using pb(3) [OF cm] len by simp
        have "sat_add (cr_end r) 1 = ?C" using len pb(2) by (simp add: sat_add_def U64_MAX_def RANGE_PARALLEL_CHUNK_BYTES_def)
        then have plan: "plan_remaining_ranges (cr_end r) (cr_total r) ?C = plan_from ?C (length ent) ?C"
          by (simp add: plan_remaining_ranges_def pb(1))
        let ?fs = "map (fetch_chunk relay url headers (length ent)) (plan_from ?C (length ent) ?C)"
        have do: "(w', res) = (case dispatch_range_response (length ent) streaming of
            Stream \<Rightarrow> stream_range_response_to hs b (length ent) ?fs f w
          | FallbackSingleGet \<Rightarrow> write_response_with_head_transform (relay Whole ''GET'' url headers []) f w
          | RejectTooLarge \<Rightarrow> write_response_with_head_transform (error_page 502 too_large_message) f w
          | Buffered \<Rightarrow> (case stitch b ?fs of None \<Rightarrow> write_response_with_head_transform (relay Whole ''GET'' url headers []) f w
              | Some full \<Rightarrow> if length full \<noteq> length ent then write_response_with_head_transform (relay Whole ''GET'' url headers []) f w
                  else write_response_with_head_transform (assemble_full_200 hs full) f w))"
          using run norange partial Some False plan pb(1)
          by (simp add: defs fetch_chunks_stream_def del: One_nat_def split: range_dispatch.splits option.splits)
        show ?thesis
        proof (cases "dispatch_range_response (length ent) streaming")
          case Buffered
          then show ?thesis using do w stitch_plan [OF truth pb(2) Cpos, of ?C] len b
            by (auto simp: pass_free split: option.splits if_splits intro!: download.whole download.stitched)
        next
          case Stream
          have sa: "streaming" "APPS_SCRIPT_BODY_MAX_BYTES < length ent"
            using Stream by (auto simp: dispatch_range_response_def split: if_splits)
          let ?h = "f (assemble_200_head hs (length ent))"
          let ?w1 = "w\<lparr>w_out := w_out w @ ?h @ take ?C ent\<rparr>"
          have "stream_chunks ?fs ?w1 = (w', res)"
            using do Stream w b by (simp add: stream_range_response_to_def stream_chunks_to_writer_def write_all_free flush_ok_def)
          from stream_plan [OF truth pb(2) Cpos, of ?C ?w1 "w_out w @ ?h", OF _ _ _ this] len w
          consider "res = Inr ()" "w_out w' = w_out w @ ?h @ ent"
            | reason n where "res = Inl (ChunkFailed reason)" "n < length ent" "w_out w' = w_out w @ ?h @ take n ent" by auto
          then show ?thesis using sa by cases (auto intro: download.streamed download.broken)
        next
          case FallbackSingleGet
          then show ?thesis using do w by (auto simp: pass_free intro!: download.whole)
        next
          case RejectTooLarge
          then have "streaming" "MAX_STREAMED_RANGE_BYTES < length ent"
            by (auto simp: dispatch_range_response_def split: if_splits)
          then show ?thesis using RejectTooLarge do w by (auto simp: pass_free intro!: download.refused)
        qed
      qed
    qed
  qed
qed

section \<open>An origin that serves ranges\<close>

definition content_range_header :: "nat \<Rightarrow> nat \<Rightarrow> nat \<Rightarrow> header" where
  "content_range_header s e t = (''Content-Range'', ''bytes '' @ dec_show s @ ''-'' @ dec_show e @ ''/'' @ dec_show t)"

lemma dec_show_plain: "c \<in> set (dec_show n) \<Longrightarrow> is_digit c"
  using dec_show_digits [of n] by (auto simp: list_all_iff)

lemma not_in_dec_show [simp]:
  "CHR ''-'' \<notin> set (dec_show n)" "CHR ''/'' \<notin> set (dec_show n)" "CHR '' '' \<notin> set (dec_show n)"
  by (auto simp: is_digit_def dest!: dec_show_plain)

lemma hd_dec_show: "ascii_graphic (hd (dec_show n))"
  using dec_show_plain [of "hd (dec_show n)" n] by (auto simp: is_digit_def ascii_graphic_def)

lemma trim_range_value: "trim (''bytes '' @ x @ dec_show t) = ''bytes '' @ x @ dec_show t"
proof (rule trim_graphic)
  show "ascii_graphic (last (''bytes '' @ x @ dec_show t))" using last_dec_show_graphic [of t] by simp
qed (simp_all add: ascii_graphic_def)

lemma trim_start_dec: "trim_start (dec_show s @ x) = dec_show s @ x"
  using hd_dec_show [of s] trim_start_graphic [of "hd (dec_show s)" "tl (dec_show s) @ x"]
  by (metis append_Cons dec_show_nonempty list.collapse)

text \<open>Reading back a formatted range.\<close>

lemma content_range_roundtrip:
  assumes "s \<le> e" "e < t" "t < 2 ^ 64"
  shows "parse_content_range [content_range_header s e t] = Some \<lparr>cr_start = s, cr_end = e, cr_total = t\<rparr>"
proof -
  let ?v = "''bytes '' @ dec_show s @ ''-'' @ dec_show e @ ''/'' @ dec_show t"
  have "header_get [content_range_header s e t] ''content-range'' = Some ?v"
  proof -
    have "eq_ignore_ascii_case ''Content-Range'' ''content-range''" by code_simp
    then show ?thesis by (simp add: header_get_def content_range_header_def)
  qed
  moreover have "trim ?v = ?v" using trim_range_value [of "dec_show s @ ''-'' @ dec_show e @ ''/''" t] by simp
  moreover have "split_once (CHR '' '') ?v = Some (''bytes'', dec_show s @ ''-'' @ dec_show e @ ''/'' @ dec_show t)" by simp
  moreover have "eq_ignore_ascii_case ''bytes'' ''bytes''" by (simp add: eq_ignore_ascii_case_def)
  moreover have "split_once (CHR ''/'') ((dec_show s @ ''-'' @ dec_show e) @ CHR ''/'' # dec_show t)
      = Some (dec_show s @ ''-'' @ dec_show e, dec_show t)" by (rule split_once_append) simp
  moreover have "split_once (CHR ''-'') (dec_show s @ CHR ''-'' # dec_show e) = Some (dec_show s, dec_show e)"
    by (rule split_once_append) simp
  ultimately show ?thesis using assms
    by (simp add: parse_content_range_def trim_start_dec trim_dec_show)
qed

definition partial_response :: "bytes \<Rightarrow> nat \<Rightarrow> nat \<Rightarrow> bytes" where
  "partial_response ent s e =
     response_of ''HTTP/1.1 206 Partial Content'' [content_range_header s e (length ent)] (ent_slice s e ent)"

lemma clean_content_range: "clean_header (content_range_header s e t)"
proof -
  have "trim ''Content-Range'' = ''Content-Range''" by (rule trim_all_graphic) (simp_all add: ascii_graphic_def)
  moreover have "trim (''bytes '' @ dec_show s @ ''-'' @ dec_show e @ ''/'' @ dec_show t)
      = ''bytes '' @ dec_show s @ ''-'' @ dec_show e @ ''/'' @ dec_show t"
    using trim_range_value [of "dec_show s @ ''-'' @ dec_show e @ ''/''" t] by simp
  moreover have "plain_text ''Content-Range''" "plain_text (''bytes '' @ dec_show s @ ''-'' @ dec_show e @ ''/'' @ dec_show t)"
    using plain_dec_show by (simp_all add: plain_text_def)
  ultimately show ?thesis by (simp add: clean_header_def content_range_header_def)
qed

lemma split_partial:
  "split_response (partial_response ent s e) = Some (206, [content_range_header s e (length ent)], ent_slice s e ent)"
proof -
  have st: "plain_text ''HTTP/1.1 206 Partial Content''" by (simp add: plain_text_def)
  have "split_status (''HTTP/1.1 206 Partial Content'' @ [CHR 0x0D]) = Some 206"
    using plain_valid [OF st] trim_cr [OF st]
    by (simp add: split_status_def parse_uint_def is_digit_def dec_val_def Let_def)
  then show ?thesis unfolding partial_response_def
    by (intro split_response_of) (use st clean_content_range in \<open>simp_all add: head_line_def\<close>)
qed

text \<open>What a request asks for, read from its headers alone, and origins that serve it: to a request for a range that begins inside the entity the
  answer is a partial response with those bytes of it.\<close>

definition requested_range :: "header list \<Rightarrow> (nat \<times> nat) option" where
  "requested_range h =
     Option.bind (header_get h ''range'') (\<lambda>v.
     Option.bind (strip_prefix ''bytes='' v) (\<lambda>x.
     Option.bind (split_once (CHR ''-'') x) (\<lambda>(a, b).
     Option.bind (parse_uint (2 ^ 64) a) (\<lambda>s.
     map_option (Pair s) (parse_uint (2 ^ 64) b)))))"

definition serves_ranges :: "relay_fn \<Rightarrow> string \<Rightarrow> bytes \<Rightarrow> bool" where
  "serves_ranges relay url ent \<longleftrightarrow>
     (\<forall>call h s e. requested_range h = Some (s, e) \<longrightarrow> s \<le> e \<longrightarrow> s < length ent \<longrightarrow>
        (\<exists>hs. split_response (relay call ''GET'' url h []) = Some (206, hs, ent_slice s (min e (length ent - 1)) ent)
           \<and> parse_content_range hs = Some \<lparr>cr_start = s, cr_end = min e (length ent - 1), cr_total = length ent\<rparr>))"

lemma header_get_append:
  "\<not> list_ex (\<lambda>(k, v). eq_ignore_ascii_case k name) headers \<Longrightarrow> header_get (headers @ hs) name = header_get hs name"
  by (induction headers) (auto simp: header_get_def)

lemma requested_range_of:
  assumes "\<not> list_ex (\<lambda>(k, v). eq_ignore_ascii_case k ''range'') headers" "s < 2 ^ 64" "e < 2 ^ 64"
  shows "requested_range (headers @ [range_header s e]) = Some (s, e)"
proof -
  have "eq_ignore_ascii_case ''Range'' ''range''" by code_simp
  then have "header_get (headers @ [range_header s e]) ''range'' = Some (''bytes='' @ dec_show s @ ''-'' @ dec_show e)"
    unfolding header_get_append [OF assms(1)] by (simp add: header_get_def range_header_def)
  moreover have "strip_prefix ''bytes='' (''bytes='' @ dec_show s @ ''-'' @ dec_show e) = Some (dec_show s @ ''-'' @ dec_show e)"
    by (simp add: strip_prefix_def)
  moreover have "split_once (CHR ''-'') (dec_show s @ CHR ''-'' # dec_show e) = Some (dec_show s, dec_show e)"
    by (rule split_once_append) simp
  ultimately show ?thesis using assms(2,3) by (simp add: requested_range_def)
qed

text \<open>From such an origin every chunk is fetched in one attempt, and the chunks make up the entity.\<close>

lemma no_range_filter: "\<not> list_ex (\<lambda>(k, v). eq_ignore_ascii_case k ''range'') (filter (\<lambda>(k, v). \<not> eq_ignore_ascii_case k ''range'') h)"
  by (auto simp: list_ex_iff)

lemma fetch_served:
  assumes "serves_ranges relay url ent" "length ent < 2 ^ 64" "s < length ent" "e = min (s + RANGE_PARALLEL_CHUNK_BYTES) (length ent) - 1"
  shows "fetch_chunk relay url h (length ent) (s, e) = Inr (ent_slice s e ent)"
proof -
  let ?h = "filter (\<lambda>(k, v). \<not> eq_ignore_ascii_case k ''range'') h @ [range_header s e]"
  have se: "s \<le> e" "e < length ent" "min e (length ent - 1) = e" using assms(3,4) by (auto simp: RANGE_PARALLEL_CHUNK_BYTES_def)
  have rq: "requested_range ?h = Some (s, e)" using se assms(2) by (intro requested_range_of no_range_filter) auto
  obtain hs where "split_response (relay (Chunk s 0) ''GET'' url ?h []) = Some (206, hs, ent_slice s e ent)"
    "parse_content_range hs = Some \<lparr>cr_start = s, cr_end = e, cr_total = length ent\<rparr>"
    using assms(1) rq se assms(3) unfolding serves_ranges_def by metis
  moreover have "content_range_matches_body \<lparr>cr_start = s, cr_end = e, cr_total = length ent\<rparr> (length (ent_slice s e ent))"
    using se by (auto simp: content_range_matches_body_def ent_slice_def)
  ultimately have "extract_exact_range_body (relay (Chunk s 0) ''GET'' url ?h []) s e (length ent) = Inr (ent_slice s e ent)"
    by (simp add: extract_exact_range_body_def)
  then show ?thesis by (simp add: fetch_chunk_def MAX_CHUNK_ATTEMPTS_def numeral_3_eq_3 Let_def)
qed

lemma chunk_appends:
  assumes "start < length ent" "m = min (start + RANGE_PARALLEL_CHUNK_BYTES) (length ent)"
  shows "take start ent @ ent_slice start (m - 1) ent = take m ent"
  using assms slice_append [of start m ent] by (auto simp: ent_slice_def RANGE_PARALLEL_CHUNK_BYTES_def)

lemma stitch_served:
  assumes "serves_ranges relay url ent" "length ent < 2 ^ 64"
  shows "start \<le> length ent \<Longrightarrow> stitch (take start ent)
     (map (fetch_chunk relay url h (length ent)) (plan_from start (length ent) RANGE_PARALLEL_CHUNK_BYTES)) = Some ent"
proof (induction start rule: plan_induct [of RANGE_PARALLEL_CHUNK_BYTES "length ent"])
  case 1
  then show ?case by (simp add: RANGE_PARALLEL_CHUNK_BYTES_def)
next
  case (2 start)
  then show ?case by (simp add: plan_from.simps)
next
  case (3 start)
  have "0 < RANGE_PARALLEL_CHUNK_BYTES" by (simp add: RANGE_PARALLEL_CHUNK_BYTES_def)
  then show ?case using 3 assms(2) fetch_served [OF assms 3(1) refl] chunk_appends [OF 3(1) refl]
    by (simp add: plan_step U64_MAX_def)
qed

lemma stream_served:
  assumes "serves_ranges relay url ent" "length ent < 2 ^ 64"
  shows "start \<le> length ent \<Longrightarrow> w_room w = None \<Longrightarrow> w_out w = pre @ take start ent \<Longrightarrow> stream_chunks
     (map (fetch_chunk relay url h (length ent)) (plan_from start (length ent) RANGE_PARALLEL_CHUNK_BYTES)) w = (w\<lparr>w_out := pre @ ent\<rparr>, Inr ())"
proof (induction start arbitrary: w rule: plan_induct [of RANGE_PARALLEL_CHUNK_BYTES "length ent"])
  case 1
  then show ?case by (simp add: RANGE_PARALLEL_CHUNK_BYTES_def)
next
  case (2 start)
  then show ?case by (simp add: plan_from.simps)
next
  case (3 start)
  let ?m = "min (start + RANGE_PARALLEL_CHUNK_BYTES) (length ent)"
  let ?w = "w\<lparr>w_out := w_out w @ ent_slice start (?m - 1) ent\<rparr>"
  have C: "0 < RANGE_PARALLEL_CHUNK_BYTES" by (simp add: RANGE_PARALLEL_CHUNK_BYTES_def)
  have "w_out ?w = pre @ take ?m ent" using 3(5) chunk_appends [OF 3(1) refl] by simp
  then have "stream_chunks (map (fetch_chunk relay url h (length ent)) (plan_from ?m (length ent) RANGE_PARALLEL_CHUNK_BYTES)) ?w
      = (?w\<lparr>w_out := pre @ ent\<rparr>, Inr ())" using 3(2) [of ?w] 3(4) by simp
  then show ?case using 3(1,4) assms(2) C fetch_served [OF assms 3(1) refl]
    by (simp add: plan_step U64_MAX_def write_all_free)
qed

text \<open>C14: from every origin that serves ranges, that is, answers a request whose Range header asks for bytes of the entity with
  exactly these, an entity of up to 16 GiB arrives completely at a client whose connection does not break: up to 40 MiB as one response, above
  that streamed behind a head with its length.\<close>

theorem parallel_download_completes:
  assumes "serves_ranges relay url ent" "ent \<noteq> []" "length ent \<le> 16 * 1024 * 1024 * 1024"
    and "w_room w = None" "\<not> list_ex (\<lambda>(k, v). eq_ignore_ascii_case k ''range'') headers"
  shows "\<exists>hs. relay_parallel_range_to relay ''GET'' url headers [] f w =
    (w\<lparr>w_out := w_out w @ (if length ent \<le> 40 * 1024 * 1024 then with_head f (assemble_full_200 hs ent)
                            else f (assemble_200_head hs (length ent)) @ ent)\<rparr>, Inr ())"
proof -
  let ?C = RANGE_PARALLEL_CHUNK_BYTES
  have C: "0 < ?C" "?C < 2 ^ 64" "?C \<le> 40 * 1024 * 1024" by (simp_all add: RANGE_PARALLEL_CHUNK_BYTES_def)
  have len: "length ent < 2 ^ 64" "0 < length ent" using assms(2,3) by simp_all
  let ?h = "headers @ [range_header 0 (?C - 1)]"
  define e where "e = min (?C - 1) (length ent - 1)"
  have rq: "requested_range ?h = Some (0, ?C - 1)" using C by (intro requested_range_of [OF assms(5)]) auto
  have e1: "e + 1 = min ?C (length ent)" using C(1) len(2) unfolding e_def by linarith
  have body: "ent_slice 0 e ent = take ?C ent" using e1 by (simp add: ent_slice_def min_def)
  obtain hs where sp: "split_response (relay Probe ''GET'' url ?h []) = Some (206, hs, take ?C ent)"
    and pc: "parse_content_range hs = Some \<lparr>cr_start = 0, cr_end = e, cr_total = length ent\<rparr>"
    using assms(1) rq len(2) unfolding serves_ranges_def body [symmetric] unfolding e_def by blast
  let ?r = "\<lparr>cr_start = 0, cr_end = e, cr_total = length ent\<rparr>"
  have v: "validate_probe_range 206 hs (take ?C ent) (?C - 1) = Some ?r"
    using e1 len C(1) by (simp add: validate_probe_range_def pc content_range_matches_body_def min.commute del: One_nat_def)
  note run = relay_parallel_range_to_def do_relay_parallel_range_to_def Let_def
  show ?thesis
  proof (cases "length ent \<le> ?C")
    case True
    then show ?thesis using assms(4,5) sp v C
      by (intro exI [of _ hs]) (simp add: run pass_free rewrite_206_to_200_def del: One_nat_def)
  next
    case False
    then have big: "\<not> (length ent \<le> ?C \<or> length ent \<le> e + 1)" and eC: "e = ?C - 1" using e1 C by linarith+
    have "sat_add (?C - 1) 1 = ?C" by (simp add: sat_add_def U64_MAX_def RANGE_PARALLEL_CHUNK_BYTES_def)
    then have plan: "plan_remaining_ranges e (length ent) ?C = plan_from ?C (length ent) ?C"
      unfolding eC by (simp add: plan_remaining_ranges_def)
    let ?fs = "map (fetch_chunk relay url headers (length ent)) (plan_from ?C (length ent) ?C)"
    have go: "relay_parallel_range_to relay ''GET'' url headers [] f w =
       (case dispatch_range_response (length ent) True of
          Stream \<Rightarrow> stream_range_response_to hs (take ?C ent) (length ent) ?fs f w
        | FallbackSingleGet \<Rightarrow> write_response_with_head_transform (relay Whole ''GET'' url headers []) f w
        | RejectTooLarge \<Rightarrow> write_response_with_head_transform (error_page 502 too_large_message) f w
        | Buffered \<Rightarrow>
            (case stitch (take ?C ent) ?fs of
               None \<Rightarrow> write_response_with_head_transform (relay Whole ''GET'' url headers []) f w
             | Some full \<Rightarrow>
                 if length full \<noteq> length ent then write_response_with_head_transform (relay Whole ''GET'' url headers []) f w
                 else write_response_with_head_transform (assemble_full_200 hs full) f w))"
      using sp v big assms(5) plan by (simp add: run fetch_chunks_stream_def del: One_nat_def)
    show ?thesis
    proof (cases "length ent \<le> 40 * 1024 * 1024")
      case True
      then have "dispatch_range_response (length ent) True = Buffered"
        by (simp add: dispatch_range_response_def APPS_SCRIPT_BODY_MAX_BYTES_def MAX_STREAMED_RANGE_BYTES_def)
      then show ?thesis using go stitch_served [OF assms(1) len(1), of ?C headers] False assms(4) True
        by (intro exI [of _ hs]) (simp add: pass_free)
    next
      case large: False
      then have "dispatch_range_response (length ent) True = Stream" using assms(3)
        by (simp add: dispatch_range_response_def APPS_SCRIPT_BODY_MAX_BYTES_def MAX_STREAMED_RANGE_BYTES_def)
      moreover have "stream_chunks ?fs (w\<lparr>w_out := w_out w @ f (assemble_200_head hs (length ent)) @ take ?C ent\<rparr>)
          = (w\<lparr>w_out := w_out w @ f (assemble_200_head hs (length ent)) @ ent\<rparr>, Inr ())"
        using stream_served [OF assms(1) len(1), of ?C _ "w_out w @ f (assemble_200_head hs (length ent))" headers] False assms(4) by simp
      ultimately show ?thesis using go large assms(4)
        by (intro exI [of _ hs]) (simp add: stream_range_response_to_def stream_chunks_to_writer_def write_all_free flush_ok_def)
    qed
  qed
qed

text \<open>An origin of the examples, which looks at nothing but the headers: it serves a range with at most \<open>n\<close> bytes.\<close>

definition origin :: "nat \<Rightarrow> bytes \<Rightarrow> relay_fn" where
  "origin n ent call m u h b =
     (case requested_range h of
        Some (s, e) \<Rightarrow>
          if s \<le> e \<and> s < length ent then partial_response ent s (min (min e (length ent - 1)) (s + (n - 1))) else []
      | None \<Rightarrow> [])"

lemma split_empty: "split_response [] = None"
  by (simp add: split_response_def CRLF2_def)

lemma truthful_origin:
  assumes "length ent < 2 ^ 64" "ent \<noteq> []"
  shows "truthful (origin n ent) ent"
proof -
  have *: "cr_total r = length ent \<and> body = ent_slice (cr_start r) (cr_end r) ent"
    if sp: "split_response (partial_response ent s e) = Some (206, hs, body)" and pc: "parse_content_range hs = Some r" and se: "s \<le> e" "e < length ent"
    for s e hs body r
  proof -
    have "hs = [content_range_header s e (length ent)]" "body = ent_slice s e ent" using sp by (simp_all add: split_partial)
    with pc content_range_roundtrip [OF se assms(1)] show ?thesis by auto
  qed
  have cases: "origin n ent call m u h b = [] \<or> (\<exists>s e. s \<le> e \<and> e < length ent \<and> origin n ent call m u h b = partial_response ent s e)" for call m u h b
  proof (cases "\<exists>s e. requested_range h = Some (s, e) \<and> s \<le> e \<and> s < length ent")
    case True
    then obtain s e where r: "requested_range h = Some (s, e)" "s \<le> e" "s < length ent" by blast
    let ?e = "min (min e (length ent - 1)) (s + (n - 1))"
    have "s \<le> ?e" "?e < length ent" using r by auto
    then show ?thesis using r by (intro disjI2 exI [of _ s] exI [of _ ?e]) (simp add: origin_def)
  qed (auto simp: origin_def split: option.splits)
  show ?thesis unfolding truthful_def
  proof (intro allI impI)
    fix call m u h b hs body r
    assume "split_response (origin n ent call m u h b) = Some (206, hs, body)" "parse_content_range hs = Some r"
    then show "cr_total r = length ent \<and> (content_range_matches_body r (length body) \<longrightarrow> body = ent_slice (cr_start r) (cr_end r) ent)"
      using * split_empty cases [of call m u h b] by force
  qed
qed

lemma serves_ranges_origin:
  assumes "length ent < 2 ^ 64" "length ent \<le> n"
  shows "serves_ranges (origin n ent) url ent"
  unfolding serves_ranges_def
proof (intro allI impI)
  fix call h s e
  assume r: "requested_range h = Some (s, e)" "s \<le> e" "s < length ent"
  let ?e = "min e (length ent - 1)"
  have "min ?e (s + (n - 1)) = ?e" using assms(2) r by auto
  then have "origin n ent call ''GET'' url h [] = partial_response ent s ?e" using r by (simp add: origin_def)
  moreover have "s \<le> ?e" "?e < length ent" using r by auto
  ultimately show "\<exists>hs. split_response (origin n ent call ''GET'' url h []) = Some (206, hs, ent_slice s ?e ent)
      \<and> parse_content_range hs = Some \<lparr>cr_start = s, cr_end = ?e, cr_total = length ent\<rparr>"
    using content_range_roundtrip assms(1) split_partial by metis
qed

text \<open>An origin that answers the probe with less than the small entity it announces: the client of
  a plain GET receives the part as a complete response, with the length of the part.\<close>

theorem short_probe_truncates:
  assumes "split_response (probe_response relay url headers) = Some (206, hs, b)"
    "parse_content_range hs = Some r" "cr_start r = 0" "content_range_matches_body r (length b)"
    "cr_end r + 1 < cr_total r" "cr_total r \<le> RANGE_PARALLEL_CHUNK_BYTES"
    "w_room w = None" "\<not> list_ex (\<lambda>(k, v). eq_ignore_ascii_case k ''range'') headers"
  shows "relay_parallel_range_to relay ''GET'' url headers [] f w
      = (w\<lparr>w_out := w_out w @ with_head f (assemble_full_200 hs b)\<rparr>, Inr ()) \<and> length b < cr_total r"
proof -
  have "validate_probe_range 206 hs b (RANGE_PARALLEL_CHUNK_BYTES - 1) = Some r"
    using assms by (auto simp: validate_probe_range_def)
  with assms show ?thesis
    by (auto simp: relay_parallel_range_to_def do_relay_parallel_range_to_def Let_def probe_response_def [symmetric] pass_free
        rewrite_206_to_200_def content_range_matches_body_def simp del: One_nat_def)
qed

section \<open>Concrete downloads\<close>

abbreviation fresh_writer :: http_writer where "fresh_writer \<equiv> \<lparr>w_out = [], w_room = None\<rparr>"

lemma origin_probe_split:
  assumes "ent \<noteq> []" "0 < n" "n \<le> RANGE_PARALLEL_CHUNK_BYTES" "length ent < 2 ^ 64"
  defines "e \<equiv> min n (length ent) - 1"
  shows "split_response (probe_response (origin n ent) url [])
      = Some (206, [content_range_header 0 e (length ent)], take (min n (length ent)) ent)"
    and "parse_content_range [content_range_header 0 e (length ent)] = Some \<lparr>cr_start = 0, cr_end = e, cr_total = length ent\<rparr>"
proof -
  have e: "e < length ent" "e + 1 = min n (length ent)" using assms(1,2) by (cases ent; auto simp: e_def)+
  have "requested_range ([] @ [range_header 0 (RANGE_PARALLEL_CHUNK_BYTES - 1)]) = Some (0, RANGE_PARALLEL_CHUNK_BYTES - 1)"
    by (rule requested_range_of) (simp_all add: RANGE_PARALLEL_CHUNK_BYTES_def)
  moreover have "min (min (RANGE_PARALLEL_CHUNK_BYTES - 1) (length ent - 1)) (n - 1) = e" using assms(2,3) by (auto simp: e_def)
  ultimately show "split_response (probe_response (origin n ent) url [])
      = Some (206, [content_range_header 0 e (length ent)], take (min n (length ent)) ent)"
    using assms(1) e(2) by (simp add: probe_response_def origin_def split_partial ent_slice_def)
  show "parse_content_range [content_range_header 0 e (length ent)] = Some \<lparr>cr_start = 0, cr_end = e, cr_total = length ent\<rparr>"
    using e assms(4) by (intro content_range_roundtrip) auto
qed

theorem parallel_download_exact_witness:
  "\<exists>w' res. do_relay_parallel_range_to (origin RANGE_PARALLEL_CHUNK_BYTES [7]) ''GET'' ''http://h/'' [] [] id True fresh_writer = (w', res)
     \<and> download (origin RANGE_PARALLEL_CHUNK_BYTES [7]) ''http://h/'' [] id True [7] (w_out w') res"
proof -
  let ?o = "origin RANGE_PARALLEL_CHUNK_BYTES [7]"
  obtain w' res where run: "do_relay_parallel_range_to ?o ''GET'' ''http://h/'' [] [] id True fresh_writer = (w', res)"
    by (cases "do_relay_parallel_range_to ?o ''GET'' ''http://h/'' [] [] id True fresh_writer")
  have "full_probe (probe_response ?o ''http://h/'' [])"
    using origin_probe_split(1) [of "[7]" RANGE_PARALLEL_CHUNK_BYTES "''http://h/''"]
      origin_probe_split(2) [of "[7]" RANGE_PARALLEL_CHUNK_BYTES]
    by (auto simp: full_probe_def RANGE_PARALLEL_CHUNK_BYTES_def)
  moreover have "truthful ?o [7]" by (rule truthful_origin) simp_all
  ultimately have "\<exists>out. w_out w' = w_out fresh_writer @ out \<and> download ?o ''http://h/'' [] id True [7] out res"
    using parallel_download_exact [of ?o "[7]" "''http://h/''" "[]" fresh_writer id True w' res] run by simp
  with run show ?thesis by simp
qed

theorem parallel_download_completes_witness:
  "\<exists>hs. relay_parallel_range_to (origin 300000 (replicate 300000 0)) ''GET'' ''http://h/'' [] [] id fresh_writer
     = (\<lparr>w_out = with_head id (assemble_full_200 hs (replicate 300000 0)), w_room = None\<rparr>, Inr ())"
proof -
  have "serves_ranges (origin 300000 (replicate 300000 0)) ''http://h/'' (replicate 300000 0)" by (rule serves_ranges_origin) simp_all
  from parallel_download_completes [OF this, of fresh_writer "[]" id] show ?thesis by simp
qed

theorem short_probe_truncates_witness:
  "relay_parallel_range_to (origin 1 [7, 8]) ''GET'' ''http://h/'' [] [] id fresh_writer
     = (\<lparr>w_out = with_head id (assemble_full_200 [content_range_header 0 0 2] [7]), w_room = None\<rparr>, Inr ()) \<and> length [7 :: byte] < 2"
  using short_probe_truncates [of "origin 1 [7, 8]" "''http://h/''" "[]" "[content_range_header 0 0 2]" "[7]"
      "\<lparr>cr_start = 0, cr_end = 0, cr_total = 2\<rparr>" fresh_writer id]
    origin_probe_split(1) [of "[7, 8]" 1 "''http://h/''"] origin_probe_split(2) [of "[7, 8]" 1]
  by (simp add: content_range_matches_body_def RANGE_PARALLEL_CHUNK_BYTES_def eval_nat_numeral(2) [symmetric] flip: numeral_2_eq_2)

end
