(* ===== verification/Script_Pool.thy ===== *)
theory Script_Pool
  imports Assoc Fronter_Http
begin

text \<open>
  The choice of an Apps Script deployment in the domain fronter (\<^verbatim>\<open>src/src/domain_fronter.rs\<close>): round robin
  over the configured deployments with a blacklist and a set of slow ones, timeout strikes, latency
  scores, the classification of the relay's error texts, and the probe that clears blacklist entries
  early. Instants are milliseconds. Floating point arithmetic on the scores is a parameter, \<open>score_ops\<close>,
  over a linear order (the code's values are never NaN). Shown: a deployment that is blacklisted or
  slow is not chosen while a better one exists; without either the choice is fair; strikes blacklist exactly
  at their limit; a probe never undoes an entry written after it began; a slow success cuts a longer
  cooldown short.
\<close>

section \<open>Constants and data\<close>

definition BLACKLIST_COOLDOWN_SECS :: nat where "BLACKLIST_COOLDOWN_SECS = 600"
definition LATENCY_MIN_DEPLOYMENTS :: nat where "LATENCY_MIN_DEPLOYMENTS = 3"
definition LATENCY_FRESH_FOR_SECS :: nat where "LATENCY_FRESH_FOR_SECS = 30"
definition LATENCY_HARD_SLOW_COOLDOWN_SECS :: nat where "LATENCY_HARD_SLOW_COOLDOWN_SECS = LATENCY_FRESH_FOR_SECS"

record blacklist_entry =
  be_until :: nat
  be_probe_recoverable :: bool

text \<open>A duration as a score in milliseconds, the weighted mean with a new sample, twice a score, and
  the two thresholds.\<close>

record 'f score_ops =
  so_ms :: "nat \<Rightarrow> 'f"
  so_ewma :: "'f \<Rightarrow> 'f \<Rightarrow> 'f"
  so_slow_threshold :: "'f \<Rightarrow> 'f"
  so_skip_min_median :: 'f
  so_hard_slow :: 'f

record 'f script_pool =
  sp_script_ids :: "string list"
  sp_script_idx :: u64
  sp_blacklist :: "(string \<times> blacklist_entry) list"
  sp_timeouts :: "(string \<times> nat \<times> nat) list"
  sp_latency_ewma :: "(string \<times> 'f \<times> nat) list"
  sp_strikes :: nat
  sp_window :: nat
  sp_cooldown :: nat

section \<open>Slow deployments\<close>

definition fresh_latency_snapshot :: "(string \<times> 'f \<times> nat) list \<Rightarrow> nat \<Rightarrow> nat \<Rightarrow> (string \<times> 'f) list" where
  "fresh_latency_snapshot m now fresh = map (\<lambda>(k, s, _). (k, s)) (filter (\<lambda>(_, _, ts). now - ts < fresh) m)"

definition compute_slow_set :: "('f :: linorder) score_ops \<Rightarrow> (string \<times> 'f) list \<Rightarrow> string set" where
  "compute_slow_set ops snapshot =
     (if length snapshot < LATENCY_MIN_DEPLOYMENTS then {}
      else
        (let values = sort (map snd snapshot); median = values ! (length values div 2) in
         if median < so_skip_min_median ops then {}
         else fst ` set (filter (\<lambda>(_, v). so_slow_threshold ops median < v) snapshot)))"

definition slow_set :: "('f :: linorder) score_ops \<Rightarrow> nat \<Rightarrow> 'f script_pool \<Rightarrow> string set" where
  "slow_set ops now sp = compute_slow_set ops (fresh_latency_snapshot (sp_latency_ewma sp) now (LATENCY_FRESH_FOR_SECS * 1000))"

section \<open>Blacklist\<close>

definition prune_blacklist :: "nat \<Rightarrow> (string \<times> blacklist_entry) list \<Rightarrow> (string \<times> blacklist_entry) list" where
  "prune_blacklist now bl = filter (\<lambda>(_, e). now < be_until e) bl"

definition blacklist_script_inner :: "nat \<Rightarrow> string \<Rightarrow> nat \<Rightarrow> bool \<Rightarrow> 'f script_pool \<Rightarrow> 'f script_pool" where
  "blacklist_script_inner now sid cooldown probe_recoverable sp =
     sp\<lparr>sp_blacklist := AList.update sid \<lparr>be_until = now + cooldown, be_probe_recoverable = probe_recoverable\<rparr> (sp_blacklist sp)\<rparr>"

definition blacklist_script :: "nat \<Rightarrow> string \<Rightarrow> 'f script_pool \<Rightarrow> 'f script_pool" where
  "blacklist_script now sid sp = blacklist_script_inner now sid (BLACKLIST_COOLDOWN_SECS * 1000) True sp"

definition blacklist_script_for :: "nat \<Rightarrow> string \<Rightarrow> nat \<Rightarrow> 'f script_pool \<Rightarrow> 'f script_pool" where
  "blacklist_script_for now sid cooldown sp = blacklist_script_inner now sid cooldown False sp"

section \<open>Selection\<close>

text \<open>At most \<open>k\<close> steps of the round robin, up to the first deployment that is acceptable; the index
  wraps with its type.\<close>

fun scan :: "(string \<Rightarrow> bool) \<Rightarrow> string list \<Rightarrow> u64 \<Rightarrow> nat \<Rightarrow> u64 \<times> string option" where
  "scan acceptable ids idx 0 = (idx, None)"
| "scan acceptable ids idx (Suc k) =
     (let sid = ids ! (unat idx mod length ids) in
      if acceptable sid then (idx + 1, Some sid) else scan acceptable ids (idx + 1) k)"

fun soonest_entry :: "(string \<times> blacklist_entry) list \<Rightarrow> (string \<times> blacklist_entry) option" where
  "soonest_entry [] = None"
| "soonest_entry (e # es) =
     (case soonest_entry es of
        None \<Rightarrow> Some e
      | Some f \<Rightarrow> if be_until (snd f) < be_until (snd e) then Some f else Some e)"

text \<open>No value is the panic of an empty list of deployments.\<close>

definition next_script_id :: "('f :: linorder) score_ops \<Rightarrow> nat \<Rightarrow> 'f script_pool \<Rightarrow> 'f script_pool \<times> string option" where
  "next_script_id ops now sp =
     (let ids = sp_script_ids sp; n = length ids; slow = slow_set ops now sp;
          bl = prune_blacklist now (sp_blacklist sp);
          listed = (\<lambda>sid. map_of bl sid \<noteq> None)
      in case scan (\<lambda>sid. \<not> listed sid \<and> sid \<notin> slow) ids (sp_script_idx sp) n of
           (i, Some sid) \<Rightarrow> (sp\<lparr>sp_script_idx := i, sp_blacklist := bl\<rparr>, Some sid)
         | (i, None) \<Rightarrow>
             (case scan (\<lambda>sid. \<not> listed sid) ids i n of
                (j, Some sid) \<Rightarrow> (sp\<lparr>sp_script_idx := j, sp_blacklist := bl\<rparr>, Some sid)
              | (j, None) \<Rightarrow>
                  (case soonest_entry bl of
                     Some (sid, _) \<Rightarrow> (sp\<lparr>sp_script_idx := j, sp_blacklist := AList.delete sid bl\<rparr>, Some sid)
                   | None \<Rightarrow> (sp\<lparr>sp_script_idx := j, sp_blacklist := bl\<rparr>, if n = 0 then None else Some (ids ! 0)))))"

text \<open>One pass of \<^verbatim>\<open>next_script_ids\<close>.\<close>

fun pick_pass :: "(string \<Rightarrow> bool) \<Rightarrow> string list \<Rightarrow> nat \<Rightarrow> nat \<Rightarrow> u64 \<Rightarrow> string list \<Rightarrow> u64 \<times> string list" where
  "pick_pass acceptable ids want 0 idx picked = (idx, picked)"
| "pick_pass acceptable ids want (Suc k) idx picked =
     (if want \<le> length picked then (idx, picked)
      else
        (let sid = ids ! (unat idx mod length ids) in
         pick_pass acceptable ids want k (idx + 1)
           (if acceptable sid \<and> sid \<notin> set picked then picked @ [sid] else picked)))"

definition next_script_ids :: "('f :: linorder) score_ops \<Rightarrow> nat \<Rightarrow> nat \<Rightarrow> 'f script_pool \<Rightarrow> 'f script_pool \<times> string list" where
  "next_script_ids ops now want sp =
     (let ids = sp_script_ids sp; n = length ids in
      if n = 0 then (sp, [])
      else
        (let slow = slow_set ops now sp; bl = prune_blacklist now (sp_blacklist sp);
             listed = (\<lambda>sid. map_of bl sid \<noteq> None);
             (i, picked1) = pick_pass (\<lambda>sid. \<not> listed sid \<and> sid \<notin> slow) ids want n (sp_script_idx sp) [];
             (j, picked2) = (if length picked1 < want then pick_pass (\<lambda>sid. \<not> listed sid) ids want n i picked1 else (i, picked1))
         in (sp\<lparr>sp_script_idx := j, sp_blacklist := bl\<rparr>, if picked2 = [] then [ids ! 0] else picked2)))"

section \<open>Strikes and latencies\<close>

definition record_timeout_strike :: "nat \<Rightarrow> string \<Rightarrow> 'f script_pool \<Rightarrow> 'f script_pool" where
  "record_timeout_strike now sid sp =
     (let old = (case map_of (sp_timeouts sp) sid of Some e \<Rightarrow> e | None \<Rightarrow> (now, 0));
          entry = (if sp_window sp < now - fst old then (now, 1) else (fst old, snd old + 1))
      in if sp_strikes sp \<le> snd entry
         then blacklist_script_for now sid (sp_cooldown sp) (sp\<lparr>sp_timeouts := AList.delete sid (sp_timeouts sp)\<rparr>)
         else sp\<lparr>sp_timeouts := AList.update sid entry (sp_timeouts sp)\<rparr>)"

definition record_batch_success :: "string \<Rightarrow> 'f script_pool \<Rightarrow> 'f script_pool" where
  "record_batch_success sid sp = sp\<lparr>sp_timeouts := AList.delete sid (sp_timeouts sp)\<rparr>"

definition record_batch_latency :: "('f :: linorder) score_ops \<Rightarrow> nat \<Rightarrow> string \<Rightarrow> nat \<Rightarrow> 'f script_pool \<Rightarrow> 'f script_pool" where
  "record_batch_latency ops now sid latency sp =
     (let ms = so_ms ops latency;
          score = (case map_of (sp_latency_ewma sp) sid of Some (s, _) \<Rightarrow> so_ewma ops ms s | None \<Rightarrow> ms);
          sp' = sp\<lparr>sp_latency_ewma := AList.update sid (score, now) (sp_latency_ewma sp)\<rparr>
      in if LATENCY_MIN_DEPLOYMENTS \<le> length (sp_script_ids sp) \<and> so_hard_slow ops \<le> ms
         then blacklist_script_for now sid (LATENCY_HARD_SLOW_COOLDOWN_SECS * 1000) sp' else sp')"

section \<open>Error texts of the relay\<close>

datatype envelope_category = Quota | Auth | Deploy | Admin

definition QUOTA_PATTERNS :: "string list" where
  "QUOTA_PATTERNS =
     [''service invoked too many times'', ''invoked too many times'', ''too many times'', ''service invoked'', ''for one day'',
      ''per day'', ''daily limit'', ''quota exceeded'', ''quota'', ''rate limit'', ''limit exceeded'', ''bandwidth quota'',
      ''bandwidth exceeded'', ''too much upload bandwidth'', ''too much traffic'', ''transfer rate'', ''bandbreitenkontingent'',
      ''daten'' @ [CHR 0xC3, CHR 0xBC] @ ''bertragungsrate'', ''urlfetch'']"

definition AUTH_PATTERNS :: "string list" where
  "AUTH_PATTERNS = [''authorization is required'', ''unauthorized'', ''not authorized'', ''permission denied'', ''access denied'']"

definition DEPLOY_PATTERNS :: "string list" where
  "DEPLOY_PATTERNS =
     [''error code not_found'', ''not_found'', ''deployment version'', ''deployment id'', ''deployment not found'',
      ''missing library version'', ''script id'', ''scriptid'', ''no script'']"

definition ADMIN_PATTERNS :: "string list" where
  "ADMIN_PATTERNS =
     [''not permitted by your admin'', ''contact your administrator'', ''disabled. please contact'', ''domain policy has disabled'',
      ''administrator to enable'']"

definition classify_envelope_error :: "string \<Rightarrow> envelope_category option" where
  "classify_envelope_error msg =
     (let lower = to_ascii_lowercase msg; has = list_ex (contains lower) in
      if has QUOTA_PATTERNS then Some Quota
      else if has AUTH_PATTERNS then Some Auth
      else if has DEPLOY_PATTERNS then Some Deploy
      else if has ADMIN_PATTERNS then Some Admin
      else None)"

definition should_blacklist :: "nat \<Rightarrow> string \<Rightarrow> bool" where
  "should_blacklist status body \<longleftrightarrow> status = 429 \<or> status = 403 \<or> classify_envelope_error body \<noteq> None"

definition looks_like_quota_error :: "string \<Rightarrow> bool" where
  "looks_like_quota_error msg \<longleftrightarrow> classify_envelope_error msg = Some Quota"

section \<open>Probes\<close>

datatype probe_apply = Cleared | RewrittenInFlight | AlreadyExpired

fun probe_indicates_recovery :: "(bytes, fronter_error) result \<Rightarrow> bool" where
  "probe_indicates_recovery (Inr _) = True"
| "probe_indicates_recovery (Inl (FeRelay msg)) = (classify_envelope_error msg = None)"
| "probe_indicates_recovery (Inl _) = False"

definition probe_candidates :: "nat \<Rightarrow> 'f script_pool \<Rightarrow> 'f script_pool \<times> (string \<times> nat) list" where
  "probe_candidates now sp =
     (let bl = prune_blacklist now (sp_blacklist sp) in
      (sp\<lparr>sp_blacklist := bl\<rparr>, map (\<lambda>(s, e). (s, be_until e)) (filter (\<lambda>(_, e). be_probe_recoverable e) bl)))"

definition apply_probe_recovery :: "string \<Rightarrow> nat \<Rightarrow> 'f script_pool \<Rightarrow> 'f script_pool \<times> probe_apply" where
  "apply_probe_recovery sid captured_until sp =
     (case map_of (sp_blacklist sp) sid of
        None \<Rightarrow> (sp, AlreadyExpired)
      | Some e \<Rightarrow>
          if be_until e = captured_until then (sp\<lparr>sp_blacklist := AList.delete sid (sp_blacklist sp)\<rparr>, Cleared)
          else (sp, RewrittenInFlight))"

definition probe_one_sid :: "(string \<times> nat) \<Rightarrow> (bytes, fronter_error) result \<Rightarrow> 'f script_pool \<Rightarrow> 'f script_pool" where
  "probe_one_sid = (\<lambda>(sid, captured_until) result sp.
     if probe_indicates_recovery result then fst (apply_probe_recovery sid captured_until sp) else sp)"

section \<open>The round robin\<close>

definition rotation :: "string list \<Rightarrow> nat \<Rightarrow> nat \<Rightarrow> string list" where
  "rotation ids i k = map (\<lambda>j. ids ! ((i + j) mod length ids)) [0..<k]"

lemma rotation_Suc: "rotation ids i (Suc k) = ids ! (i mod length ids) # rotation ids (Suc i) k"
  by (simp add: rotation_def upt_conv_Cons map_Suc_upt [symmetric] del: upt_Suc)

lemma unat_inc: "unat (idx :: u64) + 1 < 2 ^ 64 \<Longrightarrow> unat (idx + 1) = Suc (unat idx)"
  by (simp add: unat_Suc_u64)

lemma scan_find:
  "unat idx + k \<le> 2 ^ 64 \<Longrightarrow> snd (scan P ids idx k) = find P (rotation ids (unat idx) k)"
proof (induction k arbitrary: idx)
  case (Suc k)
  show ?case
  proof (cases k)
    case 0
    then show ?thesis by (simp add: rotation_Suc Let_def) (simp add: rotation_def)
  next
    case (Suc k')
    with Suc.prems have "unat (idx + 1) = Suc (unat idx)" by (intro unat_inc) simp
    with Suc.IH [of "idx + 1"] Suc.prems show ?thesis by (simp add: rotation_Suc Let_def)
  qed
qed (simp add: rotation_def)

lemma scan_None_idx: "snd (scan P ids idx k) = None \<Longrightarrow> fst (scan P ids idx k) = idx + of_nat k"
  by (induction k arbitrary: idx) (auto simp: Let_def split: if_splits)

lemma mod_shift_inj: "inj_on (\<lambda>j. (i + j) mod n) {0..<n}" for n :: nat
proof (rule linorder_inj_onI)
  fix x y assume "x < y" "x \<in> {0..<n}" "y \<in> {0..<n}"
  then show "(i + x) mod n \<noteq> (i + y) mod n"
    using mod_eq_dvd_iff_nat [of "i + x" "i + y" n] nat_dvd_not_less [of "y - x" n] by auto
qed auto

lemma mod_shift_range: "(\<lambda>j. (i + j) mod n) ` {0..<n} = {0..<n}" for n :: nat
  by (rule card_subset_eq) (auto simp: card_image [OF mod_shift_inj])

lemma mset_rotation: "mset (rotation ids i (length ids)) = mset ids"
proof -
  let ?f = "\<lambda>j. (i + j) mod length ids"
  have "mset (rotation ids i (length ids)) = image_mset (\<lambda>m. ids ! m) (image_mset ?f (mset_set {0..<length ids}))"
    by (simp add: rotation_def image_mset.compositionality comp_def flip: mset_upt)
  also have "image_mset ?f (mset_set {0..<length ids}) = mset_set {0..<length ids}"
    by (simp add: image_mset_mset_set mod_shift_inj mod_shift_range)
  also have "image_mset (\<lambda>m. ids ! m) (mset_set {0..<length ids}) = mset (map (\<lambda>m. ids ! m) [0..<length ids])"
    by (simp flip: mset_upt)
  finally show ?thesis by (simp add: map_nth)
qed

lemma set_rotation: "set (rotation ids i (length ids)) = set ids"
  using arg_cong [OF mset_rotation, of set_mset] by simp

lemma find_rotation:
  "find P (rotation ids i (length ids)) = Some x \<Longrightarrow> x \<in> set ids \<and> P x"
  "find P (rotation ids i (length ids)) = None \<longleftrightarrow> \<not> (\<exists>x\<in>set ids. P x)"
  by (metis find_Some_iff nth_mem set_rotation) (auto simp: find_None_iff set_rotation)

section \<open>What selection guarantees\<close>

definition blacklisted :: "nat \<Rightarrow> 'f script_pool \<Rightarrow> string \<Rightarrow> bool" where
  "blacklisted now sp sid = (case map_of (sp_blacklist sp) sid of None \<Rightarrow> False | Some e \<Rightarrow> now < be_until e)"

lemma map_of_filter_distinct:
  "distinct (map fst al) \<Longrightarrow> map_of (filter (\<lambda>(_, e). P e) al) k = (case map_of al k of None \<Rightarrow> None | Some e \<Rightarrow> if P e then Some e else None)"
proof (induction al)
  case (Cons a al)
  obtain k' e where a: "a = (k', e)" by (cases a)
  have "k' \<notin> fst ` set al" using Cons.prems by (simp add: a)
  then have "map_of al k' = None" "map_of (filter (\<lambda>(_, e). P e) al) k' = None" by (auto simp: map_of_eq_None_iff)
  with Cons show ?case by (auto simp: a)
qed simp

lemma listed_iff: "distinct (map fst (sp_blacklist sp)) \<Longrightarrow>
    map_of (prune_blacklist now (sp_blacklist sp)) sid \<noteq> None \<longleftrightarrow> blacklisted now sp sid"
  by (simp add: prune_blacklist_def map_of_filter_distinct blacklisted_def split: option.splits)

lemma listed_None: "distinct (map fst (sp_blacklist sp)) \<Longrightarrow>
    map_of (prune_blacklist now (sp_blacklist sp)) sid = None \<longleftrightarrow> \<not> blacklisted now sp sid"
  using listed_iff by blast

lemma soonest_entry_None: "soonest_entry bl = None \<longleftrightarrow> bl = []"
  by (induction bl) (auto split: option.splits)

lemma soonest_entry_min:
  "soonest_entry bl = Some e \<Longrightarrow> e \<in> set bl \<and> (\<forall>f\<in>set bl. be_until (snd e) \<le> be_until (snd f))"
proof (induction bl arbitrary: e)
  case (Cons a bl)
  show ?case
  proof (cases "soonest_entry bl")
    case None
    with Cons.prems show ?thesis by (simp add: soonest_entry_None)
  next
    case (Some f)
    with Cons.IH [OF Some] Cons.prems show ?thesis by (auto split: if_splits)
  qed
qed simp

text \<open>C25: as long as the counter does not wrap, the chosen deployment is one that is neither blacklisted
  nor slow if there is one, else one that is not blacklisted if there is one, else the one whose
  cooldown ends first.\<close>

theorem selection_prefers_healthy:
  assumes ids: "sp_script_ids sp \<noteq> []" and wrap: "unat (sp_script_idx sp) + 2 * length (sp_script_ids sp) < 2 ^ 64"
    and dist: "distinct (map fst (sp_blacklist sp))"
  shows "\<exists>sid. snd (next_script_id ops now sp) = Some sid \<and>
     (if \<exists>s\<in>set (sp_script_ids sp). \<not> blacklisted now sp s \<and> s \<notin> slow_set ops now sp
      then sid \<in> set (sp_script_ids sp) \<and> \<not> blacklisted now sp sid \<and> sid \<notin> slow_set ops now sp
      else if \<exists>s\<in>set (sp_script_ids sp). \<not> blacklisted now sp s
      then sid \<in> set (sp_script_ids sp) \<and> \<not> blacklisted now sp sid
      else \<exists>e. (sid, e) \<in> set (sp_blacklist sp) \<and> now < be_until e \<and>
             list_all (\<lambda>(_, f). be_until f \<le> now \<or> be_until e \<le> be_until f) (sp_blacklist sp))"
proof -
  let ?ids = "sp_script_ids sp" and ?n = "length (sp_script_ids sp)" and ?slow = "slow_set ops now sp"
  let ?P = "\<lambda>sid. \<not> blacklisted now sp sid \<and> sid \<notin> ?slow" and ?Q = "\<lambda>sid. \<not> blacklisted now sp sid"
  obtain i r where s1: "scan ?P ?ids (sp_script_idx sp) ?n = (i, r)" by (cases "scan ?P ?ids (sp_script_idx sp) ?n")
  obtain j q where s2: "scan ?Q ?ids i ?n = (j, q)" by (cases "scan ?Q ?ids i ?n")
  have r: "r = find ?P (rotation ?ids (unat (sp_script_idx sp)) ?n)" using scan_find [of "sp_script_idx sp" ?n ?P ?ids] wrap s1 by simp
  have q: "q = find ?Q (rotation ?ids (unat i) ?n)" if "r = None"
  proof -
    have "i = sp_script_idx sp + of_nat ?n" using scan_None_idx [of ?P ?ids "sp_script_idx sp" ?n] s1 that by simp
    then have "unat i = unat (sp_script_idx sp) + ?n" using wrap by (simp add: unat_word_ariths unat_of_nat)
    then show ?thesis using scan_find [of i ?n ?Q ?ids] wrap s2 by simp
  qed
  have run: "snd (next_script_id ops now sp) = (case r of Some sid \<Rightarrow> Some sid | None \<Rightarrow> (case q of Some sid \<Rightarrow> Some sid | None \<Rightarrow>
      (case soonest_entry (prune_blacklist now (sp_blacklist sp)) of Some (sid, _) \<Rightarrow> Some sid | None \<Rightarrow> Some (?ids ! 0))))"
    using s1 s2 ids by (simp add: next_script_id_def Let_def listed_None [OF dist] split: option.splits)
  show ?thesis
  proof (cases r)
    case (Some sid)
    with r have "find ?P (rotation ?ids (unat (sp_script_idx sp)) ?n) = Some sid" by simp
    then have "sid \<in> set ?ids" "?P sid" using find_rotation(1) by blast+
    with run Some show ?thesis by auto
  next
    case None
    with r have "find ?P (rotation ?ids (unat (sp_script_idx sp)) ?n) = None" by simp
    then have noP: "\<not> (\<exists>s\<in>set ?ids. ?P s)" by (simp only: find_rotation(2)) blast
    show ?thesis
    proof (cases q)
      case (Some sid)
      with q [OF None] have "find ?Q (rotation ?ids (unat i) ?n) = Some sid" by simp
      then have "sid \<in> set ?ids" "?Q sid" using find_rotation(1) by blast+
      with run None Some noP show ?thesis by auto
    next
      case q_None: None
      with q [OF None] have "find ?Q (rotation ?ids (unat i) ?n) = None" by simp
      then have noQ: "\<not> (\<exists>s\<in>set ?ids. ?Q s)" by (simp only: find_rotation(2)) blast
      then have "blacklisted now sp (hd ?ids)" using ids by simp
      then have "prune_blacklist now (sp_blacklist sp) \<noteq> []" using listed_iff [OF dist, of now "hd ?ids"] by auto
      then obtain sid e where se: "soonest_entry (prune_blacklist now (sp_blacklist sp)) = Some (sid, e)"
        by (metis not_None_eq soonest_entry_None surj_pair)
      note m = soonest_entry_min [OF se]
      have "(sid, e) \<in> set (sp_blacklist sp)" "now < be_until e" using m by (auto simp: prune_blacklist_def)
      moreover have "list_all (\<lambda>(_, f). be_until f \<le> now \<or> be_until e \<le> be_until f) (sp_blacklist sp)"
        using m by (fastforce simp: prune_blacklist_def list_all_iff)
      ultimately show ?thesis using run None q_None noP noQ se by auto
    qed
  qed
qed

definition demo_ops :: "nat score_ops" where
  "demo_ops = \<lparr>so_ms = id, so_ewma = (\<lambda>a b. (3 * a + 7 * b) div 10), so_slow_threshold = (\<lambda>x. 2 * x), so_skip_min_median = 500, so_hard_slow = 6000\<rparr>"

definition demo_pool :: "nat script_pool" where
  "demo_pool = \<lparr>sp_script_ids = [''a'', ''b'', ''c''], sp_script_idx = 0, sp_blacklist = [(''a'', \<lparr>be_until = 9, be_probe_recoverable = True\<rparr>)],
     sp_timeouts = [], sp_latency_ewma = [(''a'', 600, 0), (''b'', 1500, 0), (''c'', 600, 0)], sp_strikes = 3, sp_window = 30000, sp_cooldown = 120000\<rparr>"

theorem selection_prefers_healthy_witness:
  "snd (next_script_id demo_ops 5 demo_pool) = Some ''c'' \<and> \<not> blacklisted 5 demo_pool ''c'' \<and> ''c'' \<notin> slow_set demo_ops 5 demo_pool"
proof -
  have slow: "slow_set demo_ops 5 demo_pool = {''b''}"
    by (simp add: slow_set_def compute_slow_set_def fresh_latency_snapshot_def demo_pool_def demo_ops_def LATENCY_FRESH_FOR_SECS_def
        LATENCY_MIN_DEPLOYMENTS_def)
  have bl: "blacklisted 5 demo_pool s = (s = ''a'')" for s by (simp add: blacklisted_def demo_pool_def)
  have ids: "sp_script_ids demo_pool = [''a'', ''b'', ''c'']" by (simp add: demo_pool_def)
  have "\<exists>sid. snd (next_script_id demo_ops 5 demo_pool) = Some sid \<and>
      (if \<exists>s\<in>set (sp_script_ids demo_pool). \<not> blacklisted 5 demo_pool s \<and> s \<notin> slow_set demo_ops 5 demo_pool
       then sid \<in> set (sp_script_ids demo_pool) \<and> \<not> blacklisted 5 demo_pool sid \<and> sid \<notin> slow_set demo_ops 5 demo_pool
       else if \<exists>s\<in>set (sp_script_ids demo_pool). \<not> blacklisted 5 demo_pool s
       then sid \<in> set (sp_script_ids demo_pool) \<and> \<not> blacklisted 5 demo_pool sid
       else \<exists>e. (sid, e) \<in> set (sp_blacklist demo_pool) \<and> 5 < be_until e \<and>
              list_all (\<lambda>(_, f). be_until f \<le> 5 \<or> be_until e \<le> be_until f) (sp_blacklist demo_pool))"
    by (rule selection_prefers_healthy) (simp_all add: demo_pool_def)
  then show ?thesis by (auto simp: slow bl ids)
qed

text \<open>A sequence of selections.\<close>

fun selections :: "('f :: linorder) score_ops \<Rightarrow> nat list \<Rightarrow> 'f script_pool \<Rightarrow> string option list" where
  "selections ops [] sp = []"
| "selections ops (now # ts) sp = (case next_script_id ops now sp of (sp', r) \<Rightarrow> r # selections ops ts sp')"

lemma next_script_id_plain:
  assumes "sp_blacklist sp = []" "sp_latency_ewma sp = []" "sp_script_ids sp \<noteq> []"
  shows "next_script_id ops now sp
     = (sp\<lparr>sp_script_idx := sp_script_idx sp + 1\<rparr>, Some (sp_script_ids sp ! (unat (sp_script_idx sp) mod length (sp_script_ids sp))))"
proof -
  have "slow_set ops now sp = {}"
    using assms(2) by (simp add: slow_set_def compute_slow_set_def fresh_latency_snapshot_def LATENCY_MIN_DEPLOYMENTS_def)
  moreover obtain n where "length (sp_script_ids sp) = Suc n" using assms(3) by (cases "sp_script_ids sp") auto
  ultimately show ?thesis using assms by (simp add: next_script_id_def prune_blacklist_def Let_def)
qed

lemma selections_plain:
  assumes "sp_blacklist sp = []" "sp_latency_ewma sp = []" "sp_script_ids sp \<noteq> []" "unat (sp_script_idx sp) + length ts < 2 ^ 64"
  shows "selections ops ts sp = map Some (rotation (sp_script_ids sp) (unat (sp_script_idx sp)) (length ts))"
  using assms
proof (induction ts arbitrary: sp)
  case (Cons now ts)
  have "unat (sp_script_idx sp + 1) = Suc (unat (sp_script_idx sp))" using Cons.prems(4) by (intro unat_inc) simp
  with Cons show ?case by (simp add: next_script_id_plain rotation_Suc)
qed (simp add: rotation_def)

text \<open>With nothing blacklisted or slow, any \<open>n\<close> selections in a row from \<open>n\<close> deployments use every
  deployment exactly as often as it is configured.\<close>

theorem selection_fair:
  assumes "sp_blacklist sp = []" "sp_latency_ewma sp = []" "sp_script_ids sp \<noteq> []"
    "length ts = length (sp_script_ids sp)" "unat (sp_script_idx sp) + length ts < 2 ^ 64"
  shows "mset (selections ops ts sp) = image_mset Some (mset (sp_script_ids sp))"
  using assms mset_rotation [of "sp_script_ids sp" "unat (sp_script_idx sp)"] by (simp add: selections_plain)

theorem selection_fair_witness:
  "mset (selections demo_ops [1, 2, 3] (demo_pool\<lparr>sp_blacklist := [], sp_latency_ewma := []\<rparr>)) = {#Some ''a'', Some ''b'', Some ''c''#}"
  using selection_fair [of "demo_pool\<lparr>sp_blacklist := [], sp_latency_ewma := []\<rparr>" "[1, 2, 3]" demo_ops]
  by (simp add: demo_pool_def)

section \<open>Cooldowns\<close>

text \<open>Strikes within a window of the first one blacklist at their limit and not before.\<close>

lemma strikes_exact:
  assumes "map_of (sp_timeouts sp) sid = None" "list_all (\<lambda>t. t - t0 \<le> sp_window sp) ts" "length (t0 # ts) < sp_strikes sp"
  shows "sp_blacklist (fold (\<lambda>t. record_timeout_strike t sid) (t0 # ts) sp) = sp_blacklist sp
     \<and> map_of (sp_timeouts (fold (\<lambda>t. record_timeout_strike t sid) (t0 # ts) sp)) sid = Some (t0, length (t0 # ts))"
  using assms(2,3)
proof (induction ts rule: rev_induct)
  case Nil
  then show ?case using assms(1) by (simp add: record_timeout_strike_def Let_def update_conv')
next
  case (snoc t ts)
  have cfg: "sp_window (fold (\<lambda>t. record_timeout_strike t sid) xs sp) = sp_window sp \<and> sp_strikes (fold (\<lambda>t. record_timeout_strike t sid) xs sp) = sp_strikes sp" for xs
    by (induction xs arbitrary: sp) (auto simp: record_timeout_strike_def blacklist_script_for_def blacklist_script_inner_def Let_def)
  from snoc cfg [of "t0 # ts"] show ?case
    by (simp add: record_timeout_strike_def [of t] Let_def update_conv' not_le)
qed

lemma last_strike_blacklists:
  assumes "map_of (sp_timeouts sp) sid = Some (t0, n)" "t - t0 \<le> sp_window sp" "sp_strikes sp = n + 1"
  shows "map_of (sp_blacklist (record_timeout_strike t sid sp)) sid = Some \<lparr>be_until = t + sp_cooldown sp, be_probe_recoverable = False\<rparr>
     \<and> map_of (sp_timeouts (record_timeout_strike t sid sp)) sid = None"
  using assms by (simp add: record_timeout_strike_def Let_def blacklist_script_for_def blacklist_script_inner_def update_conv' delete_conv')

text \<open>A probe clears nothing that was written after it read its candidates.\<close>

lemma probe_keeps_rewritten:
  assumes "map_of (sp_blacklist sp) sid = Some e" "be_until e \<noteq> captured"
  shows "probe_one_sid (sid, captured) result sp = sp"
  using assms by (simp add: probe_one_sid_def apply_probe_recovery_def)

text \<open>A slow success of a deployment that is blacklisted for longer replaces the entry: from 30
  seconds later on the deployment is used again although its cooldown has not ended, and its probe is off.\<close>

theorem slow_success_cuts_cooldown:
  assumes "LATENCY_MIN_DEPLOYMENTS \<le> length (sp_script_ids sp)" "so_hard_slow ops \<le> so_ms ops latency"
    "map_of (sp_blacklist sp) sid = Some e" "t + LATENCY_HARD_SLOW_COOLDOWN_SECS * 1000 < be_until e"
  shows "blacklisted (t + LATENCY_HARD_SLOW_COOLDOWN_SECS * 1000) sp sid
     \<and> \<not> blacklisted (t + LATENCY_HARD_SLOW_COOLDOWN_SECS * 1000) (record_batch_latency ops t sid latency sp) sid
     \<and> map_option be_probe_recoverable (map_of (sp_blacklist (record_batch_latency ops t sid latency sp)) sid) = Some False"
  using assms
  by (simp add: record_batch_latency_def Let_def blacklist_script_for_def blacklist_script_inner_def blacklisted_def update_conv')

theorem slow_success_cuts_cooldown_witness:
  "blacklisted 31000 (blacklist_script 0 ''a'' demo_pool) ''a''
   \<and> \<not> blacklisted 31000 (record_batch_latency demo_ops 1000 ''a'' 7000 (blacklist_script 0 ''a'' demo_pool)) ''a''"
  using slow_success_cuts_cooldown [of "blacklist_script 0 ''a'' demo_pool" demo_ops 7000 "''a''"
      "\<lparr>be_until = 600000, be_probe_recoverable = True\<rparr>" 1000]
  by (simp add: LATENCY_HARD_SLOW_COOLDOWN_SECS_def LATENCY_FRESH_FOR_SECS_def LATENCY_MIN_DEPLOYMENTS_def demo_ops_def demo_pool_def
      blacklist_script_def blacklist_script_inner_def BLACKLIST_COOLDOWN_SECS_def)

end
