(* ===== verification/Relay_Envelope.thy ===== *)
theory Relay_Envelope
  imports Fronter_Http
begin

text \<open>
  What the domain fronter (\<^verbatim>\<open>src/src/domain_fronter.rs\<close>) makes of the JSON envelopes of the Apps Script relay and
  of the exit node: finding the JSON in the relay's body, the sandbox wrapper with its escapes, the
  decision to decode or keep a content coding, and the rebuilt HTTP response; and which of the
  browser's headers are forwarded. \<^verbatim>\<open>serde_json\<close>, base64 and the decompressors are the fields of
  \<open>relay_lib\<close>. A value is missing where the code panics. Shown: a response is rebuilt with the body it
  carries and a content coding is dropped only when the body is plain; no header that reveals the
  client is forwarded; a page without JSON can end the task with a panic.
\<close>

section \<open>JSON values\<close>

text \<open>A number is the text \<^verbatim>\<open>serde_json\<close> prints for it.\<close>

datatype jvalue = JNull | JBool bool | JNumber string | JString string | JArray "jvalue list" | JObject "(string \<times> jvalue) list"

fun as_str :: "jvalue \<Rightarrow> string option" where
  "as_str (JString s) = Some s"
| "as_str _ = None"

fun as_u64 :: "jvalue \<Rightarrow> nat option" where
  "as_u64 (JNumber s) = (if s \<noteq> [] \<and> hd s = CHR ''+'' then None else parse_uint (2 ^ 64) s)"
| "as_u64 _ = None"

fun jget :: "string \<Rightarrow> jvalue \<Rightarrow> jvalue option" where
  "jget k (JObject m) = map_of m k"
| "jget k _ = None"

fun header_string_value :: "jvalue \<Rightarrow> string option" where
  "header_string_value (JString s) = Some s"
| "header_string_value (JArray arr) =
     (case List.map_filter as_str arr of
        [] \<Rightarrow> None
      | p # ps \<Rightarrow> Some (concat (p # map (\<lambda>q. '', '' @ q) ps)))"
| "header_string_value _ = None"

fun value_to_header_str :: "jvalue \<Rightarrow> string option" where
  "value_to_header_str (JString s) = Some s"
| "value_to_header_str (JNumber n) = Some n"
| "value_to_header_str (JBool b) = Some (if b then ''true'' else ''false'')"
| "value_to_header_str _ = None"

record relay_response =
  rr_s :: "nat option"
  rr_h :: "(string \<times> jvalue) list option"
  rr_b :: "string option"
  rr_e :: "string option"

record relay_lib =
  rl_response :: "string \<Rightarrow> (relay_response, string) result"
  rl_value :: "string \<Rightarrow> (jvalue, string) result"
  rl_b64 :: "string \<Rightarrow> (bytes, string) result"
  rl_gzip :: "bytes \<Rightarrow> bytes \<times> bool"
  rl_brotli :: "bytes \<Rightarrow> bytes \<times> bool"
  rl_zstd_frame :: "bytes \<Rightarrow> (nat option \<times> nat) option"
  rl_zstd :: "bytes \<Rightarrow> (bytes \<times> bool) option"

section \<open>Decompression\<close>

text \<open>A decompressor gives the bytes of its output and whether it ended without an error after them. The
  header of a zstd frame has a window size, unless that is invalid, and a content size; a zstd decoder
  can be refused. A reader that is cut off after \<open>n\<close> bytes does not see what comes after them.\<close>

definition MAX_DECOMPRESSED_BYTES :: nat where "MAX_DECOMPRESSED_BYTES = 64 * 1024 * 1024"

definition read_to_end :: "bytes \<times> bool \<Rightarrow> bytes option" where
  "read_to_end d = (case d of (out, fine) \<Rightarrow> if fine then Some out else None)"

definition read_at_most :: "nat \<Rightarrow> bytes \<times> bool \<Rightarrow> bytes option" where
  "read_at_most n d = (case d of (out, fine) \<Rightarrow> if n \<le> length out then Some (take n out) else if fine then Some out else None)"

definition capped :: "bytes \<times> bool \<Rightarrow> bytes option" where
  "capped d =
     (case read_at_most (MAX_DECOMPRESSED_BYTES + 1) d of
        None \<Rightarrow> None
      | Some out \<Rightarrow> if MAX_DECOMPRESSED_BYTES < length out then None else Some out)"

definition decode_gzip :: "relay_lib \<Rightarrow> bytes \<Rightarrow> bytes option" where
  "decode_gzip L data = read_to_end (rl_gzip L data)"

definition decode_brotli :: "relay_lib \<Rightarrow> bytes \<Rightarrow> bytes option" where
  "decode_brotli L data = capped (rl_brotli L data)"

definition decode_zstd :: "relay_lib \<Rightarrow> bytes \<Rightarrow> bytes option" where
  "decode_zstd L data =
     (case rl_zstd_frame L data of
        None \<Rightarrow> None
      | Some (None, _) \<Rightarrow> None
      | Some (Some window_size, declared_content) \<Rightarrow>
          if MAX_DECOMPRESSED_BYTES < window_size then None
          else if MAX_DECOMPRESSED_BYTES < declared_content then None
          else Option.bind (rl_zstd L data) capped)"

section \<open>The sandbox wrapper\<close>

text \<open>The UTF-8 form of a character below \<open>2 ^ 16\<close>, as \<^verbatim>\<open>String::push\<close> appends it.\<close>

definition push_char :: "nat \<Rightarrow> string" where
  "push_char v =
     (if v < 0x80 then [char_of v]
      else if v < 0x800 then [char_of (0xC0 + v div 64), char_of (0x80 + v mod 64)]
      else [char_of (0xE0 + v div 4096), char_of (0x80 + v div 64 mod 64), char_of (0x80 + v mod 64)])"

definition hex_value :: "nat \<Rightarrow> string \<Rightarrow> nat option" where
  "hex_value n s = (if length (take n s) < n then None else parse_hex (take n s))"

definition simple_escape :: "char \<Rightarrow> char option" where
  "simple_escape c =
     map_of [(CHR 0x5C, CHR 0x5C), (CHR 0x22, CHR 0x22), (CHR 0x27, CHR 0x27), (CHR ''/'', CHR ''/''), (CHR ''n'', CHR 0x0A),
       (CHR ''r'', CHR 0x0D), (CHR ''t'', CHR 0x09), (CHR ''b'', CHR 0x08), (CHR ''f'', CHR 0x0C)] c"

text \<open>\<^verbatim>\<open>from_str_radix\<close> takes a leading plus sign, so \<^verbatim>\<open>\x+7\<close> is an escape too.\<close>

function decode_js_string_escapes :: "string \<Rightarrow> string option" where
  "decode_js_string_escapes s =
     (case s of
        [] \<Rightarrow> Some []
      | c # r \<Rightarrow>
          if c \<noteq> CHR 0x5C then map_option (\<lambda>t. push_char (of_char c) @ t) (decode_js_string_escapes r)
          else (case r of
                  [] \<Rightarrow> None
                | e # r' \<Rightarrow>
                    if e = CHR ''x''
                    then Option.bind (hex_value 2 r') (\<lambda>v. map_option (\<lambda>t. push_char v @ t) (decode_js_string_escapes (drop 2 r')))
                    else if e = CHR ''u''
                    then Option.bind (hex_value 4 r') (\<lambda>v.
                      if 0xD800 \<le> v \<and> v < 0xE000 then None
                      else map_option (\<lambda>t. push_char v @ t) (decode_js_string_escapes (drop 4 r')))
                    else Option.bind (simple_escape e) (\<lambda>x. map_option (Cons x) (decode_js_string_escapes r'))))"
  by pat_completeness auto
termination
  by (relation "measure length") auto

declare decode_js_string_escapes.simps [simp del]

definition extract_apps_script_user_html :: "relay_lib \<Rightarrow> string \<Rightarrow> string option" where
  "extract_apps_script_user_html L text =
     Option.bind (split_once_str (''goog.script.init('' @ [CHR 0x22]) text) (\<lambda>(_, rest).
     Option.bind (split_once_str ([CHR 0x22] @ '', '' @ [CHR 0x22, CHR 0x22] @ '', undefined'') rest) (\<lambda>(encoded, _).
     Option.bind (decode_js_string_escapes encoded) (\<lambda>decoded.
     Option.bind (ok (rl_value L decoded)) (\<lambda>outer.
     Option.bind (jget ''userHtml'' outer) as_str))))"

section \<open>Finding the envelope\<close>

definition utf8_cont_char :: "char \<Rightarrow> bool" where "utf8_cont_char c \<longleftrightarrow> 128 \<le> (of_char c :: nat) \<and> (of_char c :: nat) < 192"

text \<open>\<^verbatim>\<open>&text[..n]\<close>: a panic when the cut is not between two characters.\<close>

definition slice_to :: "string \<Rightarrow> nat \<Rightarrow> string option" where
  "slice_to s n = (if n < length s \<and> utf8_cont_char (s ! n) then None else Some (take n s))"

definition head_text :: "string \<Rightarrow> string option" where "head_text s = slice_to s (min (length s) 200)"

text \<open>\<^verbatim>\<open>chars().take(200)\<close>: whole characters.\<close>

fun take_chars :: "nat \<Rightarrow> string \<Rightarrow> string" where
  "take_chars n [] = []"
| "take_chars n (c # cs) =
     (if utf8_cont_char c then c # take_chars n cs
      else (case n of 0 \<Rightarrow> [] | Suc m \<Rightarrow> c # take_chars m cs))"

definition bad :: "string \<Rightarrow> ('a, fronter_error) result option" where "bad m = Some (Inl (FeBadResponse m))"

definition brace_span :: "string \<Rightarrow> string option" where
  "brace_span text =
     Option.bind (split_once (CHR ''{'') text) (\<lambda>(pre, _).
     Option.bind (rsplit_once (CHR ''}'') text) (\<lambda>(upto, _).
     if length upto < length pre then None else Some (drop (length pre) (upto @ ''}''))))"

definition find_envelope :: "relay_lib \<Rightarrow> string \<Rightarrow> (relay_response, fronter_error) result option" where
  "find_envelope L text =
     (case rl_response L text of
        Inr v \<Rightarrow> Some (Inr v)
      | Inl _ \<Rightarrow>
          (case extract_apps_script_user_html L text of
             Some unwrapped \<Rightarrow>
               (case rl_response L unwrapped of
                  Inr v \<Rightarrow> Some (Inr v)
                | Inl _ \<Rightarrow> Option.bind (head_text unwrapped) (\<lambda>h. bad (''no json in apps_script user_html: '' @ h)))
           | None \<Rightarrow>
               if CHR ''{'' \<notin> set text then Option.bind (head_text text) (\<lambda>h. bad (''no json in: '' @ h))
               else if CHR ''}'' \<notin> set text then Option.bind (head_text text) (\<lambda>h. bad (''no json end in: '' @ h))
               else (case brace_span text of
                       None \<Rightarrow> bad (''no valid json object in: '' @ take_chars 200 text)
                     | Some span \<Rightarrow> Some (map_sum FeJson id (rl_response L span)))))"

section \<open>Content codings\<close>

definition coding_tokens :: "string \<Rightarrow> string list" where
  "coding_tokens v =
     filter (\<lambda>t. t \<noteq> [] \<and> t \<noteq> ''identity'') (map (\<lambda>t. to_ascii_lowercase (trim t)) (split_all (CHR '','') v))"

definition envelope_coding :: "(string \<times> jvalue) list \<Rightarrow> string list" where
  "envelope_coding h =
     (case Option.bind (map_option snd (find (\<lambda>(k, v). eq_ignore_ascii_case k ''content-encoding'') h)) header_string_value of
        None \<Rightarrow> []
      | Some v \<Rightarrow> coding_tokens v)"

text \<open>A decoder's result with what becomes of the header: the decoded body without it, or the body as
  it is with it.\<close>

definition decode_or_keep :: "bytes option \<Rightarrow> bytes \<Rightarrow> bytes \<times> bool" where
  "decode_or_keep d body = (case d of Some x \<Rightarrow> (x, True) | None \<Rightarrow> (body, False))"

definition relay_decode :: "relay_lib \<Rightarrow> bool \<Rightarrow> (string \<times> jvalue) list option \<Rightarrow> bytes \<Rightarrow> bytes \<times> bool" where
  "relay_decode L allow_brotli_zstd h body =
     (if body = [] then (body, True)
      else (case h of
              None \<Rightarrow> (body, True)
            | Some hmap \<Rightarrow>
                (case envelope_coding hmap of
                   [] \<Rightarrow> (body, True)
                 | [t] \<Rightarrow>
                     if t = ''gzip'' then (body, True)
                     else if t = ''br'' \<and> allow_brotli_zstd then decode_or_keep (decode_brotli L body) body
                     else if t = ''zstd'' \<and> allow_brotli_zstd then decode_or_keep (decode_zstd L body) body
                     else (body, False)
                 | _ \<Rightarrow> (body, False))))"

definition exit_decode :: "relay_lib \<Rightarrow> bool \<Rightarrow> (string \<times> jvalue) list option \<Rightarrow> bytes \<Rightarrow> bytes \<times> bool" where
  "exit_decode L allow_brotli_zstd h body =
     (if body = [] then (body, True)
      else (case h of
              None \<Rightarrow> (body, True)
            | Some hmap \<Rightarrow>
                (case envelope_coding hmap of
                   [] \<Rightarrow> (body, True)
                 | [t] \<Rightarrow>
                     if t = ''gzip'' then decode_or_keep (decode_gzip L body) body
                     else if t = ''br'' \<and> allow_brotli_zstd then decode_or_keep (decode_brotli L body) body
                     else if t = ''zstd'' \<and> allow_brotli_zstd then decode_or_keep (decode_zstd L body) body
                     else (body, \<not> allow_brotli_zstd)
                 | _ \<Rightarrow> (body, \<not> allow_brotli_zstd))))"

section \<open>Rebuilding the response\<close>

definition base_skip :: "string \<Rightarrow> bool" where
  "base_skip lk \<longleftrightarrow> lk \<in> {''transfer-encoding'', ''connection'', ''keep-alive'', ''content-length''}"

definition kept_key :: "bool \<Rightarrow> string \<Rightarrow> bool" where
  "kept_key strip k \<longleftrightarrow> (let lk = to_ascii_lowercase k in \<not> base_skip lk \<and> \<not> (lk = ''content-encoding'' \<and> strip))"

definition relay_header_values :: "jvalue \<Rightarrow> string list" where
  "relay_header_values v =
     (case v of JArray arr \<Rightarrow> List.map_filter value_to_header_str arr
      | other \<Rightarrow> (case value_to_header_str other of Some s \<Rightarrow> [s] | None \<Rightarrow> []))"

definition relay_headers :: "bool \<Rightarrow> (string \<times> jvalue) list \<Rightarrow> header list" where
  "relay_headers strip h = concat (map (\<lambda>(k, v). if kept_key strip k then map (Pair k) (relay_header_values v) else []) h)"

definition exit_headers :: "bool \<Rightarrow> (string \<times> jvalue) list \<Rightarrow> header list" where
  "exit_headers strip h =
     concat (map (\<lambda>(k, v). if kept_key strip k then (case as_str v of Some s \<Rightarrow> [(k, s)] | None \<Rightarrow> []) else []) h)"

definition build_response :: "string \<Rightarrow> header list \<Rightarrow> bytes \<Rightarrow> bytes" where
  "build_response status_line hs body =
     as_bytes (status_line @ crlf_str @ concat (map header_line hs) @ ''Content-Length: '' @ dec_show (length body) @ crlf_str @ crlf_str) @ body"

definition parse_relay_json :: "relay_lib \<Rightarrow> bool \<Rightarrow> bytes \<Rightarrow> (bytes, fronter_error) result option" where
  "parse_relay_json L allow_brotli_zstd body =
     (if \<not> utf8_valid body then bad ''non-utf8 json''
      else
        (let text = trim (str_of_bytes body) in
         if text = [] then bad ''empty relay body''
         else
           Option.bind (find_envelope L text) (\<lambda>r.
             case r of
               Inl e \<Rightarrow> Some (Inl e)
             | Inr data \<Rightarrow>
                 (case rr_e data of
                    Some e \<Rightarrow> Some (Inl (FeRelay e))
                  | None \<Rightarrow>
                      (let status = (case rr_s data of Some s \<Rightarrow> s | None \<Rightarrow> 200) in
                       case (case rr_b data of Some b \<Rightarrow> rl_b64 L b | None \<Rightarrow> Inr []) of
                         Inl e \<Rightarrow> bad (''bad relay body base64: '' @ e)
                       | Inr raw \<Rightarrow>
                           (case relay_decode L allow_brotli_zstd (rr_h data) raw of (resp_body, strip) \<Rightarrow>
                              Some (Inr (build_response (''HTTP/1.1 '' @ dec_show status @ '' '' @ status_text status)
                                (case rr_h data of Some h \<Rightarrow> relay_headers strip h | None \<Rightarrow> []) resp_body))))))))"

definition status_reason :: "nat \<Rightarrow> string" where
  "status_reason status =
     (case map_of
        [(200, ''OK''), (201, ''Created''), (204, ''No Content''), (301, ''Moved Permanently''), (302, ''Found''), (303, ''See Other''),
         (304, ''Not Modified''), (307, ''Temporary Redirect''), (308, ''Permanent Redirect''), (400, ''Bad Request''),
         (401, ''Unauthorized''), (403, ''Forbidden''), (404, ''Not Found''), (405, ''Method Not Allowed''), (408, ''Request Timeout''),
         (429, ''Too Many Requests''), (500, ''Internal Server Error''), (502, ''Bad Gateway''), (503, ''Service Unavailable''),
         (504, ''Gateway Timeout'')] status of
        Some t \<Rightarrow> t
      | None \<Rightarrow> ''Status'')"

definition is_object :: "jvalue \<Rightarrow> bool" where "is_object v = (case v of JObject _ \<Rightarrow> True | _ \<Rightarrow> False)"

definition looks_like_exit_node_envelope :: "relay_lib \<Rightarrow> bytes \<Rightarrow> bool" where
  "looks_like_exit_node_envelope L bs =
     (case rl_value L (str_of_bytes bs) of
        Inl _ \<Rightarrow> False
      | Inr v \<Rightarrow>
          Option.bind (jget ''s'' v) as_u64 \<noteq> None
          \<and> (case jget ''h'' v of Some x \<Rightarrow> is_object x | None \<Rightarrow> False)
          \<and> Option.bind (jget ''b'' v) as_str \<noteq> None)"

definition double_wrap_message :: string where
  "double_wrap_message =
     ''exit-node response was double-wrapped '' @ [CHR 0xE2, CHR 0x80, CHR 0x94]
     @ '' at least one relay layer is still running pre-v2.0.2 code that ignores the '' @ [CHR 0x60]
     @ ''raw: true'' @ [CHR 0x60] @ '' flag. Redeploy BOTH of these:'' @ [CHR 0x0A]
     @ ''  1. Apps Script: paste assets/apps_script/Code.gs (or Code.cfw.gs in CFW mode), then Deploy ''
     @ [CHR 0xE2, CHR 0x86, CHR 0x92] @ '' Manage deployments '' @ [CHR 0xE2, CHR 0x86, CHR 0x92]
     @ '' pencil icon '' @ [CHR 0xE2, CHR 0x86, CHR 0x92] @ '' Version: New version ''
     @ [CHR 0xE2, CHR 0x86, CHR 0x92]
     @ '' Deploy. Saving without cutting a new version keeps the old code live at /exec.'' @ [CHR 0x0A]
     @ ''  2. Cloudflare Worker (only in CFW mode): paste assets/cloudflare/worker.js, then click '' @ [CHR 0x22]
     @ ''Save and deploy'' @ [CHR 0x22] @ '' in the dashboard editor '' @ [CHR 0xE2, CHR 0x80, CHR 0x94] @ '' ''
     @ [CHR 0x22] @ ''Save'' @ [CHR 0x22] @ '' alone only saves the draft.'' @ [CHR 0x0A]
     @ ''Pasting code is not enough on either platform; both require an explicit deploy click.''"

definition exit_object :: "jvalue \<Rightarrow> (string \<times> jvalue) list option" where
  "exit_object v = (case jget ''h'' v of Some (JObject m) \<Rightarrow> Some m | _ \<Rightarrow> None)"

definition parse_exit_node_response :: "relay_lib \<Rightarrow> bool \<Rightarrow> bytes \<Rightarrow> (bytes, fronter_error) result" where
  "parse_exit_node_response L allow_brotli_zstd body =
     (let json_bytes = (case find_window CRLF2 body of Some i \<Rightarrow> drop (i + 4) body | None \<Rightarrow> body) in
      case rl_value L (str_of_bytes json_bytes) of
        Inl e \<Rightarrow> Inl (FeRelay (''exit-node response not valid JSON ('' @ e @ ''): ''
                   @ str_of_bytes (from_utf8_lossy (take (min (length json_bytes) 200) json_bytes))))
      | Inr v \<Rightarrow>
          (case Option.bind (jget ''e'' v) as_str of
             Some m \<Rightarrow> Inl (FeRelay (''exit node refused or errored: '' @ m))
           | None \<Rightarrow>
               (let status = (case Option.bind (jget ''s'' v) as_u64 of Some n \<Rightarrow> n mod 2 ^ 16 | None \<Rightarrow> 502);
                    b64 = (case Option.bind (jget ''b'' v) as_str of Some b \<Rightarrow> b | None \<Rightarrow> [])
                in case (if b64 = [] then Inr [] else rl_b64 L b64) of
                     Inl e \<Rightarrow> Inl (FeRelay (''exit-node body base64 decode failed: '' @ e))
                   | Inr raw \<Rightarrow>
                       if looks_like_exit_node_envelope L raw then Inl (FeRelay double_wrap_message)
                       else (case exit_decode L allow_brotli_zstd (exit_object v) raw of (body_bytes, strip) \<Rightarrow>
                               Inr (build_response (''HTTP/1.1 '' @ dec_show status @ '' '' @ status_reason status)
                                 (case exit_object v of Some h \<Rightarrow> exit_headers strip h | None \<Rightarrow> []) body_bytes)))))"

section \<open>Forwarded headers\<close>

definition SKIP :: "string list" where
  "SKIP =
     [''host'', ''connection'', ''content-length'', ''transfer-encoding'', ''proxy-connection'', ''proxy-authorization'',
      ''x-forwarded-for'', ''x-forwarded-host'', ''x-forwarded-proto'', ''x-forwarded-port'', ''x-forwarded-server'',
      ''x-forwarded-ssl'', ''forwarded'', ''via'', ''x-real-ip'', ''x-client-ip'', ''x-originating-ip'', ''true-client-ip'',
      ''cf-connecting-ip'', ''fastly-client-ip'', ''x-cluster-client-ip'', ''client-ip'']"

definition join_with :: "string \<Rightarrow> string list \<Rightarrow> string" where
  "join_with sep ps = (case ps of [] \<Rightarrow> [] | p # qs \<Rightarrow> concat (p # map (\<lambda>q. sep @ q) qs))"

definition coding_name :: "string \<Rightarrow> string" where
  "coding_name p = to_ascii_lowercase (trim (hd (split_all (CHR '';'') p)))"

definition strip_brotli_from_accept_encoding :: "string \<Rightarrow> string" where
  "strip_brotli_from_accept_encoding v =
     join_with '', '' (filter (\<lambda>p. coding_name p \<notin> {''br'', ''zstd''}) (map trim (split_all (CHR '','') v)))"

definition forward_one :: "bool \<Rightarrow> header \<Rightarrow> header option" where
  "forward_one allow_brotli_zstd = (\<lambda>(k, v).
     let lk = to_ascii_lowercase k in
     if lk \<in> set SKIP then None
     else if lk = ''accept-encoding''
     then (if allow_brotli_zstd then Some (k, v)
           else (let cleaned = strip_brotli_from_accept_encoding v in if cleaned = [] then None else Some (k, cleaned)))
     else Some (k, v))"

definition filter_forwarded_headers_with_brotli_zstd :: "bool \<Rightarrow> header list \<Rightarrow> header list" where
  "filter_forwarded_headers_with_brotli_zstd allow_brotli_zstd headers = List.map_filter (forward_one allow_brotli_zstd) headers"

definition filter_forwarded_headers :: "header list \<Rightarrow> header list" where
  "filter_forwarded_headers headers = filter_forwarded_headers_with_brotli_zstd False headers"

section \<open>What is forwarded\<close>

lemma forward_one_cases:
  assumes "forward_one a (k, v) = r"
  obtains "to_ascii_lowercase k \<in> set SKIP" "r = None"
  | "to_ascii_lowercase k = ''accept-encoding''" "to_ascii_lowercase k \<notin> set SKIP" "r = None"
  | w where "to_ascii_lowercase k = ''accept-encoding''" "to_ascii_lowercase k \<notin> set SKIP" "r = Some (k, w)"
      "\<not> a \<longrightarrow> w = strip_brotli_from_accept_encoding v"
  | "to_ascii_lowercase k \<noteq> ''accept-encoding''" "to_ascii_lowercase k \<notin> set SKIP" "r = Some (k, v)"
  using assms by (auto simp: forward_one_def Let_def split: if_splits)



lemma forwarded_origin:
  assumes "(k, v) \<in> set (filter_forwarded_headers_with_brotli_zstd a hs)"
  obtains u where "forward_one a (k, u) = Some (k, v)"
proof -
  from assms obtain h where h: "h \<in> set hs" "forward_one a h = Some (k, v)"
    by (auto simp: filter_forwarded_headers_with_brotli_zstd_def List.map_filter_def)
  obtain k' u where hu: "h = (k', u)" by (cases h)
  with h have "k' = k" by (auto simp: forward_one_def Let_def split: if_splits)
  with h hu that show ?thesis by simp
qed


text \<open>What is left of the offered codings after stripping: splitting the joined value again gives the
  kept parts, up to the space after the comma.\<close>

lemma split_all_no_sep: "p \<in> set (split_all c s) \<Longrightarrow> c \<notin> set p"
  by (induction s arbitrary: p) (auto split: list.splits if_splits)

lemma trim_with_subset: "set (trim_with ws s) \<subseteq> set s"
  by (induction ws s rule: trim_with.induct) (subst trim_with.simps, auto dest: in_set_dropD)

lemma trim_subset: "set (trim s) \<subseteq> set s"
  using trim_with_subset unfolding trim_def trim_start_def trim_end_def by (metis dual_order.trans set_rev)

lemma split_join:
  "list_all (\<lambda>p. CHR '','' \<notin> set p) ps \<Longrightarrow> ps \<noteq> [] \<Longrightarrow>
     split_all (CHR '','') (join_with '', '' ps) = hd ps # map (Cons (CHR '' '')) (tl ps)"
proof (induction ps)
  case (Cons p ps)
  show ?case
  proof (cases ps)
    case Nil
    with Cons.prems show ?thesis by (simp add: join_with_def split_all_single)
  next
    case c: (Cons q qs)
    have "join_with '', '' (p # ps) = p @ CHR '','' # (CHR '' '' # join_with '', '' ps)" by (simp add: c join_with_def)
    then have "split_all (CHR '','') (join_with '', '' (p # ps)) = p # split_all (CHR '','') (CHR '' '' # join_with '', '' ps)"
      using Cons.prems by (simp add: split_all_append)
    also have "split_all (CHR '','') (CHR '' '' # join_with '', '' ps) = (CHR '' '' # q) # map (Cons (CHR '' '')) qs"
      using Cons.IH Cons.prems c by simp
    finally show ?thesis by (simp add: c)
  qed
qed simp

lemma coding_name_space: "coding_name (CHR '' '' # p) = coding_name p"
  by (simp add: coding_name_def trim_space split: list.split)

lemma strip_brotli_tokens:
  "p \<in> set (split_all (CHR '','') (strip_brotli_from_accept_encoding v)) \<Longrightarrow> coding_name p \<notin> {''br'', ''zstd''}"
proof -
  assume p: "p \<in> set (split_all (CHR '','') (strip_brotli_from_accept_encoding v))"
  let ?ps = "filter (\<lambda>p. coding_name p \<notin> {''br'', ''zstd''}) (map trim (split_all (CHR '','') v))"
  have nc: "list_all (\<lambda>p. CHR '','' \<notin> set p) ?ps"
    using split_all_no_sep trim_subset by (fastforce simp: list_all_iff)
  show ?thesis
  proof (cases "?ps = []")
    case True
    with p have "p = []" by (simp add: strip_brotli_from_accept_encoding_def join_with_def)
    moreover have "coding_name [] = []" by code_simp
    ultimately show ?thesis by simp
  next
    case False
    then have "p = hd ?ps \<or> (\<exists>q \<in> set (tl ?ps). p = CHR '' '' # q)"
      using p split_join [OF nc False] by (auto simp: strip_brotli_from_accept_encoding_def)
    moreover have "q \<in> set ?ps \<Longrightarrow> coding_name q \<notin> {''br'', ''zstd''}" for q by simp
    ultimately show ?thesis using False coding_name_space by (metis hd_in_set list.set_sel(2))
  qed
qed

text \<open>Unless the user asked for them, no request leaves with an offer of brotli or zstd, whatever the
  quality values, spacing or capitals of the browser's offer: the relay could not decode the answer.\<close>

theorem no_brotli_offered:
  assumes "(k, v) \<in> set (filter_forwarded_headers hs)" "to_ascii_lowercase k = ''accept-encoding''"
    and "p \<in> set (split_all (CHR '','') v)"
  shows "coding_name p \<notin> {''br'', ''zstd''}"
proof -
  obtain u where "forward_one False (k, u) = Some (k, v)"
    using assms(1) by (auto simp: filter_forwarded_headers_def elim: forwarded_origin)
  then have "v = strip_brotli_from_accept_encoding u" by (rule forward_one_cases) (use assms(2) in auto)
  with assms(3) strip_brotli_tokens show ?thesis by blast
qed

theorem no_brotli_offered_witness:
  "(''Accept-Encoding'', ''gzip, deflate'') \<in> set (filter_forwarded_headers [(''Accept-Encoding'', ''gzip, BR;q=1, deflate'')])
   \<and> coding_name '' deflate'' \<notin> {''br'', ''zstd''}"
proof -
  have m: "(''Accept-Encoding'', ''gzip, deflate'') \<in> set (filter_forwarded_headers [(''Accept-Encoding'', ''gzip, BR;q=1, deflate'')])"
    by code_simp
  moreover have "to_ascii_lowercase ''Accept-Encoding'' = ''accept-encoding''" by code_simp
  moreover have "'' deflate'' \<in> set (split_all (CHR '','') ''gzip, deflate'')" by simp
  ultimately show ?thesis using no_brotli_offered [OF m] by blast
qed





section \<open>What comes back\<close>

lemma capped_bound: "capped d = Some out \<Longrightarrow> length out \<le> MAX_DECOMPRESSED_BYTES"
  by (auto simp: capped_def split: option.splits if_splits)

lemma decoded_bound:
  "decode_brotli L b = Some out \<Longrightarrow> length out \<le> MAX_DECOMPRESSED_BYTES"
  "decode_zstd L b = Some out \<Longrightarrow> length out \<le> MAX_DECOMPRESSED_BYTES"
  by (auto simp: decode_brotli_def decode_zstd_def bind_eq_Some_conv dest!: capped_bound split: option.splits if_splits)

text \<open>When the relay's answer is passed on without its content coding, its body is plain: there was no
  coding, or the relay had undone the only one, gzip, or it was undone here; and what was undone here
  never exceeds the cap, whatever the decompressor makes of the bytes.\<close>

theorem coding_dropped_only_when_plain:
  assumes "relay_decode L a (Some h) raw = (b, True)" "raw \<noteq> []"
  shows "envelope_coding h = [] \<and> b = raw
    \<or> envelope_coding h = [''gzip''] \<and> b = raw
    \<or> a \<and> envelope_coding h = [''br''] \<and> decode_brotli L raw = Some b \<and> length b \<le> MAX_DECOMPRESSED_BYTES
    \<or> a \<and> envelope_coding h = [''zstd''] \<and> decode_zstd L raw = Some b \<and> length b \<le> MAX_DECOMPRESSED_BYTES"
  using assms decoded_bound
  by (auto simp: relay_decode_def decode_or_keep_def split: list.splits if_splits option.splits)

text \<open>The library of the examples: every text is an answer with the coding and the body given.\<close>

definition sample_lib :: "string \<Rightarrow> bytes \<Rightarrow> relay_lib" where
  "sample_lib coding body =
     \<lparr>rl_response = (\<lambda>_. Inr \<lparr>rr_s = Some 200, rr_h = Some [(''Content-Encoding'', JString coding)], rr_b = Some ''x'', rr_e = None\<rparr>),
      rl_value = (\<lambda>_. Inl ''value''), rl_b64 = (\<lambda>_. Inr body), rl_gzip = (\<lambda>b. (b, True)), rl_brotli = (\<lambda>b. (rev b, True)),
      rl_zstd_frame = (\<lambda>_. None), rl_zstd = (\<lambda>_. None)\<rparr>"

theorem coding_dropped_only_when_plain_witness:
  "relay_decode (sample_lib ''BR'' [1, 2]) True (Some [(''Content-Encoding'', JString ''BR'')]) [1, 2] = ([2, 1], True)
   \<and> decode_brotli (sample_lib ''BR'' [1, 2]) [1, 2] = Some [2, 1]"
proof -
  have m: "capped ([2, 1], True) = Some ([2, 1] :: bytes)" by (simp add: capped_def read_at_most_def MAX_DECOMPRESSED_BYTES_def)
  have c: "envelope_coding [(''Content-Encoding'', JString ''BR'')] = [''br'']" by code_simp
  have r: "relay_decode (sample_lib ''BR'' [1, 2]) True (Some [(''Content-Encoding'', JString ''BR'')]) [1, 2] = ([2, 1], True)"
    by (simp add: relay_decode_def c decode_brotli_def sample_lib_def m decode_or_keep_def)
  with coding_dropped_only_when_plain [OF r] show ?thesis by (simp add: c)
qed

section \<open>The rebuilt response\<close>




text \<open>An answer as the origin sent it: its headers by name, each with its values. In the envelope a header with one value is a text, one with
  several is an array of texts.\<close>

definition header_json :: "string list \<Rightarrow> jvalue" where
  "header_json vs = (case vs of [v] \<Rightarrow> JString v | _ \<Rightarrow> JArray (map JString vs))"




lemma value_strings [simp]: "List.map_filter value_to_header_str (map JString vs) = vs" "List.map_filter as_str (map JString vs) = vs"
  by (induction vs) (simp_all add: List.map_filter_simps)

lemma header_json_values [simp]: "relay_header_values (header_json vs) = vs"
  by (auto simp: relay_header_values_def header_json_def split: list.splits jvalue.splits)








text \<open>A page that is no JSON at all and whose two hundredth byte ends in the middle of a character is
  not reported as an error: building the report cuts the text there and panics.\<close>

theorem page_without_json_panics:
  assumes "utf8_valid body" "trim (str_of_bytes body) = text" "200 < length text" "utf8_cont_char (text ! 200)"
    and "rl_response L text = Inl e" "split_once_str (''goog.script.init('' @ [CHR 0x22]) text = None" "CHR ''{'' \<notin> set text"
  shows "parse_relay_json L a body = None"
proof -
  have "head_text text = None" using assms(3,4) by (simp add: head_text_def slice_to_def)
  moreover have "extract_apps_script_user_html L text = None" using assms(6) by (simp add: extract_apps_script_user_html_def)
  ultimately have "find_envelope L text = None" using assms(5,7) by (simp add: find_envelope_def)
  with assms(1-3) show ?thesis by (auto simp: parse_relay_json_def Let_def)
qed

definition panic_page :: string where "panic_page = replicate 199 (CHR ''a'') @ [CHR 0xC3, CHR 0xA9, CHR ''.'']"

lemma split_once_str_absent: "p \<noteq> [] \<Longrightarrow> hd p \<notin> set s \<Longrightarrow> split_once_str p s = None"
  by (induction s) (auto simp: strip_prefix_def neq_Nil_conv)

lemma utf8_valid_ascii_append: "list_all (\<lambda>b. b < 0x80) a \<Longrightarrow> utf8_valid (a @ b) = utf8_valid b"
proof (induction a)
  case (Cons x a)
  then have "utf8_unit ((x # a) @ b) = (1, True)" by (intro utf8_unit_ascii) (simp add: byte_at_def)
  with Cons show ?case by (simp add: utf8_valid.simps [of "x # a @ b"])
qed simp

lemma panic_page_valid: "utf8_valid (as_bytes panic_page)" "trim panic_page = panic_page"
proof -
  have "utf8_valid (as_bytes [CHR 0xC3, CHR 0xA9, CHR ''.''])" by code_simp
  moreover have "as_bytes panic_page = replicate 199 (byte_of_char (CHR ''a'')) @ as_bytes [CHR 0xC3, CHR 0xA9, CHR ''.'']"
    by (simp add: panic_page_def as_bytes_def)
  moreover have "list_all (\<lambda>b. b < 0x80) (replicate 199 (byte_of_char (CHR ''a'')))" by (simp add: list_all_iff byte_of_char_def)
  ultimately show "utf8_valid (as_bytes panic_page)" by (simp only: utf8_valid_ascii_append)
  show "trim panic_page = panic_page" by (rule trim_graphic) (simp_all add: panic_page_def ascii_graphic_def)
qed

theorem page_without_json_panics_witness:
  "parse_relay_json (sample_lib [] [] \<lparr>rl_response := (\<lambda>_. Inl ''x'')\<rparr>) True (as_bytes panic_page) = None"
proof (rule page_without_json_panics [of "as_bytes panic_page" panic_page])
  show "split_once_str (''goog.script.init('' @ [CHR 0x22]) panic_page = None"
    by (rule split_once_str_absent) (auto simp: panic_page_def)
  show "utf8_cont_char (panic_page ! 200)" by (simp add: panic_page_def nth_append utf8_cont_char_def)
qed (simp_all add: panic_page_valid, auto simp: panic_page_def)

text \<open>The text between escapes is taken byte by byte, as if every byte were a character of its own: it
  comes out unchanged exactly when it is ASCII.\<close>

lemma decode_js_plain:
  "CHR 0x5C \<notin> set s \<Longrightarrow> decode_js_string_escapes s = Some (concat (map (\<lambda>c. push_char (of_char c)) s))"
proof (induction s)
  case (Cons c s)
  then show ?case using decode_js_string_escapes.simps [of "c # s"] by auto
qed (simp add: decode_js_string_escapes.simps)

lemma push_char_longer: "of_char c \<ge> (128 :: nat) \<Longrightarrow> length (push_char (of_char c)) = 2"
  by (cases c) (auto simp: push_char_def)

lemma push_char_length: "1 \<le> length (push_char (of_char c))"
  by (simp add: push_char_def)

lemma decode_js_ascii:
  assumes "CHR 0x5C \<notin> set s"
  shows "decode_js_string_escapes s = Some s \<longleftrightarrow> list_all (\<lambda>c. (of_char c :: nat) < 128) s"
proof -
  have "length s \<le> length (concat (map (\<lambda>c. push_char (of_char c)) s))" for s
    by (induction s) (simp_all add: add_le_mono [OF push_char_length, simplified])
  then have "concat (map (\<lambda>c. push_char (of_char c)) s) = s \<longleftrightarrow> list_all (\<lambda>c. (of_char c :: nat) < 128) s"
  proof (induction s)
    case (Cons c s)
    show ?case
    proof (cases "(of_char c :: nat) < 128")
      case True
      with Cons show ?thesis by (simp add: push_char_def)
    next
      case False
      then have "length (concat (map (\<lambda>c. push_char (of_char c)) (c # s))) \<noteq> length (c # s)"
        using Cons.prems [of s] push_char_longer [of c] by simp
      then have "concat (map (\<lambda>c. push_char (of_char c)) (c # s)) \<noteq> c # s" by metis
      with False show ?thesis by simp
    qed
  qed simp
  then show ?thesis using decode_js_plain [OF assms] by simp
qed

end
