(* ===== verification/Relay_Coalesce.thy ===== *)
theory Relay_Coalesce
  imports Assoc Prelude
begin

text \<open>
  The coalescing of identical requests in \<^verbatim>\<open>relay\<close> (\<^verbatim>\<open>src/src/domain_fronter.rs\<close>): the first caller with a key
  fetches, the others subscribe to its broadcast channel; when the fetch ends, the entry is removed
  under the lock and the bytes are sent to the subscribers. The callers are tasks that interleave at
  the two lock regions. Shown: at most one fetch per key is under way, no subscriber waits without one
  (so none is forgotten), and every caller gets the bytes of a fetch for its own key that ended while
  it was there.
\<close>

datatype role = Leading string | Waiting string nat | Answered string bytes

text \<open>The table from keys to channels, the number of the next channel, and the tasks. A fetch is recorded with
  its key and bytes when it ends.\<close>

record coalescer =
  co_inflight :: "(string \<times> nat) list"
  co_next :: nat
  co_tasks :: "(nat \<times> role) list"
  co_fetched :: "(string \<times> bytes) list"

definition new_coalescer :: coalescer where
  "new_coalescer = \<lparr>co_inflight = [], co_next = 0, co_tasks = [], co_fetched = []\<rparr>"

text \<open>The first lock region: subscribe, or become the one that fetches.\<close>

definition join_inflight :: "nat \<Rightarrow> string \<Rightarrow> coalescer \<Rightarrow> coalescer" where
  "join_inflight t key s =
     (case map_of (co_inflight s) key of
        Some tx \<Rightarrow> s\<lparr>co_tasks := AList.update t (Waiting key tx) (co_tasks s)\<rparr>
      | None \<Rightarrow>
          s\<lparr>co_inflight := AList.update key (co_next s) (co_inflight s), co_next := co_next s + 1,
            co_tasks := AList.update t (Leading key) (co_tasks s)\<rparr>)"

definition deliver :: "nat \<Rightarrow> bytes \<Rightarrow> role \<Rightarrow> role" where
  "deliver tx bs r = (case r of Waiting key tx' \<Rightarrow> if tx' = tx then Answered key bs else r | _ \<Rightarrow> r)"

text \<open>The second one: the channel is taken out of the table and the bytes are sent on it.\<close>

definition finish_inflight :: "nat \<Rightarrow> string \<Rightarrow> bytes \<Rightarrow> coalescer \<Rightarrow> coalescer" where
  "finish_inflight t key bs s =
     (let tasks = (case map_of (co_inflight s) key of
                     None \<Rightarrow> co_tasks s
                   | Some tx \<Rightarrow> map (\<lambda>(i, r). (i, deliver tx bs r)) (co_tasks s))
      in s\<lparr>co_inflight := AList.delete key (co_inflight s), co_tasks := AList.update t (Answered key bs) tasks,
           co_fetched := co_fetched s @ [(key, bs)]\<rparr>)"

inductive coalesce_step :: "coalescer \<Rightarrow> coalescer \<Rightarrow> bool" where
  join: "map_of (co_tasks s) t = None \<Longrightarrow> coalesce_step s (join_inflight t key s)"
| finish: "map_of (co_tasks s) t = Some (Leading key) \<Longrightarrow> coalesce_step s (finish_inflight t key bs s)"

inductive coalesce_exec :: "coalescer \<Rightarrow> bool" where
  start: "coalesce_exec new_coalescer"
| step: "coalesce_exec s \<Longrightarrow> coalesce_step s s' \<Longrightarrow> coalesce_exec s'"

section \<open>The invariant\<close>

definition task_ok :: "coalescer \<Rightarrow> role \<Rightarrow> bool" where
  "task_ok s r =
     (case r of
        Leading key \<Rightarrow> map_of (co_inflight s) key \<noteq> None
      | Waiting key tx \<Rightarrow> map_of (co_inflight s) key = Some tx
      | Answered key bs \<Rightarrow> (key, bs) \<in> set (co_fetched s))"

definition coalescer_inv :: "coalescer \<Rightarrow> bool" where
  "coalescer_inv s \<longleftrightarrow>
     (\<forall>t r. map_of (co_tasks s) t = Some r \<longrightarrow> task_ok s r)
     \<and> (\<forall>t t' key. map_of (co_tasks s) t = Some (Leading key) \<longrightarrow> map_of (co_tasks s) t' = Some (Leading key) \<longrightarrow> t = t')
     \<and> (\<forall>key tx. map_of (co_inflight s) key = Some tx \<longrightarrow> tx < co_next s \<and> (\<exists>t. map_of (co_tasks s) t = Some (Leading key)))
     \<and> (\<forall>key key' tx. map_of (co_inflight s) key = Some tx \<longrightarrow> map_of (co_inflight s) key' = Some tx \<longrightarrow> key = key')"

lemma inv_start: "coalescer_inv new_coalescer"
  by (simp add: coalescer_inv_def new_coalescer_def)

lemma invD:
  assumes "coalescer_inv s"
  shows "map_of (co_tasks s) t = Some r \<Longrightarrow> task_ok s r"
    "map_of (co_tasks s) t = Some (Leading key) \<Longrightarrow> map_of (co_tasks s) t' = Some (Leading key) \<Longrightarrow> t = t'"
    "map_of (co_inflight s) key = Some tx \<Longrightarrow> tx < co_next s"
    "map_of (co_inflight s) key = Some tx \<Longrightarrow> \<exists>t. map_of (co_tasks s) t = Some (Leading key)"
    "map_of (co_inflight s) key = Some tx \<Longrightarrow> map_of (co_inflight s) key' = Some tx \<Longrightarrow> key = key'"
  using assms unfolding coalescer_inv_def by blast+

lemma coalescer_invI:
  assumes "\<And>t r. map_of (co_tasks s) t = Some r \<Longrightarrow> task_ok s r"
    and "\<And>t t' key. map_of (co_tasks s) t = Some (Leading key) \<Longrightarrow> map_of (co_tasks s) t' = Some (Leading key) \<Longrightarrow> t = t'"
    and "\<And>key tx. map_of (co_inflight s) key = Some tx \<Longrightarrow> tx < co_next s"
    and "\<And>key tx. map_of (co_inflight s) key = Some tx \<Longrightarrow> \<exists>t. map_of (co_tasks s) t = Some (Leading key)"
    and "\<And>key key' tx. map_of (co_inflight s) key = Some tx \<Longrightarrow> map_of (co_inflight s) key' = Some tx \<Longrightarrow> key = key'"
  shows "coalescer_inv s"
  using assms unfolding coalescer_inv_def by blast

lemma inv_join:
  assumes inv: "coalescer_inv s" and new: "map_of (co_tasks s) t = None"
  shows "coalescer_inv (join_inflight t key s)"
proof (cases "map_of (co_inflight s) key")
  case None
  let ?s = "join_inflight t key s"
  have fresh: "map_of (co_tasks s) i \<noteq> Some (Leading key)" for i
    using invD(1) [OF inv, of i "Leading key"] None by (auto simp: task_ok_def)
  have tasks: "map_of (co_tasks ?s) i = (if i = t then Some (Leading key) else map_of (co_tasks s) i)" for i
    by (simp add: join_inflight_def None update_conv')
  have infl: "map_of (co_inflight ?s) k = (if k = key then Some (co_next s) else map_of (co_inflight s) k)" for k
    by (simp add: join_inflight_def None update_conv')
  have other: "co_next ?s = co_next s + 1" "co_fetched ?s = co_fetched s" by (simp_all add: join_inflight_def None)
  show ?thesis
  proof (rule coalescer_invI)
    show "task_ok ?s r" if "map_of (co_tasks ?s) i = Some r" for i r
      using that invD(1) [OF inv, of i r] None by (auto simp: tasks task_ok_def infl other split: role.splits if_splits)
    show "i = i'" if "map_of (co_tasks ?s) i = Some (Leading k)" "map_of (co_tasks ?s) i' = Some (Leading k)" for i i' k
      using that invD(2) [OF inv] fresh by (auto simp: tasks split: if_splits)
    show "x < co_next ?s" if "map_of (co_inflight ?s) k = Some x" for k x
      using that invD(3) [OF inv, of k x] by (auto simp: infl other split: if_splits)
    show "\<exists>i. map_of (co_tasks ?s) i = Some (Leading k)" if "map_of (co_inflight ?s) k = Some x" for k x
      using that invD(4) [OF inv, of k x] new by (cases "k = key") (auto simp: infl tasks, metis option.distinct(1))
    show "k = k'" if "map_of (co_inflight ?s) k = Some x" "map_of (co_inflight ?s) k' = Some x" for k k' x
      using that invD(5) [OF inv, of k x k'] invD(3) [OF inv, of k x] invD(3) [OF inv, of k' x] by (auto simp: infl split: if_splits)
  qed
next
  case (Some tx)
  let ?s = "join_inflight t key s"
  have tasks: "map_of (co_tasks ?s) i = (if i = t then Some (Waiting key tx) else map_of (co_tasks s) i)" for i
    by (simp add: join_inflight_def Some update_conv')
  have other: "co_inflight ?s = co_inflight s" "co_next ?s = co_next s" "co_fetched ?s = co_fetched s" by (simp_all add: join_inflight_def Some)
  have leads: "map_of (co_tasks ?s) i = Some (Leading k) \<longleftrightarrow> map_of (co_tasks s) i = Some (Leading k)" for i k
    using new by (auto simp: tasks)
  show ?thesis
  proof (rule coalescer_invI)
    show "task_ok ?s r" if "map_of (co_tasks ?s) i = Some r" for i r
      using that invD(1) [OF inv, of i r] Some by (auto simp: tasks task_ok_def other split: role.splits if_splits)
  qed (use invD [OF inv] in \<open>simp_all add: leads other\<close>)
qed

lemma map_of_deliver: "map_of (map (\<lambda>(i, r). (i, deliver tx bs r)) ts) t = map_option (deliver tx bs) (map_of ts t)"
  by (induction ts) auto

lemma deliver_Leading: "deliver tx bs r = Leading k \<longleftrightarrow> r = Leading k"
  by (auto simp: deliver_def split: role.splits)

lemma inv_finish:
  assumes inv: "coalescer_inv s" and lead: "map_of (co_tasks s) t = Some (Leading key)"
  shows "coalescer_inv (finish_inflight t key bs s)"
proof -
  obtain tx where tx: "map_of (co_inflight s) key = Some tx"
    using inv lead by (fastforce simp: coalescer_inv_def task_ok_def)
  let ?s = "finish_inflight t key bs s"
  have tasks: "map_of (co_tasks ?s) i = (if i = t then Some (Answered key bs) else map_option (deliver tx bs) (map_of (co_tasks s) i))" for i
    by (simp add: finish_inflight_def tx update_conv' map_of_deliver Let_def)
  have infl: "map_of (co_inflight ?s) k = (if k = key then None else map_of (co_inflight s) k)" for k
    by (simp add: finish_inflight_def Let_def delete_conv')
  have other: "co_next ?s = co_next s" "co_fetched ?s = co_fetched s @ [(key, bs)]" by (simp_all add: finish_inflight_def Let_def)
  have leads: "map_of (co_tasks ?s) i = Some (Leading k) \<longleftrightarrow> i \<noteq> t \<and> map_of (co_tasks s) i = Some (Leading k)" for i k
    by (auto simp: tasks deliver_Leading)
  have "task_ok ?s r" if r: "map_of (co_tasks ?s) i = Some r" for i r
  proof (cases "i = t")
    case True
    with r show ?thesis by (auto simp: tasks task_ok_def other)
  next
    case False
    then obtain r0 where r0: "map_of (co_tasks s) i = Some r0" "r = deliver tx bs r0" using r by (auto simp: tasks)
    have ok: "task_ok s r0" using inv r0(1) by (simp add: coalescer_inv_def)
    show ?thesis
    proof (cases r0)
      case (Leading k)
      with r0 lead False inv have "k \<noteq> key" unfolding coalescer_inv_def by metis
      with Leading ok r0 show ?thesis by (auto simp: task_ok_def deliver_def infl)
    next
      case (Waiting k tx')
      then have k: "map_of (co_inflight s) k = Some tx'" using ok by (simp add: task_ok_def)
      have "tx' = tx \<longleftrightarrow> k = key" using inv tx k unfolding coalescer_inv_def by (metis option.inject)
      with Waiting r0 k show ?thesis by (auto simp: task_ok_def deliver_def infl other)
    next
      case (Answered k b)
      with ok r0 show ?thesis by (simp add: task_ok_def deliver_def other)
    qed
  qed
  moreover have "\<exists>i. map_of (co_tasks ?s) i = Some (Leading k)" if "map_of (co_inflight ?s) k = Some x" for k x
  proof -
    from that have "k \<noteq> key" "map_of (co_inflight s) k = Some x" by (auto simp: infl split: if_splits)
    then obtain i where "map_of (co_tasks s) i = Some (Leading k)" using inv unfolding coalescer_inv_def by blast
    moreover have "i \<noteq> t" using calculation lead \<open>k \<noteq> key\<close> by auto
    ultimately show ?thesis by (auto simp: leads)
  qed
  ultimately show ?thesis
    by (intro coalescer_invI) (use invD(2,3,5) [OF inv] in \<open>auto simp: leads other infl split: if_splits\<close>)
qed

lemma exec_inv: "coalesce_exec s \<Longrightarrow> coalescer_inv s"
  by (induction rule: coalesce_exec.induct) (auto simp: inv_start elim!: coalesce_step.cases intro: inv_join inv_finish)

text \<open>C17: in every interleaving of the callers at most one of them fetches a key at a time, whoever waits
  waits for a fetch that is under way, and whoever was answered got the bytes of a fetch of its own
  key.\<close>

theorem coalesced_answers:
  assumes "coalesce_exec s"
  shows "(\<forall>t t' key. map_of (co_tasks s) t = Some (Leading key) \<and> map_of (co_tasks s) t' = Some (Leading key) \<longrightarrow> t = t')
    \<and> (\<forall>t key tx. map_of (co_tasks s) t = Some (Waiting key tx) \<longrightarrow> (\<exists>t'. map_of (co_tasks s) t' = Some (Leading key)))
    \<and> (\<forall>t key bs. map_of (co_tasks s) t = Some (Answered key bs) \<longrightarrow> (key, bs) \<in> set (co_fetched s))"
proof -
  note inv = exec_inv [OF assms, unfolded coalescer_inv_def]
  have "\<exists>t'. map_of (co_tasks s) t' = Some (Leading key)" if "map_of (co_tasks s) t = Some (Waiting key tx)" for t key tx
    using inv that by (fastforce simp: task_ok_def)
  moreover have "(key, bs) \<in> set (co_fetched s)" if "map_of (co_tasks s) t = Some (Answered key bs)" for t key bs
    using inv that by (fastforce simp: task_ok_def)
  ultimately show ?thesis using inv by blast
qed

text \<open>When the fetch of a key ends, every caller that waits for it is answered with its bytes.\<close>

lemma finish_answers_waiters:
  assumes "coalesce_exec s" "map_of (co_tasks s) t = Some (Leading key)" "map_of (co_tasks s) w = Some (Waiting key tx)"
  shows "map_of (co_tasks (finish_inflight t key bs s)) w = Some (Answered key bs)"
proof -
  have "map_of (co_inflight s) key = Some tx"
    using exec_inv [OF assms(1)] assms(3) by (fastforce simp: coalescer_inv_def task_ok_def)
  moreover have "w \<noteq> t" using assms(2,3) by auto
  ultimately have "map_of (co_tasks (finish_inflight t key bs s)) w = Some (deliver tx bs (Waiting key tx))"
    using assms(3) by (simp add: finish_inflight_def update_conv' map_of_deliver Let_def)
  then show ?thesis by (simp add: deliver_def)
qed

theorem coalesced_answers_witness:
  "let s = finish_inflight 1 ''GET:u'' [7] (join_inflight 2 ''GET:u'' (join_inflight 1 ''GET:u'' new_coalescer)) in
     map_of (co_tasks s) 2 = Some (Answered ''GET:u'' [7]) \<and> (''GET:u'', [7]) \<in> set (co_fetched s)"
proof -
  let ?s1 = "join_inflight 1 ''GET:u'' new_coalescer"
  let ?s2 = "join_inflight 2 ''GET:u'' ?s1"
  let ?s = "finish_inflight 1 ''GET:u'' [7] ?s2"
  have n: "map_of (co_tasks new_coalescer) 1 = None" "map_of (co_tasks ?s1) 2 = None" "map_of (co_tasks ?s2) 1 = Some (Leading ''GET:u'')"
    "map_of (co_tasks ?s) 2 = Some (Answered ''GET:u'' [7])"
    by (simp_all add: new_coalescer_def join_inflight_def finish_inflight_def deliver_def Let_def)
  have "coalesce_exec ?s"
    by (rule coalesce_exec.step [OF coalesce_exec.step [OF coalesce_exec.step [OF coalesce_exec.start coalesce_step.join [OF n(1)]]
          coalesce_step.join [OF n(2)]] coalesce_step.finish [OF n(3)]])
  from coalesced_answers [OF this] n(4) show ?thesis by (auto simp: Let_def)
qed

end
