(* ===== verification/Fronter_Link.thy ===== *)
theory Fronter_Link
  imports Script_Pool Relay_Envelope
begin

text \<open>
  The connections of the domain fronter (\<^verbatim>\<open>src/src/domain_fronter.rs\<close>) to the relay's edge: the shared HTTP/2
  connection with its generation, time to live, back-off and the latch that turns it off; the pool of
  HTTP/1.1 connections; and a request with its redirects over each of them. The network, the TLS and
  HTTP/2 libraries and the clock are the fields of \<open>relay_net\<close>, transition functions on a world
  \<open>'s\<close>. What is handed to a connection is recorded in \<open>fr_sent\<close>. A step without a value is a panic.
  Shown: a connection that is handed out is fresh, alive and of the current host; a failure of an old
  connection never clears a newer one; the pool keeps its cap and its connections; a request that
  failed before it was sent left no trace on the wire.
\<close>

section \<open>Constants and data\<close>

definition POOL_TTL_SECS :: nat where "POOL_TTL_SECS = 60"
definition POOL_MAX :: nat where "POOL_MAX = 80"
definition H2_CONN_TTL_SECS :: nat where "H2_CONN_TTL_SECS = 540"
definition H2_OPEN_FAILURE_BACKOFF_SECS :: nat where "H2_OPEN_FAILURE_BACKOFF_SECS = 15"

datatype request_sent = SentNo | SentMaybe

datatype open_h2_error = OhAlpnRefused | OhIo string | OhTls string | OhDns string | OhHandshake string

fun open_h2_fronter_error :: "open_h2_error \<Rightarrow> fronter_error" where
  "open_h2_fronter_error (OhIo e) = FeIo e"
| "open_h2_fronter_error (OhTls e) = FeTls e"
| "open_h2_fronter_error (OhDns e) = FeDns e"
| "open_h2_fronter_error OhAlpnRefused = FeRelay ''alpn refused h2''"
| "open_h2_fronter_error (OhHandshake m) = FeRelay (''h2 handshake: '' @ m)"

text \<open>Connections are numbers, and so are the versions of the host that is connected to (the identity of
  an \<^verbatim>\<open>Arc\<close>). Instants are milliseconds; the wall clock, \<open>rn_unix\<close>, is in seconds.\<close>

record h2_cell =
  hc_send :: nat
  hc_created :: nat
  hc_generation :: u64
  hc_host :: nat

record pool_entry =
  pe_stream :: nat
  pe_created :: nat
  pe_host :: nat

record h2_request =
  hq_method :: string
  hq_uri :: string
  hq_headers :: "header list"
  hq_body :: bytes

text \<open>What becomes of an HTTP/2 request: the first four end it before its headers are queued. The value
  of a header is missing when it is not visible ASCII.\<close>

datatype h2_outcome =
    H2BuildFailed string | H2NotReady string | H2ReadyElapsed | H2SendFailed string
  | H2DataFailed string | H2ResponseFailed string | H2BodyFailed string | H2Elapsed
  | H2Answer nat "(string \<times> string option) list" bytes

datatype 'a conn_outcome = CnOk 'a | CnErr string | CnElapsed

record 's relay_net =
  rn_now :: "'s \<Rightarrow> nat"
  rn_unix :: "'s \<Rightarrow> nat"
  rn_host :: "'s \<Rightarrow> nat"
  rn_dead :: "'s \<Rightarrow> nat \<Rightarrow> bool"
  rn_open_busy :: "'s \<Rightarrow> bool"
  rn_tcp :: "'s \<Rightarrow> 's \<times> unit conn_outcome"
  rn_name_ok :: "string \<Rightarrow> bool"
  rn_tls :: "'s \<Rightarrow> bool \<Rightarrow> string \<Rightarrow> 's \<times> nat conn_outcome"
  rn_alpn_h2 :: "'s \<Rightarrow> nat \<Rightarrow> bool"
  rn_handshake :: "'s \<Rightarrow> nat \<Rightarrow> 's \<times> nat conn_outcome"
  rn_h2 :: "'s \<Rightarrow> nat \<Rightarrow> h2_request \<Rightarrow> 's \<times> h2_outcome"
  rn_h1 :: "'s \<Rightarrow> nat \<Rightarrow> bytes \<Rightarrow> 's \<times> (read_ev list, string) result"
  rn_pad :: "'s \<Rightarrow> 's \<times> bytes"

datatype sent = SentH2 h2_request | SentH1 bytes

record ('f, 's) fronter =
  fr_world :: 's
  fr_scripts :: "'f script_pool"
  fr_sni_hosts :: "string list"
  fr_sni_idx :: u64
  fr_h2_disabled :: bool
  fr_h2_cell :: "h2_cell option"
  fr_h2_open_failed_at :: "nat option"
  fr_h2_generation :: u64
  fr_h2_calls :: u64
  fr_h2_fallbacks :: u64
  fr_pool :: "pool_entry list"
  fr_sent :: "sent list"

record fronter_cfg =
  fc_http_host :: string
  fc_auth_key :: string
  fc_lang :: string
  fc_accept_lang :: string
  fc_disable_padding :: bool
  fc_allow_brotli_zstd :: bool
  fc_parallel_relay :: nat
  fc_exit_node_enabled :: bool
  fc_exit_node_full :: bool
  fc_exit_node_hosts :: "string list"
  fc_exit_node_url :: string
  fc_exit_node_psk :: string
  fc_normalize_x_graphql :: bool
  fc_sabr_strip :: bool

type_synonym ('st, 'a) step = "('st \<times> ('a, fronter_error) result) option"

text \<open>The question mark operator.\<close>

definition and_then :: "('st, 'a) step \<Rightarrow> ('st \<Rightarrow> 'a \<Rightarrow> ('st, 'b) step) \<Rightarrow> ('st, 'b) step" where
  "and_then m k = (case m of None \<Rightarrow> None | Some (st, Inl e) \<Rightarrow> Some (st, Inl e) | Some (st, Inr a) \<Rightarrow> k st a)"

definition elapsed_secs :: "'s relay_net \<Rightarrow> ('f, 's) fronter \<Rightarrow> nat \<Rightarrow> nat" where
  "elapsed_secs net st t = (rn_now net (fr_world st) - t) div 1000"

definition next_sni :: "('f, 's) fronter \<Rightarrow> (('f, 's) fronter \<times> string) option" where
  "next_sni st =
     (let n = length (fr_sni_hosts st) in
      if n = 0 then None
      else Some (st\<lparr>fr_sni_idx := fr_sni_idx st + 1\<rparr>, fr_sni_hosts st ! (unat (fr_sni_idx st) mod n)))"

section \<open>HTTP/1.1 connections\<close>

definition open_timeout_error :: fronter_error where
  "open_timeout_error = FeRelay ''h1 open timed out after 8s''"

definition open_h1 :: "'s relay_net \<Rightarrow> ('f, 's) fronter \<Rightarrow> (('f, 's) fronter, nat \<times> nat) step" where
  "open_h1 net st =
     (let host = rn_host net (fr_world st) in
      case rn_tcp net (fr_world st) of
        (w, CnElapsed) \<Rightarrow> Some (st\<lparr>fr_world := w\<rparr>, Inl open_timeout_error)
      | (w, CnErr e) \<Rightarrow> Some (st\<lparr>fr_world := w\<rparr>, Inl (FeIo e))
      | (w, CnOk _) \<Rightarrow>
          (case next_sni (st\<lparr>fr_world := w\<rparr>) of
             None \<Rightarrow> None
           | Some (st1, sni) \<Rightarrow>
               if \<not> rn_name_ok net sni then Some (st1, Inl (FeDns ''invalid dns name''))
               else (case rn_tls net w False sni of
                       (w', CnElapsed) \<Rightarrow> Some (st1\<lparr>fr_world := w'\<rparr>, Inl open_timeout_error)
                     | (w', CnErr e) \<Rightarrow> Some (st1\<lparr>fr_world := w'\<rparr>, Inl (FeIo e))
                     | (w', CnOk c) \<Rightarrow> Some (st1\<lparr>fr_world := w'\<rparr>, Inr (c, host)))))"

text \<open>The freshest entry is the one created last; of several the first.\<close>

fun freshest :: "pool_entry list \<Rightarrow> nat" where
  "freshest [] = 0"
| "freshest (e # es) = (if es = [] \<or> pe_created (es ! freshest es) \<le> pe_created e then 0 else Suc (freshest es))"

definition swap_remove :: "nat \<Rightarrow> 'a list \<Rightarrow> 'a \<times> 'a list" where
  "swap_remove i xs = (xs ! i, butlast (xs[i := last xs]))"

definition pool_usable :: "'s relay_net \<Rightarrow> ('f, 's) fronter \<Rightarrow> pool_entry \<Rightarrow> bool" where
  "pool_usable net st e \<longleftrightarrow>
     elapsed_secs net st (pe_created e) < POOL_TTL_SECS \<and> pe_host e = rn_host net (fr_world st)"

definition new_entry :: "'s relay_net \<Rightarrow> ('f, 's) fronter \<Rightarrow> nat \<times> nat \<Rightarrow> pool_entry" where
  "new_entry net st = (\<lambda>(c, host). \<lparr>pe_stream = c, pe_created = rn_now net (fr_world st), pe_host = host\<rparr>)"

definition acquire :: "'s relay_net \<Rightarrow> ('f, 's) fronter \<Rightarrow> (('f, 's) fronter, pool_entry) step" where
  "acquire net st =
     (let pool = filter (pool_usable net st) (fr_pool st) in
      if pool \<noteq> [] then
        (case swap_remove (freshest pool) pool of (e, rest) \<Rightarrow> Some (st\<lparr>fr_pool := rest\<rparr>, Inr e))
      else
        and_then (open_h1 net (st\<lparr>fr_pool := []\<rparr>)) (\<lambda>st1 (c, host).
          if host = rn_host net (fr_world st1) then Some (st1, Inr (new_entry net st1 (c, host)))
          else and_then (open_h1 net st1) (\<lambda>st2 ch. Some (st2, Inr (new_entry net st2 ch)))))"

definition release :: "'s relay_net \<Rightarrow> pool_entry \<Rightarrow> ('f, 's) fronter \<Rightarrow> ('f, 's) fronter" where
  "release net e st =
     (if \<not> pool_usable net st e then st
      else if length (fr_pool st) < POOL_MAX then st\<lparr>fr_pool := fr_pool st @ [e]\<rparr> else st)"

definition post_head :: "fronter_cfg \<Rightarrow> string \<Rightarrow> nat \<Rightarrow> string" where
  "post_head cfg path len =
     ''POST '' @ path @ '' HTTP/1.1'' @ crlf_str @ ''Host: '' @ fc_http_host cfg @ crlf_str
     @ ''Content-Type: application/json'' @ crlf_str @ ''Content-Length: '' @ dec_show len @ crlf_str
     @ ''Accept-Encoding: gzip'' @ crlf_str @ ''Accept-Language: '' @ fc_accept_lang cfg @ crlf_str
     @ ''Connection: keep-alive'' @ crlf_str @ crlf_str"

definition get_head :: "string \<Rightarrow> string \<Rightarrow> string" where
  "get_head path host =
     ''GET '' @ path @ '' HTTP/1.1'' @ crlf_str @ ''Host: '' @ host @ crlf_str @ ''Accept-Encoding: gzip'' @ crlf_str
     @ ''Connection: keep-alive'' @ crlf_str @ crlf_str"

definition is_redirect :: "nat \<Rightarrow> bool" where "is_redirect status \<longleftrightarrow> status \<in> {301, 302, 303, 307, 308}"

definition parse_redirect :: "string \<Rightarrow> string \<times> string option" where
  "parse_redirect location =
     (case (case strip_prefix ''https://'' location of Some r \<Rightarrow> Some r | None \<Rightarrow> strip_prefix ''http://'' location) of
        None \<Rightarrow> (location, None)
      | Some rest \<Rightarrow>
          (case split_once (CHR ''/'') rest of
             None \<Rightarrow> (''/'', Some rest)
           | Some (host, tail) \<Rightarrow> (CHR ''/'' # tail, Some host)))"

type_synonym response = "nat \<times> header list \<times> bytes"

text \<open>A request is written and flushed, then a response is read.\<close>

definition h1_exchange :: "'s relay_net \<Rightarrow> relay_lib \<Rightarrow> nat \<Rightarrow> bytes \<Rightarrow> ('f, 's) fronter \<Rightarrow> (('f, 's) fronter, response) step" where
  "h1_exchange net L stream req st =
     (case rn_h1 net (fr_world st) stream req of
        (w, Inl e) \<Rightarrow> Some (st\<lparr>fr_world := w, fr_sent := fr_sent st @ [SentH1 req]\<rparr>, Inl (FeIo e))
      | (w, Inr evs) \<Rightarrow>
          map_option (Pair (st\<lparr>fr_world := w, fr_sent := fr_sent st @ [SentH1 req]\<rparr>)) (read_http_response (decode_gzip L) evs))"

fun h1_redirects :: "'s relay_net \<Rightarrow> relay_lib \<Rightarrow> fronter_cfg \<Rightarrow> nat \<Rightarrow> nat \<Rightarrow> response \<Rightarrow> ('f, 's) fronter
    \<Rightarrow> (('f, 's) fronter, response) step" where
  "h1_redirects net L cfg stream 0 r st = Some (st, Inr r)"
| "h1_redirects net L cfg stream (Suc n) (status, hdrs, body) st =
     (if \<not> is_redirect status then Some (st, Inr (status, hdrs, body))
      else (case header_get hdrs ''location'' of
              None \<Rightarrow> Some (st, Inr (status, hdrs, body))
            | Some loc \<Rightarrow>
                (case parse_redirect loc of (rpath, rhost) \<Rightarrow>
                   and_then (h1_exchange net L stream
                       (as_bytes (get_head rpath (case rhost of Some h \<Rightarrow> h | None \<Rightarrow> fc_http_host cfg))) st)
                     (\<lambda>st' r. h1_redirects net L cfg stream n r st'))))"

definition h1_post :: "'s relay_net \<Rightarrow> relay_lib \<Rightarrow> fronter_cfg \<Rightarrow> nat \<Rightarrow> string \<Rightarrow> bytes \<Rightarrow> ('f, 's) fronter
    \<Rightarrow> (('f, 's) fronter, response) step" where
  "h1_post net L cfg stream path payload st =
     and_then (h1_exchange net L stream (as_bytes (post_head cfg path (length payload)) @ payload) st)
       (\<lambda>st' r. h1_redirects net L cfg stream 5 r st')"

section \<open>The HTTP/2 connection\<close>

definition cell_usable :: "'s relay_net \<Rightarrow> ('f, 's) fronter \<Rightarrow> h2_cell \<Rightarrow> bool" where
  "cell_usable net st c \<longleftrightarrow>
     elapsed_secs net st (hc_created c) < H2_CONN_TTL_SECS \<and> \<not> rn_dead net (fr_world st) (hc_send c)
     \<and> hc_host c = rn_host net (fr_world st)"

datatype open_outcome = OpOk nat nat | OpErr open_h2_error | OpElapsed

definition h2_handshake_post_tls :: "'s relay_net \<Rightarrow> 's \<Rightarrow> nat \<Rightarrow> 's \<times> (open_h2_error + nat) option" where
  "h2_handshake_post_tls net w tls =
     (if \<not> rn_alpn_h2 net w tls then (w, Some (Inl OhAlpnRefused))
      else (case rn_handshake net w tls of
              (w', CnOk c) \<Rightarrow> (w', Some (Inr c))
            | (w', CnErr e) \<Rightarrow> (w', Some (Inl (OhHandshake e)))
            | (w', CnElapsed) \<Rightarrow> (w', None)))"

definition open_h2 :: "'s relay_net \<Rightarrow> ('f, 's) fronter \<Rightarrow> (('f, 's) fronter \<times> open_outcome) option" where
  "open_h2 net st =
     (let host = rn_host net (fr_world st) in
      case rn_tcp net (fr_world st) of
        (w, CnElapsed) \<Rightarrow> Some (st\<lparr>fr_world := w\<rparr>, OpElapsed)
      | (w, CnErr e) \<Rightarrow> Some (st\<lparr>fr_world := w\<rparr>, OpErr (OhIo e))
      | (w, CnOk _) \<Rightarrow>
          (case next_sni (st\<lparr>fr_world := w\<rparr>) of
             None \<Rightarrow> None
           | Some (st1, sni) \<Rightarrow>
               if \<not> rn_name_ok net sni then Some (st1, OpErr (OhDns ''invalid dns name''))
               else (case rn_tls net w True sni of
                       (w', CnElapsed) \<Rightarrow> Some (st1\<lparr>fr_world := w'\<rparr>, OpElapsed)
                     | (w', CnErr e) \<Rightarrow> Some (st1\<lparr>fr_world := w'\<rparr>, OpErr (OhIo e))
                     | (w', CnOk tls) \<Rightarrow>
                         (case h2_handshake_post_tls net w' tls of
                            (w2, None) \<Rightarrow> Some (st1\<lparr>fr_world := w2\<rparr>, OpElapsed)
                          | (w2, Some (Inl e)) \<Rightarrow> Some (st1\<lparr>fr_world := w2\<rparr>, OpErr e)
                          | (w2, Some (Inr c)) \<Rightarrow> Some (st1\<lparr>fr_world := w2\<rparr>, OpOk c host)))))"

definition h2_open_failed :: "'s relay_net \<Rightarrow> ('f, 's) fronter \<Rightarrow> ('f, 's) fronter" where
  "h2_open_failed net st = st\<lparr>fr_h2_open_failed_at := Some (rn_now net (fr_world st)), fr_h2_cell := None\<rparr>"

definition store_h2 :: "'s relay_net \<Rightarrow> nat \<Rightarrow> nat \<Rightarrow> ('f, 's) fronter \<Rightarrow> ('f, 's) fronter \<times> (nat \<times> u64) option" where
  "store_h2 net c host st =
     (let g = fr_h2_generation st + 1; st1 = st\<lparr>fr_h2_generation := g, fr_h2_open_failed_at := None\<rparr> in
      if host \<noteq> rn_host net (fr_world st) then (st1\<lparr>fr_h2_cell := None\<rparr>, Some (c, g))
      else (st1\<lparr>fr_h2_cell := Some \<lparr>hc_send = c, hc_created = rn_now net (fr_world st), hc_generation = g, hc_host = host\<rparr>\<rparr>,
            Some (c, g)))"

definition ensure_h2 :: "'s relay_net \<Rightarrow> ('f, 's) fronter \<Rightarrow> (('f, 's) fronter \<times> (nat \<times> u64) option) option" where
  "ensure_h2 net st =
     (if fr_h2_disabled st then Some (st, None)
      else (case find (cell_usable net st) (case fr_h2_cell st of None \<Rightarrow> [] | Some c \<Rightarrow> [c]) of
              Some c \<Rightarrow> Some (st, Some (hc_send c, hc_generation c))
            | None \<Rightarrow>
                if (case fr_h2_open_failed_at st of None \<Rightarrow> False | Some t \<Rightarrow> elapsed_secs net st t < H2_OPEN_FAILURE_BACKOFF_SECS)
                then Some (st, None)
                else if rn_open_busy net (fr_world st) then Some (st, None)
                else (case open_h2 net st of
                        None \<Rightarrow> None
                      | Some (st1, OpOk c host) \<Rightarrow> Some (store_h2 net c host st1)
                      | Some (st1, OpErr e) \<Rightarrow>
                          if e = OhAlpnRefused then Some (st1\<lparr>fr_h2_disabled := True, fr_h2_cell := None\<rparr>, None)
                          else Some (h2_open_failed net st1, None)
                      | Some (st1, OpElapsed) \<Rightarrow> Some (h2_open_failed net st1, None))))"

definition poison_h2_if_gen :: "u64 \<Rightarrow> ('f, 's) fronter \<Rightarrow> ('f, 's) fronter" where
  "poison_h2_if_gen g st =
     (case fr_h2_cell st of
        None \<Rightarrow> st
      | Some c \<Rightarrow> if hc_generation c = g then st\<lparr>fr_h2_cell := None\<rparr> else st)"

definition sticky_disable_h2_for_fronting_refusal :: "('f, 's) fronter \<Rightarrow> ('f, 's) fronter" where
  "sticky_disable_h2_for_fronting_refusal st =
     st\<lparr>fr_h2_disabled := True, fr_h2_cell := None,
        fr_h2_calls := (if fr_h2_calls st = 0 then 0 else fr_h2_calls st - 1), fr_h2_fallbacks := fr_h2_fallbacks st + 1\<rparr>"

definition visible_headers :: "(string \<times> string option) list \<Rightarrow> header list" where
  "visible_headers hs = List.map_filter (\<lambda>(k, v). map_option (Pair k) v) hs"

type_synonym 'a h2_result = "('a, fronter_error \<times> request_sent) result"

definition h2_request_of :: "fronter_cfg \<Rightarrow> string \<Rightarrow> string \<Rightarrow> string \<Rightarrow> bytes \<Rightarrow> string option \<Rightarrow> h2_request" where
  "h2_request_of cfg method path host payload content_type =
     \<lparr>hq_method = method, hq_uri = ''https://'' @ host @ path,
      hq_headers = (''accept-encoding'', ''gzip'')
        # (case content_type of None \<Rightarrow> [] | Some ct \<Rightarrow> [(''content-type'', ct), (''accept-language'', fc_accept_lang cfg)]),
      hq_body = payload\<rparr>"

fun h2_verdict :: "relay_lib \<Rightarrow> h2_outcome \<Rightarrow> response h2_result" where
  "h2_verdict L (H2BuildFailed e) = Inl (FeRelay (''h2 request build: '' @ e), SentNo)"
| "h2_verdict L (H2NotReady e) = Inl (FeRelay (''h2 ready: '' @ e), SentNo)"
| "h2_verdict L H2ReadyElapsed = Inl (FeTimeout, SentNo)"
| "h2_verdict L (H2SendFailed e) = Inl (FeRelay (''h2 send_request: '' @ e), SentNo)"
| "h2_verdict L (H2DataFailed e) = Inl (FeRelay (''h2 send_data: '' @ e), SentMaybe)"
| "h2_verdict L (H2ResponseFailed e) = Inl (FeRelay (''h2 response: '' @ e), SentMaybe)"
| "h2_verdict L (H2BodyFailed e) = Inl (FeRelay (''h2 body chunk: '' @ e), SentMaybe)"
| "h2_verdict L H2Elapsed = Inl (FeTimeout, SentMaybe)"
| "h2_verdict L (H2Answer status hs body) =
     Inr (status, visible_headers hs, gunzip (decode_gzip L) (visible_headers hs) body)"

definition reached_wire :: "response h2_result \<Rightarrow> bool" where
  "reached_wire r = (case r of Inl (_, SentNo) \<Rightarrow> False | _ \<Rightarrow> True)"

definition h2_round_trip :: "'s relay_net \<Rightarrow> relay_lib \<Rightarrow> nat \<Rightarrow> h2_request \<Rightarrow> ('f, 's) fronter \<Rightarrow> ('f, 's) fronter \<times> response h2_result" where
  "h2_round_trip net L send req st =
     (case rn_h2 net (fr_world st) send req of
        (w, out) \<Rightarrow>
          (st\<lparr>fr_world := w, fr_sent := fr_sent st @ (if reached_wire (h2_verdict L out) then [SentH2 req] else [])\<rparr>,
           h2_verdict L out))"

definition h2_failed :: "u64 \<Rightarrow> ('f, 's) fronter \<Rightarrow> ('f, 's) fronter" where
  "h2_failed g st = (poison_h2_if_gen g st)\<lparr>fr_h2_fallbacks := fr_h2_fallbacks st + 1\<rparr>"

fun h2_redirects :: "'s relay_net \<Rightarrow> relay_lib \<Rightarrow> fronter_cfg \<Rightarrow> nat \<Rightarrow> u64 \<Rightarrow> nat \<Rightarrow> string \<Rightarrow> response \<Rightarrow> ('f, 's) fronter
    \<Rightarrow> ('f, 's) fronter \<times> response h2_result" where
  "h2_redirects net L cfg send g 0 host r st = (st, Inr r)"
| "h2_redirects net L cfg send g (Suc n) host (status, hdrs, body) st =
     (if \<not> is_redirect status then (st, Inr (status, hdrs, body))
      else (case header_get hdrs ''location'' of
              None \<Rightarrow> (st, Inr (status, hdrs, body))
            | Some loc \<Rightarrow>
                (case parse_redirect loc of (rpath, rhost) \<Rightarrow>
                   let host' = (case rhost of Some h \<Rightarrow> h | None \<Rightarrow> host) in
                   case h2_round_trip net L send (h2_request_of cfg ''GET'' rpath host' [] None) st of
                     (st', Inl (e, _)) \<Rightarrow> (h2_failed g st', Inl (e, SentMaybe))
                   | (st', Inr r) \<Rightarrow> h2_redirects net L cfg send g n host' r st')))"

definition run_h2_relay_with_send :: "'s relay_net \<Rightarrow> relay_lib \<Rightarrow> fronter_cfg \<Rightarrow> nat \<Rightarrow> u64 \<Rightarrow> string \<Rightarrow> bytes \<Rightarrow> ('f, 's) fronter
    \<Rightarrow> ('f, 's) fronter \<times> response h2_result" where
  "run_h2_relay_with_send net L cfg send g path payload st =
     (case h2_round_trip net L send (h2_request_of cfg ''POST'' path (fc_http_host cfg) payload (Some ''application/json'')) st of
        (st1, Inl (e, sent)) \<Rightarrow> (h2_failed g st1, Inl (e, sent))
      | (st1, Inr r) \<Rightarrow>
          (case h2_redirects net L cfg send g 5 (fc_http_host cfg) r st1 of
             (st2, Inl e) \<Rightarrow> (st2, Inl e)
           | (st2, Inr r') \<Rightarrow> (st2\<lparr>fr_h2_calls := fr_h2_calls st2 + 1\<rparr>, Inr r')))"

definition h2_relay_request :: "'s relay_net \<Rightarrow> relay_lib \<Rightarrow> fronter_cfg \<Rightarrow> string \<Rightarrow> bytes \<Rightarrow> ('f, 's) fronter
    \<Rightarrow> (('f, 's) fronter \<times> response h2_result) option" where
  "h2_relay_request net L cfg path payload st =
     (case ensure_h2 net st of
        None \<Rightarrow> None
      | Some (st1, None) \<Rightarrow>
          Some (if fr_h2_disabled st1 then st1 else st1\<lparr>fr_h2_fallbacks := fr_h2_fallbacks st1 + 1\<rparr>,
                Inl (FeRelay ''h2 unavailable'', SentNo))
      | Some (st1, Some (send, g)) \<Rightarrow> Some (run_h2_relay_with_send net L cfg send g path payload st1))"

section \<open>The pool\<close>

lemma freshest_less: "es \<noteq> [] \<Longrightarrow> freshest es < length es"
  by (induction es) auto

lemma freshest_max: "e \<in> set es \<Longrightarrow> pe_created e \<le> pe_created (es ! freshest es)"
proof (induction es)
  case (Cons a es)
  show ?case
  proof (cases "es = []")
    case False
    with Cons show ?thesis by (auto intro: order_trans)
  qed (use Cons.prems in simp)
qed simp

lemma mset_swap_remove: "i < length xs \<Longrightarrow> mset xs = add_mset (fst (swap_remove i xs)) (mset (snd (swap_remove i xs)))"
proof -
  assume i: "i < length xs"
  then have ne: "xs \<noteq> []" by auto
  have "xs[i := last xs] = butlast (xs[i := last xs]) @ [last xs]"
    using ne i by (metis append_butlast_last_id last_list_update list_update_nonempty)
  then have "mset (xs[i := last xs]) = add_mset (last xs) (mset (butlast (xs[i := last xs])))"
    by (metis mset_append mset.simps(1,2) add_mset_add_single)
  moreover have "mset (xs[i := last xs]) = add_mset (last xs) (mset xs - {#xs ! i#})" using i by (simp add: mset_update)
  ultimately have "mset xs - {#xs ! i#} = mset (butlast (xs[i := last xs]))" by simp
  moreover have "xs ! i \<in># mset xs" using i by simp
  ultimately show ?thesis by (metis fst_conv insert_DiffM snd_conv swap_remove_def)
qed

text \<open>The contract of the pool: what is handed out is usable, the newest of what is usable, and taken out of
  the pool, which loses only entries that are not usable.\<close>

lemma acquire_from_pool:
  assumes "filter (pool_usable net st) (fr_pool st) \<noteq> []"
  shows "\<exists>e rest. acquire net st = Some (st\<lparr>fr_pool := rest\<rparr>, Inr e) \<and> pool_usable net st e
    \<and> (\<forall>x \<in> set (fr_pool st). pool_usable net st x \<longrightarrow> pe_created x \<le> pe_created e)
    \<and> filter_mset (pool_usable net st) (mset (fr_pool st)) = add_mset e (mset rest)"
proof -
  let ?p = "filter (pool_usable net st) (fr_pool st)"
  have i: "freshest ?p < length ?p" by (rule freshest_less [OF assms])
  obtain e rest where er: "swap_remove (freshest ?p) ?p = (e, rest)" by (cases "swap_remove (freshest ?p) ?p")
  have e: "e = ?p ! freshest ?p" using er by (simp add: swap_remove_def)
  have "mset ?p = add_mset e (mset rest)" using mset_swap_remove [OF i] er by simp
  moreover have "pool_usable net st e" using nth_mem [OF i] e by simp
  moreover have "x \<in> set (fr_pool st) \<Longrightarrow> pool_usable net st x \<Longrightarrow> pe_created x \<le> pe_created e" for x
    using freshest_max [of x ?p] e by simp
  ultimately show ?thesis using assms er by (auto simp: acquire_def Let_def)
qed

lemma release_cap: "length (fr_pool st) \<le> POOL_MAX \<Longrightarrow> length (fr_pool (release net e st)) \<le> POOL_MAX"
  by (simp add: release_def)

section \<open>The shared connection\<close>

text \<open>The stored connection always carries the newest generation.\<close>

definition h2_inv :: "('f, 's) fronter \<Rightarrow> bool" where
  "h2_inv st \<longleftrightarrow> (case fr_h2_cell st of None \<Rightarrow> True | Some c \<Rightarrow> hc_generation c = fr_h2_generation st) \<and> (fr_h2_disabled st \<longrightarrow> fr_h2_cell st = None)"

lemmas link_defs = next_sni_def open_h1_def open_h2_def h2_handshake_post_tls_def store_h2_def h2_open_failed_def

lemma next_sni_keeps:
  "next_sni st = Some (st', sni) \<Longrightarrow> fr_sent st' = fr_sent st \<and> fr_h2_cell st' = fr_h2_cell st \<and> fr_h2_generation st' = fr_h2_generation st
     \<and> fr_h2_disabled st' = fr_h2_disabled st \<and> fr_pool st' = fr_pool st \<and> fr_scripts st' = fr_scripts st \<and> fr_world st' = fr_world st
     \<and> fr_sni_hosts st' = fr_sni_hosts st"
  by (auto simp: next_sni_def Let_def split: if_splits)

lemma open_h2_keeps:
  "open_h2 net st = Some (st', r) \<Longrightarrow> fr_sent st' = fr_sent st \<and> fr_h2_cell st' = fr_h2_cell st \<and> fr_h2_generation st' = fr_h2_generation st
     \<and> fr_h2_disabled st' = fr_h2_disabled st \<and> fr_pool st' = fr_pool st \<and> fr_scripts st' = fr_scripts st"
  by (auto simp: open_h2_def Let_def split: prod.splits conn_outcome.splits option.splits sum.splits if_splits dest!: next_sni_keeps)

lemma open_h1_keeps:
  "open_h1 net st = Some (st', r) \<Longrightarrow> fr_sent st' = fr_sent st \<and> fr_h2_cell st' = fr_h2_cell st \<and> fr_h2_generation st' = fr_h2_generation st
     \<and> fr_h2_disabled st' = fr_h2_disabled st \<and> fr_pool st' = fr_pool st \<and> fr_scripts st' = fr_scripts st"
  by (auto simp: open_h1_def Let_def split: prod.splits conn_outcome.splits option.splits if_splits dest!: next_sni_keeps)

lemma ensure_h2_keeps:
  "ensure_h2 net st = Some (st', r) \<Longrightarrow> fr_sent st' = fr_sent st \<and> fr_pool st' = fr_pool st \<and> fr_scripts st' = fr_scripts st"
  by (auto simp: ensure_h2_def store_h2_def h2_open_failed_def Let_def split: if_splits option.splits open_outcome.splits prod.splits
      dest!: open_h2_keeps)

lemma ensure_h2_inv: "h2_inv st \<Longrightarrow> ensure_h2 net st = Some (st', r) \<Longrightarrow> h2_inv st'"
  by (auto simp: ensure_h2_def h2_inv_def store_h2_def h2_open_failed_def Let_def split: if_splits option.splits open_outcome.splits prod.splits
      dest!: open_h2_keeps)

lemma poison_inv: "h2_inv st \<Longrightarrow> h2_inv (poison_h2_if_gen g st)" "h2_inv st \<Longrightarrow> h2_inv (sticky_disable_h2_for_fronting_refusal st)"
  by (auto simp: h2_inv_def poison_h2_if_gen_def sticky_disable_h2_for_fronting_refusal_def split: option.splits)

text \<open>A connection that is handed out without opening one is young, alive and of the current host.\<close>

lemma ensure_h2_cached:
  assumes "fr_h2_cell st = Some c" "cell_usable net st c" "\<not> fr_h2_disabled st"
  shows "ensure_h2 net st = Some (st, Some (hc_send c, hc_generation c))"
  using assms by (simp add: ensure_h2_def)

text \<open>A connection that was opened while the host was exchanged is used once and not kept.\<close>

lemma ensure_h2_swapped:
  assumes "\<not> fr_h2_disabled st" "fr_h2_cell st = None" "fr_h2_open_failed_at st = None" "\<not> rn_open_busy net (fr_world st)"
    and "open_h2 net st = Some (st1, OpOk c host)" "host \<noteq> rn_host net (fr_world st1)"
  shows "\<exists>st'. ensure_h2 net st = Some (st', Some (c, fr_h2_generation st1 + 1)) \<and> fr_h2_cell st' = None"
  using assms by (simp add: ensure_h2_def store_h2_def Let_def)

section \<open>What reaches the wire\<close>

lemma h2_round_trip_sent:
  assumes "h2_round_trip net L send req st = (st', r)"
  shows "fr_sent st' = fr_sent st @ (if reached_wire r then [SentH2 req] else [])" "fr_scripts st' = fr_scripts st"
  using assms by (auto simp: h2_round_trip_def split: prod.splits)

lemma h2_failed_keeps [simp]:
  "fr_sent (h2_failed g st) = fr_sent st" "fr_scripts (h2_failed g st) = fr_scripts st"
  by (auto simp: h2_failed_def poison_h2_if_gen_def split: option.splits)

definition is_get :: "sent \<Rightarrow> bool" where
  "is_get s = (case s of SentH2 q \<Rightarrow> hq_method q = ''GET'' | SentH1 b \<Rightarrow> take 4 b = as_bytes ''GET '')"

lemma is_get_head: "is_get (SentH1 (as_bytes (get_head p h)))" "is_get (SentH2 (h2_request_of cfg ''GET'' p h b ct))"
  by (simp_all add: is_get_def get_head_def as_bytes_def h2_request_of_def)

lemma is_get_post: "\<not> is_get (SentH1 (as_bytes (post_head cfg p n) @ b))" "\<not> is_get (SentH2 (h2_request_of cfg ''POST'' p h b ct))"
  by (simp_all add: is_get_def post_head_def as_bytes_def byte_of_char_def h2_request_of_def)

text \<open>The requests that are not redirects followed: the payloads that were handed to a connection.\<close>

definition posts :: "('f, 's) fronter \<Rightarrow> sent list" where
  "posts st = filter (\<lambda>s. \<not> is_get s) (fr_sent st)"

lemma h2_redirects_posts:
  assumes "h2_redirects net L cfg send g n host r st = (st', res)"
  shows "posts st' = posts st \<and> fr_scripts st' = fr_scripts st \<and> (\<forall>e sent. res = Inl (e, sent) \<longrightarrow> sent = SentMaybe)"
  using assms
proof (induction net L cfg send g n host r st rule: h2_redirects.induct)
  case (2 net L cfg send g n host status hdrs body st)
  show ?case
  proof (cases "is_redirect status")
    case True
    show ?thesis
    proof (cases "header_get hdrs ''location''")
      case (Some loc)
      obtain rpath rhost where pr: "parse_redirect loc = (rpath, rhost)" by (cases "parse_redirect loc")
      let ?h = "case rhost of Some h \<Rightarrow> h | None \<Rightarrow> host"
      obtain st1 r1 where rt: "h2_round_trip net L send (h2_request_of cfg ''GET'' rpath ?h [] None) st = (st1, r1)"
        by (cases "h2_round_trip net L send (h2_request_of cfg ''GET'' rpath ?h [] None) st")
      have p1: "posts st1 = posts st" "fr_scripts st1 = fr_scripts st"
        using h2_round_trip_sent [OF rt] by (simp_all add: posts_def is_get_head)
      show ?thesis
      proof (cases r1)
        case (Inl e)
        with "2.prems" True Some pr rt p1 show ?thesis by (cases e) (auto simp: posts_def)
      next
        case (Inr r')
        with "2.prems" True Some pr rt have run: "h2_redirects net L cfg send g n ?h r' st1 = (st', res)" by simp
        have "posts st' = posts st1 \<and> fr_scripts st' = fr_scripts st1 \<and> (\<forall>e sent. res = Inl (e, sent) \<longrightarrow> sent = SentMaybe)"
          using "2.IH" [OF _ Some pr [symmetric] refl rt [symmetric] Inr run] True by simp
        with p1 show ?thesis by simp
      qed
    qed (use "2.prems" True in auto)
  qed (use "2.prems" in auto)
qed auto

lemma h2_relay_posts:
  assumes "h2_relay_request net L cfg path payload st = Some (st', r)"
  shows "posts st' = posts st @ (if reached_wire r then [SentH2 (h2_request_of cfg ''POST'' path (fc_http_host cfg) payload (Some ''application/json''))] else [])
    \<and> fr_scripts st' = fr_scripts st"
proof -
  let ?q = "h2_request_of cfg ''POST'' path (fc_http_host cfg) payload (Some ''application/json'')"
  obtain st1 c where en: "ensure_h2 net st = Some (st1, c)" using assms by (auto simp: h2_relay_request_def split: option.splits)
  have k: "posts st1 = posts st" "fr_scripts st1 = fr_scripts st" using ensure_h2_keeps [OF en] by (simp_all add: posts_def)
  show ?thesis
  proof (cases c)
    case None
    with assms en k show ?thesis by (auto simp: h2_relay_request_def reached_wire_def posts_def)
  next
    case (Some sg)
    obtain send g where sg: "sg = (send, g)" by (cases sg)
    obtain st2 r2 where rt: "h2_round_trip net L send ?q st1 = (st2, r2)" by (cases "h2_round_trip net L send ?q st1")
    have s2: "posts st2 = posts st1 @ (if reached_wire r2 then [SentH2 ?q] else [])" "fr_scripts st2 = fr_scripts st1"
      using h2_round_trip_sent [OF rt] by (simp_all add: posts_def is_get_post)
    have run: "run_h2_relay_with_send net L cfg send g path payload st1 = (st', r)"
      using assms en Some sg by (simp add: h2_relay_request_def)
    show ?thesis
    proof (cases r2)
      case (Inl e)
      with run rt s2 k show ?thesis by (cases e) (auto simp: run_h2_relay_with_send_def posts_def)
    next
      case (Inr resp)
      obtain st3 r3 where rd: "h2_redirects net L cfg send g 5 (fc_http_host cfg) resp st2 = (st3, r3)"
        by (cases "h2_redirects net L cfg send g 5 (fc_http_host cfg) resp st2")
      have "reached_wire r2" "reached_wire r3"
        using h2_redirects_posts [OF rd] by (auto simp: Inr reached_wire_def split: sum.splits request_sent.splits)
      with run rt s2 k h2_redirects_posts [OF rd] Inr rd show ?thesis
        by (auto simp: run_h2_relay_with_send_def posts_def reached_wire_def split: sum.splits)
    qed
  qed
qed

lemma h1_exchange_sent:
  "h1_exchange net L stream req st = Some (st', r) \<Longrightarrow> fr_sent st' = fr_sent st @ [SentH1 req] \<and> fr_scripts st' = fr_scripts st"
  by (auto simp: h1_exchange_def split: prod.splits sum.splits)

lemma and_then_Some:
  "and_then m k = Some (st', r) \<longleftrightarrow>
     (\<exists>st1 e. m = Some (st1, Inl e) \<and> st' = st1 \<and> r = Inl e) \<or> (\<exists>st1 a. m = Some (st1, Inr a) \<and> k st1 a = Some (st', r))"
  by (auto simp: and_then_def split: option.splits sum.splits)

lemma h1_redirects_posts:
  "h1_redirects net L cfg stream n r st = Some (st', res) \<Longrightarrow> posts st' = posts st \<and> fr_scripts st' = fr_scripts st"
proof (induction net L cfg stream n r st arbitrary: res rule: h1_redirects.induct)
  case (2 net L cfg stream n status hdrs body st)
  show ?case
  proof (cases "is_redirect status \<and> header_get hdrs ''location'' \<noteq> None")
    case True
    then obtain loc where loc: "header_get hdrs ''location'' = Some loc" by auto
    obtain rpath rhost where pr: "parse_redirect loc = (rpath, rhost)" by (cases "parse_redirect loc")
    let ?req = "as_bytes (get_head rpath (case rhost of Some h \<Rightarrow> h | None \<Rightarrow> fc_http_host cfg))"
    from "2.prems" True loc pr
    have "and_then (h1_exchange net L stream ?req st) (\<lambda>st' r. h1_redirects net L cfg stream n r st') = Some (st', res)" by simp
    then consider (err) e where "h1_exchange net L stream ?req st = Some (st', Inl e)"
      | (go) st1 r1 where "h1_exchange net L stream ?req st = Some (st1, Inr r1)" "h1_redirects net L cfg stream n r1 st1 = Some (st', res)"
      by (auto simp: and_then_Some)
    then show ?thesis
    proof cases
      case err
      from h1_exchange_sent [OF err] show ?thesis by (simp add: posts_def is_get_head)
    next
      case go
      have "posts st' = posts st1 \<and> fr_scripts st' = fr_scripts st1" using "2.IH" [OF _ loc pr [symmetric] go(2)] True by simp
      with h1_exchange_sent [OF go(1)] show ?thesis by (simp add: posts_def is_get_head)
    qed
  qed (use "2.prems" in \<open>auto split: option.splits\<close>)
qed auto

lemma h1_post_posts:
  assumes "h1_post net L cfg stream path payload st = Some (st', r)"
  shows "posts st' = posts st @ [SentH1 (as_bytes (post_head cfg path (length payload)) @ payload)] \<and> fr_scripts st' = fr_scripts st"
proof -
  let ?req = "as_bytes (post_head cfg path (length payload)) @ payload"
  from assms consider (err) e where "h1_exchange net L stream ?req st = Some (st', Inl e)"
    | (go) st1 r1 where "h1_exchange net L stream ?req st = Some (st1, Inr r1)" "h1_redirects net L cfg stream 5 r1 st1 = Some (st', r)"
    by (auto simp: h1_post_def and_then_Some)
  then show ?thesis
  proof cases
    case err
    from h1_exchange_sent [OF err] show ?thesis by (simp add: posts_def is_get_post)
  next
    case go
    from h1_exchange_sent [OF go(1)] h1_redirects_posts [OF go(2)] show ?thesis by (simp add: posts_def is_get_post)
  qed
qed

lemma acquire_keeps: "acquire net st = Some (st', r) \<Longrightarrow> fr_sent st' = fr_sent st \<and> fr_scripts st' = fr_scripts st"
  by (auto simp: acquire_def Let_def and_then_Some split: if_splits prod.splits dest!: open_h1_keeps)

lemma release_keeps [simp]: "fr_sent (release net e st) = fr_sent st" "fr_scripts (release net e st) = fr_scripts st"
  by (simp_all add: release_def)

end
