(* ===== verification/Pacific_Time.thy ===== *)
theory Pacific_Time
  imports Rust_Str
begin

text \<open>
  The calendar of the daily quota counters in the domain fronter (\<^verbatim>\<open>src/src/domain_fronter.rs\<close>): the date of a
  Unix time by Hinnant's era arithmetic, the Sundays at which daylight saving begins and ends, Pacific
  time, the key of the current day and the time to its end, and the counters themselves. Times are
  natural numbers below \<open>2 ^ 64\<close>, for which none of the code's conversions loses anything. Shown: the era arithmetic
  counts the days of the Gregorian calendar; the computed days are Sundays; a day that has ended does not come
  back; and the counters count the records of the day in every interleaving in which no record straddles midnight, while one that does can undo
  the count of the new day.
\<close>

section \<open>Dates\<close>

definition unix_to_ymd_utc :: "nat \<Rightarrow> nat \<times> nat \<times> nat" where
  "unix_to_ymd_utc secs =
     (let days = secs div 86400; z = days + 719468; era = z div 146097; doe = z - era * 146097;
          yoe = (doe - doe div 1460 + doe div 36524 - doe div 146096) div 365;
          y = yoe + era * 400;
          doy = doe - (365 * yoe + yoe div 4 - yoe div 100);
          mp = (5 * doy + 2) div 153;
          d = doy - (153 * mp + 2) div 5 + 1;
          m = (if mp < 10 then mp + 3 else mp - 9)
      in (if m \<le> 2 then y + 1 else y, m, d))"

definition T :: "nat list" where "T = [0, 3, 2, 5, 0, 3, 5, 1, 4, 6, 2, 4]"

definition nth_sunday_of_month :: "nat \<Rightarrow> nat \<Rightarrow> nat \<Rightarrow> nat" where
  "nth_sunday_of_month year month nth' =
     (let y = (if month < 3 then year - 1 else year);
          dow_of_1st = (y + y div 4 - y div 100 + y div 400 + T ! (month - 1) + 1) mod 7;
          first_sunday = (if dow_of_1st = 0 then 1 else 8 - dow_of_1st)
      in first_sunday + (nth' - 1) * 7)"

definition pacific_is_dst :: "nat \<Rightarrow> nat \<Rightarrow> nat \<Rightarrow> bool" where
  "pacific_is_dst year month day =
     (if \<not> (3 \<le> month \<and> month \<le> 11) then False
      else if 3 < month \<and> month < 11 then True
      else if month = 3 then nth_sunday_of_month year 3 2 \<le> day
      else day < nth_sunday_of_month year 11 1)"

definition unix_to_pt_seconds :: "nat \<Rightarrow> nat" where
  "unix_to_pt_seconds utc_secs =
     (case unix_to_ymd_utc (utc_secs - 8 * 3600) of (y, m, d) \<Rightarrow>
        utc_secs - (if pacific_is_dst y m d then 7 * 3600 else 8 * 3600))"

definition pad_left :: "nat \<Rightarrow> string \<Rightarrow> string" where
  "pad_left n s = replicate (n - length s) (CHR ''0'') @ s"

definition current_pt_day_key :: "nat \<Rightarrow> string" where
  "current_pt_day_key now =
     (case unix_to_ymd_utc (unix_to_pt_seconds now) of (y, m, d) \<Rightarrow>
        pad_left 4 (dec_show y) @ ''-'' @ pad_left 2 (dec_show m) @ ''-'' @ pad_left 2 (dec_show d))"

definition seconds_until_pacific_midnight :: "nat \<Rightarrow> nat" where
  "seconds_until_pacific_midnight now =
     (let rem = unix_to_pt_seconds now mod 86400 in if rem = 0 then 86400 else 86400 - rem)"

record day_counters =
  dc_key :: string
  dc_calls :: u64
  dc_bytes :: u64

definition new_counters :: "nat \<Rightarrow> day_counters" where
  "new_counters now = \<lparr>dc_key = current_pt_day_key now, dc_calls = 0, dc_bytes = 0\<rparr>"

text \<open>Recording a call is four actions that other threads can come between: the day is read from the clock, under the lock of the key
  the counters are reset if the key is of another day, and then each counter is increased. A snapshot does the first two.\<close>

definition roll_over :: "string \<Rightarrow> day_counters \<Rightarrow> day_counters" where
  "roll_over today c = (if dc_key c \<noteq> today then \<lparr>dc_key = today, dc_calls = 0, dc_bytes = 0\<rparr> else c)"

definition add_call :: "day_counters \<Rightarrow> day_counters" where
  "add_call c = c\<lparr>dc_calls := dc_calls c + 1\<rparr>"

definition add_bytes :: "u64 \<Rightarrow> day_counters \<Rightarrow> day_counters" where
  "add_bytes n c = c\<lparr>dc_bytes := dc_bytes c + n\<rparr>"

text \<open>A record with nothing in between.\<close>

definition record_today :: "nat \<Rightarrow> u64 \<Rightarrow> day_counters \<Rightarrow> day_counters" where
  "record_today now n c = add_bytes n (add_call (roll_over (current_pt_day_key now) c))"

text \<open>Any number of records and snapshots at once. A running one has read the day (\<open>n\<close> is missing for a snapshot), or is past the lock, or has
  only its bytes to add. The log has the time and the bytes of every record begun. With \<open>calm\<close> set, a new day is not met while a record or a
  snapshot of the day before is still running.\<close>

datatype day_op = OpSeen string "u64 option" | OpCalls u64 | OpBytes u64

record day_run =
  dr_counters :: day_counters
  dr_running :: "day_op list"
  dr_clock :: nat
  dr_log :: "(nat \<times> u64) list"

definition day_start :: "nat \<Rightarrow> day_run" where
  "day_start t0 = \<lparr>dr_counters = new_counters t0, dr_running = [], dr_clock = t0, dr_log = []\<rparr>"

inductive day_step :: "bool \<Rightarrow> day_run \<Rightarrow> day_run \<Rightarrow> bool" for calm where
  begin_op: "dr_clock r \<le> now \<Longrightarrow> calm \<longrightarrow> dr_running r = [] \<or> current_pt_day_key now = current_pt_day_key (dr_clock r) \<Longrightarrow>
    day_step calm r (r\<lparr>dr_running := OpSeen (current_pt_day_key now) n # dr_running r, dr_clock := now,
      dr_log := dr_log r @ (case n of Some k \<Rightarrow> [(now, k)] | None \<Rightarrow> [])\<rparr>)"
| locked: "dr_running r = a @ OpSeen today n # b \<Longrightarrow>
    day_step calm r (r\<lparr>dr_counters := roll_over today (dr_counters r),
      dr_running := a @ (case n of Some k \<Rightarrow> [OpCalls k] | None \<Rightarrow> []) @ b\<rparr>)"
| called: "dr_running r = a @ OpCalls k # b \<Longrightarrow>
    day_step calm r (r\<lparr>dr_counters := add_call (dr_counters r), dr_running := a @ OpBytes k # b\<rparr>)"
| summed: "dr_running r = a @ OpBytes k # b \<Longrightarrow>
    day_step calm r (r\<lparr>dr_counters := add_bytes k (dr_counters r), dr_running := a @ b\<rparr>)"

section \<open>The calendar by counting\<close>

definition leap :: "nat \<Rightarrow> bool" where "leap y \<longleftrightarrow> y mod 4 = 0 \<and> (y mod 100 \<noteq> 0 \<or> y mod 400 = 0)"

definition days_in_month :: "nat \<Rightarrow> nat \<Rightarrow> nat" where
  "days_in_month y m = (if m = 2 then (if leap y then 29 else 28) else if m \<in> {4, 6, 9, 11} then 30 else 31)"

definition next_day :: "nat \<times> nat \<times> nat \<Rightarrow> nat \<times> nat \<times> nat" where
  "next_day = (\<lambda>(y, m, d).
     if d < days_in_month y m then (y, m, d + 1) else if m < 12 then (y, m + 1, 1) else (y + 1, 1, 1))"

primrec date_after :: "nat \<Rightarrow> nat \<times> nat \<times> nat" where
  "date_after 0 = (1970, 1, 1)"
| "date_after (Suc n) = next_day (date_after n)"

section \<open>Years that begin in March\<close>

text \<open>The days before such a year, its length, and the date of one of its days.\<close>

definition days_before :: "nat \<Rightarrow> nat" where
  "days_before Y = 365 * Y + Y div 4 - Y div 100 + Y div 400"

definition year_len :: "nat \<Rightarrow> nat" where "year_len Y = (if leap (Y + 1) then 366 else 365)"

definition month_day :: "nat \<Rightarrow> nat \<times> nat" where
  "month_day doy = (let mp = (5 * doy + 2) div 153 in (if mp < 10 then mp + 3 else mp - 9, doy - (153 * mp + 2) div 5 + 1))"

definition date_of :: "nat \<Rightarrow> nat \<Rightarrow> nat \<times> nat \<times> nat" where
  "date_of Y doy = (case month_day doy of (m, d) \<Rightarrow> (if m \<le> 2 then Y + 1 else Y, m, d))"

lemma div_le_365: "(Y::nat) div 100 \<le> 365 * Y + Y div 4"
  using div_le_dividend [of Y 100] by linarith

lemma days_before_Suc: "days_before (Suc Y) = days_before Y + year_len Y"
proof -
  define p q r where "p \<longleftrightarrow> Suc Y mod 4 = 0" and "q \<longleftrightarrow> Suc Y mod 100 = 0" and "r \<longleftrightarrow> Suc Y mod 400 = 0"
  define a b c where "a = Y div 4" and "b = Y div 100" and "c = Y div 400"
  have "Suc Y div 4 = (if p then Suc a else a)" "Suc Y div 100 = (if q then Suc b else b)" "Suc Y div 400 = (if r then Suc c else c)"
    by (simp_all add: div_Suc p_def q_def r_def a_def b_def c_def)
  then have "days_before (Suc Y) = 365 * Suc Y + (if p then Suc a else a) - (if q then Suc b else b) + (if r then Suc c else c)"
    unfolding days_before_def by simp
  moreover have "days_before Y = 365 * Y + a - b + c" by (simp add: days_before_def a_def b_def c_def)
  moreover have "year_len Y = (if p \<and> (\<not> q \<or> r) then 366 else 365)" by (simp add: year_len_def leap_def p_def q_def r_def)
  moreover have "r \<longrightarrow> q" "q \<longrightarrow> p"
    using dvd_trans [of 100 400 "Suc Y"] dvd_trans [of 4 100 "Suc Y"]
    unfolding p_def q_def r_def mod_eq_0_iff_dvd by simp_all
  moreover have "b \<le> 365 * Y + a" using div_le_365 by (simp add: a_def b_def)
  ultimately show ?thesis by (cases p; cases q; cases r) simp_all
qed

text \<open>The months of such a year, numbered from March: the day on which one begins, and its number in the calendar.\<close>

definition first_day :: "nat \<Rightarrow> nat" where "first_day k = (153 * k + 2) div 5"

definition month_no :: "nat \<Rightarrow> nat" where "month_no k = (if k < 10 then k + 3 else k - 9)"

lemma month_day_eq:
  assumes "first_day k \<le> doy" and "doy < first_day (Suc k)"
  shows "month_day doy = (month_no k, doy - first_day k + 1)"
proof -
  have "(5 * doy + 2) div 153 = k" using assms by (intro div_nat_eqI) (simp_all add: first_day_def)
  then show ?thesis by (simp add: month_day_def month_no_def first_day_def)
qed

lemma month_exists:
  assumes "doy < 366"
  obtains k where "k < 12" "first_day k \<le> doy" "doy < first_day (Suc k)"
proof
  let ?k = "(5 * doy + 2) div 153"
  show "?k < 12" using assms by simp
  have "153 * ?k \<le> 5 * doy + 2" "5 * doy + 2 < 153 * ?k + 153" by (simp_all add: dividend_less_times_div)
  then show "first_day ?k \<le> doy" "doy < first_day (Suc ?k)" unfolding first_day_def by simp_all
qed

lemma below_12:
  fixes k :: nat
  assumes "k < 12"
  shows "k = 0 \<or> k = 1 \<or> k = 2 \<or> k = 3 \<or> k = 4 \<or> k = 5 \<or> k = 6 \<or> k = 7 \<or> k = 8 \<or> k = 9 \<or> k = 10 \<or> k = 11"
  using assms by presburger

lemma months:
  assumes "k < 11"
  shows "first_day (Suc k) = first_day k + days_in_month 0 (month_no k)"
    and "month_no (Suc k) = (if month_no k < 12 then month_no k + 1 else 1)" and "month_no k \<noteq> 2"
    and "first_day (Suc k) \<le> 337"
  using assms below_12 [of k] by (auto simp: first_day_def month_no_def days_in_month_def)

lemma month_starts:
  assumes "k < 12"
  shows "T ! (month_no k - 1) = (first_day k + 2) mod 7" and "month_no k \<le> 2 \<longleftrightarrow> 10 \<le> k"
    and "306 \<le> first_day k \<longleftrightarrow> 10 \<le> k"
  using below_12 [OF assms] by (auto simp: first_day_def month_no_def T_def)

lemma year_len_bounds: "365 \<le> year_len Y" "year_len Y \<le> 366"
  by (simp_all add: year_len_def)

lemma month_begins: "first_day k < first_day (Suc k)"
  by (simp add: first_day_def)

lemma february: "days_in_month (Suc Y) 2 + 337 = year_len Y"
  by (simp add: days_in_month_def year_len_def)

lemma days_in_other_month: "m \<noteq> 2 \<Longrightarrow> days_in_month y m = days_in_month 0 m"
  by (simp add: days_in_month_def)

lemma next_date_of:
  assumes "doy < year_len Y"
  shows "next_day (date_of Y doy) = (if Suc doy < year_len Y then date_of Y (Suc doy) else date_of (Suc Y) 0)"
proof -
  obtain k where k: "k < 12" "first_day k \<le> doy" "doy < first_day (Suc k)"
    using month_exists less_le_trans [OF assms year_len_bounds(2)] by blast
  note now = month_day_eq [OF k(2,3)]
  show ?thesis
  proof (cases "k = 11")
    case True
    then have doy: "337 \<le> doy" and "month_day doy = (2, doy - 336)" using k(2) now by (simp_all add: first_day_def month_no_def)
    then have date: "date_of Y doy = (Suc Y, 2, doy - 336)" by (simp add: date_of_def)
    show ?thesis
    proof (cases "Suc doy < year_len Y")
      case True
      then have "month_day (Suc doy) = (2, doy - 335)"
        using month_day_eq [of 11 "Suc doy"] doy year_len_bounds [of Y] by (simp add: first_day_def month_no_def)
      moreover have "doy - 336 < days_in_month (Suc Y) 2" using True doy february [of Y] by simp
      ultimately show ?thesis unfolding date using True doy by (simp add: next_day_def date_of_def)
    next
      case False
      then have "\<not> doy - 336 < days_in_month (Suc Y) 2" using doy february [of Y] by simp
      then show ?thesis unfolding date using False by (simp add: next_day_def date_of_def month_day_def)
    qed
  next
    case False
    then have k': "k < 11" using k(1) by simp
    note m = months [OF k']
    have "Suc doy < year_len Y" using k(3) m(4) year_len_bounds [of Y] by simp
    moreover have "month_day (Suc doy) = (if doy - first_day k + 1 < days_in_month 0 (month_no k)
        then (month_no k, doy - first_day k + 2) else (month_no (Suc k), 1))"
      using month_day_eq [of k "Suc doy"] month_day_eq [of "Suc k" "Suc doy"] k m(1)
        month_begins [of "Suc k"] by auto
    ultimately show ?thesis
      using now m(2,3) month_starts [OF k(1)] days_in_other_month [OF m(3), of Y] days_in_other_month [OF m(3), of "Suc Y"]
      by (auto simp: next_day_def date_of_def)
  qed
qed

text \<open>The year of a day of the four-hundred-year era, by centuries, leap cycles and years.\<close>

definition era_year :: "nat \<Rightarrow> nat" where
  "era_year doe = (doe - doe div 1460 + doe div 36524 - doe div 146096) div 365"

lemma era_year_split:
  assumes "a < 4" and "b < 25" and "c < 4" and "doy \<le> 365" and "doy = 365 \<Longrightarrow> c = 3 \<and> (b < 24 \<or> a = 3)"
  shows "era_year (36524 * a + 1461 * b + 365 * c + doy) = 100 * a + 4 * b + c"
proof -
  define doe where "doe = 36524 * a + 1461 * b + 365 * c + doy"
  define r where "r = 24 * a + b + 365 * c + doy"
  define e where "e = (if doe = 146096 then 1 else 0::nat)"
  have inner: "1461 * b + 365 * c + doy \<le> 36524" "a < 3 \<Longrightarrow> 1461 * b + 365 * c + doy < 36524"
    using assms by linarith+
  then have le: "doe \<le> 146096" and e: "doe = 146096 \<longleftrightarrow> a = 3 \<and> 1461 * b + 365 * c + doy = 36524" unfolding doe_def using assms(1) by auto
  have q1: "doe div 1460 = 25 * a + b + r div 1460"
  proof -
    have "doe = 1460 * (25 * a + b) + r" by (simp add: doe_def r_def)
    then show ?thesis by simp
  qed
  have q2: "doe div 36524 = a + e"
  proof (cases "doe = 146096")
    case True
    then show ?thesis using e by (simp add: e_def)
  next
    case False
    then have "1461 * b + 365 * c + doy < 36524" using inner e assms(1) by (cases "a = 3") auto
    then show ?thesis using False by (auto simp: e_def doe_def intro!: div_nat_eqI)
  qed
  have q3: "doe div 146096 = e" using le by (auto simp: e_def intro!: div_nat_eqI)
  have r: "r div 1460 = (if 1460 \<le> r then 1 else 0)" using assms by (auto simp: r_def intro!: div_nat_eqI)
  have "doe - doe div 1460 + doe div 36524 - doe div 146096 = 365 * (100 * a + 4 * b + c) + (doy - r div 1460)"
    unfolding q1 q2 q3 r using assms by (auto simp: doe_def r_def)
  moreover have "doy - r div 1460 < 365" using assms unfolding r by (cases "doy = 365") (auto simp: r_def)
  ultimately show ?thesis unfolding era_year_def doe_def [symmetric] by (auto intro!: div_nat_eqI)
qed

lemma year_split:
  fixes y :: nat
  assumes "y < 400"
  obtains a b c where "y = 100 * a + 4 * b + c" "a < 4" "b < 25" "c < 4"
proof
  have "y mod 100 = 4 * (y mod 100 div 4) + y mod 100 mod 4" by simp
  then show "y = 100 * (y div 100) + 4 * (y mod 100 div 4) + y mod 100 mod 4" by presburger
  show "y div 100 < 4" "y mod 100 div 4 < 25" "y mod 100 mod 4 < 4" using assms by (auto intro: less_mult_imp_div_less)
qed

lemma days_before_split:
  fixes y :: nat
  assumes "y = 100 * a + 4 * b + c" "a < 4" "b < 25" "c < 4"
  shows "365 * y + y div 4 - y div 100 = 36524 * a + 1461 * b + 365 * c"
proof -
  have "y div 4 = 25 * a + b" "y div 100 = a" using assms by (auto intro!: div_nat_eqI)
  then show ?thesis using assms by simp
qed

lemma leap_split:
  assumes "y = 100 * a + 4 * b + c" "a < 4" "b < 25" "c < 4" "leap (400 * e + y + 1)"
  shows "c = 3 \<and> (b < 24 \<or> a = 3)"
proof -
  let ?n = "400 * e + y + 1"
  have four: "4 dvd ?n" using assms(5) by (simp add: leap_def mod_eq_0_iff_dvd)
  have "?n = 4 * (100 * e + 25 * a + b) + (c + 1)" using assms(1) by simp
  then have "4 dvd c + 1" using four by (metis dvd_add_right_iff dvd_triv_left)
  then have c: "c = 3" using assms(4) by (auto dest: dvd_imp_le)
  have "a = 3" if "\<not> b < 24"
  proof -
    have n: "?n = 100 * (4 * e + a + 1)" using assms that c by simp
    have "?n mod 100 = 0" unfolding n by (rule mod_mult_self1_is_0)
    then have "100 * 4 dvd 100 * (4 * e + (a + 1))" using assms(5) n unfolding leap_def mod_eq_0_iff_dvd by (simp add: algebra_simps)
    then have "4 dvd 4 * e + (a + 1)" by (simp only: nat_mult_dvd_cancel_disj) simp
    then have "4 dvd a + 1" by (rule dvd_add_right_iff [THEN iffD1, rotated]) simp
    then show ?thesis using assms(2) by (auto dest: dvd_imp_le)
  qed
  then show ?thesis using c by blast
qed

lemma era_days: "days_before (400 * e + y) = 146097 * e + (365 * y + y div 4 - y div 100)" if "y < 400"
proof -
  have "(400 * e + y) div 4 = 100 * e + y div 4" "(400 * e + y) div 100 = 4 * e + y div 100" "(400 * e + y) div 400 = e"
    using that by (simp_all add: div_add1_eq)
  then show ?thesis using div_le_365 [of y] by (simp add: days_before_def)
qed

text \<open>The era arithmetic finds the year and the day of the year that began the count.\<close>

lemma unix_date:
  assumes "doy < year_len Y" and "secs div 86400 + 719468 = days_before Y + doy"
  shows "unix_to_ymd_utc secs = date_of Y doy"
proof -
  define e y where "e = Y div 400" and "y = Y mod 400"
  then have Y: "Y = 400 * e + y" and y: "y < 400" by simp_all
  obtain a b c where s: "y = 100 * a + 4 * b + c" "a < 4" "b < 25" "c < 4" using year_split [OF y] by blast
  have len: "doy \<le> 365" "doy = 365 \<Longrightarrow> c = 3 \<and> (b < 24 \<or> a = 3)"
    using assms(1) leap_split [OF s, of e] by (auto simp: year_len_def Y split: if_split_asm)
  define doe where "doe = 36524 * a + 1461 * b + 365 * c + doy"
  have z: "secs div 86400 + 719468 = 146097 * e + doe"
    unfolding assms(2) Y era_days [OF y] days_before_split [OF s] doe_def by simp
  have lt: "doe < 146097" using s len unfolding doe_def by linarith
  then have era: "(146097 * e + doe) div 146097 = e" by simp
  have sub: "146097 * e + doe - e * 146097 = doe" by simp
  have yoe: "(doe - doe div 1460 + doe div 36524 - doe div 146096) div 365 = y"
    using era_year_split [OF s(2-4) len] s(1) by (simp add: doe_def era_year_def)
  have doy: "doe - (365 * y + y div 4 - y div 100) = doy" unfolding days_before_split [OF s] doe_def by simp
  have "unix_to_ymd_utc secs = (let mp = (5 * doy + 2) div 153; m = (if mp < 10 then mp + 3 else mp - 9)
      in (if m \<le> 2 then y + e * 400 + 1 else y + e * 400, m, doy - (153 * mp + 2) div 5 + 1))"
    by (simp only: unix_to_ymd_utc_def Let_def z era sub yoe doy)
  moreover have "y + e * 400 = Y" by (simp add: Y)
  ultimately show ?thesis by (simp add: date_of_def month_day_def Let_def)
qed

lemma date_after_year:
  "\<exists>Y doy. n + 719468 = days_before Y + doy \<and> doy < year_len Y \<and> date_after n = date_of Y doy"
proof (induction n)
  case 0
  show ?case
    by (rule exI [of _ 1969], rule exI [of _ 306])
      (simp add: days_before_def year_len_def leap_def date_of_def month_day_def Let_def)
next
  case (Suc n)
  then obtain Y doy where n: "n + 719468 = days_before Y + doy" "doy < year_len Y" "date_after n = date_of Y doy" by blast
  show ?case
  proof (cases "Suc doy < year_len Y")
    case True
    then show ?thesis using n by (intro exI [of _ Y] exI [of _ "Suc doy"]) (simp add: next_date_of)
  next
    case False
    then show ?thesis using n year_len_bounds [of "Suc Y"]
      by (intro exI [of _ "Suc Y"] exI [of _ 0]) (simp add: next_date_of days_before_Suc)
  qed
qed

lemma unix_date_counts: "unix_to_ymd_utc secs = date_after (secs div 86400)"
  using date_after_year [of "secs div 86400"] unix_date by metis

text \<open>C21: a
  date is that of the Gregorian calendar: the epoch's date moved on by one day for every 86400 seconds, with the
  leap years of four, one hundred and four hundred years.\<close>

theorem unix_date_is_gregorian: "unix_to_ymd_utc secs = date_after (secs div 86400)"
  by (rule unix_date_counts)

section \<open>Sundays\<close>

text \<open>The weekday of a day, Sunday being 0: the epoch is a Thursday.\<close>

definition weekday :: "nat \<Rightarrow> nat" where "weekday n = (n + 4) mod 7"

lemma month_first:
  assumes "doy < 366" and "month_day doy = (m, d)"
  shows "(doy + 2) mod 7 = (T ! (m - 1) + (d - 1)) mod 7"
proof -
  obtain k where k: "k < 12" "first_day k \<le> doy" "doy < first_day (Suc k)" using month_exists [OF assms(1)] .
  then have "m = month_no k" "d - 1 = doy - first_day k" using month_day_eq [of k doy] assms(2) by auto
  then have "(T ! (m - 1) + (d - 1)) mod 7 = ((first_day k + 2) mod 7 + (doy - first_day k)) mod 7"
    using month_starts(1) [OF k(1)] by simp
  also have "\<dots> = (first_day k + 2 + (doy - first_day k)) mod 7" by (simp only: mod_add_left_eq)
  also have "\<dots> = (doy + 2) mod 7" using k(2) by simp
  finally show ?thesis ..
qed

lemma first_weekday:
  assumes "date_after n = (y, m, d)"
  shows "weekday n = ((let y' = (if m < 3 then y - 1 else y) in (y' + y' div 4 - y' div 100 + y' div 400 + T ! (m - 1) + 1) mod 7) + (d - 1)) mod 7"
    and "1 \<le> d"
proof -
  obtain Y doy where Y: "n + 719468 = days_before Y + doy" "doy < year_len Y" "date_after n = date_of Y doy"
    using date_after_year by blast
  have doy: "doy < 366" using Y(2) year_len_bounds [of Y] by simp
  have md: "month_day doy = (m, d)" and y: "(if m < 3 then y - 1 else y) = Y"
    using assms Y(3) by (auto simp: date_of_def split: prod.splits if_split_asm)
  obtain k where "k < 12" "first_day k \<le> doy" "doy < first_day (Suc k)" using month_exists [OF doy] .
  then show "1 \<le> d" using month_day_eq [of k doy] md by auto
  define A where "A = Y + Y div 4 - Y div 100 + Y div 400"
  have "Y div 100 \<le> Y" by simp
  then have "days_before Y = 364 * Y + A" by (simp add: days_before_def A_def)
  then have "n + 4 + 7 * 102781 = 7 * (52 * Y) + (A + 1 + (doy + 2))" using Y(1) by simp
  then have "(n + 4) mod 7 = (A + 1 + (doy + 2)) mod 7" by (metis mod_mult_self2 mod_mult_self4)
  also have "\<dots> = (A + 1 + (doy + 2) mod 7) mod 7" by (simp only: mod_add_right_eq)
  also have "\<dots> = (A + 1 + (T ! (m - 1) + (d - 1))) mod 7" unfolding month_first [OF doy md] by (simp only: mod_add_right_eq)
  also have "\<dots> = (A + T ! (m - 1) + 1 + (d - 1)) mod 7" by (simp only: ac_simps)
  also have "\<dots> = ((A + T ! (m - 1) + 1) mod 7 + (d - 1)) mod 7" by (simp only: mod_add_left_eq)
  finally show "weekday n = ((let y' = (if m < 3 then y - 1 else y) in (y' + y' div 4 - y' div 100 + y' div 400 + T ! (m - 1) + 1) mod 7) + (d - 1)) mod 7"
    unfolding weekday_def y Let_def A_def .
qed

lemma sunday_arith:
  fixes w d k :: nat
  assumes "w < 7" and "1 \<le> d" and "1 \<le> k"
  shows "d = (if w = 0 then 1 else 8 - w) + (k - 1) * 7 \<longleftrightarrow> (w + (d - 1)) mod 7 = 0 \<and> (d - 1) div 7 = k - 1"
proof -
  define q r where "q = (d - 1) div 7" and "r = (d - 1) mod 7"
  have d: "d = 7 * q + r + 1" and r: "r < 7" using assms(2) by (simp_all add: q_def r_def)
  have "(w + (d - 1)) mod 7 = (w + r + 7 * q) mod 7" using d by (simp add: ac_simps)
  then have m: "(w + (d - 1)) mod 7 = (w + r) mod 7" by simp
  have "(w + r) mod 7 = 0 \<longleftrightarrow> w + r = 0 \<or> w + r = 7" using assms(1) r by (cases "w + r < 7") (auto simp: mod_if)
  moreover have "(d - 1) div 7 = q" by (simp add: q_def)
  moreover have "7 * q + r + 1 = (if w = 0 then 1 else 8 - w) + (k - 1) * 7 \<longleftrightarrow> (w + r = 0 \<or> w + r = 7) \<and> q = k - 1"
  proof (cases "w = 0")
    case True
    have "7 * q + r = 7 * j \<longleftrightarrow> r = 0 \<and> q = j" for j using r by presburger
    then show ?thesis using True r by (simp add: mult.commute [of _ 7])
  next
    case False
    have "7 * q + (w + r) = 7 * j + 7 \<longleftrightarrow> w + r = 7 \<and> q = j" for j using assms(1) r False by presburger
    moreover have "7 * q + r + 1 = 8 - w + j \<longleftrightarrow> 7 * q + (w + r) = j + 7" for j using assms(1) by auto
    ultimately show ?thesis using False by (simp add: mult.commute [of _ 7])
  qed
  ultimately show ?thesis unfolding m using d by simp
qed

text \<open>Daylight saving is switched on Sundays: the day computed for a month is the one day of it that is a Sunday and has
  the given number of Sundays before it, with weekdays counted from the Thursday that was the epoch.\<close>

lemma nth_sunday_is_sunday:
  assumes "date_after n = (y, m, d)" and "1 \<le> k"
  shows "d = nth_sunday_of_month y m k \<longleftrightarrow> weekday n = 0 \<and> (d - 1) div 7 = k - 1"
  unfolding first_weekday(1) [OF assms(1)] nth_sunday_of_month_def Let_def
  by (rule sunday_arith) (use assms first_weekday(2) in auto)

section \<open>Days do not return\<close>

fun date_ord :: "nat \<times> nat \<times> nat \<Rightarrow> nat" where
  "date_ord (y, m, d) = 10000 * y + 100 * m + d"

lemma date_after_bounds: "date_after n = (y, m, d) \<Longrightarrow> 1 \<le> m \<and> m \<le> 12 \<and> 1 \<le> d \<and> d \<le> 31"
proof (induction n arbitrary: y m d)
  case (Suc n)
  obtain y' m' d' where "date_after n = (y', m', d')" by (cases "date_after n")
  then show ?case using Suc by (fastforce simp: next_day_def days_in_month_def split: if_split_asm)
qed simp

lemma date_ord_Suc: "date_ord (date_after n) < date_ord (date_after (Suc n))"
proof -
  obtain y m d where *: "date_after n = (y, m, d)" by (cases "date_after n")
  then show ?thesis using date_after_bounds [OF *] by (auto simp: next_day_def)
qed

lemma date_after_inj: "date_after n = date_after n' \<longleftrightarrow> n = n'"
proof -
  have "strict_mono (\<lambda>n. date_ord (date_after n))" using date_ord_Suc by (auto simp: strict_mono_Suc_iff)
  then show ?thesis by (metis strict_mono_eq)
qed

lemma pad_left_val: "dec_val (pad_left n s) = dec_val s"
proof -
  have "dec_val (CHR ''0'' # t) = dec_val t" for t by (simp add: dec_val_def)
  then have "dec_val (replicate k (CHR ''0'') @ s) = dec_val s" for k by (induction k) simp_all
  then show ?thesis by (simp add: pad_left_def)
qed

lemma pad_left_digits: "CHR ''-'' \<notin> set (pad_left n (dec_show k))"
  by (auto simp: pad_left_def digit_not_in_dec_show is_digit_def)

lemma dash_split: "a @ CHR ''-'' # b = a' @ CHR ''-'' # b' \<Longrightarrow> CHR ''-'' \<notin> set a \<Longrightarrow> CHR ''-'' \<notin> set a' \<Longrightarrow> a = a' \<and> b = b'"
proof (induction a arbitrary: a')
  case Nil
  then show ?case by (cases a') auto
next
  case (Cons x a)
  then show ?case by (cases a') auto
qed

definition pt_day :: "nat \<Rightarrow> nat" where
  "pt_day now = unix_to_pt_seconds now div 86400"

lemma pad_show_inj: "pad_left n (dec_show k) = pad_left n (dec_show k') \<Longrightarrow> k = k'"
  by (metis pad_left_val dec_val_dec_show)

lemma day_key_inj: "current_pt_day_key t = current_pt_day_key t' \<longleftrightarrow> pt_day t = pt_day t'"
proof
  assume eq: "current_pt_day_key t = current_pt_day_key t'"
  obtain y m d y' m' d' where *: "date_after (pt_day t) = (y, m, d)" "date_after (pt_day t') = (y', m', d')"
    by (cases "date_after (pt_day t)", cases "date_after (pt_day t')") auto
  then have "pad_left 4 (dec_show y) @ CHR ''-'' # pad_left 2 (dec_show m) @ CHR ''-'' # pad_left 2 (dec_show d) =
    pad_left 4 (dec_show y') @ CHR ''-'' # pad_left 2 (dec_show m') @ CHR ''-'' # pad_left 2 (dec_show d')"
    using eq by (simp add: current_pt_day_key_def unix_date_counts flip: pt_day_def)
  then have "y = y'" "m = m'" "d = d'" using dash_split pad_left_digits pad_show_inj by metis+
  then show "pt_day t = pt_day t'" using * by (simp flip: date_after_inj)
qed (simp add: current_pt_day_key_def unix_date_counts pt_day_def)

lemma pt_day_mono:
  assumes "t \<le> t'"
  shows "pt_day t \<le> pt_day t'"
proof -
  define P where "P t = (t - 28800) div 86400" for t :: nat
  define dst where "dst t = (case date_after (P t) of (y, m, d) \<Rightarrow> pacific_is_dst y m d)" for t
  have pt: "unix_to_pt_seconds t = t - (if dst t then 25200 else 28800)" for t
    by (simp add: unix_to_pt_seconds_def dst_def P_def unix_date_counts split: prod.split)
  have lo: "P t \<le> pt_day t" for t by (auto simp: pt_day_def pt P_def intro: div_le_mono)
  have hi: "pt_day t \<le> P t + 1" for t
  proof -
    have "t - 25200 \<le> t - 28800 + 86400" by simp
    then have "(t - 25200) div 86400 \<le> (t - 28800 + 86400) div 86400" by (rule div_le_mono)
    then show ?thesis by (simp add: pt_day_def pt P_def)
  qed
  have "P t \<le> P t'" using assms by (simp add: P_def div_le_mono)
  then consider "P t = P t'" | "P t + 1 \<le> P t'" by linarith
  then show ?thesis
  proof cases
    case 1
    then have "dst t = dst t'" by (simp add: dst_def)
    then show ?thesis using assms by (simp add: pt_day_def pt div_le_mono)
  next
    case 2
    then show ?thesis using hi [of t] lo [of t'] by linarith
  qed
qed

lemma day_between:
  assumes "t \<le> t1" "t1 \<le> t2" "current_pt_day_key t = current_pt_day_key t2"
  shows "current_pt_day_key t1 = current_pt_day_key t2"
  using assms pt_day_mono [of t t1] pt_day_mono [of t1 t2] by (simp add: day_key_inj)

section \<open>The day's counters\<close>

definition bytes_of_day :: "string \<Rightarrow> (nat \<times> u64) list \<Rightarrow> u64 list" where
  "bytes_of_day key rs = map snd (filter (\<lambda>r. current_pt_day_key (fst r) = key) rs)"

lemma bytes_of_day_Nil [simp]: "bytes_of_day key [] = []"
  by (simp add: bytes_of_day_def)

lemma bytes_of_day_snoc [simp]:
  "bytes_of_day key (rs @ [r]) = bytes_of_day key rs @ (if current_pt_day_key (fst r) = key then [snd r] else [])"
  by (simp add: bytes_of_day_def)

text \<open>What the running records have still to add to the counters.\<close>

definition calls_due :: "day_op list \<Rightarrow> u64" where
  "calls_due ops = sum_list (map (\<lambda>op. case op of OpSeen _ (Some k) \<Rightarrow> 1 | OpCalls k \<Rightarrow> 1 | _ \<Rightarrow> 0) ops)"

definition bytes_due :: "day_op list \<Rightarrow> u64" where
  "bytes_due ops = sum_list (map (\<lambda>op. case op of OpSeen _ (Some k) \<Rightarrow> k | OpCalls k \<Rightarrow> k | OpBytes k \<Rightarrow> k | _ \<Rightarrow> 0) ops)"

lemma due_simps [simp]:
  "calls_due [] = 0" "bytes_due [] = 0"
  "calls_due (a @ b) = calls_due a + calls_due b" "bytes_due (a @ b) = bytes_due a + bytes_due b"
  "calls_due (op # ops) = (case op of OpSeen _ (Some k) \<Rightarrow> 1 | OpCalls k \<Rightarrow> 1 | _ \<Rightarrow> 0) + calls_due ops"
  "bytes_due (op # ops) = (case op of OpSeen _ (Some k) \<Rightarrow> k | OpCalls k \<Rightarrow> k | OpBytes k \<Rightarrow> k | _ \<Rightarrow> 0) + bytes_due ops"
  by (simp_all add: calls_due_def bytes_due_def)

fun seen_on :: "string \<Rightarrow> day_op \<Rightarrow> bool" where
  "seen_on key (OpSeen today n) \<longleftrightarrow> today = key"
| "seen_on key _ \<longleftrightarrow> False"

fun of_day :: "string \<Rightarrow> day_op \<Rightarrow> bool" where
  "of_day key (OpSeen today n) \<longleftrightarrow> today = key"
| "of_day key _ \<longleftrightarrow> True"

text \<open>In a calm run: when the key is of the current day, the counters and what is due make up the day's records; when it is not, nothing has
  passed the lock since the day began.\<close>

definition day_ok :: "day_run \<Rightarrow> bool" where
  "day_ok r \<longleftrightarrow>
     (let key = current_pt_day_key (dr_clock r); day = bytes_of_day key (dr_log r); c = dr_counters r in
      (\<exists>t \<le> dr_clock r. dc_key c = current_pt_day_key t) \<and>
      (\<forall>e \<in> set (dr_log r). fst e \<le> dr_clock r) \<and>
      list_all (of_day key) (dr_running r) \<and>
      (if dc_key c = key
       then dc_calls c + calls_due (dr_running r) = of_nat (length day) \<and> dc_bytes c + bytes_due (dr_running r) = sum_list day
       else dr_running r \<noteq> [] \<and> list_all (seen_on key) (dr_running r) \<and> calls_due (dr_running r) = of_nat (length day) \<and>
         bytes_due (dr_running r) = sum_list day))"

lemma new_day_empty:
  assumes "\<forall>e \<in> set log. fst e \<le> t" "t \<le> now" "current_pt_day_key now \<noteq> current_pt_day_key t"
  shows "bytes_of_day (current_pt_day_key now) log = []"
  using assms day_between [of _ t now] by (fastforce simp: bytes_of_day_def filter_empty_conv)

lemma day_start_ok: "day_ok (day_start t0)"
  by (auto simp: day_ok_def day_start_def new_counters_def Let_def)

lemma begin_ok:
  assumes "day_ok r" "dr_clock r \<le> now" "dr_running r = [] \<or> current_pt_day_key now = current_pt_day_key (dr_clock r)"
  shows "day_ok (r\<lparr>dr_running := OpSeen (current_pt_day_key now) n # dr_running r, dr_clock := now,
      dr_log := dr_log r @ (case n of Some k \<Rightarrow> [(now, k)] | None \<Rightarrow> [])\<rparr>)"
proof (cases "current_pt_day_key now = current_pt_day_key (dr_clock r)")
  case True
  then show ?thesis using assms(1,2)
    by (cases n) (auto simp: day_ok_def Let_def intro: order.trans split: if_splits)
next
  case False
  obtain t where t: "t \<le> dr_clock r" "dc_key (dr_counters r) = current_pt_day_key t" using assms(1) by (auto simp: day_ok_def Let_def)
  then have k: "dc_key (dr_counters r) \<noteq> current_pt_day_key now" using day_between [of t "dr_clock r" now] assms(2) False by metis
  have log: "\<forall>e \<in> set (dr_log r). fst e \<le> dr_clock r" using assms(1) by (auto simp: day_ok_def Let_def)
  have e: "bytes_of_day (current_pt_day_key now) (dr_log r) = []" by (rule new_day_empty [OF log assms(2) False])
  have t': "t \<le> now" using t(1) assms(2) by simp
  have r: "dr_running r = []" using assms(3) False by simp
  show ?thesis using k e r t(2) t' log assms(2)
    by (cases n) (auto simp: day_ok_def Let_def intro: order.trans)
qed

lemma day_step_ok:
  assumes "day_step True r r'" "day_ok r" shows "day_ok r'"
  using assms
proof (cases rule: day_step.cases)
  case (begin_op now n)
  then show ?thesis using begin_ok [OF assms(2)] by simp
next
  case (locked a today n b)
  then show ?thesis using assms(2)
    by (cases n) (auto simp: day_ok_def Let_def roll_over_def add.commute add.left_commute split: if_splits)
next
  case (called a k b)
  then show ?thesis using assms(2)
    by (auto simp: day_ok_def Let_def add_call_def add.commute add.left_commute split: if_splits)
next
  case (summed a k b)
  then show ?thesis using assms(2)
    by (auto simp: day_ok_def Let_def add_bytes_def add.commute add.left_commute split: if_splits)
qed

lemma calm_ok: "(day_step True)\<^sup>*\<^sup>* (day_start t0) r \<Longrightarrow> day_ok r"
  by (induction rule: rtranclp_induct) (auto simp: day_start_ok intro: day_step_ok)

text \<open>C22: the day's counters count the day. Records and snapshots run at once, their steps in any order, with a clock that
  does not go back, and none of them is still running from one Pacific day when the next is first met. Then, when all have ended, the key is that of
  the day of the last one, and the counters are the number of the records begun on that day and the sum of their bytes
  (modulo \<open>2 ^ 64\<close>), also in the hour that daylight saving repeats.\<close>

theorem daily_counters_exact:
  assumes "(day_step True)\<^sup>*\<^sup>* (day_start t0) r" and "dr_running r = []"
  shows "dr_counters r =
    (let day = bytes_of_day (current_pt_day_key (dr_clock r)) (dr_log r)
     in \<lparr>dc_key = current_pt_day_key (dr_clock r), dc_calls = of_nat (length day), dc_bytes = sum_list day\<rparr>)"
  using calm_ok [OF assms(1)] assms(2) by (auto simp: day_ok_def Let_def split: if_splits)

text \<open>A record by itself.\<close>

lemma record_steps:
  assumes "dr_clock r \<le> now" "dr_running r = ops" "ops = [] \<or> \<not> calm"
  shows "(day_step calm)\<^sup>*\<^sup>* r (r\<lparr>dr_counters := record_today now n (dr_counters r), dr_running := ops, dr_clock := now, dr_log := dr_log r @ [(now, n)]\<rparr>)"
proof -
  let ?k = "current_pt_day_key now"
  let ?r1 = "r\<lparr>dr_running := OpSeen ?k (Some n) # ops, dr_clock := now, dr_log := dr_log r @ [(now, n)]\<rparr>"
  let ?r2 = "?r1\<lparr>dr_counters := roll_over ?k (dr_counters r), dr_running := OpCalls n # ops\<rparr>"
  let ?r3 = "?r2\<lparr>dr_counters := add_call (dr_counters ?r2), dr_running := OpBytes n # ops\<rparr>"
  have 1: "day_step calm r ?r1" using day_step.begin_op [of r now calm "Some n"] assms by auto
  have 2: "day_step calm ?r1 ?r2" using day_step.locked [of ?r1 "[]" ?k "Some n" ops calm] by simp
  have 3: "day_step calm ?r2 ?r3" using day_step.called [of ?r2 "[]" n ops calm] by simp
  have 4: "day_step calm ?r3 (r\<lparr>dr_counters := record_today now n (dr_counters r), dr_running := ops, dr_clock := now, dr_log := dr_log r @ [(now, n)]\<rparr>)"
    using day_step.summed [of ?r3 "[]" n ops calm] by (cases r) (simp add: record_today_def)
  show ?thesis using 1 2 3 4 by (meson converse_rtranclp_into_rtranclp rtranclp.rtrancl_refl)
qed

lemma sample_days:
  "current_pt_day_key 0 = ''1970-01-01''" "current_pt_day_key 115199 = ''1970-01-01''"
  "current_pt_day_key 115200 = ''1970-01-02''" "current_pt_day_key 120000 = ''1970-01-02''"
  by (simp_all add: current_pt_day_key_def unix_to_pt_seconds_def unix_date_counts
      pacific_is_dst_def next_day_def days_in_month_def pad_left_def dec_show.simps digit_char_def
      char_of_def bit_0)

theorem daily_counters_exact_witness:
  "\<exists>r. (day_step True)\<^sup>*\<^sup>* (day_start 0) r \<and> dr_log r = [(0, 5), (115200, 8), (120000, 9)]
     \<and> dr_counters r = \<lparr>dc_key = ''1970-01-02'', dc_calls = 2, dc_bytes = 17\<rparr>"
proof -
  let ?go = "\<lambda>now n r. r\<lparr>dr_counters := record_today now n (dr_counters r), dr_running := [], dr_clock := now, dr_log := dr_log r @ [(now, n)]\<rparr>"
  let ?r = "?go 120000 9 (?go 115200 8 (?go 0 5 (day_start 0)))"
  have 1: "(day_step True)\<^sup>*\<^sup>* (day_start 0) (?go 0 5 (day_start 0))" by (rule record_steps) (simp_all add: day_start_def)
  have 2: "(day_step True)\<^sup>*\<^sup>* (?go 0 5 (day_start 0)) (?go 115200 8 (?go 0 5 (day_start 0)))" by (rule record_steps) simp_all
  have 3: "(day_step True)\<^sup>*\<^sup>* (?go 115200 8 (?go 0 5 (day_start 0))) ?r" by (rule record_steps) simp_all
  have run: "(day_step True)\<^sup>*\<^sup>* (day_start 0) ?r" using 1 2 3 by (meson rtranclp_trans)
  have log: "dr_log ?r = [(0, 5), (115200, 8), (120000, 9)]" "dr_clock ?r = 120000" by (simp_all add: day_start_def)
  from daily_counters_exact [OF run] have "dr_counters ?r = \<lparr>dc_key = ''1970-01-02'', dc_calls = 2, dc_bytes = 17\<rparr>"
    unfolding log by (simp add: bytes_of_day_def sample_days Let_def)
  with run log(1) show ?thesis by blast
qed

text \<open>A record that has read the clock before midnight and takes the lock after one of the new day puts the key back; the next
  record of the new day then starts the count again, and the first is lost.\<close>

theorem midnight_record_lost:
  "\<exists>r. (day_step False)\<^sup>*\<^sup>* (day_start 115199) r \<and> dr_running r = [] \<and> dc_key (dr_counters r) = current_pt_day_key (dr_clock r)
     \<and> length (bytes_of_day (current_pt_day_key (dr_clock r)) (dr_log r)) = 2 \<and> dc_calls (dr_counters r) = 1"
proof -
  let ?old = "OpSeen (current_pt_day_key 115199) (Some 1)"
  let ?go = "\<lambda>now n r. r\<lparr>dr_counters := record_today now n (dr_counters r), dr_running := dr_running r, dr_clock := now, dr_log := dr_log r @ [(now, n)]\<rparr>"
  let ?r1 = "(day_start 115199)\<lparr>dr_running := [?old], dr_clock := 115199, dr_log := [(115199, 1)]\<rparr>"
  let ?r2 = "?go 115200 2 ?r1"
  let ?r3 = "?r2\<lparr>dr_counters := roll_over (current_pt_day_key 115199) (dr_counters ?r2), dr_running := [OpCalls 1]\<rparr>"
  let ?r4 = "?r3\<lparr>dr_counters := add_call (dr_counters ?r3), dr_running := [OpBytes 1]\<rparr>"
  let ?r5 = "?r4\<lparr>dr_counters := add_bytes 1 (dr_counters ?r4), dr_running := []\<rparr>"
  have 1: "day_step False (day_start 115199) ?r1"
    using day_step.begin_op [of "day_start 115199" 115199 False "Some 1"] by (simp add: day_start_def)
  have 2: "(day_step False)\<^sup>*\<^sup>* ?r1 ?r2" using record_steps [of ?r1 115200 "[?old]" False 2] by simp
  have 3: "day_step False ?r2 ?r3" using day_step.locked [of ?r2 "[]" "current_pt_day_key 115199" "Some 1" "[]" False] by simp
  have 4: "day_step False ?r3 ?r4" using day_step.called [of ?r3 "[]" 1 "[]" False] by simp
  have 5: "day_step False ?r4 ?r5" using day_step.summed [of ?r4 "[]" 1 "[]" False] by simp
  have 6: "(day_step False)\<^sup>*\<^sup>* ?r5 (?go 120000 4 ?r5)" using record_steps [of ?r5 120000 "[]" False 4] by simp
  have "(day_step False)\<^sup>*\<^sup>* (day_start 115199) (?go 120000 4 ?r5)"
    using 1 2 3 4 5 6 by (meson converse_rtranclp_into_rtranclp rtranclp_trans)
  moreover have "dc_key (dr_counters (?go 120000 4 ?r5)) = ''1970-01-02''" "dc_calls (dr_counters (?go 120000 4 ?r5)) = 1"
    by (simp_all add: record_today_def add_call_def add_bytes_def roll_over_def sample_days)
  ultimately show ?thesis
    by (intro exI [of _ "?go 120000 4 ?r5"]) (simp add: bytes_of_day_def sample_days day_start_def)
qed

lemma midnight_bounds: "1 \<le> seconds_until_pacific_midnight now \<and> seconds_until_pacific_midnight now \<le> 86400"
proof -
  have "unix_to_pt_seconds now mod 86400 < 86400" by (rule mod_less_divisor) simp
  then show ?thesis unfolding seconds_until_pacific_midnight_def Let_def by (auto simp del: mod_less_divisor)
qed

end
