(* ===== verification/Fronter_Url.thy ===== *)
theory Fronter_Url
  imports Rust_Net
begin

unbundle bit_operations_syntax

text \<open>
  What the domain fronter (\<^verbatim>\<open>src/src/domain_fronter.rs\<close>) decides from a URL and from the bytes of a request:
  the host of a URL, the match of a host against a list of domains, the shortened form of the X
  GraphQL URLs, the list of server names for the TLS handshakes, and the removal of surplus quality
  tracks from a YouTube request, a walk over the top-level fields of a protobuf message. Shown: the
  removal keeps every other field and the unparsed rest byte for byte and leaves at most one track; it and the
  shortening change nothing the second time; the list of server names has no repetition.
\<close>

section \<open>Hosts\<close>

definition extract_host :: "string \<Rightarrow> string option" where
  "extract_host url =
     (let after_scheme = (case split_once_str ''://'' url of Some (_, rest) \<Rightarrow> rest | None \<Rightarrow> url);
          authority0 = hd (split_all (CHR ''/'') after_scheme);
          authority = (case rsplit_once (CHR ''@'') authority0 of Some (_, a) \<Rightarrow> a | None \<Rightarrow> authority0);
          host = (case strip_prefix ''['' authority of
                    Some stripped \<Rightarrow> (case split_once (CHR '']'') stripped of Some (h, _) \<Rightarrow> h | None \<Rightarrow> stripped)
                  | None \<Rightarrow> hd (split_all (CHR '':'') authority))
      in if host = [] then None else Some (to_ascii_lowercase host))"

text \<open>The host is a domain or below it.\<close>

definition in_domain :: "string \<Rightarrow> string \<Rightarrow> bool" where
  "in_domain host dom' \<longleftrightarrow> host = dom' \<or> ends_with host (CHR ''.'' # dom')"

definition EXIT_NODE_BYPASS_SUFFIXES :: "string list" where "EXIT_NODE_BYPASS_SUFFIXES = [''googlevideo.com'']"

definition exit_node_matches :: "bool \<Rightarrow> bool \<Rightarrow> string list \<Rightarrow> string \<Rightarrow> bool" where
  "exit_node_matches enabled full hosts url =
     (if \<not> enabled then False
      else (case extract_host url of
              None \<Rightarrow> full
            | Some host \<Rightarrow>
                (let host_lc = to_ascii_lowercase host in
                 if list_ex (in_domain host_lc) EXIT_NODE_BYPASS_SUFFIXES then False
                 else if full then True
                 else list_ex (in_domain host_lc) hosts)))"

definition url_host_is_youtube_video_endpoint :: "string \<Rightarrow> bool" where
  "url_host_is_youtube_video_endpoint url =
     (case extract_host url of
        None \<Rightarrow> False
      | Some host \<Rightarrow>
          (let h = trim_end_matches (CHR ''.'') host in
           if h = [] then False else list_ex (in_domain h) [''googlevideo.com'', ''youtube.com'']))"

section \<open>Shortened URLs\<close>

definition starts_with_str :: "string \<Rightarrow> string \<Rightarrow> bool" where
  "starts_with_str s p \<longleftrightarrow> take (length p) s = p"

definition normalize_x_graphql_url :: "string \<Rightarrow> string" where
  "normalize_x_graphql_url url =
     (case (case strip_prefix ''https://'' url of Some r \<Rightarrow> Some r | None \<Rightarrow> strip_prefix ''http://'' url) of
        None \<Rightarrow> url
      | Some rest \<Rightarrow>
          (case split_once (CHR ''/'') rest of
             None \<Rightarrow> url
           | Some (host, tail) \<Rightarrow>
               if hd (split_all (CHR '':'') host) \<noteq> ''x.com'' then url
               else (case split_once (CHR ''?'') (CHR ''/'' # tail) of
                       None \<Rightarrow> url
                     | Some (path, query) \<Rightarrow>
                         if \<not> starts_with_str path ''/i/api/graphql/'' \<or> \<not> starts_with_str query ''variables='' then url
                         else
                           (if starts_with_str url ''https://'' then ''https://'' else ''http://'') @ host @ path @ ''?''
                             @ (case split_once (CHR ''&'') query of Some (q, _) \<Rightarrow> q | None \<Rightarrow> query))))"

section \<open>Server names\<close>

definition DEFAULT_GOOGLE_SNI_POOL :: "string list" where
  "DEFAULT_GOOGLE_SNI_POOL =
     [''www.google.com'', ''mail.google.com'', ''drive.google.com'', ''docs.google.com'', ''calendar.google.com'',
      ''accounts.google.com'', ''scholar.google.com'', ''maps.google.com'', ''chat.google.com'', ''translate.google.com'',
      ''play.google.com'', ''lens.google.com'', ''chromewebstore.google.com'']"

definition build_sni_pool_for :: "string \<Rightarrow> string list \<Rightarrow> string list" where
  "build_sni_pool_for primary0 user_pool =
     (let primary = trim primary0; user_filtered = filter (\<lambda>s. s \<noteq> []) (map trim user_pool) in
      if user_filtered \<noteq> [] then user_filtered
      else primary # (if primary \<in> set DEFAULT_GOOGLE_SNI_POOL then filter (\<lambda>s. s \<noteq> primary) DEFAULT_GOOGLE_SNI_POOL else []))"

section \<open>Protobuf fields\<close>

text \<open>A variable-length integer in a \<^verbatim>\<open>u64\<close>: bits shifted out are lost, and more than ten bytes are refused.\<close>

fun read_varint :: "nat \<Rightarrow> u64 \<Rightarrow> bytes \<Rightarrow> (u64 \<times> bytes) option" where
  "read_varint shift acc [] = None"
| "read_varint shift acc (b # bs) =
     (let acc' = acc OR push_bit shift (ucast (b AND 0x7F)) in
      if b AND 0x80 = 0 then Some (acc', bs)
      else if 64 \<le> shift + 7 then None
      else read_varint (shift + 7) acc' bs)"

fun skip_varint :: "bytes \<Rightarrow> bytes option" where
  "skip_varint [] = None"
| "skip_varint (b # bs) = (if b AND 0x80 = 0 then Some bs else skip_varint bs)"

definition skip_bytes :: "nat \<Rightarrow> bytes \<Rightarrow> bytes option" where
  "skip_bytes n bs = (if length bs < n then None else Some (drop n bs))"

definition skip_payload :: "u64 \<Rightarrow> bytes \<Rightarrow> bytes option" where
  "skip_payload wire_type bs =
     (if wire_type = 0 then skip_varint bs
      else if wire_type = 1 then skip_bytes 8 bs
      else if wire_type = 2 then Option.bind (read_varint 0 0 bs) (\<lambda>(val_len, bs'). skip_bytes (unat val_len) bs')
      else if wire_type = 5 then skip_bytes 4 bs
      else None)"

text \<open>The number of the first field and the bytes after it.\<close>

definition read_field :: "bytes \<Rightarrow> (u32 \<times> bytes) option" where
  "read_field bs =
     Option.bind (read_varint 0 0 bs) (\<lambda>(tag, bs1).
       map_option (Pair (ucast (drop_bit 3 tag))) (skip_payload (tag AND 7) bs1))"

text \<open>What is read is a non-empty piece at the front, and does not depend on what comes after it.\<close>

lemma read_varint_prefix:
  "read_varint shift acc bs = Some (v, r) \<Longrightarrow> \<exists>p. p \<noteq> [] \<and> bs = p @ r \<and> (\<forall>x. read_varint shift acc (p @ x) = Some (v, x))"
proof (induction shift acc bs rule: read_varint.induct)
  case (2 shift acc b bs)
  show ?case
  proof (cases "b AND 0x80 = 0")
    case True
    with "2.prems" show ?thesis by (intro exI [of _ "[b]"]) (auto simp: Let_def)
  next
    case False
    with "2.prems" have lim: "\<not> 64 \<le> shift + 7" and rest: "read_varint (shift + 7) (acc OR push_bit shift (ucast (b AND 0x7F))) bs = Some (v, r)"
      by (auto simp: Let_def split: if_splits)
    obtain p where "p \<noteq> []" "bs = p @ r" "\<forall>x. read_varint (shift + 7) (acc OR push_bit shift (ucast (b AND 0x7F))) (p @ x) = Some (v, x)"
      using "2.IH" [OF refl False lim rest] by blast
    with False lim show ?thesis by (intro exI [of _ "b # p"]) (auto simp: Let_def)
  qed
qed simp

lemma skip_varint_prefix: "skip_varint bs = Some r \<Longrightarrow> \<exists>p. bs = p @ r \<and> (\<forall>x. skip_varint (p @ x) = Some x)"
proof (induction bs)
  case (Cons b bs)
  show ?case
  proof (cases "b AND 0x80 = 0")
    case True
    with Cons.prems show ?thesis by (intro exI [of _ "[b]"]) auto
  next
    case False
    with Cons obtain p where "bs = p @ r" "\<forall>x. skip_varint (p @ x) = Some x" by auto
    with False show ?thesis by (intro exI [of _ "b # p"]) auto
  qed
qed simp

lemma skip_bytes_prefix: "skip_bytes n bs = Some r \<Longrightarrow> \<exists>p. bs = p @ r \<and> (\<forall>x. skip_bytes n (p @ x) = Some x)"
  by (intro exI [of _ "take n bs"]) (auto simp: skip_bytes_def split: if_splits)

lemma skip_payload_prefix: "skip_payload t bs = Some r \<Longrightarrow> \<exists>p. bs = p @ r \<and> (\<forall>x. skip_payload t (p @ x) = Some x)"
proof -
  assume s: "skip_payload t bs = Some r"
  consider "t = 0" | "t = 1" | "t = 2" | "t = 5" using s by (auto simp: skip_payload_def split: if_splits)
  then show ?thesis
  proof cases
    case 3
    with s obtain n bs' where n: "read_varint 0 0 bs = Some (n, bs')" "skip_bytes (unat n) bs' = Some r"
      by (auto simp: skip_payload_def bind_eq_Some_conv)
    obtain p where p: "bs = p @ bs'" "\<forall>x. read_varint 0 0 (p @ x) = Some (n, x)" using read_varint_prefix [OF n(1)] by auto
    obtain q where q: "bs' = q @ r" "\<forall>x. skip_bytes (unat n) (q @ x) = Some x" using skip_bytes_prefix [OF n(2)] by auto
    from p q 3 show ?thesis by (intro exI [of _ "p @ q"]) (simp add: skip_payload_def)
  qed (use s skip_varint_prefix skip_bytes_prefix in \<open>auto simp: skip_payload_def\<close>)
qed

lemma read_field_prefix:
  "read_field bs = Some (f, r) \<Longrightarrow> \<exists>p. p \<noteq> [] \<and> bs = p @ r \<and> (\<forall>x. read_field (p @ x) = Some (f, x))"
proof -
  assume "read_field bs = Some (f, r)"
  then obtain tag bs1 where t: "read_varint 0 0 bs = Some (tag, bs1)" "skip_payload (tag AND 7) bs1 = Some r" "f = ucast (drop_bit 3 tag)"
    by (auto simp: read_field_def bind_eq_Some_conv)
  obtain p where p: "p \<noteq> []" "bs = p @ bs1" "\<forall>x. read_varint 0 0 (p @ x) = Some (tag, x)" using read_varint_prefix [OF t(1)] by auto
  obtain q where q: "bs1 = q @ r" "\<forall>x. skip_payload (tag AND 7) (q @ x) = Some x" using skip_payload_prefix [OF t(2)] by auto
  from p q t(3) show ?thesis by (intro exI [of _ "p @ q"]) (simp add: read_field_def)
qed

lemma read_field_shorter: "read_field bs = Some (f, r) \<Longrightarrow> length r < length bs"
  using read_field_prefix by fastforce

text \<open>The fields as numbers with their bytes, and the rest from the first field that is not whole.\<close>

function segments :: "bytes \<Rightarrow> (u32 \<times> bytes) list \<times> bytes" where
  "segments bs =
     (case read_field bs of
        None \<Rightarrow> ([], bs)
      | Some (f, r) \<Rightarrow> (case segments r of (segs, tail) \<Rightarrow> ((f, take (length bs - length r) bs) # segs, tail)))"
  by pat_completeness auto
termination
  by (relation "measure length") (auto dest: read_field_shorter)

declare segments.simps [simp del]

fun keep_first_track :: "bool \<Rightarrow> (u32 \<times> bytes) list \<Rightarrow> (u32 \<times> bytes) list" where
  "keep_first_track kept [] = []"
| "keep_first_track kept ((f, seg) # segs) =
     (if f = 3 then (if kept then keep_first_track True segs else (f, seg) # keep_first_track True segs)
      else (f, seg) # keep_first_track kept segs)"

definition surplus_tracks :: "(u32 \<times> bytes) list \<Rightarrow> bool" where
  "surplus_tracks segs \<longleftrightarrow> 2 \<in> fst ` set segs \<and> 2 \<le> length (filter (\<lambda>(f, _). f = 3) segs)"

definition strip_sabr_quality_tracks :: "bytes \<Rightarrow> bytes" where
  "strip_sabr_quality_tracks body =
     (case segments body of (segs, tail) \<Rightarrow>
        if \<not> surplus_tracks segs then body else concat (map snd (keep_first_track False segs)) @ tail)"

definition maybe_strip_sabr_body :: "bool \<Rightarrow> string \<Rightarrow> string \<Rightarrow> bytes \<Rightarrow> bytes option" where
  "maybe_strip_sabr_body sabr_strip method url body =
     (if \<not> sabr_strip \<or> method \<noteq> ''POST'' \<or> body = [] \<or> \<not> contains url ''/videoplayback'' \<or> \<not> url_host_is_youtube_video_endpoint url
      then None
      else (let stripped = strip_sabr_quality_tracks body in if length stripped = length body then None else Some stripped))"

section \<open>The walk over the fields\<close>

text \<open>A piece that is one field with the given number.\<close>

definition is_field :: "u32 \<times> bytes \<Rightarrow> bool" where
  "is_field = (\<lambda>(f, seg). \<forall>x. read_field (seg @ x) = Some (f, x))"

lemma segments_unfold:
  assumes "read_field bs = Some (f, r)"
  shows "\<exists>p. bs = p @ r \<and> is_field (f, p) \<and> segments bs = ((f, p) # fst (segments r), snd (segments r))"
proof -
  obtain p where "bs = p @ r" "\<forall>x. read_field (p @ x) = Some (f, x)" using read_field_prefix [OF assms] by auto
  moreover have "take (length (p @ r) - length r) (p @ r) = p" by simp
  ultimately show ?thesis using assms
    by (intro exI [of _ p]) (simp add: is_field_def segments.simps [of "p @ r"] split: prod.splits)
qed

lemma segments_props:
  "concat (map snd (fst (segments bs))) @ snd (segments bs) = bs \<and> list_all is_field (fst (segments bs)) \<and> read_field (snd (segments bs)) = None"
proof (induction bs rule: segments.induct)
  case (1 bs)
  show ?case
  proof (cases "read_field bs")
    case None
    then show ?thesis by (simp add: segments.simps)
  next
    case (Some fr)
    obtain f r where fr: "fr = (f, r)" by (cases fr)
    obtain p where "bs = p @ r" "is_field (f, p)" "segments bs = ((f, p) # fst (segments r), snd (segments r))"
      using segments_unfold Some fr by blast
    with "1.IH" [OF Some fr [symmetric]] show ?thesis by simp
  qed
qed

text \<open>Fields put together, before something that is no field, are found again.\<close>

lemma segments_concat:
  "list_all is_field segs \<Longrightarrow> read_field tail = None \<Longrightarrow> segments (concat (map snd segs) @ tail) = (segs, tail)"
proof (induction segs)
  case Nil
  then show ?case by (simp add: segments.simps)
next
  case (Cons s segs)
  obtain f seg where s: "s = (f, seg)" by (cases s)
  let ?r = "concat (map snd segs) @ tail"
  have rf: "read_field (seg @ ?r) = Some (f, ?r)" using Cons.prems(1) s by (simp add: is_field_def)
  have "segments ?r = (segs, tail)" using Cons by simp
  moreover have "take (length (seg @ ?r) - length ?r) (seg @ ?r) = seg" by simp
  ultimately have "segments (seg @ ?r) = ((f, seg) # segs, tail)" using rf by (subst segments.simps) simp
  then show ?case by (simp add: s)
qed

lemma keep_first_subset: "set (keep_first_track kept segs) \<subseteq> set segs"
  by (induction kept segs rule: keep_first_track.induct) auto

lemma segments_of_stripped:
  "segments (strip_sabr_quality_tracks body) =
     (if surplus_tracks (fst (segments body)) then keep_first_track False (fst (segments body)) else fst (segments body),
      snd (segments body))"
proof -
  obtain segs tail where st: "segments body = (segs, tail)" by (cases "segments body")
  then have "list_all is_field segs" "read_field tail = None" using segments_props [of body] by simp_all
  then have "segments (concat (map snd (keep_first_track False segs)) @ tail) = (keep_first_track False segs, tail)"
    using keep_first_subset [of False segs] by (intro segments_concat) (auto simp: list_all_iff)
  with st show ?thesis by (simp add: strip_sabr_quality_tracks_def)
qed

lemma keep_first_tracks: "length (filter (\<lambda>(f, _). f = 3) (keep_first_track kept segs)) = (if kept then 0 else min 1 (length (filter (\<lambda>(f, _). f = 3) segs)))"
  by (induction kept segs rule: keep_first_track.induct) auto

lemma keep_first_others: "filter (\<lambda>(f, _). f \<noteq> 3) (keep_first_track kept segs) = filter (\<lambda>(f, _). f \<noteq> 3) segs"
  by (induction kept segs rule: keep_first_track.induct) auto

section \<open>Messages put together\<close>

text \<open>The wire format, as a writer of messages sees it: a field is its number and a value, which is a number, four or eight bytes, or bytes with
  their length in front.\<close>

datatype pb_value = PbVarint nat | PbFixed64 bytes | PbBytes bytes | PbFixed32 bytes

fun varint :: "nat \<Rightarrow> bytes" where
  "varint n = (if n < 128 then [word_of_nat n] else word_of_nat (n mod 128 + 128) # varint (n div 128))"

declare varint.simps [simp del]

fun pb_field :: "nat \<times> pb_value \<Rightarrow> bytes" where
  "pb_field (n, PbVarint v) = varint (8 * n) @ varint v"
| "pb_field (n, PbFixed64 b) = varint (8 * n + 1) @ b"
| "pb_field (n, PbBytes b) = varint (8 * n + 2) @ varint (length b) @ b"
| "pb_field (n, PbFixed32 b) = varint (8 * n + 5) @ b"

definition pb_message :: "(nat \<times> pb_value) list \<Rightarrow> bytes" where
  "pb_message fields = concat (map pb_field fields)"

fun pb_ok :: "nat \<times> pb_value \<Rightarrow> bool" where
  "pb_ok (n, PbVarint v) \<longleftrightarrow> n < 2 ^ 29 \<and> v < 2 ^ 64"
| "pb_ok (n, PbFixed64 b) \<longleftrightarrow> n < 2 ^ 29 \<and> length b = 8"
| "pb_ok (n, PbBytes b) \<longleftrightarrow> n < 2 ^ 29 \<and> length b < 2 ^ 64"
| "pb_ok (n, PbFixed32 b) \<longleftrightarrow> n < 2 ^ 29 \<and> length b = 4"

lemma low_bits: "n mod 128 = take_bit 7 n" "n div 128 = drop_bit 7 n" for n :: nat
  by (simp_all add: take_bit_eq_mod drop_bit_eq_div)

lemma word_mask7: "ucast ((word_of_nat n :: byte) AND 0x7F) = (word_of_nat (n mod 128) :: u64)"
proof -
  have m: "(0x7F :: byte) = mask 7" by (simp add: mask_eq_exp_minus_1)
  show ?thesis unfolding m low_bits by (auto simp: bit_eq_iff bit_simps)
qed

lemma high_bit: "(word_of_nat n :: byte) AND 0x80 = 0 \<longleftrightarrow> \<not> bit n 7"
proof -
  have "(0x80 :: byte) = push_bit 7 1" by simp
  then show ?thesis using bit_iff_and_push_bit_not_eq_0 [of "word_of_nat n :: byte" 7] by (simp add: bit_simps)
qed

lemma bit7: "n < 128 \<Longrightarrow> \<not> bit n 7" "bit (n mod 128 + 128) 7" for n :: nat
proof -
  have "(n mod 128 + 128) div 128 = 1" by (simp add: div_add_self2)
  then show "bit (n mod 128 + 128) 7" by (simp add: bit_iff_odd)
qed (simp add: bit_iff_odd)

lemma split7: "(word_of_nat n :: u64) = word_of_nat (n mod 128) OR push_bit 7 (word_of_nat (n div 128))"
  unfolding low_bits by (auto simp: bit_eq_iff bit_simps)

lemma read_varint_written:
  "v < 2 ^ (64 - shift) \<Longrightarrow> shift < 64 \<Longrightarrow> read_varint shift acc (varint v @ x) = Some (acc OR push_bit shift (word_of_nat v), x)"
proof (induction v arbitrary: shift acc rule: varint.induct)
  case (1 n)
  show ?case
  proof (cases "n < 128")
    case True
    then show ?thesis by (simp add: varint.simps [of n] Let_def high_bit bit7 word_mask7)
  next
    case False
    have "(2 :: nat) ^ 7 < 2 ^ (64 - shift)" using False "1.prems"(1) by simp
    then have s: "7 < 64 - shift" by (simp only: power_strict_increasing_iff one_less_numeral_iff semiring_norm(76))
    have "64 - shift = 7 + (64 - (shift + 7))" using s by simp
    then have "n < 2 ^ 7 * 2 ^ (64 - (shift + 7))" using "1.prems"(1) by (metis power_add)
    then have d: "n div 128 < 2 ^ (64 - (shift + 7))" by (simp add: less_mult_imp_div_less mult.commute)
    have s': "\<not> 64 \<le> shift + 7" using s by simp
    have w: "ucast ((word_of_nat (n mod 128 + 128) :: byte) AND 0x7F) = (word_of_nat (n mod 128) :: u64)"
      unfolding word_mask7 by simp
    have "read_varint shift acc (varint n @ x) =
        read_varint (shift + 7) (acc OR push_bit shift (word_of_nat (n mod 128))) (varint (n div 128) @ x)"
      using False s' bit7(2) [of n] high_bit [of "n mod 128 + 128"] by (simp add: varint.simps [of n] Let_def w del: of_nat_add)
    also have "\<dots> = Some ((acc OR push_bit shift (word_of_nat (n mod 128))) OR push_bit (shift + 7) (word_of_nat (n div 128)), x)"
      using "1.IH" [OF False d] s by simp
    also have "(acc OR push_bit shift (word_of_nat (n mod 128))) OR push_bit (shift + 7) (word_of_nat (n div 128)) =
        acc OR push_bit shift (word_of_nat n)"
      unfolding split7 [of n] by (simp add: push_bit_or or.assoc push_bit_push_bit add.commute)
    finally show ?thesis .
  qed
qed

lemma skip_varint_written: "skip_varint (varint v @ x) = Some x"
proof (induction v rule: varint.induct)
  case (1 n)
  then show ?case using bit7 [of n] high_bit [of n] high_bit [of "n mod 128 + 128"]
    by (subst varint.simps) (simp del: of_nat_add)
qed

lemma tag_number: "n < 2 ^ 29 \<Longrightarrow> w < 8 \<Longrightarrow> ucast (drop_bit 3 (word_of_nat (8 * n + w) :: u64)) = (word_of_nat n :: u32)"
proof -
  assume a: "n < 2 ^ 29" "w < 8"
  have "drop_bit 3 (word_of_nat (8 * n + w) :: u64) = word_of_nat n"
  proof (rule word_unat_eq_iff [THEN iffD2])
    have u: "unat (word_of_nat (8 * n + w) :: u64) = 8 * n + w" "unat (word_of_nat n :: u64) = n"
      using a by (simp_all add: unat_of_nat del: of_nat_add of_nat_mult)
    show "unat (drop_bit 3 (word_of_nat (8 * n + w) :: u64)) = unat (word_of_nat n :: u64)"
      unfolding unat_drop_bit_eq u using a(2) by (simp add: drop_bit_eq_div)
  qed
  then show ?thesis by (auto simp: bit_eq_iff bit_simps)
qed

lemma tag_wire: "w < 8 \<Longrightarrow> (word_of_nat (8 * n + w) :: u64) AND 7 = word_of_nat w"
proof -
  assume w: "w < 8"
  have m: "(7 :: u64) = mask 3" by (simp add: mask_eq_exp_minus_1)
  have "w = take_bit 3 (8 * n + w)" using w by (simp add: take_bit_eq_mod)
  then show ?thesis unfolding m by (metis take_bit_eq_mask take_bit_of_nat)
qed

lemma read_field_tag:
  assumes "n < 2 ^ 29" "w < 8" "skip_payload (word_of_nat w) bs = Some x"
  shows "read_field (varint (8 * n + w) @ bs) = Some (word_of_nat n, x)"
proof -
  have "read_varint 0 0 (varint (8 * n + w) @ bs) = Some (word_of_nat (8 * n + w), bs)"
    using read_varint_written [of "8 * n + w" 0 0 bs] assms(1,2) by simp
  then show ?thesis unfolding read_field_def using tag_number [OF assms(1,2)] tag_wire [OF assms(2)] assms(3) by simp
qed

lemma pb_field_read: "pb_ok (n, v) \<Longrightarrow> is_field (word_of_nat n, pb_field (n, v))"
proof (cases v)
  case (PbVarint k)
  assume "pb_ok (n, v)"
  then show ?thesis using PbVarint read_field_tag [of n 0] skip_varint_written [of k]
    by (simp add: is_field_def skip_payload_def)
next
  case (PbFixed64 b)
  assume "pb_ok (n, v)"
  then show ?thesis using PbFixed64 read_field_tag [of n 1] by (simp add: is_field_def skip_payload_def skip_bytes_def)
next
  case (PbBytes b)
  assume "pb_ok (n, v)"
  moreover from this have "read_varint 0 0 (varint (length b) @ b @ x) = Some (word_of_nat (length b), b @ x)" "unat (word_of_nat (length b) :: u64) = length b" for x
    using PbBytes read_varint_written [of "length b" 0 0 "b @ x"] by (simp_all add: unat_of_nat)
  ultimately show ?thesis using PbBytes read_field_tag [of n 2] by (simp add: is_field_def skip_payload_def skip_bytes_def)
next
  case (PbFixed32 b)
  assume "pb_ok (n, v)"
  then show ?thesis using PbFixed32 read_field_tag [of n 5] by (simp add: is_field_def skip_payload_def skip_bytes_def)
qed

lemma pb_number: "pb_ok (n, v) \<Longrightarrow> m < 2 ^ 29 \<Longrightarrow> (word_of_nat n :: u32) = word_of_nat m \<longleftrightarrow> n = m"
  by (cases v) (auto simp: word_unat_eq_iff unat_of_nat)

text \<open>A field that is cut off is not read.\<close>

lemma cut_field_unread:
  assumes "is_field (f, part @ more)" "more \<noteq> []" shows "read_field part = None"
proof (rule ccontr)
  assume "read_field part \<noteq> None"
  then obtain g r where "read_field part = Some (g, r)" by auto
  from read_field_prefix [OF this] obtain p where "part = p @ r" "\<forall>x. read_field (p @ x) = Some (g, x)" by blast
  then have "read_field (part @ more) = Some (g, r @ more)" by simp
  moreover have "read_field (part @ more) = Some (f, [])" using assms(1) by (simp add: is_field_def) (metis append.right_neutral append_assoc)
  ultimately show False using assms(2) by simp
qed

definition numbered :: "nat \<times> pb_value \<Rightarrow> u32 \<times> bytes" where
  "numbered = (\<lambda>(n, v). (word_of_nat n, pb_field (n, v)))"

lemma concat_numbered: "concat (map snd (map numbered fields)) = pb_message fields"
  by (simp add: pb_message_def comp_def numbered_def case_prod_beta)

lemma segments_message:
  "list_all pb_ok fields \<Longrightarrow> read_field rest = None \<Longrightarrow> segments (pb_message fields @ rest) = (map numbered fields, rest)"
  unfolding concat_numbered [symmetric]
  by (rule segments_concat) (auto simp: list_all_iff numbered_def intro: pb_field_read)

lemma keep_first_numbered:
  assumes "list_all pb_ok fields"
  shows "keep_first_track True (map numbered fields) = map numbered (filter (\<lambda>(n, v). n \<noteq> 3) fields)"
  using assms by (induction fields) (auto simp: numbered_def dest: pb_number [of _ _ 3])

lemma keep_first_before:
  assumes "list_all pb_ok xs" "\<forall>(n, v)\<in>set xs. n \<noteq> 3"
  shows "keep_first_track False (map numbered xs @ segs) = map numbered xs @ keep_first_track False segs"
  using assms by (induction xs) (auto simp: numbered_def dest: pb_number [of _ _ 3])

lemma has_number:
  assumes "list_all pb_ok fields" "m < 2 ^ 29"
  shows "word_of_nat m \<in> fst ` set (map numbered fields) \<longleftrightarrow> m \<in> fst ` set fields"
  using assms by (force simp: numbered_def image_iff list_all_iff dest: pb_number)

lemma number_count:
  assumes "list_all pb_ok fields"
  shows "length (filter (\<lambda>(f, _). f = 3) (map numbered fields)) = length (filter (\<lambda>(n, v). n = 3) fields)"
  using assms by (induction fields) (auto simp: numbered_def dest: pb_number [of _ _ 3])

text \<open>C20: from a segment request, a protobuf message with a field 2, every field 3 but the first is removed and all other bytes stay, in
  their order, also those of a last field that is cut off; a message without a field 2 is left alone, and so is, because the first field 3 stays, a request
  with a single track.\<close>

theorem sabr_strip_exact:
  assumes "list_all pb_ok (xs @ (3, t) # ys)" and "\<forall>(n, v)\<in>set xs. n \<noteq> 3"
    and "pb_ok broken" and "pb_field broken = rest @ more" and "more \<noteq> []"
  shows "strip_sabr_quality_tracks (pb_message (xs @ (3, t) # ys) @ rest) =
    (if 2 \<in> fst ` set (xs @ ys) then pb_message (xs @ (3, t) # filter (\<lambda>(n, v). n \<noteq> 3) ys) @ rest
     else pb_message (xs @ (3, t) # ys) @ rest)"
proof -
  let ?all = "xs @ (3, t) # ys"
  obtain k v where kv: "broken = (k, v)" by (cases broken)
  have "read_field rest = None" using pb_field_read [of k v] assms(3-5) kv cut_field_unread by metis
  then have seg: "segments (pb_message ?all @ rest) = (map numbered ?all, rest)" using segments_message [OF assms(1)] by blast
  have ok: "list_all pb_ok xs" "list_all pb_ok ys" using assms(1) by simp_all
  have keep: "keep_first_track False (map numbered ?all) = map numbered (xs @ (3, t) # filter (\<lambda>(n, v). n \<noteq> 3) ys)"
    using keep_first_before [OF ok(1) assms(2)] keep_first_numbered [OF ok(2)] by (simp add: numbered_def)
  have two: "(2 :: u32) \<in> fst ` set (map numbered ?all) \<longleftrightarrow> 2 \<in> fst ` set (xs @ ys)"
    using has_number [OF assms(1), of 2] by (auto simp: image_iff)
  have same: "pb_message (xs @ (3, t) # filter (\<lambda>(n, v). n \<noteq> 3) ys) = pb_message ?all"
    if "\<not> 2 \<le> length (filter (\<lambda>(f, _). f = 3) (map numbered ?all))"
  proof -
    have "1 + length (filter (\<lambda>(n, v). n = 3) ys) \<le> length (filter (\<lambda>(n, v). n = 3) ?all)" by simp
    then have "length (filter (\<lambda>(n, v). n = 3) ys) = 0" using that unfolding number_count [OF assms(1)] by linarith
    then have "filter (\<lambda>(n, v). n \<noteq> 3) ys = ys" by (auto simp: filter_empty_conv intro!: filter_True)
    then show ?thesis by simp
  qed
  have "strip_sabr_quality_tracks (pb_message ?all @ rest) =
      (if \<not> (2 \<in> fst ` set (xs @ ys) \<and> 2 \<le> length (filter (\<lambda>(f, _). f = 3) (map numbered ?all)))
       then pb_message ?all @ rest else pb_message (xs @ (3, t) # filter (\<lambda>(n, v). n \<noteq> 3) ys) @ rest)"
    unfolding strip_sabr_quality_tracks_def seg prod.case surplus_tracks_def two keep concat_numbered by (rule refl)
  then show ?thesis using same by presburger
qed

theorem sabr_strip_exact_witness:
  "strip_sabr_quality_tracks (pb_message [(2, PbVarint 300), (3, PbBytes [7]), (3, PbBytes [8]), (5, PbVarint 1), (3, PbBytes [9])] @ [0x1A, 5, 1]) =
     pb_message [(2, PbVarint 300), (3, PbBytes [7]), (5, PbVarint 1)] @ [0x1A, 5, 1]"
proof -
  have c: "pb_field (3, PbBytes [1, 2, 3, 4, 5]) = [0x1A, 5, 1] @ [2, 3, 4, 5]" by (simp add: varint.simps)
  show ?thesis
    using sabr_strip_exact [of "[(2, PbVarint 300)]" "PbBytes [7]" "[(3, PbBytes [8]), (5, PbVarint 1), (3, PbBytes [9])]", OF _ _ _ c] by simp
qed

lemma sabr_strip_idempotent: "strip_sabr_quality_tracks (strip_sabr_quality_tracks body) = strip_sabr_quality_tracks body"
proof (cases "surplus_tracks (fst (segments body))")
  case True
  then have "segments (strip_sabr_quality_tracks body) = (keep_first_track False (fst (segments body)), snd (segments body))"
    by (simp add: segments_of_stripped)
  moreover have "\<not> surplus_tracks (keep_first_track False (fst (segments body)))" by (simp add: surplus_tracks_def keep_first_tracks)
  ultimately show ?thesis by (simp add: strip_sabr_quality_tracks_def [of "strip_sabr_quality_tracks body"])
next
  case False
  then have "strip_sabr_quality_tracks body = body"
    by (cases "segments body") (simp add: strip_sabr_quality_tracks_def)
  then show ?thesis by simp
qed

section \<open>Stability of the shortened form\<close>

lemma split_once_same: "split_once c s = Some (a, b) \<Longrightarrow> s = a @ c # b \<and> c \<notin> set a"
  by (simp add: split_once_Some)

lemma starts_before: "starts_with_str (q @ c # b) p \<Longrightarrow> c \<notin> set p \<Longrightarrow> starts_with_str q p"
proof (cases "length p \<le> length q")
  case False
  assume "starts_with_str (q @ c # b) p" "c \<notin> set p"
  moreover from False obtain n where "length p - length q = Suc n" by (cases "length p - length q") auto
  ultimately show ?thesis using False by (auto simp: starts_with_str_def)
qed (simp add: starts_with_str_def)

lemma normalize_unchanged:
  assumes "normalize_x_graphql_url url \<noteq> url"
  shows "\<exists>scheme host path q. scheme \<in> {''https://'', ''http://''} \<and> normalize_x_graphql_url url = scheme @ host @ path @ ''?'' @ q
    \<and> CHR ''/'' \<notin> set host \<and> hd (split_all (CHR '':'') host) = ''x.com'' \<and> path \<noteq> [] \<and> hd path = CHR ''/'' \<and> CHR ''?'' \<notin> set path
    \<and> starts_with_str path ''/i/api/graphql/'' \<and> starts_with_str q ''variables='' \<and> CHR ''&'' \<notin> set q"
proof -
  obtain rest where rest: "(case strip_prefix ''https://'' url of Some r \<Rightarrow> Some r | None \<Rightarrow> strip_prefix ''http://'' url) = Some rest"
    using assms by (auto simp: normalize_x_graphql_url_def split: option.splits)
  obtain host tail where h: "split_once (CHR ''/'') rest = Some (host, tail)" "hd (split_all (CHR '':'') host) = ''x.com''"
    using assms rest by (auto simp: normalize_x_graphql_url_def split: option.splits if_splits)
  obtain path query where q: "split_once (CHR ''?'') (CHR ''/'' # tail) = Some (path, query)"
    "starts_with_str path ''/i/api/graphql/''" "starts_with_str query ''variables=''"
    using assms rest h by (auto simp: normalize_x_graphql_url_def split: option.splits if_splits)
  define q' where "q' = (case split_once (CHR ''&'') query of Some (q, _) \<Rightarrow> q | None \<Rightarrow> query)"
  define scheme where "scheme = (if starts_with_str url ''https://'' then ''https://'' else ''http://'')"
  have eq: "normalize_x_graphql_url url = scheme @ host @ path @ ''?'' @ q'"
    unfolding normalize_x_graphql_url_def rest option.case h(1) prod.case q(1) q'_def [symmetric] scheme_def [symmetric]
    using h(2) q(2,3) by simp
  have "CHR ''&'' \<notin> set q' \<and> starts_with_str q' ''variables=''"
  proof (cases "split_once (CHR ''&'') query")
    case None
    then have "q' = query" by (simp add: q'_def)
    with None q(3) show ?thesis by (simp add: split_once_None)
  next
    case (Some ab)
    obtain a b where "ab = (a, b)" by (cases ab)
    with Some have "split_once (CHR ''&'') query = Some (q', b)" by (simp add: q'_def)
    then have ab: "query = q' @ CHR ''&'' # b" "CHR ''&'' \<notin> set q'" by (simp_all add: split_once_Some)
    have "starts_with_str q' ''variables=''" using q(3) unfolding ab(1) by (rule starts_before) simp
    with ab(2) show ?thesis by simp
  qed
  moreover have "path \<noteq> [] \<and> hd path = CHR ''/'' \<and> CHR ''?'' \<notin> set path"
    using split_once_same [OF q(1)] by (cases path) auto
  moreover have "CHR ''/'' \<notin> set host" using split_once_same [OF h(1)] by simp
  moreover have "scheme \<in> {''https://'', ''http://''}" by (simp add: scheme_def)
  ultimately show ?thesis using eq h(2) q(2) by blast
qed

text \<open>Shortening a shortened URL changes nothing, so the cache key and the fetched URL of a request
  agree.\<close>

theorem normalize_x_graphql_idempotent: "normalize_x_graphql_url (normalize_x_graphql_url url) = normalize_x_graphql_url url"
proof (cases "normalize_x_graphql_url url = url")
  case False
  obtain scheme host path q where n: "scheme \<in> {''https://'', ''http://''}" "normalize_x_graphql_url url = scheme @ host @ path @ ''?'' @ q"
    "CHR ''/'' \<notin> set host" "hd (split_all (CHR '':'') host) = ''x.com''" "path \<noteq> []" "hd path = CHR ''/''" "CHR ''?'' \<notin> set path"
    "starts_with_str path ''/i/api/graphql/''" "starts_with_str q ''variables=''" "CHR ''&'' \<notin> set q"
    using normalize_unchanged [OF False] by blast
  let ?rest = "host @ path @ ''?'' @ q"
  obtain tail where path: "path = CHR ''/'' # tail" using n(5,6) by (cases path) auto
  have a1: "(case strip_prefix ''https://'' (scheme @ ?rest) of Some r \<Rightarrow> Some r | None \<Rightarrow> strip_prefix ''http://'' (scheme @ ?rest)) = Some ?rest"
    using n(1) by (auto simp: strip_prefix_def)
  have a2: "split_once (CHR ''/'') ?rest = Some (host, tail @ ''?'' @ q)"
    using split_once_append [OF n(3), of "tail @ ''?'' @ q"] by (simp add: path)
  have a3: "split_once (CHR ''?'') (CHR ''/'' # tail @ ''?'' @ q) = Some (path, q)"
    using split_once_append [OF n(7), of q] by (simp add: path)
  have a4: "split_once (CHR ''&'') q = None" using n(10) by (simp add: split_once_None)
  have a5: "(if starts_with_str (scheme @ ?rest) ''https://'' then ''https://'' else ''http://'') = scheme"
    using n(1) by (auto simp: starts_with_str_def)
  have "normalize_x_graphql_url (scheme @ ?rest) = scheme @ ?rest"
    unfolding normalize_x_graphql_url_def a1 option.case a2 prod.case a3 a4 a5 using n(4,8,9) by simp
  with n(2) show ?thesis by simp
qed simp

lemma sni_pool_distinct: "filter (\<lambda>s. s \<noteq> []) (map trim user) = [] \<Longrightarrow> distinct (build_sni_pool_for primary user)"
  by (auto simp: build_sni_pool_for_def Let_def DEFAULT_GOOGLE_SNI_POOL_def)

lemma sni_pool_nonempty: "build_sni_pool_for primary user \<noteq> []"
  by (simp add: build_sni_pool_for_def Let_def)

end
