(* ===== verification/Fronter_Stats.thy ===== *)
theory Fronter_Stats
  imports Pacific_Time Fronter_Url Fronter_Http Assoc
begin

text \<open>
  What the domain fronter counts about the requests it relays (\<^verbatim>\<open>src/src/domain_fronter.rs\<close>): calls, failures, bytes,
  the day's counters and the counters of each host; and the detection of pages by which a content network refuses
  automatic clients (\<^verbatim>\<open>src/src/bot_block.rs\<close>), which warns once per host. A warning is recorded as the host it
  names.
\<close>

section \<open>Refusals of content networks\<close>

definition contains_ascii_ci :: "bytes \<Rightarrow> string \<Rightarrow> bool" where
  "contains_ascii_ci haystack needle \<longleftrightarrow>
     list_ex (\<lambda>i. eq_ignore_ascii_case (str_of_bytes (take (length needle) (drop i haystack))) needle)
       [0..<Suc (length haystack)]"

definition parse_status_code :: "bytes \<Rightarrow> nat option" where
  "parse_status_code response =
     (let first_line = takeWhile (\<lambda>b. b \<noteq> 13 \<and> b \<noteq> 10) response in
      if first_line = response then None
      else (case split_all (CHR '' '') (str_of_bytes first_line) of
              _ # code # _ \<Rightarrow> parse_uint (2 ^ 16) code
            | _ \<Rightarrow> None))"

definition is_deny_status :: "nat \<Rightarrow> bool" where
  "is_deny_status code \<longleftrightarrow> code \<in> {401, 403, 429, 451, 503}"

definition detect :: "bytes \<Rightarrow> string option" where
  "detect response =
     (let prefix = take (16 * 1024) response in
      if contains_ascii_ci prefix ''errors.edgesuite.net'' then Some ''Akamai''
      else if contains_ascii_ci prefix ''AkamaiGHost''
           \<and> (case parse_status_code prefix of None \<Rightarrow> False | Some code \<Rightarrow> is_deny_status code) then Some ''Akamai''
      else if contains_ascii_ci prefix ''cf-mitigated:'' \<or> contains_ascii_ci prefix ''Just a moment...''
           \<or> contains_ascii_ci prefix ''__cf_chl_'' \<or> contains_ascii_ci prefix ''challenge-platform'' then Some ''Cloudflare''
      else None)"

definition normalize_bot_host :: "string \<Rightarrow> string" where
  "normalize_bot_host host = to_ascii_lowercase (trim_end_matches (CHR ''.'') host)"

text \<open>The set of hosts seen so far, and the warnings. The two sets of the code, for the direct way and the exit node,
  are used in the same way.\<close>

record seen_hosts =
  sh_seen :: "string list"
  sh_warned :: "string list"

definition note_if_blocked :: "string \<Rightarrow> bytes \<Rightarrow> seen_hosts \<Rightarrow> seen_hosts" where
  "note_if_blocked host response s =
     (case detect response of
        None \<Rightarrow> s
      | Some cdn \<Rightarrow>
          (let h = normalize_bot_host host in
           if h \<in> set (sh_seen s) then s else \<lparr>sh_seen = h # sh_seen s, sh_warned = sh_warned s @ [h]\<rparr>))"

section \<open>Counters\<close>

record host_stat =
  hs_requests :: u64
  hs_cache_hits :: u64
  hs_bytes :: u64
  hs_total_latency_ns :: u64

record relay_stats =
  rs_relay_calls :: u64
  rs_relay_failures :: u64
  rs_bytes_relayed :: u64
  rs_today :: day_counters
  rs_per_site :: "(string \<times> host_stat) list"
  rs_seen :: seen_hosts
  rs_seen_exit :: seen_hosts

definition default_host_stat :: host_stat where
  "default_host_stat = \<lparr>hs_requests = 0, hs_cache_hits = 0, hs_bytes = 0, hs_total_latency_ns = 0\<rparr>"

definition bump :: "bool \<Rightarrow> u64 \<Rightarrow> u64 \<Rightarrow> host_stat \<Rightarrow> host_stat" where
  "bump cache_hit n latency e =
     e\<lparr>hs_requests := hs_requests e + 1, hs_cache_hits := (if cache_hit then hs_cache_hits e + 1 else hs_cache_hits e),
       hs_bytes := hs_bytes e + n, hs_total_latency_ns := hs_total_latency_ns e + latency\<rparr>"

definition record_site :: "string \<Rightarrow> bool \<Rightarrow> u64 \<Rightarrow> u64 \<Rightarrow> relay_stats \<Rightarrow> relay_stats" where
  "record_site url cache_hit n latency rs =
     (case extract_host url of
        None \<Rightarrow> rs
      | Some host \<Rightarrow>
          rs\<lparr>rs_per_site := AList.update host
               (bump cache_hit n latency (case map_of (rs_per_site rs) host of None \<Rightarrow> default_host_stat | Some e \<Rightarrow> e)) (rs_per_site rs)\<rparr>)"

definition relay_called :: "relay_stats \<Rightarrow> relay_stats" where
  "relay_called rs = rs\<lparr>rs_relay_calls := rs_relay_calls rs + 1\<rparr>"

definition relay_failed :: "relay_stats \<Rightarrow> relay_stats" where
  "relay_failed rs = rs\<lparr>rs_relay_failures := rs_relay_failures rs + 1\<rparr>"

definition note_block :: "string \<Rightarrow> bytes \<Rightarrow> relay_stats \<Rightarrow> relay_stats" where
  "note_block url bs rs = (case extract_host url of None \<Rightarrow> rs | Some host \<Rightarrow> rs\<lparr>rs_seen := note_if_blocked host bs (rs_seen rs)\<rparr>)"

definition note_block_exit :: "string \<Rightarrow> bytes \<Rightarrow> relay_stats \<Rightarrow> relay_stats" where
  "note_block_exit url bs rs =
     (case extract_host url of None \<Rightarrow> rs | Some host \<Rightarrow> rs\<lparr>rs_seen_exit := note_if_blocked host bs (rs_seen_exit rs)\<rparr>)"

text \<open>A relayed answer, of which the time is the wall clock's.\<close>

definition relay_answered :: "nat \<Rightarrow> string \<Rightarrow> bytes \<Rightarrow> relay_stats \<Rightarrow> relay_stats" where
  "relay_answered now url bs rs =
     note_block url bs (rs\<lparr>rs_bytes_relayed := rs_bytes_relayed rs + of_nat (length bs),
                           rs_today := record_today now (of_nat (length bs)) (rs_today rs)\<rparr>)"

section \<open>One warning per host\<close>

definition seen_inv :: "seen_hosts \<Rightarrow> bool" where
  "seen_inv s \<longleftrightarrow> set (sh_warned s) = set (sh_seen s) \<and> distinct (sh_warned s)"

lemma seen_inv_note: "seen_inv s \<Longrightarrow> seen_inv (note_if_blocked host response s)"
  by (auto simp: seen_inv_def note_if_blocked_def Let_def split: option.split)

lemma blocked_host_is_known:
  "detect response = Some cdn \<Longrightarrow> normalize_bot_host host \<in> set (sh_seen (note_if_blocked host response s))"
  by (simp add: note_if_blocked_def Let_def)

lemma warned_once:
  "distinct (sh_warned (fold (\<lambda>(host, response). note_if_blocked host response) rs \<lparr>sh_seen = [], sh_warned = []\<rparr>))"
proof -
  have "seen_inv s \<Longrightarrow> seen_inv (fold (\<lambda>(host, response). note_if_blocked host response) rs s)" for s
    by (induction rs arbitrary: s) (auto simp: seen_inv_note)
  then show ?thesis by (simp add: seen_inv_def)
qed

end
