(* ===== verification/Relay_Core.thy ===== *)
theory Relay_Core
  imports Fronter_Link Fronter_Stats Response_Cache
begin

text \<open>
  The relaying of an HTTP request by the domain fronter (\<^verbatim>\<open>src/src/domain_fronter.rs\<close>): the JSON payload, one
  attempt over HTTP/2 with the fall back to HTTP/1.1, the second attempt, the race between deployments,
  the detour over an exit node, and the cache around them. Shown: a request that may have reached the relay over HTTP/2
  and has side effects is not sent again, neither by the attempt, nor by the retry, nor after the
  detour; a failure over HTTP/1.1 after the request was sent does repeat it; and a refusal that comes from
  a redirect is taken for one of the request.
\<close>

section \<open>Payloads\<close>

record relay_codec =
  rc_lib :: relay_lib
  rc_b64 :: "bytes \<Rightarrow> string"
  rc_json :: "jvalue \<Rightarrow> bytes"

text \<open>The objects of \<^verbatim>\<open>serde_json\<close> are sorted by their keys, bytewise; a second insertion replaces.\<close>

fun str_less :: "string \<Rightarrow> string \<Rightarrow> bool" where
  "str_less [] t = (t \<noteq> [])"
| "str_less (c # s) [] = False"
| "str_less (c # s) (d # t) = ((of_char c :: nat) < of_char d \<or> c = d \<and> str_less s t)"

fun jinsert :: "string \<Rightarrow> jvalue \<Rightarrow> (string \<times> jvalue) list \<Rightarrow> (string \<times> jvalue) list" where
  "jinsert k v [] = [(k, v)]"
| "jinsert k v ((k', v') # m) =
     (if k = k' then (k, v) # m else if str_less k k' then (k, v) # (k', v') # m else (k', v') # jinsert k v m)"

definition header_map :: "header list \<Rightarrow> (string \<times> jvalue) list option" where
  "header_map filtered =
     (if filtered = [] then None else Some (fold (\<lambda>(k, v) m. jinsert k (JString v) m) filtered []))"

definition request_object :: "relay_codec \<Rightarrow> string \<Rightarrow> bool \<Rightarrow> string \<Rightarrow> string \<Rightarrow> header list \<Rightarrow> header list \<Rightarrow> bytes \<Rightarrow> (string \<times> jvalue) list" where
  "request_object cd key r method url headers filtered body =
     fold (\<lambda>(k, v) m. case v of None \<Rightarrow> m | Some x \<Rightarrow> jinsert k x m)
       [(''k'', Some (JString key)), (''m'', Some (JString method)), (''u'', Some (JString url)),
        (''h'', map_option JObject (header_map filtered)),
        (''b'', if body = [] then None else Some (JString (rc_b64 cd body))),
        (''ct'', if body = [] then None else map_option JString (header_get headers ''content-type'')),
        (''r'', Some (JBool r))] []"

definition add_random_pad :: "'s relay_net \<Rightarrow> relay_codec \<Rightarrow> ('f, 's) fronter \<Rightarrow> (string \<times> jvalue) list \<Rightarrow> ('f, 's) fronter \<times> (string \<times> jvalue) list" where
  "add_random_pad net cd st m =
     (case rn_pad net (fr_world st) of (w, buf) \<Rightarrow>
        (st\<lparr>fr_world := w\<rparr>, if buf = [] then m else jinsert ''_pad'' (JString (rc_b64 cd buf)) m))"

definition build_payload_json :: "'s relay_net \<Rightarrow> relay_codec \<Rightarrow> fronter_cfg \<Rightarrow> string \<Rightarrow> string \<Rightarrow> header list \<Rightarrow> bytes
    \<Rightarrow> ('f, 's) fronter \<Rightarrow> ('f, 's) fronter \<times> bytes" where
  "build_payload_json net cd cfg method url headers body st =
     (let filtered = filter_forwarded_headers_with_brotli_zstd (fc_allow_brotli_zstd cfg) headers;
          m = request_object cd (fc_auth_key cfg) True method url headers filtered body;
          (st', m') = (if fc_disable_padding cfg then (st, m) else add_random_pad net cd st m)
      in (st', rc_json cd (JObject m')))"

definition build_exit_node_inner_payload :: "relay_codec \<Rightarrow> fronter_cfg \<Rightarrow> string \<Rightarrow> string \<Rightarrow> header list \<Rightarrow> bytes \<Rightarrow> bytes" where
  "build_exit_node_inner_payload cd cfg method url headers body =
     (let filtered = filter_forwarded_headers_with_brotli_zstd (fc_allow_brotli_zstd cfg) headers in
      rc_json cd (JObject (request_object cd (fc_exit_node_psk cfg) False method url headers filtered body)))"

definition exec_path_for :: "fronter_cfg \<Rightarrow> string \<Rightarrow> string" where
  "exec_path_for cfg script_id = ''/macros/s/'' @ script_id @ ''/exec?hl='' @ fc_lang cfg"

section \<open>One attempt\<close>

definition is_method_safe_for_fanout :: "string \<Rightarrow> bool" where
  "is_method_safe_for_fanout method \<longleftrightarrow> to_ascii_uppercase method \<in> {''GET'', ''HEAD'', ''OPTIONS''}"

definition is_h2_fronting_refusal_status :: "nat \<Rightarrow> bool" where
  "is_h2_fronting_refusal_status status \<longleftrightarrow> status = 421"

definition blacklist :: "'s relay_net \<Rightarrow> string \<Rightarrow> ('f, 's) fronter \<Rightarrow> ('f, 's) fronter" where
  "blacklist net sid st = st\<lparr>fr_scripts := blacklist_script (rn_now net (fr_world st)) sid (fr_scripts st)\<rparr>"

definition body_text :: "bytes \<Rightarrow> string" where
  "body_text body = take_chars 200 (str_of_bytes (from_utf8_lossy body))"

definition http_error :: "string \<Rightarrow> nat \<Rightarrow> string \<Rightarrow> fronter_error" where
  "http_error ctx status txt = FeRelay (''Apps Script HTTP '' @ dec_show status @ ctx @ '': '' @ txt)"

text \<open>What a final response of the relay means for the caller and the deployment, on either transport.\<close>

definition finish_relay :: "'s relay_net \<Rightarrow> relay_lib \<Rightarrow> fronter_cfg \<Rightarrow> string \<Rightarrow> response \<Rightarrow> ('f, 's) fronter \<Rightarrow> (('f, 's) fronter, bytes) step" where
  "finish_relay net L cfg sid = (\<lambda>(status, _, resp_body) st.
     if status \<noteq> 200 then
       (let txt = body_text resp_body in
        Some (if should_blacklist status txt then blacklist net sid st else st, Inl (http_error [] status txt)))
     else (case parse_relay_json L (fc_allow_brotli_zstd cfg) resp_body of
             None \<Rightarrow> None
           | Some (Inr out) \<Rightarrow> Some (st, Inr out)
           | Some (Inl e) \<Rightarrow>
               Some (case e of FeRelay msg \<Rightarrow> if classify_envelope_error msg \<noteq> None then blacklist net sid st else st | _ \<Rightarrow> st,
                     Inl e)))"

definition h1_attempt :: "'s relay_net \<Rightarrow> relay_lib \<Rightarrow> fronter_cfg \<Rightarrow> string \<Rightarrow> bytes \<Rightarrow> ('f, 's) fronter \<Rightarrow> (('f, 's) fronter, bytes) step" where
  "h1_attempt net L cfg sid payload st =
     and_then (acquire net st) (\<lambda>st1 entry.
     and_then (h1_post net L cfg (pe_stream entry) (exec_path_for cfg sid) payload st1) (\<lambda>st2 r.
     and_then (finish_relay net L cfg sid r st2) (\<lambda>st3 out. Some (release net entry st3, Inr out))))"

definition do_relay_once_with :: "'s relay_net \<Rightarrow> relay_codec \<Rightarrow> fronter_cfg \<Rightarrow> string \<Rightarrow> string \<Rightarrow> string \<Rightarrow> header list \<Rightarrow> bytes
    \<Rightarrow> ('f, 's) fronter \<Rightarrow> (('f, 's) fronter, bytes) step" where
  "do_relay_once_with net cd cfg sid method url headers body st =
     (case build_payload_json net cd cfg method url headers body st of (st0, payload) \<Rightarrow>
        (case h2_relay_request net (rc_lib cd) cfg (exec_path_for cfg sid) payload st0 of
           None \<Rightarrow> None
         | Some (st1, Inr r) \<Rightarrow>
             if is_h2_fronting_refusal_status (fst r)
             then h1_attempt net (rc_lib cd) cfg sid payload (sticky_disable_h2_for_fronting_refusal st1)
             else finish_relay net (rc_lib cd) cfg sid r st1
         | Some (st1, Inl (e, SentNo)) \<Rightarrow> h1_attempt net (rc_lib cd) cfg sid payload st1
         | Some (st1, Inl (e, SentMaybe)) \<Rightarrow>
             if is_method_safe_for_fanout method then h1_attempt net (rc_lib cd) cfg sid payload st1
             else Some (st1, Inl (FeNonRetryable e))))"

definition do_relay_once :: "('f :: linorder) score_ops \<Rightarrow> 's relay_net \<Rightarrow> relay_codec \<Rightarrow> fronter_cfg \<Rightarrow> string \<Rightarrow> string \<Rightarrow> header list \<Rightarrow> bytes
    \<Rightarrow> ('f, 's) fronter \<Rightarrow> (('f, 's) fronter, bytes) step" where
  "do_relay_once ops net cd cfg method url headers body st =
     (case next_script_id ops (rn_now net (fr_world st)) (fr_scripts st) of
        (sp, None) \<Rightarrow> None
      | (sp, Some sid) \<Rightarrow> do_relay_once_with net cd cfg sid method url headers body (st\<lparr>fr_scripts := sp\<rparr>))"

section \<open>Several attempts\<close>

text \<open>The racing attempts are run one after the other, in the order in which they finish; the first success
  is the result, and the attempts after it are dropped. A dropped attempt may have sent its request
  before; this matters only for requests without side effects, since others do not race.\<close>

fun select_ok :: "('st \<Rightarrow> 'i \<Rightarrow> ('st, 'a) step) \<Rightarrow> fronter_error \<Rightarrow> 'i list \<Rightarrow> 'st \<Rightarrow> ('st, 'a) step" where
  "select_ok attempt last_err [] st = Some (st, Inl last_err)"
| "select_ok attempt last_err (i # is) st =
     (case attempt st i of
        None \<Rightarrow> None
      | Some (st', Inr a) \<Rightarrow> Some (st', Inr a)
      | Some (st', Inl e) \<Rightarrow> select_ok attempt e is st')"

definition do_relay_parallel :: "('f :: linorder) score_ops \<Rightarrow> 's relay_net \<Rightarrow> relay_codec \<Rightarrow> fronter_cfg \<Rightarrow> (string list \<Rightarrow> string list)
    \<Rightarrow> string \<Rightarrow> string \<Rightarrow> header list \<Rightarrow> bytes \<Rightarrow> nat \<Rightarrow> ('f, 's) fronter \<Rightarrow> (('f, 's) fronter, bytes) step" where
  "do_relay_parallel ops net cd cfg finish_order method url headers body fan st =
     (case next_script_ids ops (rn_now net (fr_world st)) fan (fr_scripts st) of (sp, ids) \<Rightarrow>
        let st1 = st\<lparr>fr_scripts := sp\<rparr> in
        if ids = [] then Some (st1, Inl (FeRelay ''no script_ids available''))
        else select_ok (\<lambda>st' sid. do_relay_once_with net cd cfg sid method url headers body st')
               (FeRelay ''no script_ids available'') (finish_order ids) st1)"

definition do_relay_with_retry :: "('f :: linorder) score_ops \<Rightarrow> 's relay_net \<Rightarrow> relay_codec \<Rightarrow> fronter_cfg \<Rightarrow> (string list \<Rightarrow> string list)
    \<Rightarrow> string \<Rightarrow> string \<Rightarrow> header list \<Rightarrow> bytes \<Rightarrow> ('f, 's) fronter \<Rightarrow> (('f, 's) fronter, bytes) step" where
  "do_relay_with_retry ops net cd cfg finish_order method url headers body st =
     (let fan = max 1 (min (fc_parallel_relay cfg) (length (sp_script_ids (fr_scripts st)))) in
      if 2 \<le> fan \<and> is_method_safe_for_fanout method then do_relay_parallel ops net cd cfg finish_order method url headers body fan st
      else (case do_relay_once ops net cd cfg method url headers body st of
              None \<Rightarrow> None
            | Some (st1, Inr v) \<Rightarrow> Some (st1, Inr v)
            | Some (st1, Inl e) \<Rightarrow>
                if \<not> is_retryable e then Some (st1, Inl (into_inner e))
                else do_relay_once ops net cd cfg method url headers body st1))"

section \<open>The exit node\<close>

definition EXIT_CTX :: string where "EXIT_CTX = '' (exit-node outer call)''"

definition exit_response :: "response \<Rightarrow> (bytes, fronter_error) result" where
  "exit_response = (\<lambda>(status, _, body). if status \<noteq> 200 then Inl (http_error EXIT_CTX status (body_text body)) else Inr body)"

definition h1_prebuilt :: "'s relay_net \<Rightarrow> relay_lib \<Rightarrow> fronter_cfg \<Rightarrow> string \<Rightarrow> bytes \<Rightarrow> ('f, 's) fronter \<Rightarrow> (('f, 's) fronter, bytes) step" where
  "h1_prebuilt net L cfg path payload st =
     and_then (acquire net st) (\<lambda>st1 entry.
     and_then (h1_post net L cfg (pe_stream entry) path payload st1) (\<lambda>st2 r. Some (st2, exit_response r)))"

definition send_prebuilt_payload_through_relay :: "('f :: linorder) score_ops \<Rightarrow> 's relay_net \<Rightarrow> relay_lib \<Rightarrow> fronter_cfg \<Rightarrow> bytes
    \<Rightarrow> ('f, 's) fronter \<Rightarrow> (('f, 's) fronter, bytes) step" where
  "send_prebuilt_payload_through_relay ops net L cfg payload st =
     (case next_script_id ops (rn_now net (fr_world st)) (fr_scripts st) of
        (sp, None) \<Rightarrow> None
      | (sp, Some sid) \<Rightarrow>
          (let path = exec_path_for cfg sid in
           case h2_relay_request net L cfg path payload (st\<lparr>fr_scripts := sp\<rparr>) of
             None \<Rightarrow> None
           | Some (st1, Inr r) \<Rightarrow>
               if is_h2_fronting_refusal_status (fst r)
               then h1_prebuilt net L cfg path payload (sticky_disable_h2_for_fronting_refusal st1)
               else Some (st1, exit_response r)
           | Some (st1, Inl (e, SentNo)) \<Rightarrow> h1_prebuilt net L cfg path payload st1
           | Some (st1, Inl (e, SentMaybe)) \<Rightarrow> Some (st1, Inl (FeNonRetryable e))))"

definition relay_via_exit_node :: "('f :: linorder) score_ops \<Rightarrow> 's relay_net \<Rightarrow> relay_codec \<Rightarrow> fronter_cfg \<Rightarrow> string \<Rightarrow> string \<Rightarrow> header list \<Rightarrow> bytes
    \<Rightarrow> ('f, 's) fronter \<Rightarrow> (('f, 's) fronter, bytes) step" where
  "relay_via_exit_node ops net cd cfg method url headers body st =
     (let inner = build_exit_node_inner_payload cd cfg method url headers body in
      case build_payload_json net cd cfg ''POST'' (fc_exit_node_url cfg) [(''Content-Type'', ''application/json'')] inner st of
        (st1, outer) \<Rightarrow>
          (case rl_value (rc_lib cd) (str_of_bytes outer) of
             Inl e \<Rightarrow> Some (st1, Inl (FeJson e))
           | Inr v \<Rightarrow>
               (let v' = (case v of JObject m \<Rightarrow> JObject (jinsert ''raw'' (JBool True) m) | other \<Rightarrow> other) in
                and_then (send_prebuilt_payload_through_relay ops net (rc_lib cd) cfg (rc_json cd v') st1)
                  (\<lambda>st2 app_body. Some (st2, parse_exit_node_response (rc_lib cd) (fc_allow_brotli_zstd cfg) app_body)))))"

section \<open>A whole request\<close>

definition timeout_message :: string where
  "timeout_message =
     ''Relay timeout '' @ [CHR 0xE2, CHR 0x80, CHR 0x94] @ '' Apps Script did not respond. ''
     @ ''Most likely cause: daily UrlFetchApp quota exhausted (resets 00:00 UTC). Other possibilities: script.google.com ''
     @ ''unreachable from your network, or the Apps Script edge is having issues. ''
     @ ''Check the script'' @ [CHR 0x27] @ ''s Executions tab at script.google.com for the real error.''"

text \<open>The caller's view of an answer: bytes in every case. \<open>late\<close> is the state in which the attempt stood when its
  time was up, if that happened. The clock of the cache is the world's.\<close>

type_synonym ('f, 's) relay_state = "('f, 's) fronter \<times> response_cache \<times> relay_stats"

definition relay_uncoalesced :: "('f :: linorder) score_ops \<Rightarrow> 's relay_net \<Rightarrow> relay_codec \<Rightarrow> fronter_cfg \<Rightarrow> (string list \<Rightarrow> string list)
    \<Rightarrow> ('f, 's) fronter option \<Rightarrow> string \<Rightarrow> string \<Rightarrow> header list \<Rightarrow> bytes \<Rightarrow> string option
    \<Rightarrow> ('f, 's) relay_state \<Rightarrow> (('f, 's) relay_state \<times> bytes) option" where
  "relay_uncoalesced ops net cd cfg finish_order late method url headers body key = (\<lambda>(st, cache, rs0).
     let rs = relay_called rs0 in
     case late of
       Some st' \<Rightarrow> Some ((st', cache, relay_failed rs), error_page 504 timeout_message)
     | None \<Rightarrow>
         (case do_relay_with_retry ops net cd cfg finish_order method url headers body st of
            None \<Rightarrow> None
          | Some (st', Inl e) \<Rightarrow> Some ((st', cache, relay_failed rs), error_page 502 (''Relay error: '' @ fronter_error_text e))
          | Some (st', Inr bs) \<Rightarrow>
              Some ((st',
                     case key of
                       None \<Rightarrow> cache
                     | Some k \<Rightarrow> (case parse_ttl bs url of None \<Rightarrow> cache | Some ttl \<Rightarrow> cache_put (rn_now net (fr_world st')) k bs (ttl * 1000) cache),
                     relay_answered (rn_unix net (fr_world st')) url bs rs),
                    bs)))"

text \<open>The time since a moment, in nanoseconds.\<close>

definition latency_ns :: "'s relay_net \<Rightarrow> 's \<Rightarrow> 's \<Rightarrow> u64" where
  "latency_ns net w w' = of_nat ((rn_now net w' - rn_now net w) * 1000000)"

definition coalescible :: "string \<Rightarrow> header list \<Rightarrow> bytes \<Rightarrow> bool" where
  "coalescible method headers body \<longleftrightarrow>
     is_cacheable_method method \<and> body = [] \<and> \<not> list_ex (\<lambda>(k, _). eq_ignore_ascii_case k ''range'') headers"

text \<open>The request as it is relayed, after the two rewritings.\<close>

definition relay_url :: "fronter_cfg \<Rightarrow> string \<Rightarrow> string" where
  "relay_url cfg url = (if fc_normalize_x_graphql cfg then normalize_x_graphql_url url else url)"

definition relay_body :: "fronter_cfg \<Rightarrow> string \<Rightarrow> string \<Rightarrow> bytes \<Rightarrow> bytes" where
  "relay_body cfg method url body = (case maybe_strip_sabr_body (fc_sabr_strip cfg) method url body of None \<Rightarrow> body | Some b \<Rightarrow> b)"

text \<open>What happens before the request is coalesced: the exit node and the cache. \<open>RlGo\<close> leaves the rest.\<close>

datatype relay_stage = RlDone bytes | RlGo "string option"

definition relay_direct :: "'s relay_net \<Rightarrow> string \<Rightarrow> string \<Rightarrow> header list \<Rightarrow> bytes
    \<Rightarrow> ('f, 's) relay_state \<Rightarrow> ('f, 's) relay_state \<times> relay_stage" where
  "relay_direct net method url headers body = (\<lambda>(st, cache, rs).
     if \<not> coalescible method headers body then ((st, cache, rs), RlGo None)
     else (case cache_get (rn_now net (fr_world st)) (cache_key method url) cache of
             (cache', Some hit) \<Rightarrow> ((st, cache', record_site url True (of_nat (length hit)) 0 rs), RlDone hit)
           | (cache', None) \<Rightarrow> ((st, cache', rs), RlGo (Some (cache_key method url)))))"

definition relay_begin :: "('f :: linorder) score_ops \<Rightarrow> 's relay_net \<Rightarrow> relay_codec \<Rightarrow> fronter_cfg \<Rightarrow> string \<Rightarrow> string \<Rightarrow> header list \<Rightarrow> bytes
    \<Rightarrow> ('f, 's) relay_state \<Rightarrow> (('f, 's) relay_state \<times> relay_stage) option" where
  "relay_begin ops net cd cfg method url headers body = (\<lambda>(st, cache, rs).
     if exit_node_matches (fc_exit_node_enabled cfg) (fc_exit_node_full cfg) (fc_exit_node_hosts cfg) url then
       (case relay_via_exit_node ops net cd cfg method url headers body st of
          None \<Rightarrow> None
        | Some (st', Inr bs) \<Rightarrow>
            Some ((st', cache, note_block_exit url bs
                     (record_site url False (of_nat (length bs)) (latency_ns net (fr_world st) (fr_world st')) rs)), RlDone bs)
        | Some (st', Inl e) \<Rightarrow>
            if \<not> is_retryable e
            then Some ((st', cache, record_site url False 0 (latency_ns net (fr_world st) (fr_world st')) (relay_failed rs)),
                       RlDone (error_page 502 (''Relay error: '' @ fronter_error_text (into_inner e))))
            else Some (relay_direct net method url headers body (st', cache, rs)))
     else Some (relay_direct net method url headers body (st, cache, rs)))"

text \<open>\<^verbatim>\<open>relay\<close> for a caller that no other caller shares its request with.\<close>

definition relay :: "('f :: linorder) score_ops \<Rightarrow> 's relay_net \<Rightarrow> relay_codec \<Rightarrow> fronter_cfg \<Rightarrow> (string list \<Rightarrow> string list)
    \<Rightarrow> ('f, 's) fronter option \<Rightarrow> string \<Rightarrow> string \<Rightarrow> header list \<Rightarrow> bytes
    \<Rightarrow> ('f, 's) relay_state \<Rightarrow> (('f, 's) relay_state \<times> bytes) option" where
  "relay ops net cd cfg finish_order late method url0 headers body0 s =
     (let url = relay_url cfg url0; body = relay_body cfg method url body0 in
      case relay_begin ops net cd cfg method url headers body s of
        None \<Rightarrow> None
      | Some (s1, RlDone bs) \<Rightarrow> Some (s1, bs)
      | Some (s1, RlGo key) \<Rightarrow>
          map_option (\<lambda>((st', cache', rs'), bs).
              ((st', cache', record_site url False (of_nat (length bs)) (latency_ns net (fr_world (fst s1)) (fr_world st')) rs'), bs))
            (relay_uncoalesced ops net cd cfg finish_order late method url headers body key s1))"

section \<open>How often a request is sent\<close>

lemma build_payload_keeps:
  "build_payload_json net cd cfg method url headers body st = (st', p) \<Longrightarrow> fr_sent st' = fr_sent st \<and> fr_scripts st' = fr_scripts st"
  by (auto simp: build_payload_json_def add_random_pad_def Let_def split: if_splits prod.splits)

lemma posts_scripts [simp]: "posts (st\<lparr>fr_scripts := sp\<rparr>) = posts st"
  by (simp add: posts_def)

lemma posts_sticky [simp]: "posts (sticky_disable_h2_for_fronting_refusal st) = posts st"
  by (simp add: posts_def sticky_disable_h2_for_fronting_refusal_def)

lemma posts_blacklist [simp]: "posts (blacklist net sid st) = posts st"
  by (simp add: posts_def blacklist_def)

lemma finish_relay_posts: "finish_relay net L cfg sid r st = Some (st', res) \<Longrightarrow> posts st' = posts st"
  by (cases r) (auto simp: finish_relay_def Let_def split: if_splits option.splits sum.splits fronter_error.splits)

text \<open>The same payload on the two transports.\<close>

definition post_h2 :: "fronter_cfg \<Rightarrow> string \<Rightarrow> bytes \<Rightarrow> sent" where
  "post_h2 cfg path payload = SentH2 (h2_request_of cfg ''POST'' path (fc_http_host cfg) payload (Some ''application/json''))"

definition post_h1 :: "fronter_cfg \<Rightarrow> string \<Rightarrow> bytes \<Rightarrow> sent" where
  "post_h1 cfg path payload = SentH1 (as_bytes (post_head cfg path (length payload)) @ payload)"

lemma h2_posts:
  "h2_relay_request net L cfg path payload st = Some (st', r) \<Longrightarrow>
     posts st' = posts st @ (if reached_wire r then [post_h2 cfg path payload] else [])"
  using h2_relay_posts by (fastforce simp: post_h2_def)

lemma acquire_posts: "acquire net st = Some (st', r) \<Longrightarrow> posts st' = posts st"
  using acquire_keeps by (fastforce simp: posts_def)

lemma h1_attempt_posts:
  assumes "h1_attempt net L cfg sid payload st = Some (st', r)"
  shows "posts st' = posts st \<or> posts st' = posts st @ [post_h1 cfg (exec_path_for cfg sid) payload]"
proof -
  from assms consider (no) e where "acquire net st = Some (st', Inl e)"
    | (one) st1 entry e where "acquire net st = Some (st1, Inr entry)"
        "h1_post net L cfg (pe_stream entry) (exec_path_for cfg sid) payload st1 = Some (st', Inl e)"
    | (two) st1 entry st2 rs st3 res where "acquire net st = Some (st1, Inr entry)"
        "h1_post net L cfg (pe_stream entry) (exec_path_for cfg sid) payload st1 = Some (st2, Inr rs)"
        "finish_relay net L cfg sid rs st2 = Some (st3, res)" "posts st' = posts st3"
    unfolding h1_attempt_def by (fastforce simp: and_then_Some posts_def)
  then show ?thesis
  proof cases
    case no
    then show ?thesis by (simp add: acquire_posts)
  next
    case one
    from acquire_posts [OF one(1)] h1_post_posts [OF one(2)] show ?thesis by (simp add: post_h1_def)
  next
    case two
    from acquire_posts [OF two(1)] h1_post_posts [OF two(2)] finish_relay_posts [OF two(3)] two(4) show ?thesis
      by (simp add: post_h1_def)
  qed
qed

text \<open>A network whose HTTP/2 edge refuses nothing for its host.\<close>

definition no_refusals :: "'s relay_net \<Rightarrow> bool" where
  "no_refusals net \<longleftrightarrow> (\<forall>w c q w' hs b. rn_h2 net w c q \<noteq> (w', H2Answer 421 hs b))"

lemma h2_round_trip_status:
  assumes "no_refusals net" "h2_round_trip net L send q st = (st', Inr r)"
  shows "fst r \<noteq> 421"
proof -
  obtain w out where o: "rn_h2 net (fr_world st) send q = (w, out)" by (cases "rn_h2 net (fr_world st) send q")
  with assms(2) have "h2_verdict L out = Inr r" by (simp add: h2_round_trip_def)
  then obtain status hs b where "out = H2Answer status hs b" "fst r = status" by (cases out) auto
  with o assms(1) show ?thesis by (auto simp: no_refusals_def)
qed

lemma h2_redirects_status:
  "no_refusals net \<Longrightarrow> h2_redirects net L cfg send g n host r st = (st', Inr r') \<Longrightarrow> fst r \<noteq> 421 \<Longrightarrow> fst r' \<noteq> 421"
proof (induction net L cfg send g n host r st rule: h2_redirects.induct)
  case (2 net L cfg send g n host status hdrs body st)
  show ?case
  proof (cases "is_redirect status \<and> header_get hdrs ''location'' \<noteq> None")
    case True
    then obtain loc where loc: "header_get hdrs ''location'' = Some loc" by auto
    obtain rpath rhost where pr: "parse_redirect loc = (rpath, rhost)" by (cases "parse_redirect loc")
    let ?h = "case rhost of Some h \<Rightarrow> h | None \<Rightarrow> host"
    obtain st1 r1 where rt: "h2_round_trip net L send (h2_request_of cfg ''GET'' rpath ?h [] None) st = (st1, r1)"
      by (cases "h2_round_trip net L send (h2_request_of cfg ''GET'' rpath ?h [] None) st")
    from "2.prems"(2) True loc pr rt obtain r2 where r2: "r1 = Inr r2" "h2_redirects net L cfg send g n ?h r2 st1 = (st', Inr r')"
      by (cases r1) auto
    have "fst r2 \<noteq> 421" using h2_round_trip_status [OF "2.prems"(1)] rt r2(1) by blast
    then show ?thesis using "2.IH" [OF _ loc pr [symmetric] refl rt [symmetric] r2(1) "2.prems"(1) r2(2)] True by simp
  qed (use "2.prems" in \<open>auto split: option.splits if_splits\<close>)
qed auto

lemma h2_relay_status:
  assumes "no_refusals net" "h2_relay_request net L cfg path payload st = Some (st', Inr r)"
  shows "fst r \<noteq> 421"
proof -
  let ?q = "h2_request_of cfg ''POST'' path (fc_http_host cfg) payload (Some ''application/json'')"
  obtain st1 send g where run: "run_h2_relay_with_send net L cfg send g path payload st1 = (st', Inr r)"
    using assms(2) by (auto simp: h2_relay_request_def split: option.splits)
  obtain st2 r2 where rt: "h2_round_trip net L send ?q st1 = (st2, r2)" by (cases "h2_round_trip net L send ?q st1")
  with run obtain rs where rs: "r2 = Inr rs" by (cases r2) (auto simp: run_h2_relay_with_send_def)
  obtain st3 r3 where rd: "h2_redirects net L cfg send g 5 (fc_http_host cfg) rs st2 = (st3, r3)"
    by (cases "h2_redirects net L cfg send g 5 (fc_http_host cfg) rs st2")
  with run rt rs have "r3 = Inr r" by (cases r3) (auto simp: run_h2_relay_with_send_def)
  with rd h2_round_trip_status [OF assms(1) rt [unfolded rs]] show ?thesis
    using h2_redirects_status [OF assms(1)] by blast
qed

lemma h2_result_cases:
  fixes r :: "response h2_result"
  obtains (answer) rs where "r = Inr rs" | (no) e where "r = Inl (e, SentNo)" | (lost) e where "r = Inl (e, SentMaybe)"
proof (cases r)
  case (Inl es)
  then show ?thesis using that by (cases es; cases "snd es") auto
qed (use that in auto)

lemma once_posts:
  assumes "\<not> is_method_safe_for_fanout method" "no_refusals net"
    and "do_relay_once_with net cd cfg sid method url headers body st = Some (st', r)"
  shows "length (posts st') \<le> length (posts st) + 1 \<and> take (length (posts st)) (posts st') = posts st"
proof -
  obtain st0 payload where b: "build_payload_json net cd cfg method url headers body st = (st0, payload)"
    by (cases "build_payload_json net cd cfg method url headers body st")
  have p0: "posts st0 = posts st" using build_payload_keeps [OF b] by (simp add: posts_def)
  obtain st1 r1 where h: "h2_relay_request net (rc_lib cd) cfg (exec_path_for cfg sid) payload st0 = Some (st1, r1)"
    using assms(3) b by (auto simp: do_relay_once_with_def split: option.splits)
  note p1 = h2_posts [OF h]
  consider (answer) rs where "r1 = Inr rs" | (no) e where "r1 = Inl (e, SentNo)" | (lost) e where "r1 = Inl (e, SentMaybe)"
    by (rule h2_result_cases)
  then show ?thesis
  proof cases
    case answer
    have "fst rs \<noteq> 421" using h2_relay_status [OF assms(2) h [unfolded answer]] .
    then have "finish_relay net (rc_lib cd) cfg sid rs st1 = Some (st', r)"
      using assms(3) b h answer by (simp add: do_relay_once_with_def is_h2_fronting_refusal_status_def)
    from finish_relay_posts [OF this] p0 p1 show ?thesis by simp
  next
    case no
    have "h1_attempt net (rc_lib cd) cfg sid payload st1 = Some (st', r)" using assms(3) b h no by (simp add: do_relay_once_with_def)
    from h1_attempt_posts [OF this] p0 p1 no show ?thesis by (auto simp: reached_wire_def)
  next
    case lost
    have "st' = st1" using assms(1,3) b h lost by (simp add: do_relay_once_with_def)
    with p0 p1 show ?thesis by simp
  qed
qed

lemma once_posts_chosen:
  assumes "\<not> is_method_safe_for_fanout method" "no_refusals net"
    and "do_relay_once ops net cd cfg method url headers body st = Some (st', r)"
  shows "length (posts st') \<le> length (posts st) + 1 \<and> take (length (posts st)) (posts st') = posts st"
proof -
  obtain sp sid where "do_relay_once_with net cd cfg sid method url headers body (st\<lparr>fr_scripts := sp\<rparr>) = Some (st', r)"
    using assms(3) by (auto simp: do_relay_once_def split: prod.splits option.splits)
  from once_posts [OF assms(1,2) this] show ?thesis by simp
qed

text \<open>With an edge that refuses nothing, a request with side effects is handed to a connection at most
  twice, whatever the network does, and never by two attempts at once.\<close>

theorem unsafe_posts_bounded:
  assumes "\<not> is_method_safe_for_fanout method" "no_refusals net"
    and "do_relay_with_retry ops net cd cfg order method url headers body st = Some (st', r)"
  shows "length (posts st') \<le> length (posts st) + 2"
proof -
  obtain st1 r1 where o1: "do_relay_once ops net cd cfg method url headers body st = Some (st1, r1)"
    using assms(1,3) by (auto simp: do_relay_with_retry_def Let_def split: option.splits)
  note b1 = once_posts_chosen [OF assms(1,2) o1]
  from assms(1,3) o1 consider "st' = st1" | "do_relay_once ops net cd cfg method url headers body st1 = Some (st', r)"
    by (cases r1) (auto simp: do_relay_with_retry_def Let_def split: if_splits)
  then show ?thesis
  proof cases
    case 2
    from once_posts_chosen [OF assms(1,2) this] b1 show ?thesis by linarith
  qed (use b1 in simp)
qed

text \<open>C15: a request with side effects that was lost after it was sent over HTTP/2 is reported as failed and
  not sent again: one copy has been handed to a connection.\<close>

theorem lost_request_not_repeated:
  assumes "\<not> is_method_safe_for_fanout method"
    and "next_script_id ops (rn_now net (fr_world st)) (fr_scripts st) = (sp, Some sid)"
    and "build_payload_json net cd cfg method url headers body (st\<lparr>fr_scripts := sp\<rparr>) = (st0, payload)"
    and "h2_relay_request net (rc_lib cd) cfg (exec_path_for cfg sid) payload st0 = Some (st1, Inl (e, SentMaybe))"
  shows "do_relay_with_retry ops net cd cfg order method url headers body st = Some (st1, Inl e)
    \<and> posts st1 = posts st @ [post_h2 cfg (exec_path_for cfg sid) payload]"
proof -
  have "do_relay_once ops net cd cfg method url headers body st = Some (st1, Inl (FeNonRetryable e))"
    using assms by (simp add: do_relay_once_def do_relay_once_with_def)
  moreover have "posts st0 = posts st" using build_payload_keeps [OF assms(3)] by (simp add: posts_def)
  ultimately show ?thesis using assms(1) h2_posts [OF assms(4)] by (simp add: do_relay_with_retry_def reached_wire_def)
qed

text \<open>The same on the detour over the exit node, where the request of the browser is inside: the direct
  path is not tried, whatever the method.\<close>

lemma lost_exit_request_not_repeated:
  assumes "exit_node_matches (fc_exit_node_enabled cfg) (fc_exit_node_full cfg) (fc_exit_node_hosts cfg) url"
    and "relay_via_exit_node ops net cd cfg method url headers body st = Some (st', Inl (FeNonRetryable e))"
  shows "\<exists>rs'. relay_begin ops net cd cfg method url headers body (st, cache, rs)
    = Some ((st', cache, rs'), RlDone (error_page 502 (''Relay error: '' @ fronter_error_text e)))"
  using assms by (simp add: relay_begin_def)

section \<open>Repetition over HTTP/1.1\<close>

text \<open>An edge that takes HTTP/1.1 connections and requests and does not answer in time.\<close>

definition silent :: "'s relay_net \<Rightarrow> bool" where
  "silent net \<longleftrightarrow>
     (\<forall>w. rn_tcp net w = (w, CnOk ())) \<and> (\<forall>sni. rn_name_ok net sni) \<and> (\<forall>w b sni. \<exists>c. rn_tls net w b sni = (w, CnOk c))
     \<and> (\<forall>w c q. rn_h1 net w c q = (w, Inr [RdTimeout]))"

lemma read_timeout: "read_http_response d [RdTimeout] = Some (Inl FeTimeout)"
  by (simp add: read_http_response_def read_head.simps next_read_def)

lemma silent_open:
  assumes "silent net" "fr_sni_hosts st \<noteq> []"
  shows "\<exists>st' c. open_h1 net st = Some (st', Inr (c, rn_host net (fr_world st))) \<and> fr_world st' = fr_world st
    \<and> fr_h2_disabled st' = fr_h2_disabled st \<and> fr_sni_hosts st' = fr_sni_hosts st \<and> fr_scripts st' = fr_scripts st \<and> posts st' = posts st"
proof -
  obtain c where "rn_tls net (fr_world st) False (fr_sni_hosts st ! (unat (fr_sni_idx st) mod length (fr_sni_hosts st))) = (fr_world st, CnOk c)"
    using assms(1) unfolding silent_def by blast
  with assms show ?thesis by (simp add: open_h1_def next_sni_def silent_def Let_def posts_def)
qed

lemma silent_acquire:
  assumes "silent net" "fr_sni_hosts st \<noteq> []"
  shows "\<exists>st' e. acquire net st = Some (st', Inr e) \<and> fr_h2_disabled st' = fr_h2_disabled st \<and> fr_sni_hosts st' = fr_sni_hosts st
    \<and> fr_scripts st' = fr_scripts st \<and> posts st' = posts st"
proof -
  show ?thesis
  proof (cases "filter (pool_usable net st) (fr_pool st) = []")
    case True
    obtain st1 c where s1: "open_h1 net (st\<lparr>fr_pool := []\<rparr>) = Some (st1, Inr (c, rn_host net (fr_world st)))" "fr_world st1 = fr_world st"
      "fr_h2_disabled st1 = fr_h2_disabled st" "fr_sni_hosts st1 = fr_sni_hosts st" "fr_scripts st1 = fr_scripts st" "posts st1 = posts st"
      using silent_open [OF assms(1), of "st\<lparr>fr_pool := []\<rparr>"] assms(2) by (auto simp: posts_def)
    with True show ?thesis by (simp add: acquire_def and_then_def)
  next
    case False
    from acquire_from_pool [OF this] show ?thesis by (auto simp: posts_def)
  qed
qed

lemma next_script_id_total:
  assumes "sp_script_ids sp \<noteq> []"
  shows "\<exists>sp' sid. next_script_id ops now sp = (sp', Some sid) \<and> sp_script_ids sp' = sp_script_ids sp"
  using assms by (auto simp: next_script_id_def Let_def split: prod.splits option.splits)

lemma silent_once:
  assumes "silent net" "fr_h2_disabled st" "fr_sni_hosts st \<noteq> []" "sp_script_ids (fr_scripts st) \<noteq> []"
  shows "\<exists>st'. do_relay_once ops net cd cfg method url headers body st = Some (st', Inl FeTimeout) \<and> fr_h2_disabled st'
    \<and> fr_sni_hosts st' \<noteq> [] \<and> sp_script_ids (fr_scripts st') = sp_script_ids (fr_scripts st) \<and> length (posts st') = length (posts st) + 1"
proof -
  obtain sp sid where sel: "next_script_id ops (rn_now net (fr_world st)) (fr_scripts st) = (sp, Some sid)"
    and ids: "sp_script_ids sp = sp_script_ids (fr_scripts st)"
    using next_script_id_total [OF assms(4), of ops "rn_now net (fr_world st)"] by auto
  obtain st0 payload where b: "build_payload_json net cd cfg method url headers body (st\<lparr>fr_scripts := sp\<rparr>) = (st0, payload)"
    by (cases "build_payload_json net cd cfg method url headers body (st\<lparr>fr_scripts := sp\<rparr>)")
  have k0: "fr_h2_disabled st0" "fr_sni_hosts st0 = fr_sni_hosts st" "fr_scripts st0 = sp" "posts st0 = posts st"
    using b assms(2) by (auto simp: build_payload_json_def add_random_pad_def Let_def posts_def split: if_splits prod.splits)
  have h2: "h2_relay_request net (rc_lib cd) cfg (exec_path_for cfg sid) payload st0 = Some (st0, Inl (FeRelay ''h2 unavailable'', SentNo))"
    using k0(1) by (simp add: h2_relay_request_def ensure_h2_def)
  obtain st1 e where ac: "acquire net st0 = Some (st1, Inr e)" "fr_h2_disabled st1" "fr_sni_hosts st1 = fr_sni_hosts st"
    "fr_scripts st1 = sp" "posts st1 = posts st"
    using silent_acquire [OF assms(1), of st0] k0 assms(3) by auto
  let ?req = "as_bytes (post_head cfg (exec_path_for cfg sid) (length payload)) @ payload"
  define st2 where "st2 = st1\<lparr>fr_sent := fr_sent st1 @ [SentH1 ?req]\<rparr>"
  have hp: "h1_post net (rc_lib cd) cfg (pe_stream e) (exec_path_for cfg sid) payload st1 = Some (st2, Inl FeTimeout)"
    using assms(1) by (simp add: h1_post_def h1_exchange_def silent_def read_timeout and_then_def st2_def)
  have "do_relay_once ops net cd cfg method url headers body st = Some (st2, Inl FeTimeout)"
    using sel b h2 ac(1) hp by (simp add: do_relay_once_def do_relay_once_with_def h1_attempt_def and_then_def)
  moreover have "length (posts st2) = length (posts st) + 1" using h1_post_posts [OF hp] ac(5) by simp
  ultimately show ?thesis using ac ids assms(3) by (simp add: st2_def)
qed

lemma silent_retry:
  assumes "silent net" "fr_h2_disabled st" "fr_sni_hosts st \<noteq> []" "sp_script_ids (fr_scripts st) \<noteq> []"
    and "\<not> is_method_safe_for_fanout method"
  shows "\<exists>st'. do_relay_with_retry ops net cd cfg order method url headers body st = Some (st', Inl FeTimeout)
    \<and> length (posts st') = length (posts st) + 2"
proof -
  obtain st1 where s1: "do_relay_once ops net cd cfg method url headers body st = Some (st1, Inl FeTimeout)" "fr_h2_disabled st1"
    "fr_sni_hosts st1 \<noteq> []" "sp_script_ids (fr_scripts st1) = sp_script_ids (fr_scripts st)" "length (posts st1) = length (posts st) + 1"
    using silent_once [OF assms(1-4)] by blast
  obtain st2 where "do_relay_once ops net cd cfg method url headers body st1 = Some (st2, Inl FeTimeout)" "length (posts st2) = length (posts st1) + 1"
    using silent_once [OF assms(1) s1(2,3)] s1(4) assms(4) by force
  with s1 assms(5) show ?thesis by (simp add: do_relay_with_retry_def)
qed

text \<open>C16: over HTTP/1.1 the protection is missing: a request with side effects whose answer does not come in
  time is sent a second time, although the first copy may have been executed.\<close>

theorem h1_loss_repeats:
  assumes "silent net" "fr_h2_disabled st" "fr_sni_hosts st \<noteq> []" "sp_script_ids (fr_scripts st) \<noteq> []"
    and "\<not> is_method_safe_for_fanout method"
  shows "\<exists>st'. do_relay_with_retry ops net cd cfg order method url headers body st = Some (st', Inl FeTimeout)
    \<and> length (posts st') = length (posts st) + 2"
  by (rule silent_retry [OF assms])

section \<open>Examples\<close>

text \<open>An edge that takes everything and answers nothing.\<close>

definition mute_net :: "unit relay_net" where
  "mute_net =
     \<lparr>rn_now = (\<lambda>_. 0), rn_unix = (\<lambda>_. 0), rn_host = (\<lambda>_. 1), rn_dead = (\<lambda>_ _. False), rn_open_busy = (\<lambda>_. False), rn_tcp = (\<lambda>w. (w, CnOk ())),
      rn_name_ok = (\<lambda>_. True), rn_tls = (\<lambda>w _ _. (w, CnOk 7)), rn_alpn_h2 = (\<lambda>_ _. True), rn_handshake = (\<lambda>w _. (w, CnOk 8)),
      rn_h2 = (\<lambda>w _ _. (w, H2Elapsed)), rn_h1 = (\<lambda>w _ _. (w, Inr [RdTimeout])), rn_pad = (\<lambda>w. (w, []))\<rparr>"

definition demo_codec :: relay_codec where
  "demo_codec = \<lparr>rc_lib = sample_lib [] [], rc_b64 = str_of_bytes, rc_json = (\<lambda>_. [123, 125])\<rparr>"

definition demo_cfg :: fronter_cfg where
  "demo_cfg =
     \<lparr>fc_http_host = ''script.google.com'', fc_auth_key = ''k'', fc_lang = ''en'', fc_accept_lang = ''en-US,en;q=0.9'', fc_disable_padding = True,
      fc_allow_brotli_zstd = False, fc_parallel_relay = 1, fc_exit_node_enabled = False, fc_exit_node_full = False, fc_exit_node_hosts = [],
      fc_exit_node_url = [], fc_exit_node_psk = [], fc_normalize_x_graphql = False, fc_sabr_strip = False\<rparr>"

definition demo_fronter :: "bool \<Rightarrow> (nat, unit) fronter" where
  "demo_fronter h1_only =
     \<lparr>fr_world = (), fr_scripts = demo_pool, fr_sni_hosts = [''www.google.com''], fr_sni_idx = 0, fr_h2_disabled = h1_only, fr_h2_cell = None,
      fr_h2_open_failed_at = None, fr_h2_generation = 0, fr_h2_calls = 0, fr_h2_fallbacks = 0, fr_pool = [], fr_sent = []\<rparr>"

lemma mute_silent: "silent mute_net" "no_refusals mute_net"
  by (simp_all add: silent_def no_refusals_def mute_net_def)

lemma demo_fronter_ok: "fr_sni_hosts (demo_fronter b) \<noteq> []" "sp_script_ids (fr_scripts (demo_fronter b)) \<noteq> []" "posts (demo_fronter b) = []"
  "fr_h2_disabled (demo_fronter b) = b"
  by (simp_all add: demo_fronter_def demo_pool_def posts_def)

lemma post_unsafe: "\<not> is_method_safe_for_fanout ''POST''"
  by code_simp

theorem unsafe_posts_bounded_witness:
  "\<exists>st'. do_relay_with_retry demo_ops mute_net demo_codec demo_cfg id ''POST'' ''http://a/'' [] [1] (demo_fronter True) = Some (st', Inl FeTimeout)
     \<and> length (posts st') \<le> 2"
proof -
  obtain st' where "do_relay_with_retry demo_ops mute_net demo_codec demo_cfg id ''POST'' ''http://a/'' [] [1] (demo_fronter True) = Some (st', Inl FeTimeout)"
    using silent_retry [OF mute_silent(1) _ demo_fronter_ok(1,2) post_unsafe, of True demo_ops demo_codec demo_cfg id "''http://a/''" "[]" "[1]"]
    by (auto simp: demo_fronter_ok)
  with unsafe_posts_bounded [OF post_unsafe mute_silent(2) this] show ?thesis by (simp add: demo_fronter_ok)
qed

theorem lost_request_not_repeated_witness:
  "\<exists>st1. do_relay_with_retry demo_ops mute_net demo_codec demo_cfg id ''POST'' ''http://a/'' [] [1] (demo_fronter False) = Some (st1, Inl FeTimeout)
     \<and> length (posts st1) = 1"
proof -
  let ?st = "demo_fronter False"
  obtain sp sid where sel: "next_script_id demo_ops (rn_now mute_net (fr_world ?st)) (fr_scripts ?st) = (sp, Some sid)"
    using next_script_id_total [OF demo_fronter_ok(2)] by blast
  have b: "build_payload_json mute_net demo_codec demo_cfg ''POST'' ''http://a/'' [] [1] (?st\<lparr>fr_scripts := sp\<rparr>) = (?st\<lparr>fr_scripts := sp\<rparr>, [123, 125])"
    by (simp add: build_payload_json_def demo_cfg_def demo_codec_def Let_def)
  have "\<exists>st1. h2_relay_request mute_net (rc_lib demo_codec) demo_cfg (exec_path_for demo_cfg sid) [123, 125] (?st\<lparr>fr_scripts := sp\<rparr>)
      = Some (st1, Inl (FeTimeout, SentMaybe))"
    by (simp add: h2_relay_request_def ensure_h2_def demo_fronter_def mute_net_def open_h2_def next_sni_def h2_handshake_post_tls_def
        store_h2_def run_h2_relay_with_send_def h2_round_trip_def Let_def)
  then obtain st1 where h: "h2_relay_request mute_net (rc_lib demo_codec) demo_cfg (exec_path_for demo_cfg sid) [123, 125] (?st\<lparr>fr_scripts := sp\<rparr>)
      = Some (st1, Inl (FeTimeout, SentMaybe))" by blast
  from lost_request_not_repeated [OF post_unsafe sel b h, of id] show ?thesis by (auto simp: demo_fronter_ok)
qed

theorem h1_loss_repeats_witness:
  "\<exists>st'. do_relay_with_retry demo_ops mute_net demo_codec demo_cfg id ''POST'' ''http://a/'' [] [1] (demo_fronter True) = Some (st', Inl FeTimeout)
     \<and> length (posts st') = 2"
  using h1_loss_repeats [OF mute_silent(1) _ demo_fronter_ok(1,2) post_unsafe, of True demo_ops demo_codec demo_cfg id "''http://a/''" "[]" "[1]"]
  by (simp add: demo_fronter_ok numeral_2_eq_2)

end
