(* ===== verification/Fronter_Batch.thy ===== *)
theory Fronter_Batch
  imports Relay_Core Tunnel_Mux
begin

text \<open>
  The full-mode requests of the domain fronter (\<^verbatim>\<open>src/src/domain_fronter.rs\<close>): single tunnel operations and
  batches, posted over the pool of HTTP/1.1 connections, their payloads, the search for the JSON
  object in an answer, the compressed results, and what the fronter learns about the node behind a deployment. Serialisation
  follows \<^verbatim>\<open>serde_json\<close>, of which the text format is the function \<open>rc_json\<close>. Shown: the results of a node's answer
  arrive as they were, compressed or not, and the client then knows that the node can compress and repeat; results that do
  not decode are an answer without results, so every request of the batch fails.
\<close>

section \<open>Data\<close>

record batch_tunnel_response =
  btr_r :: "tunnel_response list"
  btr_e :: "string option"
  btr_zr :: "string option"
  btr_zc :: "byte option"

record batch_lib =
  bl_codec :: relay_codec
  bl_tunnel :: "string \<Rightarrow> (tunnel_response, string) result"
  bl_batch :: "string \<Rightarrow> (batch_tunnel_response, string) result"
  bl_results :: "bytes \<Rightarrow> (tunnel_response list, string) result"
  bl_zstd_encode :: "bytes \<Rightarrow> bytes option"
  bl_zstd_decode :: "bytes \<Rightarrow> (bytes, string) result"

text \<open>What the fronter knows about the nodes: the capabilities of each deployment, and whether batches are compressed.\<close>

record node_caps =
  nc_caps :: "(string \<times> byte) list"
  nc_zstd_enabled :: bool

type_synonym ('f, 's) batch_state = "('f, 's) fronter \<times> node_caps"

definition deployment_supports_batch_replay :: "node_caps \<Rightarrow> string \<Rightarrow> bool" where
  "deployment_supports_batch_replay nc sid = (case map_of (nc_caps nc) sid of None \<Rightarrow> False | Some caps \<Rightarrow> caps AND 2 \<noteq> 0)"

section \<open>Payloads\<close>

definition opt_field :: "string \<Rightarrow> jvalue option \<Rightarrow> (string \<times> jvalue) list" where
  "opt_field k v = (case v of None \<Rightarrow> [] | Some x \<Rightarrow> [(k, x)])"

text \<open>The fields of an operation in the order of the struct; \<^verbatim>\<open>to_value\<close> sorts them.\<close>

definition op_fields :: "batch_op \<Rightarrow> (string \<times> jvalue) list" where
  "op_fields op =
     (''op'', JString (bo_op op)) # opt_field ''sid'' (map_option JString (bo_sid op)) @ opt_field ''host'' (map_option JString (bo_host op))
     @ opt_field ''port'' (map_option (JNumber \<circ> dec_show \<circ> unat) (bo_port op)) @ opt_field ''d'' (map_option JString (bo_d op))
     @ opt_field ''seq'' (map_option (JNumber \<circ> dec_show \<circ> unat) (bo_seq op)) @ opt_field ''wseq'' (map_option (JNumber \<circ> dec_show \<circ> unat) (bo_wseq op))"

definition ops_value :: "batch_op list \<Rightarrow> jvalue" where
  "ops_value ops = JArray (map (\<lambda>op. JObject (fold (\<lambda>(k, v). jinsert k v) (op_fields op) [])) ops)"

definition maybe_pad :: "'s relay_net \<Rightarrow> relay_codec \<Rightarrow> fronter_cfg \<Rightarrow> (string \<times> jvalue) list \<Rightarrow> ('f, 's) fronter \<Rightarrow> ('f, 's) fronter \<times> bytes" where
  "maybe_pad net cd cfg m st =
     (case (if fc_disable_padding cfg then (st, m) else add_random_pad net cd st m) of (st', m') \<Rightarrow> (st', rc_json cd (JObject m')))"

definition build_tunnel_payload :: "'s relay_net \<Rightarrow> relay_codec \<Rightarrow> fronter_cfg \<Rightarrow> string \<Rightarrow> string option \<Rightarrow> u16 option \<Rightarrow> string option \<Rightarrow> string option
    \<Rightarrow> ('f, 's) fronter \<Rightarrow> ('f, 's) fronter \<times> bytes" where
  "build_tunnel_payload net cd cfg op host port sid data st =
     maybe_pad net cd cfg
       (fold (\<lambda>(k, v). jinsert k v)
          ((''k'', JString (fc_auth_key cfg)) # (''t'', JString op) # opt_field ''h'' (map_option JString host)
           @ opt_field ''p'' (map_option (JNumber \<circ> dec_show \<circ> unat) port) @ opt_field ''sid'' (map_option JString sid)
           @ opt_field ''d'' (map_option JString data)) []) st"

definition build_batch_payload :: "'s relay_net \<Rightarrow> batch_lib \<Rightarrow> fronter_cfg \<Rightarrow> batch_op list \<Rightarrow> ('f, 's) batch_state \<Rightarrow> ('f, 's) fronter \<times> bytes" where
  "build_batch_payload net B cfg ops = (\<lambda>(st, nc).
     let cd = bl_codec B;
         plain = (''ops'', ops_value ops);
         field = (if nc_zstd_enabled nc then
                    (case bl_zstd_encode B (rc_json cd (JArray (map (JObject \<circ> op_fields) ops))) of
                       Some compressed \<Rightarrow> (''zops'', JString (rc_b64 cd compressed))
                     | None \<Rightarrow> plain)
                  else plain)
     in maybe_pad net cd cfg
          (fold (\<lambda>(k, v). jinsert k v)
             [(''k'', JString (fc_auth_key cfg)), (''t'', JString ''batch''), field, (''zc'', JNumber ''3'')] []) st)"

section \<open>Answers\<close>

text \<open>The text of the JSON object in an answer; \<open>kind\<close> is the word in the error texts. No value is a panic of
  the slice.\<close>

definition json_text :: "string \<Rightarrow> string \<Rightarrow> (string, fronter_error) result option" where
  "json_text kind text =
     (if text \<noteq> [] \<and> hd text = CHR ''{'' then Some (Inr text)
      else if CHR ''{'' \<notin> set text then Option.bind (head_text text) (\<lambda>h. bad (''no json in '' @ kind @ '' response: '' @ h))
      else if CHR ''}'' \<notin> set text then bad (''no json end in '' @ kind @ '' response'')
      else (case brace_span text of
              None \<Rightarrow> bad (''no valid json object in: '' @ take_chars 200 text)
            | Some span \<Rightarrow> Some (Inr span)))"

definition answer_text :: "'s relay_net \<Rightarrow> string \<Rightarrow> string \<Rightarrow> string \<Rightarrow> nat \<Rightarrow> bytes \<Rightarrow> ('f, 's) fronter \<Rightarrow> (('f, 's) fronter, string) step" where
  "answer_text net ctx kind sid status resp_body st =
     (if status \<noteq> 200 then
        (let txt = body_text resp_body in
         Some (if should_blacklist status txt then blacklist net sid st else st,
               Inl (FeRelay (ctx @ '' HTTP '' @ dec_show status @ '': '' @ txt))))
      else if \<not> utf8_valid resp_body then Some (st, Inl (FeBadResponse (''non-utf8 '' @ kind @ '' response'')))
      else map_option (Pair st) (json_text kind (trim (str_of_bytes resp_body))))"

definition finalize_tunnel_response :: "'s relay_net \<Rightarrow> batch_lib \<Rightarrow> string \<Rightarrow> nat \<Rightarrow> bytes \<Rightarrow> ('f, 's) fronter \<Rightarrow> (('f, 's) fronter, tunnel_response) step" where
  "finalize_tunnel_response net B sid status resp_body st =
     and_then (answer_text net ''tunnel'' ''tunnel'' sid status resp_body st)
       (\<lambda>st' s. Some (st', map_sum FeJson id (bl_tunnel B s)))"

text \<open>Compressed results replace the plain ones if they decode; otherwise that is only logged.\<close>

definition unpack_results :: "batch_lib \<Rightarrow> batch_tunnel_response \<Rightarrow> batch_tunnel_response" where
  "unpack_results B resp =
     (case btr_zr resp of
        None \<Rightarrow> resp
      | Some z \<Rightarrow>
          (let resp' = resp\<lparr>btr_zr := None\<rparr> in
           case rl_b64 (rc_lib (bl_codec B)) z of
             Inl _ \<Rightarrow> resp'
           | Inr compressed \<Rightarrow>
               (case bl_zstd_decode B compressed of
                  Inl _ \<Rightarrow> resp'
                | Inr plain \<Rightarrow> (case bl_results B plain of Inl _ \<Rightarrow> resp' | Inr r \<Rightarrow> resp'\<lparr>btr_r := r\<rparr>))))"

definition learn_caps :: "string \<Rightarrow> batch_tunnel_response \<Rightarrow> node_caps \<Rightarrow> node_caps" where
  "learn_caps sid resp nc =
     (case btr_zc resp of
        None \<Rightarrow> nc
      | Some caps \<Rightarrow>
          nc\<lparr>nc_caps := AList.update sid caps (nc_caps nc), nc_zstd_enabled := (nc_zstd_enabled nc \<or> caps AND 1 \<noteq> 0)\<rparr>)"

definition finalize_batch_response :: "'s relay_net \<Rightarrow> batch_lib \<Rightarrow> string \<Rightarrow> nat \<Rightarrow> bytes \<Rightarrow> ('f, 's) batch_state
    \<Rightarrow> (('f, 's) batch_state, batch_tunnel_response) step" where
  "finalize_batch_response net B sid status resp_body = (\<lambda>(st, nc).
     case answer_text net ''batch tunnel'' ''batch'' sid status resp_body st of
       None \<Rightarrow> None
     | Some (st', Inl e) \<Rightarrow> Some ((st', nc), Inl e)
     | Some (st', Inr s) \<Rightarrow>
         (case bl_batch B s of
            Inl e \<Rightarrow> Some ((st', nc), Inl (FeJson e))
          | Inr resp \<Rightarrow> Some ((st', learn_caps sid resp nc), Inr (unpack_results B resp))))"

section \<open>Requests\<close>

definition tunnel_request_once :: "('f :: linorder) score_ops \<Rightarrow> 's relay_net \<Rightarrow> batch_lib \<Rightarrow> fronter_cfg \<Rightarrow> string \<Rightarrow> string option \<Rightarrow> u16 option
    \<Rightarrow> string option \<Rightarrow> string option \<Rightarrow> ('f, 's) fronter \<Rightarrow> (('f, 's) fronter, tunnel_response) step" where
  "tunnel_request_once ops net B cfg op host port sid data st =
     (case build_tunnel_payload net (bl_codec B) cfg op host port sid data st of (st0, payload) \<Rightarrow>
        (case next_script_id ops (rn_now net (fr_world st0)) (fr_scripts st0) of
           (sp, None) \<Rightarrow> None
         | (sp, Some script) \<Rightarrow>
             and_then (acquire net (st0\<lparr>fr_scripts := sp\<rparr>)) (\<lambda>st1 entry.
             and_then (h1_post net (rc_lib (bl_codec B)) cfg (pe_stream entry) (exec_path_for cfg script) payload st1) (\<lambda>st2 (status, _, body).
             and_then (finalize_tunnel_response net B script status body st2) (\<lambda>st3 resp.
             Some (release net entry st3, Inr resp))))))"

definition tunnel_batch_request_to :: "('f :: linorder) score_ops \<Rightarrow> 's relay_net \<Rightarrow> batch_lib \<Rightarrow> fronter_cfg \<Rightarrow> string \<Rightarrow> batch_op list
    \<Rightarrow> ('f, 's) batch_state \<Rightarrow> (('f, 's) batch_state, batch_tunnel_response) step" where
  "tunnel_batch_request_to ops net B cfg script bops = (\<lambda>(st, nc).
     case build_batch_payload net B cfg bops (st, nc) of (st0, payload) \<Rightarrow>
       (case and_then (acquire net st0) (\<lambda>st1 entry.
             and_then (h1_post net (rc_lib (bl_codec B)) cfg (pe_stream entry) (exec_path_for cfg script) payload st1)
               (\<lambda>st2 r. Some (st2, Inr (entry, r)))) of
          None \<Rightarrow> None
        | Some (st2, Inl e) \<Rightarrow> Some ((st2, nc), Inl e)
        | Some (st2, Inr (entry, status, _, body)) \<Rightarrow>
            and_then (finalize_batch_response net B script status body (st2, nc)) (\<lambda>(st3, nc') resp.
              let st4 = release net entry st3;
                  now = rn_now net (fr_world st4)
              in Some ((st4\<lparr>fr_scripts := record_batch_latency ops now script (now - rn_now net (fr_world st)) (fr_scripts st4)\<rparr>, nc'),
                       Inr resp))))"

definition tunnel_batch_request :: "('f :: linorder) score_ops \<Rightarrow> 's relay_net \<Rightarrow> batch_lib \<Rightarrow> fronter_cfg \<Rightarrow> batch_op list
    \<Rightarrow> ('f, 's) batch_state \<Rightarrow> (('f, 's) batch_state, batch_tunnel_response) step" where
  "tunnel_batch_request ops net B cfg bops = (\<lambda>(st, nc).
     case next_script_id ops (rn_now net (fr_world st)) (fr_scripts st) of
       (sp, None) \<Rightarrow> None
     | (sp, Some script) \<Rightarrow> tunnel_batch_request_to ops net B cfg script bops (st\<lparr>fr_scripts := sp\<rparr>, nc))"

text \<open>The result of a batch for the multiplexer: an answer's own error text becomes the error of the batch there.\<close>

definition batch_post_of :: "(batch_tunnel_response, fronter_error) result \<Rightarrow> batch_post" where
  "batch_post_of r = (case r of Inl e \<Rightarrow> BpErr e | Inr resp \<Rightarrow> BpOk (btr_r resp))"

section \<open>The node's answer arrives\<close>

text \<open>What the node's text of an answer is to the client: valid UTF-8 that begins with the object, read back field by
  field.\<close>

fun wire_of :: "batch_json \<Rightarrow> batch_tunnel_response" where
  "wire_of (JResults rs) = \<lparr>btr_r = rs, btr_e = None, btr_zr = None, btr_zc = None\<rparr>"
| "wire_of (JZr z c) = \<lparr>btr_r = [], btr_e = None, btr_zr = Some z, btr_zc = Some c\<rparr>"
| "wire_of (JResultsCaps rs c) = \<lparr>btr_r = rs, btr_e = None, btr_zr = None, btr_zc = Some c\<rparr>"

definition reads_json :: "batch_lib \<Rightarrow> node_lib \<Rightarrow> batch_json \<Rightarrow> bool" where
  "reads_json B L j \<longleftrightarrow>
     (let t = str_of_bytes (nl_json L j) in
      utf8_valid (nl_json L j) \<and> trim t = t \<and> t \<noteq> [] \<and> hd t = CHR ''{'' \<and> bl_batch B t = Inr (wire_of j))"

definition reads_compressed :: "batch_lib \<Rightarrow> node_lib \<Rightarrow> tunnel_response list \<Rightarrow> bool" where
  "reads_compressed B L rs \<longleftrightarrow>
     (\<forall>z. nl_zstd_encode L (nl_results_json L rs) = Some z \<longrightarrow>
        rl_b64 (rc_lib (bl_codec B)) (nl_b64_encode L z) = Inr z \<and> bl_zstd_decode B z = Inr (nl_results_json L rs)
        \<and> bl_results B (nl_results_json L rs) = Inr rs
        \<and> reads_json B L (JZr (nl_b64_encode L z) SERVER_CAPABILITIES))"

lemma finalize_json:
  assumes "reads_json B L j"
  shows "finalize_batch_response net B sid 200 (nl_json L j) (st, nc)
    = Some ((st, learn_caps sid (wire_of j) nc), Inr (unpack_results B (wire_of j)))"
  using assms by (simp add: reads_json_def finalize_batch_response_def answer_text_def json_text_def Let_def)

lemma server_caps: "SERVER_CAPABILITIES AND 1 \<noteq> (0 :: byte)" "SERVER_CAPABILITIES AND 2 \<noteq> (0 :: byte)"
  by (simp_all add: SERVER_CAPABILITIES_def CAP_ZSTD_def CAP_SAFE_BATCH_REPLAY_def)

text \<open>C18: what the node answers to a batch is what the client hands out: with a client that reads the node's JSON,
  base64 and zstd, the results arrive unchanged and in order whether or not the node compressed them, and from then on the
  client knows that the deployment repeats batches safely and compresses its own.\<close>

theorem batch_answer_arrives:
  assumes "reads_json B L (JResultsCaps rs SERVER_CAPABILITIES)" and "reads_compressed B L rs"
  shows "\<exists>nc' resp. finalize_batch_response net B sid 200 (batch_body L client_zstd rs) (st, nc) = Some ((st, nc'), Inr resp)
    \<and> batch_post_of (Inr resp) = BpOk rs \<and> deployment_supports_batch_replay nc' sid \<and> nc_zstd_enabled nc'"
proof -
  have known: "deployment_supports_batch_replay (learn_caps sid resp nc) sid \<and> nc_zstd_enabled (learn_caps sid resp nc)"
    if "btr_zc resp = Some SERVER_CAPABILITIES" for resp
    using that server_caps by (simp add: deployment_supports_batch_replay_def learn_caps_def update_conv')
  show ?thesis
  proof (cases "if client_zstd then nl_zstd_encode L (nl_results_json L rs) else None")
    case None
    then have "batch_body L client_zstd rs = nl_json L (JResultsCaps rs SERVER_CAPABILITIES)"
      by (auto simp: batch_body_def split: option.split if_splits)
    then show ?thesis using finalize_json [OF assms(1), of net sid st nc] known
      by (simp add: unpack_results_def batch_post_of_def)
  next
    case (Some z)
    then have z: "nl_zstd_encode L (nl_results_json L rs) = Some z" "client_zstd" by (auto split: if_splits)
    then have body: "batch_body L client_zstd rs = nl_json L (JZr (nl_b64_encode L z) SERVER_CAPABILITIES)" by (simp add: batch_body_def)
    have r: "rl_b64 (rc_lib (bl_codec B)) (nl_b64_encode L z) = Inr z" "bl_zstd_decode B z = Inr (nl_results_json L rs)"
      "bl_results B (nl_results_json L rs) = Inr rs" "reads_json B L (JZr (nl_b64_encode L z) SERVER_CAPABILITIES)"
      using assms(2) z(1) by (auto simp: reads_compressed_def)
    show ?thesis using finalize_json [OF r(4), of net sid st nc] known r(1-3) by (simp add: body unpack_results_def batch_post_of_def)
  qed
qed

text \<open>Compressed results that do not decode: the answer counts as a success without results, and every request of
  the batch that expects a reply is told that its response is missing.\<close>

lemma undecodable_results_lost:
  assumes "utf8_valid body" "trim (str_of_bytes body) = str_of_bytes body" "str_of_bytes body \<noteq> []" "hd (str_of_bytes body) = CHR ''{''"
    and "bl_batch B (str_of_bytes body) = Inr \<lparr>btr_r = [], btr_e = None, btr_zr = Some z, btr_zc = zc\<rparr>"
    and "rl_b64 (rc_lib (bl_codec B)) z = Inr c" "bl_zstd_decode B c = Inl err"
  shows "\<exists>nc' resp. finalize_batch_response net B sid 200 body (st, nc) = Some ((st, nc'), Inr resp)
    \<and> distribute sid replies (batch_post_of (Inr resp))
       = map (\<lambda>(idx, reply). (reply, Inl (''missing response in batch from script '' @ take 8 sid))) replies"
  using assms
  by (simp add: finalize_batch_response_def answer_text_def json_text_def Let_def unpack_results_def batch_post_of_def distribute_def)

text \<open>What a batch that has ended does to the state of the deployments and to the day's counters, with no other record in between.\<close>

fun take_note :: "nat \<Rightarrow> nat \<Rightarrow> batch_note \<Rightarrow> 'f script_pool \<times> day_counters \<Rightarrow> 'f script_pool \<times> day_counters" where
  "take_note now clock (NoteSuccess script n) (sp, c) = (record_batch_success script sp, record_today clock n c)"
| "take_note now clock (NoteStrike script) (sp, c) = (record_timeout_strike now script sp, c)"
| "take_note now clock NoteNothing (sp, c) = (sp, c)"

text \<open>C19: an answer that carries only an error, as the script gives when the node is down or the key is wrong,
  counts as a success: the batch is posted once, every caller is told that a response is missing, the strikes of the deployment are cleared,
  and a call is added to the day's count.\<close>

theorem answer_error_ignored:
  assumes "utf8_valid body" "trim (str_of_bytes body) = str_of_bytes body" "str_of_bytes body \<noteq> []" "hd (str_of_bytes body) = CHR ''{''"
    and "bl_batch B (str_of_bytes body) = Inr \<lparr>btr_r = [], btr_e = Some msg, btr_zr = None, btr_zc = None\<rparr>"
  shows "\<exists>resp. finalize_batch_response net B sid 200 body (st, nc) = Some ((st, nc), Inr resp)
    \<and> (case fire_batch enc sid can (\<lambda>_. batch_post_of (Inr resp)) post2 (ops, replies) of
         (results, posted, note) \<Rightarrow>
           results = map (\<lambda>(idx, reply). (reply, Inl (''missing response in batch from script '' @ take 8 sid))) replies
           \<and> length posted = 1
           \<and> map_of (sp_timeouts (fst (take_note now clock note (sp, c)))) sid = None
           \<and> dc_calls (snd (take_note now clock note (sp, c)))
               = (if dc_key c = current_pt_day_key clock then dc_calls c + 1 else 1))"
  using assms
  by (simp add: finalize_batch_response_def answer_text_def json_text_def learn_caps_def unpack_results_def batch_post_of_def
      distribute_def fire_batch_def post_batch_def Let_def record_batch_success_def delete_conv' record_today_def add_call_def
      add_bytes_def roll_over_def)

section \<open>Witness\<close>

definition toy_batch_lib :: batch_lib where
  "toy_batch_lib =
     \<lparr>bl_codec = \<lparr>rc_lib = sample_lib [] [9], rc_b64 = str_of_bytes, rc_json = (\<lambda>_. [])\<rparr>, bl_tunnel = (\<lambda>_. Inl ''no''),
      bl_batch = (\<lambda>s. Inr (if s = ''{z}'' then wire_of (JZr ''CQ=='' SERVER_CAPABILITIES)
                            else wire_of (JResultsCaps [eof_response ''s'' None] SERVER_CAPABILITIES))),
      bl_results = (\<lambda>_. Inr [eof_response ''s'' None]), bl_zstd_encode = Some, bl_zstd_decode = (\<lambda>_. Inr [91, 93])\<rparr>"

definition toy_node_lib :: node_lib where
  "toy_node_lib = plain_lib\<lparr>nl_results_json := (\<lambda>_. [91, 93]), nl_zstd_encode := (\<lambda>_. Some [9]), nl_b64_encode := (\<lambda>_. ''CQ==''),
     nl_json := (\<lambda>j. case j of JZr _ _ \<Rightarrow> [123, 122, 125] | _ \<Rightarrow> [123, 125])\<rparr>"

lemma toy_text: "utf8_valid [123, 122, 125]" "utf8_valid [123, 125]" "str_of_bytes [123, 122, 125] = ''{z}''" "str_of_bytes [123, 125] = ''{}''"
  "trim ''{z}'' = ''{z}''" "trim ''{}'' = ''{}''"
  by code_simp+

theorem batch_answer_arrives_witness:
  "\<exists>nc' resp. finalize_batch_response mute_net toy_batch_lib ''a'' 200 (batch_body toy_node_lib True [eof_response ''s'' None])
      (demo_fronter True, \<lparr>nc_caps = [], nc_zstd_enabled = False\<rparr>) = Some ((demo_fronter True, nc'), Inr resp)
    \<and> batch_post_of (Inr resp) = BpOk [eof_response ''s'' None] \<and> deployment_supports_batch_replay nc' ''a'' \<and> nc_zstd_enabled nc'"
  by (rule batch_answer_arrives)
    (simp_all add: reads_json_def reads_compressed_def toy_batch_lib_def toy_node_lib_def toy_text sample_lib_def)


definition failing_batch_lib :: batch_lib where
  "failing_batch_lib = toy_batch_lib\<lparr>bl_batch := (\<lambda>_. Inr \<lparr>btr_r = [], btr_e = Some ''tunnel batch HTTP 502'', btr_zr = None, btr_zc = None\<rparr>)\<rparr>"

theorem answer_error_ignored_witness:
  "\<exists>resp. finalize_batch_response mute_net failing_batch_lib ''a'' 200 [123, 125] (demo_fronter True, \<lparr>nc_caps = [], nc_zstd_enabled = False\<rparr>)
      = Some ((demo_fronter True, \<lparr>nc_caps = [], nc_zstd_enabled = False\<rparr>), Inr resp)
    \<and> fst (fire_batch (\<lambda>_. []) ''a'' True (\<lambda>_. batch_post_of (Inr resp)) (\<lambda>_. BpElapsed) ([], [(0, 4)]))
        = [(4, Inl ''missing response in batch from script a'')]"
proof -
  have "bl_batch failing_batch_lib (str_of_bytes [123, 125]) = Inr \<lparr>btr_r = [], btr_e = Some ''tunnel batch HTTP 502'', btr_zr = None, btr_zc = None\<rparr>"
    by (simp add: failing_batch_lib_def)
  from answer_error_ignored [OF _ _ _ _ this, where net = mute_net and sid = "''a''" and st = "demo_fronter True"
      and nc = "\<lparr>nc_caps = [], nc_zstd_enabled = False\<rparr>" and enc = "\<lambda>_. []" and can = True and ?post2.0 = "\<lambda>_. BpElapsed"
      and ops = "[]" and replies = "[(0, 4)]" and now = 0 and clock = 0 and sp = demo_pool and c = "new_counters 0"]
  show ?thesis by (auto simp: toy_text case_prod_beta)
qed

end
