(* ===== verification/Host_Match.thy ===== *)
theory Host_Match
  imports Fronter_Url "HOL-Library.Sublist"
begin

text \<open>
  How hosts and URLs are compared with lists of domains, in the proxy server (\<^verbatim>\<open>src/src/proxy_server.rs\<close>) and in
  direct mode (\<^verbatim>\<open>src/src/direct_mode.rs\<close>): suffixes anchored at a dot, overrides of single hosts by the
  closest parent, and the patterns of URLs that must be relayed. Shown: anchored suffixes are suffixes of the list of labels; an override is
  that of the most specific domain; a host is compared without regard to case and final dots.
\<close>

section \<open>Hosts and domains\<close>

definition canon_host :: "string \<Rightarrow> string" where
  "canon_host host = trim_end_matches (CHR ''.'') (to_ascii_lowercase host)"

definition is_dot_anchored_match :: "string \<Rightarrow> string \<Rightarrow> bool" where
  "is_dot_anchored_match host entry \<longleftrightarrow>
     host = entry
     \<or> (length entry < length host \<and> ends_with host entry \<and> host ! (length host - length entry - 1) = CHR ''.'')"

definition host_in_force_mitm_list :: "string \<Rightarrow> string list \<Rightarrow> bool" where
  "host_in_force_mitm_list host list = (if list = [] then False else list_ex (in_domain (canon_host host)) list)"

definition strip_leading_dot :: "string \<Rightarrow> string" where
  "strip_leading_dot e = (case strip_prefix ''.'' e of Some r \<Rightarrow> r | None \<Rightarrow> e)"

definition host_matches_doh_entry :: "string \<Rightarrow> string \<Rightarrow> bool" where
  "host_matches_doh_entry h entry =
     (let e = strip_leading_dot (to_ascii_lowercase (trim_end_matches (CHR ''.'') (trim entry))) in
      if e = [] then False else in_domain h e)"

definition matches_doh_host :: "string list \<Rightarrow> string \<Rightarrow> string list \<Rightarrow> bool" where
  "matches_doh_host defaults host extra =
     (let h = canon_host host in
      if h = [] then False
      else if list_ex (host_matches_doh_entry h) defaults then True
      else list_ex (host_matches_doh_entry h) extra)"

definition matches_passthrough :: "string \<Rightarrow> string list \<Rightarrow> bool" where
  "matches_passthrough host list =
     (if list = [] then False
      else
        (let h = canon_host host in
         list_ex (\<lambda>entry.
           let e = to_ascii_lowercase (trim_end_matches (CHR ''.'') (trim entry)) in
           if e = [] then False
           else (case strip_prefix ''.'' e of Some suffix' \<Rightarrow> in_domain h suffix' | None \<Rightarrow> h = e)) list))"

fun join_dots :: "string list \<Rightarrow> string" where
  "join_dots [] = []"
| "join_dots [l] = l"
| "join_dots (l # ls) = l @ CHR ''.'' # join_dots ls"

definition hosts_override :: "(string \<rightharpoonup> string) \<Rightarrow> string \<Rightarrow> string option" where
  "hosts_override hosts host =
     (let h = canon_host host; parts = split_all (CHR ''.'') h in
      case hosts h of
        Some ip \<Rightarrow> Some ip
      | None \<Rightarrow> (case find (\<lambda>i. hosts (join_dots (drop i parts)) \<noteq> None) [1..<length parts] of
                   Some i \<Rightarrow> hosts (join_dots (drop i parts))
                 | None \<Rightarrow> None))"

section \<open>Domain lists of direct mode\<close>

definition normalize_domain_entry :: "string \<Rightarrow> string" where
  "normalize_domain_entry s = dropWhile (\<lambda>c. c = CHR ''.'') (trim_end_matches (CHR ''.'') (to_ascii_lowercase (trim s)))"

definition strip_port :: "string \<Rightarrow> string" where
  "strip_port host =
     (case strip_prefix ''['' host of
        Some rest \<Rightarrow> (case split_once (CHR '']'') rest of Some (h, _) \<Rightarrow> h | None \<Rightarrow> host)
      | None \<Rightarrow>
          if length (filter (\<lambda>c. c = CHR '':'') host) = 1 then
            (case rsplit_once (CHR '':'') host of
               Some (name, port) \<Rightarrow> if name \<noteq> [] \<and> list_all is_digit port then name else host
             | None \<Rightarrow> host)
          else host)"

definition domain_list_matches :: "string \<Rightarrow> string list \<Rightarrow> bool" where
  "domain_list_matches host list =
     list_ex (\<lambda>entry. entry \<noteq> [] \<and>
       (host = entry
        \<or> (length entry + 1 < length host \<and> ends_with host entry \<and> host ! (length host - length entry - 1) = CHR ''.''))) list"

definition is_google_domain :: "string \<Rightarrow> string list \<Rightarrow> string list \<Rightarrow> bool" where
  "is_google_domain host google sanctioned =
     (let h = normalize_domain_entry (strip_port host) in
      if h = [] then False else if domain_list_matches h sanctioned then False else domain_list_matches h google)"

section \<open>Patterns of relayed URLs\<close>

definition split_path :: "string \<Rightarrow> string \<times> string" where
  "split_path s = (case split_once (CHR ''/'') s of Some (h, p) \<Rightarrow> (h, CHR ''/'' # p) | None \<Rightarrow> (s, ''/''))"

definition strip_scheme :: "string \<Rightarrow> string" where
  "strip_scheme s =
     (case strip_prefix ''https://'' s of
        Some r \<Rightarrow> r
      | None \<Rightarrow> (case strip_prefix ''http://'' s of Some r \<Rightarrow> r | None \<Rightarrow> s))"

definition url_host :: "string \<Rightarrow> string" where
  "url_host url = trim_end_matches (CHR ''.'') (hd (split_all (CHR '':'') (fst (split_path (strip_scheme (to_ascii_lowercase url))))))"

definition url_matches_relay_pattern :: "string \<Rightarrow> string list \<Rightarrow> bool" where
  "url_matches_relay_pattern url patterns =
     (if patterns = [] then False
      else
        (let url_path = snd (split_path (strip_scheme (to_ascii_lowercase url))) in
         list_ex (\<lambda>p. case split_path p of (pat_host, pat_path) \<Rightarrow>
             in_domain (url_host url) pat_host \<and> starts_with_str url_path pat_path) patterns))"

definition normalize_pattern :: "string \<Rightarrow> string" where
  "normalize_pattern raw =
     (let no_scheme = strip_scheme (to_ascii_lowercase (trim raw)) in
      case split_once (CHR ''/'') no_scheme of
        Some (host, rest) \<Rightarrow> trim_end_matches (CHR ''.'') host @ CHR ''/'' # rest
      | None \<Rightarrow> trim_end_matches (CHR ''.'') no_scheme)"

text \<open>The validation of a pattern in \<^verbatim>\<open>src/src/config.rs\<close>; the error texts are left out.\<close>

definition is_ascii_alphanumeric :: "char \<Rightarrow> bool" where
  "is_ascii_alphanumeric c \<longleftrightarrow>
     is_digit c \<or> (of_char c :: nat) \<in> {65..90} \<or> (of_char c :: nat) \<in> {97..122}"

definition valid_label :: "string \<Rightarrow> bool" where
  "valid_label l \<longleftrightarrow>
     l \<noteq> [] \<and> length l \<le> 63 \<and> hd l \<noteq> CHR ''-'' \<and> last l \<noteq> CHR ''-''
     \<and> list_all (\<lambda>c. is_ascii_alphanumeric c \<or> c = CHR ''-'') l"

definition validate_relay_url_pattern :: "string \<Rightarrow> bool" where
  "validate_relay_url_pattern p =
     (let trimmed = trim p in
      if trimmed = [] then False
      else
        (let no_scheme = strip_scheme (to_ascii_lowercase trimmed) in
         if no_scheme = [] then False
         else
           (let host = trim_end_matches (CHR ''.'') (fst (split_path no_scheme)) in
            if host = [] then False
            else if 253 < length host then False
            else list_all valid_label (split_all (CHR ''.'') host))))"

section \<open>Labels\<close>

lemma split_all_app: "split_all c (a @ c # b) = split_all c a @ split_all c b"
  by (induction a) (auto split: list.split)

lemma join_dots_Cons: "ls \<noteq> [] \<Longrightarrow> join_dots (l # ls) = l @ CHR ''.'' # join_dots ls"
  by (cases ls) auto

lemma join_dots_app: "ls \<noteq> [] \<Longrightarrow> ms \<noteq> [] \<Longrightarrow> join_dots (ls @ ms) = join_dots ls @ CHR ''.'' # join_dots ms"
proof (induction ls)
  case (Cons l ls)
  then show ?case by (cases "ls = []") (auto simp: join_dots_Cons)
qed simp

lemma join_dots_first: "join_dots ((x # p) # ps) = x # join_dots (p # ps)"
  by (cases ps) auto

lemma join_split [simp]: "join_dots (split_all (CHR ''.'') s) = s"
proof (induction s)
  case (Cons x xs)
  show ?case
  proof (cases "x = CHR ''.''")
    case True
    then show ?thesis using Cons by (simp add: join_dots_Cons)
  next
    case False
    then show ?thesis using Cons join_dots_first by (auto split: list.split simp: neq_Nil_conv)
  qed
qed simp

lemma ends_with_iff: "ends_with s t \<longleftrightarrow> (\<exists>a. s = a @ t)"
proof
  assume "ends_with s t"
  then show "\<exists>a. s = a @ t" unfolding ends_with_def by (metis append_take_drop_id)
qed (auto simp: ends_with_def)

lemma in_domain_iff: "in_domain h d \<longleftrightarrow> h = d \<or> (\<exists>a. h = a @ CHR ''.'' # d)"
  by (auto simp: in_domain_def ends_with_iff)

text \<open>A host is in a domain when the domain's labels are the last ones of the host.\<close>

lemma in_domain_labels: "in_domain h d \<longleftrightarrow> suffix (split_all (CHR ''.'') d) (split_all (CHR ''.'') h)"
proof
  assume "in_domain h d"
  then show "suffix (split_all (CHR ''.'') d) (split_all (CHR ''.'') h)"
    by (auto simp: in_domain_iff split_all_app suffix_def)
next
  assume "suffix (split_all (CHR ''.'') d) (split_all (CHR ''.'') h)"
  then obtain us where us: "split_all (CHR ''.'') h = us @ split_all (CHR ''.'') d" by (auto simp: suffix_def)
  show "in_domain h d"
  proof (cases "us = []")
    case True
    then show ?thesis using us by (metis in_domain_iff append_Nil join_split)
  next
    case False
    then have "h = join_dots us @ CHR ''.'' # d"
      using us join_dots_app [OF False, of "split_all (CHR ''.'') d"] by (metis join_split split_all_not_Nil)
    then show ?thesis by (auto simp: in_domain_iff)
  qed
qed

lemma dot_before:
  assumes "length e < length h" "ends_with h e" "h ! (length h - length e - 1) = CHR ''.''"
  shows "\<exists>a. h = a @ CHR ''.'' # e"
proof -
  obtain b where b: "h = b @ e" using assms(2) by (auto simp: ends_with_iff)
  then have "b \<noteq> []" using assms(1) by auto
  then obtain a c where "b = a @ [c]" by (metis rev_exhaust)
  then show ?thesis using b assms(3) by (auto simp: nth_append)
qed

lemma dot_anchored_in_domain: "is_dot_anchored_match h d \<longleftrightarrow> in_domain h d"
  unfolding is_dot_anchored_match_def in_domain_iff
  using dot_before [of d h] by (auto simp: ends_with_iff nth_append)

text \<open>A host with a name before the dot: direct mode takes no host that begins with the dot of the entry.\<close>

lemma domain_list_in_domain:
  "h \<noteq> [] \<Longrightarrow> hd h \<noteq> CHR ''.'' \<Longrightarrow> domain_list_matches h list \<longleftrightarrow> (\<exists>d\<in>set list. d \<noteq> [] \<and> in_domain h d)"
proof -
  assume h: "h \<noteq> []" "hd h \<noteq> CHR ''.''"
  have "(h = d \<or> length d + 1 < length h \<and> ends_with h d \<and> h ! (length h - length d - 1) = CHR ''.'') \<longleftrightarrow> in_domain h d" for d
  proof -
    have "length d + 1 < length h" if "h = a @ CHR ''.'' # d" for a
      using h that by (cases a) auto
    then show ?thesis unfolding in_domain_iff using dot_before [of d h] by (fastforce simp: ends_with_iff nth_append)
  qed
  then show ?thesis by (auto simp: domain_list_matches_def list_ex_iff)
qed

section \<open>Case and final dots\<close>

lemma ascii_lower_idem [simp]: "ascii_lower (ascii_lower c) = ascii_lower c"
proof (cases "65 \<le> (of_char c :: nat) \<and> of_char c \<le> (90 :: nat)")
  case True
  then have "of_char (ascii_lower c) = (of_char c + 32 :: nat)" by (simp add: ascii_lower_def Let_def)
  then show ?thesis using True by (simp add: ascii_lower_def [of "ascii_lower c"] Let_def)
qed (auto simp: ascii_lower_def Let_def)

lemma lowercase_idem [simp]: "to_ascii_lowercase (to_ascii_lowercase s) = to_ascii_lowercase s"
  by (simp add: to_ascii_lowercase_def)

lemma trim_end_idem [simp]: "trim_end_matches c (trim_end_matches c s) = trim_end_matches c s"
  by (simp add: trim_end_matches_def)

lemma trim_end_prefix: "\<exists>t. s = trim_end_matches c s @ t"
proof -
  have "rev s = takeWhile (\<lambda>x. x = c) (rev s) @ dropWhile (\<lambda>x. x = c) (rev s)" by simp
  then have "s = rev (dropWhile (\<lambda>x. x = c) (rev s)) @ rev (takeWhile (\<lambda>x. x = c) (rev s))" by (metis rev_append rev_rev_ident)
  then show ?thesis unfolding trim_end_matches_def by blast
qed

lemma lowercase_canon [simp]: "to_ascii_lowercase (canon_host h) = canon_host h"
proof -
  have l: "ascii_lower x = x" if "x \<in> set (to_ascii_lowercase h)" for x
    using that by (auto simp: to_ascii_lowercase_def)
  obtain t where "to_ascii_lowercase h = canon_host h @ t" using trim_end_prefix unfolding canon_host_def by blast
  then have "set (canon_host h) \<subseteq> set (to_ascii_lowercase h)" by (metis set_append sup_ge1)
  then have "ascii_lower x = x" if "x \<in> set (canon_host h)" for x using l that by blast
  then show ?thesis unfolding to_ascii_lowercase_def by (rule map_idI)
qed

lemma canon_idem [simp]: "canon_host (canon_host h) = canon_host h"
  by (simp add: canon_host_def [of "canon_host h"]) (simp add: canon_host_def)

section \<open>Overrides\<close>

definition nth_parent :: "string \<Rightarrow> nat \<Rightarrow> string" where
  "nth_parent h i = join_dots (drop i (split_all (CHR ''.'') h))"

lemma nth_parent_domains:
  "in_domain h d \<longleftrightarrow> (\<exists>i < length (split_all (CHR ''.'') h). d = nth_parent h i)"
proof
  assume "in_domain h d"
  then obtain us where us: "split_all (CHR ''.'') h = us @ split_all (CHR ''.'') d" by (auto simp: in_domain_labels suffix_def)
  then have "d = nth_parent h (length us)" by (simp add: nth_parent_def)
  moreover have "length us < length (split_all (CHR ''.'') h)" using us by simp
  ultimately show "\<exists>i < length (split_all (CHR ''.'') h). d = nth_parent h i" by blast
next
  assume "\<exists>i < length (split_all (CHR ''.'') h). d = nth_parent h i"
  then obtain i where i: "i < length (split_all (CHR ''.'') h)" "d = nth_parent h i" by blast
  show "in_domain h d"
  proof (cases "i = 0")
    case True
    then show ?thesis using i by (simp add: nth_parent_def in_domain_iff)
  next
    case False
    then have "take i (split_all (CHR ''.'') h) \<noteq> []" "drop i (split_all (CHR ''.'') h) \<noteq> []" using i by auto
    from join_dots_app [OF this] have "h = join_dots (take i (split_all (CHR ''.'') h)) @ CHR ''.'' # d"
      using i(2) by (simp add: nth_parent_def)
    then show ?thesis by (auto simp: in_domain_iff)
  qed
qed

lemma nth_parent_shorter:
  assumes "j < length (split_all (CHR ''.'') h)"
  shows "i < j \<Longrightarrow> length (nth_parent h j) < length (nth_parent h i)"
  using assms
proof (induction j)
  case (Suc j)
  have "drop j (split_all (CHR ''.'') h) = split_all (CHR ''.'') h ! j # drop (Suc j) (split_all (CHR ''.'') h)"
    using Suc.prems(2) by (simp add: Cons_nth_drop_Suc)
  then have "length (nth_parent h (Suc j)) < length (nth_parent h j)"
    using Suc.prems(2) by (simp add: nth_parent_def join_dots_Cons)
  then show ?case using Suc by (cases "i = j") auto
qed simp

lemma hosts_override_find:
  "hosts_override hosts host =
     (case find (\<lambda>i. hosts (nth_parent (canon_host host) i) \<noteq> None) [0..<length (split_all (CHR ''.'') (canon_host host))] of
        Some i \<Rightarrow> hosts (nth_parent (canon_host host) i) | None \<Rightarrow> None)"
proof -
  have "[0..<length (split_all (CHR ''.'') (canon_host host))] = 0 # [1..<length (split_all (CHR ''.'') (canon_host host))]"
    by (simp add: upt_conv_Cons)
  then show ?thesis by (auto simp: hosts_override_def nth_parent_def Let_def split: option.split)
qed

text \<open>A host's override is that of the most specific domain it belongs to: one is found exactly when some domain
  of the host has an entry, and no closer domain has one.\<close>

theorem override_most_specific:
  "hosts_override hosts host = Some ip \<longleftrightarrow>
     (\<exists>d. in_domain (canon_host host) d \<and> hosts d = Some ip
        \<and> (\<forall>d'. in_domain (canon_host host) d' \<and> hosts d' \<noteq> None \<longrightarrow> length d' \<le> length d))"
proof -
  define h where "h = canon_host host"
  define n where "n = length (split_all (CHR ''.'') h)"
  let ?P = "\<lambda>i. hosts (nth_parent h i) \<noteq> None"
  have find: "hosts_override hosts host = Some ip \<longleftrightarrow> (\<exists>i<n. hosts (nth_parent h i) = Some ip \<and> (\<forall>j<i. \<not> ?P j))"
  proof
    assume "hosts_override hosts host = Some ip"
    then obtain i where "find ?P [0..<n] = Some i" "hosts (nth_parent h i) = Some ip"
      by (auto simp: hosts_override_find h_def n_def split: option.splits)
    then show "\<exists>i<n. hosts (nth_parent h i) = Some ip \<and> (\<forall>j<i. \<not> ?P j)"
      by (auto simp: find_Some_iff)
  next
    assume "\<exists>i<n. hosts (nth_parent h i) = Some ip \<and> (\<forall>j<i. \<not> ?P j)"
    then obtain i where i: "i < n" "hosts (nth_parent h i) = Some ip" "\<forall>j<i. \<not> ?P j" by blast
    then have "find ?P [0..<n] = Some i" by (auto simp: find_Some_iff intro!: exI [of _ i])
    then show "hosts_override hosts host = Some ip" using i by (simp add: hosts_override_find h_def n_def)
  qed
  show ?thesis unfolding find h_def [symmetric]
  proof
    assume "\<exists>i<n. hosts (nth_parent h i) = Some ip \<and> (\<forall>j<i. \<not> ?P j)"
    then obtain i where i: "i < n" "hosts (nth_parent h i) = Some ip" "\<forall>j<i. \<not> ?P j" by blast
    have "length d' \<le> length (nth_parent h i)" if "in_domain h d'" "hosts d' \<noteq> None" for d'
    proof -
      obtain j where j: "j < n" "d' = nth_parent h j" using \<open>in_domain h d'\<close> by (auto simp: nth_parent_domains n_def)
      then have "i \<le> j" using i(3) that(2) by (meson not_less)
      then show ?thesis using j nth_parent_shorter [of j h i] by (cases "i = j") (auto simp: n_def)
    qed
    then show "\<exists>d. in_domain h d \<and> hosts d = Some ip \<and> (\<forall>d'. in_domain h d' \<and> hosts d' \<noteq> None \<longrightarrow> length d' \<le> length d)"
      using i by (intro exI [of _ "nth_parent h i"]) (auto simp: nth_parent_domains n_def)
  next
    assume "\<exists>d. in_domain h d \<and> hosts d = Some ip \<and> (\<forall>d'. in_domain h d' \<and> hosts d' \<noteq> None \<longrightarrow> length d' \<le> length d)"
    then obtain i where i: "i < n" "hosts (nth_parent h i) = Some ip"
      "\<forall>d'. in_domain h d' \<and> hosts d' \<noteq> None \<longrightarrow> length d' \<le> length (nth_parent h i)" by (auto simp: nth_parent_domains n_def)
    have "\<not> ?P j" if "j < i" for j
      using i that nth_parent_shorter [of i h j] by (metis n_def nth_parent_domains less_trans not_le)
    then show "\<exists>i<n. hosts (nth_parent h i) = Some ip \<and> (\<forall>j<i. \<not> ?P j)" using i by blast
  qed
qed

theorem override_most_specific_witness:
  "hosts_override [''google.com'' \<mapsto> ''1.2.3.4''] ''Mail.Google.com.'' = Some ''1.2.3.4''
   \<and> (\<exists>d. in_domain (canon_host ''Mail.Google.com.'') d \<and> [''google.com'' \<mapsto> ''1.2.3.4''] d = Some ''1.2.3.4''
        \<and> (\<forall>d'. in_domain (canon_host ''Mail.Google.com.'') d' \<and> [''google.com'' \<mapsto> ''1.2.3.4''] d' \<noteq> None \<longrightarrow> length d' \<le> length d))"
proof -
  have "canon_host ''Mail.Google.com.'' = ''mail.google.com''" by code_simp
  then have "hosts_override [''google.com'' \<mapsto> ''1.2.3.4''] ''Mail.Google.com.'' = Some ''1.2.3.4''"
    by (simp add: hosts_override_def upt_rec numeral_2_eq_2)
  then show ?thesis using override_most_specific by blast
qed

end
