(* ===== verification/Proxy_Routing.thy ===== *)
theory Proxy_Routing
  imports Host_Match Fronter_Http Assoc
begin

text \<open>
  Where a connection of the local proxy goes (\<^verbatim>\<open>src/src/proxy_server.rs\<close>): the routing settings that follow from the
  configuration, the decisions that need no data, and the whole of \<^verbatim>\<open>dispatch_tunnel\<close> with its fall-backs. What the
  socket and the tunnels do is a \<open>dispatch_env\<close>. Shown: a connection leaves the machine unprotected only for the documented reasons;
  a blocked resolver is blocked in every mode; and a host with a relayed URL is always intercepted.
\<close>

section \<open>Lists\<close>

definition SNI_REWRITE_SUFFIXES :: "string list" where
  "SNI_REWRITE_SUFFIXES =
     [''google.com'', ''gstatic.com'', ''googleusercontent.com'', ''googleapis.com'', ''ggpht.com'', ''youtube.com'', ''youtu.be'',
      ''youtube-nocookie.com'', ''ytimg.com'', ''gvt1.com'', ''gvt2.com'', ''doubleclick.net'', ''googlesyndication.com'',
      ''googleadservices.com'', ''google-analytics.com'', ''googletagmanager.com'', ''googletagservices.com'',
      ''fonts.googleapis.com'', ''blogspot.com'', ''blogger.com'']"

definition YOUTUBE_RELAY_HOSTS :: "string list" where
  "YOUTUBE_RELAY_HOSTS = [''youtube.com'', ''youtu.be'', ''youtube-nocookie.com'', ''youtubei.googleapis.com'']"

definition DEFAULT_RELAY_URL_PATTERNS :: "string list" where
  "DEFAULT_RELAY_URL_PATTERNS = [''youtube.com/youtubei/'']"

definition DEFAULT_DOH_HOSTS :: "string list" where
  "DEFAULT_DOH_HOSTS =
     [''cloudflare-dns.com'', ''chrome.cloudflare-dns.com'', ''mozilla.cloudflare-dns.com'', ''1dot1dot1dot1.cloudflare-dns.com'',
      ''dns.google'', ''dns.google.com'', ''dns.quad9.net'', ''dns11.quad9.net'', ''dns.adguard-dns.com'', ''unfiltered.adguard-dns.com'',
      ''family.adguard-dns.com'', ''dns.nextdns.io'', ''doh.opendns.com'', ''doh.cleanbrowsing.org'', ''doh.dns.sb'', ''dns0.eu'',
      ''dns.alidns.com'', ''doh.pub'', ''dns.mullvad.net'']"

section \<open>Settings\<close>

datatype mode = AppsScript | Direct | Full | LocalBypass | Drive

definition matches_sni_rewrite :: "string \<Rightarrow> bool \<Rightarrow> string list \<Rightarrow> bool" where
  "matches_sni_rewrite host youtube_via_relay force_mitm_hosts =
     (let h = canon_host host in
      if youtube_via_relay \<and> list_ex (in_domain h) YOUTUBE_RELAY_HOSTS then False
      else if list_ex (in_domain h) force_mitm_hosts then False
      else list_ex (in_domain h) SNI_REWRITE_SUFFIXES)"

definition host_matches_youtube_relay :: "string \<Rightarrow> bool" where
  "host_matches_youtube_relay host = list_ex (in_domain (canon_host host)) YOUTUBE_RELAY_HOSTS"

definition host_is_sni_rewrite_capable :: "string \<Rightarrow> bool" where
  "host_is_sni_rewrite_capable host = list_ex (in_domain (canon_host host)) SNI_REWRITE_SUFFIXES"

record routing_cfg =
  rg_exit_enabled :: bool
  rg_exit_mode :: string
  rg_exit_relay_url :: string
  rg_exit_psk :: string
  rg_youtube_via_relay :: bool
  rg_relay_url_patterns :: "string list"

record resolved_routing =
  rr_youtube_via_relay_effective :: bool
  rr_relay_url_patterns :: "string list"
  rr_force_mitm_hosts :: "string list"
  rr_skipped_force_mitm_hosts :: "string list"
  rr_suppressed_yt_patterns :: "string list"
  rr_exit_node_full_mode_active :: bool

definition pattern_host :: "string \<Rightarrow> string" where
  "pattern_host p = dropWhile (\<lambda>c. c = CHR ''.'') (hd (split_all (CHR ''/'') p))"

definition user_patterns :: "routing_cfg \<Rightarrow> string list" where
  "user_patterns cfg = map normalize_pattern (filter (\<lambda>p. trim p \<noteq> []) (rg_relay_url_patterns cfg))"

text \<open>Only the first of equal patterns, and of equal hosts, is kept.\<close>

fun keep_first :: "'a list \<Rightarrow> 'a list \<Rightarrow> 'a list" where
  "keep_first seen [] = []"
| "keep_first seen (x # xs) = (if x \<in> set seen then keep_first seen xs else x # keep_first (x # seen) xs)"

definition resolved_from_config :: "routing_cfg \<Rightarrow> mode \<Rightarrow> resolved_routing" where
  "resolved_from_config cfg mode =
     (let exit_full = (rg_exit_enabled cfg \<and> eq_ignore_ascii_case (rg_exit_mode cfg) ''full'' \<and> rg_exit_relay_url cfg \<noteq> [] \<and> rg_exit_psk cfg \<noteq> []);
          exit_active = (exit_full \<and> mode = AppsScript);
          yt = (rg_youtube_via_relay cfg \<or> exit_active);
          suppressed = (\<lambda>p. yt \<and> host_matches_youtube_relay (pattern_host p));
          patterns = (if mode = AppsScript
                      then keep_first [] ((if yt then [] else DEFAULT_RELAY_URL_PATTERNS) @ filter (\<lambda>p. \<not> suppressed p) (user_patterns cfg))
                      else []);
          hosts = keep_first [] (filter (\<lambda>h. h \<noteq> []) (map pattern_host patterns))
      in \<lparr>rr_youtube_via_relay_effective = yt, rr_relay_url_patterns = patterns,
          rr_force_mitm_hosts = filter host_is_sni_rewrite_capable hosts,
          rr_skipped_force_mitm_hosts = filter (\<lambda>h. \<not> host_is_sni_rewrite_capable h) hosts,
          rr_suppressed_yt_patterns = (if mode = AppsScript then filter suppressed (user_patterns cfg) else []),
          rr_exit_node_full_mode_active = exit_active\<rparr>)"

record fronting_group =
  fg_name :: string
  fg_ip :: string
  fg_sni :: string
  fg_domains :: "string list"
  fg_force_ip :: bool
  fg_verify_names :: "string list"

definition norm_domains :: "string list \<Rightarrow> string list" where
  "norm_domains ds = filter (\<lambda>d. d \<noteq> []) (map (\<lambda>d. to_ascii_lowercase (trim_end_matches (CHR ''.'') (trim d))) ds)"

text \<open>\<open>name_ok\<close> and \<open>connector\<close> stand for the TLS library's checks of a server name and of the verified names.\<close>

definition group_from_config :: "(string \<Rightarrow> string option) \<Rightarrow> (string list \<Rightarrow> string option) \<Rightarrow> fronting_group \<Rightarrow> (fronting_group, string) result" where
  "group_from_config name_err connector_err g =
     (case name_err (fg_sni g) of
        Some e \<Rightarrow> Inl (''invalid sni '' @ [CHR 0x27] @ fg_sni g @ [CHR 0x27] @ '': '' @ e)
      | None \<Rightarrow>
          if \<not> fg_force_ip g \<and> trim (fg_ip g) = [] then Inl ''ip is required unless force_ip = true''
          else
            (let names = norm_domains (fg_verify_names g) in
             case (if fg_force_ip g \<and> names \<noteq> [] then connector_err names else None) of
               Some e \<Rightarrow> Inl (''force_ip verify_names: '' @ e)
             | None \<Rightarrow> Inr (g\<lparr>fg_domains := norm_domains (fg_domains g), fg_verify_names := names\<rparr>)))"

definition match_fronting_group :: "string \<Rightarrow> fronting_group list \<Rightarrow> fronting_group option" where
  "match_fronting_group host groups =
     (if groups = [] then None
      else
        (let h = canon_host host in
         if h = [] then None
         else find (\<lambda>g. list_ex (is_dot_anchored_match h) (fg_domains g)) groups))"

section \<open>Early decisions\<close>

datatype early_route = PassthroughHostsMatch | ErLocalBypass | BlockDoh | BypassDoh | ErFull | ErDrive | Continue

definition classify_early_route :: "string \<Rightarrow> u16 \<Rightarrow> mode \<Rightarrow> string list \<Rightarrow> string list \<Rightarrow> bool \<Rightarrow> bool \<Rightarrow> early_route" where
  "classify_early_route host port mode passthrough_hosts bypass_doh_hosts block_doh bypass_doh =
     (if matches_passthrough host passthrough_hosts then PassthroughHostsMatch
      else if block_doh \<and> port = 443 \<and> matches_doh_host DEFAULT_DOH_HOSTS host bypass_doh_hosts then BlockDoh
      else if mode = LocalBypass then ErLocalBypass
      else if bypass_doh \<and> port = 443 \<and> matches_doh_host DEFAULT_DOH_HOSTS host bypass_doh_hosts then BypassDoh
      else if mode = Drive then ErDrive
      else if mode = Full then ErFull
      else Continue)"

definition should_use_sni_rewrite :: "(string \<rightharpoonup> string) \<Rightarrow> string \<Rightarrow> u16 \<Rightarrow> bool \<Rightarrow> string list \<Rightarrow> bool" where
  "should_use_sni_rewrite hosts host port youtube_via_relay force_mitm_hosts =
     (if port \<noteq> 443 then False
      else if host_in_force_mitm_list host force_mitm_hosts then False
      else matches_sni_rewrite host youtube_via_relay force_mitm_hosts \<or> hosts_override hosts host \<noteq> None)"

text \<open>What direct mode knows: whether it is on, its circuit breaker, and its two lists.\<close>

record direct_ctx =
  dx_enabled :: bool
  dx_tripped :: bool
  dx_google :: "string list"
  dx_sanctioned :: "string list"

definition is_direct :: "direct_ctx \<Rightarrow> string \<Rightarrow> bool" where
  "is_direct d host = (if \<not> dx_enabled d then False else if dx_tripped d then False else is_google_domain host (dx_google d) (dx_sanctioned d))"

definition is_sanctioned :: "direct_ctx \<Rightarrow> string \<Rightarrow> bool" where
  "is_sanctioned d host =
     (let h = normalize_domain_entry (strip_port host) in if h = [] then False else domain_list_matches h (dx_sanctioned d))"

definition should_take_direct_mode_branch :: "u16 \<Rightarrow> direct_ctx option \<Rightarrow> string \<Rightarrow> string list \<Rightarrow> bool \<Rightarrow> (string \<rightharpoonup> string) \<Rightarrow> bool" where
  "should_take_direct_mode_branch port direct host force_mitm_hosts youtube_via_relay hosts =
     (if port \<noteq> 443 then False
      else (case direct of
              None \<Rightarrow> False
            | Some d \<Rightarrow>
                if host_in_force_mitm_list host force_mitm_hosts then False
                else if youtube_via_relay \<and> host_matches_youtube_relay host then False
                else if hosts_override hosts host \<noteq> None then False
                else if \<not> is_direct d host then False
                else if \<not> matches_sni_rewrite host youtube_via_relay force_mitm_hosts then False
                else True))"

section \<open>The circuit breaker of forced addresses\<close>

definition CAMOUFLAGE_BREAKER_COOLDOWN :: nat where "CAMOUFLAGE_BREAKER_COOLDOWN = 30000"
definition CAMOUFLAGE_BREAKER_MAX_ENTRIES :: nat where "CAMOUFLAGE_BREAKER_MAX_ENTRIES = 512"
definition FORCE_IP_MAX_TARGETS :: nat where "FORCE_IP_MAX_TARGETS = 3"

type_synonym breaker = "(string \<times> nat) list"

definition camouflage_breaker_tripped :: "nat \<Rightarrow> string \<Rightarrow> breaker \<Rightarrow> bool" where
  "camouflage_breaker_tripped now key m = (case map_of m key of None \<Rightarrow> False | Some until \<Rightarrow> now < until)"

definition soonest_breaker :: "breaker \<Rightarrow> string option" where
  "soonest_breaker m = map_option fst (find (\<lambda>(k, u). \<forall>u' \<in> snd ` set m. u \<le> u') m)"

definition camouflage_note_unreachable :: "nat \<Rightarrow> string \<Rightarrow> breaker \<Rightarrow> breaker" where
  "camouflage_note_unreachable now key m =
     (let m1 = (if CAMOUFLAGE_BREAKER_MAX_ENTRIES \<le> length m \<and> map_of m key = None then
                  (let live = filter (\<lambda>(_, until). now < until) m in
                   if CAMOUFLAGE_BREAKER_MAX_ENTRIES \<le> length live
                   then (case soonest_breaker live of None \<Rightarrow> live | Some k \<Rightarrow> AList.delete k live) else live)
                else m)
      in AList.update key (now + CAMOUFLAGE_BREAKER_COOLDOWN) m1)"

definition camouflage_note_reachable :: "string \<Rightarrow> breaker \<Rightarrow> breaker" where
  "camouflage_note_reachable key m = AList.delete key m"

section \<open>Dispatch\<close>

datatype local_outcome = LbDone | LbSkip | LbPrefaced | LbError
datatype direct_outcome = DmDone | DmSkip | DmPrefaced | DmError
datatype peek = PkSilent | PkError | PkBytes bytes

record dispatch_env =
  de_now :: nat
  de_local_bypass :: local_outcome
  de_doh :: "string list option"
  de_connector_ok :: bool
  de_dial_ok :: "string \<Rightarrow> bool"
  de_cert_ok :: bool
  de_direct :: direct_outcome
  de_peek :: peek

record rewrite_ctx =
  rx_google_ip :: string
  rx_front_domain :: string
  rx_hosts :: "string \<rightharpoonup> string"
  rx_upstream_socks5 :: "string option"
  rx_mode :: mode
  rx_youtube_via_relay :: bool
  rx_force_mitm_hosts :: "string list"
  rx_passthrough_hosts :: "string list"
  rx_bypass_doh :: bool
  rx_block_doh :: bool
  rx_bypass_doh_hosts :: "string list"
  rx_fronting_groups :: "fronting_group list"
  rx_direct_mode :: "direct_ctx option"
  rx_doh_resolver :: bool
  rx_fronter :: bool
  rx_tunnel_mux :: bool
  rx_drive_mux :: bool

text \<open>Where a connection goes: raw over TCP, through the upstream proxy if there is one; fragmented to its destination,
  with an override of the address; refused; into one of the tunnels; to an edge with a rewritten server name; or decrypted and relayed.\<close>

datatype route =
    RtRaw "string option" | RtFragmented "string option" | RtRefused | RtFull | RtDrive
  | RtSniRewrite string string | RtCamouflage string | RtDirectMode | RtMitmRelay | RtHttpRelay string | RtDropped

definition sni_rewrite_target :: "rewrite_ctx \<Rightarrow> string \<Rightarrow> fronting_group option \<Rightarrow> route" where
  "sni_rewrite_target rx host grp =
     (case grp of
        Some g \<Rightarrow> RtSniRewrite (fg_ip g) (fg_sni g)
      | None \<Rightarrow> RtSniRewrite (case hosts_override (rx_hosts rx) host of Some ip \<Rightarrow> ip | None \<Rightarrow> rx_google_ip rx) (rx_front_domain rx))"

text \<open>The socket is given back when no tunnel came about.\<close>

definition do_camouflage_tunnel :: "dispatch_env \<Rightarrow> fronting_group \<Rightarrow> string list \<Rightarrow> breaker \<Rightarrow> breaker \<times> bool" where
  "do_camouflage_tunnel env g ips brk =
     (if camouflage_breaker_tripped (de_now env) (fg_name g) brk then (brk, False)
      else if \<not> de_connector_ok env then (brk, False)
      else if \<not> list_ex (de_dial_ok env) (take FORCE_IP_MAX_TARGETS ips) then (camouflage_note_unreachable (de_now env) (fg_name g) brk, False)
      else (camouflage_note_reachable (fg_name g) brk, de_cert_ok env))"

definition looks_like_http :: "bytes \<Rightarrow> bool" where
  "looks_like_http first_bytes =
     list_ex (\<lambda>m. starts_with_str (str_of_bytes first_bytes) m)
       [''GET '', ''POST '', ''PUT '', ''HEAD '', ''DELETE '', ''PATCH '', ''OPTIONS '', ''CONNECT '', ''TRACE '']"

text \<open>What is left once no rewriting applies.\<close>

definition dispatch_relay :: "rewrite_ctx \<Rightarrow> dispatch_env \<Rightarrow> u16 \<Rightarrow> route" where
  "dispatch_relay rx env port =
     (if rx_mode rx = Direct then RtRaw (rx_upstream_socks5 rx)
      else if \<not> rx_fronter rx then RtRaw (rx_upstream_socks5 rx)
      else (case de_peek env of
              PkError \<Rightarrow> RtDropped
            | PkSilent \<Rightarrow> RtRaw (rx_upstream_socks5 rx)
            | PkBytes bs0 \<Rightarrow>
                (let bs = take 8 bs0 in
                 if bs \<noteq> [] \<and> hd bs = 0x16 then RtMitmRelay
                 else if looks_like_http bs then RtHttpRelay (if port = 443 then ''https'' else ''http'')
                 else RtRaw (rx_upstream_socks5 rx))))"

definition dispatch_rewrite :: "rewrite_ctx \<Rightarrow> dispatch_env \<Rightarrow> string \<Rightarrow> u16 \<Rightarrow> route" where
  "dispatch_rewrite rx env host port =
     (let sanctioned = (rx_mode rx = AppsScript \<and> (case rx_direct_mode rx of None \<Rightarrow> False | Some d \<Rightarrow> is_sanctioned d host)) in
      if \<not> sanctioned \<and> should_use_sni_rewrite (rx_hosts rx) host port (rx_youtube_via_relay rx) (rx_force_mitm_hosts rx)
      then sni_rewrite_target rx host None
      else dispatch_relay rx env port)"

definition dispatch_direct :: "rewrite_ctx \<Rightarrow> dispatch_env \<Rightarrow> string \<Rightarrow> u16 \<Rightarrow> route" where
  "dispatch_direct rx env host port =
     (if should_take_direct_mode_branch port (rx_direct_mode rx) host (rx_force_mitm_hosts rx) (rx_youtube_via_relay rx) (rx_hosts rx)
      then (case de_direct env of
              DmDone \<Rightarrow> RtDirectMode
            | DmSkip \<Rightarrow> dispatch_rewrite rx env host port
            | DmPrefaced \<Rightarrow> sni_rewrite_target rx host None
            | DmError \<Rightarrow> RtDropped)
      else dispatch_rewrite rx env host port)"

definition dispatch_groups :: "rewrite_ctx \<Rightarrow> dispatch_env \<Rightarrow> string \<Rightarrow> u16 \<Rightarrow> breaker \<Rightarrow> breaker \<times> route" where
  "dispatch_groups rx env host port brk =
     (case (if port = 443 then match_fronting_group host (rx_fronting_groups rx) else None) of
        None \<Rightarrow> (brk, dispatch_direct rx env host port)
      | Some g \<Rightarrow>
          if \<not> fg_force_ip g then (brk, sni_rewrite_target rx host (Some g))
          else
            (let resolved = (if camouflage_breaker_tripped (de_now env) (fg_name g) brk \<or> \<not> rx_doh_resolver rx then None
                             else (case de_doh env of Some ips \<Rightarrow> if ips = [] then None else Some ips | None \<Rightarrow> None))
             in case resolved of
                  None \<Rightarrow> (brk, dispatch_direct rx env host port)
                | Some ips \<Rightarrow>
                    (case do_camouflage_tunnel env g ips brk of
                       (brk', True) \<Rightarrow> (brk', RtCamouflage (fg_name g))
                     | (brk', False) \<Rightarrow> (brk', dispatch_direct rx env host port))))"

definition dispatch_tunnel :: "rewrite_ctx \<Rightarrow> dispatch_env \<Rightarrow> string \<Rightarrow> u16 \<Rightarrow> breaker \<Rightarrow> breaker \<times> route" where
  "dispatch_tunnel rx env host port brk =
     (case classify_early_route host port (rx_mode rx) (rx_passthrough_hosts rx) (rx_bypass_doh_hosts rx) (rx_block_doh rx) (rx_bypass_doh rx) of
        PassthroughHostsMatch \<Rightarrow> (brk, RtRaw (rx_upstream_socks5 rx))
      | ErLocalBypass \<Rightarrow>
          (brk, case de_local_bypass env of
                  LbDone \<Rightarrow> RtFragmented (hosts_override (rx_hosts rx) host)
                | LbSkip \<Rightarrow> RtRaw (rx_upstream_socks5 rx)
                | LbPrefaced \<Rightarrow> RtDropped
                | LbError \<Rightarrow> RtDropped)
      | BlockDoh \<Rightarrow> (brk, RtRefused)
      | BypassDoh \<Rightarrow> (brk, RtRaw (rx_upstream_socks5 rx))
      | ErFull \<Rightarrow> (brk, if rx_tunnel_mux rx then RtFull else RtDropped)
      | ErDrive \<Rightarrow> (brk, if rx_drive_mux rx then RtDrive else RtDropped)
      | Continue \<Rightarrow> dispatch_groups rx env host port brk)"

lemmas routing_defs = dispatch_tunnel_def dispatch_groups_def dispatch_direct_def dispatch_rewrite_def dispatch_relay_def
  sni_rewrite_target_def classify_early_route_def Let_def

section \<open>Who leaves unprotected\<close>

definition doh_host :: "rewrite_ctx \<Rightarrow> string \<Rightarrow> u16 \<Rightarrow> bool" where
  "doh_host rx host port \<longleftrightarrow> port = 443 \<and> matches_doh_host DEFAULT_DOH_HOSTS host (rx_bypass_doh_hosts rx)"

definition tls_or_http :: "peek \<Rightarrow> bool" where
  "tls_or_http p = (case p of PkBytes bs \<Rightarrow> bs \<noteq> [] \<and> hd bs = 0x16 \<or> looks_like_http (take 8 bs) | _ \<Rightarrow> False)"

lemma relay_raw:
  "dispatch_relay rx env port = RtRaw via \<Longrightarrow> via = rx_upstream_socks5 rx \<and> (rx_mode rx = Direct \<or> \<not> rx_fronter rx \<or> \<not> tls_or_http (de_peek env))"
  by (auto simp: dispatch_relay_def tls_or_http_def Let_def split: if_splits peek.splits)

lemma direct_raw:
  assumes "dispatch_direct rx env host port = RtRaw via"
  shows "dispatch_relay rx env port = RtRaw via"
  using assms by (auto simp: dispatch_direct_def dispatch_rewrite_def sni_rewrite_target_def Let_def split: if_splits direct_outcome.splits option.splits)

lemma groups_raw:
  assumes "dispatch_groups rx env host port brk = (brk', RtRaw via)"
  shows "dispatch_relay rx env port = RtRaw via"
  using assms by (auto simp: dispatch_groups_def sni_rewrite_target_def Let_def split: if_splits option.splits prod.splits bool.splits intro: direct_raw)

text \<open>A connection goes out raw, through the upstream proxy if there is one, only if its host is on the
  passthrough list, or is a resolver that is to be bypassed, or the mode has no relay for it: direct mode, local bypass of a client that
  does not speak TLS, or Apps Script mode with a client that is silent or speaks neither TLS nor HTTP. In full and Drive mode only the
  first two remain.\<close>

theorem raw_only_when_documented:
  assumes "dispatch_tunnel rx env host port brk = (brk', RtRaw via)"
  shows "via = rx_upstream_socks5 rx \<and>
    (matches_passthrough host (rx_passthrough_hosts rx)
     \<or> rx_bypass_doh rx \<and> doh_host rx host port \<and> rx_mode rx \<noteq> LocalBypass
     \<or> rx_mode rx = Direct
     \<or> rx_mode rx = LocalBypass \<and> de_local_bypass env = LbSkip
     \<or> rx_mode rx = AppsScript \<and> (\<not> rx_fronter rx \<or> \<not> tls_or_http (de_peek env)))"
proof (cases "classify_early_route host port (rx_mode rx) (rx_passthrough_hosts rx) (rx_bypass_doh_hosts rx) (rx_block_doh rx) (rx_bypass_doh rx)")
  case Continue
  then have "rx_mode rx \<notin> {LocalBypass, Drive, Full}" by (auto simp: classify_early_route_def split: if_splits)
  moreover have "dispatch_relay rx env port = RtRaw via" using assms Continue groups_raw by (simp add: dispatch_tunnel_def)
  ultimately show ?thesis using relay_raw [of rx env port via] by (cases "rx_mode rx") auto
qed (use assms in \<open>auto simp: dispatch_tunnel_def classify_early_route_def doh_host_def split: if_splits local_outcome.splits\<close>)

text \<open>Blocked resolvers: a connection is refused exactly when blocking is on and the host is a resolver on port 443
  that is not on the passthrough list, in every mode.\<close>

theorem resolvers_blocked_in_every_mode:
  "snd (dispatch_tunnel rx env host port brk) = RtRefused \<longleftrightarrow>
     rx_block_doh rx \<and> doh_host rx host port \<and> \<not> matches_passthrough host (rx_passthrough_hosts rx)"
proof -
  have relay: "dispatch_relay rx env port \<noteq> RtRefused" by (simp add: dispatch_relay_def Let_def split: peek.split)
  then have "dispatch_rewrite rx env host port \<noteq> RtRefused" by (simp add: dispatch_rewrite_def sni_rewrite_target_def Let_def)
  then have "dispatch_direct rx env host port \<noteq> RtRefused" by (simp add: dispatch_direct_def sni_rewrite_target_def split: direct_outcome.split)
  then have "snd (dispatch_groups rx env host port brk) \<noteq> RtRefused"
    by (auto simp: dispatch_groups_def sni_rewrite_target_def Let_def split: option.split prod.split bool.split)
  then show ?thesis
    by (auto simp: dispatch_tunnel_def classify_early_route_def doh_host_def split: local_outcome.split)
qed

section \<open>Hosts with relayed URLs\<close>

lemma set_keep_first: "set (keep_first seen xs) = set xs - set seen"
  by (induction seen xs rule: keep_first.induct) auto

lemma distinct_keep_first: "distinct (keep_first seen xs)"
  by (induction seen xs rule: keep_first.induct) (auto simp: set_keep_first)

lemma split_all_hd: "hd (split_all c s) = takeWhile (\<lambda>x. x \<noteq> c) s"
  by (induction s) (auto split: list.split)

lemma takeWhile_upto: "c \<notin> set h \<Longrightarrow> takeWhile (\<lambda>x. x \<noteq> c) (h @ c # p) = h"
  by (induction h) auto

lemma split_path_host: "fst (split_path s) = takeWhile (\<lambda>x. x \<noteq> CHR ''/'') s"
proof (cases "split_once (CHR ''/'') s")
  case None
  then have "takeWhile (\<lambda>x. x \<noteq> CHR ''/'') s = s" by (simp add: split_once_None takeWhile_eq_all_conv) metis
  then show ?thesis using None by (simp only: split_path_def option.case fst_conv)
next
  case (Some hp)
  then obtain h p where "hp = (h, p)" "s = h @ CHR ''/'' # p" "CHR ''/'' \<notin> set h" by (cases hp) (auto simp: split_once_Some)
  then show ?thesis using Some by (simp add: split_path_def takeWhile_upto)
qed

lemma pattern_host_path: "pattern_host p = dropWhile (\<lambda>c. c = CHR ''.'') (fst (split_path p))"
  by (simp add: pattern_host_def split_all_hd split_path_host)

lemma trim_end_subset: "set (trim_end_matches c s) \<subseteq> set s"
  using trim_end_prefix [of s c] by (metis set_append sup_ge1)

lemma normalize_pattern_host:
  "fst (split_path (normalize_pattern raw)) = trim_end_matches (CHR ''.'') (fst (split_path (strip_scheme (to_ascii_lowercase (trim raw)))))"
proof -
  define s where "s = strip_scheme (to_ascii_lowercase (trim raw))"
  have free: "takeWhile (\<lambda>x. x \<noteq> CHR ''/'') (trim_end_matches (CHR ''.'') h) = trim_end_matches (CHR ''.'') h" if "CHR ''/'' \<notin> set h" for h
    using that trim_end_subset [of "CHR ''.''" h] by (auto simp: takeWhile_eq_all_conv)
  show ?thesis
  proof (cases "split_once (CHR ''/'') s")
    case None
    then have "CHR ''/'' \<notin> set s" by (simp add: split_once_None)
    moreover have "takeWhile (\<lambda>x. x \<noteq> CHR ''/'') s = s" using calculation by (auto simp: takeWhile_eq_all_conv)
    ultimately have "takeWhile (\<lambda>x. x \<noteq> CHR ''/'') s = s" "takeWhile (\<lambda>x. x \<noteq> CHR ''/'') (trim_end_matches (CHR ''.'') s) = trim_end_matches (CHR ''.'') s"
      using free [of s] by blast+
    then show ?thesis using None by (simp only: normalize_pattern_def s_def [symmetric] split_path_host Let_def option.case)
  next
    case (Some hr)
    obtain h r where hr: "hr = (h, r)" by (cases hr)
    then have s: "s = h @ CHR ''/'' # r" "CHR ''/'' \<notin> set h" using Some by (simp_all add: split_once_Some)
    then have "CHR ''/'' \<notin> set (trim_end_matches (CHR ''.'') h)" using trim_end_subset by blast
    then show ?thesis using Some hr s by (simp add: normalize_pattern_def s_def [symmetric] split_path_host takeWhile_upto)
  qed
qed

lemma validated_host:
  assumes "validate_relay_url_pattern raw"
  shows "pattern_host (normalize_pattern raw) = fst (split_path (normalize_pattern raw)) \<and> pattern_host (normalize_pattern raw) \<noteq> []"
proof -
  define h where "h = trim_end_matches (CHR ''.'') (fst (split_path (strip_scheme (to_ascii_lowercase (trim raw)))))"
  have "h \<noteq> []" "list_all valid_label (split_all (CHR ''.'') h)"
    using assms by (auto simp: validate_relay_url_pattern_def h_def Let_def split: if_splits)
  then have "hd h \<noteq> CHR ''.''" by (cases h) (auto simp: valid_label_def)
  then have "dropWhile (\<lambda>c. c = CHR ''.'') h = h" using \<open>h \<noteq> []\<close> by (cases h) auto
  then show ?thesis using \<open>h \<noteq> []\<close> by (simp add: pattern_host_path normalize_pattern_host h_def)
qed

lemma lower_sub: "set a \<subseteq> set (to_ascii_lowercase b) \<Longrightarrow> to_ascii_lowercase a = a"
  unfolding to_ascii_lowercase_def by (intro map_idI) auto

lemma strip_scheme_subset: "set (strip_scheme s) \<subseteq> set s"
  by (auto simp: strip_scheme_def strip_prefix_Some split: option.splits)

lemma canon_url_host [simp]: "canon_host (url_host url) = url_host url"
proof -
  let ?s = "strip_scheme (to_ascii_lowercase url)"
  have "set (url_host url) \<subseteq> set ?s"
    using trim_end_subset set_takeWhileD unfolding url_host_def split_path_host split_all_hd by (metis subset_iff)
  then have "set (url_host url) \<subseteq> set (to_ascii_lowercase url)" using strip_scheme_subset by blast
  then have "to_ascii_lowercase (url_host url) = url_host url" by (rule lower_sub)
  then show ?thesis by (simp add: canon_host_def) (simp add: url_host_def)
qed

lemma default_pattern: "pattern_host ''youtube.com/youtubei/'' = ''youtube.com''" "fst (split_path ''youtube.com/youtubei/'') = ''youtube.com''"
  by code_simp+

lemma pattern_hosts:
  assumes "list_all validate_relay_url_pattern (rg_relay_url_patterns cfg)" and "p \<in> set (rr_relay_url_patterns (resolved_from_config cfg mode))"
  shows "pattern_host p = fst (split_path p) \<and> pattern_host p \<noteq> []"
proof -
  have "p = ''youtube.com/youtubei/'' \<or> (\<exists>raw \<in> set (rg_relay_url_patterns cfg). p = normalize_pattern raw)"
    using assms(2) by (auto simp: resolved_from_config_def Let_def set_keep_first user_patterns_def DEFAULT_RELAY_URL_PATTERNS_def split: if_splits)
  then show ?thesis using validated_host assms(1) default_pattern by (auto simp: list_all_iff)
qed

lemma forced_hosts:
  assumes "p \<in> set (rr_relay_url_patterns (resolved_from_config cfg mode))" "pattern_host p \<noteq> []" "host_is_sni_rewrite_capable (pattern_host p)"
  shows "pattern_host p \<in> set (rr_force_mitm_hosts (resolved_from_config cfg mode))"
  using assms by (auto simp: resolved_from_config_def Let_def set_keep_first)

lemma pattern_url_forced:
  assumes "list_all validate_relay_url_pattern (rg_relay_url_patterns cfg)" and "p \<in> set (rr_relay_url_patterns (resolved_from_config cfg mode))"
    and "url_matches_relay_pattern url [p]" and "host_is_sni_rewrite_capable (pattern_host p)"
  shows "host_in_force_mitm_list (url_host url) (rr_force_mitm_hosts (resolved_from_config cfg mode))"
proof -
  note ph = pattern_hosts [OF assms(1,2)]
  have "in_domain (url_host url) (pattern_host p)"
    using assms(3) ph by (auto simp: url_matches_relay_pattern_def split: prod.splits)
  then show ?thesis using forced_hosts [OF assms(2) _ assms(4)] ph by (auto simp: host_in_force_mitm_list_def list_ex_iff)
qed

text \<open>A relayed URL is seen: with validated patterns, in Apps Script mode, a TLS connection to the host of a URL that matches a
  pattern, of a domain whose server name would be rewritten, is decrypted and relayed and neither tunnelled past the interceptor nor sent
  out in fragments, whatever overrides of hosts and settings of direct mode there are.\<close>

theorem relayed_urls_are_intercepted:
  assumes "list_all validate_relay_url_pattern (rg_relay_url_patterns cfg)"
    and "p \<in> set (rr_relay_url_patterns (resolved_from_config cfg AppsScript))"
    and "url_matches_relay_pattern url [p]" and "host_is_sni_rewrite_capable (pattern_host p)"
    and "rx_mode rx = AppsScript" "rx_force_mitm_hosts rx = rr_force_mitm_hosts (resolved_from_config cfg AppsScript)"
    and "\<not> matches_passthrough (url_host url) (rx_passthrough_hosts rx)" "\<not> doh_host rx (url_host url) port"
    and "match_fronting_group (url_host url) (rx_fronting_groups rx) = None" "rx_fronter rx" "de_peek env = PkBytes (0x16 # hello)"
  shows "dispatch_tunnel rx env (url_host url) port brk = (brk, RtMitmRelay)"
proof -
  have forced: "host_in_force_mitm_list (url_host url) (rx_force_mitm_hosts rx)"
    using pattern_url_forced [OF assms(1-4)] assms(6) by simp
  have "classify_early_route (url_host url) port (rx_mode rx) (rx_passthrough_hosts rx) (rx_bypass_doh_hosts rx) (rx_block_doh rx) (rx_bypass_doh rx) = Continue"
    using assms(5,7,8) by (auto simp: classify_early_route_def doh_host_def)
  moreover have nr: "\<not> should_use_sni_rewrite (rx_hosts rx) (url_host url) port (rx_youtube_via_relay rx) (rx_force_mitm_hosts rx)"
    using forced by (simp add: should_use_sni_rewrite_def)
  moreover have nd: "\<not> should_take_direct_mode_branch port (rx_direct_mode rx) (url_host url) (rx_force_mitm_hosts rx) (rx_youtube_via_relay rx) (rx_hosts rx)"
    using forced by (auto simp: should_take_direct_mode_branch_def split: option.split)
  moreover have "dispatch_relay rx env port = RtMitmRelay" using assms(5,10,11) by (simp add: dispatch_relay_def)
  then have "dispatch_direct rx env (url_host url) port = RtMitmRelay" using nr nd by (simp add: dispatch_direct_def dispatch_rewrite_def Let_def)
  moreover have "(if port = 443 then match_fronting_group (url_host url) (rx_fronting_groups rx) else None) = None" using assms(9) by simp
  ultimately show ?thesis by (simp only: dispatch_tunnel_def dispatch_groups_def early_route.case option.case)
qed

section \<open>Witnesses\<close>

definition demo_rx :: rewrite_ctx where
  "demo_rx =
     \<lparr>rx_google_ip = ''216.239.38.120'', rx_front_domain = ''www.google.com'', rx_hosts = Map.empty, rx_upstream_socks5 = None, rx_mode = AppsScript,
      rx_youtube_via_relay = False, rx_force_mitm_hosts = [''youtube.com''], rx_passthrough_hosts = [], rx_bypass_doh = True, rx_block_doh = False,
      rx_bypass_doh_hosts = [], rx_fronting_groups = [], rx_direct_mode = None, rx_doh_resolver = False, rx_fronter = True, rx_tunnel_mux = False,
      rx_drive_mux = False\<rparr>"

definition demo_env :: "peek \<Rightarrow> dispatch_env" where
  "demo_env p = \<lparr>de_now = 0, de_local_bypass = LbDone, de_doh = None, de_connector_ok = True, de_dial_ok = (\<lambda>_. True), de_cert_ok = True,
     de_direct = DmDone, de_peek = p\<rparr>"

definition demo_routing :: routing_cfg where
  "demo_routing = \<lparr>rg_exit_enabled = False, rg_exit_mode = [], rg_exit_relay_url = [], rg_exit_psk = [], rg_youtube_via_relay = False,
     rg_relay_url_patterns = []\<rparr>"

theorem raw_only_when_documented_witness:
  "dispatch_tunnel demo_rx (demo_env PkSilent) ''mail.example'' 25 [] = ([], RtRaw None)
   \<and> (\<not> rx_fronter demo_rx \<or> \<not> tls_or_http (de_peek (demo_env PkSilent)))"
proof -
  have *: "dispatch_tunnel demo_rx (demo_env PkSilent) ''mail.example'' 25 [] = ([], RtRaw None)"
    by (simp add: routing_defs demo_rx_def demo_env_def matches_passthrough_def should_take_direct_mode_branch_def should_use_sni_rewrite_def)
  moreover have "\<not> doh_host demo_rx ''mail.example'' 25" by (simp add: doh_host_def)
  moreover have "\<not> matches_passthrough ''mail.example'' (rx_passthrough_hosts demo_rx)" "rx_mode demo_rx = AppsScript"
    by (simp_all add: demo_rx_def matches_passthrough_def)
  ultimately show ?thesis using raw_only_when_documented [OF *] by auto
qed

theorem relayed_urls_are_intercepted_witness:
  "url_host ''https://www.youtube.com/youtubei/v1/player'' = ''www.youtube.com''
   \<and> dispatch_tunnel demo_rx (demo_env (PkBytes [0x16, 3, 1])) ''www.youtube.com'' 8443 [] = ([], RtMitmRelay)"
proof -
  let ?url = "''https://www.youtube.com/youtubei/v1/player''"
  have h: "url_host ?url = ''www.youtube.com''" by code_simp
  have "dispatch_tunnel demo_rx (demo_env (PkBytes [0x16, 3, 1])) (url_host ?url) 8443 [] = ([], RtMitmRelay)"
  proof (rule relayed_urls_are_intercepted [where p = "''youtube.com/youtubei/''" and cfg = demo_routing and hello = "[3, 1]"])
    show "''youtube.com/youtubei/'' \<in> set (rr_relay_url_patterns (resolved_from_config demo_routing AppsScript))" by code_simp
    show "url_matches_relay_pattern ?url [''youtube.com/youtubei/'']" by code_simp
    show "host_is_sni_rewrite_capable (pattern_host ''youtube.com/youtubei/'')" by code_simp
    show "rx_force_mitm_hosts demo_rx = rr_force_mitm_hosts (resolved_from_config demo_routing AppsScript)" by code_simp
    show "\<not> doh_host demo_rx (url_host ?url) 8443" by (simp add: doh_host_def)
  qed (simp_all add: demo_routing_def demo_rx_def demo_env_def matches_passthrough_def match_fronting_group_def)
  then show ?thesis using h by simp
qed

end
