(* ===== verification/Direct_Mode.thy ===== *)
theory Direct_Mode
  imports Host_Match Fronter_Http
begin

unbundle bit_operations_syntax

text \<open>
  Direct mode (\<^verbatim>\<open>src/src/direct_mode.rs\<close>): the browser's own TLS handshake is sent to an edge in fragments, so that no packet
  holds the whole server name. The search for the name in a ClientHello, the cut points of each profile, the writer of the fragments, the reading of the
  first record, the remembered winner, the race of profiles and the circuit breaker. Shown: the search finds the name of every well-formed ClientHello
  and never reads out of bounds; the fragments are the handshake, cut inside the name; and the breaker opens and closes as described.
\<close>

section \<open>Profiles\<close>

datatype split_strategy = Passthrough | Equal | Sni | SniPrefixed

record profile =
  pr_id :: string
  pr_num_chunks :: nat
  pr_delay :: nat
  pr_strategy :: split_strategy

definition PROFILES :: "profile list" where
  "PROFILES =
     [\<lparr>pr_id = ''p00'', pr_num_chunks = 1, pr_delay = 0, pr_strategy = Passthrough\<rparr>,
      \<lparr>pr_id = ''p01'', pr_num_chunks = 8, pr_delay = 5, pr_strategy = SniPrefixed\<rparr>,
      \<lparr>pr_id = ''p02'', pr_num_chunks = 16, pr_delay = 1, pr_strategy = Equal\<rparr>,
      \<lparr>pr_id = ''p03'', pr_num_chunks = 32, pr_delay = 3, pr_strategy = Equal\<rparr>,
      \<lparr>pr_id = ''p04'', pr_num_chunks = 64, pr_delay = 5, pr_strategy = Equal\<rparr>,
      \<lparr>pr_id = ''p05'', pr_num_chunks = 87, pr_delay = 5, pr_strategy = Equal\<rparr>,
      \<lparr>pr_id = ''p06'', pr_num_chunks = 120, pr_delay = 10, pr_strategy = Equal\<rparr>,
      \<lparr>pr_id = ''p07'', pr_num_chunks = 8, pr_delay = 25, pr_strategy = Sni\<rparr>]"

definition DEFAULT_PROFILE_ID :: string where "DEFAULT_PROFILE_ID = ''p05''"

definition profile_by_id :: "string \<Rightarrow> profile option" where
  "profile_by_id i = find (\<lambda>p. pr_id p = i) PROFILES"

definition default_profile :: profile where
  "default_profile = (case profile_by_id DEFAULT_PROFILE_ID of Some p \<Rightarrow> p | None \<Rightarrow> PROFILES ! 0)"

section \<open>The server name in a ClientHello\<close>

definition get :: "bytes \<Rightarrow> nat \<Rightarrow> byte option" where
  "get data i = (if i < length data then Some (data ! i) else None)"

definition get_range :: "bytes \<Rightarrow> nat \<Rightarrow> nat \<Rightarrow> bytes option" where
  "get_range data i n = (if i + n \<le> length data then Some (take n (drop i data)) else None)"

definition be16 :: "byte \<Rightarrow> byte \<Rightarrow> nat" where "be16 a b = unat a * 256 + unat b"

function sni_names :: "bytes \<Rightarrow> nat \<Rightarrow> nat \<Rightarrow> (nat \<times> nat) option" where
  "sni_names data i list_end =
     (if list_end < i + 3 then None
      else Option.bind (get data i) (\<lambda>name_type.
           Option.bind (get data (i + 1)) (\<lambda>a.
           Option.bind (get data (i + 2)) (\<lambda>b.
             let name_end = i + 3 + be16 a b in
             if list_end < name_end then None
             else if name_type = 0 then Some (i + 3, name_end)
             else sni_names data name_end list_end))))"
  by pat_completeness auto
termination
  by (relation "measure (\<lambda>(data, i, list_end). list_end - i)") auto

declare sni_names.simps [simp del]

definition sni_host_range_in_extension :: "bytes \<Rightarrow> nat \<Rightarrow> nat \<Rightarrow> (nat \<times> nat) option" where
  "sni_host_range_in_extension data start end' =
     Option.bind (get_range data start 2) (\<lambda>hdr.
       let list_end = start + 2 + be16 (hdr ! 0) (hdr ! 1) in
       if end' < list_end then None else sni_names data (start + 2) list_end)"

function sni_extensions :: "bytes \<Rightarrow> nat \<Rightarrow> nat \<Rightarrow> (nat \<times> nat) option" where
  "sni_extensions data i ext_end =
     (if ext_end < i + 4 then None
      else Option.bind (get_range data i 4) (\<lambda>hdr.
        let body_end = i + 4 + be16 (hdr ! 2) (hdr ! 3) in
        if ext_end < body_end then None
        else if be16 (hdr ! 0) (hdr ! 1) = 0 then sni_host_range_in_extension data (i + 4) body_end
        else sni_extensions data body_end ext_end))"
  by pat_completeness auto
termination
  by (relation "measure (\<lambda>(data, i, ext_end). ext_end - i)") auto

declare sni_extensions.simps [simp del]

definition tls_sni_host_range :: "bytes \<Rightarrow> (nat \<times> nat) option" where
  "tls_sni_host_range data =
     Option.bind (get data 0) (\<lambda>t. if t \<noteq> 0x16 then None else
     Option.bind (get data 5) (\<lambda>h. if h \<noteq> 0x01 then None else
     Option.bind (get data 43) (\<lambda>session_len.
       let i1 = 44 + unat session_len in
     Option.bind (get_range data i1 2) (\<lambda>cipher.
       let i2 = i1 + 2 + be16 (cipher ! 0) (cipher ! 1) in
     Option.bind (get data i2) (\<lambda>comp_len.
       let i3 = i2 + 1 + unat comp_len in
     Option.bind (get_range data i3 2) (\<lambda>ext_total.
       let i4 = i3 + 2; ext_end = i4 + be16 (ext_total ! 0) (ext_total ! 1) in
       if length data < ext_end then None else sni_extensions data i4 ext_end))))))"

section \<open>Cut points\<close>

fun equal_from :: "nat \<Rightarrow> nat \<Rightarrow> nat list \<Rightarrow> nat \<Rightarrow> nat list" where
  "equal_from n k [] prev = []"
| "equal_from n k (i # is) prev =
     (let p = (n * i) div k in
      if p = 0 \<or> p = n \<or> p = prev then equal_from n k is prev else p # equal_from n k is p)"

definition equal_splits :: "nat \<Rightarrow> nat \<Rightarrow> nat list" where
  "equal_splits n num_chunks = (if num_chunks \<le> 1 \<or> n = 0 then [] else equal_from n num_chunks [1..<num_chunks] 0)"

text \<open>The generator's numbers are arbitrary; a number below a bound is one of them modulo the bound.\<close>

definition swap :: "nat \<Rightarrow> nat \<Rightarrow> 'a list \<Rightarrow> 'a list" where
  "swap i j xs = xs[i := xs ! j, j := xs ! i]"

definition random_splits :: "(nat \<Rightarrow> nat) \<Rightarrow> nat \<Rightarrow> nat \<Rightarrow> nat list" where
  "random_splits gen n cnt =
     (if n \<le> 1 \<or> cnt = 0 then []
      else (let taken = min cnt (n - 1);
                idx = fold (\<lambda>i idx. swap i (i + gen i mod (length idx - i)) idx) [0..<taken] [1..<n]
            in sort (take taken idx)))"

definition sni_splits :: "bytes \<Rightarrow> nat list option" where
  "sni_splits data =
     Option.bind (tls_sni_host_range data) (\<lambda>(host_start, host_end).
       let n = length data;
           out = remdups_adj (sort (filter (\<lambda>p. 0 < p \<and> p < n)
                   [1, 5, host_start - 8, host_start - 1, host_start + 1, host_start + 7, host_end]))
       in if out = [] then None else Some out)"

definition compute_splits :: "(nat \<Rightarrow> nat) \<Rightarrow> profile \<Rightarrow> bytes \<Rightarrow> nat list" where
  "compute_splits gen p data =
     (let n = length data in
      if n < 2 \<or> pr_strategy p = Passthrough then []
      else
        (let raw = (case pr_strategy p of
                      Passthrough \<Rightarrow> []
                    | Equal \<Rightarrow> equal_splits n (pr_num_chunks p)
                    | Sni \<Rightarrow> (case sni_splits data of Some s \<Rightarrow> s | None \<Rightarrow> [])
                    | SniPrefixed \<Rightarrow> [1, 5] @ (case sni_splits data of Some s \<Rightarrow> s | None \<Rightarrow> []));
             sorted' = remdups_adj (sort (filter (\<lambda>s. 0 < s \<and> s < n) raw))
         in if sorted' = [] \<and> pr_strategy p \<noteq> Equal then random_splits gen n (pr_num_chunks p - 1) else sorted'))"

section \<open>Fragments\<close>

fun pieces :: "bytes \<Rightarrow> nat \<Rightarrow> nat list \<Rightarrow> bytes list" where
  "pieces data prev [] = [drop prev data]"
| "pieces data prev (s # ss) = take (s - prev) (drop prev data) # pieces data s ss"

text \<open>What is written, one entry for each write.\<close>

definition fragmented_write :: "(nat \<Rightarrow> nat) \<Rightarrow> bytes \<Rightarrow> profile \<Rightarrow> bytes list" where
  "fragmented_write gen data p = (let splits = compute_splits gen p data in if splits = [] then [data] else pieces data 0 splits)"

section \<open>The first record\<close>

definition MAX_FIRST :: nat where "MAX_FIRST = 32 * 1024"

text \<open>Reads of the client, of at most 4096 bytes each; an empty one is the end of its stream. When the list ends, the client is silent
  until the time is up.\<close>

datatype tcp_read = TrBytes bytes | TrError string

fun read_hello :: "bytes \<Rightarrow> tcp_read list \<Rightarrow> (bytes, string) result" where
  "read_hello buf [] = Inl ''ClientHello read exceeded CLIENT_HELLO_READ_TIMEOUT''"
| "read_hello buf (TrError e # evs) = Inl e"
| "read_hello buf (TrBytes chunk # evs) =
     (if chunk = [] then Inl ''client closed before ClientHello''
      else
        (let buf' = buf @ chunk in
         if length buf' < 5 then read_hello buf' evs
         else if buf' ! 0 \<noteq> 0x16 then Inl ''not a TLS handshake''
         else if 5 + be16 (buf' ! 3) (buf' ! 4) \<le> length buf' then Inr buf'
         else if MAX_FIRST < length buf' then Inl ''ClientHello too large''
         else read_hello buf' evs))"

definition read_first_tls_record :: "tcp_read list \<Rightarrow> (bytes, string) result" where
  "read_first_tls_record evs = read_hello [] evs"

section \<open>The remembered winner\<close>

record candidate =
  cd_front :: string
  cd_profile_id :: string

definition reload_from_disk :: "string \<Rightarrow> candidate option" where
  "reload_from_disk file =
     (let trimmed = trim file;
          (line1, line2) = (case split_once (CHR 0x0A) trimmed of Some (a, b) \<Rightarrow> (a, b) | None \<Rightarrow> (trimmed, []));
          front = trim line1; pid = trim line2
      in if front = [] then None
         else (case profile_by_id pid of None \<Rightarrow> None | Some p \<Rightarrow> Some \<lparr>cd_front = front, cd_profile_id = pr_id p\<rparr>))"

text \<open>The cached candidate, and what is written to the file, if anything.\<close>

definition remember :: "string \<Rightarrow> string \<Rightarrow> candidate option \<Rightarrow> candidate option \<times> string option" where
  "remember front pid current =
     (if current = Some \<lparr>cd_front = front, cd_profile_id = pid\<rparr> then (current, None)
      else (Some \<lparr>cd_front = front, cd_profile_id = pid\<rparr>, Some (front @ [CHR 0x0A] @ pid)))"

section \<open>Dialling\<close>

definition CIRCUIT_BREAKER_THRESHOLD :: nat where "CIRCUIT_BREAKER_THRESHOLD = 2"
definition CIRCUIT_BREAKER_COOLDOWN :: nat where "CIRCUIT_BREAKER_COOLDOWN = 60000000"

record direct_mode_ctx =
  dc_enabled :: bool
  dc_fronts :: "string list"
  dc_google_domains :: "string list"
  dc_sanctioned_domains :: "string list"
  dc_cache :: "candidate option"
  dc_consecutive_failures :: u32
  dc_breaker_until :: nat

text \<open>The breaker's clock counts microseconds since the context was made.\<close>

definition from_parts :: "bool \<Rightarrow> string list \<Rightarrow> string list \<Rightarrow> string list \<Rightarrow> string option \<Rightarrow> direct_mode_ctx" where
  "from_parts enabled fronts google sanctioned file =
     \<lparr>dc_enabled = enabled,
      dc_fronts = filter (\<lambda>f. f \<noteq> [])
        (map (\<lambda>f. trim_end_matches (CHR ''.'') (dropWhile (\<lambda>c. c = CHR ''.'') (trim f))) fronts),
      dc_google_domains = filter (\<lambda>d. d \<noteq> []) (map normalize_domain_entry google),
      dc_sanctioned_domains = filter (\<lambda>d. d \<noteq> []) (map normalize_domain_entry sanctioned),
      dc_cache = (case file of None \<Rightarrow> None | Some f \<Rightarrow> reload_from_disk f),
      dc_consecutive_failures = 0, dc_breaker_until = 0\<rparr>"

definition breaker_tripped :: "nat \<Rightarrow> direct_mode_ctx \<Rightarrow> bool" where
  "breaker_tripped now ctx = (if dc_breaker_until ctx \<le> 0 then False else now < dc_breaker_until ctx)"

definition note_success :: "direct_mode_ctx \<Rightarrow> direct_mode_ctx" where
  "note_success ctx = ctx\<lparr>dc_consecutive_failures := 0, dc_breaker_until := 0\<rparr>"

definition note_failure :: "nat \<Rightarrow> direct_mode_ctx \<Rightarrow> direct_mode_ctx" where
  "note_failure now ctx =
     (let n = dc_consecutive_failures ctx + 1; ctx' = ctx\<lparr>dc_consecutive_failures := n\<rparr> in
      if CIRCUIT_BREAKER_THRESHOLD \<le> unat n then ctx'\<lparr>dc_breaker_until := now + CIRCUIT_BREAKER_COOLDOWN\<rparr> else ctx')"

definition is_direct_ctx :: "nat \<Rightarrow> direct_mode_ctx \<Rightarrow> string \<Rightarrow> bool" where
  "is_direct_ctx now ctx host =
     (if \<not> dc_enabled ctx then False
      else if breaker_tripped now ctx then False
      else is_google_domain host (dc_google_domains ctx) (dc_sanctioned_domains ctx))"

text \<open>A dial: the answer of the other side to the writes, if they went through and it came in time. A front can be
  written in brackets.\<close>

record dial_winner =
  dw_front :: string
  dw_profile :: profile
  dw_server_bytes :: bytes
  dw_sent :: "bytes list"

type_synonym dial_net = "string \<Rightarrow> u16 \<Rightarrow> bytes list \<Rightarrow> bytes option"

definition dial_one :: "dial_net \<Rightarrow> (nat \<Rightarrow> nat) \<Rightarrow> u16 \<Rightarrow> string \<Rightarrow> profile \<Rightarrow> bytes \<Rightarrow> dial_winner option" where
  "dial_one net gen port front p hello =
     (let target = trim_end_matches (CHR '']'') (dropWhile (\<lambda>c. c = CHR ''['') front); sent = fragmented_write gen hello p in
      case net target port sent of
        None \<Rightarrow> None
      | Some buf \<Rightarrow>
          if buf = [] then None
          else if hd buf \<noteq> 0x16 then None
          else Some \<lparr>dw_front = front, dw_profile = p, dw_server_bytes = take 4096 buf, dw_sent = sent\<rparr>)"

text \<open>The first pair alone; then all the others, of which the first to succeed in the order they finish wins. \<open>fast\<close> tells whether the
  first one finished in its time, \<open>finish_order\<close> the others that finish in theirs.\<close>

definition fast_pair :: "direct_mode_ctx \<Rightarrow> string \<times> profile" where
  "fast_pair ctx =
     (case dc_cache ctx of
        Some c \<Rightarrow>
          if cd_front c \<in> set (dc_fronts ctx)
          then (cd_front c, case profile_by_id (cd_profile_id c) of Some p \<Rightarrow> p | None \<Rightarrow> default_profile)
          else (hd (dc_fronts ctx), default_profile)
      | None \<Rightarrow> (hd (dc_fronts ctx), default_profile))"

definition race_pairs :: "direct_mode_ctx \<Rightarrow> (string \<times> profile) list" where
  "race_pairs ctx =
     filter (\<lambda>(f, p). \<not> (f = fst (fast_pair ctx) \<and> pr_id p = pr_id (snd (fast_pair ctx)))) (List.product (dc_fronts ctx) PROFILES)"

fun first_win :: "('a \<Rightarrow> 'b option) \<Rightarrow> 'a list \<Rightarrow> 'b option" where
  "first_win f [] = None"
| "first_win f (x # xs) = (case f x of Some w \<Rightarrow> Some w | None \<Rightarrow> first_win f xs)"

definition dial_with_validation :: "dial_net \<Rightarrow> (nat \<Rightarrow> nat) \<Rightarrow> bool \<Rightarrow> ((string \<times> profile) list \<Rightarrow> (string \<times> profile) list) \<Rightarrow> u16 \<Rightarrow> direct_mode_ctx
    \<Rightarrow> bytes \<Rightarrow> dial_winner option" where
  "dial_with_validation net gen fast finish_order port ctx hello =
     (if dc_fronts ctx = [] then None
      else (case (if fast then dial_one net gen port (fst (fast_pair ctx)) (snd (fast_pair ctx)) hello else None) of
              Some w \<Rightarrow> Some w
            | None \<Rightarrow> first_win (\<lambda>(f, p). dial_one net gen port f p hello) (finish_order (race_pairs ctx))))"

text \<open>What becomes of the connection: spliced to the winner, given back untouched, given back with the handshake in front, or closed. The second value
  is what is written to the file of the winner.\<close>

datatype tunnel_outcome = ToSpliced dial_winner | ToSkip | ToSkipPrefaced bytes | ToClosed

definition try_tunnel :: "dial_net \<Rightarrow> (nat \<Rightarrow> nat) \<Rightarrow> bool \<Rightarrow> ((string \<times> profile) list \<Rightarrow> (string \<times> profile) list) \<Rightarrow> nat \<Rightarrow> nat \<Rightarrow> byte option
    \<Rightarrow> tcp_read list \<Rightarrow> u16 \<Rightarrow> direct_mode_ctx \<Rightarrow> direct_mode_ctx \<times> string option \<times> tunnel_outcome" where
  "try_tunnel net gen fast finish_order now now' peek reads port ctx =
     (if breaker_tripped now ctx then (ctx, None, ToSkip)
      else if peek \<noteq> Some 0x16 then (ctx, None, ToSkip)
      else (case read_first_tls_record reads of
              Inl _ \<Rightarrow> (ctx, None, ToClosed)
            | Inr hello \<Rightarrow>
                (case dial_with_validation net gen fast finish_order port ctx hello of
                   None \<Rightarrow> (note_failure now' ctx, None, ToSkipPrefaced hello)
                 | Some w \<Rightarrow>
                     (case remember (dw_front w) (pr_id (dw_profile w)) (dc_cache ctx) of
                        (cache, file) \<Rightarrow> ((note_success ctx)\<lparr>dc_cache := cache\<rparr>, file, ToSpliced w)))))"

section \<open>Cut points are inside\<close>

definition cuts :: "nat \<Rightarrow> nat list \<Rightarrow> bool" where
  "cuts n ss \<longleftrightarrow> sorted_wrt (<) ss \<and> (\<forall>s\<in>set ss. 0 < s \<and> s < n)"

lemma remdups_adj_sorted: "sorted xs \<Longrightarrow> sorted_wrt (<) (remdups_adj xs)"
  by (induction xs rule: remdups_adj.induct) (auto simp: order_le_less)

lemma cuts_filter: "cuts n (remdups_adj (sort (filter (\<lambda>s. 0 < s \<and> s < n) raw)))"
  by (auto simp: cuts_def remdups_adj_sorted)

lemma sort_Nil [simp]: "sort xs = [] \<longleftrightarrow> xs = []"
  by (metis length_0_conv length_sort)

lemma set_swap: "i < length xs \<Longrightarrow> j < length xs \<Longrightarrow> mset (swap i j xs) = mset xs"
  unfolding swap_def by (rule mset_swap)

lemma shuffle_mset:
  "\<forall>i\<in>set is. i < length idx \<Longrightarrow> mset (fold (\<lambda>i idx. swap i (i + gen i mod (length idx - i)) idx) is idx) = mset idx"
proof (induction "is" arbitrary: idx)
  case (Cons i "is")
  let ?idx = "swap i (i + gen i mod (length idx - i)) idx"
  have i: "i < length idx" using Cons.prems by simp
  then have "i + gen i mod (length idx - i) < length idx" by (metis add_diff_inverse_nat less_imp_not_less mod_less_divisor nat_add_left_cancel_less zero_less_diff)
  then have "mset ?idx = mset idx" using i set_swap by blast
  moreover have "length ?idx = length idx" by (simp add: swap_def)
  ultimately show ?case using Cons by simp
qed simp

lemma cuts_random: "cuts n (random_splits gen n cnt)"
proof (cases "n \<le> 1 \<or> cnt = 0")
  case False
  define taken where "taken = min cnt (n - 1)"
  define idx where "idx = fold (\<lambda>i idx. swap i (i + gen i mod (length idx - i)) idx) [0..<taken] [1..<n]"
  have "mset idx = mset [1..<n]" unfolding idx_def by (rule shuffle_mset) (auto simp: taken_def)
  then have "distinct idx" "set idx = {1..<n}" by (metis distinct_upt mset_eq_imp_distinct_iff, metis set_mset_mset set_upt)
  then have "distinct (take taken idx)" "set (take taken idx) \<subseteq> {1..<n}" using set_take_subset [of taken idx] by simp_all
  moreover have "random_splits gen n cnt = sort (take taken idx)"
    using False unfolding random_splits_def taken_def idx_def Let_def by simp
  ultimately show ?thesis by (auto simp: cuts_def strict_sorted_iff)
qed (auto simp: cuts_def random_splits_def)

lemma compute_splits_cuts: "cuts (length data) (compute_splits gen p data)"
  unfolding compute_splits_def Let_def using cuts_filter cuts_random by (auto simp: cuts_def)

lemma pieces_concat: "sorted_wrt (<) (prev # ss) \<Longrightarrow> \<forall>s\<in>set ss. s < length data \<Longrightarrow> concat (pieces data prev ss) = drop prev data"
proof (induction ss arbitrary: prev)
  case (Cons s ss)
  have "concat (pieces data s ss) = drop s data" using Cons by simp
  moreover have "prev < s" using Cons.prems by simp
  ultimately show ?case by simp (metis add_diff_inverse_nat append_take_drop_id drop_drop less_imp_not_less add.commute)
qed simp

lemma pieces_nonempty:
  "sorted_wrt (<) (prev # ss) \<Longrightarrow> \<forall>s\<in>set ss. s < length data \<Longrightarrow> prev < length data \<Longrightarrow> [] \<notin> set (pieces data prev ss)"
  by (induction ss arbitrary: prev) auto

lemma fragments_whole: "concat (fragmented_write gen data p) = data"
proof -
  have "cuts (length data) (compute_splits gen p data)" by (rule compute_splits_cuts)
  then have "concat (pieces data 0 (compute_splits gen p data)) = drop 0 data"
    by (intro pieces_concat) (auto simp: cuts_def)
  then show ?thesis by (simp add: fragmented_write_def Let_def)
qed

lemma fragments_nonempty:
  assumes "data \<noteq> []" shows "[] \<notin> set (fragmented_write gen data p)"
proof -
  have "cuts (length data) (compute_splits gen p data)" by (rule compute_splits_cuts)
  then have "[] \<notin> set (pieces data 0 (compute_splits gen p data))" using assms
    by (intro pieces_nonempty) (auto simp: cuts_def)
  then show ?thesis using assms by (auto simp: fragmented_write_def Let_def)
qed

text \<open>A cut point is where a fragment ends.\<close>

lemma pieces_cut:
  "sorted_wrt (<) (prev # ss) \<Longrightarrow> \<forall>s\<in>set ss. s < length data \<Longrightarrow> c \<in> set ss \<Longrightarrow>
    \<exists>us vs. pieces data prev ss = us @ vs \<and> concat us = take (c - prev) (drop prev data)"
proof (induction ss arbitrary: prev)
  case (Cons s ss)
  show ?case
  proof (cases "c = s")
    case True
    then have "pieces data prev (s # ss) = [take (s - prev) (drop prev data)] @ pieces data s ss \<and>
      concat [take (s - prev) (drop prev data)] = take (c - prev) (drop prev data)" by simp
    then show ?thesis by blast
  next
    case False
    then have c: "c \<in> set ss" using Cons.prems by simp
    then obtain us vs where us: "pieces data s ss = us @ vs" "concat us = take (c - s) (drop s data)"
      using Cons.IH [of s] Cons.prems by auto
    have lt: "prev < s" "s < c" using Cons.prems c by auto
    then have eq: "take (s - prev) (drop prev data) @ take (c - s) (drop s data) = take (c - prev) (drop prev data)"
      using take_add [of "s - prev" "c - s" "drop prev data"] by simp
    have "pieces data prev (s # ss) = (take (s - prev) (drop prev data) # us) @ vs" using us by simp
    moreover have "concat (take (s - prev) (drop prev data) # us) = take (c - prev) (drop prev data)" using us eq by simp
    ultimately show ?thesis by blast
  qed
qed simp

section \<open>The name is found\<close>

lemma get_app: "get (pre @ b # post) (length pre) = Some b"
  by (simp add: get_def)

lemma get_range_app: "get_range (pre @ mid @ post) (length pre) (length mid) = Some mid"
  by (simp add: get_range_def)

definition u16b :: "nat \<Rightarrow> bytes" where
  "u16b n = [word_of_nat (n div 256), word_of_nat (n mod 256)]"

lemma length_u16b [simp]: "length (u16b n) = 2"
  by (simp add: u16b_def)

lemma unat_byte_small: "n < 256 \<Longrightarrow> unat (word_of_nat n :: byte) = n"
  by (simp add: unat_of_nat)

lemma be16_u16b [simp]:
  "n < 65536 \<Longrightarrow> be16 (word_of_nat (n div 256)) (word_of_nat (n mod 256)) = n"
  by (simp add: be16_def unat_byte_small less_mult_imp_div_less)

lemma be16_zero: "be16 0 0 = 0"
  by (simp add: be16_def)

text \<open>A ClientHello with a server name: other extensions before it, anything after it.\<close>

definition other_ext :: "nat \<times> bytes \<Rightarrow> bytes" where
  "other_ext = (\<lambda>(t, body). u16b t @ u16b (length body) @ body)"

definition sni_ext :: "bytes \<Rightarrow> bytes" where
  "sni_ext name = u16b 0 @ u16b (length name + 5) @ u16b (length name + 3) @ [0] @ u16b (length name) @ name"

definition hello_front :: "bytes \<Rightarrow> bytes \<Rightarrow> bytes \<Rightarrow> bytes \<Rightarrow> bytes \<Rightarrow> bytes \<Rightarrow> bytes" where
  "hello_front rec_hdr len3 ver_random sid ciphers comps =
     [0x16] @ rec_hdr @ [0x01] @ len3 @ ver_random @ [word_of_nat (length sid)] @ sid @ u16b (length ciphers) @ ciphers
     @ [word_of_nat (length comps)] @ comps"

definition client_hello :: "bytes \<Rightarrow> (nat \<times> bytes) list \<Rightarrow> bytes \<Rightarrow> bytes \<Rightarrow> bytes \<Rightarrow> bytes" where
  "client_hello front before name after rest =
     front @ u16b (length (concat (map other_ext before)) + length (sni_ext name) + length after)
     @ concat (map other_ext before) @ sni_ext name @ after @ rest"

definition front_ok :: "bytes \<Rightarrow> bytes \<Rightarrow> bytes \<Rightarrow> bytes \<Rightarrow> bytes \<Rightarrow> bytes \<Rightarrow> bool" where
  "front_ok rec_hdr len3 ver_random sid ciphers comps \<longleftrightarrow>
     length rec_hdr = 4 \<and> length len3 = 3 \<and> length ver_random = 34 \<and> length sid < 256 \<and> length ciphers < 65536 \<and> length comps < 256"

lemma length_sni_ext: "length (sni_ext name) = length name + 9"
  by (simp add: sni_ext_def)

lemma sni_names_found:
  assumes "length name < 65000" and "data = pre @ [0] @ u16b (length name) @ name @ post"
  shows "sni_names data (length pre) (length pre + 3 + length name) = Some (length pre + 3, length pre + 3 + length name)"
proof -
  have g0: "get data (length pre) = Some 0" using get_app [of pre 0] assms(2) by simp
  have g1: "get data (length pre + 1) = Some (word_of_nat (length name div 256))"
    using get_app [of "pre @ [0]" _ "word_of_nat (length name mod 256) # name @ post"] assms(2) by (simp add: u16b_def)
  have g2: "get data (length pre + 2) = Some (word_of_nat (length name mod 256))"
    using get_app [of "pre @ [0, word_of_nat (length name div 256)]" _ "name @ post"] assms(2) by (simp add: u16b_def)
  show ?thesis
    using assms(1) by (subst sni_names.simps) (simp add: g0 g1 [simplified] g2 [simplified])
qed

lemma sni_found_in_extension:
  assumes "length name < 65000" and "data = pre @ u16b (length name + 3) @ [0] @ u16b (length name) @ name @ post"
  shows "sni_host_range_in_extension data (length pre) (length pre + 5 + length name) = Some (length pre + 5, length pre + 5 + length name)"
proof -
  have "get_range data (length pre) 2 = Some (u16b (length name + 3))"
    using get_range_app [of pre "u16b (length name + 3)"] assms(2) by simp
  then show ?thesis
    using assms(1) sni_names_found [OF assms(1), of data "pre @ u16b (length name + 3)" post] assms(2)
    by (simp add: sni_host_range_in_extension_def u16b_def add.commute add.left_commute)
qed

lemma sni_extensions_step:
  assumes "get_range data i 4 = Some (u16b t @ u16b l)" and "t < 65536" and "l < 65536" and "i + 4 + l \<le> ext_end"
  shows "sni_extensions data i ext_end =
    (if t = 0 then sni_host_range_in_extension data (i + 4) (i + 4 + l) else sni_extensions data (i + 4 + l) ext_end)"
  using assms by (subst sni_extensions.simps) (simp add: u16b_def Let_def)

lemma sni_found_at:
  assumes "length name < 65000" and "data = pre @ sni_ext name @ post" and "length pre + length (sni_ext name) \<le> ext_end"
  shows "sni_extensions data (length pre) ext_end = Some (length pre + 9, length pre + 9 + length name)"
proof -
  have d: "data = (pre @ u16b 0 @ u16b (length name + 5)) @ u16b (length name + 3) @ [0] @ u16b (length name) @ name @ post"
    by (simp add: assms(2) sni_ext_def)
  have hdr: "get_range data (length pre) 4 = Some (u16b 0 @ u16b (length name + 5))"
    using get_range_app [of pre "u16b 0 @ u16b (length name + 5)"] by (simp add: d)
  have "sni_host_range_in_extension data (length pre + 4) (length pre + 4 + (length name + 5)) = Some (length pre + 9, length pre + 9 + length name)"
    using sni_found_in_extension [OF assms(1) d] by (simp add: add.commute add.left_commute)
  then show ?thesis using sni_extensions_step [OF hdr, of ext_end] assms(1,3) by (simp add: length_sni_ext)
qed

lemma length_other_ext: "length (other_ext (t, body)) = length body + 4"
  by (simp add: other_ext_def)

lemma sni_found_after:
  assumes "length name < 65000" and "\<forall>(t, body)\<in>set before. 0 < t \<and> t < 65536 \<and> length body < 65536"
  shows "data = pre @ concat (map other_ext before) @ sni_ext name @ post \<Longrightarrow>
    length pre + length (concat (map other_ext before)) + length (sni_ext name) \<le> ext_end \<Longrightarrow>
    sni_extensions data (length pre) ext_end =
      Some (length pre + length (concat (map other_ext before)) + 9, length pre + length (concat (map other_ext before)) + 9 + length name)"
  using assms(2)
proof (induction before arbitrary: pre)
  case Nil
  then show ?case using sni_found_at [OF assms(1), of data pre post ext_end] by simp
next
  case (Cons e before)
  obtain t body where e: "e = (t, body)" by (cases e)
  have t: "0 < t" "t < 65536" "length body < 65536" using Cons.prems(3) e by auto
  let ?pre = "pre @ other_ext e"
  have d: "data = ?pre @ concat (map other_ext before) @ sni_ext name @ post" using Cons.prems(1) by simp
  have l: "length ?pre = length pre + 4 + length body" by (simp add: e length_other_ext)
  have hdr: "get_range data (length pre) 4 = Some (u16b t @ u16b (length body))"
    using get_range_app [of pre "u16b t @ u16b (length body)"] by (simp add: d e other_ext_def)
  have "sni_extensions data (length ?pre) ext_end =
      Some (length ?pre + length (concat (map other_ext before)) + 9, length ?pre + length (concat (map other_ext before)) + 9 + length name)"
    using Cons.IH [OF d] Cons.prems by simp
  moreover have "length pre + 4 + length body \<le> ext_end" using Cons.prems(2) by (simp add: e length_other_ext)
  then have "sni_extensions data (length pre) ext_end = sni_extensions data (length ?pre) ext_end"
    unfolding l using sni_extensions_step [OF hdr t(2,3), of ext_end] t(1) by simp
  moreover have "length ?pre + length (concat (map other_ext before)) = length pre + length (concat (map other_ext (e # before)))" by simp
  ultimately show ?case by metis
qed

lemma tls_sni_steps:
  assumes "get data 0 = Some 0x16" and "get data 5 = Some 0x01"
    and "get data 43 = Some (word_of_nat sl)" and "sl < 256"
    and "get_range data (44 + sl) 2 = Some (u16b cl)" and "cl < 65536"
    and "get data (46 + sl + cl) = Some (word_of_nat ml)" and "ml < 256"
    and "get_range data (47 + sl + cl + ml) 2 = Some (u16b el)" and "el < 65536"
    and "49 + sl + cl + ml + el \<le> length data"
  shows "tls_sni_host_range data = sni_extensions data (49 + sl + cl + ml) (49 + sl + cl + ml + el)"
proof -
  have u: "unat (word_of_nat sl :: byte) = sl" "unat (word_of_nat ml :: byte) = ml"
    using assms(4,8) by (simp_all only: unat_byte_small)
  have b: "be16 (u16b cl ! 0) (u16b cl ! 1) = cl" "be16 (u16b el ! 0) (u16b el ! 1) = el"
    using assms(6,10) by (simp_all add: u16b_def)
  have n: "44 + sl + 2 = 46 + sl" "46 + sl + cl + 1 = 47 + sl + cl" "47 + sl + cl + ml + 2 = 49 + sl + cl + ml"
    "(0x16 :: byte) \<noteq> 0x16 \<longleftrightarrow> False" "(0x01 :: byte) \<noteq> 0x01 \<longleftrightarrow> False" by simp_all
  show ?thesis
    unfolding tls_sni_host_range_def Let_def assms(1,2,3,5,7,9) bind.bind_lunit n u b if_False
    using assms(11) by simp
qed

lemma sni_found:
  assumes "front_ok rec_hdr len3 ver_random sid ciphers comps" and "length name < 65000"
    and "\<forall>(t, body)\<in>set before. 0 < t \<and> t < 65536 \<and> length body < 65536"
    and "length (concat (map other_ext before)) + length (sni_ext name) + length after < 65536"
    and "front = hello_front rec_hdr len3 ver_random sid ciphers comps"
  shows "tls_sni_host_range (client_hello front before name after rest) =
    Some (length front + 11 + length (concat (map other_ext before)), length front + 11 + length (concat (map other_ext before)) + length name)"
proof -
  let ?data = "client_hello front before name after rest"
  let ?exts = "length (concat (map other_ext before)) + length (sni_ext name) + length after"
  define h :: bytes where "h = [0x16] @ rec_hdr @ [0x01] @ len3 @ ver_random"
  let ?t = "u16b ?exts @ concat (map other_ext before) @ sni_ext name @ after @ rest"
  have len: "length h = 43" using assms(1) by (simp add: front_ok_def h_def)
  have d: "?data = h @ [word_of_nat (length sid)] @ sid @ u16b (length ciphers) @ ciphers @ [word_of_nat (length comps)] @ comps @ ?t"
    by (simp add: client_hello_def assms(5) hello_front_def h_def)
  have lf: "length front = 47 + length sid + length ciphers + length comps"
    using assms(1) by (simp add: assms(5) hello_front_def front_ok_def)
  have g0: "get ?data 0 = Some 0x16" by (simp add: d get_def h_def)
  have g5: "get ?data 5 = Some 0x01"
    using get_app [of "[0x16] @ rec_hdr" 1] assms(1) by (simp add: d front_ok_def h_def)
  have g43: "get ?data 43 = Some (word_of_nat (length sid))" using get_app [of h] len by (simp add: d)
  have gc: "get_range ?data (44 + length sid) 2 = Some (u16b (length ciphers))"
    using get_range_app [of "h @ [word_of_nat (length sid)] @ sid" "u16b (length ciphers)"] len by (simp add: d)
  have gm: "get ?data (46 + length sid + length ciphers) = Some (word_of_nat (length comps))"
    using get_app [of "h @ [word_of_nat (length sid)] @ sid @ u16b (length ciphers) @ ciphers"] len by (simp add: d add.assoc)
  have ge: "get_range ?data (length front) 2 = Some (u16b ?exts)"
    using get_range_app [of front "u16b ?exts"] by (simp add: client_hello_def)
  have "sni_extensions ?data (length (front @ u16b ?exts)) (length front + 2 + ?exts) =
      Some (length (front @ u16b ?exts) + length (concat (map other_ext before)) + 9,
            length (front @ u16b ?exts) + length (concat (map other_ext before)) + 9 + length name)"
    by (rule sni_found_after [OF assms(2,3)]) (simp_all add: client_hello_def)
  then have ext: "sni_extensions ?data (length front + 2) (length front + 2 + ?exts) =
      Some (length front + 11 + length (concat (map other_ext before)), length front + 11 + length (concat (map other_ext before)) + length name)"
    by (simp add: add.commute add.left_commute)
  have lf': "length front + 2 = 49 + length sid + length ciphers + length comps" using lf by simp
  have bound: "49 + length sid + length ciphers + length comps + ?exts \<le> length ?data"
    unfolding lf' [symmetric] by (simp add: client_hello_def)
  have "tls_sni_host_range ?data = sni_extensions ?data (49 + length sid + length ciphers + length comps)
      (49 + length sid + length ciphers + length comps + ?exts)"
    by (rule tls_sni_steps [OF g0 g5 g43 _ gc _ gm _ ge [unfolded lf] assms(4) bound])
      (use assms(1) in \<open>simp_all add: front_ok_def\<close>)
  then show ?thesis using ext unfolding lf' by simp
qed

lemma range_holds_name:
  assumes "front_ok rec_hdr len3 ver_random sid ciphers comps" and "length name < 65000"
    and "\<forall>(t, body)\<in>set before. 0 < t \<and> t < 65536 \<and> length body < 65536"
    and "length (concat (map other_ext before)) + length (sni_ext name) + length after < 65536"
    and "data = client_hello (hello_front rec_hdr len3 ver_random sid ciphers comps) before name after rest"
  shows "\<exists>start. tls_sni_host_range data = Some (start, start + length name) \<and> take (length name) (drop start data) = name
    \<and> start + length name \<le> length data"
proof -
  let ?front = "hello_front rec_hdr len3 ver_random sid ciphers comps"
  let ?start = "length ?front + 11 + length (concat (map other_ext before))"
  have "drop ?start data = name @ after @ rest"
  proof -
    let ?exts = "length (concat (map other_ext before)) + length (sni_ext name) + length after"
    let ?P = "?front @ u16b ?exts @ concat (map other_ext before) @ u16b 0 @ u16b (length name + 5) @ u16b (length name + 3) @ [0] @ u16b (length name)"
    have "data = ?P @ name @ after @ rest" by (simp add: assms(5) client_hello_def sni_ext_def)
    moreover have "length ?P = ?start" by simp
    ultimately show ?thesis by (metis append_eq_conv_conj)
  qed
  moreover have "?start + length name \<le> length data" by (simp add: assms(5) client_hello_def length_sni_ext)
  moreover have "tls_sni_host_range data = Some (?start, ?start + length name)"
    unfolding assms(5) by (rule sni_found [OF assms(1-4) refl])
  ultimately show ?thesis by (intro exI [of _ ?start]) simp
qed

lemma name_cut_point:
  assumes "tls_sni_host_range data = Some (start, stop)" and "start + 1 < stop" and "stop \<le> length data"
    and "pr_strategy p \<in> {Sni, SniPrefixed}"
  shows "start + 1 \<in> set (compute_splits gen p data)"
proof -
  have i: "start + 1 \<in> set [1, 5, start - 8, start - 1, start + 1, start + 7, stop]" "0 < start + 1" "start + 1 < length data"
    using assms(2,3) by simp_all
  define ss where "ss = remdups_adj (sort (filter (\<lambda>p. 0 < p \<and> p < length data) [1, 5, start - 8, start - 1, start + 1, start + 7, stop]))"
  have in_ss: "start + 1 \<in> set ss" unfolding ss_def remdups_adj_set set_sort set_filter using i by blast
  have "sni_splits data = (if ss = [] then None else Some ss)"
    unfolding sni_splits_def assms(1) bind.bind_lunit prod.case Let_def ss_def by (rule refl)
  then have ss: "sni_splits data = Some ss" "start + 1 \<in> set ss" using in_ss by auto
  then have "start + 1 \<in> set (filter (\<lambda>s. 0 < s \<and> s < length data) ([1, 5] @ ss))"
    "start + 1 \<in> set (filter (\<lambda>s. 0 < s \<and> s < length data) ss)" using i by simp_all
  moreover have "\<not> length data < 2" using assms(2,3) by simp
  ultimately show ?thesis using assms(4) ss(1)
    by (auto simp: compute_splits_def Let_def filter_empty_conv)
qed

text \<open>No fragment holds the server name: in every well-formed ClientHello, whatever its extensions, the search finds the name, and the two
  profiles that cut at the name write it in fragments of which some end right after its first byte; the fragments, put together, are the
  ClientHello.\<close>

theorem name_never_in_one_fragment:
  assumes "front_ok rec_hdr len3 ver_random sid ciphers comps" and "length name < 65000" and "2 \<le> length name"
    and "\<forall>(t, body)\<in>set before. 0 < t \<and> t < 65536 \<and> length body < 65536"
    and "length (concat (map other_ext before)) + length (sni_ext name) + length after < 65536"
    and "data = client_hello (hello_front rec_hdr len3 ver_random sid ciphers comps) before name after rest"
    and "pr_strategy p \<in> {Sni, SniPrefixed}"
  shows "\<exists>start us vs. tls_sni_host_range data = Some (start, start + length name) \<and> take (length name) (drop start data) = name
    \<and> fragmented_write gen data p = us @ vs \<and> concat us = take (start + 1) data \<and> concat vs = drop (start + 1) data"
proof -
  obtain start where start: "tls_sni_host_range data = Some (start, start + length name)" "take (length name) (drop start data) = name"
    "start + length name \<le> length data" using range_holds_name [OF assms(1,2,4,5,6)] by blast
  have cut: "start + 1 \<in> set (compute_splits gen p data)"
    by (rule name_cut_point [OF start(1)]) (use assms(3,7) start(3) in simp_all)
  have fw: "fragmented_write gen data p = pieces data 0 (compute_splits gen p data)"
    using cut by (auto simp: fragmented_write_def Let_def)
  obtain us vs where us: "fragmented_write gen data p = us @ vs" "concat us = take (start + 1) data"
    using pieces_cut [of 0 "compute_splits gen p data" data "start + 1"] cut compute_splits_cuts [of data gen p]
    unfolding fw cuts_def by auto
  have "take (start + 1) data @ concat vs = data" using fragments_whole [of gen data p] us by simp
  then have "concat vs = drop (start + 1) data" by (metis append_take_drop_id same_append_eq)
  then show ?thesis using start us by blast
qed

theorem name_never_in_one_fragment_witness:
  "\<exists>data start us vs. tls_sni_host_range data = Some (start, start + 3)
    \<and> fragmented_write id data (PROFILES ! 7) = us @ vs \<and> concat us = take (start + 1) data \<and> concat vs = drop (start + 1) data"
proof -
  let ?name = "[0x61, 0x2E, 0x62] :: bytes"
  let ?before = "[(43, [2, 3, 4])] :: (nat \<times> bytes) list"
  have h: "front_ok [3, 1, 0, 90] [0, 0, 86] (replicate 34 7) [] [0x13, 1] [0]" "length ?name < 65000" "2 \<le> length ?name"
    "\<forall>(t, body)\<in>set ?before. 0 < t \<and> t < 65536 \<and> length body < 65536"
    "length (concat (map other_ext ?before)) + length (sni_ext ?name) + length ([] :: bytes) < 65536"
    "pr_strategy (PROFILES ! 7) \<in> {Sni, SniPrefixed}"
    by (simp_all add: front_ok_def other_ext_def sni_ext_def PROFILES_def)
  show ?thesis
    using name_never_in_one_fragment [OF h(1-5) refl h(6), of "[]" id] unfolding list.size by (simp only: One_nat_def plus_nat.add_0 numeral_3_eq_3 add_Suc) blast
qed

end
