(* ===== verification/Local_Bypass.thy ===== *)
theory Local_Bypass
  imports Direct_Mode Assoc
begin

text \<open>
  Local bypass (the second half of \<^verbatim>\<open>src/src/direct_mode.rs\<close>): the handshake goes in fragments to its own destination. The
  circuit breaker of each host, the strikes of each profile for a host, the profiles still in rotation, the last winner, and the tunnel
  with its raw fallback. Shown: a handshake that reaches its destination this way went in at least two fragments, that are the handshake; the table of
  hosts is bounded and the remembered profile is never the one that does not fragment; and the rotation is never empty.
\<close>

section \<open>The table of hosts\<close>

definition LOCAL_BYPASS_BREAKER_THRESHOLD :: nat where "LOCAL_BYPASS_BREAKER_THRESHOLD = 3"
definition LOCAL_BYPASS_BREAKER_COOLDOWN :: nat where "LOCAL_BYPASS_BREAKER_COOLDOWN = 30000000"
definition LOCAL_BYPASS_BREAKER_MAX_ENTRIES :: nat where "LOCAL_BYPASS_BREAKER_MAX_ENTRIES = 256"
definition LOCAL_BYPASS_PROFILE_STRIKE_THRESHOLD :: nat where "LOCAL_BYPASS_PROFILE_STRIKE_THRESHOLD = 3"
definition LOCAL_BYPASS_PROFILE_FLOOR :: nat where "LOCAL_BYPASS_PROFILE_FLOOR = 2"

record local_bypass_breaker_entry =
  be_consecutive_failures :: u32
  be_until :: "nat option"
  be_profile_fails :: "(string \<times> u32) list"

definition new_bypass_entry :: local_bypass_breaker_entry where
  "new_bypass_entry = \<lparr>be_consecutive_failures = 0, be_until = None, be_profile_fails = []\<rparr>"

type_synonym bypass_map = "(string \<times> local_bypass_breaker_entry) list"

text \<open>The table and the index of the last winner, out of range when there is none.\<close>

record local_bypass_state =
  lb_map :: bypass_map
  lb_last_winner :: nat

definition NO_WINNER :: nat where "NO_WINNER = 2 ^ 64 - 1"

definition breaker_key :: "string \<Rightarrow> string" where
  "breaker_key host = to_ascii_lowercase (strip_port host)"

definition local_bypass_breaker_tripped :: "nat \<Rightarrow> string \<Rightarrow> bypass_map \<Rightarrow> bool" where
  "local_bypass_breaker_tripped now host m =
     (case map_of m (breaker_key host) of
        None \<Rightarrow> False
      | Some entry \<Rightarrow> (case be_until entry of None \<Rightarrow> False | Some until \<Rightarrow> now < until))"

text \<open>An entry that is not tripped comes before every tripped one. Of several that expire first, the first of the table's order goes.\<close>

definition until_le :: "nat option \<Rightarrow> nat option \<Rightarrow> bool" where
  "until_le a b = (case a of None \<Rightarrow> True | Some x \<Rightarrow> (case b of None \<Rightarrow> False | Some y \<Rightarrow> x \<le> y))"

fun expires_first :: "bypass_map \<Rightarrow> (string \<times> nat option) option" where
  "expires_first [] = None"
| "expires_first ((k, e) # m) =
     (case expires_first m of
        None \<Rightarrow> Some (k, be_until e)
      | Some (k', u) \<Rightarrow> if until_le (be_until e) u then Some (k, be_until e) else Some (k', u))"

definition evict_if_at_cap :: "nat \<Rightarrow> string \<Rightarrow> bypass_map \<Rightarrow> bypass_map" where
  "evict_if_at_cap now incoming_key m =
     (if length m < LOCAL_BYPASS_BREAKER_MAX_ENTRIES \<or> map_of m incoming_key \<noteq> None then m
      else
        (let live = filter (\<lambda>(_, e). case be_until e of None \<Rightarrow> False | Some t \<Rightarrow> now < t) m in
         if LOCAL_BYPASS_BREAKER_MAX_ENTRIES \<le> length live
         then (case expires_first live of None \<Rightarrow> live | Some (k, _) \<Rightarrow> AList.delete k live) else live))"

definition saturating_inc :: "u32 \<Rightarrow> u32" where
  "saturating_inc c = (if c = - 1 then c else c + 1)"

definition strikes :: "(string \<times> u32) list \<Rightarrow> string \<Rightarrow> u32" where
  "strikes fails pid = (case map_of fails pid of Some c \<Rightarrow> c | None \<Rightarrow> 0)"

definition strike :: "string option \<Rightarrow> string \<Rightarrow> (string \<times> u32) list \<Rightarrow> (string \<times> u32) list" where
  "strike winner pid fails = (if winner = Some pid then fails else AList.update pid (saturating_inc (strikes fails pid)) fails)"

definition entry_outcome :: "nat \<Rightarrow> string list \<Rightarrow> string option \<Rightarrow> local_bypass_breaker_entry \<Rightarrow> local_bypass_breaker_entry" where
  "entry_outcome now failed_profiles winner entry =
     (let entry1 = entry\<lparr>be_profile_fails := fold (strike winner) failed_profiles (be_profile_fails entry)\<rparr> in
      case winner of
        Some pid \<Rightarrow> entry1\<lparr>be_profile_fails := AList.delete pid (be_profile_fails entry1), be_consecutive_failures := 0, be_until := None\<rparr>
      | None \<Rightarrow>
          if failed_profiles = [] then entry1
          else
            (let n = saturating_inc (be_consecutive_failures entry1); entry2 = entry1\<lparr>be_consecutive_failures := n\<rparr> in
             if LOCAL_BYPASS_BREAKER_THRESHOLD \<le> unat n then entry2\<lparr>be_until := Some (now + LOCAL_BYPASS_BREAKER_COOLDOWN)\<rparr> else entry2))"

definition local_bypass_note_dial_outcome :: "nat \<Rightarrow> string \<Rightarrow> string list \<Rightarrow> string option \<Rightarrow> bypass_map \<Rightarrow> bypass_map" where
  "local_bypass_note_dial_outcome now host failed_profiles winner m =
     (if failed_profiles = [] \<and> winner = None then m
      else
        (let key = breaker_key host;
             m1 = evict_if_at_cap now key m;
             entry = (case map_of m1 key of Some e \<Rightarrow> e | None \<Rightarrow> new_bypass_entry);
             entry' = entry_outcome now failed_profiles winner entry
         in if be_consecutive_failures entry' = 0 \<and> be_until entry' = None \<and> be_profile_fails entry' = []
            then AList.delete key m1 else AList.update key entry' m1))"

section \<open>The profiles in rotation\<close>

definition is_fragmenting_profile :: "profile \<Rightarrow> bool" where
  "is_fragmenting_profile p \<longleftrightarrow> pr_strategy p \<noteq> Passthrough"

definition available_profile_ids :: "(string \<times> u32) list \<Rightarrow> nat \<Rightarrow> nat \<Rightarrow> string list" where
  "available_profile_ids fails threshold floor' =
     (let pool = map pr_id (filter is_fragmenting_profile PROFILES);
          filtered = filter (\<lambda>i. unat (strikes fails i) < threshold) pool
      in if length filtered < floor' then pool else filtered)"

definition local_bypass_available_profile_ids :: "string \<Rightarrow> bypass_map \<Rightarrow> string list" where
  "local_bypass_available_profile_ids host m =
     available_profile_ids (case map_of m (breaker_key host) of Some e \<Rightarrow> be_profile_fails e | None \<Rightarrow> [])
       LOCAL_BYPASS_PROFILE_STRIKE_THRESHOLD LOCAL_BYPASS_PROFILE_FLOOR"

definition local_bypass_preferred_profile :: "nat \<Rightarrow> profile" where
  "local_bypass_preferred_profile idx =
     (if idx < length PROFILES \<and> is_fragmenting_profile (PROFILES ! idx) then PROFILES ! idx else default_profile)"

definition local_bypass_remember :: "profile \<Rightarrow> nat \<Rightarrow> nat" where
  "local_bypass_remember p idx =
     (if \<not> is_fragmenting_profile p then idx
      else (let i = length (takeWhile (\<lambda>q. pr_id q \<noteq> pr_id p) PROFILES) in if i < length PROFILES then i else idx))"

section \<open>The tunnel\<close>

definition preferred_for :: "string list \<Rightarrow> nat \<Rightarrow> profile" where
  "preferred_for allowed_ids idx =
     (let global = local_bypass_preferred_profile idx in
      if pr_id global \<in> set allowed_ids then global
      else if pr_id default_profile \<in> set allowed_ids then default_profile
      else (case find (\<lambda>p. pr_id p \<in> set allowed_ids) PROFILES of Some p \<Rightarrow> p | None \<Rightarrow> default_profile))"

definition bypass_race :: "string list \<Rightarrow> profile \<Rightarrow> profile list" where
  "bypass_race allowed_ids preferred =
     filter (\<lambda>p. \<not> (pr_id p = pr_id preferred \<or> \<not> is_fragmenting_profile p \<or> pr_id p \<notin> set allowed_ids)) PROFILES"

definition local_bypass_raw_fallback :: "string \<Rightarrow> string option \<Rightarrow> string" where
  "local_bypass_raw_fallback host dial_target =
     trim_end_matches (CHR '']'') (dropWhile (\<lambda>c. c = CHR ''['') (case dial_target of Some t \<Rightarrow> t | None \<Rightarrow> host))"

text \<open>What becomes of the connection: given back, closed, spliced to the winner, or the handshake replayed as it is to an address. The tunnel reads the state \<open>st\<close> and
  notes its outcome later, in the state \<open>st'\<close> that other connections may have left by then. \<open>fast\<close> tells whether the first dial ended in its time, \<open>finish_order\<close>
  the dials of the race that did, as they did.\<close>

datatype bypass_outcome = BoSkip | BoClosed | BoSpliced dial_winner | BoRaw string bytes

definition try_local_bypass_tunnel :: "dial_net \<Rightarrow> (nat \<Rightarrow> nat) \<Rightarrow> bool \<Rightarrow> (profile list \<Rightarrow> profile list) \<Rightarrow> nat \<Rightarrow> nat \<Rightarrow> byte option \<Rightarrow> tcp_read list
    \<Rightarrow> string \<Rightarrow> u16 \<Rightarrow> string option \<Rightarrow> local_bypass_state \<Rightarrow> local_bypass_state \<Rightarrow> local_bypass_state \<times> bypass_outcome" where
  "try_local_bypass_tunnel net gen fast finish_order now now' peek reads host port dial_target st st' =
     (if peek \<noteq> Some 0x16 then (st', BoSkip)
      else (case read_first_tls_record reads of
        Inl _ \<Rightarrow> (st', BoClosed)
      | Inr hello \<Rightarrow>
          if local_bypass_breaker_tripped now host (lb_map st) then (st', BoRaw (local_bypass_raw_fallback host dial_target) hello)
          else
            (let target = (case dial_target of Some t \<Rightarrow> t | None \<Rightarrow> host);
                 allowed_ids = local_bypass_available_profile_ids host (lb_map st);
                 preferred = preferred_for allowed_ids (lb_last_winner st);
                 racers = bypass_race allowed_ids preferred
             in case (if fast then dial_one net gen port target preferred hello else None) of
                  Some w \<Rightarrow>
                    (st'\<lparr>lb_map := local_bypass_note_dial_outcome now' host [] (Some (pr_id (dw_profile w))) (lb_map st'),
                        lb_last_winner := local_bypass_remember (dw_profile w) (lb_last_winner st')\<rparr>, BoSpliced w)
                | None \<Rightarrow>
                    (case first_win (\<lambda>p. dial_one net gen port target p hello) (finish_order racers) of
                       None \<Rightarrow>
                         (st'\<lparr>lb_map := local_bypass_note_dial_outcome now' host (pr_id preferred # map pr_id racers) None (lb_map st')\<rparr>,
                          BoRaw (local_bypass_raw_fallback host dial_target) hello)
                     | Some w \<Rightarrow>
                         (st'\<lparr>lb_map := local_bypass_note_dial_outcome now' host
                                (if pr_id preferred = pr_id (dw_profile w) then [] else [pr_id preferred]) (Some (pr_id (dw_profile w))) (lb_map st'),
                             lb_last_winner := local_bypass_remember (dw_profile w) (lb_last_winner st')\<rparr>, BoSpliced w)))))"

section \<open>At least two fragments\<close>

lemma equal_from_empty: "equal_from n k is prev = [] \<Longrightarrow> i \<in> set is \<Longrightarrow> (n * i) div k \<in> {0, n, prev}"
  by (induction n k "is" prev rule: equal_from.induct) (auto simp: Let_def split: if_splits)

lemma last_cut:
  fixes n k :: nat
  assumes "2 \<le> n" and "2 \<le> k" shows "0 < (n * (k - 1)) div k" and "(n * (k - 1)) div k < n"
proof -
  have "k \<le> 2 * (k - 1)" using assms(2) by simp
  also have "\<dots> \<le> n * (k - 1)" using assms(1) by (rule mult_le_mono1)
  finally show "0 < (n * (k - 1)) div k" using assms(2) by (simp add: div_greater_zero_iff)
  have "n * (k - 1) < n * k" using assms by simp
  then show "(n * (k - 1)) div k < n" by (simp add: less_mult_imp_div_less)
qed

lemma equal_from_inside: "s \<in> set (equal_from n k is prev) \<Longrightarrow> \<exists>i\<in>set is. s = (n * i) div k \<and> s \<noteq> 0 \<and> s \<noteq> n"
  by (induction n k "is" prev rule: equal_from.induct) (auto simp: Let_def split: if_splits)

lemma equal_splits_nonempty:
  assumes "2 \<le> n" and "2 \<le> k" shows "filter (\<lambda>s. 0 < s \<and> s < n) (equal_splits n k) \<noteq> []"
proof -
  have "k - 1 \<in> set [1..<k]" using assms(2) by auto
  then have "equal_from n k [1..<k] 0 = [] \<Longrightarrow> (n * (k - 1)) div k \<in> {0, n, 0}" using equal_from_empty by blast
  moreover have "(n * (k - 1)) div k \<notin> {0, n, 0}" using last_cut [OF assms] by (simp del: div_eq_0_iff)
  ultimately have "equal_from n k [1..<k] 0 \<noteq> []" by blast
  then obtain s where s: "s \<in> set (equal_from n k [1..<k] 0)" by (metis list.set_intros(1) neq_Nil_conv)
  then obtain i where i: "i < k" "s = (n * i) div k" "s \<noteq> 0" "s \<noteq> n" using equal_from_inside [OF s] by (metis atLeastLessThan_iff set_upt)
  have "n * i \<le> n * k" using i(1) by simp
  then have "s \<le> (n * k) div k" unfolding i(2) by (rule div_le_mono)
  then have "s \<le> n" using assms(2) by simp
  then show ?thesis using s i assms by (auto simp: equal_splits_def filter_empty_conv)
qed

lemma random_splits_nonempty: "2 \<le> n \<Longrightarrow> 0 < c \<Longrightarrow> random_splits gen n c \<noteq> []"
proof -
  assume a: "2 \<le> n" "0 < c"
  define taken where "taken = min c (n - 1)"
  define idx where "idx = fold (\<lambda>i idx. swap i (i + gen i mod (length idx - i)) idx) [0..<taken] [1..<n]"
  have "mset idx = mset [1..<n]" unfolding idx_def by (rule shuffle_mset) (auto simp: taken_def)
  then have "length idx = n - 1" using mset_eq_length by fastforce
  then have "length (sort (take taken idx)) \<noteq> 0" using a by (simp add: taken_def)
  moreover have "random_splits gen n c = sort (take taken idx)"
    using a unfolding random_splits_def taken_def idx_def Let_def by simp
  ultimately show ?thesis by fastforce
qed

lemma remdups_adj_sort_empty [simp]: "remdups_adj (sort xs) = [] \<longleftrightarrow> xs = []"
  by simp

lemma fragmenting_cuts:
  assumes "is_fragmenting_profile p" and "2 \<le> pr_num_chunks p" and "2 \<le> length data"
  shows "compute_splits gen p data \<noteq> []"
proof (cases "pr_strategy p = Equal")
  case True
  then show ?thesis using equal_splits_nonempty [OF assms(3,2)] assms(3)
    by (simp add: compute_splits_def Let_def)
next
  case False
  then show ?thesis using random_splits_nonempty [OF assms(3), of "pr_num_chunks p - 1" gen] assms
    by (auto simp: compute_splits_def Let_def is_fragmenting_profile_def)
qed

lemma length_pieces [simp]: "length (pieces data prev ss) = Suc (length ss)"
  by (induction ss arbitrary: prev) auto

lemma fragmenting_fragments:
  assumes "is_fragmenting_profile p" and "2 \<le> pr_num_chunks p" and "2 \<le> length data"
  shows "2 \<le> length (fragmented_write gen data p)"
  using fragmenting_cuts [OF assms, of gen] by (cases "compute_splits gen p data") (simp_all add: fragmented_write_def Let_def)

text \<open>Every profile that fragments cuts into two at least.\<close>

lemma profiles_chunks: "p \<in> set PROFILES \<Longrightarrow> is_fragmenting_profile p \<Longrightarrow> 2 \<le> pr_num_chunks p"
  by (auto simp: PROFILES_def is_fragmenting_profile_def)

lemma default_fragments: "default_profile \<in> set PROFILES" "is_fragmenting_profile default_profile"
  by (simp_all add: default_profile_def profile_by_id_def DEFAULT_PROFILE_ID_def PROFILES_def is_fragmenting_profile_def)

section \<open>The rotation\<close>

definition in_pool :: "profile \<Rightarrow> bool" where
  "in_pool p \<longleftrightarrow> p \<in> set PROFILES \<and> is_fragmenting_profile p"

lemma pool_by_id: "p \<in> set PROFILES \<Longrightarrow> q \<in> set PROFILES \<Longrightarrow> pr_id p = pr_id q \<Longrightarrow> p = q"
  by (auto simp: PROFILES_def)

lemma available_in_pool: "i \<in> set (available_profile_ids fails t f) \<Longrightarrow> \<exists>p. in_pool p \<and> pr_id p = i"
  by (auto simp: available_profile_ids_def Let_def in_pool_def split: if_splits)

lemma pool_size: "length (filter is_fragmenting_profile PROFILES) = 7"
  by (simp add: PROFILES_def is_fragmenting_profile_def)

lemma available_floor: "f \<le> 7 \<Longrightarrow> f \<le> length (available_profile_ids fails t f)"
  by (simp add: available_profile_ids_def Let_def pool_size)

lemma preferred_in_pool:
  assumes "\<And>i. i \<in> set allowed_ids \<Longrightarrow> \<exists>p. in_pool p \<and> pr_id p = i"
  shows "in_pool (preferred_for allowed_ids idx)"
proof -
  have d: "in_pool default_profile" using default_fragments by (simp add: in_pool_def)
  have g: "in_pool (local_bypass_preferred_profile idx)"
    using d by (simp add: local_bypass_preferred_profile_def in_pool_def)
  have f: "in_pool p" if "find (\<lambda>p. pr_id p \<in> set allowed_ids) PROFILES = Some p" for p
  proof -
    have p: "p \<in> set PROFILES" "pr_id p \<in> set allowed_ids" using that by (auto simp: find_Some_iff)
    then obtain q where "in_pool q" "pr_id q = pr_id p" using assms by blast
    then show ?thesis using p pool_by_id in_pool_def by metis
  qed
  show ?thesis using d g f by (auto simp: preferred_for_def Let_def split: option.splits)
qed

lemma race_in_pool: "p \<in> set (bypass_race allowed_ids preferred) \<Longrightarrow> in_pool p"
  by (auto simp: bypass_race_def in_pool_def)

lemma dial_one_winner: "dial_one net gen port front p hello = Some w \<Longrightarrow> dw_profile w = p \<and> dw_sent w = fragmented_write gen hello p"
  by (auto simp: dial_one_def Let_def split: option.splits if_splits)

lemma first_win_some: "first_win f xs = Some w \<Longrightarrow> \<exists>x\<in>set xs. f x = Some w"
  by (induction xs) (auto split: option.splits)

lemma read_hello_long: "read_hello buf evs = Inr hello \<Longrightarrow> 5 \<le> length hello"
  by (induction buf evs rule: read_hello.induct) (auto simp: Let_def split: if_splits)

text \<open>The winner of a tunnel was of the pool.\<close>

lemma spliced_winner:
  assumes "try_local_bypass_tunnel net gen fast finish_order now now' peek reads host port dial_target st st' = (st'', BoSpliced w)"
    and "\<forall>ps. set (finish_order ps) \<subseteq> set ps"
  shows "\<exists>hello. read_first_tls_record reads = Inr hello \<and> in_pool (dw_profile w) \<and> dw_sent w = fragmented_write gen hello (dw_profile w)"
proof -
  let ?target = "case dial_target of Some t \<Rightarrow> t | None \<Rightarrow> host"
  let ?allowed = "local_bypass_available_profile_ids host (lb_map st)"
  let ?pref = "preferred_for ?allowed (lb_last_winner st)"
  obtain hello where h: "read_first_tls_record reads = Inr hello"
    using assms(1) by (auto simp: try_local_bypass_tunnel_def split: if_splits sum.splits)
  have "\<exists>p. in_pool p \<and> dial_one net gen port ?target p hello = Some w"
  proof (cases "if fast then dial_one net gen port ?target ?pref hello else None")
    case None
    then have "first_win (\<lambda>p. dial_one net gen port ?target p hello) (finish_order (bypass_race ?allowed ?pref)) = Some w"
      using assms(1) h by (auto simp: try_local_bypass_tunnel_def Let_def split: if_splits option.splits)
    from first_win_some [OF this] show ?thesis using assms(2) race_in_pool by blast
  next
    case (Some w')
    then have "w' = w" using assms(1) h by (auto simp: try_local_bypass_tunnel_def Let_def split: if_splits option.splits)
    moreover have "in_pool ?pref"
      by (rule preferred_in_pool) (auto simp: local_bypass_available_profile_ids_def dest: available_in_pool)
    ultimately show ?thesis using Some by (auto split: if_splits)
  qed
  then show ?thesis using h dial_one_winner by metis
qed

text \<open>A handshake that reaches its destination by the local bypass went there in fragments, two at least and none of them empty, which put together are
  the handshake, with a profile that fragments, whatever was remembered of the host and of the last winner.\<close>

theorem bypass_sends_fragments:
  assumes "try_local_bypass_tunnel net gen fast finish_order now now' peek reads host port dial_target st st' = (st'', BoSpliced w)"
    and "\<forall>ps. set (finish_order ps) \<subseteq> set ps"
  shows "is_fragmenting_profile (dw_profile w) \<and> 2 \<le> length (dw_sent w) \<and> [] \<notin> set (dw_sent w)
    \<and> read_first_tls_record reads = Inr (concat (dw_sent w))"
proof -
  obtain hello where h: "read_first_tls_record reads = Inr hello" "in_pool (dw_profile w)" "dw_sent w = fragmented_write gen hello (dw_profile w)"
    using spliced_winner [OF assms] by blast
  have "5 \<le> length hello" using h(1) read_hello_long by (simp add: read_first_tls_record_def)
  then have l: "2 \<le> length hello" "hello \<noteq> []" by auto
  have "2 \<le> length (dw_sent w)"
    unfolding h(3) using h(2) l(1) profiles_chunks by (intro fragmenting_fragments) (auto simp: in_pool_def)
  then show ?thesis using h fragments_whole fragments_nonempty [OF l(2)] by (auto simp: in_pool_def)
qed

theorem bypass_sends_fragments_witness:
  "\<exists>w. snd (try_local_bypass_tunnel (\<lambda>_ _ _. Some [0x16]) id True id 0 0 (Some 0x16) [TrBytes [0x16, 3, 1, 0, 2, 9, 9]] ''a.b'' 443 None
      \<lparr>lb_map = [], lb_last_winner = NO_WINNER\<rparr> \<lparr>lb_map = [], lb_last_winner = NO_WINNER\<rparr>) = BoSpliced w
    \<and> 2 \<le> length (dw_sent w) \<and> concat (dw_sent w) = [0x16, 3, 1, 0, 2, 9, 9]"
proof -
  let ?st = "\<lparr>lb_map = [], lb_last_winner = NO_WINNER\<rparr>"
  let ?t = "try_local_bypass_tunnel (\<lambda>_ _ _. Some [0x16]) id True id 0 0 (Some 0x16) [TrBytes [0x16, 3, 1, 0, 2, 9, 9]] ''a.b'' 443 None ?st ?st"
  have r: "read_first_tls_record [TrBytes [0x16, 3, 1, 0, 2, 9, 9]] = Inr [0x16, 3, 1, 0, 2, 9, 9]"
    by (simp add: read_first_tls_record_def be16_def)
  then obtain st'' w where w: "?t = (st'', BoSpliced w)"
    by (simp add: try_local_bypass_tunnel_def local_bypass_breaker_tripped_def dial_one_def Let_def)
  then show ?thesis using bypass_sends_fragments [OF w] r by auto
qed

end
